(* ===== verification/JsPrelude.thy ===== *)
theory JsPrelude
  imports Complex_Main "HOL-Library.Sublist"
begin

text \<open>
  What every component of the library uses: the parts of JavaScript and jQuery that the
  sources call (number printing, \<open>parseInt\<close>, \<open>String.split\<close>, \<open>Array.join\<close>,
  \<open>$.trim\<close>, \<open>Array.splice\<close>, \<open>$.inArray\<close>), and the generic contracts
  (\<open>event_machine\<close>, \<open>field_codec\<close>) that the components interpret.
  JavaScript numbers are modelled exactly (\<open>int\<close>, or \<open>rat\<close> where the code
  divides); a number that can be \<open>NaN\<close> is an \<open>option\<close> with \<open>None\<close> for NaN.
\<close>

named_theorems js_defs \<open>definitions unfolded when a component is evaluated\<close>

section \<open>Characters and numerals\<close>

definition digit_char :: "nat \<Rightarrow> char" where
  "digit_char n = ''0123456789'' ! n"

definition digit_val :: "char \<Rightarrow> nat" where
  "digit_val c = (of_char c :: nat) - 48"

definition is_digit :: "char \<Rightarrow> bool" where
  "is_digit c = (48 \<le> (of_char c :: nat) \<and> (of_char c :: nat) \<le> 57)"

definition is_space :: "char \<Rightarrow> bool" where
  "is_space c = (of_char c \<in> {9, 10, 11, 12, 13, 32, 160 :: nat})"

lemma lt_10_cases:
  assumes "n < (10::nat)"
  shows "n = 0 \<or> n = 1 \<or> n = 2 \<or> n = 3 \<or> n = 4 \<or> n = 5 \<or> n = 6 \<or> n = 7 \<or> n = 8 \<or> n = 9"
  using assms by presburger

lemma digit_char_props:
  assumes "n < 10"
  shows "digit_val (digit_char n) = n" and "is_digit (digit_char n)"
    and "\<not> is_space (digit_char n)" and "digit_char n \<noteq> CHR ''-''"
    and "digit_char n \<noteq> CHR ''+''"
  using lt_10_cases [OF assms]
  by (auto simp: digit_char_def digit_val_def is_digit_def is_space_def)

lemma is_digit_not_space: "is_digit c \<Longrightarrow> \<not> is_space c"
  by (auto simp: is_digit_def is_space_def)

lemma is_digit_minus [simp]: "\<not> is_digit (CHR ''-'')" "\<not> is_space (CHR ''-'')"
  "\<not> is_digit (CHR ''+'')" "\<not> is_digit (CHR ''/'')" "\<not> is_digit (CHR '':'')"
  "\<not> is_digit (CHR '' '')" "\<not> is_digit (CHR '','')" "\<not> is_digit (CHR ''.'')"
  by (simp_all add: is_digit_def is_space_def)

section \<open>Printing numbers\<close>

fun show_nat :: "nat \<Rightarrow> string" where
  "show_nat n = (if n < 10 then [digit_char n] else show_nat (n div 10) @ [digit_char (n mod 10)])"

declare show_nat.simps [simp del]

text \<open>\<open>String(i)\<close> of an integral number.\<close>

definition show_int :: "int \<Rightarrow> string" where
  "show_int i = (if i < 0 then CHR ''-'' # show_nat (nat (- i)) else show_nat (nat i))"

text \<open>\<open>(n<10?"0":"")+n\<close>, the padding used by the date and time fields.\<close>

definition pad2 :: "int \<Rightarrow> string" where
  "pad2 i = (if i < 10 then CHR ''0'' # show_int i else show_int i)"

lemma show_nat_nonempty [simp]: "show_nat n \<noteq> []"
  by (subst show_nat.simps) simp

lemma show_int_nonempty [simp]: "show_int i \<noteq> []"
  by (simp add: show_int_def)

lemma show_nat_digits: "\<forall>c \<in> set (show_nat n). is_digit c"
proof (induction n rule: show_nat.induct)
  case (1 n)
  show ?case
    using "1.IH" by (subst show_nat.simps) (auto simp: digit_char_props)
qed

lemma show_nat_1: "n < 10 \<Longrightarrow> show_nat n = [digit_char n]"
  by (subst show_nat.simps) simp

lemma show_nat_2: "10 \<le> n \<Longrightarrow> n < 100 \<Longrightarrow> show_nat n = [digit_char (n div 10), digit_char (n mod 10)]"
  by (subst show_nat.simps) (simp add: show_nat_1)

definition digits_value :: "string \<Rightarrow> nat" where
  "digits_value ds = foldl (\<lambda>a c. 10 * a + digit_val c) 0 ds"

lemma digits_value_snoc: "digits_value (ds @ [c]) = 10 * digits_value ds + digit_val c"
  by (simp add: digits_value_def)

lemma digits_value_zero: "digits_value (CHR ''0'' # ds) = digits_value ds"
  by (simp add: digits_value_def digit_val_def)

lemma digits_value_show_nat [simp]: "digits_value (show_nat n) = n"
proof (induction n rule: show_nat.induct)
  case (1 n)
  show ?case
  proof (cases "n < 10")
    case True
    then show ?thesis
      by (simp add: show_nat_1 digits_value_def digit_char_props)
  next
    case False
    then have "digits_value (show_nat n) = 10 * digits_value (show_nat (n div 10)) + n mod 10"
      by (subst show_nat.simps) (simp add: digits_value_snoc digit_char_props)
    with "1.IH" False show ?thesis by simp
  qed
qed

section \<open>Parsing numbers\<close>

text \<open>
  \<open>parseInt(s,10)\<close>: skip white space, an optional sign, then the longest run of digits;
  \<open>None\<close> is NaN. \<open>parse_int_auto\<close> is \<open>parseInt(s)\<close> with no radix, which reads a
  \<open>0x\<close> prefix as hexadecimal.
\<close>

definition split_sign :: "string \<Rightarrow> int \<times> string" where
  "split_sign s = (case s of
      [] \<Rightarrow> (1, [])
    | c # cs \<Rightarrow> if c = CHR ''-'' then (- 1, cs) else if c = CHR ''+'' then (1, cs) else (1, c # cs))"

definition parse_int :: "string \<Rightarrow> int option" where
  "parse_int s =
     (let p = split_sign (dropWhile is_space s); ds = takeWhile is_digit (snd p)
      in if ds = [] then None else Some (fst p * int (digits_value ds)))"

definition hex_val :: "char \<Rightarrow> nat option" where
  "hex_val c = (let k = (of_char c :: nat) in
      if 48 \<le> k \<and> k \<le> 57 then Some (k - 48)
      else if 97 \<le> k \<and> k \<le> 102 then Some (k - 87)
      else if 65 \<le> k \<and> k \<le> 70 then Some (k - 55) else None)"

definition hex_value :: "string \<Rightarrow> nat" where
  "hex_value ds = foldl (\<lambda>a c. 16 * a + the (hex_val c)) 0 ds"

definition hex_prefix :: "string \<Rightarrow> bool" where
  "hex_prefix u = (2 \<le> length u \<and> u ! 0 = CHR ''0'' \<and> (u ! 1 = CHR ''x'' \<or> u ! 1 = CHR ''X''))"

definition parse_int_auto :: "string \<Rightarrow> int option" where
  "parse_int_auto s =
     (let p = split_sign (dropWhile is_space s); u = snd p
      in if hex_prefix u
         then (let ds = takeWhile (\<lambda>c. hex_val c \<noteq> None) (drop 2 u)
               in if ds = [] then None else Some (fst p * int (hex_value ds)))
         else parse_int s)"

text \<open>The idiom \<open>parseInt(s)||d\<close>: NaN and zero both give the default.\<close>

definition or_default :: "int option \<Rightarrow> int \<Rightarrow> int" where
  "or_default v d = (case v of None \<Rightarrow> d | Some i \<Rightarrow> if i = 0 then d else i)"

lemma or_default_zero [simp]: "or_default (Some i) 0 = i"
  by (simp add: or_default_def)

text \<open>
  \<open>!isNaN(s)\<close> for a string: whether \<open>Number(s)\<close> reads it as a number (white space
  only is zero, otherwise a hexadecimal, octal, binary or decimal literal).
\<close>

definition exponent_part :: "string \<Rightarrow> bool" where
  "exponent_part u = (u = [] \<or> (hd u = CHR ''e'' \<or> hd u = CHR ''E'') \<and>
     (let v = snd (split_sign (tl u)) in v \<noteq> [] \<and> list_all is_digit v))"

definition unsigned_decimal :: "string \<Rightarrow> bool" where
  "unsigned_decimal u = (u = ''Infinity'' \<or>
     (let ip = takeWhile is_digit u; r = dropWhile is_digit u
      in if r \<noteq> [] \<and> hd r = CHR ''.''
         then (ip \<noteq> [] \<or> takeWhile is_digit (tl r) \<noteq> []) \<and> exponent_part (dropWhile is_digit (tl r))
         else ip \<noteq> [] \<and> exponent_part r))"

definition radix_literal :: "string \<Rightarrow> bool" where
  "radix_literal u = (3 \<le> length u \<and> u ! 0 = CHR ''0'' \<and>
     (let c = u ! 1; ds = drop 2 u
      in (c = CHR ''x'' \<or> c = CHR ''X'') \<and> list_all (\<lambda>d. hex_val d \<noteq> None) ds
       \<or> (c = CHR ''o'' \<or> c = CHR ''O'') \<and> list_all (\<lambda>d. is_digit d \<and> digit_val d < 8) ds
       \<or> (c = CHR ''b'' \<or> c = CHR ''B'') \<and> list_all (\<lambda>d. is_digit d \<and> digit_val d < 2) ds))"

definition numeric_string :: "string \<Rightarrow> bool" where
  "numeric_string s =
     (let t = rev (dropWhile is_space (rev (dropWhile is_space s)))
      in t = [] \<or> radix_literal t \<or> unsigned_decimal (snd (split_sign t)))"

text \<open>\<open>parseFloat(s)\<close> of a finite number\<close>

definition parse_float :: "string \<Rightarrow> rat option" where
  "parse_float s0 =
     (case split_sign (dropWhile is_space s0) of
        (sg, s) \<Rightarrow>
          let ip = takeWhile is_digit s; r = dropWhile is_digit s;
              fp = (if r \<noteq> [] \<and> hd r = CHR ''.'' then takeWhile is_digit (tl r) else []);
              r2 = (if r \<noteq> [] \<and> hd r = CHR ''.'' then dropWhile is_digit (tl r) else r);
              es = split_sign (tl r2); ed = takeWhile is_digit (snd es);
              ex = (if r2 \<noteq> [] \<and> (hd r2 = CHR ''e'' \<or> hd r2 = CHR ''E'') then int (digits_value ed) * fst es else 0);
              m = of_int sg * of_nat (digits_value (ip @ fp)) / 10 ^ length fp
          in if ip = [] \<and> fp = [] then None
             else Some (if ex \<ge> 0 then m * 10 ^ nat ex else m / 10 ^ nat (- ex)))"

lemma takeWhile_digits:
  "\<forall>c \<in> set ds. is_digit c \<Longrightarrow> rest = [] \<or> \<not> is_digit (hd rest) \<Longrightarrow>
   takeWhile is_digit (ds @ rest) = ds"
  by (cases rest) (auto simp: takeWhile_append)

lemma parse_int_digits:
  assumes "\<forall>c \<in> set ds. is_digit c" and "ds \<noteq> []" and "rest = [] \<or> \<not> is_digit (hd rest)"
  shows "parse_int (ds @ rest) = Some (int (digits_value ds))"
proof -
  obtain c cs where ds: "ds = c # cs" using assms(2) by (cases ds) auto
  with assms(1) have c: "is_digit c" by simp
  then have "c \<noteq> CHR ''-''" "c \<noteq> CHR ''+''" and "\<not> is_space c"
    by (auto simp: is_digit_not_space)
  then have "split_sign (dropWhile is_space (ds @ rest)) = (1, ds @ rest)"
    by (simp add: ds split_sign_def)
  then show ?thesis
    using takeWhile_digits [OF assms(1,3)] assms(2) by (simp add: parse_int_def Let_def)
qed

lemma parse_int_show_int:
  assumes "rest = [] \<or> \<not> is_digit (hd rest)"
  shows "parse_int (show_int i @ rest) = Some i"
proof (cases "i < 0")
  case True
  have "takeWhile is_digit (show_nat (nat (- i)) @ rest) = show_nat (nat (- i))"
    by (rule takeWhile_digits) (use show_nat_digits assms in auto)
  with True show ?thesis
    by (simp add: show_int_def parse_int_def split_sign_def Let_def)
next
  case False
  then show ?thesis
    using parse_int_digits [OF show_nat_digits _ assms] by (simp add: show_int_def)
qed

lemma show_int_no_prefix: "\<not> hex_prefix (snd (split_sign (show_int i)))"
proof -
  have sn: "snd (split_sign (show_int i)) = show_nat (nat \<bar>i\<bar>)"
  proof (cases "show_nat (nat i)")
    case (Cons c cs)
    have "is_digit c" using show_nat_digits [of "nat i"] Cons by simp
    then have "c \<noteq> CHR ''-''" "c \<noteq> CHR ''+''" by auto
    then show ?thesis using Cons by (simp add: show_int_def split_sign_def)
  qed simp
  have "is_digit (show_nat (nat \<bar>i\<bar>) ! 1)" if "2 \<le> length (show_nat (nat \<bar>i\<bar>))"
    using show_nat_digits [of "nat \<bar>i\<bar>"] nth_mem [of 1 "show_nat (nat \<bar>i\<bar>)"] that by simp
  then show ?thesis unfolding sn by (auto simp: is_digit_def hex_prefix_def)
qed

lemma show_int_chars: "c \<in> set (show_int i) \<Longrightarrow> is_digit c \<or> c = CHR ''-''"
  using show_nat_digits [of "nat i"] show_nat_digits [of "nat (- i)"]
  by (auto simp: show_int_def split: if_splits)

lemma parse_int_auto_show_int [simp]: "parse_int_auto (show_int i) = Some i"
proof -
  have "show_int i \<noteq> [] \<and> \<not> is_space (hd (show_int i))"
    using show_int_chars [of "hd (show_int i)" i] by (auto simp: is_digit_not_space)
  then have "dropWhile is_space (show_int i) = show_int i" by (cases "show_int i") auto
  then show ?thesis
    using show_int_no_prefix [of i] parse_int_show_int [of "[]" i]
    by (simp add: parse_int_auto_def Let_def)
qed

lemma parse_int_show_int_0 [simp]: "parse_int (show_int i) = Some i"
  using parse_int_show_int [of "[]" i] by simp

lemma pad2_digits: "0 \<le> i \<Longrightarrow> \<forall>c \<in> set (pad2 i). is_digit c"
  using show_nat_digits by (auto simp: pad2_def show_int_def is_digit_def)

lemma pad2_nonempty [simp]: "pad2 i \<noteq> []"
  by (simp add: pad2_def)

lemma parse_int_pad2:
  assumes "0 \<le> i" and "rest = [] \<or> \<not> is_digit (hd rest)"
  shows "parse_int (pad2 i @ rest) = Some i"
proof -
  have "digits_value (pad2 i) = nat i"
    using assms(1) by (simp add: pad2_def show_int_def digits_value_zero)
  then show ?thesis
    using parse_int_digits [OF pad2_digits [OF assms(1)] pad2_nonempty assms(2)] assms(1) by simp
qed

lemma parse_int_pad2_0 [simp]: "0 \<le> i \<Longrightarrow> parse_int (pad2 i) = Some i"
  using parse_int_pad2 [of i "[]"] by simp

lemma length_pad2: "0 \<le> i \<Longrightarrow> i < 100 \<Longrightarrow> length (pad2 i) = 2"
  by (auto simp: pad2_def show_int_def show_nat_1 show_nat_2)

lemma parse_int_auto_digits:
  assumes "\<forall>c \<in> set s. is_digit c"
  shows "parse_int_auto s = parse_int s"
proof (cases s)
  case (Cons c cs)
  with assms have "is_digit c" and cs: "\<forall>d \<in> set cs. is_digit d" by simp_all
  then have u: "split_sign (dropWhile is_space s) = (1, s)"
    using Cons is_digit_not_space [of c] by (auto simp: split_sign_def)
  have "\<not> hex_prefix s"
  proof
    assume "hex_prefix s"
    then have "2 \<le> length s" "s ! 1 = CHR ''x'' \<or> s ! 1 = CHR ''X''" by (auto simp: hex_prefix_def)
    moreover from this have "is_digit (s ! 1)" using assms by simp
    ultimately show False by (auto simp: is_digit_def)
  qed
  with u show ?thesis by (simp add: parse_int_auto_def)
qed (simp add: parse_int_auto_def split_sign_def hex_prefix_def)

lemma parse_int_auto_pad2 [simp]: "0 \<le> i \<Longrightarrow> parse_int_auto (pad2 i) = Some i"
  using parse_int_auto_digits [OF pad2_digits] by simp

section \<open>Strings\<close>

text \<open>\<open>s.split(sep)\<close>. The empty separator splits into characters.\<close>

fun split_go :: "string \<Rightarrow> string \<Rightarrow> string \<Rightarrow> string list" where
  "split_go sep acc [] = [rev acc]"
| "split_go sep acc (c # cs) =
     (if prefix sep (c # cs) then rev acc # split_go sep [] (drop (length sep - 1) cs)
      else split_go sep (c # acc) cs)"

definition js_split :: "string \<Rightarrow> string \<Rightarrow> string list" where
  "js_split sep s = (if sep = [] then map (\<lambda>c. [c]) s else split_go sep [] s)"

text \<open>\<open>xs.join(sep)\<close>\<close>

fun js_join :: "string \<Rightarrow> string list \<Rightarrow> string" where
  "js_join sep [] = []"
| "js_join sep [x] = x"
| "js_join sep (x # y # zs) = x @ sep @ js_join sep (y # zs)"

lemma split_go_not_nil [simp]: "split_go sep acc s \<noteq> []"
  by (induction sep acc s rule: split_go.induct) auto

lemma prefix_Cons_hd: "prefix sep (c # cs) \<Longrightarrow> sep \<noteq> [] \<Longrightarrow> hd sep = c"
  by (cases sep) auto

lemma split_go_run:
  assumes "sep \<noteq> []" and "hd sep \<notin> set x"
  shows "split_go sep acc (x @ rest) = split_go sep (rev x @ acc) rest"
  using assms(2)
proof (induction x arbitrary: acc)
  case Nil
  then show ?case by simp
next
  case (Cons c cs)
  then have "\<not> prefix sep (c # cs @ rest)"
    using prefix_Cons_hd [OF _ assms(1)] by auto
  with Cons show ?case by simp
qed

lemma split_go_sep:
  assumes "sep \<noteq> []"
  shows "split_go sep acc (sep @ rest) = rev acc # split_go sep [] rest"
proof -
  obtain c cs where "sep = c # cs" using assms by (cases sep) auto
  then show ?thesis by simp
qed

lemma js_split_last:
  assumes "sep \<noteq> []" and "hd sep \<notin> set x"
  shows "js_split sep x = [x]"
  using split_go_run [OF assms, of "[]" "[]"] assms(1) by (simp add: js_split_def)

lemma js_split_cons:
  assumes "sep \<noteq> []" and "hd sep \<notin> set x"
  shows "js_split sep (x @ sep @ rest) = x # js_split sep rest"
  using split_go_run [OF assms, of "[]" "sep @ rest"] split_go_sep [OF assms(1), of "rev x" rest]
    assms(1) by (simp add: js_split_def)

text \<open>Splitting undoes joining when the separator cannot start inside a part.\<close>

lemma js_split_join:
  assumes "sep \<noteq> []" and "xs \<noteq> []" and "\<forall>x \<in> set xs. hd sep \<notin> set x"
  shows "js_split sep (js_join sep xs) = xs"
  using assms(2,3)
proof (induction xs)
  case Nil
  then show ?case by simp
next
  case (Cons x xs)
  then show ?case
    using assms(1) by (cases xs) (simp_all add: js_split_last js_split_cons)
qed

definition js_trim :: "string \<Rightarrow> string" where
  "js_trim s = rev (dropWhile is_space (rev (dropWhile is_space s)))"

definition to_lower_char :: "char \<Rightarrow> char" where
  "to_lower_char c = (let k = (of_char c :: nat) in if 65 \<le> k \<and> k \<le> 90 then char_of (k + 32) else c)"

definition to_lower :: "string \<Rightarrow> string" where
  "to_lower s = map to_lower_char s"

text \<open>\<open>s.indexOf(q)>=0\<close> and \<open>s.indexOf(q)==0\<close>.\<close>

definition contains :: "string \<Rightarrow> string \<Rightarrow> bool" where
  "contains s q = sublist q s"

text \<open>\<open>s.replace("{k}",t)\<close> with a string argument: the first occurrence only.\<close>

fun replace_first :: "string \<Rightarrow> string \<Rightarrow> string \<Rightarrow> string" where
  "replace_first pat t [] = (if pat = [] then t else [])"
| "replace_first pat t (c # cs) =
     (if prefix pat (c # cs) then t @ drop (length pat) (c # cs) else c # replace_first pat t cs)"

lemma dropWhile_space_id: "s = [] \<or> \<not> is_space (hd s) \<Longrightarrow> dropWhile is_space s = s"
  by (cases s) auto

lemma js_trim_id:
  assumes "s = [] \<or> (\<not> is_space (hd s) \<and> \<not> is_space (last s))"
  shows "js_trim s = s"
proof (cases "s = []")
  case True
  then show ?thesis by (simp add: js_trim_def)
next
  case False
  with assms have "dropWhile is_space s = s" "dropWhile is_space (rev s) = rev s"
    by (auto intro!: dropWhile_space_id simp: hd_rev)
  then show ?thesis by (simp add: js_trim_def)
qed

section \<open>Arrays\<close>

text \<open>\<open>a.splice(i,1)\<close>, \<open>a.splice(i,0,x)\<close> with an index in range, \<open>$.inArray\<close> (\<open>None\<close> for -1).\<close>

definition remove_at :: "nat \<Rightarrow> 'a list \<Rightarrow> 'a list" where
  "remove_at i xs = take i xs @ drop (Suc i) xs"

definition insert_at :: "nat \<Rightarrow> 'a \<Rightarrow> 'a list \<Rightarrow> 'a list" where
  "insert_at i x xs = take i xs @ x # drop i xs"

fun find_index :: "('a \<Rightarrow> bool) \<Rightarrow> 'a list \<Rightarrow> nat option" where
  "find_index P [] = None"
| "find_index P (x # xs) = (if P x then Some 0 else map_option Suc (find_index P xs))"

abbreviation index_of :: "'a \<Rightarrow> 'a list \<Rightarrow> nat option" where
  "index_of x xs \<equiv> find_index (\<lambda>y. y = x) xs"

lemma find_index_Some:
  "find_index P xs = Some i \<Longrightarrow> i < length xs \<and> P (xs ! i) \<and> (\<forall>j < i. \<not> P (xs ! j))"
proof (induction xs arbitrary: i)
  case (Cons x xs)
  show ?case
  proof (cases "P x")
    case False
    with Cons.prems obtain k where "find_index P xs = Some k" "i = Suc k" by auto
    with Cons.IH [of k] False show ?thesis by (auto simp: nth_Cons split: nat.splits)
  qed (use Cons.prems in auto)
qed simp

lemma find_index_None: "find_index P xs = None \<longleftrightarrow> (\<forall>x \<in> set xs. \<not> P x)"
  by (induction xs) auto

lemma find_index_cong: "xs = ys \<Longrightarrow> (\<And>x. x \<in> set ys \<Longrightarrow> P x = Q x) \<Longrightarrow> find_index P xs = find_index Q ys"
  by (induction ys arbitrary: xs) auto

lemma find_index_SomeI:
  assumes "i < length xs" and "P (xs ! i)" and "\<forall>j < i. \<not> P (xs ! j)"
  shows "find_index P xs = Some i"
proof (cases "find_index P xs")
  case None
  then show ?thesis using assms(1,2) by (auto simp: find_index_None)
next
  case (Some k)
  with find_index_Some [OF Some] assms show ?thesis
    by (metis linorder_neqE_nat)
qed

lemma list_all2_insert_at: "list_all2 P ts ps \<Longrightarrow> P t p \<Longrightarrow> list_all2 P (insert_at k t ts) (insert_at k p ps)"
  by (auto simp: insert_at_def intro!: list_all2_appendI dest: list_all2_takeI list_all2_dropI)

lemma length_remove_at [simp]: "i < length xs \<Longrightarrow> length (remove_at i xs) = length xs - 1"
  by (simp add: remove_at_def)

lemma length_insert_at [simp]: "i \<le> length xs \<Longrightarrow> length (insert_at i x xs) = Suc (length xs)"
  by (simp add: insert_at_def)

lemma set_insert_at [simp]: "set (insert_at i x xs) = insert x (set xs)"
proof -
  have "set (take i xs @ drop i xs) = set xs" by simp
  then show ?thesis unfolding insert_at_def set_append by auto
qed

lemma set_remove_at_subset: "set (remove_at i xs) \<subseteq> set xs"
  by (auto simp: remove_at_def dest: in_set_takeD in_set_dropD)

lemma distinct_remove_at: "distinct xs \<Longrightarrow> distinct (remove_at i xs)"
  unfolding remove_at_def
  by (auto simp: distinct_append intro: distinct_take distinct_drop
      dest: set_take_disj_set_drop_if_distinct [of xs i "Suc i"])

lemma set_remove_at:
  assumes "distinct xs" and "i < length xs"
  shows "set (remove_at i xs) = set xs - {xs ! i}"
proof -
  have xs: "xs = take i xs @ xs ! i # drop (Suc i) xs"
    using assms(2) by (rule id_take_nth_drop)
  have "distinct (take i xs @ xs ! i # drop (Suc i) xs)"
    using assms(1) xs by simp
  moreover have "set xs = set (take i xs) \<union> insert (xs ! i) (set (drop (Suc i) xs))"
    using arg_cong [OF xs, of set] by simp
  ultimately show ?thesis unfolding remove_at_def by auto
qed

lemma remove_insert_at [simp]: "i \<le> length xs \<Longrightarrow> remove_at i (insert_at i x xs) = xs"
  by (simp add: remove_at_def insert_at_def)

lemma nth_insert_at:
  "i \<le> length xs \<Longrightarrow> insert_at i x xs ! i = x"
  by (simp add: insert_at_def nth_append)

text \<open>\<open>a[i]=f(a[i])\<close> for an index in range (unchanged otherwise).\<close>

definition map_at :: "nat \<Rightarrow> ('a \<Rightarrow> 'a) \<Rightarrow> 'a list \<Rightarrow> 'a list" where
  "map_at i f xs = (if i < length xs then xs[i := f (xs ! i)] else xs)"

lemma length_map_at [simp]: "length (map_at i f xs) = length xs"
  by (simp add: map_at_def)

lemma nth_map_at: "j < length xs \<Longrightarrow> map_at i f xs ! j = (if i = j then f (xs ! j) else xs ! j)"
  by (simp add: map_at_def nth_list_update)

lemma list_all2_map_at:
  "list_all2 P ys xs \<Longrightarrow> (\<And>y x. P y x \<Longrightarrow> P y (f x)) \<Longrightarrow> list_all2 P ys (map_at i f xs)"
  by (auto simp: list_all2_conv_all_nth nth_map_at)

lemma list_all2_map_same:
  "list_all2 P ys xs \<Longrightarrow> (\<And>y x. P y x \<Longrightarrow> P y (f x)) \<Longrightarrow> list_all2 P ys (map f xs)"
  by (auto simp: list_all2_conv_all_nth)

text \<open>At most one element of a list has a property, by position and by count.\<close>

lemma at_most_one_filter:
  "(\<forall>i < length xs. \<forall>j < length xs. P (xs ! i) \<longrightarrow> P (xs ! j) \<longrightarrow> i = j) \<longleftrightarrow> length (filter P xs) \<le> 1"
proof -
  have "length (filter P xs) \<le> 1 \<longleftrightarrow> (\<forall>i \<in> {i. i < length xs \<and> P (xs ! i)}. \<forall>j \<in> {i. i < length xs \<and> P (xs ! i)}. i = j)"
    unfolding length_filter_conv_card One_nat_def by (rule card_le_Suc0_iff_eq) simp
  then show ?thesis by auto
qed

lemma length_filter_remove_at: "length (filter P (remove_at i xs)) \<le> length (filter P xs)"
proof -
  have "length (filter P (tl ys)) \<le> length (filter P ys)" for ys by (cases ys) simp_all
  from this [of "drop i xs"] have "length (filter P (drop (Suc i) xs)) \<le> length (filter P (drop i xs))" by (simp add: drop_Suc tl_drop)
  moreover have "length (filter P xs) = length (filter P (take i xs)) + length (filter P (drop i xs))"
    by (metis append_take_drop_id filter_append length_append)
  ultimately show ?thesis by (simp add: remove_at_def)
qed

lemma map_remove_at: "map f (remove_at k xs) = remove_at k (map f xs)"
  by (simp add: remove_at_def take_map drop_map)

text \<open>\<open>a[i]\<close> put into a string: an index out of range prints as \<open>undefined\<close>.\<close>

definition js_name :: "string list \<Rightarrow> int \<Rightarrow> string" where
  "js_name xs i = (if 0 \<le> i \<and> i < int (length xs) then xs ! nat i else ''undefined'')"

lemma map_plus_upto: "map (\<lambda>i. i + k) [a..b] = [a + k..b + k]"
proof (induction "nat (b + 1 - a)" arbitrary: a)
  case 0
  then show ?case by simp
next
  case (Suc n)
  then have "[a..b] = a # [a + 1..b]" "[a + k..b + k] = (a + k) # [a + k + 1..b + k]"
    by (intro upto_rec1; simp)+
  with Suc.hyps(1) [of "a + 1"] Suc.hyps(2) show ?case by (simp add: algebra_simps)
qed

section \<open>Contracts shared by the components\<close>

text \<open>
  \<open>partial_machine\<close>: a widget whose event handlers may leave the modelled states
  (\<open>None\<close>: a field became NaN) and keep an invariant otherwise; a whole session (a list of
  events) then keeps it. \<open>event_machine\<close> is the case of handlers that always stay inside.
\<close>

fun run_events :: "('s \<Rightarrow> 'e \<Rightarrow> 's option) \<Rightarrow> 's \<Rightarrow> 'e list \<Rightarrow> 's option" where
  "run_events st s [] = Some s"
| "run_events st s (e # es) = (case st s e of None \<Rightarrow> None | Some s' \<Rightarrow> run_events st s' es)"

lemma run_events_append:
  "run_events st s (es @ fs) = Option.bind (run_events st s es) (\<lambda>s'. run_events st s' fs)"
  by (induction es arbitrary: s) (auto split: option.splits)

locale partial_machine =
  fixes pstep :: "'s \<Rightarrow> 'e \<Rightarrow> 's option"
    and inv :: "'s \<Rightarrow> bool"
  assumes inv_pstep: "inv s \<Longrightarrow> pstep s e = Some s' \<Longrightarrow> inv s'"
begin

lemma inv_run: "inv s \<Longrightarrow> run_events pstep s es = Some s' \<Longrightarrow> inv s'"
  by (induction es arbitrary: s) (auto intro: inv_pstep split: option.splits)

lemma inv_between:
  assumes "inv s" and "run_events pstep s (es @ fs) = Some s'"
  shows "\<exists>t. run_events pstep s es = Some t \<and> inv t"
  using assms inv_run by (auto simp: run_events_append split: bind_splits)

end

text \<open>
  \<open>guarded_machine\<close>: handlers that keep the invariant on the events \<open>allowed\<close> in a state only. The
  steps are those of the code, on every event; that a session keeps to the allowed events is the
  hypothesis \<open>along\<close> of the theorems that need it.
\<close>

fun along :: "('s \<Rightarrow> 'e \<Rightarrow> 's option) \<Rightarrow> ('s \<Rightarrow> 'e \<Rightarrow> bool) \<Rightarrow> 's \<Rightarrow> 'e list \<Rightarrow> bool" where
  "along st allowed s [] = True"
| "along st allowed s (e # es) = (allowed s e \<and> (case st s e of None \<Rightarrow> True | Some s' \<Rightarrow> along st allowed s' es))"

lemma along_all: "list_all P es \<Longrightarrow> along st (\<lambda>s. P) s es"
  by (induction es arbitrary: s) (auto split: option.split)

lemma along_append:
  "along st allowed s (es @ fs) = (along st allowed s es \<and> (case run_events st s es of None \<Rightarrow> True | Some s' \<Rightarrow> along st allowed s' fs))"
  by (induction es arbitrary: s) (auto split: option.split)

lemma along_always: "(\<And>s e. P s e) \<Longrightarrow> along st P s es"
  by (induction es arbitrary: s) (auto split: option.split)

lemma along_guard: "along st (\<lambda>s e. b \<longrightarrow> P s e) s es = (b \<longrightarrow> along st P s es)"
  by (cases b) (simp_all add: along_always)

locale guarded_machine =
  fixes gstep :: "'s \<Rightarrow> 'e \<Rightarrow> 's option"
    and allowed :: "'s \<Rightarrow> 'e \<Rightarrow> bool"
    and inv :: "'s \<Rightarrow> bool"
  assumes inv_gstep: "inv s \<Longrightarrow> allowed s e \<Longrightarrow> gstep s e = Some s' \<Longrightarrow> inv s'"
begin

lemma inv_along: "inv s \<Longrightarrow> along gstep allowed s es \<Longrightarrow> run_events gstep s es = Some s' \<Longrightarrow> inv s'"
  by (induction es arbitrary: s) (auto intro: inv_gstep split: option.splits)

end

sublocale guarded_machine \<subseteq> kept: partial_machine "\<lambda>s e. if allowed s e then gstep s e else None" inv
  by unfold_locales (auto intro: inv_gstep split: if_splits)

locale event_machine =
  fixes step :: "'s \<Rightarrow> 'e \<Rightarrow> 's"
    and inv :: "'s \<Rightarrow> bool"
  assumes inv_step: "inv s \<Longrightarrow> inv (step s e)"
begin

lemma run_total: "run_events (\<lambda>s e. Some (step s e)) s es = Some (foldl step s es)"
  by (induction es arbitrary: s) auto

end

sublocale event_machine \<subseteq> total: partial_machine "\<lambda>s e. Some (step s e)" inv
  by unfold_locales (auto intro: inv_step)

context event_machine
begin

lemma inv_foldl: "inv s \<Longrightarrow> inv (foldl step s es)"
  using total.inv_run [of s es] run_total [of s es] by simp

end

text \<open>
  \<open>field_codec\<close>: an input box that shows \<open>fmt v\<close> for a value \<open>v\<close> and reads a text
  back with \<open>prs\<close>. The law is that the values the box can hold survive the round trip;
  the box is then stable: formatting, parsing and formatting again changes nothing.
\<close>

locale field_codec =
  fixes fmt :: "'v \<Rightarrow> string"
    and prs :: "string \<Rightarrow> 'v"
    and ok :: "'v \<Rightarrow> bool"
  assumes round: "ok v \<Longrightarrow> prs (fmt v) = v"
begin

lemma normalise_idem: "ok (prs s) \<Longrightarrow> fmt (prs (fmt (prs s))) = fmt (prs s)"
  by (simp add: round)

lemma fmt_inj: "ok v \<Longrightarrow> ok w \<Longrightarrow> fmt v = fmt w \<Longrightarrow> v = w"
  by (metis round)

end

end
