(* ===== verification/EasyLoader.thy ===== *)
theory EasyLoader
  imports JsPrelude
begin

text \<open>
  \<open>easyloader.js\<close>: modules with their dependencies, loaded one after the other by inserting
  script elements. A call of \<open>load\<close> is a request with its own queue; any number of requests
  are in flight at once and share the status table \<open>_3\<close>. What the browser does is an event:
  a script of a request has loaded, or the 10 ms timer of a waiting request fires. The head of
  the document, the progress and load notifications and the callbacks are one log.
\<close>

section \<open>Modules\<close>

datatype module = Module (mod_js: string) (mod_css: "string option") (mod_deps: "string list option")

text \<open>The table \<open>_1\<close>, in the order of the source: \<open>tooltip\<close> is in it twice.\<close>

definition module_table :: "(string \<times> module) list" where
  "module_table =
    [(''draggable'', Module ''jquery.draggable.js'' None None),
     (''droppable'', Module ''jquery.droppable.js'' None None),
     (''resizable'', Module ''jquery.resizable.js'' None None),
     (''linkbutton'', Module ''jquery.linkbutton.js'' (Some ''linkbutton.css'') None),
     (''progressbar'', Module ''jquery.progressbar.js'' (Some ''progressbar.css'') None),
     (''tooltip'', Module ''jquery.tooltip.js'' (Some ''tooltip.css'') None),
     (''pagination'', Module ''jquery.pagination.js'' (Some ''pagination.css'') (Some [''linkbutton''])),
     (''datagrid'', Module ''jquery.datagrid.js'' (Some ''datagrid.css'') (Some [''panel'', ''resizable'', ''linkbutton'', ''pagination''])),
     (''treegrid'', Module ''jquery.treegrid.js'' (Some ''tree.css'') (Some [''datagrid''])),
     (''propertygrid'', Module ''jquery.propertygrid.js'' (Some ''propertygrid.css'') (Some [''datagrid''])),
     (''datalist'', Module ''jquery.datalist.js'' (Some ''datalist.css'') (Some [''datagrid''])),
     (''panel'', Module ''jquery.panel.js'' (Some ''panel.css'') None),
     (''window'', Module ''jquery.window.js'' (Some ''window.css'') (Some [''resizable'', ''draggable'', ''panel''])),
     (''dialog'', Module ''jquery.dialog.js'' (Some ''dialog.css'') (Some [''linkbutton'', ''window''])),
     (''messager'', Module ''jquery.messager.js'' (Some ''messager.css'') (Some [''linkbutton'', ''window'', ''progressbar''])),
     (''layout'', Module ''jquery.layout.js'' (Some ''layout.css'') (Some [''resizable'', ''panel''])),
     (''form'', Module ''jquery.form.js'' None None),
     (''menu'', Module ''jquery.menu.js'' (Some ''menu.css'') None),
     (''tabs'', Module ''jquery.tabs.js'' (Some ''tabs.css'') (Some [''panel'', ''linkbutton''])),
     (''menubutton'', Module ''jquery.menubutton.js'' (Some ''menubutton.css'') (Some [''linkbutton'', ''menu''])),
     (''splitbutton'', Module ''jquery.splitbutton.js'' (Some ''splitbutton.css'') (Some [''menubutton''])),
     (''accordion'', Module ''jquery.accordion.js'' (Some ''accordion.css'') (Some [''panel''])),
     (''calendar'', Module ''jquery.calendar.js'' (Some ''calendar.css'') None),
     (''textbox'', Module ''jquery.textbox.js'' (Some ''textbox.css'') (Some [''validatebox'', ''linkbutton''])),
     (''filebox'', Module ''jquery.filebox.js'' (Some ''filebox.css'') (Some [''textbox''])),
     (''combo'', Module ''jquery.combo.js'' (Some ''combo.css'') (Some [''panel'', ''textbox''])),
     (''combobox'', Module ''jquery.combobox.js'' (Some ''combobox.css'') (Some [''combo''])),
     (''combotree'', Module ''jquery.combotree.js'' None (Some [''combo'', ''tree''])),
     (''combogrid'', Module ''jquery.combogrid.js'' None (Some [''combo'', ''datagrid''])),
     (''validatebox'', Module ''jquery.validatebox.js'' (Some ''validatebox.css'') (Some [''tooltip''])),
     (''numberbox'', Module ''jquery.numberbox.js'' None (Some [''textbox''])),
     (''searchbox'', Module ''jquery.searchbox.js'' (Some ''searchbox.css'') (Some [''menubutton'', ''textbox''])),
     (''spinner'', Module ''jquery.spinner.js'' (Some ''spinner.css'') (Some [''textbox''])),
     (''numberspinner'', Module ''jquery.numberspinner.js'' None (Some [''spinner'', ''numberbox''])),
     (''timespinner'', Module ''jquery.timespinner.js'' None (Some [''spinner''])),
     (''tree'', Module ''jquery.tree.js'' (Some ''tree.css'') (Some [''draggable'', ''droppable''])),
     (''datebox'', Module ''jquery.datebox.js'' (Some ''datebox.css'') (Some [''calendar'', ''combo''])),
     (''datetimebox'', Module ''jquery.datetimebox.js'' None (Some [''datebox'', ''timespinner''])),
     (''slider'', Module ''jquery.slider.js'' None (Some [''draggable''])),
     (''tooltip'', Module ''jquery.tooltip.js'' None None),
     (''parser'', Module ''jquery.parser.js'' None None),
     (''mobile'', Module ''jquery.mobile.js'' None None)]"

definition locale_table :: "(string \<times> string) list" where
  "locale_table =
    [(''af'', ''easyui-lang-af.js''), (''ar'', ''easyui-lang-ar.js''), (''bg'', ''easyui-lang-bg.js''),
     (''ca'', ''easyui-lang-ca.js''), (''cs'', ''easyui-lang-cs.js''), (''cz'', ''easyui-lang-cz.js''),
     (''da'', ''easyui-lang-da.js''), (''de'', ''easyui-lang-de.js''), (''el'', ''easyui-lang-el.js''),
     (''en'', ''easyui-lang-en.js''), (''es'', ''easyui-lang-es.js''), (''fr'', ''easyui-lang-fr.js''),
     (''it'', ''easyui-lang-it.js''), (''jp'', ''easyui-lang-jp.js''), (''nl'', ''easyui-lang-nl.js''),
     (''pl'', ''easyui-lang-pl.js''), (''pt_BR'', ''easyui-lang-pt_BR.js''), (''ru'', ''easyui-lang-ru.js''),
     (''sv_SE'', ''easyui-lang-sv_SE.js''), (''tr'', ''easyui-lang-tr.js''), (''zh_CN'', ''easyui-lang-zh_CN.js''),
     (''zh_TW'', ''easyui-lang-zh_TW.js'')]"

text \<open>An object literal: the last entry of a repeated key counts.\<close>

definition object_of :: "(string \<times> 'a) list \<Rightarrow> string \<Rightarrow> 'a option" where
  "object_of t = map_of (rev t)"

definition deps_of :: "module \<Rightarrow> string list" where
  "deps_of md = (case mod_deps md of None \<Rightarrow> [] | Some ds \<Rightarrow> ds)"

text \<open>
  The function \<open>add\<close> of \<open>_17\<close> for each name of a list: unknown modules are skipped, a
  module comes after its dependencies. No result when the dependencies are cyclic (the code
  exhausts the stack).
\<close>

partial_function (option) add_all :: "(string \<Rightarrow> module option) \<Rightarrow> string list \<Rightarrow> string list option" where
  "add_all tbl ms = (case ms of [] \<Rightarrow> Some []
     | m # ms' \<Rightarrow>
        (case tbl m of
           None \<Rightarrow> add_all tbl ms'
         | Some md \<Rightarrow> Option.bind (add_all tbl (deps_of md))
             (\<lambda>xs. Option.bind (add_all tbl ms') (\<lambda>ys. Some (xs @ m # ys)))))"

section \<open>Requests\<close>

datatype load_arg = One string | Many "string list"

datatype mstatus = Loading | Loaded

datatype load_phase = Fetching string | Polling | FetchingLocale string | FetchingPlain | Finished | GaveUp

record request =
  rq_arg :: load_arg
  rq_queue :: "string list"
  rq_fetched :: bool
  rq_waited :: int
  rq_phase :: load_phase

datatype loader_note = Style string | ModuleScript string string | PlainScript string | LocaleScript string
  | RemoveScript string | Progress string | Callback load_arg | OnLoad load_arg

record loader =
  ld_modules :: "string \<Rightarrow> module option"
  ld_locales :: "string \<Rightarrow> string option"
  ld_base :: string
  ld_theme :: string
  ld_css :: bool
  ld_locale :: "string option"
  ld_timeout :: int
  ld_status :: "string \<Rightarrow> mstatus option"
  ld_reqs :: "request list"
  ld_log :: "loader_note list"

definition default_loader :: loader where
  "default_loader = \<lparr>ld_modules = object_of module_table, ld_locales = object_of locale_table, ld_base = ''.'',
     ld_theme = ''default'', ld_css = True, ld_locale = None, ld_timeout = 2000,
     ld_status = Map.empty, ld_reqs = [], ld_log = []\<rparr>"

text \<open>The regular expressions \<open>/^http/i\<close>, \<open>/\.css$/i\<close> and \<open>/\.js$/i\<close>\<close>

definition is_http :: "string \<Rightarrow> bool" where
  "is_http s = prefix ''http'' (to_lower s)"

definition has_suffix :: "string \<Rightarrow> string \<Rightarrow> bool" where
  "has_suffix sf s = suffix sf (to_lower s)"

definition arg_names :: "load_arg \<Rightarrow> string list" where
  "arg_names a = (case a of One s \<Rightarrow> [s] | Many ss \<Rightarrow> ss)"

definition arg_string :: "load_arg \<Rightarrow> string" where
  "arg_string a = (case a of One s \<Rightarrow> s | Many ss \<Rightarrow> js_join '','' ss)"

definition ld_note :: "loader_note list \<Rightarrow> loader \<Rightarrow> loader" where
  "ld_note ns ld = ld\<lparr>ld_log := ld_log ld @ ns\<rparr>"

text \<open>
  \<open>_10\<close>: the module is marked, its style sheet is linked (\<open>_c\<close> reports at once that it
  is there) and its script is inserted.
\<close>

definition style_url :: "loader \<Rightarrow> string \<Rightarrow> string" where
  "style_url ld css = (if is_http css then css else ld_base ld @ ''themes/'' @ ld_theme ld @ ''/'' @ css)"

definition script_url :: "loader \<Rightarrow> string \<Rightarrow> string" where
  "script_url ld js = (if is_http js then js else ld_base ld @ ''plugins/'' @ js)"

definition fetch_module :: "string \<Rightarrow> loader \<Rightarrow> loader" where
  "fetch_module m ld =
     (let ld' = ld\<lparr>ld_status := (ld_status ld)(m \<mapsto> Loading)\<rparr>
      in case ld_modules ld m of
           None \<Rightarrow> ld'
         | Some md \<Rightarrow>
             ld_note ((case mod_css md of
                         None \<Rightarrow> []
                       | Some css \<Rightarrow> if ld_css ld \<and> css \<noteq> [] then [Style (style_url ld css)] else [])
                      @ [ModuleScript m (script_url ld (mod_js md))]) ld')"

text \<open>\<open>_1c\<close>, and the choice between it and the locale script\<close>

definition finish_request :: "loader \<Rightarrow> request \<Rightarrow> loader \<times> request" where
  "finish_request ld rq =
     (ld_note [Callback (rq_arg rq), OnLoad (rq_arg rq)] ld, rq\<lparr>rq_phase := Finished\<rparr>)"

definition queue_empty :: "loader \<Rightarrow> request \<Rightarrow> loader \<times> request" where
  "queue_empty ld rq =
     (case Option.bind (ld_locale ld) (ld_locales ld) of
        Some file \<Rightarrow>
          if rq_fetched rq
          then let url = ld_base ld @ ''locale/'' @ file
               in (ld_note [LocaleScript url] ld, rq\<lparr>rq_phase := FetchingLocale url\<rparr>)
          else finish_request ld rq
      | None \<Rightarrow> finish_request ld rq)"

text \<open>\<open>_1e\<close>, run on the queue of a request\<close>

fun run_queue :: "loader \<Rightarrow> request \<Rightarrow> string list \<Rightarrow> loader \<times> request" where
  "run_queue ld rq [] = queue_empty ld (rq\<lparr>rq_queue := []\<rparr>)"
| "run_queue ld rq (m # ms) =
     (case ld_status ld m of
        None \<Rightarrow> (fetch_module m ld, rq\<lparr>rq_queue := m # ms, rq_fetched := True, rq_phase := Fetching m\<rparr>)
      | Some Loaded \<Rightarrow> run_queue ld rq ms
      | Some Loading \<Rightarrow>
          if rq_waited rq < ld_timeout ld
          then (ld, rq\<lparr>rq_queue := m # ms, rq_waited := rq_waited rq + 10, rq_phase := Polling\<rparr>)
          else (ld, rq\<lparr>rq_queue := m # ms, rq_phase := GaveUp\<rparr>))"

section \<open>Events\<close>

datatype load_event = Load load_arg | ScriptDone nat | Tick nat

definition new_request :: "load_arg \<Rightarrow> string list \<Rightarrow> load_phase \<Rightarrow> request" where
  "new_request a q p = \<lparr>rq_arg = a, rq_queue = q, rq_fetched = False, rq_waited = 0, rq_phase = p\<rparr>"

definition push_request :: "loader \<times> request \<Rightarrow> loader" where
  "push_request p = (fst p)\<lparr>ld_reqs := ld_reqs (fst p) @ [snd p]\<rparr>"

definition put_request :: "nat \<Rightarrow> loader \<times> request \<Rightarrow> loader" where
  "put_request i p = (fst p)\<lparr>ld_reqs := (ld_reqs (fst p))[i := snd p]\<rparr>"

definition load :: "loader \<Rightarrow> load_arg \<Rightarrow> loader option" where
  "load ld a =
     (let s = arg_string a; url = (if is_http s then s else ld_base ld @ s)
      in if has_suffix ''.css'' s
         then Some (push_request (ld_note [Style url, Callback a] ld, new_request a [] Finished))
         else if has_suffix ''.js'' s
         then Some (push_request (ld_note [PlainScript url] ld, new_request a [] FetchingPlain))
         else (case add_all (ld_modules ld) (arg_names a) of
                 None \<Rightarrow> None
               | Some mm \<Rightarrow> Some (push_request (run_queue ld (new_request a mm Polling) mm))))"

text \<open>The onload handlers of \<open>_4\<close> (through \<open>_10\<close>, \<open>_9\<close> or directly). A script reports once.\<close>

definition script_done :: "loader \<Rightarrow> nat \<Rightarrow> loader" where
  "script_done ld i =
     (if i < length (ld_reqs ld) then
        let rq = ld_reqs ld ! i
        in case rq_phase rq of
             Fetching m \<Rightarrow>
               put_request i (run_queue (ld_note [Progress m] (ld\<lparr>ld_status := (ld_status ld)(m \<mapsto> Loaded)\<rparr>))
                 rq (tl (rq_queue rq)))
           | FetchingLocale url \<Rightarrow> put_request i (finish_request (ld_note [RemoveScript url] ld) rq)
           | FetchingPlain \<Rightarrow> put_request i (ld_note [Callback (rq_arg rq)] ld, rq\<lparr>rq_phase := Finished\<rparr>)
           | _ \<Rightarrow> ld
      else ld)"

definition timer_tick :: "loader \<Rightarrow> nat \<Rightarrow> loader" where
  "timer_tick ld i =
     (if i < length (ld_reqs ld) \<and> rq_phase (ld_reqs ld ! i) = Polling
      then put_request i (run_queue ld (ld_reqs ld ! i) (rq_queue (ld_reqs ld ! i))) else ld)"

definition load_step :: "loader \<Rightarrow> load_event \<Rightarrow> loader option" where
  "load_step ld e =
     (case e of Load a \<Rightarrow> load ld a | ScriptDone i \<Rightarrow> Some (script_done ld i) | Tick i \<Rightarrow> Some (timer_tick ld i))"

lemma load_step_simps [simp]:
  "load_step ld (Load a) = load ld a" "load_step ld (ScriptDone i) = Some (script_done ld i)"
  "load_step ld (Tick i) = Some (timer_tick ld i)"
  by (simp_all add: load_step_def)

section \<open>The base directory\<close>

text \<open>
  The scan of the script elements: the last source that matches \<open>/easyloader\.js(\W|$)/i\<close>
  gives the base, the text before the match.
\<close>

definition is_word_char :: "char \<Rightarrow> bool" where
  "is_word_char c = (let k = (of_char c :: nat)
     in is_digit c \<or> 65 \<le> k \<and> k \<le> 90 \<or> 97 \<le> k \<and> k \<le> 122 \<or> k = 95)"

definition matches_here :: "string \<Rightarrow> bool" where
  "matches_here s = (prefix ''easyloader.js'' (to_lower s) \<and> (length s = 13 \<or> \<not> is_word_char (s ! 13)))"

fun match_index :: "string \<Rightarrow> nat option" where
  "match_index [] = None"
| "match_index (c # cs) = (if matches_here (c # cs) then Some 0 else map_option Suc (match_index cs))"

fun detect_base :: "string \<Rightarrow> string list \<Rightarrow> string" where
  "detect_base base [] = base"
| "detect_base base (src # srcs) =
     (if src = [] then detect_base base srcs
      else case match_index src of None \<Rightarrow> detect_base base srcs | Some i \<Rightarrow> detect_base (take i src) srcs)"

section \<open>The order of the modules\<close>

text \<open>
  \<open>ordered tbl D xs\<close>: every module of \<open>xs\<close> is known and comes after its known
  dependencies, those in \<open>D\<close> taken for granted.
\<close>

definition deps_within :: "(string \<Rightarrow> module option) \<Rightarrow> string \<Rightarrow> string set \<Rightarrow> bool" where
  "deps_within tbl m D = (case tbl m of None \<Rightarrow> False
     | Some md \<Rightarrow> list_all (\<lambda>d. tbl d = None \<or> d \<in> D) (deps_of md))"

fun ordered :: "(string \<Rightarrow> module option) \<Rightarrow> string set \<Rightarrow> string list \<Rightarrow> bool" where
  "ordered tbl D [] = True"
| "ordered tbl D (m # ms) = (deps_within tbl m D \<and> ordered tbl (insert m D) ms)"

lemma deps_within_mono: "deps_within tbl m D \<Longrightarrow> D \<subseteq> E \<Longrightarrow> deps_within tbl m E"
  by (auto simp: deps_within_def list_all_iff split: option.splits)

lemma ordered_mono: "ordered tbl D ms \<Longrightarrow> D \<subseteq> E \<Longrightarrow> ordered tbl E ms"
proof (induction ms arbitrary: D E)
  case (Cons m ms)
  then show ?case using insert_mono [of D E m] by (auto intro: deps_within_mono)
qed simp

lemma ordered_append: "ordered tbl D (xs @ ys) \<longleftrightarrow> ordered tbl D xs \<and> ordered tbl (D \<union> set xs) ys"
  by (induction xs arbitrary: D) auto

lemma add_all_Nil [simp]: "add_all tbl [] = Some []"
  by (subst add_all.simps) simp

lemma add_all_Cons: "add_all tbl (m # ms) = (case tbl m of
     None \<Rightarrow> add_all tbl ms
   | Some md \<Rightarrow> Option.bind (add_all tbl (deps_of md)) (\<lambda>xs. Option.bind (add_all tbl ms) (\<lambda>ys. Some (xs @ m # ys))))"
  by (subst add_all.simps) simp

lemma add_all_sound:
  assumes "add_all tbl ms = Some xs"
  shows "ordered tbl {} xs \<and> {m \<in> set ms. tbl m \<noteq> None} \<subseteq> set xs"
proof (rule add_all.raw_induct [where P = "\<lambda>tbl ms xs. ordered tbl {} xs \<and> {m \<in> set ms. tbl m \<noteq> None} \<subseteq> set xs", OF _ assms])
  fix f :: "(string \<Rightarrow> module option) \<Rightarrow> string list \<Rightarrow> string list option" and tbl ms xs
  assume ih: "\<And>tbl ms xs. f tbl ms = Some xs \<Longrightarrow> ordered tbl {} xs \<and> {m \<in> set ms. tbl m \<noteq> None} \<subseteq> set xs"
    and f: "(case ms of [] \<Rightarrow> Some []
     | m # ms' \<Rightarrow> (case tbl m of None \<Rightarrow> f tbl ms'
         | Some md \<Rightarrow> Option.bind (f tbl (deps_of md))
             (\<lambda>xs. Option.bind (f tbl ms') (\<lambda>ys. Some (xs @ m # ys))))) = Some xs"
  show "ordered tbl {} xs \<and> {m \<in> set ms. tbl m \<noteq> None} \<subseteq> set xs"
  proof (cases ms)
    case Nil
    then show ?thesis using f by simp
  next
    case (Cons m ms')
    show ?thesis
    proof (cases "tbl m")
      case None
      then show ?thesis using f ih [of tbl ms' xs] Cons by auto
    next
      case (Some md)
      then obtain xs1 xs2 where x: "f tbl (deps_of md) = Some xs1" "f tbl ms' = Some xs2"
        "xs = xs1 @ m # xs2"
        using f Cons by (auto split: bind_splits)
      have "deps_within tbl m (set xs1)"
        using ih [OF x(1)] Some by (auto simp: deps_within_def list_all_iff)
      moreover have "ordered tbl (insert m (set xs1)) xs2"
        using ih [OF x(2)] ordered_mono [of tbl "{}" xs2] by simp
      ultimately show ?thesis using ih [OF x(1)] ih [OF x(2)] x(3) Cons Some by (auto simp: ordered_append)
    qed
  qed
qed

lemma add_all_total:
  assumes "\<And>m md d. tbl m = Some md \<Longrightarrow> d \<in> set (deps_of md) \<Longrightarrow> tbl d \<noteq> None \<Longrightarrow> rk d < (rk m :: nat)"
  shows "\<exists>xs. add_all tbl ms = Some xs"
proof -
  have "(\<forall>m \<in> set ms. tbl m \<noteq> None \<longrightarrow> rk m < n) \<Longrightarrow> \<exists>xs. add_all tbl ms = Some xs" for n ms
  proof (induction n arbitrary: ms)
    case 0
    then show ?case by (induction ms) (auto simp: add_all_Cons split: option.splits)
  next
    case (Suc n)
    from Suc.prems show ?case
    proof (induction ms)
      case (Cons m ms)
      show ?case
      proof (cases "tbl m")
        case (Some md)
        have "\<forall>d \<in> set (deps_of md). tbl d \<noteq> None \<longrightarrow> rk d < n"
          using assms [OF Some] Cons.prems Some by fastforce
        with Suc.IH Cons Some show ?thesis by (fastforce simp: add_all_Cons)
      qed (use Cons in \<open>simp add: add_all_Cons\<close>)
    qed simp
  qed
  from this [of ms "Suc (Max (rk ` set ms))"] show ?thesis by (simp add: less_Suc_eq_le)
qed

text \<open>A layer for each shipped module above those of its dependencies.\<close>

definition module_layer :: "string \<Rightarrow> nat" where
  "module_layer m =
    (if m \<in> set [''datetimebox''] then 5 else
     if m \<in> set [''combobox'', ''combotree'', ''combogrid'', ''numberspinner'', ''timespinner'', ''datebox''] then 4 else
     if m \<in> set [''treegrid'', ''propertygrid'', ''datalist'', ''filebox'', ''combo'', ''numberbox'', ''searchbox'', ''spinner''] then 3 else
     if m \<in> set [''datagrid'', ''dialog'', ''messager'', ''splitbutton'', ''textbox''] then 2 else
     if m \<in> set [''pagination'', ''window'', ''layout'', ''tabs'', ''menubutton'', ''accordion'', ''validatebox'', ''tree'', ''slider''] then 1 else
     0)"

lemma shipped_layers:
  "list_all (\<lambda>p. list_all (\<lambda>d. module_layer d < module_layer (fst p)) (deps_of (snd p))) module_table"
  by (simp add: module_table_def deps_of_def module_layer_def)

lemma shipped_order:
  "\<exists>xs. add_all (ld_modules default_loader) ms = Some xs \<and> ordered (ld_modules default_loader) {} xs \<and>
     {m \<in> set ms. ld_modules default_loader m \<noteq> None} \<subseteq> set xs"
proof -
  have "\<exists>xs. add_all (object_of module_table) ms = Some xs"
  proof (rule add_all_total)
    fix m md d
    assume "object_of module_table m = Some md" and d: "d \<in> set (deps_of md)"
    then have "(m, md) \<in> set module_table"
      unfolding object_of_def by (metis map_of_SomeD set_rev)
    with shipped_layers d show "module_layer d < module_layer m"
      by (fastforce simp: list_all_iff)
  qed
  then show ?thesis using add_all_sound by (fastforce simp: default_loader_def)
qed

text \<open>
  C5. For every list of requested names the shipped table gives a load order: the dependency
  walk returns, each module comes after all its dependencies, and every known requested module
  is in it.
\<close>

theorem shipped_load_order:
  "\<exists>xs. add_all (ld_modules default_loader) ms = Some xs \<and> ordered (ld_modules default_loader) {} xs \<and>
     {m \<in> set ms. ld_modules default_loader m \<noteq> None} \<subseteq> set xs"
  by (rule shipped_order)

section \<open>Sessions\<close>

text \<open>
  What a log must satisfy, entry by entry: a module script is inserted once, after each known
  dependency has reported its arrival, and \<open>onLoad\<close> is called when every module the request
  needs has arrived.
\<close>

definition entry_ok :: "(string \<Rightarrow> module option) \<Rightarrow> loader_note list \<Rightarrow> loader_note \<Rightarrow> bool" where
  "entry_ok tbl seen e = (case e of
       ModuleScript m u \<Rightarrow> deps_within tbl m {d. Progress d \<in> set seen} \<and> list_all (\<lambda>x. \<forall>v. x \<noteq> ModuleScript m v) seen
     | OnLoad a \<Rightarrow> (case add_all tbl (arg_names a) of None \<Rightarrow> False
         | Some mm \<Rightarrow> list_all (\<lambda>m. Progress m \<in> set seen) mm)
     | _ \<Rightarrow> True)"

fun log_ok :: "(string \<Rightarrow> module option) \<Rightarrow> loader_note list \<Rightarrow> loader_note list \<Rightarrow> bool" where
  "log_ok tbl seen [] = True"
| "log_ok tbl seen (e # es) = (entry_ok tbl seen e \<and> log_ok tbl (seen @ [e]) es)"

lemma log_ok_append: "log_ok tbl seen (xs @ ys) \<longleftrightarrow> log_ok tbl seen xs \<and> log_ok tbl (seen @ xs) ys"
  by (induction xs arbitrary: seen) auto

text \<open>The same, spelt out for a position of the log.\<close>

lemma log_ok_nth: "log_ok tbl seen xs \<Longrightarrow> i < length xs \<Longrightarrow> entry_ok tbl (seen @ take i xs) (xs ! i)"
proof (induction xs arbitrary: seen i)
  case (Cons x xs)
  then have "entry_ok tbl ((seen @ [x]) @ take j xs) (xs ! j)" if "j < length xs" for j
    using that by (intro Cons.IH) auto
  with Cons.prems show ?case by (cases i) auto
qed simp

definition loaded :: "loader \<Rightarrow> string set" where
  "loaded ld = {m. ld_status ld m = Some Loaded}"

definition core_ok :: "loader \<Rightarrow> bool" where
  "core_ok ld = (log_ok (ld_modules ld) [] (ld_log ld) \<and> loaded ld \<subseteq> {m. Progress m \<in> set (ld_log ld)} \<and>
     (\<forall>m u. ModuleScript m u \<in> set (ld_log ld) \<longrightarrow> ld_status ld m \<noteq> None))"

definition covered :: "loader \<Rightarrow> request \<Rightarrow> string list \<Rightarrow> bool" where
  "covered ld rq q = (case add_all (ld_modules ld) (arg_names (rq_arg rq)) of None \<Rightarrow> False
     | Some mm \<Rightarrow> set mm \<subseteq> loaded ld \<union> set q)"

definition rq_ok :: "loader \<Rightarrow> request \<Rightarrow> bool" where
  "rq_ok ld rq = (case rq_phase rq of
       Fetching m \<Rightarrow> (\<exists>q. rq_queue rq = m # q) \<and> ordered (ld_modules ld) (loaded ld) (rq_queue rq) \<and> covered ld rq (rq_queue rq)
     | Polling \<Rightarrow> ordered (ld_modules ld) (loaded ld) (rq_queue rq) \<and> covered ld rq (rq_queue rq)
     | FetchingLocale u \<Rightarrow> covered ld rq []
     | _ \<Rightarrow> True)"

definition loader_ok :: "loader \<Rightarrow> bool" where
  "loader_ok ld = (core_ok ld \<and> list_all (rq_ok ld) (ld_reqs ld))"

lemma rq_ok_mono:
  "rq_ok ld rq \<Longrightarrow> ld_modules ld' = ld_modules ld \<Longrightarrow> loaded ld \<subseteq> loaded ld' \<Longrightarrow> rq_ok ld' rq"
  unfolding rq_ok_def covered_def
  by (auto intro: ordered_mono split: load_phase.splits option.splits)

lemma ld_note_simps [simp]:
  "ld_modules (ld_note ns ld) = ld_modules ld" "ld_status (ld_note ns ld) = ld_status ld"
  "ld_log (ld_note ns ld) = ld_log ld @ ns" "ld_reqs (ld_note ns ld) = ld_reqs ld" "loaded (ld_note ns ld) = loaded ld"
  "ld_locale (ld_note ns ld) = ld_locale ld" "ld_locales (ld_note ns ld) = ld_locales ld" "ld_timeout (ld_note ns ld) = ld_timeout ld"
  by (simp_all add: ld_note_def loaded_def)

lemma fetch_module_ok:
  assumes "core_ok ld" and "ld_status ld m = None" and "deps_within (ld_modules ld) m (loaded ld)"
  shows "core_ok (fetch_module m ld) \<and> loaded (fetch_module m ld) = loaded ld
    \<and> ld_modules (fetch_module m ld) = ld_modules ld \<and> ld_reqs (fetch_module m ld) = ld_reqs ld"
proof -
  let ?D = "{d. Progress d \<in> set (ld_log ld)}"
  obtain md where md: "ld_modules ld m = Some md"
    using assms(3) by (auto simp: deps_within_def split: option.splits)
  have deps: "deps_within (ld_modules ld) m ?D"
    using assms(1,3) deps_within_mono [of _ _ "loaded ld" ?D] by (simp add: core_ok_def)
  have fresh: "list_all (\<lambda>x. \<forall>v. x \<noteq> ModuleScript m v) (ld_log ld)"
    using assms(1,2) by (auto simp: core_ok_def list_all_iff)
  have "entry_ok (ld_modules ld) (ld_log ld) (ModuleScript m u)"
    "entry_ok (ld_modules ld) (ld_log ld @ [Style v]) (ModuleScript m u)" for u v
    using deps fresh by (simp_all add: entry_ok_def)
  then have "log_ok (ld_modules ld) [] (ld_log (fetch_module m ld))"
    using assms(1) by (auto simp: fetch_module_def Let_def md log_ok_append core_ok_def entry_ok_def split: option.splits)
  moreover have "loaded (fetch_module m ld) = loaded ld"
    using assms(2) by (auto simp: fetch_module_def Let_def md loaded_def)
  ultimately show ?thesis
    using assms(1) by (auto simp: fetch_module_def Let_def md core_ok_def)
qed

text \<open>What a run of a queue leaves alone, and what it establishes.\<close>

definition run_ok :: "loader \<Rightarrow> loader \<times> request \<Rightarrow> bool" where
  "run_ok ld p = (core_ok (fst p) \<and> rq_ok (fst p) (snd p) \<and> loaded (fst p) = loaded ld
     \<and> ld_modules (fst p) = ld_modules ld \<and> ld_reqs (fst p) = ld_reqs ld)"

lemma finish_request_ok:
  assumes "core_ok ld" and "covered ld rq []"
  shows "run_ok ld (finish_request ld rq)"
proof -
  obtain mm where "add_all (ld_modules ld) (arg_names (rq_arg rq)) = Some mm" "set mm \<subseteq> loaded ld"
    using assms(2) by (auto simp: covered_def split: option.splits)
  then have "entry_ok (ld_modules ld) (ld_log ld @ [Callback (rq_arg rq)]) (OnLoad (rq_arg rq))"
    using assms(1) by (auto simp: entry_ok_def core_ok_def list_all_iff)
  then show ?thesis
    using assms(1) by (auto simp: run_ok_def finish_request_def core_ok_def log_ok_append rq_ok_def entry_ok_def)
qed

lemma core_ok_note:
  "core_ok ld \<Longrightarrow> entry_ok (ld_modules ld) (ld_log ld) n \<Longrightarrow> (\<And>m u. n \<noteq> ModuleScript m u) \<Longrightarrow> core_ok (ld_note [n] ld)"
  by (auto simp: core_ok_def log_ok_append)

lemma queue_empty_ok:
  assumes "core_ok ld" and "covered ld rq []"
  shows "run_ok ld (queue_empty ld rq)"
proof -
  have "covered (ld_note ns ld) (rq\<lparr>rq_phase := p\<rparr>) []" for ns p
    using assms(2) by (simp add: covered_def split: option.splits)
  moreover have "core_ok (ld_note [LocaleScript u] ld)" for u
    by (rule core_ok_note) (simp_all add: assms(1) entry_ok_def)
  ultimately show ?thesis
    using finish_request_ok [OF assms]
    by (auto simp: queue_empty_def Let_def run_ok_def rq_ok_def split: option.splits)
qed

lemma run_queue_ok:
  "core_ok ld \<Longrightarrow> ordered (ld_modules ld) (loaded ld) q \<Longrightarrow> covered ld rq q \<Longrightarrow> run_ok ld (run_queue ld rq q)"
proof (induction q)
  case Nil
  then show ?case using queue_empty_ok [of ld "rq\<lparr>rq_queue := []\<rparr>"] by (simp add: covered_def)
next
  case (Cons m ms)
  note frame = fetch_module_ok [of ld m]
  show ?case
  proof (cases "ld_status ld m")
    case None
    with Cons.prems frame show ?thesis by (auto simp: run_ok_def rq_ok_def covered_def split: option.splits)
  next
    case (Some st)
    show ?thesis
    proof (cases st)
      case Loading
      with Some Cons.prems show ?thesis by (simp add: run_ok_def rq_ok_def covered_def)
    next
      case Loaded
      with Some have "m \<in> loaded ld" by (simp add: loaded_def)
      then have "insert m (loaded ld) = loaded ld" "covered ld rq (m # ms) \<longleftrightarrow> covered ld rq ms"
        by (auto simp: covered_def split: option.splits)
      with Cons Some Loaded show ?thesis by simp
    qed
  qed
qed

lemma reqs_frame [simp]:
  "loaded (ld\<lparr>ld_reqs := r\<rparr>) = loaded ld" "core_ok (ld\<lparr>ld_reqs := r\<rparr>) = core_ok ld"
  "rq_ok (ld\<lparr>ld_reqs := r\<rparr>) = rq_ok ld"
proof -
  show l: "loaded (ld\<lparr>ld_reqs := r\<rparr>) = loaded ld" by (simp add: loaded_def)
  show "core_ok (ld\<lparr>ld_reqs := r\<rparr>) = core_ok ld" by (simp add: core_ok_def l)
  show "rq_ok (ld\<lparr>ld_reqs := r\<rparr>) = rq_ok ld" by (intro ext iffI; erule rq_ok_mono) (simp_all add: l)
qed

lemma run_ok_reqs:
  "run_ok ld p \<Longrightarrow> list_all (rq_ok ld) (ld_reqs ld) \<Longrightarrow> core_ok (fst p) \<and> rq_ok (fst p) (snd p) \<and> list_all (rq_ok (fst p)) (ld_reqs (fst p))"
  by (auto simp: run_ok_def list_all_iff intro: rq_ok_mono)

lemma put_request_ok: "run_ok ld p \<Longrightarrow> list_all (rq_ok ld) (ld_reqs ld) \<Longrightarrow> loader_ok (put_request i p)"
  using run_ok_reqs [of ld p] set_update_subset_insert [of "ld_reqs (fst p)" i "snd p"]
  by (auto simp: loader_ok_def put_request_def list_all_iff)

lemma push_request_ok: "run_ok ld p \<Longrightarrow> list_all (rq_ok ld) (ld_reqs ld) \<Longrightarrow> loader_ok (push_request p)"
  using run_ok_reqs [of ld p] by (auto simp: loader_ok_def push_request_def)

lemma load_ok:
  assumes "loader_ok ld" and "load ld a = Some ld'"
  shows "loader_ok ld'"
proof -
  have core: "core_ok ld" and reqs: "list_all (rq_ok ld) (ld_reqs ld)"
    using assms(1) by (simp_all add: loader_ok_def)
  have logged: "core_ok (ld_note [Style u, Callback a] ld)" "core_ok (ld_note [PlainScript u] ld)" for u
    using core by (auto simp: core_ok_def log_ok_append entry_ok_def)
  then have plain: "run_ok ld (ld_note [Style u, Callback a] ld, new_request a [] Finished)"
    "run_ok ld (ld_note [PlainScript u] ld, new_request a [] FetchingPlain)" for u
    by (simp_all add: run_ok_def rq_ok_def new_request_def)
  have queued: "run_ok ld (run_queue ld (new_request a mm Polling) mm)"
    if mm: "add_all (ld_modules ld) (arg_names a) = Some mm" for mm
  proof (rule run_queue_ok [OF core])
    show "ordered (ld_modules ld) (loaded ld) mm"
      using add_all_sound [OF mm] by (auto intro: ordered_mono)
    show "covered ld (new_request a mm Polling) mm"
      using mm by (simp add: covered_def new_request_def)
  qed
  show ?thesis
    using assms(2) plain queued reqs
    by (auto simp: load_def Let_def split: if_split_asm option.split_asm intro: push_request_ok)
qed

lemma covered_phase [simp]: "covered ld (rq\<lparr>rq_phase := p\<rparr>) q = covered ld rq q"
  by (simp add: covered_def)

lemma script_done_ok:
  assumes "loader_ok ld"
  shows "loader_ok (script_done ld i)"
proof (cases "i < length (ld_reqs ld)")
  case True
  define rq where "rq = ld_reqs ld ! i"
  have core: "core_ok ld" and reqs: "list_all (rq_ok ld) (ld_reqs ld)" and rq: "rq_ok ld rq"
    using assms True by (auto simp: loader_ok_def list_all_iff rq_def)
  note fin = put_request_ok [OF _ reqs]
  have note_ok: "core_ok (ld_note [RemoveScript u] ld)" "core_ok (ld_note [Callback a] ld)" for u a
    by (rule core_ok_note; simp add: core entry_ok_def)+
  show ?thesis
  proof (cases "rq_phase rq")
    case (Fetching m)
    define ld1 where "ld1 = ld_note [Progress m] (ld\<lparr>ld_status := (ld_status ld)(m \<mapsto> Loaded)\<rparr>)"
    obtain q where q: "rq_queue rq = m # q" "ordered (ld_modules ld) (loaded ld) (m # q)" "covered ld rq (m # q)"
      using rq Fetching by (auto simp: rq_ok_def)
    have l1: "loaded ld1 = insert m (loaded ld)" by (auto simp: ld1_def loaded_def)
    have core1: "core_ok ld1"
      using core l1 by (auto simp: core_ok_def log_ok_append entry_ok_def ld1_def)
    have "run_ok ld1 (run_queue ld1 rq q)"
    proof (rule run_queue_ok [OF core1])
      show "ordered (ld_modules ld1) (loaded ld1) q" using q(2) by (simp add: l1) (simp add: ld1_def)
      show "covered ld1 rq q" using q(3) unfolding covered_def l1 by (auto simp: ld1_def split: option.splits)
    qed
    moreover have "ld_modules ld1 = ld_modules ld" "ld_reqs ld1 = ld_reqs ld" by (simp_all add: ld1_def)
    then have "list_all (rq_ok ld1) (ld_reqs ld1)"
      using reqs by (auto simp: list_all_iff l1 intro: rq_ok_mono [of ld])
    ultimately show ?thesis
      using True put_request_ok [of ld1] by (simp add: script_done_def Let_def rq_def [symmetric] Fetching q(1) ld1_def)
  next
    case (FetchingLocale u)
    have "run_ok (ld_note [RemoveScript u] ld) (finish_request (ld_note [RemoveScript u] ld) rq)"
      by (rule finish_request_ok) (use note_ok rq FetchingLocale in \<open>auto simp: rq_ok_def covered_def split: option.splits\<close>)
    then have "run_ok ld (finish_request (ld_note [RemoveScript u] ld) rq)" by (simp add: run_ok_def)
    then show ?thesis using True fin by (simp add: script_done_def Let_def rq_def [symmetric] FetchingLocale)
  next
    case FetchingPlain
    have "run_ok ld (ld_note [Callback (rq_arg rq)] ld, rq\<lparr>rq_phase := Finished\<rparr>)"
      using note_ok by (simp add: run_ok_def rq_ok_def)
    then show ?thesis using True fin by (simp add: script_done_def Let_def rq_def [symmetric] FetchingPlain)
  qed (use assms True in \<open>simp_all add: script_done_def rq_def\<close>)
qed (use assms in \<open>simp add: script_done_def\<close>)

lemma timer_tick_ok:
  assumes "loader_ok ld"
  shows "loader_ok (timer_tick ld i)"
proof (cases "i < length (ld_reqs ld) \<and> rq_phase (ld_reqs ld ! i) = Polling")
  case True
  then have "rq_ok ld (ld_reqs ld ! i)" using assms by (auto simp: loader_ok_def list_all_iff)
  with True assms show ?thesis
    by (auto simp: timer_tick_def loader_ok_def rq_ok_def intro!: run_queue_ok put_request_ok [of ld, unfolded loader_ok_def])
qed (use assms in \<open>auto simp: timer_tick_def\<close>)

lemma run_queue_modules [simp]: "ld_modules (fst (run_queue ld rq q)) = ld_modules ld"
  by (induction q)
    (auto simp: queue_empty_def finish_request_def fetch_module_def Let_def split: option.splits mstatus.splits)

lemma request_modules [simp]:
  "ld_modules (push_request p) = ld_modules (fst p)" "ld_modules (put_request i p) = ld_modules (fst p)"
  by (simp_all add: push_request_def put_request_def)

lemma load_step_modules: "load_step ld e = Some ld' \<Longrightarrow> ld_modules ld' = ld_modules ld"
  by (auto simp: load_step_def load_def Let_def script_done_def timer_tick_def finish_request_def
      split: load_event.split_asm if_split_asm option.split_asm load_phase.split)

interpretation easyloader: partial_machine load_step "\<lambda>ld. loader_ok ld \<and> ld_modules ld = tbl" for tbl
proof
  fix s e s'
  assume s: "loader_ok s \<and> ld_modules s = tbl" and st: "load_step s e = Some s'"
  have "loader_ok s'"
    using s st by (cases e) (auto simp: load_step_def script_done_ok timer_tick_ok intro: load_ok)
  with s load_step_modules [OF st] show "loader_ok s' \<and> ld_modules s' = tbl" by simp
qed

text \<open>\<open>fresh_loader\<close>: any tables and options, nothing requested yet.\<close>

definition fresh_loader :: "loader \<Rightarrow> bool" where
  "fresh_loader ld = (ld_status ld = Map.empty \<and> ld_reqs ld = [] \<and> ld_log ld = [])"

lemma fresh_ok: "fresh_loader ld \<Longrightarrow> loader_ok ld"
  by (simp add: fresh_loader_def loader_ok_def core_ok_def loaded_def)

lemma session_log_ok:
  assumes "fresh_loader ld" and "run_events load_step ld es = Some ld'"
  shows "log_ok (ld_modules ld) [] (ld_log ld')"
  using easyloader.inv_run [of ld "ld_modules ld" es ld'] assms fresh_ok by (auto simp: loader_ok_def core_ok_def)

text \<open>
  C1. In every session (any number of overlapping requests, scripts arriving and timers firing in
  any order) the script of a module is inserted at most once, and only after all its
  dependencies have arrived.
\<close>

theorem dependencies_before_dependents:
  assumes "fresh_loader ld" and "run_events load_step ld es = Some ld'"
    and "i < length (ld_log ld')" and "ld_log ld' ! i = ModuleScript m u"
  shows "deps_within (ld_modules ld) m {d. Progress d \<in> set (take i (ld_log ld'))} \<and>
    (\<forall>v. ModuleScript m v \<notin> set (take i (ld_log ld')))"
  using log_ok_nth [OF session_log_ok [OF assms(1,2)] assms(3)] assms(4)
  by (auto simp: entry_ok_def list_all_iff)

text \<open>A loader with two modules, the second depending on the first.\<close>

definition two_modules :: loader where
  "two_modules = default_loader\<lparr>ld_modules := object_of
     [(''a'', Module ''a.js'' None None), (''b'', Module ''b.js'' (Some ''b.css'') (Some [''a'']))]\<rparr>"

lemma two_modules_fresh: "fresh_loader two_modules"
  by (simp add: fresh_loader_def two_modules_def default_loader_def)

lemma two_modules_order: "add_all (ld_modules two_modules) [''b''] = Some [''a'', ''b'']"
  by (simp add: two_modules_def object_of_def add_all_Cons deps_of_def)

lemma two_modules_run:
  "load two_modules (One ''b'') =
     Some (push_request (run_queue two_modules (new_request (One ''b'') [''a'', ''b''] Polling) [''a'', ''b'']))"
  using two_modules_order
  by (simp add: load_def Let_def arg_string_def arg_names_def has_suffix_def to_lower_def to_lower_char_def suffix_def)

lemmas two_modules_simps = two_modules_def default_loader_def object_of_def push_request_def put_request_def
  new_request_def fetch_module_def ld_note_def script_url_def style_url_def is_http_def script_done_def
  queue_empty_def finish_request_def Let_def to_lower_def to_lower_char_def

theorem dependencies_before_dependents_witness:
  "\<exists>ld'. run_events load_step two_modules [Load (One ''b''), ScriptDone 0] = Some ld' \<and>
     deps_within (ld_modules two_modules) ''b'' {d. Progress d \<in> set (take 3 (ld_log ld'))}"
proof -
  obtain ld' where ld': "run_events load_step two_modules [Load (One ''b''), ScriptDone 0] = Some ld'"
    "3 < length (ld_log ld')" "ld_log ld' ! 3 = ModuleScript ''b'' ''.plugins/b.js''"
    by (simp add: two_modules_run) (simp add: two_modules_simps)
  from dependencies_before_dependents [OF two_modules_fresh ld'] ld'(1) show ?thesis by blast
qed

text \<open>
  \<open>onLoad\<close> is called for a request only when every module it needs, dependencies
  included, has arrived.
\<close>

theorem onLoad_after_arrival:
  assumes "fresh_loader ld" and "run_events load_step ld es = Some ld'"
    and "i < length (ld_log ld')" and "ld_log ld' ! i = OnLoad a"
  shows "\<exists>mm. add_all (ld_modules ld) (arg_names a) = Some mm \<and>
    (\<forall>m \<in> set mm. Progress m \<in> set (take i (ld_log ld')))"
  using log_ok_nth [OF session_log_ok [OF assms(1,2)] assms(3)] assms(4)
  by (auto simp: entry_ok_def list_all_iff split: option.split_asm)

theorem onLoad_after_arrival_witness:
  "\<exists>ld'. run_events load_step two_modules [Load (One ''b''), ScriptDone 0, ScriptDone 0] = Some ld' \<and>
     (\<exists>mm. add_all (ld_modules two_modules) [''b''] = Some mm \<and> (\<forall>m \<in> set mm. Progress m \<in> set (take 6 (ld_log ld'))))"
proof -
  obtain ld' where ld': "run_events load_step two_modules [Load (One ''b''), ScriptDone 0, ScriptDone 0] = Some ld'"
    "6 < length (ld_log ld')" "ld_log ld' ! 6 = OnLoad (One ''b'')"
    by (simp add: two_modules_run) (simp add: two_modules_simps)
  from onLoad_after_arrival [OF two_modules_fresh ld'] ld'(1) show ?thesis by (auto simp: arg_names_def)
qed

subsection \<open>A request alone completes\<close>

definition no_loading :: "loader \<Rightarrow> bool" where
  "no_loading ld = (\<forall>m. ld_status ld m \<noteq> Some Loading)"

definition completed :: "load_arg \<Rightarrow> loader \<Rightarrow> bool" where
  "completed a ld = (OnLoad a \<in> set (ld_log ld) \<and> map rq_phase (ld_reqs ld) = [Finished])"

lemma queue_empty_completes:
  assumes "length (ld_reqs ld) = 1"
  shows "\<exists>n \<le> 1. completed (rq_arg rq) (((\<lambda>l. script_done l 0) ^^ n) (put_request 0 (queue_empty ld rq)))"
proof -
  obtain r where r: "ld_reqs ld = [r]" using assms by (cases "ld_reqs ld") auto
  have fin: "completed (rq_arg q) (put_request 0 (finish_request l q))" if "ld_reqs l = [x]" for l q x
    using that by (simp add: completed_def put_request_def finish_request_def)
  show ?thesis
  proof (cases "queue_empty ld rq = finish_request ld rq")
    case True
    then show ?thesis using fin [OF r] by (intro exI [of _ 0]) simp
  next
    case False
    then obtain u where "queue_empty ld rq = (ld_note [LocaleScript u] ld, rq\<lparr>rq_phase := FetchingLocale u\<rparr>)"
      by (auto simp: queue_empty_def Let_def split: option.splits if_splits)
    then show ?thesis
      by (intro exI [of _ 1])
        (simp add: script_done_def put_request_def finish_request_def completed_def r)
  qed
qed

lemma run_queue_completes:
  "no_loading ld \<Longrightarrow> length (ld_reqs ld) = 1 \<Longrightarrow>
   \<exists>n \<le> length q + 1. completed (rq_arg rq) (((\<lambda>l. script_done l 0) ^^ n) (put_request 0 (run_queue ld rq q)))"
proof (induction q arbitrary: ld rq)
  case Nil
  then show ?case using queue_empty_completes [of ld "rq\<lparr>rq_queue := []\<rparr>"] by simp
next
  case (Cons m ms)
  show ?case
  proof (cases "ld_status ld m")
    case None
    define rq1 where "rq1 = rq\<lparr>rq_queue := m # ms, rq_fetched := True, rq_phase := Fetching m\<rparr>"
    define ld1 where "ld1 = put_request 0 (fetch_module m ld, rq1)"
    define ld2 where "ld2 = ld_note [Progress m] (ld1\<lparr>ld_status := (ld_status ld1)(m \<mapsto> Loaded)\<rparr>)"
    have reqs: "ld_reqs (fetch_module m ld) = ld_reqs ld"
      by (simp add: fetch_module_def Let_def split: option.splits)
    have st: "ld_status (fetch_module m ld) = (ld_status ld)(m \<mapsto> Loading)"
      by (simp add: fetch_module_def Let_def split: option.splits)
    obtain r where r: "ld_reqs ld = [r]" using Cons.prems(2) by (cases "ld_reqs ld") auto
    have one: "script_done ld1 0 = put_request 0 (run_queue ld2 rq1 ms)"
      by (simp add: script_done_def Let_def ld1_def put_request_def reqs r rq1_def ld2_def)
    have "no_loading ld2" "length (ld_reqs ld2) = 1"
      using Cons.prems by (auto simp: no_loading_def ld2_def ld1_def put_request_def st reqs)
    from Cons.IH [OF this, of rq1] obtain n where n: "n \<le> length ms + 1"
      "completed (rq_arg rq1) (((\<lambda>l. script_done l 0) ^^ n) (put_request 0 (run_queue ld2 rq1 ms)))" by auto
    then have "completed (rq_arg rq) (((\<lambda>l. script_done l 0) ^^ Suc n) ld1)"
      by (simp add: funpow_Suc_right one rq1_def del: funpow.simps)
    moreover have "put_request 0 (run_queue ld rq (m # ms)) = ld1" by (simp add: None ld1_def rq1_def)
    ultimately show ?thesis using n(1) by (intro exI [of _ "Suc n"]) auto
  next
    case (Some st)
    then have "st = Loaded" using Cons.prems(1) by (cases st) (auto simp: no_loading_def)
    with Some Cons.IH [OF Cons.prems, of rq] show ?thesis by (auto intro: le_SucI)
  qed
qed

lemma run_script_done: "run_events load_step ld (replicate n (ScriptDone i)) = Some (((\<lambda>l. script_done l i) ^^ n) ld)"
  by (induction n arbitrary: ld) (simp_all add: funpow_Suc_right del: funpow.simps)

text \<open>
  C11. A single request for modules completes: when the browser delivers the scripts it asks for,
  at most one per module of the load order and one for the locale, \<open>onLoad\<close> is called and
  nothing is left pending.
\<close>

theorem request_completes:
  assumes "fresh_loader ld" and "add_all (ld_modules ld) (arg_names a) = Some mm"
    and "\<not> has_suffix ''.css'' (arg_string a)" and "\<not> has_suffix ''.js'' (arg_string a)"
  shows "\<exists>n \<le> length mm + 1. \<exists>ld'. run_events load_step ld (Load a # replicate n (ScriptDone 0)) = Some ld' \<and>
    OnLoad a \<in> set (ld_log ld') \<and> map rq_phase (ld_reqs ld') = [Finished]"
proof -
  define rq where "rq = new_request a mm Polling"
  define ld1 where "ld1 = ld\<lparr>ld_reqs := [rq]\<rparr>"
  have "run_queue ld1 rq mm = (fst (run_queue ld rq mm)\<lparr>ld_reqs := [rq]\<rparr>, snd (run_queue ld rq mm))"
    unfolding ld1_def
    by (induction mm)
      (auto simp: queue_empty_def finish_request_def fetch_module_def Let_def ld_note_def style_url_def script_url_def
        split: option.splits mstatus.splits)
  moreover have "ld_reqs (fst (run_queue ld rq mm)) = []"
    using assms(1) unfolding fresh_loader_def
    by (induction mm)
      (auto simp: queue_empty_def finish_request_def fetch_module_def Let_def split: option.splits mstatus.splits)
  ultimately have "push_request (run_queue ld rq mm) = put_request 0 (run_queue ld1 rq mm)"
    by (simp add: push_request_def put_request_def)
  then have start: "load ld a = Some (put_request 0 (run_queue ld1 rq mm))"
    using assms(2-4) by (simp add: load_def Let_def rq_def)
  have "no_loading ld1" "length (ld_reqs ld1) = 1" "rq_arg rq = a"
    using assms(1) by (simp_all add: no_loading_def ld1_def fresh_loader_def rq_def new_request_def)
  with run_queue_completes [of ld1 mm rq] start show ?thesis
    by (auto simp: run_script_done completed_def)
qed

theorem request_completes_witness:
  "\<exists>n \<le> 3. \<exists>ld'. run_events load_step two_modules (Load (One ''b'') # replicate n (ScriptDone 0)) = Some ld' \<and>
    OnLoad (One ''b'') \<in> set (ld_log ld') \<and> map rq_phase (ld_reqs ld') = [Finished]"
  using request_completes [OF two_modules_fresh, of "One ''b''" "[''a'', ''b'']"] two_modules_order
  by (simp add: arg_names_def arg_string_def has_suffix_def to_lower_def to_lower_char_def suffix_def numeral_3_eq_3)

subsection \<open>A request that waits for another\<close>

lemma put_put [simp]: "put_request i (put_request i (ld, r), q) = put_request i (ld, q)"
  by (simp add: put_request_def)

text \<open>
  A request whose next module is being loaded by another request polls a bounded number of
  times: when that module does not arrive while the timer fires often enough to use up
  \<open>timeout\<close>, the request gives up without calling anyone.
\<close>

theorem waiting_gives_up:
  assumes "i < length (ld_reqs ld)" and "rq_phase (ld_reqs ld ! i) = Polling"
    and "rq_queue (ld_reqs ld ! i) = m # ms" and "ld_status ld m = Some Loading"
    and "ld_timeout ld \<le> rq_waited (ld_reqs ld ! i) + 10 * int n"
  shows "\<exists>ld'. run_events load_step ld (replicate (Suc n) (Tick i)) = Some ld' \<and>
    rq_phase (ld_reqs ld' ! i) = GaveUp \<and> ld_log ld' = ld_log ld"
  using assms
proof (induction n arbitrary: ld)
  case 0
  then show ?case by (simp add: timer_tick_def put_request_def)
next
  case (Suc n)
  let ?ld1 = "timer_tick ld i"
  show ?case
  proof (cases "rq_waited (ld_reqs ld ! i) < ld_timeout ld")
    case True
    then have ld1: "?ld1 = put_request i (ld, (ld_reqs ld ! i)\<lparr>rq_queue := m # ms,
        rq_waited := rq_waited (ld_reqs ld ! i) + 10, rq_phase := Polling\<rparr>)"
      using Suc.prems by (simp add: timer_tick_def)
    have "\<exists>ld'. run_events load_step ?ld1 (replicate (Suc n) (Tick i)) = Some ld' \<and>
        rq_phase (ld_reqs ld' ! i) = GaveUp \<and> ld_log ld' = ld_log ?ld1"
      by (rule Suc.IH) (use Suc.prems in \<open>simp_all add: ld1 put_request_def\<close>)
    then show ?thesis by simp (simp add: ld1 put_request_def)
  next
    case False
    then have ld1: "?ld1 = put_request i (ld, (ld_reqs ld ! i)\<lparr>rq_queue := m # ms, rq_phase := GaveUp\<rparr>)"
      using Suc.prems by (simp add: timer_tick_def)
    have still: "timer_tick ?ld1 i = ?ld1"
      using Suc.prems(1) unfolding ld1 by (simp add: timer_tick_def put_request_def)
    have "run_events load_step ?ld1 (replicate k (Tick i)) = Some ?ld1" for k
      by (induction k) (simp_all add: still)
    then show ?thesis using Suc.prems(1)
      by (simp add: still) (simp add: ld1 put_request_def)
  qed
qed

theorem waiting_gives_up_witness:
  "let ld = two_modules\<lparr>ld_timeout := 20, ld_status := [''a'' \<mapsto> Loading],
         ld_reqs := [(new_request (One ''b'') [''a'', ''b''] Polling)\<lparr>rq_waited := 10\<rparr>]\<rparr>
   in \<exists>ld'. run_events load_step ld (replicate (Suc 1) (Tick 0)) = Some ld' \<and>
     rq_phase (ld_reqs ld' ! 0) = GaveUp \<and> ld_log ld' = ld_log ld"
  unfolding Let_def by (rule waiting_gives_up [where m = "''a''"]) (simp_all add: new_request_def)

text \<open>The base found from a script element is the directory of \<open>easyloader.js\<close>.\<close>

lemma match_index_dir:
  assumes "\<forall>i < length dir. \<not> matches_here (drop i (dir @ ''easyloader.js''))"
  shows "match_index (dir @ ''easyloader.js'') = Some (length dir)"
  using assms
proof (induction dir)
  case Nil
  then show ?case by (simp add: matches_here_def to_lower_def to_lower_char_def)
next
  case (Cons c cs)
  have "\<not> matches_here (drop i (cs @ ''easyloader.js''))" if "i < length cs" for i
    using Cons.prems that by (auto dest: spec [of _ "Suc i"])
  with Cons.IH Cons.prems show ?case by (auto dest: spec [of _ 0])
qed

lemma detect_base_dir:
  assumes "\<forall>i < length dir. \<not> matches_here (drop i (dir @ ''easyloader.js''))"
  shows "detect_base base (srcs @ [dir @ ''easyloader.js'']) = dir"
  using match_index_dir [OF assms] by (induction srcs arbitrary: base) (auto split: option.splits)

text \<open>
  The second entry of \<open>tooltip\<close> hides the first, which names the style sheet: the loader
  never links \<open>tooltip.css\<close>.
\<close>

lemma tooltip_without_css: "ld_modules default_loader ''tooltip'' = Some (Module ''jquery.tooltip.js'' None None)"
  by (simp add: default_loader_def object_of_def module_table_def)

end
