(* ===== verification/Pagination.thy ===== *)
theory Pagination
  imports JsPrelude
begin

text \<open>
  \<open>plugins/jquery.pagination.js\<close>: the options of a pager, the toolbar built from its layout
  (\<open>_1\<close>), the refresh (\<open>_14\<close>) that clamps the page number and redraws the number box, the
  page links, the message and the buttons, and the handlers. The page size is \<open>None\<close> when the
  code has stored NaN in it; a refresh has no result when the code divides a total by a page
  size of zero.
\<close>

section \<open>State\<close>

datatype pg_item = PgSelect "string list" | PgSep | PgButton string | PgManual | PgLinks | PgUser string

datatype pg_buttons = NoButtons | ButtonList "string list" | ButtonSelector string

datatype pg_note = SelectPage int "int option" | ChangePageSize "int option" | BeforeRefresh int "int option"
  | Refreshed int "int option"

record pager =
  pg_total :: int
  pg_pageSize :: "int option"
  pg_pageNumber :: int
  pg_pageList :: "int list"
  pg_loading :: bool
  pg_user :: pg_buttons
  pg_showPageList :: bool
  pg_showRefresh :: bool
  pg_links :: int
  pg_layout :: "string list"
  pg_beforeRefresh :: "int \<Rightarrow> int option \<Rightarrow> bool"
  pg_afterText :: string
  pg_displayMsg :: string
  pg_items :: "pg_item list"
  pg_num :: "string option"
  pg_after :: "string option"
  pg_disabled :: "string \<rightharpoonup> bool"
  pg_icon :: string
  pg_link_cells :: "(int \<times> bool) list"
  pg_info :: string
  pg_log :: "pg_note list"

definition default_pager :: pager where
  "default_pager =
     \<lparr>pg_total = 1, pg_pageSize = Some 10, pg_pageNumber = 1, pg_pageList = [10, 20, 30, 50], pg_loading = False,
      pg_user = NoButtons, pg_showPageList = True, pg_showRefresh = True, pg_links = 10,
      pg_layout = [''list'', ''sep'', ''first'', ''prev'', ''sep'', ''manual'', ''sep'', ''next'', ''last'', ''sep'', ''refresh''],
      pg_beforeRefresh = (\<lambda>n s. True), pg_afterText = ''of {pages}'',
      pg_displayMsg = ''Displaying {from} to {to} of {total} items'',
      pg_items = [], pg_num = None, pg_after = None, pg_disabled = Map.empty, pg_icon = [], pg_link_cells = [], pg_info = [], pg_log = []\<rparr>"

definition note_pager :: "pg_note \<Rightarrow> pager \<Rightarrow> pager" where
  "note_pager n p = p\<lparr>pg_log := pg_log p @ [n]\<rparr>"

section \<open>The toolbar\<close>

text \<open>\<open>_6\<close>: remove the first entry of that name\<close>

definition drop_name :: "string \<Rightarrow> string list \<Rightarrow> string list" where
  "drop_name e aa = (case index_of e aa of None \<Rightarrow> aa | Some i \<Rightarrow> remove_at i aa)"

definition effective_layout :: "pager \<Rightarrow> string list" where
  "effective_layout p =
     (let aa = pg_layout p;
          aa = (if \<not> pg_showPageList p then drop_name ''list'' aa else aa);
          aa = (if \<not> pg_showRefresh p then drop_name ''refresh'' aa else aa);
          aa = (if aa \<noteq> [] \<and> hd aa = ''sep'' then tl aa else aa)
      in if aa \<noteq> [] \<and> last aa = ''sep'' then butlast aa else aa)"

definition nav_names :: "string list" where
  "nav_names = [''first'', ''prev'', ''next'', ''last'', ''refresh'']"

text \<open>The cells one layout name adds.\<close>

definition layout_item :: "pager \<Rightarrow> string \<Rightarrow> pg_item list" where
  "layout_item p n =
     (if n = ''list'' then [PgSelect (map show_int (pg_pageList p))]
      else if n = ''sep'' then [PgSep]
      else if n = ''manual'' then [PgManual]
      else if n \<in> set nav_names then [PgButton n]
      else if n = ''links'' then [PgLinks] else [])"

definition user_items :: "pager \<Rightarrow> pg_item list" where
  "user_items p = (case pg_user p of
       NoButtons \<Rightarrow> []
     | ButtonList bs \<Rightarrow> PgSep # map (\<lambda>b. if b = ''-'' then PgSep else PgUser b) bs
     | ButtonSelector s \<Rightarrow> [PgSep, PgUser s])"

text \<open>\<open>_1\<close>: draw the toolbar; the references \<open>bb\<close> start afresh.\<close>

definition build_pager :: "pager \<Rightarrow> pager" where
  "build_pager p =
     (let aa = effective_layout p; manual = ''manual'' \<in> set aa
      in p\<lparr>pg_items := concat (map (layout_item p) aa) @ user_items p,
           pg_num := if manual then Some ''1'' else None,
           pg_after := if manual then Some [] else None,
           pg_disabled := (\<lambda>n. if n \<in> set aa \<and> n \<in> set nav_names then Some False else None),
           pg_icon := if ''refresh'' \<in> set aa then ''pagination-refresh'' else [],
           pg_link_cells := [], pg_info := []\<rparr>)"

section \<open>Refresh\<close>

text \<open>\<open>ps.val(pageSize+"")\<close>, then \<open>parseInt(ps.val())\<close>: a size not offered reads back as NaN.\<close>

definition select_value :: "pg_item list \<Rightarrow> int option \<Rightarrow> int option" where
  "select_value items sz =
     (case find (\<lambda>x. case x of PgSelect os \<Rightarrow> True | _ \<Rightarrow> False) items of
        Some (PgSelect os) \<Rightarrow>
          (case sz of
             None \<Rightarrow> None
           | Some n \<Rightarrow> if show_int n \<in> set os then parse_int_auto (show_int n) else None)
      | _ \<Rightarrow> sz)"

definition read_select :: "pager \<Rightarrow> int option" where
  "read_select p = select_value (pg_items p) (pg_pageSize p)"

text \<open>\<open>Math.ceil(a/b)\<close> for \<open>b\<close> not zero, and \<open>Math.ceil(total/pageSize)||1\<close>\<close>

definition ceil_div :: "int \<Rightarrow> int \<Rightarrow> int" where
  "ceil_div a b = - ((- a) div b)"

definition page_count :: "int \<Rightarrow> int option \<Rightarrow> int option" where
  "page_count tot sz =
     (case sz of
        None \<Rightarrow> Some 1
      | Some p \<Rightarrow> if p = 0 then (if tot = 0 then Some 1 else None)
                  else let c = ceil_div tot p in Some (if c = 0 then 1 else c))"

definition clamp_page :: "int \<Rightarrow> int \<Rightarrow> int" where
  "clamp_page pages n = (let n = (if n < 1 then 1 else n) in if n > pages then pages else n)"

text \<open>The window of page links: \<open>_1a\<close> and \<open>_1b\<close>\<close>

definition link_window :: "int \<Rightarrow> int \<Rightarrow> int \<Rightarrow> int list" where
  "link_window links pages n =
     (let a = n - links div 2;
          a = (if a < 1 then 1 else a);
          b = a + links - 1;
          b = (if b > pages then pages else b);
          a = b - links + 1;
          a = (if a < 1 then 1 else a)
      in [a..b])"

definition item_from :: "int \<Rightarrow> int \<Rightarrow> int \<Rightarrow> int" where
  "item_from tot sz n = (if tot = 0 then 0 else sz * (n - 1) + 1)"

definition item_to :: "int \<Rightarrow> int \<Rightarrow> int \<Rightarrow> int" where
  "item_to tot sz n = min (sz * n) tot"

definition info_msg :: "int \<Rightarrow> int option \<Rightarrow> int \<Rightarrow> string \<Rightarrow> string" where
  "info_msg tot sz n msg =
     (let from = (case sz of
            None \<Rightarrow> if tot = 0 then ''0'' else ''NaN''
          | Some s \<Rightarrow> show_int (item_from tot s n));
          to = (case sz of None \<Rightarrow> ''NaN'' | Some s \<Rightarrow> show_int (item_to tot s n))
      in replace_first ''{total}'' (show_int tot) (replace_first ''{to}'' to (replace_first ''{from}'' from msg)))"

definition info_text :: "pager \<Rightarrow> string" where
  "info_text p = info_msg (pg_total p) (pg_pageSize p) (pg_pageNumber p) (pg_displayMsg p)"

text \<open>\<open>_1d\<close>\<close>

definition set_loading :: "bool \<Rightarrow> pager \<Rightarrow> pager" where
  "set_loading b p =
     (let p = p\<lparr>pg_loading := b\<rparr>
      in if pg_showRefresh p \<and> pg_disabled p ''refresh'' \<noteq> None
         then p\<lparr>pg_icon := if b then ''pagination-loading'' else ''pagination-load''\<rparr> else p)"

text \<open>The option object given to \<open>refresh\<close>: the fields that are present.\<close>

datatype pg_opts = PgOpts (po_total: "int option") (po_pageSize: "int option") (po_pageNumber: "int option")

definition extend_pager :: "pg_opts \<Rightarrow> pager \<Rightarrow> pager" where
  "extend_pager o' p =
     p\<lparr>pg_total := case po_total o' of None \<Rightarrow> pg_total p | Some t \<Rightarrow> t,
       pg_pageSize := case po_pageSize o' of None \<Rightarrow> pg_pageSize p | Some s \<Rightarrow> Some s,
       pg_pageNumber := case po_pageNumber o' of None \<Rightarrow> pg_pageNumber p | Some n \<Rightarrow> n\<rparr>"

definition set_disabled :: "string \<Rightarrow> bool \<Rightarrow> (string \<rightharpoonup> bool) \<Rightarrow> string \<rightharpoonup> bool" where
  "set_disabled n b d = (if d n = None then d else d(n \<mapsto> b))"

text \<open>The redrawing part of \<open>_14\<close>, for the clamped page number and the count to show.\<close>

definition redraw_pager :: "int \<Rightarrow> pager \<Rightarrow> pager" where
  "redraw_pager pages p =
     (let atStart = (pg_total p = 0 \<or> pg_pageNumber p = 1); atEnd = (pg_pageNumber p = pages)
      in set_loading (pg_loading p)
           (p\<lparr>pg_num := map_option (\<lambda>t. show_int (pg_pageNumber p)) (pg_num p),
              pg_after := map_option (\<lambda>t. replace_first ''{pages}'' (show_int pages) (pg_afterText p)) (pg_after p),
              pg_link_cells := if PgLinks \<in> set (pg_items p)
                then map (\<lambda>i. (i, i = pg_pageNumber p)) (link_window (pg_links p) pages (pg_pageNumber p)) else [],
              pg_info := info_text p,
              pg_disabled := set_disabled ''last'' atEnd (set_disabled ''next'' atEnd
                (set_disabled ''prev'' atStart (set_disabled ''first'' atStart (pg_disabled p))))\<rparr>))"

definition refresh :: "pg_opts \<Rightarrow> pager \<Rightarrow> pager option" where
  "refresh o' p0 =
     (let p = extend_pager o' p0; p = p\<lparr>pg_pageSize := read_select p\<rparr>
      in case page_count (pg_total p) (pg_pageSize p) of
           None \<Rightarrow> None
         | Some pages \<Rightarrow>
             let n = clamp_page pages (pg_pageNumber p)
             in Some (if pg_total p = 0 then redraw_pager 0 (p\<lparr>pg_pageNumber := 0\<rparr>)
                      else redraw_pager pages (p\<lparr>pg_pageNumber := n\<rparr>)))"

text \<open>\<open>_10\<close>\<close>

definition select_page :: "int \<Rightarrow> pager \<Rightarrow> pager option" where
  "select_page n p =
     map_option (\<lambda>q. note_pager (SelectPage (pg_pageNumber q) (pg_pageSize q)) q) (refresh (PgOpts None None (Some n)) p)"

section \<open>Handlers\<close>

text \<open>\<open>n<Math.ceil(total/pageSize)\<close> in the handlers of next and last: false for NaN.\<close>

definition before_last :: "pager \<Rightarrow> bool" where
  "before_last p = (case pg_pageSize p of
       None \<Rightarrow> False
     | Some s \<Rightarrow> if s = 0 then pg_total p > 0 else pg_pageNumber p < ceil_div (pg_total p) s)"

definition nav_first :: "pager \<Rightarrow> pager option" where
  "nav_first p = (if pg_pageNumber p > 1 then select_page 1 p else Some p)"

definition nav_prev :: "pager \<Rightarrow> pager option" where
  "nav_prev p = (if pg_pageNumber p > 1 then select_page (pg_pageNumber p - 1) p else Some p)"

definition nav_next :: "pager \<Rightarrow> pager option" where
  "nav_next p = (if before_last p then select_page (pg_pageNumber p + 1) p else Some p)"

definition nav_last :: "pager \<Rightarrow> pager option" where
  "nav_last p =
     (if before_last p
      then (case pg_pageSize p of
              Some s \<Rightarrow> if s = 0 then None else select_page (ceil_div (pg_total p) s) p
            | None \<Rightarrow> Some p)
      else Some p)"

definition nav_refresh :: "pager \<Rightarrow> pager option" where
  "nav_refresh p =
     (let p1 = note_pager (BeforeRefresh (pg_pageNumber p) (pg_pageSize p)) p
      in if pg_beforeRefresh p (pg_pageNumber p) (pg_pageSize p)
         then map_option (\<lambda>q. note_pager (Refreshed (pg_pageNumber q) (pg_pageSize q)) q) (select_page (pg_pageNumber p1) p1)
         else Some p1)"

definition press_button :: "string \<Rightarrow> pager \<Rightarrow> pager option" where
  "press_button n p =
     (if pg_disabled p n = None then Some p
      else if n = ''first'' then nav_first p
      else if n = ''prev'' then nav_prev p
      else if n = ''next'' then nav_next p
      else if n = ''last'' then nav_last p
      else if n = ''refresh'' then nav_refresh p else Some p)"

text \<open>The change event of the page list, and Enter in the number box\<close>

definition change_size :: "nat \<Rightarrow> pager \<Rightarrow> pager option" where
  "change_size k p =
     (if k < length (pg_pageList p) \<and> PgSelect (map show_int (pg_pageList p)) \<in> set (pg_items p)
      then let sz = parse_int_auto (show_int (pg_pageList p ! k));
               p1 = note_pager (ChangePageSize sz) (p\<lparr>pg_pageSize := sz\<rparr>)
           in select_page (pg_pageNumber p1) p1
      else Some p)"

definition enter_page :: "string \<Rightarrow> pager \<Rightarrow> pager option" where
  "enter_page s p = (if pg_num p = None then Some p else select_page (or_default (parse_int_auto s) 1) p)"

definition click_link :: "nat \<Rightarrow> pager \<Rightarrow> pager option" where
  "click_link k p =
     (if k < length (pg_link_cells p) \<and> \<not> snd (pg_link_cells p ! k)
      then select_page (fst (pg_link_cells p ! k)) p else Some p)"

text \<open>\<open>$(t).pagination(options)\<close>\<close>

definition init_pager :: "pg_opts \<Rightarrow> pager \<Rightarrow> pager option" where
  "init_pager o' p = refresh (PgOpts None None None) (build_pager (extend_pager o' p))"

datatype pg_event = Press string | EnterPage string | ChangeSize nat | ClickLink nat | Refresh pg_opts
  | SelectMethod int | SetLoading bool | Init pg_opts

definition pg_step :: "pager \<Rightarrow> pg_event \<Rightarrow> pager option" where
  "pg_step p e =
     (case e of
        Press n \<Rightarrow> press_button n p
      | EnterPage s \<Rightarrow> enter_page s p
      | ChangeSize k \<Rightarrow> change_size k p
      | ClickLink k \<Rightarrow> click_link k p
      | Refresh o' \<Rightarrow> refresh o' p
      | SelectMethod n \<Rightarrow> select_page n p
      | SetLoading b \<Rightarrow> Some (set_loading b p)
      | Init o' \<Rightarrow> init_pager o' p)"

section \<open>Counting pages\<close>

lemma ceil_div_bounds:
  assumes "0 < s"
  shows "a \<le> s * ceil_div a s" and "s * (ceil_div a s - 1) < a"
proof -
  define q r where "q = (- a) div s" and "r = (- a) mod s"
  have "s * q + r = - a" unfolding q_def r_def by (rule mult_div_mod_eq)
  moreover have "0 \<le> r" "r < s" using assms by (simp_all add: r_def)
  moreover have "s * ceil_div a s = - (s * q)" "s * (ceil_div a s - 1) = - (s * q) - s"
    by (simp_all add: ceil_div_def q_def algebra_simps)
  ultimately show "a \<le> s * ceil_div a s" and "s * (ceil_div a s - 1) < a" by linarith+
qed

lemma ceil_div_pos: "0 < s \<Longrightarrow> 0 < a \<Longrightarrow> 0 < ceil_div a s"
  using ceil_div_bounds [of s a] by (metis linorder_not_less mult_nonneg_nonpos order.strict_trans2 less_imp_le)

lemma page_count_pos: "0 < s \<Longrightarrow> 0 < a \<Longrightarrow> page_count a (Some s) = Some (ceil_div a s)"
  using ceil_div_pos [of s a] by (simp add: page_count_def Let_def)

lemma upto_append: "a \<le> b + 1 \<Longrightarrow> b \<le> c \<Longrightarrow> [a..b] @ [b + 1..c] = [a..c :: int]"
proof (induction "nat (b + 1 - a)" arbitrary: a)
  case (Suc n)
  then have "[a..b] = a # [a + 1..b]" "[a..c] = a # [a + 1..c]" by (intro upto_rec1; simp)+
  with Suc show ?case by simp
qed simp

lemma pages_prefix:
  assumes "0 < s" and "s * (int k - 1) < a \<or> k = 0"
  shows "concat (map (\<lambda>n. [s * (n - 1) + 1..min (s * n) a]) [1..int k]) = [1..min (s * int k) a]"
  using assms(2)
proof (induction k)
  case (Suc k)
  have "[1..int (Suc k)] = [1..int k] @ [int k + 1]"
    using upto_append [of 1 "int k" "int k + 1"] by (simp add: algebra_simps)
  moreover have lt: "s * int k < a" using Suc.prems by simp
  then have "s * (int k - 1) < a" using assms(1) by (simp add: algebra_simps)
  with Suc.IH lt have "concat (map (\<lambda>n. [s * (n - 1) + 1..min (s * n) a]) [1..int k]) = [1..s * int k]"
    by simp
  moreover have "[1..s * int k] @ [s * int k + 1..min (s * (int k + 1)) a] = [1..min (s * (int k + 1)) a]"
    by (rule upto_append) (use lt assms(1) in \<open>auto simp: algebra_simps\<close>)
  ultimately show ?case by (simp add: algebra_simps)
qed simp

section \<open>What a refresh shows\<close>

lemma link_window_ok:
  assumes "1 \<le> n" "n \<le> pages" "1 \<le> links"
  shows "\<exists>a. link_window links pages n = [a..a + min links pages - 1] \<and> 1 \<le> a \<and> a + min links pages - 1 \<le> pages \<and>
    a \<le> n \<and> n \<le> a + min links pages - 1"
proof -
  define h where "h = links div 2"
  have h: "2 * h \<le> links" "links \<le> 2 * h + 1" by (simp_all add: h_def)
  show ?thesis
  proof (cases "n - h < 1")
    case True
    then show ?thesis
      using assms h by (intro exI [of _ 1]) (auto simp: link_window_def Let_def h_def [symmetric])
  next
    case False
    then show ?thesis
      using assms h
      by (intro exI [of _ "max 1 (min (n - h + links - 1) pages - links + 1)"])
        (auto simp: link_window_def Let_def h_def [symmetric])
  qed
qed

lemma set_loading_frame [simp]:
  "pg_total (set_loading b p) = pg_total p" "pg_pageSize (set_loading b p) = pg_pageSize p"
  "pg_pageNumber (set_loading b p) = pg_pageNumber p" "pg_items (set_loading b p) = pg_items p"
  "pg_num (set_loading b p) = pg_num p" "pg_link_cells (set_loading b p) = pg_link_cells p"
  "pg_info (set_loading b p) = pg_info p" "pg_disabled (set_loading b p) = pg_disabled p"
  "pg_links (set_loading b p) = pg_links p" "pg_displayMsg (set_loading b p) = pg_displayMsg p"
  by (simp_all add: set_loading_def Let_def)

lemma redraw_frame [simp]:
  "pg_total (redraw_pager k p) = pg_total p" "pg_pageSize (redraw_pager k p) = pg_pageSize p"
  "pg_pageNumber (redraw_pager k p) = pg_pageNumber p" "pg_items (redraw_pager k p) = pg_items p"
  "pg_links (redraw_pager k p) = pg_links p"
  by (simp_all add: redraw_pager_def Let_def)

lemma redraw_displayMsg [simp]: "pg_displayMsg (redraw_pager k p) = pg_displayMsg p"
  by (simp add: redraw_pager_def Let_def)

lemma redraw_cells:
  "pg_link_cells (redraw_pager k p) = (if PgLinks \<in> set (pg_items p)
     then map (\<lambda>i. (i, i = pg_pageNumber p)) (link_window (pg_links p) k (pg_pageNumber p)) else [])"
  by (simp add: redraw_pager_def Let_def)

lemma set_disabled_apply [simp]:
  "set_disabled n b d m = (if m = n \<and> d n \<noteq> None then Some b else d m)"
  by (simp add: set_disabled_def)

lemma redraw_disabled:
  "pg_disabled p ''next'' \<noteq> None \<Longrightarrow> pg_disabled (redraw_pager k p) ''next'' = Some (pg_pageNumber p = k)"
  by (simp add: redraw_pager_def Let_def)

lemma redraw_num: "pg_num (redraw_pager k p) = map_option (\<lambda>t. show_int (pg_pageNumber p)) (pg_num p)"
  by (simp add: redraw_pager_def Let_def)

lemma redraw_info: "pg_info (redraw_pager k p) = info_text p"
  by (simp add: redraw_pager_def Let_def)

lemma refresh_positive:
  assumes "read_select (extend_pager o' p) = Some s" "0 < s" "0 < pg_total (extend_pager o' p)"
  shows "refresh o' p = Some (redraw_pager (ceil_div (pg_total (extend_pager o' p)) s)
     ((extend_pager o' p)\<lparr>pg_pageSize := Some s,
        pg_pageNumber := clamp_page (ceil_div (pg_total (extend_pager o' p)) s) (pg_pageNumber (extend_pager o' p))\<rparr>))"
  using assms by (simp add: refresh_def Let_def page_count_pos)

lemma filter_upto_single: "a \<le> n \<Longrightarrow> n \<le> b \<Longrightarrow> filter (\<lambda>i. i = n) [a..b :: int] = [n]"
proof (induction "nat (n - a)" arbitrary: a)
  case 0
  then have "[a..b] = n # [n + 1..b]" using upto_rec1 [of n b] by simp
  moreover have "filter (\<lambda>i. i = n) [n + 1..b] = []" by (simp add: filter_empty_conv)
  ultimately show ?case by simp
next
  case (Suc k)
  then have "[a..b] = a # [a + 1..b]" by (intro upto_rec1) simp
  with Suc show ?case by simp
qed

text \<open>
  C12. After a refresh with an offered page size and a positive total, the page number lies
  between 1 and the number of pages, the page links are consecutive pages within that range, as
  many as \<open>links\<close> allows, and exactly one of them, the current page, is selected.
\<close>

theorem refresh_shows_page:
  assumes "read_select (extend_pager o' p) = Some s" "0 < s" "0 < pg_total (extend_pager o' p)"
    and "1 \<le> pg_links p" "PgLinks \<in> set (pg_items p)"
  shows "\<exists>q a. refresh o' p = Some q \<and> pg_pageSize q = Some s \<and>
    1 \<le> pg_pageNumber q \<and> pg_pageNumber q \<le> ceil_div (pg_total q) s \<and>
    map fst (pg_link_cells q) = [a..a + min (pg_links p) (ceil_div (pg_total q) s) - 1] \<and>
    1 \<le> a \<and> a + min (pg_links p) (ceil_div (pg_total q) s) - 1 \<le> ceil_div (pg_total q) s \<and>
    filter snd (pg_link_cells q) = [(pg_pageNumber q, True)]"
proof -
  let ?e = "extend_pager o' p" and ?k = "ceil_div (pg_total (extend_pager o' p)) s"
  let ?n = "clamp_page ?k (pg_pageNumber ?e)"
  have n: "1 \<le> ?n" "?n \<le> ?k"
    using ceil_div_pos [OF assms(2,3)] by (auto simp: clamp_page_def Let_def)
  have "pg_links ?e = pg_links p" "pg_items ?e = pg_items p" by (simp_all add: extend_pager_def)
  with link_window_ok [OF n assms(4)] assms(5) refresh_positive [OF assms(1-3)] n show ?thesis
    by (auto simp: redraw_cells filter_map o_def filter_upto_single)
qed

lemma sample_built:
  "pg_items (build_pager (default_pager\<lparr>pg_layout := [''list'', ''links''], pg_links := 3\<rparr>))
     = [PgSelect (map show_int [10, 20, 30, 50]), PgLinks]"
  by (simp add: build_pager_def default_pager_def effective_layout_def layout_item_def user_items_def nav_names_def Let_def)

lemma sample_select:
  "read_select (extend_pager (PgOpts (Some 95) None (Some 7))
     (build_pager (default_pager\<lparr>pg_layout := [''list'', ''links''], pg_links := 3\<rparr>))) = Some 10"
  using sample_built by (simp add: read_select_def select_value_def extend_pager_def)
    (simp add: build_pager_def default_pager_def Let_def)

theorem refresh_shows_page_witness:
  "\<exists>q a. refresh (PgOpts (Some 95) None (Some 7)) (build_pager (default_pager\<lparr>pg_layout := [''list'', ''links''], pg_links := 3\<rparr>)) = Some q \<and>
    1 \<le> pg_pageNumber q \<and> pg_pageNumber q \<le> ceil_div (pg_total q) 10 \<and> filter snd (pg_link_cells q) = [(pg_pageNumber q, True)]"
proof -
  let ?p = "build_pager (default_pager\<lparr>pg_layout := [''list'', ''links''], pg_links := 3\<rparr>)"
  have "0 < pg_total (extend_pager (PgOpts (Some 95) None (Some 7)) ?p)" "1 \<le> pg_links ?p"
    by (simp_all add: extend_pager_def build_pager_def Let_def)
  moreover have "PgLinks \<in> set (pg_items ?p)" by (simp add: sample_built)
  ultimately show ?thesis using refresh_shows_page [OF sample_select] by fastforce
qed

text \<open>
  The item ranges that the message shows on the pages 1 to the last one, put one after the
  other, are the items 1 to the total: paging shows every item exactly once.
\<close>

theorem pages_partition_items:
  assumes "0 < s" and "0 < t"
  shows "concat (map (\<lambda>n. [item_from t s n..item_to t s n]) [1..ceil_div t s]) = [1..t]"
proof -
  obtain k where k: "ceil_div t s = int k"
    using ceil_div_pos [OF assms] zero_less_imp_eq_int by blast
  have "concat (map (\<lambda>n. [s * (n - 1) + 1..min (s * n) t]) [1..int k]) = [1..min (s * int k) t]"
    by (rule pages_prefix) (use assms(1) ceil_div_bounds(2) [OF assms(1), of t] k in auto)
  moreover have "min (s * int k) t = t" using ceil_div_bounds(1) [OF assms(1), of t] k by simp
  ultimately show ?thesis using assms(2) k by (simp add: item_from_def item_to_def)
qed

theorem pages_partition_items_witness:
  "concat (map (\<lambda>n. [item_from 95 10 n..item_to 95 10 n]) [1..ceil_div 95 10]) = [1..95]"
  by (rule pages_partition_items) simp_all

section \<open>Sessions\<close>

definition number_in_range :: "int \<Rightarrow> int option \<Rightarrow> int \<Rightarrow> bool" where
  "number_in_range tot sz n = (case page_count tot sz of
       None \<Rightarrow> False
     | Some k \<Rightarrow> if tot = 0 then n = 0 else n \<le> k \<and> (1 \<le> k \<longrightarrow> 1 \<le> n))"

definition page_in_range :: "pager \<Rightarrow> bool" where
  "page_in_range p = number_in_range (pg_total p) (pg_pageSize p) (pg_pageNumber p)"

definition pager_ok :: "pager \<Rightarrow> bool" where
  "pager_ok p = (page_in_range p \<and> (pg_num p = None \<or> pg_num p = Some (show_int (pg_pageNumber p))) \<and>
     pg_info p = info_text p)"

lemma note_frame [simp]:
  "pager_ok (note_pager n p) = pager_ok p" "pg_pageNumber (note_pager n p) = pg_pageNumber p"
  "pg_total (note_pager n p) = pg_total p" "pg_pageSize (note_pager n p) = pg_pageSize p"
  "pg_items (note_pager n p) = pg_items p" "pg_disabled (note_pager n p) = pg_disabled p"
  by (simp_all add: note_pager_def pager_ok_def page_in_range_def info_text_def)

lemma set_loading_ok [simp]: "pager_ok (set_loading b p) = pager_ok p"
  by (simp add: pager_ok_def page_in_range_def info_text_def)

lemma info_redraw [simp]: "info_text (redraw_pager k p) = info_text p"
  by (simp add: info_text_def)

lemma refresh_ok:
  assumes "refresh o' p = Some q"
  shows "pager_ok q"
proof -
  define e where "e = (extend_pager o' p)\<lparr>pg_pageSize := read_select (extend_pager o' p)\<rparr>"
  obtain k where k: "page_count (pg_total e) (pg_pageSize e) = Some k"
    and q: "q = (if pg_total e = 0 then redraw_pager 0 (e\<lparr>pg_pageNumber := 0\<rparr>)
           else redraw_pager k (e\<lparr>pg_pageNumber := clamp_page k (pg_pageNumber e)\<rparr>))"
    using assms by (auto simp: refresh_def Let_def e_def split: option.splits)
  have "page_in_range q"
    using k by (auto simp: q page_in_range_def number_in_range_def clamp_page_def Let_def)
  then show ?thesis
    by (cases "pg_num e") (simp_all add: pager_ok_def q redraw_num redraw_info info_text_def)
qed

lemma select_page_ok: "select_page n p = Some q \<Longrightarrow> pager_ok q"
  by (auto simp: select_page_def dest: refresh_ok)

lemma press_button_ok: "pager_ok p \<Longrightarrow> press_button n p = Some q \<Longrightarrow> pager_ok q"
  by (auto simp: press_button_def nav_first_def nav_prev_def nav_next_def nav_last_def nav_refresh_def Let_def
      split: if_splits option.splits dest: select_page_ok)

interpretation pagination: partial_machine pg_step pager_ok
proof
  fix p e q
  assume "pager_ok p" and "pg_step p e = Some q"
  then show "pager_ok q"
    by (cases e)
      (auto simp: pg_step_def enter_page_def change_size_def click_link_def init_pager_def Let_def
        split: if_splits dest: select_page_ok press_button_ok refresh_ok)
qed

text \<open>
  C13. From the moment a pager is initialised, whatever is clicked, typed or called: the page
  number is within the pages of the current total and page size (0 when there is nothing to
  show), the number box shows it, and the message is that of the current page.
\<close>

theorem pager_session:
  assumes "init_pager o' p0 = Some p" and "run_events pg_step p es = Some q"
  shows "page_in_range q \<and> (pg_num q = None \<or> pg_num q = Some (show_int (pg_pageNumber q))) \<and> pg_info q = info_text q"
proof -
  have "pager_ok p" using assms(1) refresh_ok by (simp add: init_pager_def)
  from pagination.inv_run [OF this assms(2)] show ?thesis by (simp add: pager_ok_def)
qed

lemma page_count_zero [simp]: "page_count 0 sz = Some 1"
  by (simp add: page_count_def ceil_div_def split: option.split)

lemma refresh_empty: "pg_total (extend_pager o' p) = 0 \<Longrightarrow> \<exists>q. refresh o' p = Some q"
  by (simp add: refresh_def Let_def)

theorem pager_session_witness:
  "\<exists>p q. init_pager (PgOpts (Some 0) None None) default_pager = Some p \<and>
     run_events pg_step p [SetLoading True] = Some q \<and> page_in_range q"
proof -
  have "pg_total (extend_pager (PgOpts None None None) (build_pager (extend_pager (PgOpts (Some 0) None None) default_pager))) = 0"
    by (simp add: extend_pager_def build_pager_def Let_def)
  then obtain p where p: "init_pager (PgOpts (Some 0) None None) default_pager = Some p"
    unfolding init_pager_def using refresh_empty by blast
  have q: "run_events pg_step p [SetLoading True] = Some (set_loading True p)" by (simp add: pg_step_def)
  from pager_session [OF p q] p q show ?thesis by blast
qed

text \<open>What a refresh does not touch: the toolbar, the total and a page size it offers.\<close>

lemma select_page_offered:
  assumes "read_select p = Some s" "pg_pageSize p = Some s" "0 < s" "0 < pg_total p"
    and "1 \<le> n" "n \<le> ceil_div (pg_total p) s"
  shows "\<exists>q. select_page n p = Some q \<and> pg_pageNumber q = n \<and> pg_total q = pg_total p \<and>
    pg_pageSize q = Some s \<and> read_select q = Some s"
proof -
  let ?e = "extend_pager (PgOpts None None (Some n)) p"
  have e: "pg_total ?e = pg_total p" "pg_pageSize ?e = pg_pageSize p" "pg_items ?e = pg_items p" "pg_pageNumber ?e = n"
    by (simp_all add: extend_pager_def)
  then have rs: "read_select ?e = Some s" using assms(1) by (simp add: read_select_def)
  have "clamp_page (ceil_div (pg_total p) s) n = n" using assms(5,6) by (simp add: clamp_page_def)
  with refresh_positive [OF rs] assms e obtain q where q: "refresh (PgOpts None None (Some n)) p = Some q"
    "pg_pageNumber q = n" "pg_total q = pg_total p" "pg_pageSize q = Some s" "pg_items q = pg_items p"
    by auto
  moreover have "read_select q = Some s" using q assms(1,2) by (simp add: read_select_def)
  ultimately show ?thesis by (auto simp: select_page_def read_select_def)
qed

lemma nav_next_step:
  assumes "read_select p = Some s" "pg_pageSize p = Some s" "0 < s" "0 < pg_total p" "1 \<le> pg_pageNumber p"
    and "pg_pageNumber p \<le> ceil_div (pg_total p) s"
  shows "\<exists>q. nav_next p = Some q \<and> pg_pageNumber q = min (pg_pageNumber p + 1) (ceil_div (pg_total p) s) \<and>
    pg_total q = pg_total p \<and> pg_pageSize q = Some s \<and> read_select q = Some s"
proof (cases "pg_pageNumber p < ceil_div (pg_total p) s")
  case True
  with select_page_offered [OF assms(1-4), of "pg_pageNumber p + 1"] assms show ?thesis
    by (auto simp: nav_next_def before_last_def)
next
  case False
  with assms show ?thesis by (auto simp: nav_next_def before_last_def)
qed

text \<open>
  Pressing the next button \<open>k\<close> times moves \<open>k\<close> pages forward and stops at the last page.
\<close>

theorem next_walks_all_pages:
  assumes "read_select p = Some s" "pg_pageSize p = Some s" "0 < s" "0 < pg_total p" "1 \<le> pg_pageNumber p"
    and "pg_pageNumber p \<le> ceil_div (pg_total p) s"
  shows "\<exists>q. run_events (\<lambda>p u. nav_next p) p (replicate k ()) = Some q \<and>
    pg_pageNumber q = min (pg_pageNumber p + int k) (ceil_div (pg_total p) s)"
  using assms
proof (induction k arbitrary: p)
  case (Suc k)
  from nav_next_step [OF Suc.prems] obtain p' where p': "nav_next p = Some p'"
    "pg_pageNumber p' = min (pg_pageNumber p + 1) (ceil_div (pg_total p) s)" "pg_total p' = pg_total p"
    "pg_pageSize p' = Some s" "read_select p' = Some s" by blast
  have "\<exists>q. run_events (\<lambda>p u. nav_next p) p' (replicate k ()) = Some q \<and>
      pg_pageNumber q = min (pg_pageNumber p' + int k) (ceil_div (pg_total p') s)"
    by (rule Suc.IH) (use p' Suc.prems in auto)
  then show ?case using p' by auto
qed auto

theorem next_walks_all_pages_witness:
  "\<exists>q. run_events (\<lambda>p u. nav_next p) (default_pager\<lparr>pg_total := 45\<rparr>) (replicate 7 ()) = Some q \<and> pg_pageNumber q = 5"
proof -
  have c: "ceil_div 45 10 = 5" by (simp add: ceil_div_def)
  show ?thesis
    using next_walks_all_pages [of "default_pager\<lparr>pg_total := 45\<rparr>" 10 7]
    by (simp add: default_pager_def read_select_def select_value_def c)
qed

text \<open>
  A page size that the page list does not offer is lost: the refresh stores NaN as the page
  size and shows the first page, whatever page is asked for.
\<close>

theorem size_not_offered:
  assumes "pg_items p = PgSelect (map show_int xs) # rest" and "po_pageSize o' = Some s" and "s \<notin> set xs"
    and "pg_total (extend_pager o' p) \<noteq> 0"
  shows "\<exists>q. refresh o' p = Some q \<and> pg_pageSize q = None \<and> pg_pageNumber q = 1"
proof -
  have "show_int s \<notin> show_int ` set xs"
    using assms(3) parse_int_show_int_0 by (metis image_iff option.inject)
  then have "read_select (extend_pager o' p) = None"
    using assms(1,2) by (simp add: read_select_def select_value_def extend_pager_def)
  then show ?thesis
    using assms(4) by (auto simp: refresh_def Let_def page_count_def clamp_page_def)
qed

theorem size_not_offered_witness:
  "\<exists>q. refresh (PgOpts (Some 100) (Some 25) (Some 3))
      (build_pager (default_pager\<lparr>pg_layout := [''list'', ''links''], pg_links := 3\<rparr>)) = Some q \<and>
     pg_pageSize q = None \<and> pg_pageNumber q = 1"
  by (rule size_not_offered [where s = 25, OF sample_built]) (simp_all add: extend_pager_def)

end
