(* ===== verification/JsDate.thy ===== *)
theory JsDate
  imports JsPrelude
begin

text \<open>
  The part of JavaScript's \<open>Date\<close> that the calendar and time fields use, after the
  ECMAScript definitions \<open>DayFromYear\<close>, \<open>YearFromTime\<close>, \<open>MakeDay\<close> and
  \<open>MakeTime\<close>. A date is its local time value in milliseconds. The model has no time
  zone: every local day has 24 hours, and no time value is so large that \<open>TimeClip\<close>
  rejects it.
\<close>

section \<open>Years and months as day numbers\<close>

definition leap :: "int \<Rightarrow> bool" where
  "leap y = (y mod 4 = 0 \<and> (y mod 100 \<noteq> 0 \<or> y mod 400 = 0))"

definition year_len :: "int \<Rightarrow> int" where
  "year_len y = (if leap y then 366 else 365)"

definition day_from_year :: "int \<Rightarrow> int" where
  "day_from_year y = 365 * (y - 1970) + (y - 1969) div 4 - (y - 1901) div 100 + (y - 1601) div 400"

definition year_of_day :: "int \<Rightarrow> int" where
  "year_of_day D =
     (let y = 1970 + (400 * D) div 146097
      in if day_from_year (y + 1) \<le> D then y + 1 else if D < day_from_year y then y - 1 else y)"

definition month_start :: "bool \<Rightarrow> int \<Rightarrow> int" where
  "month_start l m =
     [0, 31, 59, 90, 120, 151, 181, 212, 243, 273, 304, 334, 365] ! nat m + (if l \<and> 2 \<le> m then 1 else 0)"

definition month_of :: "bool \<Rightarrow> int \<Rightarrow> int" where
  "month_of l k = int (length (filter (\<lambda>m. month_start l m \<le> k) [1, 2, 3, 4, 5, 6, 7, 8, 9, 10, 11]))"

definition month_len :: "int \<Rightarrow> int \<Rightarrow> int" where
  "month_len y m = month_start (leap y) (m + 1) - month_start (leap y) m"

text \<open>\<open>MakeDay\<close>: the month may be outside 0..11, the day any number.\<close>

definition make_day :: "int \<Rightarrow> int \<Rightarrow> int \<Rightarrow> int" where
  "make_day y m d =
     (let ym = y + m div 12; mn = m mod 12
      in day_from_year ym + month_start (leap ym) mn + d - 1)"

definition month_of_day :: "int \<Rightarrow> int" where
  "month_of_day D = (let y = year_of_day D in month_of (leap y) (D - day_from_year y))"

definition mday_of_day :: "int \<Rightarrow> int" where
  "mday_of_day D =
     (let y = year_of_day D in D - day_from_year y - month_start (leap y) (month_of_day D) + 1)"

definition weekday :: "int \<Rightarrow> int" where
  "weekday D = (D + 4) mod 7"

text \<open>Division by a positive number, as bounds that linear arithmetic can use.\<close>

lemma div_bounds:
  assumes "0 < (n::int)"
  shows "n * (a div n) \<le> a" and "a < n * (a div n) + n"
  using mult_div_mod_eq [of n a] pos_mod_bound [OF assms, of a] pos_mod_sign [OF assms, of a]
  by linarith+

lemma div_eqI:
  assumes "0 < (n::int)" and "n * q \<le> a" and "a < n * q + n"
  shows "a div n = q"
proof -
  have "a = n * q + (a - n * q)" by simp
  then show ?thesis
    by (rule int_div_pos_eq) (use assms in auto)
qed

lemma mod_add_multiple:
  assumes "0 \<le> r" and "r < (n::int)"
  shows "(k * n + r) mod n = r" and "(k * n + r) div n = k"
  using assms by auto

lemma div_step:
  assumes "0 < (n::int)"
  shows "(a + 1) div n = a div n + (if (a + 1) mod n = 0 then 1 else 0)"
proof (cases "(a + 1) mod n = 0")
  case True
  then have "a + 1 = n * ((a + 1) div n)"
    using mult_div_mod_eq [of n "a + 1"] by simp
  then have "a div n = (a + 1) div n - 1"
    using assms by (intro div_eqI) (auto simp: algebra_simps)
  with True show ?thesis by simp
next
  case False
  then have "0 < (a + 1) mod n" using pos_mod_sign [OF assms, of "a + 1"] by linarith
  then have "a div n = (a + 1) div n"
    using mult_div_mod_eq [of n "a + 1"] pos_mod_bound [OF assms, of "a + 1"]
    by (intro div_eqI [OF assms]) linarith+
  with False show ?thesis by simp
qed

lemma day_from_year_Suc: "day_from_year (y + 1) = day_from_year y + year_len y"
proof -
  have "(y + (- 492) * 4) mod 4 = y mod 4" "(y + (- 19) * 100) mod 100 = y mod 100"
    "(y + (- 4) * 400) mod 400 = y mod 400"
    by (rule mod_mult_self1)+
  then have m4: "(y - 1969 + 1) mod 4 = y mod 4" and m100: "(y - 1901 + 1) mod 100 = y mod 100"
    and m400: "(y - 1601 + 1) mod 400 = y mod 400"
    by simp_all
  have "y mod 400 mod 100 = y mod 100" "y mod 100 mod 4 = y mod 4"
    by (rule mod_mod_cancel; simp)+
  then have "y mod 400 = 0 \<Longrightarrow> y mod 100 = 0" and "y mod 100 = 0 \<Longrightarrow> y mod 4 = 0"
    by auto
  moreover define a b c a' b' c' where "a = (y - 1969) div 4" and "b = (y - 1901) div 100"
    and "c = (y - 1601) div 400" and "a' = (y - 1969 + 1) div 4" and "b' = (y - 1901 + 1) div 100"
    and "c' = (y - 1601 + 1) div 400"
  moreover have "a' = a + (if y mod 4 = 0 then 1 else 0)" "b' = b + (if y mod 100 = 0 then 1 else 0)"
    "c' = c + (if y mod 400 = 0 then 1 else 0)"
    unfolding a_def b_def c_def a'_def b'_def c'_def
    by (simp_all only: div_step zero_less_numeral m4 m100 m400)
  moreover have "day_from_year y = 365 * (y - 1970) + a - b + c"
    by (simp only: day_from_year_def a_def b_def c_def)
  moreover have "day_from_year (y + 1) = 365 * (y - 1970) + 365 + a' - b' + c'"
    by (simp add: day_from_year_def a'_def b'_def c'_def)
  ultimately show ?thesis
    unfolding year_len_def leap_def
    by (cases "y mod 4 = 0"; cases "y mod 100 = 0"; cases "y mod 400 = 0"; simp only: if_True if_False simp_thms; linarith)
qed

lemma year_len_bounds: "365 \<le> year_len y \<and> year_len y \<le> 366"
  by (simp add: year_len_def)

lemma day_from_year_mono: "y \<le> z \<Longrightarrow> day_from_year y \<le> day_from_year z"
proof (induction z rule: int_ge_induct)
  case (step i)
  then show ?case using day_from_year_Suc [of i] year_len_bounds [of i] by linarith
qed simp

lemma day_from_year_approx:
  "146097 * (y - 1970) - 1200 \<le> 400 * day_from_year y \<and> 400 * day_from_year y \<le> 146097 * (y - 1970) + 1200"
proof -
  have "400 * day_from_year y = 146000 * (y - 1970) + 100 * (4 * ((y - 1969) div 4))
     - 4 * (100 * ((y - 1901) div 100)) + 400 * ((y - 1601) div 400)"
    by (simp add: day_from_year_def algebra_simps)
  moreover note div_bounds [of 4 "y - 1969"] div_bounds [of 100 "y - 1901"] div_bounds [of 400 "y - 1601"]
  ultimately show ?thesis by (intro conjI; simp; linarith)
qed

text \<open>\<open>YearFromTime\<close>: the year found is the one the day lies in.\<close>

lemma year_of_day_bounds:
  "day_from_year (year_of_day D) \<le> D \<and> D < day_from_year (year_of_day D + 1)"
proof -
  define y where "y = 1970 + (400 * D) div 146097"
  have y: "146097 * (y - 1970) \<le> 400 * D" "400 * D < 146097 * (y - 1970) + 146097"
    using div_bounds [of 146097 "400 * D"] unfolding y_def by simp_all
  have a: "D < day_from_year (y + 2)" and b: "day_from_year (y - 1) \<le> D"
    using day_from_year_approx [of "y + 2", THEN conjunct1]
      day_from_year_approx [of "y - 1", THEN conjunct2] y by (simp_all add: algebra_simps)
  show ?thesis
    using a b unfolding year_of_day_def y_def [symmetric] Let_def
    by (auto simp: algebra_simps)
qed

lemma year_of_day_unique:
  assumes "day_from_year y \<le> D" and "D < day_from_year (y + 1)"
  shows "year_of_day D = y"
proof (rule ccontr)
  assume "year_of_day D \<noteq> y"
  then have "year_of_day D + 1 \<le> y \<or> y + 1 \<le> year_of_day D" by linarith
  then show False
    using assms year_of_day_bounds [of D] day_from_year_mono by (smt (verit))
qed

lemma month_range_cases:
  assumes "0 \<le> m" and "m \<le> (11::int)"
  shows "m = 0 \<or> m = 1 \<or> m = 2 \<or> m = 3 \<or> m = 4 \<or> m = 5 \<or> m = 6 \<or> m = 7 \<or> m = 8 \<or> m = 9 \<or> m = 10 \<or> m = 11"
  using assms by presburger

lemma month_of_eq:
  assumes "0 \<le> m" "m \<le> 11" "month_start l m \<le> k" "k < month_start l (m + 1)"
  shows "month_of l k = m"
  using month_range_cases [OF assms(1,2)] assms(3,4)
  by (cases l) (elim disjE; simp add: month_of_def month_start_def)+

lemma month_of_bounds:
  assumes "0 \<le> k" and "k < 365 + (if l then 1 else 0)"
  shows "0 \<le> month_of l k \<and> month_of l k \<le> 11 \<and> month_start l (month_of l k) \<le> k
    \<and> k < month_start l (month_of l k + 1)"
proof -
  have "\<exists>m. 0 \<le> m \<and> m \<le> 11 \<and> month_start l m \<le> k \<and> k < month_start l (m + 1)"
  proof (rule ccontr)
    assume no: "\<not> ?thesis"
    have up: "month_start l m \<le> k" if "m \<in> {0,1,2,3,4,5,6,7,8,9,10,11,12}" for m
    proof -
      have step: "month_start l i \<le> k \<Longrightarrow> 0 \<le> i \<Longrightarrow> i \<le> 11 \<Longrightarrow> month_start l (i + 1) \<le> k" for i
        using no not_less by blast
      have a0: "month_start l 0 \<le> k" using assms by (simp add: month_start_def)
      note a1 = step [OF a0, simplified]
      note a2 = step [OF a1, simplified]
      note a3 = step [OF a2, simplified]
      note a4 = step [OF a3, simplified]
      note a5 = step [OF a4, simplified]
      note a6 = step [OF a5, simplified]
      note a7 = step [OF a6, simplified]
      note a8 = step [OF a7, simplified]
      note a9 = step [OF a8, simplified]
      note a10 = step [OF a9, simplified]
      note a11 = step [OF a10, simplified]
      note a12 = step [OF a11, simplified]
      show ?thesis
        using that a0 a1 a2 a3 a4 a5 a6 a7 a8 a9 a10 a11 a12 by auto
    qed
    from up [of 12] assms(2) show False by (simp add: month_start_def split: if_splits)
  qed
  then obtain m where m: "0 \<le> m" "m \<le> 11" "month_start l m \<le> k" "k < month_start l (m + 1)"
    by auto
  from month_of_eq [OF m] m show ?thesis by simp
qed

lemma month_len_bounds: "0 \<le> m \<Longrightarrow> m \<le> 11 \<Longrightarrow> 28 \<le> month_len y m \<and> month_len y m \<le> 31"
  using month_range_cases [of m] by (auto simp: month_len_def month_start_def)

lemma month_end_le_year:
  "0 \<le> m \<Longrightarrow> m \<le> 11 \<Longrightarrow> month_start (leap y) (m + 1) \<le> year_len y"
  using month_range_cases [of m] by (auto simp: month_start_def year_len_def)

lemma month_start_nonneg: "0 \<le> m \<Longrightarrow> m \<le> 11 \<Longrightarrow> 0 \<le> month_start l m"
  using month_range_cases [of m] by (auto simp: month_start_def)

lemma month_of_day_bounds: "0 \<le> month_of_day D \<and> month_of_day D \<le> 11"
proof -
  have "D - day_from_year (year_of_day D) < 365 + (if leap (year_of_day D) then 1 else 0)"
    using year_of_day_bounds [of D] day_from_year_Suc [of "year_of_day D"]
    by (simp add: year_len_def split: if_splits)
  then show ?thesis
    using month_of_bounds [of "D - day_from_year (year_of_day D)" "leap (year_of_day D)"]
      year_of_day_bounds [of D]
    by (simp add: month_of_day_def Let_def)
qed

lemma mday_of_day_bounds: "1 \<le> mday_of_day D \<and> mday_of_day D \<le> month_len (year_of_day D) (month_of_day D)"
proof -
  have "D - day_from_year (year_of_day D) < 365 + (if leap (year_of_day D) then 1 else 0)"
    using year_of_day_bounds [of D] day_from_year_Suc [of "year_of_day D"]
    by (simp add: year_len_def split: if_splits)
  then show ?thesis
    using month_of_bounds [of "D - day_from_year (year_of_day D)" "leap (year_of_day D)"]
      year_of_day_bounds [of D]
    by (simp add: mday_of_day_def month_of_day_def month_len_def Let_def)
qed

lemma make_day_in_range:
  "0 \<le> m \<Longrightarrow> m \<le> 11 \<Longrightarrow> make_day y m d = day_from_year y + month_start (leap y) m + d - 1"
  by (simp add: make_day_def Let_def div_pos_pos_trivial)

text \<open>Reading the civil date of a day and making the day again gives the day.\<close>

lemma make_day_civil: "make_day (year_of_day D) (month_of_day D) (mday_of_day D) = D"
  using month_of_day_bounds [of D]
  by (simp add: make_day_in_range mday_of_day_def Let_def)

lemma civil_make_day:
  assumes "0 \<le> m" "m \<le> 11" "1 \<le> d" "d \<le> month_len y m"
  shows "year_of_day (make_day y m d) = y" and "month_of_day (make_day y m d) = m"
    and "mday_of_day (make_day y m d) = d"
proof -
  let ?D = "make_day y m d"
  have D: "?D = day_from_year y + month_start (leap y) m + d - 1"
    using assms by (simp add: make_day_in_range)
  have "day_from_year y \<le> ?D"
    using D assms month_start_nonneg [OF assms(1,2), of "leap y"] by linarith
  moreover have "?D < day_from_year (y + 1)"
    using D assms month_end_le_year [OF assms(1,2), of y] day_from_year_Suc [of y]
    by (simp add: month_len_def)
  ultimately show y: "year_of_day ?D = y" by (rule year_of_day_unique)
  show m: "month_of_day ?D = m"
    unfolding month_of_day_def y Let_def
    by (rule month_of_eq) (use assms D in \<open>auto simp: month_len_def\<close>)
  show "mday_of_day ?D = d"
    unfolding mday_of_day_def m Let_def y using D by simp
qed

lemma civil_inj:
  "year_of_day D = year_of_day E \<Longrightarrow> month_of_day D = month_of_day E \<Longrightarrow>
   mday_of_day D = mday_of_day E \<Longrightarrow> D = E"
  by (metis make_day_civil)

lemma make_day_add: "make_day y m (d + k) = make_day y m d + k"
  by (simp add: make_day_def Let_def)

text \<open>The first day of the next month follows the last day of this one.\<close>

lemma make_day_month_end:
  assumes "0 \<le> m" "m \<le> 11"
  shows "make_day y (m + 1) 0 = make_day y m (month_len y m)"
proof (cases "m = 11")
  case True
  then show ?thesis
    using day_from_year_Suc [of y]
    by (simp add: make_day_def Let_def month_len_def month_start_def year_len_def)
next
  case False
  with assms have "0 \<le> m + 1" "m + 1 \<le> 11" by auto
  then show ?thesis using assms by (simp add: make_day_in_range month_len_def)
qed

section \<open>Date objects\<close>

datatype jsdate = JsDate (getTime: int)

text \<open>Dates are compared by their time value.\<close>

instantiation jsdate :: linorder
begin

definition less_eq_jsdate :: "jsdate \<Rightarrow> jsdate \<Rightarrow> bool" where
  "less_eq_jsdate a b = (getTime a \<le> getTime b)"

definition less_jsdate :: "jsdate \<Rightarrow> jsdate \<Rightarrow> bool" where
  "less_jsdate a b = (getTime a < getTime b)"

instance
  by standard (auto simp: less_eq_jsdate_def less_jsdate_def jsdate.expand)

end

abbreviation ms_per_day :: int where "ms_per_day \<equiv> 86400000"

definition full_year_arg :: "int \<Rightarrow> int" where
  "full_year_arg y = (if 0 \<le> y \<and> y \<le> 99 then 1900 + y else y)"

text \<open>\<open>new Date(y,m,d,h,mi,s)\<close> and \<open>new Date(y,m,d)\<close>; two-digit years mean 19xx.\<close>

definition new_datetime :: "int \<Rightarrow> int \<Rightarrow> int \<Rightarrow> int \<Rightarrow> int \<Rightarrow> int \<Rightarrow> jsdate" where
  "new_datetime y m d h mi s =
     JsDate (make_day (full_year_arg y) m d * ms_per_day + h * 3600000 + mi * 60000 + s * 1000)"

definition new_date :: "int \<Rightarrow> int \<Rightarrow> int \<Rightarrow> jsdate" where
  "new_date y m d = new_datetime y m d 0 0 0"

definition day_of :: "jsdate \<Rightarrow> int" where
  "day_of t = getTime t div ms_per_day"

definition getFullYear :: "jsdate \<Rightarrow> int" where "getFullYear t = year_of_day (day_of t)"
definition getMonth :: "jsdate \<Rightarrow> int" where "getMonth t = month_of_day (day_of t)"
definition getDate :: "jsdate \<Rightarrow> int" where "getDate t = mday_of_day (day_of t)"
definition getDay :: "jsdate \<Rightarrow> int" where "getDay t = weekday (day_of t)"
definition getHours :: "jsdate \<Rightarrow> int" where "getHours t = (getTime t mod ms_per_day) div 3600000"
definition getMinutes :: "jsdate \<Rightarrow> int" where "getMinutes t = (getTime t mod 3600000) div 60000"
definition getSeconds :: "jsdate \<Rightarrow> int" where "getSeconds t = (getTime t mod 60000) div 1000"

lemma getHours_bounds: "0 \<le> getHours t \<and> getHours t < 24"
  using div_bounds [of 3600000 "getTime t mod ms_per_day"] pos_mod_bound [of ms_per_day "getTime t"]
    pos_mod_sign [of ms_per_day "getTime t"]
  by (simp add: getHours_def pos_imp_zdiv_nonneg_iff)

lemma getMinutes_bounds: "0 \<le> getMinutes t \<and> getMinutes t < 60"
  using div_bounds [of 60000 "getTime t mod 3600000"] pos_mod_bound [of 3600000 "getTime t"]
    pos_mod_sign [of 3600000 "getTime t"]
  by (simp add: getMinutes_def pos_imp_zdiv_nonneg_iff)

lemma getSeconds_bounds: "0 \<le> getSeconds t \<and> getSeconds t < 60"
  using div_bounds [of 1000 "getTime t mod 60000"] pos_mod_bound [of 60000 "getTime t"]
    pos_mod_sign [of 60000 "getTime t"]
  by (simp add: getSeconds_def pos_imp_zdiv_nonneg_iff)

lemma day_of_new_datetime:
  assumes "0 \<le> h" "h < 24" "0 \<le> mi" "mi < 60" "0 \<le> s" "s < 60"
  shows "day_of (new_datetime y m d h mi s) = make_day (full_year_arg y) m d"
    and "getHours (new_datetime y m d h mi s) = h"
    and "getMinutes (new_datetime y m d h mi s) = mi"
    and "getSeconds (new_datetime y m d h mi s) = s"
proof -
  define D where "D = make_day (full_year_arg y) m d"
  define r where "r = h * 3600000 + (mi * 60000 + s * 1000)"
  have t: "getTime (new_datetime y m d h mi s) = D * ms_per_day + r"
    by (simp add: new_datetime_def D_def r_def)
  have r: "0 \<le> r" "r < ms_per_day" using assms by (simp_all add: r_def)
  have q: "0 \<le> mi * 60000 + s * 1000" "mi * 60000 + s * 1000 < 3600000"
    and u: "0 \<le> s * 1000" "s * 1000 < (60000::int)"
    using assms by simp_all
  show "day_of (new_datetime y m d h mi s) = make_day (full_year_arg y) m d"
    unfolding day_of_def t using mod_add_multiple [OF r] by (simp add: D_def)
  show "getHours (new_datetime y m d h mi s) = h"
    unfolding getHours_def t mod_add_multiple(1) [OF r] unfolding r_def
    by (rule mod_add_multiple(2) [OF q])
  have e: "D * ms_per_day + r = (D * 24 + h) * 3600000 + (mi * 60000 + s * 1000)"
    by (simp add: r_def)
  show "getMinutes (new_datetime y m d h mi s) = mi"
    unfolding getMinutes_def t e mod_add_multiple(1) [OF q] by (rule mod_add_multiple(2) [OF u])
  have e: "D * ms_per_day + r = ((D * 24 + h) * 60 + mi) * 60000 + s * 1000"
    by (simp add: r_def)
  show "getSeconds (new_datetime y m d h mi s) = s"
    unfolding getSeconds_def t e mod_add_multiple(1) [OF u] by simp
qed

lemma day_of_new_date [simp]: "day_of (new_date y m d) = make_day (full_year_arg y) m d"
  unfolding new_date_def by (rule day_of_new_datetime) simp_all

lemma full_year_arg_id: "\<not> (0 \<le> y \<and> y \<le> 99) \<Longrightarrow> full_year_arg y = y"
  by (simp add: full_year_arg_def)

text \<open>A date made from fields in range is read back field by field.\<close>

lemma new_date_fields:
  assumes "\<not> (0 \<le> y \<and> y \<le> 99)" "0 \<le> m" "m \<le> 11" "1 \<le> d" "d \<le> month_len y m"
  shows "getFullYear (new_date y m d) = y" "getMonth (new_date y m d) = m" "getDate (new_date y m d) = d"
  using assms(2-5)
  by (simp_all add: getFullYear_def getMonth_def getDate_def full_year_arg_id [OF assms(1)] civil_make_day)

text \<open>And a date at whole seconds is rebuilt from its fields.\<close>

lemma new_datetime_of_fields:
  assumes "\<not> (0 \<le> getFullYear t \<and> getFullYear t \<le> 99)" and "getTime t mod 1000 = 0"
  shows "new_datetime (getFullYear t) (getMonth t) (getDate t) (getHours t) (getMinutes t) (getSeconds t) = t"
proof -
  have "make_day (getFullYear t) (getMonth t) (getDate t) = day_of t"
    by (simp add: getFullYear_def getMonth_def getDate_def make_day_civil)
  moreover have "day_of t * ms_per_day + getHours t * 3600000 + getMinutes t * 60000 + getSeconds t * 1000 = getTime t"
  proof -
    have nested: "getTime t mod ms_per_day mod 3600000 = getTime t mod 3600000"
      "getTime t mod 3600000 mod 60000 = getTime t mod 60000"
      "getTime t mod 60000 mod 1000 = getTime t mod 1000"
      by (rule mod_mod_cancel; simp)+
    show ?thesis
      using mult_div_mod_eq [of ms_per_day "getTime t"] mult_div_mod_eq [of 3600000 "getTime t mod ms_per_day"]
        mult_div_mod_eq [of 60000 "getTime t mod 3600000"] mult_div_mod_eq [of 1000 "getTime t mod 60000"]
        assms(2)
      unfolding nested day_of_def getHours_def getMinutes_def getSeconds_def by linarith
  qed
  ultimately show ?thesis
    unfolding new_datetime_def full_year_arg_id [OF assms(1)] by (metis jsdate.collapse)
qed

end
