(* ===== verification/CalendarGrid.thy ===== *)
theory CalendarGrid
  imports JsDate
begin

text \<open>
  The month grid of \<open>plugins/jquery.calendar.js\<close> (function \<open>_20\<close>): the days of a month
  grouped in weeks and filled up to six weeks of seven days. The grid functions are
  polymorphic in the type of a day, so that the same algorithm is run on the triples
  \<open>[y,m,d]\<close> of the code and on day numbers; the locale \<open>day_line\<close> relates the two.
\<close>

section \<open>The month grid\<close>

type_synonym civil = "int \<times> int \<times> int"

definition civil_of :: "jsdate \<Rightarrow> civil" where
  "civil_of t = (getFullYear t, getMonth t + 1, getDate t)"

definition civil_date :: "civil \<Rightarrow> jsdate" where
  "civil_date c = (case c of (y, m, d) \<Rightarrow> new_date y (m - 1) d)"

text \<open>\<open>new Date(c[0],c[1]-1,c[2]+k)\<close> read back as a triple, and its week day.\<close>

definition civil_shift :: "civil \<Rightarrow> int \<Rightarrow> civil" where
  "civil_shift c k = (case c of (y, m, d) \<Rightarrow> civil_of (new_date y (m - 1) (d + k)))"

definition civil_weekday :: "civil \<Rightarrow> int" where
  "civil_weekday c = getDay (civil_date c)"

text \<open>
  The grouping loop. \<open>_29\<close> is the week day seen last (-1 at first); a day whose week day
  repeats the one before it (a clock change) never closes a week. A week is closed after
  the day before \<open>firstDay\<close>.
\<close>

fun group_weeks :: "('d \<Rightarrow> int) \<Rightarrow> int \<Rightarrow> int \<Rightarrow> 'd list \<Rightarrow> 'd list \<Rightarrow> 'd list list" where
  "group_weeks wd fd prev cur [] = (if cur = [] then [] else [cur])"
| "group_weeks wd fd prev cur (d # ds) =
     (let cur' = cur @ [d]; day = wd d
      in if prev = day then group_weeks wd fd 0 cur' ds
         else if day = (if fd = 0 then 7 else fd) - 1 then cur' # group_weeks wd fd day [] ds
         else group_weeks wd fd day cur' ds)"

text \<open>The two filling loops, run until the week has seven days.\<close>

function pad_front :: "('d \<Rightarrow> int \<Rightarrow> 'd) \<Rightarrow> 'd list \<Rightarrow> 'd list" where
  "pad_front sh w = (if length w < 7 then pad_front sh (sh (hd w) (- 1) # w) else w)"
  by pat_completeness auto
termination
  by (relation "measure (\<lambda>(sh, w). 7 - length w)") auto

function pad_back :: "('d \<Rightarrow> int \<Rightarrow> 'd) \<Rightarrow> 'd list \<Rightarrow> 'd list" where
  "pad_back sh w = (if length w < 7 then pad_back sh (w @ [sh (last w) 1]) else w)"
  by pat_completeness auto
termination
  by (relation "measure (\<lambda>(sh, w). 7 - length w)") auto

declare pad_front.simps [simp del] pad_back.simps [simp del]

definition week_before :: "('d \<Rightarrow> int \<Rightarrow> 'd) \<Rightarrow> 'd \<Rightarrow> 'd list" where
  "week_before sh d = rev (map (\<lambda>i. sh d (- i)) [1..7])"

definition week_after :: "('d \<Rightarrow> int \<Rightarrow> 'd) \<Rightarrow> 'd \<Rightarrow> 'd list" where
  "week_after sh d = map (\<lambda>i. sh d i) [1..7]"

definition fill_first :: "('d \<Rightarrow> int \<Rightarrow> 'd) \<Rightarrow> 'd list list \<Rightarrow> 'd list list" where
  "fill_first sh ws =
     (if length (hd ws) < 7 then pad_front sh (hd ws) # tl ws else week_before sh (hd (hd ws)) # ws)"

definition fill_last :: "('d \<Rightarrow> int \<Rightarrow> 'd) \<Rightarrow> 'd list list \<Rightarrow> 'd list list" where
  "fill_last sh ws =
     (let ws' = butlast ws @ [pad_back sh (last ws)]
      in if length ws' < 6 then ws' @ [week_after sh (last (last ws'))] else ws')"

definition weeks_of_days :: "('d \<Rightarrow> int) \<Rightarrow> ('d \<Rightarrow> int \<Rightarrow> 'd) \<Rightarrow> int \<Rightarrow> 'd list \<Rightarrow> 'd list list" where
  "weeks_of_days wd sh fd ds = fill_last sh (fill_first sh (group_weeks wd fd (- 1) [] ds))"

definition month_days :: "int \<Rightarrow> int \<Rightarrow> civil list" where
  "month_days y m = map (\<lambda>i. (y, m, i)) [1..getDate (new_date y m 0)]"

definition get_weeks :: "int \<Rightarrow> int \<Rightarrow> int \<Rightarrow> civil list list" where
  "get_weeks fd y m = weeks_of_days civil_weekday civil_shift fd (month_days y m)"

subsection \<open>The grid of a month is six consecutive weeks\<close>

text \<open>
  Every step of the algorithm commutes with a numbering of the days, so the grid of a month
  is the image of a grid of numbers; there are \<open>7 \<times> 7 \<times> 4\<close> such grids (week day of
  the first, first column, length of the month), which are evaluated.
\<close>

lemma hd_map': "xs \<noteq> [] \<Longrightarrow> hd (map f xs) = f (hd xs)" and last_map': "xs \<noteq> [] \<Longrightarrow> last (map f xs) = f (last xs)"
  by (simp_all add: hd_map last_map)

lemma concat_group_weeks: "concat (group_weeks wd fd prev cur ds) = cur @ ds"
  by (induction wd fd prev cur ds rule: group_weeks.induct) (auto simp: Let_def)

lemma group_weeks_nonempty: "[] \<notin> set (group_weeks wd fd prev cur ds)"
  by (induction ds arbitrary: prev cur) (auto simp: Let_def)

lemma pad_back_props:
  fixes w :: "int list"
  assumes "w \<noteq> []"
  shows "pad_back (+) w \<noteq> [] \<and> last w \<le> last (pad_back (+) w)"
  using assms
proof (induction "7 - length w" arbitrary: w)
  case 0
  then show ?case by (simp add: pad_back.simps [of _ w])
next
  case (Suc x)
  then have "length w < 7" by simp
  then have "pad_back (+) w = pad_back (+) (w @ [last w + 1])"
    by (subst pad_back.simps) simp
  moreover have "pad_back (+) (w @ [last w + 1]) \<noteq> [] \<and> last (w @ [last w + 1]) \<le> last (pad_back (+) (w @ [last w + 1]))"
    by (rule Suc.hyps(1)) (use Suc.hyps(2) in auto)
  ultimately show ?case by simp
qed

lemma pad_front_props:
  fixes w :: "int list"
  assumes "w \<noteq> []"
  shows "pad_front (+) w \<noteq> [] \<and> last (pad_front (+) w) = last w"
  using assms
proof (induction "7 - length w" arbitrary: w)
  case 0
  then show ?case by (simp add: pad_front.simps [of _ w])
next
  case (Suc x)
  then have "length w < 7" by simp
  then have "pad_front (+) w = pad_front (+) ((hd w + - 1) # w)"
    by (subst pad_front.simps) simp
  with Suc.hyps(1) [of "(hd w + - 1) # w"] Suc.hyps(2) Suc.prems show ?case by auto
qed

lemma concat_hd_last:
  assumes "[] \<notin> set xss" and "concat xss = xs" and "xs \<noteq> []"
  shows "xss \<noteq> []" and "hd (hd xss) = hd xs" and "last (last xss) = last xs"
    and "hd xss \<noteq> []" and "last xss \<noteq> []"
proof -
  show ne: "xss \<noteq> []" using assms by auto
  show h: "hd xss \<noteq> []" and l: "last xss \<noteq> []"
    using assms(1) ne hd_in_set last_in_set by metis+
  have "hd (concat xss) = hd (hd xss)"
    using ne h by (cases xss) auto
  then show "hd (hd xss) = hd xs" using assms(2) by simp
  have "xss = butlast xss @ [last xss]" using ne by simp
  then have "concat xss = concat (butlast xss) @ last xss"
    by (metis concat.simps concat_append append_Nil2)
  then show "last (last xss) = last xs" using assms(2) l by (metis last_appendR)
qed

text \<open>
  \<open>day_line\<close>: days of type \<open>'d\<close> numbered by \<open>f\<close>; on the numbers where
  \<open>good\<close> holds, the week day and the shift of the code agree with those of the numbers.
\<close>

locale day_line =
  fixes f :: "int \<Rightarrow> 'd"
    and good :: "int \<Rightarrow> bool"
    and wd :: "'d \<Rightarrow> int"
    and wd0 :: "int \<Rightarrow> int"
    and sh :: "'d \<Rightarrow> int \<Rightarrow> 'd"
  assumes wd_f: "good i \<Longrightarrow> wd (f i) = wd0 i"
    and sh_f: "good i \<Longrightarrow> sh (f i) k = f (i + k)"
begin

lemma group_map:
  "\<forall>i \<in> set ds. good i \<Longrightarrow>
   group_weeks wd fd prev (map f cur) (map f ds) = map (map f) (group_weeks wd0 fd prev cur ds)"
proof (induction ds arbitrary: prev cur)
  case (Cons d ds)
  have "map f cur @ [f d] = map f (cur @ [d])" by simp
  moreover have "\<And>prev cur. group_weeks wd fd prev (map f cur) (map f ds) = map (map f) (group_weeks wd0 fd prev cur ds)"
    using Cons by simp
  from this [of _ "cur @ [d]"] this [of _ "[]"] show ?case
    using Cons.prems by (simp add: Let_def wd_f)
qed simp

lemma pad_front_map:
  assumes "w \<noteq> []" and "\<forall>k \<ge> hd w - 7. good k"
  shows "pad_front sh (map f w) = map f (pad_front (+) w)"
proof -
  have "\<forall>k \<ge> hd w - (7 - int (length w)). good k \<Longrightarrow> w \<noteq> [] \<Longrightarrow> length w \<le> 7 \<Longrightarrow>
      pad_front sh (map f w) = map f (pad_front (+) w)" for w
  proof (induction "7 - length w" arbitrary: w)
    case 0
    then show ?case by (simp add: pad_front.simps [of _ w] pad_front.simps [of _ "map f w"])
  next
    case (Suc x)
    then have lt: "length w < 7" by simp
    have "pad_front sh (map f w) = pad_front sh (map f ((hd w + - 1) # w))"
      using Suc.prems lt by (subst pad_front.simps) (simp add: hd_map' sh_f)
    also have "\<dots> = map f (pad_front (+) ((hd w + - 1) # w))"
      by (rule Suc.hyps(1)) (use Suc lt in auto)
    also have "pad_front (+) ((hd w + - 1) # w) = pad_front (+) w"
      using lt by (subst (2) pad_front.simps) simp
    finally show ?case .
  qed
  from this [of w] assms show ?thesis
    by (cases "length w \<le> 7") (simp_all add: pad_front.simps [of _ w] pad_front.simps [of _ "map f w"])
qed

lemma pad_back_map:
  assumes "w \<noteq> []" and "\<forall>k \<ge> last w. good k"
  shows "pad_back sh (map f w) = map f (pad_back (+) w)"
  using assms
proof (induction "7 - length w" arbitrary: w)
  case 0
  then show ?case by (simp add: pad_back.simps [of _ w] pad_back.simps [of _ "map f w"])
next
  case (Suc x)
  then have lt: "length w < 7" by simp
  have "pad_back sh (map f w) = pad_back sh (map f (w @ [last w + 1]))"
    using Suc.prems lt by (subst pad_back.simps) (simp add: last_map' sh_f)
  also have "\<dots> = map f (pad_back (+) (w @ [last w + 1]))"
    by (rule Suc.hyps(1)) (use Suc lt in auto)
  also have "pad_back (+) (w @ [last w + 1]) = pad_back (+) w"
    using lt by (subst (2) pad_back.simps) simp
  finally show ?case .
qed

lemma week_map:
  assumes "good i"
  shows "week_before sh (f i) = map f (week_before (+) i)" and "week_after sh (f i) = map f (week_after (+) i)"
  using assms by (simp_all add: week_before_def week_after_def sh_f rev_map)

lemma weeks_map:
  assumes "ds \<noteq> []" and "\<forall>k \<ge> hd ds - 7. good k" and "\<forall>k \<in> set ds. hd ds \<le> k"
  shows "weeks_of_days wd sh fd (map f ds) = map (map f) (weeks_of_days wd0 (+) fd ds)"
proof -
  let ?g = "group_weeks wd0 fd (- 1) [] ds"
  have g: "group_weeks wd fd (- 1) [] (map f ds) = map (map f) ?g"
    using group_map [of ds fd "- 1" "[]"] assms(2,3) by force
  have c: "concat ?g = ds" using concat_group_weeks [of wd0 fd "- 1" "[]" ds] by simp
  note hl = concat_hd_last [OF group_weeks_nonempty c assms(1)]
  have last_ge: "hd ds \<le> last ds" using assms(1,3) by simp
  have "fill_first sh (map (map f) ?g) = map (map f) (fill_first (+) ?g)"
    using hl(1,2,4) assms(2)
    by (simp add: fill_first_def hd_map' pad_front_map week_map map_tl)
  moreover define ff where "ff = fill_first (+) ?g"
  moreover have ff: "ff \<noteq> []" "last ff \<noteq> []" "hd ds \<le> last (last ff)"
  proof -
    show "ff \<noteq> []" by (simp add: ff_def fill_first_def)
    have "last ff \<noteq> [] \<and> hd ds \<le> last (last ff)"
    proof (cases "length (hd ?g) < 7")
      case True
      note pad_front_props [OF hl(4)]
      then show ?thesis
        using True hl last_ge by (cases ?g) (auto simp: ff_def fill_first_def)
    next
      case False
      then show ?thesis using hl last_ge by (auto simp: ff_def fill_first_def)
    qed
    then show "last ff \<noteq> []" "hd ds \<le> last (last ff)" by simp_all
  qed
  moreover have "fill_last sh (map (map f) ff) = map (map f) (fill_last (+) ff)"
  proof -
    have "\<forall>k \<ge> last (last ff). good k" using ff(3) assms(2) by force
    then have "pad_back sh (last (map (map f) ff)) = map f (pad_back (+) (last ff))"
      using ff(1,2) by (simp add: last_map' pad_back_map)
    moreover have "good (last (pad_back (+) (last ff)))"
      using pad_back_props [OF ff(2)] ff(3) assms(2) by force
    ultimately show ?thesis
      using ff(1,2) pad_back_props [OF ff(2)]
      by (simp add: fill_last_def Let_def last_map' week_map map_butlast)
  qed
  ultimately show ?thesis unfolding weeks_of_days_def g by simp
qed

end

text \<open>The day with number \<open>D\<close> as the triple the code keeps.\<close>

definition civil_of_day :: "int \<Rightarrow> civil" where
  "civil_of_day D = (year_of_day D, month_of_day D + 1, mday_of_day D)"

lemma day_of_civil_date:
  assumes "100 \<le> year_of_day D"
  shows "day_of (civil_date (civil_of_day D)) = D"
  using assms make_day_civil [of D]
  by (simp add: civil_date_def civil_of_day_def full_year_arg_def)

lemma civil_shift_of_day:
  assumes "100 \<le> year_of_day D"
  shows "civil_shift (civil_of_day D) k = civil_of_day (D + k)"
proof -
  have "day_of (new_date (year_of_day D) (month_of_day D) (mday_of_day D + k)) = D + k"
    using assms make_day_civil [of D] by (simp add: full_year_arg_def make_day_add)
  then show ?thesis
    by (simp add: civil_shift_def civil_of_day_def civil_of_def getFullYear_def getMonth_def getDate_def)
qed

interpretation civil_line: day_line "\<lambda>i. civil_of_day (D1 + i)" "\<lambda>i. 100 \<le> year_of_day (D1 + i)"
  civil_weekday "\<lambda>i. (weekday D1 + i) mod 7" civil_shift for D1
proof
  fix i k
  assume g: "100 \<le> year_of_day (D1 + i)"
  have "(D1 + 4 + i) mod 7 = ((D1 + 4) mod 7 + i) mod 7" by (rule mod_add_left_eq [symmetric])
  then show "civil_weekday (civil_of_day (D1 + i)) = (weekday D1 + i) mod 7"
    using day_of_civil_date [OF g] by (simp add: civil_weekday_def getDay_def weekday_def ac_simps)
  show "civil_shift (civil_of_day (D1 + i)) k = civil_of_day (D1 + (i + k))"
    using civil_shift_of_day [OF g] by (simp add: add.assoc)
qed

definition grid_offset :: "int \<Rightarrow> int \<Rightarrow> int" where
  "grid_offset fd w = (let k = (w - fd) mod 7 in if k = 0 then 7 else k)"

text \<open>
  Only the distance from the first column to the week day of the first matters: a run of
  consecutive days never repeats a week day, and a week is closed on the same day.
\<close>

lemma mod_7_Suc: "(i :: int) mod 7 \<noteq> (i + 1) mod 7"
  by presburger

lemma group_weeks_reduce:
  assumes "0 \<le> fd" "fd \<le> 6"
  shows "prev \<noteq> (w + a) mod 7 \<Longrightarrow> prev' \<noteq> ((w - fd) mod 7 + a) mod 7 \<Longrightarrow>
    group_weeks (\<lambda>i. (w + i) mod 7) fd prev cur [a..b]
    = group_weeks (\<lambda>i. ((w - fd) mod 7 + i) mod 7) 0 prev' cur [a..b]"
proof (induction "nat (b + 1 - a)" arbitrary: a prev prev' cur)
  case 0
  then show ?case by simp
next
  case (Suc n)
  have close: "(w + a) mod 7 = (if fd = 0 then 7 else fd) - 1 \<longleftrightarrow> ((w - fd) mod 7 + a) mod 7 = 7 - 1"
  proof -
    define r where "r = (w + a) mod 7"
    have r: "0 \<le> r" "r \<le> 6" by (simp_all add: r_def)
    have "((w - fd) mod 7 + a) mod 7 = (w - fd + a) mod 7" by (rule mod_add_left_eq)
    also have "\<dots> = ((w + a) - fd) mod 7" by (simp add: algebra_simps)
    also have "\<dots> = (r - fd) mod 7" unfolding r_def by (rule mod_diff_left_eq [symmetric])
    finally have e: "((w - fd) mod 7 + a) mod 7 = (r - fd) mod 7" .
    have "(r - fd) mod 7 = (if r < fd then r - fd + 7 else r - fd)"
      using r assms mod_pos_pos_trivial [of "r - fd" 7] mod_pos_pos_trivial [of "r - fd + 7" 7] by auto
    with e r assms show ?thesis unfolding r_def [symmetric] by auto
  qed
  have next_day: "(w + a) mod 7 \<noteq> (w + (a + 1)) mod 7" "((w - fd) mod 7 + a) mod 7 \<noteq> ((w - fd) mod 7 + (a + 1)) mod 7"
    by (rule mod_7_Suc [of "w + a", simplified add.assoc], rule mod_7_Suc [of "(w - fd) mod 7 + a", simplified add.assoc])
  have "n = nat (b + 1 - (a + 1))" using Suc.hyps(2) by simp
  note IH = Suc.hyps(1) [OF this next_day]
  have "[a..b] = a # [a + 1..b]" using Suc.hyps(2) by (intro upto_rec1) simp
  then show ?case
    using Suc.prems close IH [of "cur @ [a]"] IH [of "[]"] by (simp add: Let_def)
qed

lemma grid_numbers_28:
  "\<forall>k \<in> set [0..6]. weeks_of_days (\<lambda>i. (k + i) mod 7) (+) 0 [0..27]
     = map (\<lambda>r. map (\<lambda>c. 7 * r + c - (if k = 0 then 7 else k)) [0..6]) [0..5]"
  by code_simp

lemma grid_numbers_29:
  "\<forall>k \<in> set [0..6]. weeks_of_days (\<lambda>i. (k + i) mod 7) (+) 0 [0..28]
     = map (\<lambda>r. map (\<lambda>c. 7 * r + c - (if k = 0 then 7 else k)) [0..6]) [0..5]"
  by code_simp

lemma grid_numbers_30:
  "\<forall>k \<in> set [0..6]. weeks_of_days (\<lambda>i. (k + i) mod 7) (+) 0 [0..29]
     = map (\<lambda>r. map (\<lambda>c. 7 * r + c - (if k = 0 then 7 else k)) [0..6]) [0..5]"
  by code_simp

lemma grid_numbers_31:
  "\<forall>k \<in> set [0..6]. weeks_of_days (\<lambda>i. (k + i) mod 7) (+) 0 [0..30]
     = map (\<lambda>r. map (\<lambda>c. 7 * r + c - (if k = 0 then 7 else k)) [0..6]) [0..5]"
  by code_simp

lemma grid_numbers:
  assumes "0 \<le> fd" "fd \<le> 6" "0 \<le> w" "w \<le> 6" "28 \<le> L" "L \<le> 31"
  shows "weeks_of_days (\<lambda>i. (w + i) mod 7) (+) fd [0..L - 1]
    = map (\<lambda>r. map (\<lambda>c. 7 * r + c - grid_offset fd w) [0..6]) [0..5]"
proof -
  define k where "k = (w - fd) mod 7"
  have k: "k \<in> set [0..6]" and L: "L = 28 \<or> L = 29 \<or> L = 30 \<or> L = 31" using assms by (auto simp: k_def)
  have "group_weeks (\<lambda>i. (w + i) mod 7) fd (- 1) [] [0..L - 1]
      = group_weeks (\<lambda>i. (k + i) mod 7) 0 (- 1) [] [0..L - 1]"
    unfolding k_def
  proof (rule group_weeks_reduce [OF assms(1,2)])
    show "- 1 \<noteq> (w + 0) mod 7" "- 1 \<noteq> ((w - fd) mod 7 + 0) mod 7" by presburger+
  qed
  then show ?thesis
    using bspec [OF grid_numbers_28 k] bspec [OF grid_numbers_29 k] bspec [OF grid_numbers_30 k]
      bspec [OF grid_numbers_31 k] L
    by (elim disjE) (simp_all add: weeks_of_days_def grid_offset_def Let_def flip: k_def)
qed

text \<open>The triples of the displayed month, and the first day shown.\<close>

definition first_of_month :: "int \<Rightarrow> int \<Rightarrow> int" where
  "first_of_month y m = make_day y (m - 1) 1"

definition grid_start :: "int \<Rightarrow> int \<Rightarrow> int \<Rightarrow> int" where
  "grid_start fd y m = first_of_month y m - grid_offset fd (weekday (first_of_month y m))"

lemma month_days_numbered:
  assumes "100 < y" "1 \<le> m" "m \<le> 12"
  shows "month_days y m = map (\<lambda>i. civil_of_day (first_of_month y m + i)) [0..month_len y (m - 1) - 1]"
proof -
  have len: "getDate (new_date y m 0) = month_len y (m - 1)"
    using assms make_day_month_end [of "m - 1" y] month_len_bounds [of "m - 1" y]
    by (simp add: getDate_def full_year_arg_def civil_make_day)
  have civ: "civil_of_day (first_of_month y m + i) = (y, m, i + 1)" if "0 \<le> i" "i < month_len y (m - 1)" for i
  proof -
    have "first_of_month y m + i = make_day y (m - 1) (i + 1)"
      using make_day_add [of y "m - 1" 1 i] by (simp add: first_of_month_def add.commute)
    then show ?thesis
      using civil_make_day [of "m - 1" "i + 1" y] that assms by (simp add: civil_of_day_def)
  qed
  have "[1..month_len y (m - 1)] = map (\<lambda>i. i + 1) [0..month_len y (m - 1) - 1]"
    by (simp add: map_plus_upto)
  then show ?thesis using civ by (auto simp: month_days_def len)
qed

lemma year_of_day_ge: "day_from_year y \<le> D \<Longrightarrow> y \<le> year_of_day D"
  using year_of_day_bounds [of D] day_from_year_mono [of "year_of_day D + 1" y] by force

lemma first_of_month_ge:
  assumes "1 \<le> m" "m \<le> 12"
  shows "day_from_year y \<le> first_of_month y m"
  using assms month_start_nonneg [of "m - 1" "leap y"] by (simp add: first_of_month_def make_day_in_range)

text \<open>
  C9. The grid of any month after year 100 is exactly six weeks of seven consecutive days. It
  starts on the last day before the first of the month (or a whole week before it) that falls
  on the first column's week day, so every day of the month is in it.
\<close>

theorem get_weeks_grid:
  assumes "100 < y" "1 \<le> m" "m \<le> 12" "0 \<le> fd" "fd \<le> 6"
  shows "get_weeks fd y m = map (\<lambda>r. map (\<lambda>c. civil_of_day (grid_start fd y m + 7 * r + c)) [0..6]) [0..5]"
proof -
  let ?D = "first_of_month y m" and ?L = "month_len y (m - 1)"
  have L: "28 \<le> ?L" "?L \<le> 31" using month_len_bounds [of "m - 1" y] assms by auto
  then have ne: "[0..?L - 1] \<noteq> []" and h: "hd [0..?L - 1] = 0" by (simp_all add: upto_rec1)
  have good: "\<forall>k \<ge> hd [0..?L - 1] - 7. 100 \<le> year_of_day (?D + k)"
  proof (intro allI impI)
    fix k assume k: "hd [0..?L - 1] - 7 \<le> k"
    have "day_from_year (y - 1) \<le> ?D + k"
      using first_of_month_ge [OF assms(2,3), of y] day_from_year_Suc [of "y - 1"] year_len_bounds [of "y - 1"] k h
      by simp
    from year_of_day_ge [OF this] assms(1) show "100 \<le> year_of_day (?D + k)" by simp
  qed
  have w: "0 \<le> weekday ?D" "weekday ?D \<le> 6" by (simp_all add: weekday_def)
  have "get_weeks fd y m = weeks_of_days civil_weekday civil_shift fd (map (\<lambda>i. civil_of_day (?D + i)) [0..?L - 1])"
    by (simp add: get_weeks_def month_days_numbered assms)
  also have "\<dots> = map (map (\<lambda>i. civil_of_day (?D + i))) (weeks_of_days (\<lambda>i. (weekday ?D + i) mod 7) (+) fd [0..?L - 1])"
    by (rule civil_line.weeks_map [OF ne good]) (use h in auto)
  also have "\<dots> = map (\<lambda>r. map (\<lambda>c. civil_of_day (grid_start fd y m + 7 * r + c)) [0..6]) [0..5]"
    unfolding grid_numbers [OF assms(4,5) w L]
    by (simp add: grid_start_def o_def algebra_simps)
  finally show ?thesis .
qed

theorem get_weeks_grid_witness:
  "get_weeks 1 2016 2 = map (\<lambda>r. map (\<lambda>c. civil_of_day (grid_start 1 2016 2 + 7 * r + c)) [0..6]) [0..5]"
  by (rule get_weeks_grid) simp_all

text \<open>The grid as one list of consecutive days, and the part of it that is the month.\<close>

lemma concat_grid: "concat (map (\<lambda>r. map (\<lambda>c. f (s + 7 * r + c)) [0..6]) [0..5]) = map f [s..s + (41::int)]"
proof -
  have "map (\<lambda>i. i + s) (concat (map (\<lambda>r. map (\<lambda>c. 7 * r + c) [0..6]) [0..5])) = map (\<lambda>i. i + s) [0..(41::int)]"
    by (simp add: upto.simps)
  then have "map f (map (\<lambda>i. i + s) (concat (map (\<lambda>r. map (\<lambda>c. 7 * r + c) [0..6]) [0..5]))) = map f [s..s + 41]"
    unfolding map_plus_upto by (simp add: add.commute)
  then show ?thesis by (simp add: map_concat o_def algebra_simps)
qed

lemma concat_get_weeks:
  assumes "100 < y" "1 \<le> m" "m \<le> 12" "0 \<le> fd" "fd \<le> 6"
  shows "concat (get_weeks fd y m) = map civil_of_day [grid_start fd y m..grid_start fd y m + 41]"
  unfolding get_weeks_grid [OF assms] by (rule concat_grid)

lemma grid_start_bounds: "grid_start fd y m < first_of_month y m \<and> first_of_month y m \<le> grid_start fd y m + 7"
  by (auto simp: grid_start_def grid_offset_def Let_def)

lemma civil_in_month:
  assumes "1 \<le> m" "m \<le> 12"
  shows "fst (civil_of_day D) = y \<and> fst (snd (civil_of_day D)) = m \<longleftrightarrow>
    first_of_month y m \<le> D \<and> D < first_of_month y m + month_len y (m - 1)"
proof
  assume "fst (civil_of_day D) = y \<and> fst (snd (civil_of_day D)) = m"
  then have "D = make_day y (m - 1) (1 + (mday_of_day D - 1))" "mday_of_day D \<le> month_len y (m - 1)"
    using make_day_civil [of D] mday_of_day_bounds [of D] by (auto simp: civil_of_day_def)
  then show "first_of_month y m \<le> D \<and> D < first_of_month y m + month_len y (m - 1)"
    unfolding make_day_add using mday_of_day_bounds [of D] by (simp add: first_of_month_def)
next
  assume D: "first_of_month y m \<le> D \<and> D < first_of_month y m + month_len y (m - 1)"
  have "D = make_day y (m - 1) (1 + (D - first_of_month y m))"
    unfolding make_day_add by (simp add: first_of_month_def)
  with civil_make_day [of "m - 1" "1 + (D - first_of_month y m)" y] D assms
  show "fst (civil_of_day D) = y \<and> fst (snd (civil_of_day D)) = m"
    by (simp add: civil_of_day_def)
qed

lemma grid_month_days:
  assumes "100 < y" "1 \<le> m" "m \<le> 12" "0 \<le> fd" "fd \<le> 6"
  shows "filter (\<lambda>d. fst d = y \<and> fst (snd d) = m) (concat (get_weeks fd y m)) = month_days y m"
proof -
  let ?s = "grid_start fd y m" and ?D = "first_of_month y m" and ?L = "month_len y (m - 1)"
  have L: "28 \<le> ?L" "?L \<le> 31" using month_len_bounds [of "m - 1" y] assms by auto
  have "[?s..?s + 41] = [?s..?D - 1] @ [?D..?D + ?L - 1] @ [?D + ?L..?s + 41]"
    using grid_start_bounds [of fd y m] L upto_split2 [of ?s ?D "?s + 41"] 
      upto_split1 [of ?s ?D "?s + 41"] upto_split1 [of ?D "?D + ?L" "?s + 41"] by simp
  then have "filter (\<lambda>D. ?D \<le> D \<and> D < ?D + ?L) [?s..?s + 41] = [?D..?D + ?L - 1]"
    by (simp add: filter_empty_conv)
  then have "filter (\<lambda>d. fst d = y \<and> fst (snd d) = m) (concat (get_weeks fd y m)) = map civil_of_day [?D..?D + ?L - 1]"
    by (simp add: concat_get_weeks assms filter_map o_def civil_in_month [OF assms(2,3)])
  also have "[?D..?D + ?L - 1] = map (\<lambda>i. i + ?D) [0..?L - 1]"
    by (simp add: map_plus_upto algebra_simps)
  finally show ?thesis
    by (simp add: month_days_numbered assms o_def add.commute)
qed

lemma month_days_eq:
  assumes "100 < y" "1 \<le> m" "m \<le> 12"
  shows "month_days y m = map (\<lambda>d. (y, m, d)) [1..month_len y (m - 1)]"
  using assms make_day_month_end [of "m - 1" y] month_len_bounds [of "m - 1" y]
  by (simp add: month_days_def getDate_def full_year_arg_def civil_make_day)

end
