(* ===== verification/Calendar.thy ===== *)
theory Calendar
  imports CalendarGrid
begin

text \<open>
  \<open>plugins/jquery.calendar.js\<close>: the rendering of the table (\<open>_19\<close>), month and year
  navigation (\<open>_f\<close>, \<open>_10\<close>), the month menu (\<open>_5\<close>, \<open>_d\<close>), clicks on a day and
  \<open>moveTo\<close>. The DOM of one calendar is the part of the record after the options: title,
  header row, rows of cells, and the menu. Callbacks that only notify are recorded in a log;
  \<open>validator\<close>, \<open>formatter\<close> and \<open>styler\<close> are functions of the options record, as in
  the code. The year and the month are integers, each with a flag that tells that the code has stored
  NaN in its place (the integer then does not matter). A month without dates (NaN, or out of the range
  of a \<open>Date\<close>) cannot be drawn: the old table is gone when \<open>_20\<close> raises, and the handler ends there.
\<close>

section \<open>State\<close>

datatype cal_css = CssNone | CssText string | CssObj string string

datatype cal_note = Navigated int int | DaySelected jsdate | DayChanged jsdate "jsdate option"

record cal_cell =
  cc_abbr :: string
  cc_classes :: "string list"
  cc_style :: string
  cc_text :: string

record calendar =
  cal_firstDay :: int
  cal_weekNames :: "string list"
  cal_monthNames :: "string list"
  cal_year :: int
  cal_month :: int
  cal_nanYear :: bool
  cal_nanMonth :: bool
  cal_current :: "jsdate option"
  cal_formatter :: "jsdate \<Rightarrow> string"
  cal_styler :: "jsdate \<Rightarrow> cal_css"
  cal_validator :: "jsdate \<Rightarrow> bool"
  cal_title :: string
  cal_head :: "string list"
  cal_rows :: "(string \<times> cal_cell list) list"
  cal_menu_open :: bool
  cal_menu_built :: bool
  cal_menu_year :: string
  cal_menu_sel :: "int option"
  cal_log :: "cal_note list"

text \<open>\<open>$.fn.calendar.defaults\<close>; nothing is drawn yet.\<close>

definition default_calendar :: "jsdate \<Rightarrow> calendar" where
  "default_calendar now =
     \<lparr>cal_firstDay = 0,
      cal_weekNames = [''S'', ''M'', ''T'', ''W'', ''T'', ''F'', ''S''],
      cal_monthNames = [''Jan'', ''Feb'', ''Mar'', ''Apr'', ''May'', ''Jun'', ''Jul'', ''Aug'', ''Sep'', ''Oct'', ''Nov'', ''Dec''],
      cal_year = getFullYear now, cal_month = getMonth now + 1, cal_nanYear = False, cal_nanMonth = False,
      cal_current = Some (new_date (getFullYear now) (getMonth now) (getDate now)),
      cal_formatter = (\<lambda>t. show_int (getDate t)), cal_styler = (\<lambda>t. CssText []), cal_validator = (\<lambda>t. True),
      cal_title = [], cal_head = [], cal_rows = [],
      cal_menu_open = False, cal_menu_built = False, cal_menu_year = [], cal_menu_sel = None, cal_log = []\<rparr>"

section \<open>Rendering\<close>

text \<open>\<open>y+","+m+","+d\<close>\<close>

definition civil_string :: "civil \<Rightarrow> string" where
  "civil_string c = (case c of (y, m, d) \<Rightarrow> js_join '','' [show_int y, show_int m, show_int d])"

definition sat_column :: "int \<Rightarrow> int" where
  "sat_column fd = (let k = 6 - fd in if 7 \<le> k then k - 7 else k)"

definition sun_column :: "int \<Rightarrow> int" where
  "sun_column fd = (let k = 6 - fd + 1 in if 7 \<le> k then k - 7 else k)"

definition weekend_classes :: "int \<Rightarrow> nat \<Rightarrow> string list" where
  "weekend_classes fd j =
     (if int j = sat_column fd then [''calendar-saturday'']
      else if int j = sun_column fd then [''calendar-sunday''] else [])"

definition edge_classes :: "nat \<Rightarrow> nat \<Rightarrow> string list" where
  "edge_classes n j = (if j = 0 then [''calendar-first''] else if j = n - 1 then [''calendar-last''] else [])"

definition css_class :: "cal_css \<Rightarrow> string" where
  "css_class css = (case css of CssObj c st \<Rightarrow> c | _ \<Rightarrow> [])"

definition css_style :: "cal_css \<Rightarrow> string" where
  "css_style css = (case css of CssObj c st \<Rightarrow> st | CssText st \<Rightarrow> st | CssNone \<Rightarrow> [])"

text \<open>One cell (\<open>td\<close>) of the table: \<open>n\<close> cells in the row, this one in column \<open>j\<close>.\<close>

definition render_cell :: "jsdate \<Rightarrow> calendar \<Rightarrow> nat \<Rightarrow> nat \<Rightarrow> civil \<Rightarrow> cal_cell" where
  "render_cell now c n j day =
     (let s = civil_string day; date = civil_date day; css = cal_styler c date
      in \<lparr>cc_abbr = s,
          cc_classes = [''calendar-day'']
            @ (if \<not> (cal_year c = fst day \<and> cal_month c = fst (snd day)) then [''calendar-other-month''] else [])
            @ (if s = civil_string (civil_of now) then [''calendar-today''] else [])
            @ (if s = (case cal_current c of None \<Rightarrow> [] | Some t \<Rightarrow> civil_string (civil_of t))
               then [''calendar-selected''] else [])
            @ weekend_classes (cal_firstDay c) j @ edge_classes n j
            @ [css_class css]
            @ (if \<not> cal_validator c date then [''calendar-disabled''] else []),
          cc_style = css_style css,
          cc_text = cal_formatter c date\<rparr>)"

definition render_row :: "jsdate \<Rightarrow> calendar \<Rightarrow> nat \<Rightarrow> nat \<Rightarrow> civil list \<Rightarrow> string \<times> cal_cell list" where
  "render_row now c n i week =
     (if i = 0 then ''calendar-first'' else if i = n - 1 then ''calendar-last'' else [],
      map (\<lambda>j. render_cell now c (length week) j (week ! j)) [0..<length week])"

definition drop_invalid_current :: "calendar \<Rightarrow> calendar" where
  "drop_invalid_current c =
     (case cal_current c of None \<Rightarrow> c
      | Some t \<Rightarrow> if cal_validator c t then c else c\<lparr>cal_current := None\<rparr>)"

text \<open>
  A \<open>Date\<close> is at most 100,000,000 days from 1970. A month one of whose ends has no date is lost: the
  number of its days is NaN, and it has no week. (April of the year -271821, the first month with a
  date, is counted as lost, although the code draws it, with NaN for its first days.)
\<close>

definition date_exists :: "jsdate \<Rightarrow> bool" where
  "date_exists t = (\<bar>getTime t\<bar> \<le> 8640000000000000)"

definition cal_lost :: "calendar \<Rightarrow> bool" where
  "cal_lost c = (cal_nanYear c \<or> cal_nanMonth c \<or> \<not> date_exists (new_date (cal_year c) (cal_month c) 0) \<or>
     \<not> date_exists (new_date (cal_year c) (cal_month c - 1) 1))"

definition cal_heading :: "calendar \<Rightarrow> string" where
  "cal_heading c = (if cal_nanMonth c then ''undefined'' else js_name (cal_monthNames c) (cal_month c - 1)) @ '' '' @
     (if cal_nanYear c then ''NaN'' else show_int (cal_year c))"

text \<open>\<open>_19\<close>: redraw the calendar for its year and month; a lost calendar is left without a table.\<close>

definition show_calendar :: "jsdate \<Rightarrow> calendar \<Rightarrow> calendar" where
  "show_calendar now c0 =
     (let c = drop_invalid_current c0;
          weeks = get_weeks (cal_firstDay c) (cal_year c) (cal_month c);
          fd = nat (cal_firstDay c)
      in if cal_lost c then c\<lparr>cal_title := cal_heading c, cal_head := [], cal_rows := []\<rparr>
         else c\<lparr>cal_title := cal_heading c,
           cal_head := drop fd (cal_weekNames c) @ take fd (cal_weekNames c),
           cal_rows := map (\<lambda>i. render_row now c (length weeks) i (weeks ! i)) [0..<length weeks],
           cal_log := cal_log c @ [Navigated (cal_year c) (cal_month c)]\<rparr>)"

section \<open>Navigation\<close>

text \<open>\<open>_f(k)\<close> and \<open>_10(k)\<close>; what follows a drawing that raises is not done.\<close>

definition nav_year :: "jsdate \<Rightarrow> int \<Rightarrow> calendar \<Rightarrow> calendar" where
  "nav_year now k c =
     (let c' = show_calendar now (c\<lparr>cal_year := cal_year c + k\<rparr>)
      in if cal_lost c' then c' else c'\<lparr>cal_menu_year := show_int (cal_year c')\<rparr>)"

definition move_month :: "int \<Rightarrow> calendar \<Rightarrow> calendar" where
  "move_month k c =
     (let m = cal_month c + k
      in if m > 12 then c\<lparr>cal_year := cal_year c + 1, cal_month := 1\<rparr>
         else if m < 1 then c\<lparr>cal_year := cal_year c - 1, cal_month := 12\<rparr>
         else c\<lparr>cal_month := m\<rparr>)"

definition nav_month :: "jsdate \<Rightarrow> int \<Rightarrow> calendar \<Rightarrow> calendar" where
  "nav_month now k c =
     (let c' = show_calendar now (move_month k c)
      in if cal_lost c' then c' else c'\<lparr>cal_menu_sel := if cal_menu_built c' then Some (cal_month c') else None\<rparr>)"

text \<open>\<open>_5\<close>: open the menu (its twelve month cells are made once). No cell is marked for a month NaN.\<close>

definition open_menu :: "calendar \<Rightarrow> calendar" where
  "open_menu c = c\<lparr>cal_menu_open := True, cal_menu_built := True,
     cal_menu_year := if cal_nanYear c then ''NaN'' else show_int (cal_year c),
     cal_menu_sel := if cal_nanMonth c then None else Some (cal_month c)\<rparr>"

text \<open>
  \<open>_d(hide)\<close>: take year and month from the menu. The year text is tested with \<open>isNaN\<close>, which takes
  an empty text and ''Infinity'' for numbers, and read with \<open>parseInt\<close>, which does not; there may be no
  marked month.
\<close>

definition set_year :: "int option \<Rightarrow> calendar \<Rightarrow> calendar" where
  "set_year o' c = (case o' of None \<Rightarrow> c\<lparr>cal_nanYear := True\<rparr> | Some y \<Rightarrow> c\<lparr>cal_year := y, cal_nanYear := False\<rparr>)"

definition set_month :: "int option \<Rightarrow> calendar \<Rightarrow> calendar" where
  "set_month o' c = (case o' of None \<Rightarrow> c\<lparr>cal_nanMonth := True\<rparr> | Some m \<Rightarrow> c\<lparr>cal_month := m, cal_nanMonth := False\<rparr>)"

definition menu_commit :: "jsdate \<Rightarrow> bool \<Rightarrow> calendar \<Rightarrow> calendar" where
  "menu_commit now hide c =
     (let c' = (if numeric_string (cal_menu_year c)
                then show_calendar now (set_month (cal_menu_sel c) (set_year (parse_int_auto (cal_menu_year c)) c)) else c)
      in if numeric_string (cal_menu_year c) \<and> cal_lost c' then c'
         else if hide then c'\<lparr>cal_menu_open := False\<rparr> else c')"

section \<open>Choosing a day\<close>

text \<open>
  \<open>find(".calendar-selected").removeClass\<close>, then \<open>addClass\<close> on the cell in row \<open>r\<close>,
  column \<open>k\<close>.
\<close>

definition unselect_cell :: "cal_cell \<Rightarrow> cal_cell" where
  "unselect_cell cell = cell\<lparr>cc_classes := filter (\<lambda>x. x \<noteq> ''calendar-selected'') (cc_classes cell)\<rparr>"

definition select_cell :: "cal_cell \<Rightarrow> cal_cell" where
  "select_cell cell = cell\<lparr>cc_classes := cc_classes cell @ [''calendar-selected'']\<rparr>"

definition mark_selected :: "nat \<Rightarrow> nat \<Rightarrow> (string \<times> cal_cell list) list \<Rightarrow> (string \<times> cal_cell list) list" where
  "mark_selected r k rows =
     map_at r (apsnd (map_at k select_cell)) (map (apsnd (map unselect_cell)) rows)"

definition parse_abbr :: "string \<Rightarrow> civil option" where
  "parse_abbr s =
     (case map parse_int_auto (js_split '','' s) of
        Some y # Some m # Some d # _ \<Rightarrow> Some (y, m, d)
      | _ \<Rightarrow> None)"

text \<open>
  A click on the cell in row \<open>r\<close>, column \<open>k\<close>, up to the call of \<open>onSelect\<close>: nothing outside
  the table or on a disabled day (inner \<open>None\<close>); otherwise the selection mark moves to it (the
  menu is part of the calendar's body, so its month loses the mark as well) and the day becomes
  current.
\<close>

definition begin_click :: "nat \<Rightarrow> nat \<Rightarrow> calendar \<Rightarrow> (calendar \<times> civil) option option" where
  "begin_click r k c =
     (if r < length (cal_rows c) \<and> k < length (snd (cal_rows c ! r)) then
        let cell = snd (cal_rows c ! r) ! k
        in if ''calendar-disabled'' \<in> set (cc_classes cell) then Some None
           else (case parse_abbr (cc_abbr cell) of
               None \<Rightarrow> None
             | Some (y, m, d) \<Rightarrow>
                 Some (Some (c\<lparr>cal_rows := mark_selected r k (cal_rows c), cal_menu_sel := None,
                   cal_current := Some (new_date y (m - 1) d),
                   cal_log := cal_log c @ [DaySelected (new_date y (m - 1) d)]\<rparr>, y, m, d)))
      else Some None)"

text \<open>
  The rest of the handler: \<open>onChange\<close> if the current day differs from the one before the
  click, and a day of another month is navigated to. No result when \<open>onSelect\<close> has left no
  current day.
\<close>

definition finish_click :: "jsdate \<Rightarrow> jsdate option \<Rightarrow> civil \<Rightarrow> calendar \<Rightarrow> calendar option" where
  "finish_click now old day c =
     (case cal_current c of
        None \<Rightarrow> None
      | Some t \<Rightarrow>
          let c1 = (if old = None \<or> getTime (the old) \<noteq> getTime t then c\<lparr>cal_log := cal_log c @ [DayChanged t old]\<rparr> else c)
          in Some (if cal_nanYear c1 \<or> cal_nanMonth c1 \<or> cal_year c1 \<noteq> fst day \<or> cal_month c1 \<noteq> fst (snd day)
                   then show_calendar now (set_month (Some (fst (snd day))) (set_year (Some (fst day)) c1)) else c1))"

definition click_day :: "jsdate \<Rightarrow> nat \<Rightarrow> nat \<Rightarrow> calendar \<Rightarrow> calendar option" where
  "click_day now r k c =
     (case begin_click r k c of
        None \<Rightarrow> None
      | Some None \<Rightarrow> Some c
      | Some (Some (c1, day)) \<Rightarrow> finish_click now (cal_current c) day c1)"

text \<open>
  \<open>$(t).calendar({year,month,current})\<close> on an existing calendar: extend the options, refresh
  an open menu (through \<open>_1\<close>), redraw, hide the menu.
\<close>

definition reinit :: "jsdate \<Rightarrow> int \<Rightarrow> int \<Rightarrow> jsdate option \<Rightarrow> calendar \<Rightarrow> calendar" where
  "reinit now y m cur c =
     (let c1 = (set_month (Some m) (set_year (Some y) c))\<lparr>cal_current := cur\<rparr>;
          c2 = (if cal_menu_open c1 then open_menu c1 else c1);
          c3 = show_calendar now c2
      in if cal_lost c3 then c3 else c3\<lparr>cal_menu_open := False\<rparr>)"

definition moveTo :: "jsdate \<Rightarrow> jsdate option \<Rightarrow> calendar \<Rightarrow> calendar" where
  "moveTo now arg c =
     (case arg of
        None \<Rightarrow> reinit now (getFullYear now) (getMonth now + 1) None c
      | Some t \<Rightarrow>
          if cal_validator c t then
            let old = cal_current c; c' = reinit now (getFullYear t) (getMonth t + 1) (Some t) c
            in if \<not> cal_lost c' \<and> (old = None \<or> getTime (the old) \<noteq> getTime t)
               then c'\<lparr>cal_log := cal_log c' @ [DayChanged (the (cal_current c')) old]\<rparr> else c'
          else c)"

section \<open>Sessions\<close>

datatype cal_event = NextMonth | PrevMonth | NextYear | PrevYear | ClickTitle | TypeYear string
  | EnterYear | ClickMonth int | ClickDay nat nat | MoveTo "jsdate option"

text \<open>The click handler's dispatch on the class of the target, and the keyboard in the menu.\<close>

definition cal_step :: "jsdate \<Rightarrow> calendar \<Rightarrow> cal_event \<Rightarrow> calendar option" where
  "cal_step now c e =
     (case e of
        NextYear \<Rightarrow> Some (nav_year now 1 c)
      | PrevYear \<Rightarrow> Some (nav_year now (- 1) c)
      | ClickMonth m \<Rightarrow>
          Some (if cal_menu_open c \<and> 1 \<le> m \<and> m \<le> 12 then menu_commit now True (c\<lparr>cal_menu_sel := Some m\<rparr>) else c)
      | PrevMonth \<Rightarrow> Some (nav_month now (- 1) c)
      | NextMonth \<Rightarrow> Some (nav_month now 1 c)
      | ClickTitle \<Rightarrow> Some (if cal_menu_open c then c\<lparr>cal_menu_open := False\<rparr> else open_menu c)
      | ClickDay r k \<Rightarrow> click_day now r k c
      | TypeYear s \<Rightarrow> Some (if cal_menu_open c then c\<lparr>cal_menu_year := s\<rparr> else c)
      | EnterYear \<Rightarrow> Some (if cal_menu_open c then menu_commit now True c else c)
      | MoveTo arg \<Rightarrow> Some (moveTo now arg c))"

section \<open>The invariant of a session\<close>

text \<open>
  \<open>cal_ok\<close>: the month is a month, the table on the screen is the grid of the displayed
  year and month, or there is none when they are lost; every day the validator rejects is disabled in
  it, and the current date is one the validator accepts.
\<close>

definition cell_ok :: "(jsdate \<Rightarrow> bool) \<Rightarrow> civil \<Rightarrow> cal_cell \<Rightarrow> bool" where
  "cell_ok v day cell =
     (cc_abbr cell = civil_string day \<and> (v (civil_date day) \<or> ''calendar-disabled'' \<in> set (cc_classes cell)))"

definition rows_ok :: "calendar \<Rightarrow> bool" where
  "rows_ok c = list_all2 (\<lambda>week row. list_all2 (cell_ok (cal_validator c)) week (snd row))
     (get_weeks (cal_firstDay c) (cal_year c) (cal_month c)) (cal_rows c)"

definition cal_ok :: "calendar \<Rightarrow> bool" where
  "cal_ok c = (1 \<le> cal_month c \<and> cal_month c \<le> 12 \<and>
     (\<forall>m. cal_menu_sel c = Some m \<longrightarrow> 1 \<le> m \<and> m \<le> 12) \<and>
     (if cal_lost c then cal_rows c = [] else rows_ok c) \<and>
     (\<forall>t. cal_current c = Some t \<longrightarrow> cal_validator c t))"

lemma civil_string_parse [simp]: "parse_abbr (civil_string c) = Some c"
proof -
  obtain y m d where c: "c = (y, m, d)" by (cases c) auto
  have "js_split '','' (civil_string c) = [show_int y, show_int m, show_int d]"
    unfolding civil_string_def c prod.case
    by (rule js_split_join) (auto dest: show_int_chars)
  then show ?thesis by (simp add: parse_abbr_def c)
qed

lemma civil_string_inj: "civil_string c = civil_string d \<longleftrightarrow> c = d"
  by (metis civil_string_parse option.inject)

text \<open>All days of a grid have a month between 1 and 12.\<close>

lemma pad_front_all:
  "(\<And>d k. P (sh d k)) \<Longrightarrow> list_all P w \<Longrightarrow> list_all P (pad_front sh w)"
proof (induction sh w rule: pad_front.induct)
  case (1 sh w)
  then show ?case by (simp add: pad_front.simps [of sh w])
qed

lemma pad_back_all:
  "(\<And>d k. P (sh d k)) \<Longrightarrow> list_all P w \<Longrightarrow> list_all P (pad_back sh w)"
proof (induction sh w rule: pad_back.induct)
  case (1 sh w)
  then show ?case by (simp add: pad_back.simps [of sh w])
qed

lemma weeks_of_days_all:
  assumes "\<And>d k. P (sh d k)" and "list_all P ds" and "ds \<noteq> []"
  shows "list_all (list_all P) (weeks_of_days wd sh fd ds)"
proof -
  let ?g = "group_weeks wd fd (- 1) [] ds"
  have c: "concat ?g = ds" using concat_group_weeks [of wd fd "- 1" "[]" ds] by simp
  have "list_all (list_all P) ?g"
    using assms(2) unfolding list_all_iff by (metis UN_I c set_concat)
  moreover have "?g \<noteq> []" using c assms(3) by auto
  ultimately have g: "list_all (list_all P) ?g" "?g \<noteq> []" .
  have wb: "list_all P (week_before sh d)" and wa: "list_all P (week_after sh d)" for d
    using assms(1) by (auto simp: week_before_def week_after_def list_all_iff)
  obtain w ws where gw: "?g = w # ws" using g(2) by (cases ?g) auto
  then have f: "list_all (list_all P) (fill_first sh ?g)" "fill_first sh ?g \<noteq> []"
    using g(1) wb pad_front_all [of P sh, OF assms(1)] by (simp_all add: fill_first_def)
  obtain us u where fu: "fill_first sh ?g = us @ [u]" using f(2) by (cases "fill_first sh ?g" rule: rev_cases) auto
  then have "list_all (list_all P) (fill_last sh (fill_first sh ?g))"
    using f(1) wa pad_back_all [of P sh, OF assms(1)] by (simp add: fill_last_def Let_def)
  then show ?thesis by (simp add: weeks_of_days_def)
qed

lemma get_weeks_months:
  assumes "week \<in> set (get_weeks fd y m)" and "day \<in> set week" and "1 \<le> m" "m \<le> 12"
  shows "1 \<le> fst (snd day) \<and> fst (snd day) \<le> 12"
proof -
  let ?P = "\<lambda>d :: civil. 1 \<le> fst (snd d) \<and> fst (snd d) \<le> 12"
  have "?P (civil_shift d k)" for d k
    using month_of_day_bounds
    by (cases d) (simp add: civil_shift_def civil_of_def getMonth_def add_increasing)
  moreover have "list_all ?P (month_days y m)" "month_days y m \<noteq> []"
    using assms(3,4) mday_of_day_bounds [of "make_day (full_year_arg y) m 0"]
    by (simp_all add: month_days_def list_all_iff getDate_def)
  ultimately have "list_all (list_all ?P) (get_weeks fd y m)"
    unfolding get_weeks_def by (rule weeks_of_days_all)
  with assms(1,2) show ?thesis by (auto simp: list_all_iff)
qed

lemma show_calendar_kept [simp]:
  "cal_nanYear (show_calendar now c) = cal_nanYear c" "cal_nanMonth (show_calendar now c) = cal_nanMonth c"
  "cal_lost (show_calendar now c) = cal_lost c"
  by (simp_all add: show_calendar_def drop_invalid_current_def cal_lost_def Let_def split: option.splits)

lemma cal_lost_frame [simp]:
  "cal_lost (c\<lparr>cal_current := x\<rparr>) = cal_lost c" "cal_lost (c\<lparr>cal_log := l\<rparr>) = cal_lost c"
  "cal_lost (c\<lparr>cal_rows := r\<rparr>) = cal_lost c" "cal_lost (c\<lparr>cal_menu_open := b\<rparr>) = cal_lost c"
  "cal_lost (c\<lparr>cal_menu_year := s\<rparr>) = cal_lost c" "cal_lost (c\<lparr>cal_menu_sel := ms\<rparr>) = cal_lost c"
  "cal_lost (c\<lparr>cal_menu_built := b\<rparr>) = cal_lost c" "cal_lost (drop_invalid_current c) = cal_lost c"
  by (simp_all add: cal_lost_def drop_invalid_current_def split: option.split)

lemma set_year_month_frame [simp]:
  "cal_menu_sel (set_year y c) = cal_menu_sel c" "cal_menu_sel (set_month m c) = cal_menu_sel c"
  "cal_month (set_year y c) = cal_month c" "cal_validator (set_year y c) = cal_validator c" "cal_validator (set_month m c) = cal_validator c"
  "cal_menu_open (set_year y c) = cal_menu_open c" "cal_menu_open (set_month m c) = cal_menu_open c"
  "cal_nanYear (set_month m c) = cal_nanYear c" "cal_nanYear (set_year y c) = (y = None)"
  "cal_menu_year (set_month m c) = cal_menu_year c" "cal_menu_year (set_year y c) = cal_menu_year c"
  by (simp_all add: set_year_def set_month_def split: option.split)

lemma set_month_range: "1 \<le> cal_month c \<and> cal_month c \<le> 12 \<Longrightarrow> \<forall>m. o' = Some m \<longrightarrow> 1 \<le> m \<and> m \<le> 12 \<Longrightarrow>
  1 \<le> cal_month (set_month o' c) \<and> cal_month (set_month o' c) \<le> 12"
  by (simp add: set_month_def split: option.split)

lemma show_calendar_frame [simp]:
  "cal_year (show_calendar now c) = cal_year c" "cal_month (show_calendar now c) = cal_month c"
  "cal_firstDay (show_calendar now c) = cal_firstDay c" "cal_validator (show_calendar now c) = cal_validator c"
  "cal_menu_sel (show_calendar now c) = cal_menu_sel c" "cal_menu_built (show_calendar now c) = cal_menu_built c"
  "cal_menu_open (show_calendar now c) = cal_menu_open c" "cal_menu_year (show_calendar now c) = cal_menu_year c"
  "cal_current (show_calendar now c) = cal_current (drop_invalid_current c)"
  by (simp_all add: show_calendar_def drop_invalid_current_def Let_def split: option.splits)

lemma show_calendar_current: "cal_current (show_calendar now c) = Some t \<Longrightarrow> cal_validator c t"
  by (auto simp: drop_invalid_current_def split: option.splits if_splits)

lemma render_cell_ok:
  assumes "v = cal_validator c"
  shows "cell_ok v day (render_cell now c n j day)"
proof (cases "cal_validator c (civil_date day)")
  case False
  then have "''calendar-disabled'' \<in> set (cc_classes (render_cell now c n j day))"
    unfolding render_cell_def Let_def by (simp split del: if_split)
  then show ?thesis by (simp add: cell_ok_def render_cell_def Let_def)
qed (simp add: cell_ok_def render_cell_def Let_def assms)

lemma show_calendar_lost: "cal_lost c \<Longrightarrow> cal_rows (show_calendar now c) = []"
  by (simp add: show_calendar_def Let_def)

lemma show_calendar_rows: "\<not> cal_lost c \<Longrightarrow> rows_ok (show_calendar now c)"
proof -
  assume "\<not> cal_lost c"
  define c' where "c' = drop_invalid_current c"
  with \<open>\<not> cal_lost c\<close> have there: "\<not> cal_lost c'" by simp
  have c': "cal_validator c' = cal_validator c" "cal_firstDay c' = cal_firstDay c"
    "cal_year c' = cal_year c" "cal_month c' = cal_month c"
    by (simp_all add: c'_def drop_invalid_current_def split: option.splits)
  then show ?thesis
    unfolding rows_ok_def show_calendar_frame
    by (simp add: show_calendar_def Let_def there list_all2_conv_all_nth render_row_def render_cell_ok flip: c'_def)
qed

lemma show_calendar_ok:
  assumes "1 \<le> cal_month c" "cal_month c \<le> 12" "\<forall>m. cal_menu_sel c = Some m \<longrightarrow> 1 \<le> m \<and> m \<le> 12"
  shows "cal_ok (show_calendar now c)"
  using assms show_calendar_rows show_calendar_lost show_calendar_current by (auto simp: cal_ok_def)

lemma move_month_range:
  "1 \<le> cal_month c \<Longrightarrow> cal_month c \<le> 12 \<Longrightarrow> \<bar>k\<bar> \<le> 11 \<Longrightarrow>
   1 \<le> cal_month (move_month k c) \<and> cal_month (move_month k c) \<le> 12"
  by (auto simp: move_month_def Let_def)

lemma move_month_frame [simp]:
  "cal_menu_sel (move_month k c) = cal_menu_sel c" "cal_validator (move_month k c) = cal_validator c"
  "cal_nanYear (move_month k c) = cal_nanYear c" "cal_menu_open (move_month k c) = cal_menu_open c"
  "cal_menu_year (move_month k c) = cal_menu_year c"
  by (simp_all add: move_month_def Let_def)

lemma cal_ok_frame [simp]:
  "cal_ok (c\<lparr>cal_menu_open := b\<rparr>) = cal_ok c" "cal_ok (c\<lparr>cal_menu_year := s\<rparr>) = cal_ok c"
  "cal_ok (c\<lparr>cal_log := l\<rparr>) = cal_ok c"
  by (simp_all add: cal_ok_def rows_ok_def)

lemma cal_ok_menu_sel: "cal_ok c \<Longrightarrow> 1 \<le> m \<and> m \<le> 12 \<Longrightarrow> cal_ok (c\<lparr>cal_menu_sel := Some m\<rparr>)"
  by (auto simp: cal_ok_def rows_ok_def)

lemma nav_month_ok:
  assumes "cal_ok c" and "\<bar>k\<bar> \<le> 11"
  shows "cal_ok (nav_month now k c)"
proof -
  have "cal_ok (show_calendar now (move_month k c))"
    using assms move_month_range [of c k] by (intro show_calendar_ok) (auto simp: cal_ok_def)
  then show ?thesis by (auto simp: cal_ok_def nav_month_def Let_def rows_ok_def)
qed

lemma nav_year_ok:
  assumes "cal_ok c"
  shows "cal_ok (nav_year now k c)"
proof -
  have "cal_ok (show_calendar now (c\<lparr>cal_year := cal_year c + k\<rparr>))"
    by (rule show_calendar_ok) (use assms in \<open>auto simp: cal_ok_def\<close>)
  then show ?thesis by (simp add: nav_year_def Let_def)
qed

lemma open_menu_ok: "cal_ok c \<Longrightarrow> cal_ok (open_menu c)"
  by (auto simp: cal_ok_def open_menu_def rows_ok_def)

lemma menu_commit_ok:
  assumes "cal_ok c"
  shows "cal_ok (menu_commit now hide c)"
proof -
  let ?c = "set_month (cal_menu_sel c) (set_year (parse_int_auto (cal_menu_year c)) c)"
  have "1 \<le> cal_month ?c \<and> cal_month ?c \<le> 12" by (rule set_month_range) (use assms in \<open>auto simp: cal_ok_def\<close>)
  then have "cal_ok (show_calendar now ?c)" using assms by (intro show_calendar_ok) (auto simp: cal_ok_def)
  then show ?thesis using assms by (simp add: menu_commit_def Let_def)
qed

text \<open>Moving the selection marker keeps abbreviations and the disabled marks.\<close>

lemma cell_ok_marks [simp]:
  "cell_ok v day (unselect_cell cell) = cell_ok v day cell"
  "cell_ok v day (select_cell cell) = cell_ok v day cell"
  by (simp_all add: cell_ok_def unselect_cell_def select_cell_def)

lemma rows_ok_mark:
  assumes "rows_ok c"
  shows "rows_ok (c\<lparr>cal_rows := mark_selected r k (cal_rows c)\<rparr>)"
  using assms unfolding rows_ok_def mark_selected_def
  by (auto intro!: list_all2_map_at list_all2_map_same)

lemma begin_click_ok:
  assumes ok: "cal_ok c" and click: "begin_click r k c = Some (Some (c1, day))"
  shows "cal_ok c1 \<and> 1 \<le> fst (snd day) \<and> fst (snd day) \<le> 12 \<and> cal_current c1 = Some (civil_date day) \<and>
    cal_validator c1 = cal_validator c"
proof -
  let ?weeks = "get_weeks (cal_firstDay c) (cal_year c) (cal_month c)"
  let ?day = "?weeks ! r ! k"
  have True: "r < length (cal_rows c) \<and> k < length (snd (cal_rows c ! r))
    \<and> ''calendar-disabled'' \<notin> set (cc_classes (snd (cal_rows c ! r) ! k))"
    using click by (auto simp: begin_click_def Let_def split: if_split_asm)
  have rk: "r < length ?weeks" "k < length (?weeks ! r)" and cell: "cell_ok (cal_validator c) ?day (snd (cal_rows c ! r) ! k)"
    using ok True by (auto simp: cal_ok_def rows_ok_def list_all2_conv_all_nth split: if_split_asm)
  obtain y m d where day: "?day = (y, m, d)" by (cases ?day) auto
  have m: "1 \<le> m" "m \<le> 12"
    using get_weeks_months [OF nth_mem [OF rk(1)] nth_mem [OF rk(2)]] ok day by (auto simp: cal_ok_def)
  have v: "cal_validator c (new_date y (m - 1) d)"
    using cell True by (simp add: cell_ok_def day civil_date_def)
  have abbr: "parse_abbr (cc_abbr (snd (cal_rows c ! r) ! k)) = Some (y, m, d)"
    using cell by (simp add: cell_ok_def day)
  have c1: "c1 = c\<lparr>cal_rows := mark_selected r k (cal_rows c), cal_menu_sel := None,
      cal_current := Some (new_date y (m - 1) d), cal_log := cal_log c @ [DaySelected (new_date y (m - 1) d)]\<rparr>"
    and "day = (y, m, d)"
    using click True abbr by (simp_all add: begin_click_def Let_def)
  moreover have "\<not> cal_lost c" using ok True by (auto simp: cal_ok_def)
  ultimately show ?thesis using ok v m rows_ok_mark [of c r k]
    by (simp add: cal_ok_def rows_ok_def civil_date_def)
qed

lemma finish_click_ok:
  assumes "cal_ok c" "1 \<le> fst (snd day)" "fst (snd day) \<le> 12" and "finish_click now old day c = Some c'"
  shows "cal_ok c'"
proof -
  obtain t where t: "cal_current c = Some t" using assms(4) by (auto simp: finish_click_def split: option.splits)
  define c1 where "c1 = c\<lparr>cal_log := if old = None \<or> getTime (the old) \<noteq> getTime t then cal_log c @ [DayChanged t old] else cal_log c\<rparr>"
  define c2 where "c2 = set_month (Some (fst (snd day))) (set_year (Some (fst day)) c1)"
  have "c' = show_calendar now c2 \<or> c' = c1"
    using assms(4) by (auto simp: finish_click_def Let_def t c1_def c2_def split: if_split_asm)
  moreover have "cal_ok (show_calendar now c2)"
    using assms(1-3) by (intro show_calendar_ok) (auto simp: cal_ok_def c2_def c1_def set_month_def)
  moreover have "cal_ok c1" using assms(1) by (simp add: c1_def)
  ultimately show ?thesis by blast
qed

lemma click_day_ok: "cal_ok c \<Longrightarrow> click_day now r k c = Some c' \<Longrightarrow> cal_ok c'"
  by (auto simp: click_day_def dest: begin_click_ok intro: finish_click_ok split: option.split_asm)

lemma reinit_date_ok:
  assumes "cal_ok c"
  shows "cal_ok (reinit now (getFullYear t) (getMonth t + 1) cur c)"
proof -
  let ?c1 = "(set_month (Some (getMonth t + 1)) (set_year (Some (getFullYear t)) c))\<lparr>cal_current := cur\<rparr>"
  have m: "1 \<le> getMonth t + 1" "getMonth t + 1 \<le> 12"
    using month_of_day_bounds [of "day_of t"] by (simp_all add: getMonth_def)
  then have "cal_ok (show_calendar now (if cal_menu_open ?c1 then open_menu ?c1 else ?c1))"
    using assms by (intro show_calendar_ok) (auto simp: open_menu_def cal_ok_def set_month_def)
  then show ?thesis by (simp add: reinit_def Let_def del: show_calendar_kept)
qed

lemma moveTo_ok: "cal_ok c \<Longrightarrow> cal_ok (moveTo now arg c)"
  using reinit_date_ok by (auto simp: moveTo_def Let_def split: option.splits)

interpretation calendar: partial_machine "cal_step now" cal_ok for now
proof
  fix s e s'
  assume "cal_ok s" and "cal_step now s e = Some s'"
  then show "cal_ok s'"
    by (cases e)
      (auto simp: cal_step_def nav_year_ok nav_month_ok open_menu_ok moveTo_ok
        intro: click_day_ok menu_commit_ok [OF cal_ok_menu_sel] menu_commit_ok split: if_splits)
qed

text \<open>Every event has a result: the days of a shown table can be read back.\<close>

lemma click_day_total:
  assumes "cal_ok c"
  shows "\<exists>c'. click_day now r k c = Some c'"
proof (cases "begin_click r k c")
  case None
  then have rk: "r < length (cal_rows c)" "k < length (snd (cal_rows c ! r))" and abbr: "parse_abbr (cc_abbr (snd (cal_rows c ! r) ! k)) = None"
    by (auto simp: begin_click_def Let_def split: if_split_asm option.splits)
  from rk(1) assms have "rows_ok c" by (auto simp: cal_ok_def split: if_split_asm)
  with rk have "cell_ok (cal_validator c) (get_weeks (cal_firstDay c) (cal_year c) (cal_month c) ! r ! k) (snd (cal_rows c ! r) ! k)"
    by (auto simp: rows_ok_def list_all2_conv_all_nth)
  with abbr show ?thesis by (auto simp: cell_ok_def)
next
  case (Some o')
  then show ?thesis
    using begin_click_ok [OF assms] by (cases o') (fastforce simp: click_day_def finish_click_def Let_def)+
qed

lemma cal_step_total: "cal_ok c \<Longrightarrow> \<exists>c'. cal_step now c e = Some c'"
  by (cases e) (simp_all add: cal_step_def click_day_total)

lemma cal_run_total: "cal_ok c \<Longrightarrow> \<exists>c'. run_events (cal_step now) c es = Some c'"
proof (induction es arbitrary: c)
  case (Cons e es)
  obtain c1 where c1: "cal_step now c e = Some c1" using cal_step_total [OF Cons.prems] by blast
  from Cons.IH [OF calendar.inv_pstep [OF Cons.prems c1]] show ?case by (simp add: c1)
qed simp

text \<open>A text that \<open>isNaN\<close> takes for a number and \<open>parseInt\<close> does not is the only way to lose the year.\<close>

definition year_text :: "string \<Rightarrow> bool" where
  "year_text s = (numeric_string s \<longrightarrow> parse_int_auto s \<noteq> None)"

definition year_kept :: "calendar \<Rightarrow> bool" where
  "year_kept c = (\<not> cal_nanYear c \<and> (cal_menu_open c \<longrightarrow> year_text (cal_menu_year c)))"

definition types_years :: "calendar \<Rightarrow> cal_event \<Rightarrow> bool" where
  "types_years c e = (case e of TypeYear s \<Rightarrow> year_text s | _ \<Rightarrow> True)"

lemma year_text_show [simp]: "year_text (show_int y)"
  by (simp add: year_text_def)

lemma finish_click_year:
  "year_kept c \<Longrightarrow> finish_click now old day c = Some c' \<Longrightarrow> year_kept c'"
  by (auto simp: finish_click_def year_kept_def Let_def split: option.splits if_splits)

lemma begin_click_year: "year_kept c \<Longrightarrow> begin_click r k c = Some (Some (c1, day)) \<Longrightarrow> year_kept c1"
  by (auto simp: begin_click_def year_kept_def Let_def split: option.splits if_splits)

lemma reinit_year: "year_kept c \<Longrightarrow> year_kept (reinit now y m cur c)"
  by (auto simp: reinit_def year_kept_def open_menu_def Let_def)

lemma menu_commit_year: "year_kept c \<Longrightarrow> cal_menu_open c \<Longrightarrow> year_kept (menu_commit now hide c)"
  by (auto simp: menu_commit_def year_kept_def year_text_def Let_def)

lemma year_step_kept:
  assumes "year_kept c" "types_years c e" "cal_step now c e = Some c'"
  shows "year_kept c'"
proof (cases e)
  case (ClickDay r k)
  with assms show ?thesis
    by (auto simp: cal_step_def click_day_def dest: begin_click_year finish_click_year split: option.splits)
next
  case (ClickMonth m)
  have "year_kept (c\<lparr>cal_menu_sel := Some m\<rparr>)" using assms(1) by (simp add: year_kept_def)
  with ClickMonth assms menu_commit_year [OF this] show ?thesis by (auto simp: cal_step_def split: if_splits)
next
  case (MoveTo arg)
  have "year_kept (c'\<lparr>cal_log := l\<rparr>) = year_kept c'" for c' l by (simp add: year_kept_def)
  with MoveTo assms reinit_year show ?thesis by (auto simp: cal_step_def moveTo_def Let_def split: option.splits)
next
  case PrevMonth
  with assms show ?thesis by (auto simp: cal_step_def year_kept_def nav_month_def Let_def split: if_splits)
next
  case NextMonth
  with assms show ?thesis by (auto simp: cal_step_def year_kept_def nav_month_def Let_def split: if_splits)
next
  case ClickTitle
  with assms show ?thesis by (auto simp: cal_step_def year_kept_def open_menu_def split: if_splits)
next
  case EnterYear
  with assms menu_commit_year show ?thesis by (auto simp: cal_step_def split: if_splits)
qed (use assms in \<open>auto simp: cal_step_def year_kept_def nav_year_def types_years_def Let_def split: if_splits\<close>)

interpretation typed_years: guarded_machine "cal_step now" types_years year_kept for now
  by unfold_locales (rule year_step_kept)

section \<open>What the user sees\<close>

definition shown_cells :: "calendar \<Rightarrow> cal_cell list" where
  "shown_cells c = concat (map snd (cal_rows c))"

definition styler_neutral :: "calendar \<Rightarrow> bool" where
  "styler_neutral c = (\<forall>t. css_class (cal_styler c t) = [])"

lemma drop_invalid_frame [simp]:
  "cal_validator (drop_invalid_current c) = cal_validator c" "cal_firstDay (drop_invalid_current c) = cal_firstDay c"
  "cal_year (drop_invalid_current c) = cal_year c" "cal_month (drop_invalid_current c) = cal_month c"
  "cal_styler (drop_invalid_current c) = cal_styler c"
  by (simp_all add: drop_invalid_current_def split: option.splits)

lemma show_calendar_cells:
  "\<not> cal_lost c \<Longrightarrow> list_all2 (list_all2 (\<lambda>day cell. \<exists>n j. cell = render_cell now (drop_invalid_current c) n j day))
     (get_weeks (cal_firstDay c) (cal_year c) (cal_month c)) (map snd (cal_rows (show_calendar now c)))"
  by (auto simp: show_calendar_def Let_def render_row_def list_all2_conv_all_nth)

lemma list_all2_concat: "list_all2 (list_all2 P) xss yss \<Longrightarrow> list_all2 P (concat xss) (concat yss)"
  by (induction rule: list_all2_induct) (auto intro: list_all2_appendI)

lemma list_all2_filter_map:
  "list_all2 (\<lambda>x y. g y = f x \<and> (Q y \<longleftrightarrow> P x)) xs ys \<Longrightarrow> map g (filter Q ys) = map f (filter P xs)"
  by (induction rule: list_all2_induct) auto

lemma other_month_class:
  assumes "css_class (cal_styler c (civil_date day)) = []"
  shows "''calendar-other-month'' \<notin> set (cc_classes (render_cell now c n j day))
    \<longleftrightarrow> cal_year c = fst day \<and> cal_month c = fst (snd day)"
proof -
  have "''calendar-other-month'' \<notin> set (weekend_classes fd j)" "''calendar-other-month'' \<notin> set (edge_classes n j)" for fd
    by (simp_all add: weekend_classes_def edge_classes_def)
  then show ?thesis
    by (simp add: render_cell_def Let_def assms split del: if_split)
qed

text \<open>
  The cells of a shown calendar that are not greyed as belonging to another month are the
  days of the displayed month, each once and in order.
\<close>

theorem shown_month_days:
  assumes "100 < cal_year c" "1 \<le> cal_month c" "cal_month c \<le> 12" "0 \<le> cal_firstDay c" "cal_firstDay c \<le> 6"
    and "styler_neutral c" "\<not> cal_lost c"
  shows "map cc_abbr (filter (\<lambda>cell. ''calendar-other-month'' \<notin> set (cc_classes cell))
           (shown_cells (show_calendar now c)))
    = map (\<lambda>d. civil_string (cal_year c, cal_month c, d)) [1..month_len (cal_year c) (cal_month c - 1)]"
proof -
  let ?P = "\<lambda>d :: civil. fst d = cal_year c \<and> fst (snd d) = cal_month c"
  have cell: "cc_abbr (render_cell now (drop_invalid_current c) n j day) = civil_string day \<and>
      (''calendar-other-month'' \<notin> set (cc_classes (render_cell now (drop_invalid_current c) n j day)) \<longleftrightarrow> ?P day)" for n j day
    using assms(6) other_month_class [of "drop_invalid_current c" day now n j]
    by (auto simp: styler_neutral_def render_cell_def Let_def split del: if_split)
  have "list_all2 (\<lambda>day cell. cc_abbr cell = civil_string day \<and>
      (''calendar-other-month'' \<notin> set (cc_classes cell) \<longleftrightarrow> ?P day))
    (concat (get_weeks (cal_firstDay c) (cal_year c) (cal_month c))) (shown_cells (show_calendar now c))"
    unfolding shown_cells_def
    by (rule list_all2_mono [OF list_all2_concat [OF show_calendar_cells [OF assms(7)]]]) (use cell in blast)
  from list_all2_filter_map [OF this] show ?thesis
    by (simp add: grid_month_days month_days_eq assms(1-5) o_def)
qed

theorem shown_month_days_witness:
  "map cc_abbr (filter (\<lambda>cell. ''calendar-other-month'' \<notin> set (cc_classes cell))
     (shown_cells (show_calendar (JsDate 0) ((default_calendar (JsDate 0))\<lparr>cal_year := 2016, cal_month := 2, cal_firstDay := 1\<rparr>))))
   = map (\<lambda>d. civil_string (2016, 2, d)) [1..29]"
proof -
  have "month_len 2016 1 = 29"
    "\<not> cal_lost ((default_calendar (JsDate 0))\<lparr>cal_year := 2016, cal_month := 2, cal_firstDay := 1\<rparr>)" by code_simp+
  then show ?thesis
    using shown_month_days [of "(default_calendar (JsDate 0))\<lparr>cal_year := 2016, cal_month := 2, cal_firstDay := 1\<rparr>" "JsDate 0"]
    by (simp add: default_calendar_def styler_neutral_def css_class_def)
qed

text \<open>
  C10. Whatever a user clicks or types, starting from a drawn calendar with its menu closed, every event
  is answered, and the current date is one the validator accepts. The table on the screen is the grid of
  the displayed year and month, a month from 1 to 12, with every day the validator rejects disabled; or
  there is no table, when the year or the month is NaN or the month has no dates. The year is not NaN
  unless a year was typed that \<open>isNaN\<close> takes for a number and \<open>parseInt\<close> does not.
\<close>

theorem session_keeps_valid:
  assumes "1 \<le> cal_month c" "cal_month c \<le> 12" "cal_menu_sel c = None" "\<not> cal_menu_open c" "\<not> cal_nanYear c"
  shows "\<exists>c'. run_events (cal_step now) (show_calendar now c) es = Some c' \<and>
    (\<forall>t. cal_current c' = Some t \<longrightarrow> cal_validator c' t) \<and>
    (if cal_lost c' then cal_rows c' = [] else 1 \<le> cal_month c' \<and> cal_month c' \<le> 12 \<and> rows_ok c') \<and>
    (along (cal_step now) types_years (show_calendar now c) es \<longrightarrow> \<not> cal_nanYear c')"
proof -
  have ok: "cal_ok (show_calendar now c)" by (rule show_calendar_ok) (use assms in auto)
  obtain c' where c': "run_events (cal_step now) (show_calendar now c) es = Some c'" using cal_run_total [OF ok] by blast
  have "cal_ok c'" by (rule calendar.inv_run [OF ok c'])
  moreover have "year_kept (show_calendar now c)" using assms by (simp add: year_kept_def)
  then have "along (cal_step now) types_years (show_calendar now c) es \<longrightarrow> year_kept c'"
    using typed_years.inv_along c' by blast
  ultimately show ?thesis using c' by (auto simp: cal_ok_def year_kept_def split: if_splits)
qed

definition typed_session :: "cal_event list" where
  "typed_session = [NextMonth, ClickTitle, TypeYear ''2016'', EnterYear, ClickDay 2 3, MoveTo None, ClickTitle, NextYear]"

theorem session_keeps_valid_witness:
  "\<exists>c'. run_events (cal_step (JsDate 0)) (show_calendar (JsDate 0) (default_calendar (JsDate 0))) typed_session = Some c'
     \<and> \<not> cal_nanYear c' \<and> (\<not> cal_lost c' \<longrightarrow> 1 \<le> cal_month c' \<and> cal_month c' \<le> 12 \<and> rows_ok c')"
proof -
  have m: "1 \<le> cal_month (default_calendar (JsDate 0))" "cal_month (default_calendar (JsDate 0)) \<le> 12"
    "cal_menu_sel (default_calendar (JsDate 0)) = None" "\<not> cal_menu_open (default_calendar (JsDate 0))"
    "\<not> cal_nanYear (default_calendar (JsDate 0))"
    using month_of_day_bounds [of "day_of (JsDate 0)"] by (simp_all add: default_calendar_def getMonth_def)
  have "year_text ''2016''" by code_simp
  then have "list_all (types_years (default_calendar (JsDate 0))) typed_session" by (simp add: typed_session_def types_years_def)
  moreover have "(\<lambda>c. types_years (default_calendar (JsDate 0))) = types_years" by (intro ext) (simp add: types_years_def)
  ultimately have "along (cal_step (JsDate 0)) types_years (show_calendar (JsDate 0) (default_calendar (JsDate 0))) typed_session"
    using along_all by metis
  with session_keeps_valid [OF m, of "JsDate 0" typed_session] show ?thesis by (auto split: if_splits)
qed

text \<open>
  An empty year and Enter: the year becomes NaN, the table is gone, and neither the months nor the years
  bring it back.
\<close>

lemma empty_year_lost:
  assumes "cal_menu_open c"
  shows "\<exists>c'. run_events (cal_step now) c [TypeYear [], EnterYear] = Some c' \<and> cal_nanYear c' \<and> cal_rows c' = [] \<and> cal_menu_open c'"
proof -
  have "numeric_string []" "parse_int_auto [] = None" by code_simp+
  then show ?thesis using assms by (auto simp: cal_step_def menu_commit_def show_calendar_lost cal_lost_def Let_def)
qed

lemma lost_year_stays:
  assumes "cal_nanYear c" "e \<in> {PrevMonth, NextMonth, PrevYear, NextYear}"
  shows "\<exists>c'. cal_step now c e = Some c' \<and> cal_nanYear c' \<and> cal_rows c' = []"
proof -
  have "cal_lost (move_month k c)" "cal_lost (c\<lparr>cal_year := y\<rparr>)" for k y
    using assms(1) by (simp_all add: cal_lost_def)
  then show ?thesis using assms by (auto simp: cal_step_def nav_year_def nav_month_def show_calendar_lost Let_def)
qed

lemma move_month_index:
  "\<bar>k\<bar> \<le> 1 \<Longrightarrow> 1 \<le> cal_month c \<Longrightarrow> cal_month c \<le> 12 \<Longrightarrow>
   12 * cal_year (move_month k c) + cal_month (move_month k c) = 12 * cal_year c + cal_month c + k"
  by (auto simp: move_month_def Let_def)

lemma nav_month_index:
  "\<bar>k\<bar> \<le> 1 \<Longrightarrow> 1 \<le> cal_month c \<Longrightarrow> cal_month c \<le> 12 \<Longrightarrow>
   12 * cal_year (nav_month now k c) + cal_month (nav_month now k c) = 12 * cal_year c + cal_month c + k
   \<and> 1 \<le> cal_month (nav_month now k c) \<and> cal_month (nav_month now k c) \<le> 12"
  using move_month_index [of k c] move_month_range [of c k] by (simp add: nav_month_def Let_def)

lemma month_index_unique:
  "12 * y + m = 12 * y' + (m' :: int) \<Longrightarrow> 1 \<le> m \<Longrightarrow> m \<le> 12 \<Longrightarrow> 1 \<le> m' \<Longrightarrow> m' \<le> 12 \<Longrightarrow> y = y' \<and> m = m'"
  by presburger

lemma run_month_steps:
  assumes "e = NextMonth \<and> k = 1 \<or> e = PrevMonth \<and> k = - 1" and "1 \<le> cal_month c" "cal_month c \<le> 12"
  shows "\<exists>c'. run_events (cal_step now) c (replicate n e) = Some c' \<and>
    12 * cal_year c' + cal_month c' = 12 * cal_year c + cal_month c + int n * k \<and> 1 \<le> cal_month c' \<and> cal_month c' \<le> 12"
  using assms(2,3)
proof (induction n arbitrary: c)
  case (Suc n)
  have k: "\<bar>k\<bar> \<le> 1" "cal_step now c e = Some (nav_month now k c)"
    using assms(1) by (auto simp: cal_step_def)
  from nav_month_index [OF k(1) Suc.prems, of now] Suc.IH [of "nav_month now k c"] show ?case
    by (auto simp: k(2) algebra_simps)
qed auto

text \<open>
  Stepping \<open>n\<close> months forward and \<open>n\<close> months back shows the year and month it started
  from, for every \<open>n\<close>, across year ends.
\<close>

theorem months_forth_and_back:
  assumes "1 \<le> cal_month c" "cal_month c \<le> 12"
  shows "\<exists>c'. run_events (cal_step now) c (replicate n NextMonth @ replicate n PrevMonth) = Some c' \<and>
    cal_year c' = cal_year c \<and> cal_month c' = cal_month c"
proof -
  obtain c1 where c1: "run_events (cal_step now) c (replicate n NextMonth) = Some c1"
    "12 * cal_year c1 + cal_month c1 = 12 * cal_year c + cal_month c + int n" "1 \<le> cal_month c1" "cal_month c1 \<le> 12"
    using run_month_steps [of NextMonth 1 c now n] assms by auto
  obtain c2 where c2: "run_events (cal_step now) c1 (replicate n PrevMonth) = Some c2"
    "12 * cal_year c2 + cal_month c2 = 12 * cal_year c1 + cal_month c1 - int n" "1 \<le> cal_month c2" "cal_month c2 \<le> 12"
    using run_month_steps [of PrevMonth "- 1" c1 now n] c1 by auto
  have "cal_year c2 = cal_year c \<and> cal_month c2 = cal_month c"
    by (rule month_index_unique) (use c1 c2 assms in auto)
  then show ?thesis using c1(1) c2(1) by (simp add: run_events_append)
qed

theorem months_forth_and_back_witness:
  "\<exists>c'. run_events (cal_step (JsDate 0)) ((default_calendar (JsDate 0))\<lparr>cal_year := 2015, cal_month := 11\<rparr>)
      (replicate 3 NextMonth @ replicate 3 PrevMonth) = Some c' \<and> cal_year c' = 2015 \<and> cal_month c' = 11"
  using months_forth_and_back [of "(default_calendar (JsDate 0))\<lparr>cal_year := 2015, cal_month := 11\<rparr>" "JsDate 0" 3]
  by simp

end
