(* ===== verification/TextBox.thy ===== *)
theory TextBox
  imports JsPrelude "HOL-Library.Multiset" "HOL-Library.List_Lexorder" "HOL-Library.Char_ord"
begin

text \<open>
  \<open>plugins/jquery.textbox.js\<close> and \<open>plugins/jquery.combo.js\<close>: the text field under every
  form widget, and the field with a drop-down panel built on it. A text field has a visible
  input (its text, with a prompt shown when it is empty and not focused) and hidden inputs
  that are submitted with the form. The operations are defined on record schemes, so that the
  widgets built on them extend the state.
\<close>

section \<open>Text fields\<close>

datatype field_note = TextChange string string | ValueChange "string option" "string option"
  | ValuesChange "string list" "string list" | ShowPanel | HidePanel | Query string

record textbox =
  tb_value :: string
  tb_text :: string
  tb_hidden :: "string list"
  tb_element :: string
  tb_original :: string
  tb_prompt :: string
  tb_prompted :: bool
  tb_focus :: bool
  tb_focused :: bool
  tb_disabled :: bool
  tb_readonly :: bool
  tb_editable :: bool
  tb_log :: "field_note list"

text \<open>The field \<open>_1\<close> creates: one hidden input, everything empty.\<close>

definition new_textbox :: "string \<Rightarrow> string \<Rightarrow> textbox" where
  "new_textbox original prompt =
     \<lparr>tb_value = [], tb_text = [], tb_hidden = [[]], tb_element = [], tb_original = original, tb_prompt = prompt,
      tb_prompted = False, tb_focus = False, tb_focused = False, tb_disabled = False, tb_readonly = False,
      tb_editable = True, tb_log = []\<rparr>"

definition field_note :: "field_note \<Rightarrow> 'a textbox_scheme \<Rightarrow> 'a textbox_scheme" where
  "field_note n t = t\<lparr>tb_log := tb_log t @ [n]\<rparr>"

definition get_text :: "'a textbox_scheme \<Rightarrow> string" where
  "get_text t = (if tb_focus t then tb_text t else tb_value t)"

definition get_value :: "'a textbox_scheme \<Rightarrow> string option" where
  "get_value t = (case tb_hidden t of [] \<Rightarrow> None | v # vs \<Rightarrow> Some v)"

definition set_text :: "string \<Rightarrow> 'a textbox_scheme \<Rightarrow> 'a textbox_scheme" where
  "set_text s t =
     (let t = (if get_text t \<noteq> s then t\<lparr>tb_value := s, tb_text := s\<rparr> else t)
      in if \<not> tb_focus t
         then (if s \<noteq> [] then t\<lparr>tb_prompted := False\<rparr> else t\<lparr>tb_text := tb_prompt t, tb_prompted := True\<rparr>)
         else t)"

text \<open>\<open>initValue\<close> writes all hidden inputs, \<open>setValue\<close> also reports a change.\<close>

definition init_value :: "string \<Rightarrow> 'a textbox_scheme \<Rightarrow> 'a textbox_scheme" where
  "init_value v t =
     (let t = set_text v (t\<lparr>tb_value := []\<rparr>)
      in t\<lparr>tb_hidden := map (\<lambda>h. v) (tb_hidden t), tb_element := v\<rparr>)"

definition set_value :: "string \<Rightarrow> 'a textbox_scheme \<Rightarrow> 'a textbox_scheme" where
  "set_value v t =
     (let old = get_value t; t = init_value v t
      in if old \<noteq> Some v then field_note (TextChange v (case old of None \<Rightarrow> [] | Some w \<Rightarrow> w)) t else t)"

definition clear_text :: "'a textbox_scheme \<Rightarrow> 'a textbox_scheme" where
  "clear_text t = set_value [] t"

definition reset_text :: "'a textbox_scheme \<Rightarrow> 'a textbox_scheme" where
  "reset_text t = set_value (tb_original t) t"

text \<open>
  \<open>_a\<close> and \<open>_b\<close>: a disabled or read-only field has no focus, blur and input handlers
  (\<open>_20\<close>); a read-only or not editable one does not take typed text.
\<close>

definition set_disabled_field :: "bool \<Rightarrow> 'a textbox_scheme \<Rightarrow> 'a textbox_scheme" where
  "set_disabled_field b t = t\<lparr>tb_disabled := b\<rparr>"

definition set_readonly :: "bool \<Rightarrow> 'a textbox_scheme \<Rightarrow> 'a textbox_scheme" where
  "set_readonly b t = t\<lparr>tb_readonly := b\<rparr>"

definition handlers_bound :: "'a textbox_scheme \<Rightarrow> bool" where
  "handlers_bound t = (\<not> tb_disabled t \<and> \<not> tb_readonly t)"

text \<open>The handlers \<open>focus.textbox\<close> and \<open>blur.textbox\<close>\<close>

definition focus_in :: "'a textbox_scheme \<Rightarrow> 'a textbox_scheme" where
  "focus_in t =
     (let t = t\<lparr>tb_focus := True\<rparr>
      in if handlers_bound t \<and> \<not> tb_focused t
         then (if tb_text t \<noteq> tb_value t then t\<lparr>tb_text := tb_value t\<rparr> else t)\<lparr>tb_prompted := False, tb_focused := True\<rparr>
         else t)"

definition blur_text :: "'a textbox_scheme \<Rightarrow> 'a textbox_scheme" where
  "blur_text t =
     (if tb_focused t
      then (let t = t\<lparr>tb_value := tb_text t\<rparr>
            in (if tb_value t = [] then t\<lparr>tb_text := tb_prompt t, tb_prompted := True\<rparr> else t\<lparr>tb_prompted := False\<rparr>)
               \<lparr>tb_focused := False\<rparr>)
      else t)"

text \<open>The default \<open>inputEvents\<close>: on blur and on Enter the text becomes the value.\<close>

definition focus_out :: "'a textbox_scheme \<Rightarrow> 'a textbox_scheme" where
  "focus_out t =
     (let t = t\<lparr>tb_focus := False\<rparr>
      in if handlers_bound t then (let t = blur_text t in set_value (tb_value t) t) else t)"

definition press_enter :: "'a textbox_scheme \<Rightarrow> 'a textbox_scheme" where
  "press_enter t = (if tb_focus t \<and> handlers_bound t then set_value (get_text t) t else t)"

definition type_text :: "string \<Rightarrow> 'a textbox_scheme \<Rightarrow> 'a textbox_scheme" where
  "type_text s t = (if tb_focus t \<and> handlers_bound t \<and> tb_editable t then t\<lparr>tb_text := s\<rparr> else t)"

datatype tb_event = Focus | Blur | Enter | Type string | SetValue string | SetText string | Clear | Reset

text \<open>Focus comes to a field that has none, blur to one that has it.\<close>

definition tb_step :: "textbox \<Rightarrow> tb_event \<Rightarrow> textbox" where
  "tb_step t e =
     (case e of
        Focus \<Rightarrow> if tb_focus t \<or> tb_disabled t then t else focus_in t
      | Blur \<Rightarrow> if tb_focus t then focus_out t else t
      | Enter \<Rightarrow> press_enter t
      | Type s \<Rightarrow> type_text s t
      | SetValue v \<Rightarrow> set_value v t
      | SetText s \<Rightarrow> set_text s t
      | Clear \<Rightarrow> clear_text t
      | Reset \<Rightarrow> reset_text t)"

section \<open>Fields with a drop-down panel\<close>

record combo = textbox +
  cb_previous :: string
  cb_panel :: bool
  cb_multiple :: bool
  cb_separator :: string
  cb_originals :: "string list"
  cb_timer :: bool

definition combo_of :: "textbox \<Rightarrow> bool \<Rightarrow> combo" where
  "combo_of t multiple = textbox.extend t
     (combo.fields [] False multiple '','' [tb_original t] False)"

text \<open>\<open>_29\<close>\<close>

definition combo_set_text :: "string \<Rightarrow> 'a combo_scheme \<Rightarrow> 'a combo_scheme" where
  "combo_set_text s c = (if get_text c \<noteq> s then (set_text s c)\<lparr>cb_previous := s\<rparr> else c)"

text \<open>
  \<open>_32\<close>: the hidden inputs are replaced; a change is reported when the sorted lists of old
  and new values differ.
\<close>

definition values_differ :: "string list \<Rightarrow> string list \<Rightarrow> bool" where
  "values_differ old new = (length old \<noteq> length new \<or> list_ex (\<lambda>p. fst p \<noteq> snd p) (zip (sort old) (sort new)))"

definition first_of :: "string list \<Rightarrow> string option" where
  "first_of vs = (case vs of [] \<Rightarrow> None | v # _ \<Rightarrow> Some v)"

definition set_values :: "string list \<Rightarrow> 'a combo_scheme \<Rightarrow> 'a combo_scheme" where
  "set_values vs c =
     (let old = tb_hidden c; c = c\<lparr>tb_hidden := vs\<rparr>
      in if values_differ old vs
         then field_note (if cb_multiple c then ValuesChange vs old else ValueChange (first_of vs) (first_of old)) c
         else c)"

definition set_values_text :: "string \<Rightarrow> 'a combo_scheme \<Rightarrow> 'a combo_scheme" where
  "set_values_text s c = set_values (js_split (cb_separator c) s) c"

definition combo_set_value :: "string \<Rightarrow> 'a combo_scheme \<Rightarrow> 'a combo_scheme" where
  "combo_set_value v c = set_values [v] c"

definition combo_clear :: "'a combo_scheme \<Rightarrow> 'a combo_scheme" where
  "combo_clear c = (let c = set_text [] c in if cb_multiple c then set_values [] c else combo_set_value [] c)"

definition combo_reset :: "'a combo_scheme \<Rightarrow> 'a combo_scheme" where
  "combo_reset c =
     (if cb_multiple c then set_values (cb_originals c) c else combo_set_value (tb_original c) c)"

definition show_panel :: "'a combo_scheme \<Rightarrow> 'a combo_scheme" where
  "show_panel c = (if cb_panel c then c else field_note ShowPanel (c\<lparr>cb_panel := True\<rparr>))"

definition hide_panel :: "'a combo_scheme \<Rightarrow> 'a combo_scheme" where
  "hide_panel c = (if cb_panel c then field_note HidePanel (c\<lparr>cb_panel := False\<rparr>) else c)"

text \<open>\<open>_f\<close>, the arrow\<close>

definition toggle_panel :: "'a combo_scheme \<Rightarrow> 'a combo_scheme" where
  "toggle_panel c = (let c = (if cb_panel c then hide_panel c else show_panel c) in if tb_focus c then c else focus_in c)"

text \<open>
  \<open>_19\<close>: a key that edits the text starts the query timer; when it fires, a text that differs
  from the last one opens the panel and is handed to the query handler.
\<close>

definition edit_key :: "'a combo_scheme \<Rightarrow> 'a combo_scheme" where
  "edit_key c = (if handlers_bound c \<and> tb_editable c then c\<lparr>cb_timer := True\<rparr> else c)"

definition fire_query :: "(string \<Rightarrow> 'a combo_scheme \<Rightarrow> 'a combo_scheme) \<Rightarrow> 'a combo_scheme \<Rightarrow> 'a combo_scheme" where
  "fire_query query c =
     (if cb_timer c
      then (let q = get_text c; c = c\<lparr>cb_timer := False\<rparr>
            in if cb_previous c \<noteq> q
               then query q (field_note (Query q) (show_panel (c\<lparr>cb_previous := q\<rparr>))) else c)
      else c)"

section \<open>Text fields in use\<close>

text \<open>
  \<open>tb_ok\<close>: the mark \<open>textbox-focused\<close> follows the focus, and a field without focus shows
  its value, or the prompt when the value is empty.
\<close>

definition tb_ok :: "textbox \<Rightarrow> bool" where
  "tb_ok t = (handlers_bound t \<and> tb_editable t \<and> tb_focused t = tb_focus t \<and> length (tb_hidden t) = 1 \<and>
     (tb_focus t \<or> (tb_text t = (if tb_value t = [] then tb_prompt t else tb_value t) \<and> tb_prompted t = (tb_value t = []))))"

lemma field_note_frame [simp]:
  "tb_value (field_note n t) = tb_value t" "tb_text (field_note n t) = tb_text t" "tb_hidden (field_note n t) = tb_hidden t"
  "tb_focus (field_note n t) = tb_focus t" "tb_focused (field_note n t) = tb_focused t"
  "tb_prompt (field_note n t) = tb_prompt t" "tb_prompted (field_note n t) = tb_prompted t"
  "tb_editable (field_note n t) = tb_editable t" "handlers_bound (field_note n t) = handlers_bound t"
  "tb_log (field_note n t) = tb_log t @ [n]" "get_text (field_note n t) = get_text t"
  by (simp_all add: field_note_def handlers_bound_def get_text_def)

lemma set_text_frame [simp]:
  "tb_hidden (set_text s t) = tb_hidden t" "tb_focus (set_text s t) = tb_focus t" "tb_focused (set_text s t) = tb_focused t"
  "tb_prompt (set_text s t) = tb_prompt t" "tb_editable (set_text s t) = tb_editable t"
  "handlers_bound (set_text s t) = handlers_bound t" "tb_log (set_text s t) = tb_log t" "tb_original (set_text s t) = tb_original t"
  by (simp_all add: set_text_def Let_def handlers_bound_def)

lemma set_text_unfocused:
  "\<not> tb_focus t \<Longrightarrow> tb_value (set_text s t) = s"
  "\<not> tb_focus t \<Longrightarrow> tb_prompted (set_text s t) = (s = [])"
  "\<not> tb_focus t \<Longrightarrow> (tb_value t \<noteq> [] \<Longrightarrow> tb_text t = tb_value t) \<Longrightarrow>
     tb_text (set_text s t) = (if s = [] then tb_prompt t else s)"
  by (auto simp: set_text_def Let_def get_text_def)

lemma init_value_frame [simp]:
  "tb_hidden (init_value v t) = map (\<lambda>h. v) (tb_hidden t)" "tb_focus (init_value v t) = tb_focus t"
  "tb_focused (init_value v t) = tb_focused t" "tb_prompt (init_value v t) = tb_prompt t"
  "tb_editable (init_value v t) = tb_editable t" "handlers_bound (init_value v t) = handlers_bound t"
  "tb_log (init_value v t) = tb_log t"
  by (simp_all add: init_value_def Let_def) (simp_all add: handlers_bound_def set_text_def Let_def)

lemma init_value_unfocused:
  assumes "\<not> tb_focus t"
  shows "tb_value (init_value v t) = v \<and> tb_text (init_value v t) = (if v = [] then tb_prompt t else v) \<and>
    tb_prompted (init_value v t) = (v = [])"
  using assms by (simp add: init_value_def Let_def set_text_def get_text_def)

lemma set_value_cases:
  "set_value v t = init_value v t \<or> (\<exists>n. set_value v t = field_note n (init_value v t))"
  by (auto simp: set_value_def Let_def)

lemma init_value_ok: "tb_ok t \<Longrightarrow> tb_ok (init_value v t)"
  using init_value_unfocused [of t v] by (auto simp: tb_ok_def)

lemma set_value_ok: "tb_ok t \<Longrightarrow> tb_ok (set_value v t)"
  using set_value_cases [of v t] init_value_ok [of t v] by (auto simp: tb_ok_def)

lemma set_text_ok: "tb_ok t \<Longrightarrow> tb_ok (set_text s t)"
  using set_text_unfocused [of t s] by (auto simp: tb_ok_def)

lemma focus_in_ok: "tb_ok t \<Longrightarrow> tb_ok (focus_in t)"
  by (auto simp: tb_ok_def focus_in_def Let_def handlers_bound_def)

lemma blur_text_spec:
  assumes "tb_ok t" "tb_focus t"
  shows "let t' = blur_text (t\<lparr>tb_focus := False\<rparr>) in tb_ok t' \<and> tb_value t' = tb_text t \<and> tb_hidden t' = tb_hidden t \<and>
    tb_prompt t' = tb_prompt t \<and> \<not> tb_focus t'"
  using assms by (auto simp: tb_ok_def blur_text_def Let_def handlers_bound_def)

lemma focus_out_spec:
  assumes "tb_ok t" "tb_focus t"
  shows "tb_ok (focus_out t) \<and> tb_value (focus_out t) = tb_text t \<and> tb_hidden (focus_out t) = [tb_text t] \<and> \<not> tb_focus (focus_out t) \<and>
    tb_prompt (focus_out t) = tb_prompt t"
proof -
  define u where "u = blur_text (t\<lparr>tb_focus := False\<rparr>)"
  have u: "tb_ok u" "tb_value u = tb_text t" "tb_prompt u = tb_prompt t" "\<not> tb_focus u" "length (tb_hidden u) = 1"
    using blur_text_spec [OF assms] assms by (auto simp: u_def Let_def tb_ok_def)
  have f: "focus_out t = set_value (tb_text t) u"
    using assms(1) u(2) by (simp add: focus_out_def Let_def u_def [symmetric] tb_ok_def handlers_bound_def)
  have "tb_value (set_value v u) = v \<and> tb_hidden (set_value v u) = [v] \<and> \<not> tb_focus (set_value v u) \<and>
      tb_prompt (set_value v u) = tb_prompt u" for v
    using set_value_cases [of v u] init_value_unfocused [OF u(4), of v] u(4,5)
    by (cases "tb_hidden u") auto
  with f u set_value_ok [OF u(1)] show ?thesis by simp
qed

lemma type_text_ok: "tb_ok t \<Longrightarrow> tb_ok (type_text s t)"
  by (auto simp: type_text_def tb_ok_def handlers_bound_def)

interpretation textbox: event_machine tb_step tb_ok
  by unfold_locales
    (auto simp: tb_step_def press_enter_def clear_text_def reset_text_def focus_in_ok focus_out_spec set_value_ok
      set_text_ok type_text_ok split: tb_event.split)

text \<open>A field as the widget makes it, ready for use.\<close>

definition start_field :: "string \<Rightarrow> string \<Rightarrow> string \<Rightarrow> textbox" where
  "start_field original prompt v = init_value v (new_textbox original prompt)"

lemma new_textbox_fields [simp]:
  "handlers_bound (new_textbox original prompt)" "tb_editable (new_textbox original prompt)"
  "tb_focus (new_textbox original prompt) = False" "tb_focused (new_textbox original prompt) = False"
  "tb_hidden (new_textbox original prompt) = [[]]"
  by (simp_all add: new_textbox_def handlers_bound_def)

lemma start_field_ok: "tb_ok (start_field original prompt v)"
  using init_value_unfocused [of "new_textbox original prompt" v] by (simp add: start_field_def tb_ok_def)

text \<open>
  C14. Whatever happened to a text field before, a text typed into it is submitted when the user
  leaves the field: the hidden input and the value are the typed text, and the field shows it, or
  the prompt when it is empty.
\<close>

theorem typed_text_submitted:
  "let t = foldl tb_step (start_field original prompt v) (es @ [Focus, Type s, Blur])
   in tb_hidden t = [s] \<and> tb_value t = s \<and> tb_text t = (if s = [] then tb_prompt t else s) \<and> \<not> tb_focus t"
proof -
  define t0 where "t0 = foldl tb_step (start_field original prompt v) es"
  have ok0: "tb_ok t0" unfolding t0_def by (rule textbox.inv_foldl [OF start_field_ok])
  define t1 where "t1 = tb_step t0 Focus"
  have ok1: "tb_ok t1" unfolding t1_def by (rule textbox.inv_step [OF ok0])
  have f1: "tb_focus t1"
    using ok0 by (auto simp: t1_def tb_step_def tb_ok_def handlers_bound_def focus_in_def Let_def)
  define t2 where "t2 = tb_step t1 (Type s)"
  have ok2: "tb_ok t2" unfolding t2_def by (rule textbox.inv_step [OF ok1])
  have t2: "tb_focus t2" "tb_text t2 = s"
    using ok1 f1 by (simp_all add: t2_def tb_step_def type_text_def tb_ok_def)
  have "tb_step t2 Blur = focus_out t2" using t2(1) by (simp add: tb_step_def)
  moreover have "tb_ok (focus_out t2)" "\<not> tb_focus (focus_out t2)" "tb_value (focus_out t2) = s" "tb_hidden (focus_out t2) = [s]"
    using focus_out_spec [OF ok2 t2(1)] t2(2) by simp_all
  ultimately show ?thesis
    by (simp add: Let_def t0_def [symmetric] t1_def [symmetric] t2_def [symmetric] tb_ok_def)
qed

section \<open>Combo values\<close>

lemma list_ex_zip_differ:
  "length xs = length ys \<Longrightarrow> list_ex (\<lambda>p. fst p \<noteq> snd p) (zip xs ys) \<longleftrightarrow> xs \<noteq> ys"
  by (induction xs ys rule: list_induct2) auto

lemma sort_eq_iff_mset: "sort xs = sort (ys :: 'a :: linorder list) \<longleftrightarrow> mset xs = mset ys"
  by (metis mset_sort properties_for_sort sorted_sort)

lemma values_differ_iff: "values_differ old new \<longleftrightarrow> mset old \<noteq> mset new"
proof (cases "length old = length new")
  case True
  then have "length (sort old) = length (sort new)" by simp
  from list_ex_zip_differ [OF this] True show ?thesis
    by (simp add: values_differ_def sort_eq_iff_mset)
next
  case False
  then have "mset old \<noteq> mset new" using mset_eq_length by blast
  with False show ?thesis by (simp add: values_differ_def)
qed

lemma set_values_frame [simp]:
  "tb_hidden (set_values vs c) = vs" "get_text (set_values vs c) = get_text c" "cb_panel (set_values vs c) = cb_panel c"
  by (simp_all add: set_values_def Let_def get_text_def) (simp_all add: field_note_def)

text \<open>
  Setting the values of a combo makes them the submitted values, leaves text and panel
  alone, and reports exactly one change if old and new values differ as multisets, none otherwise.
\<close>

theorem set_values_reports_changes:
  "tb_hidden (set_values vs c) = vs \<and> get_text (set_values vs c) = get_text c \<and> cb_panel (set_values vs c) = cb_panel c \<and>
   length (tb_log (set_values vs c)) = length (tb_log c) + (if mset vs = mset (tb_hidden c) then 0 else 1)"
proof -
  have "length (tb_log (set_values vs c)) = length (tb_log c) + (if mset vs = mset (tb_hidden c) then 0 else 1)"
    by (auto simp: set_values_def Let_def values_differ_iff)
  then show ?thesis by simp
qed

end
