(* ===== verification/DateFields.thy ===== *)
theory DateFields
  imports Calendar TextBox
begin

text \<open>
  The date and time fields: \<open>plugins/jquery.datebox.js\<close>, \<open>jquery.timespinner.js\<close>,
  \<open>jquery.datetimespinner.js\<close> and \<open>jquery.datetimebox.js\<close> with \<open>jquery.spinner.js\<close>. Their
  default formatters and parsers, the clamping to \<open>min\<close> and \<open>max\<close>, the spinning of a part
  of a time, and the date box as a machine over its calendar and its combo.
\<close>

section \<open>Formats\<close>

text \<open>\<open>parseInt(ss[i],10)\<close>: an index out of range reads as NaN.\<close>

definition int_field :: "string list \<Rightarrow> nat \<Rightarrow> int option" where
  "int_field ss i = (if i < length ss then parse_int (ss ! i) else None)"

definition date_format :: "jsdate \<Rightarrow> string" where
  "date_format t = js_join ''/'' [pad2 (getMonth t + 1), pad2 (getDate t), show_int (getFullYear t)]"

definition date_parse :: "jsdate \<Rightarrow> string \<Rightarrow> jsdate" where
  "date_parse now s =
     (if s = [] then now
      else let ss = js_split ''/'' s
           in case (int_field ss 2, int_field ss 0, int_field ss 1) of
                (Some y, Some m, Some d) \<Rightarrow> new_date y (m - 1) d
              | _ \<Rightarrow> now)"

text \<open>The options of a time field. An empty \<open>min\<close> or \<open>max\<close> stands for null.\<close>

record time_opts =
  to_separator :: string
  to_showSeconds :: bool
  to_min :: string
  to_max :: string
  to_increment :: int
  to_highlight :: nat
  to_selections :: "(nat \<times> nat) list"

definition default_time_opts :: time_opts where
  "default_time_opts = \<lparr>to_separator = '':'', to_showSeconds = False, to_min = [], to_max = [], to_increment = 1,
     to_highlight = 0, to_selections = [(0, 2), (3, 5), (6, 8)]\<rparr>"

definition time_format :: "time_opts \<Rightarrow> jsdate option \<Rightarrow> string" where
  "time_format opt v = (case v of None \<Rightarrow> []
     | Some t \<Rightarrow> js_join (to_separator opt)
         ([pad2 (getHours t), pad2 (getMinutes t)] @ (if to_showSeconds opt then [pad2 (getSeconds t)] else [])))"

text \<open>The inner function \<open>_32\<close> of the parser\<close>

definition raw_time :: "time_opts \<Rightarrow> string \<Rightarrow> jsdate option" where
  "raw_time opt s =
     (if s = [] then None
      else let tt = js_split (to_separator opt) s
           in Some (new_datetime 1900 0 0 (or_default (int_field tt 0) 0) (or_default (int_field tt 1) 0)
                (or_default (int_field tt 2) 0)))"

definition time_parse :: "time_opts \<Rightarrow> string \<Rightarrow> jsdate option" where
  "time_parse opt s =
     (case raw_time opt s of
        None \<Rightarrow> None
      | Some t \<Rightarrow>
          let t1 = (case raw_time opt (to_min opt) of Some m \<Rightarrow> if m > t then m else t | None \<Rightarrow> t)
          in Some (case raw_time opt (to_max opt) of Some m \<Rightarrow> if m < t1 then m else t1 | None \<Rightarrow> t1))"

text \<open>The date-time spinner; its parser throws (outer \<open>None\<close>) when the time part is empty.\<close>

definition datetime_format :: "time_opts \<Rightarrow> jsdate option \<Rightarrow> string" where
  "datetime_format opt v = (case v of None \<Rightarrow> [] | Some t \<Rightarrow> date_format t @ '' '' @ time_format opt (Some t))"

definition datetime_parse :: "jsdate \<Rightarrow> time_opts \<Rightarrow> string \<Rightarrow> jsdate option option" where
  "datetime_parse now opt s0 =
     (let s = js_trim s0
      in if s = [] then Some None
         else let dt = js_split '' '' s; b = date_parse now (dt ! 0)
              in if length dt < 2 then Some (Some b)
                 else (case time_parse opt (dt ! 1) of
                         None \<Rightarrow> None
                       | Some c \<Rightarrow> Some (Some (new_datetime (getFullYear b) (getMonth b) (getDate b)
                           (getHours c) (getMinutes c) (getSeconds c)))))"

text \<open>The date-time box. \<open>sep\<close> is the separator of its time spinner.\<close>

definition dtbox_format :: "string \<Rightarrow> bool \<Rightarrow> jsdate \<Rightarrow> string" where
  "dtbox_format sep secs t =
     date_format t @ '' '' @ pad2 (getHours t) @ sep @ pad2 (getMinutes t) @ (if secs then sep @ pad2 (getSeconds t) else [])"

definition dtbox_parse :: "jsdate \<Rightarrow> string \<Rightarrow> string \<Rightarrow> jsdate" where
  "dtbox_parse now sep s =
     (if js_trim s = [] then now
      else let dt = js_split '' '' s; d = date_parse now (dt ! 0)
           in if length dt < 2 then d
              else let tt = js_split sep (dt ! 1)
                   in new_datetime (getFullYear d) (getMonth d) (getDate d) (or_default (int_field tt 0) 0)
                        (or_default (int_field tt 1) 0) (or_default (int_field tt 2) 0))"

section \<open>The time spinner\<close>

record time_field = textbox +
  ts_opts :: time_opts

definition time_set_value :: "string \<Rightarrow> time_field \<Rightarrow> time_field" where
  "time_set_value v f = set_value (time_format (ts_opts f) (time_parse (ts_opts f) v)) f"

text \<open>\<open>_a\<close>: the first value\<close>

definition time_init :: "string \<Rightarrow> time_field \<Rightarrow> time_field" where
  "time_init v f = init_value (time_format (ts_opts f) (time_parse (ts_opts f) v)) f"

text \<open>The text \<open>_1d\<close> builds: the highlighted part plus or minus the increment.\<close>

definition spun_text :: "nat \<times> nat \<Rightarrow> int \<Rightarrow> string \<Rightarrow> string" where
  "spun_text sel k s =
     take (fst sel) s @ show_int (or_default (parse_int_auto (drop (fst sel) (take (snd sel) s))) 0 + k) @ drop (snd sel) s"

definition time_spin :: "bool \<Rightarrow> time_field \<Rightarrow> time_field option" where
  "time_spin down f =
     (if to_highlight (ts_opts f) < length (to_selections (ts_opts f))
      then (case get_value f of
              None \<Rightarrow> None
            | Some s \<Rightarrow>
                let f' = time_set_value (spun_text (to_selections (ts_opts f) ! to_highlight (ts_opts f))
                     (to_increment (ts_opts f) * (if down then - 1 else 1)) s) f
                in Some (if tb_focus f' then f' else focus_in f'))
      else None)"

text \<open>\<open>_e\<close>: a click at caret position \<open>k\<close> highlights the part it is in.\<close>

definition time_click :: "nat \<Rightarrow> time_field \<Rightarrow> time_field" where
  "time_click k f =
     (case find_index (\<lambda>sel. fst sel \<le> k \<and> k \<le> snd sel) (to_selections (ts_opts f)) of
        None \<Rightarrow> f | Some i \<Rightarrow> f\<lparr>ts_opts := (ts_opts f)\<lparr>to_highlight := i\<rparr>\<rparr>)"

text \<open>Blur and Enter read the text back through the parser.\<close>

definition time_commit :: "time_field \<Rightarrow> time_field" where
  "time_commit f = time_set_value (get_text f) f"

definition time_hours :: "time_field \<Rightarrow> int option" where
  "time_hours f = Option.bind (get_value f) (\<lambda>s. int_field (js_split (to_separator (ts_opts f)) s) 0)"

definition time_minutes :: "time_field \<Rightarrow> int option" where
  "time_minutes f = Option.bind (get_value f) (\<lambda>s. int_field (js_split (to_separator (ts_opts f)) s) 1)"

definition time_seconds :: "time_field \<Rightarrow> int option" where
  "time_seconds f = map_option (\<lambda>s. or_default (int_field (js_split (to_separator (ts_opts f)) s) 2) 0) (get_value f)"

section \<open>The date box\<close>

record datebox = combo +
  db_cal :: calendar
  db_formatter :: "jsdate \<Rightarrow> string"
  db_parser :: "jsdate \<Rightarrow> string \<Rightarrow> jsdate"

text \<open>
  \<open>_18\<close>: move the calendar to the parsed date; then either keep the text as it is
  (\<open>remain\<close>) or write the calendar's current date. The formatter throws on null.
\<close>

definition db_write :: "string \<Rightarrow> datebox \<Rightarrow> datebox" where
  "db_write v d = combo_set_value v (combo_set_text v d)"

definition db_set :: "jsdate \<Rightarrow> string \<Rightarrow> bool \<Rightarrow> datebox \<Rightarrow> datebox option" where
  "db_set now v remain d =
     (let d = d\<lparr>db_cal := moveTo now (Some (db_parser d now v)) (db_cal d)\<rparr>
      in if remain then Some (combo_set_value v d)
         else if v = [] then Some (db_write v d)
         else (case cal_current (db_cal d) of None \<Rightarrow> None | Some t \<Rightarrow> Some (db_write (db_formatter d t) d)))"

text \<open>\<open>_19\<close>, \<open>initValue\<close>, \<open>reset\<close>, the Today button and the pick of a day\<close>

definition db_enter :: "jsdate \<Rightarrow> datebox \<Rightarrow> datebox option" where
  "db_enter now d =
     (case cal_current (db_cal d) of
        None \<Rightarrow> Some d
      | Some t \<Rightarrow> map_option hide_panel (db_set now (db_formatter d t) False d))"

definition db_init :: "jsdate \<Rightarrow> string \<Rightarrow> datebox \<Rightarrow> datebox" where
  "db_init now v d =
     (let w = (if v = [] then v else db_formatter d (db_parser d now v))
      in combo_set_text w (init_value w d))"

definition db_reset :: "jsdate \<Rightarrow> datebox \<Rightarrow> datebox option" where
  "db_reset now d = db_set now (tb_original d) False d"

definition db_today :: "jsdate \<Rightarrow> datebox \<Rightarrow> datebox option" where
  "db_today now d =
     db_enter now (d\<lparr>db_cal := reinit now (getFullYear now) (getMonth now + 1)
       (Some (new_date (getFullYear now) (getMonth now) (getDate now))) (db_cal d)\<rparr>)"

text \<open>
  A click on a cell of the calendar: its \<open>onSelect\<close>, which the click handler calls between
  taking the day and navigating, writes the day and closes the panel.
\<close>

definition db_pick :: "jsdate \<Rightarrow> nat \<Rightarrow> nat \<Rightarrow> datebox \<Rightarrow> datebox option" where
  "db_pick now r k d =
     (case begin_click r k (db_cal d) of
        None \<Rightarrow> None
      | Some None \<Rightarrow> Some d
      | Some (Some (c1, day)) \<Rightarrow>
          (case db_set now (db_formatter d (civil_date day)) False (d\<lparr>db_cal := c1\<rparr>) of
             None \<Rightarrow> None
           | Some d1 \<Rightarrow> map_option (\<lambda>c. (hide_panel d1)\<lparr>db_cal := c\<rparr>)
               (finish_click now (cal_current (db_cal d)) day (db_cal d1))))"

text \<open>Opening the panel moves the calendar to the text and takes the text as the value.\<close>

definition db_show :: "jsdate \<Rightarrow> datebox \<Rightarrow> datebox option" where
  "db_show now d = (if cb_panel d then Some d else db_set now (get_text d) True (show_panel d))"

datatype db_event = DbSet string | DbEnter | DbToday | DbPick nat nat | DbQuery string | DbShow | DbClose | DbReset
  | DbMonth int

definition db_step :: "jsdate \<Rightarrow> datebox \<Rightarrow> db_event \<Rightarrow> datebox option" where
  "db_step now d e =
     (case e of
        DbSet v \<Rightarrow> db_set now v False d
      | DbEnter \<Rightarrow> db_enter now d
      | DbToday \<Rightarrow> db_today now d
      | DbPick r k \<Rightarrow> if cb_panel d then db_pick now r k d else Some d
      | DbQuery q \<Rightarrow> db_set now q True d
      | DbShow \<Rightarrow> db_show now d
      | DbClose \<Rightarrow> Some (hide_panel d)
      | DbReset \<Rightarrow> db_reset now d
      | DbMonth k \<Rightarrow> Some (d\<lparr>db_cal := nav_month now (if k < 0 then - 1 else 1) (db_cal d)\<rparr>))"

section \<open>The date-time box\<close>

record datetimebox = datebox +
  dt_spinner :: time_field
  dt_secs :: bool

definition dtb_separator :: "datetimebox \<Rightarrow> string" where
  "dtb_separator d = to_separator (ts_opts (dt_spinner d))"

text \<open>The inner function \<open>_17\<close>: the time part in the format of the spinner\<close>

definition dtb_time :: "datetimebox \<Rightarrow> jsdate \<Rightarrow> string" where
  "dtb_time d t = js_join (dtb_separator d)
     ([pad2 (getHours t), pad2 (getMinutes t)] @ (if dt_secs d then [pad2 (getSeconds t)] else []))"

text \<open>\<open>_d\<close>: value and text, then the calendar and the spinner\<close>

definition dtb_set :: "jsdate \<Rightarrow> string \<Rightarrow> bool \<Rightarrow> datetimebox \<Rightarrow> datetimebox" where
  "dtb_set now v remain d0 =
     (let d1 = combo_set_value v d0;
          sep = dtb_separator d0;
          t = dtbox_parse now sep v;
          w = dtbox_format sep (dt_secs d0) t;
          d2 = (if remain then d1 else if v \<noteq> [] then combo_set_value w (combo_set_text w d1) else combo_set_text v d1)
      in d2\<lparr>db_cal := moveTo now (Some t) (db_cal d2), dt_spinner := time_set_value (dtb_time d2 t) (dt_spinner d2)\<rparr>)"

text \<open>
  \<open>_8\<close>: the day of the calendar at the time of the spinner. No result without a current day
  (the code throws) or when the spinner is empty (the date is invalid).
\<close>

definition dtb_value :: "datetimebox \<Rightarrow> jsdate option" where
  "dtb_value d =
     (case (cal_current (db_cal d), time_hours (dt_spinner d), time_minutes (dt_spinner d), time_seconds (dt_spinner d)) of
        (Some t, Some h, Some m, Some s) \<Rightarrow> Some (new_datetime (getFullYear t) (getMonth t) (getDate t) h m s)
      | _ \<Rightarrow> None)"

text \<open>\<open>_e\<close> (Enter and the Ok button), the Today button, and the opening of the panel\<close>

definition dtb_enter :: "jsdate \<Rightarrow> datetimebox \<Rightarrow> datetimebox option" where
  "dtb_enter now d =
     map_option (\<lambda>t. hide_panel (dtb_set now (dtbox_format (dtb_separator d) (dt_secs d) t) False d)) (dtb_value d)"

definition dtb_today :: "jsdate \<Rightarrow> datetimebox \<Rightarrow> datetimebox" where
  "dtb_today now d = hide_panel (dtb_set now (dtbox_format (dtb_separator d) (dt_secs d) now) False d)"

definition dtb_show :: "jsdate \<Rightarrow> datetimebox \<Rightarrow> datetimebox" where
  "dtb_show now d =
     (if cb_panel d then d
      else dtb_set now (case get_value d of None \<Rightarrow> [] | Some v \<Rightarrow> v) True (show_panel d))"

definition dtb_init :: "jsdate \<Rightarrow> string \<Rightarrow> datetimebox \<Rightarrow> datetimebox" where
  "dtb_init now v d =
     (let w = (if v = [] then v else dtbox_format (dtb_separator d) (dt_secs d) (dtbox_parse now (dtb_separator d) v))
      in combo_set_text w (init_value w d))"

definition dtb_reset :: "jsdate \<Rightarrow> datetimebox \<Rightarrow> datetimebox" where
  "dtb_reset now d = dtb_set now (tb_original d) False d"

section \<open>Round trips\<close>

lemma pad2_chars: "c \<in> set (pad2 i) \<Longrightarrow> is_digit c \<or> c = CHR ''-''"
  using show_int_chars [of c i] by (auto simp: pad2_def is_digit_def split: if_splits)

lemma getDate_bounds: "1 \<le> getDate t \<and> getDate t \<le> 31"
  using mday_of_day_bounds [of "day_of t"] month_len_bounds [of "getMonth t" "getFullYear t"] month_of_day_bounds [of "day_of t"]
  by (auto simp: getDate_def getMonth_def getFullYear_def)

lemma getMonth_bounds: "0 \<le> getMonth t \<and> getMonth t \<le> 11"
  using month_of_day_bounds by (simp add: getMonth_def)

lemma date_format_fields:
  "js_split ''/'' (date_format t) = [pad2 (getMonth t + 1), pad2 (getDate t), show_int (getFullYear t)]"
  unfolding date_format_def
  by (rule js_split_join)
    (auto dest: pad2_chars show_int_chars)

lemma date_parse_format: "date_parse now (date_format t) = new_date (getFullYear t) (getMonth t) (getDate t)"
proof -
  have "date_format t \<noteq> []" by (simp add: date_format_def)
  then show ?thesis
    using date_format_fields [of t] getMonth_bounds [of t] getDate_bounds [of t]
    by (simp add: date_parse_def int_field_def Let_def)
qed

text \<open>\<open>midnight\<close>: a date as the date box can hold it, with a year the Date constructor takes as it is.\<close>

definition plain_year :: "jsdate \<Rightarrow> bool" where
  "plain_year t = (\<not> (0 \<le> getFullYear t \<and> getFullYear t \<le> 99))"

definition midnight :: "jsdate \<Rightarrow> bool" where
  "midnight t = (getTime t mod ms_per_day = 0 \<and> plain_year t)"

definition whole_second :: "jsdate \<Rightarrow> bool" where
  "whole_second t = (getTime t mod 1000 = 0 \<and> plain_year t)"

lemma midnight_whole: "midnight t \<Longrightarrow> whole_second t"
proof -
  assume m: "midnight t"
  have "(1000 :: int) dvd ms_per_day" by simp
  moreover have "ms_per_day dvd getTime t" using m by (simp add: midnight_def dvd_eq_mod_eq_0)
  ultimately have "1000 dvd getTime t" by (rule dvd_trans)
  with m show ?thesis by (simp add: midnight_def whole_second_def dvd_eq_mod_eq_0)
qed

lemma midnight_fields: "midnight t \<Longrightarrow> getHours t = 0 \<and> getMinutes t = 0 \<and> getSeconds t = 0"
proof -
  assume m: "midnight t"
  then have d: "ms_per_day dvd getTime t" by (simp add: midnight_def dvd_eq_mod_eq_0)
  have "(3600000 :: int) dvd ms_per_day" "(60000 :: int) dvd ms_per_day" by simp_all
  then have "3600000 dvd getTime t" "60000 dvd getTime t" using d by (blast intro: dvd_trans)+
  with m show ?thesis by (simp add: getHours_def getMinutes_def getSeconds_def midnight_def dvd_eq_mod_eq_0)
qed

lemma midnight_rebuild: "midnight t \<Longrightarrow> new_date (getFullYear t) (getMonth t) (getDate t) = t"
  using new_datetime_of_fields [of t] midnight_fields [of t] midnight_whole [of t]
  by (simp add: new_date_def whole_second_def plain_year_def)

interpretation date_codec: field_codec date_format "date_parse now" midnight for now
  by unfold_locales (simp add: date_parse_format midnight_rebuild)

text \<open>
  A date the date box shows is read back as that date, whatever today is; the displayed text
  is stable under parsing and formatting.
\<close>

theorem date_roundtrip:
  assumes "midnight t"
  shows "date_parse now (date_format t) = t \<and> date_format (date_parse now (date_format t)) = date_format t"
  using date_codec.round [OF assms, of now] by simp

lemma midnight_new_date:
  assumes "\<not> (0 \<le> y \<and> y \<le> 99)" "0 \<le> m" "m \<le> 11" "1 \<le> d" "d \<le> month_len y m"
  shows "midnight (new_date y m d)"
  using new_date_fields [OF assms] assms(1)
  by (simp add: midnight_def plain_year_def new_date_def new_datetime_def)

theorem date_roundtrip_witness:
  "date_parse (JsDate 0) (date_format (new_date 2016 1 29)) = new_date 2016 1 29"
proof -
  have "midnight (new_date 2016 1 29)"
    by (rule midnight_new_date) (simp_all, code_simp)
  then show ?thesis using date_roundtrip by blast
qed

subsection \<open>Times\<close>

text \<open>A separator that no number starts with.\<close>

definition good_separator :: "string \<Rightarrow> bool" where
  "good_separator sep = (sep \<noteq> [] \<and> \<not> is_digit (hd sep) \<and> hd sep \<noteq> CHR ''-'')"

lemma split_numbers:
  assumes "good_separator sep" "xs \<noteq> []" "\<forall>x \<in> set xs. \<forall>c \<in> set x. is_digit c \<or> c = CHR ''-''"
  shows "js_split sep (js_join sep xs) = xs"
  by (rule js_split_join) (use assms in \<open>auto simp: good_separator_def\<close>)

text \<open>Hours, minutes and seconds given to the constructor may be out of range: they carry over.\<close>

lemma new_datetime_carry:
  assumes "T = 3600 * h + 60 * mi + s"
  shows "new_datetime y m d h mi s =
    new_datetime y m (d + T div 86400) (T mod 86400 div 3600) (T mod 86400 mod 3600 div 60) (T mod 86400 mod 3600 mod 60)"
proof -
  define r where "r = T mod 86400"
  define u where "u = r mod 3600"
  have "T = 86400 * (T div 86400) + r" "r = 3600 * (r div 3600) + u" "u = 60 * (u div 60) + u mod 60"
    unfolding r_def u_def by simp_all
  then have "h * 3600000 + mi * 60000 + s * 1000 =
      T div 86400 * ms_per_day + (r div 3600 * 3600000 + u div 60 * 60000 + u mod 60 * 1000)"
    using assms by linarith
  then show ?thesis
    unfolding new_datetime_def make_day_add r_def [symmetric] u_def [symmetric] by (simp add: algebra_simps)
qed

lemma carry_fields:
  assumes "T = 3600 * h + 60 * mi + s"
  shows "getHours (new_datetime y m d h mi s) = T mod 86400 div 3600"
    and "getMinutes (new_datetime y m d h mi s) = T mod 86400 mod 3600 div 60"
    and "getSeconds (new_datetime y m d h mi s) = T mod 86400 mod 3600 mod 60"
proof -
  define r where "r = T mod 86400"
  define u where "u = r mod 3600"
  have r: "0 \<le> r" "r < 86400" and u: "0 \<le> u" "u < 3600" by (simp_all add: r_def u_def)
  have "0 \<le> r div 3600" "r div 3600 < 24" "0 \<le> u div 60" "u div 60 < 60" "0 \<le> u mod 60" "u mod 60 < 60"
    using r u div_bounds [of 3600 r] div_bounds [of 60 u] by (simp_all add: pos_imp_zdiv_nonneg_iff)
  note f = day_of_new_datetime(2,3,4) [OF this]
  show "getHours (new_datetime y m d h mi s) = T mod 86400 div 3600"
    "getMinutes (new_datetime y m d h mi s) = T mod 86400 mod 3600 div 60"
    "getSeconds (new_datetime y m d h mi s) = T mod 86400 mod 3600 mod 60"
    unfolding new_datetime_carry [OF assms] r_def [symmetric] u_def [symmetric] by (simp_all add: f)
qed

lemma raw_time_numbers:
  assumes "good_separator (to_separator opt)" and "\<forall>c \<in> set a. is_digit c \<or> c = CHR ''-''"
    and "\<forall>c \<in> set b. is_digit c \<or> c = CHR ''-''" and "parse_int a = Some h" "parse_int b = Some mi"
  shows "raw_time opt (a @ to_separator opt @ b) = Some (new_datetime 1900 0 0 h mi 0)"
proof -
  have "js_split (to_separator opt) (js_join (to_separator opt) [a, b]) = [a, b]"
    by (rule split_numbers) (use assms in auto)
  moreover have "a @ to_separator opt @ b \<noteq> []" using assms(1) by (auto simp: good_separator_def)
  ultimately show ?thesis using assms(4,5) by (simp add: raw_time_def int_field_def Let_def or_default_def)
qed

lemma raw_time_numbers3:
  assumes "good_separator (to_separator opt)" and "\<forall>x \<in> {a, b, e}. \<forall>c \<in> set x. is_digit c \<or> c = CHR ''-''"
    and "parse_int a = Some h" "parse_int b = Some mi" "parse_int e = Some s"
  shows "raw_time opt (a @ to_separator opt @ b @ to_separator opt @ e) = Some (new_datetime 1900 0 0 h mi s)"
proof -
  have "js_split (to_separator opt) (js_join (to_separator opt) [a, b, e]) = [a, b, e]"
    by (rule split_numbers) (use assms in auto)
  moreover have "a @ to_separator opt @ b @ to_separator opt @ e \<noteq> []" using assms(1) by (auto simp: good_separator_def)
  ultimately show ?thesis using assms(3-5) by (simp add: raw_time_def int_field_def Let_def or_default_def eval_nat_numeral)
qed

text \<open>The time of day the field keeps of a date, and options without limits.\<close>

definition kept_time :: "time_opts \<Rightarrow> jsdate \<Rightarrow> jsdate" where
  "kept_time opt t = new_datetime 1900 0 0 (getHours t) (getMinutes t) (if to_showSeconds opt then getSeconds t else 0)"

definition unlimited :: "time_opts \<Rightarrow> bool" where
  "unlimited opt = (good_separator (to_separator opt) \<and> to_min opt = [] \<and> to_max opt = [])"

lemma time_fields_nonneg [simp]:
  "0 \<le> getHours t" "0 \<le> getMinutes t" "0 \<le> getSeconds t"
  using getHours_bounds getMinutes_bounds getSeconds_bounds by simp_all

lemma raw_time_format:
  assumes "good_separator (to_separator opt)"
  shows "raw_time opt (time_format opt (Some t)) = Some (kept_time opt t)"
proof (cases "to_showSeconds opt")
  case True
  then show ?thesis
    using raw_time_numbers3 [OF assms, of "pad2 (getHours t)" "pad2 (getMinutes t)" "pad2 (getSeconds t)"] pad2_chars
    by (simp add: time_format_def kept_time_def)
next
  case False
  then show ?thesis
    using raw_time_numbers [OF assms, of "pad2 (getHours t)" "pad2 (getMinutes t)"] pad2_chars
    by (simp add: time_format_def kept_time_def)
qed

lemma time_parse_unlimited: "unlimited opt \<Longrightarrow> time_parse opt s = raw_time opt s"
  by (simp add: time_parse_def unlimited_def raw_time_def [of _ "[]"] split: option.split)

interpretation time_codec: field_codec "time_format opt" "time_parse opt"
  "\<lambda>v. unlimited opt \<and> (case v of None \<Rightarrow> True | Some t \<Rightarrow> kept_time opt t = t)" for opt
proof
  fix v
  assume a: "unlimited opt \<and> (case v of None \<Rightarrow> True | Some t \<Rightarrow> kept_time opt t = t)"
  then show "time_parse opt (time_format opt v) = v"
    using raw_time_format [of opt] by (cases v) (auto simp: time_parse_unlimited unlimited_def time_format_def raw_time_def)
qed

text \<open>
  A time field with limits takes every text that is not empty to a time between them, and
  leaves a time that is between them as it is.
\<close>

theorem time_within_limits:
  assumes "raw_time opt (to_min opt) = Some lo" "raw_time opt (to_max opt) = Some hi" "lo \<le> hi"
    and "raw_time opt s = Some t"
  shows "\<exists>r. time_parse opt s = Some r \<and> lo \<le> r \<and> r \<le> hi \<and> (lo \<le> t \<and> t \<le> hi \<longrightarrow> r = t)"
  using assms by (auto simp: time_parse_def Let_def)

theorem time_within_limits_witness:
  "\<exists>r. time_parse (default_time_opts\<lparr>to_min := ''08:30'', to_max := ''18:00''\<rparr>) ''07:15'' = Some r \<and>
     new_datetime 1900 0 0 8 30 0 \<le> r \<and> r \<le> new_datetime 1900 0 0 18 0 0"
proof -
  let ?o = "default_time_opts\<lparr>to_min := ''08:30'', to_max := ''18:00''\<rparr>"
  have r: "raw_time ?o (to_min ?o) = Some (new_datetime 1900 0 0 8 30 0)"
    "raw_time ?o (to_max ?o) = Some (new_datetime 1900 0 0 18 0 0)"
    "raw_time ?o ''07:15'' = Some (new_datetime 1900 0 0 7 15 0)"
    by (simp_all add: raw_time_def default_time_opts_def js_split_def int_field_def parse_int_def split_sign_def
        is_space_def is_digit_def digits_value_def digit_val_def or_default_def Let_def)
  have "new_datetime 1900 0 0 8 30 0 \<le> new_datetime 1900 0 0 18 0 0"
    by (simp add: less_eq_jsdate_def new_datetime_def)
  from time_within_limits [OF r(1,2) this r(3)] show ?thesis by auto
qed

subsection \<open>Spinning\<close>

definition clock_text :: "string \<Rightarrow> int \<Rightarrow> string" where
  "clock_text sep minutes = pad2 (minutes div 60) @ sep @ pad2 (minutes mod 60)"

lemma spun_parts:
  assumes "0 \<le> h" "h < 100" "0 \<le> m" "m < 100" "length sep = 1"
  shows "spun_text (0, 2) k (pad2 h @ sep @ pad2 m) = show_int (h + k) @ sep @ pad2 m"
    and "spun_text (3, 5) k (pad2 h @ sep @ pad2 m) = pad2 h @ sep @ show_int (m + k)"
proof -
  obtain c where sep: "sep = [c]" using assms(5) by (cases sep) auto
  obtain x y where h: "pad2 h = [x, y]" using length_pad2 [OF assms(1,2)] by (auto simp: eval_nat_numeral length_Suc_conv)
  obtain z w where m: "pad2 m = [z, w]" using length_pad2 [OF assms(3,4)] by (auto simp: eval_nat_numeral length_Suc_conv)
  have p: "parse_int_auto [x, y] = Some h" "parse_int_auto [z, w] = Some m"
    using parse_int_auto_pad2 [OF assms(1)] parse_int_auto_pad2 [OF assms(3)] h m by simp_all
  show "spun_text (0, 2) k (pad2 h @ sep @ pad2 m) = show_int (h + k) @ sep @ pad2 m"
    "spun_text (3, 5) k (pad2 h @ sep @ pad2 m) = pad2 h @ sep @ show_int (m + k)"
    unfolding h m sep by (simp_all add: spun_text_def p)
qed

lemma minutes_of_day:
  fixes M :: int
  assumes "T = 60 * M"
  shows "T mod 86400 div 3600 = M mod 1440 div 60" and "T mod 86400 mod 3600 div 60 = M mod 1440 mod 60"
proof -
  define w where "w = M mod 1440"
  define a b where "a = w div 60" and "b = w mod 60"
  have w: "M = 1440 * (M div 1440) + w" "0 \<le> w" "w < 1440" by (simp_all add: w_def)
  have ab: "w = 60 * a + b" "0 \<le> b" "b < 60" by (simp_all add: a_def b_def)
  have "T = M div 1440 * 86400 + 60 * w" using w(1) assms by linarith
  then have t: "T mod 86400 = 60 * w" using mod_add_multiple(1) [of "60 * w" 86400 "M div 1440"] w by simp
  have "60 * w = a * 3600 + 60 * b" using ab(1) by linarith
  then have "60 * w div 3600 = a" "60 * w mod 3600 = 60 * b"
    using mod_add_multiple [of "60 * b" 3600 a] ab by simp_all
  then show "T mod 86400 div 3600 = M mod 1440 div 60" "T mod 86400 mod 3600 div 60 = M mod 1440 mod 60"
    by (simp_all add: t a_def b_def w_def)
qed

text \<open>Parsing and formatting a time with out-of-range numbers gives the time they carry over to.\<close>

lemma carried_clock_text:
  assumes "unlimited opt" "\<not> to_showSeconds opt" "\<forall>c \<in> set a. is_digit c \<or> c = CHR ''-''"
    and "\<forall>c \<in> set b. is_digit c \<or> c = CHR ''-''" "parse_int a = Some h" "parse_int b = Some mi"
  shows "time_format opt (time_parse opt (a @ to_separator opt @ b)) = clock_text (to_separator opt) ((60 * h + mi) mod 1440)"
proof -
  have "raw_time opt (a @ to_separator opt @ b) = Some (new_datetime 1900 0 0 h mi 0)"
    by (rule raw_time_numbers) (use assms in \<open>auto simp: unlimited_def\<close>)
  then have parsed: "time_parse opt (a @ to_separator opt @ b) = Some (new_datetime 1900 0 0 h mi 0)"
    using assms(1) by (simp add: time_parse_unlimited)
  define T where "T = 60 * (60 * h + mi)"
  have T: "T = 3600 * h + 60 * mi + 0" by (simp add: T_def)
  have "getHours (new_datetime 1900 0 0 h mi 0) = (60 * h + mi) mod 1440 div 60"
    "getMinutes (new_datetime 1900 0 0 h mi 0) = (60 * h + mi) mod 1440 mod 60"
    unfolding carry_fields(1,2) [OF T] by (rule minutes_of_day [OF T_def])+
  with parsed assms(2) show ?thesis by (simp add: time_format_def clock_text_def)
qed

text \<open>A field that shows the minute \<open>M\<close> of the day, with hours or minutes highlighted.\<close>

definition shows_clock :: "int \<Rightarrow> time_field \<Rightarrow> bool" where
  "shows_clock M f = (unlimited (ts_opts f) \<and> \<not> to_showSeconds (ts_opts f) \<and> length (to_separator (ts_opts f)) = 1 \<and>
     to_selections (ts_opts f) = [(0, 2), (3, 5), (6, 8)] \<and> to_highlight (ts_opts f) < 2 \<and> 0 \<le> M \<and> M < 1440 \<and>
     get_value f = Some (clock_text (to_separator (ts_opts f)) M))"

lemma set_value_hidden: "get_value f \<noteq> None \<Longrightarrow> get_value (set_value v f) = Some v"
  using set_value_cases [of v f] by (auto simp: get_value_def split: list.split)

lemma time_set_value_opts [simp]: "ts_opts (time_set_value v f) = ts_opts f"
  by (simp add: time_set_value_def set_value_def init_value_def set_text_def field_note_def Let_def)

lemma focus_in_frame [simp]: "get_value (focus_in f) = get_value f" "ts_opts (focus_in f) = ts_opts f"
  by (simp_all add: focus_in_def get_value_def Let_def)

text \<open>
  Spinning moves the clock by the increment, in hours or in minutes according to the
  highlighted part, up or down, modulo one day: minutes carry into hours and midnight wraps.
\<close>

theorem spin_moves_clock:
  assumes "shows_clock M f"
    and "k = to_increment (ts_opts f) * (if down then - 1 else 1) * (if to_highlight (ts_opts f) = 0 then 60 else 1)"
  shows "\<exists>f'. time_spin down f = Some f' \<and> shows_clock ((M + k) mod 1440) f'"
proof -
  let ?o = "ts_opts f" and ?sep = "to_separator (ts_opts f)"
  define i where "i = to_increment ?o * (if down then - 1 else 1)"
  define h m where "h = M div 60" and "m = M mod 60"
  have f: "unlimited ?o" "\<not> to_showSeconds ?o" "length ?sep = 1" "to_selections ?o = [(0, 2), (3, 5), (6, 8)]"
    "to_highlight ?o < 2" "0 \<le> M" "M < 1440" "get_value f = Some (pad2 h @ ?sep @ pad2 m)"
    using assms(1) by (simp_all add: shows_clock_def clock_text_def h_def m_def)
  have hm: "0 \<le> h" "h < 100" "0 \<le> m" "m < 100" "60 * h + m = M"
    using f(6,7) div_bounds [of 60 M] by (simp_all add: h_def m_def pos_imp_zdiv_nonneg_iff)
  define sel where "sel = to_selections ?o ! to_highlight ?o"
  define v where "v = spun_text sel i (pad2 h @ ?sep @ pad2 m)"
  have "time_format ?o (time_parse ?o v) = clock_text ?sep ((M + k) mod 1440)"
  proof (cases "to_highlight ?o = 0")
    case True
    then have "v = show_int (h + i) @ ?sep @ pad2 m" using spun_parts(1) [OF hm(1-4) f(3)] f(4) by (simp add: v_def sel_def)
    moreover have "60 * (h + i) + m = M + k" using hm(5) assms(2) True by (simp add: i_def)
    ultimately show ?thesis
      using carried_clock_text [OF f(1,2), of "show_int (h + i)" "pad2 m" "h + i" m] hm(3)
      by (auto dest: show_int_chars pad2_chars)
  next
    case False
    then have "to_highlight ?o = 1" using f(5) by simp
    then have "v = pad2 h @ ?sep @ show_int (m + i)" using spun_parts(2) [OF hm(1-4) f(3)] f(4) by (simp add: v_def sel_def)
    moreover have "60 * h + (m + i) = M + k" using hm(5) assms(2) False by (simp add: i_def)
    ultimately show ?thesis
      using carried_clock_text [OF f(1,2), of "pad2 h" "show_int (m + i)" h "m + i"] hm(1)
      by (auto dest: show_int_chars pad2_chars)
  qed
  then have g: "get_value (time_set_value v f) = Some (clock_text ?sep ((M + k) mod 1440))"
    using set_value_hidden [of f] f(8) by (simp add: time_set_value_def)
  have "time_spin down f = Some (if tb_focus (time_set_value v f) then time_set_value v f else focus_in (time_set_value v f))"
    using f(4,5,8) by (simp add: time_spin_def v_def sel_def i_def Let_def)
  with g f assms(1) show ?thesis by (auto simp: shows_clock_def)
qed

definition half_past_eleven :: time_field where
  "half_past_eleven = textbox.extend ((new_textbox [] [])\<lparr>tb_hidden := [''23:30'']\<rparr>) (time_field.fields (default_time_opts\<lparr>to_highlight := 1, to_increment := 45\<rparr>))"

lemma half_past_eleven_shows: "shows_clock 1410 half_past_eleven"
  by (simp add: shows_clock_def half_past_eleven_def unlimited_def good_separator_def default_time_opts_def clock_text_def
      get_value_def textbox.extend_def time_field.fields_def new_textbox_def pad2_def show_int_def show_nat.simps digit_char_def)

theorem spin_moves_clock_witness:
  "\<exists>f'. time_spin False half_past_eleven = Some f' \<and> shows_clock 15 f'"
  using spin_moves_clock [OF half_past_eleven_shows refl, of False]
  by (simp add: half_past_eleven_def default_time_opts_def time_field.fields_def textbox.extend_def)

subsection \<open>Dates with times\<close>

lemma date_format_chars: "c \<in> set (date_format t) \<Longrightarrow> is_digit c \<or> c = CHR ''-'' \<or> c = CHR ''/''"
  by (auto simp: date_format_def dest: pad2_chars show_int_chars)

lemma date_parse_year:
  assumes "plain_year t"
  shows "getFullYear (date_parse now (date_format t)) = getFullYear t"
    "getMonth (date_parse now (date_format t)) = getMonth t" "getDate (date_parse now (date_format t)) = getDate t"
  using new_date_fields [of "getFullYear t" "getMonth t" "getDate t"] assms getMonth_bounds [of t]
    mday_of_day_bounds [of "day_of t"]
  by (simp_all add: plain_year_def date_parse_format getDate_def getMonth_def getFullYear_def)

lemma kept_by_dropWhile: "c \<in> set s \<Longrightarrow> \<not> P c \<Longrightarrow> c \<in> set (dropWhile P s)"
  by (induction s) auto

lemma trim_nonempty:
  assumes "c \<in> set s" "\<not> is_space c"
  shows "js_trim s \<noteq> []"
proof -
  have "c \<in> set (rev (dropWhile is_space s))" using kept_by_dropWhile [of c s is_space] assms by simp
  from kept_by_dropWhile [of c _ is_space, OF this assms(2)] show ?thesis
    unfolding js_trim_def by (metis empty_iff list.set(1) set_rev)
qed

lemma date_format_not_blank: "date_format t \<noteq> [] \<and> \<not> is_space (hd (date_format t))"
proof -
  have ne: "date_format t \<noteq> []" by (simp add: date_format_def)
  have "\<not> is_space (CHR ''/'')" by (simp add: is_space_def)
  with date_format_chars [of "hd (date_format t)" t] ne show ?thesis by (auto simp: is_digit_not_space)
qed

lemma split_date_time:
  assumes "CHR '' '' \<notin> set b"
  shows "js_split '' '' (date_format t @ '' '' @ b) = [date_format t, b]"
proof -
  have "CHR '' '' \<notin> set (date_format t)" using date_format_chars by fastforce
  with assms have "js_split '' '' (js_join '' '' [date_format t, b]) = [date_format t, b]"
    by (intro js_split_join) auto
  then show ?thesis by simp
qed

lemma pad2_no_space: "CHR '' '' \<notin> set (pad2 i)"
  using pad2_chars by fastforce

text \<open>
  What the date-time box shows for a date is read back as that date: to the second when
  seconds are shown, to the minute otherwise.
\<close>

theorem datetime_roundtrip:
  assumes "good_separator sep" "CHR '' '' \<notin> set sep" "whole_second t" "secs \<or> getSeconds t = 0"
  shows "dtbox_parse now sep (dtbox_format sep secs t) = t"
proof -
  define b where "b = js_join sep ([pad2 (getHours t), pad2 (getMinutes t)] @ (if secs then [pad2 (getSeconds t)] else []))"
  have f: "dtbox_format sep secs t = date_format t @ '' '' @ b" by (simp add: dtbox_format_def b_def)
  have "CHR '' '' \<notin> set b" using assms(2) by (auto simp: b_def pad2_no_space)
  then have dt: "js_split '' '' (date_format t @ CHR '' '' # b) = [date_format t, b]"
    using split_date_time [of b t] by simp
  have tt: "js_split sep b = [pad2 (getHours t), pad2 (getMinutes t)] @ (if secs then [pad2 (getSeconds t)] else [])"
    unfolding b_def by (rule split_numbers) (use assms(1) pad2_chars in auto)
  have "js_trim (dtbox_format sep secs t) \<noteq> []"
    using date_format_not_blank [of t] f by (intro trim_nonempty [of "hd (date_format t)"]) simp_all
  moreover have "or_default (int_field (js_split sep b) 0) 0 = getHours t" "or_default (int_field (js_split sep b) 1) 0 = getMinutes t"
    "or_default (int_field (js_split sep b) 2) 0 = getSeconds t"
    using assms(4) by (auto simp: tt int_field_def or_default_def)
  moreover have "plain_year t" using assms(3) by (simp add: whole_second_def)
  ultimately have "dtbox_parse now sep (dtbox_format sep secs t) =
      new_datetime (getFullYear t) (getMonth t) (getDate t) (getHours t) (getMinutes t) (getSeconds t)"
    unfolding f by (simp add: dtbox_parse_def dt Let_def date_parse_year)
  then show ?thesis
    using new_datetime_of_fields [of t] assms(3) by (simp add: whole_second_def plain_year_def)
qed

theorem datetime_roundtrip_witness:
  "dtbox_parse (JsDate 0) '':'' (dtbox_format '':'' True (new_datetime 2016 1 29 13 5 9)) = new_datetime 2016 1 29 13 5 9"
proof -
  have "midnight (new_date 2016 1 29)" by (rule midnight_new_date) (simp_all, code_simp)
  moreover have "getFullYear (new_datetime 2016 1 29 13 5 9) = getFullYear (new_date 2016 1 29)"
    using day_of_new_datetime(1) [of 13 5 9 2016 1 29] by (simp add: getFullYear_def)
  moreover have "getTime (new_datetime 2016 1 29 13 5 9) mod 1000 = 0"
    by (simp add: new_datetime_def full_year_arg_def)
  ultimately have "whole_second (new_datetime 2016 1 29 13 5 9)"
    by (simp add: whole_second_def midnight_def plain_year_def)
  then show ?thesis by (intro datetime_roundtrip) (simp_all add: good_separator_def)
qed

text \<open>
  The date-time spinner inherits \<open>getHours\<close> from the time spinner, which splits the whole
  text at the time separator: the first piece starts with the month.
\<close>

definition datetime_field :: "time_opts \<Rightarrow> jsdate \<Rightarrow> time_field" where
  "datetime_field opt t = textbox.extend ((new_textbox [] [])\<lparr>tb_hidden := [datetime_format opt (Some t)]\<rparr>) (time_field.fields opt)"

text \<open>
  \<open>getHours\<close> of a date-time spinner returns the month of its date, not the hour.
\<close>

theorem datetimespinner_hours:
  "time_hours (datetime_field default_time_opts t) = Some (getMonth t + 1)"
proof -
  define rest where "rest = CHR ''/'' # pad2 (getDate t) @ ''/'' @ show_int (getFullYear t) @ '' '' @ pad2 (getHours t)"
  have e: "datetime_format default_time_opts (Some t) = (pad2 (getMonth t + 1) @ rest) @ '':'' @ pad2 (getMinutes t)"
    by (simp add: datetime_format_def time_format_def date_format_def default_time_opts_def rest_def)
  have "CHR '':'' \<notin> set (pad2 i)" "CHR '':'' \<notin> set (show_int i)" for i
    using pad2_chars [of "CHR '':''" i] show_int_chars [of "CHR '':''" i] by auto
  then have "CHR '':'' \<notin> set (pad2 (getMonth t + 1) @ rest)" by (simp add: rest_def)
  then have "js_split '':'' ((pad2 (getMonth t + 1) @ rest) @ '':'' @ pad2 (getMinutes t)) =
      (pad2 (getMonth t + 1) @ rest) # js_split '':'' (pad2 (getMinutes t))"
    by (intro js_split_cons) simp_all
  moreover have "parse_int (pad2 (getMonth t + 1) @ rest) = Some (getMonth t + 1)"
    by (rule parse_int_pad2) (use getMonth_bounds [of t] in \<open>auto simp: rest_def\<close>)
  moreover have "get_value (datetime_field default_time_opts t) = Some (datetime_format default_time_opts (Some t))"
    "ts_opts (datetime_field default_time_opts t) = default_time_opts"
    by (simp_all add: datetime_field_def get_value_def textbox.extend_def time_field.fields_def)
  ultimately show ?thesis
    unfolding time_hours_def e by (simp add: int_field_def default_time_opts_def)
qed

section \<open>The date box in a session\<close>

lemma moveTo_current:
  "cal_validator c t \<Longrightarrow> cal_current (moveTo now (Some t) c) = Some t"
  "\<not> cal_validator c t \<Longrightarrow> moveTo now (Some t) c = c"
proof -
  assume v: "cal_validator c t"
  have "cal_validator (open_menu c1) = cal_validator c1" "cal_current (open_menu c1) = cal_current c1" for c1
    by (simp_all add: open_menu_def)
  then have "cal_current (reinit now y m (Some t) c) = Some t" for y m
    using v by (simp add: reinit_def Let_def show_calendar_def drop_invalid_current_def)
  with v show "cal_current (moveTo now (Some t) c) = Some t" by (simp add: moveTo_def Let_def)
qed (simp add: moveTo_def)

lemma reinit_validator [simp]: "cal_validator (reinit now y m cur c) = cal_validator c"
  by (simp add: reinit_def Let_def show_calendar_def open_menu_def)

lemma moveTo_validator [simp]: "cal_validator (moveTo now arg c) = cal_validator c"
  by (simp add: moveTo_def Let_def split: option.split)

lemma combo_text_frame [simp]:
  "db_cal (set_values vs d) = db_cal d" "db_formatter (set_values vs d) = db_formatter d" "db_parser (set_values vs d) = db_parser d"
  "db_cal (combo_set_text s d) = db_cal d" "db_formatter (combo_set_text s d) = db_formatter d" "db_parser (combo_set_text s d) = db_parser d"
  "db_cal (hide_panel d) = db_cal d" "db_cal (show_panel d) = db_cal d"
  by (simp_all add: set_values_def combo_set_text_def set_text_def field_note_def hide_panel_def show_panel_def Let_def)

lemma get_text_combo_set_text [simp]: "get_text (combo_set_text s c) = s"
  by (simp add: combo_set_text_def set_text_def get_text_def Let_def)

lemma db_write_fields [simp]:
  "db_cal (db_write v d) = db_cal d" "db_formatter (db_write v d) = db_formatter d" "db_parser (db_write v d) = db_parser d"
  "tb_hidden (db_write v d) = [v]" "get_text (db_write v d) = v"
  by (simp_all add: db_write_def combo_set_value_def)

lemma db_set_fields:
  assumes "db_set now v remain d = Some d'"
  shows "db_cal d' = moveTo now (Some (db_parser d now v)) (db_cal d) \<and> db_formatter d' = db_formatter d \<and> db_parser d' = db_parser d"
  using assms by (auto simp: db_set_def Let_def combo_set_value_def split: if_splits option.splits)

lemma db_set_ok: "cal_ok (db_cal d) \<Longrightarrow> db_set now v remain d = Some d' \<Longrightarrow> cal_ok (db_cal d')"
  using db_set_fields moveTo_ok by metis

lemma db_enter_ok: "cal_ok (db_cal d) \<Longrightarrow> db_enter now d = Some d' \<Longrightarrow> cal_ok (db_cal d')"
  by (auto simp: db_enter_def split: option.splits intro: db_set_ok)

lemma db_pick_ok:
  assumes "cal_ok (db_cal d)" "db_pick now r k d = Some d'"
  shows "cal_ok (db_cal d')"
proof (cases "begin_click r k (db_cal d)")
  case (Some o1)
  show ?thesis
  proof (cases o1)
    case None
    with Some assms show ?thesis by (simp add: db_pick_def)
  next
    case o2: (Some p)
    obtain c1 day where p: "p = (c1, day)" by (cases p)
    note c1 = begin_click_ok [OF assms(1) Some [unfolded o2 p]]
    obtain d1 c where d1: "db_set now (db_formatter d (civil_date day)) False (d\<lparr>db_cal := c1\<rparr>) = Some d1"
      "finish_click now (cal_current (db_cal d)) day (db_cal d1) = Some c" "db_cal d' = c"
      using assms(2) by (auto simp: db_pick_def Some o2 p split: option.splits)
    have "cal_ok (db_cal d1)" by (rule db_set_ok [OF _ d1(1)]) (use c1 in simp)
    from finish_click_ok [OF this _ _ d1(2)] c1 d1(3) show ?thesis by simp
  qed
qed (use assms in \<open>simp add: db_pick_def\<close>)

interpretation datebox: partial_machine "db_step now" "\<lambda>d. cal_ok (db_cal d)" for now
proof
  fix d e d'
  assume ok: "cal_ok (db_cal d)" and st: "db_step now d e = Some d'"
  then show "cal_ok (db_cal d')"
    by (cases e)
      (auto simp: db_step_def db_today_def db_show_def db_reset_def nav_month_ok reinit_date_ok split: if_splits
        intro: db_set_ok db_enter_ok db_pick_ok db_set_ok [of "show_panel d"]
          db_enter_ok [of "d\<lparr>db_cal := reinit now (getFullYear now) (getMonth now + 1)
            (Some (new_date (getFullYear now) (getMonth now) (getDate now))) (db_cal d)\<rparr>"])
qed

text \<open>
  C15. At any point of a session (typing, picking days, Today, changing months), setting a text
  that is not empty makes the calendar's current date the value: it is a date the validator
  accepts, field and hidden value show it formatted, and it is the parsed date whenever the
  validator accepts that one.
\<close>

theorem datebox_holds_valid_date:
  assumes "cal_ok (db_cal d0)" "run_events (db_step now) d0 es = Some d" "db_step now d (DbSet v) = Some d'" "v \<noteq> []"
  shows "\<exists>t. cal_current (db_cal d') = Some t \<and> cal_validator (db_cal d') t \<and> tb_hidden d' = [db_formatter d' t] \<and>
    get_text d' = db_formatter d' t \<and> (cal_validator (db_cal d') (db_parser d' now v) \<longrightarrow> t = db_parser d' now v)"
proof -
  have ok: "cal_ok (db_cal d)" by (rule datebox.inv_run [OF assms(1,2)])
  have set: "db_set now v False d = Some d'" using assms(3) by (simp add: db_step_def)
  note f = db_set_fields [OF set]
  obtain t where t: "cal_current (db_cal d') = Some t" "tb_hidden d' = [db_formatter d' t]" "get_text d' = db_formatter d' t"
    using set assms(4) by (auto simp: db_set_def Let_def split: option.splits)
  have "cal_validator (db_cal d') t" using db_set_ok [OF ok set] t(1) by (simp add: cal_ok_def)
  moreover have "t = db_parser d' now v" if "cal_validator (db_cal d') (db_parser d' now v)"
    using that moveTo_current(1) [of "db_cal d" "db_parser d now v" now] f t(1) by simp
  ultimately show ?thesis using t by blast
qed

text \<open>A date box as the widget makes it, with the default formatter and parser.\<close>

definition new_datebox :: "jsdate \<Rightarrow> datebox" where
  "new_datebox now = combo.extend (combo_of (new_textbox [] []) False)
     (datebox.fields (show_calendar now (default_calendar now)) date_format date_parse)"

theorem datebox_holds_valid_date_witness:
  "\<exists>d' t. db_step (JsDate 0) (new_datebox (JsDate 0)) (DbSet ''2/29/2016'') = Some d' \<and>
     cal_current (db_cal d') = Some t \<and> tb_hidden d' = [db_formatter d' t] \<and> get_text d' = db_formatter d' t"
proof -
  let ?now = "JsDate 0" and ?d = "new_datebox (JsDate 0)"
  have cal: "db_cal ?d = show_calendar ?now (default_calendar ?now)" "db_parser ?d = date_parse"
    by (simp_all add: new_datebox_def datebox.fields_def combo.extend_def)
  have m: "1 \<le> cal_month (default_calendar ?now)" "cal_month (default_calendar ?now) \<le> 12"
    "cal_menu_sel (default_calendar ?now) = None" "cal_validator (default_calendar ?now) t" for t
    using month_of_day_bounds [of "day_of ?now"] by (simp_all add: default_calendar_def getMonth_def)
  have ok: "cal_ok (db_cal ?d)" unfolding cal by (rule show_calendar_ok) (use m in auto)
  have "cal_validator (db_cal ?d) (date_parse ?now ''2/29/2016'')"
    unfolding cal by (simp add: show_calendar_def Let_def m(4))
  then have "cal_current (moveTo ?now (Some (date_parse ?now ''2/29/2016'')) (db_cal ?d)) = Some (date_parse ?now ''2/29/2016'')"
    by (rule moveTo_current(1))
  then obtain d' where d': "db_step ?now ?d (DbSet ''2/29/2016'') = Some d'"
    by (simp add: db_step_def db_set_def Let_def cal(2))
  from datebox_holds_valid_date [OF ok _ d', of "[]"] d' show ?thesis by auto
qed

section \<open>The date-time box keeps its parts in step\<close>

lemma dt_spinner_updates [simp]:
  "dt_spinner (tb_hidden_update f d) = dt_spinner d" "dt_spinner (tb_log_update g d) = dt_spinner d"
  "dt_spinner (tb_value_update h d) = dt_spinner d" "dt_spinner (tb_text_update h d) = dt_spinner d"
  "dt_spinner (tb_prompted_update p d) = dt_spinner d" "dt_spinner (cb_previous_update h d) = dt_spinner d"
  "dt_spinner (db_cal_update u d) = dt_spinner d"
  by (cases d; simp)+

lemma dt_frame [simp]:
  "dt_spinner (set_values vs d) = dt_spinner d" "dt_secs (set_values vs d) = dt_secs d"
  "dt_spinner (combo_set_text s d) = dt_spinner d" "dt_secs (combo_set_text s d) = dt_secs d"
  by (simp_all add: set_values_def combo_set_text_def set_text_def field_note_def Let_def)

lemma dtb_set_parts:
  "db_cal (dtb_set now v r d) = moveTo now (Some (dtbox_parse now (dtb_separator d) v)) (db_cal d)"
  "dt_spinner (dtb_set now v r d) = time_set_value (dtb_time d (dtbox_parse now (dtb_separator d) v)) (dt_spinner d)"
  by (simp_all add: dtb_set_def Let_def combo_set_value_def dtb_time_def dtb_separator_def)

text \<open>The numbers a spinner returns when it shows a time.\<close>

lemma time_parts:
  assumes "good_separator (to_separator (ts_opts f))" "get_value f = Some (time_format (ts_opts f) (Some t))"
    and "to_showSeconds (ts_opts f) \<or> getSeconds t = 0"
  shows "time_hours f = Some (getHours t)" "time_minutes f = Some (getMinutes t)" "time_seconds f = Some (getSeconds t)"
proof -
  have "js_split (to_separator (ts_opts f)) (time_format (ts_opts f) (Some t)) =
      [pad2 (getHours t), pad2 (getMinutes t)] @ (if to_showSeconds (ts_opts f) then [pad2 (getSeconds t)] else [])"
    unfolding time_format_def option.case by (rule split_numbers) (use assms(1) pad2_chars in auto)
  then show "time_hours f = Some (getHours t)" "time_minutes f = Some (getMinutes t)" "time_seconds f = Some (getSeconds t)"
    using assms(2,3) by (auto simp: time_hours_def time_minutes_def time_seconds_def int_field_def or_default_def)
qed

text \<open>
  After a text has been set, the calendar and the time spinner together hold the date it
  parses to, so that confirming the panel without touching it keeps that date.
\<close>

theorem datetimebox_parts_agree:
  assumes "t = dtbox_parse now (dtb_separator d) v" "cal_validator (db_cal d) t" "whole_second t"
    and "unlimited (ts_opts (dt_spinner d))" "to_showSeconds (ts_opts (dt_spinner d)) = dt_secs d"
    and "dt_secs d \<or> getSeconds t = 0" "get_value (dt_spinner d) \<noteq> None"
  shows "dtb_value (dtb_set now v remain d) = Some t"
proof -
  let ?o = "ts_opts (dt_spinner d)" and ?d = "dtb_set now v remain d"
  have good: "good_separator (to_separator ?o)" using assms(4) by (simp add: unlimited_def)
  have kept: "time_format ?o (Some (kept_time ?o t)) = time_format ?o (Some t)"
    using day_of_new_datetime(2,3,4) [of "getHours t" "getMinutes t" "if to_showSeconds ?o then getSeconds t else 0" 1900 0 0]
      getHours_bounds [of t] getMinutes_bounds [of t] getSeconds_bounds [of t]
    by (auto simp: time_format_def kept_time_def)
  have "dtb_time d t = time_format ?o (Some t)"
    using assms(5) by (simp add: dtb_time_def time_format_def dtb_separator_def)
  then have spin: "dt_spinner ?d = time_set_value (time_format ?o (Some t)) (dt_spinner d)"
    by (simp add: dtb_set_parts assms(1))
  have o: "ts_opts (dt_spinner ?d) = ?o" by (simp add: spin)
  have "time_parse ?o (time_format ?o (Some t)) = Some (kept_time ?o t)"
    using time_parse_unlimited [OF assms(4)] raw_time_format [OF good] by simp
  then have "get_value (dt_spinner ?d) = Some (time_format (ts_opts (dt_spinner ?d)) (Some t))"
    using set_value_hidden [OF assms(7)] kept by (simp add: o) (simp add: spin time_set_value_def)
  note parts = time_parts [OF _ this]
  have cur: "cal_current (db_cal ?d) = Some t"
    using moveTo_current(1) [OF assms(2)] by (simp add: dtb_set_parts assms(1))
  have "dtb_value ?d = Some (new_datetime (getFullYear t) (getMonth t) (getDate t) (getHours t) (getMinutes t) (getSeconds t))"
    using parts assms(5,6) good by (simp add: dtb_value_def cur o)
  then show ?thesis using new_datetime_of_fields [of t] assms(3) by (simp add: whole_second_def plain_year_def)
qed

definition new_datetimebox :: "jsdate \<Rightarrow> datetimebox" where
  "new_datetimebox now = datebox.extend (new_datebox now)
     (datetimebox.fields (textbox.extend (new_textbox [] []) (time_field.fields (default_time_opts\<lparr>to_showSeconds := True\<rparr>))) True)"

theorem datetimebox_parts_agree_witness:
  "dtb_value (dtb_set (JsDate 0) ''1/2/2016 3:04:05'' False (new_datetimebox (JsDate 0))) =
     Some (new_datetime 2016 0 2 3 4 5)"
proof -
  let ?d = "new_datetimebox (JsDate 0)" and ?t = "new_datetime 2016 0 2 3 4 5"
  have sp: "dt_spinner ?d = textbox.extend (new_textbox [] []) (time_field.fields (default_time_opts\<lparr>to_showSeconds := True\<rparr>))"
    "dt_secs ?d" "db_cal ?d = show_calendar (JsDate 0) (default_calendar (JsDate 0))"
    by (simp_all add: new_datetimebox_def datetimebox.fields_def datebox.extend_def new_datebox_def datebox.fields_def
        combo.extend_def combo_of_def combo.fields_def textbox.extend_def)
  then have o: "ts_opts (dt_spinner ?d) = default_time_opts\<lparr>to_showSeconds := True\<rparr>"
    by (simp add: time_field.fields_def textbox.extend_def)
  have sep: "dtb_separator ?d = '':''" by (simp add: dtb_separator_def o default_time_opts_def)
  have md: "midnight (new_date 2016 0 2)" by (rule midnight_new_date) (simp_all, code_simp)
  have ml: "2 \<le> month_len 2016 0" by code_simp
  have f: "getFullYear (new_date 2016 0 2) = 2016" "getMonth (new_date 2016 0 2) = 0" "getDate (new_date 2016 0 2) = 2"
    using new_date_fields [of 2016 0 2] ml by simp_all
  have t: "?t = dtbox_parse (JsDate 0) (dtb_separator ?d) ''1/2/2016 3:04:05''"
    unfolding sep
    by (simp add: dtbox_parse_def js_trim_def date_parse_def js_split_def int_field_def parse_int_def split_sign_def
        is_space_def is_digit_def digits_value_def digit_val_def or_default_def Let_def f)
  have v: "cal_validator (db_cal ?d) ?t" by (simp add: sp(3) show_calendar_def Let_def) (simp add: default_calendar_def)
  have "getFullYear ?t = getFullYear (new_date 2016 0 2)"
    using day_of_new_datetime(1) [of 3 4 5 2016 0 2] by (simp add: getFullYear_def)
  then have w: "whole_second ?t"
    using md by (simp add: whole_second_def midnight_def plain_year_def) (simp add: new_datetime_def full_year_arg_def)
  have u: "unlimited (ts_opts (dt_spinner ?d))" "to_showSeconds (ts_opts (dt_spinner ?d)) = dt_secs ?d"
    using sp(2) by (simp_all add: o unlimited_def good_separator_def default_time_opts_def)
  have "get_value (dt_spinner ?d) \<noteq> None" by (simp add: sp(1) get_value_def textbox.extend_def new_textbox_def)
  from datetimebox_parts_agree [OF t v w u _ this] sp(2) show ?thesis by blast
qed

end
