(* ===== verification/RoseTree.thy ===== *)
theory RoseTree
  imports JsPrelude
begin

text \<open>
  Finitely branching trees with labelled nodes: the common shape of the node objects and of the
  DOM of the tree widgets. Nodes are addressed by a key of their label (the DOM id); the locale
  \<open>keyed\<close> collects what holds when the keys of a forest are distinct.
\<close>

datatype 'a rose = Node (label: 'a) (kids: "'a rose list")

type_synonym 'a forest = "'a rose list"

fun labels :: "'a rose \<Rightarrow> 'a list" where
  "labels (Node a ts) = a # concat (map labels ts)"

definition flabels :: "'a forest \<Rightarrow> 'a list" where
  "flabels ts = concat (map labels ts)"

lemma flabels_simps [simp]:
  "flabels [] = []" "flabels (t # ts) = labels t @ flabels ts" "flabels (ts @ us) = flabels ts @ flabels us"
  by (simp_all add: flabels_def)

lemma labels_Node: "labels (Node a ts) = a # flabels ts"
  by (simp add: flabels_def)

declare labels.simps [simp del] labels_Node [simp]

lemma set_labels: "set (labels t) = set_rose t"
  by (induction t) (auto simp: flabels_def)

lemma labels_map_rose [simp]: "labels (map_rose f t) = map f (labels t)"
  by (induction t) (auto simp: flabels_def map_concat o_def intro!: arg_cong [where f = concat])

lemma flabels_map_rose [simp]: "flabels (map (map_rose f) ts) = map f (flabels ts)"
  by (induction ts) auto

section \<open>Traversal\<close>

text \<open>
  The traversal of the widgets: a work list from which the first node is taken and to whose
  front its children are put.
\<close>

function walk_trees :: "'a forest \<Rightarrow> 'a rose list" where
  "walk_trees [] = []"
| "walk_trees (Node a us # ts) = Node a us # walk_trees (us @ ts)"
  by pat_completeness auto
termination
  by (relation "measure (\<lambda>ts. length (flabels ts))") auto

definition walk :: "'a forest \<Rightarrow> 'a list" where
  "walk ts = map label (walk_trees ts)"

lemma walk_flabels: "walk ts = flabels ts"
  by (induction ts rule: walk_trees.induct) (auto simp: walk_def)

lemma forest_induct [case_names Nil Node]:
  assumes "Q []" and "\<And>a us ts. Q us \<Longrightarrow> Q ts \<Longrightarrow> Q (Node a us # ts)"
  shows "Q ts"
proof (induction ts rule: measure_induct_rule [where f = "\<lambda>ts. length (flabels ts)"])
  case (less ts)
  show ?case
  proof (cases ts)
    case (Cons t rest)
    obtain a us where t: "t = Node a us" by (cases t)
    then have "length (flabels us) < length (flabels ts)" "length (flabels rest) < length (flabels ts)"
      using Cons by simp_all
    then have "Q us" "Q rest" by (auto intro: less)
    then show ?thesis unfolding Cons t by (rule assms(2))
  qed (simp add: assms(1))
qed

section \<open>Operations by key\<close>

definition relabel :: "('a \<Rightarrow> bool) \<Rightarrow> ('a \<Rightarrow> 'a) \<Rightarrow> 'a forest \<Rightarrow> 'a forest" where
  "relabel P f ts = map (map_rose (\<lambda>a. if P a then f a else a)) ts"

fun find_tree :: "('a \<Rightarrow> bool) \<Rightarrow> 'a forest \<Rightarrow> 'a rose option" where
  "find_tree P [] = None"
| "find_tree P (Node a us # ts) =
     (if P a then Some (Node a us)
      else case find_tree P us of Some t \<Rightarrow> Some t | None \<Rightarrow> find_tree P ts)"

text \<open>The labels on the way up from the first node with \<open>P\<close>, its parent first.\<close>

fun ancestors :: "('a \<Rightarrow> bool) \<Rightarrow> 'a forest \<Rightarrow> 'a list option" where
  "ancestors P [] = None"
| "ancestors P (Node a us # ts) =
     (if P a then Some []
      else case ancestors P us of Some as \<Rightarrow> Some (as @ [a]) | None \<Rightarrow> ancestors P ts)"

text \<open>Change the list of children of the node with \<open>P\<close>.\<close>

fun change_kids :: "('a \<Rightarrow> bool) \<Rightarrow> ('a forest \<Rightarrow> 'a forest) \<Rightarrow> 'a rose \<Rightarrow> 'a rose" where
  "change_kids P g (Node a us) = Node a (if P a then g us else map (change_kids P g) us)"

text \<open>Drop the first tree of a list whose root has \<open>P\<close>, anywhere in a forest.\<close>

fun prune :: "('a \<Rightarrow> bool) \<Rightarrow> 'a forest \<Rightarrow> 'a forest" where
  "prune P [] = []"
| "prune P (Node a us # ts) = (if P a then ts else Node a (prune P us) # prune P ts)"

section \<open>Facts\<close>

lemma relabel_simps [simp]:
  "relabel P f [] = []"
  "relabel P f (Node a us # ts) = Node (if P a then f a else a) (relabel P f us) # relabel P f ts"
  "relabel P f (ts @ us) = relabel P f ts @ relabel P f us"
  by (simp_all add: relabel_def)

lemma flabels_relabel [simp]: "flabels (relabel P f ts) = map (\<lambda>a. if P a then f a else a) (flabels ts)"
  by (simp add: relabel_def)

lemma relabel_none: "\<forall>a \<in> set (flabels ts). \<not> P a \<Longrightarrow> relabel P f ts = ts"
  by (induction ts rule: forest_induct) auto

lemma find_tree_None: "find_tree P ts = None \<longleftrightarrow> (\<forall>a \<in> set (flabels ts). \<not> P a)"
  by (induction P ts rule: find_tree.induct) (auto split: option.splits)

lemma find_tree_label: "find_tree P ts = Some t \<Longrightarrow> P (label t) \<and> set (labels t) \<subseteq> set (flabels ts)"
  by (induction P ts rule: find_tree.induct) (auto split: if_splits option.splits)

lemma ancestors_None: "ancestors P ts = None \<longleftrightarrow> (\<forall>a \<in> set (flabels ts). \<not> P a)"
  by (induction P ts rule: ancestors.induct) (auto split: option.splits)

lemma ancestors_labels: "ancestors P ts = Some as \<Longrightarrow> set as \<subseteq> set (flabels ts)"
  by (induction P ts arbitrary: as rule: ancestors.induct) (auto split: if_splits option.splits)

lemma change_kids_none: "\<forall>a \<in> set (labels t). \<not> P a \<Longrightarrow> change_kids P g t = t"
  by (induction t) (auto simp: flabels_def intro!: map_idI)

lemma prune_none: "\<forall>a \<in> set (flabels ts). \<not> P a \<Longrightarrow> prune P ts = ts"
  by (induction P ts rule: prune.induct) auto

lemma map_rose_change_kids:
  assumes "\<And>a. Q (f a) = P a" "\<And>us. map (map_rose f) (g us) = h (map (map_rose f) us)"
  shows "map_rose f (change_kids P g t) = change_kids Q h (map_rose f t)"
  by (induction t) (auto simp: assms)

lemma map_rose_prune:
  assumes "\<And>a. Q (f a) = P a"
  shows "map (map_rose f) (prune P ts) = prune Q (map (map_rose f) ts)"
  by (induction ts rule: forest_induct) (auto simp: assms)

lemma map_rose_relabel:
  assumes "\<And>a. P a \<Longrightarrow> f (h a) = f a"
  shows "map (map_rose f) (relabel P h ts) = map (map_rose f) ts"
  by (induction ts rule: forest_induct) (auto simp: assms)

lemma map_rose_same: "(\<And>r. f (h r) = f r) \<Longrightarrow> map_rose f (map_rose h e) = map_rose f e"
  by (induction e) simp_all

lemma change_kids_twice: "change_kids P h (change_kids P g t) = change_kids P (h \<circ> g) t"
  by (induction t) auto

lemma change_kids_cong:
  "(\<And>us. set (flabels us) \<subseteq> set (labels t) \<Longrightarrow> g us = h us) \<Longrightarrow> change_kids P g t = change_kids P h t"
proof (induction t)
  case (Node a us)
  have "change_kids P g u = change_kids P h u" if "u \<in> set us" for u
    by (rule Node.IH [OF that]) (use Node.prems that in \<open>fastforce simp: flabels_def\<close>)
  moreover have "g us = h us" by (rule Node.prems) auto
  ultimately show ?case by simp
qed

section \<open>Forests of distinct keys\<close>

text \<open>The forest of the keys of a tree, changed at one key.\<close>

definition at_key :: "'k \<Rightarrow> ('k forest \<Rightarrow> 'k forest) \<Rightarrow> 'k forest \<Rightarrow> 'k forest" where
  "at_key i g s = map (change_kids (\<lambda>x. x = i) g) s"

lemma at_key_simps [simp]:
  "at_key i g [] = []"
  "at_key i g (Node a us # ts) = Node a (if a = i then g us else at_key i g us) # at_key i g ts"
  by (simp_all add: at_key_def)

lemma at_key_absent: "i \<notin> set (flabels s) \<Longrightarrow> at_key i g s = s"
  by (induction s rule: forest_induct) auto

lemma at_key_twice: "at_key i h (at_key i g s) = at_key i (h \<circ> g) s"
  by (simp add: at_key_def change_kids_twice)

lemma at_key_cong:
  "(\<And>us. set (flabels us) \<subseteq> set (flabels s) \<Longrightarrow> g us = h us) \<Longrightarrow> at_key i g s = at_key i h s"
  unfolding at_key_def by (intro map_cong refl change_kids_cong) (auto simp: flabels_def)

lemma at_key_distinct:
  assumes "distinct (flabels s)" and "N \<inter> set (flabels s) = {}"
    and "\<And>us. distinct (flabels us) \<Longrightarrow> set (flabels us) \<subseteq> set (flabels s) \<Longrightarrow>
      distinct (flabels (g us)) \<and> set (flabels (g us)) \<subseteq> set (flabels us) \<union> N"
  shows "distinct (flabels (at_key i g s)) \<and> set (flabels (at_key i g s)) \<subseteq> set (flabels s) \<union> N"
  using assms
proof (induction s rule: forest_induct)
  case (Node a us ts)
  have us: "distinct (flabels (at_key i g us)) \<and> set (flabels (at_key i g us)) \<subseteq> set (flabels us) \<union> N"
  proof (rule Node.IH(1))
    show "distinct (flabels (g vs)) \<and> set (flabels (g vs)) \<subseteq> set (flabels vs) \<union> N"
      if "distinct (flabels vs)" "set (flabels vs) \<subseteq> set (flabels us)" for vs
      by (rule Node.prems(3)) (use that in auto)
  qed (use Node.prems(1,2) in auto)
  have ts: "distinct (flabels (at_key i g ts)) \<and> set (flabels (at_key i g ts)) \<subseteq> set (flabels ts) \<union> N"
  proof (rule Node.IH(2))
    show "distinct (flabels (g vs)) \<and> set (flabels (g vs)) \<subseteq> set (flabels vs) \<union> N"
      if "distinct (flabels vs)" "set (flabels vs) \<subseteq> set (flabels ts)" for vs
      by (rule Node.prems(3)) (use that in auto)
  qed (use Node.prems(1,2) in auto)
  have gus: "distinct (flabels (g us)) \<and> set (flabels (g us)) \<subseteq> set (flabels us) \<union> N"
    by (rule Node.prems(3)) (use Node.prems(1) in auto)
  show ?case
  proof (cases "a = i \<or> i \<in> set (flabels us)")
    case True
    then have "at_key i g ts = ts" using Node.prems(1) by (intro at_key_absent) auto
    with us gus Node.prems(1,2) show ?thesis by auto
  next
    case False
    then have "at_key i g us = us" by (intro at_key_absent) auto
    with False ts Node.prems(1,2) show ?thesis by auto
  qed
qed simp

lemma flabels_prune: "set (flabels (prune P ts)) \<subseteq> set (flabels ts) \<and> (distinct (flabels ts) \<longrightarrow> distinct (flabels (prune P ts)))"
  by (induction ts rule: forest_induct) auto

lemma prune_removes: "distinct (flabels s) \<Longrightarrow> i \<notin> set (flabels (prune (\<lambda>x. x = i) s))"
proof (induction s rule: forest_induct)
  case (Node a us ts)
  then show ?case using flabels_prune [of "\<lambda>x. x = i" us] by auto
qed simp

end
