(* ===== verification/Tree.thy ===== *)
theory Tree
  imports RoseTree
begin

text \<open>
  \<open>plugins/jquery.tree.js\<close>. The widget keeps two trees: the node objects of the data, and the
  DOM made from them (\<open>_127.render\<close>); a node object finds its element by its DOM id. Both are
  modelled, and every operation acts on both as the code does. \<open>children\<close> undefined and empty
  are the same list here (the code never tells them apart). Callbacks that may veto are the
  function \<open>tr_allow\<close>; the others are recorded in the log. Animation is off.
\<close>

section \<open>State\<close>

datatype tree_state = NoState | Open | Closed

datatype tree_hit = Expanded | Collapsed

record tnode =
  td_domId :: nat
  td_id :: "string option"
  td_text :: string
  td_iconCls :: string
  td_state :: tree_state
  td_checked :: bool
  td_mark :: "bool option"
  td_hidden :: bool

record tdom =
  dn_id :: nat
  dn_indent :: nat
  dn_hit :: "tree_hit option"
  dn_folder :: bool
  dn_open :: bool
  dn_icon :: string
  dn_box :: "nat option"
  dn_title :: string
  dn_selected :: bool
  dn_hidden :: bool
  dn_ul :: bool
  dn_shown :: bool

datatype tree_hook = BeforeExpand | BeforeCollapse | BeforeCheck bool | BeforeSelect

datatype tree_note = OnExpand nat | OnCollapse nat | OnCheck nat bool | OnSelect nat | OnLoadSuccess "nat option" | OnLoadError

record tree =
  tr_checkbox :: bool
  tr_cascade :: bool
  tr_onlyLeaf :: bool
  tr_deep :: bool
  tr_remote :: bool
  tr_formatter :: "tnode \<Rightarrow> string"
  tr_filter :: "string \<Rightarrow> tnode \<Rightarrow> bool"
  tr_allow :: "tree_hook \<Rightarrow> tnode \<Rightarrow> bool"
  tr_data :: "tnode forest"
  tr_dom :: "tdom forest"
  tr_next :: nat
  tr_pending :: "(nat \<times> nat option) list"
  tr_log :: "tree_note list"

definition by_id :: "nat \<Rightarrow> tdom \<Rightarrow> bool" where
  "by_id i r = (dn_id r = i)"

definition by_dom :: "nat \<Rightarrow> tnode \<Rightarrow> bool" where
  "by_dom i n = (td_domId n = i)"

definition tree_note :: "tree_note \<Rightarrow> tree \<Rightarrow> tree" where
  "tree_note n t = t\<lparr>tr_log := tr_log t @ [n]\<rparr>"

section \<open>Reading\<close>

definition element :: "nat \<Rightarrow> tree \<Rightarrow> tdom option" where
  "element i t = map_option label (find_tree (by_id i) (tr_dom t))"

definition box_of :: "nat \<Rightarrow> tree \<Rightarrow> nat option" where
  "box_of i t = Option.bind (element i t) dn_box"

text \<open>\<open>_c4\<close>: a node read from the tree has its \<open>checked\<close> taken from the check box.\<close>

definition refresh_node :: "tree \<Rightarrow> tnode \<Rightarrow> tnode" where
  "refresh_node t n = n\<lparr>td_checked := (box_of (td_domId n) t = Some 1)\<rparr>"

text \<open>\<open>_63\<close>: the first node object with the property, in the order of the traversal \<open>_68\<close>\<close>

definition find_node :: "(tnode \<Rightarrow> bool) \<Rightarrow> tree \<Rightarrow> tnode option" where
  "find_node P t = map_option (refresh_node t) (find P (walk (tr_data t)))"

definition get_node :: "nat \<Rightarrow> tree \<Rightarrow> tnode option" where
  "get_node i t = find_node (by_dom i) t"

definition find_by_id :: "string \<Rightarrow> tree \<Rightarrow> tnode option" where
  "find_by_id s t = find_node (\<lambda>n. td_id n = Some s) t"

text \<open>\<open>_9a\<close> read on the DOM, and the chain of parents, nearest first\<close>

definition parents :: "nat \<Rightarrow> tree \<Rightarrow> nat list" where
  "parents i t = (case ancestors (by_id i) (tr_dom t) of None \<Rightarrow> [] | Some rs \<Rightarrow> map dn_id rs)"

definition get_parent :: "nat \<Rightarrow> tree \<Rightarrow> nat option" where
  "get_parent i t = (case parents i t of [] \<Rightarrow> None | p # ps \<Rightarrow> Some p)"

definition get_root :: "nat option \<Rightarrow> tree \<Rightarrow> tnode option" where
  "get_root o' t =
     (case o' of
        Some i \<Rightarrow> get_node (last (i # parents i t)) t
      | None \<Rightarrow> (case tr_data t of [] \<Rightarrow> None | Node n us # ts \<Rightarrow> Some (refresh_node t n)))"

definition get_roots :: "tree \<Rightarrow> tnode list" where
  "get_roots t = map (refresh_node t \<circ> label) (tr_data t)"

text \<open>\<open>_5a\<close>: all nodes below a node, or all nodes\<close>

definition data_kids :: "nat \<Rightarrow> tree \<Rightarrow> tnode forest" where
  "data_kids i t = (case find_tree (by_dom i) (tr_data t) of None \<Rightarrow> [] | Some n \<Rightarrow> kids n)"

definition get_children :: "nat option \<Rightarrow> tree \<Rightarrow> tnode list" where
  "get_children o' t = map (refresh_node t) (walk (case o' of None \<Rightarrow> tr_data t
     | Some i \<Rightarrow> (case find_tree (by_dom i) (tr_data t) of None \<Rightarrow> tr_data t | Some n \<Rightarrow> kids n)))"

text \<open>\<open>_cc\<close>: the nodes whose check box has one of the states, in document order\<close>

definition get_checked :: "nat list \<Rightarrow> tree \<Rightarrow> nat list" where
  "get_checked vs t = map dn_id (filter (\<lambda>r. case dn_box r of None \<Rightarrow> False | Some v \<Rightarrow> v \<in> set vs) (flabels (tr_dom t)))"

definition get_selected :: "tree \<Rightarrow> nat option" where
  "get_selected t = map_option dn_id (find dn_selected (flabels (tr_dom t)))"

definition is_leaf :: "nat \<Rightarrow> tree \<Rightarrow> bool" where
  "is_leaf i t = (Option.bind (element i t) dn_hit = None)"

text \<open>\<open>_d5\<close>: the object of a node with its subtree, read afresh\<close>

definition get_data :: "nat \<Rightarrow> tree \<Rightarrow> tnode rose option" where
  "get_data i t = map_option (map_rose (refresh_node t)) (find_tree (by_dom i) (tr_data t))"

section \<open>Writing elements and node objects\<close>

definition set_element :: "nat \<Rightarrow> (tdom \<Rightarrow> tdom) \<Rightarrow> tree \<Rightarrow> tree" where
  "set_element i f t = t\<lparr>tr_dom := relabel (by_id i) f (tr_dom t)\<rparr>"

definition set_node :: "nat \<Rightarrow> (tnode \<Rightarrow> tnode) \<Rightarrow> tree \<Rightarrow> tree" where
  "set_node i f t = t\<lparr>tr_data := relabel (by_dom i) f (tr_data t)\<rparr>"

definition put_box :: "nat \<Rightarrow> tdom \<Rightarrow> tdom" where
  "put_box v r = (if dn_box r = None then r else r\<lparr>dn_box := Some v\<rparr>)"

definition set_box :: "nat \<Rightarrow> nat \<Rightarrow> tree \<Rightarrow> tree" where
  "set_box i v t = set_element i (put_box v) t"

section \<open>Checking\<close>

definition flag_value :: "bool \<Rightarrow> nat" where
  "flag_value b = (if b then 1 else 0)"

text \<open>
  \<open>_44\<close>: a node that is not hidden gets the value; a hidden child with another value makes
  it and its parent indeterminate. (The loop over further parents reads the parent of
  \<open>_48[0]\<close>, which is undefined, so it ends after one step.)
\<close>

definition mark_node :: "nat \<Rightarrow> tree \<Rightarrow> tnode rose \<Rightarrow> tree" where
  "mark_node v t n =
     (if td_hidden (label n) then t
      else let i = td_domId (label n); t1 = set_box i v t
           in if list_ex (\<lambda>k. td_hidden (label k) \<and> box_of (td_domId (label k)) t1 \<noteq> Some v) (kids n)
              then (case get_parent i t1 of None \<Rightarrow> set_box i 2 t1 | Some p \<Rightarrow> set_box p 2 (set_box i 2 t1))
              else t1)"

definition check_down :: "nat \<Rightarrow> tnode rose \<Rightarrow> tree \<Rightarrow> tree" where
  "check_down v n t =
     (if tr_deep t
      then (let i = td_domId (label n); t1 = set_box i v t
            in t1\<lparr>tr_dom := map (change_kids (by_id i) (map (map_rose (put_box v)))) (tr_dom t1)\<rparr>)
      else foldl (mark_node v) (mark_node v t n) (walk_trees (kids n)))"

text \<open>\<open>_4e\<close>: the node and all its siblings that have a check box are at the value.\<close>

definition dom_kids :: "nat \<Rightarrow> tree \<Rightarrow> tdom list" where
  "dom_kids i t = (case find_tree (by_id i) (tr_dom t) of None \<Rightarrow> [] | Some n \<Rightarrow> map label (kids n))"

definition uniform :: "nat \<Rightarrow> nat \<Rightarrow> nat \<Rightarrow> tree \<Rightarrow> bool" where
  "uniform v i p t = (box_of i t = Some v \<and> list_all (\<lambda>r. dn_box r = None \<or> dn_box r = Some v) (dom_kids p t))"

text \<open>\<open>_3c\<close>: the parents are recomputed from the bottom up.\<close>

definition parent_value :: "nat \<Rightarrow> nat \<Rightarrow> tree \<Rightarrow> nat" where
  "parent_value i p t = (if uniform 1 i p t then 1 else if uniform 0 i p t then 0 else 2)"

fun check_up :: "nat \<Rightarrow> nat list \<Rightarrow> tree \<Rightarrow> tree" where
  "check_up i [] t = t"
| "check_up i (p # ps) t = check_up p ps (set_box p (parent_value i p t) t)"

definition toggled_flag :: "nat \<Rightarrow> tnode \<Rightarrow> tree \<Rightarrow> bool" where
  "toggled_flag i n t =
     (if box_of i t = Some 1 then False
      else if box_of i t = Some 0 then True
      else \<not> (case td_mark n of None \<Rightarrow> False | Some b \<Rightarrow> b))"

text \<open>\<open>_34\<close>; a call names a node of the tree (otherwise nothing is done here, the code throws).\<close>

definition check_node :: "nat \<Rightarrow> bool option \<Rightarrow> tree \<Rightarrow> tree" where
  "check_node i o' t =
     (if \<not> tr_checkbox t then t
      else case (get_node i t, find_tree (by_dom i) (tr_data t)) of
             (Some n, Some sub) \<Rightarrow>
               let b = (case o' of Some b \<Rightarrow> b | None \<Rightarrow> toggled_flag i n t);
                   t1 = set_node i (\<lambda>m. m\<lparr>td_mark := Some b\<rparr>) t
               in if \<not> tr_allow t (BeforeCheck b) n then t1
                  else let t2 = (if tr_cascade t
                                 then (let d = check_down (flag_value b) sub t1 in check_up i (parents i d) d)
                                 else set_box i (flag_value b) t1)
                       in tree_note (OnCheck i b) t2
           | _ \<Rightarrow> t)"

section \<open>Rendering\<close>

text \<open>
  The element made for a node object (whose state and DOM id are set): \<open>lev\<close> indents, then a
  hit area or one more indent, the icon, the check box and the title.
\<close>

definition new_element :: "tree \<Rightarrow> nat \<Rightarrow> tnode \<Rightarrow> bool \<Rightarrow> tdom" where
  "new_element t lev n hasKids =
     (let leaf = (td_state n \<noteq> Closed \<and> \<not> hasKids)
      in \<lparr>dn_id = td_domId n, dn_indent = lev + (if leaf then 1 else 0),
          dn_hit = (if td_state n = Closed then Some Collapsed else if hasKids then Some Expanded else None),
          dn_folder = \<not> leaf, dn_open = (td_state n \<noteq> Closed \<and> hasKids), dn_icon = td_iconCls n,
          dn_box = (if tr_checkbox t \<and> (\<not> tr_onlyLeaf t \<or> leaf) then Some 0 else None),
          dn_title = tr_formatter t n, dn_selected = False, dn_hidden = False,
          dn_ul = hasKids, dn_shown = (td_state n \<noteq> Closed)\<rparr>)"

text \<open>\<open>_12a\<close>: DOM ids are given out in document order from the global counter \<open>_126\<close>.\<close>

fun render_forest :: "tree \<Rightarrow> nat \<Rightarrow> nat \<Rightarrow> tnode forest \<Rightarrow> tnode forest \<times> tdom forest \<times> nat" where
  "render_forest t lev c [] = ([], [], c)"
| "render_forest t lev c (Node n ns # rest) =
     (let n1 = n\<lparr>td_state := if td_state n = NoState then Open else td_state n, td_domId := c\<rparr>;
          r1 = render_forest t (lev + 1) (c + 1) ns;
          r2 = render_forest t lev (snd (snd r1)) rest
      in (Node n1 (fst r1) # fst r2, Node (new_element t lev n1 (ns \<noteq> [])) (fst (snd r1)) # fst (snd r2), snd (snd r2)))"

text \<open>\<open>_64\<close>: the fields given are put into the node object; title, icon and check box follow.\<close>

definition update_node :: "nat \<Rightarrow> string option \<Rightarrow> string option \<Rightarrow> bool option \<Rightarrow> tree \<Rightarrow> tree" where
  "update_node i txt icon chk t =
     (case get_node i t of
        None \<Rightarrow> t
      | Some n \<Rightarrow>
          let n1 = n\<lparr>td_text := case txt of None \<Rightarrow> td_text n | Some s \<Rightarrow> s,
                     td_iconCls := case icon of None \<Rightarrow> td_iconCls n | Some s \<Rightarrow> s,
                     td_checked := case chk of None \<Rightarrow> td_checked n | Some b \<Rightarrow> b\<rparr>;
              t1 = set_element i (\<lambda>r. r\<lparr>dn_title := tr_formatter t n1, dn_icon := td_iconCls n1\<rparr>)
                     (set_node i (\<lambda>m. m\<lparr>td_text := td_text n1, td_iconCls := td_iconCls n1, td_checked := td_checked n1\<rparr>) t)
          in if td_checked n \<noteq> td_checked n1 then check_node i (Some (td_checked n1)) t1 else t1)"

section \<open>Loading\<close>

text \<open>The indents and hits before the title of a node: the level of its children\<close>

definition child_level :: "nat option \<Rightarrow> tree \<Rightarrow> nat" where
  "child_level place t = (case place of None \<Rightarrow> 0
     | Some p \<Rightarrow> (case element p t of None \<Rightarrow> 0 | Some r \<Rightarrow> dn_indent r + (if dn_hit r = None then 0 else 1)))"

definition change_data :: "nat option \<Rightarrow> (tnode forest \<Rightarrow> tnode forest) \<Rightarrow> tree \<Rightarrow> tree" where
  "change_data place g t = t\<lparr>tr_data := case place of None \<Rightarrow> g (tr_data t) | Some p \<Rightarrow> map (change_kids (by_dom p) g) (tr_data t)\<rparr>"

definition change_dom :: "nat option \<Rightarrow> (tdom forest \<Rightarrow> tdom forest) \<Rightarrow> tree \<Rightarrow> tree" where
  "change_dom place g t = t\<lparr>tr_dom := case place of None \<Rightarrow> g (tr_dom t) | Some p \<Rightarrow> map (change_kids (by_id p) g) (tr_dom t)\<rparr>"

text \<open>
  \<open>_5b\<close>: replace or extend the children at a place (the root or a node), then check: the
  first new item that is not checked is unchecked, every new node that is checked is checked.
  \<open>onCheck\<close> is switched off meanwhile. When the node of the place is no longer in the tree
  (\<open>_63\<close> finds nothing), the new items go to the root of the data.
\<close>

definition silently :: "(tree \<Rightarrow> tree) \<Rightarrow> tree \<Rightarrow> tree" where
  "silently f t = (f t)\<lparr>tr_log := tr_log t\<rparr>"

definition initial_checks :: "tnode forest \<Rightarrow> tree \<Rightarrow> tree" where
  "initial_checks ds t =
     (let t1 = (case find (\<lambda>n. \<not> td_checked n) (map label ds) of
                  None \<Rightarrow> t | Some n \<Rightarrow> check_node (td_domId n) (Some False) t)
      in foldl (\<lambda>u n. check_node (td_domId n) (Some True) u) t1 (filter td_checked (walk ds)))"

definition data_place :: "nat option \<Rightarrow> tree \<Rightarrow> nat option" where
  "data_place place t = (case place of None \<Rightarrow> None | Some p \<Rightarrow> if get_node p t = None then None else Some p)"

definition load_at :: "nat option \<Rightarrow> bool \<Rightarrow> tnode forest \<Rightarrow> tree \<Rightarrow> tree" where
  "load_at place app data t =
     (let r = render_forest t (child_level place t) (tr_next t) data;
          new = fst r; els = fst (snd r);
          t1 = change_dom place (\<lambda>es. (if app then es else []) @ els)
                 (change_data (data_place place t) (\<lambda>ns. (if app then ns else []) @ new) (t\<lparr>tr_next := snd (snd r)\<rparr>));
          t2 = (case data_place place t of None \<Rightarrow> t1 | Some p \<Rightarrow> update_node p None None None t1)
      in tree_note (OnLoadSuccess (data_place place t)) (silently (initial_checks new) t2))"

section \<open>Appending, inserting, removing\<close>

text \<open>\<open>_51\<close>: the check box of a node whose children have changed\<close>

definition adjust_box :: "nat \<Rightarrow> tree \<Rightarrow> tree" where
  "adjust_box i t =
     (if \<not> tr_checkbox t then t
      else if is_leaf i t then
        (case box_of i t of
           Some v \<Rightarrow> check_node i (Some (v = 1)) t
         | None \<Rightarrow> if tr_onlyLeaf t then set_element i (\<lambda>r. r\<lparr>dn_box := Some 0\<rparr>) t else t)
      else if tr_onlyLeaf t then set_element i (\<lambda>r. r\<lparr>dn_box := None\<rparr>) t
      else if box_of i t = Some 1 then check_node i (Some True) t
      else if box_of i t = Some 2 then
        (let cs = get_children (Some i) t;
             t1 = (if list_all td_checked cs then check_node i (Some True) t else t)
         in if list_all (\<lambda>n. \<not> td_checked n) cs then check_node i (Some False) t1 else t1)
      else t)"

text \<open>\<open>_a4\<close>: a leaf that gets children becomes an open folder first.\<close>

definition make_folder :: "tdom \<Rightarrow> tdom" where
  "make_folder r =
     (if dn_hit r = None
      then r\<lparr>dn_folder := True, dn_open := True, dn_hit := Some Expanded, dn_indent := dn_indent r - 1, dn_ul := True,
             dn_shown := dn_shown r \<or> \<not> dn_ul r\<rparr>
      else r\<lparr>dn_ul := True, dn_shown := dn_shown r \<or> \<not> dn_ul r\<rparr>)"

definition append_nodes :: "nat option \<Rightarrow> tnode forest \<Rightarrow> tree \<Rightarrow> tree" where
  "append_nodes place data t =
     (if data = [] then t
      else (case place of
              None \<Rightarrow> load_at None True data t
            | Some p \<Rightarrow> adjust_box p (load_at (Some p) True data (set_element p make_folder t))))"

text \<open>
  \<open>_aa\<close>: append to the parent of the reference node, then move the new objects and elements
  next to it. The objects are inserted once more at the place (last first) and the appended copies
  cut off; the elements are moved.
\<close>

definition splice_in :: "nat \<Rightarrow> 'a list \<Rightarrow> 'a list \<Rightarrow> 'a list" where
  "splice_in k new xs = take (length xs) (foldl (\<lambda>a x. insert_at k x a) xs (rev new))"

definition move_data :: "nat \<Rightarrow> bool \<Rightarrow> nat \<Rightarrow> tnode forest \<Rightarrow> tnode forest" where
  "move_data ref bef k ns =
     (case find_index (\<lambda>n. td_domId (label n) = ref) ns of
        None \<Rightarrow> ns
      | Some i \<Rightarrow> splice_in (if bef then i else i + 1) (drop (length ns - k) ns) ns)"

definition move_dom :: "nat \<Rightarrow> bool \<Rightarrow> nat list \<Rightarrow> tdom forest \<Rightarrow> tdom forest" where
  "move_dom ref bef ids es =
     (let new = filter (\<lambda>e. dn_id (label e) \<in> set ids) es; rest = filter (\<lambda>e. dn_id (label e) \<notin> set ids) es
      in case find_index (\<lambda>e. dn_id (label e) = ref) rest of
           None \<Rightarrow> es
         | Some i \<Rightarrow> let k = (if bef then i else i + 1) in take k rest @ new @ drop k rest)"

definition insert_nodes :: "nat \<Rightarrow> bool \<Rightarrow> tnode forest \<Rightarrow> tree \<Rightarrow> tree" where
  "insert_nodes ref bef data t =
     (if data = [] then t
      else (let place = get_parent ref t;
                new = map (td_domId \<circ> label) (fst (render_forest t (child_level place t) (tr_next t) data));
                t1 = append_nodes place data t
            in change_dom place (move_dom ref bef new) (change_data place (move_data ref bef (length data)) t1)))"

text \<open>\<open>_b0\<close>: a parent left without children becomes a leaf.\<close>

definition make_leaf :: "tdom \<Rightarrow> tdom" where
  "make_leaf r = r\<lparr>dn_folder := False, dn_hit := None, dn_indent := dn_indent r + 1, dn_ul := False\<rparr>"

definition remove_node :: "nat \<Rightarrow> tree \<Rightarrow> tree" where
  "remove_node i t =
     (let place = get_parent i t;
          t1 = t\<lparr>tr_data := prune (by_dom i) (tr_data t), tr_dom := prune (by_id i) (tr_dom t)\<rparr>
      in case place of
           None \<Rightarrow> t1
         | Some p \<Rightarrow>
             let t2 = (if data_kids p t1 = [] then set_element p make_leaf t1 else t1)
             in adjust_box p (update_node p None None None t2))"

text \<open>\<open>pop\<close> followed by the two ways to put the node back (\<open>_2d\<close> in \<open>_25\<close>, and \<open>_26\<close>)\<close>

definition append_popped :: "nat \<Rightarrow> nat \<Rightarrow> tree \<Rightarrow> tree" where
  "append_popped src target t =
     (case get_data src t of None \<Rightarrow> t | Some n \<Rightarrow> append_nodes (Some target) [n] (remove_node src t))"

definition drop_insert :: "nat \<Rightarrow> nat \<Rightarrow> bool \<Rightarrow> tree \<Rightarrow> tree" where
  "drop_insert src target bef t =
     (case get_data src t of None \<Rightarrow> t | Some n \<Rightarrow> insert_nodes target bef [n] (remove_node src t))"

section \<open>Expanding and collapsing\<close>

definition open_element :: "tdom \<Rightarrow> tdom" where
  "open_element r = r\<lparr>dn_hit := Some Expanded, dn_open := True, dn_shown := True\<rparr>"

definition close_element :: "tdom \<Rightarrow> tdom" where
  "close_element r = r\<lparr>dn_hit := Some Collapsed, dn_open := False, dn_shown := False\<rparr>"

text \<open>
  \<open>_83\<close>: a collapsed node opens at once if its list of children exists; otherwise an empty
  hidden list is made and the loader is asked (it does nothing without a URL). The only callback the
  code passes is the drop of a dragged node on a closed one: it runs once the node has been expanded.
\<close>

definition after_expand :: "nat \<Rightarrow> nat option \<Rightarrow> tree \<Rightarrow> tree" where
  "after_expand i drag t = (case drag of None \<Rightarrow> t | Some src \<Rightarrow> append_popped src i t)"

definition expand_with :: "nat option \<Rightarrow> nat \<Rightarrow> tree \<Rightarrow> tree" where
  "expand_with drag i t =
     (case (element i t, get_node i t) of
        (Some r, Some n) \<Rightarrow>
          if dn_hit r \<noteq> Some Collapsed \<or> \<not> tr_allow t BeforeExpand n then t
          else if dn_ul r then
            after_expand i drag (tree_note (OnExpand i) (set_node i (\<lambda>m. m\<lparr>td_state := Open\<rparr>) (set_element i open_element t)))
          else (set_element i (\<lambda>r. (open_element r)\<lparr>dn_ul := True, dn_shown := False\<rparr>) t)
                 \<lparr>tr_pending := if tr_remote t then tr_pending t @ [(i, drag)] else tr_pending t\<rparr>
      | _ \<Rightarrow> t)"

definition expand_node :: "nat \<Rightarrow> tree \<Rightarrow> tree" where
  "expand_node i t = expand_with None i t"

text \<open>\<open>_25\<close>: a drop on a closed node waits until it is expanded.\<close>

definition drop_append :: "nat \<Rightarrow> nat \<Rightarrow> tree \<Rightarrow> tree" where
  "drop_append src target t =
     (case get_node target t of
        None \<Rightarrow> t
      | Some n \<Rightarrow> if td_state n = Closed then expand_with (Some src) target t else append_popped src target t)"

definition collapse_node :: "nat \<Rightarrow> tree \<Rightarrow> tree" where
  "collapse_node i t =
     (case (element i t, get_node i t) of
        (Some r, Some n) \<Rightarrow>
          if dn_hit r \<noteq> Some Expanded \<or> \<not> tr_allow t BeforeCollapse n then t
          else tree_note (OnCollapse i) (set_node i (\<lambda>m. m\<lparr>td_state := Closed\<rparr>) (set_element i close_element t))
      | _ \<Rightarrow> t)"

definition toggle_node :: "nat \<Rightarrow> tree \<Rightarrow> tree" where
  "toggle_node i t =
     (case Option.bind (element i t) dn_hit of
        None \<Rightarrow> t | Some Expanded \<Rightarrow> collapse_node i t | Some Collapsed \<Rightarrow> expand_node i t)"

definition all_below :: "nat option \<Rightarrow> tree \<Rightarrow> nat list" where
  "all_below o' t = (case o' of None \<Rightarrow> [] | Some i \<Rightarrow> [i]) @ map td_domId (get_children o' t)"

definition expand_all :: "nat option \<Rightarrow> tree \<Rightarrow> tree" where
  "expand_all o' t = fold expand_node (all_below o' t) t"

definition collapse_all :: "nat option \<Rightarrow> tree \<Rightarrow> tree" where
  "collapse_all o' t = fold collapse_node (all_below o' t) t"

definition expand_to :: "nat \<Rightarrow> tree \<Rightarrow> tree" where
  "expand_to i t = fold expand_node (rev (parents i t)) t"

text \<open>The answer of the loader for a node: new children or an error, then the node is shown.\<close>

definition finish_expand :: "nat \<Rightarrow> tree \<Rightarrow> tree" where
  "finish_expand i t =
     tree_note (OnExpand i) (set_node i (\<lambda>m. m\<lparr>td_state := Open\<rparr>)
       (set_element i (\<lambda>r. r\<lparr>dn_ul := dom_kids i t \<noteq> [], dn_shown := True\<rparr>) t))"

definition loader_answer :: "nat \<Rightarrow> tnode forest option \<Rightarrow> tree \<Rightarrow> tree" where
  "loader_answer i o' t =
     (case find (\<lambda>r. fst r = i) (tr_pending t) of
        None \<Rightarrow> t
      | Some r \<Rightarrow>
          let t1 = t\<lparr>tr_pending := remove1 r (tr_pending t)\<rparr>
          in after_expand i (snd r)
               (finish_expand i (case o' of Some data \<Rightarrow> load_at (Some i) False data t1 | None \<Rightarrow> tree_note OnLoadError t1)))"

text \<open>
  \<open>reload\<close> of a node: its list of elements is thrown away and the node expanded again; its
  node objects stay until the loader answers.
\<close>

definition reload_node :: "nat \<Rightarrow> tree \<Rightarrow> tree" where
  "reload_node i t =
     expand_node i (change_dom (Some i) (\<lambda>es. [])
       (set_element i (\<lambda>r. r\<lparr>dn_hit := map_option (\<lambda>h. Collapsed) (dn_hit r), dn_ul := False\<rparr>) t))"

section \<open>Selecting, editing, filtering\<close>

definition select_node :: "nat \<Rightarrow> tree \<Rightarrow> tree" where
  "select_node i t =
     (case get_node i t of
        None \<Rightarrow> t
      | Some n \<Rightarrow>
          if tr_allow t BeforeSelect n
          then tree_note (OnSelect i) (t\<lparr>tr_dom := map (map_rose (\<lambda>r. r\<lparr>dn_selected := (dn_id r = i)\<rparr>)) (tr_dom t)\<rparr>)
          else t)"

definition end_edit :: "nat \<Rightarrow> string \<Rightarrow> tree \<Rightarrow> tree" where
  "end_edit i val t = update_node i None None None (set_node i (\<lambda>n. n\<lparr>td_text := val\<rparr>) t)"

definition show_hidden :: "nat \<Rightarrow> bool \<Rightarrow> tree \<Rightarrow> tree" where
  "show_hidden i h t = set_element i (\<lambda>r. r\<lparr>dn_hidden := h\<rparr>) (set_node i (\<lambda>n. n\<lparr>td_hidden := h\<rparr>) t)"

text \<open>\<open>_100\<close>: hide the nodes the filter rejects, then show the parents of those it accepts.\<close>

definition do_filter :: "string \<Rightarrow> tree \<Rightarrow> tree" where
  "do_filter q t =
     (let ns = walk (tr_data t);
          t1 = foldl (\<lambda>u n. show_hidden (td_domId n) (\<not> tr_filter t q n) u) t ns;
          ids = map td_domId (filter (tr_filter t q) ns)
      in foldl (\<lambda>u i. foldl (\<lambda>w p. show_hidden p False w) u (parents i u)) t1 ids)"

text \<open>The default filter: the text contains the query, upper and lower case alike.\<close>

definition default_filter :: "string \<Rightarrow> tnode \<Rightarrow> bool" where
  "default_filter q n = contains (to_lower q) (to_lower (td_text n))"

definition new_tree :: "bool \<Rightarrow> tree" where
  "new_tree checkbox =
     \<lparr>tr_checkbox = checkbox, tr_cascade = True, tr_onlyLeaf = False, tr_deep = False, tr_remote = False,
      tr_formatter = td_text, tr_filter = default_filter, tr_allow = (\<lambda>h n. True),
      tr_data = [], tr_dom = [], tr_next = 1, tr_pending = [], tr_log = []\<rparr>"

datatype tree_event = TrLoad "tnode forest" | TrAppend "nat option" "tnode forest" | TrInsert nat bool "tnode forest"
  | TrRemove nat | TrUpdate nat "string option" "string option" "bool option" | TrCheck nat "bool option"
  | TrExpand nat | TrCollapse nat | TrToggle nat | TrExpandAll "nat option" | TrCollapseAll "nat option" | TrExpandTo nat
  | TrAnswer nat "tnode forest option" | TrSelect nat | TrEdit nat string | TrFilter string
  | TrReload nat | TrDropAppend nat nat | TrDropInsert nat nat bool

definition tree_step :: "tree \<Rightarrow> tree_event \<Rightarrow> tree" where
  "tree_step t e =
     (case e of
        TrLoad ds \<Rightarrow> load_at None False ds t
      | TrAppend p ds \<Rightarrow> append_nodes p ds t
      | TrInsert r b ds \<Rightarrow> insert_nodes r b ds t
      | TrRemove i \<Rightarrow> remove_node i t
      | TrUpdate i x c k \<Rightarrow> update_node i x c k t
      | TrCheck i o' \<Rightarrow> check_node i o' t
      | TrExpand i \<Rightarrow> expand_node i t
      | TrCollapse i \<Rightarrow> collapse_node i t
      | TrToggle i \<Rightarrow> toggle_node i t
      | TrExpandAll o' \<Rightarrow> expand_all o' t
      | TrCollapseAll o' \<Rightarrow> collapse_all o' t
      | TrExpandTo i \<Rightarrow> expand_to i t
      | TrAnswer i o' \<Rightarrow> loader_answer i o' t
      | TrSelect i \<Rightarrow> select_node i t
      | TrEdit i v \<Rightarrow> end_edit i v t
      | TrFilter q \<Rightarrow> do_filter q t
      | TrReload i \<Rightarrow> reload_node i t
      | TrDropAppend s r \<Rightarrow> drop_append s r t
      | TrDropInsert s r b \<Rightarrow> drop_insert s r b t)"

end
