(* ===== verification/TreeShape.thy ===== *)
theory TreeShape
  imports Tree
begin

text \<open>
  The two trees of the tree widget stay in step: \<open>tree_ok\<close> says that the forest of DOM ids of
  the node objects is the forest of ids of the elements, that the ids are distinct and were given
  out by the counter. Every operation keeps it.
\<close>

section \<open>Operations that keep both shapes\<close>

definition data_shape :: "tree \<Rightarrow> nat forest" where
  "data_shape t = map (map_rose td_domId) (tr_data t)"

definition dom_shape :: "tree \<Rightarrow> nat forest" where
  "dom_shape t = map (map_rose dn_id) (tr_dom t)"

text \<open>Everything the invariant speaks about, as one value that most operations leave alone\<close>

definition shape :: "tree \<Rightarrow> nat forest \<times> nat forest \<times> nat" where
  "shape t = (data_shape t, dom_shape t, tr_next t)"

definition tree_ok :: "tree \<Rightarrow> bool" where
  "tree_ok t = (data_shape t = dom_shape t \<and> distinct (flabels (dom_shape t)) \<and> (\<forall>i \<in> set (flabels (dom_shape t)). i < tr_next t))"

lemma shape_ok: "shape t' = shape t \<Longrightarrow> tree_ok t' = tree_ok t"
  by (simp add: shape_def tree_ok_def)

lemma shape_eq: "shape t' = shape t \<longleftrightarrow> data_shape t' = data_shape t \<and> dom_shape t' = dom_shape t \<and> tr_next t' = tr_next t"
  by (simp add: shape_def)

lemma set_element_shape [simp]: "(\<And>r. dn_id (f r) = dn_id r) \<Longrightarrow> shape (set_element i f t) = shape t"
  by (simp add: shape_def set_element_def data_shape_def dom_shape_def map_rose_relabel)

lemma set_node_shape [simp]: "(\<And>n. td_domId (f n) = td_domId n) \<Longrightarrow> shape (set_node i f t) = shape t"
  by (simp add: shape_def set_node_def data_shape_def dom_shape_def map_rose_relabel)

lemma tree_note_shape [simp]: "shape (tree_note n t) = shape t"
  by (simp add: shape_def tree_note_def data_shape_def dom_shape_def)

lemma pending_shape [simp]: "shape (t\<lparr>tr_pending := p\<rparr>) = shape t"
  by (simp add: shape_def data_shape_def dom_shape_def)

lemma silently_shape [simp]: "shape (silently f t) = shape (f t)"
  by (simp add: shape_def silently_def data_shape_def dom_shape_def)

lemma foldl_shape: "(\<And>t x. shape (f t x) = shape t) \<Longrightarrow> shape (foldl f t xs) = shape t"
  by (induction xs arbitrary: t) simp_all

lemma fold_shape: "(\<And>t x. shape (f x t) = shape t) \<Longrightarrow> shape (fold f xs t) = shape t"
  by (induction xs arbitrary: t) simp_all

lemma dn_id_put_box [simp]: "dn_id (put_box v r) = dn_id r"
  by (simp add: put_box_def)

lemma set_box_shape [simp]: "shape (set_box i v t) = shape t"
  by (simp add: set_box_def)

lemma mark_node_shape [simp]: "shape (mark_node v t n) = shape t"
  by (simp add: mark_node_def Let_def split: option.split)

lemma check_down_shape [simp]: "shape (check_down v n t) = shape t"
proof -
  have "map_rose dn_id (change_kids (by_id i) (map (map_rose (put_box v))) e) = map_rose dn_id e" for e i
    by (induction e) (simp_all add: map_rose_same)
  then have "map (map_rose dn_id) (map (change_kids (by_id i) (map (map_rose (put_box v)))) es) = map (map_rose dn_id) es" for i es
    by simp
  then have "shape (u\<lparr>tr_dom := map (change_kids (by_id i) (map (map_rose (put_box v)))) (tr_dom u)\<rparr>) = shape u" for i u
    by (simp add: shape_def data_shape_def dom_shape_def)
  then show ?thesis by (simp add: check_down_def Let_def foldl_shape)
qed

lemma check_up_shape [simp]: "shape (check_up i ps t) = shape t"
  by (induction i ps t rule: check_up.induct) simp_all

lemma check_node_shape [simp]: "shape (check_node i o' t) = shape t"
  by (simp add: check_node_def Let_def split: option.split)

lemma update_node_shape [simp]: "shape (update_node i x c k t) = shape t"
  by (simp add: update_node_def Let_def split: option.split)

lemma initial_checks_shape [simp]: "shape (initial_checks ds t) = shape t"
  by (simp add: initial_checks_def Let_def foldl_shape split: option.split)

lemma adjust_box_shape [simp]: "shape (adjust_box i t) = shape t"
  by (simp add: adjust_box_def Let_def split: option.split)

lemma expand_node_shape [simp]: "shape (expand_node i t) = shape t"
  by (simp add: expand_node_def expand_with_def after_expand_def open_element_def split: option.split)

lemma collapse_node_shape [simp]: "shape (collapse_node i t) = shape t"
  by (simp add: collapse_node_def close_element_def split: option.split)

lemma toggle_node_shape [simp]: "shape (toggle_node i t) = shape t"
  by (simp add: toggle_node_def split: option.split tree_hit.split)

lemma select_node_shape [simp]: "shape (select_node i t) = shape t"
proof -
  have "shape (u\<lparr>tr_dom := map (map_rose (\<lambda>r. r\<lparr>dn_selected := (dn_id r = i)\<rparr>)) (tr_dom u)\<rparr>) = shape u" for u
    by (simp add: shape_def data_shape_def dom_shape_def map_rose_same)
  then show ?thesis by (simp add: select_node_def split: option.split)
qed

lemma show_hidden_shape [simp]: "shape (show_hidden i h t) = shape t"
  by (simp add: show_hidden_def)

lemma do_filter_shape [simp]: "shape (do_filter q t) = shape t"
  by (simp add: do_filter_def Let_def foldl_shape)

lemma end_edit_shape [simp]: "shape (end_edit i v t) = shape t"
  by (simp add: end_edit_def)

lemma finish_expand_shape [simp]: "shape (finish_expand i t) = shape t"
  by (simp add: finish_expand_def)

lemma expand_many_shape [simp]:
  "shape (expand_all o' t) = shape t" "shape (collapse_all o' t) = shape t" "shape (expand_to i t) = shape t"
  by (simp_all add: expand_all_def collapse_all_def expand_to_def fold_shape)

section \<open>Loading\<close>

definition at_place :: "nat option \<Rightarrow> (nat forest \<Rightarrow> nat forest) \<Rightarrow> nat forest \<Rightarrow> nat forest" where
  "at_place place g s = (case place of None \<Rightarrow> g s | Some p \<Rightarrow> at_key p g s)"

definition known :: "nat \<Rightarrow> tree \<Rightarrow> bool" where
  "known i t = (i \<in> set (flabels (dom_shape t)))"

definition place_known :: "nat option \<Rightarrow> tree \<Rightarrow> bool" where
  "place_known place t = (case place of None \<Rightarrow> True | Some p \<Rightarrow> known p t)"

lemma at_place_twice: "at_place place h (at_place place g s) = at_place place (h \<circ> g) s"
  by (simp add: at_place_def at_key_twice split: option.split)

lemma at_place_cong:
  "(\<And>us. set (flabels us) \<subseteq> set (flabels s) \<Longrightarrow> g us = h us) \<Longrightarrow> at_place place g s = at_place place h s"
  by (cases place) (auto simp: at_place_def intro: at_key_cong)

lemma known_shape: "shape t' = shape t \<Longrightarrow> known i t' = known i t"
  by (simp add: known_def shape_def)

lemma upt_split: "i \<le> j \<Longrightarrow> j \<le> k \<Longrightarrow> [i..<k] = [i..<j] @ [j..<k]"
  by (metis le_Suc_ex upt_add_eq_append)

lemma render_numbers:
  "map (map_rose td_domId) (fst (render_forest t lev c ds)) = map (map_rose dn_id) (fst (snd (render_forest t lev c ds)))
   \<and> flabels (map (map_rose dn_id) (fst (snd (render_forest t lev c ds)))) = [c..<snd (snd (render_forest t lev c ds))]
   \<and> c \<le> snd (snd (render_forest t lev c ds)) \<and> length (fst (render_forest t lev c ds)) = length ds"
proof (induction ds arbitrary: lev c rule: forest_induct)
  case (Node n ns rest)
  define n1 where "n1 = n\<lparr>td_state := if td_state n = NoState then Open else td_state n, td_domId := c\<rparr>"
  define r1 where "r1 = render_forest t (lev + 1) (c + 1) ns"
  define r2 where "r2 = render_forest t lev (snd (snd r1)) rest"
  have r: "render_forest t lev c (Node n ns # rest)
      = (Node n1 (fst r1) # fst r2, Node (new_element t lev n1 (ns \<noteq> [])) (fst (snd r1)) # fst (snd r2), snd (snd r2))"
    by (simp add: Let_def r1_def r2_def n1_def)
  have ih1: "c + 1 \<le> snd (snd r1)" "map (map_rose td_domId) (fst r1) = map (map_rose dn_id) (fst (snd r1))"
    "flabels (map (map_rose dn_id) (fst (snd r1))) = [c + 1..<snd (snd r1)]"
    using Node.IH(1) [of "lev + 1" "c + 1"] by (auto simp only: r1_def)
  have ih2: "snd (snd r1) \<le> snd (snd r2)" "map (map_rose td_domId) (fst r2) = map (map_rose dn_id) (fst (snd r2))"
    "flabels (map (map_rose dn_id) (fst (snd r2))) = [snd (snd r1)..<snd (snd r2)]" "length (fst r2) = length rest"
    using Node.IH(2) [of lev "snd (snd r1)"] by (auto simp only: r2_def)
  have "[c..<snd (snd r2)] = c # [c + 1..<snd (snd r1)] @ [snd (snd r1)..<snd (snd r2)]"
    using upt_split [OF ih1(1) ih2(1)] ih1(1) ih2(1) by (simp add: upt_conv_Cons)
  moreover have "td_domId n1 = c" "dn_id (new_element t lev n1 b) = td_domId n1" for b
    by (simp_all add: new_element_def n1_def Let_def)
  ultimately show ?case
    unfolding r using ih1 ih2 by (simp del: flabels_map_rose)
qed simp

lemma render_indep:
  "map (map_rose td_domId) (fst (render_forest t lev c ds)) = map (map_rose td_domId) (fst (render_forest t' lev' c ds))
   \<and> snd (snd (render_forest t lev c ds)) = snd (snd (render_forest t' lev' c ds))"
proof (induction ds arbitrary: lev lev' c rule: forest_induct)
  case (Node n ns rest)
  show ?case
    using Node.IH(1) [of "lev + 1" "c + 1" "lev' + 1"]
      Node.IH(2) [of lev "snd (snd (render_forest t' (lev' + 1) (c + 1) ns))" lev']
    by (simp add: Let_def)
qed simp

text \<open>The ids the nodes loaded next are given, as a forest\<close>

definition new_ids :: "tree \<Rightarrow> tnode forest \<Rightarrow> nat forest" where
  "new_ids t data = map (map_rose td_domId) (fst (render_forest t 0 (tr_next t) data))"

definition new_next :: "tree \<Rightarrow> tnode forest \<Rightarrow> nat" where
  "new_next t data = snd (snd (render_forest t 0 (tr_next t) data))"

lemma flabels_new_ids: "flabels (new_ids t data) = [tr_next t..<new_next t data]"
  using render_numbers [of t 0 "tr_next t" data] by (simp add: new_ids_def new_next_def)

lemma new_next_le: "tr_next t \<le> new_next t data"
  using render_numbers [of t 0 "tr_next t" data] by (simp add: new_next_def)

lemma new_ids_shape: "shape t' = shape t \<Longrightarrow> new_ids t' data = new_ids t data \<and> new_next t' data = new_next t data"
  using render_indep [of t 0 "tr_next t" data t' 0] by (simp add: new_ids_def new_next_def shape_def)

lemma render_new_ids:
  "map (map_rose td_domId) (fst (render_forest t lev (tr_next t) data)) = new_ids t data"
  "map (map_rose dn_id) (fst (snd (render_forest t lev (tr_next t) data))) = new_ids t data"
  "snd (snd (render_forest t lev (tr_next t) data)) = new_next t data"
  using render_numbers [of t lev "tr_next t" data] render_indep [of t lev "tr_next t" data t 0]
  by (simp_all add: new_ids_def new_next_def)

lemma flabels_data_shape: "flabels (data_shape t) = map td_domId (flabels (tr_data t))"
  by (simp add: data_shape_def)

lemma flabels_dom_shape: "flabels (dom_shape t) = map dn_id (flabels (tr_dom t))"
  by (simp add: dom_shape_def)

lemma get_node_None: "get_node i t = None \<longleftrightarrow> i \<notin> set (flabels (data_shape t))"
  by (auto simp: get_node_def find_node_def walk_flabels find_None_iff flabels_data_shape by_dom_def)

lemma data_place_known: "tree_ok t \<Longrightarrow> place_known place t \<Longrightarrow> data_place place t = place"
  by (auto simp: data_place_def get_node_None place_known_def known_def tree_ok_def split: option.split)

lemma change_shape:
  assumes "\<And>ns. map (map_rose td_domId) (g ns) = h (map (map_rose td_domId) ns)"
  shows "data_shape (change_data place g t) = at_place place h (data_shape t)"
    and "dom_shape (change_data place g t) = dom_shape t"
    and "tr_next (change_data place g t) = tr_next t"
  by (simp_all add: change_data_def data_shape_def dom_shape_def at_place_def at_key_def map_rose_change_kids [where Q = "\<lambda>x. x = _"] assms
      by_dom_def split: option.split)

lemma change_dom_shape:
  assumes "\<And>ns. map (map_rose dn_id) (g ns) = h (map (map_rose dn_id) ns)"
  shows "dom_shape (change_dom place g t) = at_place place h (dom_shape t)"
    and "data_shape (change_dom place g t) = data_shape t"
    and "tr_next (change_dom place g t) = tr_next t"
  by (simp_all add: change_dom_def data_shape_def dom_shape_def at_place_def at_key_def map_rose_change_kids [where Q = "\<lambda>x. x = _"] assms
      by_id_def split: option.split)

definition put_kids :: "bool \<Rightarrow> nat forest \<Rightarrow> nat forest \<Rightarrow> nat forest" where
  "put_kids app new us = (if app then us else []) @ new"

lemma load_shape_at:
  assumes "data_place place t = place"
  shows "shape (load_at place app data t)
    = (at_place place (put_kids app (new_ids t data)) (data_shape t),
       at_place place (put_kids app (new_ids t data)) (dom_shape t), new_next t data)"
proof -
  define r where "r = render_forest t (child_level place t) (tr_next t) data"
  define u where "u = change_dom place (\<lambda>es. (if app then es else []) @ fst (snd r))
                 (change_data place (\<lambda>ns. (if app then ns else []) @ fst r) (t\<lparr>tr_next := snd (snd r)\<rparr>))"
  have "shape (load_at place app data t) = shape u"
    unfolding load_at_def Let_def assms r_def [symmetric] u_def [symmetric]
    by (simp split: option.split)
  moreover have "map (map_rose td_domId) ((if app then ns else []) @ fst r) = put_kids app (new_ids t data) (map (map_rose td_domId) ns)" for ns
    by (simp add: put_kids_def r_def render_new_ids)
  moreover have "map (map_rose dn_id) ((if app then ns else []) @ fst (snd r)) = put_kids app (new_ids t data) (map (map_rose dn_id) ns)" for ns
    by (simp add: put_kids_def r_def render_new_ids)
  moreover have "data_shape (t\<lparr>tr_next := k\<rparr>) = data_shape t" "dom_shape (t\<lparr>tr_next := k\<rparr>) = dom_shape t" for k
    by (simp_all add: data_shape_def dom_shape_def)
  ultimately show ?thesis
    unfolding shape_def by (simp add: u_def change_shape change_dom_shape) (simp add: r_def render_new_ids)
qed

lemma load_shape:
  assumes "tree_ok t" "place_known place t"
  shows "shape (load_at place app data t)
    = (at_place place (put_kids app (new_ids t data)) (data_shape t),
       at_place place (put_kids app (new_ids t data)) (dom_shape t), new_next t data)"
  by (rule load_shape_at [OF data_place_known [OF assms]])

text \<open>Any change that brings in only new ids keeps the invariant.\<close>

lemma at_place_ok:
  assumes "tree_ok t" and "shape t' = (at_place place g (data_shape t), at_place place g (dom_shape t), k)"
    and "tr_next t \<le> k"
    and "\<And>us. distinct (flabels us) \<Longrightarrow> set (flabels us) \<subseteq> set (flabels (dom_shape t)) \<Longrightarrow>
      distinct (flabels (g us)) \<and> set (flabels (g us)) \<subseteq> set (flabels us) \<union> {tr_next t..<k}"
  shows "tree_ok t'"
proof -
  have fresh: "{tr_next t..<k} \<inter> set (flabels (dom_shape t)) = {}" using assms(1) by (auto simp: tree_ok_def)
  have d: "distinct (flabels (dom_shape t))" using assms(1) by (simp add: tree_ok_def)
  have "distinct (flabels (at_place place g (dom_shape t))) \<and>
      set (flabels (at_place place g (dom_shape t))) \<subseteq> set (flabels (dom_shape t)) \<union> {tr_next t..<k}"
  proof (cases place)
    case None
    then show ?thesis using assms(4) [OF d] by (simp add: at_place_def)
  next
    case (Some p)
    show ?thesis unfolding Some at_place_def option.case by (rule at_key_distinct [OF d fresh]) (rule assms(4))
  qed
  with assms show ?thesis by (fastforce simp: tree_ok_def shape_def)
qed

lemma put_kids_fresh:
  assumes "tree_ok t" "distinct (flabels us)" "set (flabels us) \<subseteq> set (flabels (dom_shape t))"
  shows "distinct (flabels (put_kids app (new_ids t data) us)) \<and>
    set (flabels (put_kids app (new_ids t data) us)) \<subseteq> set (flabels us) \<union> {tr_next t..<new_next t data}"
proof -
  have "\<forall>i \<in> set (flabels us). i < tr_next t" using assms by (auto simp: tree_ok_def)
  with assms(2) show ?thesis by (cases app) (auto simp: put_kids_def flabels_new_ids)
qed

lemma tree_load_ok:
  assumes "tree_ok t" "place_known place t"
  shows "tree_ok (load_at place app data t)"
  by (rule at_place_ok [OF assms(1) load_shape [OF assms] new_next_le put_kids_fresh [OF assms(1)]])

section \<open>Appending\<close>

lemma ok_cong: "shape t' = shape t \<Longrightarrow> place_known place t' = place_known place t"
  by (simp add: place_known_def known_def shape_def split: option.split)

lemma append_shape:
  assumes "tree_ok t" "place_known place t" "data \<noteq> []"
  shows "shape (append_nodes place data t)
    = (at_place place (put_kids True (new_ids t data)) (data_shape t),
       at_place place (put_kids True (new_ids t data)) (dom_shape t), new_next t data)"
proof (cases place)
  case None
  with assms show ?thesis using load_shape [of t None True data] by (simp add: append_nodes_def)
next
  case (Some p)
  define u where "u = set_element p make_folder t"
  have u: "shape u = shape t" by (simp add: u_def make_folder_def)
  have "shape (append_nodes place data t) = shape (load_at place True data u)"
    using Some assms(3) by (simp add: append_nodes_def u_def)
  also have "\<dots> = (at_place place (put_kids True (new_ids u data)) (data_shape u),
      at_place place (put_kids True (new_ids u data)) (dom_shape u), new_next u data)"
    by (rule load_shape) (simp_all only: shape_ok [OF u] ok_cong [OF u] assms)
  finally show ?thesis using u new_ids_shape [OF u, of data] unfolding shape_def by (simp only: prod.inject)
qed

lemma append_ok:
  assumes "tree_ok t" "place_known place t"
  shows "tree_ok (append_nodes place data t)"
proof (cases "data = []")
  case False
  show ?thesis
    by (rule at_place_ok [OF assms(1) append_shape [OF assms False] new_next_le put_kids_fresh [OF assms(1)]])
qed (use assms in \<open>simp add: append_nodes_def\<close>)

section \<open>Inserting\<close>

text \<open>Both moves are the same insertion next to the reference node.\<close>

definition put_beside :: "nat \<Rightarrow> bool \<Rightarrow> nat forest \<Rightarrow> nat forest \<Rightarrow> nat forest" where
  "put_beside ref bef new us =
     (case find_index (\<lambda>u. label u = ref) us of
        None \<Rightarrow> us @ new
      | Some i \<Rightarrow> let k = (if bef then i else i + 1) in take k us @ new @ drop k us)"

lemma find_index_map: "find_index P (map f xs) = find_index (P \<circ> f) xs"
  by (induction xs) auto

lemma find_index_append: "find_index P (xs @ ys) = (case find_index P xs of Some i \<Rightarrow> Some i | None \<Rightarrow> map_option ((+) (length xs)) (find_index P ys))"
  by (induction xs) (auto split: option.splits simp: option.map_comp o_def option.map_ident map_option_case)

lemma splice_in_end:
  assumes "k \<le> length us"
  shows "splice_in k new (us @ new) = take k us @ new @ drop k us"
proof -
  have "foldl (\<lambda>a x. insert_at k x a) (xs @ ys) zs = xs @ rev zs @ ys" if "length xs = k" for xs ys zs
    using that by (induction zs arbitrary: ys) (simp_all add: insert_at_def)
  from this [of "take k us" "drop k us @ new" "rev new"] assms
  have "foldl (\<lambda>a x. insert_at k x a) (us @ new) (rev new) = take k us @ new @ drop k us @ new"
    by (simp add: append_take_drop_id flip: append_assoc)
  then show ?thesis using assms by (simp add: splice_in_def)
qed

definition move_data_ids :: "nat \<Rightarrow> bool \<Rightarrow> nat \<Rightarrow> nat forest \<Rightarrow> nat forest" where
  "move_data_ids ref bef k ns =
     (case find_index (\<lambda>n. label n = ref) ns of
        None \<Rightarrow> ns
      | Some i \<Rightarrow> splice_in (if bef then i else i + 1) (drop (length ns - k) ns) ns)"

definition move_dom_ids :: "nat \<Rightarrow> bool \<Rightarrow> nat list \<Rightarrow> nat forest \<Rightarrow> nat forest" where
  "move_dom_ids ref bef ids es =
     (let new = filter (\<lambda>e. label e \<in> set ids) es; rest = filter (\<lambda>e. label e \<notin> set ids) es
      in case find_index (\<lambda>e. label e = ref) rest of
           None \<Rightarrow> es
         | Some i \<Rightarrow> let k = (if bef then i else i + 1) in take k rest @ new @ drop k rest)"

lemma map_splice_in: "map f (splice_in k new xs) = splice_in k (map f new) (map f xs)"
proof -
  have "map f (foldl (\<lambda>a x. insert_at k x a) xs ys) = foldl (\<lambda>a x. insert_at k x a) (map f xs) (map f ys)" for xs ys
    by (induction ys arbitrary: xs) (simp_all add: insert_at_def take_map drop_map)
  from this [of xs "rev new"] show ?thesis by (simp add: splice_in_def rev_map flip: take_map)
qed

lemma map_move_data: "map (map_rose td_domId) (move_data ref bef k ns) = move_data_ids ref bef k (map (map_rose td_domId) ns)"
  by (simp add: move_data_def move_data_ids_def find_index_map o_def rose.map_sel map_splice_in drop_map split: option.split)

lemma map_move_dom: "map (map_rose dn_id) (move_dom ref bef ids es) = move_dom_ids ref bef ids (map (map_rose dn_id) es)"
  by (simp add: move_dom_def move_dom_ids_def Let_def find_index_map filter_map o_def rose.map_sel take_map drop_map split: option.split)

lemma label_in_flabels: "u \<in> set us \<Longrightarrow> label u \<in> set (flabels us)"
  by (cases u) (force simp: flabels_def)

lemma move_data_beside:
  assumes "ref \<notin> label ` set new"
  shows "move_data_ids ref bef (length new) (us @ new) = put_beside ref bef new us"
proof -
  have "find_index (\<lambda>n. label n = ref) new = None" using assms by (auto simp: find_index_None)
  then show ?thesis
    using find_index_Some [of "\<lambda>n. label n = ref" us]
    by (auto simp: move_data_ids_def put_beside_def find_index_append splice_in_end Let_def Suc_le_eq split: option.splits)
qed

lemma move_dom_beside:
  assumes "label ` set new = set ids" "label ` set us \<inter> set ids = {}" 
  shows "move_dom_ids ref bef ids (us @ new) = put_beside ref bef new us"
proof -
  have "filter (\<lambda>e. label e \<in> set ids) us = []" "filter (\<lambda>e. label e \<notin> set ids) us = us"
    using assms(2) by (auto simp: filter_empty_conv filter_id_conv)
  moreover have "filter (\<lambda>e. label e \<in> set ids) new = new" "filter (\<lambda>e. label e \<notin> set ids) new = []"
    using assms(1) by (auto simp: filter_empty_conv filter_id_conv)
  ultimately show ?thesis by (simp add: move_dom_ids_def put_beside_def Let_def split: option.split)
qed

lemma put_beside_fresh:
  assumes "tree_ok t" "distinct (flabels us)" "set (flabels us) \<subseteq> set (flabels (dom_shape t))"
  shows "distinct (flabels (put_beside ref bef (new_ids t data) us)) \<and>
    set (flabels (put_beside ref bef (new_ids t data) us)) \<subseteq> set (flabels us) \<union> {tr_next t..<new_next t data}"
proof -
  have "\<exists>xs ys. us = xs @ ys \<and> put_beside ref bef (new_ids t data) us = xs @ new_ids t data @ ys"
  proof (cases "find_index (\<lambda>u. label u = ref) us")
    case None
    then show ?thesis by (intro exI [of _ us] exI [of _ "[]"]) (simp add: put_beside_def)
  next
    case (Some i)
    define k where "k = (if bef then i else i + 1)"
    show ?thesis
      by (intro exI [of _ "take k us"] exI [of _ "drop k us"]) (simp add: put_beside_def Some k_def)
  qed
  then obtain xs ys where "us = xs @ ys" "put_beside ref bef (new_ids t data) us = xs @ new_ids t data @ ys" by blast
  moreover have "set (flabels us) \<inter> {tr_next t..<new_next t data} = {}" using assms by (fastforce simp: tree_ok_def)
  ultimately show ?thesis using assms(2) by (auto simp: flabels_new_ids)
qed

lemma ancestors_parent: "ancestors P ts = Some (p # ps) \<Longrightarrow> p \<in> set (flabels ts)"
  using ancestors_labels by fastforce

lemma get_parent_known: "get_parent i t = Some p \<Longrightarrow> known p t"
  by (auto simp: get_parent_def parents_def known_def flabels_dom_shape split: option.splits list.splits dest!: ancestors_parent)

lemma parent_place_known: "place_known (get_parent i t) t"
  by (auto simp: place_known_def intro: get_parent_known split: option.split)

lemma insert_shape:
  assumes "tree_ok t" "known ref t" "data \<noteq> []"
  shows "shape (insert_nodes ref bef data t)
    = (at_place (get_parent ref t) (put_beside ref bef (new_ids t data)) (data_shape t),
       at_place (get_parent ref t) (put_beside ref bef (new_ids t data)) (dom_shape t), new_next t data)"
proof -
  define g where "g = put_beside ref bef (new_ids t data)"
  define place where "place = get_parent ref t"
  define t1 where "t1 = append_nodes place data t"
  define ids where "ids = map (td_domId \<circ> label) (fst (render_forest t (child_level place t) (tr_next t) data))"
  define N where "N = new_ids t data"
  have ids: "ids = map label N"
    using render_new_ids(1) [of t "child_level place t" data, symmetric] by (simp add: ids_def N_def rose.map_sel o_def)
  have len: "length N = length data"
    using conjunct2 [OF conjunct2 [OF conjunct2 [OF render_numbers [of t 0 "tr_next t" data]]]] by (simp add: N_def new_ids_def)
  have old: "\<forall>i \<in> set (flabels (dom_shape t)). i < tr_next t" using assms(1) by (simp add: tree_ok_def)
  have newer: "label ` set N \<subseteq> {tr_next t..<new_next t data}"
    using label_in_flabels [of _ N] by (auto simp: N_def flabels_new_ids)
  have "ref \<notin> label ` set N" using assms(2) old newer by (force simp: known_def)
  then have data: "(move_data_ids ref bef (length data) \<circ> put_kids True N) us = g us" for us
    using move_data_beside [of ref N bef us] by (simp add: put_kids_def g_def N_def [symmetric] len)
  have dom: "(move_dom_ids ref bef ids \<circ> put_kids True N) us = g us" if "set (flabels us) \<subseteq> set (flabels (dom_shape t))" for us
  proof -
    have "label ` set us \<inter> set ids = {}" unfolding ids set_map using that old newer label_in_flabels [of _ us] by fastforce
    then show ?thesis using move_dom_beside [of N ids us] by (simp add: put_kids_def g_def N_def [symmetric] ids)
  qed
  have t1: "shape t1 = (at_place place (put_kids True N) (data_shape t), at_place place (put_kids True N) (dom_shape t), new_next t data)"
    unfolding t1_def N_def by (rule append_shape [OF assms(1) _ assms(3)]) (simp add: place_def parent_place_known)
  have "at_place place (move_data_ids ref bef (length data)) (data_shape t1) = at_place place g (data_shape t)"
    using t1 data by (auto simp: shape_def at_place_twice intro: at_place_cong)
  moreover have "at_place place (move_dom_ids ref bef ids) (dom_shape t1) = at_place place g (dom_shape t)"
    using t1 dom by (auto simp: shape_def at_place_twice intro: at_place_cong)
  moreover have "insert_nodes ref bef data t
      = change_dom place (move_dom ref bef ids) (change_data place (move_data ref bef (length data)) t1)"
    using assms(3) by (simp add: insert_nodes_def Let_def place_def [symmetric] t1_def ids_def)
  ultimately show ?thesis
    using t1 by (simp add: shape_def place_def [symmetric] g_def [symmetric] 
        change_dom_shape [where h = "move_dom_ids ref bef ids", OF map_move_dom]
        change_shape [where h = "move_data_ids ref bef (length data)", OF map_move_data])
qed

lemma insert_ok:
  assumes "tree_ok t" "known ref t"
  shows "tree_ok (insert_nodes ref bef data t)"
proof (cases "data = []")
  case False
  show ?thesis
    by (rule at_place_ok [OF assms(1) insert_shape [OF assms False] new_next_le put_beside_fresh [OF assms(1)]])
qed (use assms in \<open>simp add: insert_nodes_def\<close>)

section \<open>Removing and dropping\<close>

lemma remove_shape:
  "shape (remove_node i t) = (prune (\<lambda>x. x = i) (data_shape t), prune (\<lambda>x. x = i) (dom_shape t), tr_next t)"
proof -
  define u where "u = t\<lparr>tr_data := prune (by_dom i) (tr_data t), tr_dom := prune (by_id i) (tr_dom t)\<rparr>"
  have "shape (remove_node i t) = shape u"
    by (simp add: remove_node_def Let_def u_def [symmetric] make_leaf_def split: option.split)
  also have "\<dots> = (prune (\<lambda>x. x = i) (data_shape t), prune (\<lambda>x. x = i) (dom_shape t), tr_next t)"
    by (simp add: u_def shape_def data_shape_def dom_shape_def map_rose_prune [where Q = "\<lambda>x. x = i"] by_dom_def by_id_def)
  finally show ?thesis .
qed

lemma remove_ok: "tree_ok t \<Longrightarrow> tree_ok (remove_node i t)"
  using remove_shape [of i t] flabels_prune [of "\<lambda>x. x = i" "dom_shape t"] by (auto simp: tree_ok_def shape_def)

lemma known_remove: "known j (remove_node i t) = (j \<in> set (flabels (prune (\<lambda>x. x = i) (dom_shape t))))"
  using remove_shape [of i t] by (simp add: known_def shape_def)

text \<open>A dragged node may be dropped on a node that is still there when it has been taken out.\<close>

definition drop_ok :: "nat \<Rightarrow> nat \<Rightarrow> tree \<Rightarrow> bool" where
  "drop_ok src target t = (known src t \<longrightarrow> known target (remove_node src t))"

lemma get_data_known: "get_data i t = Some n \<Longrightarrow> tree_ok t \<Longrightarrow> known i t"
proof -
  assume "get_data i t = Some n" "tree_ok t"
  then have "find_tree (by_dom i) (tr_data t) \<noteq> None" by (auto simp: get_data_def)
  then have "i \<in> set (flabels (data_shape t))" by (auto simp: find_tree_None flabels_data_shape by_dom_def)
  with \<open>tree_ok t\<close> show ?thesis by (simp add: known_def tree_ok_def)
qed

lemma append_popped_ok: "tree_ok t \<Longrightarrow> drop_ok src target t \<Longrightarrow> tree_ok (append_popped src target t)"
  by (auto simp: append_popped_def drop_ok_def place_known_def dest: get_data_known intro!: append_ok remove_ok split: option.split)

lemma drop_insert_ok: "tree_ok t \<Longrightarrow> drop_ok src target t \<Longrightarrow> tree_ok (drop_insert src target bef t)"
  by (auto simp: drop_insert_def drop_ok_def dest: get_data_known intro!: insert_ok remove_ok split: option.split)

definition drag_ok :: "nat option \<Rightarrow> nat \<Rightarrow> tree \<Rightarrow> bool" where
  "drag_ok drag i t = (case drag of None \<Rightarrow> True | Some src \<Rightarrow> drop_ok src i t)"

lemma after_expand_ok: "tree_ok t \<Longrightarrow> drag_ok drag i t \<Longrightarrow> tree_ok (after_expand i drag t)"
  by (auto simp: after_expand_def drag_ok_def intro: append_popped_ok split: option.split)

lemma drag_ok_shape: "shape t' = shape t \<Longrightarrow> drag_ok drag i t' = drag_ok drag i t"
  using known_shape [of t' t] by (simp add: drag_ok_def drop_ok_def known_remove shape_eq split: option.split)

lemma expand_with_ok:
  assumes "tree_ok t" "drag_ok drag i t"
  shows "tree_ok (expand_with drag i t)"
proof -
  define u where "u = tree_note (OnExpand i) (set_node i (\<lambda>m. m\<lparr>td_state := Open\<rparr>) (set_element i open_element t))"
  define w where "w = (set_element i (\<lambda>r. (open_element r)\<lparr>dn_ul := True, dn_shown := False\<rparr>) t)
                 \<lparr>tr_pending := if tr_remote t then tr_pending t @ [(i, drag)] else tr_pending t\<rparr>"
  have u: "shape u = shape t" and w: "shape w = shape t" by (simp_all add: u_def w_def open_element_def)
  then have "tree_ok (after_expand i drag u)" "tree_ok w"
    using assms by (simp_all only: shape_ok [OF u] shape_ok [OF w] after_expand_ok drag_ok_shape [OF u])
  then show ?thesis
    using assms(1) unfolding expand_with_def u_def [symmetric] w_def [symmetric]
    by (simp split: option.split)
qed

lemma drop_append_ok: "tree_ok t \<Longrightarrow> drop_ok src target t \<Longrightarrow> tree_ok (drop_append src target t)"
  by (auto simp: drop_append_def drag_ok_def intro!: append_popped_ok expand_with_ok split: option.split)

section \<open>The loader's answer\<close>

text \<open>The tree when a loader's answer has been shown, before a waiting drop is done\<close>

definition answered :: "nat \<Rightarrow> tnode forest option \<Rightarrow> tree \<Rightarrow> tree" where
  "answered i o' t = finish_expand i (case o' of Some data \<Rightarrow> load_at (Some i) False data t | None \<Rightarrow> tree_note OnLoadError t)"

lemma answered_ok: "tree_ok t \<Longrightarrow> known i t \<Longrightarrow> tree_ok (answered i o' t)"
  by (auto simp: answered_def shape_ok [OF finish_expand_shape] shape_ok [OF tree_note_shape] place_known_def
      intro: tree_load_ok split: option.split)

definition answer_ok :: "nat \<Rightarrow> tnode forest option \<Rightarrow> tree \<Rightarrow> bool" where
  "answer_ok i o' t =
     (case find (\<lambda>r. fst r = i) (tr_pending t) of
        None \<Rightarrow> True
      | Some r \<Rightarrow> known i t \<and> drag_ok (snd r) i (answered i o' (t\<lparr>tr_pending := remove1 r (tr_pending t)\<rparr>)))"

lemma loader_answer_ok:
  assumes "tree_ok t" "answer_ok i o' t"
  shows "tree_ok (loader_answer i o' t)"
proof (cases "find (\<lambda>r. fst r = i) (tr_pending t)")
  case None
  with assms show ?thesis by (simp add: loader_answer_def)
next
  case (Some r)
  define t1 where "t1 = t\<lparr>tr_pending := remove1 r (tr_pending t)\<rparr>"
  have t1: "shape t1 = shape t" by (simp add: t1_def)
  have "loader_answer i o' t = after_expand i (snd r) (answered i o' t1)"
    by (simp add: loader_answer_def Some Let_def answered_def t1_def)
  moreover have "tree_ok (answered i o' t1)"
    using assms Some by (intro answered_ok) (simp_all add: shape_ok [OF t1] known_shape [OF t1] answer_ok_def)
  ultimately show ?thesis using assms(2) Some by (simp add: after_expand_ok answer_ok_def t1_def)
qed

section \<open>Sessions\<close>

text \<open>
  An event is possible if the nodes it names are in the tree (a caller gets them from it), a
  drag is dropped outside the dragged subtree (the droppables below it are disabled) and a
  loader answers for a node that is still there. \<open>reload\<close> keeps the trees apart until its answer comes,
  and is treated with it.
\<close>

definition event_ok :: "tree \<Rightarrow> tree_event \<Rightarrow> bool" where
  "event_ok t e =
     (case e of
        TrAppend p ds \<Rightarrow> place_known p t
      | TrInsert r b ds \<Rightarrow> known r t
      | TrAnswer i o' \<Rightarrow> answer_ok i o' t
      | TrDropAppend s r \<Rightarrow> drop_ok s r t
      | TrDropInsert s r b \<Rightarrow> drop_ok s r t
      | TrReload i \<Rightarrow> False
      | _ \<Rightarrow> True)"


lemmas step_shape_ok =
  shape_ok [OF update_node_shape]
  shape_ok [OF check_node_shape]
  shape_ok [OF expand_node_shape]
  shape_ok [OF collapse_node_shape]
  shape_ok [OF toggle_node_shape]
  shape_ok [OF expand_many_shape(1)]
  shape_ok [OF expand_many_shape(2)]
  shape_ok [OF expand_many_shape(3)]
  shape_ok [OF select_node_shape]
  shape_ok [OF end_edit_shape]
  shape_ok [OF do_filter_shape]

lemma tree_step_ok: "tree_ok t \<Longrightarrow> event_ok t e \<Longrightarrow> tree_ok (tree_step t e)"
  by (cases e)
     (simp_all only: tree_event.case tree_step_def event_ok_def step_shape_ok tree_load_ok append_ok insert_ok remove_ok place_known_def
        option.case loader_answer_ok drop_append_ok drop_insert_ok)

interpretation tree_widget: guarded_machine "\<lambda>t e. Some (tree_step t e)" event_ok tree_ok
  by unfold_locales (auto intro: tree_step_ok)

lemma run_tree_steps: "run_events (\<lambda>t e. Some (tree_step t e)) t es = Some (foldl tree_step t es)"
  by (induction es arbitrary: t) simp_all

lemma tree_session_ok:
  "tree_ok t \<Longrightarrow> along (\<lambda>t e. Some (tree_step t e)) event_ok t es \<Longrightarrow> tree_ok (foldl tree_step t es)"
  using tree_widget.inv_along [OF _ _ run_tree_steps] by blast

end
