(* ===== verification/TreeCheck.thy ===== *)
theory TreeCheck
  imports TreeShape
begin

text \<open>
  The check boxes of the tree widget: the three loops of \<open>_34\<close> (down over the node objects, up
  over the elements, each through searches by id) refine a single recursion over the elements,
  \<open>check_at\<close>, and keep the boxes consistent: every parent shows what its children say.
\<close>

section \<open>The reference\<close>

text \<open>What a parent shows: checked or unchecked if all children are, else indeterminate\<close>

definition tri :: "tdom forest \<Rightarrow> nat" where
  "tri es = (if list_all (\<lambda>e. dn_box (label e) = Some 1) es then 1
             else if list_all (\<lambda>e. dn_box (label e) = Some 0) es then 0 else 2)"

fun climb :: "nat \<Rightarrow> tdom forest \<Rightarrow> tdom forest" where
  "climb i [] = []"
| "climb i (Node r us # ts) =
     (if dn_id r = i then Node r us # ts
      else if i \<in> set (map dn_id (flabels us))
      then (let us' = climb i us in Node (put_box (tri us') r) us' # ts)
      else Node r us # climb i ts)"

text \<open>Checking the node \<open>i\<close>: its subtree gets the value, the nodes above are recomputed.\<close>

fun check_at :: "nat \<Rightarrow> nat \<Rightarrow> tdom forest \<Rightarrow> tdom forest" where
  "check_at i v [] = []"
| "check_at i v (Node r us # ts) =
     (if dn_id r = i then map_rose (put_box v) (Node r us) # ts
      else if i \<in> set (map dn_id (flabels us))
      then (let us' = check_at i v us in Node (put_box (tri us') r) us' # ts)
      else Node r us # check_at i v ts)"

fun tri_ok :: "tdom forest \<Rightarrow> bool" where
  "tri_ok [] = True"
| "tri_ok (Node r us # ts) = ((us \<noteq> [] \<longrightarrow> dn_box r = Some (tri us)) \<and> tri_ok us \<and> tri_ok ts)"

section \<open>Down\<close>

lemma relabel_twice:
  assumes "\<And>a. P (f a) = P a" "\<And>a. Q (f a) = Q a" "\<And>a. g a = f a" "\<And>a. f (f a) = f a"
  shows "relabel Q g (relabel P f ts) = relabel (\<lambda>a. P a \<or> Q a) f ts"
  by (induction ts rule: forest_induct) (auto simp: assms)

lemma put_box_twice [simp]: "put_box v (put_box w r) = put_box v r"
  by (simp add: put_box_def)

lemma by_id_put_box [simp]: "by_id i (put_box v r) = by_id i r"
  by (simp add: by_id_def)

text \<open>Without hidden nodes the walk down sets exactly the boxes of the subtree.\<close>

lemma mark_node_visible: "\<not> td_hidden (label n) \<Longrightarrow> list_all (\<lambda>k. \<not> td_hidden (label k)) (kids n) \<Longrightarrow>
    mark_node v t n = set_box (td_domId (label n)) v t"
  by (auto simp: mark_node_def Let_def list_all_iff list_ex_iff)

lemma set_box_fold: "foldl (\<lambda>u i. set_box i v u) t is = t\<lparr>tr_dom := relabel (\<lambda>r. dn_id r \<in> set is) (put_box v) (tr_dom t)\<rparr>"
proof (induction "is" arbitrary: t)
  case Nil
  then show ?case by (simp add: relabel_none)
next
  case (Cons i "is")
  have eq: "(\<lambda>r. by_id i r \<or> dn_id r \<in> set is) = (\<lambda>r. dn_id r = i \<or> dn_id r \<in> set is)" by (simp add: by_id_def)
  show ?case
    by (simp add: Cons) (simp add: set_box_def set_element_def relabel_twice eq)
qed

lemma walk_trees_kids: "n \<in> set (walk_trees ts) \<Longrightarrow> label n \<in> set (flabels ts) \<and> label ` set (kids n) \<subseteq> set (flabels ts)"
proof (induction ts arbitrary: n rule: walk_trees.induct)
  case (2 a us ts)
  have "label ` set us \<subseteq> set (flabels us)" using label_in_flabels by blast
  with 2 show ?case by auto
qed simp

lemma foldl_cong_on: "(\<And>t x. x \<in> set xs \<Longrightarrow> f t x = g t x) \<Longrightarrow> foldl f t xs = foldl g t xs"
  by (induction xs arbitrary: t) auto

lemma check_down_subtree:
  assumes "\<not> tr_deep t" "\<forall>n \<in> set (labels sub). \<not> td_hidden n"
  shows "check_down v sub t = t\<lparr>tr_dom := relabel (\<lambda>r. dn_id r \<in> td_domId ` set (labels sub)) (put_box v) (tr_dom t)\<rparr>"
proof -
  obtain n us where sub: "sub = Node n us" by (cases sub)
  have "check_down v sub t = foldl (mark_node v) t (walk_trees [sub])"
    using assms(1) by (simp add: check_down_def sub)
  also have "\<dots> = foldl (\<lambda>u m. set_box (td_domId (label m)) v u) t (walk_trees [sub])"
  proof (rule foldl_cong_on)
    fix u m assume "m \<in> set (walk_trees [sub])"
    from walk_trees_kids [OF this] assms(2)
    show "mark_node v u m = set_box (td_domId (label m)) v u"
      by (intro mark_node_visible) (auto simp: list_all_iff image_subset_iff)
  qed
  also have "\<dots> = foldl (\<lambda>u i. set_box i v u) t (map td_domId (walk [sub]))"
    by (simp add: foldl_map walk_def)
  finally show ?thesis by (simp add: set_box_fold walk_flabels)
qed

section \<open>Up\<close>

definition kids_of :: "nat \<Rightarrow> tdom forest \<Rightarrow> tdom forest" where
  "kids_of p es = (case find_tree (by_id p) es of None \<Rightarrow> [] | Some n \<Rightarrow> kids n)"

fun up_forest :: "nat list \<Rightarrow> tdom forest \<Rightarrow> tdom forest" where
  "up_forest [] es = es"
| "up_forest (p # ps) es = up_forest ps (relabel (by_id p) (put_box (tri (kids_of p es))) es)"

lemma absent_id:
  assumes "i \<notin> set (map dn_id (flabels es))"
  shows "ancestors (by_id i) es = None" "find_tree (by_id i) es = None"
  using assms by (force simp: ancestors_None find_tree_None by_id_def)+

lemma ancestors_known: "ancestors (by_id i) es \<noteq> None \<longleftrightarrow> i \<in> set (map dn_id (flabels es))"
  by (auto simp: ancestors_None by_id_def)

lemma find_tree_skip: "\<forall>a \<in> set (flabels us). \<not> P a \<Longrightarrow> \<not> P a \<Longrightarrow> find_tree P (Node a us # ts) = find_tree P ts"
  using find_tree_None [of P us] by (simp split: option.splits)

lemma find_tree_inside: "\<exists>a \<in> set (flabels us). P a \<Longrightarrow> \<not> P a \<Longrightarrow> find_tree P (Node a us # ts) = find_tree P us"
  using find_tree_None [of P us] by (auto split: option.splits)

lemma find_id_inside:
  "i \<in> set (map dn_id (flabels us)) \<Longrightarrow> dn_id r \<noteq> i \<Longrightarrow> find_tree (by_id i) (Node r us # ts) = find_tree (by_id i) us"
  by (rule find_tree_inside) (auto simp: by_id_def)

abbreviation "ids es \<equiv> map dn_id (flabels es)"

lemma ids_relabel [simp]: "ids (relabel P (put_box v) es) = ids es"
  by (auto simp: o_def)

lemma ids_up_forest [simp]: "ids (up_forest ps es) = ids es"
  by (induction ps arbitrary: es) (simp_all only: up_forest.simps ids_relabel)

lemma relabel_absent: "p \<notin> set (ids es) \<Longrightarrow> relabel (by_id p) f es = es"
  by (intro relabel_none) (force simp: by_id_def)

lemma up_inside:
  assumes "distinct (ids (Node r us # ts))" "set ps \<subseteq> set (ids us)"
  shows "up_forest ps (Node r us # ts) = Node r (up_forest ps us) # ts"
  using assms
proof (induction ps arbitrary: us)
  case (Cons p ps)
  have p: "p \<in> set (ids us)" "p \<noteq> dn_id r" "p \<notin> set (ids ts)" using Cons.prems by (auto simp del: set_map)
  have "kids_of p (Node r us # ts) = kids_of p us"
    unfolding kids_of_def by (subst find_tree_inside) (use p in \<open>auto simp: by_id_def\<close>)
  moreover have "relabel (by_id p) f (Node r us # ts) = Node r (relabel (by_id p) f us) # ts" for f
    using p by (simp add: relabel_absent by_id_def)
  ultimately have "up_forest (p # ps) (Node r us # ts) = up_forest ps (Node r (relabel (by_id p) (put_box (tri (kids_of p us))) us) # ts)"
    by (simp only: up_forest.simps)
  also have "\<dots> = Node r (up_forest ps (relabel (by_id p) (put_box (tri (kids_of p us))) us)) # ts"
    by (rule Cons.IH) (use Cons.prems in \<open>simp_all add: o_def if_distrib del: ids_relabel cong: if_cong\<close>)
  finally show ?case by simp
qed simp

lemma up_after:
  assumes "distinct (ids (Node r us # ts))" "set ps \<subseteq> set (ids ts)"
  shows "up_forest ps (Node r us # ts) = Node r us # up_forest ps ts"
  using assms
proof (induction ps arbitrary: ts)
  case (Cons p ps)
  have p: "p \<in> set (ids ts)" "p \<noteq> dn_id r" "p \<notin> set (ids us)" using Cons.prems by (auto simp del: set_map)
  have "kids_of p (Node r us # ts) = kids_of p ts"
    unfolding kids_of_def by (subst find_tree_skip) (use p in \<open>force simp: by_id_def\<close>)+
  moreover have "relabel (by_id p) f (Node r us # ts) = Node r us # relabel (by_id p) f ts" for f
    using p by (simp add: relabel_absent by_id_def)
  ultimately have "up_forest (p # ps) (Node r us # ts) = up_forest ps (Node r us # relabel (by_id p) (put_box (tri (kids_of p ts))) ts)"
    by (simp only: up_forest.simps)
  also have "\<dots> = Node r us # up_forest ps (relabel (by_id p) (put_box (tri (kids_of p ts))) ts)"
    by (rule Cons.IH) (use Cons.prems in \<open>simp_all add: o_def if_distrib del: ids_relabel cong: if_cong\<close>)
  finally show ?case by simp
qed simp

lemma up_forest_snoc: "up_forest (ps @ [p]) es = relabel (by_id p) (put_box (tri (kids_of p (up_forest ps es)))) (up_forest ps es)"
  by (induction ps arbitrary: es) auto

lemma up_climb:
  "distinct (ids es) \<Longrightarrow> ancestors (by_id i) es = Some as \<Longrightarrow> up_forest (map dn_id as) es = climb i es"
proof (induction es arbitrary: as rule: forest_induct)
  case (Node r us ts)
  consider (here) "dn_id r = i" | (inside) "dn_id r \<noteq> i" "i \<in> set (ids us)" | (later) "dn_id r \<noteq> i" "i \<notin> set (ids us)" by blast
  then show ?case
  proof cases
    case here
    with Node.prems show ?thesis by (simp add: by_id_def)
  next
    case inside
    have "ancestors (by_id i) us \<noteq> None" using inside(2) by (auto simp: ancestors_None by_id_def)
    then obtain bs where bs: "ancestors (by_id i) us = Some bs" by blast
    have as: "as = bs @ [r]" using Node.prems(2) inside(1) bs by (simp add: by_id_def [of _ r])
    have "set (map dn_id bs) \<subseteq> set (ids us)" using ancestors_labels [OF bs] by auto
    then have "up_forest (map dn_id bs) (Node r us # ts) = Node r (climb i us) # ts"
      using up_inside [OF Node.prems(1)] Node.IH(1) [OF _ bs] Node.prems(1) by simp
    moreover have "ids (climb i us) = ids us"
      using Node.IH(1) [OF _ bs] Node.prems(1) ids_up_forest [of "map dn_id bs" us] by simp
    then have "dn_id r \<notin> set (ids (climb i us))" "dn_id r \<notin> set (ids ts)"
      using Node.prems(1) by (simp_all only: flabels_simps labels_Node) auto
    ultimately show ?thesis
      using inside by (simp add: as up_forest_snoc kids_of_def by_id_def relabel_absent Let_def)
  next
    case later
    have as: "ancestors (by_id i) ts = Some as"
      using Node.prems(2) later(1) absent_id(1) [OF later(2)] by (simp add: by_id_def [of _ r])
    have "set (map dn_id as) \<subseteq> set (ids ts)" using ancestors_labels [OF as] by auto
    then show ?thesis
      using up_after [OF Node.prems(1)] Node.IH(2) [OF _ as] Node.prems(1) later by auto
  qed
qed simp

section \<open>Both together\<close>

text \<open>Every element has a check box: so it is when only leaves are not singled out.\<close>

definition all_boxed :: "tdom forest \<Rightarrow> bool" where
  "all_boxed es = (\<forall>r \<in> set (flabels es). dn_box r \<noteq> None)"

lemma all_boxed_simps [simp]:
  "all_boxed []" "all_boxed (Node r us # ts) = (dn_box r \<noteq> None \<and> all_boxed us \<and> all_boxed ts)"
  by (auto simp: all_boxed_def)

lemma all_boxed_relabel [simp]: "all_boxed (relabel P (put_box v) es) = all_boxed es"
  by (induction es rule: forest_induct) (auto simp: put_box_def)

lemma ancestors_relabel: "map_option (map dn_id) (ancestors (by_id i) (relabel P (put_box v) es)) = map_option (map dn_id) (ancestors (by_id i) es)"
proof (induction es rule: forest_induct)
  case (Node r us ts)
  have "(ancestors (by_id i) (relabel P (put_box v) us) = None) = (ancestors (by_id i) us = None)"
    using Node.IH(1) by (metis option.map_disc_iff)
  with Node show ?case by (auto split: option.splits)
qed simp

definition kid_ids :: "nat \<Rightarrow> tdom forest \<Rightarrow> nat list" where
  "kid_ids p es = map (dn_id \<circ> label) (kids_of p es)"

lemma ancestors_Nil: "ancestors (by_id i) es = Some [] \<Longrightarrow> i \<in> (dn_id \<circ> label) ` set es"
  by (induction es rule: forest_induct) (auto simp: by_id_def split: if_splits option.splits)

text \<open>The parent of an element has it among its kids; the rest of the ancestors are its own.\<close>

lemma parent_step:
  "distinct (ids es) \<Longrightarrow> ancestors (by_id i) es = Some (a # as) \<Longrightarrow>
   ancestors (by_id (dn_id a)) es = Some as \<and> i \<in> set (kid_ids (dn_id a) es)"
proof (induction es arbitrary: as rule: forest_induct)
  case (Node r us ts)
  show ?case
  proof (cases "ancestors (by_id i) us")
    case None
    then have later: "ancestors (by_id i) ts = Some (a # as)"
      using Node.prems(2) by (simp split: if_splits)
    then have a: "dn_id a \<in> set (ids ts)" using ancestors_parent by fastforce
    then have "dn_id a \<notin> set (ids us)" "dn_id a \<noteq> dn_id r" using Node.prems(1) by (auto simp del: set_map)
    moreover from this(1) have "ancestors (by_id (dn_id a)) us = None" "find_tree (by_id (dn_id a)) us = None"
      by (rule absent_id)+
    ultimately show ?thesis
      using Node.IH(2) [OF _ later] Node.prems(1) by (auto simp: by_id_def [of _ r] kid_ids_def kids_of_def)
  next
    case (Some bs)
    then have eq: "a # as = bs @ [r]" using Node.prems(2) by (simp split: if_splits)
    show ?thesis
    proof (cases bs)
      case Nil
      then show ?thesis using eq ancestors_Nil [of i us] Some by (simp add: by_id_def kid_ids_def kids_of_def)
    next
      case (Cons b bs')
      then have b: "b = a" "as = bs' @ [r]" using eq by simp_all
      then have ih: "ancestors (by_id (dn_id a)) us = Some bs'" "i \<in> set (kid_ids (dn_id a) us)"
        using Node.IH(1) [of bs'] Node.prems(1) Some Cons by auto
      have "dn_id a \<in> set (ids us)" using Some Cons b ancestors_parent by fastforce
      then have ne: "dn_id a \<noteq> dn_id r" using Node.prems(1) by (auto simp del: set_map)
      then have "kids_of (dn_id a) (Node r us # ts) = kids_of (dn_id a) us"
        using \<open>dn_id a \<in> set (ids us)\<close> unfolding kids_of_def by (subst find_tree_inside) (auto simp: by_id_def)
      with ih ne b show ?thesis by (simp add: by_id_def [of _ r] kid_ids_def)
    qed
  qed
qed simp

lemma find_unique: "distinct (ids es) \<Longrightarrow> r \<in> set (flabels es) \<Longrightarrow> map_option label (find_tree (by_id (dn_id r)) es) = Some r"
proof -
  assume d: "distinct (ids es)" and r: "r \<in> set (flabels es)"
  then obtain n where n: "find_tree (by_id (dn_id r)) es = Some n"
    using find_tree_None [of "by_id (dn_id r)" es] by (auto simp: by_id_def)
  then have "dn_id (label n) = dn_id r" "label n \<in> set (flabels es)"
    using find_tree_label [OF n] by (cases n; auto simp: by_id_def)+
  then have "label n = r" using d r by (auto simp: distinct_map dest: inj_onD)
  then show ?thesis by (simp add: n)
qed

lemma kids_of_labels: "k \<in> set (kids_of p es) \<Longrightarrow> label k \<in> set (flabels es)"
proof -
  assume k: "k \<in> set (kids_of p es)"
  then obtain n where n: "find_tree (by_id p) es = Some n" "k \<in> set (kids n)" by (cases "find_tree (by_id p) es") (auto simp: kids_of_def)
  then have "label k \<in> set (labels n)" using label_in_flabels [of k "kids n"] by (cases n) auto
  with find_tree_label [OF n(1)] show ?thesis by auto
qed

lemma parent_value_tri:
  assumes "distinct (ids (tr_dom t))" "all_boxed (tr_dom t)" "i \<in> set (kid_ids p (tr_dom t))"
  shows "parent_value i p t = tri (kids_of p (tr_dom t))"
proof -
  obtain k where k: "k \<in> set (kids_of p (tr_dom t))" "i = dn_id (label k)" using assms(3) by (auto simp: kid_ids_def)
  have box: "box_of i t = dn_box (label k)"
    using find_unique [OF assms(1) kids_of_labels [OF k(1)]] by (simp only: box_of_def element_def k(2) bind.bind_lunit)
  have boxed: "dn_box (label e) \<noteq> None" if "e \<in> set (kids_of p (tr_dom t))" for e
    using kids_of_labels [OF that] assms(2) by (auto simp: all_boxed_def)
  have dk: "dom_kids p t = map label (kids_of p (tr_dom t))" by (simp add: dom_kids_def kids_of_def split: option.split)
  have "uniform v i p t = list_all (\<lambda>e. dn_box (label e) = Some v) (kids_of p (tr_dom t))" for v
    using boxed k(1) by (fastforce simp: uniform_def dk box list_all_iff)
  then show ?thesis by (simp add: parent_value_def tri_def)
qed

lemma check_up_forest:
  "distinct (ids (tr_dom t)) \<Longrightarrow> all_boxed (tr_dom t) \<Longrightarrow> map_option (map dn_id) (ancestors (by_id i) (tr_dom t)) = Some ps \<Longrightarrow>
   check_up i ps t = t\<lparr>tr_dom := up_forest ps (tr_dom t)\<rparr>"
proof (induction ps arbitrary: i t)
  case (Cons p ps)
  obtain a as where as: "ancestors (by_id i) (tr_dom t) = Some (a # as)" "p = dn_id a" "ps = map dn_id as"
    using Cons.prems(3) by auto
  note step = parent_step [OF Cons.prems(1) as(1)]
  define es where "es = relabel (by_id p) (put_box (tri (kids_of p (tr_dom t)))) (tr_dom t)"
  have box: "set_box p (parent_value i p t) t = t\<lparr>tr_dom := es\<rparr>"
    using parent_value_tri [OF Cons.prems(1,2), of i p] step by (simp add: set_box_def set_element_def es_def as(2))
  have "check_up p ps (t\<lparr>tr_dom := es\<rparr>) = t\<lparr>tr_dom := es\<rparr>\<lparr>tr_dom := up_forest ps (tr_dom (t\<lparr>tr_dom := es\<rparr>))\<rparr>"
  proof (rule Cons.IH)
    show "map_option (map dn_id) (ancestors (by_id p) (tr_dom (t\<lparr>tr_dom := es\<rparr>))) = Some ps"
      using step by (simp add: es_def ancestors_relabel as(2,3))
  qed (use Cons.prems(1,2) in \<open>simp_all add: es_def del: flabels_relabel\<close>)
  then show ?case by (simp add: box es_def)
qed simp

section \<open>The refinement\<close>

lemma relabel_all: "\<forall>a \<in> set (flabels us). P a \<Longrightarrow> relabel P f us = map (map_rose f) us"
  by (induction us rule: forest_induct) auto

lemma find_tree_map:
  assumes "\<And>a. Q (f a) = P a"
  shows "find_tree Q (map (map_rose f) es) = map_option (map_rose f) (find_tree P es)"
  by (induction es rule: forest_induct) (auto simp: assms split: option.split)

lemma find_tree_ids: "find_tree (by_id i) es = Some n \<Longrightarrow> dn_id ` set (labels n) \<subseteq> set (ids es)"
  using find_tree_label by fastforce

lemma climb_check_at:
  "distinct (ids es) \<Longrightarrow> find_tree (by_id i) es = Some n \<Longrightarrow>
   climb i (relabel (\<lambda>r. dn_id r \<in> dn_id ` set (labels n)) (put_box v) es) = check_at i v es"
proof (induction es rule: forest_induct)
  case (Node r us ts)
  let ?P = "\<lambda>r. dn_id r \<in> dn_id ` set (labels n)"
  have none: "relabel ?P (put_box v) xs = xs" if "dn_id ` set (labels n) \<subseteq> set (ids ys)" "set (ids ys) \<inter> set (ids xs) = {}" for xs ys
  proof (intro relabel_none ballI)
    fix a assume "a \<in> set (flabels xs)"
    then have "dn_id a \<in> set (ids xs)" by simp
    with that show "\<not> ?P a" by blast
  qed
  consider (here) "dn_id r = i" | (inside) "dn_id r \<noteq> i" "i \<in> set (ids us)" | (later) "dn_id r \<noteq> i" "i \<notin> set (ids us)" by blast
  then show ?case
  proof cases
    case here
    then have n: "n = Node r us" using Node.prems(2) by (simp add: by_id_def)
    have ts: "relabel ?P (put_box v) ts = ts" by (rule none [of "[Node r us]"]) (use Node.prems(1) n in auto)
    have "relabel ?P (put_box v) us = map (map_rose (put_box v)) us" by (rule relabel_all) (simp add: n)
    with here ts show ?thesis by (simp add: n)
  next
    case inside
    then have n: "find_tree (by_id i) us = Some n"
      using Node.prems(2) find_id_inside [OF inside(2,1)] by simp
    have "relabel ?P (put_box v) ts = ts" by (rule none [OF find_tree_ids [OF n]]) (use Node.prems(1) in auto)
    moreover have "\<not> ?P r" using find_tree_ids [OF n] Node.prems(1) by (auto simp del: set_map)
    moreover have "i \<in> set (ids (relabel ?P (put_box v) us))" using inside(2) by (simp only: ids_relabel)
    ultimately show ?thesis
      using inside Node.IH(1) [OF _ n] Node.prems(1) by (simp add: Let_def del: set_map flabels_relabel)
  next
    case later
    have n: "find_tree (by_id i) ts = Some n"
      using Node.prems(2) later(1) absent_id(2) [OF later(2)] by (simp add: by_id_def [of _ r])
    have "relabel ?P (put_box v) us = us" by (rule none [OF find_tree_ids [OF n]]) (use Node.prems(1) in auto)
    moreover have "\<not> ?P r" using find_tree_ids [OF n] Node.prems(1) by (auto simp del: set_map)
    ultimately show ?thesis
      using later Node.IH(2) [OF _ n] Node.prems(1) by simp
  qed
qed simp

lemma subtree_ids:
  assumes "tree_ok t" "find_tree (by_dom i) (tr_data t) = Some sub"
  shows "\<exists>n. find_tree (by_id i) (tr_dom t) = Some n \<and> td_domId ` set (labels sub) = dn_id ` set (labels n)"
proof -
  have "map_option (map_rose td_domId) (find_tree (by_dom i) (tr_data t)) = map_option (map_rose dn_id) (find_tree (by_id i) (tr_dom t))"
    using assms(1) find_tree_map [of "\<lambda>x. x = i" td_domId "by_dom i" "tr_data t"] find_tree_map [of "\<lambda>x. x = i" dn_id "by_id i" "tr_dom t"]
    by (simp add: tree_ok_def data_shape_def dom_shape_def by_dom_def by_id_def)
  then obtain n where n: "find_tree (by_id i) (tr_dom t) = Some n" "map_rose td_domId sub = map_rose dn_id n"
    using assms(2) by (cases "find_tree (by_id i) (tr_dom t)") auto
  then have "set (labels (map_rose td_domId sub)) = set (labels (map_rose dn_id n))" by simp
  with n(1) show ?thesis by simp
qed

lemma check_node_result:
  assumes "tree_ok t" "tr_checkbox t" "tr_cascade t" "\<not> tr_deep t" "all_boxed (tr_dom t)"
    and "\<forall>n \<in> set (flabels (tr_data t)). \<not> td_hidden n" "known i t" "\<forall>n. tr_allow t (BeforeCheck b) n"
  shows "check_node i (Some b) t =
    tree_note (OnCheck i b) ((set_node i (\<lambda>m. m\<lparr>td_mark := Some b\<rparr>) t)\<lparr>tr_dom := check_at i (flag_value b) (tr_dom t)\<rparr>)"
proof -
  have "i \<in> set (flabels (data_shape t))" using assms(1,7) by (simp add: tree_ok_def known_def)
  then have "get_node i t \<noteq> None" "find_tree (by_dom i) (tr_data t) \<noteq> None"
    by (auto simp: get_node_None find_tree_None flabels_data_shape by_dom_def)
  then obtain nd sub where found: "get_node i t = Some nd" "find_tree (by_dom i) (tr_data t) = Some sub" by auto
  obtain n where n: "find_tree (by_id i) (tr_dom t) = Some n" "td_domId ` set (labels sub) = dn_id ` set (labels n)"
    using subtree_ids [OF assms(1) found(2)] by blast
  define t1 where "t1 = set_node i (\<lambda>m. m\<lparr>td_mark := Some b\<rparr>) t"
  define es where "es = relabel (\<lambda>r. dn_id r \<in> td_domId ` set (labels sub)) (put_box (flag_value b)) (tr_dom t)"
  have t1: "tr_dom t1 = tr_dom t" "tr_deep t1 = tr_deep t" by (simp_all add: t1_def set_node_def)
  have "\<forall>m \<in> set (labels sub). \<not> td_hidden m" using assms(6) find_tree_label [OF found(2)] by blast
  then have d: "check_down (flag_value b) sub t1 = t1\<lparr>tr_dom := es\<rparr>"
    using check_down_subtree [of t1 sub "flag_value b"] assms(4) by (simp add: t1 es_def)
  have dist: "distinct (ids (tr_dom t))" using assms(1) by (simp add: tree_ok_def flabels_dom_shape)
  have "ancestors (by_id i) es \<noteq> None"
    using assms(7) by (simp only: ancestors_known es_def ids_relabel known_def flabels_dom_shape)
  then obtain as where as: "ancestors (by_id i) es = Some as" by blast
  have es: "distinct (ids es)" "all_boxed es" using dist assms(5) by (simp_all only: es_def ids_relabel all_boxed_relabel)
  have "check_up i (parents i (t1\<lparr>tr_dom := es\<rparr>)) (t1\<lparr>tr_dom := es\<rparr>) = t1\<lparr>tr_dom := up_forest (map dn_id as) es\<rparr>"
    using check_up_forest [of "t1\<lparr>tr_dom := es\<rparr>" i "map dn_id as"] es as by (simp add: parents_def)
  also have "up_forest (map dn_id as) es = check_at i (flag_value b) (tr_dom t)"
    using up_climb [OF es(1) as] climb_check_at [OF dist n(1)] by (simp add: es_def n(2))
  finally show ?thesis
    using assms(2,3,8) by (simp add: check_node_def found Let_def t1_def [symmetric] d)
qed

lemma check_node_forest:
  assumes "tree_ok t" "tr_checkbox t" "tr_cascade t" "\<not> tr_deep t" "all_boxed (tr_dom t)"
    and "\<forall>n \<in> set (flabels (tr_data t)). \<not> td_hidden n" "known i t" "\<forall>n. tr_allow t (BeforeCheck b) n"
  shows "tr_dom (check_node i (Some b) t) = check_at i (flag_value b) (tr_dom t)"
  by (simp add: check_node_result [OF assms] tree_note_def)

section \<open>Consistency\<close>

lemma tri_all: "us \<noteq> [] \<Longrightarrow> v \<le> 1 \<Longrightarrow> \<forall>u \<in> set us. dn_box (label u) = Some v \<Longrightarrow> tri us = v"
  by (cases us) (auto simp: tri_def list_all_iff)

lemma put_all: "all_boxed es \<Longrightarrow> \<forall>u \<in> set (map (map_rose (put_box v)) es). dn_box (label u) = Some v"
  using label_in_flabels [of _ es] by (auto simp: rose.map_sel put_box_def all_boxed_def)

lemma put_box_boxed: "dn_box r \<noteq> None \<Longrightarrow> dn_box (put_box v r) = Some v"
  by (simp add: put_box_def)

lemma tri_ok_put_all: "all_boxed es \<Longrightarrow> v \<le> 1 \<Longrightarrow> tri_ok (map (map_rose (put_box v)) es)"
proof (induction es rule: forest_induct)
  case (Node r us ts)
  then show ?case using tri_all [of "map (map_rose (put_box v)) us" v] put_all [of us v] by (auto simp: put_box_boxed)
qed simp

lemma check_at_tri_ok: "all_boxed es \<Longrightarrow> tri_ok es \<Longrightarrow> v \<le> 1 \<Longrightarrow> tri_ok (check_at i v es)"
proof (induction es rule: forest_induct)
  case (Node r us ts)
  then show ?case
    using tri_ok_put_all [of us v] tri_all [of "map (map_rose (put_box v)) us" v] put_all [of us v] by (auto simp: put_box_boxed Let_def)
qed simp

end
