(* ===== verification/TreeProps.thy ===== *)
theory TreeProps
  imports TreeCheck
begin

text \<open>
  What the tree widget promises: the two trees agree through every session, check boxes are
  consistent, nodes are inserted and removed where they should be, the filter shows exactly the
  accepted nodes and the way to them. Two theorems show what goes wrong when a loader answers for a
  node that has gone, and that a reload heals itself when its answer comes.
\<close>

section \<open>Filtering\<close>

lemma find_tree_relabel:
  assumes "\<And>r. P (f r) = P r"
  shows "find_tree P (relabel Q f es) = map_option (map_rose (\<lambda>a. if Q a then f a else a)) (find_tree P es)"
  unfolding relabel_def by (rule find_tree_map) (simp add: assms)

lemma element_set_element:
  assumes "\<And>r. dn_id (f r) = dn_id r"
  shows "element j (set_element i f t) = map_option (\<lambda>r. if j = i then f r else r) (element j t)"
proof -
  have "by_id i (label n) = (j = i)" if "find_tree (by_id j) (tr_dom t) = Some n" for n
    using find_tree_label [OF that] by (auto simp: by_id_def)
  then show ?thesis
    unfolding element_def set_element_def
    by (cases "find_tree (by_id j) (tr_dom t)") (auto simp: find_tree_relabel by_id_def assms rose.map_sel)
qed

lemma element_set_node [simp]: "element j (set_node i f t) = element j t"
  by (simp add: element_def set_node_def)

definition hidden_at :: "nat \<Rightarrow> tree \<Rightarrow> bool option" where
  "hidden_at i t = map_option dn_hidden (element i t)"

lemma hidden_show: "hidden_at j (show_hidden i h t) = (if j = i then map_option (\<lambda>_. h) (hidden_at j t) else hidden_at j t)"
  by (simp add: hidden_at_def show_hidden_def element_set_element option.map_comp o_def)

lemma ancestors_map:
  assumes "\<And>a. Q (f a) = P a"
  shows "ancestors Q (map (map_rose f) es) = map_option (map f) (ancestors P es)"
  by (induction es rule: forest_induct) (auto simp: assms split: option.split)

lemma parents_dom_shape: "parents i t = (case ancestors (\<lambda>x. x = i) (dom_shape t) of None \<Rightarrow> [] | Some ps \<Rightarrow> ps)"
  using ancestors_map [of "\<lambda>x. x = i" dn_id "by_id i" "tr_dom t"]
  by (cases "ancestors (by_id i) (tr_dom t)") (simp_all add: parents_def dom_shape_def by_id_def)

lemma parents_cong: "shape t' = shape t \<Longrightarrow> parents i t' = parents i t"
  by (simp add: parents_dom_shape shape_eq)

lemma hidden_fold:
  "distinct (map d ns) \<Longrightarrow> hidden_at j (foldl (\<lambda>u n. show_hidden (d n) (h n) u) t ns)
    = (case find (\<lambda>n. d n = j) ns of None \<Rightarrow> hidden_at j t | Some n \<Rightarrow> map_option (\<lambda>_. h n) (hidden_at j t))"
proof (induction ns arbitrary: t)
  case (Cons n ns)
  have "d m \<noteq> d n" if "m \<in> set ns" for m using Cons.prems imageI [OF that, of d] by auto
  then have "find (\<lambda>m. d m = d n) ns = None" by (auto simp: find_None_iff)
  with Cons show ?case by (auto simp: hidden_show split: option.splits)
qed simp

lemma hidden_parents:
  "hidden_at j (foldl (\<lambda>u i. foldl (\<lambda>w p. show_hidden p False w) u (parents i u)) t is)
    = (if \<exists>i \<in> set is. j \<in> set (parents i t) then map_option (\<lambda>_. False) (hidden_at j t) else hidden_at j t)"
proof (induction "is" arbitrary: t)
  case (Cons i "is")
  have inner: "hidden_at j (foldl (\<lambda>w p. show_hidden p False w) u ps)
      = (if j \<in> set ps then map_option (\<lambda>_. False) (hidden_at j u) else hidden_at j u)" for u ps
    by (induction ps arbitrary: u) (auto simp: hidden_show option.map_comp o_def)
  have sh: "shape (foldl (\<lambda>w p. show_hidden p False w) t (parents i t)) = shape t" by (simp add: foldl_shape)
  show ?case by (simp add: Cons inner parents_cong [OF sh] option.map_comp o_def)
qed simp

lemma find_distinct: "distinct (map d ns) \<Longrightarrow> n \<in> set ns \<Longrightarrow> find (\<lambda>m. d m = d n) ns = Some n"
  by (induction ns) (auto simp: image_iff)

lemma filter_hidden:
  assumes "tree_ok t" "m \<in> set (flabels (tr_data t))"
  shows "hidden_at (td_domId m) (do_filter q t)
    = Some (\<not> (tr_filter t q m \<or> (\<exists>n \<in> set (flabels (tr_data t)). tr_filter t q n \<and> td_domId m \<in> set (parents (td_domId n) t))))"
proof -
  have dist: "distinct (map td_domId (flabels (tr_data t)))" and same: "map td_domId (flabels (tr_data t)) = ids (tr_dom t)"
    using assms(1) by (simp_all add: tree_ok_def flip: flabels_data_shape flabels_dom_shape)
  have "td_domId m \<in> set (ids (tr_dom t))" unfolding same [symmetric] using assms(2) by simp
  then obtain r where "element (td_domId m) t = Some r"
    using find_tree_None [of "by_id (td_domId m)" "tr_dom t"] by (fastforce simp: element_def by_id_def)
  then have old: "hidden_at (td_domId m) t = Some (dn_hidden r)" by (simp add: hidden_at_def)
  define u where "u = foldl (\<lambda>u n. show_hidden (td_domId n) (\<not> tr_filter t q n) u) t (flabels (tr_data t))"
  have "shape u = shape t" by (simp add: u_def foldl_shape)
  then have par: "parents i u = parents i t" for i by (rule parents_cong)
  have "hidden_at (td_domId m) u = Some (\<not> tr_filter t q m)"
    using hidden_fold [OF dist] by (simp add: u_def find_distinct [OF dist assms(2)] old)
  then show ?thesis
    by (auto simp: do_filter_def walk_flabels Let_def u_def [symmetric] hidden_parents par)
qed

section \<open>Removing\<close>

lemma flabels_prune_filter:
  "distinct (flabels s) \<Longrightarrow> find_tree (\<lambda>x. x = i) s = Some n \<Longrightarrow> flabels (prune (\<lambda>x. x = i) s) = filter (\<lambda>x. x \<notin> set (labels n)) (flabels s)"
proof (induction s rule: forest_induct)
  case (Node a us ts)
  have keep: "filter (\<lambda>x. x \<notin> set (labels n)) xs = xs" if "set xs \<inter> set (labels n) = {}" for xs
    using that by (auto simp: filter_id_conv)
  consider (here) "a = i" | (inside) "a \<noteq> i" "find_tree (\<lambda>x. x = i) us = Some n"
    | (later) "a \<noteq> i" "find_tree (\<lambda>x. x = i) us = None" "find_tree (\<lambda>x. x = i) ts = Some n"
    using Node.prems(2) by (auto split: if_splits option.splits)
  then show ?case
  proof cases
    case here
    then have n: "n = Node a us" using Node.prems(2) by simp
    have "filter (\<lambda>x. x \<notin> set (labels n)) (flabels ts) = flabels ts" by (rule keep) (use n Node.prems(1) in auto)
    moreover have "filter (\<lambda>x. x \<notin> set (labels n)) (flabels us) = []" using n by (simp add: filter_empty_conv)
    ultimately show ?thesis using here n by simp
  next
    case inside
    note sub = conjunct2 [OF find_tree_label [OF inside(2)]]
    have "i \<in> set (flabels us)" using find_tree_None [of "\<lambda>x. x = i" us] inside(2) by auto
    then have "i \<notin> set (flabels ts)" using Node.prems(1) by auto
    then have "prune (\<lambda>x. x = i) ts = ts" by (intro prune_none) auto
    moreover have "filter (\<lambda>x. x \<notin> set (labels n)) (flabels ts) = flabels ts" "a \<notin> set (labels n)"
      using sub Node.prems(1) by (auto intro!: keep)
    ultimately show ?thesis using inside Node.IH(1) Node.prems(1) by simp
  next
    case later
    note sub = conjunct2 [OF find_tree_label [OF later(3)]]
    have "prune (\<lambda>x. x = i) us = us" using later(2) by (intro prune_none) (simp add: find_tree_None)
    moreover have "filter (\<lambda>x. x \<notin> set (labels n)) (flabels us) = flabels us" "a \<notin> set (labels n)"
      using sub Node.prems(1) by (auto intro!: keep)
    ultimately show ?thesis using later Node.IH(2) Node.prems(1) by simp
  qed
qed simp

section \<open>Answers that come too late, and reloading\<close>

lemma stale_load:
  assumes "\<not> known i t" "tree_ok t"
  shows "data_shape (load_at (Some i) False ds t) = new_ids t ds" "dom_shape (load_at (Some i) False ds t) = dom_shape t"
proof -
  define r where "r = render_forest t (child_level (Some i) t) (tr_next t) ds"
  have place: "data_place (Some i) t = None"
    using assms by (simp add: data_place_def get_node_None known_def tree_ok_def)
  define u where "u = change_dom (Some i) (\<lambda>es. [] @ fst (snd r)) (change_data None (\<lambda>ns. [] @ fst r) (t\<lparr>tr_next := snd (snd r)\<rparr>))"
  have s: "shape (load_at (Some i) False ds t) = shape u"
    by (simp add: load_at_def place Let_def u_def r_def)
  have keep: "data_shape (t\<lparr>tr_next := k\<rparr>) = data_shape t" "dom_shape (t\<lparr>tr_next := k\<rparr>) = dom_shape t" for k
    by (simp_all add: data_shape_def dom_shape_def)
  have "dom_shape u = at_place (Some i) (\<lambda>us. new_ids t ds) (dom_shape t)"
    unfolding u_def
    by (subst change_dom_shape(1) [where h = "\<lambda>us. new_ids t ds"]) (simp_all add: r_def render_new_ids change_data_def dom_shape_def)
  moreover have "at_place (Some i) (\<lambda>us. new_ids t ds) (dom_shape t) = dom_shape t"
    using assms(1) by (simp add: at_place_def known_def at_key_absent)
  ultimately show "dom_shape (load_at (Some i) False ds t) = dom_shape t" using s by (simp add: shape_eq)
  have "data_shape u = new_ids t ds"
    by (simp add: u_def change_dom_def change_data_def data_shape_def r_def render_new_ids)
  then show "data_shape (load_at (Some i) False ds t) = new_ids t ds" using s by (simp add: shape_eq)
qed

text \<open>After a reload the node objects of the old children wait for the answer that replaces them.\<close>

lemma put_kids_False: "put_kids False N = (\<lambda>us. N)"
  by (rule ext) (simp add: put_kids_def)

definition reloadable :: "nat \<Rightarrow> tree \<Rightarrow> bool" where
  "reloadable i t = (tr_remote t \<and> is_leaf i t = False \<and> (case get_node i t of None \<Rightarrow> True | Some n \<Rightarrow> tr_allow t BeforeExpand n) \<and> i \<notin> fst ` set (tr_pending t))"

lemma reload_shape:
  assumes "tree_ok t" "known i t" "reloadable i t"
  shows "shape (reload_node i t) = (data_shape t, at_key i (\<lambda>us. []) (dom_shape t), tr_next t)
    \<and> tr_pending (reload_node i t) = tr_pending t @ [(i, None)]"
proof -
  define u where "u = set_element i (\<lambda>r. r\<lparr>dn_hit := map_option (\<lambda>h. Collapsed) (dn_hit r), dn_ul := False\<rparr>) t"
  define w where "w = change_dom (Some i) (\<lambda>es. []) u"
  obtain r where r: "element i t = Some r" "dn_hit r \<noteq> None"
    using assms(3) by (auto simp: reloadable_def is_leaf_def split: bind_splits)
  have u: "shape u = shape t" by (simp add: u_def)
  have w: "shape w = (data_shape t, at_key i (\<lambda>us. []) (dom_shape t), tr_next t)"
    using u unfolding shape_def w_def by (simp add: change_dom_shape [where h = "\<lambda>us. []"] at_place_def)
  have "find_tree (by_id i) (map (change_kids (by_id i) g) es) = map_option (\<lambda>n. Node (label n) (g (kids n))) (find_tree (by_id i) es)" for g es
    by (induction es rule: forest_induct) (auto split: option.split)
  then have "element i w = element i u"
    by (simp add: element_def w_def change_dom_def option.map_comp o_def)
  then have el: "element i w = Some (r\<lparr>dn_hit := Some Collapsed, dn_ul := False\<rparr>)"
    using r by (auto simp: u_def element_set_element)
  have "get_node i w \<noteq> None" using assms(1,2) w by (simp add: get_node_None shape_def known_def tree_ok_def)
  moreover have "get_node i w = get_node i t"
  proof -
    have "tr_data w = tr_data t" by (simp add: w_def u_def change_dom_def set_element_def)
    moreover have "box_of i w = box_of i t" by (simp add: box_of_def el r(1))
    moreover have "td_domId n = i" if "find (by_dom i) (walk (tr_data t)) = Some n" for n
      using that by (auto simp: find_Some_iff by_dom_def)
    ultimately show ?thesis
      by (cases "find (by_dom i) (walk (tr_data t))") (simp_all add: get_node_def find_node_def refresh_node_def)
  qed
  ultimately obtain n where n: "get_node i w = Some n" "tr_allow t BeforeExpand n"
    using assms(3) by (auto simp: reloadable_def)
  have opts: "tr_remote w = tr_remote t" "tr_allow w = tr_allow t" "tr_pending w = tr_pending t"
    by (simp_all add: w_def u_def change_dom_def set_element_def)
  have "reload_node i t = expand_with None i w" by (simp add: reload_node_def expand_node_def w_def u_def)
  moreover have "expand_with None i w = (set_element i (\<lambda>r. (open_element r)\<lparr>dn_ul := True, dn_shown := False\<rparr>) w)\<lparr>tr_pending := tr_pending w @ [(i, None)]\<rparr>"
    using assms(3) opts by (simp add: expand_with_def el n reloadable_def)
  ultimately show ?thesis using w opts by (simp add: open_element_def)
qed

lemma reload_answer_shape:
  assumes "tree_ok t" "known i t" "reloadable i t"
  shows "shape (loader_answer i (Some ds) (reload_node i t))
    = (at_key i (\<lambda>us. new_ids t ds) (data_shape t), at_key i (\<lambda>us. new_ids t ds) (dom_shape t), new_next t ds)"
proof -
  define u where "u = (reload_node i t)\<lparr>tr_pending := tr_pending t\<rparr>"
  note rs = reload_shape [OF assms]
  have u: "shape u = (data_shape t, at_key i (\<lambda>us. []) (dom_shape t), tr_next t)" using rs by (simp add: u_def)
  have pending: "find (\<lambda>r. fst r = i) (ps @ [(i, None)]) = Some (i, None) \<and> remove1 (i, None) (ps @ [(i, None)]) = ps"
    if "i \<notin> fst ` set ps" for ps :: "(nat \<times> nat option) list"
    using that by (induction ps) auto
  have "i \<notin> fst ` set (tr_pending t)" using assms(3) unfolding reloadable_def by blast
  note pending = pending [OF this]
  have "loader_answer i (Some ds) (reload_node i t) = finish_expand i (load_at (Some i) False ds u)"
    using rs pending by (simp add: loader_answer_def Let_def u_def after_expand_def)
  moreover have "data_place (Some i) u = Some i"
    using u assms(1,2) by (simp add: data_place_def get_node_None shape_def known_def tree_ok_def)
  moreover have "new_ids u ds = new_ids t ds" "new_next u ds = new_next t ds"
    using render_indep [of u 0 "tr_next t" ds t 0] u by (simp_all add: new_ids_def new_next_def shape_def)
  ultimately show ?thesis
    using u load_shape_at [of "Some i" u False ds] finish_expand_shape [of i "load_at (Some i) False ds u"]
    by (simp add: shape_def at_place_def at_key_twice put_kids_False o_def)
qed

lemma reload_answer_ok:
  assumes "tree_ok t" "known i t" "reloadable i t"
  shows "tree_ok (loader_answer i (Some ds) (reload_node i t))"
proof (rule at_place_ok [OF assms(1), of _ "Some i" "put_kids False (new_ids t ds)", OF _ new_next_le put_kids_fresh [OF assms(1)]])
  show "shape (loader_answer i (Some ds) (reload_node i t))
      = (at_place (Some i) (put_kids False (new_ids t ds)) (data_shape t), at_place (Some i) (put_kids False (new_ids t ds)) (dom_shape t), new_next t ds)"
    using reload_answer_shape [OF assms, of ds] by (simp add: at_place_def put_kids_False)
qed

text \<open>
  The sessions in which the two trees agree: every event is possible, and a node is reloaded when it can
  be, no other answer for it is awaited, and its answer comes before anything else happens.
\<close>

fun agreeable :: "tree \<Rightarrow> tree_event list \<Rightarrow> bool" where
  "agreeable t [] = True"
| "agreeable t (e # es) =
     (case e of
        TrReload i \<Rightarrow>
          known i t \<and> reloadable i t \<and>
          (case es of
             TrAnswer j (Some ds) # fs \<Rightarrow> j = i \<and> agreeable (tree_step (tree_step t e) (TrAnswer j (Some ds))) fs
           | _ \<Rightarrow> False)
      | _ \<Rightarrow> event_ok t e \<and> agreeable (tree_step t e) es)"

lemma agreeable_ok: "tree_ok t \<Longrightarrow> agreeable t es \<Longrightarrow> tree_ok (foldl tree_step t es)"
proof (induction t es rule: agreeable.induct)
  case (2 t e es)
  show ?case
  proof (cases "\<exists>i. e = TrReload i")
    case True
    then obtain i where e: "e = TrReload i" by blast
    with "2.prems"(2) obtain ds fs where es: "es = TrAnswer i (Some ds) # fs" "known i t" "reloadable i t"
        "agreeable (tree_step (tree_step t e) (TrAnswer i (Some ds))) fs"
      by (auto split: list.splits tree_event.splits option.splits)
    have "tree_ok (tree_step (tree_step t e) (TrAnswer i (Some ds)))"
      using reload_answer_ok [OF "2.prems"(1) es(2,3)] by (simp add: tree_step_def e)
    with "2.IH" e es show ?thesis by auto
  next
    case False
    then have e: "event_ok t e" "agreeable (tree_step t e) es" using "2.prems"(2) by (auto split: tree_event.splits)
    have "tree_ok (tree_step t e)" using "2.prems"(1) e(1) by (rule tree_step_ok)
    with "2.IH" e False show ?thesis by (cases e) auto
  qed
qed simp

section \<open>The properties\<close>

text \<open>
  C6. in a session of loads, appends, inserts, removals, drops, edits, checks, expansions, loader
  answers and reloads on an empty tree with any options, the node objects and the elements of the tree
  widget form the same forest of ids, and no id occurs twice: as long as the nodes named are in the tree,
  a drag is dropped outside the dragged subtree, a loader answers for a node that is still there, and the
  answer to a reload comes before the next event.
\<close>

theorem tree_trees_agree:
  assumes "tr_data t0 = []" "tr_dom t0 = []" "agreeable t0 es" "t = foldl tree_step t0 es"
  shows "map (map_rose td_domId) (tr_data t) = map (map_rose dn_id) (tr_dom t) \<and> distinct (map dn_id (flabels (tr_dom t)))"
proof -
  have "tree_ok t0" using assms(1,2) by (simp add: tree_ok_def data_shape_def dom_shape_def)
  from agreeable_ok [OF this assms(3)] assms(4) show ?thesis
    by (simp add: tree_ok_def data_shape_def dom_shape_def)
qed

definition sample_node :: "string \<Rightarrow> tnode forest \<Rightarrow> tnode rose" where
  "sample_node s ks = Node \<lparr>td_domId = 0, td_id = None, td_text = s, td_iconCls = '''', td_state = NoState, td_checked = False,
     td_mark = None, td_hidden = False\<rparr> ks"

definition sample_events :: "tree_event list" where
  "sample_events =
     [TrLoad [sample_node ''a'' [sample_node ''b'' [], sample_node ''c'' []], sample_node ''d'' []],
      TrCheck 2 (Some True), TrInsert 3 True [sample_node ''e'' [sample_node ''f'' []]]]"

definition remote_tree :: tree where
  "remote_tree = (new_tree False)\<lparr>tr_remote := True\<rparr>"

definition closed_node :: "string \<Rightarrow> tnode rose" where
  "closed_node s = Node ((label (sample_node s []))\<lparr>td_state := Closed\<rparr>) []"

definition remote_events :: "tree_event list" where
  "remote_events =
     [TrLoad [closed_node ''a'', sample_node ''b'' []], TrExpand 1, TrInsert 2 True [sample_node ''c'' []],
      TrAnswer 1 (Some [sample_node ''d'' []]), TrReload 1, TrAnswer 1 (Some [sample_node ''e'' [], sample_node ''f'' []]), TrRemove 2]"

theorem tree_trees_agree_witness:
  "map (map_rose dn_id) (tr_dom (foldl tree_step remote_tree remote_events)) = [Node 1 [Node 5 [], Node 6 []], Node 3 []]
   \<and> map (map_rose td_domId) (tr_data (foldl tree_step remote_tree remote_events)) = [Node 1 [Node 5 [], Node 6 []], Node 3 []]"
proof -
  have "tr_data remote_tree = []" "tr_dom remote_tree = []" "agreeable remote_tree remote_events" by code_simp+
  note agree = conjunct1 [OF tree_trees_agree [OF this refl]]
  have "map (map_rose dn_id) (tr_dom (foldl tree_step remote_tree remote_events)) = [Node 1 [Node 5 [], Node 6 []], Node 3 []]"
    by code_simp
  with agree show ?thesis by simp
qed

definition sample_tree :: tree where
  "sample_tree = foldl tree_step (new_tree True) sample_events"

lemma new_tree_ok: "tree_ok (new_tree cb)" "tree_ok remote_tree"
  by (simp_all add: tree_ok_def remote_tree_def new_tree_def data_shape_def dom_shape_def)

lemma sample_tree_ok: "tree_ok sample_tree"
  unfolding sample_tree_def by (rule tree_session_ok [OF new_tree_ok(1)]) code_simp

text \<open>
  C2. In a tree without \<open>deepCheck\<close>, all of whose nodes have a box and none is hidden, checking or
  unchecking with cascade a node that \<open>onBeforeCheck\<close> does not refuse is one recursion over the
  elements: its subtree gets the value, every parent above is recomputed from its children. A tree in which every parent
  shows what its children say stays so.
\<close>

theorem check_node_refines:
  assumes "tree_ok t" "tr_checkbox t" "tr_cascade t" "\<not> tr_deep t" "all_boxed (tr_dom t)"
    and "\<forall>n \<in> set (flabels (tr_data t)). \<not> td_hidden n" "known i t" "\<forall>n. tr_allow t (BeforeCheck b) n"
  shows "tr_dom (check_node i (Some b) t) = check_at i (flag_value b) (tr_dom t)
    \<and> (tri_ok (tr_dom t) \<longrightarrow> tri_ok (tr_dom (check_node i (Some b) t)))"
  using check_node_forest [OF assms] check_at_tri_ok [OF assms(5), of "flag_value b"] by (simp add: flag_value_def)

theorem check_node_refines_witness:
  "map (map_rose dn_box) (tr_dom (check_node 5 (Some True) sample_tree))
     = [Node (Some 2) [Node (Some 1) [], Node (Some 1) [Node (Some 1) []], Node (Some 0) []], Node (Some 0) []]
   \<and> tri_ok (tr_dom (check_node 5 (Some True) sample_tree))"
proof -
  have opts: "tr_checkbox sample_tree" "tr_cascade sample_tree" "\<not> tr_deep sample_tree" "known 5 sample_tree" "tri_ok (tr_dom sample_tree)"
    by code_simp+
  have boxed: "list_all (\<lambda>r. dn_box r \<noteq> None) (flabels (tr_dom sample_tree))" "list_all (\<lambda>n. \<not> td_hidden n) (flabels (tr_data sample_tree))"
    by code_simp+
  have allow: "\<forall>n. tr_allow sample_tree (BeforeCheck True) n"
  proof
    show "tr_allow sample_tree (BeforeCheck True) n" for n by code_simp
  qed
  have "map (map_rose dn_box) (check_at 5 (flag_value True) (tr_dom sample_tree))
     = [Node (Some 2) [Node (Some 1) [], Node (Some 1) [Node (Some 1) []], Node (Some 0) []], Node (Some 0) []]" by code_simp
  moreover from boxed have "all_boxed (tr_dom sample_tree)" "\<forall>n \<in> set (flabels (tr_data sample_tree)). \<not> td_hidden n"
    by (simp_all add: all_boxed_def list_all_iff)
  ultimately show ?thesis
    using check_node_refines [OF sample_tree_ok opts(1-3) _ _ opts(4) allow] opts(5) by auto
qed

text \<open>
  \<open>insert\<close> puts the new nodes, numbered by the counter, right before or after the reference
  node among its siblings and in their order, in the data and in the DOM alike.
\<close>

theorem insert_lands:
  assumes "tree_ok t" "known ref t" "data \<noteq> []"
  shows "map (map_rose td_domId) (tr_data (insert_nodes ref bef data t)) = at_place (get_parent ref t) (put_beside ref bef (new_ids t data)) (dom_shape t)
    \<and> map (map_rose dn_id) (tr_dom (insert_nodes ref bef data t)) = at_place (get_parent ref t) (put_beside ref bef (new_ids t data)) (dom_shape t)
    \<and> flabels (new_ids t data) = [tr_next t..<tr_next (insert_nodes ref bef data t)]"
  using insert_shape [OF assms, of bef] assms(1)
  by (simp add: shape_def tree_ok_def flabels_new_ids flip: data_shape_def dom_shape_def)

theorem insert_lands_witness:
  "map (map_rose dn_id) (tr_dom (insert_nodes 2 False [sample_node ''x'' [], sample_node ''y'' []] sample_tree))
     = [Node 1 [Node 2 [], Node 7 [], Node 8 [], Node 5 [Node 6 []], Node 3 []], Node 4 []]"
proof -
  have "known 2 sample_tree" by code_simp
  note ins = insert_lands [OF sample_tree_ok this, of "[sample_node ''x'' [], sample_node ''y'' []]" False]
  have "at_place (get_parent 2 sample_tree) (put_beside 2 False (new_ids sample_tree [sample_node ''x'' [], sample_node ''y'' []])) (dom_shape sample_tree)
      = [Node 1 [Node 2 [], Node 7 [], Node 8 [], Node 5 [Node 6 []], Node 3 []], Node 4 []]" by code_simp
  with ins show ?thesis by simp
qed

text \<open>
  \<open>remove\<close> takes out exactly the subtree of the node: the other nodes stay, in their order,
  in both trees, and the node is not found again.
\<close>

theorem remove_takes_subtree:
  assumes "tree_ok t" "find_tree (\<lambda>x. x = i) (dom_shape t) = Some n"
  shows "map td_domId (flabels (tr_data (remove_node i t))) = filter (\<lambda>x. x \<notin> set (labels n)) (map td_domId (flabels (tr_data t)))
    \<and> map dn_id (flabels (tr_dom (remove_node i t))) = filter (\<lambda>x. x \<notin> set (labels n)) (map dn_id (flabels (tr_dom t)))
    \<and> get_node i (remove_node i t) = None"
proof -
  have same: "data_shape t = dom_shape t" "distinct (flabels (dom_shape t))" using assms(1) by (simp_all add: tree_ok_def)
  have r: "data_shape (remove_node i t) = prune (\<lambda>x. x = i) (dom_shape t)" "dom_shape (remove_node i t) = prune (\<lambda>x. x = i) (dom_shape t)"
    using remove_shape [of i t] same(1) by (simp_all add: shape_def)
  have "get_node i (remove_node i t) = None"
    using prune_removes [OF same(2)] by (simp add: get_node_None r)
  moreover note flabels_prune_filter [OF same(2) assms(2)]
  ultimately show ?thesis
    using flabels_data_shape [of "remove_node i t"] flabels_dom_shape [of "remove_node i t"] flabels_data_shape [of t] flabels_dom_shape [of t]
    by (simp add: r same(1))
qed

theorem remove_takes_subtree_witness:
  "map dn_id (flabels (tr_dom (remove_node 5 sample_tree))) = [1, 2, 3, 4] \<and> get_node 5 (remove_node 5 sample_tree) = None"
proof -
  have "find_tree (\<lambda>x. x = 5) (dom_shape sample_tree) = Some (Node 5 [Node 6 []])" by code_simp
  note rem = remove_takes_subtree [OF sample_tree_ok this]
  have "filter (\<lambda>x. x \<notin> set (labels (Node 5 [Node 6 []]))) (map dn_id (flabels (tr_dom sample_tree))) = [1, 2, 3, 4]" by code_simp
  with rem show ?thesis by simp
qed

text \<open>
  C16. after \<open>doFilter\<close> a node is visible exactly if the filter accepts it or a node below it.
\<close>

theorem filter_shows:
  assumes "tree_ok t" "m \<in> set (flabels (tr_data t))" "element (td_domId m) (do_filter q t) = Some r"
  shows "\<not> dn_hidden r \<longleftrightarrow> tr_filter t q m \<or> (\<exists>n \<in> set (flabels (tr_data t)). tr_filter t q n \<and> td_domId m \<in> set (parents (td_domId n) t))"
  using filter_hidden [OF assms(1,2), of q] assms(3) by (auto simp: hidden_at_def)

lemma the_is_some: "\<not> Option.is_none x \<Longrightarrow> x = Some (the x)"
  by (cases x) simp_all

theorem filter_shows_witness:
  "map (\<lambda>i. map_option dn_hidden (element i (do_filter ''F'' sample_tree))) [1, 2, 3, 4, 5, 6]
     = [Some False, Some True, Some True, Some True, Some False, Some False]
   \<and> (let m = flabels (tr_data sample_tree) ! 2 in \<not> dn_hidden (the (element (td_domId m) (do_filter ''F'' sample_tree))) \<and> \<not> tr_filter sample_tree ''F'' m)"
proof -
  let ?m = "flabels (tr_data sample_tree) ! 2" and ?n = "flabels (tr_data sample_tree) ! 3"
  have len: "length (flabels (tr_data sample_tree)) = 6" by code_simp
  have m: "?m \<in> set (flabels (tr_data sample_tree))" "?n \<in> set (flabels (tr_data sample_tree))" by (simp_all add: len)
  have "\<not> Option.is_none (element (td_domId ?m) (do_filter ''F'' sample_tree))" by code_simp
  note shown = filter_shows [OF sample_tree_ok m(1) the_is_some [OF this]]
  have n: "tr_filter sample_tree ''F'' ?n" "td_domId ?m \<in> set (parents (td_domId ?n) sample_tree)" "\<not> tr_filter sample_tree ''F'' ?m"
    by code_simp+
  have "\<not> dn_hidden (the (element (td_domId ?m) (do_filter ''F'' sample_tree)))" unfolding shown using n(1,2) m(2) by blast
  moreover have "map (\<lambda>i. map_option dn_hidden (element i (do_filter ''F'' sample_tree))) [1, 2, 3, 4, 5, 6]
     = [Some False, Some True, Some True, Some True, Some False, Some False]" by code_simp
  ultimately show ?thesis using n(3) by (simp add: Let_def)
qed

lemma stale_answer_shape:
  assumes "tree_ok t" "\<not> known i t" "find (\<lambda>r. fst r = i) (tr_pending t) = Some (i, None)"
  shows "data_shape (loader_answer i (Some ds) t) = new_ids t ds \<and> dom_shape (loader_answer i (Some ds) t) = dom_shape t"
proof -
  define u where "u = t\<lparr>tr_pending := remove1 (i, None) (tr_pending t)\<rparr>"
  have u: "shape u = shape t" by (simp add: u_def)
  have "loader_answer i (Some ds) t = finish_expand i (load_at (Some i) False ds u)"
    by (simp add: loader_answer_def assms(3) Let_def u_def after_expand_def)
  then have "shape (loader_answer i (Some ds) t) = shape (load_at (Some i) False ds u)" by simp
  with stale_load [of i u ds] assms(1,2) show ?thesis
    using new_ids_shape [OF u, of ds] u by (simp add: shape_ok [OF u] known_shape [OF u] shape_eq)
qed

text \<open>
  when the loader answers for a node that has been removed meanwhile, the answer replaces the
  whole data of the widget, and the elements stay: the two trees no longer agree.
\<close>

theorem stale_answer_replaces_data:
  assumes "tree_ok t" "\<not> known i t" "find (\<lambda>r. fst r = i) (tr_pending t) = Some (i, None)"
  shows "map td_domId (flabels (tr_data (loader_answer i (Some ds) t))) = [tr_next t..<new_next t ds]
    \<and> map dn_id (flabels (tr_dom (loader_answer i (Some ds) t))) = map dn_id (flabels (tr_dom t))"
  using stale_answer_shape [OF assms, of ds] flabels_new_ids [of t ds]
    flabels_data_shape [of "loader_answer i (Some ds) t"] flabels_dom_shape [of "loader_answer i (Some ds) t"] flabels_dom_shape [of t]
  by simp

definition late_events :: "tree_event list" where
  "late_events = [TrLoad [closed_node ''a'', sample_node ''b'' []], TrExpand 1, TrRemove 1]"

theorem stale_answer_replaces_data_witness:
  "map td_domId (flabels (tr_data (loader_answer 1 (Some [sample_node ''c'' []]) (foldl tree_step remote_tree late_events)))) = [3]
   \<and> map dn_id (flabels (tr_dom (loader_answer 1 (Some [sample_node ''c'' []]) (foldl tree_step remote_tree late_events)))) = [2]"
proof -
  let ?t = "foldl tree_step remote_tree late_events"
  have ok: "tree_ok ?t" by (rule tree_session_ok [OF new_tree_ok(2)]) code_simp
  have gone: "\<not> known 1 ?t" "find (\<lambda>r. fst r = 1) (tr_pending ?t) = Some (1, None)" by code_simp+
  have "[tr_next ?t..<new_next ?t [sample_node ''c'' []]] = [3]" "map dn_id (flabels (tr_dom ?t)) = [2]" by code_simp+
  with stale_answer_replaces_data [OF ok gone, of "[sample_node ''c'' []]"] show ?thesis by simp
qed

text \<open>
  reloading a node leaves its old node objects in the data until the loader answers; the
  answer makes both trees agree again, with the new nodes in the place of the old ones.
\<close>

theorem reload_heals:
  assumes "tree_ok t" "known i t" "reloadable i t"
  shows "map (map_rose td_domId) (tr_data (reload_node i t)) = map (map_rose td_domId) (tr_data t)
    \<and> map (map_rose dn_id) (tr_dom (reload_node i t)) = at_key i (\<lambda>us. []) (map (map_rose dn_id) (tr_dom t))
    \<and> map (map_rose td_domId) (tr_data (loader_answer i (Some ds) (reload_node i t))) = at_key i (\<lambda>us. new_ids t ds) (map (map_rose dn_id) (tr_dom t))
    \<and> tree_ok (loader_answer i (Some ds) (reload_node i t))"
  using reload_answer_ok [OF assms, of ds] reload_answer_shape [OF assms, of ds] reload_shape [OF assms] assms(1)
    by (simp add: shape_def tree_ok_def flip: data_shape_def dom_shape_def)

theorem reload_heals_witness:
  "let t = foldl tree_step remote_tree [TrLoad [sample_node ''a'' [sample_node ''b'' []]]] in
     map td_domId (flabels (tr_data (reload_node 1 t))) = [1, 2] \<and> map dn_id (flabels (tr_dom (reload_node 1 t))) = [1]
     \<and> tree_ok (loader_answer 1 (Some [sample_node ''c'' []]) (reload_node 1 t))"
proof -
  let ?es = "[TrLoad [sample_node ''a'' [sample_node ''b'' []]]]"
  let ?t = "foldl tree_step remote_tree ?es"
  have ok: "tree_ok ?t" by (rule tree_session_ok [OF new_tree_ok(2)]) code_simp
  have k: "known 1 ?t" "reloadable 1 ?t" by code_simp+
  from reload_heals [OF ok k, of "[sample_node ''c'' []]"]
  have "tree_ok (loader_answer 1 (Some [sample_node ''c'' []]) (reload_node 1 ?t))" by blast
  moreover have "map td_domId (flabels (tr_data (reload_node 1 ?t))) = [1, 2]" "map dn_id (flabels (tr_dom (reload_node 1 ?t))) = [1]"
    by code_simp+
  ultimately show ?thesis by (simp add: Let_def)
qed

end
