(* ===== verification/Slider.thy ===== *)
theory Slider
  imports JsPrelude
begin

text \<open>
  \<open>plugins/jquery.slider.js\<close> and \<open>plugins/jquery.progressbar.js\<close>. Values are exact
  rationals; a computation that yields NaN (an empty slider, a step of zero) is \<open>None\<close>. A value
  that is not an array is a list of one element. The length is the inner width of a horizontal
  and the inner height of a vertical slider; mouse positions are offsets along it.
\<close>

section \<open>Numbers\<close>

text \<open>\<open>x.toFixed(0)\<close> rounds halves away from zero; \<open>x % y\<close> has the sign of \<open>x\<close>.\<close>

definition to_fixed0 :: "rat \<Rightarrow> int" where
  "to_fixed0 x = (if x < 0 then - \<lfloor>- x + 1 / 2\<rfloor> else \<lfloor>x + 1 / 2\<rfloor>)"

definition js_rem :: "rat \<Rightarrow> rat \<Rightarrow> rat" where
  "js_rem x y = x - y * of_int (if x / y < 0 then \<lceil>x / y\<rceil> else \<lfloor>x / y\<rfloor>)"

lemma to_fixed0_near: "\<bar>of_int (to_fixed0 x) - x\<bar> \<le> 1 / 2"
proof (cases "x < 0")
  case True
  have "of_int \<lfloor>- x + 1 / 2\<rfloor> \<le> - x + 1 / 2" "- x + 1 / 2 < of_int \<lfloor>- x + 1 / 2\<rfloor> + 1"
    using floor_correct [of "- x + 1 / 2"] by auto
  then have "\<bar>- of_int \<lfloor>- x + 1 / 2\<rfloor> - x\<bar> \<le> 1 / 2" by linarith
  with True show ?thesis by (simp add: to_fixed0_def)
next
  case False
  have "of_int \<lfloor>x + 1 / 2\<rfloor> \<le> x + 1 / 2" "x + 1 / 2 < of_int \<lfloor>x + 1 / 2\<rfloor> + 1"
    using floor_correct [of "x + 1 / 2"] by auto
  then have "\<bar>of_int \<lfloor>x + 1 / 2\<rfloor> - x\<bar> \<le> 1 / 2" by linarith
  with False show ?thesis by (simp add: to_fixed0_def)
qed

lemma to_fixed0_int: "\<bar>x - of_int n\<bar> < 1 / 2 \<Longrightarrow> to_fixed0 x = n"
proof -
  assume "\<bar>x - of_int n\<bar> < 1 / 2"
  then have near: "of_int n - 1 / 2 < x" "x < of_int n + 1 / 2" by linarith+
  have "\<lfloor>- x + 1 / 2\<rfloor> = - n" by (rule floor_unique) (use near in \<open>simp_all add: field_simps\<close>)
  moreover have "\<lfloor>x + 1 / 2\<rfloor> = n" by (rule floor_unique) (use near in \<open>simp_all add: field_simps\<close>)
  ultimately show ?thesis by (simp add: to_fixed0_def)
qed

lemma to_fixed0_of_int [simp]: "to_fixed0 (of_int n) = n"
  by (rule to_fixed0_int) simp

lemma js_rem_multiple: "y \<noteq> 0 \<Longrightarrow> js_rem (of_int k * y) y = 0"
  by (simp add: js_rem_def)

section \<open>State\<close>

datatype slider_note = SlChange "rat list" "rat list" | SlideStart "rat list" | SlideEnd "rat list" | SlComplete "rat list"

record handle =
  hd_pos :: "int option"
  hd_tip :: "rat option"

record slider =
  sl_horizontal :: bool
  sl_reversed :: bool
  sl_range :: bool
  sl_disabled :: bool
  sl_showTip :: bool
  sl_min :: rat
  sl_max :: rat
  sl_step :: rat
  sl_length :: rat
  sl_value :: "rat list"
  sl_original :: "rat list"
  sl_handles :: "handle list"
  sl_inputs :: "rat list"
  sl_dragging :: bool
  sl_log :: "slider_note list"

definition sl_note :: "slider_note \<Rightarrow> slider \<Rightarrow> slider" where
  "sl_note n s = s\<lparr>sl_log := sl_log s @ [n]\<rparr>"

section \<open>Positions and values\<close>

text \<open>The converter, then \<open>_2e\<close> and \<open>_21\<close>\<close>

definition toPosition :: "slider \<Rightarrow> rat \<Rightarrow> rat option" where
  "toPosition s v = (if sl_max s = sl_min s then None else Some ((v - sl_min s) / (sl_max s - sl_min s) * sl_length s))"

definition toValue :: "slider \<Rightarrow> rat \<Rightarrow> rat option" where
  "toValue s pos = (if sl_length s = 0 then None else Some (sl_min s + (sl_max s - sl_min s) * (pos / sl_length s)))"

definition pos_of :: "slider \<Rightarrow> rat \<Rightarrow> int option" where
  "pos_of s v = map_option (\<lambda>x.
     let p = (if sl_horizontal s then x else sl_length s - x)
     in to_fixed0 (if sl_reversed s then sl_length s - p else p)) (toPosition s v)"

definition value_at :: "slider \<Rightarrow> rat \<Rightarrow> int option" where
  "value_at s pos = map_option to_fixed0
     (toValue s (if sl_horizontal s then (if sl_reversed s then sl_length s - pos else pos) else sl_length s - pos))"

section \<open>Setting values\<close>

definition clamp_value :: "slider \<Rightarrow> rat \<Rightarrow> rat" where
  "clamp_value s v = (let v' = (if v < sl_min s then sl_min s else v) in if v' > sl_max s then sl_max s else v')"

definition place_handle :: "slider \<Rightarrow> rat \<Rightarrow> handle \<Rightarrow> handle" where
  "place_handle s v h = h\<lparr>hd_pos := pos_of s v, hd_tip := if sl_showTip s then Some v else None\<rparr>"

text \<open>\<open>_22\<close>\<close>

definition set_slider :: "rat list \<Rightarrow> slider \<Rightarrow> slider" where
  "set_slider vs s =
     (let new = map (clamp_value s) vs;
          s1 = s\<lparr>sl_inputs := new,
                 sl_handles := map (\<lambda>(h, v). place_handle s v h) (zip (sl_handles s) new) @ drop (length new) (sl_handles s),
                 sl_value := if sl_range s then new else take 1 new\<rparr>
      in if sl_value s \<noteq> new then sl_note (SlChange (sl_value s1) (sl_value s)) s1 else s1)"

text \<open>\<open>_c\<close>: placed again, \<open>onChange\<close> switched off\<close>

definition place_again :: "slider \<Rightarrow> slider" where
  "place_again s = (set_slider (sl_value s) s)\<lparr>sl_log := sl_log s\<rparr>"

definition clear_slider :: "slider \<Rightarrow> slider" where
  "clear_slider s = set_slider (if sl_range s then [sl_min s, sl_max s] else [sl_min s]) s"

definition reset_slider :: "slider \<Rightarrow> slider" where
  "reset_slider s = set_slider (sl_original s) s"

text \<open>\<open>_17\<close> draws new handles, \<open>_6\<close> places them for a new length.\<close>

definition draw_handles :: "slider \<Rightarrow> slider" where
  "draw_handles s = s\<lparr>sl_handles := replicate (if sl_range s then 2 else 1) \<lparr>hd_pos = None, hd_tip = None\<rparr>\<rparr>"

definition resize_slider :: "rat \<Rightarrow> slider \<Rightarrow> slider" where
  "resize_slider len s = place_again (s\<lparr>sl_length := len\<rparr>)"

definition enable_slider :: "bool \<Rightarrow> slider \<Rightarrow> slider" where
  "enable_slider b s = draw_handles (s\<lparr>sl_disabled := \<not> b\<rparr>)"

text \<open>\<open>$.fn.slider\<close>: a range with one value gets the maximum as the other.\<close>

definition init_slider :: "rat \<Rightarrow> slider \<Rightarrow> slider" where
  "init_slider len s =
     (let v = (if sl_range s \<and> length (sl_value s) < 2 then sl_value s @ [sl_max s] else sl_value s)
      in resize_slider len (draw_handles (s\<lparr>sl_value := v, sl_original := v\<rparr>)))"

section \<open>Sliding\<close>

definition snap :: "rat \<Rightarrow> rat \<Rightarrow> rat" where
  "snap step x = (let s = \<bar>js_rem x step\<bar> in if s < step / 2 then x - s else x - s + step)"

text \<open>The handle of a range that takes the value: the nearer one, the outer one outside\<close>

definition pick_handle :: "rat \<Rightarrow> rat \<Rightarrow> rat \<Rightarrow> rat list" where
  "pick_handle x v1 v2 =
     (if x < v1 then [x, v2] else if x > v2 then [v1, x] else if x < (v1 + v2) / 2 then [x, v2] else [v1, x])"

text \<open>\<open>_1f\<close>\<close>

definition slide :: "rat \<Rightarrow> slider \<Rightarrow> slider option" where
  "slide pos s =
     (if sl_step s = 0 then None
      else case value_at s pos of
             None \<Rightarrow> None
           | Some y \<Rightarrow>
               let x = snap (sl_step s) (of_int y)
               in if sl_range s
                  then (case sl_value s of v1 # v2 # vs \<Rightarrow> Some (set_slider (pick_handle x v1 v2) s) | _ \<Rightarrow> None)
                  else Some (set_slider [x] s))"

datatype slider_event = SlDown rat | SlBeforeDrag | SlStartDrag | SlDrag rat | SlStop rat
  | SlClear | SlReset | SlResize rat | SlEnable bool

definition slider_step :: "slider \<Rightarrow> slider_event \<Rightarrow> slider option" where
  "slider_step s e =
     (case e of
        SlDown pos \<Rightarrow> if sl_dragging s \<or> sl_disabled s then Some s
                      else map_option (\<lambda>s'. sl_note (SlComplete (sl_value s')) s') (slide pos s)
      | SlBeforeDrag \<Rightarrow> Some (s\<lparr>sl_dragging := True\<rparr>)
      | SlStartDrag \<Rightarrow> Some (sl_note (SlideStart (sl_value s)) s)
      | SlDrag pos \<Rightarrow> if pos < 0 \<or> pos > sl_length s then Some s else slide pos s
      | SlStop pos \<Rightarrow> map_option (\<lambda>s'. (sl_note (SlComplete (sl_value s')) (sl_note (SlideEnd (sl_value s')) s'))\<lparr>sl_dragging := False\<rparr>) (slide pos s)
      | SlClear \<Rightarrow> Some (clear_slider s)
      | SlReset \<Rightarrow> Some (reset_slider s)
      | SlResize len \<Rightarrow> Some (resize_slider len s)
      | SlEnable b \<Rightarrow> Some (enable_slider b s))"

section \<open>Invariant\<close>

definition handle_count :: "slider \<Rightarrow> nat" where
  "handle_count s = (if sl_range s then 2 else 1)"

text \<open>Right number, within the limits, in order; a placed handle is where its value belongs.\<close>

definition slider_ok :: "slider \<Rightarrow> bool" where
  "slider_ok s \<longleftrightarrow>
     sl_min s \<le> sl_max s \<and> length (sl_value s) = handle_count s \<and> length (sl_original s) = handle_count s \<and>
     sorted (sl_value s) \<and> sorted (sl_original s) \<and> sl_inputs s = sl_value s \<and>
     (\<forall>v \<in> set (sl_value s). sl_min s \<le> v \<and> v \<le> sl_max s) \<and>
     list_all2 (\<lambda>h v. hd_pos h = None \<or> hd_pos h = pos_of s v) (sl_handles s) (sl_value s)"

lemma clamp_bounds: "sl_min s \<le> sl_max s \<Longrightarrow> sl_min s \<le> clamp_value s v \<and> clamp_value s v \<le> sl_max s"
  by (auto simp: clamp_value_def Let_def)

lemma clamp_mono: "sl_min s \<le> sl_max s \<Longrightarrow> v \<le> w \<Longrightarrow> clamp_value s v \<le> clamp_value s w"
  by (auto simp: clamp_value_def Let_def)

lemma clamp_id: "sl_min s \<le> v \<Longrightarrow> v \<le> sl_max s \<Longrightarrow> clamp_value s v = v"
  by (simp add: clamp_value_def)

lemma pos_of_frame [simp]:
  "pos_of (s\<lparr>sl_inputs := a\<rparr>) v = pos_of s v" "pos_of (s\<lparr>sl_handles := b\<rparr>) v = pos_of s v"
  "pos_of (s\<lparr>sl_value := c\<rparr>) v = pos_of s v" "pos_of (s\<lparr>sl_log := d\<rparr>) v = pos_of s v"
  "pos_of (s\<lparr>sl_dragging := e\<rparr>) v = pos_of s v" "pos_of (s\<lparr>sl_disabled := f\<rparr>) v = pos_of s v"
  "pos_of (s\<lparr>sl_original := c\<rparr>) v = pos_of s v"
  by (simp_all add: pos_of_def toPosition_def Let_def)

lemma set_slider_fields:
  assumes "length vs = handle_count s" "length (sl_handles s) = handle_count s"
  shows "sl_value (set_slider vs s) = map (clamp_value s) vs" "sl_inputs (set_slider vs s) = map (clamp_value s) vs"
    and "sl_handles (set_slider vs s) = map2 (\<lambda>h v. place_handle s v h) (sl_handles s) (map (clamp_value s) vs)"
    and "sl_min (set_slider vs s) = sl_min s" "sl_max (set_slider vs s) = sl_max s" "sl_range (set_slider vs s) = sl_range s"
    and "sl_original (set_slider vs s) = sl_original s" "pos_of (set_slider vs s) = pos_of s" "sl_length (set_slider vs s) = sl_length s"
  using assms
  by (auto simp: set_slider_def Let_def sl_note_def handle_count_def numeral_2_eq_2 fun_eq_iff split: if_splits)

lemma handles_length: "slider_ok s \<Longrightarrow> length (sl_handles s) = handle_count s"
  by (auto simp: slider_ok_def dest: list_all2_lengthD)

text \<open>Every ordered list of values of the right number may be set.\<close>

lemma set_slider_ok:
  assumes "slider_ok s" "length vs = handle_count s" "sorted vs"
  shows "slider_ok (set_slider vs s)"
proof -
  note f = set_slider_fields [OF assms(2) handles_length [OF assms(1)]]
  have le: "sl_min s \<le> sl_max s" using assms(1) by (simp add: slider_ok_def)
  have "sorted (map (clamp_value s) vs)"
    using assms(3) by (auto simp: sorted_iff_nth_mono intro: clamp_mono [OF le])
  moreover have "list_all2 (\<lambda>h v. hd_pos h = None \<or> hd_pos h = pos_of s v)
      (map2 (\<lambda>h v. place_handle s v h) (sl_handles s) (map (clamp_value s) vs)) (map (clamp_value s) vs)"
    using assms(2) handles_length [OF assms(1)] by (simp add: list_all2_conv_all_nth place_handle_def)
  ultimately show ?thesis
    using assms clamp_bounds [OF le] by (auto simp: slider_ok_def f handle_count_def)
qed

lemma note_ok [simp]: "slider_ok (sl_note n s) = slider_ok s"
  by (simp add: slider_ok_def sl_note_def handle_count_def)

lemma dragging_ok [simp]: "slider_ok (s\<lparr>sl_dragging := b\<rparr>) = slider_ok s"
  by (simp add: slider_ok_def handle_count_def)

lemma pick_sorted: "v1 \<le> v2 \<Longrightarrow> sorted (pick_handle x v1 v2) \<and> length (pick_handle x v1 v2) = 2"
  by (auto simp: pick_handle_def)

lemma slide_ok:
  assumes "slider_ok s" "slide pos s = Some s'"
  shows "slider_ok s'"
proof -
  obtain y where y: "value_at s pos = Some y" using assms(2) by (auto simp: slide_def split: if_splits option.splits)
  define x where "x = snap (sl_step s) (of_int y)"
  show ?thesis
  proof (cases "sl_range s")
    case True
    then obtain v1 v2 where v: "sl_value s = [v1, v2]" "v1 \<le> v2"
      using assms(1) by (auto simp: slider_ok_def handle_count_def length_Suc_conv numeral_2_eq_2)
    then have "s' = set_slider (pick_handle x v1 v2) s"
      using assms(2) True by (simp add: slide_def y x_def Let_def split: if_splits)
    then show ?thesis using set_slider_ok [OF assms(1)] pick_sorted [OF v(2), of x] True by (simp add: handle_count_def)
  next
    case False
    then have "s' = set_slider [x] s" using assms(2) by (simp add: slide_def y x_def Let_def split: if_splits)
    then show ?thesis using set_slider_ok [OF assms(1), of "[x]"] False by (simp add: handle_count_def)
  qed
qed

lemma place_again_ok:
  assumes "slider_ok s"
  shows "slider_ok (place_again (s\<lparr>sl_length := len\<rparr>))"
proof -
  let ?s = "s\<lparr>sl_length := len\<rparr>"
  have n: "length (sl_value ?s) = handle_count ?s" "length (sl_handles ?s) = handle_count ?s"
    using assms handles_length [OF assms] by (simp_all add: slider_ok_def handle_count_def)
  note f = set_slider_fields [OF n]
  have "map (clamp_value ?s) (sl_value s) = sl_value s"
    using assms by (auto simp: slider_ok_def clamp_value_def intro!: map_idI)
  moreover have "list_all2 (\<lambda>h v. hd_pos h = None \<or> hd_pos h = pos_of ?s v) (map2 (\<lambda>h v. place_handle ?s v h) (sl_handles s) (sl_value s)) (sl_value s)"
    using n by (simp add: list_all2_conv_all_nth place_handle_def)
  ultimately show ?thesis
    using assms f by (simp add: place_again_def slider_ok_def handle_count_def)
qed

lemma enable_ok: "slider_ok s \<Longrightarrow> slider_ok (enable_slider b s)"
  by (auto simp: slider_ok_def enable_slider_def draw_handles_def handle_count_def list_all2_conv_all_nth length_Suc_conv numeral_2_eq_2
      nth_Cons split: nat.splits)

lemma slider_step_ok:
  assumes "slider_ok s" "slider_step s e = Some s'"
  shows "slider_ok s'"
proof (cases e)
  case SlClear
  have "slider_ok (clear_slider s)" unfolding clear_slider_def
    by (rule set_slider_ok [OF assms(1)]) (use assms(1) in \<open>auto simp: handle_count_def slider_ok_def\<close>)
  with SlClear assms show ?thesis by (simp add: slider_step_def)
next
  case SlReset
  have "slider_ok (reset_slider s)" unfolding reset_slider_def
    by (rule set_slider_ok [OF assms(1)]) (use assms(1) in \<open>auto simp: slider_ok_def\<close>)
  with SlReset assms show ?thesis by (simp add: slider_step_def)
qed (use assms in \<open>auto simp: slider_step_def resize_slider_def intro: slide_ok enable_ok place_again_ok split: if_splits\<close>)

interpretation slider: partial_machine slider_step slider_ok
  by unfold_locales (rule slider_step_ok)

section \<open>Progress bars\<close>

record progressbar =
  pb_value :: rat
  pb_text :: string
  pb_width :: rat
  pb_label :: string
  pb_log :: "(rat \<times> rat) list"

text \<open>\<open>setValue\<close>; \<open>show\<close> prints a number, the template has the place \<open>{value}\<close>.\<close>

definition set_progress :: "(rat \<Rightarrow> string) \<Rightarrow> rat \<Rightarrow> progressbar \<Rightarrow> progressbar" where
  "set_progress shw v p =
     (let v1 = (if v < 0 then 0 else v); v2 = (if v1 > 100 then 100 else v1);
          p1 = p\<lparr>pb_value := v2, pb_width := v2, pb_label := replace_first ''{value}'' (shw v2) (pb_text p)\<rparr>
      in if pb_value p \<noteq> v2 then p1\<lparr>pb_log := pb_log p @ [(v2, pb_value p)]\<rparr> else p1)"

definition init_progress :: "(rat \<Rightarrow> string) \<Rightarrow> progressbar \<Rightarrow> progressbar" where
  "init_progress shw p = set_progress shw (pb_value p) p"

lemma progress_bounds: "0 \<le> pb_value (set_progress shw v p) \<and> pb_value (set_progress shw v p) \<le> 100 \<and> pb_width (set_progress shw v p) = pb_value (set_progress shw v p)"
  by (simp add: set_progress_def Let_def)

section \<open>Clicking where a handle is\<close>

lemma snap_grid:
  assumes "0 < step" "x = of_int k * step"
  shows "snap step x = x"
  using assms by (simp add: snap_def js_rem_multiple)

text \<open>The error of the pixel grid is less than half a unit if a unit has at least one pixel.\<close>

lemma pixel_error:
  fixes lo hi v len q x :: rat
  assumes "lo < hi" "hi - lo \<le> len" "v = of_int n" "x = (v - lo) / (hi - lo) * len"
    and "\<bar>q - x\<bar> \<le> 1 / 2" "hi - lo = len \<Longrightarrow> q = x"
  shows "to_fixed0 (lo + (hi - lo) * (q / len)) = n"
proof (rule to_fixed0_int)
  have len: "0 < len" using assms(1,2) by linarith
  have v: "v = lo + (hi - lo) * (x / len)" using len assms(1,4) by simp
  have diff: "lo + (hi - lo) * (q / len) - v = (hi - lo) / len * (q - x)" using len by (simp add: v field_simps)
  show "\<bar>lo + (hi - lo) * (q / len) - of_int n\<bar> < 1 / 2"
  proof (cases "hi - lo = len")
    case True
    then show ?thesis using diff assms(3,6) by simp
  next
    case False
    then have r: "0 < (hi - lo) / len" "(hi - lo) / len < 1" using assms(1,2) len by (simp_all add: field_simps)
    have "\<bar>(hi - lo) / len * (q - x)\<bar> = (hi - lo) / len * \<bar>q - x\<bar>" using r(1) by (simp only: abs_mult abs_of_pos)
    also have "\<dots> \<le> (hi - lo) / len * (1 / 2)" using assms(5) r(1) by (intro mult_left_mono) auto
    also have "\<dots> < 1 * (1 / 2)" using r(2) by (intro mult_strict_right_mono) auto
    finally have "\<bar>lo + (hi - lo) * (q / len) - v\<bar> < 1 / 2" unfolding diff by simp
    then show ?thesis by (simp only: assms(3))
  qed
qed

text \<open>A vertical reversed slider is drawn like a horizontal one but read upside down.\<close>

definition straight :: "slider \<Rightarrow> bool" where
  "straight s = (sl_horizontal s \<or> \<not> sl_reversed s)"

lemma value_at_handle:
  assumes "straight s" "sl_min s = of_int lo" "sl_max s = of_int hi" "lo < hi" "of_int (hi - lo) \<le> sl_length s"
    and "v = of_int n" "pos_of s v = Some p"
  shows "value_at s (of_int p) = Some n"
proof -
  define x where "x = (v - of_int lo) / (of_int hi - of_int lo) * sl_length s"
  define q where "q = (if sl_horizontal s \<and> \<not> sl_reversed s then of_int p else sl_length s - of_int p)"
  have len: "0 < sl_length s"
  proof -
    have "(0::rat) < of_int (hi - lo)" using assms(4) by simp
    then show ?thesis using assms(5) by linarith
  qed
  have p: "p = to_fixed0 (if sl_horizontal s \<and> \<not> sl_reversed s then x else sl_length s - x)"
    using assms by (auto simp: pos_of_def toPosition_def x_def straight_def Let_def split: if_splits)
  have "\<bar>sl_length s - of_int (to_fixed0 (sl_length s - x)) - x\<bar> \<le> 1 / 2"
    using to_fixed0_near [of "sl_length s - x"] by linarith
  then have near: "\<bar>q - x\<bar> \<le> 1 / 2"
    using to_fixed0_near [of x] unfolding q_def p by (cases "sl_horizontal s"; cases "sl_reversed s") simp_all
  have tie: "q = x" if "of_int hi - of_int lo = sl_length s"
  proof -
    have "x = of_int (n - lo)" using that len assms(6) by (simp add: x_def)
    moreover have "sl_length s - x = of_int (hi - n)" using that calculation by simp
    ultimately have "to_fixed0 x = n - lo" "to_fixed0 (sl_length s - x) = hi - n" "x = of_int (n - lo)" "sl_length s - x = of_int (hi - n)"
      by (simp_all only: to_fixed0_of_int)
    then show ?thesis unfolding q_def p by (cases "sl_horizontal s"; cases "sl_reversed s") simp_all
  qed
  have "to_fixed0 (of_int lo + (of_int hi - of_int lo) * (q / sl_length s)) = n"
    by (rule pixel_error [OF _ _ assms(6) x_def near tie]) (use assms(4,5) in simp_all)
  then show ?thesis
    using assms(1-3) len by (auto simp: value_at_def toValue_def q_def straight_def split: if_splits)
qed

lemma pick_same: "v1 \<le> v2 \<Longrightarrow> x = v1 \<or> x = v2 \<Longrightarrow> pick_handle x v1 v2 = [v1, v2]"
  by (auto simp: pick_handle_def)

lemma set_slider_same:
  assumes "slider_ok s"
  shows "sl_value (set_slider (sl_value s) s) = sl_value s \<and> sl_log (set_slider (sl_value s) s) = sl_log s"
proof -
  have "map (clamp_value s) (sl_value s) = sl_value s" using assms by (auto simp: slider_ok_def intro!: map_idI clamp_id)
  then show ?thesis
    using assms by (auto simp: set_slider_def Let_def slider_ok_def handle_count_def)
qed

lemma slide_at_handle:
  assumes "slider_ok s" "straight s" "sl_min s = of_int lo" "sl_max s = of_int hi" "lo < hi" "of_int (hi - lo) \<le> sl_length s"
    and "sl_step s = of_int k" "0 < k" "\<forall>v \<in> set (sl_value s). \<exists>j. v = of_int (j * k)"
    and "i < length (sl_value s)" "hd_pos (sl_handles s ! i) = Some p"
  shows "slide (of_int p) s = Some (set_slider (sl_value s) s)"
proof -
  define v where "v = sl_value s ! i"
  have v: "v \<in> set (sl_value s)" using assms(10) by (simp add: v_def)
  then obtain j where j: "v = of_int (j * k)" using assms(9) by blast
  have "pos_of s v = Some p"
    using assms(1,10,11) by (auto simp: slider_ok_def list_all2_conv_all_nth v_def)
  from value_at_handle [OF assms(2-6) j this] have "value_at s (of_int p) = Some (j * k)" .
  moreover have "snap (sl_step s) (of_int (j * k)) = v"
    using snap_grid [of "sl_step s" "of_int (j * k)" j] assms(7,8) j by simp
  moreover have "sl_range s \<Longrightarrow> \<exists>v1 v2. sl_value s = [v1, v2] \<and> v1 \<le> v2 \<and> (v = v1 \<or> v = v2)"
    using assms(1) v by (auto simp: slider_ok_def handle_count_def length_Suc_conv numeral_2_eq_2)
  moreover have "\<not> sl_range s \<Longrightarrow> sl_value s = [v]"
    using assms(1) v by (auto simp: slider_ok_def handle_count_def length_Suc_conv)
  ultimately show ?thesis
    using assms(7,8) by (cases "sl_range s") (auto simp: slide_def Let_def pick_same)
qed

text \<open>A value below zero is snapped away from the grid of steps: -7 with step 5 becomes -9.\<close>

lemma snap_negative: "snap 5 (- 7) = - 9"
  by code_simp

text \<open>Enabling or disabling a slider draws new handles and does not place them.\<close>

lemma enable_unplaced: "hd_pos ` set (sl_handles (enable_slider b s)) = {None}"
  by (simp add: enable_slider_def draw_handles_def)

section \<open>The properties\<close>

lemma init_slider_ok:
  assumes "sl_min s \<le> sl_max s" "sorted (sl_value s)" "length (sl_value s) = handle_count s"
  shows "slider_ok (init_slider len s)"
proof -
  define u where "u = (draw_handles (s\<lparr>sl_original := sl_value s\<rparr>))\<lparr>sl_length := len\<rparr>"
  have init: "init_slider len s = (set_slider (sl_value u) u)\<lparr>sl_log := sl_log u\<rparr>"
    using assms(3) by (simp add: init_slider_def resize_slider_def place_again_def u_def draw_handles_def handle_count_def Let_def split: if_splits)
  have n: "length (sl_value u) = handle_count u" "length (sl_handles u) = handle_count u" "sl_min u \<le> sl_max u"
    "sorted (sl_value u)" "sl_original u = sl_value u"
    using assms by (simp_all add: u_def draw_handles_def handle_count_def)
  note f = set_slider_fields [OF n(1,2)]
  have "sorted (map (clamp_value u) (sl_value u))"
    using n(4) by (auto simp: sorted_iff_nth_mono intro: clamp_mono [OF n(3)])
  moreover have "list_all2 (\<lambda>h v. hd_pos h = None \<or> hd_pos h = pos_of u v)
      (map2 (\<lambda>h v. place_handle u v h) (sl_handles u) (map (clamp_value u) (sl_value u))) (map (clamp_value u) (sl_value u))"
    using n(1,2) by (simp add: list_all2_conv_all_nth place_handle_def)
  ultimately show ?thesis
    unfolding init using n f clamp_bounds [OF n(3)] by (auto simp: slider_ok_def handle_count_def)
qed

text \<open>
  C17. In every session of clicks, drags, resizes, clears and resets a slider holds one value, or
  two in order, within its limits; the form inputs hold the same values and a placed handle is
  where its value belongs.
\<close>

theorem slider_session:
  assumes "sl_min s \<le> sl_max s" "sorted (sl_value s)" "length (sl_value s) = handle_count s"
    and "run_events slider_step (init_slider len s) es = Some s'"
  shows "length (sl_value s') = handle_count s' \<and> sorted (sl_value s') \<and> (\<forall>v \<in> set (sl_value s'). sl_min s' \<le> v \<and> v \<le> sl_max s')
    \<and> sl_inputs s' = sl_value s' \<and> list_all2 (\<lambda>h v. hd_pos h = None \<or> hd_pos h = pos_of s' v) (sl_handles s') (sl_value s')"
  using slider.inv_run [OF init_slider_ok [OF assms(1-3)] assms(4)] by (simp add: slider_ok_def)

definition sample_slider :: slider where
  "sample_slider = \<lparr>sl_horizontal = True, sl_reversed = False, sl_range = True, sl_disabled = False, sl_showTip = False,
     sl_min = 0, sl_max = 100, sl_step = 5, sl_length = 0, sl_value = [20, 140], sl_original = [], sl_handles = [],
     sl_inputs = [], sl_dragging = False, sl_log = []\<rparr>"

definition sample_gestures :: "slider_event list" where
  "sample_gestures = [SlDown 61, SlBeforeDrag, SlStartDrag, SlDrag 250, SlStop 401, SlResize 300]"

lemma is_some_the: "\<not> Option.is_none x \<Longrightarrow> x = Some (the x)"
  by (cases x) simp_all

theorem slider_session_witness:
  "sl_value (the (run_events slider_step (init_slider 200 sample_slider) sample_gestures)) = [30, 100]
   \<and> list_all2 (\<lambda>h v. hd_pos h = None \<or> hd_pos h = pos_of (the (run_events slider_step (init_slider 200 sample_slider) sample_gestures)) v)
       (sl_handles (the (run_events slider_step (init_slider 200 sample_slider) sample_gestures)))
       (sl_value (the (run_events slider_step (init_slider 200 sample_slider) sample_gestures)))"
proof -
  let ?r = "run_events slider_step (init_slider 200 sample_slider) sample_gestures"
  have "\<not> Option.is_none ?r" by code_simp
  note run = is_some_the [OF this]
  have "sl_min sample_slider \<le> sl_max sample_slider" "sorted (sl_value sample_slider)" "length (sl_value sample_slider) = handle_count sample_slider"
    by (simp_all add: sample_slider_def handle_count_def)
  note ses = slider_session [OF this run]
  have "sl_value (the ?r) = [30, 100]" by code_simp
  with ses show ?thesis by blast
qed

text \<open>
  Pressing the mouse where a handle stands changes nothing: the value read back from the
  pixel is the value, when the limits and steps are whole numbers, the values lie on the steps and
  a unit has at least one pixel.
\<close>

theorem click_on_handle:
  assumes "slider_ok s" "straight s" "sl_min s = of_int lo" "sl_max s = of_int hi" "lo < hi" "of_int (hi - lo) \<le> sl_length s"
    and "sl_step s = of_int k" "0 < k" "\<forall>v \<in> set (sl_value s). \<exists>j. v = of_int (j * k)"
    and "i < length (sl_value s)" "hd_pos (sl_handles s ! i) = Some p" "\<not> sl_dragging s" "\<not> sl_disabled s"
  shows "\<exists>s'. slider_step s (SlDown (of_int p)) = Some s' \<and> sl_value s' = sl_value s \<and> sl_log s' = sl_log s @ [SlComplete (sl_value s)]"
  using slide_at_handle [OF assms(1-11)] set_slider_same [OF assms(1)] assms(12,13)
  by (simp add: slider_step_def sl_note_def)

theorem click_on_handle_witness:
  "\<exists>s'. slider_step (init_slider 301 sample_slider) (SlDown (of_int 60)) = Some s' \<and> sl_value s' = [20, 100]"
proof -
  let ?s = "init_slider 301 sample_slider"
  have ok: "slider_ok ?s" by (rule init_slider_ok) (simp_all add: sample_slider_def handle_count_def)
  have f: "straight ?s" "sl_min ?s = of_int 0" "sl_max ?s = of_int 100" "of_int (100 - 0) \<le> sl_length ?s" "sl_step ?s = of_int 5"
    "sl_value ?s = [of_int (4 * 5), of_int (20 * 5)]" "hd_pos (sl_handles ?s ! 0) = Some 60" "\<not> sl_dragging ?s" "\<not> sl_disabled ?s"
    by code_simp+
  have "\<forall>v \<in> set (sl_value ?s). \<exists>j. v = of_int (j * 5)" unfolding f(6) by (simp only: list.set ball_simps) blast
  from click_on_handle [OF ok f(1-3) _ f(4,5) _ this _ f(7-9)] f(6) show ?thesis by auto
qed

end
