(* ===== verification/Grid.thy ===== *)
theory Grid
  imports JsPrelude "HOL-Library.List_Lexorder" "HOL-Library.Char_ord"
begin

text \<open>
  \<open>plugins/jquery.datagrid.js\<close>: the rows of a data grid, its table rows, selection and check
  state, row editing and the record of changes. Row objects are shared between the lists of the
  widget, so they live in a store and the lists hold addresses. Cell values are strings; a missing
  property is \<open>None\<close>. Calls with an index that is not a row's are outside the model (the source fails in them at an undefined
  row, at a point that depends on the rows already selected) and change nothing here.
  The frozen and the scrolling half of the table change alike and are one
  table here. Callbacks that may veto are the function \<open>gr_allow\<close>; the loader, the pager, column
  widths and scrolling are left out.
\<close>

section \<open>State\<close>

type_synonym grow = "string \<Rightarrow> string option"

record tablerow =
  tr_index :: nat
  tr_cells :: grow
  tr_selected :: bool
  tr_checked :: bool
  tr_editing :: "(string \<times> string) list option"

datatype grid_hook = GSelect | GUnselect | GCheck | GUncheck | GEdit

record grid =
  gr_idField :: "string option"
  gr_single :: bool
  gr_ctrl :: bool
  gr_selOnCheck :: bool
  gr_checkOnSel :: bool
  gr_multiSort :: bool
  gr_remoteSort :: bool
  gr_allow :: "grid_hook \<Rightarrow> nat \<Rightarrow> bool"
  gr_editors :: "string list"
  gr_valid :: "string \<Rightarrow> string \<Rightarrow> bool"
  gr_sortable :: "string \<Rightarrow> bool"
  gr_order :: "string \<Rightarrow> bool"
  gr_sort :: "(string \<times> bool) list"
  gr_heap :: "nat \<Rightarrow> grow"
  gr_next :: nat
  gr_rows :: "nat list"
  gr_total :: int
  gr_trs :: "tablerow list"
  gr_header :: bool
  gr_selected :: "nat list"
  gr_checked :: "nat list"
  gr_inserted :: "nat list"
  gr_deleted :: "nat list"
  gr_updated :: "nat list"
  gr_original :: "nat list"
  gr_lastIndex :: nat

section \<open>Lists of row objects\<close>

text \<open>\<open>_2\<close>, \<open>_4\<close> (with an id field and without) and \<open>_7\<close>\<close>

definition index_in :: "nat list \<Rightarrow> nat \<Rightarrow> nat option" where
  "index_in xs x = find_index (\<lambda>y. y = x) xs"

definition drop_object :: "nat \<Rightarrow> nat list \<Rightarrow> nat list" where
  "drop_object x xs = (case index_in xs x of None \<Rightarrow> xs | Some i \<Rightarrow> remove_at i xs)"

definition drop_id :: "grid \<Rightarrow> string option \<Rightarrow> nat list \<Rightarrow> nat list" where
  "drop_id g v xs =
     (case gr_idField g of
        None \<Rightarrow> xs
      | Some f \<Rightarrow> (case find_index (\<lambda>x. gr_heap g x f = v) xs of None \<Rightarrow> xs | Some i \<Rightarrow> remove_at i xs))"

definition add_id :: "grid \<Rightarrow> nat \<Rightarrow> nat list \<Rightarrow> nat list" where
  "add_id g r xs =
     (case gr_idField g of
        None \<Rightarrow> xs
      | Some f \<Rightarrow> if list_ex (\<lambda>x. gr_heap g x f = gr_heap g r f) xs then xs else xs @ [r])"

definition row_id :: "grid \<Rightarrow> nat \<Rightarrow> string option" where
  "row_id g r = (case gr_idField g of None \<Rightarrow> None | Some f \<Rightarrow> gr_heap g r f)"

definition get_row :: "grid \<Rightarrow> nat \<Rightarrow> nat" where
  "get_row g i = gr_rows g ! i"

section \<open>Table rows\<close>

definition set_tr :: "nat \<Rightarrow> (tablerow \<Rightarrow> tablerow) \<Rightarrow> grid \<Rightarrow> grid" where
  "set_tr i f g = g\<lparr>gr_trs := map (\<lambda>r. if tr_index r = i then f r else r) (gr_trs g)\<rparr>"

definition set_trs :: "(tablerow \<Rightarrow> tablerow) \<Rightarrow> grid \<Rightarrow> grid" where
  "set_trs f g = g\<lparr>gr_trs := map f (gr_trs g)\<rparr>"

definition get_tr :: "nat \<Rightarrow> grid \<Rightarrow> tablerow option" where
  "get_tr i g = find (\<lambda>r. tr_index r = i) (gr_trs g)"

definition new_tr :: "nat \<Rightarrow> grow \<Rightarrow> tablerow" where
  "new_tr i c = \<lparr>tr_index = i, tr_cells = c, tr_selected = False, tr_checked = False, tr_editing = None\<rparr>"

section \<open>Selecting and checking\<close>

text \<open>
  The eight operations of \<open>_97\<close>, \<open>_98\<close>, \<open>_121\<close>, \<open>_11c\<close> (selection) and \<open>_94\<close>,
  \<open>_95\<close>, \<open>_126\<close>, \<open>_12c\<close> (checks) call each other once, with a flag that stops the callee
  from calling back. Here \<open>mid\<close> is that call; it is the identity when the flag is set.
\<close>

definition unselect_all_with :: "(grid \<Rightarrow> grid) \<Rightarrow> grid \<Rightarrow> grid" where
  "unselect_all_with mid g =
     (let g1 = set_trs (\<lambda>r. r\<lparr>tr_selected := False\<rparr>) (mid g)
      in g1\<lparr>gr_selected := fold (\<lambda>r xs. drop_id g1 (row_id g1 r) xs) (gr_rows g1) (gr_selected g1)\<rparr>)"

definition uncheck_all_with :: "(grid \<Rightarrow> grid) \<Rightarrow> grid \<Rightarrow> grid" where
  "uncheck_all_with mid g =
     (let g1 = (set_trs (\<lambda>r. r\<lparr>tr_checked := False\<rparr>) (mid g))\<lparr>gr_header := False\<rparr>
      in g1\<lparr>gr_checked := fold (\<lambda>r xs. drop_id g1 (row_id g1 r) xs) (gr_rows g1) (gr_checked g1)\<rparr>)"

definition select_all_with :: "(grid \<Rightarrow> grid) \<Rightarrow> grid \<Rightarrow> grid" where
  "select_all_with mid g =
     (let g1 = set_trs (\<lambda>r. r\<lparr>tr_selected := True\<rparr>) (mid g)
      in g1\<lparr>gr_selected := fold (add_id g1) (gr_rows g1) (gr_selected g1)\<rparr>)"

definition check_all_with :: "(grid \<Rightarrow> grid) \<Rightarrow> grid \<Rightarrow> grid" where
  "check_all_with mid g =
     (let g1 = (set_trs (\<lambda>r. r\<lparr>tr_checked := True\<rparr>) (mid g))\<lparr>gr_header := True\<rparr>
      in g1\<lparr>gr_checked := fold (add_id g1) (gr_rows g1) (gr_checked g1)\<rparr>)"

definition select_with :: "(grid \<Rightarrow> grid) \<Rightarrow> nat \<Rightarrow> grid \<Rightarrow> grid" where
  "select_with mid i g =
     (if i \<ge> length (gr_rows g) \<or> \<not> gr_allow g GSelect i then g
      else let g1 = (if gr_single g then (unselect_all_with id g)\<lparr>gr_selected := []\<rparr> else g);
               g2 = mid g1
           in set_tr i (\<lambda>r. r\<lparr>tr_selected := True\<rparr>) (g2\<lparr>gr_selected := add_id g2 (get_row g2 i) (gr_selected g2)\<rparr>))"

definition check_with :: "(grid \<Rightarrow> grid) \<Rightarrow> nat \<Rightarrow> grid \<Rightarrow> grid" where
  "check_with mid i g =
     (if i \<ge> length (gr_rows g) \<or> \<not> gr_allow g GCheck i then g
      else let g1 = (if gr_single g \<and> gr_selOnCheck g then (uncheck_all_with id g)\<lparr>gr_checked := []\<rparr> else g);
               g2 = set_tr i (\<lambda>r. r\<lparr>tr_checked := True\<rparr>) (mid g1);
               g3 = g2\<lparr>gr_header := gr_header g2 \<or> length (filter tr_checked (gr_trs g2)) = length (gr_rows g2)\<rparr>
           in g3\<lparr>gr_checked := add_id g3 (get_row g3 i) (gr_checked g3)\<rparr>)"

definition unselect_with :: "(grid \<Rightarrow> grid) \<Rightarrow> nat \<Rightarrow> grid \<Rightarrow> grid" where
  "unselect_with mid i g =
     (if i \<ge> length (gr_rows g) \<or> \<not> gr_allow g GUnselect i then g
      else let g1 = set_tr i (\<lambda>r. r\<lparr>tr_selected := False\<rparr>) (mid g)
           in g1\<lparr>gr_selected := drop_id g1 (row_id g1 (get_row g1 i)) (gr_selected g1)\<rparr>)"

definition uncheck_with :: "(grid \<Rightarrow> grid) \<Rightarrow> nat \<Rightarrow> grid \<Rightarrow> grid" where
  "uncheck_with mid i g =
     (if i \<ge> length (gr_rows g) \<or> \<not> gr_allow g GUncheck i then g
      else let g1 = (set_tr i (\<lambda>r. r\<lparr>tr_checked := False\<rparr>) (mid g))\<lparr>gr_header := False\<rparr>
           in g1\<lparr>gr_checked := drop_id g1 (row_id g1 (get_row g1 i)) (gr_checked g1)\<rparr>)"

definition select_row :: "nat \<Rightarrow> grid \<Rightarrow> grid" where
  "select_row i g = select_with (\<lambda>u. if gr_checkOnSel u then check_with id i u else u) i g"

definition check_row :: "nat \<Rightarrow> grid \<Rightarrow> grid" where
  "check_row i g = check_with (\<lambda>u. if gr_selOnCheck u then select_with id i u else u) i g"

definition unselect_row :: "nat \<Rightarrow> grid \<Rightarrow> grid" where
  "unselect_row i g = unselect_with (\<lambda>u. if gr_checkOnSel u then uncheck_with id i u else u) i g"

definition uncheck_row :: "nat \<Rightarrow> grid \<Rightarrow> grid" where
  "uncheck_row i g = uncheck_with (\<lambda>u. if gr_selOnCheck u then unselect_with id i u else u) i g"

definition select_all :: "grid \<Rightarrow> grid" where
  "select_all g = select_all_with (\<lambda>u. if gr_checkOnSel u then check_all_with id u else u) g"

definition unselect_all :: "grid \<Rightarrow> grid" where
  "unselect_all g = unselect_all_with (\<lambda>u. if gr_checkOnSel u then uncheck_all_with id u else u) g"

definition check_all :: "grid \<Rightarrow> grid" where
  "check_all g = check_all_with (\<lambda>u. if gr_selOnCheck u then select_all_with id u else u) g"

definition uncheck_all :: "grid \<Rightarrow> grid" where
  "uncheck_all g = uncheck_all_with (\<lambda>u. if gr_selOnCheck u then unselect_all_with id u else u) g"

definition clear_selections :: "grid \<Rightarrow> grid" where
  "clear_selections g =
     (let g1 = unselect_all (g\<lparr>gr_selected := []\<rparr>)
      in if gr_checkOnSel g then g1\<lparr>gr_checked := []\<rparr> else g1)"

definition clear_checked :: "grid \<Rightarrow> grid" where
  "clear_checked g =
     (let g1 = uncheck_all (g\<lparr>gr_checked := []\<rparr>)
      in if gr_selOnCheck g then g1\<lparr>gr_selected := []\<rparr> else g1)"

definition get_selections :: "grid \<Rightarrow> nat list" where
  "get_selections g = (if gr_idField g \<noteq> None then gr_selected g else map (get_row g \<circ> tr_index) (filter tr_selected (gr_trs g)))"

definition get_checked_rows :: "grid \<Rightarrow> nat list" where
  "get_checked_rows g = (if gr_idField g \<noteq> None then gr_checked g else map (get_row g \<circ> tr_index) (filter tr_checked (gr_trs g)))"

text \<open>\<open>_105\<close> with an id\<close>

definition row_index :: "grid \<Rightarrow> string option \<Rightarrow> nat option" where
  "row_index g v = (case gr_idField g of None \<Rightarrow> None | Some f \<Rightarrow> find_index (\<lambda>r. gr_heap g r f = v) (gr_rows g))"

definition select_record :: "string \<Rightarrow> grid \<Rightarrow> grid" where
  "select_record v g = (case row_index g (Some v) of None \<Rightarrow> g | Some i \<Rightarrow> select_row i g)"

text \<open>\<open>_90\<close>: a click on the check box of a row, and on another cell\<close>

definition row_selected :: "nat \<Rightarrow> grid \<Rightarrow> bool" where
  "row_selected i g = (case get_tr i g of None \<Rightarrow> False | Some r \<Rightarrow> tr_selected r)"

definition row_checked :: "nat \<Rightarrow> grid \<Rightarrow> bool" where
  "row_checked i g = (case get_tr i g of None \<Rightarrow> False | Some r \<Rightarrow> tr_checked r)"

definition click_box :: "nat \<Rightarrow> grid \<Rightarrow> grid" where
  "click_box i g =
     (if gr_single g \<and> gr_selOnCheck g then check_row i g
      else if \<not> row_checked i g then check_row i g else uncheck_row i g)"

definition toggle_row :: "nat \<Rightarrow> grid \<Rightarrow> grid" where
  "toggle_row i g = (if row_selected i g then unselect_row i g else select_row i g)"

definition click_row :: "bool \<Rightarrow> bool \<Rightarrow> nat \<Rightarrow> grid \<Rightarrow> grid" where
  "click_row ctrl shift i g =
     (if gr_single g then select_row i g
      else if \<not> gr_ctrl g \<or> ctrl then toggle_row i g
      else if shift
      then fold select_row [min (gr_lastIndex g) i..<max (gr_lastIndex g) i + 1] (clear_selections g)
      else (select_row i (clear_selections g))\<lparr>gr_lastIndex := i\<rparr>)"

section \<open>Loading and sorting\<close>

definition cell_cmp :: "string option \<Rightarrow> string option \<Rightarrow> int" where
  "cell_cmp a b = (if a = b then 0 else case (a, b) of (Some x, Some y) \<Rightarrow> if x > y then 1 else - 1 | _ \<Rightarrow> - 1)"

fun row_cmp :: "(string \<times> bool) list \<Rightarrow> grow \<Rightarrow> grow \<Rightarrow> int" where
  "row_cmp [] r1 r2 = 0"
| "row_cmp ((f, asc) # ks) r1 r2 =
     (let r = cell_cmp (r1 f) (r2 f) * (if asc then 1 else - 1) in if r \<noteq> 0 then r else row_cmp ks r1 r2)"

text \<open>\<open>Array.sort\<close>, stable\<close>

fun put_sorted :: "('a \<Rightarrow> 'a \<Rightarrow> int) \<Rightarrow> 'a \<Rightarrow> 'a list \<Rightarrow> 'a list" where
  "put_sorted c x [] = [x]"
| "put_sorted c x (y # ys) = (if c x y \<le> 0 then x # y # ys else y # put_sorted c x ys)"

definition js_sort :: "('a \<Rightarrow> 'a \<Rightarrow> int) \<Rightarrow> 'a list \<Rightarrow> 'a list" where
  "js_sort c xs = foldr (put_sorted c) xs []"

definition sort_rows :: "grid \<Rightarrow> nat list \<Rightarrow> nat list" where
  "sort_rows g rs =
     (if gr_remoteSort g \<or> gr_sort g = [] then rs else js_sort (\<lambda>a b. row_cmp (gr_sort g) (gr_heap g a) (gr_heap g b)) rs)"

definition render_rows :: "grid \<Rightarrow> grid" where
  "render_rows g = g\<lparr>gr_trs := map (\<lambda>i. new_tr i (gr_heap g (get_row g i))) [0..<length (gr_rows g)]\<rparr>"

text \<open>\<open>_fd\<close>: rows with the ids of selected or checked ones take their places and are marked.\<close>

definition same_id :: "grid \<Rightarrow> nat \<Rightarrow> nat \<Rightarrow> bool" where
  "same_id g a b = (row_id g a = row_id g b)"

definition replace_object :: "grid \<Rightarrow> nat \<Rightarrow> nat list \<Rightarrow> nat list" where
  "replace_object g r xs = (case find_index (\<lambda>x. same_id g x r) xs of None \<Rightarrow> xs | Some k \<Rightarrow> xs[k := r])"

definition has_id :: "grid \<Rightarrow> nat \<Rightarrow> nat list \<Rightarrow> bool" where
  "has_id g r xs = list_ex (\<lambda>x. same_id g x r) xs"

definition restore_row :: "nat \<Rightarrow> grid \<Rightarrow> grid" where
  "restore_row i g =
     (let r = get_row g i;
          g1 = (if has_id g r (gr_selected g) then select_with id i (g\<lparr>gr_selected := replace_object g r (gr_selected g)\<rparr>) else g)
      in if has_id g1 r (gr_checked g1) then check_with id i (g1\<lparr>gr_checked := replace_object g1 r (gr_checked g1)\<rparr>) else g1)"

definition set_selection_state :: "grid \<Rightarrow> grid" where
  "set_selection_state g =
     (let g1 = g\<lparr>gr_header := False\<rparr>
      in if gr_idField g = None then g1 else fold restore_row [0..<length (gr_rows g1)] g1)"

text \<open>\<open>_b1\<close>: given objects as the rows of the grid\<close>

definition load_rows :: "nat list \<Rightarrow> int \<Rightarrow> grid \<Rightarrow> grid" where
  "load_rows rs tot g = set_selection_state (render_rows (g\<lparr>gr_rows := sort_rows g rs, gr_total := tot\<rparr>))"

definition alloc :: "grow list \<Rightarrow> grid \<Rightarrow> grid" where
  "alloc vs g =
     g\<lparr>gr_heap := (\<lambda>a. if gr_next g \<le> a \<and> a < gr_next g + length vs then vs ! (a - gr_next g) else gr_heap g a),
       gr_next := gr_next g + length vs\<rparr>"

text \<open>\<open>_178\<close>: copies of the rows are kept and the record of changes is emptied.\<close>

definition snapshot :: "grid \<Rightarrow> grid" where
  "snapshot g =
     (alloc (map (gr_heap g) (gr_rows g)) g)
       \<lparr>gr_original := [gr_next g..<gr_next g + length (gr_rows g)], gr_updated := [], gr_inserted := [], gr_deleted := []\<rparr>"

definition load_data :: "grow list \<Rightarrow> int \<Rightarrow> grid \<Rightarrow> grid" where
  "load_data vs tot g = snapshot (load_rows [gr_next g..<gr_next g + length vs] tot (alloc vs g))"

text \<open>\<open>_a4\<close>: a click on a column header\<close>

definition sort_keys :: "grid \<Rightarrow> string \<Rightarrow> (string \<times> bool) list" where
  "sort_keys g f =
     (case find_index (\<lambda>k. fst k = f) (gr_sort g) of
        Some p \<Rightarrow>
          let asc = (\<not> snd (gr_sort g ! p))
          in if gr_multiSort g \<and> asc = gr_order g f then remove_at p (gr_sort g) else (gr_sort g)[p := (f, asc)]
      | None \<Rightarrow> if gr_multiSort g then gr_sort g @ [(f, gr_order g f)] else [(f, gr_order g f)])"

definition sort_click :: "string \<Rightarrow> grid \<Rightarrow> grid" where
  "sort_click f g =
     (if \<not> gr_sortable g f then g
      else let g1 = g\<lparr>gr_sort := sort_keys g f\<rparr>
           in if gr_remoteSort g then g1 else load_rows (gr_rows g1) (gr_total g1) g1)"

end
