(* ===== verification/GridEdit.thy ===== *)
theory GridEdit
  imports Grid
begin

text \<open>
  \<open>plugins/jquery.datagrid.js\<close>, continued: editing of rows, inserting and deleting them (with
  the renumbering of the table rows), the record of changes, accepting and rejecting them; and the
  events of a grid.
\<close>

section \<open>Editing\<close>

definition row_editing :: "nat \<Rightarrow> grid \<Rightarrow> bool" where
  "row_editing i g = (case get_tr i g of None \<Rightarrow> False | Some r \<Rightarrow> tr_editing r \<noteq> None)"

definition editor_values :: "nat \<Rightarrow> grid \<Rightarrow> (string \<times> string) list" where
  "editor_values i g = (case get_tr i g of None \<Rightarrow> [] | Some r \<Rightarrow> (case tr_editing r of None \<Rightarrow> [] | Some vs \<Rightarrow> vs))"

text \<open>\<open>_13d\<close>: an editor for every column that has one, holding the value of the row\<close>

definition begin_edit :: "nat \<Rightarrow> grid \<Rightarrow> grid" where
  "begin_edit i g =
     (if i \<ge> length (gr_rows g) \<or> row_editing i g \<or> \<not> gr_allow g GEdit i then g
      else let row = gr_heap g (get_row g i)
           in set_tr i (\<lambda>r. r\<lparr>tr_editing := Some (map (\<lambda>f. (f, case row f of None \<Rightarrow> '''' | Some v \<Rightarrow> v)) (gr_editors g))\<rparr>) g)"

definition type_in :: "nat \<Rightarrow> string \<Rightarrow> string \<Rightarrow> grid \<Rightarrow> grid" where
  "type_in i f v g =
     set_tr i (\<lambda>r. r\<lparr>tr_editing := map_option (map (\<lambda>p. if fst p = f then (f, v) else p)) (tr_editing r)\<rparr>) g"

text \<open>\<open>_142\<close>\<close>

definition valid_row :: "nat \<Rightarrow> grid \<Rightarrow> bool" where
  "valid_row i g = list_all (\<lambda>(f, v). gr_valid g f v) (editor_values i g)"

text \<open>
  \<open>updateRow\<close> of the view extends the object with fields and draws it again, which removes the
  editors of a row that is being edited.
\<close>

definition put_fields :: "(string \<times> string) list \<Rightarrow> grow \<Rightarrow> grow" where
  "put_fields vs row = foldl (\<lambda>r (f, v). r(f := Some v)) row vs"

definition update_row :: "nat \<Rightarrow> (string \<times> string) list \<Rightarrow> grid \<Rightarrow> grid" where
  "update_row i vs g =
     (if i \<ge> length (gr_rows g) then g
      else let a = get_row g i; row = put_fields vs (gr_heap g a)
           in set_tr i (\<lambda>r. r\<lparr>tr_cells := row, tr_editing := map_option (\<lambda>es. []) (tr_editing r)\<rparr>) (g\<lparr>gr_heap := (gr_heap g)(a := row)\<rparr>))"

definition refresh_row :: "nat \<Rightarrow> grid \<Rightarrow> grid" where
  "refresh_row i g = update_row i [] g"

text \<open>\<open>_143\<close>: the values of the editors that differ go into the row object.\<close>

definition changed_fields :: "nat \<Rightarrow> grid \<Rightarrow> (string \<times> string) list" where
  "changed_fields i g = filter (\<lambda>(f, v). gr_heap g (get_row g i) f \<noteq> Some v) (editor_values i g)"

definition end_row_edit :: "nat \<Rightarrow> grid \<Rightarrow> grid" where
  "end_row_edit i g =
     (if \<not> row_editing i g \<or> \<not> valid_row i g then g
      else let a = get_row g i; vs = changed_fields i g;
               g1 = g\<lparr>gr_heap := (gr_heap g)(a := put_fields vs (gr_heap g a))\<rparr>;
               g2 = (if vs \<noteq> [] \<and> index_in (gr_inserted g) a = None \<and> index_in (gr_updated g) a = None
                     then g1\<lparr>gr_updated := gr_updated g @ [a]\<rparr> else g1)
           in refresh_row i (set_tr i (\<lambda>r. r\<lparr>tr_editing := None\<rparr>) g2))"

definition cancel_edit :: "nat \<Rightarrow> grid \<Rightarrow> grid" where
  "cancel_edit i g = (if \<not> row_editing i g then g else refresh_row i (set_tr i (\<lambda>r. r\<lparr>tr_editing := None\<rparr>) g))"

section \<open>Inserting and deleting\<close>

text \<open>The loops of \<open>insertRow\<close> and \<open>deleteRow\<close> of the view: one table row after the other\<close>

definition renumber :: "nat \<Rightarrow> nat \<Rightarrow> tablerow list \<Rightarrow> tablerow list" where
  "renumber i j rs = map (\<lambda>r. if tr_index r = i then r\<lparr>tr_index := j\<rparr> else r) rs"

definition shift_up :: "nat \<Rightarrow> nat \<Rightarrow> tablerow list \<Rightarrow> tablerow list" where
  "shift_up k n rs = foldl (\<lambda>rs i. renumber i (i + 1) rs) rs (rev [k..<n])"

definition shift_down :: "nat \<Rightarrow> nat \<Rightarrow> tablerow list \<Rightarrow> tablerow list" where
  "shift_down k n rs = foldl (\<lambda>rs i. renumber i (i - 1) rs) rs [k + 1..<n]"

definition place_tr :: "nat \<Rightarrow> nat \<Rightarrow> tablerow \<Rightarrow> tablerow list \<Rightarrow> tablerow list" where
  "place_tr k n r rs =
     (if k \<ge> n then rs @ [r]
      else case find_index (\<lambda>x. tr_index x = k + 1) rs of None \<Rightarrow> rs | Some p \<Rightarrow> insert_at p r rs)"

definition insert_row_at :: "nat option \<Rightarrow> nat \<Rightarrow> grid \<Rightarrow> grid" where
  "insert_row_at pos a g =
     (let n = length (gr_rows g); k = (case pos of None \<Rightarrow> n | Some i \<Rightarrow> if i > n then n else i)
      in refresh_row k
           (g\<lparr>gr_trs := place_tr k n (new_tr k (\<lambda>f. None)) (shift_up k n (gr_trs g)),
             gr_total := gr_total g + 1, gr_rows := insert_at k a (gr_rows g)\<rparr>))"

text \<open>\<open>_171\<close> and \<open>_175\<close>: the row given becomes an object of the grid.\<close>

definition insert_row :: "nat option \<Rightarrow> grow \<Rightarrow> grid \<Rightarrow> grid" where
  "insert_row pos row g =
     (let a = gr_next g; g1 = insert_row_at pos a (alloc [row] g)
      in g1\<lparr>gr_inserted := gr_inserted g1 @ [a]\<rparr>)"

text \<open>\<open>_16b\<close>\<close>

definition delete_row :: "nat \<Rightarrow> grid \<Rightarrow> grid" where
  "delete_row i g =
     (if i \<ge> length (gr_rows g) then g
      else let g1 = cancel_edit i g; a = get_row g1 i;
               g2 = (if index_in (gr_inserted g1) a \<noteq> None then g1\<lparr>gr_inserted := drop_object a (gr_inserted g1)\<rparr>
                     else g1\<lparr>gr_deleted := gr_deleted g1 @ [a]\<rparr>)
           in g2\<lparr>gr_selected := drop_id g2 (row_id g2 a) (gr_selected g2),
                 gr_checked := drop_id g2 (row_id g2 a) (gr_checked g2),
                 gr_trs := shift_down i (length (gr_rows g2)) (filter (\<lambda>r. tr_index r \<noteq> i) (gr_trs g2)),
                 gr_total := gr_total g2 - 1, gr_rows := remove_at i (gr_rows g2)\<rparr>)"

section \<open>Changes\<close>

datatype change_kind = AllChanges | InsertedRows | DeletedRows | UpdatedRows

definition get_changes :: "change_kind \<Rightarrow> grid \<Rightarrow> nat list" where
  "get_changes k g =
     (case k of
        AllChanges \<Rightarrow> gr_inserted g @ gr_deleted g @ gr_updated g
      | InsertedRows \<Rightarrow> gr_inserted g | DeletedRows \<Rightarrow> gr_deleted g | UpdatedRows \<Rightarrow> gr_updated g)"

text \<open>\<open>_17c\<close>: rows with valid editors are ended; if all were, the rows are the new originals.\<close>

definition accept_step :: "grid \<times> bool \<Rightarrow> nat \<Rightarrow> grid \<times> bool" where
  "accept_step gb i = (if valid_row i (fst gb) then (end_row_edit i (fst gb), snd gb) else (fst gb, False))"

definition accept_changes :: "grid \<Rightarrow> grid" where
  "accept_changes g =
     (let r = foldl accept_step (g, True) [0..<length (gr_rows g)]
      in if snd r then snapshot (fst r) else fst r)"

text \<open>\<open>_17e\<close>: the originals become the rows; what was selected or checked is found again by id.\<close>

definition reselect :: "(nat \<Rightarrow> grid \<Rightarrow> grid) \<Rightarrow> string option list \<Rightarrow> grid \<Rightarrow> grid" where
  "reselect f vs g = foldl (\<lambda>u v. case row_index u v of None \<Rightarrow> u | Some i \<Rightarrow> f i u) g vs"

definition reject_changes :: "grid \<Rightarrow> grid" where
  "reject_changes g =
     (let g1 = fold cancel_edit [0..<length (gr_rows g)] g;
          ss = map (row_id g1) (gr_selected g1); cs = map (row_id g1) (gr_checked g1);
          g2 = load_rows (gr_original g1) (gr_total g1 + int (length (gr_deleted g1)) - int (length (gr_inserted g1)))
                 (g1\<lparr>gr_selected := [], gr_checked := []\<rparr>)
      in snapshot (reselect (check_with id) cs (reselect (select_with id) ss g2)))"

section \<open>Events\<close>

datatype grid_event = GrSelect nat | GrUnselect nat | GrCheck nat | GrUncheck nat | GrSelectAll | GrUnselectAll
  | GrCheckAll | GrUncheckAll | GrClearSelections | GrClearChecked | GrSelectRecord string
  | GrClickBox nat | GrClickRow bool bool nat | GrSort string
  | GrBeginEdit nat | GrType nat string string | GrEndEdit nat | GrCancelEdit nat
  | GrUpdate nat "(string \<times> string) list" | GrInsert "nat option" grow | GrDelete nat

definition grid_step :: "grid \<Rightarrow> grid_event \<Rightarrow> grid" where
  "grid_step g e =
     (case e of
        GrSelect i \<Rightarrow> select_row i g | GrUnselect i \<Rightarrow> unselect_row i g
      | GrCheck i \<Rightarrow> check_row i g | GrUncheck i \<Rightarrow> uncheck_row i g
      | GrSelectAll \<Rightarrow> select_all g | GrUnselectAll \<Rightarrow> unselect_all g
      | GrCheckAll \<Rightarrow> check_all g | GrUncheckAll \<Rightarrow> uncheck_all g
      | GrClearSelections \<Rightarrow> clear_selections g | GrClearChecked \<Rightarrow> clear_checked g
      | GrSelectRecord v \<Rightarrow> select_record v g
      | GrClickBox i \<Rightarrow> click_box i g | GrClickRow c s i \<Rightarrow> click_row c s i g
      | GrSort f \<Rightarrow> sort_click f g
      | GrBeginEdit i \<Rightarrow> begin_edit i g | GrType i f v \<Rightarrow> type_in i f v g
      | GrEndEdit i \<Rightarrow> end_row_edit i g | GrCancelEdit i \<Rightarrow> cancel_edit i g
      | GrUpdate i vs \<Rightarrow> update_row i vs g
      | GrInsert pos row \<Rightarrow> insert_row pos row g
      | GrDelete i \<Rightarrow> delete_row i g)"

definition new_grid :: "string option \<Rightarrow> grid" where
  "new_grid idf =
     \<lparr>gr_idField = idf, gr_single = False, gr_ctrl = False, gr_selOnCheck = True, gr_checkOnSel = True,
      gr_multiSort = False, gr_remoteSort = True, gr_allow = (\<lambda>h i. True), gr_editors = [], gr_valid = (\<lambda>f v. True),
      gr_sortable = (\<lambda>f. False), gr_order = (\<lambda>f. True), gr_sort = [], gr_heap = (\<lambda>a f. None), gr_next = 0, gr_rows = [],
      gr_total = 0, gr_trs = [], gr_header = False, gr_selected = [], gr_checked = [], gr_inserted = [], gr_deleted = [],
      gr_updated = [], gr_original = [], gr_lastIndex = 0\<rparr>"

end
