(* ===== verification/GridRows.thy ===== *)
theory GridRows
  imports GridEdit "HOL-Library.Multiset"
begin

text \<open>
  The rows of a grid through its events: table rows stay numbered and show their objects, the
  record of changes accounts for every difference from the originals, and the originals are never
  written. Selecting and checking leave all of this alone (\<open>content\<close>).
\<close>

section \<open>What selection and checks leave alone\<close>

definition content where
  "content g = ((gr_heap g, gr_next g, gr_rows g, gr_total g, gr_original g),
     (map tr_index (gr_trs g), map tr_cells (gr_trs g)), (gr_inserted g, gr_deleted g, gr_updated g),
     (gr_remoteSort g, gr_idField g))"

lemma content_fields [simp]:
  "content (g\<lparr>gr_selected := a\<rparr>) = content g" "content (g\<lparr>gr_checked := a\<rparr>) = content g"
  "content (g\<lparr>gr_header := b\<rparr>) = content g" "content (g\<lparr>gr_lastIndex := k\<rparr>) = content g"
  "content (g\<lparr>gr_sort := ks\<rparr>) = content g"
  by (simp_all add: content_def)

lemma set_tr_content [simp]:
  "(\<And>r. tr_index (f r) = tr_index r \<and> tr_cells (f r) = tr_cells r) \<Longrightarrow> content (set_tr i f g) = content g"
  by (simp add: content_def set_tr_def)

lemma set_trs_content [simp]:
  "(\<And>r. tr_index (f r) = tr_index r \<and> tr_cells (f r) = tr_cells r) \<Longrightarrow> content (set_trs f g) = content g"
  by (simp add: content_def set_trs_def)

lemma all_with_content [simp]:
  "(\<And>u. content (mid u) = content u) \<Longrightarrow> content (unselect_all_with mid g) = content g"
  "(\<And>u. content (mid u) = content u) \<Longrightarrow> content (uncheck_all_with mid g) = content g"
  "(\<And>u. content (mid u) = content u) \<Longrightarrow> content (select_all_with mid g) = content g"
  "(\<And>u. content (mid u) = content u) \<Longrightarrow> content (check_all_with mid g) = content g"
  by (simp_all add: unselect_all_with_def uncheck_all_with_def select_all_with_def check_all_with_def Let_def)

lemma row_with_content [simp]:
  "(\<And>u. content (mid u) = content u) \<Longrightarrow> content (select_with mid i g) = content g"
  "(\<And>u. content (mid u) = content u) \<Longrightarrow> content (check_with mid i g) = content g"
  "(\<And>u. content (mid u) = content u) \<Longrightarrow> content (unselect_with mid i g) = content g"
  "(\<And>u. content (mid u) = content u) \<Longrightarrow> content (uncheck_with mid i g) = content g"
  by (simp_all add: select_with_def check_with_def unselect_with_def uncheck_with_def Let_def)

lemma select_content [simp]:
  "content (select_row i g) = content g" "content (check_row i g) = content g"
  "content (unselect_row i g) = content g" "content (uncheck_row i g) = content g"
  "content (select_all g) = content g" "content (check_all g) = content g"
  "content (unselect_all g) = content g" "content (uncheck_all g) = content g"
  by (simp_all add: select_row_def check_row_def unselect_row_def uncheck_row_def
      select_all_def check_all_def unselect_all_def uncheck_all_def)

lemma fold_content: "(\<And>x u. content (f x u) = content u) \<Longrightarrow> content (fold f xs g) = content g"
  by (induction xs arbitrary: g) simp_all

lemma foldl_content: "(\<And>x u. content (f u x) = content u) \<Longrightarrow> content (foldl f g xs) = content g"
  by (induction xs arbitrary: g) simp_all

lemma click_content [simp]:
  "content (clear_selections g) = content g" "content (clear_checked g) = content g"
  "content (select_record v g) = content g" "content (click_box i g) = content g" "content (click_row c s i g) = content g"
  by (simp_all add: clear_selections_def clear_checked_def select_record_def click_box_def click_row_def toggle_row_def
      fold_content Let_def split: option.split)

lemma restore_content [simp]: "content (restore_row i g) = content g"
  by (simp add: restore_row_def Let_def)

lemma selection_state_content [simp]: "content (set_selection_state g) = content g"
  by (simp add: set_selection_state_def Let_def fold_content)

lemma edit_content [simp]: "content (begin_edit i g) = content g" "content (type_in i f v g) = content g"
  by (simp_all add: begin_edit_def type_in_def Let_def)

section \<open>The invariant\<close>

definition grid_rows_ok :: "grid \<Rightarrow> bool" where
  "grid_rows_ok g \<longleftrightarrow>
     map tr_index (gr_trs g) = [0..<length (gr_rows g)] \<and> map tr_cells (gr_trs g) = map (gr_heap g) (gr_rows g) \<and>
     distinct (gr_rows g @ gr_deleted g) \<and> (\<forall>a \<in> set (gr_rows g @ gr_deleted g). a < gr_next g)"

definition changes_ok :: "grid \<Rightarrow> bool" where
  "changes_ok g \<longleftrightarrow>
     distinct (gr_inserted g) \<and> set (gr_inserted g) \<subseteq> set (gr_rows g) \<and>
     distinct (gr_updated g) \<and> set (gr_updated g) \<subseteq> set (gr_rows g @ gr_deleted g) \<and> set (gr_updated g) \<inter> set (gr_inserted g) = {} \<and>
     length (gr_rows g) + length (gr_deleted g) = length (gr_original g) + length (gr_inserted g)"

definition originals_ok :: "grid \<Rightarrow> bool" where
  "originals_ok g \<longleftrightarrow>
     distinct (gr_original g) \<and> set (gr_original g) \<inter> set (gr_rows g @ gr_deleted g) = {} \<and> (\<forall>a \<in> set (gr_original g). a < gr_next g)"

definition grid_ok :: "grid \<Rightarrow> bool" where
  "grid_ok g = (grid_rows_ok g \<and> changes_ok g \<and> originals_ok g)"

text \<open>What a rejection will bring back\<close>

definition base :: "grid \<Rightarrow> grow list \<times> int" where
  "base g = (map (gr_heap g) (gr_original g), gr_total g + int (length (gr_deleted g)) - int (length (gr_inserted g)))"

lemma content_ok: "content g' = content g \<Longrightarrow> grid_ok g' = grid_ok g \<and> base g' = base g \<and> gr_remoteSort g' = gr_remoteSort g"
  by (simp add: content_def grid_ok_def grid_rows_ok_def changes_ok_def originals_ok_def base_def)

section \<open>Table rows by number\<close>

lemma numbered_nth: "map tr_index rs = [0..<n] \<Longrightarrow> length rs = n \<and> (\<forall>i < n. tr_index (rs ! i) = i)"
proof (intro conjI allI impI)
  assume eq: "map tr_index rs = [0..<n]"
  from arg_cong [OF eq, of length] show len: "length rs = n" by simp
  fix i assume "i < n"
  with len have "map tr_index rs ! i = tr_index (rs ! i)" by simp
  with \<open>i < n\<close> show "tr_index (rs ! i) = i" by (simp add: eq)
qed

lemma set_numbered:
  assumes "map tr_index rs = [0..<n]" "i < n"
  shows "map (\<lambda>r. if tr_index r = i then f r else r) rs = rs[i := f (rs ! i)]"
  using numbered_nth [OF assms(1)] assms(2) by (intro nth_equalityI) (auto simp: nth_list_update)

lemma numbered_parts:
  assumes "map tr_index rs = [0..<n]"
  shows "r \<in> set (take m rs) \<Longrightarrow> tr_index r < m" "r \<in> set (drop m rs) \<Longrightarrow> m \<le> tr_index r"
proof -
  show "tr_index r < m" if "r \<in> set (take m rs)"
  proof -
    have "tr_index r \<in> set (take m (map tr_index rs))" using that by (simp add: take_map)
    then show ?thesis by (cases "m \<le> n") (auto simp: assms)
  qed
  show "m \<le> tr_index r" if "r \<in> set (drop m rs)"
  proof -
    have "tr_index r \<in> set (drop m (map tr_index rs))" using that by (simp add: drop_map)
    then show ?thesis by (simp add: assms drop_upt)
  qed
qed

lemma renumber_simps [simp]:
  "renumber i j (xs @ ys) = renumber i j xs @ renumber i j ys"
  "renumber i j (r # xs) = (if tr_index r = i then r\<lparr>tr_index := j\<rparr> else r) # renumber i j xs"
  by (simp_all add: renumber_def)

lemma renumber_none: "(\<And>r. r \<in> set xs \<Longrightarrow> tr_index r \<noteq> i) \<Longrightarrow> renumber i j xs = xs"
  by (auto simp: renumber_def intro: map_idI)

lemma shift_up_spec:
  assumes "map tr_index rs = [0..<n]" "k \<le> n"
  shows "shift_up k n rs = take k rs @ map (\<lambda>r. r\<lparr>tr_index := tr_index r + 1\<rparr>) (drop k rs)"
  using assms(2)
proof (induction rule: inc_induct)
  case base
  then show ?case using numbered_nth [OF assms(1)] by (simp add: shift_up_def)
next
  case (step m)
  let ?up = "\<lambda>r. r\<lparr>tr_index := tr_index r + 1\<rparr>"
  have m: "m < length rs" "tr_index (rs ! m) = m" using numbered_nth [OF assms(1)] step.hyps by auto
  have "rev [m..<n] = rev [Suc m..<n] @ [m]" using step.hyps by (simp add: upt_conv_Cons)
  then have "shift_up m n rs = renumber m (m + 1) (shift_up (Suc m) n rs)" by (simp add: shift_up_def)
  also have "\<dots> = renumber m (m + 1) (take m rs @ rs ! m # map ?up (drop (Suc m) rs))"
    by (simp only: step.IH take_Suc_conv_app_nth [OF m(1)] append_assoc append_Cons append_Nil)
  also have "\<dots> = take m rs @ ?up (rs ! m) # map ?up (drop (Suc m) rs)"
  proof -
    have "renumber m (m + 1) (take m rs) = take m rs"
      by (rule renumber_none) (use numbered_parts(1) [OF assms(1)] in fastforce)
    moreover have "renumber m (m + 1) (map ?up (drop (Suc m) rs)) = map ?up (drop (Suc m) rs)"
      by (rule renumber_none) (use numbered_parts(2) [OF assms(1)] in fastforce)
    ultimately show ?thesis by (simp add: m(2))
  qed
  also have "\<dots> = take m rs @ map ?up (drop m rs)" by (simp only: Cons_nth_drop_Suc [OF m(1), symmetric] list.map)
  finally show ?case .
qed

lemma shift_down_spec:
  assumes "map tr_index rs = [0..<n]" "i < n"
  shows "shift_down i n (remove_at i rs) = take i rs @ map (\<lambda>r. r\<lparr>tr_index := tr_index r - 1\<rparr>) (drop (i + 1) rs)"
proof -
  let ?down = "\<lambda>r. r\<lparr>tr_index := tr_index r - 1\<rparr>"
  have n: "length rs = n" "\<forall>j < n. tr_index (rs ! j) = j" using numbered_nth [OF assms(1)] by blast+
  have "shift_down i m (remove_at i rs) = take i rs @ map ?down (take (m - (i + 1)) (drop (i + 1) rs)) @ drop m rs"
    if "i + 1 \<le> m" "m \<le> n" for m
    using that
  proof (induction rule: dec_induct)
    case base
    then show ?case by (simp add: shift_down_def remove_at_def)
  next
    case (step m)
    have m: "m < length rs" "tr_index (rs ! m) = m" "m - (i + 1) < length (drop (i + 1) rs)" "drop (i + 1) rs ! (m - (i + 1)) = rs ! m"
      using n step.hyps step.prems by auto
    have "[i + 1..<Suc m] = [i + 1..<m] @ [m]" using step.hyps by simp
    then have "shift_down i (Suc m) (remove_at i rs) = renumber m (m - 1) (shift_down i m (remove_at i rs))"
      by (simp only: shift_down_def foldl_append foldl.simps)
    also have "\<dots> = renumber m (m - 1) (take i rs @ map ?down (take (m - (i + 1)) (drop (i + 1) rs)) @ rs ! m # drop (Suc m) rs)"
      using step by (simp only: Cons_nth_drop_Suc [OF m(1)])
    also have "\<dots> = take i rs @ map ?down (take (m - (i + 1)) (drop (i + 1) rs)) @ ?down (rs ! m) # drop (Suc m) rs"
    proof -
      have "renumber m (m - 1) (take i rs) = take i rs"
        by (rule renumber_none) (use numbered_parts(1) [OF assms(1)] step.hyps in fastforce)
      moreover have "renumber m (m - 1) (map ?down (take (m - (i + 1)) (drop (i + 1) rs))) = map ?down (take (m - (i + 1)) (drop (i + 1) rs))"
      proof (rule renumber_none)
        fix r assume "r \<in> set (map ?down (take (m - (i + 1)) (drop (i + 1) rs)))"
        then obtain x where x: "r = ?down x" "x \<in> set (take (m - (i + 1)) (drop (i + 1) rs))" by auto
        then have "x \<in> set (take m rs)" using step.hyps by (simp add: take_drop) (meson in_set_dropD)
        then have "tr_index x < m" by (rule numbered_parts(1) [OF assms(1)])
        then show "tr_index r \<noteq> m" using x(1) by simp
      qed
      moreover have "renumber m (m - 1) (drop (Suc m) rs) = drop (Suc m) rs"
        by (rule renumber_none) (use numbered_parts(2) [OF assms(1)] in fastforce)
      ultimately show ?thesis by (simp add: m(2))
    qed
    also have "\<dots> = take i rs @ map ?down (take (Suc m - (i + 1)) (drop (i + 1) rs)) @ drop (Suc m) rs"
    proof -
      have "Suc m - (i + 1) = Suc (m - (i + 1))" using step.hyps by simp
      then show ?thesis by (simp only: take_Suc_conv_app_nth [OF m(3)] m(4) map_append list.map append_assoc append_Cons append_Nil)
    qed
    finally show ?case .
  qed
  from this [of n] assms(2) show ?thesis by (simp add: n(1))
qed

section \<open>Rows that are drawn again\<close>

text \<open>All rows show their objects, but perhaps one.\<close>

definition rows_but :: "nat \<Rightarrow> grid \<Rightarrow> bool" where
  "rows_but i g \<longleftrightarrow>
     map tr_index (gr_trs g) = [0..<length (gr_rows g)] \<and>
     (\<forall>j < length (gr_rows g). j \<noteq> i \<longrightarrow> tr_cells (gr_trs g ! j) = gr_heap g (gr_rows g ! j)) \<and>
     distinct (gr_rows g @ gr_deleted g) \<and> (\<forall>a \<in> set (gr_rows g @ gr_deleted g). a < gr_next g)"

lemma grid_rows_ok_nth: "grid_rows_ok g \<longleftrightarrow> rows_but (length (gr_rows g)) g"
proof -
  have "(map tr_cells (gr_trs g) = map (gr_heap g) (gr_rows g)) = (\<forall>j < length (gr_rows g). tr_cells (gr_trs g ! j) = gr_heap g (gr_rows g ! j))"
    if "map tr_index (gr_trs g) = [0..<length (gr_rows g)]"
    using numbered_nth [OF that] by (auto simp: list_eq_iff_nth_eq)
  then show ?thesis by (auto simp: grid_rows_ok_def rows_but_def)
qed

lemma grid_rows_ok_but: "grid_rows_ok g \<Longrightarrow> rows_but i g"
  by (auto simp: grid_rows_ok_nth rows_but_def)

definition same_changes :: "grid \<Rightarrow> grid \<Rightarrow> bool" where
  "same_changes g' g \<longleftrightarrow> gr_next g' = gr_next g \<and> gr_rows g' = gr_rows g \<and> gr_total g' = gr_total g \<and> gr_original g' = gr_original g
     \<and> gr_inserted g' = gr_inserted g \<and> gr_deleted g' = gr_deleted g \<and> gr_updated g' = gr_updated g \<and> gr_remoteSort g' = gr_remoteSort g"

lemma update_row_effect:
  assumes "rows_but i g" "i < length (gr_rows g)"
  defines "a \<equiv> gr_rows g ! i"
  shows "grid_rows_ok (update_row i vs g)" "gr_heap (update_row i vs g) = (gr_heap g)(a := put_fields vs (gr_heap g a))"
    and "same_changes (update_row i vs g) g"
proof -
  define f :: "tablerow \<Rightarrow> tablerow" where "f = (\<lambda>r. r\<lparr>tr_cells := put_fields vs (gr_heap g a), tr_editing := map_option (\<lambda>es. []) (tr_editing r)\<rparr>)"
  have num: "map tr_index (gr_trs g) = [0..<length (gr_rows g)]" using assms(1) by (simp add: rows_but_def)
  have "gr_trs (update_row i vs g) = map (\<lambda>r. if tr_index r = i then f r else r) (gr_trs g)"
    using assms(2) by (simp add: update_row_def Let_def set_tr_def f_def a_def get_row_def)
  then have trs: "gr_trs (update_row i vs g) = (gr_trs g)[i := f (gr_trs g ! i)]"
    by (simp only: set_numbered [OF num assms(2)])
  have fields: "gr_heap (update_row i vs g) = (gr_heap g)(a := put_fields vs (gr_heap g a))" "same_changes (update_row i vs g) g"
    using assms(2) by (simp_all add: update_row_def Let_def set_tr_def a_def get_row_def same_changes_def)
  have "map tr_index ((gr_trs g)[i := f (gr_trs g ! i)]) = map tr_index (gr_trs g)"
    by (simp add: map_update f_def list_update_same_conv) (metis list_update_id map_update)
  moreover have "gr_rows g ! j = a \<longleftrightarrow> j = i" if "j < length (gr_rows g)" for j
    using assms that by (auto simp: a_def rows_but_def nth_eq_iff_index_eq)
  ultimately show "grid_rows_ok (update_row i vs g)"
    using assms(1,2) numbered_nth [OF num] fields trs
    by (auto simp: grid_rows_ok_nth rows_but_def same_changes_def f_def nth_list_update)
  show "gr_heap (update_row i vs g) = (gr_heap g)(a := put_fields vs (gr_heap g a))" "same_changes (update_row i vs g) g"
    by (rule fields)+
qed

text \<open>Writing an object of a row does not touch the originals.\<close>

lemma heap_write_ok:
  assumes "grid_ok g" "grid_rows_ok g'" "same_changes g' g" "a \<in> set (gr_rows g)" "gr_heap g' = (gr_heap g)(a := v)"
  shows "grid_ok g' \<and> base g' = base g"
proof -
  have "a \<notin> set (gr_original g)" using assms(1,4) by (auto simp: grid_ok_def originals_ok_def)
  then have "map (gr_heap g') (gr_original g) = map (gr_heap g) (gr_original g)" by (auto simp: assms(5))
  with assms(1-3) show ?thesis
    by (simp add: grid_ok_def base_def changes_ok_def originals_ok_def same_changes_def)
qed

lemma update_row_ok:
  assumes "grid_ok g"
  shows "grid_ok (update_row i vs g) \<and> base (update_row i vs g) = base g"
proof (cases "i < length (gr_rows g)")
  case True
  have "rows_but i g" using assms by (simp add: grid_ok_def grid_rows_ok_but)
  note e = update_row_effect [OF this True, of vs]
  show ?thesis by (rule heap_write_ok [OF assms e(1) e(3) _ e(2)]) (use True in simp)
qed (use assms in \<open>simp add: update_row_def\<close>)

lemma editing_index: "row_editing i g \<Longrightarrow> rows_but k g \<Longrightarrow> i < length (gr_rows g)"
proof -
  assume e: "row_editing i g" and "rows_but k g"
  then obtain r where "find (\<lambda>r. tr_index r = i) (gr_trs g) = Some r" by (auto simp: row_editing_def get_tr_def split: option.splits)
  then have "i \<in> set (map tr_index (gr_trs g))" by (auto simp: find_Some_iff)
  with \<open>rows_but k g\<close> show ?thesis by (simp add: rows_but_def)
qed

lemma cancel_edit_ok:
  assumes "grid_ok g"
  shows "grid_ok (cancel_edit i g) \<and> base (cancel_edit i g) = base g \<and> same_changes (cancel_edit i g) g \<and> gr_heap (cancel_edit i g) = gr_heap g"
proof (cases "row_editing i g")
  case True
  define u where "u = set_tr i (\<lambda>r. r\<lparr>tr_editing := None\<rparr>) g"
  have u: "content u = content g" by (simp add: u_def)
  then have ok: "grid_ok u" "base u = base g" using content_ok [OF u] assms by simp_all
  have i: "i < length (gr_rows u)" using editing_index [OF True, of i] assms u by (simp add: grid_ok_def grid_rows_ok_but content_def)
  have "rows_but i u" using ok(1) by (simp add: grid_ok_def grid_rows_ok_but)
  note e = update_row_effect [OF this i, of "[]"]
  have "cancel_edit i g = update_row i [] u" using True by (simp add: cancel_edit_def refresh_row_def u_def)
  then show ?thesis
    using update_row_ok [OF ok(1), of i "[]"] ok(2) e u by (simp add: same_changes_def content_def put_fields_def)
qed (use assms in \<open>simp add: cancel_edit_def same_changes_def\<close>)

lemma end_row_edit_ok:
  assumes "grid_ok g"
  shows "grid_ok (end_row_edit i g) \<and> base (end_row_edit i g) = base g"
proof (cases "row_editing i g \<and> valid_row i g")
  case True
  have i: "i < length (gr_rows g)" using True assms editing_index [of i g i] by (simp add: grid_ok_def grid_rows_ok_but)
  define a where "a = gr_rows g ! i"
  define h where "h = (gr_heap g)(a := put_fields (changed_fields i g) (gr_heap g a))"
  define us where "us = (if changed_fields i g \<noteq> [] \<and> index_in (gr_inserted g) a = None \<and> index_in (gr_updated g) a = None then gr_updated g @ [a] else gr_updated g)"
  define g1 where "g1 = set_tr i (\<lambda>r. r\<lparr>tr_editing := None\<rparr>) (g\<lparr>gr_heap := h, gr_updated := us\<rparr>)"
  have eq: "end_row_edit i g = update_row i [] g1"
    using True by (simp add: end_row_edit_def Let_def refresh_row_def g1_def h_def us_def a_def get_row_def set_tr_def)
  have a: "a \<in> set (gr_rows g)" using i by (simp add: a_def)
  have "gr_rows g ! j = a \<longleftrightarrow> j = i" if "j < length (gr_rows g)" for j
    using assms i that by (auto simp: a_def grid_ok_def grid_rows_ok_def nth_eq_iff_index_eq)
  then have but: "rows_but i g1"
    using assms grid_rows_ok_but [of g i] numbered_nth [of "gr_trs g"]
    by (auto simp: grid_ok_def rows_but_def g1_def h_def set_tr_def o_def if_distrib cong: if_cong)
  note e = update_row_effect [OF but, of "[]"]
  have len: "i < length (gr_rows g1)" using i by (simp add: g1_def set_tr_def)
  have same: "gr_heap (update_row i [] g1) = h" "same_changes (update_row i [] g1) g1" "grid_rows_ok (update_row i [] g1)"
    using e [OF len] by (simp_all add: put_fields_def g1_def set_tr_def a_def)
  have us: "distinct us \<and> set us \<subseteq> set (gr_rows g @ gr_deleted g) \<and> set us \<inter> set (gr_inserted g) = {}"
    using assms a by (auto simp: us_def index_in_def find_index_None grid_ok_def changes_ok_def)
  have "a \<notin> set (gr_original g)" using assms a by (auto simp: grid_ok_def originals_ok_def)
  then have "map h (gr_original g) = map (gr_heap g) (gr_original g)" by (auto simp: h_def)
  with same us assms show ?thesis
    unfolding eq by (simp add: grid_ok_def base_def changes_ok_def originals_ok_def same_changes_def g1_def set_tr_def)
qed (use assms in \<open>auto simp: end_row_edit_def\<close>)

section \<open>Inserting and deleting rows\<close>

lemma place_after_shift:
  assumes "map tr_index rs = [0..<n]" "k \<le> n"
  shows "place_tr k n r (shift_up k n rs) = take k rs @ r # map (\<lambda>r. r\<lparr>tr_index := tr_index r + 1\<rparr>) (drop k rs)"
proof (cases "k = n")
  case True
  then show ?thesis using numbered_nth [OF assms(1)] by (simp add: place_tr_def shift_up_def)
next
  case False
  let ?up = "\<lambda>r. r\<lparr>tr_index := tr_index r + 1\<rparr>"
  have k: "k < length rs" "tr_index (rs ! k) = k" "length (take k rs) = k" using numbered_nth [OF assms(1)] assms(2) False by auto
  define xs where "xs = take k rs @ map ?up (drop k rs)"
  have "find_index (\<lambda>x. tr_index x = k + 1) xs = Some k"
  proof (rule find_index_SomeI)
    show "k < length xs" "tr_index (xs ! k) = k + 1" using k by (simp_all add: xs_def nth_append)
    show "\<forall>j < k. tr_index (xs ! j) \<noteq> k + 1"
      using numbered_nth [OF assms(1)] k by (auto simp: xs_def nth_append)
  qed
  then show ?thesis
    using False assms(2) k shift_up_spec [OF assms(1,2)] by (simp add: place_tr_def insert_at_def xs_def)
qed

definition insert_place :: "nat option \<Rightarrow> grid \<Rightarrow> nat" where
  "insert_place pos g = (case pos of None \<Rightarrow> length (gr_rows g) | Some i \<Rightarrow> if i > length (gr_rows g) then length (gr_rows g) else i)"

lemma distinct_insert_at: "distinct (insert_at k a xs) = (distinct xs \<and> a \<notin> set xs)"
proof -
  have "distinct (ys @ a # zs) = (distinct (ys @ zs) \<and> a \<notin> set (ys @ zs))" for ys zs by auto
  from this [of "take k xs" "drop k xs"] show ?thesis by (simp only: insert_at_def append_take_drop_id)
qed

lemma insert_row_at_effect:
  assumes "grid_rows_ok g" "a < gr_next g" "a \<notin> set (gr_rows g @ gr_deleted g)"
  shows "grid_rows_ok (insert_row_at pos a g)"
    and "gr_heap (insert_row_at pos a g) = gr_heap g" "gr_rows (insert_row_at pos a g) = insert_at (insert_place pos g) a (gr_rows g)"
    and "gr_total (insert_row_at pos a g) = gr_total g + 1" "gr_next (insert_row_at pos a g) = gr_next g"
    and "gr_inserted (insert_row_at pos a g) = gr_inserted g" "gr_deleted (insert_row_at pos a g) = gr_deleted g"
    and "gr_updated (insert_row_at pos a g) = gr_updated g" "gr_original (insert_row_at pos a g) = gr_original g"
    and "gr_remoteSort (insert_row_at pos a g) = gr_remoteSort g"
proof -
  let ?up = "\<lambda>r. r\<lparr>tr_index := tr_index r + 1\<rparr>"
  define k where "k = insert_place pos g"
  define n where "n = length (gr_rows g)"
  define trs where "trs = place_tr k n (new_tr k (\<lambda>f. None)) (shift_up k n (gr_trs g))"
  define g1 where "g1 = g\<lparr>gr_trs := trs, gr_total := gr_total g + 1, gr_rows := insert_at k a (gr_rows g)\<rparr>"
  have k: "k \<le> n" by (simp add: k_def insert_place_def n_def split: option.split)
  have num: "map tr_index (gr_trs g) = [0..<n]" and cells: "map tr_cells (gr_trs g) = map (gr_heap g) (gr_rows g)"
    using assms(1) by (simp_all add: grid_rows_ok_def n_def)
  have len: "length (gr_trs g) = n" using numbered_nth [OF num] by simp
  have trs: "trs = take k (gr_trs g) @ new_tr k (\<lambda>f. None) # map ?up (drop k (gr_trs g))"
    unfolding trs_def by (rule place_after_shift [OF num k])
  have "map tr_index trs = take k [0..<n] @ k # map Suc (drop k [0..<n])"
    by (simp add: trs new_tr_def o_def flip: num take_map drop_map)
  also have "\<dots> = [0..<k] @ k # [Suc k..<Suc n]" using k by (simp add: map_Suc_upt)
  also have "\<dots> = [0..<Suc n]" using k upt_add_eq_append [of 0 k "Suc n - k"] by (simp add: upt_conv_Cons)
  finally have num1: "map tr_index trs = [0..<length (gr_rows g1)]" using k by (simp add: g1_def n_def)
  have cells1: "map tr_cells trs = take k (map (gr_heap g) (gr_rows g)) @ (\<lambda>f. None) # drop k (map (gr_heap g) (gr_rows g))"
    by (simp add: trs new_tr_def o_def flip: cells take_map drop_map)
  have heap1: "map (gr_heap g) (gr_rows g1) = take k (map (gr_heap g) (gr_rows g)) @ gr_heap g a # drop k (map (gr_heap g) (gr_rows g))"
    by (simp add: g1_def insert_at_def take_map drop_map)
  have "tr_cells (trs ! j) = gr_heap g (gr_rows g1 ! j)" if "j < length (gr_rows g1)" "j \<noteq> k" for j
  proof -
    have "length trs = length (gr_rows g1)" using numbered_nth [OF num1] by simp
    then have "tr_cells (trs ! j) = map tr_cells trs ! j" "gr_heap g (gr_rows g1 ! j) = map (gr_heap g) (gr_rows g1) ! j"
      using that(1) by simp_all
    then show ?thesis using that(2) k by (simp add: cells1 heap1 nth_append nth_Cons n_def split: nat.split)
  qed
  moreover have "distinct (gr_rows g1 @ gr_deleted g1) \<and> set (gr_rows g1) = insert a (set (gr_rows g))"
    using assms(1,3) by (auto simp: g1_def grid_rows_ok_def distinct_insert_at)
  ultimately have "rows_but k g1"
    using num1 assms(1,2) by (auto simp: rows_but_def grid_rows_ok_def g1_def)
  note e = update_row_effect [OF this, of "[]"]
  have eq: "insert_row_at pos a g = update_row k [] g1"
    by (simp add: insert_row_at_def Let_def refresh_row_def g1_def trs_def n_def k_def insert_place_def)
  have klen: "k < length (gr_rows g1)" using k by (simp add: g1_def n_def)
  show "grid_rows_ok (insert_row_at pos a g)" unfolding eq by (rule e(1) [OF klen])
  show "gr_heap (insert_row_at pos a g) = gr_heap g" unfolding eq e(2) [OF klen] by (simp add: put_fields_def g1_def)
  show "gr_rows (insert_row_at pos a g) = insert_at (insert_place pos g) a (gr_rows g)" "gr_total (insert_row_at pos a g) = gr_total g + 1"
    "gr_next (insert_row_at pos a g) = gr_next g" "gr_inserted (insert_row_at pos a g) = gr_inserted g"
    "gr_deleted (insert_row_at pos a g) = gr_deleted g" "gr_updated (insert_row_at pos a g) = gr_updated g"
    "gr_original (insert_row_at pos a g) = gr_original g" "gr_remoteSort (insert_row_at pos a g) = gr_remoteSort g"
    using e(3) [OF klen] unfolding eq by (simp_all add: same_changes_def g1_def k_def)
qed

lemma alloc_effect:
  "gr_next (alloc vs g) = gr_next g + length vs" "a < gr_next g \<Longrightarrow> gr_heap (alloc vs g) a = gr_heap g a"
  "map (gr_heap (alloc vs g)) [gr_next g..<gr_next g + length vs] = vs"
  by (auto simp: alloc_def intro: nth_equalityI)

lemma map_alloc: "\<forall>a \<in> set rs. a < gr_next g \<Longrightarrow> map (gr_heap (alloc vs g)) rs = map (gr_heap g) rs"
  using alloc_effect(2) by auto

lemma alloc_frame [simp]:
  "gr_rows (alloc vs g) = gr_rows g" "gr_trs (alloc vs g) = gr_trs g" "gr_deleted (alloc vs g) = gr_deleted g"
  "gr_inserted (alloc vs g) = gr_inserted g" "gr_updated (alloc vs g) = gr_updated g" "gr_original (alloc vs g) = gr_original g"
  "gr_total (alloc vs g) = gr_total g" "gr_remoteSort (alloc vs g) = gr_remoteSort g"
  by (simp_all add: alloc_def)

lemma insert_row_ok:
  assumes "grid_ok g"
  shows "grid_ok (insert_row pos row g) \<and> base (insert_row pos row g) = base g"
proof -
  define g0 where "g0 = alloc [row] g"
  define a where "a = gr_next g"
  have "grid_rows_ok g" using assms by (simp add: grid_ok_def)
  then have old: "\<forall>x \<in> set (gr_rows g @ gr_deleted g). x < gr_next g" by (simp add: grid_rows_ok_def)
  have "map (gr_heap g0) (gr_rows g) = map (gr_heap g) (gr_rows g)" unfolding g0_def by (rule map_alloc) (use old in simp)
  with \<open>grid_rows_ok g\<close> have "grid_rows_ok g0" by (auto simp: g0_def grid_rows_ok_def alloc_effect(1) less_Suc_eq)
  moreover have "a < gr_next g0" "a \<notin> set (gr_rows g0 @ gr_deleted g0)"
    using old by (auto simp: g0_def a_def alloc_effect(1))
  ultimately have rows: "grid_rows_ok g0" "a < gr_next g0" "a \<notin> set (gr_rows g0 @ gr_deleted g0)" .
  note e = insert_row_at_effect [OF rows, of pos]
  have eq: "insert_row pos row g = (insert_row_at pos a g0)\<lparr>gr_inserted := gr_inserted g @ [a]\<rparr>"
    by (simp add: insert_row_def Let_def e(6) g0_def [symmetric] a_def [symmetric]) (simp add: g0_def)
  have le: "length (insert_at (insert_place pos g0) a (gr_rows g0)) = Suc (length (gr_rows g0))"
    by (simp add: insert_place_def split: option.split)
  have "map (gr_heap g0) (gr_original g) = map (gr_heap g) (gr_original g)"
    unfolding g0_def by (rule map_alloc) (use assms in \<open>simp add: grid_ok_def originals_ok_def\<close>)
  moreover have "a \<notin> set (gr_original g)" "a \<notin> set (gr_rows g @ gr_deleted g)" "a \<notin> set (gr_inserted g)" "a \<notin> set (gr_updated g)"
    using assms by (fastforce simp: grid_ok_def originals_ok_def grid_rows_ok_def changes_ok_def a_def)+
  moreover have "grid_rows_ok (insert_row pos row g)" using e(1) unfolding eq by (simp add: grid_rows_ok_def)
  ultimately show ?thesis
    using assms e le unfolding eq grid_ok_def
    by (auto simp: changes_ok_def originals_ok_def base_def g0_def alloc_effect(1) less_Suc_eq)
qed

lemma filter_numbered:
  assumes "map tr_index rs = [0..<n]" "i < n"
  shows "filter (\<lambda>r. tr_index r \<noteq> i) rs = remove_at i rs"
proof -
  have i: "i < length rs" "tr_index (rs ! i) = i" using numbered_nth [OF assms(1)] assms(2) by auto
  have "filter (\<lambda>r. tr_index r \<noteq> i) (take i rs) = take i rs"
    using numbered_parts(1) [OF assms(1), of _ i] by (intro filter_True) fastforce
  moreover have "filter (\<lambda>r. tr_index r \<noteq> i) (drop (Suc i) rs) = drop (Suc i) rs"
    using numbered_parts(2) [OF assms(1), of _ "Suc i"] by (intro filter_True) fastforce
  ultimately show ?thesis
    using i by (subst id_take_nth_drop [OF i(1)]) (simp add: remove_at_def)
qed

lemma drop_object_facts:
  assumes "distinct xs"
  shows "set (drop_object a xs) = set xs - {a}" "distinct (drop_object a xs)"
    and "length (drop_object a xs) = (if a \<in> set xs then length xs - 1 else length xs)"
proof -
  show "set (drop_object a xs) = set xs - {a}" "distinct (drop_object a xs)"
    "length (drop_object a xs) = (if a \<in> set xs then length xs - 1 else length xs)"
    using assms find_index_Some [of "\<lambda>y. y = a" xs] find_index_None [of "\<lambda>y. y = a" xs] set_remove_at [of xs]
    by (auto simp: drop_object_def index_in_def distinct_remove_at split: option.splits)
qed

lemma delete_trs:
  assumes "grid_rows_ok g" "i < length (gr_rows g)"
  defines "trs \<equiv> shift_down i (length (gr_rows g)) (filter (\<lambda>r. tr_index r \<noteq> i) (gr_trs g))"
  shows "map tr_index trs = [0..<length (remove_at i (gr_rows g))]" "map tr_cells trs = map (gr_heap g) (remove_at i (gr_rows g))"
proof -
  let ?down = "\<lambda>r. r\<lparr>tr_index := tr_index r - 1\<rparr>"
  define n where "n = length (gr_rows g)"
  have num: "map tr_index (gr_trs g) = [0..<n]" and cells: "map tr_cells (gr_trs g) = map (gr_heap g) (gr_rows g)"
    using assms(1) by (simp_all add: grid_rows_ok_def n_def)
  have i: "i < n" using assms(2) by (simp add: n_def)
  have trs: "trs = take i (gr_trs g) @ map ?down (drop (i + 1) (gr_trs g))"
    unfolding trs_def n_def [symmetric] filter_numbered [OF num i] by (rule shift_down_spec [OF num i])
  have "map tr_index trs = take i [0..<n] @ map (\<lambda>j. j - 1) (drop (i + 1) [0..<n])"
    by (simp add: trs o_def flip: num take_map drop_map)
  also have "\<dots> = [0..<i] @ map (\<lambda>j. j - 1) [Suc i..<n]" using i by simp
  also have "map (\<lambda>j. j - 1) [Suc i..<n] = [i..<n - 1]" using i by (intro nth_equalityI) auto
  also have "[0..<i] @ [i..<n - 1] = [0..<n - 1]" using i upt_add_eq_append [of 0 i "n - 1 - i"] by simp
  finally show "map tr_index trs = [0..<length (remove_at i (gr_rows g))]" using assms(2) by (simp add: n_def)
  show "map tr_cells trs = map (gr_heap g) (remove_at i (gr_rows g))"
    by (simp add: trs remove_at_def o_def cells flip: take_map drop_map)
qed

lemma delete_row_ok:
  assumes "grid_ok g"
  shows "grid_ok (delete_row i g) \<and> base (delete_row i g) = base g"
proof (cases "i < length (gr_rows g)")
  case True
  define g1 where "g1 = cancel_edit i g"
  define a where "a = gr_rows g1 ! i"
  define ins where "ins = (if index_in (gr_inserted g1) a \<noteq> None then drop_object a (gr_inserted g1) else gr_inserted g1)"
  define del where "del = (if index_in (gr_inserted g1) a \<noteq> None then gr_deleted g1 else gr_deleted g1 @ [a])"
  define rows where "rows = remove_at i (gr_rows g1)"
  have g1: "grid_ok g1" "base g1 = base g" "gr_rows g1 = gr_rows g"
    using cancel_edit_ok [OF assms, of i] by (auto simp: g1_def same_changes_def)
  have i: "i < length (gr_rows g1)" using True g1(3) by simp
  have r: "grid_rows_ok g1" and c: "changes_ok g1" and o: "originals_ok g1" using g1(1) by (simp_all add: grid_ok_def)
  have a: "a \<in> set (gr_rows g1)" "set rows = set (gr_rows g1) - {a}" "distinct rows" "length (gr_rows g1) = Suc (length rows)"
    using i r set_remove_at [of "gr_rows g1" i] by (auto simp: a_def rows_def grid_rows_ok_def distinct_remove_at)
  define d where "d = delete_row i g"
  have fields: "gr_rows d = rows" "gr_inserted d = ins" "gr_deleted d = del" "gr_updated d = gr_updated g1" "gr_original d = gr_original g1"
    "gr_heap d = gr_heap g1" "gr_next d = gr_next g1" "gr_total d = gr_total g1 - 1"
    "gr_trs d = shift_down i (length (gr_rows g1)) (filter (\<lambda>r. tr_index r \<noteq> i) (gr_trs g1))"
    using True by (simp_all add: d_def delete_row_def Let_def g1_def [symmetric] get_row_def a_def [symmetric] rows_def ins_def del_def)
  have in_iff: "index_in (gr_inserted g1) a \<noteq> None \<longleftrightarrow> a \<in> set (gr_inserted g1)"
    by (auto simp: index_in_def find_index_None)
  note dropped = drop_object_facts [of "gr_inserted g1" a]
  have pos: "a \<in> set (gr_inserted g1) \<Longrightarrow> 0 < length (gr_inserted g1)" by (cases "gr_inserted g1") auto
  have ins: "distinct ins" "set ins = set (gr_inserted g1) - {a}"
    "length (gr_inserted g1) = (if a \<in> set (gr_inserted g1) then Suc (length ins) else length ins)"
    using dropped c in_iff pos by (auto simp: ins_def changes_ok_def)
  have del: "set del \<subseteq> insert a (set (gr_deleted g1))" "set (gr_deleted g1) \<subseteq> set del"
    "a \<notin> set (gr_inserted g1) \<Longrightarrow> a \<in> set del" "a \<in> set (gr_inserted g1) \<Longrightarrow> del = gr_deleted g1"
    "length del = (if a \<in> set (gr_inserted g1) then length (gr_deleted g1) else length (gr_deleted g1) + 1)"
    using in_iff by (auto simp: del_def)
  have dist: "distinct (rows @ del)" using r a in_iff by (auto simp: grid_rows_ok_def del_def)
  have rows: "grid_rows_ok d"
    using delete_trs [OF r i] dist r a del(1) by (auto simp: grid_rows_ok_def fields rows_def [symmetric])
  have "changes_ok d"
    using c a ins del by (auto simp: changes_ok_def fields split: if_splits)
  moreover have "originals_ok d"
    using o a del(1) by (auto simp: originals_ok_def fields)
  moreover have "base d = base g1"
    using ins(3) del(5) by (auto simp: base_def fields split: if_splits)
  ultimately show ?thesis using rows g1(2) by (simp add: grid_ok_def d_def)
qed (use assms in \<open>simp add: delete_row_def\<close>)

section \<open>Loading, sorting, accepting, rejecting\<close>

lemma put_sorted_mset [simp]: "mset (put_sorted c x xs) = add_mset x (mset xs)"
  by (induction xs) auto

lemma js_sort_mset [simp]: "mset (js_sort c xs) = mset xs"
  by (induction xs) (simp_all add: js_sort_def)

lemma sort_rows_mset [simp]: "mset (sort_rows g rs) = mset rs"
  by (simp add: sort_rows_def)

lemma sort_rows_facts: "set (sort_rows g rs) = set rs" "distinct (sort_rows g rs) = distinct rs" "length (sort_rows g rs) = length rs"
  using sort_rows_mset [of g rs] by (metis set_mset_mset, metis mset_eq_imp_distinct_iff, metis size_mset)

text \<open>The rows alone, for a grid that is being loaded\<close>

definition rows_plain :: "grid \<Rightarrow> bool" where
  "rows_plain g \<longleftrightarrow>
     map tr_index (gr_trs g) = [0..<length (gr_rows g)] \<and> map tr_cells (gr_trs g) = map (gr_heap g) (gr_rows g) \<and>
     distinct (gr_rows g) \<and> (\<forall>a \<in> set (gr_rows g). a < gr_next g)"

lemma rows_plain_content: "content g' = content g \<Longrightarrow> rows_plain g' = rows_plain g"
  by (simp add: content_def rows_plain_def)

lemma load_rows_content:
  "content (load_rows rs tot g) = content (render_rows (g\<lparr>gr_rows := sort_rows g rs, gr_total := tot\<rparr>))"
  by (simp add: load_rows_def)

lemma rendered:
  "map tr_index (gr_trs (render_rows g)) = [0..<length (gr_rows g)]" "map tr_cells (gr_trs (render_rows g)) = map (gr_heap g) (gr_rows g)"
  by (auto simp: render_rows_def new_tr_def o_def get_row_def map_nth intro: nth_equalityI)

lemma load_rows_plain:
  assumes "distinct rs" "\<forall>a \<in> set rs. a < gr_next g"
  shows "rows_plain (load_rows rs tot g)"
  unfolding rows_plain_content [OF load_rows_content]
  unfolding rows_plain_def rendered using assms by (simp add: render_rows_def sort_rows_facts)

lemma snapshot_ok:
  assumes "rows_plain g"
  shows "grid_ok (snapshot g) \<and> base (snapshot g) = (map (gr_heap g) (gr_rows g), gr_total g)"
proof -
  let ?vs = "map (gr_heap g) (gr_rows g)"
  have heap: "map (gr_heap (alloc ?vs g)) (gr_rows g) = ?vs" by (rule map_alloc) (use assms in \<open>simp add: rows_plain_def\<close>)
  have orig: "map (gr_heap (alloc ?vs g)) [gr_next g..<gr_next g + length (gr_rows g)] = ?vs"
    using alloc_effect(3) [of ?vs g] by simp
  have "grid_rows_ok (snapshot g)"
    using assms heap by (auto simp: snapshot_def grid_rows_ok_def rows_plain_def alloc_effect(1))
  moreover have "changes_ok (snapshot g)" "originals_ok (snapshot g)"
    using assms by (auto simp: snapshot_def changes_ok_def originals_ok_def rows_plain_def alloc_effect(1))
  ultimately show ?thesis using orig by (simp add: grid_ok_def base_def snapshot_def)
qed

lemma sort_click_ok:
  assumes "grid_ok g"
  shows "grid_ok (sort_click f g) \<and> base (sort_click f g) = base g"
proof (cases "gr_sortable g f \<and> \<not> gr_remoteSort g")
  case True
  define g1 where "g1 = g\<lparr>gr_sort := sort_keys g f\<rparr>"
  define u where "u = render_rows (g1\<lparr>gr_rows := sort_rows g1 (gr_rows g1), gr_total := gr_total g1\<rparr>)"
  have c: "content (sort_click f g) = content u"
    using True by (simp add: sort_click_def Let_def g1_def [symmetric] load_rows_content u_def)
  have "content g1 = content g" by (simp add: g1_def)
  from content_ok [OF this] assms have g1: "grid_ok g1" "base g1 = base g" by simp_all
  have "grid_rows_ok u"
    using g1(1) unfolding u_def grid_rows_ok_def grid_ok_def rendered by (simp add: render_rows_def sort_rows_facts)
  moreover have "changes_ok u" "originals_ok u" "base u = base g1"
    using g1(1) by (simp_all add: u_def render_rows_def grid_ok_def changes_ok_def originals_ok_def base_def sort_rows_facts)
  ultimately have "grid_ok u" "base u = base g1" by (simp_all add: grid_ok_def)
  then show ?thesis using content_ok [OF c] g1(2) by simp
next
  case False
  then have c: "content (sort_click f g) = content g" by (auto simp: sort_click_def Let_def)
  show ?thesis using content_ok [OF c] assms by simp
qed

lemma grid_step_ok: "grid_ok g \<Longrightarrow> grid_ok (grid_step g e) \<and> base (grid_step g e) = base g"
proof (cases e)
  case (GrSelect i) then show "grid_ok g \<Longrightarrow> ?thesis" using content_ok [OF select_content(1)] by (simp add: grid_step_def)
qed (simp_all add: grid_step_def sort_click_ok end_row_edit_ok cancel_edit_ok update_row_ok insert_row_ok delete_row_ok
    content_ok [OF select_content(2)] content_ok [OF select_content(3)] content_ok [OF select_content(4)] content_ok [OF select_content(5)]
    content_ok [OF select_content(6)] content_ok [OF select_content(7)] content_ok [OF select_content(8)]
    content_ok [OF click_content(1)] content_ok [OF click_content(2)] content_ok [OF click_content(3)] content_ok [OF click_content(4)]
    content_ok [OF click_content(5)] content_ok [OF edit_content(1)] content_ok [OF edit_content(2)])

end
