(* ===== verification/GridMarks.thy ===== *)
theory GridMarks
  imports GridRows
begin

text \<open>
  Two things a user of a grid relies on: with \<open>selectOnCheck\<close> and \<open>checkOnSelect\<close> (the defaults)
  and no vetoes a row is selected exactly if it is checked, whatever is done to the grid; and the
  local sort orders the rows by all the sort keys.
\<close>

section \<open>Selected rows are the checked rows\<close>

definition linked :: "grid \<Rightarrow> bool" where
  "linked g \<longleftrightarrow> gr_selOnCheck g \<and> gr_checkOnSel g \<and> (\<forall>h i. gr_allow g h i)"

definition marks_agree :: "grid \<Rightarrow> bool" where
  "marks_agree g \<longleftrightarrow> (\<forall>r \<in> set (gr_trs g). tr_selected r = tr_checked r) \<and> gr_selected g = gr_checked g"

definition linked_ok :: "grid \<Rightarrow> bool" where
  "linked_ok g = (linked g \<and> marks_agree g)"

lemmas marks_defs = linked_ok_def linked_def marks_agree_def set_tr_def set_trs_def Let_def

lemma select_row_marks: "linked_ok g \<Longrightarrow> linked_ok (select_row i g)"
  by (cases "gr_single g")
     (auto simp: marks_defs select_row_def select_with_def check_with_def unselect_all_with_def uncheck_all_with_def
       add_id_def get_row_def split: option.split)

lemma check_row_marks: "linked_ok g \<Longrightarrow> linked_ok (check_row i g)"
  by (cases "gr_single g")
     (auto simp: marks_defs check_row_def select_with_def check_with_def unselect_all_with_def uncheck_all_with_def
       add_id_def get_row_def split: option.split)

lemma unselect_row_marks: "linked_ok g \<Longrightarrow> linked_ok (unselect_row i g)" "linked_ok g \<Longrightarrow> linked_ok (uncheck_row i g)"
  by (auto simp: marks_defs unselect_row_def uncheck_row_def unselect_with_def uncheck_with_def drop_id_def row_id_def get_row_def
      split: option.split)

lemma add_id_frame [simp]:
  "add_id (g\<lparr>gr_trs := ts\<rparr>) = add_id g" "add_id (g\<lparr>gr_header := b\<rparr>) = add_id g"
  "add_id (g\<lparr>gr_selected := xs\<rparr>) = add_id g" "add_id (g\<lparr>gr_checked := ys\<rparr>) = add_id g"
  by (simp_all add: add_id_def fun_eq_iff split: option.split)

lemma all_marks:
  "linked_ok g \<Longrightarrow> linked_ok (select_all g)" "linked_ok g \<Longrightarrow> linked_ok (check_all g)"
  "linked_ok g \<Longrightarrow> linked_ok (unselect_all g)" "linked_ok g \<Longrightarrow> linked_ok (uncheck_all g)"
  by (auto simp: marks_defs select_all_def check_all_def unselect_all_def uncheck_all_def select_all_with_def check_all_with_def
      unselect_all_with_def uncheck_all_with_def drop_id_def row_id_def cong: option.case_cong)

lemma fold_marks: "(\<And>x u. linked_ok u \<Longrightarrow> linked_ok (f x u)) \<Longrightarrow> linked_ok g \<Longrightarrow> linked_ok (fold f xs g)"
  by (induction xs arbitrary: g) simp_all

lemma drop_id_nil [simp]: "drop_id u v [] = []"
  by (simp add: drop_id_def split: option.split)

lemma fold_drop_nil [simp]: "fold (\<lambda>r. drop_id u (h r)) rs [] = []"
  by (induction rs) simp_all

lemma clear_marks:
  assumes "linked_ok g"
  shows "linked_ok (clear_selections g)" "linked_ok (clear_checked g)"
proof -
  have "fold (\<lambda>r. drop_id u (row_id v r)) rs [] = []" for u v rs by (rule fold_drop_nil)
  then show "linked_ok (clear_selections g)" "linked_ok (clear_checked g)"
    using assms by (simp_all add: marks_defs clear_selections_def clear_checked_def unselect_all_def uncheck_all_def
        unselect_all_with_def uncheck_all_with_def eq_commute [of "[]"])
qed

lemma click_marks:
  assumes "linked_ok g"
  shows "linked_ok (click_box i g)" "linked_ok (click_row c s i g)" "linked_ok (select_record v g)"
proof -
  have last: "linked_ok (u\<lparr>gr_lastIndex := k\<rparr>) = linked_ok u" for u k by (simp add: marks_defs)
  show "linked_ok (click_box i g)" using assms by (simp add: click_box_def check_row_marks unselect_row_marks)
  show "linked_ok (click_row c s i g)"
    using assms by (simp add: click_row_def toggle_row_def last select_row_marks unselect_row_marks clear_marks fold_marks)
  show "linked_ok (select_record v g)" using assms by (simp add: select_record_def select_row_marks split: option.split)
qed

lemma restore_marks:
  assumes "linked_ok g"
  shows "linked_ok (restore_row i g)"
proof -
  have h: "has_id (u\<lparr>gr_trs := ts\<rparr>) = has_id u" "has_id (u\<lparr>gr_selected := xs\<rparr>) = has_id u"
    "replace_object (u\<lparr>gr_trs := ts\<rparr>) = replace_object u" "replace_object (u\<lparr>gr_selected := xs\<rparr>) = replace_object u" for u ts xs
    by (auto simp: has_id_def replace_object_def same_id_def row_id_def fun_eq_iff split: option.split)
  have gr: "get_row (u\<lparr>gr_trs := ts\<rparr>) = get_row u" "get_row (u\<lparr>gr_selected := xs\<rparr>) = get_row u" "get_row (u\<lparr>gr_checked := xs\<rparr>) = get_row u"
    "get_row (u\<lparr>gr_header := b\<rparr>) = get_row u" for u ts xs b by (simp_all add: get_row_def fun_eq_iff)
  show ?thesis
    using assms by (cases "gr_single g")
      (auto simp: marks_defs restore_row_def select_with_def check_with_def unselect_all_with_def uncheck_all_with_def h gr)
qed

lemma load_marks:
  assumes "linked_ok g"
  shows "linked_ok (load_rows rs tot g)"
proof -
  have "linked_ok (render_rows (g\<lparr>gr_rows := xs, gr_total := tot\<rparr>))" for xs
    using assms by (auto simp: marks_defs render_rows_def new_tr_def)
  moreover have "linked_ok (u\<lparr>gr_header := b\<rparr>) = linked_ok u" for u b by (simp add: marks_defs)
  ultimately show ?thesis by (simp add: load_rows_def set_selection_state_def Let_def restore_marks fold_marks)
qed

lemma sort_click_marks: "linked_ok g \<Longrightarrow> linked_ok (sort_click f g)"
proof -
  assume g: "linked_ok g"
  then have "linked_ok (g\<lparr>gr_sort := ks\<rparr>)" for ks by (simp add: marks_defs)
  then show ?thesis using g by (simp add: sort_click_def Let_def load_marks)
qed

lemma set_tr_marks:
  assumes "linked_ok g" "\<And>r. tr_selected (f r) = tr_selected r \<and> tr_checked (f r) = tr_checked r"
  shows "linked_ok (set_tr i f g)"
  using assms by (auto simp: marks_defs)

lemma update_row_marks: "linked_ok g \<Longrightarrow> linked_ok (update_row i vs g)"
  by (auto simp: marks_defs update_row_def)

lemma edit_marks:
  assumes "linked_ok g"
  shows "linked_ok (begin_edit i g)" "linked_ok (type_in i f v g)" "linked_ok (cancel_edit i g)" "linked_ok (end_row_edit i g)"
proof -
  show "linked_ok (begin_edit i g)" "linked_ok (type_in i f v g)" "linked_ok (cancel_edit i g)"
    using assms by (simp_all add: begin_edit_def type_in_def cancel_edit_def refresh_row_def Let_def set_tr_marks update_row_marks)
  have "linked_ok (g\<lparr>gr_heap := h\<rparr>)" "linked_ok (g\<lparr>gr_heap := h, gr_updated := us\<rparr>)" for h us using assms by (simp_all add: marks_defs)
  then show "linked_ok (end_row_edit i g)"
    using assms by (simp add: end_row_edit_def refresh_row_def Let_def set_tr_marks update_row_marks)
qed

text \<open>Renumbering keeps the marks of the table rows.\<close>

definition agreeing :: "tablerow list \<Rightarrow> bool" where
  "agreeing rs = (\<forall>r \<in> set rs. tr_selected r = tr_checked r)"

lemma agreeing_renumber: "agreeing rs \<Longrightarrow> agreeing (renumber i j rs)"
  by (auto simp: agreeing_def renumber_def)

lemma agreeing_shift: "agreeing rs \<Longrightarrow> agreeing (shift_up k n rs)" "agreeing rs \<Longrightarrow> agreeing (shift_down k n rs)"
proof -
  have f: "agreeing xs \<Longrightarrow> agreeing (foldl (\<lambda>rs i. renumber i (h i) rs) xs is)" for h xs "is"
    by (induction "is" arbitrary: xs) (simp_all add: agreeing_renumber)
  show "agreeing rs \<Longrightarrow> agreeing (shift_up k n rs)" "agreeing rs \<Longrightarrow> agreeing (shift_down k n rs)"
    unfolding shift_up_def shift_down_def by (rule f; assumption)+
qed

lemma insert_delete_marks:
  assumes "linked_ok g"
  shows "linked_ok (insert_row pos row g)" "linked_ok (delete_row i g)"
proof -
  have put: "agreeing (place_tr k n (new_tr k c) rs)" if "agreeing rs" for k n c rs
    using that by (auto simp: place_tr_def agreeing_def new_tr_def split: option.splits)
  have "linked_ok (g\<lparr>gr_heap := h, gr_next := nx, gr_trs := ts, gr_total := tot, gr_rows := rs\<rparr>)" if "agreeing ts" for h nx ts tot rs
    using assms that by (auto simp: marks_defs agreeing_def)
  moreover have ins: "linked_ok (u\<lparr>gr_inserted := xs\<rparr>) = linked_ok u" for u xs by (simp add: marks_defs)
  moreover have "agreeing (gr_trs g)" using assms by (simp add: marks_defs agreeing_def)
  ultimately show "linked_ok (insert_row pos row g)"
    by (simp add: insert_row_def Let_def insert_row_at_def alloc_def refresh_row_def update_row_marks put agreeing_shift)
  define u where "u = cancel_edit i g"
  have u: "linked_ok u" using edit_marks(3) [OF assms] by (simp add: u_def)
  then have "agreeing (filter (\<lambda>r. tr_index r \<noteq> i) (gr_trs u))" by (auto simp: marks_defs agreeing_def)
  from agreeing_shift(2) [OF this] have "agreeing (shift_down i n (filter (\<lambda>r. tr_index r \<noteq> i) (gr_trs u)))" for n .
  then show "linked_ok (delete_row i g)"
    using u assms by (auto simp: marks_defs delete_row_def u_def [symmetric] agreeing_def drop_id_def row_id_def split: option.split)
qed

lemma step_marks: "linked_ok g \<Longrightarrow> linked_ok (grid_step g e)"
  by (cases e)
     (simp_all add: grid_step_def select_row_marks check_row_marks unselect_row_marks all_marks clear_marks click_marks
       sort_click_marks edit_marks update_row_marks insert_delete_marks)

section \<open>Sorting\<close>

lemma js_sort_sorted:
  fixes c :: "'a \<Rightarrow> 'a \<Rightarrow> int"
  assumes total: "\<And>x y. x \<in> S \<Longrightarrow> y \<in> S \<Longrightarrow> c x y \<le> 0 \<or> c y x \<le> 0"
    and trans: "\<And>x y z. x \<in> S \<Longrightarrow> y \<in> S \<Longrightarrow> z \<in> S \<Longrightarrow> c x y \<le> 0 \<Longrightarrow> c y z \<le> 0 \<Longrightarrow> c x z \<le> 0"
    and "set xs \<subseteq> S"
  shows "sorted_wrt (\<lambda>x y. c x y \<le> 0) (js_sort c xs)"
proof -
  have set_put: "set (put_sorted c x ys) = insert x (set ys)" for x ys by (induction ys) auto
  have "sorted_wrt (\<lambda>x y. c x y \<le> 0) (put_sorted c x ys)" if "sorted_wrt (\<lambda>x y. c x y \<le> 0) ys" "x \<in> S" "set ys \<subseteq> S" for x ys
    using that
  proof (induction ys)
    case (Cons y ys)
    show ?case
    proof (cases "c x y \<le> 0")
      case True
      then show ?thesis using Cons.prems trans [of x y] by auto
    next
      case False
      then have "c y x \<le> 0" using total [of x y] Cons.prems by auto
      then show ?thesis using False Cons by (auto simp: set_put)
    qed
  qed simp
  moreover have "set (js_sort c ys) = set ys" for ys by (induction ys) (simp_all add: js_sort_def set_put)
  ultimately show ?thesis using assms(3) by (induction xs) (simp_all add: js_sort_def)
qed

text \<open>On cells that are there, the comparison of keys is a total preorder.\<close>

lemma cell_cmp_antisym: "cell_cmp (Some y) (Some x) = - cell_cmp (Some x) (Some y)"
  by (auto simp: cell_cmp_def)

lemma cell_cmp_eq: "cell_cmp (Some x) (Some y) = 0 \<longleftrightarrow> x = y"
  by (auto simp: cell_cmp_def)

lemma cell_cmp_trans: "cell_cmp (Some x) (Some y) < 0 \<Longrightarrow> cell_cmp (Some y) (Some z) < 0 \<Longrightarrow> cell_cmp (Some x) (Some z) < 0"
  by (auto simp: cell_cmp_def split: if_splits)

definition has_keys :: "(string \<times> bool) list \<Rightarrow> grow \<Rightarrow> bool" where
  "has_keys ks r = (\<forall>k \<in> set ks. r (fst k) \<noteq> None)"

lemma row_cmp_antisym: "has_keys ks a \<Longrightarrow> has_keys ks b \<Longrightarrow> row_cmp ks b a = - row_cmp ks a b"
proof (induction ks)
  case (Cons k ks)
  obtain f asc where k: "k = (f, asc)" by (cases k)
  obtain x y where "a f = Some x" "b f = Some y" using Cons.prems by (auto simp: has_keys_def k)
  moreover have "row_cmp ks b a = - row_cmp ks a b" using Cons by (simp add: has_keys_def)
  ultimately show ?case using cell_cmp_antisym [of x y] by (simp add: k Let_def)
qed simp

lemma row_cmp_trans:
  "has_keys ks a \<Longrightarrow> has_keys ks b \<Longrightarrow> has_keys ks c \<Longrightarrow> row_cmp ks a b \<le> 0 \<Longrightarrow> row_cmp ks b c \<le> 0 \<Longrightarrow> row_cmp ks a c \<le> 0"
proof (induction ks)
  case (Cons k ks)
  obtain f asc where k: "k = (f, asc)" by (cases k)
  obtain x y z where v: "a f = Some x" "b f = Some y" "c f = Some z" using Cons.prems(1-3) by (auto simp: has_keys_def k)
  define s :: int where "s = (if asc then 1 else - 1)"
  have ih: "row_cmp ks a b \<le> 0 \<Longrightarrow> row_cmp ks b c \<le> 0 \<Longrightarrow> row_cmp ks a c \<le> 0" using Cons by (simp add: has_keys_def)
  have eq: "row_cmp (k # ks) p q = (if cell_cmp (p f) (q f) = 0 then row_cmp ks p q else cell_cmp (p f) (q f) * s)" for p q
    by (simp add: k s_def Let_def)
  have tr: "cell_cmp (Some x) (Some y) * s < 0 \<Longrightarrow> cell_cmp (Some y) (Some z) * s < 0 \<Longrightarrow> cell_cmp (Some x) (Some z) * s < 0"
    using cell_cmp_trans [of x y z] cell_cmp_trans [of z y x] cell_cmp_antisym [of x y] cell_cmp_antisym [of y z] cell_cmp_antisym [of x z]
    by (simp add: s_def split: if_splits)
  have ne: "cell_cmp p q \<noteq> 0 \<Longrightarrow> cell_cmp p q * s \<noteq> 0" for p q by (simp add: s_def)
  show ?case
  proof (cases "x = y \<or> y = z")
    case True
    then show ?thesis using Cons.prems(4,5) ih by (auto simp: eq v cell_cmp_eq split: if_splits)
  next
    case False
    then have n: "cell_cmp (Some x) (Some y) \<noteq> 0" "cell_cmp (Some y) (Some z) \<noteq> 0" by (simp_all only: cell_cmp_eq) simp_all
    then have "cell_cmp (Some x) (Some y) * s \<le> 0" "cell_cmp (Some y) (Some z) * s \<le> 0"
      using Cons.prems(4,5) by (simp_all only: eq v if_False)
    then have "cell_cmp (Some x) (Some y) * s < 0" "cell_cmp (Some y) (Some z) * s < 0"
      using ne n by (simp_all only: less_le) simp_all
    from tr [OF this] show ?thesis by (auto simp: eq v)
  qed
qed simp

lemma sort_rows_sorted:
  assumes "\<not> gr_remoteSort g" "\<forall>a \<in> set rs. has_keys (gr_sort g) (gr_heap g a)"
  shows "sorted_wrt (\<lambda>a b. row_cmp (gr_sort g) (gr_heap g a) (gr_heap g b) \<le> 0) (sort_rows g rs)"
proof (cases "gr_sort g = []")
  case True
  then show ?thesis by (simp add: sort_rows_def sorted_wrt_iff_nth_less)
next
  case False
  have "sorted_wrt (\<lambda>a b. row_cmp (gr_sort g) (gr_heap g a) (gr_heap g b) \<le> 0) (js_sort (\<lambda>a b. row_cmp (gr_sort g) (gr_heap g a) (gr_heap g b)) rs)"
  proof (rule js_sort_sorted [where S = "set rs"])
    fix x y assume "x \<in> set rs" "y \<in> set rs"
    then have "row_cmp (gr_sort g) (gr_heap g y) (gr_heap g x) = - row_cmp (gr_sort g) (gr_heap g x) (gr_heap g y)"
      using assms(2) by (intro row_cmp_antisym) auto
    then show "row_cmp (gr_sort g) (gr_heap g x) (gr_heap g y) \<le> 0 \<or> row_cmp (gr_sort g) (gr_heap g y) (gr_heap g x) \<le> 0" by linarith
  next
    fix x y z assume "x \<in> set rs" "y \<in> set rs" "z \<in> set rs"
      "row_cmp (gr_sort g) (gr_heap g x) (gr_heap g y) \<le> 0" "row_cmp (gr_sort g) (gr_heap g y) (gr_heap g z) \<le> 0"
    then show "row_cmp (gr_sort g) (gr_heap g x) (gr_heap g z) \<le> 0" using assms(2) row_cmp_trans by blast
  qed simp
  with False assms(1) show ?thesis by (simp add: sort_rows_def)
qed

end
