(* ===== verification/GridProps.thy ===== *)
theory GridProps
  imports GridMarks
begin

text \<open>
  What a data grid promises: its table rows show its objects in order through every session,
  rejecting brings the loaded rows back and accepting keeps the edited ones, selection and check
  marks agree when each implies the other, and local sorting orders the rows by all keys.
\<close>

section \<open>Loading, rejecting and accepting\<close>

lemma content_eqD:
  assumes "content g' = content g"
  shows "gr_heap g' = gr_heap g" "gr_next g' = gr_next g" "gr_rows g' = gr_rows g" "gr_total g' = gr_total g"
    and "gr_original g' = gr_original g" "gr_remoteSort g' = gr_remoteSort g" "gr_idField g' = gr_idField g"
  using assms by (simp_all add: content_def)

lemma load_rows_fields:
  "gr_heap (load_rows rs tot g) = gr_heap g" "gr_rows (load_rows rs tot g) = sort_rows g rs" "gr_total (load_rows rs tot g) = tot"
  "gr_remoteSort (load_rows rs tot g) = gr_remoteSort g"
  using content_eqD [OF load_rows_content [of rs tot g]] by (simp_all add: render_rows_def)

lemma sort_rows_remote: "gr_remoteSort g \<Longrightarrow> sort_rows g rs = rs"
  by (simp add: sort_rows_def)

lemma load_data_base:
  "grid_ok (load_data vs tot g) \<and> (gr_remoteSort g \<longrightarrow> base (load_data vs tot g) = (vs, tot)) \<and> gr_remoteSort (load_data vs tot g) = gr_remoteSort g"
proof -
  define rs where "rs = [gr_next g..<gr_next g + length vs]"
  define u where "u = load_rows rs tot (alloc vs g)"
  have "rows_plain u" unfolding u_def by (rule load_rows_plain) (auto simp: rs_def alloc_effect(1))
  note snap = snapshot_ok [OF this]
  have "map (gr_heap u) (gr_rows u) = vs \<and> gr_total u = tot" if "gr_remoteSort g"
    using alloc_effect(3) [of vs g] that by (simp add: u_def load_rows_fields sort_rows_remote rs_def)
  moreover have "gr_remoteSort (snapshot u) = gr_remoteSort g"
    by (simp add: snapshot_def u_def load_rows_fields)
  ultimately show ?thesis using snap by (simp add: load_data_def u_def [symmetric] rs_def [symmetric])
qed

lemma cancel_all_ok:
  "grid_ok g \<Longrightarrow> grid_ok (fold cancel_edit is g) \<and> base (fold cancel_edit is g) = base g \<and> same_changes (fold cancel_edit is g) g"
proof (induction "is" arbitrary: g)
  case (Cons i "is")
  from cancel_edit_ok [OF Cons.prems, of i] Cons.IH [of "cancel_edit i g"] show ?case
    by (simp add: same_changes_def)
qed (simp add: same_changes_def)

lemma reselect_content [simp]:
  "(\<And>i u. content (f i u) = content u) \<Longrightarrow> content (reselect f vs g) = content g"
  unfolding reselect_def by (rule foldl_content) (simp split: option.split)

lemma reject_base:
  assumes "grid_ok g" "gr_remoteSort g"
  shows "grid_ok (reject_changes g) \<and> base (reject_changes g) = base g
    \<and> map (gr_heap (reject_changes g)) (gr_rows (reject_changes g)) = fst (base g) \<and> gr_total (reject_changes g) = snd (base g)
    \<and> get_changes AllChanges (reject_changes g) = []"
proof -
  define g1 where "g1 = fold cancel_edit [0..<length (gr_rows g)] g"
  define tot where "tot = gr_total g1 + int (length (gr_deleted g1)) - int (length (gr_inserted g1))"
  define h where "h = g1\<lparr>gr_selected := [], gr_checked := []\<rparr>"
  define g2 where "g2 = load_rows (gr_original g1) tot h"
  define g3 where "g3 = reselect (check_with id) (map (row_id g1) (gr_checked g1)) (reselect (select_with id) (map (row_id g1) (gr_selected g1)) g2)"
  have g1: "grid_ok g1" "base g1 = base g" "gr_remoteSort g1"
    using cancel_all_ok [OF assms(1)] assms(2) by (auto simp: g1_def same_changes_def)
  have "rows_plain g2"
    unfolding g2_def by (rule load_rows_plain) (use g1(1) in \<open>simp_all add: h_def grid_ok_def originals_ok_def\<close>)
  moreover have c: "content g3 = content g2" by (simp add: g3_def)
  ultimately have plain: "rows_plain g3" by (simp add: rows_plain_content [OF c])
  have remote: "gr_remoteSort h" using g1(3) by (simp add: h_def)
  have rows: "map (gr_heap g3) (gr_rows g3) = fst (base g1)" "gr_total g3 = snd (base g1)"
    using content_eqD [OF c] by (simp_all add: g2_def load_rows_fields sort_rows_remote [OF remote]) (simp_all add: h_def base_def tot_def)
  have eq: "reject_changes g = snapshot g3"
    by (simp add: reject_changes_def Let_def g1_def [symmetric] tot_def [symmetric] h_def [symmetric] g2_def [symmetric] g3_def)
  have now: "map (gr_heap (snapshot g3)) (gr_rows (snapshot g3)) = map (gr_heap g3) (gr_rows g3)"
    using map_alloc [of "gr_rows g3" g3] plain by (simp add: snapshot_def rows_plain_def)
  show ?thesis
    using snapshot_ok [OF plain] rows now g1(2) unfolding eq by (simp add: snapshot_def get_changes_def)
qed

lemma end_row_edit_rows: "grid_ok g \<Longrightarrow> gr_rows (end_row_edit i g) = gr_rows g \<and> gr_total (end_row_edit i g) = gr_total g"
  by (simp add: end_row_edit_def refresh_row_def update_row_def Let_def set_tr_def)

lemma accept_steps:
  "grid_ok (fst gb) \<Longrightarrow> grid_ok (fst (foldl accept_step gb is)) \<and> gr_rows (fst (foldl accept_step gb is)) = gr_rows (fst gb)
   \<and> gr_total (fst (foldl accept_step gb is)) = gr_total (fst gb)"
proof (induction "is" arbitrary: gb)
  case (Cons i "is")
  have "grid_ok (fst (accept_step gb i))" "gr_rows (fst (accept_step gb i)) = gr_rows (fst gb)" "gr_total (fst (accept_step gb i)) = gr_total (fst gb)"
    using Cons.prems end_row_edit_ok [OF Cons.prems, of i] end_row_edit_rows [OF Cons.prems, of i] by (auto simp: accept_step_def)
  with Cons.IH [of "accept_step gb i"] show ?case by simp
qed simp

lemma grid_rows_ok_plain: "grid_rows_ok g \<Longrightarrow> rows_plain g"
  by (simp add: grid_rows_ok_def rows_plain_def)

text \<open>The grid provides the contract of event machines: for its rows with their base, and for its marks.\<close>

interpretation gridbase: event_machine grid_step "\<lambda>g. grid_ok g \<and> base g = b" for b
  by unfold_locales (simp add: grid_step_ok)

interpretation gridmarks: event_machine grid_step linked_ok
  by unfold_locales (rule step_marks)

lemma session_ok: "grid_ok g \<Longrightarrow> grid_ok (foldl grid_step g es) \<and> base (foldl grid_step g es) = base g"
  by (rule gridbase.inv_foldl) simp

lemma step_remote: "gr_remoteSort (grid_step g e) = gr_remoteSort g"
proof -
  note c = content_eqD(6) [OF select_content(1)] content_eqD(6) [OF select_content(2)] content_eqD(6) [OF select_content(3)]
    content_eqD(6) [OF select_content(4)] content_eqD(6) [OF select_content(5)] content_eqD(6) [OF select_content(6)]
    content_eqD(6) [OF select_content(7)] content_eqD(6) [OF select_content(8)] content_eqD(6) [OF click_content(1)]
    content_eqD(6) [OF click_content(2)] content_eqD(6) [OF click_content(3)] content_eqD(6) [OF click_content(4)]
    content_eqD(6) [OF click_content(5)] content_eqD(6) [OF edit_content(1)] content_eqD(6) [OF edit_content(2)]
  have u: "gr_remoteSort (update_row i vs u) = gr_remoteSort u" for i vs u
    by (simp add: update_row_def Let_def set_tr_def)
  have x: "gr_remoteSort (cancel_edit i u) = gr_remoteSort u" for i u
    by (simp add: cancel_edit_def refresh_row_def u) (simp add: set_tr_def)
  show ?thesis
  proof (cases e)
    case (GrSort f)
    then show ?thesis by (simp add: grid_step_def sort_click_def Let_def load_rows_fields)
  next
    case (GrEndEdit i)
    then show ?thesis by (simp add: grid_step_def end_row_edit_def Let_def refresh_row_def u) (simp add: set_tr_def)
  next
    case (GrInsert pos row)
    then show ?thesis by (simp add: grid_step_def insert_row_def Let_def insert_row_at_def refresh_row_def u)
  next
    case (GrDelete i)
    then show ?thesis by (simp add: grid_step_def delete_row_def Let_def x)
  qed (simp_all add: grid_step_def c u x)
qed

lemma session_remote: "gr_remoteSort (foldl grid_step g es) = gr_remoteSort g"
  by (induction es arbitrary: g) (simp_all add: step_remote)

section \<open>Ending every edit\<close>

lemma get_tr_set_tr:
  assumes "\<And>r. tr_index (f r) = tr_index r"
  shows "get_tr j (set_tr i f g) = map_option (\<lambda>r. if j = i then f r else r) (get_tr j g)"
proof -
  have "find (\<lambda>r. tr_index r = j) (map (\<lambda>r. if tr_index r = i then f r else r) rs)
      = map_option (\<lambda>r. if j = i then f r else r) (find (\<lambda>r. tr_index r = j) rs)" for rs
    using assms by (induction rs) auto
  then show ?thesis by (simp add: get_tr_def set_tr_def)
qed

lemma get_tr_fields [simp]:
  "get_tr j (g\<lparr>gr_heap := h\<rparr>) = get_tr j g" "get_tr j (g\<lparr>gr_updated := u\<rparr>) = get_tr j g"
  by (simp_all add: get_tr_def)

lemma editor_update_row: "editor_values j (update_row i vs g) = (if j = i \<and> i < length (gr_rows g) then [] else editor_values j g)"
  by (auto simp: editor_values_def update_row_def Let_def get_tr_set_tr split: option.split)

lemma editor_set_tr: "editor_values j (set_tr i (\<lambda>r. r\<lparr>tr_editing := None\<rparr>) g) = (if j = i then [] else editor_values j g)"
  by (auto simp: editor_values_def get_tr_set_tr split: option.split)

lemma end_row_edit_effect:
  assumes "grid_ok g" "i < length (gr_rows g)" "valid_row i g"
  shows "gr_heap (end_row_edit i g) = (gr_heap g)(gr_rows g ! i := put_fields (changed_fields i g) (gr_heap g (gr_rows g ! i)))"
    and "editor_values j (end_row_edit i g) = (if j = i then [] else editor_values j g)" "gr_valid (end_row_edit i g) = gr_valid g"
proof (atomize(full), cases "row_editing i g")
  case False
  then have "editor_values i g = []" by (auto simp: editor_values_def row_editing_def split: option.splits)
  with False show "gr_heap (end_row_edit i g) = (gr_heap g)(gr_rows g ! i := put_fields (changed_fields i g) (gr_heap g (gr_rows g ! i)))
      \<and> editor_values j (end_row_edit i g) = (if j = i then [] else editor_values j g) \<and> gr_valid (end_row_edit i g) = gr_valid g"
    by (auto simp: end_row_edit_def changed_fields_def put_fields_def)
next
  case True
  have ev: "editor_values j (u\<lparr>gr_updated := x\<rparr>) = editor_values j u" "editor_values j (u\<lparr>gr_heap := h\<rparr>) = editor_values j u" for j u x h
    by (simp_all add: editor_values_def)
  have "gr_heap (update_row i [] u) = gr_heap u" "gr_valid (update_row i [] u) = gr_valid u" for u
    by (simp_all add: update_row_def Let_def set_tr_def put_fields_def)
  then show "gr_heap (end_row_edit i g) = (gr_heap g)(gr_rows g ! i := put_fields (changed_fields i g) (gr_heap g (gr_rows g ! i)))
      \<and> editor_values j (end_row_edit i g) = (if j = i then [] else editor_values j g) \<and> gr_valid (end_row_edit i g) = gr_valid g"
    using True assms(2,3) by (simp add: end_row_edit_def Let_def refresh_row_def editor_update_row editor_set_tr ev get_row_def) (simp add: set_tr_def)
qed

lemma accept_fold:
  assumes "grid_ok g" "\<forall>i < length (gr_rows g). valid_row i g" "m \<le> length (gr_rows g)"
  shows "snd (foldl accept_step (g, True) [0..<m]) \<and>
    (\<forall>j < length (gr_rows g). editor_values j (fst (foldl accept_step (g, True) [0..<m])) = (if j < m then [] else editor_values j g)
      \<and> gr_heap (fst (foldl accept_step (g, True) [0..<m])) (gr_rows g ! j)
          = (if j < m then put_fields (changed_fields j g) (gr_heap g (gr_rows g ! j)) else gr_heap g (gr_rows g ! j)))
    \<and> gr_valid (fst (foldl accept_step (g, True) [0..<m])) = gr_valid g"
  using assms(3)
proof (induction m)
  case (Suc m)
  define u where "u = foldl accept_step (g, True) [0..<m]"
  have ih: "snd u" "gr_valid (fst u) = gr_valid g"
    "\<And>j. j < length (gr_rows g) \<Longrightarrow> editor_values j (fst u) = (if j < m then [] else editor_values j g)"
    "\<And>j. j < length (gr_rows g) \<Longrightarrow> gr_heap (fst u) (gr_rows g ! j) = (if j < m then put_fields (changed_fields j g) (gr_heap g (gr_rows g ! j)) else gr_heap g (gr_rows g ! j))"
    using Suc by (simp_all add: u_def)
  have ok: "grid_ok (fst u)" "gr_rows (fst u) = gr_rows g" using accept_steps [of "(g, True)" "[0..<m]"] assms(1) by (simp_all add: u_def)
  have m: "m < length (gr_rows g)" using Suc.prems by simp
  have v: "valid_row m (fst u)" using assms(2) m ih(2,3) by (simp add: valid_row_def)
  have cf: "changed_fields m (fst u) = changed_fields m g" using ih(3,4) m ok(2) by (simp add: changed_fields_def get_row_def)
  have dist: "gr_rows g ! j = gr_rows g ! m \<longleftrightarrow> j = m" if "j < length (gr_rows g)" for j
    using assms(1) m that by (simp add: grid_ok_def grid_rows_ok_def nth_eq_iff_index_eq)
  have "foldl accept_step (g, True) [0..<Suc m] = (end_row_edit m (fst u), True)"
    using v ih(1) by (simp add: u_def [symmetric]) (simp add: accept_step_def)
  moreover note end_row_edit_effect [OF ok(1) _ v, unfolded ok(2), OF m]
  ultimately show ?case using ih cf dist m by (auto simp: less_Suc_eq)
qed simp

lemma accept_all:
  assumes "grid_ok g" "\<forall>i < length (gr_rows g). valid_row i g"
  shows "gr_rows (accept_changes g) = gr_rows g \<and> gr_total (accept_changes g) = gr_total g
    \<and> map (gr_heap (accept_changes g)) (gr_rows g) = map (\<lambda>i. put_fields (changed_fields i g) (gr_heap g (gr_rows g ! i))) [0..<length (gr_rows g)]
    \<and> get_changes AllChanges (accept_changes g) = [] \<and> grid_ok (accept_changes g)
    \<and> base (accept_changes g) = (map (gr_heap (accept_changes g)) (gr_rows g), gr_total g)"
proof -
  define u where "u = foldl accept_step (g, True) [0..<length (gr_rows g)]"
  have ok: "grid_ok (fst u)" "gr_rows (fst u) = gr_rows g" "gr_total (fst u) = gr_total g"
    using accept_steps [of "(g, True)" "[0..<length (gr_rows g)]"] assms(1) by (simp_all add: u_def)
  note f = accept_fold [OF assms, of "length (gr_rows g)", folded u_def, simplified]
  have eq: "accept_changes g = snapshot (fst u)" using f by (simp add: accept_changes_def u_def [symmetric] Let_def)
  have plain: "rows_plain (fst u)" using ok(1) by (simp add: grid_ok_def grid_rows_ok_plain)
  note snap = snapshot_ok [OF plain]
  have heap: "map (gr_heap (snapshot (fst u))) (gr_rows g) = map (gr_heap (fst u)) (gr_rows g)"
    using map_alloc [of "gr_rows g" "fst u"] plain ok(2) by (simp add: snapshot_def rows_plain_def)
  have "map (gr_heap (fst u)) (gr_rows g) = map (\<lambda>i. put_fields (changed_fields i g) (gr_heap g (gr_rows g ! i))) [0..<length (gr_rows g)]"
    using f by (intro nth_equalityI) auto
  then show ?thesis using snap heap ok unfolding eq by (simp add: snapshot_def get_changes_def)
qed

section \<open>Marks, deleting and sorting\<close>

lemma load_data_marks: "linked_ok g \<Longrightarrow> linked_ok (load_data vs tot g)"
proof -
  assume "linked_ok g"
  then have "linked_ok (alloc vs g)" by (simp add: marks_defs alloc_def)
  from load_marks [OF this] show ?thesis by (simp add: load_data_def snapshot_def alloc_def marks_defs)
qed

lemma session_marks: "linked_ok g \<Longrightarrow> linked_ok (foldl grid_step g es)"
  by (rule gridmarks.inv_foldl)

lemma drop_object_remove1: "drop_object a xs = remove1 a xs"
proof (induction xs)
  case (Cons x xs)
  then show ?case by (auto simp: drop_object_def index_in_def remove_at_def split: option.splits)
qed (simp add: drop_object_def index_in_def)

lemma cancel_rows: "grid_ok g \<Longrightarrow> gr_rows (cancel_edit i g) = gr_rows g \<and> gr_heap (cancel_edit i g) = gr_heap g"
  by (simp add: cancel_edit_def refresh_row_def update_row_def Let_def set_tr_def put_fields_def)

lemma delete_effect:
  assumes "grid_ok g" "i < length (gr_rows g)" "a = gr_rows g ! i"
  shows "gr_heap (delete_row i g) = gr_heap g \<and> gr_rows (delete_row i g) = remove_at i (gr_rows g)
    \<and> gr_updated (delete_row i g) = gr_updated g
    \<and> gr_inserted (delete_row i g) = remove1 a (gr_inserted g)
    \<and> gr_deleted (delete_row i g) = (if a \<in> set (gr_inserted g) then gr_deleted g else gr_deleted g @ [a])"
proof -
  have ch: "gr_inserted (cancel_edit i g) = gr_inserted g" "gr_deleted (cancel_edit i g) = gr_deleted g" "gr_updated (cancel_edit i g) = gr_updated g"
    using cancel_edit_ok [OF assms(1), of i] by (simp_all add: same_changes_def)
  have ix: "index_in xs x = None \<longleftrightarrow> x \<notin> set xs" for xs x
    using find_index_None [of "\<lambda>y. y = x" xs] by (auto simp: index_in_def)
  show ?thesis
    using assms(2,3) cancel_rows [OF assms(1), of i]
    by (simp add: delete_row_def Let_def ch ix get_row_def drop_object_remove1 remove1_idem)
qed

lemma sort_click_effect:
  assumes "gr_sortable g f" "\<not> gr_remoteSort g"
  shows "gr_rows (sort_click f g) = sort_rows (g\<lparr>gr_sort := sort_keys g f\<rparr>) (gr_rows g) \<and> gr_heap (sort_click f g) = gr_heap g
    \<and> gr_total (sort_click f g) = gr_total g \<and> gr_inserted (sort_click f g) = gr_inserted g \<and> gr_deleted (sort_click f g) = gr_deleted g
    \<and> gr_updated (sort_click f g) = gr_updated g \<and> map tr_cells (gr_trs (sort_click f g)) = map (gr_heap g) (gr_rows (sort_click f g))"
proof -
  define g1 where "g1 = g\<lparr>gr_sort := sort_keys g f\<rparr>"
  define u where "u = render_rows (g1\<lparr>gr_rows := sort_rows g1 (gr_rows g1), gr_total := gr_total g1\<rparr>)"
  have c: "content (sort_click f g) = content u"
    using assms by (simp add: sort_click_def Let_def g1_def [symmetric] load_rows_content u_def)
  have "map tr_cells (gr_trs u) = map (gr_heap u) (gr_rows u)" unfolding u_def rendered by (simp add: render_rows_def)
  with c show ?thesis by (simp add: content_def) (simp add: u_def render_rows_def g1_def)
qed

section \<open>The properties\<close>

text \<open>The grid after a load and the events of a session\<close>

definition grid_session :: "grow list \<Rightarrow> int \<Rightarrow> grid \<Rightarrow> grid_event list \<Rightarrow> grid" where
  "grid_session vs tot g es = foldl grid_step (load_data vs tot g) es"

lemma session_facts:
  "grid_ok (grid_session vs tot g es)" "gr_remoteSort (grid_session vs tot g es) = gr_remoteSort g"
  "gr_remoteSort g \<Longrightarrow> base (grid_session vs tot g es) = (vs, tot)"
  using load_data_base [of vs tot g] session_ok [of "load_data vs tot g" es] session_remote [of "load_data vs tot g" es]
  by (simp_all add: grid_session_def)

text \<open>
  C7. After any load and any session of selecting, checking, sorting, editing, inserting and
  deleting, the table rows are numbered from zero without gaps and each shows the object of its
  row; no object is in two rows.
\<close>

theorem table_shows_rows:
  "map tr_index (gr_trs (grid_session vs tot g es)) = [0..<length (gr_rows (grid_session vs tot g es))]
   \<and> map tr_cells (gr_trs (grid_session vs tot g es))
      = map (gr_heap (grid_session vs tot g es)) (gr_rows (grid_session vs tot g es))
   \<and> distinct (gr_rows (grid_session vs tot g es))"
  using session_facts(1) [of vs tot g es] by (simp add: grid_ok_def grid_rows_ok_def)


text \<open>A grid of three rows to run the properties on\<close>

definition item :: "string \<Rightarrow> string \<Rightarrow> grow" where
  "item k n = (\<lambda>f. if f = ''id'' then Some k else if f = ''name'' then Some n else None)"

definition sample_rows :: "grow list" where
  "sample_rows = [item ''1'' ''pear'', item ''2'' ''fig'', item ''3'' ''lime'']"

definition sample_grid :: grid where
  "sample_grid = (new_grid (Some ''id''))\<lparr>gr_editors := [''name''], gr_sortable := (\<lambda>f. True)\<rparr>"

definition sample_edits :: "grid_event list" where
  "sample_edits = [GrSelect 1, GrBeginEdit 0, GrType 0 ''name'' ''plum'', GrEndEdit 0, GrInsert (Some 1) (item ''9'' ''kiwi''), GrDelete 3,
     GrBeginEdit 1, GrType 1 ''name'' ''date'']"

text \<open>
  C3. Rejecting undoes a session: with the sort order left to the server, whatever was edited,
  inserted, deleted or is still being edited since the rows were loaded, rejecting shows the loaded
  rows in their order and the loaded total, and no change is left on record.
\<close>

theorem reject_restores:
  assumes "gr_remoteSort g" "r = reject_changes (grid_session vs tot g es)"
  shows "map (gr_heap r) (gr_rows r) = vs \<and> map tr_cells (gr_trs r) = vs \<and> gr_total r = tot \<and> get_changes AllChanges r = []"
  using reject_base [OF session_facts(1) [of vs tot g es]] session_facts(2) [of vs tot g es] session_facts(3) [of g vs tot es] assms
  by (simp add: grid_ok_def grid_rows_ok_def)

theorem reject_restores_witness:
  "length (gr_rows (grid_session sample_rows 3 sample_grid sample_edits)) = 3
   \<and> length (get_changes AllChanges (grid_session sample_rows 3 sample_grid sample_edits)) = 3
   \<and> gr_total (reject_changes (grid_session sample_rows 3 sample_grid sample_edits)) = 3
   \<and> map tr_cells (gr_trs (reject_changes (grid_session sample_rows 3 sample_grid sample_edits))) = sample_rows"
proof -
  have "gr_remoteSort sample_grid" by (simp add: sample_grid_def new_grid_def)
  note r = reject_restores [OF this refl, of sample_rows 3 sample_edits]
  have "length (gr_rows (grid_session sample_rows 3 sample_grid sample_edits)) = 3"
    "length (get_changes AllChanges (grid_session sample_rows 3 sample_grid sample_edits)) = 3" by code_simp+
  with r show ?thesis by blast
qed

text \<open>
  Accepting a grid whose editors all hold valid values keeps its rows and its total, writes
  the changed fields of every row that is being edited into its object, leaves no change on record,
  and makes these rows the ones a later rejection returns to.
\<close>

theorem accept_keeps_edits:
  assumes "u = grid_session vs tot g es" "\<forall>i < length (gr_rows u). valid_row i u"
  shows "gr_rows (accept_changes u) = gr_rows u \<and> gr_total (accept_changes u) = gr_total u
    \<and> map (gr_heap (accept_changes u)) (gr_rows u) = map (\<lambda>i. put_fields (changed_fields i u) (gr_heap u (gr_rows u ! i))) [0..<length (gr_rows u)]
    \<and> get_changes AllChanges (accept_changes u) = []
    \<and> map (gr_heap (accept_changes u)) (gr_original (accept_changes u)) = map (gr_heap (accept_changes u)) (gr_rows u)"
proof -
  have "grid_ok u" using session_facts(1) assms(1) by simp
  note a = accept_all [OF this assms(2)]
  then have "fst (base (accept_changes u)) = map (gr_heap (accept_changes u)) (gr_rows u)" by simp
  with a show ?thesis by (simp add: base_def)
qed

theorem accept_keeps_edits_witness:
  "gr_total (accept_changes (grid_session sample_rows 3 sample_grid sample_edits)) = 3
   \<and> get_changes AllChanges (accept_changes (grid_session sample_rows 3 sample_grid sample_edits)) = []
   \<and> map (\<lambda>i. changed_fields i (grid_session sample_rows 3 sample_grid sample_edits)) [0..<3] = [[], [(''name'', ''date'')], []]"
proof -
  have "length (gr_rows (grid_session sample_rows 3 sample_grid sample_edits)) = 3"
    "list_all (\<lambda>i. valid_row i (grid_session sample_rows 3 sample_grid sample_edits)) [0..<3]" by code_simp+
  then have "\<forall>i < length (gr_rows (grid_session sample_rows 3 sample_grid sample_edits)).
      valid_row i (grid_session sample_rows 3 sample_grid sample_edits)"
    by (auto simp: list_all_iff)
  note a = accept_keeps_edits [OF refl this]
  have "gr_total (grid_session sample_rows 3 sample_grid sample_edits) = 3"
    "map (\<lambda>i. changed_fields i (grid_session sample_rows 3 sample_grid sample_edits)) [0..<3] = [[], [(''name'', ''date'')], []]"
    by code_simp+
  with a show ?thesis by simp
qed


text \<open>
  C18. What deleting a row puts on record: a row that was inserted vanishes from the inserted ones,
  any other is added to the deleted ones; the updated ones stay, so a row that was edited and then
  deleted is reported both as deleted and as updated.
\<close>

theorem delete_row_changes:
  assumes "u = grid_session vs tot g es" "i < length (gr_rows u)" "a = gr_rows u ! i"
  shows "map (gr_heap (delete_row i u)) (gr_rows (delete_row i u)) = map (gr_heap u) (remove_at i (gr_rows u))
    \<and> get_changes UpdatedRows (delete_row i u) = get_changes UpdatedRows u
    \<and> (if a \<in> set (get_changes InsertedRows u)
       then get_changes InsertedRows (delete_row i u) = remove1 a (get_changes InsertedRows u)
         \<and> get_changes DeletedRows (delete_row i u) = get_changes DeletedRows u
       else get_changes InsertedRows (delete_row i u) = get_changes InsertedRows u
         \<and> get_changes DeletedRows (delete_row i u) = get_changes DeletedRows u @ [a])"
  using delete_effect [of u i a] session_facts(1) [of vs tot g es] assms by (simp add: get_changes_def remove1_idem)

theorem delete_row_changes_witness:
  "get_changes UpdatedRows (delete_row 0 (grid_session sample_rows 3 sample_grid (take 4 sample_edits))) = [0]
   \<and> get_changes DeletedRows (delete_row 0 (grid_session sample_rows 3 sample_grid (take 4 sample_edits))) = [0]"
proof -
  let ?u = "grid_session sample_rows 3 sample_grid (take 4 sample_edits)"
  have f: "0 < length (gr_rows ?u)" "0 = gr_rows ?u ! 0" "get_changes UpdatedRows ?u = [0]" "get_changes DeletedRows ?u = []"
    "get_changes InsertedRows ?u = []" by code_simp+
  show ?thesis using delete_row_changes [OF refl f(1,2)] f(3-5) by simp
qed

text \<open>
  C19. When selecting checks and checking selects (the defaults) and no callback vetoes, a row is
  selected exactly if it is checked and the selected rows are the checked rows, after every session.
\<close>

theorem selected_iff_checked:
  assumes "gr_selOnCheck g" "gr_checkOnSel g" "\<forall>h i. gr_allow g h i" "gr_selected g = gr_checked g"
    and "\<forall>r \<in> set (gr_trs g). tr_selected r = tr_checked r"
  shows "get_selections (grid_session vs tot g es) = get_checked_rows (grid_session vs tot g es)
    \<and> (\<forall>r \<in> set (gr_trs (grid_session vs tot g es)). tr_selected r = tr_checked r)"
proof -
  have "linked_ok g" using assms by (simp add: linked_ok_def linked_def marks_agree_def)
  then have "linked_ok (grid_session vs tot g es)" by (simp add: grid_session_def session_marks load_data_marks)
  then show ?thesis by (auto simp: linked_ok_def marks_agree_def get_selections_def get_checked_rows_def cong: filter_cong)
qed

theorem selected_iff_checked_witness:
  "get_selections (grid_session sample_rows 3 sample_grid [GrCheck 0, GrClickRow False False 2]) = [0, 2]
   \<and> get_checked_rows (grid_session sample_rows 3 sample_grid [GrCheck 0, GrClickRow False False 2]) = [0, 2]"
proof -
  have "gr_selOnCheck sample_grid" "gr_checkOnSel sample_grid" "\<forall>h i. gr_allow sample_grid h i" "gr_selected sample_grid = gr_checked sample_grid"
    "\<forall>r \<in> set (gr_trs sample_grid). tr_selected r = tr_checked r"
    by (simp_all add: sample_grid_def new_grid_def)
  note s = selected_iff_checked [OF this, of sample_rows 3 "[GrCheck 0, GrClickRow False False 2]"]
  have "get_selections (grid_session sample_rows 3 sample_grid [GrCheck 0, GrClickRow False False 2]) = [0, 2]" by code_simp
  with s show ?thesis by simp
qed

text \<open>
  A click on the header of a sortable column of a grid that sorts by itself keeps the rows,
  the total and the record of changes, and puts the rows into the order of all the sort keys (the
  first one that differs decides, descending ones reversed), when every row has the key columns.
\<close>

theorem sort_click_sorts:
  assumes "gr_sortable g f" "\<not> gr_remoteSort g" "\<forall>a \<in> set (gr_rows g). has_keys (sort_keys g f) (gr_heap g a)"
  shows "mset (gr_rows (sort_click f g)) = mset (gr_rows g) \<and> gr_heap (sort_click f g) = gr_heap g \<and> gr_total (sort_click f g) = gr_total g
    \<and> get_changes k (sort_click f g) = get_changes k g
    \<and> sorted_wrt (\<lambda>a b. row_cmp (sort_keys g f) (gr_heap g a) (gr_heap g b) \<le> 0) (gr_rows (sort_click f g))
    \<and> map tr_cells (gr_trs (sort_click f g)) = map (gr_heap g) (gr_rows (sort_click f g))"
  using sort_click_effect [OF assms(1,2)] sort_rows_sorted [of "g\<lparr>gr_sort := sort_keys g f\<rparr>" "gr_rows g"] assms(2,3)
  by (simp add: get_changes_def split: change_kind.split)

theorem sort_click_sorts_witness:
  "gr_rows (sort_click ''name'' (load_data sample_rows 3 (sample_grid\<lparr>gr_remoteSort := False\<rparr>))) = [1, 2, 0]
   \<and> map tr_cells (gr_trs (sort_click ''name'' (load_data sample_rows 3 (sample_grid\<lparr>gr_remoteSort := False\<rparr>))))
     = map (gr_heap (load_data sample_rows 3 (sample_grid\<lparr>gr_remoteSort := False\<rparr>))) [1, 2, 0]"
proof -
  let ?g = "load_data sample_rows 3 (sample_grid\<lparr>gr_remoteSort := False\<rparr>)"
  have f: "gr_sortable ?g ''name''" "\<not> gr_remoteSort ?g" "gr_rows (sort_click ''name'' ?g) = [1, 2, 0]"
    "gr_rows ?g = [0, 1, 2]" "sort_keys ?g ''name'' = [(''name'', True)]" by code_simp+
  have "list_all (\<lambda>a. \<not> Option.is_none (gr_heap ?g a ''name'')) [0, 1, 2]" by code_simp
  then have "\<forall>a \<in> set (gr_rows ?g). has_keys (sort_keys ?g ''name'') (gr_heap ?g a)"
    unfolding f(4,5) by (simp add: has_keys_def Option.is_none_def)
  from sort_click_sorts [OF f(1,2) this, of AllChanges] f(3) show ?thesis by simp
qed

end
