(* ===== verification/Tabs.thy ===== *)
theory Tabs
  imports JsPrelude
begin

text \<open>
  \<open>plugins/jquery.tabs.js\<close> with the open and close operations of \<open>plugins/jquery.panel.js\<close>:
  the panels of a tab bar, the header items that stand for them, the history of selections, and
  adding, closing, updating and clicking. Panels are identified by a number. The bar is taken to be
  visible and its panels to open without animation; \<open>None\<close> is a call that raises an error.
\<close>

section \<open>State\<close>

record tabpanel =
  tp_id :: nat
  tp_title :: string
  tp_closable :: bool
  tp_collapsible :: bool
  tp_chosen :: bool
  tp_open :: bool

record tabitem =
  ti_panel :: nat
  ti_title :: string
  ti_close :: bool
  ti_selected :: bool
  ti_disabled :: bool

datatype tab_hook = TabMayOpen | TabMayHide | TabMayClose

datatype tabs_note = TabSelected string nat | TabUnselected string nat | TabClosed string nat | TabAdded string nat | TabUpdated string nat

record tabbar =
  ts_tabs :: "tabpanel list"
  ts_items :: "tabitem list"
  ts_history :: "string list"
  ts_next :: nat
  ts_allow :: "tab_hook \<Rightarrow> nat \<Rightarrow> bool"
  ts_log :: "tabs_note list"

record tab_options =
  to_title :: string
  to_closable :: bool
  to_collapsible :: bool
  to_index :: "int option"
  to_selected :: bool

record tab_change =
  tc_title :: "string option"
  tc_closable :: "bool option"
  tc_collapsible :: "bool option"

datatype tab_key = TabAt int | TabNamed string

section \<open>Finding tabs\<close>

text \<open>\<open>_61\<close> as a position, \<open>_4a\<close> and \<open>_24\<close>\<close>

definition find_tab :: "tab_key \<Rightarrow> tabbar \<Rightarrow> nat option" where
  "find_tab key s =
     (case key of
        TabAt i \<Rightarrow> if i < 0 \<or> i \<ge> int (length (ts_tabs s)) then None else Some (nat i)
      | TabNamed t \<Rightarrow> find_index (\<lambda>p. tp_title p = t) (ts_tabs s))"

definition tab_position :: "nat \<Rightarrow> tabbar \<Rightarrow> nat option" where
  "tab_position d s = find_index (\<lambda>p. tp_id p = d) (ts_tabs s)"

definition item_selected :: "nat \<Rightarrow> tabbar \<Rightarrow> bool" where
  "item_selected d s = list_ex (\<lambda>t. ti_panel t = d \<and> ti_selected t) (ts_items s)"

definition selected_tab :: "tabbar \<Rightarrow> nat option" where
  "selected_tab s = find_index (\<lambda>p. item_selected (tp_id p) s) (ts_tabs s)"

definition set_panel :: "nat \<Rightarrow> (tabpanel \<Rightarrow> tabpanel) \<Rightarrow> tabbar \<Rightarrow> tabbar" where
  "set_panel d f s = s\<lparr>ts_tabs := map (\<lambda>p. if tp_id p = d then f p else p) (ts_tabs s)\<rparr>"

definition set_item :: "nat \<Rightarrow> (tabitem \<Rightarrow> tabitem) \<Rightarrow> tabbar \<Rightarrow> tabbar" where
  "set_item d f s = s\<lparr>ts_items := map (\<lambda>t. if ti_panel t = d then f t else t) (ts_items s)\<rparr>"

definition tab_note :: "tabs_note \<Rightarrow> tabbar \<Rightarrow> tabbar" where
  "tab_note n s = s\<lparr>ts_log := ts_log s @ [n]\<rparr>"

section \<open>Selecting\<close>

text \<open>\<open>panel("close")\<close> with the handlers \<open>onBeforeClose\<close> and \<open>onClose\<close> of \<open>_3c\<close>, and \<open>_74\<close>\<close>

definition hide_tab_panel :: "nat \<Rightarrow> tabbar \<Rightarrow> tabbar" where
  "hide_tab_panel i s =
     (let p = ts_tabs s ! i
      in if \<not> ts_allow s TabMayHide (tp_id p) then s
         else tab_note (TabUnselected (tp_title p) i)
                (set_panel (tp_id p) (\<lambda>q. q\<lparr>tp_open := False\<rparr>) (set_item (tp_id p) (\<lambda>t. t\<lparr>ti_selected := False\<rparr>) s)))"

definition unselect_tab :: "tab_key \<Rightarrow> tabbar \<Rightarrow> tabbar" where
  "unselect_tab key s =
     (case find_tab key s of None \<Rightarrow> s | Some i \<Rightarrow> if tp_open (ts_tabs s ! i) then hide_tab_panel i s else s)"

text \<open>\<open>panel("open")\<close> with the handlers \<open>onBeforeOpen\<close> and \<open>onOpen\<close> of \<open>_3c\<close>, and \<open>_50\<close>\<close>

definition finish_open :: "nat \<Rightarrow> tabbar \<Rightarrow> tabbar" where
  "finish_open i s =
     (let p = ts_tabs s ! i;
          s1 = set_panel (tp_id p) (\<lambda>q. q\<lparr>tp_open := True\<rparr>) (set_item (tp_id p) (\<lambda>t. t\<lparr>ti_selected := True\<rparr>) s)
      in tab_note (TabSelected (tp_title p) i) (s1\<lparr>ts_history := ts_history s1 @ [tp_title p]\<rparr>))"

definition show_tab_panel :: "nat \<Rightarrow> tabbar \<Rightarrow> tabbar" where
  "show_tab_panel i s =
     (if \<not> ts_allow s TabMayOpen (tp_id (ts_tabs s ! i)) then s
      else case selected_tab s of
             None \<Rightarrow> finish_open i s
           | Some j \<Rightarrow>
               if j = i then s
               else let s1 = unselect_tab (TabAt (int j)) s
                    in if selected_tab s1 \<noteq> None then s1 else finish_open i s1)"

definition select_tab :: "tab_key \<Rightarrow> tabbar \<Rightarrow> tabbar" where
  "select_tab key s =
     (case find_tab key s of None \<Rightarrow> s | Some i \<Rightarrow> if tp_open (ts_tabs s ! i) then s else show_tab_panel i s)"

section \<open>Adding, closing, updating\<close>

text \<open>The header part of \<open>_51\<close>: the item shows what the panel has.\<close>

definition draw_item :: "nat \<Rightarrow> tabbar \<Rightarrow> tabbar" where
  "draw_item i s =
     (let p = ts_tabs s ! i in set_item (tp_id p) (\<lambda>t. t\<lparr>ti_title := tp_title p, ti_close := tp_closable p\<rparr>) s)"

text \<open>\<open>_3c\<close>: the new tab and the place it has got\<close>

definition add_place :: "tab_options \<Rightarrow> tabbar \<Rightarrow> nat" where
  "add_place new s =
     (case to_index new of
        None \<Rightarrow> length (ts_tabs s)
      | Some i \<Rightarrow> if i > int (length (ts_tabs s)) then length (ts_tabs s) else if i < 0 then 0 else nat i)"

definition new_panel :: "tab_options \<Rightarrow> nat \<Rightarrow> tabpanel" where
  "new_panel new d =
     \<lparr>tp_id = d, tp_title = to_title new, tp_closable = to_closable new, tp_collapsible = to_collapsible new,
      tp_chosen = to_selected new, tp_open = False\<rparr>"

definition new_item :: "nat \<Rightarrow> tabitem" where
  "new_item d = \<lparr>ti_panel = d, ti_title = '''', ti_close = False, ti_selected = False, ti_disabled = False\<rparr>"

definition create_tab :: "tab_options \<Rightarrow> tabbar \<Rightarrow> tabbar" where
  "create_tab new s =
     (let k = add_place new s; d = ts_next s;
          s1 = s\<lparr>ts_next := d + 1, ts_tabs := insert_at k (new_panel new d) (ts_tabs s), ts_items := insert_at k (new_item d) (ts_items s)\<rparr>
      in tab_note (TabUpdated (to_title new) k) (draw_item k s1))"

text \<open>\<open>_4b\<close>\<close>

definition add_tab :: "tab_options \<Rightarrow> tabbar \<Rightarrow> tabbar" where
  "add_tab new s =
     (let k = add_place new s; s1 = tab_note (TabAdded (to_title new) k) (create_tab new s)
      in if to_selected new then select_tab (TabAt (int k)) s1 else s1)"

text \<open>\<open>_5a\<close>: the tab goes with its item and with the history entries of its title; then the entry taken from the history is selected.\<close>

definition drop_tab :: "nat \<Rightarrow> tabbar \<Rightarrow> tabbar" where
  "drop_tab i s =
     (let p = ts_tabs s ! i
      in tab_note (TabClosed (tp_title p) i)
           (s\<lparr>ts_tabs := remove_at i (ts_tabs s), ts_items := filter (\<lambda>t. ti_panel t \<noteq> tp_id p) (ts_items s)\<rparr>))"

definition pop_history :: "tabbar \<Rightarrow> tabbar" where
  "pop_history s =
     (if ts_history s \<noteq> [] \<and> last (ts_history s) \<noteq> ''''
      then select_tab (TabNamed (last (ts_history s))) (s\<lparr>ts_history := butlast (ts_history s)\<rparr>)
      else let s1 = s\<lparr>ts_history := butlast (ts_history s)\<rparr>
           in if ts_tabs s1 \<noteq> [] then select_tab (TabAt 0) s1 else s1)"

definition close_tab :: "tab_key \<Rightarrow> tabbar \<Rightarrow> tabbar" where
  "close_tab key s =
     (case find_tab key s of
        None \<Rightarrow> s
      | Some i \<Rightarrow>
          let p = ts_tabs s ! i
          in if \<not> ts_allow s TabMayClose (tp_id p) then s
             else let s1 = drop_tab i s
                  in pop_history (s1\<lparr>ts_history := filter (\<lambda>t. t \<noteq> tp_title p) (ts_history s1)\<rparr>))"

text \<open>
  \<open>_51\<close>: the options of the panel are replaced for the type "all" only; for "body", the test
  \<open>_53=="body"\<close> compares the wrong value and the title is read from an undefined variable.
\<close>

definition given :: "'a option \<Rightarrow> 'a \<Rightarrow> 'a" where
  "given x old = (case x of None \<Rightarrow> old | Some v \<Rightarrow> v)"

definition rename_history :: "string \<Rightarrow> string \<Rightarrow> string list \<Rightarrow> string list" where
  "rename_history old title hs = map (\<lambda>h. if h = old then title else h) hs"

datatype update_type = UpdateAll | UpdateHeader | UpdateBody

definition update_tab :: "nat \<Rightarrow> update_type \<Rightarrow> tab_change \<Rightarrow> tabbar \<Rightarrow> tabbar option" where
  "update_tab i ty new s =
     (if ty = UpdateBody then None
      else let p = ts_tabs s ! i; old = tp_title p;
               s1 = (if ty = UpdateAll
                     then set_panel (tp_id p)
                            (\<lambda>q. q\<lparr>tp_title := given (tc_title new) (tp_title q), tp_closable := given (tc_closable new) (tp_closable q),
                                     tp_collapsible := given (tc_collapsible new) (tp_collapsible q)\<rparr>) s
                     else s);
               title = tp_title (ts_tabs s1 ! i);
               s2 = draw_item i s1;
               s3 = (if old \<noteq> title then s2\<lparr>ts_history := rename_history old title (ts_history s2)\<rparr> else s2)
           in Some (tab_note (TabUpdated title i) s3))"

text \<open>\<open>enableTab\<close> and \<open>disableTab\<close>: an error if there is no such tab\<close>

definition disable_tab :: "bool \<Rightarrow> tab_key \<Rightarrow> tabbar \<Rightarrow> tabbar option" where
  "disable_tab b key s =
     (case find_tab key s of
        None \<Rightarrow> None
      | Some i \<Rightarrow> Some (set_item (tp_id (ts_tabs s ! i)) (\<lambda>t. t\<lparr>ti_disabled := b\<rparr>) s))"

section \<open>Events\<close>

text \<open>\<open>_2e\<close>: a click on the k-th header item, on its closing mark or beside it\<close>

definition click_item :: "nat \<Rightarrow> bool \<Rightarrow> tabbar \<Rightarrow> tabbar" where
  "click_item k on_close s =
     (if k \<ge> length (ts_items s) \<or> ti_disabled (ts_items s ! k) then s
      else if on_close \<and> ti_close (ts_items s ! k) then close_tab (TabAt (int k)) s
      else if tp_collapsible (ts_tabs s ! k)
      then (if \<not> tp_open (ts_tabs s ! k) then select_tab (TabAt (int k)) s else unselect_tab (TabAt (int k)) s)
      else select_tab (TabAt (int k)) s)"

text \<open>\<open>_6d\<close>: the first tab marked selected is opened, or the one of the option\<close>

definition open_chosen :: "int \<Rightarrow> tabbar \<Rightarrow> tabbar" where
  "open_chosen sel s =
     (case find_index tp_chosen (ts_tabs s) of None \<Rightarrow> select_tab (TabAt sel) s | Some i \<Rightarrow> select_tab (TabAt (int i)) s)"

datatype tab_event = TabClick nat bool | TabSelect tab_key | TabUnselect tab_key | TabAdd tab_options | TabClose tab_key
  | TabUpdate tab_key update_type tab_change | TabEnable tab_key | TabDisable tab_key
  | TabReinit int

definition tab_step :: "tabbar \<Rightarrow> tab_event \<Rightarrow> tabbar option" where
  "tab_step s e =
     (case e of
        TabClick k c \<Rightarrow> Some (click_item k c s)
      | TabSelect key \<Rightarrow> Some (select_tab key s)
      | TabUnselect key \<Rightarrow> Some (unselect_tab key s)
      | TabAdd new \<Rightarrow> Some (add_tab new s)
      | TabClose key \<Rightarrow> Some (close_tab key s)
      | TabUpdate key ty new \<Rightarrow> (case find_tab key s of None \<Rightarrow> None | Some i \<Rightarrow> update_tab i ty new s)
      | TabEnable key \<Rightarrow> disable_tab False key s
      | TabDisable key \<Rightarrow> disable_tab True key s
      | TabReinit sel \<Rightarrow> Some (open_chosen sel s))"

text \<open>\<open>_28\<close>: a tab for every child\<close>

definition init_tabs :: "(tab_hook \<Rightarrow> nat \<Rightarrow> bool) \<Rightarrow> int \<Rightarrow> tab_options list \<Rightarrow> tabbar" where
  "init_tabs allow sel os =
     open_chosen sel (fold create_tab os
       \<lparr>ts_tabs = [], ts_items = [], ts_history = [], ts_next = 0, ts_allow = allow, ts_log = []\<rparr>)"

section \<open>Header and panels in step\<close>

definition shows_tab :: "tabitem \<Rightarrow> tabpanel \<Rightarrow> bool" where
  "shows_tab t p = (ti_panel t = tp_id p \<and> ti_title t = tp_title p \<and> ti_close t = tp_closable p \<and> ti_selected t = tp_open p)"

definition one_open :: "tabpanel list \<Rightarrow> bool" where
  "one_open ps = (\<forall>i < length ps. \<forall>j < length ps. tp_open (ps ! i) \<longrightarrow> tp_open (ps ! j) \<longrightarrow> i = j)"

definition tab_ids :: "tabbar \<Rightarrow> nat list" where
  "tab_ids s = map tp_id (ts_tabs s)"

definition tab_titles :: "tabbar \<Rightarrow> string list" where
  "tab_titles s = map tp_title (ts_tabs s)"

definition tabs_ok :: "tabbar \<Rightarrow> bool" where
  "tabs_ok s = (list_all2 shows_tab (ts_items s) (ts_tabs s) \<and> distinct (tab_ids s) \<and> (\<forall>d \<in> set (tab_ids s). d < ts_next s)
     \<and> one_open (ts_tabs s) \<and> set (ts_history s) \<subseteq> set (tab_titles s))"

lemma set_frame [simp]:
  "ts_allow (set_item d f s) = ts_allow s" "ts_tabs (set_item d f s) = ts_tabs s" "ts_history (set_item d f s) = ts_history s"
  by (simp_all add: set_item_def)

lemma find_tab_range: "find_tab key s = Some i \<Longrightarrow> i < length (ts_tabs s)"
  by (auto simp: find_tab_def dest: find_index_Some split: tab_key.splits if_splits)

lemma tab_note_ok [simp]:
  "tabs_ok (tab_note n s) = tabs_ok s" "ts_tabs (tab_note n s) = ts_tabs s" "ts_items (tab_note n s) = ts_items s"
  "ts_history (tab_note n s) = ts_history s" "ts_next (tab_note n s) = ts_next s" "ts_allow (tab_note n s) = ts_allow s"
  by (simp_all add: tab_note_def tabs_ok_def tab_ids_def tab_titles_def)

lemma tabs_okD:
  assumes "tabs_ok s"
  shows "length (ts_items s) = length (ts_tabs s)" "i < length (ts_tabs s) \<Longrightarrow> shows_tab (ts_items s ! i) (ts_tabs s ! i)"
    and "i < length (ts_tabs s) \<Longrightarrow> j < length (ts_tabs s) \<Longrightarrow> tp_id (ts_tabs s ! i) = tp_id (ts_tabs s ! j) \<longleftrightarrow> i = j"
    and "i < length (ts_tabs s) \<Longrightarrow> j < length (ts_tabs s) \<Longrightarrow> ti_panel (ts_items s ! i) = tp_id (ts_tabs s ! j) \<longleftrightarrow> i = j"
    and "i < length (ts_tabs s) \<Longrightarrow> tp_id (ts_tabs s ! i) < ts_next s"
proof -
  have l: "length (ts_items s) = length (ts_tabs s)" "\<And>i. i < length (ts_tabs s) \<Longrightarrow> shows_tab (ts_items s ! i) (ts_tabs s ! i)"
    using assms by (auto simp: tabs_ok_def list_all2_conv_all_nth)
  have d: "\<And>i j. i < length (ts_tabs s) \<Longrightarrow> j < length (ts_tabs s) \<Longrightarrow> tp_id (ts_tabs s ! i) = tp_id (ts_tabs s ! j) \<longleftrightarrow> i = j"
    using assms by (auto simp: tabs_ok_def tab_ids_def distinct_conv_nth)
  show "length (ts_items s) = length (ts_tabs s)" "i < length (ts_tabs s) \<Longrightarrow> shows_tab (ts_items s ! i) (ts_tabs s ! i)"
    "i < length (ts_tabs s) \<Longrightarrow> j < length (ts_tabs s) \<Longrightarrow> tp_id (ts_tabs s ! i) = tp_id (ts_tabs s ! j) \<longleftrightarrow> i = j"
    "i < length (ts_tabs s) \<Longrightarrow> j < length (ts_tabs s) \<Longrightarrow> ti_panel (ts_items s ! i) = tp_id (ts_tabs s ! j) \<longleftrightarrow> i = j"
    using l d by (simp_all add: shows_tab_def)
  show "i < length (ts_tabs s) \<Longrightarrow> tp_id (ts_tabs s ! i) < ts_next s"
    using assms by (simp add: tabs_ok_def tab_ids_def)
qed

text \<open>Writing to the panel or item of a tab is writing to its position.\<close>

lemma map_if_update: "i < length xs \<Longrightarrow> (\<And>j. j < length xs \<Longrightarrow> P (xs ! j) \<longleftrightarrow> j = i) \<Longrightarrow> map (\<lambda>x. if P x then f x else x) xs = xs[i := f (xs ! i)]"
  by (rule nth_equalityI) (auto simp: nth_list_update)

lemma set_at:
  assumes "tabs_ok s" "i < length (ts_tabs s)"
  shows "set_panel (tp_id (ts_tabs s ! i)) g s = s\<lparr>ts_tabs := (ts_tabs s)[i := g (ts_tabs s ! i)]\<rparr>"
    and "set_item (tp_id (ts_tabs s ! i)) f s = s\<lparr>ts_items := (ts_items s)[i := f (ts_items s ! i)]\<rparr>"
proof -
  have "map (\<lambda>p. if tp_id p = tp_id (ts_tabs s ! i) then g p else p) (ts_tabs s) = (ts_tabs s)[i := g (ts_tabs s ! i)]"
    by (rule map_if_update) (simp_all add: assms tabs_okD(3) [OF assms(1)])
  then show "set_panel (tp_id (ts_tabs s ! i)) g s = s\<lparr>ts_tabs := (ts_tabs s)[i := g (ts_tabs s ! i)]\<rparr>" by (simp add: set_panel_def)
  have "map (\<lambda>t. if ti_panel t = tp_id (ts_tabs s ! i) then f t else t) (ts_items s) = (ts_items s)[i := f (ts_items s ! i)]"
    by (rule map_if_update) (simp_all add: assms tabs_okD(1,4) [OF assms(1)])
  then show "set_item (tp_id (ts_tabs s ! i)) f s = s\<lparr>ts_items := (ts_items s)[i := f (ts_items s ! i)]\<rparr>" by (simp add: set_item_def)
qed

definition put_tab :: "nat \<Rightarrow> tabitem \<Rightarrow> tabpanel \<Rightarrow> tabbar \<Rightarrow> tabbar" where
  "put_tab i t p s = s\<lparr>ts_items := (ts_items s)[i := t], ts_tabs := (ts_tabs s)[i := p]\<rparr>"

lemma put_tab_simps [simp]:
  "ts_tabs (put_tab i t p s) = (ts_tabs s)[i := p]" "ts_history (put_tab i t p s) = ts_history s" "ts_allow (put_tab i t p s) = ts_allow s"
  by (simp_all add: put_tab_def)

lemma set_both:
  assumes "tabs_ok s" "i < length (ts_tabs s)"
  shows "set_panel (tp_id (ts_tabs s ! i)) g (set_item (tp_id (ts_tabs s ! i)) f s) = put_tab i (f (ts_items s ! i)) (g (ts_tabs s ! i)) s"
  using arg_cong [OF set_at(1) [OF assms, where g = g], of ts_tabs] set_at(2) [OF assms, where f = f] by (simp add: put_tab_def set_panel_def)

lemma put_tab_ok:
  assumes "tabs_ok s" "i < length (ts_tabs s)" "shows_tab t p" "tp_id p = tp_id (ts_tabs s ! i)" "tp_title p = tp_title (ts_tabs s ! i)"
    and "tp_open p \<longrightarrow> (\<forall>j < length (ts_tabs s). tp_open (ts_tabs s ! j) \<longrightarrow> j = i)"
  shows "tabs_ok (put_tab i t p s)"
proof -
  have "map tp_id ((ts_tabs s)[i := p]) = map tp_id (ts_tabs s)" "map tp_title ((ts_tabs s)[i := p]) = map tp_title (ts_tabs s)"
    using assms(2,4,5) by (auto simp: map_update intro!: list_update_same_conv [THEN iffD2])
  moreover have "one_open ((ts_tabs s)[i := p])"
    using assms(1,2,6) by (auto simp: one_open_def tabs_ok_def nth_list_update split: if_splits)
  ultimately show ?thesis
    using assms(1,3) by (simp add: tabs_ok_def put_tab_def tab_ids_def tab_titles_def list_all2_update_cong)
qed

lemma item_selected_open:
  assumes "tabs_ok s" "p \<in> set (ts_tabs s)"
  shows "item_selected (tp_id p) s = tp_open p"
proof -
  obtain i where i: "i < length (ts_tabs s)" "p = ts_tabs s ! i" using assms(2) by (auto simp: in_set_conv_nth)
  have "item_selected (tp_id p) s \<longleftrightarrow> (\<exists>j < length (ts_tabs s). ti_panel (ts_items s ! j) = tp_id (ts_tabs s ! i) \<and> ti_selected (ts_items s ! j))"
    using tabs_okD(1) [OF assms(1)] by (simp add: item_selected_def list_ex_length i(2))
  also have "\<dots> \<longleftrightarrow> ti_selected (ts_items s ! i)"
    using tabs_okD(4) [OF assms(1) _ i(1)] i(1) by blast
  finally show ?thesis using tabs_okD(2) [OF assms(1) i(1)] i(2) by (simp add: shows_tab_def)
qed

lemma selected_tab_open: "tabs_ok s \<Longrightarrow> selected_tab s = find_index tp_open (ts_tabs s)"
  unfolding selected_tab_def by (rule find_index_cong) (simp_all add: item_selected_open)

lemma one_open_find: "one_open ps \<Longrightarrow> i < length ps \<Longrightarrow> tp_open (ps ! i) \<Longrightarrow> find_index tp_open ps = Some i"
  by (rule find_index_SomeI) (simp_all, metis less_irrefl order_less_trans one_open_def)

lemma closed_if_none: "tabs_ok s \<Longrightarrow> selected_tab s = None \<Longrightarrow> j < length (ts_tabs s) \<Longrightarrow> \<not> tp_open (ts_tabs s ! j)"
  by (simp add: selected_tab_open find_index_None)

section \<open>Selecting keeps them in step\<close>

lemma hide_tab_panel_at:
  assumes "tabs_ok s" "i < length (ts_tabs s)"
  shows "hide_tab_panel i s = (if \<not> ts_allow s TabMayHide (tp_id (ts_tabs s ! i)) then s
    else tab_note (TabUnselected (tp_title (ts_tabs s ! i)) i)
           (put_tab i ((ts_items s ! i)\<lparr>ti_selected := False\<rparr>) ((ts_tabs s ! i)\<lparr>tp_open := False\<rparr>) s))"
  by (simp add: hide_tab_panel_def Let_def set_both [OF assms])

lemma hide_tab_panel_ok:
  assumes "tabs_ok s" "i < length (ts_tabs s)"
  shows "tabs_ok (hide_tab_panel i s)"
  using assms tabs_okD(2) [OF assms] unfolding hide_tab_panel_at [OF assms]
  by (auto simp: shows_tab_def intro!: put_tab_ok)

lemma unselect_tab_ok: "tabs_ok s \<Longrightarrow> tabs_ok (unselect_tab key s)"
  by (auto simp: unselect_tab_def hide_tab_panel_ok find_tab_range split: option.splits)

lemma finish_open_at:
  assumes "tabs_ok s" "i < length (ts_tabs s)"
  shows "finish_open i s = tab_note (TabSelected (tp_title (ts_tabs s ! i)) i)
    ((put_tab i ((ts_items s ! i)\<lparr>ti_selected := True\<rparr>) ((ts_tabs s ! i)\<lparr>tp_open := True\<rparr>) s)\<lparr>ts_history := ts_history s @ [tp_title (ts_tabs s ! i)]\<rparr>)"
  by (simp add: finish_open_def Let_def set_both [OF assms])

lemma history_ok: "tabs_ok s \<Longrightarrow> set h \<subseteq> set (tab_titles s) \<Longrightarrow> tabs_ok (s\<lparr>ts_history := h\<rparr>)"
  by (simp add: tabs_ok_def tab_ids_def tab_titles_def)

lemma finish_open_ok:
  assumes "tabs_ok s" "i < length (ts_tabs s)" "\<And>j. j < length (ts_tabs s) \<Longrightarrow> \<not> tp_open (ts_tabs s ! j)"
  shows "tabs_ok (finish_open i s)"
proof -
  have "tabs_ok (put_tab i ((ts_items s ! i)\<lparr>ti_selected := True\<rparr>) ((ts_tabs s ! i)\<lparr>tp_open := True\<rparr>) s)"
    using assms tabs_okD(2) [OF assms(1,2)] by (auto simp: shows_tab_def intro!: put_tab_ok)
  moreover have "tp_title (ts_tabs s ! i) \<in> set (map tp_title (ts_tabs s))" using assms(2) by simp
  then have "set (ts_history s @ [tp_title (ts_tabs s ! i)]) \<subseteq> set ((map tp_title (ts_tabs s))[i := tp_title (ts_tabs s ! i)])"
    using assms(1,2) by (simp add: tabs_ok_def tab_titles_def list_update_same_conv [THEN iffD2])
  ultimately show ?thesis
    unfolding finish_open_at [OF assms(1,2)] by (simp add: history_ok tab_titles_def map_update)
qed

lemma hide_tab_panel_frame [simp]: "length (ts_tabs (hide_tab_panel i s)) = length (ts_tabs s)" "ts_allow (hide_tab_panel i s) = ts_allow s"
  "ts_history (hide_tab_panel i s) = ts_history s"
  by (simp_all add: hide_tab_panel_def Let_def set_panel_def set_item_def)

lemma unselect_frame [simp]: "length (ts_tabs (unselect_tab key s)) = length (ts_tabs s)" "ts_allow (unselect_tab key s) = ts_allow s"
  "ts_history (unselect_tab key s) = ts_history s"
  by (simp_all add: unselect_tab_def split: option.split)

lemma show_tab_panel_ok:
  assumes "tabs_ok s" "i < length (ts_tabs s)"
  shows "tabs_ok (show_tab_panel i s)"
proof -
  have "tabs_ok (if selected_tab u \<noteq> None then u else finish_open i u)" if "tabs_ok u" "length (ts_tabs u) = length (ts_tabs s)" for u
    using that assms(2) finish_open_ok [OF that(1), of i] closed_if_none [OF that(1)] by auto
  from this [OF assms(1)] this [OF unselect_tab_ok [OF assms(1)]] show ?thesis
    using assms(1) by (auto simp: show_tab_panel_def Let_def split: option.split)
qed

lemma select_tab_ok: "tabs_ok s \<Longrightarrow> tabs_ok (select_tab key s)"
  by (auto simp: select_tab_def show_tab_panel_ok find_tab_range split: option.splits)


section \<open>Adding, closing and updating keep them in step\<close>

lemma one_open_filter: "one_open ps \<longleftrightarrow> length (filter tp_open ps) \<le> 1"
  by (simp add: one_open_def at_most_one_filter)

lemma length_filter_insert_at: "length (filter P (insert_at k x xs)) = (if P x then 1 else 0) + length (filter P xs)"
proof -
  have "length (filter P (take k xs)) + length (filter P (drop k xs)) = length (filter P (take k xs @ drop k xs))"
    by (simp only: filter_append length_append)
  then show ?thesis by (simp add: insert_at_def)
qed

lemma map_insert_at: "map f (insert_at k x xs) = insert_at k (f x) (map f xs)"
  by (simp add: insert_at_def take_map drop_map)

lemma distinct_insert_new: "distinct xs \<Longrightarrow> x \<notin> set xs \<Longrightarrow> distinct (insert_at k x xs)"
  by (auto simp: insert_at_def dest: in_set_takeD in_set_dropD set_take_disj_set_drop_if_distinct [of _ k k])

lemma add_place_le: "add_place new s \<le> length (ts_tabs s)"
  by (auto simp: add_place_def split: option.split)

lemma create_tab_at:
  assumes "tabs_ok s"
  shows "create_tab new s = tab_note (TabUpdated (to_title new) (add_place new s))
      (s\<lparr>ts_next := ts_next s + 1, ts_tabs := insert_at (add_place new s) (new_panel new (ts_next s)) (ts_tabs s),
         ts_items := insert_at (add_place new s) ((new_item (ts_next s))\<lparr>ti_title := to_title new, ti_close := to_closable new\<rparr>) (ts_items s)\<rparr>)"
proof -
  have "\<forall>u \<in> set (ts_items s). ti_panel u < ts_next s"
    using tabs_okD(1,2,5) [OF assms(1)] by (auto simp: in_set_conv_nth shows_tab_def)
  then have "map (\<lambda>u. if ti_panel u = ts_next s then u\<lparr>ti_title := x, ti_close := y\<rparr> else u) us = us" if "set us \<subseteq> set (ts_items s)" for x y us
    using that by (intro map_idI) (metis in_mono less_irrefl)
  then have "map (\<lambda>u. if ti_panel u = ts_next s then u\<lparr>ti_title := x, ti_close := y\<rparr> else u) (insert_at k (new_item (ts_next s)) (ts_items s))
      = insert_at k ((new_item (ts_next s))\<lparr>ti_title := x, ti_close := y\<rparr>) (ts_items s)" for x y k
    by (simp add: insert_at_def new_item_def set_take_subset set_drop_subset)
  then show ?thesis
    by (simp add: create_tab_def Let_def draw_item_def nth_insert_at [OF add_place_le] set_item_def) (simp add: nth_insert_at [OF add_place_le] new_panel_def)
qed

lemma create_tab_ok:
  assumes "tabs_ok s"
  shows "tabs_ok (create_tab new s)"
proof -
  have lt: "d < ts_next s" if "d \<in> set (tab_ids s)" for d using assms that by (simp add: tabs_ok_def)
  then have "distinct (insert_at k (ts_next s) (tab_ids s))" for k
    using assms by (intro distinct_insert_new) (auto simp: tabs_ok_def)
  with lt show ?thesis
    using assms add_place_le [of new s] unfolding create_tab_at [OF assms, of new]
    by (auto simp: tabs_ok_def tab_ids_def tab_titles_def list_all2_insert_at shows_tab_def map_insert_at one_open_filter length_filter_insert_at
        new_panel_def new_item_def less_Suc_eq)
qed

lemma add_tab_ok: "tabs_ok s \<Longrightarrow> tabs_ok (add_tab new s)"
  by (simp add: add_tab_def Let_def create_tab_ok select_tab_ok)

lemma filter_items:
  assumes "tabs_ok s" "i < length (ts_tabs s)"
  shows "filter (\<lambda>t. ti_panel t \<noteq> tp_id (ts_tabs s ! i)) (ts_items s) = remove_at i (ts_items s)"
proof -
  note l = tabs_okD(1) [OF assms(1)] and d = tabs_okD(4) [OF assms(1) _ assms(2)]
  have i: "i < length (ts_items s)" using l assms(2) by simp
  have "filter P (take i (ts_items s)) = take i (ts_items s)" "filter P (drop (Suc i) (ts_items s)) = drop (Suc i) (ts_items s)"
    if "P = (\<lambda>t. ti_panel t \<noteq> tp_id (ts_tabs s ! i))" for P
    using l d assms(2) that by (auto simp: filter_id_conv in_set_conv_nth)
  moreover have "ti_panel (ts_items s ! i) = tp_id (ts_tabs s ! i)" using d [of i] assms(2) by simp
  ultimately show ?thesis
    by (subst id_take_nth_drop [OF i]) (simp add: remove_at_def)
qed

lemma drop_tab_at:
  assumes "tabs_ok s" "i < length (ts_tabs s)"
  shows "drop_tab i s = tab_note (TabClosed (tp_title (ts_tabs s ! i)) i) (s\<lparr>ts_tabs := remove_at i (ts_tabs s), ts_items := remove_at i (ts_items s)\<rparr>)"
  by (simp add: drop_tab_def Let_def filter_items [OF assms])

lemma list_all2_remove_at: "list_all2 P ts ps \<Longrightarrow> list_all2 P (remove_at k ts) (remove_at k ps)"
  by (auto simp: remove_at_def intro!: list_all2_appendI dest: list_all2_takeI list_all2_dropI)

lemma dropped_ok:
  assumes "tabs_ok s" "i < length (ts_tabs s)"
  shows "tabs_ok ((drop_tab i s)\<lparr>ts_history := filter (\<lambda>t. t \<noteq> tp_title (ts_tabs s ! i)) (ts_history s)\<rparr>)"
proof -
  have "length (filter tp_open (remove_at i (ts_tabs s))) \<le> length (filter tp_open (ts_tabs s))" by (rule length_filter_remove_at)
  then have "one_open (remove_at i (ts_tabs s))" using assms(1) by (simp add: tabs_ok_def one_open_filter)
  moreover have "set (filter (\<lambda>t. t \<noteq> xs ! i) h) \<subseteq> set (remove_at i xs)" if "set h \<subseteq> set xs" "i < length xs" for h and xs :: "string list"
  proof -
    have "set xs = set (take i xs) \<union> {xs ! i} \<union> set (drop (Suc i) xs)"
      using arg_cong [OF id_take_nth_drop [OF that(2)], of set] by simp
    with that(1) show ?thesis by (auto simp: remove_at_def)
  qed
  from this [of "ts_history s" "tab_titles s"]
  have "set (filter (\<lambda>t. t \<noteq> tp_title (ts_tabs s ! i)) (ts_history s)) \<subseteq> set (remove_at i (map tp_title (ts_tabs s)))"
    using assms by (simp add: tabs_ok_def tab_titles_def)
  moreover have "set (remove_at i (map tp_id (ts_tabs s))) \<subseteq> set (map tp_id (ts_tabs s))" by (rule set_remove_at_subset)
  ultimately show ?thesis
    using assms(1) unfolding drop_tab_at [OF assms]
    by (auto simp: tabs_ok_def tab_note_def tab_ids_def tab_titles_def map_remove_at list_all2_remove_at distinct_remove_at)
qed

lemma pop_history_ok:
  assumes "tabs_ok s"
  shows "tabs_ok (pop_history s)"
proof -
  have "set (butlast (ts_history s)) \<subseteq> set (tab_titles s)"
    using assms by (auto simp: tabs_ok_def dest: in_set_butlastD)
  from history_ok [OF assms this] show ?thesis
    by (cases "ts_history s = []") (simp_all add: pop_history_def Let_def select_tab_ok)
qed

lemma close_tab_ok: "tabs_ok s \<Longrightarrow> tabs_ok (close_tab key s)"
proof -
  assume s: "tabs_ok s"
  have "tabs_ok (pop_history ((drop_tab i s)\<lparr>ts_history := filter (\<lambda>t. t \<noteq> tp_title (ts_tabs s ! i)) (ts_history (drop_tab i s))\<rparr>))"
    if "find_tab key s = Some i" for i
  proof -
    have "ts_history (drop_tab i s) = ts_history s" by (simp add: drop_tab_def Let_def)
    with pop_history_ok [OF dropped_ok [OF s find_tab_range [OF that]]] show ?thesis by simp
  qed
  then show ?thesis using s by (auto simp: close_tab_def Let_def split: option.split)
qed


lemma update_tab_ok:
  assumes "tabs_ok s" "i < length (ts_tabs s)" "update_tab i ty new s = Some s'"
  shows "tabs_ok s'"
proof -
  define p where "p = ts_tabs s ! i"
  define q where "q = (if ty = UpdateAll then p\<lparr>tp_title := given (tc_title new) (tp_title p), tp_closable := given (tc_closable new) (tp_closable p),
      tp_collapsible := given (tc_collapsible new) (tp_collapsible p)\<rparr> else p)"
  define t where "t = (ts_items s ! i)\<lparr>ti_title := tp_title q, ti_close := tp_closable q\<rparr>"
  define h where "h = map (\<lambda>x. if x = tp_title p then tp_title q else x) (ts_history s)"
  have s1: "(if ty = UpdateAll then set_panel (tp_id p) (\<lambda>q. q\<lparr>tp_title := given (tc_title new) (tp_title q), tp_closable := given (tc_closable new) (tp_closable q),
      tp_collapsible := given (tc_collapsible new) (tp_collapsible q)\<rparr>) s else s) = s\<lparr>ts_tabs := (ts_tabs s)[i := q]\<rparr>"
    by (simp add: p_def q_def set_at(1) [OF assms(1,2)])
  have same: "tp_id q = tp_id p" "tp_open q = tp_open p" by (simp_all add: q_def)
  have draw: "draw_item i (s\<lparr>ts_tabs := (ts_tabs s)[i := q]\<rparr>) = put_tab i t q s"
    using arg_cong [OF set_at(2) [OF assms(1,2), of "\<lambda>t. t\<lparr>ti_title := tp_title q, ti_close := tp_closable q\<rparr>"], of ts_items] assms(2) same(1)
    by (simp add: draw_item_def Let_def put_tab_def set_item_def t_def p_def)
  have hist: "map (\<lambda>x. if x = tp_title p then tp_title q else x) xs = xs" if "tp_title p = tp_title q" for xs
    using that by (intro map_idI) auto
  have s': "s' = tab_note (TabUpdated (tp_title q) i) ((put_tab i t q s)\<lparr>ts_history := h\<rparr>)"
  proof (cases "tp_title p = tp_title q")
    case True
    then have "h = ts_history s" by (simp add: h_def hist)
    moreover have "(put_tab i t q s)\<lparr>ts_history := ts_history s\<rparr> = put_tab i t q s" by (simp add: put_tab_def)
    ultimately have "(put_tab i t q s)\<lparr>ts_history := h\<rparr> = put_tab i t q s" by (simp only:)
    with True show ?thesis
      using assms(2,3) unfolding update_tab_def Let_def p_def [symmetric] s1
      by (simp add: draw split: if_splits)
  next
    case False
    then show ?thesis
      using assms(2,3) unfolding update_tab_def Let_def p_def [symmetric] s1
      by (simp add: draw h_def rename_history_def cong: if_cong split: if_splits)
  qed
  have old: "shows_tab (ts_items s ! i) p" "p \<in> set (ts_tabs s)" using tabs_okD(2) [OF assms(1,2)] assms(2) by (simp_all add: p_def)
  have ids: "(map tp_id (ts_tabs s))[i := tp_id q] = map tp_id (ts_tabs s)"
    using assms(2) same(1) by (simp add: p_def list_update_same_conv)
  have "set h \<subseteq> set ((map tp_title (ts_tabs s))[i := tp_title q])"
  proof
    fix y assume "y \<in> set h"
    then obtain x where x: "x \<in> set (ts_history s)" "y = (if x = tp_title p then tp_title q else x)" by (auto simp: h_def)
    show "y \<in> set ((map tp_title (ts_tabs s))[i := tp_title q])"
    proof (cases "x = tp_title p")
      case True
      then show ?thesis using x(2) assms(2) by (simp add: set_update_memI)
    next
      case False
      have "x \<in> set (map tp_title (ts_tabs s))" using x(1) assms(1) by (auto simp: tabs_ok_def tab_titles_def)
      then obtain j where "j < length (ts_tabs s)" "x = tp_title (ts_tabs s ! j)" by (auto simp: in_set_conv_nth)
      with False x(2) assms(2) show ?thesis by (auto simp: in_set_conv_nth p_def nth_list_update intro!: exI [of _ j])
    qed
  qed
  moreover have "one_open ((ts_tabs s)[i := q])"
    using assms(1,2) same(2) by (auto simp: one_open_def tabs_ok_def nth_list_update p_def split: if_splits)
  moreover have "shows_tab t q" using old(1) same by (simp add: shows_tab_def t_def)
  ultimately show ?thesis
    using assms(1) by (simp add: s' tabs_ok_def put_tab_def tab_ids_def tab_titles_def ids map_update list_all2_update_cong)
qed

lemma disable_tab_ok:
  assumes "tabs_ok s" "disable_tab b key s = Some s'"
  shows "tabs_ok s'"
proof -
  from assms(2) obtain i where i: "find_tab key s = Some i" "s' = set_item (tp_id (ts_tabs s ! i)) (\<lambda>t. t\<lparr>ti_disabled := b\<rparr>) s"
    by (auto simp: disable_tab_def split: option.splits)
  note r = find_tab_range [OF i(1)]
  have "list_all2 shows_tab ((ts_items s)[i := (ts_items s ! i)\<lparr>ti_disabled := b\<rparr>]) ((ts_tabs s)[i := ts_tabs s ! i])"
    using assms(1) tabs_okD(2) [OF assms(1) r] by (intro list_all2_update_cong) (auto simp: tabs_ok_def shows_tab_def)
  then show ?thesis
    using assms(1) unfolding i(2) set_at(2) [OF assms(1) r] by (simp add: tabs_ok_def tab_ids_def tab_titles_def)
qed

lemma open_chosen_ok: "tabs_ok s \<Longrightarrow> tabs_ok (open_chosen sel s)"
  by (simp add: open_chosen_def select_tab_ok split: option.split)

lemma click_item_ok: "tabs_ok s \<Longrightarrow> tabs_ok (click_item k c s)"
  by (simp add: click_item_def select_tab_ok unselect_tab_ok close_tab_ok)

lemma tab_step_ok: "tabs_ok s \<Longrightarrow> tab_step s e = Some s' \<Longrightarrow> tabs_ok s'"
  by (cases e) (auto simp: tab_step_def click_item_ok select_tab_ok unselect_tab_ok add_tab_ok close_tab_ok open_chosen_ok
      intro: update_tab_ok disable_tab_ok find_tab_range split: option.splits)

lemma init_tabs_ok: "tabs_ok (init_tabs allow sel os)"
proof -
  have "tabs_ok s \<Longrightarrow> tabs_ok (fold create_tab os s)" for s
    by (induction os arbitrary: s) (simp_all add: create_tab_ok)
  moreover have "tabs_ok \<lparr>ts_tabs = [], ts_items = [], ts_history = [], ts_next = 0, ts_allow = allow, ts_log = []\<rparr>"
    by (simp add: tabs_ok_def one_open_def tab_ids_def tab_titles_def)
  ultimately show ?thesis by (simp add: init_tabs_def open_chosen_ok)
qed

interpretation tabs: partial_machine tab_step tabs_ok
  by unfold_locales (rule tab_step_ok)


section \<open>Without vetoes\<close>

definition no_veto :: "tabbar \<Rightarrow> bool" where
  "no_veto s = (\<forall>h d. ts_allow s h d)"

lemma select_allow: "ts_allow (select_tab key s) = ts_allow s"
  by (auto simp: select_tab_def show_tab_panel_def finish_open_def Let_def set_panel_def split: option.split)

definition only_open :: "nat \<Rightarrow> tabpanel list \<Rightarrow> tabpanel list" where
  "only_open k ps = map (\<lambda>j. (ps ! j)\<lparr>tp_open := (j = k)\<rparr>) [0..<length ps]"

lemma only_open_eqI:
  assumes "length qs = length ps"
    and "\<And>j. j < length ps \<Longrightarrow> j \<noteq> k \<Longrightarrow> qs ! j = (ps ! j)\<lparr>tp_open := False\<rparr>" "k < length ps \<Longrightarrow> qs ! k = (ps ! k)\<lparr>tp_open := True\<rparr>"
  shows "qs = only_open k ps"
  using assms by (intro nth_equalityI) (auto simp: only_open_def, metis)

lemma closed_same: "\<not> tp_open p \<Longrightarrow> p\<lparr>tp_open := False\<rparr> = p" and open_same: "tp_open p \<Longrightarrow> p\<lparr>tp_open := True\<rparr> = p"
  by (cases p; simp)+

lemma finish_effect:
  assumes "tabs_ok s" "i < length (ts_tabs s)" "\<And>j. j < length (ts_tabs s) \<Longrightarrow> \<not> tp_open (ts_tabs s ! j)"
  shows "ts_tabs (finish_open i s) = only_open i (ts_tabs s)" "ts_history (finish_open i s) = ts_history s @ [tp_title (ts_tabs s ! i)]"
    and "ts_allow (finish_open i s) = ts_allow s"
proof -
  show "ts_tabs (finish_open i s) = only_open i (ts_tabs s)"
    unfolding finish_open_at [OF assms(1,2)] by (rule only_open_eqI) (use assms in \<open>auto simp: closed_same nth_list_update\<close>)
qed (simp_all add: finish_open_at [OF assms(1,2)])

lemma select_effect:
  assumes "tabs_ok s" "no_veto s" "find_tab key s = Some i"
  shows "ts_tabs (select_tab key s) = only_open i (ts_tabs s)"
    "ts_history (select_tab key s) = (if tp_open (ts_tabs s ! i) then ts_history s else ts_history s @ [tp_title (ts_tabs s ! i)])"
    "ts_allow (select_tab key s) = ts_allow s"
proof (atomize(full), goal_cases)
  case 1
  have i: "i < length (ts_tabs s)" using find_tab_range [OF assms(3)] .
  have one: "\<not> tp_open (ts_tabs s ! k)" if "tp_open (ts_tabs s ! j)" "j < length (ts_tabs s)" "k < length (ts_tabs s)" "k \<noteq> j" for j k
    using assms(1) that unfolding tabs_ok_def one_open_def by blast
  show ?case
  proof (cases "tp_open (ts_tabs s ! i)")
    case True
    have "ts_tabs s = only_open i (ts_tabs s)"
      by (rule only_open_eqI) (use True one [OF True i] i in \<open>auto simp: closed_same open_same\<close>)
    with True assms(3) show ?thesis by (simp add: select_tab_def)
  next
    case False
    have eq: "select_tab key s = show_tab_panel i s" using assms(3) False by (simp add: select_tab_def)
    show ?thesis
    proof (cases "selected_tab s")
      case None
      from finish_effect [OF assms(1) i closed_if_none [OF assms(1) None]] None assms(2) False show ?thesis
        unfolding eq by (simp add: show_tab_panel_def no_veto_def)
    next
      case (Some j)
      then have "find_index tp_open (ts_tabs s) = Some j" using selected_tab_open [OF assms(1)] by simp
      from find_index_Some [OF this] have j: "j < length (ts_tabs s)" "tp_open (ts_tabs s ! j)" by simp_all
      define u where "u = hide_tab_panel j s"
      have un: "unselect_tab (TabAt (int j)) s = u" using j by (simp add: unselect_tab_def find_tab_def u_def)
      have u: "tabs_ok u" "ts_history u = ts_history s" "ts_allow u = ts_allow s" "ts_tabs u = (ts_tabs s)[j := (ts_tabs s ! j)\<lparr>tp_open := False\<rparr>]"
        using hide_tab_panel_ok [OF assms(1) j(1)] assms(2) by (simp_all add: u_def) (simp add: hide_tab_panel_at [OF assms(1) j(1)] no_veto_def)
      have closed: "\<not> tp_open (ts_tabs u ! k)" if "k < length (ts_tabs u)" for k
        using that j(1) one [OF j(2,1), of k] by (auto simp: u(4) nth_list_update)
      have ij: "i \<noteq> j" using j(2) False by auto
      have "selected_tab u = None" using closed by (auto simp: selected_tab_open [OF u(1)] find_index_None in_set_conv_nth)
      then have sh: "show_tab_panel i s = finish_open i u" using Some ij assms(2) by (simp add: show_tab_panel_def un Let_def no_veto_def)
      have iu: "i < length (ts_tabs u)" using i by (simp add: u(4))
      note f = finish_effect [OF u(1) iu closed]
      have "only_open i (ts_tabs u) = only_open i (ts_tabs s)"
        using j(1) by (intro nth_equalityI) (auto simp: only_open_def u(4) nth_list_update)
      then show ?thesis using f False ij unfolding eq sh by (simp add: u)
    qed
  qed
qed

text \<open>The tab shown after the i-th one has been closed\<close>

definition next_shown :: "nat \<Rightarrow> tabbar \<Rightarrow> nat" where
  "next_shown i s =
     (let h = filter (\<lambda>t. t \<noteq> tp_title (ts_tabs s ! i)) (ts_history s)
      in if h = [] \<or> last h = '''' then 0 else the (find_index (\<lambda>p. tp_title p = last h) (remove_at i (ts_tabs s))))"

lemma close_effect:
  assumes "tabs_ok s" "no_veto s" "find_tab key s = Some i" "length (ts_tabs s) \<noteq> 1"
  defines "rest \<equiv> remove_at i (ts_tabs s)" and "h \<equiv> filter (\<lambda>t. t \<noteq> tp_title (ts_tabs s ! i)) (ts_history s)"
  shows "ts_tabs (close_tab key s) = only_open (next_shown i s) rest" "next_shown i s < length rest"
    and "ts_history (close_tab key s) = (if tp_open (rest ! next_shown i s) then butlast h else butlast h @ [tp_title (rest ! next_shown i s)])"
    and "ts_allow (close_tab key s) = ts_allow s"
proof (atomize(full), goal_cases)
  case 1
  have i: "i < length (ts_tabs s)" using find_tab_range [OF assms(3)] .
  define u where "u = (drop_tab i s)\<lparr>ts_history := h\<rparr>"
  have u: "tabs_ok u" "ts_tabs u = rest" "ts_history u = h" "ts_allow u = ts_allow s"
    using dropped_ok [OF assms(1) i] by (simp_all add: u_def h_def rest_def) (simp_all add: drop_tab_def Let_def)
  have hd: "ts_history (drop_tab i s) = ts_history s" by (simp add: drop_tab_def Let_def)
  have close: "close_tab key s = pop_history u"
    using assms(2,3) by (simp add: close_tab_def Let_def no_veto_def u_def h_def hd)
  have rest: "rest \<noteq> []" "0 < length rest" using i assms(4) by (auto simp: rest_def remove_at_def)
  define v where "v = u\<lparr>ts_history := butlast h\<rparr>"
  have "set (butlast h) \<subseteq> set (tab_titles u)" using u(1,3) by (auto simp: tabs_ok_def dest: in_set_butlastD)
  from history_ok [OF u(1) this] have v: "tabs_ok v" "no_veto v" "ts_tabs v = rest" "ts_history v = butlast h" "ts_allow v = ts_allow s"
    using assms(2) u by (simp_all add: v_def no_veto_def)
  define key' where "key' = (if h \<noteq> [] \<and> last h \<noteq> '''' then TabNamed (last h) else TabAt 0)"
  have pop: "pop_history u = select_tab key' v"
    using rest u(2,3) by (simp add: pop_history_def Let_def key'_def v_def)
  have found: "find_tab key' v = Some (next_shown i s)"
  proof (cases "h \<noteq> [] \<and> last h \<noteq> ''''")
    case True
    then have "last h \<in> set (tab_titles u)" using u(1,3) last_in_set [of h] by (auto simp: tabs_ok_def)
    then have "find_index (\<lambda>p. tp_title p = last h) rest \<noteq> None" by (auto simp: find_index_None tab_titles_def u(2))
    with True show ?thesis by (auto simp: key'_def find_tab_def next_shown_def v(3) Let_def simp flip: h_def rest_def)
  next
    case False
    with rest show ?thesis by (auto simp: key'_def find_tab_def next_shown_def v(3) Let_def simp flip: h_def rest_def)
  qed
  from select_effect [OF v(1,2) found] find_tab_range [OF found] show ?case
    by (simp add: close pop v)
qed

section \<open>The properties\<close>

lemma tabs_run_ok: "run_events tab_step (init_tabs allow sel os) es = Some s \<Longrightarrow> tabs_ok s"
  by (rule tabs.inv_run [OF init_tabs_ok])

text \<open>
  C4. In every session of clicks, selecting, adding, closing, updating, enabling and disabling, the
  header items stand for the panels in their order with their titles, an item is marked selected
  exactly if its panel is open, at most one panel is open, and the history names only existing tabs.
\<close>

theorem tabs_session:
  assumes "run_events tab_step (init_tabs allow sel os) es = Some s"
  shows "map ti_panel (ts_items s) = map tp_id (ts_tabs s) \<and> map ti_title (ts_items s) = map tp_title (ts_tabs s)
    \<and> map ti_selected (ts_items s) = map tp_open (ts_tabs s) \<and> length (filter tp_open (ts_tabs s)) \<le> 1
    \<and> distinct (map tp_id (ts_tabs s)) \<and> set (ts_history s) \<subseteq> set (map tp_title (ts_tabs s))"
proof -
  have ok: "tabs_ok s" using tabs_run_ok [OF assms] .
  then have eq: "map f (ts_items s) = map g (ts_tabs s)" if "\<And>t p. shows_tab t p \<Longrightarrow> f t = g p" for f :: "tabitem \<Rightarrow> 'x" and g
    using that tabs_okD(1,2) [OF ok] by (intro nth_equalityI) auto
  have "map ti_panel (ts_items s) = map tp_id (ts_tabs s)" "map ti_title (ts_items s) = map tp_title (ts_tabs s)"
    "map ti_selected (ts_items s) = map tp_open (ts_tabs s)"
    by (rule eq; simp add: shows_tab_def)+
  with ok show ?thesis by (simp add: tabs_ok_def one_open_filter tab_ids_def tab_titles_def)
qed

definition named_tab :: "string \<Rightarrow> tab_options" where
  "named_tab t = \<lparr>to_title = t, to_closable = True, to_collapsible = False, to_index = None, to_selected = False\<rparr>"

definition sample_bar :: tabbar where
  "sample_bar = init_tabs (\<lambda>h d. True) 0 (map named_tab [''mail'', ''news'', ''files'', ''jobs''])"

definition sample_clicks :: "tab_event list" where
  "sample_clicks = [TabClick 1 False, TabDisable (TabNamed ''files''), TabClick 2 True, TabAdd ((named_tab ''log'')\<lparr>to_index := Some 1\<rparr>), TabClose (TabAt 0)]"

theorem tabs_session_witness:
  "map ti_title (ts_items (the (run_events tab_step sample_bar sample_clicks))) = [''log'', ''news'', ''files'', ''jobs'']
   \<and> map tp_title (ts_tabs (the (run_events tab_step sample_bar sample_clicks))) = [''log'', ''news'', ''files'', ''jobs'']
   \<and> map ti_selected (ts_items (the (run_events tab_step sample_bar sample_clicks))) = [False, True, False, False]"
proof -
  have "\<not> Option.is_none (run_events tab_step sample_bar sample_clicks)" by code_simp
  then have "run_events tab_step sample_bar sample_clicks = Some (the (run_events tab_step sample_bar sample_clicks))"
    by (cases "run_events tab_step sample_bar sample_clicks") simp_all
  note t = tabs_session [OF this [unfolded sample_bar_def], folded sample_bar_def]
  have "map ti_title (ts_items (the (run_events tab_step sample_bar sample_clicks))) = [''log'', ''news'', ''files'', ''jobs'']"
    "map ti_selected (ts_items (the (run_events tab_step sample_bar sample_clicks))) = [False, True, False, False]"
    by code_simp+
  with t show ?thesis by simp
qed

text \<open>
  Closing a tab of several shows the tab the history names last (entries of the closed title
  apart), or the first tab if there is none, and takes that entry from the history. If that tab is
  already shown, nothing puts the entry back: closing hidden tabs uses up the history, and the
  second of two hidden tabs that are closed takes the shown tab away.
\<close>

theorem close_shows_last_named:
  assumes "tabs_ok s" "no_veto s" "find_tab key s = Some i" "length (ts_tabs s) \<noteq> 1"
  defines "rest \<equiv> remove_at i (ts_tabs s)" and "h \<equiv> filter (\<lambda>t. t \<noteq> tp_title (ts_tabs s ! i)) (ts_history s)"
  shows "ts_tabs (close_tab key s) = only_open (next_shown i s) rest \<and> next_shown i s < length rest
    \<and> ts_history (close_tab key s) = (if tp_open (rest ! next_shown i s) then butlast h else butlast h @ [tp_title (rest ! next_shown i s)])"
  using close_effect [OF assms(1-4)] by (simp add: rest_def h_def)

theorem close_shows_last_named_witness:
  "map tp_open (ts_tabs (select_tab (TabAt 1) sample_bar)) = [False, True, False, False]
   \<and> map tp_open (ts_tabs (close_tab (TabAt 2) (select_tab (TabAt 1) sample_bar))) = [False, True, False]
   \<and> ts_history (close_tab (TabAt 2) (select_tab (TabAt 1) sample_bar)) = [''mail'']
   \<and> map tp_open (ts_tabs (close_tab (TabAt 2) (close_tab (TabAt 2) (select_tab (TabAt 1) sample_bar)))) = [True, False]"
proof -
  let ?s = "select_tab (TabAt 1) sample_bar"
  have ok: "tabs_ok ?s" "tabs_ok (close_tab (TabAt 2) ?s)" by (simp_all add: sample_bar_def init_tabs_ok select_tab_ok close_tab_ok)
  have "ts_allow (create_tab new t) = ts_allow t" for new t by (simp add: create_tab_def Let_def draw_item_def)
  then have nv: "no_veto sample_bar" by (simp add: sample_bar_def no_veto_def init_tabs_def open_chosen_def select_allow split: option.split)
  then have nv: "no_veto ?s" by (simp add: no_veto_def select_allow)
  have f: "find_tab (TabAt 2) ?s = Some 2" "length (ts_tabs ?s) \<noteq> 1" by code_simp+
  note c = close_shows_last_named [OF ok(1) nv f]
  have "map tp_open (ts_tabs ?s) = [False, True, False, False]" "map tp_open (only_open (next_shown 2 ?s) (remove_at 2 (ts_tabs ?s))) = [False, True, False]"
    "ts_history (close_tab (TabAt 2) ?s) = [''mail'']"
    "map tp_open (ts_tabs (close_tab (TabAt 2) (close_tab (TabAt 2) ?s))) = [True, False]"
    by code_simp+
  with c show ?thesis by simp
qed

end
