(* ===== verification/ComboBox.thy ===== *)
theory ComboBox
  imports TextBox
begin

text \<open>
  \<open>plugins/jquery.combobox.js\<close>: a combo whose panel lists the rows of a list. The rows, the
  items drawn for them and the headings of their groups are kept beside the state of the combo.
  An item can be seen when it is shown and the panel is open. The loader that fetches rows is
  outside: \<open>BoxLoad\<close> is its answer.
\<close>

section \<open>State\<close>

record box_row =
  br_value :: string
  br_text :: string
  br_group :: "string option"
  br_disabled :: bool
  br_selected :: bool

record box_item =
  bi_disabled :: bool
  bi_selected :: bool
  bi_hover :: bool
  bi_shown :: bool

datatype box_entry = BoxSelect string | BoxUnselect string | BoxLoaded nat | BoxAsk string

record combobox = combo +
  bx_rows :: "box_row list"
  bx_items :: "box_item list"
  bx_groups :: "string list"
  bx_headings :: "bool list"
  bx_grouped :: bool
  bx_remote :: bool
  bx_selectOnNav :: bool
  bx_filter :: "string \<Rightarrow> box_row \<Rightarrow> bool"
  bx_notes :: "box_entry list"

definition box_note :: "box_entry \<Rightarrow> combobox \<Rightarrow> combobox" where
  "box_note n c = c\<lparr>bx_notes := bx_notes c @ [n]\<rparr>"

text \<open>The default filter: rows whose text begins with the query, in any case\<close>

definition begins_with :: "string \<Rightarrow> box_row \<Rightarrow> bool" where
  "begins_with q r = prefix (to_lower q) (to_lower (br_text r))"

text \<open>\<open>_2\<close>, and \<open>finder.getEl\<close>: the place of the first row with the value\<close>

definition row_of_value :: "combobox \<Rightarrow> string \<Rightarrow> nat option" where
  "row_of_value c v = find_index (\<lambda>r. br_value r = v) (bx_rows c)"

definition change_item :: "nat \<Rightarrow> (box_item \<Rightarrow> box_item) \<Rightarrow> combobox \<Rightarrow> combobox" where
  "change_item i f c = c\<lparr>bx_items := map_at i f (bx_items c)\<rparr>"

definition change_items :: "(box_item \<Rightarrow> box_item) \<Rightarrow> combobox \<Rightarrow> combobox" where
  "change_items f c = c\<lparr>bx_items := map f (bx_items c)\<rparr>"

definition item_of_value :: "string \<Rightarrow> (box_item \<Rightarrow> box_item) \<Rightarrow> combobox \<Rightarrow> combobox" where
  "item_of_value v f c = (case row_of_value c v of None \<Rightarrow> c | Some i \<Rightarrow> change_item i f c)"

section \<open>Values\<close>

text \<open>\<open>_1a\<close>: the items of the values are marked; the texts of their rows are shown unless the text is to remain.\<close>

definition text_of_value :: "combobox \<Rightarrow> string \<Rightarrow> string" where
  "text_of_value c v = (case row_of_value c v of None \<Rightarrow> v | Some i \<Rightarrow> br_text (bx_rows c ! i))"

definition box_set_values :: "string list \<Rightarrow> bool \<Rightarrow> combobox \<Rightarrow> combobox" where
  "box_set_values vs remain c =
     (let c1 = change_items (\<lambda>t. t\<lparr>bi_selected := False\<rparr>) c;
          c2 = fold (\<lambda>v. item_of_value v (\<lambda>t. t\<lparr>bi_selected := True\<rparr>)) vs c1;
          c3 = (if remain then c2 else combo_set_text (js_join (cb_separator c2) (map (text_of_value c2) vs)) c2)
      in set_values vs c3)"

text \<open>\<open>_15\<close> and \<open>_1b\<close>\<close>

definition box_select :: "string \<Rightarrow> combobox \<Rightarrow> combobox" where
  "box_select v c =
     (if v \<in> set (tb_hidden c) then c
      else box_note (BoxSelect v) (box_set_values (if cb_multiple c then tb_hidden c @ [v] else [v]) False c))"

definition box_unselect :: "string \<Rightarrow> combobox \<Rightarrow> combobox" where
  "box_unselect v c =
     (case index_of v (tb_hidden c) of
        None \<Rightarrow> c
      | Some i \<Rightarrow> box_note (BoxUnselect v) (box_set_values (remove_at i (tb_hidden c)) False c))"

text \<open>The methods \<open>clear\<close> and \<open>reset\<close>\<close>

definition box_clear :: "combobox \<Rightarrow> combobox" where
  "box_clear c = change_items (\<lambda>t. t\<lparr>bi_selected := False\<rparr>) (combo_clear c)"

definition box_reset :: "combobox \<Rightarrow> combobox" where
  "box_reset c = (if cb_multiple c then box_set_values (cb_originals c) False c else box_set_values [tb_original c] False c)"

section \<open>Loading and querying\<close>

text \<open>\<open>_26\<close>: a heading wherever the group changes, an item for every row; rows marked selected join the values.\<close>

fun group_list :: "string option \<Rightarrow> box_row list \<Rightarrow> string list" where
  "group_list g [] = []"
| "group_list g (r # rs) =
     (case br_group r of
        None \<Rightarrow> group_list None rs
      | Some h \<Rightarrow> if h = '''' then group_list None rs
                  else if g = Some h then group_list g rs else h # group_list (Some h) rs)"

definition fresh_item :: "box_row \<Rightarrow> box_item" where
  "fresh_item r = \<lparr>bi_disabled = br_disabled r, bi_selected = False, bi_hover = False, bi_shown = True\<rparr>"

definition preset_values :: "box_row list \<Rightarrow> string list \<Rightarrow> string list" where
  "preset_values rs vs = foldl (\<lambda>vs r. if br_selected r \<and> br_value r \<notin> set vs then vs @ [br_value r] else vs) vs rs"

definition box_load :: "box_row list \<Rightarrow> bool \<Rightarrow> combobox \<Rightarrow> combobox" where
  "box_load rs remain c =
     (let vs = preset_values rs (tb_hidden c); gs = (if bx_grouped c then group_list None rs else []);
          c1 = c\<lparr>bx_rows := rs, bx_items := map fresh_item rs, bx_groups := gs, bx_headings := map (\<lambda>g. True) gs\<rparr>
      in box_note (BoxLoaded (length rs))
           (box_set_values (if cb_multiple c then vs else if vs = [] then [] else [last vs]) remain c1))"

text \<open>
  \<open>_34\<close>: in local mode only the rows the filter accepts are shown, with the headings of their
  groups; a row whose text is the query gives its value. The text remains as it was typed.
\<close>

definition accept_row :: "string \<Rightarrow> nat \<Rightarrow> combobox \<times> string \<times> string option \<Rightarrow> combobox \<times> string \<times> string option" where
  "accept_row q i st =
     (case st of (c, v, g) \<Rightarrow>
        let r = bx_rows c ! i
        in if \<not> bx_filter c q r then (c, v, g)
           else let c1 = item_of_value (br_value r) (\<lambda>t. t\<lparr>bi_shown := True\<rparr>) c;
                    hit = (to_lower (br_text r) = to_lower q);
                    c2 = (if hit then item_of_value (br_value r) (\<lambda>t. t\<lparr>bi_selected := True\<rparr>) c1 else c1);
                    v2 = (if hit then br_value r else v)
                in if bx_grouped c \<and> g \<noteq> br_group r
                   then (case br_group r of
                           None \<Rightarrow> (c2, v2, None)
                         | Some h \<Rightarrow> (case index_of h (bx_groups c2) of
                                        None \<Rightarrow> (c2, v2, Some h)
                                      | Some k \<Rightarrow> (c2\<lparr>bx_headings := map_at k (\<lambda>b. True) (bx_headings c2)\<rparr>, v2, Some h)))
                   else (c2, v2, g))"

definition match_query :: "combobox \<times> string list \<Rightarrow> string \<Rightarrow> combobox \<times> string list" where
  "match_query cv q0 =
     (let q = js_trim q0
      in case fold (accept_row q) [0..<length (bx_rows (fst cv))] (fst cv, q, None) of (c, v, g) \<Rightarrow> (c, snd cv @ [v]))"

definition box_query :: "string \<Rightarrow> combobox \<Rightarrow> combobox" where
  "box_query q c =
     (let qq = (if cb_multiple c then js_split (cb_separator c) q else [q]);
          keep = (\<lambda>vs c. box_set_values (if cb_multiple c then (if q \<noteq> '''' then vs else []) else vs) True c)
      in if bx_remote c then box_note (BoxAsk q) (keep qq c)
         else let c1 = change_items (\<lambda>t. t\<lparr>bi_selected := False, bi_hover := False, bi_shown := False\<rparr>) c;
                  c2 = c1\<lparr>bx_headings := map (\<lambda>b. False) (bx_headings c1)\<rparr>;
                  r = foldl match_query (c2, []) qq
              in keep (snd r) (fst r))"

section \<open>Panel, keys and mouse\<close>

text \<open>\<open>onShowPanel\<close> of \<open>_44\<close>: everything is shown again.\<close>

definition box_show :: "combobox \<Rightarrow> combobox" where
  "box_show c =
     (if cb_panel c then c
      else (change_items (\<lambda>t. t\<lparr>bi_shown := True\<rparr>) (show_panel c))\<lparr>bx_headings := map (\<lambda>b. True) (bx_headings c)\<rparr>)"

definition box_toggle :: "combobox \<Rightarrow> combobox" where
  "box_toggle c = (let c = (if cb_panel c then hide_panel c else box_show c) in if tb_focus c then c else focus_in c)"

definition box_fire :: "combobox \<Rightarrow> combobox" where
  "box_fire c =
     (if cb_timer c
      then let q = get_text c; c1 = c\<lparr>cb_timer := False\<rparr>
           in if cb_previous c1 \<noteq> q then box_query q (field_note (Query q) (box_show (c1\<lparr>cb_previous := q\<rparr>))) else c1
      else c)"

text \<open>
  \<open>_e\<close>: from the item under the mouse, else from the selected ones, to the next or previous
  item that can be seen and is enabled, around the ends.
\<close>

definition can_go :: "combobox \<Rightarrow> nat \<Rightarrow> bool" where
  "can_go c i = (cb_panel c \<and> bi_shown (bx_items c ! i) \<and> \<not> bi_disabled (bx_items c ! i))"

definition item_places :: "(box_item \<Rightarrow> bool) \<Rightarrow> combobox \<Rightarrow> nat list" where
  "item_places P c = filter (\<lambda>i. P (bx_items c ! i)) [0..<length (bx_items c)]"

definition nav_places :: "bool \<Rightarrow> combobox \<Rightarrow> nat list" where
  "nav_places forth c =
     (let n = length (bx_items c); all = (if forth then [0..<n] else rev [0..<n]);
          here = (if item_places bi_hover c \<noteq> [] then item_places bi_hover c else item_places bi_selected c);
          near = concat (map (\<lambda>i. if forth then [i + 1..<n] else rev [0..<i]) here)
      in filter (can_go c) near @ filter (can_go c) all)"

definition box_navigate :: "bool \<Rightarrow> combobox \<Rightarrow> combobox" where
  "box_navigate forth c =
     (let places = nav_places forth c; c1 = change_items (\<lambda>t. t\<lparr>bi_hover := False\<rparr>) c
      in case places of
           [] \<Rightarrow> c1
         | i # is \<Rightarrow>
             let c2 = change_item i (\<lambda>t. t\<lparr>bi_hover := True\<rparr>) c1
             in if bx_selectOnNav c2 then box_select (br_value (bx_rows c2 ! i)) c2 else c2)"

text \<open>\<open>_3e\<close>, the Enter key\<close>

definition box_enter :: "combobox \<Rightarrow> combobox" where
  "box_enter c =
     (let c1 = (case item_places bi_hover c of
                  [] \<Rightarrow> c
                | i # is \<Rightarrow>
                    let v = br_value (bx_rows c ! i)
                    in if cb_multiple c \<and> bi_selected (bx_items c ! i) then box_unselect v c else box_select v c);
          c2 = box_set_values (filter (\<lambda>v. row_of_value c1 v \<noteq> None) (tb_hidden c1)) False c1
      in if cb_multiple c then c2 else hide_panel c2)"

text \<open>The mouse handlers of \<open>_44\<close>\<close>

definition mouse_over :: "nat option \<Rightarrow> combobox \<Rightarrow> combobox" where
  "mouse_over pl c =
     (let c1 = change_items (\<lambda>t. t\<lparr>bi_hover := False\<rparr>) c
      in case pl of None \<Rightarrow> c1 | Some i \<Rightarrow> change_item i (\<lambda>t. if bi_disabled t then t else t\<lparr>bi_hover := True\<rparr>) c1)"

definition mouse_out :: "nat option \<Rightarrow> combobox \<Rightarrow> combobox" where
  "mouse_out pl c = (case pl of None \<Rightarrow> c | Some i \<Rightarrow> change_item i (\<lambda>t. t\<lparr>bi_hover := False\<rparr>) c)"

definition mouse_click :: "nat option \<Rightarrow> combobox \<Rightarrow> combobox" where
  "mouse_click pl c =
     (case pl of
        None \<Rightarrow> c
      | Some i \<Rightarrow>
          if i \<ge> length (bx_items c) \<or> bi_disabled (bx_items c ! i) then c
          else let v = br_value (bx_rows c ! i)
               in if cb_multiple c then (if bi_selected (bx_items c ! i) then box_unselect v c else box_select v c)
                  else hide_panel (box_select v c))"

section \<open>Events\<close>

datatype box_event = BoxFocus | BoxType string | BoxTimer | BoxArrow | BoxShow | BoxHide | BoxNext | BoxPrevious | BoxEnter
  | BoxOver "nat option" | BoxOut "nat option" | BoxClick "nat option"
  | BoxSetValues "string list" | BoxChoose string | BoxDrop string | BoxClear | BoxReset | BoxLoad "box_row list" bool

definition hears_keys :: "combobox \<Rightarrow> bool" where
  "hears_keys c = (tb_focus c \<and> handlers_bound c)"

definition box_step :: "combobox \<Rightarrow> box_event \<Rightarrow> combobox" where
  "box_step c e =
     (case e of
        BoxFocus \<Rightarrow> if tb_focus c then c else focus_in c
      | BoxType s \<Rightarrow> edit_key (type_text s c)
      | BoxTimer \<Rightarrow> box_fire c
      | BoxArrow \<Rightarrow> box_toggle c
      | BoxShow \<Rightarrow> box_show c
      | BoxHide \<Rightarrow> hide_panel c
      | BoxNext \<Rightarrow> if hears_keys c then box_navigate True c else c
      | BoxPrevious \<Rightarrow> if hears_keys c then box_navigate False c else c
      | BoxEnter \<Rightarrow> if hears_keys c then box_enter c else c
      | BoxOver pl \<Rightarrow> mouse_over pl c
      | BoxOut pl \<Rightarrow> mouse_out pl c
      | BoxClick pl \<Rightarrow> mouse_click pl c
      | BoxSetValues vs \<Rightarrow> box_set_values vs False c
      | BoxChoose v \<Rightarrow> box_select v c
      | BoxDrop v \<Rightarrow> box_unselect v c
      | BoxClear \<Rightarrow> box_clear c
      | BoxReset \<Rightarrow> box_reset c
      | BoxLoad rs remain \<Rightarrow> box_load rs remain c)"

text \<open>\<open>$.fn.combobox\<close> on a fresh combo with the values it starts with; the rows come later.\<close>

definition combobox_of :: "combo \<Rightarrow> bool \<Rightarrow> bool \<Rightarrow> combobox" where
  "combobox_of c grouped remote =
     combo.extend c
       \<lparr>bx_rows = [], bx_items = [], bx_groups = [], bx_headings = [], bx_grouped = grouped, bx_remote = remote,
        bx_selectOnNav = True, bx_filter = begins_with, bx_notes = []\<rparr>"


section \<open>The marked items are the items of the values\<close>

text \<open>Everything the marks depend on, as one value that most operations leave alone\<close>

definition box_marks where
  "box_marks c = (tb_hidden c, bx_rows c, map bi_selected (bx_items c), length (bx_headings c) = length (bx_groups c))"

definition box_shape :: "combobox \<Rightarrow> bool" where
  "box_shape c = (length (bx_items c) = length (bx_rows c) \<and> length (bx_headings c) = length (bx_groups c))"

definition box_ok :: "combobox \<Rightarrow> bool" where
  "box_ok c = (box_shape c \<and>
     (\<forall>i < length (bx_rows c). bi_selected (bx_items c ! i) \<longrightarrow> (\<exists>v \<in> set (tb_hidden c). row_of_value c v = Some i)) \<and>
     (\<forall>v \<in> set (tb_hidden c). \<forall>i. v \<noteq> '''' \<longrightarrow> row_of_value c v = Some i \<longrightarrow> bi_selected (bx_items c ! i)))"

lemma marks_ok:
  assumes "box_marks c' = box_marks c"
  shows "box_ok c' = box_ok c" "box_shape c' = box_shape c"
proof -
  have m: "tb_hidden c' = tb_hidden c" "bx_rows c' = bx_rows c" "map bi_selected (bx_items c') = map bi_selected (bx_items c)"
    "(length (bx_headings c') = length (bx_groups c')) = (length (bx_headings c) = length (bx_groups c))"
    using assms by (simp_all add: box_marks_def)
  have l: "length (bx_items c') = length (bx_items c)" using m(3) by (rule map_eq_imp_length_eq)
  have n: "i < length (bx_items c) \<Longrightarrow> bi_selected (bx_items c' ! i) = bi_selected (bx_items c ! i)" for i
    using m(3) l by (metis nth_map)
  have r: "row_of_value c' = row_of_value c" by (simp add: row_of_value_def m(2) fun_eq_iff)
  show shape: "box_shape c' = box_shape c" by (simp add: box_shape_def m l)
  have "row_of_value c v = Some i \<Longrightarrow> i < length (bx_rows c)" for v i
    by (auto simp: row_of_value_def dest: find_index_Some)
  then show "box_ok c' = box_ok c"
    unfolding box_ok_def shape by (auto simp: r m n box_shape_def)
qed

lemma row_of_value_range: "row_of_value c v = Some i \<Longrightarrow> i < length (bx_rows c)"
  by (auto simp: row_of_value_def dest: find_index_Some)

lemma change_frame [simp]:
  "tb_hidden (change_items f c) = tb_hidden c" "bx_rows (change_items f c) = bx_rows c" "bx_groups (change_items f c) = bx_groups c"
  "bx_headings (change_items f c) = bx_headings c" "bx_items (change_items f c) = map f (bx_items c)" "get_text (change_items f c) = get_text c"
  "tb_hidden (change_item i f c) = tb_hidden c" "bx_rows (change_item i f c) = bx_rows c" "bx_groups (change_item i f c) = bx_groups c"
  "bx_headings (change_item i f c) = bx_headings c" "bx_items (change_item i f c) = map_at i f (bx_items c)" "get_text (change_item i f c) = get_text c"
  by (simp_all add: change_items_def change_item_def get_text_def)

lemma item_of_value_frame [simp]:
  "tb_hidden (item_of_value v f c) = tb_hidden c" "bx_rows (item_of_value v f c) = bx_rows c" "bx_groups (item_of_value v f c) = bx_groups c"
  "bx_headings (item_of_value v f c) = bx_headings c" "length (bx_items (item_of_value v f c)) = length (bx_items c)"
  "get_text (item_of_value v f c) = get_text c" "cb_multiple (item_of_value v f c) = cb_multiple c" "cb_separator (item_of_value v f c) = cb_separator c"
  "bx_filter (item_of_value v f c) = bx_filter c" "bx_grouped (item_of_value v f c) = bx_grouped c" "bx_remote (item_of_value v f c) = bx_remote c"
  by (simp_all add: item_of_value_def change_item_def get_text_def split: option.split)

lemma row_of_value_cong: "bx_rows c' = bx_rows c \<Longrightarrow> row_of_value c' = row_of_value c"
  by (simp add: row_of_value_def fun_eq_iff)

lemma fold_mark:
  assumes "f = (\<lambda>v. item_of_value v (\<lambda>t. t\<lparr>bi_selected := True\<rparr>))"
  shows "bx_rows (fold f vs c) = bx_rows c \<and> bx_headings (fold f vs c) = bx_headings c \<and> bx_groups (fold f vs c) = bx_groups c
    \<and> tb_hidden (fold f vs c) = tb_hidden c \<and> length (bx_items (fold f vs c)) = length (bx_items c) \<and> get_text (fold f vs c) = get_text c
    \<and> cb_separator (fold f vs c) = cb_separator c
    \<and> (\<forall>i < length (bx_items c). bi_selected (bx_items (fold f vs c) ! i) = (bi_selected (bx_items c ! i) \<or> (\<exists>v \<in> set vs. row_of_value c v = Some i))
        \<and> bi_shown (bx_items (fold f vs c) ! i) = bi_shown (bx_items c ! i))"
proof (induction vs arbitrary: c)
  case (Cons v vs)
  have r: "row_of_value (f v c) = row_of_value c" by (rule row_of_value_cong) (simp add: assms)
  have "i < length (bx_items c) \<Longrightarrow> bi_selected (bx_items (f v c) ! i) = (bi_selected (bx_items c ! i) \<or> row_of_value c v = Some i)
      \<and> bi_shown (bx_items (f v c) ! i) = bi_shown (bx_items c ! i)" for i
    by (auto simp: assms item_of_value_def nth_map_at split: option.split)
  then show ?case using Cons.IH [of "f v c"] r by (simp add: assms)
qed simp

lemma set_text_box [simp]:
  "bx_rows (combo_set_text s c) = bx_rows c" "bx_items (combo_set_text s c) = bx_items c" "bx_groups (combo_set_text s c) = bx_groups c"
  "bx_headings (combo_set_text s c) = bx_headings c" "tb_hidden (combo_set_text s c) = tb_hidden c"
  by (simp_all add: combo_set_text_def set_text_def Let_def)

lemma set_values_box [simp]:
  "bx_rows (set_values vs c) = bx_rows c" "bx_items (set_values vs c) = bx_items c" "bx_groups (set_values vs c) = bx_groups c"
  "bx_headings (set_values vs c) = bx_headings c"
  by (simp_all add: set_values_def Let_def field_note_def)

lemma get_text_set: "get_text (combo_set_text s c) = s"
  by (auto simp: combo_set_text_def set_text_def Let_def get_text_def)

lemma box_set_values_effect:
  assumes "box_shape c"
  shows "tb_hidden (box_set_values vs remain c) = vs" "bx_rows (box_set_values vs remain c) = bx_rows c"
    and "box_shape (box_set_values vs remain c)"
    and "i < length (bx_rows c) \<Longrightarrow> bi_selected (bx_items (box_set_values vs remain c) ! i) = (\<exists>v \<in> set vs. row_of_value c v = Some i)"
    and "i < length (bx_rows c) \<Longrightarrow> bi_shown (bx_items (box_set_values vs remain c) ! i) = bi_shown (bx_items c ! i)"
    and "get_text (box_set_values vs remain c) = (if remain then get_text c else js_join (cb_separator c) (map (text_of_value c) vs))"
proof (atomize(full), goal_cases)
  case 1
  define c1 where "c1 = change_items (\<lambda>t. t\<lparr>bi_selected := False\<rparr>) c"
  define c2 where "c2 = fold (\<lambda>v. item_of_value v (\<lambda>t. t\<lparr>bi_selected := True\<rparr>)) vs c1"
  note f = fold_mark [OF refl, of vs c1, folded c2_def]
  have r1: "row_of_value c1 = row_of_value c" by (rule row_of_value_cong) (simp add: c1_def)
  have c1: "bx_rows c1 = bx_rows c" "bx_headings c1 = bx_headings c" "bx_groups c1 = bx_groups c" "length (bx_items c1) = length (bx_items c)"
    "get_text c1 = get_text c" "cb_separator c1 = cb_separator c"
    by (simp_all add: c1_def) (simp add: change_items_def)
  have tx: "text_of_value c2 = text_of_value c"
    using row_of_value_cong [of c2 c] f c1 by (simp add: text_of_value_def fun_eq_iff split: option.split)
  have eq: "box_set_values vs remain c = set_values vs (if remain then c2 else combo_set_text (js_join (cb_separator c) (map (text_of_value c) vs)) c2)"
    using f c1(6) by (simp add: box_set_values_def Let_def c1_def [symmetric] c2_def [symmetric] tx)
  show ?case
    using assms f c1 unfolding eq by (auto simp: box_shape_def r1 get_text_set) (auto simp: c1_def)
qed


lemma box_set_values_ok: "box_shape c \<Longrightarrow> box_ok (box_set_values vs remain c)"
  using box_set_values_effect [where c = c and vs = vs and remain = remain] row_of_value_cong [of "box_set_values vs remain c" c]
  by (auto simp: box_ok_def dest: row_of_value_range)

lemma box_ok_shape: "box_ok c \<Longrightarrow> box_shape c"
  by (simp add: box_ok_def)

lemma marks_frame [simp]:
  "box_marks (box_note n c) = box_marks c" "box_marks (field_note m c) = box_marks c" "box_marks (focus_in c) = box_marks c"
  "box_marks (type_text s c) = box_marks c" "box_marks (edit_key c) = box_marks c" "box_marks (hide_panel c) = box_marks c"
  "box_marks (show_panel c) = box_marks c" "box_marks (c\<lparr>cb_timer := b\<rparr>) = box_marks c" "box_marks (c\<lparr>cb_previous := s\<rparr>) = box_marks c"
  "box_marks (combo_set_text s c) = box_marks c" "box_marks (c\<lparr>bx_headings := map h (bx_headings c)\<rparr>) = box_marks c"
  by (simp_all add: box_marks_def box_note_def field_note_def focus_in_def type_text_def edit_key_def hide_panel_def show_panel_def Let_def)

lemma marks_items:
  "(\<And>t. bi_selected (f t) = bi_selected t) \<Longrightarrow> box_marks (change_items f c) = box_marks c"
  "(\<And>t. bi_selected (f t) = bi_selected t) \<Longrightarrow> box_marks (change_item i f c) = box_marks c"
  by (simp_all add: box_marks_def change_items_def change_item_def o_def) (simp add: map_at_def map_update list_update_same_conv)

lemma show_panel_box [simp]:
  "bx_headings (show_panel c) = bx_headings c" "bx_groups (show_panel c) = bx_groups c" "bx_items (show_panel c) = bx_items c"
  "bx_rows (show_panel c) = bx_rows c" "tb_hidden (show_panel c) = tb_hidden c" "get_text (show_panel c) = get_text c"
  by (simp_all add: show_panel_def field_note_def get_text_def)

lemma box_show_marks [simp]: "box_marks (box_show c) = box_marks c"
  by (simp add: box_show_def box_marks_def o_def)

lemma mouse_marks [simp]: "box_marks (mouse_over pl c) = box_marks c" "box_marks (mouse_out pl c) = box_marks c"
  by (simp_all add: mouse_over_def mouse_out_def Let_def marks_items split: option.split)

lemma box_note_ok [simp]: "box_ok (box_note n c) = box_ok c" "box_ok (hide_panel c) = box_ok c"
  by (rule marks_ok(1) [OF marks_frame(1)], rule marks_ok(1) [OF marks_frame(6)])

lemma box_choose_ok: "box_ok c \<Longrightarrow> box_ok (box_select v c)" "box_ok c \<Longrightarrow> box_ok (box_unselect v c)"
  by (simp_all add: box_select_def box_unselect_def box_set_values_ok box_ok_shape split: option.split)

lemma box_clear_ok:
  assumes "box_ok c"
  shows "box_ok (box_clear c)"
proof -
  have h: "set (tb_hidden (combo_clear c)) \<subseteq> {''''}"
    by (simp add: combo_clear_def Let_def combo_set_value_def)
  have "bx_rows (combo_clear c) = bx_rows c" "bx_items (combo_clear c) = bx_items c" "bx_headings (combo_clear c) = bx_headings c" "bx_groups (combo_clear c) = bx_groups c"
    by (simp_all add: combo_clear_def Let_def combo_set_value_def) (simp_all add: set_text_def Let_def)
  with assms h show ?thesis
    by (auto simp: box_ok_def box_shape_def box_clear_def)
qed

lemma box_load_ok: "box_ok (box_load rs remain c)"
  by (simp add: box_load_def Let_def box_set_values_ok box_shape_def)

lemma accept_row_shape:
  assumes "accept_row q i (c, v, g) = (c', v', g')"
  shows "bx_rows c' = bx_rows c" "box_shape c \<Longrightarrow> box_shape c'" "bx_filter c' = bx_filter c" "get_text c' = get_text c" "cb_multiple c' = cb_multiple c"
    and "v' = (if bx_filter c q (bx_rows c ! i) \<and> to_lower (br_text (bx_rows c ! i)) = to_lower q then br_value (bx_rows c ! i) else v)"
    and "length (bx_items c') = length (bx_items c)" "bx_remote c' = bx_remote c"
    and "j < length (bx_items c) \<Longrightarrow> bi_shown (bx_items c' ! j) =
      (bi_shown (bx_items c ! j) \<or> (bx_filter c q (bx_rows c ! i) \<and> row_of_value c (br_value (bx_rows c ! i)) = Some j))"
proof (atomize(full), goal_cases)
  case 1
  define r where "r = bx_rows c ! i"
  define c1 where "c1 = item_of_value (br_value r) (\<lambda>t. t\<lparr>bi_shown := True\<rparr>) c"
  define c2 where "c2 = (if to_lower (br_text r) = to_lower q then item_of_value (br_value r) (\<lambda>t. t\<lparr>bi_selected := True\<rparr>) c1 else c1)"
  have r1: "row_of_value c1 = row_of_value c" by (rule row_of_value_cong) (simp add: c1_def)
  have c2: "bx_rows c2 = bx_rows c" "box_shape c \<Longrightarrow> box_shape c2" "bx_filter c2 = bx_filter c" "get_text c2 = get_text c" "cb_multiple c2 = cb_multiple c"
    "length (bx_items c2) = length (bx_items c)" "bx_remote c2 = bx_remote c" "bx_headings c2 = bx_headings c" "bx_groups c2 = bx_groups c"
    by (simp_all add: c2_def c1_def box_shape_def)
  have sh: "j < length (bx_items c) \<Longrightarrow> bi_shown (bx_items c2 ! j) = (bi_shown (bx_items c ! j) \<or> row_of_value c (br_value r) = Some j)" for j
    by (auto simp: c2_def c1_def item_of_value_def nth_map_at r1 [unfolded c1_def item_of_value_def] split: option.split)
  define v2 where "v2 = (if to_lower (br_text r) = to_lower q then br_value r else v)"
  have eq: "accept_row q i (c, v, g) =
      (if \<not> bx_filter c q r then (c, v, g)
       else if bx_grouped c \<and> g \<noteq> br_group r
       then (case br_group r of None \<Rightarrow> (c2, v2, None)
             | Some h \<Rightarrow> (case index_of h (bx_groups c2) of None \<Rightarrow> (c2, v2, Some h)
                            | Some k \<Rightarrow> (c2\<lparr>bx_headings := map_at k (\<lambda>b. True) (bx_headings c2)\<rparr>, v2, Some h)))
       else (c2, v2, g))"
    by (simp only: accept_row_def prod.case Let_def r_def [symmetric] c1_def [symmetric] c2_def [symmetric] v2_def [symmetric])
  have v: "v' = (if bx_filter c q r \<and> to_lower (br_text r) = to_lower q then br_value r else v)"
    using assms unfolding eq by (auto simp: v2_def split: if_splits option.splits)
  have tx: "get_text (c2\<lparr>bx_headings := hs\<rparr>) = get_text c2" for hs by (simp add: get_text_def)
  define hs where "hs = (if bx_grouped c \<and> g \<noteq> br_group r
    then (case br_group r of None \<Rightarrow> bx_headings c2
          | Some h \<Rightarrow> (case index_of h (bx_groups c2) of None \<Rightarrow> bx_headings c2 | Some k \<Rightarrow> map_at k (\<lambda>b. True) (bx_headings c2)))
    else bx_headings c2)"
  have hs: "length hs = length (bx_headings c2)" by (simp add: hs_def split: option.split)
  have same: "u\<lparr>bx_headings := bx_headings u\<rparr> = u" for u :: combobox by simp
  have "fst (accept_row q i (c, v, g)) = (if bx_filter c q r then c2\<lparr>bx_headings := hs\<rparr> else c)"
    unfolding eq hs_def by (simp add: same split: option.split)
  then have c': "c' = (if bx_filter c q r then c2\<lparr>bx_headings := hs\<rparr> else c)" by (simp only: assms fst_conv)
  have "bi_shown (bx_items c2 ! j) = (bi_shown (bx_items c ! j) \<or> row_of_value c (br_value r) = Some j)" if "j < length (bx_items c)"
    using sh [OF that] .
  then show ?case
    unfolding c' v r_def [symmetric] using c2 hs by (auto simp: tx box_shape_def)
qed

text \<open>The value a query stands for: that of the last accepted row with this text, else the query itself\<close>

definition query_value :: "(string \<Rightarrow> box_row \<Rightarrow> bool) \<Rightarrow> string \<Rightarrow> box_row list \<Rightarrow> string" where
  "query_value P q rs = foldl (\<lambda>v r. if P q r \<and> to_lower (br_text r) = to_lower q then br_value r else v) q rs"

lemma accept_rows_fold:
  assumes "m \<le> length (bx_rows c)" "box_shape c" "fold (accept_row q) [0..<m] (c, q, None) = (c', v', g')"
  shows "bx_rows c' = bx_rows c \<and> box_shape c' \<and> bx_filter c' = bx_filter c \<and> get_text c' = get_text c \<and> cb_multiple c' = cb_multiple c
    \<and> bx_remote c' = bx_remote c \<and> v' = query_value (bx_filter c) q (take m (bx_rows c))
    \<and> (\<forall>j < length (bx_items c). bi_shown (bx_items c' ! j) =
        (bi_shown (bx_items c ! j) \<or> (\<exists>i < m. bx_filter c q (bx_rows c ! i) \<and> row_of_value c (br_value (bx_rows c ! i)) = Some j)))"
  using assms(1,3)
proof (induction m arbitrary: c' v' g')
  case (Suc m)
  obtain c2 v2 g2 where f: "fold (accept_row q) [0..<m] (c, q, None) = (c2, v2, g2)" by (cases "fold (accept_row q) [0..<m] (c, q, None)") auto
  have "accept_row q m (c2, v2, g2) = (c', v', g')" using Suc.prems(2) f by simp
  note a = accept_row_shape [OF this]
  note ih = Suc.IH [OF _ f]
  have r: "row_of_value c2 = row_of_value c" by (rule row_of_value_cong) (use ih Suc.prems(1) in simp)
  have l: "length (bx_items c2) = length (bx_items c)" using ih Suc.prems(1) assms(2) by (simp add: box_shape_def)
  have "take (Suc m) (bx_rows c) = take m (bx_rows c) @ [bx_rows c ! m]" using Suc.prems(1) by (simp add: take_Suc_conv_app_nth)
  then have "v' = query_value (bx_filter c) q (take (Suc m) (bx_rows c))"
    using a(6) ih Suc.prems(1) by (simp add: query_value_def)
  moreover have "bi_shown (bx_items c' ! j) = (bi_shown (bx_items c ! j) \<or>
      (\<exists>i < Suc m. bx_filter c q (bx_rows c ! i) \<and> row_of_value c (br_value (bx_rows c ! i)) = Some j))" if "j < length (bx_items c)" for j
    using a(9) [of j] ih Suc.prems(1) that l r by (auto simp: less_Suc_eq)
  ultimately show ?case using a(1-5,8) ih Suc.prems(1) by simp
qed (use assms(2) in \<open>simp add: query_value_def\<close>)

lemma match_query_effect:
  assumes "box_shape c" "match_query (c, vs) q0 = (c', vs')"
  shows "bx_rows c' = bx_rows c \<and> box_shape c' \<and> bx_filter c' = bx_filter c \<and> get_text c' = get_text c \<and> cb_multiple c' = cb_multiple c
    \<and> bx_remote c' = bx_remote c \<and> vs' = vs @ [query_value (bx_filter c) (js_trim q0) (bx_rows c)]
    \<and> (\<forall>j < length (bx_items c). bi_shown (bx_items c' ! j) = (bi_shown (bx_items c ! j) \<or>
        (\<exists>i < length (bx_rows c). bx_filter c (js_trim q0) (bx_rows c ! i) \<and> row_of_value c (br_value (bx_rows c ! i)) = Some j)))"
proof -
  obtain c2 v2 g2 where f: "fold (accept_row (js_trim q0)) [0..<length (bx_rows c)] (c, js_trim q0, None) = (c2, v2, g2)"
    by (cases "fold (accept_row (js_trim q0)) [0..<length (bx_rows c)] (c, js_trim q0, None)") auto
  have "c' = c2" "vs' = vs @ [v2]" using assms(2) f by (simp_all add: match_query_def Let_def)
  with accept_rows_fold [OF order_refl assms(1) f] show ?thesis by simp
qed

lemma match_fold_shape: "box_shape c \<Longrightarrow> box_shape (fst (foldl match_query (c, vs) qq))"
proof (induction qq arbitrary: c vs)
  case (Cons q qq)
  obtain c2 vs2 where m: "match_query (c, vs) q = (c2, vs2)" by (cases "match_query (c, vs) q")
  show ?case using Cons.IH [of c2 vs2] match_query_effect [OF Cons.prems m] m by simp
qed simp

lemma box_query_ok:
  assumes "box_ok c"
  shows "box_ok (box_query q c)"
proof -
  define c2 where "c2 = (change_items (\<lambda>t. t\<lparr>bi_selected := False, bi_hover := False, bi_shown := False\<rparr>) c)\<lparr>bx_headings := map (\<lambda>b. False) (bx_headings c)\<rparr>"
  have "box_shape c2" using box_ok_shape [OF assms] by (simp add: box_shape_def c2_def)
  from match_fold_shape [OF this] box_ok_shape [OF assms] show ?thesis
    by (simp add: box_query_def Let_def c2_def [symmetric] box_set_values_ok)
qed

lemma box_show_ok: "box_ok (box_show c) = box_ok c"
  by (rule marks_ok) simp

lemma box_fire_ok: "box_ok c \<Longrightarrow> box_ok (box_fire c)"
proof -
  assume c: "box_ok c"
  have "box_ok (field_note (Query q) (box_show (c\<lparr>cb_timer := False, cb_previous := s\<rparr>))) = box_ok c" for q s
    by (rule marks_ok) simp
  moreover have "box_ok (c\<lparr>cb_timer := False\<rparr>) = box_ok c" by (rule marks_ok) simp
  ultimately show ?thesis using c by (simp add: box_fire_def Let_def box_query_ok)
qed

lemma box_navigate_ok: "box_ok c \<Longrightarrow> box_ok (box_navigate forth c)"
proof -
  assume c: "box_ok c"
  have h: "box_ok (change_items (\<lambda>t. t\<lparr>bi_hover := False\<rparr>) u) = box_ok u" "box_ok (change_item i (\<lambda>t. t\<lparr>bi_hover := True\<rparr>) u) = box_ok u" for u i
    by (rule marks_ok, simp add: marks_items)+
  then show ?thesis using c by (simp add: box_navigate_def Let_def box_choose_ok split: list.split)
qed

lemma box_enter_ok: "box_ok c \<Longrightarrow> box_ok (box_enter c)"
proof -
  assume c: "box_ok c"
  define c1 where "c1 = (case item_places bi_hover c of [] \<Rightarrow> c
      | i # is \<Rightarrow> let v = br_value (bx_rows c ! i) in if cb_multiple c \<and> bi_selected (bx_items c ! i) then box_unselect v c else box_select v c)"
  have "box_ok c1" using c by (simp add: c1_def Let_def box_choose_ok split: list.split)
  then show ?thesis by (simp add: box_enter_def c1_def [symmetric] Let_def box_set_values_ok box_ok_shape)
qed

lemma mouse_click_ok: "box_ok c \<Longrightarrow> box_ok (mouse_click pl c)"
  by (simp add: mouse_click_def Let_def box_choose_ok split: option.split)

lemma box_step_ok: "box_ok c \<Longrightarrow> box_ok (box_step c e)"
proof -
  assume c: "box_ok c"
  have m: "box_ok (focus_in c) = box_ok c" "box_ok (edit_key (type_text s c)) = box_ok c" "box_ok (mouse_over pl c) = box_ok c"
    "box_ok (mouse_out pl c) = box_ok c" for s pl
    by (rule marks_ok, simp)+
  have t: "box_ok (box_toggle c)"
  proof -
    have "box_ok (if tb_focus u then u else focus_in u) = box_ok u" for u :: combobox by (rule marks_ok) simp
    then show ?thesis using c by (simp add: box_toggle_def Let_def box_show_ok)
  qed
  show ?thesis
    using c t m by (cases e) (simp_all add: box_step_def box_fire_ok box_show_ok box_navigate_ok box_enter_ok mouse_click_ok box_set_values_ok
        box_ok_shape box_choose_ok box_clear_ok box_reset_def box_load_ok)
qed

interpretation combobox: event_machine box_step box_ok
  by unfold_locales (rule box_step_ok)


section \<open>Hovering and the values of a query\<close>

definition hovers :: "combobox \<Rightarrow> bool list" where
  "hovers c = map bi_hover (bx_items c)"

lemma hovers_item: "(\<And>t. bi_hover (f t) = bi_hover t) \<Longrightarrow> hovers (item_of_value v f c) = hovers c"
  by (simp add: hovers_def item_of_value_def change_item_def map_at_def map_update list_update_same_conv split: option.split)

lemma hovers_frame [simp]:
  "hovers (set_values vs c) = hovers c" "hovers (combo_set_text s c) = hovers c" "hovers (c\<lparr>bx_headings := hs\<rparr>) = hovers c"
  by (simp_all add: hovers_def)

lemma hovers_set_values [simp]: "hovers (box_set_values vs remain c) = hovers c"
proof -
  have f: "hovers (fold (\<lambda>v. item_of_value v (\<lambda>t. t\<lparr>bi_selected := True\<rparr>)) vs u) = hovers u" for vs u
    by (induction vs arbitrary: u) (simp_all add: hovers_item)
  have "hovers (change_items (\<lambda>t. t\<lparr>bi_selected := False\<rparr>) c) = hovers c" by (simp add: hovers_def)
  then show ?thesis by (simp add: box_set_values_def Let_def f)
qed

lemma hovers_accept: "hovers (fst (accept_row q i st)) = hovers (fst st)"
  by (cases st) (simp add: accept_row_def Let_def hovers_item split: option.split)

lemma hovers_match: "hovers (fst (match_query cv q)) = hovers (fst cv)"
proof -
  have "hovers (fst (fold (accept_row p) is st)) = hovers (fst st)" for p "is" st
    by (induction "is" arbitrary: st) (simp_all add: hovers_accept)
  from this [of "js_trim q" "[0..<length (bx_rows (fst cv))]" "(fst cv, js_trim q, None)"] show ?thesis
    by (auto simp: match_query_def Let_def split: prod.split)
qed

lemma no_hover: "hovers c = map (\<lambda>x. False) xs \<Longrightarrow> item_places bi_hover c = []"
  by (auto simp: hovers_def item_places_def filter_empty_conv dest: map_eq_imp_length_eq) (metis length_map nth_map)

lemma multiple_frame: "cb_multiple (box_set_values vs remain c) = cb_multiple c"
proof -
  have "cb_multiple (fold (\<lambda>v. item_of_value v (\<lambda>t. t\<lparr>bi_selected := True\<rparr>)) vs u) = cb_multiple u" for vs u
    by (induction vs arbitrary: u) simp_all
  then show ?thesis
    by (simp add: box_set_values_def Let_def set_values_def field_note_def) (simp add: combo_set_text_def set_text_def Let_def change_items_def)
qed

lemma first_of_distinct:
  assumes "distinct (map br_value (bx_rows c))" "i < length (bx_rows c)"
  shows "row_of_value c (br_value (bx_rows c ! i)) = Some i"
  unfolding row_of_value_def using assms by (intro find_index_SomeI) (auto simp: distinct_conv_nth)

lemma box_query_effect:
  assumes "box_ok c" "\<not> bx_remote c" "\<not> cb_multiple c" "distinct (map br_value (bx_rows c))"
  shows "bx_rows (box_query q c) = bx_rows c" "get_text (box_query q c) = get_text c" "cb_multiple (box_query q c) = cb_multiple c"
    and "tb_hidden (box_query q c) = [query_value (bx_filter c) (js_trim q) (bx_rows c)]" "box_shape (box_query q c)"
    and "i < length (bx_rows c) \<Longrightarrow> bi_shown (bx_items (box_query q c) ! i) = bx_filter c (js_trim q) (bx_rows c ! i)"
    and "item_places bi_hover (box_query q c) = []"
proof (atomize(full), goal_cases)
  case 1
  define c2 where "c2 = (change_items (\<lambda>t. t\<lparr>bi_selected := False, bi_hover := False, bi_shown := False\<rparr>) c)\<lparr>bx_headings := map (\<lambda>b. False) (bx_headings c)\<rparr>"
  obtain c3 vs where m: "match_query (c2, []) q = (c3, vs)" by (cases "match_query (c2, []) q")
  have c2: "box_shape c2" "bx_rows c2 = bx_rows c" "bx_filter c2 = bx_filter c" "get_text c2 = get_text c" "cb_multiple c2 = cb_multiple c"
    "length (bx_items c2) = length (bx_rows c)" "hovers c2 = map (\<lambda>x. False) (bx_items c)"
    using box_ok_shape [OF assms(1)] by (simp_all add: box_shape_def c2_def change_items_def get_text_def hovers_def)
  have dark: "i < length (bx_rows c) \<Longrightarrow> \<not> bi_shown (bx_items c2 ! i)" for i
    using box_ok_shape [OF assms(1)] by (simp add: box_shape_def c2_def)
  have r: "row_of_value c2 = row_of_value c" by (rule row_of_value_cong) (rule c2(2))
  note e = match_query_effect [OF c2(1) m, unfolded c2 r]
  have q: "box_query q c = box_set_values vs True c3"
    using assms(2,3) c2(5) e by (simp add: box_query_def Let_def c2_def [symmetric] m)
  have sh: "box_shape c3" using e by blast
  note s = box_set_values_effect [OF sh, where vs = vs and remain = True]
  have "bi_shown (bx_items c3 ! i) = bx_filter c (js_trim q) (bx_rows c ! i)" if "i < length (bx_rows c)" for i
    using e dark [OF that] that first_of_distinct [OF assms(4)] by auto
  moreover have "hovers (box_set_values vs True c3) = map (\<lambda>x. False) (bx_items c)"
    using hovers_match [of "(c2, [])" q] m c2(7) by simp
  note h = no_hover [OF this]
  have "vs = [query_value (bx_filter c) (js_trim q) (bx_rows c)]" using e by simp
  moreover have "length (bx_items c3) = length (bx_rows c)" using e sh by (simp add: box_shape_def)
  ultimately show ?case
    using e s h unfolding q by (simp add: multiple_frame)
qed


section \<open>The properties\<close>

text \<open>
  C8. In every session of typing, keys, mouse, loading and setting values, the list has an item
  for every row, and the item of a row with a value that is not empty is marked exactly if it is
  the first row of its value and the value is among the submitted ones.
\<close>

theorem marks_follow_values:
  assumes "c = foldl box_step (combobox_of c0 grouped remote) es" "i < length (bx_rows c)" "br_value (bx_rows c ! i) \<noteq> ''''"
  shows "length (bx_items c) = length (bx_rows c)
    \<and> bi_selected (bx_items c ! i) = (row_of_value c (br_value (bx_rows c ! i)) = Some i \<and> br_value (bx_rows c ! i) \<in> set (tb_hidden c))"
proof -
  have "box_ok (combobox_of c0 grouped remote)"
    by (simp add: combobox_of_def box_ok_def box_shape_def combo.defs row_of_value_def)
  then have ok: "box_ok c" unfolding assms(1) by (rule combobox.inv_foldl)
  have v: "row_of_value c v = Some i \<Longrightarrow> br_value (bx_rows c ! i) = v" for v
    by (auto simp: row_of_value_def dest: find_index_Some)
  have "bi_selected (bx_items c ! i) \<Longrightarrow> \<exists>v \<in> set (tb_hidden c). row_of_value c v = Some i"
    using ok assms(2) by (simp add: box_ok_def)
  moreover have "row_of_value c (br_value (bx_rows c ! i)) = Some i \<Longrightarrow> br_value (bx_rows c ! i) \<in> set (tb_hidden c) \<Longrightarrow> bi_selected (bx_items c ! i)"
    using ok assms(3) by (simp add: box_ok_def)
  ultimately have "bi_selected (bx_items c ! i) = (row_of_value c (br_value (bx_rows c ! i)) = Some i \<and> br_value (bx_rows c ! i) \<in> set (tb_hidden c))"
    using v by blast
  then show ?thesis using box_ok_shape [OF ok] by (simp add: box_shape_def)
qed

definition city :: "string \<Rightarrow> string \<Rightarrow> box_row" where
  "city v t = \<lparr>br_value = v, br_text = t, br_group = None, br_disabled = False, br_selected = False\<rparr>"

definition cities :: "box_row list" where
  "cities = [city ''1'' ''Berlin'', city ''2'' ''Bern'', (city ''3'' ''Bath'')\<lparr>br_selected := True\<rparr>]"

definition city_box :: combobox where
  "city_box = combobox_of (combo_of (start_field [] [] []) False) False False"

theorem marks_follow_values_witness:
  "bi_selected (bx_items (foldl box_step city_box [BoxLoad cities False, BoxFocus, BoxShow, BoxPrevious]) ! 1)
   \<and> tb_hidden (foldl box_step city_box [BoxLoad cities False, BoxFocus, BoxShow, BoxPrevious]) = [''2'']"
proof -
  let ?c = "foldl box_step city_box [BoxLoad cities False, BoxFocus, BoxShow, BoxPrevious]"
  have f: "1 < length (bx_rows ?c)" "br_value (bx_rows ?c ! 1) \<noteq> ''''" "row_of_value ?c (br_value (bx_rows ?c ! 1)) = Some 1"
    "br_value (bx_rows ?c ! 1) = ''2''" "tb_hidden ?c = [''2'']"
    by code_simp+
  from marks_follow_values [OF refl [of "foldl box_step (combobox_of (combo_of (start_field [] [] []) False) False False) _"]
      f(1,2) [unfolded city_box_def], folded city_box_def] f(3-5)
  show ?thesis by simp
qed

text \<open>
  A query of a local list with one value (no two rows of the same value) shows exactly the rows
  the filter accepts and leaves the text as it was typed; the submitted value is that of the last
  accepted row with this text, in any case of letters, or the trimmed query itself. Enter then keeps
  the value only if a row has it, shows its text and closes the panel.
\<close>

theorem query_then_enter:
  assumes "box_ok c" "\<not> bx_remote c" "\<not> cb_multiple c" "distinct (map br_value (bx_rows c))"
    and "v = query_value (bx_filter c) (js_trim q) (bx_rows c)"
  shows "map bi_shown (bx_items (box_query q c)) = map (bx_filter c (js_trim q)) (bx_rows c) \<and> get_text (box_query q c) = get_text c
    \<and> tb_hidden (box_query q c) = [v]
    \<and> tb_hidden (box_enter (box_query q c)) = (if v \<in> set (map br_value (bx_rows c)) then [v] else [])
    \<and> get_text (box_enter (box_query q c)) = (if v \<in> set (map br_value (bx_rows c)) then text_of_value c v else '''')
    \<and> \<not> cb_panel (box_enter (box_query q c))"
proof -
  define d where "d = box_query q c"
  note e = box_query_effect [OF assms(1-4), where q = q, folded d_def assms(5)]
  have r: "row_of_value d = row_of_value c" by (rule row_of_value_cong) (rule e(1))
  have tx: "text_of_value d = text_of_value c" by (simp add: text_of_value_def r e(1) fun_eq_iff split: option.split)
  have known: "row_of_value c v \<noteq> None \<longleftrightarrow> v \<in> set (map br_value (bx_rows c))"
    by (auto simp: row_of_value_def find_index_None)
  define u where "u = box_set_values (if v \<in> set (map br_value (bx_rows c)) then [v] else []) False d"
  have enter: "box_enter d = hide_panel u"
    using known e(3,4,7) assms(3) by (simp add: box_enter_def u_def r)
  have u: "tb_hidden u = (if v \<in> set (map br_value (bx_rows c)) then [v] else [])"
    "get_text u = (if v \<in> set (map br_value (bx_rows c)) then text_of_value c v else '''')"
    unfolding u_def using box_set_values_effect(1,6) [OF e(5), where remain = False] by (simp_all add: tx)
  have h: "tb_hidden (hide_panel u) = tb_hidden u" "get_text (hide_panel u) = get_text u" "\<not> cb_panel (hide_panel u)"
    by (simp_all add: hide_panel_def field_note_def get_text_def)
  have "map bi_shown (bx_items d) = map (bx_filter c (js_trim q)) (bx_rows c)"
    using e(1,5,6) by (intro nth_equalityI) (simp_all add: box_shape_def)
  then show ?thesis using e(2,4) enter u h by (simp add: d_def [symmetric])
qed

theorem query_then_enter_witness:
  "map bi_shown (bx_items (box_query ''BER '' (foldl box_step city_box [BoxLoad cities False]))) = [True, True, False]
   \<and> tb_hidden (box_enter (box_query ''BER '' (foldl box_step city_box [BoxLoad cities False]))) = []
   \<and> tb_hidden (box_enter (box_query ''bern'' (foldl box_step city_box [BoxLoad cities False]))) = [''2'']"
proof -
  define c where "c = foldl box_step city_box [BoxLoad cities False]"
  have f: "\<not> bx_remote c" "\<not> cb_multiple c" "distinct (map br_value (bx_rows c))" unfolding c_def by code_simp+
  have v: "query_value (bx_filter c) (js_trim ''BER '') (bx_rows c) = ''BER''" "query_value (bx_filter c) (js_trim ''bern'') (bx_rows c) = ''2''"
    "map br_value (bx_rows c) = [''1'', ''2'', ''3'']" "map (bx_filter c (js_trim ''BER '')) (bx_rows c) = [True, True, False]"
    unfolding c_def by code_simp+
  have ok: "box_ok c" by (simp add: c_def box_step_def box_load_ok)
  have "''BER'' \<notin> set (map br_value (bx_rows c))" "''2'' \<in> set (map br_value (bx_rows c))" unfolding v(3) by simp_all
  then show ?thesis
    using query_then_enter [OF ok f refl, of "''BER ''"] query_then_enter [OF ok f refl, of "''bern''"]
    unfolding v c_def [symmetric] by (simp only: if_True if_False simp_thms)
qed

end
