(* ===== verification/NumberBox.thy ===== *)
theory NumberBox
  imports TextBox
begin

text \<open>
  \<open>plugins/jquery.numberbox.js\<close> and \<open>jquery.numberspinner.js\<close>: numbers shown with a prefix, a
  suffix, a decimal mark and marks between groups of three digits, read back, limited and rounded.
  Values are strings of digits as \<open>toFixed\<close> makes them; the numbers between are exact
  rationals, written without exponent. Prefix, suffix and group mark are one character or empty: for longer ones the source
  builds regular expressions in which only the first character is escaped. Prefix and suffix are no space,
  of which the source would make a pattern that is an error. A mark is not taken literally everywhere: it
  is part of a replacement when digits are grouped, and escaped in a regular expression when it is removed.
\<close>

section \<open>Numbers as strings\<close>

text \<open>Whether \<open>parseFloat(s)==s\<close>\<close>

definition own_float :: "string \<Rightarrow> bool" where
  "own_float s = unsigned_decimal (snd (split_sign (js_trim s)))"

text \<open>\<open>x.toFixed(p)\<close>: the digits of the nearest multiple, halves away from zero, and the number they stand for\<close>

definition fixed_units :: "nat \<Rightarrow> rat \<Rightarrow> nat" where
  "fixed_units p x = nat \<lfloor>\<bar>x\<bar> * 10 ^ p + 1 / 2\<rfloor>"

definition pad_left :: "nat \<Rightarrow> string \<Rightarrow> string" where
  "pad_left n s = replicate (n - length s) (CHR ''0'') @ s"

definition fixed_string :: "nat \<Rightarrow> rat \<Rightarrow> string" where
  "fixed_string p x =
     (let n = fixed_units p x
      in (if x < 0 then ''-'' else '''') @
         (if p = 0 then show_nat n else show_nat (n div 10 ^ p) @ CHR ''.'' # pad_left p (show_nat (n mod 10 ^ p))))"

definition fixed_value :: "nat \<Rightarrow> rat \<Rightarrow> rat" where
  "fixed_value p x = (if x < 0 then -1 else 1) * of_nat (fixed_units p x) / 10 ^ p"

section \<open>Options\<close>

record number_opts =
  no_precision :: nat
  no_min :: "rat option"
  no_max :: "rat option"
  no_decimal :: char
  no_group :: "char option"
  no_prefix :: "char option"
  no_suffix :: "char option"

definition default_number :: number_opts where
  "default_number = \<lparr>no_precision = 0, no_min = None, no_max = None, no_decimal = CHR ''.'', no_group = None, no_prefix = None, no_suffix = None\<rparr>"

definition mark :: "char option \<Rightarrow> string" where
  "mark c = (case c of None \<Rightarrow> [] | Some d \<Rightarrow> [d])"

section \<open>Formatting\<close>

text \<open>
  The loop with the pattern \<open>(\d+)(\d{3})\<close>: the first run of more than three digits is split
  before its last three digits, as long as there is one. With a digit for a mark it would not end. The
  replacement is \<open>"$1"+groupSeparator+"$2"\<close>: a dollar for a mark makes its second half the escape \<open>$$\<close>
  and the character 2, and the three digits are lost.
\<close>

fun long_run :: "string \<Rightarrow> (string \<times> string \<times> string) option" where
  "long_run [] = None"
| "long_run (c # cs) =
     (if length (takeWhile is_digit (c # cs)) > 3 then Some ([], takeWhile is_digit (c # cs), dropWhile is_digit (c # cs))
      else case long_run cs of None \<Rightarrow> None | Some (u, r, v) \<Rightarrow> Some (c # u, r, v))"

partial_function (option) group_loop :: "char \<Rightarrow> string \<Rightarrow> string option" where
  "group_loop g s =
     (case long_run s of
        None \<Rightarrow> Some s
      | Some (u, r, v) \<Rightarrow> group_loop g (u @ take (length r - 3) r @ (if g = CHR ''$'' then ''$2'' else g # drop (length r - 3) r) @ v))"

declare group_loop.simps [code]

definition number_format :: "number_opts \<Rightarrow> string \<Rightarrow> string option" where
  "number_format ops v =
     (if v = '''' then Some ''''
      else let s1 = takeWhile (\<lambda>c. c \<noteq> CHR ''.'') v; s2 = tl (dropWhile (\<lambda>c. c \<noteq> CHR ''.'') v)
           in case (case no_group ops of None \<Rightarrow> Some s1 | Some g \<Rightarrow> group_loop g s1) of
                None \<Rightarrow> None
              | Some s \<Rightarrow> Some (mark (no_prefix ops) @ s @ (if s2 \<noteq> '''' then no_decimal ops # s2 else '''') @ mark (no_suffix ops)))"

section \<open>Parsing\<close>

text \<open>
  \<open>s.replace(new RegExp("\\"+e,"g"),t)\<close>: a backslash before a letter is a class of characters, a
  control character, a place between characters or, before a c with nothing after it, a backslash and a c;
  before a digit up to 7 the character of that code, and before anything else that character itself.
\<close>

definition word_char :: "char \<Rightarrow> bool" where
  "word_char c = (is_digit c \<or> c = CHR ''_'' \<or> 65 \<le> (of_char c :: nat) \<and> (of_char c :: nat) \<le> 90 \<or> 97 \<le> (of_char c :: nat) \<and> (of_char c :: nat) \<le> 122)"

definition escape_matches :: "char \<Rightarrow> char \<Rightarrow> bool" where
  "escape_matches e x =
     (if e = CHR ''d'' then is_digit x else if e = CHR ''D'' then \<not> is_digit x
      else if e = CHR ''w'' then word_char x else if e = CHR ''W'' then \<not> word_char x
      else if e = CHR ''s'' then is_space x else if e = CHR ''S'' then \<not> is_space x
      else if e = CHR ''t'' then of_char x = (9 :: nat) else if e = CHR ''n'' then of_char x = (10 :: nat)
      else if e = CHR ''v'' then of_char x = (11 :: nat) else if e = CHR ''f'' then of_char x = (12 :: nat)
      else if e = CHR ''r'' then of_char x = (13 :: nat)
      else if is_digit e \<and> digit_val e \<le> 7 then of_char x = digit_val e else x = e)"

definition word_boundary :: "string \<Rightarrow> nat \<Rightarrow> bool" where
  "word_boundary s i = ((0 < i \<and> word_char (s ! (i - 1))) \<noteq> (i < length s \<and> word_char (s ! i)))"

definition insert_places :: "(nat \<Rightarrow> bool) \<Rightarrow> string \<Rightarrow> string \<Rightarrow> string" where
  "insert_places P t s = concat (map (\<lambda>i. (if P i then t else []) @ (if i < length s then [s ! i] else [])) [0..<Suc (length s)])"

fun replace_control :: "string \<Rightarrow> string \<Rightarrow> string" where
  "replace_control t (x # y # s) =
     (if of_char x = (92 :: nat) \<and> y = CHR ''c'' then t @ replace_control t s else x # replace_control t (y # s))"
| "replace_control t s = s"

definition replace_escaped :: "char \<Rightarrow> string \<Rightarrow> string \<Rightarrow> string" where
  "replace_escaped e t s =
     (if e = CHR ''b'' then insert_places (word_boundary s) t s
      else if e = CHR ''B'' then insert_places (\<lambda>i. \<not> word_boundary s i) t s
      else if e = CHR ''c'' then replace_control t s
      else concat (map (\<lambda>x. if escape_matches e x then t else [x]) s))"

definition drop_mark :: "char option \<Rightarrow> string \<Rightarrow> string" where
  "drop_mark c s = (case c of None \<Rightarrow> s | Some d \<Rightarrow> js_trim (replace_escaped d '''' s))"

definition strip_marks :: "number_opts \<Rightarrow> string \<Rightarrow> string" where
  "strip_marks ops s =
     filter (\<lambda>c. \<not> is_space c)
       (js_trim (replace_escaped (no_decimal ops) ''.''
         (drop_mark (no_group ops) (drop_mark (no_suffix ops) (drop_mark (no_prefix ops) s)))))"

definition limit_number :: "number_opts \<Rightarrow> rat \<Rightarrow> string" where
  "limit_number ops x =
     (let p = no_precision ops; v = fixed_value p x
      in if (case no_min ops of None \<Rightarrow> False | Some m \<Rightarrow> v < m) then fixed_string p (the (no_min ops))
         else if (case no_max ops of None \<Rightarrow> False | Some m \<Rightarrow> v > m) then fixed_string p (the (no_max ops))
         else fixed_string p x)"

text \<open>What \<open>parseFloat\<close> takes for an infinite number is limited like a number; without a limit its name stays.\<close>

definition infinite_sign :: "string \<Rightarrow> int option" where
  "infinite_sign s = (case split_sign (dropWhile is_space s) of (sg, r) \<Rightarrow> if take 8 r = ''Infinity'' then Some sg else None)"

definition limit_infinite :: "number_opts \<Rightarrow> int \<Rightarrow> string" where
  "limit_infinite ops sg =
     (if sg < 0 then (case no_min ops of None \<Rightarrow> ''-Infinity'' | Some m \<Rightarrow> fixed_string (no_precision ops) m)
      else (case no_max ops of None \<Rightarrow> ''Infinity'' | Some m \<Rightarrow> fixed_string (no_precision ops) m))"

definition number_parse :: "number_opts \<Rightarrow> string \<Rightarrow> string" where
  "number_parse ops s0 =
     (let s = (if own_float s0 then s0 else strip_marks ops s0)
      in case parse_float s of
           Some x \<Rightarrow> limit_number ops x
         | None \<Rightarrow> (case infinite_sign s of None \<Rightarrow> '''' | Some sg \<Rightarrow> limit_infinite ops sg))"

section \<open>The field\<close>

record numberbox = textbox +
  nb_opts :: number_opts
  nb_value :: string

text \<open>\<open>_7\<close>; \<open>None\<close> if the formatter does not return\<close>

definition value_or :: "string \<Rightarrow> 'a textbox_scheme \<Rightarrow> string" where
  "value_or d t = (case get_value t of None \<Rightarrow> d | Some v \<Rightarrow> if v = '''' then d else v)"

definition put_number :: "string \<Rightarrow> numberbox \<Rightarrow> numberbox option" where
  "put_number v t =
     (case number_format (nb_opts t) v of
        None \<Rightarrow> None
      | Some f \<Rightarrow>
          let t1 = set_value v (set_text f (t\<lparr>nb_value := v\<rparr>))
          in case number_format (nb_opts t) (value_or '''' t1) of
               None \<Rightarrow> None
             | Some f2 \<Rightarrow> Some (set_text f2 t1))"

definition number_set :: "string \<Rightarrow> numberbox \<Rightarrow> numberbox option" where
  "number_set s t = put_number (number_parse (nb_opts t) s) t"

definition number_clear :: "numberbox \<Rightarrow> numberbox" where
  "number_clear t = (clear_text t)\<lparr>nb_value := ''''\<rparr>"

definition number_reset :: "numberbox \<Rightarrow> numberbox option" where
  "number_reset t = (let t1 = reset_text t in number_set (value_or '''' t1) t1)"

text \<open>\<open>filter\<close> of the key press: the characters that may be typed\<close>

definition key_allowed :: "number_opts \<Rightarrow> string \<Rightarrow> nat \<Rightarrow> bool \<Rightarrow> bool \<Rightarrow> bool" where
  "key_allowed ops s which ctrl shift =
     (if which = 13 then True
      else if which = 45 then CHR ''-'' \<notin> set s
      else let c = (char_of which :: char)
           in if which < 256 \<and> c = no_decimal ops then c \<notin> set s
              else if which < 256 \<and> Some c = no_group ops then True
              else if 48 \<le> which \<and> which \<le> 57 \<and> \<not> ctrl \<and> \<not> shift \<or> which = 0 \<or> which = 8 then True
              else ctrl \<and> (which = 99 \<or> which = 118))"

text \<open>The handlers \<open>blur\<close> and \<open>keydown\<close>\<close>

definition number_blur :: "numberbox \<Rightarrow> numberbox option" where
  "number_blur t =
     (let t = t\<lparr>tb_focus := False\<rparr>
      in if handlers_bound t then (let t = blur_text t in number_set (get_text t) t) else Some t)"

definition number_enter :: "numberbox \<Rightarrow> numberbox option" where
  "number_enter t = (if tb_focus t \<and> handlers_bound t then number_set (get_text t) t else Some t)"


text \<open>
  \<open>_1\<close>: a number box starts with its value option parsed. The number spinner sets its own value
  option once more and keeps it: \<open>_4\<close> falls back on it whenever the field is empty. Only a call of
  the method \<open>options\<close> brings it up to date.
\<close>

definition number_init :: "string \<Rightarrow> numberbox \<Rightarrow> numberbox option" where
  "number_init v t =
     (let v1 = number_parse (nb_opts t) v
      in map_option (\<lambda>f. set_text f (init_value v1 t)) (number_format (nb_opts t) v1))"

record numberspinner =
  nsp_box :: numberbox
  nsp_value :: string
  nsp_increment :: rat

definition spin_base :: "numberspinner \<Rightarrow> rat" where
  "spin_base s = (case parse_float (value_or (nsp_value s) (nsp_box s)) of None \<Rightarrow> 0 | Some x \<Rightarrow> x)"

definition spinner_set :: "string \<Rightarrow> numberspinner \<Rightarrow> numberspinner option" where
  "spinner_set v s = map_option (\<lambda>t. s\<lparr>nsp_box := t\<rparr>) (put_number v (nsp_box s))"

definition number_spin :: "bool \<Rightarrow> numberspinner \<Rightarrow> numberspinner option" where
  "number_spin down s =
     spinner_set (limit_number (nb_opts (nsp_box s)) (if down then spin_base s - nsp_increment s else spin_base s + nsp_increment s)) s"

definition spinner_init :: "string \<Rightarrow> numberspinner \<Rightarrow> numberspinner option" where
  "spinner_init v s =
     (case number_init v (nsp_box s) of
        None \<Rightarrow> None
      | Some t \<Rightarrow> map_option (\<lambda>t. s\<lparr>nsp_box := t, nsp_value := v\<rparr>) (number_set v t))"

definition spinner_options :: "numberspinner \<Rightarrow> numberspinner" where
  "spinner_options s = s\<lparr>nsp_value := nb_value (nsp_box s)\<rparr>"

section \<open>Groups of three digits\<close>

text \<open>The groups, from the right\<close>

function digit_groups :: "char \<Rightarrow> string \<Rightarrow> string" where
  "digit_groups g ds = (if length ds \<le> 3 then ds else digit_groups g (take (length ds - 3) ds) @ g # drop (length ds - 3) ds)"
  by pat_completeness auto
termination
  by (relation "measure (\<lambda>(g, ds). length ds)") auto

declare digit_groups.simps [simp del]

lemma long_run_skip: "\<not> is_digit c \<Longrightarrow> long_run (c # cs) = (case long_run cs of None \<Rightarrow> None | Some (u, r, v) \<Rightarrow> Some (c # u, r, v))"
  by simp

lemma long_run_short:
  assumes "\<forall>c \<in> set ds. is_digit c" "length ds \<le> 3" "rest = [] \<or> \<not> is_digit (hd rest)"
  shows "long_run (ds @ rest) = (case long_run rest of None \<Rightarrow> None | Some (u, r, v) \<Rightarrow> Some (ds @ u, r, v))"
  using assms(1,2)
proof (induction ds)
  case Nil
  then show ?case by (cases "long_run rest") auto
next
  case (Cons c cs)
  have "takeWhile is_digit ((c # cs) @ rest) = c # cs" by (rule takeWhile_digits) (use Cons.prems(1) assms(3) in auto)
  then show ?case using Cons by (auto split: option.split)
qed

lemma long_run_long:
  assumes "\<forall>c \<in> set ds. is_digit c" "length ds > 3" "rest = [] \<or> \<not> is_digit (hd rest)"
  shows "long_run (ds @ rest) = Some ([], ds, rest)"
proof -
  have t: "takeWhile is_digit (ds @ rest) = ds" by (rule takeWhile_digits [OF assms(1,3)])
  have "dropWhile is_digit (ds @ rest) = rest"
    using takeWhile_dropWhile_id [of is_digit "ds @ rest"] t by simp
  with t assms(2) show ?thesis by (cases "ds @ rest") auto
qed

lemma long_run_none: "long_run rest = None \<Longrightarrow> \<not> is_digit g \<Longrightarrow> \<forall>c \<in> set ds. is_digit c \<Longrightarrow> length ds \<le> 3 \<Longrightarrow> rest = [] \<or> \<not> is_digit (hd rest)
    \<Longrightarrow> long_run (g # ds @ rest) = None"
  by (simp add: long_run_short)

lemma group_loop_tail:
  assumes "\<not> is_digit g \<and> g \<noteq> CHR ''$''" "sg = [] \<or> sg = ''-''" "\<forall>c \<in> set ds. is_digit c" "long_run rest = None" "rest = [] \<or> \<not> is_digit (hd rest)"
  shows "group_loop g (sg @ ds @ rest) = Some (sg @ digit_groups g ds @ rest)"
  using assms(3-5)
proof (induction "length ds" arbitrary: ds rest rule: less_induct)
  case less
  have sg: "long_run (sg @ s) = (case long_run s of None \<Rightarrow> None | Some (u, r, v) \<Rightarrow> Some (sg @ u, r, v))" for s
    using assms(2) by (auto split: option.split)
  show ?case
  proof (cases "length ds \<le> 3")
    case True
    then have "long_run (sg @ ds @ rest) = None" using less.prems by (simp add: sg long_run_short)
    then show ?thesis using True by (subst group_loop.simps) (simp add: digit_groups.simps)
  next
    case False
    define a b where "a = take (length ds - 3) ds" and "b = drop (length ds - 3) ds"
    have ab: "ds = a @ b" "length b = 3" "length a < length ds" using False by (auto simp: a_def b_def)
    have "long_run (sg @ ds @ rest) = Some (sg, ds, rest)" using less.prems False by (simp add: sg long_run_long)
    then have "group_loop g (sg @ ds @ rest) = group_loop g (sg @ a @ g # b @ rest)"
      using assms(1) by (subst group_loop.simps) (simp add: a_def b_def)
    also have "\<dots> = Some (sg @ digit_groups g a @ g # b @ rest)"
    proof (rule less.hyps [OF ab(3)])
      show "long_run (g # b @ rest) = None" by (rule long_run_none) (use less.prems assms(1) ab in auto)
    qed (use less.prems assms(1) ab(1) in auto)
    also have "\<dots> = Some (sg @ digit_groups g ds @ rest)"
      using False by (subst (2) digit_groups.simps) (simp add: a_def b_def)
    finally show ?thesis .
  qed
qed

lemma group_loop_groups:
  assumes "\<not> is_digit g \<and> g \<noteq> CHR ''$''" "sg = [] \<or> sg = ''-''" "\<forall>c \<in> set ds. is_digit c"
  shows "group_loop g (sg @ ds) = Some (sg @ digit_groups g ds)"
  using group_loop_tail [OF assms, of "[]"] by simp

lemma digit_groups_filter: "\<not> K g \<Longrightarrow> \<forall>c \<in> set ds. K c \<Longrightarrow> filter K (digit_groups g ds) = ds"
proof (induction g ds rule: digit_groups.induct)
  case (1 g ds)
  show ?case
  proof (cases "length ds \<le> 3")
    case False
    have "\<forall>c \<in> set (take (length ds - 3) ds). K c" "\<forall>c \<in> set (drop (length ds - 3) ds). K c"
      using "1.prems" by (auto dest: in_set_takeD in_set_dropD)
    then show ?thesis using "1.IH" "1.prems"(1) False by (subst digit_groups.simps) (simp add: filter_id_conv)
  qed (use "1.prems" in \<open>simp add: digit_groups.simps filter_id_conv\<close>)
qed

lemma digit_groups_set: "set (digit_groups g ds) \<subseteq> insert g (set ds)"
proof (induction g ds rule: digit_groups.induct)
  case (1 g ds)
  then show ?case by (subst digit_groups.simps) (auto dest: in_set_takeD in_set_dropD)
qed


section \<open>Digits of rounded numbers\<close>

lemma digits_value_append: "digits_value (xs @ ys) = digits_value xs * 10 ^ length ys + digits_value ys"
proof (induction ys rule: rev_induct)
  case (snoc y ys)
  have "digits_value (xs @ ys @ [y]) = 10 * digits_value (xs @ ys) + digit_val y" using digits_value_snoc [of "xs @ ys" y] by simp
  then show ?case using snoc by (simp add: digits_value_snoc algebra_simps)
qed (simp add: digits_value_def)

lemma digits_value_pad: "digits_value (pad_left n s) = digits_value s"
proof -
  have "digits_value (replicate k (CHR ''0'') @ s) = digits_value s" for k
    by (induction k) (simp_all add: digits_value_zero)
  then show ?thesis by (simp add: pad_left_def)
qed

lemma length_show_nat: "m < 10 ^ p \<Longrightarrow> 0 < p \<Longrightarrow> length (show_nat m) \<le> p"
proof (induction m arbitrary: p rule: show_nat.induct)
  case (1 m)
  show ?case
  proof (cases "m < 10")
    case False
    obtain q where q: "p = Suc q" using "1.prems"(2) by (cases p) auto
    have "0 < q" using False "1.prems"(1) q by (cases q) auto
    note q = q this
    have "m div 10 < 10 ^ q" using "1.prems"(1) q(1) by (simp add: div_less_iff_less_mult mult.commute)
    from "1.IH" [OF False this q(2)] show ?thesis using False q by (subst show_nat.simps) simp
  qed (use "1.prems" in \<open>simp add: show_nat_1\<close>)
qed

lemma pad_left_digits: "m < 10 ^ p \<Longrightarrow> 0 < p \<Longrightarrow> length (pad_left p (show_nat m)) = p"
  using length_show_nat by (simp add: pad_left_def)

lemma pad_left_all: "\<forall>c \<in> set (pad_left p (show_nat m)). is_digit c"
  using show_nat_digits [of m] by (auto simp: pad_left_def is_digit_def)

text \<open>A value of the field: \<open>k\<close> units of the last digit\<close>

definition units :: "nat \<Rightarrow> int \<Rightarrow> rat" where
  "units p k = of_int k / 10 ^ p"

definition sign_text :: "int \<Rightarrow> string" where
  "sign_text k = (if k < 0 then ''-'' else '''')"

definition whole_text :: "nat \<Rightarrow> int \<Rightarrow> string" where
  "whole_text p k = show_nat (nat \<bar>k\<bar> div 10 ^ p)"

definition frac_text :: "nat \<Rightarrow> int \<Rightarrow> string" where
  "frac_text p k = (if p = 0 then '''' else pad_left p (show_nat (nat \<bar>k\<bar> mod 10 ^ p)))"

lemma fixed_units_units: "fixed_units p (units p k) = nat \<bar>k\<bar>"
proof -
  have "\<bar>units p k\<bar> * 10 ^ p = of_int \<bar>k\<bar>" by (simp add: units_def abs_mult)
  then have "\<lfloor>\<bar>units p k\<bar> * 10 ^ p + 1 / 2\<rfloor> = \<bar>k\<bar>" by (simp only: floor_eq_iff) simp
  then show ?thesis by (simp add: fixed_units_def)
qed

lemma units_neg: "units p k < 0 \<longleftrightarrow> k < 0"
  by (simp add: units_def divide_less_0_iff)

lemma fixed_string_units: "fixed_string p (units p k) = sign_text k @ whole_text p k @ (if p = 0 then '''' else CHR ''.'' # frac_text p k)"
  by (simp add: fixed_string_def Let_def fixed_units_units units_neg sign_text_def whole_text_def frac_text_def)

lemma fixed_value_units: "fixed_value p (units p k) = units p k"
  by (simp add: fixed_value_def fixed_units_units units_neg) (simp add: units_def)

lemma text_digits:
  "\<forall>c \<in> set (whole_text p k). is_digit c" "whole_text p k \<noteq> ''''" "\<forall>c \<in> set (frac_text p k). is_digit c" "(frac_text p k = '''') = (p = 0)"
proof -
  show "\<forall>c \<in> set (whole_text p k). is_digit c" using show_nat_digits by (simp add: whole_text_def)
  show "\<forall>c \<in> set (frac_text p k). is_digit c" using pad_left_all by (simp add: frac_text_def)
  have "length (frac_text p k) = p" using pad_left_digits [of "nat \<bar>k\<bar> mod 10 ^ p" p] by (auto simp: frac_text_def)
  then show "(frac_text p k = '''') = (p = 0)" by (metis length_0_conv)
qed (simp add: whole_text_def)

lemma digits_of_text: "digits_value (whole_text p k @ frac_text p k) = nat \<bar>k\<bar>" "length (frac_text p k) = p"
proof -
  show l: "length (frac_text p k) = p" using pad_left_digits [of "nat \<bar>k\<bar> mod 10 ^ p" p] by (auto simp: frac_text_def)
  show "digits_value (whole_text p k @ frac_text p k) = nat \<bar>k\<bar>"
  proof (cases "p = 0")
    case False
    then show ?thesis
      using div_mult_mod_eq [of "nat \<bar>k\<bar>" "10 ^ p"]
      by (simp add: digits_value_append l) (simp add: whole_text_def frac_text_def digits_value_pad)
  qed (simp add: whole_text_def frac_text_def)
qed

lemma parse_float_digits:
  assumes "\<forall>c \<in> set ip. is_digit c" "ip \<noteq> ''''" "\<forall>c \<in> set fp. is_digit c"
  shows "parse_float (sign_text k @ ip @ (if fp = '''' then '''' else CHR ''.'' # fp))
    = Some ((if k < 0 then -1 else 1) * of_nat (digits_value (ip @ fp)) / 10 ^ length fp)"
proof -
  obtain d ds where ip: "ip = d # ds" "is_digit d" using assms(1,2) by (cases ip) auto
  define r where "r = (if fp = '''' then '''' else CHR ''.'' # fp)"
  have sp: "split_sign (dropWhile is_space (sign_text k @ ip @ r)) = (if k < 0 then -1 else 1, ip @ r)"
    using ip by (auto simp: sign_text_def split_sign_def is_digit_not_space)
  have t: "takeWhile is_digit (ip @ r) = ip" by (rule takeWhile_digits [OF assms(1)]) (simp add: r_def)
  have d: "dropWhile is_digit (ip @ r) = r" using takeWhile_dropWhile_id [of is_digit "ip @ r"] t by simp
  have f: "takeWhile is_digit fp = fp" "dropWhile is_digit fp = []" using assms(3) by (simp_all add: takeWhile_eq_all_conv)
  show ?thesis
    unfolding r_def [symmetric] parse_float_def sp prod.case Let_def t d
    using assms(2) by (simp add: r_def f)
qed

lemma parse_fixed: "parse_float (fixed_string p (units p k)) = Some (units p k)"
proof -
  have "(if k < 0 then - 1 else 1) * (of_nat (nat \<bar>k\<bar>) :: rat) = of_int k" by simp
  then show ?thesis
    using parse_float_digits [OF text_digits(1) [of p k] text_digits(2) text_digits(3) [of p k], of k]
    by (simp add: fixed_string_units text_digits(4) digits_of_text) (simp add: units_def)
qed

section \<open>Formatting and parsing\<close>

definition plain_mark :: "char \<Rightarrow> bool" where
  "plain_mark c = (\<not> is_digit c \<and> \<not> is_space c \<and> c \<notin> set ''-+eEbBcdDfnrsStvwW'')"

definition plain_options :: "number_opts \<Rightarrow> bool" where
  "plain_options ops =
     (plain_mark (no_decimal ops) \<and> no_group ops \<noteq> Some (CHR ''$'') \<and>
      list_all (\<lambda>m. case m of None \<Rightarrow> True | Some c \<Rightarrow> plain_mark c \<and> c \<noteq> CHR ''.'' \<and> c \<noteq> no_decimal ops)
        [no_group ops, no_prefix ops, no_suffix ops])"

lemma replace_plain: "plain_mark d \<Longrightarrow> replace_escaped d t s = concat (map (\<lambda>x. if x = d then t else [x]) s)"
proof -
  assume d: "plain_mark d"
  then have "escape_matches d = (\<lambda>x. x = d)"
    by (intro ext) (simp add: escape_matches_def plain_mark_def)
  with d show ?thesis by (simp add: replace_escaped_def plain_mark_def)
qed

lemma replace_plain_none: "plain_mark d \<Longrightarrow> replace_escaped d '''' s = filter (\<lambda>x. x \<noteq> d) s"
  by (induction s) (auto simp: replace_plain)

lemma replace_plain_one: "plain_mark d \<Longrightarrow> replace_escaped d [e] s = map (\<lambda>x. if x = d then e else x) s"
  by (induction s) (auto simp: replace_plain)

definition shown_whole :: "number_opts \<Rightarrow> string \<Rightarrow> string" where
  "shown_whole ops ds = (case no_group ops of None \<Rightarrow> ds | Some g \<Rightarrow> digit_groups g ds)"

lemma format_fixed:
  assumes "plain_options ops" "p = no_precision ops"
  shows "number_format ops (fixed_string p (units p k)) =
    Some (mark (no_prefix ops) @ (sign_text k @ shown_whole ops (whole_text p k) @ (if p = 0 then '''' else no_decimal ops # frac_text p k)) @ mark (no_suffix ops))"
proof -
  have dot: "c \<in> set (sign_text k @ whole_text p k) \<Longrightarrow> c \<noteq> CHR ''.''" for c
    using text_digits(1) [of p k] by (auto simp: sign_text_def split: if_splits)
  have t: "takeWhile (\<lambda>c. c \<noteq> CHR ''.'') (fixed_string p (units p k)) = sign_text k @ whole_text p k"
    "tl (dropWhile (\<lambda>c. c \<noteq> CHR ''.'') (fixed_string p (units p k))) = frac_text p k"
    using dot takeWhile_append2 [of "sign_text k @ whole_text p k" "\<lambda>c. c \<noteq> CHR ''.''"] dropWhile_append2 [of "sign_text k @ whole_text p k" "\<lambda>c. c \<noteq> CHR ''.''"]
    by (auto simp: fixed_string_units frac_text_def)
  have g: "(case no_group ops of None \<Rightarrow> Some (sign_text k @ whole_text p k) | Some g \<Rightarrow> group_loop g (sign_text k @ whole_text p k))
      = Some (sign_text k @ shown_whole ops (whole_text p k))"
    using assms(1) group_loop_groups [OF _ _ text_digits(1), of _ "sign_text k"]
    by (auto simp: shown_whole_def plain_options_def plain_mark_def sign_text_def split: option.split)
  have "fixed_string p (units p k) \<noteq> ''''" by (simp add: fixed_string_units text_digits(2))
  then show ?thesis by (simp add: number_format_def Let_def t g text_digits(4))
qed

lemma js_trim_free: "\<forall>c \<in> set s. \<not> is_space c \<Longrightarrow> js_trim s = s"
  by (rule js_trim_id) (cases "s = []", auto)


text \<open>Stripping a text without spaces removes the marks and puts the point back.\<close>

definition kept :: "number_opts \<Rightarrow> char \<Rightarrow> bool" where
  "kept ops c = (no_group ops \<noteq> Some c \<and> no_prefix ops \<noteq> Some c \<and> no_suffix ops \<noteq> Some c)"

lemma drop_mark_free: "\<forall>c \<in> set s. \<not> is_space c \<Longrightarrow> \<forall>d. m = Some d \<longrightarrow> plain_mark d \<Longrightarrow> drop_mark m s = filter (\<lambda>c. m \<noteq> Some c) s"
proof (cases m)
  case (Some d)
  assume "\<forall>c \<in> set s. \<not> is_space c" and plain: "\<forall>d. m = Some d \<longrightarrow> plain_mark d"
  then have "js_trim (filter (\<lambda>x. x \<noteq> d) s) = filter (\<lambda>x. x \<noteq> d) s" by (intro js_trim_free) simp
  moreover have "filter (\<lambda>x. x \<noteq> d) s = filter (\<lambda>c. m \<noteq> Some c) s" using Some by (intro filter_cong) auto
  moreover have "plain_mark d" using plain Some by simp
  ultimately show ?thesis by (simp add: drop_mark_def replace_plain_none Some)
qed (simp add: drop_mark_def)

lemma strip_free:
  assumes "\<forall>c \<in> set s. \<not> is_space c" "plain_options ops"
  shows "strip_marks ops s = map (\<lambda>c. if c = no_decimal ops then CHR ''.'' else c) (filter (kept ops) s)"
proof -
  have m: "\<forall>d. no_group ops = Some d \<longrightarrow> plain_mark d" "\<forall>d. no_suffix ops = Some d \<longrightarrow> plain_mark d"
    "\<forall>d. no_prefix ops = Some d \<longrightarrow> plain_mark d" "plain_mark (no_decimal ops)"
    using assms(2) by (auto simp: plain_options_def)
  have "drop_mark (no_group ops) (drop_mark (no_suffix ops) (drop_mark (no_prefix ops) s)) = filter (kept ops) s"
    using assms(1) m(1-3) by (simp add: drop_mark_free) (rule filter_cong, auto simp: kept_def)
  moreover have "\<forall>c \<in> set (map (\<lambda>c. if c = no_decimal ops then CHR ''.'' else c) (filter (kept ops) s)). \<not> is_space c"
    using assms(1) by (auto simp: is_space_def)
  ultimately show ?thesis by (simp add: strip_marks_def replace_plain_one [OF m(4)] js_trim_free filter_id_conv)
qed

lemma plain_facts:
  assumes "plain_options ops"
  shows "is_digit c \<Longrightarrow> kept ops c" "kept ops (CHR ''-'')" "kept ops (no_decimal ops)" "no_decimal ops \<noteq> CHR ''-''" "\<not> is_digit (no_decimal ops)"
    and "no_group ops = Some c \<Longrightarrow> \<not> is_digit c \<and> \<not> is_space c \<and> \<not> kept ops c" "no_prefix ops = Some c \<Longrightarrow> \<not> is_space c \<and> \<not> kept ops c"
    and "no_suffix ops = Some c \<Longrightarrow> \<not> is_space c \<and> \<not> kept ops c" "\<not> is_space (no_decimal ops)"
    and "c \<in> set ''.-+eE'' \<Longrightarrow> kept ops c" "no_decimal ops \<notin> set ''-+eE''"
  using assms by (auto simp: plain_options_def plain_mark_def kept_def split: option.splits)

definition shown_number :: "number_opts \<Rightarrow> nat \<Rightarrow> int \<Rightarrow> string" where
  "shown_number ops p k = mark (no_prefix ops) @ (sign_text k @ shown_whole ops (whole_text p k) @ (if p = 0 then '''' else no_decimal ops # frac_text p k)) @ mark (no_suffix ops)"

lemma strip_shown:
  assumes "plain_options ops"
  shows "strip_marks ops (shown_number ops p k) = fixed_string p (units p k)" "\<forall>c \<in> set (shown_number ops p k). \<not> is_space c"
proof -
  note f = plain_facts [OF assms] and d = text_digits [of p k]
  have whole: "filter (kept ops) (shown_whole ops (whole_text p k)) = whole_text p k"
    using f(1,6) d(1) digit_groups_filter [of "kept ops"] by (auto simp: shown_whole_def filter_id_conv split: option.split)
  have "set (shown_whole ops (whole_text p k)) \<subseteq> {c. is_digit c \<or> no_group ops = Some c}"
    using d(1) digit_groups_set by (auto simp: shown_whole_def split: option.splits)
  then show free: "\<forall>c \<in> set (shown_number ops p k). \<not> is_space c"
    using f(6-9) d(3) by (auto simp: shown_number_def mark_def sign_text_def is_digit_not_space split: option.splits)
  have marks: "filter (kept ops) (mark (no_prefix ops)) = []" "filter (kept ops) (mark (no_suffix ops)) = []"
    using f(7,8) by (auto simp: mark_def split: option.split)
  have "filter (kept ops) (sign_text k) = sign_text k" using f(2) by (simp add: sign_text_def)
  moreover have "filter (kept ops) (frac_text p k) = frac_text p k" using d(3) f(1) by (simp add: filter_id_conv)
  ultimately have "filter (kept ops) (shown_number ops p k) = sign_text k @ whole_text p k @ (if p = 0 then '''' else no_decimal ops # frac_text p k)"
    using f(3) by (simp add: shown_number_def marks whole)
  moreover have "map (\<lambda>c. if c = no_decimal ops then CHR ''.'' else c) xs = xs" if "\<forall>c \<in> set xs. is_digit c \<or> c = CHR ''-''" for xs
    using that f(4,5) by (intro map_idI) auto
  ultimately show "strip_marks ops (shown_number ops p k) = fixed_string p (units p k)"
    unfolding strip_free [OF free assms] using d by (simp add: fixed_string_units sign_text_def)
qed

lemma unsigned_decimal_chars:
  assumes "unsigned_decimal u" "u \<noteq> ''Infinity''" "c \<in> set u"
  shows "is_digit c \<or> c \<in> set ''.-+eE''"
proof -
  have ex: "is_digit c \<or> c \<in> set ''-+eE''" if e: "exponent_part v" and c: "c \<in> set v" for v
  proof -
    obtain x xs where v: "v = x # xs" using c by (cases v) auto
    then have x: "x = CHR ''e'' \<or> x = CHR ''E''" and xs: "list_all is_digit (snd (split_sign xs))"
      using e by (auto simp: exponent_part_def Let_def)
    from xs have "c \<in> set xs \<Longrightarrow> is_digit c \<or> c \<in> set ''-+''"
      by (cases xs) (auto simp: split_sign_def list_all_iff split: if_splits)
    with c v x show ?thesis by auto
  qed
  define r where "r = dropWhile is_digit u"
  have parts: "set u = set (takeWhile is_digit u) \<union> set r" unfolding r_def by (metis set_append takeWhile_dropWhile_id)
  have "is_digit c" if "c \<in> set (takeWhile is_digit xs)" for xs using that by (rule set_takeWhileD [THEN conjunct2])
  moreover have "is_digit c \<or> c \<in> set ''.-+eE''" if "c \<in> set r"
  proof (cases "r \<noteq> [] \<and> hd r = CHR ''.''")
    case True
    then have "exponent_part (dropWhile is_digit (tl r))" using assms(1,2) by (simp add: unsigned_decimal_def Let_def r_def)
    moreover have "set r = {CHR ''.''} \<union> set (takeWhile is_digit (tl r)) \<union> set (dropWhile is_digit (tl r))"
      using True by (cases r) (auto simp flip: set_append)
    ultimately show ?thesis using ex [of "dropWhile is_digit (tl r)"] that by (auto dest: set_takeWhileD)
  next
    case False
    then have "exponent_part r" using assms(1,2) by (auto simp: unsigned_decimal_def Let_def r_def)
    from ex [OF this that] show ?thesis by auto
  qed
  ultimately show ?thesis using assms(3) parts by auto
qed

lemma own_float_strip:
  assumes "plain_options ops" "own_float s" "\<forall>c \<in> set s. \<not> is_space c" "\<exists>c \<in> set s. is_digit c"
  shows "strip_marks ops s = s"
proof -
  note f = plain_facts [OF assms(1)]
  define u where "u = snd (split_sign s)"
  have u: "unsigned_decimal u" using assms(2) by (simp add: own_float_def js_trim_free [OF assms(3)] u_def)
  have su: "set s \<subseteq> set u \<union> {CHR ''-'', CHR ''+''}" by (cases s) (auto simp: u_def split_sign_def)
  then obtain c where "c \<in> set u" "is_digit c" using assms(4) by auto
  then have "u \<noteq> ''Infinity''" by (auto simp: is_digit_def)
  from unsigned_decimal_chars [OF u this] su have ch: "\<forall>c \<in> set s. is_digit c \<or> c \<in> set ''.-+eE''" by auto
  then have "filter (kept ops) s = s" using f(1,10) by (auto simp: filter_id_conv)
  moreover have "map (\<lambda>c. if c = no_decimal ops then CHR ''.'' else c) s = s"
    using ch f(5,11) by (intro map_idI) auto
  ultimately show ?thesis by (simp add: strip_free [OF assms(3,1)])
qed

lemma parse_shown:
  assumes "plain_options ops"
  shows "number_parse ops (shown_number ops p k) = limit_number ops (units p k)"
proof -
  note s = strip_shown [OF assms, of p k]
  obtain d ds where "whole_text p k = d # ds" using text_digits(2) [of p k] by (cases "whole_text p k") auto
  moreover have "set (whole_text p k) \<subseteq> set (shown_whole ops (whole_text p k))"
  proof -
    have "set (filter (kept ops) (shown_whole ops (whole_text p k))) \<subseteq> set (shown_whole ops (whole_text p k))" by simp
    moreover have "filter (kept ops) (shown_whole ops (whole_text p k)) = whole_text p k"
      using plain_facts(1,6) [OF assms] text_digits(1) digit_groups_filter [of "kept ops"] by (auto simp: shown_whole_def filter_id_conv split: option.split)
    ultimately show ?thesis by simp
  qed
  ultimately have "d \<in> set (shown_number ops p k)" "is_digit d" using text_digits(1) [of p k] by (auto simp: shown_number_def)
  then have "own_float (shown_number ops p k) \<Longrightarrow> strip_marks ops (shown_number ops p k) = shown_number ops p k"
    using own_float_strip [OF assms _ s(2)] by blast
  then have "(if own_float (shown_number ops p k) then shown_number ops p k else strip_marks ops (shown_number ops p k)) = fixed_string p (units p k)"
    using s(1) by auto
  then show ?thesis by (simp add: number_parse_def Let_def parse_fixed)
qed


text \<open>The values a field can hold, and the contract of a field on them\<close>

definition in_limits :: "number_opts \<Rightarrow> rat \<Rightarrow> bool" where
  "in_limits ops x = ((case no_min ops of None \<Rightarrow> True | Some m \<Rightarrow> m \<le> x) \<and> (case no_max ops of None \<Rightarrow> True | Some m \<Rightarrow> x \<le> m))"

definition number_ok :: "number_opts \<Rightarrow> string \<Rightarrow> bool" where
  "number_ok ops v = (plain_options ops \<and>
     (\<exists>k. v = fixed_string (no_precision ops) (units (no_precision ops) k) \<and> in_limits ops (units (no_precision ops) k)))"

lemma limit_inside: "in_limits ops (units (no_precision ops) k) \<Longrightarrow>
    limit_number ops (units (no_precision ops) k) = fixed_string (no_precision ops) (units (no_precision ops) k)"
  by (auto simp: limit_number_def Let_def fixed_value_units in_limits_def split: option.splits)

lemma number_ok_round:
  assumes "number_ok ops v"
  shows "number_format ops v \<noteq> None" "number_parse ops (the (number_format ops v)) = v"
proof -
  from assms obtain k where v: "plain_options ops" "v = fixed_string (no_precision ops) (units (no_precision ops) k)" "in_limits ops (units (no_precision ops) k)"
    by (auto simp: number_ok_def)
  note f = format_fixed [OF v(1) refl, folded shown_number_def, of k]
  show "number_format ops v \<noteq> None" "number_parse ops (the (number_format ops v)) = v"
    using f parse_shown [OF v(1), of "no_precision ops" k] limit_inside [OF v(3)] by (simp_all add: v(2))
qed

interpretation number_codec: field_codec "\<lambda>v. the (number_format ops v)" "number_parse ops" "number_ok ops" for ops
  by unfold_locales (rule number_ok_round)

section \<open>The properties\<close>

text \<open>
  C20. The loop that puts group marks into a number ends for every mark that is neither a digit nor the
  dollar sign, and its result is the sign and the digits with a mark after every three digits from the
  right.
\<close>

theorem grouping_in_threes:
  assumes "\<not> is_digit g" "g \<noteq> CHR ''$''" "sg = '''' \<or> sg = ''-''" "\<forall>c \<in> set ds. is_digit c"
  shows "group_loop g (sg @ ds) = Some (sg @ digit_groups g ds)"
  by (rule group_loop_groups) (use assms in auto)

theorem grouping_in_threes_witness:
  "group_loop (CHR '','') ''-1234567'' = Some ''-1,234,567'' \<and> digit_groups (CHR '','') ''1234567'' = ''1,234,567''"
proof -
  have g: "digit_groups (CHR '','') ''1234567'' = ''1,234,567''" by (simp add: digit_groups.simps)
  have "\<not> is_digit (CHR '','')" "\<forall>c \<in> set ''1234567''. is_digit c" by (simp_all add: is_digit_def)
  from grouping_in_threes [OF this(1) _ _ this(2), of "''-''"] g show ?thesis by simp
qed

text \<open>With the dollar sign three digits of every group but the first are lost.\<close>

lemma dollar_group_lost:
  assumes "\<forall>c \<in> set ds. is_digit c" "3 < length ds" "length ds \<le> 6"
  shows "group_loop (CHR ''$'') ds = Some (take (length ds - 3) ds @ ''$2'')"
proof -
  have "long_run ds = Some ([], ds, [])" using long_run_long [of ds "[]"] assms(1,2) by simp
  moreover have "long_run (take (length ds - 3) ds @ ''$2'') = None"
  proof -
    have "\<forall>c \<in> set (take (length ds - 3) ds). is_digit c" using assms(1) by (auto dest: in_set_takeD)
    moreover have "length (take (length ds - 3) ds) \<le> 3" "\<not> is_digit (hd ''$2'')" "long_run ''$2'' = None" using assms(3) by (simp_all add: is_digit_def)
    ultimately show ?thesis by (simp add: long_run_short)
  qed
  ultimately show ?thesis by (simp add: group_loop.simps [of _ ds] group_loop.simps [of _ "take (length ds - 3) ds @ ''$2''"])
qed

text \<open>A letter for a mark can take the digits with it: of a text that is no number, \<open>d\<close> removes every digit.\<close>

lemma letter_mark_removes_digits:
  "drop_mark (Some (CHR ''d'')) ''1d234'' = ''d'' \<and> drop_mark (Some (CHR ''b'')) ''12b'' = ''12b''"
  by code_simp

text \<open>
  C21. A number shown with prefix, suffix, group marks and decimal mark is read back as the same
  value, when the marks are neither digits, spaces, signs, letters of an exponent nor letters that mean
  something else after a backslash, the group mark is not the dollar sign, the group mark, prefix and
  suffix are not the point and differ from the decimal mark, and the value is within the limits.
\<close>

theorem number_roundtrip:
  assumes "plain_options ops" "v = fixed_string (no_precision ops) (units (no_precision ops) k)" "in_limits ops (units (no_precision ops) k)"
  shows "\<exists>s. number_format ops v = Some s \<and> number_parse ops s = v"
proof -
  have "number_ok ops v" using assms by (auto simp: number_ok_def)
  from number_ok_round(1) [OF this] number_codec.round [OF this] show ?thesis by auto
qed

definition dollars :: number_opts where
  "dollars = default_number\<lparr>no_precision := 2, no_min := Some (- 10), no_group := Some (CHR '',''), no_prefix := Some (CHR ''$'')\<rparr>"

theorem number_roundtrip_witness:
  "number_format dollars ''1234567.05'' = Some ''$1,234,567.05'' \<and> number_parse dollars ''$1,234,567.05'' = ''1234567.05''"
proof -
  have o: "plain_options dollars" "no_precision dollars = 2" "in_limits dollars (units 2 123456705)"
    by (simp_all add: dollars_def default_number_def plain_options_def plain_mark_def is_digit_def is_space_def in_limits_def units_def)
  have w: "whole_text 2 123456705 = ''1234567''" "frac_text 2 123456705 = ''05''"
    by (simp_all add: whole_text_def frac_text_def show_nat.simps digit_char_def pad_left_def)
  have v: "fixed_string 2 (units 2 123456705) = ''1234567.05''" by (simp add: fixed_string_units w sign_text_def)
  obtain s where s: "number_format dollars ''1234567.05'' = Some s" "number_parse dollars s = ''1234567.05''"
    using number_roundtrip [OF o(1) refl, of 123456705] o(2,3) v by auto
  have "number_format dollars ''1234567.05'' = Some ''$1,234,567.05''"
    using format_fixed [OF o(1) refl, of 123456705] unfolding o(2) v w
    by (simp add: dollars_def default_number_def mark_def sign_text_def shown_whole_def digit_groups.simps)
  with s show ?thesis by simp
qed

definition german :: number_opts where
  "german = default_number\<lparr>no_decimal := CHR '','', no_group := Some (CHR ''.'')\<rparr>"

lemma show_nat_split:
  assumes "1000 \<le> n"
  shows "show_nat n = show_nat (n div 1000) @ [digit_char (n div 100 mod 10), digit_char (n div 10 mod 10), digit_char (n mod 10)]"
proof -
  have "n div 10 div 10 = n div 100" "n div 100 div 10 = n div 1000" by (simp_all add: div_mult2_eq [symmetric])
  moreover have "10 \<le> n div 100" "100 \<le> n div 10" using div_le_mono [OF assms, of 100] div_le_mono [OF assms, of 10] by simp_all
  ultimately show ?thesis using assms by (simp add: show_nat.simps [of n] show_nat.simps [of "n div 10"] show_nat.simps [of "n div 100"])
qed

text \<open>
  C22. With the point as group mark and no decimals, a number of four to six digits is read back as
  a thousandth of itself: the text with one point is a number already and keeps its point.
\<close>

theorem thousands_misread:
  assumes "1000 \<le> n" "n < 1000000"
  shows "number_parse german (the (number_format german (show_nat n))) = fixed_string 0 (of_nat n / 1000)"
proof -
  define a where "a = show_nat (n div 1000)"
  define b where "b = [digit_char (n div 100 mod 10), digit_char (n div 10 mod 10), digit_char (n mod 10)]"
  have ab: "show_nat n = a @ b" "length b = 3" using show_nat_split [OF assms(1)] by (simp_all add: a_def b_def)
  have dig: "\<forall>c \<in> set a. is_digit c" "\<forall>c \<in> set b. is_digit c" "a \<noteq> ''''" using show_nat_digits [of n] ab(1) by (auto simp: a_def)
  have "n div 1000 < 10 ^ 3" using assms(2) by (simp add: div_less_iff_less_mult)
  then have la: "length a \<le> 3" using length_show_nat [of "n div 1000" 3] by (simp add: a_def)
  have "0 < length a" using dig(3) by simp
  then have gr: "digit_groups (CHR ''.'') (show_nat n) = a @ CHR ''.'' # b" using ab la by (simp add: digit_groups.simps [of _ "a @ b"] digit_groups.simps [of _ a])
  have g: "group_loop (CHR ''.'') (show_nat n) = Some (a @ CHR ''.'' # b)"
    using group_loop_groups [of "CHR ''.''" "''''" "show_nat n"] show_nat_digits gr by simp
  have nd: "\<forall>c \<in> set (show_nat n). c \<noteq> CHR ''.''" using show_nat_digits [of n] by auto
  then have tk: "takeWhile (\<lambda>c. c \<noteq> CHR ''.'') (show_nat n) = show_nat n" "dropWhile (\<lambda>c. c \<noteq> CHR ''.'') (show_nat n) = []"
    by (simp_all add: takeWhile_eq_all_conv)
  have "show_nat n \<noteq> ''''" using dig(3) by (simp add: ab(1))
  then have f: "number_format german (show_nat n) = Some (a @ CHR ''.'' # b)"
    by (simp add: number_format_def Let_def german_def default_number_def mark_def tk g)
  define t where "t = a @ CHR ''.'' # b"
  obtain d ds where ad: "a = d # ds" "is_digit d" using dig(1,3) by (cases a) auto
  have tw: "takeWhile is_digit t = a" unfolding t_def by (rule takeWhile_digits [OF dig(1)]) simp
  then have dw: "dropWhile is_digit t = CHR ''.'' # b" using takeWhile_dropWhile_id [of is_digit t] by (simp add: t_def)
  have "takeWhile is_digit b = b" "dropWhile is_digit b = []" using dig(2) by (simp_all add: takeWhile_eq_all_conv)
  moreover have "t \<noteq> ''Infinity''" using dig ad by (auto simp: t_def is_digit_def)
  ultimately have ud: "unsigned_decimal t" using tw dw dig(3) by (simp add: unsigned_decimal_def exponent_part_def)
  have "split_sign t = (1, t)" using ad by (auto simp: t_def split_sign_def)
  moreover have "js_trim t = t" using dig is_digit_not_space by (intro js_trim_free) (auto simp: t_def is_space_def)
  ultimately have own: "own_float t" using ud by (simp add: own_float_def)
  have "b \<noteq> []" using ab(2) by auto
  then have "parse_float t = Some (of_nat n / 1000)"
    using parse_float_digits [OF dig(1,3,2), of 0] ab digits_value_show_nat [of n] by (auto simp: t_def sign_text_def)
  moreover have "limit_number german (of_nat n / 1000) = fixed_string 0 (of_nat n / 1000)"
    by (simp add: limit_number_def german_def default_number_def)
  ultimately show ?thesis using own by (simp add: f t_def [symmetric] number_parse_def)
qed

theorem thousands_misread_witness: "number_parse german (the (number_format german ''1234'')) = ''1''"
proof -
  have s: "show_nat 1234 = ''1234''" by (simp add: show_nat.simps digit_char_def)
  have "\<lfloor>867 / 500 :: rat\<rfloor> = 1" by (simp add: floor_eq_iff)
  then have "fixed_units 0 (of_nat 1234 / 1000) = 1" by (simp add: fixed_units_def)
  then have "fixed_string 0 (of_nat 1234 / 1000) = ''1''" by (simp add: fixed_string_def show_nat.simps digit_char_def)
  with thousands_misread [of 1234] s show ?thesis by simp
qed

end
