(* ===== verification/Parser.thy ===== *)
theory Parser
  imports EasyLoader
begin

text \<open>
  \<open>plugins/jquery.parser.js\<close>: the options a widget reads from its element, the sizes computed from
  them, the bookkeeping of children that fill their parent, the page scan that hands the missing
  plugins to the loader, and the mouse events made from touches.
  An option is a string, a number or a boolean; \<open>undefined\<close> is a missing entry of the map. The value
  of the attribute \<open>data-options\<close> is JavaScript and is evaluated by the host: \<open>run\<close> is a parameter.
  Numbers are printed without exponent and \<open>Infinity\<close> is no number here.
\<close>

section \<open>Options\<close>

datatype jsval = JStr string | JNum rat | JBool bool

datatype jskind = StrKind | NumKind | BoolKind

fun kind_of :: "jsval \<Rightarrow> jskind" where
  "kind_of (JStr s) = StrKind"
| "kind_of (JNum x) = NumKind"
| "kind_of (JBool b) = BoolKind"

type_synonym options = "string \<Rightarrow> jsval option"

datatype declared = PlainOption string | TypedOptions "(string \<times> string) list"

record page_element =
  el_attr :: "string \<Rightarrow> string option"
  el_style :: "string \<Rightarrow> string"

definition style_keys :: "string list" where
  "style_keys = [''width'', ''height'', ''left'', ''top'', ''minWidth'', ''maxWidth'', ''minHeight'', ''maxHeight'']"

text \<open>\<open>parseInt(v)||undefined\<close>\<close>

definition int_or_undefined :: "string \<Rightarrow> int option" where
  "int_or_undefined s = (case parse_int_auto s of None \<Rightarrow> None | Some n \<Rightarrow> if n = 0 then None else Some n)"

definition data_options :: "(string \<Rightarrow> options) \<Rightarrow> page_element \<Rightarrow> options" where
  "data_options run el =
     (let s = js_trim (case el_attr el ''data-options'' of None \<Rightarrow> '''' | Some s \<Rightarrow> s)
      in if s = '''' then Map.empty else run (if hd s \<noteq> CHR ''{'' then ''{'' @ s @ ''}'' else s))"

definition style_value :: "string \<Rightarrow> jsval option" where
  "style_value pv = (if CHR ''%'' \<in> set pv then Some (JStr pv) else map_option (\<lambda>n. JNum (of_int n)) (int_or_undefined pv))"

definition read_style :: "page_element \<Rightarrow> string \<Rightarrow> options \<Rightarrow> options" where
  "read_style el p d = (let pv = js_trim (el_style el p) in if pv = '''' then d else d(p := style_value pv))"

definition typed_value :: "string \<Rightarrow> string option \<Rightarrow> jsval option" where
  "typed_value ty a =
     (if ty = ''boolean''
      then (case a of None \<Rightarrow> None | Some s \<Rightarrow> if s = '''' then None else Some (JBool (s = ''true'')))
      else if a = Some ''0'' then Some (JNum 0)
      else (case a of None \<Rightarrow> None
            | Some s \<Rightarrow> (case parse_float s of None \<Rightarrow> None | Some x \<Rightarrow> if x = 0 then None else Some (JNum x))))"

definition read_typed :: "page_element \<Rightarrow> string \<times> string \<Rightarrow> options \<Rightarrow> options" where
  "read_typed el q e =
     (if snd q = ''boolean'' \<or> snd q = ''number'' then e(fst q := typed_value (snd q) (el_attr el (fst q))) else e)"

fun read_declared :: "page_element \<Rightarrow> declared \<Rightarrow> options \<Rightarrow> options" where
  "read_declared el (PlainOption p) e = e(p := map_option JStr (el_attr el p))"
| "read_declared el (TypedOptions qs) e = fold (read_typed el) qs e"

text \<open>\<open>parseOptions\<close>: \<open>$.extend\<close> does not copy what is undefined\<close>

definition parse_options :: "(string \<Rightarrow> options) \<Rightarrow> page_element \<Rightarrow> declared list option \<Rightarrow> options" where
  "parse_options run el decl =
     (let d = fold (read_style el) style_keys (data_options run el)
      in case decl of None \<Rightarrow> d | Some ds \<Rightarrow> d ++ fold (read_declared el) ds Map.empty)"

section \<open>Sizes\<close>

text \<open>\<open>parseValue\<close>; a number is read back from its digits, so its fraction is cut off\<close>

definition cut_number :: "rat \<Rightarrow> int" where
  "cut_number x = (if x < 0 then - \<lfloor>- x\<rfloor> else \<lfloor>x\<rfloor>)"

definition parse_value :: "string \<Rightarrow> jsval option \<Rightarrow> int \<times> int \<Rightarrow> int \<Rightarrow> int option" where
  "parse_value name v parent delta =
     (case v of
        Some (JNum x) \<Rightarrow> (let n = cut_number x in if n = 0 then None else Some n)
      | Some (JStr s) \<Rightarrow>
          (let t = js_trim s
           in if t \<noteq> '''' \<and> last t = CHR ''%''
              then map_option (\<lambda>n. ((if contains (to_lower name) ''width'' then fst parent else snd parent) - delta) * n div 100)
                     (parse_int_auto (butlast t))
              else int_or_undefined t)
      | _ \<Rightarrow> None)"

text \<open>
  \<open>_17\<close>, \<open>_18\<close> and \<open>_size\<close> on an element: the styles it sets in pixels (\<open>None\<close> is the empty
  style), the border and padding it takes off, and whether it follows its parent.
\<close>

record sized =
  sz_css :: "string \<Rightarrow> int option"
  sz_chrome :: "int \<times> int"
  sz_fluid :: bool

definition size_chrome :: "sized \<Rightarrow> string \<Rightarrow> int" where
  "size_chrome t p = (if contains (to_lower p) ''width'' then fst (sz_chrome t) else snd (sz_chrome t))"

definition clear_size :: "string \<Rightarrow> sized \<Rightarrow> sized" where
  "clear_size p t = t\<lparr>sz_css := (sz_css t)(p := None)\<rparr>"

definition put_size :: "string \<Rightarrow> int option \<Rightarrow> sized \<Rightarrow> sized" where
  "put_size p v t = (case v of None \<Rightarrow> t | Some n \<Rightarrow> t\<lparr>sz_css := (sz_css t)(p := Some (max 0 (n - size_chrome t p)))\<rparr>)"

definition get_size :: "string \<Rightarrow> sized \<Rightarrow> int option" where
  "get_size p t = map_option (\<lambda>n. n + size_chrome t p) (sz_css t p)"

definition clear_all_sizes :: "sized \<Rightarrow> sized" where
  "clear_all_sizes t = fold clear_size [''width'', ''minWidth'', ''maxWidth'', ''height'', ''minHeight'', ''maxHeight''] t"

definition limit_size :: "int option \<Rightarrow> int option \<Rightarrow> int \<Rightarrow> int" where
  "limit_size mn mx v =
     min (max v (case mn of None \<Rightarrow> 0 | Some m \<Rightarrow> m))
         (case mx of None \<Rightarrow> 99999 | Some m \<Rightarrow> if m = 0 then 99999 else m)"

definition is_percent :: "jsval option \<Rightarrow> bool" where
  "is_percent v = (case v of Some (JStr s) \<Rightarrow> CHR ''%'' \<in> set s | _ \<Rightarrow> False)"

definition size_axis :: "string \<Rightarrow> string \<Rightarrow> int \<times> int \<Rightarrow> options \<times> sized \<Rightarrow> options \<times> sized" where
  "size_axis p p1 parent s =
     (case s of (ops, t) \<Rightarrow>
        let mn = parse_value (''min'' @ p1) (ops (''min'' @ p1)) parent 0;
            mx = parse_value (''max'' @ p1) (ops (''max'' @ p1)) parent 0
        in case parse_value p (ops p) parent 0 of
             Some v \<Rightarrow>
               (if is_percent (ops p) then ops else ops(p := Some (JNum (of_int (limit_size mn mx v)))),
                put_size p (Some (limit_size mn mx v)) (clear_size (''max'' @ p1) (clear_size (''min'' @ p1) t)))
           | None \<Rightarrow> (ops, put_size (''max'' @ p1) mx (put_size (''min'' @ p1) mn (clear_size p t))))"

definition size_fluid :: "string \<Rightarrow> options \<Rightarrow> bool" where
  "size_fluid p ops = (is_percent (ops p) \<or> ops ''fit'' = Some (JBool True))"

text \<open>
  \<open>_16\<close>: the children that fill a parent. The parent counts them and has no scroll bars while there
  are any; a child that is removed from the page is not taken off the count.
\<close>

record container =
  ct_inner :: "int \<times> int"
  ct_count :: int
  ct_noscroll :: bool
  ct_fitted :: "nat list"

definition fit_child :: "nat \<Rightarrow> container \<Rightarrow> container" where
  "fit_child d c =
     (if d \<in> set (ct_fitted c) then c
      else c\<lparr>ct_fitted := d # ct_fitted c, ct_count := ct_count c + 1, ct_noscroll := True\<rparr>)"

definition unfit_child :: "nat \<Rightarrow> container \<Rightarrow> container" where
  "unfit_child d c =
     (if d \<in> set (ct_fitted c)
      then c\<lparr>ct_fitted := remove1 d (ct_fitted c), ct_count := ct_count c - 1,
             ct_noscroll := (if ct_count c - 1 = 0 then False else ct_noscroll c)\<rparr>
      else c)"

definition remove_child :: "nat \<Rightarrow> container \<Rightarrow> container" where
  "remove_child d c = c\<lparr>ct_fitted := remove1 d (ct_fitted c)\<rparr>"

definition filled_size :: "container \<Rightarrow> int \<times> int" where
  "filled_size c = (if fst (ct_inner c) = 0 then 1 else fst (ct_inner c), if snd (ct_inner c) = 0 then 1 else snd (ct_inner c))"

text \<open>\<open>_size(options)\<close> of the child \<open>d\<close>\<close>

definition apply_size :: "nat \<Rightarrow> container \<times> options \<times> sized \<Rightarrow> container \<times> options \<times> sized" where
  "apply_size d s =
     (case s of (c, ops, t) \<Rightarrow>
        let fit = (ops ''fit'' = Some (JBool True));
            c1 = (if fit then fit_child d c else unfit_child d c);
            ops1 = (if fit then ops(''width'' := Some (JNum (of_int (fst (filled_size c)))), ''height'' := Some (JNum (of_int (snd (filled_size c))))) else ops);
            s1 = size_axis ''width'' ''Width'' (ct_inner c) (ops1, t);
            s2 = size_axis ''height'' ''Height'' (ct_inner c) s1
        in (c1, fst s2, (snd s2)\<lparr>sz_fluid := size_fluid ''width'' ops1 \<or> size_fluid ''height'' (fst s1)\<rparr>))"

section \<open>The page\<close>

definition parser_plugins :: "string list" where
  "parser_plugins =
     [''draggable'', ''droppable'', ''resizable'', ''pagination'', ''tooltip'', ''linkbutton'', ''menu'', ''menubutton'',
      ''splitbutton'', ''progressbar'', ''tree'', ''textbox'', ''filebox'', ''combo'', ''combobox'', ''combotree'', ''combogrid'',
      ''numberbox'', ''validatebox'', ''searchbox'', ''spinner'', ''numberspinner'', ''timespinner'', ''datetimespinner'',
      ''calendar'', ''datebox'', ''datetimebox'', ''slider'', ''layout'', ''panel'', ''datagrid'', ''propertygrid'', ''treegrid'',
      ''datalist'', ''tabs'', ''accordion'', ''window'', ''dialog'', ''form'']"

text \<open>
  \<open>parse\<close>: the plugins with elements on the page are called if they are there already; the names of
  the others are requested, if there is a loader, and called when it reports back.
\<close>

datatype page_note = PluginCalled string | ScanComplete

definition missing_plugins :: "(string \<Rightarrow> bool) \<Rightarrow> (string \<Rightarrow> bool) \<Rightarrow> string list" where
  "missing_plugins on_page defined = filter (\<lambda>p. on_page p \<and> \<not> defined p) parser_plugins"

definition parse_page :: "bool \<Rightarrow> (string \<Rightarrow> bool) \<Rightarrow> (string \<Rightarrow> bool) \<Rightarrow> page_note list \<times> load_arg option" where
  "parse_page with_loader on_page defined =
     (let now = map PluginCalled (filter (\<lambda>p. on_page p \<and> defined p) parser_plugins); aa = missing_plugins on_page defined
      in if aa \<noteq> [] \<and> with_loader then (now, Some (Many aa)) else (now @ [ScanComplete], None))"

text \<open>The callback of the loader; \<open>None\<close> if a plugin is still not defined, which is a type error\<close>

definition plugins_arrived :: "string list \<Rightarrow> (string \<Rightarrow> bool) \<Rightarrow> page_note list option" where
  "plugins_arrived aa defined = (if list_all defined aa then Some (map PluginCalled aa @ [ScanComplete]) else None)"

section \<open>Touches\<close>

text \<open>The timers are numbered as they are set; \<open>clearTimeout\<close> of a timer that has run does nothing.\<close>

datatype mouse_note = MouseDown int int | MouseMove int int | MouseUp int int | DoubleClick int int | ContextMenu int int

datatype touch_timer = PressTimer int int | TapTimer

record touch =
  th_press :: "nat option"
  th_tapped :: bool
  th_tap_timer :: nat
  th_timers :: "(nat \<times> touch_timer) list"
  th_next :: nat
  th_mouse :: "mouse_note list"

definition mouse :: "mouse_note \<Rightarrow> touch \<Rightarrow> touch" where
  "mouse n s = s\<lparr>th_mouse := th_mouse s @ [n]\<rparr>"

definition set_timer :: "touch_timer \<Rightarrow> touch \<Rightarrow> touch" where
  "set_timer k s = s\<lparr>th_timers := th_timers s @ [(th_next s, k)], th_next := th_next s + 1\<rparr>"

definition clear_timer :: "nat \<Rightarrow> touch \<Rightarrow> touch" where
  "clear_timer i s = s\<lparr>th_timers := filter (\<lambda>q. fst q \<noteq> i) (th_timers s)\<rparr>"

definition clear_press :: "touch \<Rightarrow> touch" where
  "clear_press s = (case th_press s of None \<Rightarrow> s | Some i \<Rightarrow> clear_timer i s)"

definition touch_start :: "nat \<Rightarrow> int \<Rightarrow> int \<Rightarrow> touch \<Rightarrow> touch" where
  "touch_start n x y s =
     (if n \<noteq> 1 then s
      else let s1 = (if \<not> th_tapped s then (set_timer TapTimer s)\<lparr>th_tapped := True, th_tap_timer := th_next s\<rparr>
                     else mouse (DoubleClick x y) ((clear_timer (th_tap_timer s) s)\<lparr>th_tapped := False\<rparr>));
               s2 = (set_timer (PressTimer x y) s1)\<lparr>th_press := Some (th_next s1)\<rparr>
           in mouse (MouseDown x y) s2)"

definition touch_move :: "nat \<Rightarrow> int \<Rightarrow> int \<Rightarrow> touch \<Rightarrow> touch" where
  "touch_move n x y s = (if n \<noteq> 1 then s else mouse (MouseMove x y) (clear_press s))"

definition touch_end :: "int \<Rightarrow> int \<Rightarrow> touch \<Rightarrow> touch" where
  "touch_end x y s = mouse (MouseUp x y) (clear_press s)"

definition fire_timer :: "nat \<Rightarrow> touch \<Rightarrow> touch" where
  "fire_timer i s =
     (case map_of (th_timers s) i of
        None \<Rightarrow> s
      | Some TapTimer \<Rightarrow> (clear_timer i s)\<lparr>th_tapped := False\<rparr>
      | Some (PressTimer x y) \<Rightarrow> mouse (ContextMenu x y) (clear_timer i s))"

datatype touch_event = TouchStart nat int int | TouchMove nat int int | TouchEnd int int | TimerFires nat

definition touch_step :: "touch \<Rightarrow> touch_event \<Rightarrow> touch" where
  "touch_step s e =
     (case e of TouchStart n x y \<Rightarrow> touch_start n x y s | TouchMove n x y \<Rightarrow> touch_move n x y s
      | TouchEnd x y \<Rightarrow> touch_end x y s | TimerFires i \<Rightarrow> fire_timer i s)"

section \<open>Options have their declared types\<close>

text \<open>The kind of an option: what it is declared as last\<close>

definition declare_typed :: "string \<times> string \<Rightarrow> (string \<Rightarrow> jskind option) \<Rightarrow> string \<Rightarrow> jskind option" where
  "declare_typed q k =
     (if snd q = ''boolean'' then k(fst q \<mapsto> BoolKind) else if snd q = ''number'' then k(fst q \<mapsto> NumKind) else k)"

fun declare_kind :: "declared \<Rightarrow> (string \<Rightarrow> jskind option) \<Rightarrow> string \<Rightarrow> jskind option" where
  "declare_kind (PlainOption p) k = k(p \<mapsto> StrKind)"
| "declare_kind (TypedOptions qs) k = fold declare_typed qs k"

definition declared_kind :: "declared list option \<Rightarrow> string \<Rightarrow> jskind option" where
  "declared_kind decl = fold declare_kind (case decl of None \<Rightarrow> [] | Some ds \<Rightarrow> ds) Map.empty"

text \<open>
  What an attribute says of an option of a kind: nothing if there is none, if it is empty (for a boolean),
  or if it is no number or a zero not written as \<open>0\<close>.
\<close>

definition attribute_value :: "jskind option \<Rightarrow> string option \<Rightarrow> jsval option" where
  "attribute_value k a =
     (case (k, a) of
        (Some StrKind, Some s) \<Rightarrow> Some (JStr s)
      | (Some BoolKind, Some s) \<Rightarrow> if s = '''' then None else Some (JBool (s = ''true''))
      | (Some NumKind, Some s) \<Rightarrow>
          if s = ''0'' then Some (JNum 0)
          else (case parse_float s of Some x \<Rightarrow> if x \<noteq> 0 then Some (JNum x) else None | None \<Rightarrow> None)
      | _ \<Rightarrow> None)"

definition attribute_values :: "page_element \<Rightarrow> (string \<Rightarrow> jskind option) \<Rightarrow> options" where
  "attribute_values el k = (\<lambda>p. attribute_value (k p) (el_attr el p))"

lemma attribute_value_kind: "attribute_value k a = Some v \<Longrightarrow> k = Some (kind_of v)"
  by (cases k; cases "the k"; cases a) (auto simp: attribute_value_def split: option.splits if_splits)

lemma typed_value_attribute:
  "typed_value ''boolean'' a = attribute_value (Some BoolKind) a" "typed_value ''number'' a = attribute_value (Some NumKind) a"
  by (auto simp: typed_value_def attribute_value_def split: option.split)

lemma read_typed_values: "fold (read_typed el) qs (attribute_values el k) = attribute_values el (fold declare_typed qs k)"
proof (induction qs arbitrary: k)
  case (Cons q qs)
  have "read_typed el q (attribute_values el k) = attribute_values el (declare_typed q k)"
    by (rule ext) (simp add: read_typed_def declare_typed_def attribute_values_def typed_value_attribute)
  then show ?case using Cons.IH by simp
qed simp

lemma read_declared_values: "read_declared el d (attribute_values el k) = attribute_values el (declare_kind d k)"
  by (cases d) (simp_all add: read_typed_values, auto simp: attribute_values_def attribute_value_def split: option.split)

lemma fold_declared_values: "fold (read_declared el) ds (attribute_values el k) = attribute_values el (fold declare_kind ds k)"
  by (induction ds arbitrary: k) (simp_all add: read_declared_values)

lemma fold_styles_values:
  "fold (read_style el) ps d p =
     (if p \<in> set ps \<and> js_trim (el_style el p) \<noteq> '''' then style_value (js_trim (el_style el p)) else d p)"
  by (induction ps arbitrary: d) (auto simp: read_style_def Let_def)

text \<open>
  C23. An option read from an element is the value of its attribute, of the type it is declared with
  last, if there is an attribute with such a value; else, for the eight sizes, what the style gives, a
  number or a percentage, if it gives anything; and only else what the value of \<open>data-options\<close> says,
  of whatever type.
\<close>

theorem parsed_options_typed:
  "parse_options run el decl p =
     (case attribute_value (declared_kind decl p) (el_attr el p) of
        Some v \<Rightarrow> Some v
      | None \<Rightarrow>
          if p \<in> set style_keys \<and> js_trim (el_style el p) \<noteq> '''' then style_value (js_trim (el_style el p))
          else data_options run el p)
   \<and> (\<forall>v. attribute_value (declared_kind decl p) (el_attr el p) = Some v \<longrightarrow> declared_kind decl p = Some (kind_of v))
   \<and> (\<forall>v. style_value (js_trim (el_style el p)) = Some v \<longrightarrow> kind_of v = NumKind \<or> is_percent (Some v))"
proof -
  have none: "Map.empty = attribute_values el Map.empty"
    by (rule ext) (simp add: attribute_values_def attribute_value_def)
  have "fold (read_declared el) ds Map.empty = attribute_values el (declared_kind (Some ds))" for ds
    using fold_declared_values [of el ds Map.empty] by (simp add: declared_kind_def none [symmetric])
  moreover have "attribute_value (declared_kind None p) a = None" for a
    by (simp add: declared_kind_def attribute_value_def)
  ultimately have "parse_options run el decl p =
     (case attribute_value (declared_kind decl p) (el_attr el p) of
        Some v \<Rightarrow> Some v | None \<Rightarrow> fold (read_style el) style_keys (data_options run el) p)"
    by (cases decl) (simp_all add: parse_options_def map_add_def attribute_values_def)
  moreover have "kind_of v = NumKind \<or> is_percent (Some v)" if "style_value s = Some v" for s v
    using that by (auto simp: style_value_def is_percent_def split: if_splits)
  ultimately show ?thesis
    using attribute_value_kind by (auto simp: fold_styles_values split: option.split)
qed

definition sample_element :: page_element where
  "sample_element = \<lparr>el_attr = [''data-options'' \<mapsto> ''fit:true'', ''border'' \<mapsto> ''false'', ''min'' \<mapsto> ''12.5'', ''title'' \<mapsto> ''7''],
     el_style = (\<lambda>p. if p = ''width'' then '' 200px'' else if p = ''height'' then ''50%'' else '''')\<rparr>"

definition page_sample_run :: "string \<Rightarrow> options" where
  "page_sample_run s = (if s = ''{fit:true}'' then [''fit'' \<mapsto> JBool True] else Map.empty)"

definition sample_declared :: "declared list option" where
  "sample_declared = Some [PlainOption ''title'', TypedOptions [(''fit'', ''boolean''), (''border'', ''boolean''), (''min'', ''number'')]]"

theorem parsed_options_typed_witness:
  "map (parse_options page_sample_run sample_element sample_declared) [''border'', ''min'', ''title'', ''width'', ''height'', ''fit'']
     = [Some (JBool False), Some (JNum (25 / 2)), Some (JStr ''7''), Some (JNum 200), Some (JStr ''50%''), Some (JBool True)]"
proof -
  note opt = conjunct1 [OF parsed_options_typed, of page_sample_run sample_element sample_declared]
  have k: "map (declared_kind sample_declared) [''border'', ''min'', ''title'', ''width'', ''height'', ''fit'']
      = [Some BoolKind, Some NumKind, Some StrKind, None, None, Some BoolKind]" by code_simp
  have a: "attribute_value (Some BoolKind) (Some ''false'') = Some (JBool False)" "attribute_value (Some NumKind) (Some ''12.5'') = Some (JNum (25 / 2))"
    "attribute_value (Some StrKind) (Some ''7'') = Some (JStr ''7'')" "attribute_value (Some BoolKind) None = None" by code_simp+
  have n: "attribute_value None x = None" for x by (simp add: attribute_value_def)
  have st: "style_value (js_trim '' 200px'') = Some (JNum 200)" "style_value (js_trim ''50%'') = Some (JStr ''50%'')"
    "js_trim '' 200px'' \<noteq> ''''" "js_trim ''50%'' \<noteq> ''''" by code_simp+
  have d: "data_options page_sample_run sample_element ''fit'' = Some (JBool True)" by code_simp
  have el: "map (el_attr sample_element) [''border'', ''min'', ''title'', ''fit''] = [Some ''false'', Some ''12.5'', Some ''7'', None]"
    "map (el_style sample_element) [''width'', ''height'', ''fit''] = ['' 200px'', ''50%'', '''']" by code_simp+
  show ?thesis using k el d by (simp add: opt a n st style_keys_def)
qed

section \<open>Sizes stay within their limits\<close>

lemma cut_number_int [simp]: "cut_number (of_int n) = n"
proof -
  have "\<lfloor>- (of_int n :: rat)\<rfloor> = - n" by (simp add: floor_minus)
  then show ?thesis by (simp add: cut_number_def)
qed

lemma limit_size_again: "limit_size mn mx (limit_size mn mx v) = limit_size mn mx v"
  by (simp add: limit_size_def split: option.split)

definition axis_names :: "(string \<times> string) list" where
  "axis_names = [(''width'', ''Width''), (''height'', ''Height'')]"

definition lower_limit :: "int option \<Rightarrow> int" where
  "lower_limit mn = (case mn of None \<Rightarrow> 0 | Some m \<Rightarrow> m)"

definition upper_limit :: "int option \<Rightarrow> int" where
  "upper_limit mx = (case mx of None \<Rightarrow> 99999 | Some m \<Rightarrow> if m = 0 then 99999 else m)"

lemma limit_size_limits: "limit_size mn mx v = min (max v (lower_limit mn)) (upper_limit mx)"
  by (simp add: limit_size_def lower_limit_def upper_limit_def)

lemma size_axis_number:
  assumes "parse_value p (ops p) parent 0 = Some v"
    and "parse_value (''min'' @ p1) (ops (''min'' @ p1)) parent 0 = mn" and "parse_value (''max'' @ p1) (ops (''max'' @ p1)) parent 0 = mx"
  shows "size_axis p p1 parent (ops, t) =
    (if is_percent (ops p) then ops else ops(p := Some (JNum (of_int (limit_size mn mx v)))),
     put_size p (Some (limit_size mn mx v)) (clear_size (''max'' @ p1) (clear_size (''min'' @ p1) t)))"
  using assms by (simp add: size_axis_def Let_def)

text \<open>
  A size that is a number is brought within the limits of its element (the upper one if they
  contradict each other), replaces the limits in the style, and is kept when the element is sized
  again in the same parent.
\<close>

theorem size_within_limits:
  assumes "(p, p1) \<in> set axis_names" and "parse_value p (ops p) parent 0 = Some v"
    and "parse_value (''min'' @ p1) (ops (''min'' @ p1)) parent 0 = mn" and "parse_value (''max'' @ p1) (ops (''max'' @ p1)) parent 0 = mx"
  shows "\<exists>w. w \<le> upper_limit mx \<and> (lower_limit mn \<le> upper_limit mx \<longrightarrow> lower_limit mn \<le> w)
    \<and> (lower_limit mn \<le> v \<and> v \<le> upper_limit mx \<longrightarrow> w = v)
    \<and> (case size_axis p p1 parent (ops, t) of (ops', t') \<Rightarrow>
         sz_css t' p = Some (max 0 (w - size_chrome t p)) \<and> sz_css t' (''min'' @ p1) = None \<and> sz_css t' (''max'' @ p1) = None
         \<and> (w \<noteq> 0 \<longrightarrow> size_axis p p1 parent (ops', t') = (ops', t')))"
proof -
  define w where "w = limit_size mn mx v"
  define t' where "t' = put_size p (Some w) (clear_size (''max'' @ p1) (clear_size (''min'' @ p1) t))"
  define ops' where "ops' = (if is_percent (ops p) then ops else ops(p := Some (JNum (of_int w))))"
  have names: "''min'' @ p1 \<noteq> p" "''max'' @ p1 \<noteq> p" using assms(1) by (auto simp: axis_names_def)
  have s: "size_axis p p1 parent (ops, t) = (ops', t')"
    using size_axis_number [OF assms(2-4)] by (simp add: w_def t'_def ops'_def)
  have css: "sz_css t' = (sz_css t)(''min'' @ p1 := None, ''max'' @ p1 := None, p := Some (max 0 (w - size_chrome t p)))" "sz_chrome t' = sz_chrome t"
    by (simp_all add: t'_def put_size_def clear_size_def size_chrome_def)
  have again: "size_axis p p1 parent (ops', t') = (ops', t')" if "w \<noteq> 0"
  proof -
    define v' where "v' = (if is_percent (ops p) then v else w)"
    have "parse_value p (ops' p) parent 0 = Some v'"
      using that assms(2) by (cases "is_percent (ops p)") (simp add: ops'_def v'_def, simp add: ops'_def v'_def parse_value_def)
    moreover have "ops' (''min'' @ p1) = ops (''min'' @ p1)" "ops' (''max'' @ p1) = ops (''max'' @ p1)" using names by (simp_all add: ops'_def)
    moreover have "limit_size mn mx v' = w" by (simp add: v'_def w_def limit_size_again)
    moreover have "put_size p (Some w) (clear_size (''max'' @ p1) (clear_size (''min'' @ p1) t')) = t'"
      using css names by (auto simp: put_size_def clear_size_def size_chrome_def)
    moreover have "(if is_percent (ops' p) then ops' else ops'(p := Some (JNum (of_int w)))) = ops'"
      by (auto simp: ops'_def is_percent_def)
    ultimately show ?thesis using size_axis_number [of p ops' parent v' p1 mn mx t'] assms(3,4) by (auto split: if_splits)
  qed
  show ?thesis
    using again names by (intro exI [of _ w]) (simp add: s css, simp add: w_def limit_size_limits)
qed

theorem size_within_limits_witness:
  "fst (size_axis ''width'' ''Width'' (400, 300)
      ([''width'' \<mapsto> JNum 900, ''maxWidth'' \<mapsto> JStr ''50%''], \<lparr>sz_css = Map.empty, sz_chrome = (12, 12), sz_fluid = False\<rparr>)) ''width''
     = Some (JNum 200)
   \<and> (\<exists>w \<le> 200. sz_css (snd (size_axis ''width'' ''Width'' (400, 300)
      ([''width'' \<mapsto> JNum 900, ''maxWidth'' \<mapsto> JStr ''50%''], \<lparr>sz_css = Map.empty, sz_chrome = (12, 12), sz_fluid = False\<rparr>))) ''width''
     = Some (max 0 (w - 12)))"
proof -
  let ?o = "[''width'' \<mapsto> JNum 900, ''maxWidth'' \<mapsto> JStr ''50%''] :: options" and ?t = "\<lparr>sz_css = Map.empty, sz_chrome = (12, 12), sz_fluid = False\<rparr>"
  have v: "parse_value ''width'' (?o ''width'') (400, 300) 0 = Some 900" "parse_value ''minWidth'' (?o ''minWidth'') (400, 300) 0 = None"
    by (simp_all add: parse_value_def cut_number_def)
  have "parse_value ''maxWidth'' (Some (JStr ''50%'')) (400, 300) 0 = Some 200" by code_simp
  with v have v: "parse_value ''width'' (?o ''width'') (400, 300) 0 = Some 900" "parse_value ''minWidth'' (?o ''minWidth'') (400, 300) 0 = None"
    "parse_value ''maxWidth'' (?o ''maxWidth'') (400, 300) 0 = Some 200" by simp_all
  have c: "size_chrome ?t ''width'' = 12" by code_simp
  have "fst (size_axis ''width'' ''Width'' (400, 300) (?o, ?t)) ''width'' = Some (JNum 200)"
    using v by (simp add: size_axis_def limit_size_def is_percent_def)
  moreover obtain w where "w \<le> upper_limit (Some 200)"
    "sz_css (snd (size_axis ''width'' ''Width'' (400, 300) (?o, ?t))) ''width'' = Some (max 0 (w - size_chrome ?t ''width''))"
    using size_within_limits [of "''width''" "''Width''" ?o "(400, 300)" 900 None "Some 200" ?t] v
    by (simp add: axis_names_def case_prod_unfold) blast
  ultimately show ?thesis using c by (auto simp: upper_limit_def)
qed

section \<open>Children that fill their parent\<close>

datatype fit_event = Fit nat | Unfit nat

definition fit_step :: "container \<Rightarrow> fit_event \<Rightarrow> container" where
  "fit_step c e = (case e of Fit d \<Rightarrow> fit_child d c | Unfit d \<Rightarrow> unfit_child d c)"

text \<open>\<open>gone\<close> children were removed while they filled the parent.\<close>

definition container_ok :: "nat \<Rightarrow> container \<Rightarrow> bool" where
  "container_ok gone c =
     (distinct (ct_fitted c) \<and> ct_count c = int (length (ct_fitted c) + gone) \<and> ct_noscroll c = (ct_count c > 0))"

lemma length_remove1_Suc: "d \<in> set xs \<Longrightarrow> length xs = Suc (length (remove1 d xs))"
  by (induction xs) auto

interpretation container: event_machine fit_step "container_ok gone" for gone
proof
  fix c e assume c: "container_ok gone c"
  then show "container_ok gone (fit_step c e)"
    by (cases e) (auto simp: fit_step_def container_ok_def fit_child_def unfit_child_def length_remove1_Suc)
qed

text \<open>A child removed while it fills the parent leaves the parent without scroll bars for good.\<close>

lemma removed_child_counts:
  assumes "container_ok gone c" "d \<in> set (ct_fitted c)"
  shows "ct_noscroll (foldl fit_step (remove_child d c) es)"
proof -
  have "container_ok (Suc gone) (remove_child d c)"
    using assms length_remove1_Suc [OF assms(2)] by (auto simp: container_ok_def remove_child_def)
  from container.inv_foldl [OF this] show ?thesis by (simp add: container_ok_def)
qed

section \<open>The page and the loader\<close>

lemma plugins_known:
  "list_all (\<lambda>p. (object_of module_table p \<noteq> None) = (p \<noteq> ''datetimespinner'')) parser_plugins"
  by code_simp

lemma ordered_known: "ordered tbl D xs \<Longrightarrow> m \<in> set xs \<Longrightarrow> tbl m \<noteq> None"
  by (induction xs arbitrary: D) (auto simp: deps_within_def split: option.splits)

text \<open>
  C24. The load order of the plugins a page lacks contains all of them exactly if the
  date-time spinner is not among them, whose module the loader does not know: its callback then
  calls a method that is not there.
\<close>

theorem page_plugins_loaded:
  assumes "parse_page True on_page defined = (now, Some (Many aa))"
  shows "\<exists>xs. add_all (ld_modules default_loader) (arg_names (Many aa)) = Some xs
    \<and> (set aa \<subseteq> set xs \<longleftrightarrow> ''datetimespinner'' \<notin> set aa)
    \<and> (plugins_arrived aa (\<lambda>p. defined p \<or> p \<in> set xs) = None \<longleftrightarrow> ''datetimespinner'' \<in> set aa)"
proof -
  have aa: "aa = missing_plugins on_page defined" using assms by (auto simp: parse_page_def Let_def split: if_splits)
  obtain xs where xs: "add_all (ld_modules default_loader) aa = Some xs" "ordered (ld_modules default_loader) {} xs"
    "{m \<in> set aa. ld_modules default_loader m \<noteq> None} \<subseteq> set xs" using shipped_order by blast
  have known: "ld_modules default_loader m \<noteq> None \<longleftrightarrow> m \<noteq> ''datetimespinner''" if "m \<in> set aa" for m
    using plugins_known that by (auto simp: aa missing_plugins_def list_all_iff default_loader_def)
  have "m \<in> set xs \<longleftrightarrow> m \<noteq> ''datetimespinner''" if "m \<in> set aa" for m
    using known [OF that] xs(3) ordered_known [OF xs(2), of m] that by auto
  moreover have "\<not> defined m" if "m \<in> set aa" for m using that by (simp add: aa missing_plugins_def)
  ultimately show ?thesis
    using xs(1) by (auto simp: arg_names_def plugins_arrived_def list_all_iff)
qed

theorem page_plugins_loaded_witness:
  "plugins_arrived [''tree'', ''datetimespinner''] (\<lambda>p. p \<in> set (the (add_all (ld_modules default_loader) [''tree'', ''datetimespinner'']))) = None"
proof -
  have "parse_page True (\<lambda>p. p \<in> set [''tree'', ''datetimespinner'']) (\<lambda>p. False) = ([], Some (Many [''tree'', ''datetimespinner'']))"
    by code_simp
  from page_plugins_loaded [OF this] show ?thesis by (auto simp: arg_names_def)
qed

section \<open>Taps\<close>

text \<open>The press timer of a finger that was lifted is gone: no context menu comes from it.\<close>

lemma lifted_finger:
  assumes "th_press s = Some i"
  shows "fire_timer i (touch_end x y s) = touch_end x y s"
proof -
  have "map_of (filter (\<lambda>q. fst q \<noteq> i) ts) i = None" for ts :: "(nat \<times> touch_timer) list" by (induction ts) auto
  then show ?thesis by (simp add: fire_timer_def touch_end_def clear_press_def assms clear_timer_def mouse_def)
qed

lemma double_tap:
  "th_mouse (foldl touch_step \<lparr>th_press = None, th_tapped = False, th_tap_timer = 0, th_timers = [], th_next = 0, th_mouse = []\<rparr>
     [TouchStart 1 x y, TouchEnd x y, TouchStart 1 x y, TouchEnd x y])
   = [MouseDown x y, MouseUp x y, DoubleClick x y, MouseDown x y, MouseUp x y]"
  by (simp add: touch_step_def touch_start_def touch_end_def set_timer_def clear_timer_def clear_press_def mouse_def Let_def)

end
