(* ===== verification/Panel.thy ===== *)
theory Panel
  imports Parser
begin

text \<open>
  \<open>plugins/jquery.panel.js\<close>: a panel that is opened, closed, collapsed, minimized, maximized and
  restored, sized by its options, and filled from an address. The panel opens and closes without
  animation (the default); its body may slide, and an animation that is cut short jumps to its end
  first. Answers to requests for contents arrive in any order. A missing entry of the size options is
  the default \<open>null\<close>. \<open>None\<close> is a call on a panel that was destroyed, a type error.
\<close>

section \<open>State\<close>

datatype panel_hook = MayOpen | MayClose | MayDestroy | MayCollapse | MayExpand | MayLoad

datatype panel_note = Opened | Closed | Destroyed | Collapsed | Expanded | Maximized | Minimized | Restored
  | Resized "jsval option" "jsval option" | Moved "jsval option" "jsval option" | ContentLoaded nat | ContentFailed nat

datatype slide_state = SlidingUp | SlidingDown

datatype panel_tool = CollapseTool | MinTool | MaxTool | CloseTool

record panel =
  pn_title :: string
  pn_tools :: "panel_tool list"
  pn_closed :: bool
  pn_minimized :: bool
  pn_maximized :: bool
  pn_collapsed :: bool
  pn_options :: options
  pn_original :: "options option"
  pn_parent :: container
  pn_id :: nat
  pn_css :: sized
  pn_shown :: bool
  pn_body_shown :: bool
  pn_restore_mark :: bool
  pn_expand_mark :: bool
  pn_slide :: "slide_state option"
  pn_href :: "string option"
  pn_cache :: bool
  pn_loaded :: bool
  pn_content :: string
  pn_message :: string
  pn_extract :: "string \<Rightarrow> string"
  pn_pending :: "nat list"
  pn_next :: nat
  pn_allow :: "panel_hook \<Rightarrow> bool"
  pn_log :: "panel_note list"

definition note_panel :: "panel_note \<Rightarrow> panel \<Rightarrow> panel" where
  "note_panel n p = p\<lparr>pn_log := pn_log p @ [n]\<rparr>"

section \<open>Size\<close>

text \<open>\<open>$.extend\<close> with a literal of options: what is given replaces\<close>

definition given_options :: "options \<Rightarrow> string list \<Rightarrow> options \<Rightarrow> options" where
  "given_options new ks old = (\<lambda>k. if k \<in> set ks \<and> new k \<noteq> None then new k else old k)"

text \<open>\<open>_3\<close>\<close>

definition size_panel :: "panel \<Rightarrow> panel" where
  "size_panel p =
     (case apply_size (pn_id p) (pn_parent p, pn_options p, pn_css p) of
        (c, ops, t) \<Rightarrow> note_panel (Resized (ops ''width'') (ops ''height'')) (p\<lparr>pn_parent := c, pn_options := ops, pn_css := t\<rparr>))"

definition resize_panel :: "options \<Rightarrow> panel \<Rightarrow> panel" where
  "resize_panel new p = size_panel (p\<lparr>pn_options := given_options new style_keys (pn_options p)\<rparr>)"

text \<open>\<open>_f\<close>\<close>

definition move_panel :: "options \<Rightarrow> panel \<Rightarrow> panel" where
  "move_panel new p =
     (let p1 = p\<lparr>pn_options := given_options new [''left'', ''top''] (pn_options p)\<rparr>
      in note_panel (Moved (pn_options p1 ''left'') (pn_options p1 ''top'')) p1)"

definition unfit_panel :: "panel \<Rightarrow> panel" where
  "unfit_panel p = p\<lparr>pn_parent := unfit_child (pn_id p) (pn_parent p)\<rparr>"

section \<open>Contents\<close>

text \<open>\<open>_28\<close>, \<open>refresh\<close>, and the two callbacks of the loader\<close>

definition load_panel :: "panel \<Rightarrow> panel" where
  "load_panel p =
     (if pn_href p = None \<or> pn_loaded p \<and> pn_cache p \<or> \<not> pn_allow p MayLoad then p
      else p\<lparr>pn_loaded := False, pn_content := pn_message p, pn_pending := pn_pending p @ [pn_next p], pn_next := pn_next p + 1\<rparr>)"

definition refresh_panel :: "string option \<Rightarrow> panel \<Rightarrow> panel" where
  "refresh_panel href p =
     load_panel (p\<lparr>pn_loaded := False, pn_href := (case href of None \<Rightarrow> pn_href p | Some h \<Rightarrow> Some h)\<rparr>)"

definition answer_panel :: "nat \<Rightarrow> string option \<Rightarrow> panel \<Rightarrow> panel" where
  "answer_panel i r p =
     (if i \<notin> set (pn_pending p) then p
      else let p1 = p\<lparr>pn_pending := remove1 i (pn_pending p)\<rparr>
           in case r of
                None \<Rightarrow> note_panel (ContentFailed i) p1
              | Some html \<Rightarrow> (note_panel (ContentLoaded i) (p1\<lparr>pn_content := pn_extract p html\<rparr>))\<lparr>pn_loaded := True\<rparr>)"

section \<open>Collapsing and expanding\<close>

text \<open>The end of an animation of the body, reached in time or by \<open>stop(true,true)\<close>\<close>

definition end_slide :: "panel \<Rightarrow> panel" where
  "end_slide p =
     (case pn_slide p of
        None \<Rightarrow> p
      | Some SlidingUp \<Rightarrow> note_panel Collapsed (p\<lparr>pn_slide := None, pn_body_shown := False, pn_collapsed := True\<rparr>)
      | Some SlidingDown \<Rightarrow> load_panel (note_panel Expanded (p\<lparr>pn_slide := None, pn_collapsed := False\<rparr>)))"

text \<open>\<open>_3b\<close> and \<open>_4d\<close>\<close>

definition collapse_panel :: "bool \<Rightarrow> panel \<Rightarrow> panel" where
  "collapse_panel animate p =
     (if pn_collapsed p then p
      else let p1 = end_slide p
           in if \<not> pn_allow p1 MayCollapse then p1
              else let p2 = p1\<lparr>pn_expand_mark := True\<rparr>
                   in if animate then p2\<lparr>pn_slide := Some SlidingUp\<rparr>
                      else note_panel Collapsed (p2\<lparr>pn_body_shown := False, pn_collapsed := True\<rparr>))"

definition expand_panel :: "bool \<Rightarrow> panel \<Rightarrow> panel" where
  "expand_panel animate p =
     (if \<not> pn_collapsed p then p
      else let p1 = end_slide p
           in if \<not> pn_allow p1 MayExpand then p1
              else let p2 = p1\<lparr>pn_expand_mark := False, pn_body_shown := True\<rparr>
                   in if animate then p2\<lparr>pn_slide := Some SlidingDown\<rparr>
                      else load_panel (note_panel Expanded (p2\<lparr>pn_collapsed := False\<rparr>)))"

section \<open>Maximizing, minimizing, restoring\<close>

definition box_keys :: "string list" where
  "box_keys = [''width'', ''height'', ''left'', ''top'', ''fit'']"

text \<open>\<open>_3a\<close>, \<open>_58\<close> and \<open>_5c\<close>\<close>

definition maximize_panel :: "panel \<Rightarrow> panel" where
  "maximize_panel p =
     (if pn_maximized p then p
      else let p1 = p\<lparr>pn_restore_mark := MaxTool \<in> set (pn_tools p),
                      pn_original := (case pn_original p of None \<Rightarrow> Some (pn_options p) | Some q \<Rightarrow> Some q),
                      pn_options := (pn_options p)(''left'' := Some (JNum 0), ''top'' := Some (JNum 0), ''fit'' := Some (JBool True))\<rparr>
           in note_panel Maximized ((size_panel p1)\<lparr>pn_minimized := False, pn_maximized := True\<rparr>))"

definition minimize_panel :: "panel \<Rightarrow> panel" where
  "minimize_panel p = note_panel Minimized ((unfit_panel p)\<lparr>pn_shown := False, pn_minimized := True, pn_maximized := False\<rparr>)"

definition original_options :: "panel \<Rightarrow> options" where
  "original_options p =
     (case pn_original p of None \<Rightarrow> pn_options p | Some q \<Rightarrow> (\<lambda>k. if k \<in> set box_keys then q k else pn_options p k))"

definition restore_panel :: "panel \<Rightarrow> panel" where
  "restore_panel p =
     (if \<not> pn_maximized p then p
      else let p1 = size_panel (p\<lparr>pn_shown := True, pn_restore_mark := False, pn_options := original_options p\<rparr>)
           in note_panel Restored (p1\<lparr>pn_minimized := False, pn_maximized := False, pn_original := None\<rparr>))"

section \<open>Opening, closing, destroying\<close>

text \<open>\<open>_34\<close>, \<open>_3c\<close> and \<open>_41\<close>; with the argument \<open>true\<close> nobody is asked\<close>

definition open_panel :: "bool \<Rightarrow> panel \<Rightarrow> panel" where
  "open_panel forced p =
     (if \<not> forced \<and> \<not> pn_allow p MayOpen then p
      else let p1 = p\<lparr>pn_shown := True, pn_closed := False, pn_minimized := False\<rparr>;
               p2 = note_panel Opened (if pn_restore_mark p1 then p1\<lparr>pn_maximized := True\<rparr> else p1);
               p3 = (if pn_maximized p2 then maximize_panel (p2\<lparr>pn_maximized := False\<rparr>) else p2);
               p4 = (if pn_collapsed p3 then collapse_panel False (p3\<lparr>pn_collapsed := False\<rparr>) else p3)
           in if pn_collapsed p4 then p4 else load_panel p4)"

definition close_panel :: "bool \<Rightarrow> panel \<Rightarrow> panel" where
  "close_panel forced p =
     (if \<not> forced \<and> \<not> pn_allow p MayClose then p
      else note_panel Closed ((unfit_panel p)\<lparr>pn_shown := False, pn_closed := True\<rparr>))"

definition destroy_panel :: "bool \<Rightarrow> panel \<Rightarrow> panel option" where
  "destroy_panel forced p = (if \<not> forced \<and> \<not> pn_allow p MayDestroy then Some p else None)"

text \<open>The tools of the header, and \<open>_61\<close>\<close>

definition click_tool :: "panel_tool \<Rightarrow> panel \<Rightarrow> panel" where
  "click_tool t p =
     (if t \<notin> set (pn_tools p) then p
      else case t of
             CollapseTool \<Rightarrow> if pn_collapsed p then expand_panel True p else collapse_panel True p
           | MinTool \<Rightarrow> minimize_panel p
           | MaxTool \<Rightarrow> if pn_maximized p then restore_panel p else maximize_panel p
           | CloseTool \<Rightarrow> close_panel False p)"

definition title_panel :: "string \<Rightarrow> panel \<Rightarrow> panel" where
  "title_panel s p = p\<lparr>pn_title := s\<rparr>"

text \<open>\<open>$.fn.panel\<close>: a new panel\<close>

definition init_panel :: "bool \<Rightarrow> panel \<Rightarrow> panel" where
  "init_panel do_size p0 =
     (let p = p0\<lparr>pn_loaded := False\<rparr>; p1 = (if do_size then size_panel (p\<lparr>pn_shown := True\<rparr>) else p)
      in if pn_closed p1 \<or> pn_minimized p1 then p1\<lparr>pn_shown := False\<rparr> else open_panel False p1)"

datatype panel_event = POpen bool | PClose bool | PDestroy bool | PCollapse bool | PExpand bool | PSlideEnds | PMaximize | PMinimize
  | PRestore | PResize options | PMove options | PTitle string | PRefresh "string option" | PAnswer nat "string option" | PTool panel_tool

definition panel_step :: "panel \<Rightarrow> panel_event \<Rightarrow> panel option" where
  "panel_step p e =
     (case e of
        POpen f \<Rightarrow> Some (open_panel f p)
      | PClose f \<Rightarrow> Some (close_panel f p)
      | PDestroy f \<Rightarrow> destroy_panel f p
      | PCollapse a \<Rightarrow> Some (collapse_panel a p)
      | PExpand a \<Rightarrow> Some (expand_panel a p)
      | PSlideEnds \<Rightarrow> Some (end_slide p)
      | PMaximize \<Rightarrow> Some (maximize_panel p)
      | PMinimize \<Rightarrow> Some (minimize_panel p)
      | PRestore \<Rightarrow> Some (restore_panel p)
      | PResize new \<Rightarrow> Some (resize_panel new p)
      | PMove new \<Rightarrow> Some (move_panel new p)
      | PTitle s \<Rightarrow> Some (title_panel s p)
      | PRefresh h \<Rightarrow> Some (refresh_panel h p)
      | PAnswer i r \<Rightarrow> Some (answer_panel i r p)
      | PTool t \<Rightarrow> Some (click_tool t p))"

section \<open>What sizing leaves alone\<close>

definition axis_options :: "string \<Rightarrow> string \<Rightarrow> int \<times> int \<Rightarrow> options \<Rightarrow> options" where
  "axis_options p p1 parent ops =
     (case parse_value p (ops p) parent 0 of
        None \<Rightarrow> ops
      | Some v \<Rightarrow>
          if is_percent (ops p) then ops
          else ops(p := Some (JNum (of_int (limit_size (parse_value (''min'' @ p1) (ops (''min'' @ p1)) parent 0)
                                                       (parse_value (''max'' @ p1) (ops (''max'' @ p1)) parent 0) v)))))"

text \<open>The options after sizing, in a parent with the inner size \<open>io\<close>\<close>

definition sized_options :: "int \<times> int \<Rightarrow> options \<Rightarrow> options" where
  "sized_options io ops =
     axis_options ''height'' ''Height'' io
       (axis_options ''width'' ''Width'' io
         (if ops ''fit'' = Some (JBool True)
          then ops(''width'' := Some (JNum (of_int (if fst io = 0 then 1 else fst io))), ''height'' := Some (JNum (of_int (if snd io = 0 then 1 else snd io))))
          else ops))"

lemma fst_size_axis: "fst (size_axis p p1 parent s) = axis_options p p1 parent (fst s)"
  by (cases s) (simp add: size_axis_def axis_options_def Let_def split: option.split)

lemma child_frame [simp]:
  "ct_inner (fit_child d c) = ct_inner c" "ct_inner (unfit_child d c) = ct_inner c"
  by (simp_all add: fit_child_def unfit_child_def)

lemma apply_size_result:
  "apply_size d (c, ops, t) = (c', ops', t') \<Longrightarrow> ops' = sized_options (ct_inner c) ops \<and> ct_inner c' = ct_inner c
    \<and> (ops ''fit'' = Some (JBool True) \<longrightarrow> d \<in> set (ct_fitted c'))"
  by (auto simp: apply_size_def Let_def fst_size_axis sized_options_def filled_size_def fit_child_def split: if_splits)

lemma axis_options_other: "k \<noteq> p \<Longrightarrow> axis_options p p1 io ops k = ops k"
  by (simp add: axis_options_def split: option.split)

lemma sized_options_other: "k \<noteq> ''width'' \<Longrightarrow> k \<noteq> ''height'' \<Longrightarrow> sized_options io ops k = ops k"
  by (simp add: sized_options_def axis_options_other)

lemma size_panel_frame [simp]:
  "pn_tools (size_panel p) = pn_tools p" "pn_closed (size_panel p) = pn_closed p" "pn_minimized (size_panel p) = pn_minimized p"
  "pn_maximized (size_panel p) = pn_maximized p" "pn_collapsed (size_panel p) = pn_collapsed p" "pn_original (size_panel p) = pn_original p"
  "pn_id (size_panel p) = pn_id p" "pn_shown (size_panel p) = pn_shown p" "pn_body_shown (size_panel p) = pn_body_shown p"
  "pn_restore_mark (size_panel p) = pn_restore_mark p" "pn_expand_mark (size_panel p) = pn_expand_mark p" "pn_slide (size_panel p) = pn_slide p"
  "pn_allow (size_panel p) = pn_allow p" "pn_options (size_panel p) = sized_options (ct_inner (pn_parent p)) (pn_options p)"
  "ct_inner (pn_parent (size_panel p)) = ct_inner (pn_parent p)"
  "pn_options p ''fit'' = Some (JBool True) \<Longrightarrow> pn_id p \<in> set (ct_fitted (pn_parent (size_panel p)))"
proof -
  obtain c ops t where a: "apply_size (pn_id p) (pn_parent p, pn_options p, pn_css p) = (c, ops, t)" by (metis prod_cases3)
  note r = apply_size_result [OF a] and s = size_panel_def [of p, unfolded a prod.case note_panel_def]
  show "pn_tools (size_panel p) = pn_tools p" "pn_closed (size_panel p) = pn_closed p" "pn_minimized (size_panel p) = pn_minimized p"
    "pn_maximized (size_panel p) = pn_maximized p" "pn_collapsed (size_panel p) = pn_collapsed p" "pn_original (size_panel p) = pn_original p"
    "pn_id (size_panel p) = pn_id p" "pn_shown (size_panel p) = pn_shown p" "pn_body_shown (size_panel p) = pn_body_shown p"
    "pn_restore_mark (size_panel p) = pn_restore_mark p" "pn_expand_mark (size_panel p) = pn_expand_mark p" "pn_slide (size_panel p) = pn_slide p"
    "pn_allow (size_panel p) = pn_allow p"
    by (simp_all add: s)
  show "pn_options (size_panel p) = sized_options (ct_inner (pn_parent p)) (pn_options p)"
    "ct_inner (pn_parent (size_panel p)) = ct_inner (pn_parent p)" using r by (simp_all add: s)
  show "pn_options p ''fit'' = Some (JBool True) \<Longrightarrow> pn_id p \<in> set (ct_fitted (pn_parent (size_panel p)))" using r by (simp add: s)
qed

lemma size_panel_fills: "pn_options p ''fit'' = Some (JBool True) \<Longrightarrow> pn_id p = d \<Longrightarrow> d \<in> set (ct_fitted (pn_parent (size_panel p)))"
  using size_panel_frame(16) by blast

lemma note_panel_frame [simp]:
  "pn_tools (note_panel n p) = pn_tools p" "pn_closed (note_panel n p) = pn_closed p" "pn_minimized (note_panel n p) = pn_minimized p"
  "pn_maximized (note_panel n p) = pn_maximized p" "pn_collapsed (note_panel n p) = pn_collapsed p" "pn_original (note_panel n p) = pn_original p"
  "pn_id (note_panel n p) = pn_id p" "pn_shown (note_panel n p) = pn_shown p" "pn_body_shown (note_panel n p) = pn_body_shown p"
  "pn_restore_mark (note_panel n p) = pn_restore_mark p" "pn_expand_mark (note_panel n p) = pn_expand_mark p" "pn_slide (note_panel n p) = pn_slide p"
  "pn_allow (note_panel n p) = pn_allow p" "pn_options (note_panel n p) = pn_options p" "pn_parent (note_panel n p) = pn_parent p"
  by (simp_all add: note_panel_def)

lemma load_panel_frame [simp]:
  "pn_tools (load_panel p) = pn_tools p" "pn_closed (load_panel p) = pn_closed p" "pn_minimized (load_panel p) = pn_minimized p"
  "pn_maximized (load_panel p) = pn_maximized p" "pn_collapsed (load_panel p) = pn_collapsed p" "pn_original (load_panel p) = pn_original p"
  "pn_id (load_panel p) = pn_id p" "pn_shown (load_panel p) = pn_shown p" "pn_body_shown (load_panel p) = pn_body_shown p"
  "pn_restore_mark (load_panel p) = pn_restore_mark p" "pn_expand_mark (load_panel p) = pn_expand_mark p" "pn_slide (load_panel p) = pn_slide p"
  "pn_allow (load_panel p) = pn_allow p" "pn_options (load_panel p) = pn_options p" "pn_parent (load_panel p) = pn_parent p"
  by (simp_all add: load_panel_def)

section \<open>The box comes back\<close>

lemma end_slide_frame [simp]:
  "pn_original (end_slide p) = pn_original p" "pn_options (end_slide p) = pn_options p" "pn_parent (end_slide p) = pn_parent p"
  "pn_allow (end_slide p) = pn_allow p" "pn_closed (end_slide p) = pn_closed p" "pn_minimized (end_slide p) = pn_minimized p"
  "pn_maximized (end_slide p) = pn_maximized p" "pn_shown (end_slide p) = pn_shown p" "pn_restore_mark (end_slide p) = pn_restore_mark p"
  "pn_id (end_slide p) = pn_id p" "pn_tools (end_slide p) = pn_tools p" "pn_expand_mark (end_slide p) = pn_expand_mark p"
  by (simp_all add: end_slide_def split: option.split slide_state.split)

lemma collapse_frame [simp]:
  "pn_original (collapse_panel a p) = pn_original p" "pn_options (collapse_panel a p) = pn_options p" "pn_parent (collapse_panel a p) = pn_parent p"
  "pn_allow (collapse_panel a p) = pn_allow p" "pn_closed (collapse_panel a p) = pn_closed p" "pn_minimized (collapse_panel a p) = pn_minimized p"
  "pn_maximized (collapse_panel a p) = pn_maximized p" "pn_shown (collapse_panel a p) = pn_shown p" "pn_restore_mark (collapse_panel a p) = pn_restore_mark p"
  "pn_id (collapse_panel a p) = pn_id p" "pn_tools (collapse_panel a p) = pn_tools p"
  by (simp_all add: collapse_panel_def Let_def)

lemma expand_frame [simp]:
  "pn_original (expand_panel a p) = pn_original p" "pn_options (expand_panel a p) = pn_options p" "pn_parent (expand_panel a p) = pn_parent p"
  "pn_allow (expand_panel a p) = pn_allow p" "pn_closed (expand_panel a p) = pn_closed p" "pn_minimized (expand_panel a p) = pn_minimized p"
  "pn_maximized (expand_panel a p) = pn_maximized p" "pn_shown (expand_panel a p) = pn_shown p" "pn_restore_mark (expand_panel a p) = pn_restore_mark p"
  "pn_id (expand_panel a p) = pn_id p" "pn_tools (expand_panel a p) = pn_tools p"
  by (simp_all add: expand_panel_def Let_def)

lemma unfit_frame [simp]:
  "pn_original (unfit_panel p) = pn_original p" "pn_options (unfit_panel p) = pn_options p" "ct_inner (pn_parent (unfit_panel p)) = ct_inner (pn_parent p)"
  "pn_allow (unfit_panel p) = pn_allow p" "pn_closed (unfit_panel p) = pn_closed p" "pn_minimized (unfit_panel p) = pn_minimized p"
  "pn_maximized (unfit_panel p) = pn_maximized p" "pn_shown (unfit_panel p) = pn_shown p" "pn_restore_mark (unfit_panel p) = pn_restore_mark p"
  "pn_id (unfit_panel p) = pn_id p" "pn_tools (unfit_panel p) = pn_tools p" "pn_collapsed (unfit_panel p) = pn_collapsed p"
  "pn_slide (unfit_panel p) = pn_slide p" "pn_body_shown (unfit_panel p) = pn_body_shown p" "pn_expand_mark (unfit_panel p) = pn_expand_mark p"
  by (simp_all add: unfit_panel_def)

text \<open>The parts of opening\<close>

definition reopened :: "panel \<Rightarrow> panel" where
  "reopened p =
     (let p1 = p\<lparr>pn_shown := True, pn_closed := False, pn_minimized := False\<rparr>;
          p2 = note_panel Opened (if pn_restore_mark p1 then p1\<lparr>pn_maximized := True\<rparr> else p1)
      in if pn_maximized p2 then maximize_panel (p2\<lparr>pn_maximized := False\<rparr>) else p2)"

lemma open_panel_parts:
  "open_panel f p =
     (if \<not> f \<and> \<not> pn_allow p MayOpen then p
      else let p3 = reopened p; p4 = (if pn_collapsed p3 then collapse_panel False (p3\<lparr>pn_collapsed := False\<rparr>) else p3)
           in if pn_collapsed p4 then p4 else load_panel p4)"
  by (simp add: open_panel_def reopened_def Let_def)

text \<open>
  The options a panel had before it was maximized, as seen from its events: those before the first event
  since the last one that restored it after which it was maximized. A restoring event is a call or a
  click on the tool while the panel is maximized.
\<close>

definition restores :: "panel \<Rightarrow> panel_event \<Rightarrow> bool" where
  "restores p e = (pn_maximized p \<and> (case e of PRestore \<Rightarrow> True | PTool t \<Rightarrow> t = MaxTool \<and> MaxTool \<in> set (pn_tools p) | _ \<Rightarrow> False))"

definition box_seen :: "options option \<Rightarrow> panel \<Rightarrow> panel_event \<Rightarrow> panel \<Rightarrow> options option" where
  "box_seen b p e p' =
     (if restores p e then None else case b of Some q \<Rightarrow> Some q | None \<Rightarrow> if pn_maximized p' then Some (pn_options p) else None)"

fun box_before :: "options option \<Rightarrow> panel \<Rightarrow> panel_event list \<Rightarrow> options option" where
  "box_before b p [] = b"
| "box_before b p (e # es) = (case panel_step p e of None \<Rightarrow> b | Some p' \<Rightarrow> box_before (box_seen b p e p') p' es)"

definition remembers :: "options option \<Rightarrow> panel \<Rightarrow> bool" where
  "remembers b p = (pn_original p = b \<and> (b = None \<longrightarrow> \<not> pn_maximized p \<and> \<not> pn_restore_mark p))"

lemma remembers_frame:
  "remembers b p \<Longrightarrow> pn_original p' = pn_original p \<Longrightarrow> pn_maximized p' = pn_maximized p \<Longrightarrow> pn_restore_mark p' = pn_restore_mark p
   \<Longrightarrow> remembers (box_seen b p e p') p' \<or> restores p e"
  by (auto simp: remembers_def box_seen_def split: option.splits)

lemma maximize_remembers: "remembers b p \<Longrightarrow> \<not> restores p e \<Longrightarrow> remembers (box_seen b p e (maximize_panel p)) (maximize_panel p)"
  by (auto simp: remembers_def box_seen_def maximize_panel_def Let_def split: option.splits)

lemma restore_remembers: "remembers b p \<Longrightarrow> pn_maximized p = restores p e \<Longrightarrow> remembers (box_seen b p e (restore_panel p)) (restore_panel p)"
  by (auto simp: remembers_def box_seen_def restore_panel_def Let_def split: option.splits)

lemma minimize_remembers: "remembers b p \<Longrightarrow> \<not> restores p e \<Longrightarrow> remembers (box_seen b p e (minimize_panel p)) (minimize_panel p)"
  by (auto simp: remembers_def box_seen_def minimize_panel_def split: option.splits)

lemma reopened_remembers:
  "remembers b p \<Longrightarrow> pn_original (reopened p) = b \<and> (pn_maximized (reopened p) \<longrightarrow> b \<noteq> None) \<and> (pn_restore_mark (reopened p) \<longrightarrow> b \<noteq> None)"
  by (auto simp: remembers_def reopened_def maximize_panel_def Let_def split: option.split)

lemma open_remembers:
  assumes "remembers b p"
  shows "remembers (box_seen b p (POpen f) (open_panel f p)) (open_panel f p)"
proof -
  define p4 where "p4 = (if pn_collapsed (reopened p) then collapse_panel False ((reopened p)\<lparr>pn_collapsed := False\<rparr>) else reopened p)"
  have "pn_original p4 = b \<and> (pn_maximized p4 \<longrightarrow> b \<noteq> None) \<and> (pn_restore_mark p4 \<longrightarrow> b \<noteq> None)"
    using reopened_remembers [OF assms] by (simp add: p4_def)
  moreover have "open_panel f p = (if \<not> f \<and> \<not> pn_allow p MayOpen then p else if pn_collapsed p4 then p4 else load_panel p4)"
    by (simp add: open_panel_parts p4_def Let_def)
  ultimately show ?thesis using assms by (auto simp: remembers_def box_seen_def restores_def split: option.splits)
qed

lemma step_remembers:
  assumes "remembers b p" "panel_step p e = Some p'"
  shows "remembers (box_seen b p e p') p'"
proof -
  have same: "remembers (box_seen b p e p') p'"
    if "\<not> restores p e" "pn_original p' = pn_original p" "pn_maximized p' = pn_maximized p" "pn_restore_mark p' = pn_restore_mark p"
    using remembers_frame [OF assms(1)] that by blast
  show ?thesis
  proof (cases e)
    case (PTool t)
    show ?thesis
    proof (cases "t \<in> set (pn_tools p)")
      case True
      show ?thesis
      proof (cases t)
        case MaxTool
        with PTool True assms show ?thesis
          by (auto simp: panel_step_def click_tool_def restores_def intro!: restore_remembers maximize_remembers split: if_splits)
      next
        case MinTool
        with PTool True assms show ?thesis
          by (auto simp: panel_step_def click_tool_def restores_def intro!: minimize_remembers)
      next
        case CollapseTool
        with PTool True assms(2) show ?thesis
          by (intro same) (auto simp: panel_step_def click_tool_def restores_def split: if_splits)
      next
        case CloseTool
        with PTool True assms(2) show ?thesis
          by (intro same) (auto simp: panel_step_def click_tool_def restores_def close_panel_def split: if_splits)
      qed
    qed (use PTool assms(2) in \<open>intro same, auto simp: panel_step_def click_tool_def restores_def\<close>)
  next
    case PMaximize
    with assms show ?thesis by (auto simp: panel_step_def restores_def intro!: maximize_remembers)
  next
    case PMinimize
    with assms show ?thesis by (auto simp: panel_step_def restores_def intro!: minimize_remembers)
  next
    case PRestore
    with assms show ?thesis by (auto simp: panel_step_def restores_def intro!: restore_remembers)
  next
    case (POpen f)
    with assms show ?thesis by (auto simp: panel_step_def intro!: open_remembers)
  next
    case (PAnswer i r)
    with assms(2) show ?thesis
      by (intro same) (auto simp: panel_step_def restores_def answer_panel_def Let_def split: option.splits if_splits)
  qed (rule same; use assms(2) in \<open>auto simp: panel_step_def restores_def close_panel_def destroy_panel_def resize_panel_def move_panel_def
    refresh_panel_def title_panel_def Let_def split: if_splits\<close>)+
qed

lemma run_remembers: "remembers b p \<Longrightarrow> run_events panel_step p es = Some q \<Longrightarrow> remembers (box_before b p es) q"
proof (induction es arbitrary: b p)
  case (Cons e es)
  then obtain p' where p': "panel_step p e = Some p'" "run_events panel_step p' es = Some q" by (auto split: option.splits)
  from Cons.IH [OF step_remembers [OF Cons.prems(1) p'(1)] p'(2)] show ?case by (simp add: p'(1))
qed simp

text \<open>
  C25. However a panel that was never maximized is used, resizing and moving included: when it is
  maximized, restoring it ends that state and gives its left, top and fit options the values they had
  before the event that maximized it, and those of width and height sized anew in the parent; maximizing
  it again while it is minimized does not count, restoring it does.
\<close>

theorem restored_box:
  assumes "\<not> pn_maximized p" "\<not> pn_restore_mark p" "pn_original p = None"
    and "run_events panel_step p es = Some q" "pn_maximized q"
  shows "\<exists>b. box_before None p es = Some b \<and> \<not> pn_maximized (restore_panel q)
    \<and> pn_options (restore_panel q) = sized_options (ct_inner (pn_parent q)) (\<lambda>k. if k \<in> set box_keys then b k else pn_options q k)
    \<and> (\<forall>k \<in> {''left'', ''top'', ''fit''}. pn_options (restore_panel q) k = b k)"
proof -
  have "remembers (box_before None p es) q"
    by (rule run_remembers [OF _ assms(4)]) (use assms(1-3) in \<open>simp add: remembers_def\<close>)
  then obtain b where b: "box_before None p es = Some b" "pn_original q = Some b"
    using assms(5) by (auto simp: remembers_def)
  have o: "pn_options (restore_panel q) = sized_options (ct_inner (pn_parent q)) (\<lambda>k. if k \<in> set box_keys then b k else pn_options q k)"
    using assms(5) by (simp add: restore_panel_def original_options_def b(2) Let_def)
  moreover have "\<not> pn_maximized (restore_panel q)" using assms(5) by (simp add: restore_panel_def Let_def)
  ultimately show ?thesis using b(1) by (auto simp: sized_options_other box_keys_def)
qed

definition sample_panel :: panel where
  "sample_panel =
     \<lparr>pn_title = ''P'', pn_tools = [CollapseTool, MaxTool], pn_closed = False, pn_minimized = False, pn_maximized = False, pn_collapsed = False,
      pn_options = [''width'' \<mapsto> JNum 300, ''height'' \<mapsto> JStr ''auto''], pn_original = None,
      pn_parent = \<lparr>ct_inner = (500, 400), ct_count = 0, ct_noscroll = False, ct_fitted = []\<rparr>, pn_id = 7,
      pn_css = \<lparr>sz_css = Map.empty, sz_chrome = (2, 2), sz_fluid = False\<rparr>, pn_shown = True, pn_body_shown = True, pn_restore_mark = False,
      pn_expand_mark = False, pn_slide = None, pn_href = Some ''a.html'', pn_cache = True, pn_loaded = False, pn_content = '''', pn_message = ''...'',
      pn_extract = (\<lambda>s. s), pn_pending = [], pn_next = 0, pn_allow = (\<lambda>h. True), pn_log = []\<rparr>"





definition boxes_session :: "panel_event list" where
  "boxes_session = [PMaximize, PResize [''width'' \<mapsto> JNum 9], PRestore, PMove [''left'' \<mapsto> JNum 40], PMaximize, PMinimize, POpen False]"

theorem restored_box_witness:
  "\<exists>q. run_events panel_step sample_panel boxes_session = Some q \<and> pn_maximized q
    \<and> pn_options (restore_panel q) ''left'' = Some (JNum 40) \<and> pn_options (restore_panel q) ''fit'' = None"
proof -
  define a where "a = maximize_panel sample_panel"
  define b where "b = resize_panel [''width'' \<mapsto> JNum 9] a"
  define c where "c = restore_panel b"
  define p1 where "p1 = move_panel [''left'' \<mapsto> JNum 40] c"
  define m where "m = maximize_panel p1"
  define n where "n = minimize_panel m"
  define q where "q = open_panel False n"
  have s: "\<not> pn_maximized sample_panel" "\<not> pn_restore_mark sample_panel" "pn_original sample_panel = None" "\<not> pn_collapsed sample_panel"
    "MaxTool \<in> set (pn_tools sample_panel)" "pn_options sample_panel ''fit'' = None" "pn_allow sample_panel = (\<lambda>h. True)"
    by (simp_all add: sample_panel_def)
  have ab: "pn_maximized a" "pn_maximized b" "pn_original b = Some (pn_options sample_panel)" "\<not> pn_collapsed b"
    "MaxTool \<in> set (pn_tools b)" "pn_allow b = (\<lambda>h. True)"
    using s by (simp_all add: b_def a_def maximize_panel_def resize_panel_def Let_def)
  have c: "\<not> pn_maximized c" "\<not> pn_maximized p1" "\<not> pn_collapsed p1" "MaxTool \<in> set (pn_tools p1)" "pn_allow p1 = (\<lambda>h. True)"
    "pn_options p1 ''fit'' = None" "pn_options p1 ''left'' = Some (JNum 40)"
    using ab s(6) by (simp_all add: p1_def c_def restore_panel_def move_panel_def original_options_def given_options_def box_keys_def
      sized_options_other Let_def)
  have n: "pn_maximized m" "\<not> pn_maximized n" "pn_restore_mark n" "\<not> pn_collapsed n" "pn_allow n = (\<lambda>h. True)"
    using c by (simp_all add: n_def m_def maximize_panel_def minimize_panel_def Let_def)
  then have q: "pn_maximized q" by (simp add: q_def open_panel_def maximize_panel_def Let_def)
  have steps: "panel_step sample_panel PMaximize = Some a" "panel_step a (PResize [''width'' \<mapsto> JNum 9]) = Some b" "panel_step b PRestore = Some c"
    "panel_step c (PMove [''left'' \<mapsto> JNum 40]) = Some p1" "panel_step p1 PMaximize = Some m" "panel_step m PMinimize = Some n"
    "panel_step n (POpen False) = Some q"
    by (simp_all add: panel_step_def a_def b_def c_def p1_def m_def n_def q_def)
  have run: "run_events panel_step sample_panel boxes_session = Some q" by (simp add: boxes_session_def steps)
  have "box_before None sample_panel boxes_session = Some (pn_options p1)"
    using s(1) ab(1,2) c(1,2) n(1,2) q by (simp add: boxes_session_def steps box_seen_def restores_def)
  with restored_box [OF s(1-3) run q] run q c(6,7) show ?thesis by (intro exI [of _ q]) auto
qed

section \<open>What is seen and what the options say\<close>

text \<open>The body and the tool of a panel whose collapsing is not refused\<close>

definition body_ok :: "panel \<Rightarrow> bool" where
  "body_ok p =
     (pn_body_shown p = (\<not> pn_collapsed p \<or> pn_slide p = Some SlidingDown)
      \<and> pn_expand_mark p = (case pn_slide p of None \<Rightarrow> pn_collapsed p | Some SlidingUp \<Rightarrow> True | Some SlidingDown \<Rightarrow> False))"

text \<open>The frame; \<open>b\<close>: the panel was not maximized or restored while it was hidden\<close>

definition frame_ok :: "bool \<Rightarrow> panel \<Rightarrow> bool" where
  "frame_ok b p =
     ((b \<longrightarrow> pn_shown p = (\<not> pn_closed p \<and> \<not> pn_minimized p))
      \<and> (pn_minimized p \<longrightarrow> \<not> pn_shown p)
      \<and> (pn_maximized p \<longrightarrow> pn_original p \<noteq> None \<and> pn_options p ''fit'' = Some (JBool True))
      \<and> (pn_maximized p \<and> pn_shown p \<longrightarrow> pn_id p \<in> set (ct_fitted (pn_parent p)))
      \<and> (pn_restore_mark p \<longrightarrow> MaxTool \<in> set (pn_tools p) \<and> pn_original p \<noteq> None))"

definition panel_ok :: "bool \<Rightarrow> bool \<Rightarrow> panel \<Rightarrow> bool" where
  "panel_ok a b p = ((a \<longrightarrow> body_ok p \<and> pn_allow p MayCollapse) \<and> frame_ok b p)"

lemma body_ok_cong:
  "body_ok p \<Longrightarrow> pn_body_shown p' = pn_body_shown p \<Longrightarrow> pn_collapsed p' = pn_collapsed p \<Longrightarrow> pn_slide p' = pn_slide p
   \<Longrightarrow> pn_expand_mark p' = pn_expand_mark p \<Longrightarrow> body_ok p'"
  by (simp add: body_ok_def split: option.split slide_state.split)

lemma frame_ok_cong:
  "frame_ok b p \<Longrightarrow> pn_shown p' = pn_shown p \<Longrightarrow> pn_closed p' = pn_closed p \<Longrightarrow> pn_minimized p' = pn_minimized p
   \<Longrightarrow> pn_maximized p' = pn_maximized p \<Longrightarrow> pn_original p' = pn_original p \<Longrightarrow> pn_options p' = pn_options p \<Longrightarrow> pn_id p' = pn_id p
   \<Longrightarrow> pn_parent p' = pn_parent p \<Longrightarrow> pn_restore_mark p' = pn_restore_mark p \<Longrightarrow> pn_tools p' = pn_tools p \<Longrightarrow> frame_ok b p'"
  by (simp add: frame_ok_def)

lemma end_slide_body: "body_ok p \<Longrightarrow> body_ok (end_slide p) \<and> pn_slide (end_slide p) = None"
  by (auto simp: body_ok_def end_slide_def split: option.splits slide_state.splits)

lemma collapse_body: "body_ok p \<Longrightarrow> body_ok (collapse_panel a p)"
  using end_slide_body [of p] by (auto simp: collapse_panel_def Let_def body_ok_def)

lemma expand_body: "body_ok p \<Longrightarrow> body_ok (expand_panel a p)"
  using end_slide_body [of p] by (auto simp: expand_panel_def Let_def body_ok_def)

lemma maximize_frame:
  "\<not> pn_maximized p \<Longrightarrow> (b \<longrightarrow> pn_shown p \<and> \<not> pn_closed p) \<Longrightarrow> frame_ok b (maximize_panel p)"
  by (auto simp: frame_ok_def maximize_panel_def Let_def sized_options_other size_panel_fills split: option.split)

lemma restore_frame: "frame_ok b p \<Longrightarrow> (b \<longrightarrow> pn_shown p) \<Longrightarrow> frame_ok b (restore_panel p)"
  by (auto simp: frame_ok_def restore_panel_def Let_def)

lemma minimize_frame: "frame_ok b p \<Longrightarrow> frame_ok b (minimize_panel p)"
  by (auto simp: frame_ok_def minimize_panel_def)

lemma close_frame: "frame_ok b p \<Longrightarrow> frame_ok b (close_panel f p)"
  by (auto simp: frame_ok_def close_panel_def)

lemma resize_frame: "frame_ok b p \<Longrightarrow> frame_ok b (resize_panel new p)"
proof -
  assume p: "frame_ok b p"
  have "given_options new style_keys (pn_options p) ''fit'' = pn_options p ''fit''" by (simp add: given_options_def style_keys_def)
  with p show ?thesis by (auto simp: frame_ok_def resize_panel_def sized_options_other size_panel_fills)
qed

lemma move_frame: "frame_ok b p \<Longrightarrow> frame_ok b (move_panel new p)"
  by (auto simp: frame_ok_def move_panel_def Let_def given_options_def)

lemma reopened_frame: "frame_ok b p \<Longrightarrow> frame_ok b (reopened p)"
proof (cases "pn_restore_mark p \<or> pn_maximized p")
  case True
  then show ?thesis by (auto simp: reopened_def Let_def intro!: maximize_frame)
next
  case False
  assume "frame_ok b p"
  with False show ?thesis by (auto simp: reopened_def Let_def frame_ok_def)
qed

lemma maximize_body [simp]:
  "pn_body_shown (maximize_panel p) = pn_body_shown p" "pn_collapsed (maximize_panel p) = pn_collapsed p" "pn_slide (maximize_panel p) = pn_slide p"
  "pn_expand_mark (maximize_panel p) = pn_expand_mark p" "pn_allow (maximize_panel p) = pn_allow p"
  by (simp_all add: maximize_panel_def Let_def)

lemma reopened_body [simp]:
  "pn_body_shown (reopened p) = pn_body_shown p" "pn_collapsed (reopened p) = pn_collapsed p" "pn_slide (reopened p) = pn_slide p"
  "pn_expand_mark (reopened p) = pn_expand_mark p" "pn_allow (reopened p) = pn_allow p"
  by (simp_all add: reopened_def Let_def)

text \<open>Opening collapses a collapsed panel once more.\<close>

lemma recollapse:
  assumes "pn_allow p MayCollapse"
  shows "body_ok (collapse_panel False (p\<lparr>pn_collapsed := False\<rparr>))" "pn_collapsed (collapse_panel False (p\<lparr>pn_collapsed := False\<rparr>))"
    "pn_slide (collapse_panel False (p\<lparr>pn_collapsed := False\<rparr>)) = None"
proof -
  define p1 where "p1 = end_slide (p\<lparr>pn_collapsed := False\<rparr>)"
  have "pn_slide p1 = None" by (simp add: p1_def end_slide_def split: option.split slide_state.split)
  moreover have "pn_allow p1 MayCollapse" using assms by (simp add: p1_def)
  ultimately show "body_ok (collapse_panel False (p\<lparr>pn_collapsed := False\<rparr>))" "pn_collapsed (collapse_panel False (p\<lparr>pn_collapsed := False\<rparr>))"
    "pn_slide (collapse_panel False (p\<lparr>pn_collapsed := False\<rparr>)) = None" by (simp_all add: collapse_panel_def Let_def p1_def [symmetric] body_ok_def)
qed

lemma open_ok:
  assumes "panel_ok a b p"
  shows "panel_ok a b (open_panel f p)"
proof -
  define p4 where "p4 = (if pn_collapsed (reopened p) then collapse_panel False ((reopened p)\<lparr>pn_collapsed := False\<rparr>) else reopened p)"
  have p: "a \<longrightarrow> body_ok p" "frame_ok b p" "a \<longrightarrow> pn_allow p MayCollapse" using assms by (simp_all add: panel_ok_def)
  have "a \<longrightarrow> body_ok (reopened p)" using p(1) by (auto intro: body_ok_cong)
  then have "a \<longrightarrow> body_ok p4" using recollapse [of "reopened p"] p(3) by (simp add: p4_def)
  moreover have "frame_ok b p4" by (rule frame_ok_cong [OF reopened_frame [OF p(2)]]) (simp_all add: p4_def)
  moreover have "a \<longrightarrow> pn_allow p4 MayCollapse" using p(3) by (simp add: p4_def)
  moreover have "a \<longrightarrow> body_ok (load_panel p4)" using calculation(1) by (auto intro: body_ok_cong)
  moreover have "frame_ok b (load_panel p4)" by (rule frame_ok_cong [OF calculation(2)]) simp_all
  moreover have "open_panel f p = (if \<not> f \<and> \<not> pn_allow p MayOpen then p else if pn_collapsed p4 then p4 else load_panel p4)"
    by (simp add: open_panel_parts p4_def Let_def)
  ultimately show ?thesis using assms by (simp add: panel_ok_def)
qed

text \<open>A panel is not maximized or restored while it cannot be seen.\<close>

definition polite :: "panel \<Rightarrow> panel_event \<Rightarrow> bool" where
  "polite p e = (case e of PMaximize \<Rightarrow> pn_shown p | PRestore \<Rightarrow> pn_shown p | PTool t \<Rightarrow> pn_shown p | _ \<Rightarrow> True)"

lemma frame_unchanged:
  "panel_ok a b p \<Longrightarrow> (b \<longrightarrow> pn_shown p) \<Longrightarrow> panel_ok a b (maximize_panel p)"
  "panel_ok a b p \<Longrightarrow> (b \<longrightarrow> pn_shown p) \<Longrightarrow> panel_ok a b (restore_panel p)"
  "panel_ok a b p \<Longrightarrow> panel_ok a b (minimize_panel p)" "panel_ok a b p \<Longrightarrow> panel_ok a b (close_panel f p)"
  "panel_ok a b p \<Longrightarrow> panel_ok a b (resize_panel new p)" "panel_ok a b p \<Longrightarrow> panel_ok a b (move_panel new p)"
proof -
  assume p: "panel_ok a b p"
  note c = body_ok_cong [of p]
  show "(b \<longrightarrow> pn_shown p) \<Longrightarrow> panel_ok a b (maximize_panel p)"
    using p maximize_frame [of p b] by (cases "pn_maximized p") (auto simp: panel_ok_def maximize_panel_def frame_ok_def intro: c)
  show "(b \<longrightarrow> pn_shown p) \<Longrightarrow> panel_ok a b (restore_panel p)"
    using p restore_frame [of b p] by (auto simp: panel_ok_def restore_panel_def Let_def intro: c)
  show "panel_ok a b (minimize_panel p)" using p minimize_frame [of b p] by (auto simp: panel_ok_def minimize_panel_def intro: c)
  show "panel_ok a b (close_panel f p)" using p close_frame [of b p f] by (auto simp: panel_ok_def close_panel_def intro: c)
  show "panel_ok a b (resize_panel new p)" using p resize_frame [of b p new] by (auto simp: panel_ok_def resize_panel_def intro: c)
  show "panel_ok a b (move_panel new p)" using p move_frame [of b p new] by (auto simp: panel_ok_def move_panel_def Let_def intro: c)
qed

lemma body_changed:
  "panel_ok a b p \<Longrightarrow> panel_ok a b (collapse_panel c p)" "panel_ok a b p \<Longrightarrow> panel_ok a b (expand_panel c p)"
  "panel_ok a b p \<Longrightarrow> panel_ok a b (end_slide p)"
proof -
  assume p: "panel_ok a b p"
  note f = frame_ok_cong [of b p]
  show "panel_ok a b (collapse_panel c p)" using p collapse_body [of p c] by (auto simp: panel_ok_def intro: f)
  show "panel_ok a b (expand_panel c p)" using p expand_body [of p c] by (auto simp: panel_ok_def intro: f)
  show "panel_ok a b (end_slide p)" using p end_slide_body [of p] by (auto simp: panel_ok_def intro: f)
qed

lemma contents_changed:
  "panel_ok a b p \<Longrightarrow> panel_ok a b (refresh_panel h p)" "panel_ok a b p \<Longrightarrow> panel_ok a b (answer_panel i r p)"
  "panel_ok a b p \<Longrightarrow> panel_ok a b (title_panel t p)"
  by (auto simp: panel_ok_def refresh_panel_def answer_panel_def title_panel_def Let_def split: option.split
      intro: body_ok_cong [of p] frame_ok_cong [of b p])

lemmas panel_keepers = open_ok frame_unchanged body_changed contents_changed

lemma panel_step_ok:
  assumes "panel_ok a b p" "b \<longrightarrow> polite p e" "panel_step p e = Some p'"
  shows "panel_ok a b p'"
proof -
  have "(b \<longrightarrow> pn_shown p) \<Longrightarrow> panel_ok a b (click_tool t p)" for t
    using assms(1) by (cases t) (auto simp: click_tool_def intro: panel_keepers)
  with assms show ?thesis
    by (cases e) (auto simp: polite_def panel_step_def destroy_panel_def intro: panel_keepers split: if_splits)
qed

interpretation panel: guarded_machine panel_step "\<lambda>p e. b \<longrightarrow> polite p e" "panel_ok a b" for a b
  by unfold_locales (rule panel_step_ok)



section \<open>Where the code goes astray\<close>

text \<open>A minimized panel that is maximized stays hidden and is neither closed nor minimized.\<close>

lemma maximize_hidden:
  "pn_minimized p \<Longrightarrow> \<not> pn_maximized p \<Longrightarrow> \<not> pn_shown p \<Longrightarrow> \<not> pn_closed p
   \<Longrightarrow> \<not> pn_shown (maximize_panel p) \<and> \<not> pn_closed (maximize_panel p) \<and> \<not> pn_minimized (maximize_panel p)"
  by (simp add: maximize_panel_def Let_def)

text \<open>A collapsed panel that is opened while collapsing is refused is left open with a hidden body, which \<open>expand\<close> does not show.\<close>

lemma reopen_refused:
  assumes "pn_collapsed p" "\<not> pn_body_shown p" "pn_slide p = None" "\<not> pn_allow p MayCollapse" "pn_allow p MayOpen" "pn_href p = None"
  shows "\<not> pn_collapsed (open_panel f p)" "\<not> pn_body_shown (open_panel f p)" "expand_panel a (open_panel f p) = open_panel f p"
proof -
  have h: "load_panel q = q" if "pn_href q = None" for q using that by (simp add: load_panel_def)
  have "pn_href (size_panel q) = pn_href q" for q
    by (simp add: size_panel_def note_panel_def split: prod.split)
  then have "pn_href (reopened p) = None"
    using assms(6) by (simp add: reopened_def maximize_panel_def Let_def note_panel_def)
  then have c: "collapse_panel False ((reopened p)\<lparr>pn_collapsed := False\<rparr>) = (reopened p)\<lparr>pn_collapsed := False\<rparr>"
    using assms by (simp add: collapse_panel_def end_slide_def Let_def)
  have "open_panel f p = (reopened p)\<lparr>pn_collapsed := False\<rparr>"
    using assms \<open>pn_href (reopened p) = None\<close> c by (simp add: open_panel_parts Let_def h)
  then show "\<not> pn_collapsed (open_panel f p)" "\<not> pn_body_shown (open_panel f p)" "expand_panel a (open_panel f p) = open_panel f p"
    using assms by (simp_all add: expand_panel_def)
qed

text \<open>Of two requests under way the one answered last fills the panel, whichever was asked first.\<close>

lemma stale_answer_fills:
  assumes "pn_pending p = [i, j]" "i \<noteq> j"
  shows "pn_content (answer_panel i (Some a) (answer_panel j (Some b) p)) = pn_extract p a"
  using assms by (simp add: answer_panel_def note_panel_def)

end
