(* ===== verification/Accordion.thy ===== *)
theory Accordion
  imports Panel
begin

text \<open>
  \<open>plugins/jquery.accordion.js\<close>: a list of panels of which usually one is expanded. The panels are
  those of \<open>Panel\<close>; the accordion marks their headers, collapses the others before one expands,
  and tells of selections when the animation of a body ends. Sizes (\<open>_1\<close>) are left out.
\<close>

section \<open>State\<close>

record apanel =
  ap_panel :: panel
  ap_collapsible :: bool
  ap_chosen :: bool
  ap_header_selected :: bool
  ap_arrow_expand :: bool

datatype accordion_note = AcSelected string nat | AcUnselected string nat | AcAdded string nat | AcRemoved string nat

record accordion =
  ac_panels :: "apanel list"
  ac_multiple :: bool
  ac_animate :: bool
  ac_selected :: int
  ac_may_remove :: "string \<Rightarrow> nat \<Rightarrow> bool"
  ac_log :: "accordion_note list"

datatype panel_key = PanelAt int | PanelTitled string

text \<open>\<open>_1b\<close>\<close>

definition find_apanel :: "panel_key \<Rightarrow> accordion \<Rightarrow> nat option" where
  "find_apanel key s =
     (case key of
        PanelAt i \<Rightarrow> if i < 0 \<or> i \<ge> int (length (ac_panels s)) then None else Some (nat i)
      | PanelTitled t \<Rightarrow> find_index (\<lambda>p. pn_title (ap_panel p) = t) (ac_panels s))"

definition ac_note :: "accordion_note \<Rightarrow> accordion \<Rightarrow> accordion" where
  "ac_note n s = s\<lparr>ac_log := ac_log s @ [n]\<rparr>"

section \<open>Expanding and collapsing\<close>

text \<open>An operation of the panel \<open>i\<close>; what it tells of being collapsed or expanded, the accordion passes on.\<close>

definition accordion_notes :: "nat \<Rightarrow> panel \<Rightarrow> panel \<Rightarrow> accordion_note list" where
  "accordion_notes i p q =
     concat (map (\<lambda>n. case n of Expanded \<Rightarrow> [AcSelected (pn_title q) i] | Collapsed \<Rightarrow> [AcUnselected (pn_title q) i] | _ \<Rightarrow> [])
       (drop (length (pn_log p)) (pn_log q)))"

definition update_apanel :: "nat \<Rightarrow> (panel \<Rightarrow> panel) \<Rightarrow> accordion \<Rightarrow> accordion" where
  "update_apanel i f s =
     (let a = ac_panels s ! i; q = f (ap_panel a)
      in s\<lparr>ac_panels := (ac_panels s)[i := a\<lparr>ap_panel := q\<rparr>], ac_log := ac_log s @ accordion_notes i (ap_panel a) q\<rparr>)"

definition mark_header :: "nat \<Rightarrow> bool \<Rightarrow> accordion \<Rightarrow> accordion" where
  "mark_header i b s =
     s\<lparr>ac_panels := (ac_panels s)[i := (ac_panels s ! i)\<lparr>ap_header_selected := b, ap_arrow_expand := \<not> b\<rparr>]\<rparr>"

text \<open>\<open>_36\<close>\<close>

definition stop_all :: "accordion \<Rightarrow> accordion" where
  "stop_all s = fold (\<lambda>i. update_apanel i end_slide) [0..<length (ac_panels s)] s"

text \<open>\<open>_33\<close> and \<open>_32\<close> with the handlers \<open>onBeforeCollapse\<close> and \<open>onBeforeExpand\<close> of \<open>_27\<close>\<close>

definition collapse_at :: "nat \<Rightarrow> accordion \<Rightarrow> accordion" where
  "collapse_at i s =
     (let s1 = stop_all s; p = ap_panel (ac_panels s1 ! i)
      in if pn_collapsed p \<or> \<not> pn_allow p MayCollapse then s1
         else update_apanel i (collapse_panel (ac_animate s1)) (mark_header i False s1))"

definition expanded_panels :: "accordion \<Rightarrow> nat list" where
  "expanded_panels s = filter (\<lambda>i. ap_collapsible (ac_panels s ! i) \<and> \<not> pn_collapsed (ap_panel (ac_panels s ! i))) [0..<length (ac_panels s)]"

definition expand_at :: "nat \<Rightarrow> accordion \<Rightarrow> accordion" where
  "expand_at i s =
     (let s1 = stop_all s; p = ap_panel (ac_panels s1 ! i)
      in if \<not> pn_collapsed p \<or> \<not> pn_allow p MayExpand then s1
         else let s2 = (if ac_multiple s1 then s1 else fold collapse_at (expanded_panels s1) s1)
              in update_apanel i (expand_panel (ac_animate s2)) (mark_header i True s2))"

definition select_apanel :: "panel_key \<Rightarrow> accordion \<Rightarrow> accordion" where
  "select_apanel key s = (case find_apanel key s of None \<Rightarrow> s | Some i \<Rightarrow> expand_at i s)"

definition unselect_apanel :: "panel_key \<Rightarrow> accordion \<Rightarrow> accordion" where
  "unselect_apanel key s = (case find_apanel key s of None \<Rightarrow> s | Some i \<Rightarrow> collapse_at i s)"

text \<open>\<open>_2f\<close>: a click on a header\<close>

definition click_header :: "nat \<Rightarrow> accordion \<Rightarrow> accordion" where
  "click_header i s =
     (if i \<ge> length (ac_panels s) \<or> \<not> ap_collapsible (ac_panels s ! i) then s
      else if pn_collapsed (ap_panel (ac_panels s ! i)) then expand_at i s else collapse_at i s)"

section \<open>Adding and removing\<close>

text \<open>
  \<open>_27\<close>: the panel is initialised collapsed, unless its options say otherwise; its header is not
  marked and its arrow points to expanding either way.
\<close>

record apanel_options =
  ao_panel :: panel
  ao_collapsible :: bool
  ao_selected :: "bool option"

definition create_apanel :: "apanel_options \<Rightarrow> accordion \<Rightarrow> accordion" where
  "create_apanel new s =
     (let i = length (ac_panels s); q = init_panel False (ao_panel new)
      in s\<lparr>ac_panels := ac_panels s @ [\<lparr>ap_panel = q, ap_collapsible = ao_collapsible new, ap_chosen = (ao_selected new = Some True),
                                        ap_header_selected = False, ap_arrow_expand = True\<rparr>],
           ac_log := ac_log s @ accordion_notes i (ao_panel new) q\<rparr>)"

definition add_apanel :: "apanel_options \<Rightarrow> accordion \<Rightarrow> accordion" where
  "add_apanel new s =
     (let sel = (case ao_selected new of None \<Rightarrow> True | Some b \<Rightarrow> b); i = length (ac_panels s);
          s1 = ac_note (AcAdded (pn_title (ao_panel new)) i) (create_apanel (new\<lparr>ao_selected := Some sel\<rparr>) (stop_all s))
      in if sel then expand_at i s1 else s1)"

text \<open>\<open>_48\<close>: the panel is used before the test whether there is one\<close>

definition remove_apanel :: "panel_key \<Rightarrow> accordion \<Rightarrow> accordion option" where
  "remove_apanel key s0 =
     (let s = stop_all s0
      in case find_apanel key s of
           None \<Rightarrow> None
         | Some i \<Rightarrow>
             let title = pn_title (ap_panel (ac_panels s ! i))
             in if \<not> ac_may_remove s title i then Some s
                else let s1 = s\<lparr>ac_panels := remove_at i (ac_panels s)\<rparr>;
                         s2 = (if ac_panels s1 \<noteq> [] \<and> list_all (\<lambda>a. pn_collapsed (ap_panel a)) (ac_panels s1) then expand_at 0 s1 else s1)
                     in Some (ac_note (AcRemoved title i) s2))"

text \<open>\<open>_3b\<close>: the first panel with the option \<open>selected\<close>, or the one of the accordion's, without animation\<close>

definition select_first :: "accordion \<Rightarrow> accordion" where
  "select_first s =
     (let key = (case find_index ap_chosen (ac_panels s) of None \<Rightarrow> PanelAt (ac_selected s) | Some i \<Rightarrow> PanelAt (int i))
      in (select_apanel key (s\<lparr>ac_animate := False\<rparr>))\<lparr>ac_animate := ac_animate s\<rparr>)"

text \<open>\<open>_22\<close> and \<open>$.fn.accordion\<close>\<close>

definition init_accordion :: "apanel_options list \<Rightarrow> accordion \<Rightarrow> accordion" where
  "init_accordion os s = select_first (fold create_apanel os (s\<lparr>ac_panels := []\<rparr>))"

datatype accordion_event = AcSelect panel_key | AcUnselect panel_key | AcHeader nat | AcAdd apanel_options | AcRemove panel_key | AcSlideEnds nat | AcReinit

definition accordion_step :: "accordion \<Rightarrow> accordion_event \<Rightarrow> accordion option" where
  "accordion_step s e =
     (case e of
        AcSelect key \<Rightarrow> Some (select_apanel key s)
      | AcUnselect key \<Rightarrow> Some (unselect_apanel key s)
      | AcHeader i \<Rightarrow> Some (click_header i s)
      | AcAdd new \<Rightarrow> Some (add_apanel new s)
      | AcRemove key \<Rightarrow> remove_apanel key s
      | AcSlideEnds i \<Rightarrow> Some (if i < length (ac_panels s) then update_apanel i end_slide s else s)
      | AcReinit \<Rightarrow> Some (select_first s))"

section \<open>Headers and panels in step\<close>

text \<open>A panel is open when it is expanded or on its way there.\<close>

definition is_opening :: "panel \<Rightarrow> bool" where
  "is_opening p = (\<not> pn_collapsed p \<and> pn_slide p \<noteq> Some SlidingUp \<or> pn_slide p = Some SlidingDown)"

definition apanel_ok :: "apanel \<Rightarrow> bool" where
  "apanel_ok a =
     (body_ok (ap_panel a) \<and> pn_allow (ap_panel a) MayCollapse \<and> ap_header_selected a = is_opening (ap_panel a)
      \<and> ap_arrow_expand a = (\<not> ap_header_selected a))"

definition head_of :: "apanel \<Rightarrow> bool \<times> bool" where
  "head_of a = (ap_collapsible a, ap_header_selected a)"

definition single_head :: "(bool \<times> bool) list \<Rightarrow> bool" where
  "single_head hs = (\<forall>i < length hs. \<forall>j < length hs. hs ! i = (True, True) \<longrightarrow> hs ! j = (True, True) \<longrightarrow> i = j)"

definition accordion_ok :: "accordion \<Rightarrow> bool" where
  "accordion_ok s = (list_all apanel_ok (ac_panels s) \<and> (ac_multiple s \<or> single_head (map head_of (ac_panels s))))"

definition at_rest :: "accordion \<Rightarrow> bool" where
  "at_rest s = list_all (\<lambda>a. pn_slide (ap_panel a) = None) (ac_panels s)"

lemma update_frame [simp]:
  "ac_multiple (update_apanel i f s) = ac_multiple s" "ac_animate (update_apanel i f s) = ac_animate s"
  "ac_panels (update_apanel i f s) = (ac_panels s)[i := (ac_panels s ! i)\<lparr>ap_panel := f (ap_panel (ac_panels s ! i))\<rparr>]"
  "ac_multiple (mark_header i b s) = ac_multiple s" "ac_animate (mark_header i b s) = ac_animate s"
  "ac_panels (mark_header i b s) = (ac_panels s)[i := (ac_panels s ! i)\<lparr>ap_header_selected := b, ap_arrow_expand := \<not> b\<rparr>]"
  "ac_multiple (ac_note n s) = ac_multiple s" "ac_panels (ac_note n s) = ac_panels s" "ac_animate (ac_note n s) = ac_animate s"
  by (simp_all add: update_apanel_def mark_header_def ac_note_def Let_def)

definition stopped :: "apanel \<Rightarrow> apanel" where
  "stopped a = a\<lparr>ap_panel := end_slide (ap_panel a)\<rparr>"

lemma fold_update:
  "n \<le> length (ac_panels s) \<Longrightarrow>
   ac_panels (fold (\<lambda>i. update_apanel i end_slide) [0..<n] s) = map stopped (take n (ac_panels s)) @ drop n (ac_panels s)
   \<and> ac_multiple (fold (\<lambda>i. update_apanel i end_slide) [0..<n] s) = ac_multiple s
   \<and> ac_animate (fold (\<lambda>i. update_apanel i end_slide) [0..<n] s) = ac_animate s"
proof (induction n)
  case (Suc n)
  have "drop n (ac_panels s) = ac_panels s ! n # drop (Suc n) (ac_panels s)" using Suc.prems by (simp add: Cons_nth_drop_Suc)
  moreover have "take (Suc n) (ac_panels s) = take n (ac_panels s) @ [ac_panels s ! n]" using Suc.prems by (simp add: take_Suc_conv_app_nth)
  ultimately show ?case using Suc by (simp add: nth_append list_update_append stopped_def)
qed simp

lemma stop_all_frame [simp]:
  "ac_panels (stop_all s) = map stopped (ac_panels s)" "ac_multiple (stop_all s) = ac_multiple s" "ac_animate (stop_all s) = ac_animate s"
  using fold_update [of "length (ac_panels s)" s] by (simp_all add: stop_all_def)

lemma stopped_ok: "apanel_ok a \<Longrightarrow> apanel_ok (stopped a)"
  using end_slide_body [of "ap_panel a"]
  by (auto simp: apanel_ok_def stopped_def is_opening_def end_slide_def split: option.splits slide_state.splits)

lemma stopped_head [simp]: "head_of (stopped a) = head_of a" "ap_collapsible (stopped a) = ap_collapsible a"
  "pn_slide (ap_panel (stopped a)) = None"
  by (simp_all add: head_of_def stopped_def end_slide_def split: option.split slide_state.split)

lemma stopped_id: "pn_slide (ap_panel a) = None \<Longrightarrow> stopped a = a"
  by (simp add: stopped_def end_slide_def)

lemma stop_all_ok: "accordion_ok s \<Longrightarrow> accordion_ok (stop_all s) \<and> at_rest (stop_all s)"
  by (auto simp: accordion_ok_def at_rest_def list_all_iff stopped_ok comp_def)

lemma stop_all_rest: "at_rest s \<Longrightarrow> ac_panels (stop_all s) = ac_panels s"
  by (simp add: at_rest_def list_all_iff stopped_id map_idI)

section \<open>Collapsing\<close>

lemma collapse_opening: "\<not> pn_collapsed p \<Longrightarrow> pn_slide p = None \<Longrightarrow> pn_allow p MayCollapse \<Longrightarrow> \<not> is_opening (collapse_panel a p)"
  by (simp add: collapse_panel_def end_slide_def Let_def is_opening_def)

lemma expand_opening: "pn_collapsed p \<Longrightarrow> pn_slide p = None \<Longrightarrow> pn_allow p MayExpand \<Longrightarrow> is_opening (expand_panel a p)"
  by (simp add: expand_panel_def end_slide_def Let_def is_opening_def)

text \<open>Marking the header of a panel and collapsing or expanding it, in one update of the list\<close>

definition put_apanel :: "nat \<Rightarrow> bool \<Rightarrow> (panel \<Rightarrow> panel) \<Rightarrow> accordion \<Rightarrow> apanel list" where
  "put_apanel i b f s =
     (ac_panels s)[i := (ac_panels s ! i)\<lparr>ap_header_selected := b, ap_arrow_expand := \<not> b, ap_panel := f (ap_panel (ac_panels s ! i))\<rparr>]"

lemma collapse_at_panels:
  assumes "accordion_ok s" "i < length (ac_panels s)"
  shows "ac_panels (collapse_at i s) =
    (if pn_collapsed (ap_panel (stopped (ac_panels s ! i))) then map stopped (ac_panels s)
     else put_apanel i False (collapse_panel (ac_animate s)) (stop_all s))"
proof -
  have "pn_allow (ap_panel (stopped (ac_panels s ! i))) MayCollapse"
    using stopped_ok [of "ac_panels s ! i"] assms by (simp add: accordion_ok_def list_all_length apanel_ok_def)
  then show ?thesis using assms(2) by (simp add: collapse_at_def Let_def put_apanel_def)
qed

lemma collapse_at_frame [simp]: "ac_multiple (collapse_at i s) = ac_multiple s" "ac_animate (collapse_at i s) = ac_animate s"
  by (simp_all add: collapse_at_def Let_def)

lemma heads_stopped: "map (head_of \<circ> stopped) as = map head_of as"
  by simp

lemma collapse_at_heads:
  assumes "accordion_ok s" "i < length (ac_panels s)"
  shows "map head_of (ac_panels (collapse_at i s)) = (map head_of (ac_panels s))[i := (ap_collapsible (ac_panels s ! i), False)]"
proof (cases "pn_collapsed (ap_panel (stopped (ac_panels s ! i)))")
  case True
  have "apanel_ok (stopped (ac_panels s ! i))" using assms by (simp add: accordion_ok_def list_all_length stopped_ok)
  with True have "\<not> ap_header_selected (stopped (ac_panels s ! i))" by (simp add: apanel_ok_def is_opening_def)
  then have "head_of (ac_panels s ! i) = (ap_collapsible (ac_panels s ! i), False)" by (simp add: head_of_def stopped_def)
  then have "(map head_of (ac_panels s))[i := (ap_collapsible (ac_panels s ! i), False)] = map head_of (ac_panels s)"
    using assms(2) by (simp add: list_update_same_conv)
  with True show ?thesis by (simp add: collapse_at_panels [OF assms] comp_def)
next
  case False
  then show ?thesis using assms(2) by (simp add: collapse_at_panels [OF assms] put_apanel_def map_update comp_def head_of_def [of "r\<lparr>ap_panel := q\<rparr>" for r q] )
qed

lemma single_head_off: "single_head hs \<Longrightarrow> single_head (hs[i := (c, False)])"
  by (cases "i < length hs") (auto simp: single_head_def nth_list_update split: if_splits)

lemma stopped_all_ok: "list_all apanel_ok as \<Longrightarrow> list_all apanel_ok (map stopped as)"
  by (simp add: list_all_iff stopped_ok)

lemma put_apanel_ok:
  assumes "list_all apanel_ok (ac_panels s)" "i < length (ac_panels s)" "body_ok (f (ap_panel (ac_panels s ! i)))"
    and "pn_allow (f (ap_panel (ac_panels s ! i))) = pn_allow (ap_panel (ac_panels s ! i))" "is_opening (f (ap_panel (ac_panels s ! i))) = b"
  shows "list_all apanel_ok (put_apanel i b f s)"
  unfolding put_apanel_def list_all_length using assms by (auto simp: list_all_length nth_list_update apanel_ok_def)

lemma collapse_at_ok:
  assumes "accordion_ok s" "i < length (ac_panels s)"
  shows "accordion_ok (collapse_at i s)"
proof -
  let ?p = "ap_panel (stopped (ac_panels s ! i))"
  have "apanel_ok (stopped (ac_panels s ! i))" using assms by (simp add: accordion_ok_def list_all_length stopped_ok)
  then have p: "body_ok ?p" "pn_allow ?p MayCollapse" by (simp_all add: apanel_ok_def)
  have s: "list_all apanel_ok (map stopped (ac_panels s))" using assms(1) by (simp add: accordion_ok_def stopped_all_ok)
  have "list_all apanel_ok (put_apanel i False (collapse_panel (ac_animate s)) (stop_all s))" if "\<not> pn_collapsed ?p"
    by (rule put_apanel_ok) (use assms(2) s p that in \<open>simp_all add: collapse_body collapse_opening\<close>)
  then have "list_all apanel_ok (ac_panels (collapse_at i s))" using s by (simp add: collapse_at_panels [OF assms])
  moreover have "ac_multiple s \<or> single_head (map head_of (ac_panels (collapse_at i s)))"
    using assms(1) by (auto simp: collapse_at_heads [OF assms] accordion_ok_def intro: single_head_off)
  ultimately show ?thesis by (simp add: accordion_ok_def)
qed

lemma collapse_at_length [simp]: "length (ac_panels (collapse_at i s)) = length (ac_panels s)"
  by (simp add: collapse_at_def Let_def)

lemma collapse_at_other:
  assumes "j \<noteq> i" "j < length (ac_panels s)" "pn_slide (ap_panel (ac_panels s ! j)) = None"
  shows "ac_panels (collapse_at i s) ! j = ac_panels s ! j"
  using assms by (simp add: collapse_at_def Let_def stopped_id)

lemma collapse_at_selected:
  assumes "accordion_ok s" "i < length (ac_panels s)" "j < length (ac_panels s)"
  shows "ap_collapsible (ac_panels (collapse_at i s) ! j) = ap_collapsible (ac_panels s ! j)"
    and "ap_header_selected (ac_panels (collapse_at i s) ! j) = (j \<noteq> i \<and> ap_header_selected (ac_panels s ! j))"
proof -
  have "head_of (ac_panels (collapse_at i s) ! j) = (if j = i then (ap_collapsible (ac_panels s ! i), False) else head_of (ac_panels s ! j))"
    using arg_cong [OF collapse_at_heads [OF assms(1,2)], of "\<lambda>hs. hs ! j"] assms(3) by (simp add: nth_list_update)
  then show "ap_collapsible (ac_panels (collapse_at i s) ! j) = ap_collapsible (ac_panels s ! j)"
    "ap_header_selected (ac_panels (collapse_at i s) ! j) = (j \<noteq> i \<and> ap_header_selected (ac_panels s ! j))"
    by (auto simp: head_of_def split: if_splits)
qed

lemma fold_collapse:
  assumes "accordion_ok s" "\<forall>i \<in> set ks. i < length (ac_panels s)"
  shows "accordion_ok (fold collapse_at ks s) \<and> length (ac_panels (fold collapse_at ks s)) = length (ac_panels s)
    \<and> ac_multiple (fold collapse_at ks s) = ac_multiple s \<and> ac_animate (fold collapse_at ks s) = ac_animate s
    \<and> (\<forall>j < length (ac_panels s).
        ap_collapsible (ac_panels (fold collapse_at ks s) ! j) = ap_collapsible (ac_panels s ! j)
        \<and> ap_header_selected (ac_panels (fold collapse_at ks s) ! j) = (j \<notin> set ks \<and> ap_header_selected (ac_panels s ! j))
        \<and> (j \<notin> set ks \<longrightarrow> pn_slide (ap_panel (ac_panels s ! j)) = None \<longrightarrow> ac_panels (fold collapse_at ks s) ! j = ac_panels s ! j))"
  using assms
proof (induction ks arbitrary: s)
  case (Cons i ks)
  then have c: "accordion_ok (collapse_at i s)" "\<forall>k \<in> set ks. k < length (ac_panels (collapse_at i s))" by (simp_all add: collapse_at_ok)
  note IH = Cons.IH [OF c]
  show ?case using IH Cons.prems collapse_at_selected [of s i] collapse_at_other [of _ i s] by auto
qed simp

section \<open>Expanding\<close>

lemma expand_at_panels:
  assumes "accordion_ok s" "i < length (ac_panels s)" "pn_collapsed (ap_panel (stopped (ac_panels s ! i)))"
    and "pn_allow (ap_panel (stopped (ac_panels s ! i))) MayExpand"
  shows "\<exists>s2. accordion_ok s2 \<and> ac_multiple s2 = ac_multiple s \<and> length (ac_panels s2) = length (ac_panels s)
    \<and> ac_panels s2 ! i = stopped (ac_panels s ! i)
    \<and> (\<forall>j < length (ac_panels s). ap_collapsible (ac_panels s2 ! j) = ap_collapsible (ac_panels s ! j)
          \<and> (ap_header_selected (ac_panels s2 ! j) \<longrightarrow> ap_header_selected (ac_panels s ! j) \<and> (ac_multiple s \<or> \<not> ap_collapsible (ac_panels s ! j))))
    \<and> ac_panels (expand_at i s) = put_apanel i True (expand_panel (ac_animate s2)) s2
    \<and> ac_multiple (expand_at i s) = ac_multiple s"
proof -
  define s1 where "s1 = stop_all s"
  have s1: "accordion_ok s1" "ac_panels s1 = map stopped (ac_panels s)" "ac_multiple s1 = ac_multiple s"
    using stop_all_ok [OF assms(1)] by (simp_all add: s1_def)
  define ks where "ks = (if ac_multiple s then [] else expanded_panels s1)"
  have ks: "\<forall>k \<in> set ks. k < length (ac_panels s1)" "i \<notin> set ks"
    using assms(2,3) s1(2) by (auto simp: ks_def expanded_panels_def)
  define s2 where "s2 = fold collapse_at ks s1"
  note f = fold_collapse [OF s1(1) ks(1), folded s2_def]
  have sel: "ap_header_selected (stopped a) = ap_header_selected a" for a using stopped_head(1) [of a] by (simp add: head_of_def)
  have "\<not> ap_collapsible (ac_panels s ! j)" if j: "j < length (ac_panels s)" "ap_header_selected (ac_panels s2 ! j)" "\<not> ac_multiple s" for j
  proof -
    from j f s1(2) have h: "j \<notin> set ks" "ap_header_selected (ac_panels s1 ! j)" by auto
    have "apanel_ok (ac_panels s1 ! j)" using s1(1,2) j(1) by (simp add: accordion_ok_def list_all_length)
    with h(2) s1(2) j(1) have "\<not> pn_collapsed (ap_panel (ac_panels s1 ! j))" by (auto simp: apanel_ok_def is_opening_def)
    with h(1) j(1,3) s1(2) show ?thesis by (auto simp: ks_def expanded_panels_def)
  qed
  moreover have "expand_at i s = update_apanel i (expand_panel (ac_animate s2)) (mark_header i True s2)"
    using assms(2-4) s1(2,3) by (simp add: expand_at_def Let_def s1_def [symmetric] s2_def ks_def)
  ultimately show ?thesis
    using f s1(2,3) ks(2) assms(2) by (intro exI [of _ s2]) (auto simp: put_apanel_def sel)
qed

lemma expand_at_ok:
  assumes "accordion_ok s" "i < length (ac_panels s)"
  shows "accordion_ok (expand_at i s)"
proof (cases "pn_collapsed (ap_panel (stopped (ac_panels s ! i))) \<and> pn_allow (ap_panel (stopped (ac_panels s ! i))) MayExpand")
  case False
  then have "expand_at i s = stop_all s" using assms(2) by (auto simp: expand_at_def Let_def)
  then show ?thesis using stop_all_ok [OF assms(1)] by simp
next
  case True
  then obtain s2 where s2: "accordion_ok s2" "ac_multiple s2 = ac_multiple s" "length (ac_panels s2) = length (ac_panels s)"
    "ac_panels s2 ! i = stopped (ac_panels s ! i)"
    "\<forall>j < length (ac_panels s). ap_collapsible (ac_panels s2 ! j) = ap_collapsible (ac_panels s ! j)
          \<and> (ap_header_selected (ac_panels s2 ! j) \<longrightarrow> ap_header_selected (ac_panels s ! j) \<and> (ac_multiple s \<or> \<not> ap_collapsible (ac_panels s ! j)))"
    "ac_panels (expand_at i s) = put_apanel i True (expand_panel (ac_animate s2)) s2" "ac_multiple (expand_at i s) = ac_multiple s"
    using expand_at_panels [OF assms] by blast
  have "apanel_ok (ac_panels s2 ! i)" using s2(1,3) assms(2) by (simp add: accordion_ok_def list_all_length)
  then have "list_all apanel_ok (ac_panels (expand_at i s))"
    unfolding s2(6) using s2(1,3,4) assms(2) True
    by (intro put_apanel_ok) (simp_all add: accordion_ok_def apanel_ok_def expand_body expand_opening)
  moreover have "ac_multiple s \<or> single_head (map head_of (ac_panels (expand_at i s)))"
    unfolding s2(6) put_apanel_def using s2(3,5) assms(2)
    by (auto simp: single_head_def head_of_def nth_list_update split: if_splits)
  ultimately show ?thesis by (simp add: accordion_ok_def s2(7))
qed

lemma find_apanel_range: "find_apanel key s = Some i \<Longrightarrow> i < length (ac_panels s)"
  by (auto simp: find_apanel_def dest: find_index_Some split: panel_key.splits if_splits)

lemma select_apanel_ok: "accordion_ok s \<Longrightarrow> accordion_ok (select_apanel key s)"
  by (auto simp: select_apanel_def expand_at_ok find_apanel_range split: option.split)

lemma unselect_ok: "accordion_ok s \<Longrightarrow> accordion_ok (unselect_apanel key s)"
  by (auto simp: unselect_apanel_def collapse_at_ok find_apanel_range split: option.split)

lemma click_header_ok: "accordion_ok s \<Longrightarrow> accordion_ok (click_header i s)"
  by (simp add: click_header_def expand_at_ok collapse_at_ok)

lemma slide_ends_ok: "accordion_ok s \<Longrightarrow> i < length (ac_panels s) \<Longrightarrow> accordion_ok (update_apanel i end_slide s)"
proof -
  assume s: "accordion_ok s" and i: "i < length (ac_panels s)"
  have u: "ac_panels (update_apanel i end_slide s) = (ac_panels s)[i := stopped (ac_panels s ! i)]" by (simp add: stopped_def)
  have "map head_of ((ac_panels s)[i := stopped (ac_panels s ! i)]) = map head_of (ac_panels s)"
    using i by (simp add: map_update list_update_same_conv)
  moreover have "list_all apanel_ok ((ac_panels s)[i := stopped (ac_panels s ! i)])"
    using s i by (auto simp: accordion_ok_def list_all_length nth_list_update stopped_ok)
  ultimately show ?thesis using s by (simp add: accordion_ok_def u del: update_frame(3)) 
qed

lemma select_first_ok: "accordion_ok s \<Longrightarrow> accordion_ok (select_first s)"
  using select_apanel_ok [of "s\<lparr>ac_animate := False\<rparr>"] by (simp add: select_first_def Let_def accordion_ok_def)

section \<open>Adding and removing\<close>

lemma single_head_count: "single_head hs \<longleftrightarrow> length (filter (\<lambda>h. h = (True, True)) hs) \<le> 1"
  unfolding single_head_def by (rule at_most_one_filter)

text \<open>A panel as the options of the accordion make it: collapsed, visible, and nobody refuses to open or collapse it\<close>

definition fresh_panel :: "panel \<Rightarrow> bool" where
  "fresh_panel p =
     (pn_collapsed p \<and> \<not> pn_closed p \<and> \<not> pn_minimized p \<and> \<not> pn_maximized p \<and> \<not> pn_restore_mark p
      \<and> pn_allow p MayCollapse \<and> pn_allow p MayOpen)"

lemma init_fresh:
  assumes "fresh_panel p"
  shows "body_ok (init_panel False p)" "\<not> is_opening (init_panel False p)" "pn_allow (init_panel False p) = pn_allow p"
proof -
  define p0 where "p0 = p\<lparr>pn_loaded := False\<rparr>"
  have r: "\<not> pn_restore_mark p0" "\<not> pn_maximized p0" "pn_collapsed (reopened p0)" "pn_allow (reopened p0) = pn_allow p"
    using assms by (simp_all add: fresh_panel_def p0_def)
  have c: "pn_allow (reopened p0) MayCollapse" using assms r(4) by (simp add: fresh_panel_def)
  have "init_panel False p = collapse_panel False ((reopened p0)\<lparr>pn_collapsed := False\<rparr>)"
    using assms r recollapse(2) [OF c] by (simp add: init_panel_def open_panel_parts p0_def [symmetric] Let_def) (simp add: fresh_panel_def p0_def)
  then show "body_ok (init_panel False p)" "\<not> is_opening (init_panel False p)" "pn_allow (init_panel False p) = pn_allow p"
    using recollapse [OF c] r(4) by (simp_all add: is_opening_def)
qed

lemma create_ok:
  assumes "accordion_ok s" "fresh_panel (ao_panel new)"
  shows "accordion_ok (create_apanel new s)"
  using assms init_fresh [OF assms(2)]
  by (auto simp: create_apanel_def Let_def accordion_ok_def apanel_ok_def fresh_panel_def single_head_count head_of_def)

lemma ac_note_ok [simp]: "accordion_ok (ac_note n s) = accordion_ok s"
  by (simp add: accordion_ok_def)

lemma add_ok:
  assumes "accordion_ok s" "fresh_panel (ao_panel new)"
  shows "accordion_ok (add_apanel new s)"
proof -
  have c: "accordion_ok (create_apanel (new\<lparr>ao_selected := b\<rparr>) (stop_all s))" for b
    by (rule create_ok) (use assms stop_all_ok in simp_all)
  moreover have "length (ac_panels (create_apanel new' s')) = Suc (length (ac_panels s'))" for new' s'
    by (simp add: create_apanel_def Let_def)
  ultimately show ?thesis by (simp add: add_apanel_def Let_def expand_at_ok)
qed

lemma remove_apanel_ok:
  assumes "accordion_ok s" "remove_apanel key s = Some s'"
  shows "accordion_ok s'"
proof -
  define s1 where "s1 = stop_all s"
  have s1: "accordion_ok s1" using stop_all_ok [OF assms(1)] by (simp add: s1_def)
  have r: "accordion_ok (s1\<lparr>ac_panels := remove_at i (ac_panels s1)\<rparr>)" for i
    using s1 length_filter_remove_at [of "\<lambda>h. h = (True, True)" i "map head_of (ac_panels s1)"]
    by (auto simp: accordion_ok_def single_head_count map_remove_at list_all_iff dest: set_remove_at_subset [THEN subsetD])
  moreover have "accordion_ok (s1\<lparr>ac_panels := []\<rparr>)" by (simp add: accordion_ok_def single_head_def)
  ultimately show ?thesis
    using assms(2) s1 by (auto simp: remove_apanel_def s1_def [symmetric] Let_def expand_at_ok split: option.splits if_splits)
qed

definition fresh_event :: "accordion_event \<Rightarrow> bool" where
  "fresh_event e = (case e of AcAdd new \<Rightarrow> fresh_panel (ao_panel new) | _ \<Rightarrow> True)"

lemma fresh_step_ok: "accordion_ok s \<Longrightarrow> fresh_event e \<Longrightarrow> accordion_step s e = Some s' \<Longrightarrow> accordion_ok s'"
  by (cases e)
    (auto simp: fresh_event_def accordion_step_def select_apanel_ok unselect_ok click_header_ok add_ok slide_ends_ok select_first_ok
      simp del: update_frame split: if_splits intro: remove_apanel_ok)

interpretation accordion: guarded_machine accordion_step "\<lambda>s. fresh_event" accordion_ok
  by unfold_locales (rule fresh_step_ok)

lemma fold_create_ok: "accordion_ok s \<Longrightarrow> \<forall>new \<in> set os. fresh_panel (ao_panel new) \<Longrightarrow> accordion_ok (fold create_apanel os s)"
  by (induction os arbitrary: s) (simp_all add: create_ok)

lemma init_ok:
  assumes "\<forall>new \<in> set os. fresh_panel (ao_panel new)"
  shows "accordion_ok (init_accordion os s)"
proof -
  have "accordion_ok (s\<lparr>ac_panels := []\<rparr>)" by (simp add: accordion_ok_def single_head_def)
  from select_first_ok [OF fold_create_ok [OF this assms]] show ?thesis by (simp add: init_accordion_def)
qed

text \<open>
  C27. In a session of an accordion that shows one panel at a time, at most one of its collapsible panels
  is expanded or expanding, and headers and arrows tell which, whether panels are clicked, selected,
  added, removed or still sliding; as long as every panel it starts with or is added is made collapsed,
  visible, and never refuses to open or to collapse (\<open>fresh_panel\<close>; refusing to expand is allowed).
\<close>

theorem accordion_session:
  assumes "\<forall>new \<in> set os. fresh_panel (ao_panel new)" and "list_all fresh_event es"
    and "run_events accordion_step (init_accordion os s) es = Some s'" and "\<not> ac_multiple s'"
  shows "length (filter (\<lambda>a. ap_collapsible a \<and> is_opening (ap_panel a)) (ac_panels s')) \<le> 1
    \<and> (\<forall>a \<in> set (ac_panels s'). ap_header_selected a = is_opening (ap_panel a) \<and> ap_arrow_expand a = (\<not> is_opening (ap_panel a))
        \<and> (pn_slide (ap_panel a) = None \<longrightarrow> pn_body_shown (ap_panel a) = is_opening (ap_panel a)))"
proof -
  have ok: "accordion_ok s'" using accordion.inv_along [OF init_ok [OF assms(1)] along_all [OF assms(2)] assms(3)] .
  then have a: "\<forall>a \<in> set (ac_panels s'). apanel_ok a" by (simp add: accordion_ok_def list_all_iff)
  have "filter (\<lambda>h. h = (True, True)) (map head_of as) = map head_of (filter (\<lambda>a. ap_collapsible a \<and> ap_header_selected a) as)" for as
    by (induction as) (auto simp: head_of_def)
  moreover have "filter (\<lambda>a. ap_collapsible a \<and> ap_header_selected a) (ac_panels s') = filter (\<lambda>a. ap_collapsible a \<and> is_opening (ap_panel a)) (ac_panels s')"
    using a by (intro filter_cong) (auto simp: apanel_ok_def)
  ultimately have "length (filter (\<lambda>a. ap_collapsible a \<and> is_opening (ap_panel a)) (ac_panels s')) \<le> 1"
    using ok assms(4) by (simp add: accordion_ok_def single_head_count)
  with a show ?thesis by (auto simp: apanel_ok_def body_ok_def is_opening_def)
qed

definition plain_panel :: "string \<Rightarrow> panel" where
  "plain_panel t =
     \<lparr>pn_title = t, pn_tools = [], pn_closed = False, pn_minimized = False, pn_maximized = False, pn_collapsed = True,
      pn_options = Map.empty, pn_original = None, pn_parent = \<lparr>ct_inner = (0, 0), ct_count = 0, ct_noscroll = False, ct_fitted = []\<rparr>, pn_id = 0,
      pn_css = \<lparr>sz_css = Map.empty, sz_chrome = (0, 0), sz_fluid = False\<rparr>, pn_shown = True, pn_body_shown = True, pn_restore_mark = False,
      pn_expand_mark = False, pn_slide = None, pn_href = None, pn_cache = True, pn_loaded = False, pn_content = '''', pn_message = '''',
      pn_extract = (\<lambda>s. s), pn_pending = [], pn_next = 0, pn_allow = (\<lambda>h. True), pn_log = []\<rparr>"

definition two_panels :: "apanel_options list" where
  "two_panels = map (\<lambda>t. \<lparr>ao_panel = plain_panel t, ao_collapsible = True, ao_selected = None\<rparr>) [''A'', ''B'']"

definition bare_accordion :: accordion where
  "bare_accordion = \<lparr>ac_panels = [], ac_multiple = False, ac_animate = True, ac_selected = 0, ac_may_remove = (\<lambda>t i. True), ac_log = []\<rparr>"

definition accordion_session_events :: "accordion_event list" where
  "accordion_session_events =
     [AcHeader 1, AcAdd \<lparr>ao_panel = plain_panel ''C'', ao_collapsible = True, ao_selected = None\<rparr>, AcSlideEnds 2, AcSlideEnds 1, AcHeader 1]"

theorem accordion_session_witness:
  "\<exists>s'. run_events accordion_step (init_accordion two_panels bare_accordion) accordion_session_events = Some s'
    \<and> length (filter (\<lambda>a. ap_collapsible a \<and> is_opening (ap_panel a)) (ac_panels s')) \<le> 1
    \<and> map ap_header_selected (ac_panels s') = [False, True, False]"
proof -
  define r where "r = run_events accordion_step (init_accordion two_panels bare_accordion) accordion_session_events"
  have "\<not> Option.is_none r" "\<not> ac_multiple (the r)" "map ap_header_selected (ac_panels (the r)) = [False, True, False]"
    unfolding r_def by code_simp+
  moreover from this(1) have "r = Some (the r)" by (cases r) simp_all
  moreover have "\<forall>new \<in> set two_panels. fresh_panel (ao_panel new)" by (simp add: two_panels_def fresh_panel_def plain_panel_def)
  moreover have fresh: "list_all fresh_event accordion_session_events"
    by (simp add: accordion_session_events_def fresh_event_def fresh_panel_def plain_panel_def)
  ultimately show ?thesis
    using accordion_session [of two_panels accordion_session_events bare_accordion "the r"] fresh by (intro exI [of _ "the r"]) (simp add: r_def)
qed

section \<open>Where the code goes astray\<close>

text \<open>Removing a panel that is not there is a type error, after the animations were stopped.\<close>

lemma remove_unknown: "find_apanel key (stop_all s) = None \<Longrightarrow> remove_apanel key s = None"
  by (simp add: remove_apanel_def Let_def)

text \<open>A panel added with \<open>collapsed:false\<close> is expanded, but its header is not marked, and the others stay expanded.\<close>

lemma created_expanded:
  "map (\<lambda>a. (pn_collapsed (ap_panel a), ap_header_selected a, ap_arrow_expand a))
     (ac_panels (create_apanel \<lparr>ao_panel = (plain_panel ''C'')\<lparr>pn_collapsed := False\<rparr>, ao_collapsible = True, ao_selected = Some False\<rparr> bare_accordion))
   = [(False, False, True)]"
  by code_simp

end
