(* ===== verification/Buttons.thy ===== *)
theory Buttons
  imports JsPrelude
begin

text \<open>
  \<open>plugins/jquery.linkbutton.js\<close>: the link buttons of a page. A button keeps its options and has
  classes that show them; a group is the set of buttons with the same value of the attribute
  \<open>group\<close>, in which selecting one unselects the toggle buttons. A disabled button loses its
  address and its handler and keeps them aside. Sizes (\<open>_1\<close>) and icons are left out.
\<close>

section \<open>State\<close>

record button =
  bt_toggle :: bool
  bt_selected :: bool
  bt_group :: string
  bt_plain :: bool
  bt_outline :: bool
  bt_disabled :: bool
  bt_text :: string
  bt_classes :: "string list"
  bt_attr_group :: string
  bt_shown_text :: string
  bt_href :: string
  bt_saved_href :: string
  bt_onclick :: "nat option"
  bt_saved_onclick :: "nat option"

definition blank_href :: string where
  "blank_href = ''javascript:void(0)''"

definition add_class :: "string list \<Rightarrow> button \<Rightarrow> button" where
  "add_class cs b = b\<lparr>bt_classes := bt_classes b @ filter (\<lambda>c. c \<notin> set (bt_classes b)) cs\<rparr>"

definition remove_class :: "string list \<Rightarrow> button \<Rightarrow> button" where
  "remove_class cs b = b\<lparr>bt_classes := filter (\<lambda>c. c \<notin> set cs) (bt_classes b)\<rparr>"

definition selected_classes :: "bool \<Rightarrow> string list" where
  "selected_classes plain = (if plain then [''l-btn-selected'', ''l-btn-plain-selected''] else [''l-btn-selected''])"

definition disabled_classes :: "bool \<Rightarrow> string list" where
  "disabled_classes plain = (if plain then [''l-btn-disabled'', ''l-btn-plain-disabled''] else [''l-btn-disabled''])"

section \<open>Selecting\<close>

text \<open>\<open>_f\<close>\<close>

definition unselect_member :: "string \<Rightarrow> button \<Rightarrow> button" where
  "unselect_member g b =
     (if bt_attr_group b = g \<and> bt_toggle b
      then (remove_class [''l-btn-selected'', ''l-btn-plain-selected''] b)\<lparr>bt_selected := False\<rparr> else b)"

definition mark_selected_button :: "button \<Rightarrow> button" where
  "mark_selected_button b = (add_class (selected_classes (bt_plain b)) b)\<lparr>bt_selected := True\<rparr>"

definition set_selected :: "nat \<Rightarrow> bool \<Rightarrow> button list \<Rightarrow> button list" where
  "set_selected i on bs =
     (let b = bs ! i
      in if on
         then map_at i mark_selected_button (if bt_group b \<noteq> '''' then map (unselect_member (bt_group b)) bs else bs)
         else if bt_group b = ''''
         then map_at i (\<lambda>b. (remove_class [''l-btn-selected'', ''l-btn-plain-selected''] b)\<lparr>bt_selected := False\<rparr>) bs
         else bs)"

section \<open>Disabling\<close>

text \<open>\<open>_10\<close>; an empty address or handler is none\<close>

definition set_disabled_button :: "bool \<Rightarrow> button \<Rightarrow> button" where
  "set_disabled_button off b0 =
     (let b = remove_class [''l-btn-disabled'', ''l-btn-plain-disabled''] b0
      in if off
         then let b1 = b\<lparr>bt_disabled := True\<rparr>;
                  b2 = (if bt_href b1 \<noteq> '''' then b1\<lparr>bt_saved_href := bt_href b1, bt_href := blank_href\<rparr> else b1);
                  b3 = (if bt_onclick b2 \<noteq> None then b2\<lparr>bt_saved_onclick := bt_onclick b2, bt_onclick := None\<rparr> else b2)
              in add_class (disabled_classes (bt_plain b3)) b3
         else let b1 = b\<lparr>bt_disabled := False\<rparr>;
                  b2 = (if bt_saved_href b1 \<noteq> '''' then b1\<lparr>bt_href := bt_saved_href b1\<rparr> else b1)
              in if bt_saved_onclick b2 \<noteq> None then b2\<lparr>bt_onclick := bt_saved_onclick b2\<rparr> else b2)"

section \<open>Drawing and clicking\<close>

text \<open>\<open>_b\<close>\<close>

definition draw_button :: "button \<Rightarrow> button" where
  "draw_button b0 =
     (let b = remove_class [''l-btn-plain'', ''l-btn-selected'', ''l-btn-plain-selected'', ''l-btn-outline''] (add_class [''l-btn''] b0);
          b1 = (if bt_plain b then add_class [''l-btn-plain''] b else b);
          b2 = (if bt_outline b1 then add_class [''l-btn-outline''] b1 else b1);
          b3 = (if bt_selected b2 then add_class (selected_classes (bt_plain b2)) b2 else b2)
      in b3\<lparr>bt_attr_group := bt_group b3, bt_shown_text := bt_text b3\<rparr>)"

definition redraw_button :: "nat \<Rightarrow> button list \<Rightarrow> button list" where
  "redraw_button i bs =
     (let bs1 = map_at i draw_button bs; bs2 = set_selected i (bt_selected (bs1 ! i)) bs1
      in map_at i (\<lambda>b. set_disabled_button (bt_disabled b) b) bs2)"

text \<open>The options a call of \<open>linkbutton(options)\<close> gives\<close>

record button_change =
  bc_toggle :: "bool option"
  bc_selected :: "bool option"
  bc_group :: "string option"
  bc_plain :: "bool option"
  bc_disabled :: "bool option"

definition change_button :: "button_change \<Rightarrow> button \<Rightarrow> button" where
  "change_button c b =
     b\<lparr>bt_toggle := (case bc_toggle c of None \<Rightarrow> bt_toggle b | Some x \<Rightarrow> x),
       bt_selected := (case bc_selected c of None \<Rightarrow> bt_selected b | Some x \<Rightarrow> x),
       bt_group := (case bc_group c of None \<Rightarrow> bt_group b | Some x \<Rightarrow> x),
       bt_plain := (case bc_plain c of None \<Rightarrow> bt_plain b | Some x \<Rightarrow> x),
       bt_disabled := (case bc_disabled c of None \<Rightarrow> bt_disabled b | Some x \<Rightarrow> x)\<rparr>"

definition click_button :: "nat \<Rightarrow> button list \<Rightarrow> button list" where
  "click_button i bs =
     (let b = bs ! i
      in if bt_disabled b \<or> \<not> bt_toggle b then bs else set_selected i (\<not> bt_selected b) bs)"

definition focus_button :: "bool \<Rightarrow> button \<Rightarrow> button" where
  "focus_button on b = (if on then (if bt_disabled b then b else add_class [''l-btn-focus''] b) else remove_class [''l-btn-focus''] b)"

datatype button_event = ButtonClick nat | ButtonSelect nat | ButtonUnselect nat | ButtonEnable nat | ButtonDisable nat
  | ButtonFocus nat | ButtonBlur nat | ButtonChange nat button_change

definition event_button :: "button_event \<Rightarrow> nat" where
  "event_button e =
     (case e of ButtonClick i \<Rightarrow> i | ButtonSelect i \<Rightarrow> i | ButtonUnselect i \<Rightarrow> i | ButtonEnable i \<Rightarrow> i | ButtonDisable i \<Rightarrow> i
      | ButtonFocus i \<Rightarrow> i | ButtonBlur i \<Rightarrow> i | ButtonChange i c \<Rightarrow> i)"

definition button_step :: "button list \<Rightarrow> button_event \<Rightarrow> button list" where
  "button_step bs e =
     (if event_button e \<ge> length bs then bs
      else case e of
             ButtonClick i \<Rightarrow> click_button i bs
           | ButtonSelect i \<Rightarrow> set_selected i True bs
           | ButtonUnselect i \<Rightarrow> set_selected i False bs
           | ButtonEnable i \<Rightarrow> map_at i (set_disabled_button False) bs
           | ButtonDisable i \<Rightarrow> map_at i (set_disabled_button True) bs
           | ButtonFocus i \<Rightarrow> map_at i (focus_button True) bs
           | ButtonBlur i \<Rightarrow> map_at i (focus_button False) bs
           | ButtonChange i c \<Rightarrow> redraw_button i (map_at i (change_button c) bs))"

section \<open>Classes and groups\<close>

text \<open>What the classes and the attribute say of being selected and of the group, and of being disabled\<close>

definition class_ok :: "button \<Rightarrow> bool" where
  "class_ok b =
     ((''l-btn-selected'' \<in> set (bt_classes b)) = bt_selected b
      \<and> (''l-btn-plain-selected'' \<in> set (bt_classes b)) = (bt_selected b \<and> bt_plain b)
      \<and> bt_attr_group b = bt_group b)"

definition shows_disabled :: "button \<Rightarrow> bool" where
  "shows_disabled b = ((''l-btn-disabled'' \<in> set (bt_classes b)) = bt_disabled b)"

definition chosen_in :: "string \<Rightarrow> button \<Rightarrow> bool" where
  "chosen_in g b = (bt_attr_group b = g \<and> bt_toggle b \<and> bt_selected b)"

definition groups_ok :: "button list \<Rightarrow> bool" where
  "groups_ok bs = (\<forall>g. g \<noteq> '''' \<longrightarrow> (\<forall>i < length bs. \<forall>j < length bs. chosen_in g (bs ! i) \<longrightarrow> chosen_in g (bs ! j) \<longrightarrow> i = j))"

definition buttons_ok :: "button list \<Rightarrow> bool" where
  "buttons_ok bs = (list_all class_ok bs \<and> groups_ok bs)"

definition all_ok :: "button list \<Rightarrow> bool" where
  "all_ok bs = (buttons_ok bs \<and> list_all shows_disabled bs)"

lemma class_set [simp]:
  "set (bt_classes (add_class cs b)) = set (bt_classes b) \<union> set cs" "set (bt_classes (remove_class cs b)) = set (bt_classes b) - set cs"
  by (auto simp: add_class_def remove_class_def)

lemma class_frame [simp]:
  "bt_selected (add_class cs b) = bt_selected b" "bt_plain (add_class cs b) = bt_plain b" "bt_disabled (add_class cs b) = bt_disabled b"
  "bt_group (add_class cs b) = bt_group b" "bt_attr_group (add_class cs b) = bt_attr_group b" "bt_toggle (add_class cs b) = bt_toggle b"
  "bt_selected (remove_class cs b) = bt_selected b" "bt_plain (remove_class cs b) = bt_plain b" "bt_disabled (remove_class cs b) = bt_disabled b"
  "bt_group (remove_class cs b) = bt_group b" "bt_attr_group (remove_class cs b) = bt_attr_group b" "bt_toggle (remove_class cs b) = bt_toggle b"
  "bt_outline (add_class cs b) = bt_outline b" "bt_outline (remove_class cs b) = bt_outline b"
  "bt_href (add_class cs b) = bt_href b" "bt_saved_href (add_class cs b) = bt_saved_href b" "bt_onclick (add_class cs b) = bt_onclick b"
  "bt_saved_onclick (add_class cs b) = bt_saved_onclick b" "bt_href (remove_class cs b) = bt_href b" "bt_saved_href (remove_class cs b) = bt_saved_href b"
  "bt_onclick (remove_class cs b) = bt_onclick b" "bt_saved_onclick (remove_class cs b) = bt_saved_onclick b"
  by (simp_all add: add_class_def remove_class_def)

lemma length_set_selected [simp]: "length (set_selected i on bs) = length bs"
  by (simp add: set_selected_def Let_def)

lemma list_all_map_at: "list_all P xs \<Longrightarrow> (\<And>x. P x \<Longrightarrow> P (f x)) \<Longrightarrow> list_all P (map_at i f xs)"
  by (auto simp: list_all_length nth_map_at)

text \<open>Everything but the button at hand has its classes and its place in a group.\<close>

definition others_ok :: "nat \<Rightarrow> button list \<Rightarrow> bool" where
  "others_ok k bs =
     ((\<forall>i < length bs. i \<noteq> k \<longrightarrow> class_ok (bs ! i))
      \<and> (\<forall>g. g \<noteq> '''' \<longrightarrow> (\<forall>i < length bs. \<forall>j < length bs. i \<noteq> k \<longrightarrow> j \<noteq> k \<longrightarrow> chosen_in g (bs ! i) \<longrightarrow> chosen_in g (bs ! j) \<longrightarrow> i = j)))"

lemma buttons_ok_others: "buttons_ok bs \<Longrightarrow> others_ok k bs"
  by (auto simp: buttons_ok_def others_ok_def groups_ok_def list_all_length)

lemma replaced_ok:
  assumes "others_ok k bs" "k < length bs" "class_ok (f (bs ! k))"
    and "\<And>g. g \<noteq> '''' \<Longrightarrow> chosen_in g (f (bs ! k)) \<Longrightarrow> \<forall>i < length bs. i \<noteq> k \<longrightarrow> \<not> chosen_in g (bs ! i)"
  shows "buttons_ok (map_at k f bs)"
proof -
  have "list_all class_ok (map_at k f bs)"
    using assms(1-3) by (auto simp: list_all_length nth_map_at others_ok_def)
  moreover have "i = j" if "g \<noteq> ''''" "i < length bs" "j < length bs" "chosen_in g (map_at k f bs ! i)" "chosen_in g (map_at k f bs ! j)" for g i j
  proof (cases "i = k \<or> j = k")
    case True
    with that assms(2) have "chosen_in g (f (bs ! k))" by (auto simp: nth_map_at)
    from assms(4) [OF that(1) this] that(2-5) show ?thesis by (auto simp: nth_map_at split: if_splits)
  next
    case False
    with that have "chosen_in g (bs ! i)" "chosen_in g (bs ! j)" by (simp_all add: nth_map_at split: if_splits)
    with False that(1-3) assms(1) show ?thesis unfolding others_ok_def by blast
  qed
  ultimately show ?thesis by (simp add: buttons_ok_def groups_ok_def)
qed

lemma select_ok:
  assumes "others_ok k bs" "k < length bs" "class_ok (bs ! k)"
  shows "buttons_ok (set_selected k True bs)"
proof -
  have u: "class_ok b \<Longrightarrow> class_ok (unselect_member g b)" for g b by (simp add: unselect_member_def class_ok_def)
  have m: "class_ok b \<Longrightarrow> class_ok (mark_selected_button b)" for b
    by (auto simp: mark_selected_button_def class_ok_def selected_classes_def)
  have all: "\<forall>i < length bs. class_ok (bs ! i)" using assms by (auto simp: others_ok_def)
  show ?thesis
  proof (cases "bt_group (bs ! k) = ''''")
    case True
    then have s: "set_selected k True bs = map_at k mark_selected_button bs" by (simp add: set_selected_def Let_def)
    have "\<not> chosen_in g (mark_selected_button (bs ! k))" if "g \<noteq> ''''" for g
      using that True assms(3) by (simp add: chosen_in_def mark_selected_button_def class_ok_def)
    then show ?thesis unfolding s using assms(2) all m by (intro replaced_ok [OF assms(1)]) simp_all
  next
    case False
    define g where "g = bt_group (bs ! k)"
    have s: "set_selected k True bs = map_at k mark_selected_button (map (unselect_member g) bs)"
      using False by (simp add: set_selected_def Let_def g_def)
    have c: "chosen_in h (unselect_member g b) = (chosen_in h b \<and> h \<noteq> g)" for h b
      by (auto simp: chosen_in_def unselect_member_def)
    have k: "chosen_in h (mark_selected_button (unselect_member g (bs ! k))) \<Longrightarrow> h = g" for h
      using assms(3) by (auto simp: chosen_in_def mark_selected_button_def unselect_member_def class_ok_def g_def split: if_splits)
    have "others_ok k (map (unselect_member g) bs)"
      using assms(1) u by (auto simp: others_ok_def c)
    then show ?thesis
      unfolding s using assms(2) all m u by (intro replaced_ok) (auto simp: c dest: k)
  qed
qed
lemma same_ok:
  assumes "buttons_ok bs" "k < length bs"
    and "class_ok (f (bs ! k))" "\<And>g. chosen_in g (f (bs ! k)) \<Longrightarrow> chosen_in g (bs ! k)"
  shows "buttons_ok (map_at k f bs)"
proof (rule replaced_ok [where f = f, OF buttons_ok_others [OF assms(1)] assms(2,3)])
  fix g assume "g \<noteq> ''''" "chosen_in g (f (bs ! k))"
  with assms(1,2,4) show "\<forall>i < length bs. i \<noteq> k \<longrightarrow> \<not> chosen_in g (bs ! i)"
    unfolding buttons_ok_def groups_ok_def by blast
qed

lemma buttons_ok_nth: "buttons_ok bs \<Longrightarrow> k < length bs \<Longrightarrow> class_ok (bs ! k)"
  by (simp add: buttons_ok_def list_all_length)

lemma set_selected_ok:
  assumes "buttons_ok bs" "k < length bs"
  shows "buttons_ok (set_selected k on bs)"
proof (cases on)
  case True
  then show ?thesis using select_ok [OF buttons_ok_others [OF assms(1)] assms(2) buttons_ok_nth [OF assms]] by simp
next
  case False
  have "buttons_ok (map_at k (\<lambda>b. (remove_class [''l-btn-selected'', ''l-btn-plain-selected''] b)\<lparr>bt_selected := False\<rparr>) bs)"
    by (rule same_ok [OF assms]) (use buttons_ok_nth [OF assms] in \<open>simp_all add: class_ok_def chosen_in_def\<close>)
  with False assms show ?thesis by (simp add: set_selected_def Let_def)
qed

lemma disable_frame [simp]:
  "bt_selected (set_disabled_button off b) = bt_selected b" "bt_plain (set_disabled_button off b) = bt_plain b"
  "bt_group (set_disabled_button off b) = bt_group b" "bt_attr_group (set_disabled_button off b) = bt_attr_group b"
  "bt_toggle (set_disabled_button off b) = bt_toggle b" "bt_disabled (set_disabled_button off b) = off"
  by (simp_all add: set_disabled_button_def Let_def)

lemma disable_classes:
  "set (bt_classes (set_disabled_button off b)) = set (bt_classes b) - {''l-btn-disabled'', ''l-btn-plain-disabled''} \<union> (if off then set (disabled_classes (bt_plain b)) else {})"
  by (simp add: set_disabled_button_def Let_def)

lemma disable_ok: "class_ok b \<Longrightarrow> class_ok (set_disabled_button off b)" "shows_disabled (set_disabled_button off b)"
  by (auto simp: class_ok_def shows_disabled_def disable_classes disabled_classes_def)

lemma focus_ok: "class_ok b \<Longrightarrow> class_ok (focus_button on b)" "shows_disabled b \<Longrightarrow> shows_disabled (focus_button on b)"
  "chosen_in g (focus_button on b) = chosen_in g b"
  by (auto simp: class_ok_def shows_disabled_def focus_button_def chosen_in_def)

lemma draw_frame [simp]:
  "bt_selected (draw_button b) = bt_selected b" "bt_plain (draw_button b) = bt_plain b" "bt_group (draw_button b) = bt_group b"
  "bt_attr_group (draw_button b) = bt_group b" "bt_toggle (draw_button b) = bt_toggle b"
  by (simp_all add: draw_button_def Let_def)

lemma draw_ok: "class_ok (draw_button b)"
  by (auto simp: class_ok_def draw_button_def Let_def selected_classes_def)

lemma others_map_at: "others_ok k bs \<Longrightarrow> others_ok k (map_at k f bs)"
  by (auto simp: others_ok_def nth_map_at)

lemma map_at_twice: "map_at k f (map_at k g bs) = map_at k (f \<circ> g) bs"
  by (rule nth_equalityI) (simp_all add: nth_map_at)

lemma map_at_id: "k < length bs \<Longrightarrow> f (bs ! k) = bs ! k \<Longrightarrow> map_at k f bs = bs"
  by (rule nth_equalityI) (auto simp: nth_map_at)

text \<open>A drawn button that is not selected is chosen in no group.\<close>

lemma redraw_ok:
  assumes "buttons_ok bs" "k < length bs"
  shows "buttons_ok (redraw_button k (map_at k (change_button c) bs))"
proof -
  define bs1 where "bs1 = map_at k (draw_button \<circ> change_button c) bs"
  have len: "k < length bs1" using assms(2) by (simp add: bs1_def)
  have k: "class_ok (bs1 ! k)" using assms(2) by (simp add: bs1_def nth_map_at draw_ok)
  have o: "others_ok k bs1" unfolding bs1_def by (rule others_map_at [OF buttons_ok_others [OF assms(1)]])
  have sel: "buttons_ok (set_selected k (bt_selected (bs1 ! k)) bs1)"
  proof (cases "bt_selected (bs1 ! k)")
    case True
    then show ?thesis using select_ok [OF o len k] by simp
  next
    case False
    have "buttons_ok (map_at k (\<lambda>b. b) bs1)"
      by (rule replaced_ok [OF o len]) (use k False in \<open>simp_all add: chosen_in_def\<close>)
    then have "buttons_ok bs1" by (simp add: map_at_id len)
    then show ?thesis by (rule set_selected_ok [OF _ len])
  qed
  have "buttons_ok (map_at k (\<lambda>b. set_disabled_button (bt_disabled b) b) (set_selected k (bt_selected (bs1 ! k)) bs1))"
    by (rule same_ok [OF sel]) (use len buttons_ok_nth [OF sel] in \<open>simp_all add: disable_ok chosen_in_def\<close>)
  then show ?thesis by (simp add: redraw_button_def Let_def map_at_twice bs1_def comp_def)
qed

lemma set_selected_disabled:
  assumes "list_all shows_disabled bs"
  shows "list_all shows_disabled (set_selected i on bs)"
proof -
  have "shows_disabled b \<Longrightarrow> shows_disabled (unselect_member g b)" "shows_disabled b \<Longrightarrow> shows_disabled (mark_selected_button b)"
    "shows_disabled b \<Longrightarrow> shows_disabled ((remove_class [''l-btn-selected'', ''l-btn-plain-selected''] b)\<lparr>bt_selected := False\<rparr>)" for b g
    by (auto simp: shows_disabled_def unselect_member_def mark_selected_button_def selected_classes_def)
  with assms show ?thesis
    by (auto simp: set_selected_def Let_def intro!: list_all_map_at) (simp_all add: list_all_iff)
qed

lemma redraw_disabled_button:
  assumes "list_all shows_disabled bs" "i < length bs"
  shows "list_all shows_disabled (redraw_button i (map_at i f bs))"
proof -
  define bs1 where "bs1 = map_at i (draw_button \<circ> f) bs"
  define bs2 where "bs2 = set_selected i (bt_selected (bs1 ! i)) bs1"
  have other: "shows_disabled (bs2 ! j)" if "j < length bs" "j \<noteq> i" for j
  proof -
    define bs0 where "bs0 = map_at i (\<lambda>b. set_disabled_button False b) bs1"
    have "bs1 ! j = bs ! j" using that by (simp add: bs1_def nth_map_at)
    then have "shows_disabled (bs1 ! j)" using assms(1) that by (simp add: list_all_length)
    then show ?thesis
      using that by (auto simp: bs2_def set_selected_def Let_def bs1_def nth_map_at unselect_member_def shows_disabled_def)
  qed
  have "length bs2 = length bs" by (simp add: bs2_def bs1_def)
  then have "list_all shows_disabled (map_at i (\<lambda>b. set_disabled_button (bt_disabled b) b) bs2)"
    using other disable_ok(2) by (auto simp: list_all_length nth_map_at)
  then show ?thesis by (simp add: redraw_button_def Let_def map_at_twice bs2_def bs1_def)
qed

lemma length_redraw [simp]: "length (redraw_button i bs) = length bs"
  by (simp add: redraw_button_def Let_def)

lemma button_step_ok: "all_ok bs \<Longrightarrow> all_ok (button_step bs e)"
proof -
  assume ok: "all_ok bs"
  show ?thesis
  proof (cases "event_button e < length bs")
    case True
    have b: "buttons_ok bs" "list_all shows_disabled bs" using ok by (simp_all add: all_ok_def)
    have d: "buttons_ok (map_at i (set_disabled_button off) bs)" "buttons_ok (map_at i (focus_button off) bs)" if "i < length bs" for i off
      using that buttons_ok_nth [OF b(1) that] by (auto intro!: same_ok [OF b(1)] simp: disable_ok focus_ok) (simp add: chosen_in_def)
    have d': "list_all shows_disabled (map_at i (set_disabled_button off) bs)" "list_all shows_disabled (map_at i (focus_button off) bs)" for i off
      using b(2) by (auto intro!: list_all_map_at simp: disable_ok focus_ok)
    show ?thesis
      using True b d d'
      by (cases e) (auto simp: button_step_def event_button_def all_ok_def click_button_def Let_def set_selected_ok set_selected_disabled redraw_ok redraw_disabled_button)
  qed (use ok in \<open>simp add: button_step_def\<close>)
qed

interpretation buttons: event_machine button_step all_ok
  by unfold_locales (rule button_step_ok)

section \<open>Radio buttons\<close>

definition is_radio_group :: "string \<Rightarrow> button list \<Rightarrow> bool" where
  "is_radio_group g bs = list_all (\<lambda>b. bt_attr_group b = g \<longrightarrow> bt_toggle b) bs"

definition no_change :: "button_event \<Rightarrow> bool" where
  "no_change e = (case e of ButtonChange i c \<Rightarrow> False | _ \<Rightarrow> True)"

text \<open>Every event other than new options leaves groups and kinds of buttons alone.\<close>

lemma step_kinds:
  assumes "no_change e"
  shows "map (\<lambda>b. (bt_attr_group b, bt_toggle b)) (button_step bs e) = map (\<lambda>b. (bt_attr_group b, bt_toggle b)) bs"
proof -
  have m: "map h (map_at i f xs) = map h xs" if "\<And>x. h (f x) = h x" for h :: "button \<Rightarrow> 'c" and i f xs
    using that by (intro nth_equalityI) (simp_all add: nth_map_at)
  have u: "map (\<lambda>b. (bt_attr_group b, bt_toggle b)) (set_selected i on xs) = map (\<lambda>b. (bt_attr_group b, bt_toggle b)) xs" for i on xs
    by (auto simp: set_selected_def Let_def m mark_selected_button_def unselect_member_def)
  show ?thesis
    using assms by (cases e) (auto simp: button_step_def no_change_def click_button_def Let_def u m focus_button_def)
qed

lemma select_chosen:
  assumes "k < length bs" "class_ok (bs ! k)" "is_radio_group g bs" "g \<noteq> ''''" "\<exists>b \<in> set bs. chosen_in g b"
  shows "\<exists>b \<in> set (set_selected k True bs). chosen_in g b"
proof (cases "bt_group (bs ! k) = g")
  case True
  have "chosen_in g (set_selected k True bs ! k)"
    using assms(1-3) True
    by (auto simp: chosen_in_def set_selected_def Let_def nth_map_at mark_selected_button_def unselect_member_def is_radio_group_def list_all_length class_ok_def)
  then show ?thesis using assms(1) by (metis length_set_selected nth_mem)
next
  case False
  obtain i where i: "i < length bs" "chosen_in g (bs ! i)" using assms(5) by (auto simp: in_set_conv_nth)
  then have "chosen_in g (set_selected k True bs ! i)"
    using False assms(1,4) by (auto simp: chosen_in_def set_selected_def Let_def nth_map_at mark_selected_button_def unselect_member_def)
  then show ?thesis using i(1) by (metis length_set_selected nth_mem)
qed

lemma unselect_chosen:
  assumes "k < length bs" "class_ok (bs ! k)" "g \<noteq> ''''" "\<exists>b \<in> set bs. chosen_in g b"
  shows "\<exists>b \<in> set (set_selected k False bs). chosen_in g b"
proof -
  obtain i where i: "i < length bs" "chosen_in g (bs ! i)" using assms(4) by (auto simp: in_set_conv_nth)
  have "chosen_in g (set_selected k False bs ! i)"
    using i assms(1-3) by (auto simp: chosen_in_def set_selected_def Let_def nth_map_at class_ok_def)
  then show ?thesis using i(1) by (metis length_set_selected nth_mem)
qed

lemma map_at_chosen:
  assumes "\<exists>b \<in> set bs. chosen_in g b" "\<And>b. chosen_in g (f b) = chosen_in g b"
  shows "\<exists>b \<in> set (map_at i f bs). chosen_in g b"
proof -
  obtain j where "j < length bs" "chosen_in g (bs ! j)" using assms(1) by (auto simp: in_set_conv_nth)
  then have "j < length (map_at i f bs)" "chosen_in g (map_at i f bs ! j)" using assms(2) by (simp_all add: nth_map_at)
  then show ?thesis by (metis nth_mem)
qed

lemma step_chosen:
  assumes "all_ok bs" "is_radio_group g bs" "g \<noteq> ''''" "no_change e" "\<exists>b \<in> set bs. chosen_in g b"
  shows "\<exists>b \<in> set (button_step bs e). chosen_in g b"
proof -
  have "class_ok (bs ! k)" if "k < length bs" for k using assms(1) that by (simp add: all_ok_def buttons_ok_nth)
  then have s: "\<exists>b \<in> set (set_selected k on bs). chosen_in g b" if "k < length bs" for k on
    using that select_chosen [OF that _ assms(2,3,5)] unselect_chosen [OF that _ assms(3,5)] by (cases on) simp_all
  have m: "\<exists>b \<in> set (map_at i (set_disabled_button off) bs). chosen_in g b" "\<exists>b \<in> set (map_at i (focus_button off) bs). chosen_in g b" for i off
    by (rule map_at_chosen [OF assms(5)], simp add: chosen_in_def, rule map_at_chosen [OF assms(5)], simp add: focus_ok)
  show ?thesis
    using assms(4,5) s m by (cases e) (auto simp: button_step_def event_button_def no_change_def click_button_def Let_def split: if_splits)
qed

lemma foldl_chosen:
  assumes "list_all no_change es" "all_ok bs" "is_radio_group g bs" "g \<noteq> ''''" "\<exists>b \<in> set bs. chosen_in g b"
  shows "\<exists>b \<in> set (foldl button_step bs es). chosen_in g b"
  using assms
proof (induction es arbitrary: bs)
  case (Cons e es)
  have "is_radio_group g (button_step bs e)"
  proof -
    have "is_radio_group g bs = list_all (\<lambda>q. fst q = g \<longrightarrow> snd q) (map (\<lambda>b. (bt_attr_group b, bt_toggle b)) bs)" for bs
      by (simp add: is_radio_group_def list_all_iff)
    then show ?thesis using step_kinds [of e bs] Cons.prems(1,3) by simp
  qed
  then show ?case using Cons button_step_ok step_chosen by simp
qed simp

text \<open>
  Of the toggle buttons of a group exactly one is selected, and shown as such, after every
  session of clicks, calls of select and unselect, and of enabling and disabling, once one is.
\<close>

theorem radio_group_one:
  assumes "all_ok bs" and "is_radio_group g bs" and "g \<noteq> ''''" and "\<exists>b \<in> set bs. chosen_in g b" and "list_all no_change es"
  shows "length (filter (chosen_in g) (foldl button_step bs es)) = 1
    \<and> (\<forall>b \<in> set (foldl button_step bs es). (''l-btn-selected'' \<in> set (bt_classes b)) = bt_selected b \<and> (''l-btn-disabled'' \<in> set (bt_classes b)) = bt_disabled b)"
proof -
  define bs' where "bs' = foldl button_step bs es"
  have ok: "all_ok bs'" unfolding bs'_def by (rule buttons.inv_foldl [OF assms(1)])
  have "length (filter (chosen_in g) bs') \<le> 1"
    using ok assms(3) at_most_one_filter [of bs' "chosen_in g"] by (auto simp: all_ok_def buttons_ok_def groups_ok_def)
  moreover have "filter (chosen_in g) bs' \<noteq> []"
    using foldl_chosen [OF assms(5,1-4)] by (auto simp: bs'_def filter_empty_conv)
  ultimately have "length (filter (chosen_in g) bs') = 1" by (cases "filter (chosen_in g) bs'") auto
  with ok show ?thesis by (auto simp: bs'_def all_ok_def buttons_ok_def list_all_iff class_ok_def shows_disabled_def)
qed

definition radio_button :: "string \<Rightarrow> bool \<Rightarrow> button" where
  "radio_button t sel =
     \<lparr>bt_toggle = True, bt_selected = sel, bt_group = ''g'', bt_plain = False, bt_outline = False, bt_disabled = False, bt_text = t,
      bt_classes = (if sel then [''l-btn'', ''l-btn-selected''] else [''l-btn'']), bt_attr_group = ''g'', bt_shown_text = t,
      bt_href = '''', bt_saved_href = '''', bt_onclick = None, bt_saved_onclick = None\<rparr>"

theorem radio_group_one_witness:
  "map bt_selected (foldl button_step [radio_button ''a'' True, radio_button ''b'' False] [ButtonClick 1, ButtonClick 1, ButtonDisable 0]) = [False, True]
   \<and> length (filter (chosen_in ''g'') (foldl button_step [radio_button ''a'' True, radio_button ''b'' False] [ButtonClick 1, ButtonClick 1, ButtonDisable 0])) = 1"
proof -
  let ?bs = "[radio_button ''a'' True, radio_button ''b'' False]"
  have ok: "all_ok ?bs"
    by (auto simp: all_ok_def buttons_ok_def groups_ok_def class_ok_def shows_disabled_def radio_button_def chosen_in_def less_Suc_eq)
  have "is_radio_group ''g'' ?bs" "\<exists>b \<in> set ?bs. chosen_in ''g'' b" "list_all no_change [ButtonClick 1, ButtonClick 1, ButtonDisable 0]"
    by (simp_all add: is_radio_group_def radio_button_def chosen_in_def no_change_def)
  with radio_group_one [OF ok] have "length (filter (chosen_in ''g'') (foldl button_step ?bs [ButtonClick 1, ButtonClick 1, ButtonDisable 0])) = 1"
    by blast
  moreover have "map bt_selected (foldl button_step ?bs [ButtonClick 1, ButtonClick 1, ButtonDisable 0]) = [False, True]" by code_simp
  ultimately show ?thesis by simp
qed

section \<open>Where the code goes astray\<close>

text \<open>Enabling undoes disabling, but a button disabled twice has lost its address.\<close>

lemma blank_nonempty: "blank_href \<noteq> ''''"
  by (simp add: blank_href_def)

lemma disable_href:
  "bt_href (set_disabled_button True b) = (if bt_href b = '''' then '''' else blank_href)"
  "bt_saved_href (set_disabled_button True b) = (if bt_href b = '''' then bt_saved_href b else bt_href b)"
  "bt_href (set_disabled_button False b) = (if bt_saved_href b = '''' then bt_href b else bt_saved_href b)"
  by (simp_all add: set_disabled_button_def Let_def)

lemma disable_enable: "bt_href b \<noteq> '''' \<Longrightarrow> bt_href (set_disabled_button False (set_disabled_button True b)) = bt_href b"
  by (simp add: disable_href)

lemma disable_twice: "bt_href b \<noteq> '''' \<Longrightarrow> bt_href (set_disabled_button False (set_disabled_button True (set_disabled_button True b))) = blank_href"
  by (simp add: disable_href blank_nonempty)

end
