(* ===== verification/Validation.thy ===== *)
theory Validation
  imports JsPrelude
begin

text \<open>
  \<open>plugins/jquery.validatebox.js\<close>: an input box that is checked against a list of rules, marks
  itself invalid and shows a tip. While it has the focus it looks at its text every 200 ms and
  validates when the text has not changed for a while; polls and the delay are timers that fire at
  any time. The rules are parameters (their regular expressions are the host's), and so is the
  evaluation of the parameters written in a rule name; parameters have no dollar sign, which
  \<open>replace\<close> would read. \<open>None\<close> is the type error of a rule name without letters.
\<close>

section \<open>Rules and messages\<close>

record vrule =
  vr_check :: "string \<Rightarrow> string list option \<Rightarrow> bool"
  vr_message :: string

datatype valid_type = NoRules | RuleList "string list" | RuleString string | RuleObject "(string \<times> string list option) list"

definition is_name_char :: "char \<Rightarrow> bool" where
  "is_name_char c = (let k = (of_char c :: nat) in 65 \<le> k \<and> k \<le> 90 \<or> 97 \<le> k \<and> k \<le> 122 \<or> k = 95)"

text \<open>\<open>/([a-zA-Z_]+)(.*)/.exec(s)\<close>\<close>

definition split_rule :: "string \<Rightarrow> (string \<times> string) option" where
  "split_rule s =
     (let r = dropWhile (\<lambda>c. \<not> is_name_char c) s
      in if r = '''' then None else Some (takeWhile is_name_char r, takeWhile (\<lambda>c. c \<noteq> CHR 0x0A \<and> c \<noteq> CHR 0x0D) (dropWhile is_name_char r)))"

function replace_all :: "string \<Rightarrow> string \<Rightarrow> string \<Rightarrow> string" where
  "replace_all pat t s =
     (if s = [] then []
      else if pat \<noteq> [] \<and> prefix pat s then t @ replace_all pat t (drop (length pat) s)
      else hd s # replace_all pat t (tl s))"
  by pat_completeness auto
termination
  by (relation "measure (\<lambda>(pat, t, s). length s)") (auto simp: Sublist.prefix_length_le diff_less_mono2 intro!: diff_less)

declare replace_all.simps [simp del]

definition fill_message :: "string list \<Rightarrow> string \<Rightarrow> string" where
  "fill_message ps m = fold (\<lambda>i. replace_all (''{'' @ show_nat i @ ''}'') (ps ! i)) [0..<length ps] m"

section \<open>State\<close>

datatype vbox_note = BeforeValidate | Validated bool

record vbox =
  vb_text :: string
  vb_required :: bool
  vb_type :: valid_type
  vb_params :: "string list option"
  vb_rules :: "string \<Rightarrow> vrule option"
  vb_eval :: "string \<Rightarrow> string list option"
  vb_novalidate :: bool
  vb_disabled :: bool
  vb_readonly :: bool
  vb_missing_message :: string
  vb_invalid_message :: string
  vb_bound :: bool
  vb_invalid :: bool
  vb_message :: string
  vb_validating :: bool
  vb_seen :: "string option"
  vb_timer :: bool
  vb_pollers :: nat
  vb_tip :: bool
  vb_log :: "vbox_note list"

definition vb_note :: "vbox_note \<Rightarrow> vbox \<Rightarrow> vbox" where
  "vb_note n b = b\<lparr>vb_log := vb_log b @ [n]\<rparr>"

text \<open>\<open>_16\<close> and \<open>_13\<close>\<close>

definition show_tip :: "vbox \<Rightarrow> vbox" where
  "show_tip b = b\<lparr>vb_tip := True\<rparr>"

definition hide_tip :: "vbox \<Rightarrow> vbox" where
  "hide_tip b = b\<lparr>vb_tip := False\<rparr>"

section \<open>Validating\<close>

definition fail_box :: "string \<Rightarrow> vbox \<Rightarrow> vbox" where
  "fail_box m b = (let b1 = b\<lparr>vb_invalid := True, vb_message := m\<rparr> in if vb_validating b1 then show_tip b1 else b1)"

text \<open>\<open>_28\<close>\<close>

definition rule_params :: "string \<Rightarrow> string list option \<Rightarrow> vbox \<Rightarrow> string list option" where
  "rule_params rest given b =
     (case given of Some ps \<Rightarrow> Some ps | None \<Rightarrow> (case vb_params b of Some ps \<Rightarrow> Some ps | None \<Rightarrow> vb_eval b rest))"

definition rule_message :: "vrule \<Rightarrow> string list option \<Rightarrow> vbox \<Rightarrow> string" where
  "rule_message r ps b =
     (if vb_invalid_message b \<noteq> '''' then vb_invalid_message b
      else (case ps of None \<Rightarrow> vr_message r | Some xs \<Rightarrow> fill_message xs (vr_message r)))"

definition check_rule :: "string \<times> string list option \<Rightarrow> vbox \<Rightarrow> (bool \<times> vbox) option" where
  "check_rule q b =
     (case split_rule (fst q) of
        None \<Rightarrow> None
      | Some (name, rest) \<Rightarrow>
          (case vb_rules b name of
             None \<Rightarrow> Some (True, b)
           | Some r \<Rightarrow>
               if vb_text b = '''' then Some (True, b)
               else let ps = rule_params rest (snd q) b
                    in if vr_check r (vb_text b) ps then Some (True, b) else Some (False, fail_box (rule_message r ps b) b)))"

fun check_rules :: "(string \<times> string list option) list \<Rightarrow> vbox \<Rightarrow> (bool \<times> vbox) option" where
  "check_rules [] b = Some (True, b)"
| "check_rules (q # qs) b =
     (case check_rule q b of None \<Rightarrow> None | Some (ok, b1) \<Rightarrow> if ok then check_rules qs b1 else Some (False, b1))"

definition rules_of :: "valid_type \<Rightarrow> (string \<times> string list option) list" where
  "rules_of t = (case t of NoRules \<Rightarrow> [] | RuleList ns \<Rightarrow> map (\<lambda>n. (n, None)) ns | RuleString n \<Rightarrow> (if n = '''' then [] else [(n, None)]) | RuleObject qs \<Rightarrow> qs)"

text \<open>\<open>_26\<close> and \<open>_21\<close>\<close>

definition run_validation :: "vbox \<Rightarrow> (bool \<times> vbox) option" where
  "run_validation b0 =
     (let b = hide_tip (b0\<lparr>vb_invalid := False\<rparr>)
      in if vb_novalidate b \<or> vb_disabled b then Some (True, b)
         else if vb_required b \<and> vb_text b = '''' then Some (False, fail_box (vb_missing_message b) b)
         else check_rules (rules_of (vb_type b)) b)"

definition validate :: "vbox \<Rightarrow> (bool \<times> vbox) option" where
  "validate b =
     (case run_validation (vb_note BeforeValidate b) of None \<Rightarrow> None | Some (ok, b1) \<Rightarrow> Some (ok, vb_note (Validated ok) b1))"

definition validated :: "vbox \<Rightarrow> vbox option" where
  "validated b = map_option snd (validate b)"

section \<open>Events\<close>

text \<open>\<open>_6\<close> and \<open>_32\<close>\<close>

definition bind_events :: "vbox \<Rightarrow> vbox" where
  "bind_events b = b\<lparr>vb_bound := \<not> (vb_novalidate b \<or> vb_disabled b)\<rparr>"

definition set_novalidate :: "bool option \<Rightarrow> vbox \<Rightarrow> vbox option" where
  "set_novalidate nv b0 =
     (let b = (case nv of None \<Rightarrow> b0 | Some x \<Rightarrow> b0\<lparr>vb_novalidate := x\<rparr>);
          b1 = (if vb_novalidate b then hide_tip (b\<lparr>vb_invalid := False\<rparr>) else b)
      in map_option bind_events (validated b1))"

definition create_vbox :: "vbox \<Rightarrow> vbox option" where
  "create_vbox b = Option.bind (set_novalidate None b) validated"

text \<open>\<open>_b\<close>: the poll that goes on while the box is being validated\<close>

definition poll :: "vbox \<Rightarrow> vbox" where
  "poll b =
     (if vb_validating b
      then (if vb_seen b \<noteq> Some (vb_text b) then b\<lparr>vb_seen := Some (vb_text b), vb_timer := True\<rparr> else b)\<lparr>vb_pollers := vb_pollers b + 1\<rparr>
      else b)"

definition focus_box :: "vbox \<Rightarrow> vbox" where
  "focus_box b = (if \<not> vb_bound b \<or> vb_readonly b then b else poll (b\<lparr>vb_validating := True, vb_seen := None\<rparr>))"

text \<open>\<open>_10\<close>, \<open>_14\<close>, \<open>_17\<close>\<close>

definition blur_box :: "vbox \<Rightarrow> vbox" where
  "blur_box b = (if vb_bound b then hide_tip (b\<lparr>vb_timer := False, vb_validating := False\<rparr>) else b)"

definition enter_box :: "vbox \<Rightarrow> vbox" where
  "enter_box b = (if vb_bound b \<and> vb_invalid b then show_tip b else b)"

definition leave_box :: "vbox \<Rightarrow> vbox" where
  "leave_box b = (if vb_bound b \<and> \<not> vb_validating b then hide_tip b else b)"

definition poll_fires :: "vbox \<Rightarrow> vbox" where
  "poll_fires b = (if vb_pollers b = 0 then b else poll (b\<lparr>vb_pollers := vb_pollers b - 1\<rparr>))"

definition timer_fires :: "vbox \<Rightarrow> vbox option" where
  "timer_fires b = (if vb_timer b then validated (b\<lparr>vb_timer := False\<rparr>) else Some b)"

datatype vbox_event = BoxFocus | BoxBlur | BoxEnter | BoxLeave | BoxType string | BoxPoll | BoxTimer | BoxValidate
  | BoxNovalidate bool | BoxDisabled bool

definition vbox_step :: "vbox \<Rightarrow> vbox_event \<Rightarrow> vbox option" where
  "vbox_step b e =
     (case e of
        BoxFocus \<Rightarrow> Some (focus_box b)
      | BoxBlur \<Rightarrow> Some (blur_box b)
      | BoxEnter \<Rightarrow> Some (enter_box b)
      | BoxLeave \<Rightarrow> Some (leave_box b)
      | BoxType s \<Rightarrow> Some (b\<lparr>vb_text := s\<rparr>)
      | BoxPoll \<Rightarrow> Some (poll_fires b)
      | BoxTimer \<Rightarrow> timer_fires b
      | BoxValidate \<Rightarrow> validated b
      | BoxNovalidate x \<Rightarrow> set_novalidate (Some x) b
      | BoxDisabled x \<Rightarrow> Some (b\<lparr>vb_disabled := x\<rparr>))"

section \<open>What validation means\<close>

text \<open>A rule fails if it is known, there is a text, and its check refuses the text.\<close>

definition rule_fails :: "vbox \<Rightarrow> string \<times> string list option \<Rightarrow> bool" where
  "rule_fails b q =
     (case split_rule (fst q) of
        None \<Rightarrow> False
      | Some (name, rest) \<Rightarrow>
          (case vb_rules b name of None \<Rightarrow> False
           | Some r \<Rightarrow> vb_text b \<noteq> '''' \<and> \<not> vr_check r (vb_text b) (rule_params rest (snd q) b)))"

definition error_message :: "vbox \<Rightarrow> string \<times> string list option \<Rightarrow> string" where
  "error_message b q =
     (case split_rule (fst q) of None \<Rightarrow> ''''
      | Some (name, rest) \<Rightarrow> (case vb_rules b name of None \<Rightarrow> '''' | Some r \<Rightarrow> rule_message r (rule_params rest (snd q) b) b))"

text \<open>The message of the first thing that is wrong with the text, if there is one\<close>

definition first_error :: "vbox \<Rightarrow> string option" where
  "first_error b =
     (if vb_novalidate b \<or> vb_disabled b then None
      else if vb_required b \<and> vb_text b = '''' then Some (vb_missing_message b)
      else map_option (error_message b) (find (rule_fails b) (rules_of (vb_type b))))"

definition rules_named :: "vbox \<Rightarrow> bool" where
  "rules_named b = list_all (\<lambda>q. split_rule (fst q) \<noteq> None) (rules_of (vb_type b))"

lemma check_rules_find:
  assumes "list_all (\<lambda>q. split_rule (fst q) \<noteq> None) qs"
  shows "check_rules qs b =
    (case find (rule_fails b) qs of None \<Rightarrow> Some (True, b) | Some q \<Rightarrow> Some (False, fail_box (error_message b q) b))"
  using assms by (induction qs) (auto simp: check_rule_def rule_fails_def error_message_def Let_def split: option.split)

lemma fail_box_fields:
  "vb_invalid (fail_box m b)" "vb_message (fail_box m b) = m" "vb_tip (fail_box m b) = (vb_validating b \<or> vb_tip b)"
  "vb_text (fail_box m b) = vb_text b" "vb_validating (fail_box m b) = vb_validating b"
  by (simp_all add: fail_box_def show_tip_def Let_def)

text \<open>What is wrong with a text depends on nothing else that the events change.\<close>

lemma error_cong:
  assumes "vb_text b = vb_text a" "vb_rules b = vb_rules a" "vb_eval b = vb_eval a" "vb_params b = vb_params a"
    "vb_invalid_message b = vb_invalid_message a"
  shows "error_message b = error_message a" "rule_fails b = rule_fails a"
  using assms by (simp_all add: error_message_def rule_fails_def fun_eq_iff rule_message_def rule_params_def split: option.split)

lemma first_error_cong:
  assumes "vb_text b = vb_text a" "vb_rules b = vb_rules a" "vb_eval b = vb_eval a" "vb_params b = vb_params a"
    "vb_invalid_message b = vb_invalid_message a" "vb_novalidate b = vb_novalidate a" "vb_disabled b = vb_disabled a"
    "vb_required b = vb_required a" "vb_missing_message b = vb_missing_message a" "vb_type b = vb_type a"
  shows "first_error b = first_error a"
  using assms error_cong [OF assms(1-5)] by (simp add: first_error_def)

lemma run_validation_meaning:
  assumes "rules_named b"
  shows "run_validation b =
    (let b1 = hide_tip (b\<lparr>vb_invalid := False\<rparr>) in Some (first_error b = None, case first_error b of None \<Rightarrow> b1 | Some m \<Rightarrow> fail_box m b1))"
proof -
  define b1 where "b1 = hide_tip (b\<lparr>vb_invalid := False\<rparr>)"
  have e: "error_message b1 = error_message b" "rule_fails b1 = rule_fails b"
    by (rule error_cong; simp add: b1_def hide_tip_def)+
  have f: "vb_novalidate b1 = vb_novalidate b" "vb_disabled b1 = vb_disabled b" "vb_required b1 = vb_required b"
    "vb_missing_message b1 = vb_missing_message b" "vb_type b1 = vb_type b" "vb_text b1 = vb_text b"
    by (simp_all add: b1_def hide_tip_def)
  have "check_rules (rules_of (vb_type b1)) b1 =
    (case find (rule_fails b) (rules_of (vb_type b)) of None \<Rightarrow> Some (True, b1)
     | Some q \<Rightarrow> Some (False, fail_box (error_message b q) b1))"
    using check_rules_find [of "rules_of (vb_type b1)" b1] assms by (simp add: e f rules_named_def cong: option.case_cong)
  then show ?thesis
    unfolding run_validation_def Let_def b1_def [symmetric] by (auto simp: first_error_def f split: option.split)
qed

lemma validate_meaning:
  assumes "rules_named b"
  shows "\<exists>b'. validate b = Some (first_error b = None, b') \<and> vb_invalid b' = (first_error b \<noteq> None)
    \<and> vb_tip b' = (first_error b \<noteq> None \<and> vb_validating b) \<and> (\<forall>m. first_error b = Some m \<longrightarrow> vb_message b' = m)
    \<and> vb_text b' = vb_text b \<and> vb_validating b' = vb_validating b"
proof -
  define a where "a = vb_note BeforeValidate b"
  define b1 where "b1 = hide_tip (a\<lparr>vb_invalid := False\<rparr>)"
  have "rules_named a" using assms by (simp add: rules_named_def a_def vb_note_def)
  from run_validation_meaning [OF this]
  have "validate b = Some (first_error a = None, vb_note (Validated (first_error a = None)) (case first_error a of None \<Rightarrow> b1 | Some m \<Rightarrow> fail_box m b1))"
    unfolding validate_def a_def [symmetric] b1_def [symmetric] Let_def by simp
  moreover have "first_error a = first_error b" by (rule first_error_cong; simp add: a_def vb_note_def)
  moreover have "\<not> vb_invalid b1" "\<not> vb_tip b1" "vb_text b1 = vb_text b" "vb_validating b1 = vb_validating b"
    by (simp_all add: b1_def a_def hide_tip_def vb_note_def)
  moreover have "vb_invalid (vb_note n x) = vb_invalid x" "vb_tip (vb_note n x) = vb_tip x" "vb_message (vb_note n x) = vb_message x"
    "vb_text (vb_note n x) = vb_text x" "vb_validating (vb_note n x) = vb_validating x" for n x
    by (simp_all add: vb_note_def)
  ultimately show ?thesis by (cases "first_error b") (simp_all add: fail_box_fields)
qed

text \<open>
  C28. Validating answers whether there is an error, with the first one: that the text is missing,
  or the first rule of the list that refuses it. The box is marked invalid, has its message and, while
  it is being edited, its tip exactly then.
\<close>

theorem validation_first_error:
  assumes "rules_named b"
  shows "\<exists>b'. validate b = Some (first_error b = None, b') \<and> vb_invalid b' = (first_error b \<noteq> None)
    \<and> vb_tip b' = (first_error b \<noteq> None \<and> vb_validating b) \<and> (\<forall>m. first_error b = Some m \<longrightarrow> vb_message b' = m)
    \<and> vb_text b' = vb_text b"
  using validate_meaning [OF assms] by blast

definition plain_box :: vbox where
  "plain_box =
     \<lparr>vb_text = ''abcdef'', vb_required = True, vb_type = RuleList [''known'', ''short[0,3]''], vb_params = None,
      vb_rules = [''known'' \<mapsto> \<lparr>vr_check = (\<lambda>s ps. True), vr_message = ''?''\<rparr>,
                  ''short'' \<mapsto> \<lparr>vr_check = (\<lambda>s ps. length s \<le> 3), vr_message = ''between {0} and {1}''\<rparr>],
      vb_eval = (\<lambda>s. if s = ''[0,3]'' then Some [''0'', ''3''] else None), vb_novalidate = False, vb_disabled = False, vb_readonly = False,
      vb_missing_message = ''missing'', vb_invalid_message = '''', vb_bound = True, vb_invalid = False, vb_message = '''',
      vb_validating = False, vb_seen = None, vb_timer = False, vb_pollers = 0, vb_tip = False, vb_log = []\<rparr>"

theorem validation_first_error_witness:
  "\<exists>b'. validate plain_box = Some (False, b') \<and> vb_invalid b' \<and> \<not> vb_tip b' \<and> vb_message b' = ''between 0 and 3''"
proof -
  have "rules_named plain_box" by code_simp
  moreover have "first_error plain_box = Some ''between 0 and 3''" by code_simp
  moreover have "\<not> vb_validating plain_box" by code_simp
  ultimately show ?thesis using validation_first_error [of plain_box] by auto
qed

section \<open>Editing\<close>

text \<open>Validation changes nothing but what the box shows.\<close>

lemma fail_box_frame: "fail_box k b = b\<lparr>vb_invalid := True, vb_message := k, vb_tip := vb_validating b \<or> vb_tip b\<rparr>"
  by (cases b) (simp add: fail_box_def show_tip_def Let_def)

lemma check_rules_frame:
  "check_rules qs b = Some (ok, b') \<Longrightarrow> \<exists>i m t. b' = b\<lparr>vb_invalid := i, vb_message := m, vb_tip := t\<rparr>"
proof (induction qs)
  case Nil
  then have "b' = b\<lparr>vb_invalid := vb_invalid b, vb_message := vb_message b, vb_tip := vb_tip b\<rparr>" by simp
  then show ?case by blast
next
  case (Cons q qs)
  have f: "\<exists>i m t. fail_box k b = b\<lparr>vb_invalid := i, vb_message := m, vb_tip := t\<rparr>" for k
    using fail_box_frame by blast
  obtain ok1 b1 where q: "check_rule q b = Some (ok1, b1)" "if ok1 then check_rules qs b1 = Some (ok, b') else b' = b1"
    using Cons.prems by (auto split: option.splits prod.splits if_splits)
  then have "ok1 \<and> b1 = b \<or> \<not> ok1 \<and> (\<exists>k. b1 = fail_box k b)"
    by (auto simp: check_rule_def Let_def split: option.splits prod.splits if_splits)
  then show ?case using q(2) Cons.IH f by auto
qed

lemma validate_frame:
  assumes "validate b = Some (ok, b')"
  shows "\<exists>i m t l. b' = b\<lparr>vb_invalid := i, vb_message := m, vb_tip := t, vb_log := l\<rparr>"
proof -
  define a where "a = hide_tip ((vb_note BeforeValidate b)\<lparr>vb_invalid := False\<rparr>)"
  have a: "a = b\<lparr>vb_invalid := False, vb_message := vb_message b, vb_tip := False, vb_log := vb_log b @ [BeforeValidate]\<rparr>"
    by (simp add: a_def hide_tip_def vb_note_def)
  obtain b1 where b1: "b' = vb_note (Validated ok) b1" "b1 = a \<or> b1 = fail_box (vb_missing_message a) a \<or> check_rules (rules_of (vb_type a)) a = Some (ok, b1)"
    using assms by (auto simp: validate_def run_validation_def Let_def a_def split: option.splits if_splits)
  have "a = a\<lparr>vb_invalid := vb_invalid a, vb_message := vb_message a, vb_tip := vb_tip a\<rparr>" by simp
  then have "\<exists>i m t. b1 = a\<lparr>vb_invalid := i, vb_message := m, vb_tip := t\<rparr>"
    using b1(2) check_rules_frame [of _ a ok b1] fail_box_frame [of _ a] by blast
  then obtain i m t where "b1 = a\<lparr>vb_invalid := i, vb_message := m, vb_tip := t\<rparr>" by blast
  then have "b' = b\<lparr>vb_invalid := i, vb_message := m, vb_tip := t, vb_log := (vb_log b @ [BeforeValidate]) @ [Validated ok]\<rparr>"
    unfolding b1(1) by (simp add: vb_note_def a)
  then show ?thesis by blast
qed

text \<open>
  What may happen while a box has the focus: the polls, the delay and the mouse, and typing. \<open>e\<close> is
  what is wrong with a text; it does not change meanwhile.
\<close>

definition background :: "vbox_event \<Rightarrow> bool" where
  "background e = (e \<in> {BoxPoll, BoxTimer, BoxEnter, BoxLeave})"

definition typing :: "vbox_event \<Rightarrow> bool" where
  "typing e = (case e of BoxType s \<Rightarrow> True | _ \<Rightarrow> background e)"

definition edited :: "(string \<Rightarrow> string option) \<Rightarrow> vbox \<Rightarrow> bool" where
  "edited err b =
     (rules_named b \<and> vb_bound b \<and> vb_validating b \<and> vb_pollers b \<noteq> 0 \<and> (\<forall>s. first_error (b\<lparr>vb_text := s\<rparr>) = err s))"

text \<open>The result of validating the text is shown.\<close>

definition told :: "(string \<Rightarrow> string option) \<Rightarrow> vbox \<Rightarrow> bool" where
  "told err b =
     (vb_invalid b = (err (vb_text b) \<noteq> None) \<and> vb_tip b = vb_invalid b \<and> (\<forall>k. err (vb_text b) = Some k \<longrightarrow> vb_message b = k))"

lemma edited_cong:
  "edited err b \<Longrightarrow> edited err (b\<lparr>vb_invalid := i, vb_message := m, vb_tip := t, vb_log := l, vb_timer := r, vb_seen := x, vb_text := u\<rparr>)"
proof -
  assume e: "edited err b"
  have "first_error (b\<lparr>vb_invalid := i, vb_message := m, vb_tip := t, vb_log := l, vb_timer := r, vb_seen := x, vb_text := s\<rparr>)
      = first_error (b\<lparr>vb_text := s\<rparr>)" for s
    by (rule first_error_cong; simp)
  with e show ?thesis by (simp add: edited_def rules_named_def)
qed

lemma edited_error: "edited err b \<Longrightarrow> first_error b = err (vb_text b)"
proof -
  have "first_error b = first_error (b\<lparr>vb_text := vb_text b\<rparr>)" by (rule first_error_cong; simp)
  moreover have "edited err b \<Longrightarrow> first_error (b\<lparr>vb_text := vb_text b\<rparr>) = err (vb_text b)" unfolding edited_def by blast
  ultimately show "edited err b \<Longrightarrow> first_error b = err (vb_text b)" by (rule trans)
qed

lemma edited_frame:
  "edited err b \<Longrightarrow> edited err (b\<lparr>vb_invalid := i, vb_message := m, vb_tip := t, vb_log := l\<rparr>)" "edited err b \<Longrightarrow> edited err (b\<lparr>vb_tip := t\<rparr>)"
  "edited err b \<Longrightarrow> edited err (b\<lparr>vb_timer := r\<rparr>)" "edited err b \<Longrightarrow> edited err (b\<lparr>vb_seen := x, vb_timer := r\<rparr>)"
  "edited err b \<Longrightarrow> edited err (b\<lparr>vb_text := u\<rparr>)"
proof -
  assume e: "edited err b"
  show "edited err (b\<lparr>vb_invalid := i, vb_message := m, vb_tip := t, vb_log := l\<rparr>)"
    using edited_cong [OF e, where i = i and m = m and t = t and l = l and r = "vb_timer b" and x = "vb_seen b" and u = "vb_text b"] by simp
  show "edited err (b\<lparr>vb_tip := t\<rparr>)"
    using edited_cong [OF e, where i = "vb_invalid b" and m = "vb_message b" and t = t and l = "vb_log b" and r = "vb_timer b" and x = "vb_seen b" and u = "vb_text b"] by simp
  show "edited err (b\<lparr>vb_timer := r\<rparr>)"
    using edited_cong [OF e, where i = "vb_invalid b" and m = "vb_message b" and t = "vb_tip b" and l = "vb_log b" and r = r and x = "vb_seen b" and u = "vb_text b"] by simp
  have swap: "b\<lparr>vb_timer := r, vb_seen := x\<rparr> = b\<lparr>vb_seen := x, vb_timer := r\<rparr>" by (cases b) simp
  show "edited err (b\<lparr>vb_seen := x, vb_timer := r\<rparr>)"
    using edited_cong [OF e, where i = "vb_invalid b" and m = "vb_message b" and t = "vb_tip b" and l = "vb_log b" and r = r and x = x and u = "vb_text b"] swap by simp
  show "edited err (b\<lparr>vb_text := u\<rparr>)"
    using edited_cong [OF e, where i = "vb_invalid b" and m = "vb_message b" and t = "vb_tip b" and l = "vb_log b" and r = "vb_timer b" and x = "vb_seen b" and u = u] by simp
qed

lemma edited_poll:
  assumes "edited err b"
  shows "vbox_step b BoxPoll = Some (if vb_seen b = Some (vb_text b) then b else b\<lparr>vb_seen := Some (vb_text b), vb_timer := True\<rparr>)"
  using assms by (cases b) (simp add: vbox_step_def poll_fires_def poll_def edited_def)

lemma edited_mouse:
  assumes "edited err b" "e = BoxEnter \<or> e = BoxLeave"
  shows "vbox_step b e = Some (if e = BoxEnter \<and> vb_invalid b then b\<lparr>vb_tip := True\<rparr> else b)"
  using assms by (auto simp: vbox_step_def enter_box_def leave_box_def show_tip_def edited_def)

lemma edited_timer:
  assumes "edited err b" "vb_timer b"
  obtains b' where "vbox_step b BoxTimer = Some b'" "edited err b'" "told err b'" "vb_text b' = vb_text b" "vb_seen b' = vb_seen b" "\<not> vb_timer b'"
proof -
  define a where "a = b\<lparr>vb_timer := False\<rparr>"
  have a: "edited err a" "vb_text a = vb_text b" using edited_frame(3) [OF assms(1)] by (simp_all add: a_def)
  have "rules_named a" "vb_validating a" using a(1) by (simp_all add: edited_def)
  then obtain b' where v: "validate a = Some (first_error a = None, b')" "vb_invalid b' = (first_error a \<noteq> None)"
    "vb_tip b' = (first_error a \<noteq> None)" "\<forall>m. first_error a = Some m \<longrightarrow> vb_message b' = m"
    using validate_meaning [of a] by auto
  obtain i m t l where f: "b' = a\<lparr>vb_invalid := i, vb_message := m, vb_tip := t, vb_log := l\<rparr>" using validate_frame [OF v(1)] by blast
  have e: "edited err b'" unfolding f by (rule edited_frame(1) [OF a(1)])
  have "vb_text b' = vb_text b" "vb_seen b' = vb_seen b" "\<not> vb_timer b'" by (simp_all add: f a_def)
  moreover from this have "told err b'" using v(2-4) edited_error [OF a(1)] by (auto simp: told_def a(2))
  moreover have "vbox_step b BoxTimer = Some b'" using assms(2) v(1) by (simp add: vbox_step_def timer_fires_def validated_def a_def)
  ultimately show thesis using that e by blast
qed

text \<open>The text is told, or waits for the delay, or for the next poll.\<close>

lemma told_stays:
  "edited err b \<Longrightarrow> vb_seen b = Some (vb_text b) \<Longrightarrow> told err b \<Longrightarrow> list_all background es
   \<Longrightarrow> \<exists>b'. run_events vbox_step b es = Some b' \<and> told err b' \<and> vb_text b' = vb_text b"
proof (induction es arbitrary: b)
  case (Cons e es)
  have "\<exists>c. vbox_step b e = Some c \<and> edited err c \<and> vb_seen c = Some (vb_text c) \<and> told err c \<and> vb_text c = vb_text b"
  proof (cases "e = BoxTimer \<and> vb_timer b")
    case True
    then show ?thesis using edited_timer [OF Cons.prems(1)] Cons.prems(2) by (metis (no_types))
  next
    case False
    then have "e = BoxPoll \<or> e = BoxEnter \<or> e = BoxLeave \<or> e = BoxTimer \<and> vbox_step b e = Some b"
      using Cons.prems(4) by (auto simp: background_def vbox_step_def timer_fires_def)
    moreover have "b\<lparr>vb_tip := True\<rparr> = b" if "vb_invalid b" using that Cons.prems(3) by (cases b) (simp add: told_def)
    ultimately have "vbox_step b e = Some b" using edited_poll [OF Cons.prems(1)] edited_mouse [OF Cons.prems(1)] Cons.prems(2) by auto
    then show ?thesis using Cons.prems by simp
  qed
  then show ?case using Cons.IH Cons.prems(4) by force
qed simp

lemma waiting_told:
  "edited err b \<Longrightarrow> vb_seen b = Some (vb_text b) \<Longrightarrow> vb_timer b \<Longrightarrow> list_all background es \<Longrightarrow> BoxTimer \<in> set es
   \<Longrightarrow> \<exists>b'. run_events vbox_step b es = Some b' \<and> told err b' \<and> vb_text b' = vb_text b"
proof (induction es arbitrary: b)
  case (Cons e es)
  show ?case
  proof (cases "e = BoxTimer")
    case True
    obtain c where c: "vbox_step b BoxTimer = Some c" "edited err c" "told err c" "vb_text c = vb_text b" "vb_seen c = vb_seen b"
      by (rule edited_timer [OF Cons.prems(1,3)])
    then show ?thesis using told_stays [OF c(2) _ c(3), of es] Cons.prems(2,4) True by auto
  next
    case False
    define c where "c = (if e = BoxEnter \<and> vb_invalid b then b\<lparr>vb_tip := True\<rparr> else b)"
    have "vbox_step b e = Some c"
      using Cons.prems(2,4) False edited_poll [OF Cons.prems(1)] edited_mouse [OF Cons.prems(1)] by (auto simp: background_def c_def)
    moreover have "edited err c" "vb_seen c = Some (vb_text c)" "vb_timer c" "vb_text c = vb_text b"
      using Cons.prems(1-3) edited_frame(2) by (simp_all add: c_def)
    ultimately show ?thesis using Cons.IH [of c] Cons.prems(4,5) False by auto
  qed
qed simp

lemma typed_told:
  "edited err b \<Longrightarrow> vb_seen b \<noteq> Some (vb_text b) \<Longrightarrow> list_all background es \<Longrightarrow> subseq [BoxPoll, BoxTimer] es
   \<Longrightarrow> \<exists>b'. run_events vbox_step b es = Some b' \<and> told err b' \<and> vb_text b' = vb_text b"
proof (induction es arbitrary: b)
  case (Cons e es)
  show ?case
  proof (cases "e = BoxPoll")
    case True
    define c where "c = b\<lparr>vb_seen := Some (vb_text b), vb_timer := True\<rparr>"
    have "vbox_step b e = Some c" using edited_poll [OF Cons.prems(1)] Cons.prems(2) True by (simp add: c_def)
    moreover have "edited err c" "vb_seen c = Some (vb_text c)" "vb_timer c" "vb_text c = vb_text b"
      using edited_frame(4) [OF Cons.prems(1)] by (simp_all add: c_def)
    moreover have "BoxTimer \<in> set es" using Cons.prems(4) True subseq_singleton_left [of BoxTimer es] by simp
    ultimately show ?thesis using waiting_told [of err c es] Cons.prems(3) by auto
  next
    case False
    have "\<exists>c. vbox_step b e = Some c \<and> edited err c \<and> vb_seen c = vb_seen b \<and> vb_text c = vb_text b"
    proof (cases "e = BoxTimer \<and> vb_timer b")
      case True
      then show ?thesis using edited_timer [OF Cons.prems(1)] by (metis (no_types))
    next
      case no: False
      define c where "c = (if e = BoxEnter \<and> vb_invalid b then b\<lparr>vb_tip := True\<rparr> else b)"
      have "vbox_step b e = Some c"
      proof (cases "e = BoxTimer")
        case True
        then show ?thesis using no by (simp add: c_def vbox_step_def timer_fires_def)
      next
        case nt: False
        then have "e = BoxEnter \<or> e = BoxLeave" using Cons.prems(3) False by (auto simp: background_def)
        then show ?thesis using edited_mouse [OF Cons.prems(1)] by (simp add: c_def)
      qed
      moreover have "edited err c" using Cons.prems(1) edited_frame(2) by (simp add: c_def)
      ultimately show ?thesis by (auto simp: c_def)
    qed
    then obtain c where c: "vbox_step b e = Some c" "edited err c" "vb_seen c = vb_seen b" "vb_text c = vb_text b" by blast
    have "subseq [BoxPoll, BoxTimer] es" using Cons.prems(4) False by (auto elim: list_emb.cases)
    then show ?thesis using Cons.IH [OF c(2)] Cons.prems(2,3) c by auto
  qed
qed simp
lemma typing_kept:
  assumes "edited err b" "list_all typing es" "run_events vbox_step b es = Some m"
  shows "edited err m"
  using assms
proof (induction es arbitrary: b)
  case (Cons e es)
  have "edited err c" if st: "vbox_step b e = Some c" for c
  proof (cases "e = BoxTimer \<and> vb_timer b")
    case True
    then show ?thesis using edited_timer [OF Cons.prems(1)] st by (metis option.inject)
  next
    case False
    then consider s where "e = BoxType s" | "e = BoxPoll" | "e = BoxEnter \<or> e = BoxLeave" | "e = BoxTimer" "c = b"
      using Cons.prems(2) st by (cases e) (auto simp: typing_def background_def vbox_step_def timer_fires_def)
    then show ?thesis
    proof cases
      case 1
      then show ?thesis using st edited_frame(5) [OF Cons.prems(1)] by (auto simp: vbox_step_def)
    next
      case 2
      then show ?thesis using st edited_poll [OF Cons.prems(1)] edited_frame(4) [OF Cons.prems(1)] Cons.prems(1) by (auto split: if_splits)
    next
      case 3
      then show ?thesis using st edited_mouse [OF Cons.prems(1)] edited_frame(2) [OF Cons.prems(1)] Cons.prems(1) by (auto split: if_splits)
    qed (use Cons.prems(1) in simp)
  qed
  then show ?case using Cons by (auto split: option.splits)
qed simp

lemma focus_edited:
  assumes "rules_named b" "vb_bound b" "\<not> vb_readonly b"
  shows "edited (\<lambda>s. first_error (b\<lparr>vb_text := s\<rparr>)) (focus_box b)"
proof -
  have f: "focus_box b = b\<lparr>vb_validating := True, vb_seen := Some (vb_text b), vb_timer := True, vb_pollers := vb_pollers b + 1\<rparr>"
    using assms(2,3) by (simp add: focus_box_def poll_def)
  have "first_error ((focus_box b)\<lparr>vb_text := s\<rparr>) = first_error (b\<lparr>vb_text := s\<rparr>)" for s by (rule first_error_cong; simp add: f)
  then show ?thesis using assms(1,2) unfolding edited_def by (simp add: f rules_named_def)
qed

text \<open>
  C29. While a box has the focus, a text that differs from the one seen last is validated once a poll
  and then the delay have passed after it was typed, whatever was typed before and however polls, delays
  and the mouse interleave: the box then shows whether that text has an error, with its message and tip,
  and goes on showing it.
\<close>

theorem typed_text_validated:
  assumes "rules_named b" "vb_bound b" "\<not> vb_readonly b"
    and "list_all typing ws" "run_events vbox_step b (BoxFocus # ws) = Some m" "vb_seen m \<noteq> Some s"
    and "list_all background es" "subseq [BoxPoll, BoxTimer] es"
  shows "\<exists>b'. run_events vbox_step m (BoxType s # es) = Some b' \<and> vb_text b' = s
    \<and> vb_invalid b' = (first_error (b\<lparr>vb_text := s\<rparr>) \<noteq> None) \<and> vb_tip b' = vb_invalid b'
    \<and> (\<forall>k. first_error (b\<lparr>vb_text := s\<rparr>) = Some k \<longrightarrow> vb_message b' = k)"
proof -
  have "edited (\<lambda>s. first_error (b\<lparr>vb_text := s\<rparr>)) m"
    using typing_kept [OF focus_edited [OF assms(1-3)] assms(4)] assms(5) by (simp add: vbox_step_def)
  from typed_told [OF edited_frame(5) [OF this] _ assms(7,8), of s] assms(6) show ?thesis
    by (auto simp: vbox_step_def told_def)
qed

theorem typed_text_validated_witness:
  "\<exists>m b'. run_events vbox_step plain_box [BoxFocus, BoxTimer, BoxType ''abc'', BoxPoll] = Some m
    \<and> run_events vbox_step m [BoxType '''', BoxTimer, BoxPoll, BoxEnter, BoxTimer, BoxPoll] = Some b' \<and> vb_tip b' \<and> vb_message b' = ''missing''"
proof -
  let ?r = "run_events vbox_step plain_box [BoxFocus, BoxTimer, BoxType ''abc'', BoxPoll]"
  have "map_option vb_seen ?r = Some (Some ''abc'')" by code_simp
  then obtain m where m: "?r = Some m" "vb_seen m \<noteq> Some ''''" by (auto simp: map_option_eq_Some)
  have p: "rules_named plain_box" "vb_bound plain_box" "\<not> vb_readonly plain_box" by code_simp+
  have w: "list_all typing [BoxTimer, BoxType ''abc'', BoxPoll]" by (simp add: typing_def background_def)
  have e: "list_all background [BoxTimer, BoxPoll, BoxEnter, BoxTimer, BoxPoll]" by (simp add: background_def)
  have s: "subseq [BoxPoll, BoxTimer] [BoxTimer, BoxPoll, BoxEnter, BoxTimer, BoxPoll]" by simp
  have "first_error (plain_box\<lparr>vb_text := ''''\<rparr>) = Some ''missing''" by (simp add: first_error_def plain_box_def)
  then show ?thesis using typed_text_validated [OF p w m e s] m(1) by (auto simp del: run_events.simps)
qed

text \<open>A tip is only shown on a box that is marked invalid.\<close>

definition tip_ok :: "vbox \<Rightarrow> bool" where
  "tip_ok b = (vb_tip b \<longrightarrow> vb_invalid b)"

lemma check_rules_tip: "check_rules qs b = Some (ok, b') \<Longrightarrow> tip_ok b \<Longrightarrow> tip_ok b'"
  by (induction qs arbitrary: b)
    (auto simp: check_rule_def tip_ok_def fail_box_fields Let_def split: option.splits if_splits prod.splits)

lemma validate_tip: "validate b = Some (ok, b') \<Longrightarrow> tip_ok b'"
  by (auto simp: validate_def run_validation_def Let_def tip_ok_def vb_note_def hide_tip_def fail_box_fields
      split: option.splits if_splits dest: check_rules_tip [unfolded tip_ok_def])

lemma vbox_step_tip:
  assumes "tip_ok b" "vbox_step b e = Some b'"
  shows "tip_ok b'"
proof -
  have v: "validated x = Some y \<Longrightarrow> tip_ok y" for x y using validate_tip by (auto simp: validated_def)
  have "set_novalidate nv b = Some b' \<Longrightarrow> tip_ok b'" for nv
    using v by (auto simp: set_novalidate_def Let_def bind_events_def tip_ok_def)
  with v assms show ?thesis
    by (cases e) (auto simp: vbox_step_def focus_box_def poll_def blur_box_def enter_box_def leave_box_def poll_fires_def timer_fires_def tip_ok_def
        show_tip_def hide_tip_def split: if_splits)
qed

interpretation vbox: partial_machine vbox_step tip_ok
  by unfold_locales (rule vbox_step_tip)

section \<open>Where the code goes astray\<close>

text \<open>A box that is left and entered again before the next poll is polled twice from then on.\<close>

lemma polls_pile_up:
  assumes "vb_bound b" "\<not> vb_readonly b"
  shows "\<exists>b'. run_events vbox_step b [BoxFocus, BoxBlur, BoxFocus] = Some b' \<and> vb_pollers b' = vb_pollers b + 2"
  using assms by (simp add: vbox_step_def focus_box_def poll_def blur_box_def hide_tip_def)

text \<open>A box whose validation is switched off while it has the focus goes on being validated after it has lost it.\<close>

lemma blur_unnoticed:
  assumes "vb_bound b" "\<not> vb_readonly b" "run_events vbox_step b [BoxFocus, BoxNovalidate True, BoxBlur] = Some b'"
  shows "vb_validating b'"
proof -
  have "validated x = Some y \<Longrightarrow> vb_novalidate x \<Longrightarrow> vb_validating x \<Longrightarrow> vb_validating y \<and> vb_novalidate y" for x y
    by (auto simp: validated_def validate_def run_validation_def Let_def vb_note_def hide_tip_def split: option.splits)
  with assms show ?thesis
    by (auto simp: vbox_step_def focus_box_def poll_def set_novalidate_def Let_def bind_events_def blur_box_def hide_tip_def split: option.splits)
qed

text \<open>
  A text that is typed and put back between two polls, while the delay validates what was between, is
  not validated again: the box goes on showing the error of a text it no longer has.
\<close>

lemma put_back_unnoticed:
  "map_option (\<lambda>b. (vb_text b, vb_invalid b, vb_message b))
     (run_events vbox_step plain_box [BoxFocus, BoxTimer, BoxType ''abc'', BoxPoll, BoxType '''', BoxTimer, BoxType ''abc'', BoxPoll, BoxTimer])
   = Some (''abc'', True, ''missing'')"
  by code_simp

end
