(* ===== verification/Menu.thy ===== *)
theory Menu
  imports JsPrelude
begin

text \<open>
  \<open>plugins/jquery.menu.js\<close> and \<open>plugins/jquery.menubutton.js\<close>: a menu of items, separators and
  submenus, of which the visible ones are popups of their own, and the buttons that open menus. The
  layout of the page (sizes and offsets of elements) is the browser's and a parameter; texts contain
  no markup. Timers that have been set and not cleared may fire at any time and in any order.
\<close>

section \<open>Items and submenus\<close>

record menu_item =
  it_id :: nat
  it_text :: string
  it_name :: "string option"
  it_href :: "string option"
  it_icon :: "string option"
  it_onclick :: "string option"
  it_onclick1 :: "string option"
  it_disabled :: bool
  it_visible :: bool
  it_active :: bool
  it_active_disabled :: bool

record popup =
  po_shown :: bool
  po_shadow :: "bool option"
  po_left :: int
  po_top :: int

text \<open>A branch is an item with a submenu.\<close>

datatype entry = Separator nat | Leaf menu_item | Branch menu_item popup "entry list"

fun entry_id :: "entry \<Rightarrow> nat" where
  "entry_id (Separator i) = i"
| "entry_id (Leaf it) = it_id it"
| "entry_id (Branch it p es) = it_id it"

fun map_item :: "(menu_item \<Rightarrow> menu_item) \<Rightarrow> entry \<Rightarrow> entry" where
  "map_item f (Separator i) = Separator i"
| "map_item f (Leaf it) = Leaf (f it)"
| "map_item f (Branch it p es) = Branch (f it) p es"

fun entry_item :: "entry \<Rightarrow> menu_item option" where
  "entry_item (Separator i) = None"
| "entry_item (Leaf it) = Some it"
| "entry_item (Branch it p es) = Some it"

definition level_has :: "nat \<Rightarrow> entry list \<Rightarrow> bool" where
  "level_has i es = list_ex (\<lambda>e. entry_id e = i) es"

text \<open>A handler acts on one entry (\<open>f\<close>) and on its siblings (\<open>g\<close>), wherever it is.\<close>

fun at_entry :: "(entry \<Rightarrow> entry) \<Rightarrow> (entry \<Rightarrow> entry) \<Rightarrow> nat \<Rightarrow> entry \<Rightarrow> entry" where
  "at_entry f g i (Branch it p es) =
     Branch it p (if level_has i es then map (\<lambda>e. if entry_id e = i then f e else g e) es else map (at_entry f g i) es)"
| "at_entry f g i e = e"

definition at_level :: "(entry \<Rightarrow> entry) \<Rightarrow> (entry \<Rightarrow> entry) \<Rightarrow> nat \<Rightarrow> entry list \<Rightarrow> entry list" where
  "at_level f g i es = (if level_has i es then map (\<lambda>e. if entry_id e = i then f e else g e) es else map (at_entry f g i) es)"

text \<open>The mouse reaches an item if the item and the popups around it are shown.\<close>

fun reaches_entry :: "nat \<Rightarrow> entry \<Rightarrow> bool" where
  "reaches_entry i (Branch it p es) =
     (po_shown p \<and> list_ex (\<lambda>e. (case entry_item e of Some k \<Rightarrow> it_id k = i \<and> it_visible k | None \<Rightarrow> False) \<or> reaches_entry i e) es)"
| "reaches_entry i e = False"

definition reaches :: "nat \<Rightarrow> entry list \<Rightarrow> bool" where
  "reaches i es = list_ex (\<lambda>e. (case entry_item e of Some k \<Rightarrow> it_id k = i \<and> it_visible k | None \<Rightarrow> False) \<or> reaches_entry i e) es"

section \<open>Page and menu\<close>

record page_geometry =
  pg_width :: int
  pg_height :: int
  pg_scroll_left :: int
  pg_scroll_top :: int
  pg_popup :: "nat option \<Rightarrow> int \<times> int"
  pg_item :: "nat \<Rightarrow> int \<times> int \<times> int"
  pg_anchor :: "nat \<Rightarrow> int \<times> int \<times> int \<times> int"

datatype menu_note = MenuShown | MenuHidden | MenuClicked nat | WentTo string

record menu =
  mn_items :: "entry list"
  mn_popup :: popup
  mn_page :: page_geometry
  mn_inline :: bool
  mn_left :: int
  mn_top :: int
  mn_align_to :: "nat option"
  mn_align_right :: bool
  mn_hide_on_unhover :: bool
  mn_timer :: "nat option"
  mn_pending :: "nat list"
  mn_next_timer :: nat
  mn_gone :: bool
  mn_log :: "menu_note list"

definition mn_note :: "menu_note \<Rightarrow> menu \<Rightarrow> menu" where
  "mn_note n m = m\<lparr>mn_log := mn_log m @ [n]\<rparr>"

section \<open>Hiding\<close>

text \<open>\<open>_32\<close>\<close>

definition hide_popup :: "popup \<Rightarrow> popup" where
  "hide_popup p = p\<lparr>po_shown := False, po_shadow := map_option (\<lambda>_. False) (po_shadow p)\<rparr>"

text \<open>\<open>_1\<close>, on the items of the hidden popup\<close>

fun hide_entry :: "entry \<Rightarrow> entry" where
  "hide_entry (Separator i) = Separator i"
| "hide_entry (Leaf it) = Leaf (it\<lparr>it_active := False\<rparr>)"
| "hide_entry (Branch it p es) = Branch (it\<lparr>it_active := False\<rparr>) (hide_popup p) (map hide_entry es)"

text \<open>\<open>_1e\<close>: a menu that is shown is hidden with all its submenus; an inline one stays\<close>

definition hide_menu :: "bool \<Rightarrow> menu \<Rightarrow> menu" where
  "hide_menu again m =
     (if mn_gone m \<or> \<not> po_shown (mn_popup m) then m
      else let m1 = m\<lparr>mn_popup := hide_popup (mn_popup m), mn_items := map hide_entry (mn_items m)\<rparr>
           in if again then m1\<lparr>mn_popup := (mn_popup m1)\<lparr>po_shown := True\<rparr>\<rparr> else mn_note MenuHidden m1)"

section \<open>Placing and showing\<close>

text \<open>\<open>_2e\<close>\<close>

definition place_top :: "page_geometry \<Rightarrow> int \<Rightarrow> int option \<Rightarrow> int \<Rightarrow> int" where
  "place_top g h anchor y =
     (let t = (if y + h > pg_height g + pg_scroll_top g
               then (case anchor of Some a \<Rightarrow> a - h | None \<Rightarrow> pg_height g + pg_scroll_top g - h)
               else y)
      in if t < 0 then 0 else t)"

definition place_menu :: "menu \<Rightarrow> int \<times> int" where
  "place_menu m =
     (let g = mn_page m; (w, h) = pg_popup g None;
          (l, t) = (case mn_align_to m of
                      None \<Rightarrow> (mn_left m, mn_top m)
                    | Some a \<Rightarrow> let (x, y, aw, ah) = pg_anchor g a in (if mn_align_right m then x + aw - w else x, y + ah));
          l1 = (if l + w > pg_width g + pg_scroll_left g then pg_width g + pg_scroll_left g - w - 5 else l);
          l2 = (if l1 < 0 then 0 else l1)
      in (l2, place_top g h (map_option (\<lambda>a. fst (snd (pg_anchor g a))) (mn_align_to m)) t))"

definition place_submenu :: "page_geometry \<Rightarrow> nat \<Rightarrow> int \<times> int" where
  "place_submenu g i =
     (let (w, h) = pg_popup g (Some i); (x, y, iw) = pg_item g i; l = x + iw - 2;
          l1 = (if l + w + 5 > pg_width g + pg_scroll_left g then x - w + 2 else l)
      in (l1, place_top g h None (y - 3)))"

definition show_popup :: "bool \<Rightarrow> int \<times> int \<Rightarrow> popup \<Rightarrow> popup" where
  "show_popup shadow pos p = p\<lparr>po_left := fst pos, po_top := snd pos, po_shown := True, po_shadow := Some shadow\<rparr>"

text \<open>\<open>_28\<close> on the menu itself: the position that is passed is kept in the options\<close>

record show_options =
  so_left :: "int option"
  so_top :: "int option"
  so_align_to :: "nat option"
  so_align_right :: "bool option"

definition show_menu :: "show_options \<Rightarrow> menu \<Rightarrow> menu" where
  "show_menu ops m =
     (let m1 = m\<lparr>mn_left := case_option (mn_left m) id (so_left ops), mn_top := case_option (mn_top m) id (so_top ops),
                 mn_align_to := case_option (mn_align_to m) Some (so_align_to ops),
                 mn_align_right := case_option (mn_align_right m) id (so_align_right ops)\<rparr>
      in mn_note MenuShown (m1\<lparr>mn_popup := show_popup (\<not> mn_inline m1) (place_menu m1) (mn_popup m1)\<rparr>))"

section \<open>The mouse\<close>

text \<open>\<open>mouseenter\<close> of an item\<close>

definition activate :: "menu_item \<Rightarrow> menu_item" where
  "activate it = it\<lparr>it_active := True, it_active_disabled := it_disabled it \<or> it_active_disabled it\<rparr>"

fun enter_entry :: "page_geometry \<Rightarrow> entry \<Rightarrow> entry" where
  "enter_entry g (Separator i) = Separator i"
| "enter_entry g (Leaf it) = Leaf (activate it)"
| "enter_entry g (Branch it p es) =
     Branch (activate it) (if it_disabled it then p else show_popup True (place_submenu g (it_id it)) p) es"

definition enter_item :: "nat \<Rightarrow> menu \<Rightarrow> menu" where
  "enter_item i m = m\<lparr>mn_items := at_level (enter_entry (mn_page m)) hide_entry i (mn_items m)\<rparr>"

text \<open>
  \<open>mouseleave\<close> of an item at a horizontal position. A submenu that was never placed has no shadow yet
  and its \<open>left\<close> is \<open>auto\<close>, so the comparison with it fails.
\<close>

fun leave_entry :: "int \<Rightarrow> entry \<Rightarrow> entry" where
  "leave_entry x (Separator i) = Separator i"
| "leave_entry x (Leaf it) = Leaf (it\<lparr>it_active := False, it_active_disabled := False\<rparr>)"
| "leave_entry x (Branch it p es) =
     (let it1 = it\<lparr>it_active := False, it_active_disabled := False\<rparr>
      in if po_shadow p \<noteq> None \<and> x \<ge> po_left p then Branch (it1\<lparr>it_active := True\<rparr>) p es else Branch it1 (hide_popup p) (map hide_entry es))"

definition leave_item :: "int \<Rightarrow> nat \<Rightarrow> menu \<Rightarrow> menu" where
  "leave_item x i m = m\<lparr>mn_items := at_level (leave_entry x) id i (mn_items m)\<rparr>"

text \<open>
  \<open>_13\<close>: the mouse enters and leaves a popup; \<open>outer\<close> is the popup of the menu itself, which has no
  handlers if it is inline
\<close>

definition enter_popup :: "bool \<Rightarrow> menu \<Rightarrow> menu" where
  "enter_popup outer m =
     (if outer \<and> mn_inline m then m
      else (case mn_timer m of
              None \<Rightarrow> m
            | Some t \<Rightarrow> m\<lparr>mn_pending := filter (\<lambda>u. u \<noteq> t) (mn_pending m), mn_timer := None\<rparr>))"

definition leave_popup :: "bool \<Rightarrow> menu \<Rightarrow> menu" where
  "leave_popup outer m =
     (if outer \<and> mn_inline m \<or> \<not> mn_hide_on_unhover m then m
      else m\<lparr>mn_timer := Some (mn_next_timer m), mn_pending := mn_pending m @ [mn_next_timer m], mn_next_timer := mn_next_timer m + 1\<rparr>)"

text \<open>\<open>click\<close> of an item; the \<open>mouseenter\<close> it triggers bubbles to the popup around it\<close>

fun no_submenu :: "entry \<Rightarrow> bool" where
  "no_submenu (Leaf it) = True"
| "no_submenu e = False"

fun sub_entries :: "entry \<Rightarrow> entry list" where
  "sub_entries (Branch it p es) = Branch it p es # concat (map sub_entries es)"
| "sub_entries e = [e]"

definition entries_in :: "entry list \<Rightarrow> entry list" where
  "entries_in es = concat (map sub_entries es)"

definition find_entry :: "nat \<Rightarrow> entry list \<Rightarrow> entry option" where
  "find_entry i es = find (\<lambda>e. entry_id e = i) (entries_in es)"

definition click_entry :: "nat \<Rightarrow> menu \<Rightarrow> menu" where
  "click_entry i m =
     (case find_entry i (mn_items m) of
        None \<Rightarrow> m
      | Some e \<Rightarrow>
          (case entry_item e of
             None \<Rightarrow> m
           | Some it \<Rightarrow>
               if it_disabled it then m
               else let m1 = (if no_submenu e
                              then let h = hide_menu (mn_inline m) m
                                   in (case it_href it of Some u \<Rightarrow> if u = '''' then h else mn_note (WentTo u) h | None \<Rightarrow> h)
                              else m)
                    in mn_note (MenuClicked i) (enter_popup (level_has i (mn_items m)) (enter_item i m1))))"

definition menu_timer :: "nat \<Rightarrow> menu \<Rightarrow> menu" where
  "menu_timer t m =
     (if t \<in> set (mn_pending m) then hide_menu (mn_inline m) (m\<lparr>mn_pending := filter (\<lambda>u. u \<noteq> t) (mn_pending m)\<rparr>) else m)"

text \<open>\<open>mousedown\<close> elsewhere on the page\<close>

fun hide_shown :: "entry \<Rightarrow> entry" where
  "hide_shown (Branch it p es) = (if po_shown p then Branch it (hide_popup p) (map hide_entry es) else Branch it p (map hide_shown es))"
| "hide_shown e = e"

definition mouse_outside :: "menu \<Rightarrow> menu" where
  "mouse_outside m =
     (let m1 = (if \<not> mn_inline m \<and> po_shown (mn_popup m) then hide_menu False m else m)
      in m1\<lparr>mn_items := map hide_shown (mn_items m1)\<rparr>)"

section \<open>Changing the items\<close>

text \<open>\<open>_33\<close>: a later item that matches replaces the one found before\<close>

definition has_text :: "string \<Rightarrow> menu_item \<Rightarrow> bool" where
  "has_text t it = (js_trim (js_trim (it_text it)) = t)"

fun find_below :: "string \<Rightarrow> entry \<Rightarrow> menu_item option \<Rightarrow> menu_item option" where
  "find_below t (Separator i) a = a"
| "find_below t (Leaf it) a = (if has_text t it then Some it else a)"
| "find_below t (Branch it p es) a =
     (if has_text t it then Some it else if a = None then fold (find_below t) es a else a)"

definition find_item :: "string \<Rightarrow> menu \<Rightarrow> menu_item option" where
  "find_item t m = fold (find_below t) (mn_items m) None"

text \<open>\<open>_10\<close>: the handler of a disabled item is put aside\<close>

definition put_disabled :: "bool \<Rightarrow> menu_item \<Rightarrow> menu_item" where
  "put_disabled d it =
     (if d
      then (case it_onclick it of
              Some h \<Rightarrow> it\<lparr>it_disabled := True, it_onclick1 := Some h, it_onclick := None\<rparr>
            | None \<Rightarrow> it\<lparr>it_disabled := True\<rparr>)
      else (case it_onclick1 it of
              Some h \<Rightarrow> it\<lparr>it_disabled := False, it_onclick := Some h, it_onclick1 := None\<rparr>
            | None \<Rightarrow> it\<lparr>it_disabled := False\<rparr>))"

definition change_menu_item :: "(menu_item \<Rightarrow> menu_item) \<Rightarrow> nat \<Rightarrow> menu \<Rightarrow> menu" where
  "change_menu_item f i m = m\<lparr>mn_items := at_level (map_item f) id i (mn_items m)\<rparr>"

text \<open>\<open>_3d\<close>\<close>

record item_options =
  ni_id :: nat
  ni_separator :: bool
  ni_text :: string
  ni_name :: "string option"
  ni_href :: "string option"
  ni_icon :: "string option"
  ni_onclick :: "string option"
  ni_handler :: "string option"
  ni_disabled :: bool

definition new_entry :: "item_options \<Rightarrow> entry" where
  "new_entry n =
     (if ni_separator n then Separator (ni_id n)
      else let it = \<lparr>it_id = ni_id n, it_text = ni_text n, it_name = ni_name n, it_href = ni_href n, it_icon = ni_icon n,
                     it_onclick = (case ni_handler n of Some h \<Rightarrow> Some h | None \<Rightarrow> ni_onclick n), it_onclick1 = None,
                     it_disabled = False, it_visible = True, it_active = False, it_active_disabled = False\<rparr>
           in Leaf (if ni_disabled n then put_disabled True it else it))"

definition new_popup :: popup where
  "new_popup = \<lparr>po_shown = False, po_shadow = None, po_left = 0, po_top = 0\<rparr>"

fun append_below :: "entry \<Rightarrow> entry \<Rightarrow> entry" where
  "append_below e (Separator i) = Separator i"
| "append_below e (Leaf it) = Branch it new_popup [e]"
| "append_below e (Branch it p es) = Branch it p (es @ [e])"

definition append_item :: "nat option \<Rightarrow> item_options \<Rightarrow> menu \<Rightarrow> menu" where
  "append_item parent n m =
     (case parent of
        None \<Rightarrow> m\<lparr>mn_items := mn_items m @ [new_entry n]\<rparr>
      | Some i \<Rightarrow> m\<lparr>mn_items := at_level (append_below (new_entry n)) id i (mn_items m)\<rparr>)"

text \<open>\<open>_44\<close>: an item goes with its submenus\<close>

fun remove_below :: "nat \<Rightarrow> entry \<Rightarrow> entry" where
  "remove_below i (Branch it p es) = Branch it p (map (remove_below i) (filter (\<lambda>e. entry_id e \<noteq> i) es))"
| "remove_below i e = e"

definition remove_item :: "nat \<Rightarrow> menu \<Rightarrow> menu" where
  "remove_item i m = m\<lparr>mn_items := map (remove_below i) (filter (\<lambda>e. entry_id e \<noteq> i) (mn_items m))\<rparr>"

text \<open>\<open>_4f\<close>\<close>

definition destroy_menu :: "menu \<Rightarrow> menu" where
  "destroy_menu m = m\<lparr>mn_gone := True, mn_items := [], mn_popup := (mn_popup m)\<lparr>po_shown := False, po_shadow := None\<rparr>\<rparr>"

section \<open>Making a menu of markup\<close>

text \<open>\<open>_7\<close> and \<open>_8\<close>: a \<open>div\<close> with a \<open>div\<close> inside is an item with a submenu\<close>

datatype markup = MarkSeparator nat | MarkItem item_options "markup list option"

definition markup_item :: "item_options \<Rightarrow> menu_item" where
  "markup_item n =
     (let it = \<lparr>it_id = ni_id n, it_text = ni_text n, it_name = Some (case_option '''' id (ni_name n)),
                it_href = Some (case_option '''' id (ni_href n)), it_icon = ni_icon n, it_onclick = ni_onclick n, it_onclick1 = None,
                it_disabled = False, it_visible = True, it_active = False, it_active_disabled = False\<rparr>
      in if ni_disabled n then put_disabled True it else it)"

fun markup_entry :: "markup \<Rightarrow> entry" where
  "markup_entry (MarkSeparator i) = Separator i"
| "markup_entry (MarkItem n sub) =
     (if ni_separator n then Separator (ni_id n)
      else (case sub of None \<Rightarrow> Leaf (markup_item n) | Some ms \<Rightarrow> Branch (markup_item n) new_popup (map markup_entry ms)))"

definition create_menu :: "page_geometry \<Rightarrow> bool \<Rightarrow> bool \<Rightarrow> markup list \<Rightarrow> menu" where
  "create_menu g inline unhover ms =
     \<lparr>mn_items = map markup_entry ms, mn_popup = new_popup\<lparr>po_shown := inline\<rparr>, mn_page = g, mn_inline = inline,
      mn_left = 0, mn_top = 0, mn_align_to = None, mn_align_right = False, mn_hide_on_unhover = unhover, mn_timer = None,
      mn_pending = [], mn_next_timer = 0, mn_gone = False, mn_log = []\<rparr>"

section \<open>Sessions\<close>

datatype menu_event =
    ShowMenu show_options | HideMenu | MouseEnter nat | MouseLeave nat int | ClickItem nat | EnterPopup bool | LeavePopup bool
  | MenuTimer nat | MouseOutside | DisableItem nat | EnableItem nat | ShowItem nat | HideItem nat | SetText nat string
  | SetIcon nat "string option" | AppendItem "nat option" item_options | RemoveItem nat | Relayout page_geometry | DestroyMenu

text \<open>Mouse events need a visible item, an appended element is new, and a destroyed menu has only its timers left.\<close>

definition at_item :: "nat \<Rightarrow> menu \<Rightarrow> (menu \<Rightarrow> menu) \<Rightarrow> menu option" where
  "at_item i m f = (if po_shown (mn_popup m) \<and> reaches i (mn_items m) then Some (f m) else None)"

definition live_step :: "menu \<Rightarrow> menu_event \<Rightarrow> menu option" where
  "live_step m e =
     (case e of
        ShowMenu ops \<Rightarrow> Some (show_menu ops m)
      | HideMenu \<Rightarrow> Some (hide_menu False m)
      | MouseEnter i \<Rightarrow> at_item i m (enter_item i)
      | MouseLeave i x \<Rightarrow> Some (leave_item x i m)
      | ClickItem i \<Rightarrow> at_item i m (click_entry i)
      | EnterPopup outer \<Rightarrow> Some (enter_popup outer m)
      | LeavePopup outer \<Rightarrow> Some (leave_popup outer m)
      | MouseOutside \<Rightarrow> Some (mouse_outside m)
      | DisableItem i \<Rightarrow> Some (change_menu_item (put_disabled True) i m)
      | EnableItem i \<Rightarrow> Some (change_menu_item (put_disabled False) i m)
      | ShowItem i \<Rightarrow> Some (change_menu_item (\<lambda>it. it\<lparr>it_visible := True\<rparr>) i m)
      | HideItem i \<Rightarrow> Some (change_menu_item (\<lambda>it. it\<lparr>it_visible := False\<rparr>) i m)
      | SetText i s \<Rightarrow> Some (change_menu_item (\<lambda>it. it\<lparr>it_text := s\<rparr>) i m)
      | SetIcon i c \<Rightarrow> Some (change_menu_item (\<lambda>it. it\<lparr>it_icon := c\<rparr>) i m)
      | AppendItem p n \<Rightarrow> if ni_id n \<in> entry_id ` set (entries_in (mn_items m)) then None else Some (append_item p n m)
      | RemoveItem i \<Rightarrow> Some (remove_item i m)
      | Relayout g \<Rightarrow> Some (m\<lparr>mn_page := g\<rparr>)
      | DestroyMenu \<Rightarrow> Some (destroy_menu m)
      | MenuTimer t \<Rightarrow> None)"

definition menu_step :: "menu \<Rightarrow> menu_event \<Rightarrow> menu option" where
  "menu_step m e =
     (case e of MenuTimer t \<Rightarrow> Some (menu_timer t m) | _ \<Rightarrow> if mn_gone m then None else live_step m e)"

section \<open>The open submenus form a chain\<close>

text \<open>
  A submenu is open only inside an open one, at most one of a popup's submenus is open, and a
  popup has a visible shadow exactly if it is open.
\<close>

definition popup_ok :: "popup \<Rightarrow> bool" where
  "popup_ok p = (po_shown p = (po_shadow p = Some True))"

fun is_open :: "entry \<Rightarrow> bool" where
  "is_open (Branch it p es) = po_shown p"
| "is_open e = False"

definition one_submenu :: "entry list \<Rightarrow> bool" where
  "one_submenu es = (length (filter is_open es) \<le> 1)"

fun menu_entry_ok :: "bool \<Rightarrow> entry \<Rightarrow> bool" where
  "menu_entry_ok s (Branch it p es) =
     ((po_shown p \<longrightarrow> s) \<and> popup_ok p \<and> one_submenu es \<and> list_all (menu_entry_ok (po_shown p)) es)"
| "menu_entry_ok s e = True"

definition level_ok :: "bool \<Rightarrow> entry list \<Rightarrow> bool" where
  "level_ok s es = (one_submenu es \<and> list_all (menu_entry_ok s) es)"

definition ids_in :: "entry list \<Rightarrow> nat list" where
  "ids_in es = map entry_id (entries_in es)"

lemma menu_entry_ok_Branch: "menu_entry_ok s (Branch it p es) = ((po_shown p \<longrightarrow> s) \<and> popup_ok p \<and> level_ok (po_shown p) es)"
  by (simp add: level_ok_def)

declare menu_entry_ok.simps(1) [simp del]
declare menu_entry_ok_Branch [simp]

lemma menu_entry_ok_mono: "menu_entry_ok s e \<Longrightarrow> menu_entry_ok True e"
  by (cases e) auto

lemma one_submenu_map: "(\<And>e. e \<in> set es \<Longrightarrow> is_open (h e) \<Longrightarrow> is_open e) \<Longrightarrow> one_submenu es \<Longrightarrow> one_submenu (map h es)"
proof (induction es)
  case (Cons e es)
  have "length (filter is_open (map h es)) \<le> length (filter is_open es)" using Cons.prems(1)
    by (induction es) (auto intro: le_SucI)
  with Cons show ?case by (auto simp: one_submenu_def split: if_splits)
qed simp

lemma one_submenu_at:
  assumes "distinct (map entry_id es)" "\<And>e. e \<in> set es \<Longrightarrow> is_open (h e) \<Longrightarrow> entry_id e = i"
  shows "one_submenu (map h es)"
  using assms
proof (induction es)
  case (Cons e es)
  show ?case
  proof (cases "is_open (h e)")
    case True
    have "filter is_open (map h es) = []" using Cons.prems True by (force simp: filter_empty_conv)
    then show ?thesis by (simp add: one_submenu_def)
  next
    case False
    then show ?thesis using Cons by (simp add: one_submenu_def)
  qed
qed (simp add: one_submenu_def)

lemma level_ok_mono: "level_ok s es \<Longrightarrow> level_ok True es"
  unfolding level_ok_def using menu_entry_ok_mono by (auto simp: list_all_iff)

subsection \<open>Handlers that open nothing\<close>

lemma at_entry_open [simp]: "is_open (at_entry f g i e) = is_open e" "entry_id (at_entry f g i e) = entry_id e"
  by (cases e; simp)+

lemma level_ok_map:
  assumes "level_ok s es" "\<And>e. e \<in> set es \<Longrightarrow> is_open (h e) \<Longrightarrow> is_open e" "\<And>e. e \<in> set es \<Longrightarrow> menu_entry_ok s e \<Longrightarrow> menu_entry_ok s (h e)"
  shows "level_ok s (map h es)"
  using assms by (auto simp: level_ok_def list_all_iff intro: one_submenu_map)

lemma at_level_step:
  assumes "level_ok s es"
    and "\<And>e. e \<in> set es \<Longrightarrow> entry_id e = i \<Longrightarrow> menu_entry_ok s e \<Longrightarrow> menu_entry_ok s (f e) \<and> (is_open (f e) \<longrightarrow> is_open e)"
    and "\<And>e. e \<in> set es \<Longrightarrow> menu_entry_ok s e \<Longrightarrow> menu_entry_ok s (g e) \<and> (is_open (g e) \<longrightarrow> is_open e)"
    and "\<And>e. e \<in> set es \<Longrightarrow> menu_entry_ok s e \<Longrightarrow> menu_entry_ok s (at_entry f g i e)"
  shows "level_ok s (at_level f g i es)"
proof -
  have "menu_entry_ok s e" if "e \<in> set es" for e using assms(1) that by (auto simp: level_ok_def list_all_iff)
  then show ?thesis unfolding at_level_def using assms(2-4) by (auto intro!: level_ok_map [OF assms(1)] split: if_splits)
qed

lemma at_entry_Branch: "at_entry f g i (Branch it p es) = Branch it p (at_level f g i es)"
  by (simp add: at_level_def)

declare at_entry.simps(1) [simp del]
declare at_entry_Branch [simp]

lemma at_entry_quiet:
  assumes "\<And>s e. menu_entry_ok s e \<Longrightarrow> menu_entry_ok s (f e)" "\<And>e. is_open (f e) \<Longrightarrow> is_open e"
  shows "menu_entry_ok s e \<Longrightarrow> menu_entry_ok s (at_entry f id i e)"
proof (induction e arbitrary: s)
  case (Branch it p es)
  then show ?case using assms by (auto intro!: at_level_step)
qed simp_all

lemma at_level_quiet:
  assumes "\<And>s e. menu_entry_ok s e \<Longrightarrow> menu_entry_ok s (f e)" "\<And>e. is_open (f e) \<Longrightarrow> is_open e" "level_ok s es"
  shows "level_ok s (at_level f id i es)"
  using assms at_entry_quiet [OF assms(1,2)] by (auto intro!: at_level_step)

lemma map_item_ok [simp]: "menu_entry_ok s (map_item f e) = menu_entry_ok s e" "is_open (map_item f e) = is_open e"
  by (cases e; simp)+

subsection \<open>Hiding\<close>

lemma popup_ok_hide [simp]: "popup_ok (hide_popup p)" "po_shown (hide_popup p) = False"
  by (auto simp: popup_ok_def hide_popup_def)

lemma hide_entry_open [simp]: "\<not> is_open (hide_entry e)" "entry_id (hide_entry e) = entry_id e"
  by (cases e; simp)+

lemma hidden_level: "(\<And>e. e \<in> set es \<Longrightarrow> menu_entry_ok s (hide_entry e)) \<Longrightarrow> level_ok s (map hide_entry es)"
  by (auto simp: level_ok_def one_submenu_def list_all_iff filter_empty_conv)

lemma hide_entry_ok [simp]: "menu_entry_ok s (hide_entry e)"
proof (induction e arbitrary: s)
  case (Branch it p es)
  then show ?case by (simp add: hidden_level)
qed simp_all

lemma hide_level_ok [simp]: "level_ok s (map hide_entry es)"
  by (simp add: hidden_level)

lemma hide_shown_open [simp]: "is_open (hide_shown e) \<Longrightarrow> is_open e"
  by (cases e) (auto split: if_splits)

lemma hide_shown_ok: "menu_entry_ok s e \<Longrightarrow> menu_entry_ok s (hide_shown e)"
proof (induction e arbitrary: s)
  case (Branch it p es)
  then show ?case by (auto intro!: level_ok_map)
qed simp_all

subsection \<open>Entering and clicking an item\<close>

lemma self_sub [simp]: "e \<in> set (sub_entries e)"
  by (cases e) simp_all

lemma at_entry_closing:
  assumes "\<And>s e. P e \<Longrightarrow> menu_entry_ok s e \<Longrightarrow> menu_entry_ok s (f e)" "\<And>e. P e \<Longrightarrow> \<not> is_open (f e)"
  shows "menu_entry_ok s e \<Longrightarrow> (\<And>d. d \<in> set (sub_entries e) \<Longrightarrow> entry_id d = i \<Longrightarrow> P d) \<Longrightarrow> menu_entry_ok s (at_entry f hide_entry i e)"
proof (induction e arbitrary: s)
  case (Branch it p es)
  have p: "P d" if "e \<in> set es" "d \<in> set (sub_entries e)" "entry_id d = i" for d e using Branch.prems(2) that by auto
  have "level_ok (po_shown p) (at_level f hide_entry i es)"
    using Branch.prems(1) Branch.IH p assms self_sub by (intro at_level_step) auto
  then show ?case using Branch.prems(1) by simp
qed simp_all

lemma at_level_closing:
  assumes "\<And>s e. P e \<Longrightarrow> menu_entry_ok s e \<Longrightarrow> menu_entry_ok s (f e)" "\<And>e. P e \<Longrightarrow> \<not> is_open (f e)"
    and "level_ok s es" "\<And>d. d \<in> set (entries_in es) \<Longrightarrow> entry_id d = i \<Longrightarrow> P d"
  shows "level_ok s (at_level f hide_entry i es)"
proof -
  have p: "P d" if "e \<in> set es" "d \<in> set (sub_entries e)" "entry_id d = i" for d e using assms(4) that by (auto simp: entries_in_def)
  show ?thesis using assms(1-3) p self_sub at_entry_closing [of P f, OF assms(1,2)] by (intro at_level_step) auto
qed

lemma in_ids: "i \<in> set (ids_in es) \<longleftrightarrow> (\<exists>e \<in> set es. \<exists>d \<in> set (sub_entries e). entry_id d = i)"
  by (auto simp: ids_in_def entries_in_def)

lemma at_entry_absent: "(\<forall>d \<in> set (sub_entries e). entry_id d \<noteq> i) \<Longrightarrow> at_entry f g i e = e"
proof (induction e)
  case (Branch it p es)
  then have "map (at_entry f g i) es = es" by (auto intro!: map_idI)
  moreover have "\<not> level_has i es" using Branch.prems self_sub by (auto simp: level_has_def list_ex_iff)
  ultimately show ?case by (simp add: at_level_def)
qed simp_all

lemma reaches_entry_Branch: "reaches_entry i (Branch it p es) = (po_shown p \<and> reaches i es)"
  by (simp add: reaches_def)

declare reaches_entry.simps(1) [simp del]
declare reaches_entry_Branch [simp]

lemma reaches_entry_in: "reaches_entry i e \<Longrightarrow> i \<in> entry_id ` set (sub_entries e)"
proof (induction e)
  case (Branch it p es)
  then obtain e where e: "e \<in> set es" "(\<exists>k. entry_item e = Some k \<and> it_id k = i) \<or> reaches_entry i e"
    by (auto simp: reaches_def list_ex_iff split: option.splits)
  have "entry_item e = Some k \<Longrightarrow> it_id k = entry_id e" for k by (cases e) simp_all
  with e Branch.IH [OF e(1)] have "i \<in> entry_id ` set (sub_entries e)" using self_sub [of e] by auto
  with e(1) show ?case by auto
qed simp_all

lemma distinct_parts:
  "distinct (concat (map F es)) \<Longrightarrow> e \<in> set es \<Longrightarrow> e' \<in> set es \<Longrightarrow> x \<in> set (F e) \<Longrightarrow> x \<in> set (F e') \<Longrightarrow> e = e'"
  by (induction es) auto

lemma ids_in_concat: "ids_in es = concat (map (\<lambda>e. map entry_id (sub_entries e)) es)"
  by (simp add: ids_in_def entries_in_def map_concat comp_def)

lemma distinct_entry: "distinct (ids_in es) \<Longrightarrow> e \<in> set es \<Longrightarrow> distinct (map entry_id (sub_entries e))"
  unfolding ids_in_concat by (induction es) auto

lemma distinct_top: "distinct (ids_in es) \<Longrightarrow> distinct (map entry_id es)"
proof (induction es)
  case (Cons e es)
  have "set (map entry_id es) \<subseteq> set (ids_in es)" using self_sub by (auto simp: ids_in_concat)
  moreover have "entry_id e \<in> entry_id ` set (sub_entries e)" by simp
  then have "distinct (ids_in es)" "entry_id e \<notin> set (ids_in es)" using Cons.prems by (auto simp: ids_in_concat simp del: self_sub)
  ultimately show ?case using Cons.IH by auto
qed simp

lemma enter_entry_ok: "menu_entry_ok True e \<Longrightarrow> menu_entry_ok True (enter_entry g e)"
proof (cases e)
  case (Branch it p es)
  moreover assume "menu_entry_ok True e"
  ultimately show ?thesis
    by (auto simp: show_popup_def popup_ok_def intro: level_ok_mono)
qed simp_all

lemma enter_level_step:
  assumes l: "level_ok True es" and d: "distinct (ids_in es)" and r: "reaches i es"
    and ih: "\<And>e. e \<in> set es \<Longrightarrow> menu_entry_ok True e \<Longrightarrow> reaches_entry i e \<Longrightarrow> menu_entry_ok True (at_entry (enter_entry g) hide_entry i e)"
  shows "level_ok True (at_level (enter_entry g) hide_entry i es)"
proof (cases "level_has i es")
  case True
  let ?h = "\<lambda>e. if entry_id e = i then enter_entry g e else hide_entry e"
  have "one_submenu (map ?h es)" by (rule one_submenu_at [OF distinct_top [OF d], where i = i]) (simp split: if_splits)
  moreover have "list_all (menu_entry_ok True) (map ?h es)" using l enter_entry_ok by (auto simp: level_ok_def list_all_iff)
  ultimately show ?thesis using True by (simp add: at_level_def level_ok_def)
next
  case False
  then obtain e0 where e0: "e0 \<in> set es" "reaches_entry i e0"
  proof -
    from r obtain e where e: "e \<in> set es" "(\<exists>k. entry_item e = Some k \<and> it_id k = i) \<or> reaches_entry i e"
      by (auto simp: reaches_def list_ex_iff split: option.splits)
    have "entry_item e = Some k \<Longrightarrow> it_id k = entry_id e" for k by (cases e) simp_all
    then show thesis using e False that by (auto simp: level_has_def list_ex_iff)
  qed
  have "menu_entry_ok True (at_entry (enter_entry g) hide_entry i e)" if e: "e \<in> set es" for e
  proof (cases "e = e0")
    case True
    then show ?thesis using ih e e0 l by (auto simp: level_ok_def list_all_iff)
  next
    case False
    have "i \<notin> set (map entry_id (sub_entries e))"
      using distinct_parts [OF d [unfolded ids_in_concat] e e0(1), of i] False reaches_entry_in [OF e0(2)] by auto
    then have "at_entry (enter_entry g) hide_entry i e = e" by (auto intro: at_entry_absent)
    then show ?thesis using l e by (simp add: level_ok_def list_all_iff)
  qed
  then have "level_ok True (map (at_entry (enter_entry g) hide_entry i) es)" by (intro level_ok_map [OF l]) auto
  then show ?thesis using False by (simp add: at_level_def)
qed

lemma enter_reached_entry:
  "menu_entry_ok True e \<Longrightarrow> distinct (map entry_id (sub_entries e)) \<Longrightarrow> reaches_entry i e \<Longrightarrow> menu_entry_ok True (at_entry (enter_entry g) hide_entry i e)"
proof (induction e)
  case (Branch it p es)
  then have d: "distinct (ids_in es)" and p: "po_shown p" "reaches i es" by (simp_all add: ids_in_def entries_in_def)
  have "level_ok True (at_level (enter_entry g) hide_entry i es)"
    using Branch.prems(1) p Branch.IH distinct_entry [OF d] by (intro enter_level_step [OF _ d p(2)]) auto
  then show ?case using Branch.prems(1) p by simp
qed simp_all

lemma enter_level_ok:
  "level_ok True es \<Longrightarrow> distinct (ids_in es) \<Longrightarrow> reaches i es \<Longrightarrow> level_ok True (at_level (enter_entry g) hide_entry i es)"
  using enter_level_step enter_reached_entry distinct_entry by metis


subsection \<open>The elements of a menu\<close>

abbreviation entry_ids :: "entry \<Rightarrow> nat list" where
  "entry_ids e \<equiv> map entry_id (sub_entries e)"

lemma entry_ids_Branch: "entry_ids (Branch it p es) = it_id it # ids_in es"
  by (simp add: ids_in_def entries_in_def)

lemma ids_in_Cons: "ids_in (e # es) = entry_ids e @ ids_in es" "ids_in [] = []" "ids_in (es @ es') = ids_in es @ ids_in es'"
  by (simp_all add: ids_in_concat)

lemma ids_map_same: "(\<And>e. e \<in> set es \<Longrightarrow> entry_ids (h e) = entry_ids e) \<Longrightarrow> ids_in (map h es) = ids_in es"
  unfolding ids_in_concat by (induction es) auto

lemma ids_at_entry: 
  assumes "\<And>e. entry_ids (f e) = entry_ids e" "\<And>e. entry_ids (g e) = entry_ids e"
  shows "entry_ids (at_entry f g i e) = entry_ids e"
proof (induction e)
  case (Branch it p es)
  then have "ids_in (at_level f g i es) = ids_in es" unfolding at_level_def using assms by (auto intro!: ids_map_same)
  then show ?case by (simp add: ids_in_def entries_in_def)
qed simp_all

lemma ids_at_level:
  assumes "\<And>e. entry_ids (f e) = entry_ids e" "\<And>e. entry_ids (g e) = entry_ids e"
  shows "ids_in (at_level f g i es) = ids_in es"
  unfolding at_level_def using assms ids_at_entry [OF assms] by (auto intro!: ids_map_same)

lemma ids_hide [simp]: "entry_ids (hide_entry e) = entry_ids e"
proof (induction e)
  case (Branch it p es)
  then show ?case using ids_map_same [of es hide_entry] by (simp add: ids_in_def entries_in_def)
qed simp_all

lemma ids_hide_shown: "entry_ids (hide_shown e) = entry_ids e"
proof (induction e)
  case (Branch it p es)
  then show ?case using ids_map_same [of es hide_entry] ids_map_same [of es hide_shown] by (auto simp: ids_in_def entries_in_def)
qed simp_all

lemma ids_map_item: "entry_ids (map_item h e) = entry_ids e" if "\<And>it. it_id (h it) = it_id it"
  using that by (cases e) simp_all

lemma ids_enter: "entry_ids (enter_entry g e) = entry_ids e" "entry_ids (leave_entry x e) = entry_ids e"
  using ids_map_same [of _ hide_entry] by (cases e; simp add: activate_def ids_in_def entries_in_def Let_def)+

lemma remove_below_ids: "entry_id (remove_below i e) = entry_id e" "is_open (remove_below i e) = is_open e"
  by (cases e; simp)+

lemma ids_filter_map:
  assumes "distinct (ids_in es)"
    and "\<And>e. e \<in> set es \<Longrightarrow> distinct (entry_ids e) \<Longrightarrow> distinct (entry_ids (h e)) \<and> set (entry_ids (h e)) \<subseteq> set (entry_ids e)"
  shows "distinct (ids_in (map h (filter P es))) \<and> set (ids_in (map h (filter P es))) \<subseteq> set (ids_in es)"
  using assms
proof (induction es)
  case (Cons e es)
  have d: "distinct (entry_ids e)" "distinct (ids_in es)" "set (entry_ids e) \<inter> set (ids_in es) = {}"
    using Cons.prems(1) by (simp_all add: ids_in_Cons)
  have h: "distinct (entry_ids (h e))" "set (entry_ids (h e)) \<subseteq> set (entry_ids e)" using Cons.prems(2) d(1) by auto
  have ih: "distinct (ids_in (map h (filter P es)))" "set (ids_in (map h (filter P es))) \<subseteq> set (ids_in es)"
    using Cons.IH [OF d(2)] Cons.prems(2) by auto
  have "set (entry_ids (h e)) \<inter> set (ids_in (map h (filter P es))) = {}" using h(2) ih(2) d(3) by blast
  then have "distinct (entry_ids (h e) @ ids_in (map h (filter P es)))" using h(1) ih(1) by (simp only: distinct_append)
  moreover have "set (entry_ids (h e) @ ids_in (map h (filter P es))) \<subseteq> set (entry_ids e @ ids_in es)"
    using h(2) ih(2) by (simp only: set_append) blast
  ultimately show ?case using ih by (cases "P e") (simp_all only: filter.simps if_True if_False list.map ids_in_Cons, auto)
qed (simp add: ids_in_Cons)

lemma ids_remove: "distinct (entry_ids e) \<Longrightarrow> distinct (entry_ids (remove_below i e)) \<and> set (entry_ids (remove_below i e)) \<subseteq> set (entry_ids e)"
proof (induction e)
  case (Branch it p es)
  have "distinct (ids_in es)" using Branch.prems unfolding entry_ids_Branch by simp
  from ids_filter_map [OF this Branch.IH] Branch.prems show ?case unfolding entry_ids_Branch remove_below.simps by auto
qed simp_all

text \<open>Appending below one entry\<close>

lemma ids_append_level:
  assumes "distinct (ids_in es)" "k \<notin> set (ids_in es)"
    and "\<And>e. e \<in> set es \<Longrightarrow> distinct (entry_ids e) \<Longrightarrow> k \<notin> set (entry_ids e) \<Longrightarrow>
      distinct (entry_ids (h e)) \<and> set (entry_ids (h e)) \<subseteq> insert k (set (entry_ids e)) \<and> (i \<notin> set (entry_ids e) \<longrightarrow> h e = e)"
  shows "distinct (ids_in (map h es)) \<and> set (ids_in (map h es)) \<subseteq> insert k (set (ids_in es)) \<and> (i \<notin> set (ids_in es) \<longrightarrow> map h es = es)"
  using assms
proof (induction es)
  case (Cons e es)
  have d: "distinct (entry_ids e)" "distinct (ids_in es)" "set (entry_ids e) \<inter> set (ids_in es) = {}"
      "k \<notin> set (entry_ids e)" "k \<notin> set (ids_in es)"
    using Cons.prems(1,2) by (simp_all add: ids_in_Cons)
  have h: "distinct (entry_ids (h e))" "set (entry_ids (h e)) \<subseteq> insert k (set (entry_ids e))" "i \<notin> set (entry_ids e) \<longrightarrow> h e = e"
    using Cons.prems(3) [of e] d by auto
  have ih: "distinct (ids_in (map h es))" "set (ids_in (map h es)) \<subseteq> insert k (set (ids_in es))" "i \<notin> set (ids_in es) \<longrightarrow> map h es = es"
    using Cons.IH d Cons.prems(3) by auto
  have "h e = e \<or> map h es = es" using h(3) ih(3) d(3) by blast
  then have "set (entry_ids (h e)) \<inter> set (ids_in (map h es)) = {}" 
    using h(2) ih(2) d(3-5) by (elim disjE) (simp only:, blast)+
  then have "distinct (entry_ids (h e) @ ids_in (map h es))" using h(1) ih(1) by (simp only: distinct_append)
  moreover have "set (entry_ids (h e) @ ids_in (map h es)) \<subseteq> insert k (set (entry_ids e @ ids_in es))"
    using h(2) ih(2) by (simp only: set_append) blast
  moreover have "i \<notin> set (entry_ids e @ ids_in es) \<longrightarrow> h e # map h es = e # es" using h(3) ih(3) by simp
  ultimately show ?case by (simp only: list.map ids_in_Cons)
qed (simp add: ids_in_Cons)

lemma ids_append_entry:
  assumes "sub_entries n = [n]"
  shows "distinct (entry_ids e) \<Longrightarrow> entry_id n \<notin> set (entry_ids e) \<Longrightarrow>
    distinct (entry_ids (append_below n e)) \<and> set (entry_ids (append_below n e)) \<subseteq> insert (entry_id n) (set (entry_ids e))"
  using assms by (cases e) auto

lemma ids_append_at:
  assumes n: "sub_entries n = [n]" and d: "distinct (ids_in es)" "entry_id n \<notin> set (ids_in es)"
    and ih: "\<And>e. e \<in> set es \<Longrightarrow> distinct (entry_ids e) \<Longrightarrow> entry_id n \<notin> set (entry_ids e) \<Longrightarrow>
      distinct (entry_ids (at_entry (append_below n) id i e)) \<and> set (entry_ids (at_entry (append_below n) id i e)) \<subseteq> insert (entry_id n) (set (entry_ids e))"
  shows "distinct (ids_in (at_level (append_below n) id i es)) \<and> set (ids_in (at_level (append_below n) id i es)) \<subseteq> insert (entry_id n) (set (ids_in es))"
proof (cases "level_has i es")
  case True
  let ?h = "\<lambda>e. if entry_id e = i then append_below n e else id e"
  have "distinct (entry_ids (?h e)) \<and> set (entry_ids (?h e)) \<subseteq> insert (entry_id n) (set (entry_ids e)) \<and> (i \<notin> set (entry_ids e) \<longrightarrow> ?h e = e)"
    if "distinct (entry_ids e)" "entry_id n \<notin> set (entry_ids e)" for e
    using ids_append_entry [OF n that] that self_sub [of e] by auto
  from ids_append_level [OF d this] show ?thesis using True by (simp add: at_level_def)
next
  case False
  let ?h = "at_entry (append_below n) id i"
  have "distinct (entry_ids (?h e)) \<and> set (entry_ids (?h e)) \<subseteq> insert (entry_id n) (set (entry_ids e)) \<and> (i \<notin> set (entry_ids e) \<longrightarrow> ?h e = e)"
    if "e \<in> set es" "distinct (entry_ids e)" "entry_id n \<notin> set (entry_ids e)" for e
    using ih [OF that] at_entry_absent [of e i "append_below n" id] by auto
  from ids_append_level [OF d this] show ?thesis using False by (simp add: at_level_def)
qed

lemma ids_append_below:
  assumes n: "sub_entries n = [n]"
  shows "distinct (entry_ids e) \<Longrightarrow> entry_id n \<notin> set (entry_ids e) \<Longrightarrow>
    distinct (entry_ids (at_entry (append_below n) id i e)) \<and> set (entry_ids (at_entry (append_below n) id i e)) \<subseteq> insert (entry_id n) (set (entry_ids e))"
proof (induction e)
  case (Branch it p es)
  then have "distinct (ids_in es)" "entry_id n \<notin> set (ids_in es)" unfolding entry_ids_Branch by simp_all
  from ids_append_at [OF n this Branch.IH] Branch.prems show ?case unfolding entry_ids_Branch at_entry_Branch by auto
qed simp_all

lemma ids_append:
  assumes "sub_entries n = [n]" "distinct (ids_in es)" "entry_id n \<notin> set (ids_in es)"
  shows "distinct (ids_in (at_level (append_below n) id i es))"
  using ids_append_at [OF assms ids_append_below [OF assms(1)]] by blast

subsection \<open>Sessions\<close>

definition menu_ok :: "menu \<Rightarrow> bool" where
  "menu_ok m = (level_ok (po_shown (mn_popup m)) (mn_items m) \<and> distinct (ids_in (mn_items m))
     \<and> (if mn_inline m then po_shadow (mn_popup m) \<noteq> Some True else popup_ok (mn_popup m)))"

lemma menu_ok_frame [simp]:
  "menu_ok (mn_note n m) = menu_ok m" "menu_ok (m\<lparr>mn_pending := ps\<rparr>) = menu_ok m" "menu_ok (m\<lparr>mn_timer := t\<rparr>) = menu_ok m"
  "menu_ok (m\<lparr>mn_next_timer := k\<rparr>) = menu_ok m" "menu_ok (m\<lparr>mn_page := g\<rparr>) = menu_ok m"
  by (simp_all add: menu_ok_def mn_note_def)

lemma hide_menu_ok: "menu_ok m \<Longrightarrow> a \<longrightarrow> mn_inline m \<Longrightarrow> menu_ok (hide_menu a m)"
  using ids_map_same [of "mn_items m" hide_entry]
  by (auto simp: hide_menu_def Let_def) (auto simp: menu_ok_def hide_popup_def popup_ok_def)

lemma show_menu_ok: "menu_ok m \<Longrightarrow> menu_ok (show_menu ops m)"
  by (auto simp: show_menu_def Let_def) (auto simp: menu_ok_def show_popup_def popup_ok_def dest: level_ok_mono)

lemma leave_entry_ok: "menu_entry_ok s e \<Longrightarrow> menu_entry_ok s (leave_entry x e)" "is_open (leave_entry x e) \<Longrightarrow> is_open e"
  by (cases e; auto simp: Let_def split: if_splits)+

lemma new_entry_single: "sub_entries (new_entry n) = [new_entry n]" "menu_entry_ok s (new_entry n)" "\<not> is_open (new_entry n)"
    "entry_id (new_entry n) = ni_id n"
  by (simp_all add: new_entry_def Let_def put_disabled_def split: option.split)

lemma append_below_open: "is_open (append_below n e) \<Longrightarrow> is_open e"
  by (cases e) (simp_all add: new_popup_def)

lemma append_below_ok: 
  assumes "menu_entry_ok s e" "\<not> is_open n" "\<And>s. menu_entry_ok s n"
  shows "menu_entry_ok s (append_below n e)"
  using assms by (cases e) (auto simp: new_popup_def popup_ok_def level_ok_def one_submenu_def)

lemma menu_ok_items:
  assumes "menu_ok m" "level_ok (po_shown (mn_popup m)) es" "distinct (ids_in es)"
  shows "menu_ok (m\<lparr>mn_items := es\<rparr>)"
  using assms by (simp add: menu_ok_def)

lemma append_item_ok:
  assumes m: "menu_ok m" and n: "ni_id n \<notin> entry_id ` set (entries_in (mn_items m))"
  shows "menu_ok (append_item p n m)"
proof (cases p)
  case None
  have "level_ok (po_shown (mn_popup m)) (mn_items m @ [new_entry n])" using m
    by (simp add: menu_ok_def level_ok_def one_submenu_def new_entry_single)
  moreover have "distinct (ids_in (mn_items m @ [new_entry n]))" using m n
    by (simp add: menu_ok_def ids_in_def entries_in_def new_entry_single)
  ultimately show ?thesis using None menu_ok_items [OF m] by (simp add: append_item_def)
next
  case (Some i)
  have "level_ok (po_shown (mn_popup m)) (at_level (append_below (new_entry n)) id i (mn_items m))"
  proof (rule at_level_quiet)
    show "menu_entry_ok s e \<Longrightarrow> menu_entry_ok s (append_below (new_entry n) e)" for s e
      by (rule append_below_ok) (simp_all add: new_entry_single)
    show "level_ok (po_shown (mn_popup m)) (mn_items m)" using m by (simp add: menu_ok_def)
  qed (rule append_below_open)
  moreover have "distinct (ids_in (at_level (append_below (new_entry n)) id i (mn_items m)))"
    using m n by (intro ids_append) (auto simp: new_entry_single ids_in_def menu_ok_def)
  ultimately show ?thesis using Some menu_ok_items [OF m] by (simp add: append_item_def)
qed

lemma level_ok_filter: "level_ok s es \<Longrightarrow> level_ok s (filter P es)"
proof -
  have "length (filter is_open (filter P es)) \<le> length (filter is_open es)" by (induction es) auto
  then show "level_ok s es \<Longrightarrow> level_ok s (filter P es)" by (simp add: level_ok_def one_submenu_def list_all_iff)
qed

lemma remove_below_ok: "menu_entry_ok s e \<Longrightarrow> menu_entry_ok s (remove_below i e)"
proof (induction e arbitrary: s)
  case (Branch it p es)
  then show ?case by (auto intro!: level_ok_map level_ok_filter simp: remove_below_ids)
qed simp_all

lemma remove_item_ok:
  assumes "menu_ok m"
  shows "menu_ok (remove_item i m)"
proof -
  have "distinct (ids_in (mn_items m))" using assms by (simp add: menu_ok_def)
  from ids_filter_map [OF this ids_remove] assms show ?thesis unfolding remove_item_def
    by (intro menu_ok_items level_ok_map level_ok_filter) (auto simp: menu_ok_def remove_below_ids intro: remove_below_ok)
qed

lemma change_menu_item_ok:
  assumes "menu_ok m" "\<And>it. it_id (h it) = it_id it"
  shows "menu_ok (change_menu_item h i m)"
  unfolding change_menu_item_def using assms(1) ids_at_level [of "map_item h" id i "mn_items m"] ids_map_item [of h] assms(2)
  by (intro menu_ok_items at_level_quiet) (simp_all add: menu_ok_def)

lemma leave_item_ok:
  assumes "menu_ok m"
  shows "menu_ok (leave_item x i m)"
proof -
  have "level_ok (po_shown (mn_popup m)) (at_level (leave_entry x) id i (mn_items m))"
    by (rule at_level_quiet [OF leave_entry_ok]) (use assms in \<open>simp_all add: menu_ok_def\<close>)
  moreover have "ids_in (at_level (leave_entry x) id i (mn_items m)) = ids_in (mn_items m)"
    by (rule ids_at_level) (simp_all add: ids_enter)
  ultimately show ?thesis unfolding leave_item_def using assms by (intro menu_ok_items) (simp_all add: menu_ok_def)
qed

lemma enter_item_ok:
  assumes "menu_ok m" "po_shown (mn_popup m)" "reaches i (mn_items m)"
  shows "menu_ok (enter_item i m)"
  using assms ids_at_level [of "enter_entry (mn_page m)" hide_entry] enter_level_ok
  by (simp add: enter_item_def menu_ok_def ids_enter)

lemma sub_hide: "sub_entries (hide_entry e) = map hide_entry (sub_entries e)"
  by (induction e) (simp_all add: map_concat comp_def cong: map_cong)

lemma entries_hide: "entries_in (map hide_entry es) = map hide_entry (entries_in es)"
  by (simp add: entries_in_def map_concat comp_def sub_hide)

lemma find_entry_unique:
  assumes "distinct (ids_in es)" "find_entry i es = Some e" "d \<in> set (entries_in es)" "entry_id d = i"
  shows "d = e"
proof -
  have "e \<in> set (entries_in es)" "entry_id e = i" using assms(2) by (auto simp: find_entry_def find_Some_iff)
  then show ?thesis using assms(1,3,4) unfolding ids_in_def by (auto simp: distinct_map dest: inj_onD)
qed

text \<open>A leaf is entered without anything being opened, shown or not.\<close>

lemma enter_leaf:
  assumes "\<And>d. d \<in> set (entries_in es) \<Longrightarrow> entry_id d = i \<Longrightarrow> no_submenu d" "level_ok s es"
  shows "level_ok s (at_level (enter_entry g) hide_entry i es)"
proof -
  have "no_submenu d \<Longrightarrow> \<not> is_open (enter_entry g d) \<and> menu_entry_ok s (enter_entry g d)" for d s by (cases d) simp_all
  then show ?thesis using assms by (intro at_level_closing [where P = no_submenu]) auto
qed

lemma enter_popup_ok: "menu_ok (enter_popup b m) = menu_ok m" "menu_ok (leave_popup b m) = menu_ok m"
  by (simp_all add: enter_popup_def leave_popup_def split: option.split)

text \<open>What is left after the menu has been hidden by a click on a leaf\<close>

definition after_leaf :: "menu_item \<Rightarrow> menu \<Rightarrow> menu" where
  "after_leaf it m =
     (let h = hide_menu (mn_inline m) m
      in (case it_href it of Some u \<Rightarrow> if u = '''' then h else mn_note (WentTo u) h | None \<Rightarrow> h))"

lemma after_leaf_frame:
  assumes "\<not> mn_gone m" "po_shown (mn_popup m)"
  shows "mn_items (after_leaf it m) = map hide_entry (mn_items m)" "mn_popup (after_leaf it m) = (hide_popup (mn_popup m))\<lparr>po_shown := mn_inline m\<rparr>"
    "mn_inline (after_leaf it m) = mn_inline m" "mn_page (after_leaf it m) = mn_page m"
    "mn_log (after_leaf it m) = mn_log m @ (if mn_inline m then [] else [MenuHidden])
      @ (case it_href it of Some u \<Rightarrow> if u = '''' then [] else [WentTo u] | None \<Rightarrow> [])"
  using assms by (auto simp: after_leaf_def hide_menu_def Let_def mn_note_def hide_popup_def split: option.split)

lemma after_leaf_ok: "menu_ok m \<Longrightarrow> menu_ok (after_leaf it m)"
  using hide_menu_ok [of m "mn_inline m"] by (simp add: after_leaf_def Let_def split: option.split)

lemma click_leaf:
  assumes "find_entry i (mn_items m) = Some (Leaf it)" "\<not> it_disabled it"
  shows "click_entry i m = mn_note (MenuClicked i) (enter_popup (level_has i (mn_items m)) (enter_item i (after_leaf it m)))"
  using assms by (simp add: click_entry_def after_leaf_def Let_def)

lemma enter_after_leaf:
  assumes m: "menu_ok m" and s: "\<not> mn_gone m" "po_shown (mn_popup m)" and e: "find_entry i (mn_items m) = Some (Leaf it)"
  shows "level_ok s (at_level (enter_entry g) hide_entry i (mn_items (after_leaf it m)))"
proof (rule enter_leaf)
  show "level_ok s (mn_items (after_leaf it m))" by (simp add: after_leaf_frame [OF s])
  fix d assume "d \<in> set (entries_in (mn_items (after_leaf it m)))" "entry_id d = i"
  then obtain d' where d: "d' \<in> set (entries_in (mn_items m))" "d = hide_entry d'" "entry_id d' = i"
    by (auto simp: after_leaf_frame [OF s] entries_hide)
  then have "d' = Leaf it" using find_entry_unique [OF _ e] m by (simp add: menu_ok_def)
  then show "no_submenu d" using d by simp
qed

lemma click_entry_ok:
  assumes m: "menu_ok m" and s: "\<not> mn_gone m" "po_shown (mn_popup m)" and r: "reaches i (mn_items m)"
  shows "menu_ok (click_entry i m)"
proof (cases "find_entry i (mn_items m)")
  case (Some e)
  show ?thesis
  proof (cases e)
    case (Leaf it)
    have "menu_ok (enter_item i (after_leaf it m))"
      unfolding enter_item_def using enter_after_leaf [OF m s] Some Leaf after_leaf_ok [OF m]
        ids_at_level [of "enter_entry (mn_page (after_leaf it m))" hide_entry i "mn_items (after_leaf it m)"]
      by (intro menu_ok_items) (simp_all add: ids_enter menu_ok_def)
    then show ?thesis using Some Leaf m click_leaf [of i m it] by (cases "it_disabled it") (simp_all add: enter_popup_ok click_entry_def)
  next
    case (Branch it p es)
    then show ?thesis using Some m enter_item_ok [OF m s(2) r] by (simp add: click_entry_def enter_popup_ok)
  qed (use Some m in \<open>simp add: click_entry_def\<close>)
qed (use m in \<open>simp add: click_entry_def\<close>)

lemma mouse_outside_ok: "menu_ok m \<Longrightarrow> menu_ok (mouse_outside m)"
proof -
  assume m: "menu_ok m"
  define m1 where "m1 = (if \<not> mn_inline m \<and> po_shown (mn_popup m) then hide_menu False m else m)"
  have "menu_ok m1" using m hide_menu_ok [OF m, of False] by (simp add: m1_def)
  moreover from this have "level_ok (po_shown (mn_popup m1)) (map hide_shown (mn_items m1))"
    by (intro level_ok_map) (auto simp: menu_ok_def intro: hide_shown_ok)
  moreover have "ids_in (map hide_shown (mn_items m1)) = ids_in (mn_items m1)" by (rule ids_map_same) (rule ids_hide_shown)
  ultimately show ?thesis unfolding mouse_outside_def m1_def [symmetric] Let_def by (intro menu_ok_items) (simp_all add: menu_ok_def)
qed

lemma menu_timer_ok: "menu_ok m \<Longrightarrow> menu_ok (menu_timer t m)"
  by (auto simp: menu_timer_def intro!: hide_menu_ok)

lemma destroy_menu_ok: "menu_ok m \<Longrightarrow> menu_ok (destroy_menu m)"
  by (simp add: destroy_menu_def menu_ok_def popup_ok_def level_ok_def one_submenu_def ids_in_Cons)

lemma put_disabled_id [simp]: "it_id (put_disabled d it) = it_id it"
  by (simp add: put_disabled_def split: option.split)

lemma live_step_ok:
  assumes "menu_ok m" "\<not> mn_gone m" "live_step m e = Some m'"
  shows "menu_ok m'"
  using assms
proof -
  have h: "menu_ok (hide_menu False m)" using assms(1) by (simp add: hide_menu_ok)
  note ok = h menu_timer_ok [OF assms(1)] show_menu_ok [OF assms(1)] destroy_menu_ok [OF assms(1)] leave_item_ok [OF assms(1)]
    mouse_outside_ok [OF assms(1)] remove_item_ok [OF assms(1)] change_menu_item_ok [OF assms(1)]
    menu_ok_frame(5) [THEN iffD2, OF assms(1)]
  show ?thesis
  proof (cases e)
    case (MouseEnter i)
    then show ?thesis using assms enter_item_ok [OF assms(1)] by (auto simp: live_step_def at_item_def split: if_splits)
  next
    case (ClickItem i)
    then show ?thesis using assms click_entry_ok [OF assms(1,2)] by (auto simp: live_step_def at_item_def split: if_splits)
  next
    case (AppendItem p n)
    then show ?thesis using assms append_item_ok [OF assms(1), of n p] by (auto simp: live_step_def split: if_splits)
  next
    case (EnterPopup outer)
    then show ?thesis using assms by (auto simp: live_step_def enter_popup_ok)
  next
    case (LeavePopup outer)
    then show ?thesis using assms by (auto simp: live_step_def enter_popup_ok)
  qed (use assms(3) in \<open>auto simp: live_step_def intro!: ok\<close>)
qed

lemma menu_step_ok: "menu_ok m \<Longrightarrow> menu_step m e = Some m' \<Longrightarrow> menu_ok m'"
  using live_step_ok [of m e m'] menu_timer_ok [of m] by (cases e) (simp_all add: menu_step_def split: if_splits, auto)

interpretation menu: partial_machine menu_step menu_ok
  by unfold_locales (rule menu_step_ok)

lemma markup_closed: "\<not> is_open (markup_entry k)"
  by (cases k) (simp_all add: new_popup_def split: option.split)

lemma markup_level: "(\<And>k. k \<in> set ms \<Longrightarrow> menu_entry_ok s (markup_entry k)) \<Longrightarrow> level_ok s (map markup_entry ms)"
  using markup_closed by (auto simp: level_ok_def one_submenu_def list_all_iff filter_empty_conv)

lemma markup_ok: "menu_entry_ok s (markup_entry k)"
proof (induction k arbitrary: s)
  case (MarkItem n sub)
  have "level_ok False (map markup_entry ms)" if "sub = Some ms" for ms
    by (rule markup_level) (use MarkItem.IH that in simp)
  then show ?case by (simp add: new_popup_def popup_ok_def split: option.split)
qed simp

lemma create_menu_ok: "distinct (ids_in (map markup_entry ms)) \<Longrightarrow> menu_ok (create_menu g inline unhover ms)"
  using markup_level [of ms inline] markup_ok by (simp add: menu_ok_def create_menu_def new_popup_def popup_ok_def)

text \<open>
  C30. In every session of a menu a submenu is open only inside an open one, at most one submenu of a
  popup is open, and popups have their shadows exactly while they are open.
\<close>

theorem menu_session:
  assumes "distinct (ids_in (map markup_entry ms))" and "run_events menu_step (create_menu g inline unhover ms) es = Some m"
  shows "menu_ok m"
  using menu.inv_run [OF create_menu_ok [OF assms(1)] assms(2)] .

text \<open>A menu with a submenu, as the witnesses use it\<close>

definition plain_new :: "nat \<Rightarrow> string \<Rightarrow> item_options" where
  "plain_new i s = \<lparr>ni_id = i, ni_separator = False, ni_text = s, ni_name = None, ni_href = None, ni_icon = None, ni_onclick = None,
     ni_handler = None, ni_disabled = False\<rparr>"

definition sample_page :: page_geometry where
  "sample_page = \<lparr>pg_width = 800, pg_height = 600, pg_scroll_left = 0, pg_scroll_top = 0, pg_popup = (\<lambda>_. (120, 50)),
     pg_item = (\<lambda>i. (10, 22 * int i, 120)), pg_anchor = (\<lambda>_. (10, 0, 60, 20))\<rparr>"

definition sample_markup :: "markup list" where
  "sample_markup = [MarkItem (plain_new 1 ''New'') None, MarkSeparator 2,
     MarkItem (plain_new 3 ''Save'') (Some [MarkItem (plain_new 4 ''PDF'') None, MarkItem (plain_new 5 ''Word'') None])]"

definition no_options :: show_options where
  "no_options = \<lparr>so_left = None, so_top = None, so_align_to = None, so_align_right = None\<rparr>"

definition sample_opened :: menu where
  "sample_opened = the (run_events menu_step (create_menu sample_page False True sample_markup) [ShowMenu no_options, MouseEnter 3])"

lemma sample_opened_run:
  "run_events menu_step (create_menu sample_page False True sample_markup) [ShowMenu no_options, MouseEnter 3] = Some sample_opened"
proof -
  have "\<not> Option.is_none (run_events menu_step (create_menu sample_page False True sample_markup) [ShowMenu no_options, MouseEnter 3])"
    by code_simp
  then show ?thesis unfolding sample_opened_def by (cases "run_events menu_step (create_menu sample_page False True sample_markup) [ShowMenu no_options, MouseEnter 3]") simp_all
qed

theorem menu_session_witness: "menu_ok sample_opened \<and> map is_open (mn_items sample_opened) = [False, False, True]"
proof -
  have "distinct (ids_in (map markup_entry sample_markup))" by code_simp
  from menu_session [OF this sample_opened_run] show ?thesis by (rule conjI) code_simp
qed

section \<open>Choosing an item\<close>

lemma closed_entry: "menu_entry_ok False e \<Longrightarrow> \<forall>d \<in> set (sub_entries e). \<not> is_open d"
  by (induction e) (auto simp: level_ok_def list_all_iff)

lemma closed_level: "level_ok False es \<Longrightarrow> \<forall>d \<in> set (entries_in es). \<not> is_open d"
  using closed_entry by (auto simp: level_ok_def list_all_iff entries_in_def)

text \<open>
  A click on an item without a submenu that is not disabled hides the menu with every submenu,
  follows the link of the item, if it has one, and reports the item, in this order.
\<close>

theorem choice_closes_menu:
  assumes "distinct (ids_in (map markup_entry ms))" and "run_events menu_step (create_menu g False unhover ms) es = Some m"
    and "find_entry i (mn_items m) = Some (Leaf it)" and "\<not> it_disabled it" and "menu_step m (ClickItem i) = Some m'"
  shows "\<not> po_shown (mn_popup m') \<and> (\<forall>d \<in> set (entries_in (mn_items m')). \<not> is_open d)
    \<and> mn_log m' = mn_log m @ [MenuHidden] @ (case it_href it of Some u \<Rightarrow> if u = '''' then [] else [WentTo u] | None \<Rightarrow> []) @ [MenuClicked i]"
proof -
  have "menu_step m e = Some m' \<Longrightarrow> mn_inline m' = mn_inline m" for m e m'
    by (cases e) (auto simp: menu_step_def live_step_def at_item_def menu_timer_def hide_menu_def Let_def mn_note_def show_menu_def
      enter_item_def leave_item_def click_entry_def enter_popup_def leave_popup_def mouse_outside_def change_menu_item_def append_item_def
      remove_item_def destroy_menu_def split: if_splits option.splits)
  then have "run_events menu_step m0 es = Some m \<Longrightarrow> mn_inline m = mn_inline m0" for m0
    by (induction es arbitrary: m0) (auto split: option.splits)
  from this [OF assms(2)] have i: "\<not> mn_inline m" by (simp add: create_menu_def)
  have s: "\<not> mn_gone m" "po_shown (mn_popup m)" and m': "m' = click_entry i m"
    using assms(5) by (auto simp: menu_step_def live_step_def at_item_def split: if_splits)
  have m: "menu_ok m" using menu.inv_run [OF create_menu_ok [OF assms(1)] assms(2)] .
  have l: "level_ok False (mn_items (enter_item i (after_leaf it m)))"
    using enter_after_leaf [OF m s assms(3)] by (simp add: enter_item_def)
  have e: "mn_items (enter_popup b x) = mn_items x" "mn_popup (enter_popup b x) = mn_popup x" "mn_log (enter_popup b x) = mn_log x" for b x
    by (simp_all add: enter_popup_def split: option.split)
  have c: "click_entry i m = mn_note (MenuClicked i) (enter_popup (level_has i (mn_items m)) (enter_item i (after_leaf it m)))"
    by (rule click_leaf [OF assms(3,4)])
  show ?thesis unfolding m' c using closed_level [OF l] i
    by (simp add: mn_note_def e) (simp add: enter_item_def after_leaf_frame [OF s] split: option.split)
qed

theorem choice_closes_menu_witness:
  "\<exists>m'. menu_step sample_opened (ClickItem 4) = Some m' \<and> \<not> po_shown (mn_popup m') \<and> mn_log m' = [MenuShown, MenuHidden, MenuClicked 4]"
proof -
  have d: "distinct (ids_in (map markup_entry sample_markup))" by code_simp
  have f: "find_entry 4 (mn_items sample_opened) = Some (Leaf (markup_item (plain_new 4 ''PDF'')))" by code_simp
  have a: "\<not> it_disabled (markup_item (plain_new 4 ''PDF''))" by code_simp
  have "\<not> Option.is_none (menu_step sample_opened (ClickItem 4))" by code_simp
  then obtain m' where m': "menu_step sample_opened (ClickItem 4) = Some m'" by (cases "menu_step sample_opened (ClickItem 4)") simp_all
  have "mn_log sample_opened = [MenuShown]" "it_href (markup_item (plain_new 4 ''PDF'')) = Some ''''" by code_simp+
  with choice_closes_menu [OF d sample_opened_run f a m'] m' show ?thesis by simp
qed

section \<open>Finding and placing\<close>

text \<open>\<open>findItem\<close> finds an item with the text if there is one.\<close>

definition found_in :: "string \<Rightarrow> entry list \<Rightarrow> menu_item \<Rightarrow> bool" where
  "found_in t ds it = (has_text t it \<and> (\<exists>d \<in> set ds. entry_item d = Some it))"

lemma fold_find:
  assumes "\<And>e a. e \<in> set es \<Longrightarrow> (find_below t e a = None \<longleftrightarrow> a = None \<and> (\<forall>it. \<not> found_in t (sub_entries e) it))
      \<and> (\<forall>it. find_below t e a = Some it \<longrightarrow> a = Some it \<or> found_in t (sub_entries e) it)"
  shows "(fold (find_below t) es a = None \<longleftrightarrow> a = None \<and> (\<forall>it. \<not> found_in t (entries_in es) it))
    \<and> (\<forall>it. fold (find_below t) es a = Some it \<longrightarrow> a = Some it \<or> found_in t (entries_in es) it)"
  using assms
proof (induction es arbitrary: a)
  case (Cons e es)
  have f: "found_in t (entries_in (e # es)) it = (found_in t (sub_entries e) it \<or> found_in t (entries_in es) it)" for it
    by (auto simp: found_in_def entries_in_def)
  have e: "find_below t e a = None \<longleftrightarrow> a = None \<and> (\<forall>it. \<not> found_in t (sub_entries e) it)"
    "\<forall>it. find_below t e a = Some it \<longrightarrow> a = Some it \<or> found_in t (sub_entries e) it" using Cons.prems [of e] by auto
  show ?case using Cons.IH [of "find_below t e a"] Cons.prems e unfolding f by simp metis
qed (simp add: found_in_def entries_in_def)

lemma find_below_spec:
  "(find_below t e a = None \<longleftrightarrow> a = None \<and> (\<forall>it. \<not> found_in t (sub_entries e) it))
    \<and> (\<forall>it. find_below t e a = Some it \<longrightarrow> a = Some it \<or> found_in t (sub_entries e) it)"
proof (induction e arbitrary: a)
  case (Branch it p es)
  have "found_in t (sub_entries (Branch it p es)) k = ((k = it \<and> has_text t it) \<or> found_in t (entries_in es) k)" for k
    by (auto simp: found_in_def entries_in_def)
  note f = this
  have "(fold (find_below t) es None = None \<longleftrightarrow> (\<forall>it. \<not> found_in t (entries_in es) it))
    \<and> (\<forall>it. fold (find_below t) es None = Some it \<longrightarrow> found_in t (entries_in es) it)"
    using fold_find [of es t None] Branch.IH by simp
  then show ?case unfolding f by (cases "has_text t it"; cases a) auto
qed (auto simp: found_in_def)

lemma find_item_spec:
  "find_item t m = None \<longleftrightarrow> (\<forall>it. \<not> found_in t (entries_in (mn_items m)) it)"
  "find_item t m = Some it \<Longrightarrow> found_in t (entries_in (mn_items m)) it"
  using fold_find [of "mn_items m" t None] find_below_spec by (auto simp: find_item_def)

text \<open>A menu that is not aligned to an element and fits into the window is placed inside it.\<close>

lemma placed_inside:
  assumes "mn_align_to m = None" "place_menu m = (l, t)" "pg_popup (mn_page m) None = (w, h)"
    and "0 \<le> mn_left m" "0 \<le> mn_top m" "w + 5 \<le> pg_width (mn_page m)" "h \<le> pg_height (mn_page m)"
    and "0 \<le> pg_scroll_left (mn_page m)" "0 \<le> pg_scroll_top (mn_page m)"
  shows "0 \<le> l \<and> l + w \<le> pg_width (mn_page m) + pg_scroll_left (mn_page m) \<and> 0 \<le> t \<and> t + h \<le> pg_height (mn_page m) + pg_scroll_top (mn_page m)"
  using assms by (auto simp: place_menu_def place_top_def Let_def split: if_splits)

section \<open>Where the code goes astray\<close>

text \<open>A chosen item is marked active again after the menu has been hidden, and still is when the menu is next shown.\<close>

lemma chosen_stays_active:
  "case run_events menu_step (create_menu sample_page False True sample_markup) [ShowMenu no_options, MouseEnter 1, ClickItem 1] of
     Some m \<Rightarrow> \<not> po_shown (mn_popup m) \<and> map_option it_active (entry_item (hd (mn_items m))) = Some True
   | None \<Rightarrow> False"
  by code_simp

text \<open>If the menu is left twice (a menu button sends it such an event) the first timer is lost: entering the menu again does not stop it.\<close>

lemma left_twice_hides:
  assumes "\<not> mn_inline m" "mn_hide_on_unhover m" "\<not> mn_gone m" "po_shown (mn_popup m)" "mn_next_timer m \<notin> set (mn_pending m)"
  shows "\<not> po_shown (mn_popup (menu_timer (mn_next_timer m) (enter_popup True (leave_popup True (leave_popup True m)))))"
  using assms by (simp add: enter_popup_def leave_popup_def menu_timer_def hide_menu_def Let_def hide_popup_def mn_note_def)

end
