(* ===== verification/MenuButtons.thy ===== *)
theory MenuButtons
  imports Menu
begin

text \<open>
  \<open>plugins/jquery.menubutton.js\<close>: buttons that open menus when they are clicked or the mouse rests on
  them. A page has a list of buttons and a list of menus; a button shows that its menu is open by
  hooks it puts into the menu. The menus of buttons are not inline and are opened by buttons only.
\<close>

section \<open>Buttons and hooks\<close>

record menu_button =
  mb_menu :: "nat option"
  mb_disabled :: bool
  mb_align_right :: bool
  mb_active :: bool
  mb_timer :: "nat option"
  mb_pending :: "nat list"
  mb_next_timer :: nat

record menu_page =
  mp_buttons :: "menu_button list"
  mp_menus :: "menu list"

definition change_mbutton :: "nat \<Rightarrow> (menu_button \<Rightarrow> menu_button) \<Rightarrow> menu_page \<Rightarrow> menu_page" where
  "change_mbutton b f P = P\<lparr>mp_buttons := map_at b f (mp_buttons P)\<rparr>"

text \<open>The hooks of \<open>_1\<close>: \<open>onShow\<close> marks the button the menu is aligned to, \<open>onHide\<close> unmarks it\<close>

fun menu_hook :: "nat option \<Rightarrow> menu_note \<Rightarrow> menu_page \<Rightarrow> menu_page" where
  "menu_hook (Some b) MenuShown P = change_mbutton b (\<lambda>x. x\<lparr>mb_active := True\<rparr>) P"
| "menu_hook (Some b) MenuHidden P = change_mbutton b (\<lambda>x. x\<lparr>mb_active := False\<rparr>) P"
| "menu_hook a n P = P"

definition run_menu :: "nat \<Rightarrow> menu \<Rightarrow> menu_page \<Rightarrow> menu_page" where
  "run_menu k m' P =
     fold (menu_hook (mn_align_to m')) (drop (length (mn_log (mp_menus P ! k))) (mn_log m')) (P\<lparr>mp_menus := (mp_menus P)[k := m']\<rparr>)"

definition hide_all :: "menu_page \<Rightarrow> menu_page" where
  "hide_all P = fold (\<lambda>k Q. run_menu k (hide_menu False (mp_menus Q ! k)) Q) [0..<length (mp_menus P)] P"

text \<open>\<open>_14\<close>\<close>

definition open_button :: "nat \<Rightarrow> menu_page \<Rightarrow> menu_page" where
  "open_button b P =
     (let x = mp_buttons P ! b
      in case mb_menu x of
           None \<Rightarrow> P
         | Some k \<Rightarrow>
             if mb_disabled x then P
             else let Q = hide_all P
                  in if length (mp_menus Q) \<le> k then Q
                     else let m = (mp_menus Q ! k)\<lparr>mn_align_to := Some b\<rparr>;
                              ops = \<lparr>so_left = None, so_top = None, so_align_to = Some b, so_align_right = Some (mb_align_right x)\<rparr>
                          in run_menu k (show_menu ops m) Q)"

section \<open>Events\<close>

text \<open>\<open>_f\<close>\<close>

definition enter_button :: "menu_button \<Rightarrow> menu_button" where
  "enter_button x =
     (if mb_disabled x then x
      else x\<lparr>mb_timer := Some (mb_next_timer x), mb_pending := mb_pending x @ [mb_next_timer x], mb_next_timer := mb_next_timer x + 1\<rparr>)"

definition leave_button :: "menu_button \<Rightarrow> menu_button" where
  "leave_button x = (case mb_timer x of None \<Rightarrow> x | Some t \<Rightarrow> x\<lparr>mb_pending := filter (\<lambda>u. u \<noteq> t) (mb_pending x)\<rparr>)"

datatype page_event =
    ClickButton nat | EnterButton nat | LeaveButton nat | ButtonTimer nat nat | DisableButton nat bool
  | InMenu nat menu_event | MouseDownOutside

fun by_user :: "menu_event \<Rightarrow> bool" where
  "by_user (ShowMenu ops) = False"
| "by_user DestroyMenu = False"
| "by_user e = True"

definition page_step :: "menu_page \<Rightarrow> page_event \<Rightarrow> menu_page option" where
  "page_step P e =
     (case e of
        ClickButton b \<Rightarrow> if b < length (mp_buttons P) then Some (open_button b P) else None
      | EnterButton b \<Rightarrow> Some (change_mbutton b enter_button P)
      | LeaveButton b \<Rightarrow>
          if b < length (mp_buttons P)
          then let Q = change_mbutton b leave_button P
               in case mb_menu (mp_buttons P ! b) of
                    None \<Rightarrow> Some Q
                  | Some k \<Rightarrow> Some (if k < length (mp_menus Q) then run_menu k (leave_popup True (mp_menus Q ! k)) Q else Q)
          else None
      | ButtonTimer b t \<Rightarrow>
          if b < length (mp_buttons P) \<and> t \<in> set (mb_pending (mp_buttons P ! b))
          then Some (open_button b (change_mbutton b (\<lambda>x. x\<lparr>mb_pending := filter (\<lambda>u. u \<noteq> t) (mb_pending x)\<rparr>) P)) else None
      | DisableButton b d \<Rightarrow> Some (change_mbutton b (\<lambda>x. x\<lparr>mb_disabled := d\<rparr>) P)
      | InMenu k me \<Rightarrow>
          if k < length (mp_menus P) \<and> by_user me then map_option (\<lambda>m. run_menu k m P) (menu_step (mp_menus P ! k) me) else None
      | MouseDownOutside \<Rightarrow> Some (fold (\<lambda>k Q. run_menu k (mouse_outside (mp_menus Q ! k)) Q) [0..<length (mp_menus P)] P))"

section \<open>One menu at a time\<close>

text \<open>A step that opens nothing: it leaves the menu open or reports that it is hidden.\<close>

definition closing :: "menu \<Rightarrow> menu \<Rightarrow> bool" where
  "closing m m' = (mn_align_to m' = mn_align_to m \<and> mn_inline m' = mn_inline m \<and> mn_gone m' = mn_gone m
     \<and> (\<exists>ns. mn_log m' = mn_log m @ ns \<and> MenuShown \<notin> set ns \<and> (MenuHidden \<in> set ns \<longrightarrow> po_shown (mn_popup m))
          \<and> po_shown (mn_popup m') = (po_shown (mn_popup m) \<and> MenuHidden \<notin> set ns)))"

definition shown_at :: "menu_page \<Rightarrow> nat \<Rightarrow> bool" where
  "shown_at P k = (k < length (mp_menus P) \<and> po_shown (mn_popup (mp_menus P ! k)))"

definition page_ok :: "menu_page \<Rightarrow> bool" where
  "page_ok P = (list_all (\<lambda>m. \<not> mn_inline m \<and> \<not> mn_gone m) (mp_menus P)
     \<and> (\<forall>k j. shown_at P k \<longrightarrow> shown_at P j \<longrightarrow> k = j)
     \<and> (\<forall>b < length (mp_buttons P). mb_active (mp_buttons P ! b) \<longleftrightarrow> (\<exists>k. shown_at P k \<and> mn_align_to (mp_menus P ! k) = Some b)))"

lemma closing_refl [simp]: "closing m m"
  by (simp add: closing_def)

lemma closing_same:
  "mn_align_to m' = mn_align_to m \<Longrightarrow> mn_inline m' = mn_inline m \<Longrightarrow> mn_gone m' = mn_gone m \<Longrightarrow> mn_log m' = mn_log m \<Longrightarrow> mn_popup m' = mn_popup m \<Longrightarrow> closing m m'"
  by (simp add: closing_def)

lemma hide_closing: "\<not> mn_inline m \<Longrightarrow> closing m (hide_menu False m)"
  by (auto simp: closing_def hide_menu_def Let_def mn_note_def hide_popup_def)

lemma click_closing:
  assumes "\<not> mn_inline m" "\<not> mn_gone m" "po_shown (mn_popup m)"
  shows "closing m (click_entry i m)"
proof (cases "find_entry i (mn_items m)")
  case (Some e)
  have k: "mn_align_to (enter_popup b x) = mn_align_to x" "mn_inline (enter_popup b x) = mn_inline x" "mn_gone (enter_popup b x) = mn_gone x" "mn_log (enter_popup b x) = mn_log x"
    "mn_popup (enter_popup b x) = mn_popup x" for b x
    by (simp_all add: enter_popup_def split: option.split)
  show ?thesis
  proof (cases e)
    case (Leaf it)
    have "mn_align_to (after_leaf it m) = mn_align_to m" "mn_gone (after_leaf it m) = mn_gone m"
      by (simp_all add: after_leaf_def hide_menu_def Let_def mn_note_def split: option.split)
    with Leaf Some assms show ?thesis using click_leaf [of i m it] after_leaf_frame [OF assms(2,3), of it]
      by (cases "it_disabled it") (simp_all add: click_entry_def closing_def mn_note_def k enter_item_def hide_popup_def split: option.split)
  next
    case (Branch it p es)
    with Some assms show ?thesis by (simp add: click_entry_def closing_def mn_note_def k enter_item_def)
  qed (use Some in \<open>simp add: click_entry_def\<close>)
qed (simp add: click_entry_def)

lemma outside_closing: "\<not> mn_inline m \<Longrightarrow> closing m (mouse_outside m)"
proof -
  have "closing m x \<Longrightarrow> closing m (x\<lparr>mn_items := es\<rparr>)" for x es by (simp add: closing_def)
  then show "\<not> mn_inline m \<Longrightarrow> closing m (mouse_outside m)" using hide_closing [of m] by (simp add: mouse_outside_def Let_def)
qed

lemma closing_menu_step:
  assumes "by_user e" "\<not> mn_inline m" "menu_step m e = Some m'"
  shows "closing m m'"
proof (cases "\<exists>t. e = MenuTimer t")
  case True
  then obtain t where t: "m' = menu_timer t m" using assms(3) by (auto simp: menu_step_def)
  have "closing (m\<lparr>mn_pending := ps\<rparr>) x = closing m x" for ps x by (simp add: closing_def)
  then show ?thesis using hide_closing [of "m\<lparr>mn_pending := filter (\<lambda>u. u \<noteq> t) (mn_pending m)\<rparr>"] assms(2)
    by (auto simp: t menu_timer_def)
next
  case False
  then have g: "\<not> mn_gone m" and l: "live_step m e = Some m'" using assms(3) by (cases e; simp add: menu_step_def split: if_splits)+
  show ?thesis
  proof (cases e)
    case (ClickItem i)
    then show ?thesis using l g assms(2) click_closing by (auto simp: live_step_def at_item_def split: if_splits)
  next
    case HideMenu
    then show ?thesis using l assms(2) hide_closing by (auto simp: live_step_def)
  next
    case MouseOutside
    then show ?thesis using l assms(2) outside_closing by (auto simp: live_step_def)
  qed (use l assms(1) in \<open>auto simp: live_step_def at_item_def enter_item_def leave_item_def enter_popup_def leave_popup_def change_menu_item_def
      append_item_def remove_item_def intro!: closing_same split: if_splits option.splits\<close>)
qed

subsection \<open>Hooks\<close>

lemma hook_frame: "mp_menus (menu_hook a n P) = mp_menus P \<and> length (mp_buttons (menu_hook a n P)) = length (mp_buttons P)"
  by (cases a; cases n) (simp_all add: change_mbutton_def)

lemma hooks_frames: "mp_menus (fold (menu_hook a) ns P) = mp_menus P \<and> length (mp_buttons (fold (menu_hook a) ns P)) = length (mp_buttons P)"
  by (induction ns arbitrary: P) (simp_all add: hook_frame)

lemmas hooks_frame [simp] = hooks_frames [THEN conjunct1] hooks_frames [THEN conjunct2]

lemma hooks_closing:
  assumes "MenuShown \<notin> set ns" "b < length (mp_buttons P)"
  shows "mb_active (mp_buttons (fold (menu_hook a) ns P) ! b) = (mb_active (mp_buttons P ! b) \<and> \<not> (MenuHidden \<in> set ns \<and> a = Some b))"
  using assms
proof (induction ns arbitrary: P)
  case (Cons n ns)
  have l: "length (mp_buttons (menu_hook a n P)) = length (mp_buttons P)" by (simp add: hook_frame)
  have "mb_active (mp_buttons (menu_hook a n P) ! b) = (mb_active (mp_buttons P ! b) \<and> \<not> (n = MenuHidden \<and> a = Some b))"
    using Cons.prems by (cases a; cases n) (auto simp: change_mbutton_def nth_map_at)
  with Cons.IH [of "menu_hook a n P"] Cons.prems l show ?case by auto
qed simp

lemma run_menu_frame [simp]:
  "length (mp_buttons (run_menu k m' P)) = length (mp_buttons P)" "mp_menus (run_menu k m' P) = (mp_menus P)[k := m']"
  by (simp_all add: run_menu_def)

lemma run_closing_active:
  assumes "closing (mp_menus P ! k) m'" "b < length (mp_buttons P)"
  shows "mb_active (mp_buttons (run_menu k m' P) ! b) = (mb_active (mp_buttons P ! b) \<and>
    \<not> (po_shown (mn_popup (mp_menus P ! k)) \<and> \<not> po_shown (mn_popup m') \<and> mn_align_to m' = Some b))"
proof -
  obtain ns where ns: "mn_log m' = mn_log (mp_menus P ! k) @ ns" "MenuShown \<notin> set ns" "MenuHidden \<in> set ns \<longrightarrow> po_shown (mn_popup (mp_menus P ! k))"
      "po_shown (mn_popup m') = (po_shown (mn_popup (mp_menus P ! k)) \<and> MenuHidden \<notin> set ns)"
    using assms(1) by (auto simp: closing_def)
  have "b < length (mp_buttons (P\<lparr>mp_menus := (mp_menus P)[k := m']\<rparr>))" using assms(2) by simp
  from hooks_closing [OF ns(2) this, of "mn_align_to m'"] show ?thesis using ns by (auto simp: run_menu_def)
qed

lemma page_okD:
  assumes "page_ok P"
  shows "k < length (mp_menus P) \<Longrightarrow> \<not> mn_inline (mp_menus P ! k) \<and> \<not> mn_gone (mp_menus P ! k)" "shown_at P k \<Longrightarrow> shown_at P j \<Longrightarrow> k = j"
    "b < length (mp_buttons P) \<Longrightarrow> mb_active (mp_buttons P ! b) = (\<exists>k. shown_at P k \<and> mn_align_to (mp_menus P ! k) = Some b)"
  using assms unfolding page_ok_def list_all_length by blast+

lemma page_okI:
  assumes "\<And>k. k < length (mp_menus P) \<Longrightarrow> \<not> mn_inline (mp_menus P ! k) \<and> \<not> mn_gone (mp_menus P ! k)" "\<And>k j. shown_at P k \<Longrightarrow> shown_at P j \<Longrightarrow> k = j"
    "\<And>b. b < length (mp_buttons P) \<Longrightarrow> mb_active (mp_buttons P ! b) = (\<exists>k. shown_at P k \<and> mn_align_to (mp_menus P ! k) = Some b)"
  shows "page_ok P"
  using assms unfolding page_ok_def list_all_length by blast

lemma shown_run:
  "shown_at (run_menu k m' P) j = (if j = k then k < length (mp_menus P) \<and> po_shown (mn_popup m') else shown_at P j)"
  by (auto simp: shown_at_def nth_list_update)

lemma run_closing_ok:
  assumes P: "page_ok P" and k: "k < length (mp_menus P)" and c: "closing (mp_menus P ! k) m'"
  shows "page_ok (run_menu k m' P)"
proof (rule page_okI)
  have s: "po_shown (mn_popup m') \<Longrightarrow> shown_at P k" "mn_align_to m' = mn_align_to (mp_menus P ! k)" "mn_inline m' = mn_inline (mp_menus P ! k)"
      "mn_gone m' = mn_gone (mp_menus P ! k)"
    using c k by (auto simp: closing_def shown_at_def)
  note ok = page_okD [OF P]
  show "\<not> mn_inline (mp_menus (run_menu k m' P) ! j) \<and> \<not> mn_gone (mp_menus (run_menu k m' P) ! j)" if "j < length (mp_menus (run_menu k m' P))" for j
    using that s ok(1) by (cases "j = k") simp_all
  show "i = j" if "shown_at (run_menu k m' P) i" "shown_at (run_menu k m' P) j" for i j
    using that s(1) ok(2) by (auto simp: shown_run split: if_splits)
  show "mb_active (mp_buttons (run_menu k m' P) ! b) = (\<exists>j. shown_at (run_menu k m' P) j \<and> mn_align_to (mp_menus (run_menu k m' P) ! j) = Some b)"
    if "b < length (mp_buttons (run_menu k m' P))" for b
  proof -
    have b: "b < length (mp_buttons P)" using that by simp
    have a: "mn_align_to (mp_menus (run_menu k m' P) ! j) = mn_align_to (mp_menus P ! j)" for j
      using s(2) k by (cases "j = k") simp_all
    have r: "po_shown (mn_popup (mp_menus P ! k)) = shown_at P k" using k by (simp add: shown_at_def)
    show ?thesis
    proof (cases "shown_at P k")
      case True
      then have o: "shown_at P j \<longleftrightarrow> j = k" for j using ok(2) by blast
      have "shown_at (run_menu k m' P) j \<longleftrightarrow> j = k \<and> po_shown (mn_popup m')" for j using o k by (simp add: shown_run)
      then show ?thesis unfolding run_closing_active [OF c b] ok(3) [OF b] a r using o s(2) by auto
    next
      case False
      then have "shown_at (run_menu k m' P) j = shown_at P j" for j using s(1) by (auto simp: shown_run)
      then show ?thesis unfolding run_closing_active [OF c b] ok(3) [OF b] a r using False by simp
    qed
  qed
qed

text \<open>Every menu takes a step that opens nothing\<close>

lemma run_each_ok:
  assumes "\<And>m. \<not> mn_inline m \<Longrightarrow> closing m (f m)"
  shows "page_ok P \<Longrightarrow> \<forall>k \<in> set ks. k < length (mp_menus P) \<Longrightarrow>
    page_ok (fold (\<lambda>k Q. run_menu k (f (mp_menus Q ! k)) Q) ks P)"
proof (induction ks arbitrary: P)
  case (Cons k ks)
  then have "page_ok (run_menu k (f (mp_menus P ! k)) P)" using page_okD(1) [of P k] assms by (intro run_closing_ok) auto
  with Cons show ?case by simp
qed simp

lemma hide_each:
  "page_ok P \<Longrightarrow> \<forall>k \<in> set ks. k < length (mp_menus P) \<Longrightarrow>
    (\<forall>j. shown_at (fold (\<lambda>k Q. run_menu k (hide_menu False (mp_menus Q ! k)) Q) ks P) j \<longrightarrow> shown_at P j \<and> j \<notin> set ks)"
proof (induction ks arbitrary: P)
  case (Cons k ks)
  let ?Q = "run_menu k (hide_menu False (mp_menus P ! k)) P"
  have k: "\<not> mn_inline (mp_menus P ! k)" "\<not> mn_gone (mp_menus P ! k)" using page_okD(1) [of P k] Cons.prems by auto
  have "page_ok ?Q" using Cons.prems hide_closing [OF k(1)] by (intro run_closing_ok) auto
  then have ih: "shown_at (fold (\<lambda>k Q. run_menu k (hide_menu False (mp_menus Q ! k)) Q) ks ?Q) j \<Longrightarrow> shown_at ?Q j \<and> j \<notin> set ks" for j
    using Cons.IH [of ?Q] Cons.prems(2) by simp
  have q: "shown_at ?Q j \<longrightarrow> shown_at P j \<and> j \<noteq> k" for j
    using k by (simp add: shown_run hide_menu_def Let_def mn_note_def hide_popup_def)
  show ?case unfolding fold_simps(2)
  proof (intro allI impI)
    fix j assume "shown_at (fold (\<lambda>k Q. run_menu k (hide_menu False (mp_menus Q ! k)) Q) ks ?Q) j"
    from ih [OF this] q [of j] show "shown_at P j \<and> j \<notin> set (k # ks)" by simp
  qed
qed simp

lemma each_frame:
  "length (mp_menus (fold (\<lambda>k Q. run_menu k (f (mp_menus Q ! k)) Q) ks P)) = length (mp_menus P)"
  "length (mp_buttons (fold (\<lambda>k Q. run_menu k (f (mp_menus Q ! k)) Q) ks P)) = length (mp_buttons P)"
  by (induction ks arbitrary: P) simp_all

lemma hide_all_ok:
  assumes "page_ok P"
  shows "page_ok (hide_all P)" "\<not> shown_at (hide_all P) j" "length (mp_menus (hide_all P)) = length (mp_menus P)"
    "length (mp_buttons (hide_all P)) = length (mp_buttons P)"
  using run_each_ok [of "hide_menu False" P "[0..<length (mp_menus P)]"] hide_each [of P "[0..<length (mp_menus P)]"] assms hide_closing each_frame
  by (auto simp: hide_all_def) (auto simp: shown_at_def)

text \<open>Opening a menu when none is shown\<close>

lemma show_alone_ok:
  assumes P: "page_ok P" and n: "\<And>j. \<not> shown_at P j" and k: "k < length (mp_menus P)" and b: "b < length (mp_buttons P)"
    and a: "so_align_to ops = Some b"
  shows "page_ok (run_menu k (show_menu ops ((mp_menus P ! k)\<lparr>mn_align_to := Some b\<rparr>)) P)" (is "page_ok (run_menu k ?m P)")
proof (rule page_okI)
  have m: "mn_align_to ?m = Some b" "po_shown (mn_popup ?m)" "mn_inline ?m = mn_inline (mp_menus P ! k)" "mn_gone ?m = mn_gone (mp_menus P ! k)"
    and l: "mn_log ?m = mn_log (mp_menus P ! k) @ [MenuShown]"
    using a by (simp_all add: show_menu_def Let_def mn_note_def show_popup_def)
  have s: "shown_at (run_menu k ?m P) j \<longleftrightarrow> j = k" for j using n k m(2) by (simp add: shown_run)
  show "\<not> mn_inline (mp_menus (run_menu k ?m P) ! j) \<and> \<not> mn_gone (mp_menus (run_menu k ?m P) ! j)" if "j < length (mp_menus (run_menu k ?m P))" for j
    using that m page_okD(1) [OF P] by (cases "j = k") simp_all
  show "i = j" if "shown_at (run_menu k ?m P) i" "shown_at (run_menu k ?m P) j" for i j using that by (simp add: s)
  show "mb_active (mp_buttons (run_menu k ?m P) ! c) = (\<exists>j. shown_at (run_menu k ?m P) j \<and> mn_align_to (mp_menus (run_menu k ?m P) ! j) = Some c)"
    if "c < length (mp_buttons (run_menu k ?m P))" for c
    using that page_okD(3) [OF P, of c] n k b m(1)
    by (simp add: s) (simp add: run_menu_def l m(1) change_mbutton_def nth_map_at)
qed

lemma open_button_ok: "page_ok P \<Longrightarrow> b < length (mp_buttons P) \<Longrightarrow> page_ok (open_button b P)"
  using hide_all_ok [of P] show_alone_ok [of "hide_all P"]
  by (simp add: open_button_def Let_def split: option.split)

lemma change_mbutton_ok:
  assumes "page_ok P" "\<And>x. mb_active (f x) = mb_active x"
  shows "page_ok (change_mbutton b f P)"
proof (rule page_okI)
  have s: "shown_at (change_mbutton b f P) j = shown_at P j" for j by (simp add: shown_at_def change_mbutton_def)
  note ok = page_okD [OF assms(1)]
  show "j < length (mp_menus (change_mbutton b f P)) \<Longrightarrow> \<not> mn_inline (mp_menus (change_mbutton b f P) ! j) \<and> \<not> mn_gone (mp_menus (change_mbutton b f P) ! j)" for j
    using ok(1) by (simp add: change_mbutton_def)
  show "shown_at (change_mbutton b f P) i \<Longrightarrow> shown_at (change_mbutton b f P) j \<Longrightarrow> i = j" for i j using ok(2) by (simp add: s)
  show "c < length (mp_buttons (change_mbutton b f P)) \<Longrightarrow> mb_active (mp_buttons (change_mbutton b f P) ! c) =
      (\<exists>j. shown_at (change_mbutton b f P) j \<and> mn_align_to (mp_menus (change_mbutton b f P) ! j) = Some c)" for c
    using ok(3) [of c] assms(2) unfolding s by (simp add: change_mbutton_def nth_map_at)
qed

lemma page_step_ok:
  assumes "page_ok P" "page_step P e = Some Q"
  shows "page_ok Q"
proof (cases e)
  case (InMenu k me)
  then obtain m where "k < length (mp_menus P)" "by_user me" "menu_step (mp_menus P ! k) me = Some m" "Q = run_menu k m P"
    using assms(2) by (auto simp: page_step_def split: if_splits)
  then show ?thesis using run_closing_ok [OF assms(1)] closing_menu_step page_okD(1) [OF assms(1)] by auto
next
  case MouseDownOutside
  then show ?thesis using assms run_each_ok [OF outside_closing assms(1), of "[0..<length (mp_menus P)]"] by (auto simp: page_step_def)
next
  case (LeaveButton b)
  have c: "page_ok (change_mbutton b leave_button P)"
    by (rule change_mbutton_ok [OF assms(1)]) (simp add: leave_button_def split: option.split)
  have "closing m (leave_popup True m)" for m by (rule closing_same) (simp_all add: leave_popup_def)
  then show ?thesis using LeaveButton assms(2) c run_closing_ok [OF c]
    by (auto simp: page_step_def Let_def split: if_splits option.splits)
next
  case (ButtonTimer b t)
  have "page_ok (change_mbutton b (\<lambda>x. x\<lparr>mb_pending := filter (\<lambda>u. u \<noteq> t) (mb_pending x)\<rparr>) P)"
    by (rule change_mbutton_ok [OF assms(1)]) simp
  then show ?thesis using ButtonTimer assms(2) open_button_ok by (auto simp: page_step_def change_mbutton_def split: if_splits)
next
  case (EnterButton b)
  have "page_ok (change_mbutton b enter_button P)" by (rule change_mbutton_ok [OF assms(1)]) (simp add: enter_button_def)
  then show ?thesis using EnterButton assms(2) by (simp add: page_step_def)
next
  case (DisableButton b d)
  have "page_ok (change_mbutton b (\<lambda>x. x\<lparr>mb_disabled := d\<rparr>) P)" by (rule change_mbutton_ok [OF assms(1)]) simp
  then show ?thesis using DisableButton assms(2) by (simp add: page_step_def)
next
  case (ClickButton b)
  then show ?thesis using assms open_button_ok by (auto simp: page_step_def split: if_splits)
qed

interpretation menu_page: partial_machine page_step page_ok
  by unfold_locales (rule page_step_ok)

definition fresh_page :: "menu_page \<Rightarrow> bool" where
  "fresh_page P = (list_all (\<lambda>m. \<not> mn_inline m \<and> \<not> mn_gone m \<and> \<not> po_shown (mn_popup m)) (mp_menus P)
     \<and> list_all (\<lambda>x. \<not> mb_active x) (mp_buttons P))"

lemma fresh_page_ok: "fresh_page P \<Longrightarrow> page_ok P"
  by (intro page_okI) (auto simp: fresh_page_def shown_at_def list_all_length)

text \<open>
  C31. However the buttons and menus of a page are used, at most one of the menus is open, and a
  button is marked active exactly if the open menu is aligned to it.
\<close>

theorem one_menu_open:
  assumes "fresh_page P" and "run_events page_step P es = Some Q"
  shows "(\<forall>k j. shown_at Q k \<longrightarrow> shown_at Q j \<longrightarrow> k = j)
    \<and> (\<forall>b < length (mp_buttons Q). mb_active (mp_buttons Q ! b) \<longleftrightarrow> (\<exists>k. shown_at Q k \<and> mn_align_to (mp_menus Q ! k) = Some b))"
  using menu_page.inv_run [OF fresh_page_ok [OF assms(1)] assms(2)] unfolding page_ok_def by blast

definition plain_button :: "nat \<Rightarrow> menu_button" where
  "plain_button k = \<lparr>mb_menu = Some k, mb_disabled = False, mb_align_right = False, mb_active = False, mb_timer = None, mb_pending = [], mb_next_timer = 0\<rparr>"

definition two_menus :: menu_page where
  "two_menus = \<lparr>mp_buttons = [plain_button 0, plain_button 1],
     mp_menus = [create_menu sample_page False True sample_markup, create_menu sample_page False True []]\<rparr>"

definition opened_twice :: menu_page where
  "opened_twice = the (run_events page_step two_menus [ClickButton 0, InMenu 0 (MouseEnter 3), EnterButton 1, ButtonTimer 1 0])"

theorem one_menu_open_witness:
  "map mb_active (mp_buttons opened_twice) = [False, True] \<and> shown_at opened_twice 1 \<and> \<not> shown_at opened_twice 0"
proof -
  have f: "fresh_page two_menus" by code_simp
  have "\<not> Option.is_none (run_events page_step two_menus [ClickButton 0, InMenu 0 (MouseEnter 3), EnterButton 1, ButtonTimer 1 0])" by code_simp
  then have r: "run_events page_step two_menus [ClickButton 0, InMenu 0 (MouseEnter 3), EnterButton 1, ButtonTimer 1 0] = Some opened_twice"
    unfolding opened_twice_def by (cases "run_events page_step two_menus [ClickButton 0, InMenu 0 (MouseEnter 3), EnterButton 1, ButtonTimer 1 0]") simp_all
  have "map mb_active (mp_buttons opened_twice) = [False, True]" "shown_at opened_twice 1" by code_simp+
  with one_menu_open [OF f r] show ?thesis by (metis zero_neq_one)
qed

end
