(* ===== verification/TreeGrid.thy ===== *)
theory TreeGrid
  imports RoseTree Grid "HOL-Library.Multiset"
begin

text \<open>
  \<open>plugins/jquery.treegrid.js\<close>: a data grid whose rows form a tree. The row objects (\<open>tg_data\<close>) and
  the table rows (\<open>tg_dom\<close>) are two forests; a row object names its parent in \<open>_parentId\<close>, a table
  row is followed by another that holds the rows below it. Ids are strings, the empty one being
  false for the code. Row objects are looked up breadth first (\<open>_37\<close>), which finds the row
  \<open>find_tree\<close> finds if ids are distinct. Animation is off; selection, editing and the two halves of
  the table are those of the data grid.
\<close>

section \<open>State\<close>

datatype row_state = StateUnset | StateOpen | StateClosed

record trow =
  ro_id :: string
  ro_parent :: "string option"
  ro_cells :: grow
  ro_state :: row_state
  ro_icon :: string
  ro_branch :: bool

datatype row_hit = HitExpanded | HitCollapsed

record telem =
  te_id :: string
  te_indent :: nat
  te_hit :: "row_hit option"
  te_folder :: bool
  te_folder_open :: bool
  te_cells :: "string \<Rightarrow> string"
  te_number :: nat
  te_sub :: bool
  te_shown :: bool

datatype row_hook = HookExpand | HookCollapse | HookLoad

datatype grid_note = RowExpanded string | RowCollapsed string | RowsLoaded "string option" | LoadFailed

record row_request =
  rq_row :: "string option"
  rq_sent :: "string option"
  rq_append :: bool
  rq_expand :: bool

record treegrid =
  tg_data :: "trow forest"
  tg_dom :: "telem forest"
  tg_total :: "int option"
  tg_numbers :: bool
  tg_remote :: bool
  tg_loader :: bool
  tg_sort :: "(string \<times> bool) list"
  tg_format :: "string \<Rightarrow> trow \<Rightarrow> string"
  tg_allow :: "row_hook \<Rightarrow> string option \<Rightarrow> bool"
  tg_query :: "string option"
  tg_pending :: "row_request list"
  tg_log :: "grid_note list"

datatype tree_rows = Nested "trow forest" | Flat "trow list" "int option"

definition tg_note :: "grid_note \<Rightarrow> treegrid \<Rightarrow> treegrid" where
  "tg_note n t = t\<lparr>tg_log := tg_log t @ [n]\<rparr>"

definition by_row :: "string \<Rightarrow> trow \<Rightarrow> bool" where
  "by_row i r = (ro_id r = i)"

definition by_elem :: "string \<Rightarrow> telem \<Rightarrow> bool" where
  "by_elem i e = (te_id e = i)"

text \<open>A parent that is missing or empty is none (\<open>!row._parentId\<close>).\<close>

definition truthy :: "string option \<Rightarrow> string option" where
  "truthy p = (case p of Some s \<Rightarrow> if s = '''' then None else Some s | None \<Rightarrow> None)"

section \<open>Looking up\<close>

text \<open>\<open>_37\<close>: lists of rows wait in a queue\<close>

function find_breadth :: "(trow \<Rightarrow> bool) \<Rightarrow> trow forest list \<Rightarrow> trow rose option" where
  "find_breadth P [] = None"
| "find_breadth P (c # cc) =
     (case find (\<lambda>n. P (label n)) c of Some n \<Rightarrow> Some n | None \<Rightarrow> find_breadth P (cc @ map kids (filter (\<lambda>n. kids n \<noteq> []) c)))"
  by pat_completeness auto
termination
proof (relation "measure (\<lambda>(P, cc). length (flabels (concat cc)) + length cc)")
  fix P :: "trow \<Rightarrow> bool" and c :: "trow forest" and cc
  have "length (flabels (concat (map kids (filter (\<lambda>n. kids n \<noteq> []) c)))) + length (filter (\<lambda>n. kids n \<noteq> []) c) \<le> length (flabels c)"
  proof (induction c)
    case (Cons n c)
    then show ?case by (cases n) auto
  qed simp
  then show "((P, cc @ map kids (filter (\<lambda>n. kids n \<noteq> []) c)), P, c # cc) \<in> measure (\<lambda>(P, cc). length (flabels (concat cc)) + length cc)"
    by simp
qed simp

definition find_row :: "string \<Rightarrow> treegrid \<Rightarrow> trow rose option" where
  "find_row i t = find_tree (by_row i) (tg_data t)"

definition row_elem :: "string \<Rightarrow> treegrid \<Rightarrow> telem option" where
  "row_elem i t = map_option label (find_tree (by_elem i) (tg_dom t))"

text \<open>\<open>_4c\<close>, \<open>_1b\<close>, \<open>_59\<close>\<close>

definition parent_row :: "string \<Rightarrow> treegrid \<Rightarrow> string option" where
  "parent_row i t =
     Option.bind (find_row i t) (\<lambda>n. Option.bind (truthy (ro_parent (label n))) (\<lambda>p. map_option (ro_id \<circ> label) (find_row p t)))"

definition rows_below :: "string option \<Rightarrow> treegrid \<Rightarrow> trow list" where
  "rows_below o' t =
     (case o' of None \<Rightarrow> flabels (tg_data t) | Some i \<Rightarrow> (case find_row i t of None \<Rightarrow> [] | Some n \<Rightarrow> flabels (kids n)))"

definition level_of_elem :: "telem \<Rightarrow> nat" where
  "level_of_elem e = te_indent e + (if te_hit e = None then 0 else 1)"

definition level_of :: "string option \<Rightarrow> treegrid \<Rightarrow> nat" where
  "level_of o' t = (case Option.bind o' (\<lambda>i. row_elem i t) of None \<Rightarrow> 0 | Some e \<Rightarrow> level_of_elem e)"

section \<open>Rows that name their parents\<close>

text \<open>
  \<open>transfer\<close>: the rows whose parent is the given one are taken out; then, for one taken row after
  the other, those that name it as their parent. Rows that are never reached are dropped.
\<close>

definition add_kids :: "string \<Rightarrow> trow list \<Rightarrow> trow forest \<Rightarrow> trow forest" where
  "add_kids i rs ts =
     (if rs = [] then ts
      else relabel (by_row i) (\<lambda>r. r\<lparr>ro_branch := True\<rparr>) (map (change_kids (by_row i) (\<lambda>us. us @ map (\<lambda>r. Node r []) rs)) ts))"

function attach :: "string list \<Rightarrow> trow list \<Rightarrow> trow forest \<Rightarrow> trow forest" where
  "attach [] rows ts = ts"
| "attach (i # todo) rows ts =
     (let ms = filter (\<lambda>r. ro_parent r = Some i) rows
      in attach (todo @ map ro_id ms) (filter (\<lambda>r. ro_parent r \<noteq> Some i) rows) (add_kids i ms ts))"
  by pat_completeness auto
termination
proof (relation "measure (\<lambda>(todo, rows, ts). length todo + length rows)")
  fix i todo rows ts and ms :: "trow list"
  assume ms: "ms = filter (\<lambda>r. ro_parent r = Some i) rows"
  have "length ms + length (filter (\<lambda>r. ro_parent r \<noteq> Some i) rows) = length rows" unfolding ms by (induction rows) auto
  then show "((todo @ map ro_id ms, filter (\<lambda>r. ro_parent r \<noteq> Some i) rows, add_kids i ms ts), i # todo, rows, ts) \<in>
      measure (\<lambda>(todo, rows, ts). length todo + length rows)" by simp
qed simp

definition is_root_of :: "string option \<Rightarrow> trow \<Rightarrow> bool" where
  "is_root_of p r = (case truthy p of None \<Rightarrow> truthy (ro_parent r) = None | Some i \<Rightarrow> ro_parent r = Some i)"

definition transfer :: "string option \<Rightarrow> trow list \<Rightarrow> trow forest" where
  "transfer p rows =
     (let ms = filter (is_root_of p) rows
      in attach (map ro_id ms) (filter (\<lambda>r. \<not> is_root_of p r) rows) (map (\<lambda>r. Node r []) ms))"

section \<open>Sorting\<close>

text \<open>\<open>sort\<close> sorts a list of rows and the lists below them.\<close>

fun sort_below :: "(trow \<Rightarrow> trow \<Rightarrow> int) \<Rightarrow> trow rose \<Rightarrow> trow rose" where
  "sort_below c (Node r us) = Node r (js_sort (\<lambda>a b. c (label a) (label b)) (map (sort_below c) us))"

definition tree_cmp :: "treegrid \<Rightarrow> trow \<Rightarrow> trow \<Rightarrow> int" where
  "tree_cmp t a b = row_cmp (tg_sort t) (ro_cells a) (ro_cells b)"

definition sorts :: "treegrid \<Rightarrow> bool" where
  "sorts t = (\<not> tg_remote t \<and> tg_sort t \<noteq> [])"

section \<open>Rendering\<close>

text \<open>\<open>renderRow\<close>: the indents, the hit area and the icon of the tree field, and the cells\<close>

definition new_telem :: "treegrid \<Rightarrow> nat \<Rightarrow> trow \<Rightarrow> bool \<Rightarrow> telem" where
  "new_telem t lev r hasKids =
     (let closed = (ro_state r = StateClosed); leaf = (\<not> closed \<and> \<not> hasKids)
      in \<lparr>te_id = ro_id r, te_indent = lev + (if leaf then 1 else 0),
          te_hit = (if closed then Some HitCollapsed else if hasKids then Some HitExpanded else None),
          te_folder = \<not> leaf, te_folder_open = (\<not> closed \<and> hasKids), te_cells = (\<lambda>f. tg_format t f r), te_number = 0,
          te_sub = hasKids, te_shown = \<not> closed\<rparr>)"

text \<open>\<open>_c4\<close>: a row without a state is open\<close>

definition settle :: "trow \<Rightarrow> trow" where
  "settle r = (if ro_state r = StateUnset then r\<lparr>ro_state := StateOpen\<rparr> else r)"

fun render_tree_rows :: "treegrid \<Rightarrow> nat \<Rightarrow> trow forest \<Rightarrow> telem forest" where
  "render_tree_rows t lev [] = []"
| "render_tree_rows t lev (Node r us # ts) = Node (new_telem t lev r (us \<noteq> [])) (render_tree_rows t (lev + 1) us) # render_tree_rows t lev ts"

text \<open>\<open>_1f\<close>: the row numbers, in the order of the table\<close>

fun number_rows :: "nat \<Rightarrow> telem forest \<Rightarrow> telem forest \<times> nat" where
  "number_rows k [] = ([], k)"
| "number_rows k (Node e us # ts) =
     (let (us', k1) = number_rows (k + 1) us; (ts', k2) = number_rows k1 ts in (Node (e\<lparr>te_number := k\<rparr>) us' # ts', k2))"

definition renumber_rows :: "treegrid \<Rightarrow> treegrid" where
  "renumber_rows t = (if tg_numbers t then t\<lparr>tg_dom := fst (number_rows 1 (tg_dom t))\<rparr> else t)"

section \<open>What transfer builds\<close>

definition row_shape :: "trow forest \<Rightarrow> string forest" where
  "row_shape ts = map (map_rose ro_id) ts"

text \<open>The children of every node of a forest are the ones a function gives.\<close>

fun kids_are :: "('a \<Rightarrow> 'a list) \<Rightarrow> 'a forest \<Rightarrow> bool" where
  "kids_are K [] = True"
| "kids_are K (Node a us # ts) = (map label us = K a \<and> kids_are K us \<and> kids_are K ts)"

lemma kids_are_append [simp]: "kids_are K (ts @ us) = (kids_are K ts \<and> kids_are K us)"
  by (induction ts rule: forest_induct) auto

lemma kids_are_cong: "(\<And>x. x \<in> set (flabels ts) \<Longrightarrow> K x = L x) \<Longrightarrow> kids_are K ts = kids_are L ts"
  by (induction ts rule: forest_induct) auto

lemma kids_are_leaves: "(\<And>x. x \<in> set xs \<Longrightarrow> K x = []) \<Longrightarrow> kids_are K (map (\<lambda>x. Node x []) xs)"
  by (induction xs) auto

lemma kids_are_unique: "kids_are K ts \<Longrightarrow> kids_are K us \<Longrightarrow> map label ts = map label us \<Longrightarrow> ts = us"
proof (induction ts arbitrary: us rule: forest_induct)
  case (Node a vs ts)
  then obtain ws us' where us: "us = Node a ws # us'" by (cases us; cases "hd us") auto
  then show ?case using Node by auto
qed simp

lemma labels_leaves [simp]: "flabels (map (\<lambda>x. Node x []) xs) = xs" "map label (map (\<lambda>x. Node x []) xs) = xs"
  by (induction xs) auto

lemma label_at_key [simp]: "map label (at_key i g s) = map label s"
proof -
  have "label (change_kids P g n) = label n" for P n by (cases n) simp
  then show ?thesis by (simp add: at_key_def)
qed

lemma kids_are_at:
  assumes "kids_are F s" "distinct (flabels s)" "F i = []" "set xs \<inter> set (flabels s) = {}"
  shows "kids_are (\<lambda>x. if x = i then xs else if x \<in> set xs then [] else F x) (at_key i (\<lambda>us. us @ map (\<lambda>x. Node x []) xs) s)"
  using assms
proof (induction s rule: forest_induct)
  case (Node a us ts)
  let ?G = "\<lambda>x. if x = i then xs else if x \<in> set xs then [] else F x"
  have ih: "kids_are ?G (at_key i (\<lambda>us. us @ map (\<lambda>x. Node x []) xs) us)" "kids_are ?G (at_key i (\<lambda>us. us @ map (\<lambda>x. Node x []) xs) ts)"
    using Node by auto
  show ?case
  proof (cases "a = i")
    case True
    have "us = []" using Node.prems(1,3) True by (cases us) auto
    moreover have "kids_are ?G (map (\<lambda>x. Node x []) xs)" using Node.prems(4) True by (intro kids_are_leaves) auto
    ultimately show ?thesis using True ih(2) by (simp add: comp_def)
  next
    case False
    have "a \<notin> set xs" using Node.prems(4) by auto
    then show ?thesis using False ih Node.prems(1) by simp
  qed
qed simp

lemma flabels_at_key_leaves:
  "i \<in> set (flabels s) \<Longrightarrow> set (flabels (at_key i (\<lambda>us. us @ map (\<lambda>x. Node x []) xs) s)) = set (flabels s) \<union> set xs"
proof (induction s rule: forest_induct)
  case (Node a us ts)
  have n: "i \<notin> set (flabels vs) \<Longrightarrow> at_key i g vs = vs" for g vs by (rule at_key_absent)
  show ?case using Node n [of us] n [of ts] by (cases "i \<in> set (flabels us)"; cases "i \<in> set (flabels ts)") auto
qed simp

lemma change_kids_id [simp]: "change_kids P (\<lambda>us. us) n = n"
  by (induction n) (simp_all add: map_idI)

lemma add_kids_shape:
  "row_shape (add_kids i rs ts) = at_key i (\<lambda>us. us @ map (\<lambda>x. Node x []) (map ro_id rs)) (row_shape ts)"
proof -
  have "map (map_rose ro_id) (relabel (by_row i) (\<lambda>r. r\<lparr>ro_branch := True\<rparr>) us) = map (map_rose ro_id) us" for us
    by (rule map_rose_relabel) simp
  moreover have "map_rose ro_id (change_kids (by_row i) (\<lambda>us. us @ map (\<lambda>r. Node r []) rs) n)
      = change_kids (\<lambda>x. x = i) (\<lambda>us. us @ map (\<lambda>x. Node x []) (map ro_id rs)) (map_rose ro_id n)" for n
    by (rule map_rose_change_kids) (simp_all add: by_row_def)
  ultimately show ?thesis by (cases "rs = []") (simp_all add: add_kids_def row_shape_def at_key_def)
qed

text \<open>
  The loop: \<open>done\<close> are the ids whose children have been attached; the rows left are those that are
  neither roots nor children of one of these.
\<close>

definition attach_inv :: "string option \<Rightarrow> trow list \<Rightarrow> string list \<Rightarrow> trow list \<Rightarrow> string forest \<Rightarrow> bool" where
  "attach_inv p rows0 todo rows s =
     (let finished = set (flabels s) - set todo; K = (\<lambda>x. map ro_id (filter (\<lambda>r. ro_parent r = Some x) rows0))
      in kids_are (\<lambda>x. if x \<in> set todo then [] else K x) s \<and> distinct (flabels s) \<and> distinct todo \<and> set todo \<subseteq> set (flabels s)
         \<and> rows = filter (\<lambda>r. \<not> is_root_of p r \<and> ro_parent r \<notin> Some ` finished) rows0
         \<and> set (flabels s) \<subseteq> ro_id ` {r \<in> set rows0. is_root_of p r \<or> ro_parent r \<in> Some ` finished}
         \<and> map label s = map ro_id (filter (is_root_of p) rows0))"

lemma root_parent:
  assumes "is_root_of p r" "ro_parent r = Some i" "i \<in> ids" "'''' \<notin> ids" "\<And>q. truthy p = Some q \<Longrightarrow> q \<notin> ids"
  shows False
  using assms by (auto simp: is_root_of_def truthy_def split: option.splits if_splits)

lemma attach_step:
  assumes inv: "attach_inv p rows0 (i # todo) rows (row_shape ts)" and d: "distinct (map ro_id rows0)"
    and e: "'''' \<notin> ro_id ` set rows0" and q: "\<And>q. truthy p = Some q \<Longrightarrow> q \<notin> ro_id ` set rows0"
    and ms: "ms = filter (\<lambda>r. ro_parent r = Some i) rows"
  shows "attach_inv p rows0 (todo @ map ro_id ms) (filter (\<lambda>r. ro_parent r \<noteq> Some i) rows) (row_shape (add_kids i ms ts))"
proof -
  define s where "s = row_shape ts"
  define fin where "fin = set (flabels s) - set (i # todo)"
  define K where "K x = map ro_id (filter (\<lambda>r. ro_parent r = Some x) rows0)" for x
  have I: "kids_are (\<lambda>x. if x \<in> set (i # todo) then [] else K x) s" "distinct (flabels s)" "distinct (i # todo)"
      "set (i # todo) \<subseteq> set (flabels s)" "rows = filter (\<lambda>r. \<not> is_root_of p r \<and> ro_parent r \<notin> Some ` fin) rows0"
      "set (flabels s) \<subseteq> ro_id ` {r \<in> set rows0. is_root_of p r \<or> ro_parent r \<in> Some ` fin}"
      "map label s = map ro_id (filter (is_root_of p) rows0)"
    using inv unfolding attach_inv_def Let_def s_def [symmetric] fin_def [symmetric] K_def [symmetric] by blast+
  have i: "i \<in> set (flabels s)" "i \<notin> fin" using I(4) by (auto simp: fin_def)
  have ids: "set (flabels s) \<subseteq> ro_id ` set rows0" using I(6) by auto
  have "i \<in> ro_id ` set rows0" using i(1) ids by blast
  from root_parent [OF _ _ this e q] have "\<not> is_root_of p r" if "ro_parent r = Some i" for r using that by blast
  then have ms': "ms = filter (\<lambda>r. ro_parent r = Some i) rows0" unfolding ms I(5) filter_filter
    using i(2) by (intro filter_cong) auto
  let ?xs = "map ro_id ms"
  have sub: "set ms \<subseteq> set rows0" using ms' by auto
  have apart: "set ?xs \<inter> set (flabels s) = {}"
  proof -
    have False if r: "r \<in> set ms" "ro_id r \<in> set (flabels s)" for r
    proof -
      from r(2) I(6) obtain r' where r': "r' \<in> set rows0" "ro_id r' = ro_id r" "is_root_of p r' \<or> ro_parent r' \<in> Some ` fin" by auto
      then have "r' = r" using d sub r(1) by (auto simp: distinct_map dest: inj_onD)
      then show False using r(1) r'(3) unfolding ms I(5) by auto
    qed
    then show ?thesis by auto
  qed
  define s' where "s' = row_shape (add_kids i ms ts)"
  have s': "s' = at_key i (\<lambda>us. us @ map (\<lambda>x. Node x []) ?xs) s" by (simp add: s'_def s_def add_kids_shape)
  have fl: "set (flabels s') = set (flabels s) \<union> set ?xs" unfolding s' by (rule flabels_at_key_leaves [OF i(1)])
  have dx: "distinct ?xs" unfolding ms' using d by (simp add: distinct_map_filter)
  have fin': "set (flabels s') - set (todo @ ?xs) = insert i fin" unfolding fl using I(3) i apart by (auto simp: fin_def)
  have "kids_are (\<lambda>x. if x \<in> set (todo @ ?xs) then [] else K x) s'"
  proof -
    have "kids_are (\<lambda>x. if x = i then ?xs else if x \<in> set ?xs then [] else if x \<in> set (i # todo) then [] else K x) s'"
      unfolding s' by (rule kids_are_at [OF I(1,2) _ apart]) simp
    moreover have "?xs = K i" by (simp add: K_def ms')
    moreover have "i \<notin> set ?xs" "i \<notin> set todo" using apart i I(3) by auto
    ultimately show ?thesis by (subst kids_are_cong) (auto cong: if_cong)
  qed
  moreover have "distinct (flabels s')"
    unfolding s' by (rule at_key_distinct [OF I(2) apart, THEN conjunct1]) (use dx apart in \<open>auto simp del: map_map\<close>)
  moreover have "distinct (todo @ ?xs)" using I(3,4) dx apart by auto
  moreover have "set (todo @ ?xs) \<subseteq> set (flabels s')" unfolding fl using I(4) by auto
  moreover have "filter (\<lambda>r. ro_parent r \<noteq> Some i) rows = filter (\<lambda>r. \<not> is_root_of p r \<and> ro_parent r \<notin> Some ` insert i fin) rows0"
    unfolding I(5) filter_filter by (intro filter_cong) auto
  moreover have "set (flabels s') \<subseteq> ro_id ` {r \<in> set rows0. is_root_of p r \<or> ro_parent r \<in> Some ` insert i fin}"
    unfolding fl using I(6) ms' by auto
  moreover have "map label s' = map ro_id (filter (is_root_of p) rows0)" unfolding s' using I(7) by simp
  ultimately show ?thesis
    unfolding attach_inv_def Let_def s'_def [symmetric] fin' K_def by blast
qed

lemma attach_all:
  assumes "attach_inv p rows0 todo rows (row_shape ts)" and "distinct (map ro_id rows0)"
    and "'''' \<notin> ro_id ` set rows0" and "\<And>q. truthy p = Some q \<Longrightarrow> q \<notin> ro_id ` set rows0"
  shows "\<exists>rest. attach_inv p rows0 [] rest (row_shape (attach todo rows ts))"
  using assms
proof (induction todo rows ts rule: attach.induct)
  case (2 i todo rows ts)
  from attach_step [OF 2(2-5) refl] 2(1) [OF refl _ 2(3-5)] show ?case by (simp add: Let_def)
qed auto

lemma transfer_kids:
  assumes d: "distinct (map ro_id rows)" and e: "'''' \<notin> ro_id ` set rows" and q: "\<And>q. truthy p = Some q \<Longrightarrow> q \<notin> ro_id ` set rows"
  shows "kids_are (\<lambda>x. map ro_id (filter (\<lambda>r. ro_parent r = Some x) rows)) (row_shape (transfer p rows))"
    and "map label (row_shape (transfer p rows)) = map ro_id (filter (is_root_of p) rows)"
proof -
  let ?ms = "filter (is_root_of p) rows"
  have s: "row_shape (map (\<lambda>r. Node r []) ?ms) = map (\<lambda>x. Node x []) (map ro_id ?ms)" by (simp add: row_shape_def)
  have "attach_inv p rows (map ro_id ?ms) (filter (\<lambda>r. \<not> is_root_of p r) rows) (row_shape (map (\<lambda>r. Node r []) ?ms))"
    unfolding attach_inv_def Let_def s using d by (auto simp: distinct_map_filter intro: kids_are_leaves simp del: map_map)
  from attach_all [OF this d e q] obtain rest where "attach_inv p rows [] rest (row_shape (transfer p rows))"
    by (auto simp: transfer_def Let_def)
  then show "kids_are (\<lambda>x. map ro_id (filter (\<lambda>r. ro_parent r = Some x) rows)) (row_shape (transfer p rows))"
    "map label (row_shape (transfer p rows)) = map ro_id (filter (is_root_of p) rows)"
    by (simp_all add: attach_inv_def Let_def)
qed

text \<open>The rows of a forest name their parents.\<close>

fun named :: "string option \<Rightarrow> trow forest \<Rightarrow> bool" where
  "named p [] = True"
| "named p (Node r us # ts) = (is_root_of p r \<and> named (Some (ro_id r)) us \<and> named p ts)"

definition row_ids :: "trow forest \<Rightarrow> string list" where
  "row_ids ts = map ro_id (flabels ts)"

lemma row_ids_simps [simp]:
  "row_ids [] = []" "row_ids (Node r us # ts) = ro_id r # row_ids us @ row_ids ts" "row_ids (ts @ us) = row_ids ts @ row_ids us"
  by (simp_all add: row_ids_def)

lemma truthy_Some [simp]: "truthy (Some x) = (if x = '''' then None else Some x)" "truthy None = None"
  by (simp_all add: truthy_def)

lemma is_root_of_Some: "x \<noteq> '''' \<Longrightarrow> is_root_of (Some x) r = (ro_parent r = Some x)"
  by (simp add: is_root_of_def)

lemma named_parents:
  "named p ts \<Longrightarrow> '''' \<notin> set (row_ids ts) \<Longrightarrow> r \<in> set (flabels ts) \<Longrightarrow> is_root_of p r \<or> ro_parent r \<in> Some ` set (row_ids ts)"
proof (induction p ts rule: named.induct)
  case (2 p a us ts)
  have "is_root_of (Some (ro_id a)) r \<Longrightarrow> ro_parent r = Some (ro_id a)" using 2(4) by (auto simp: is_root_of_Some)
  with 2 show ?case by auto
qed simp

lemma roots_of_named:
  assumes "named p ts" "'''' \<notin> set (row_ids ts)" "\<And>q. truthy p = Some q \<Longrightarrow> q \<notin> set (row_ids ts)"
  shows "filter (is_root_of p) (flabels ts) = map label ts"
  using assms
proof (induction p ts rule: named.induct)
  case (2 p a us ts)
  have "\<not> is_root_of p r" if r: "r \<in> set (flabels us)" for r
  proof -
    have "is_root_of (Some (ro_id a)) r \<or> ro_parent r \<in> Some ` set (row_ids us)" using named_parents [of "Some (ro_id a)" us r] 2(3,4) r by simp
    then obtain x where x: "ro_parent r = Some x" "x = ro_id a \<or> x \<in> set (row_ids us)" using 2(4) by (auto simp: is_root_of_Some)
    then show ?thesis using 2(4) 2(5) root_parent [of p r x "set (row_ids (Node a us # ts))"] by auto
  qed
  then have "filter (is_root_of p) (flabels us) = []" by (simp add: filter_empty_conv)
  with 2 show ?case by simp
qed simp

lemma kids_of_named:
  assumes "named p ts" "'''' \<notin> set (row_ids ts)" "\<And>q. truthy p = Some q \<Longrightarrow> q \<notin> set (row_ids ts)" "distinct (row_ids ts)"
    and "\<And>x. x \<in> set (row_ids ts) \<Longrightarrow> filter (\<lambda>r. ro_parent r = Some x) L = filter (\<lambda>r. ro_parent r = Some x) (flabels ts)"
  shows "kids_are (\<lambda>x. map ro_id (filter (\<lambda>r. ro_parent r = Some x) L)) (row_shape ts)"
  using assms
proof (induction p ts rule: named.induct)
  case (2 p a us ts)
  have n: "filter (\<lambda>r. ro_parent r = Some x) (flabels vs) = []"
    if "named q vs" "'''' \<notin> set (row_ids vs)" "x \<notin> set (row_ids vs)" "\<And>r. is_root_of q r \<Longrightarrow> ro_parent r \<noteq> Some x" for q vs x
    using named_parents [of q vs] that unfolding filter_empty_conv by (metis imageE option.inject)
  have nr: "ro_parent r \<noteq> Some x" if "is_root_of p r" "x \<in> set (row_ids (Node a us # ts))" for r x
    using root_parent [of p r x "set (row_ids (Node a us # ts))"] that 2(4,5) by blast
  have d: "ro_id a \<notin> set (row_ids us)" "ro_id a \<notin> set (row_ids ts)" "distinct (row_ids us)" "distinct (row_ids ts)" "set (row_ids us) \<inter> set (row_ids ts) = {}"
    "ro_id a \<noteq> ''''" "'''' \<notin> set (row_ids us)" "'''' \<notin> set (row_ids ts)"
    using 2(4,6) by auto
  have pa: "named (Some (ro_id a)) us" "named p ts" "is_root_of p a" using 2(3) by simp_all
  have ia: "is_root_of (Some (ro_id a)) r = (ro_parent r = Some (ro_id a))" for r using d(6) by (rule is_root_of_Some)
  have u: "filter (\<lambda>r. ro_parent r = Some x) L = filter (\<lambda>r. ro_parent r = Some x) (flabels us)" if x: "x = ro_id a \<or> x \<in> set (row_ids us)" for x
  proof -
    have "x \<notin> set (row_ids ts)" using x d by blast
    then show ?thesis using 2(7) [of x] nr [OF pa(3), of x] n [OF pa(2) d(8), of x] nr x d by auto
  qed
  have t: "filter (\<lambda>r. ro_parent r = Some x) L = filter (\<lambda>r. ro_parent r = Some x) (flabels ts)" if x: "x \<in> set (row_ids ts)" for x
  proof -
    have "x \<notin> set (row_ids us)" "x \<noteq> ro_id a" using x d by blast+
    then show ?thesis using 2(7) [of x] nr [OF pa(3), of x] n [OF pa(1) d(7), of x] ia x d by auto
  qed
  have "map label (row_shape us) = map ro_id (filter (\<lambda>r. ro_parent r = Some (ro_id a)) L)"
    using u [of "ro_id a"] roots_of_named [OF pa(1) d(7)] d
    unfolding ia [abs_def] by (simp add: row_shape_def rose.map_sel comp_def)
  moreover have "kids_are (\<lambda>x. map ro_id (filter (\<lambda>r. ro_parent r = Some x) L)) (row_shape us)"
    by (rule 2(1) [OF pa(1) d(7) _ d(3) u]) (use d in auto)
  moreover have "kids_are (\<lambda>x. map ro_id (filter (\<lambda>r. ro_parent r = Some x) L)) (row_shape ts)"
    by (rule 2(2) [OF pa(2) d(8) _ d(4) t]) (use 2(5) in auto)
  ultimately show ?case by (simp add: row_shape_def)
qed (simp add: row_shape_def)

text \<open>
  C33. A list of rows that name their parents is turned into the tree of the rows, in whatever order
  they come, as long as siblings come in theirs.
\<close>

theorem rows_roundtrip:
  assumes "named p ts" and "distinct (row_ids ts)" and "'''' \<notin> set (row_ids ts)" and "\<forall>q. truthy p = Some q \<longrightarrow> q \<notin> set (row_ids ts)"
    and "mset rows = mset (flabels ts)" and "\<forall>q. filter (is_root_of q) rows = filter (is_root_of q) (flabels ts)"
  shows "row_shape (transfer p rows) = row_shape ts"
proof (rule kids_are_unique)
  let ?K = "\<lambda>x. map ro_id (filter (\<lambda>r. ro_parent r = Some x) rows)"
  have s: "ro_id ` set rows = set (row_ids ts)" unfolding row_ids_def using mset_eq_setD [OF assms(5)] by simp
  have d: "distinct (map ro_id rows)"
    using assms(2) mset_eq_imp_distinct_iff [of "map ro_id rows" "row_ids ts"] assms(5) by (simp add: row_ids_def)
  have e: "'''' \<notin> ro_id ` set rows" "\<And>q. truthy p = Some q \<Longrightarrow> q \<notin> ro_id ` set rows" using assms(3,4) s by auto
  note t = transfer_kids [OF d e]
  show "kids_are ?K (row_shape (transfer p rows))" by (rule t(1))
  have k: "filter (\<lambda>r. ro_parent r = Some x) rows = filter (\<lambda>r. ro_parent r = Some x) (flabels ts)" if "x \<in> set (row_ids ts)" for x
  proof -
    have "x \<noteq> ''''" using that assms(3) by auto
    then have "is_root_of (Some x) = (\<lambda>r. ro_parent r = Some x)" by (simp add: is_root_of_Some fun_eq_iff)
    then show ?thesis using assms(6) [rule_format, of "Some x"] by simp
  qed
  show "kids_are ?K (row_shape ts)" by (rule kids_of_named [OF assms(1,3) _ assms(2) k]) (use assms(4) in blast)+
  show "map label (row_shape (transfer p rows)) = map label (row_shape ts)"
    using t(2) roots_of_named [OF assms(1,3) assms(4) [rule_format]] assms(6) [rule_format, of p]
    by (simp add: row_shape_def rose.map_sel comp_def)
qed

definition sample_row :: "string \<Rightarrow> string option \<Rightarrow> trow" where
  "sample_row i p = \<lparr>ro_id = i, ro_parent = p, ro_cells = [''name'' \<mapsto> i], ro_state = StateUnset, ro_icon = '''', ro_branch = False\<rparr>"

definition sample_flat_rows :: "trow list" where
  "sample_flat_rows = [sample_row ''c'' (Some ''b''), sample_row ''a'' None, sample_row ''b'' (Some ''a''), sample_row ''d'' None]"

definition sample_forest :: "trow forest" where
  "sample_forest = [Node (sample_row ''a'' None) [Node (sample_row ''b'' (Some ''a'')) [Node (sample_row ''c'' (Some ''b'')) []]], Node (sample_row ''d'' None) []]"

theorem rows_roundtrip_witness:
  "row_shape (transfer None sample_flat_rows) = [Node ''a'' [Node ''b'' [Node ''c'' []]], Node ''d'' []]"
proof -
  have n: "named None sample_forest" "distinct (row_ids sample_forest)" "'''' \<notin> set (row_ids sample_forest)"
    by (simp_all add: sample_forest_def sample_row_def is_root_of_def row_ids_def)
  have m: "mset sample_flat_rows = mset (flabels sample_forest)" by (simp add: sample_flat_rows_def sample_forest_def)
  have "filter (is_root_of q) sample_flat_rows = filter (is_root_of q) (flabels sample_forest)" for q
    by (auto simp: sample_flat_rows_def sample_forest_def sample_row_def is_root_of_def split: option.splits)
  then have "row_shape (transfer None sample_flat_rows) = row_shape sample_forest" using rows_roundtrip [OF n _ m] by simp
  then show ?thesis by (simp add: sample_forest_def row_shape_def sample_row_def)
qed

section \<open>Breadth first or depth first\<close>

lemma set_walk_append: "set (walk_trees (ts @ us)) = set (walk_trees ts) \<union> set (walk_trees us)"
proof (induction ts arbitrary: us rule: forest_induct)
  case (Node a vs ts)
  show ?case using Node(1) [of ts] Node(1) [of "ts @ us"] Node(2) [of us] by auto
qed simp

lemma set_walk: "set (walk_trees ts) = (\<Union>n \<in> set ts. insert n (set (walk_trees (kids n))))"
proof (induction ts rule: forest_induct)
  case (Node a us ts)
  then show ?case using set_walk_append [of us ts] by simp
qed simp

lemma set_walk_concat: "set (walk_trees (concat tss)) = (\<Union>ts \<in> set tss. set (walk_trees ts))"
  by (induction tss) (simp_all add: set_walk_append)

lemma find_breadth_Some: "find_breadth P cc = Some n \<Longrightarrow> n \<in> set (walk_trees (concat cc)) \<and> P (label n)"
proof (induction P cc rule: find_breadth.induct)
  case (2 P c cc)
  show ?case
  proof (cases "find (\<lambda>n. P (label n)) c")
    case None
    then have "n \<in> set (walk_trees (concat (cc @ map kids (filter (\<lambda>n. kids n \<noteq> []) c))))" "P (label n)" using 2 by auto
    then show ?thesis using set_walk [of c] by (auto simp: set_walk_append set_walk_concat)
  next
    case (Some m)
    then have "m = n" using 2(2) by simp
    with Some have "n \<in> set c" "P (label n)" by (auto simp: find_Some_iff)
    then show ?thesis using set_walk [of c] by (auto simp: set_walk_append)
  qed
qed simp

lemma find_breadth_None: "find_breadth P cc = None \<Longrightarrow> n \<in> set (walk_trees (concat cc)) \<Longrightarrow> \<not> P (label n)"
proof (induction P cc rule: find_breadth.induct)
  case (2 P c cc)
  have f: "find (\<lambda>n. P (label n)) c = None" and b: "find_breadth P (cc @ map kids (filter (\<lambda>n. kids n \<noteq> []) c)) = None"
    using 2(2) by (simp_all split: option.splits)
  have "n \<in> set c \<Longrightarrow> \<not> P (label n)" using f by (auto simp: find_None_iff)
  moreover have "n \<in> set c \<or> n \<in> set (walk_trees (concat (cc @ map kids (filter (\<lambda>n. kids n \<noteq> []) c))))"
  proof -
    have "m \<in> set c \<Longrightarrow> n \<in> set (walk_trees (kids m)) \<Longrightarrow> n \<in> set (walk_trees (concat (map kids (filter (\<lambda>n. kids n \<noteq> []) c))))" for m
      by (cases "kids m") (auto simp: set_walk_concat)
    then show ?thesis using 2(3) set_walk [of c] by (auto simp: set_walk_append)
  qed
  ultimately show ?case using 2(1) [OF f b] by blast
qed simp

declare find_breadth.simps [simp del]

lemma find_tree_walk: "find_tree P ts = Some n \<Longrightarrow> n \<in> set (walk_trees ts)"
  by (induction P ts rule: find_tree.induct) (auto simp: set_walk_append split: if_splits option.splits)

text \<open>With distinct ids the search through the queue finds the row that the search in the order of the table finds.\<close>

lemma find_breadth_first:
  assumes "distinct (row_ids ts)"
  shows "find_breadth (by_row i) [ts] = find_tree (by_row i) ts"
proof -
  have w: "map (ro_id \<circ> label) (walk_trees ts) = row_ids ts" unfolding row_ids_def walk_flabels [symmetric] walk_def by simp
  have i: "inj_on (ro_id \<circ> label) (set (walk_trees ts))" using assms unfolding w [symmetric] distinct_map by blast
  have u: "m = n" if "m \<in> set (walk_trees ts)" "n \<in> set (walk_trees ts)" "ro_id (label m) = ro_id (label n)" for m n
    using inj_onD [OF i _ that(1,2)] that(3) by simp
  have l: "label ` set (walk_trees ts) = set (flabels ts)" unfolding walk_flabels [symmetric] walk_def by simp
  show ?thesis
  proof (cases "find_tree (by_row i) ts")
    case None
    then have "\<forall>a \<in> label ` set (walk_trees ts). \<not> by_row i a" unfolding l by (simp add: find_tree_None)
    then show ?thesis using None find_breadth_Some [of "by_row i" "[ts]"] by (cases "find_breadth (by_row i) [ts]") auto
  next
    case (Some n)
    note n = find_tree_walk [OF Some] find_tree_label [OF Some]
    then obtain m where m: "find_breadth (by_row i) [ts] = Some m" using find_breadth_None [of "by_row i" "[ts]" n]
      by (cases "find_breadth (by_row i) [ts]") auto
    then show ?thesis using Some n u [of m n] find_breadth_Some [OF m] by (simp add: by_row_def)
  qed
qed

end
