(* ===== verification/TreeGridRows.thy ===== *)
theory TreeGridRows
  imports TreeGrid
begin

text \<open>
  \<open>plugins/jquery.treegrid.js\<close>: loading, expanding, appending, inserting, removing, updating and
  reloading rows. Every operation acts on the row objects and on the table rows as the code does;
  the invariant \<open>tree_grid_ok\<close> says that the two forests have the same rows, that every row names its
  parent and that every table row is indented to its depth.
\<close>

section \<open>Writing rows\<close>

definition set_telem :: "string \<Rightarrow> (telem \<Rightarrow> telem) \<Rightarrow> treegrid \<Rightarrow> treegrid" where
  "set_telem i f t = t\<lparr>tg_dom := relabel (by_elem i) f (tg_dom t)\<rparr>"

definition set_trow :: "string \<Rightarrow> (trow \<Rightarrow> trow) \<Rightarrow> treegrid \<Rightarrow> treegrid" where
  "set_trow i f t = t\<lparr>tg_data := relabel (by_row i) f (tg_data t)\<rparr>"

text \<open>Change the list of rows under a row, or of the roots.\<close>

definition data_at :: "string option \<Rightarrow> (trow forest \<Rightarrow> trow forest) \<Rightarrow> treegrid \<Rightarrow> treegrid" where
  "data_at place g t =
     (case place of
        None \<Rightarrow> t\<lparr>tg_data := g (tg_data t)\<rparr>
      | Some i \<Rightarrow> t\<lparr>tg_data := relabel (by_row i) (\<lambda>r. r\<lparr>ro_branch := True\<rparr>) (map (change_kids (by_row i) g) (tg_data t))\<rparr>)"

definition dom_at :: "string option \<Rightarrow> (telem forest \<Rightarrow> telem forest) \<Rightarrow> treegrid \<Rightarrow> treegrid" where
  "dom_at place g t =
     (case place of
        None \<Rightarrow> t\<lparr>tg_dom := g (tg_dom t)\<rparr>
      | Some i \<Rightarrow> t\<lparr>tg_dom := map (change_kids (\<lambda>e. by_elem i e \<and> te_sub e) g) (tg_dom t)\<rparr>)"

section \<open>Loading\<close>

fun set_parents :: "string option \<Rightarrow> trow forest \<Rightarrow> trow forest" where
  "set_parents p [] = []"
| "set_parents p (Node r us # ts) = Node (r\<lparr>ro_parent := p\<rparr>) (set_parents (Some (ro_id r)) us) # set_parents p ts"

text \<open>\<open>onBeforeRender\<close>: rows with children get their parents' ids; a flat list is made a tree\<close>

definition incoming :: "string option \<Rightarrow> tree_rows \<Rightarrow> trow forest" where
  "incoming place pl = (case pl of Nested ts \<Rightarrow> set_parents place ts | Flat rows n \<Rightarrow> transfer place rows)"

definition incoming_total :: "tree_rows \<Rightarrow> treegrid \<Rightarrow> treegrid" where
  "incoming_total pl t = (case pl of Flat rows (Some n) \<Rightarrow> if n = 0 then t else t\<lparr>tg_total := Some n\<rparr> | _ \<Rightarrow> t)"

definition place_of :: "string option \<Rightarrow> treegrid \<Rightarrow> string option" where
  "place_of p t = (case p of None \<Rightarrow> None | Some i \<Rightarrow> if find_row i t = None then None else Some i)"

definition has_branch :: "string option \<Rightarrow> treegrid \<Rightarrow> bool" where
  "has_branch place t = (case place of None \<Rightarrow> True | Some i \<Rightarrow> (case find_row i t of None \<Rightarrow> True | Some n \<Rightarrow> ro_branch (label n)))"

text \<open>The callback of a request looks into the place it was sent for; it does nothing once that is gone.\<close>

definition detach :: "string list \<Rightarrow> treegrid \<Rightarrow> treegrid" where
  "detach is t = t\<lparr>tg_pending := map (\<lambda>q. if rq_row q \<in> Some ` set is then q\<lparr>rq_expand := False\<rparr> else q) (tg_pending t)\<rparr>"

text \<open>
  \<open>_2f\<close>. The new rows are concatenated to a copy of the list they join and sorted afterwards: only a
  row without \<open>children\<close> takes the list that is sorted; the table rows are made in the sorted order.
\<close>

definition load_tree_rows :: "string option \<Rightarrow> bool \<Rightarrow> tree_rows \<Rightarrow> treegrid \<Rightarrow> treegrid" where
  "load_tree_rows p app pl t =
     (let place = place_of p t;
          t1 = incoming_total pl
            (if app then t else detach (map ro_id (rows_below place t)) (dom_at place (\<lambda>_. []) (data_at place (\<lambda>_. []) t)));
          new = map (map_rose settle) (incoming p pl);
          below = (if sorts t then map (sort_below (tree_cmp t)) new else new);
          sorted = (if sorts t then js_sort (\<lambda>a b. tree_cmp t (label a) (label b)) below else new);
          lev = level_of p t;
          t2 = data_at place (\<lambda>us. us @ (if has_branch place t1 then below else sorted)) t1;
          t3 = dom_at place (\<lambda>us. us @ render_tree_rows t lev sorted) t2
      in tg_note (RowsLoaded place) (renumber_rows t3))"

text \<open>\<open>_15\<close>: \<open>q\<close> are the parameters passed, which replace the ones kept for later requests\<close>

definition request_rows :: "string option \<Rightarrow> string option option \<Rightarrow> bool \<Rightarrow> bool \<Rightarrow> treegrid \<Rightarrow> treegrid" where
  "request_rows row q app opens t =
     (let t1 = (case q of None \<Rightarrow> t | Some s \<Rightarrow> t\<lparr>tg_query := s\<rparr>)
      in if \<not> tg_allow t HookLoad row \<or> \<not> tg_loader t then t1
         else t1\<lparr>tg_pending := tg_pending t1 @ [\<lparr>rq_row = row, rq_sent = tg_query t1, rq_append = app, rq_expand = opens\<rparr>]\<rparr>)"

section \<open>Expanding and collapsing\<close>

text \<open>\<open>_6d\<close>\<close>

definition show_below :: "string \<Rightarrow> treegrid \<Rightarrow> treegrid" where
  "show_below i t =
     tg_note (RowExpanded i) (set_telem i (\<lambda>e. e\<lparr>te_shown := True\<rparr>) (set_trow i (\<lambda>r. r\<lparr>ro_state := StateOpen\<rparr>) t))"

text \<open>\<open>_68\<close>\<close>

definition expand_row :: "string \<Rightarrow> treegrid \<Rightarrow> treegrid" where
  "expand_row i t =
     (case row_elem i t of
        None \<Rightarrow> t
      | Some e \<Rightarrow>
          if te_hit e \<noteq> Some HitCollapsed \<or> \<not> tg_allow t HookExpand (Some i) then t
          else let t1 = set_telem i (\<lambda>e. e\<lparr>te_hit := Some HitExpanded, te_folder_open := True\<rparr>) t
               in if te_sub e then show_below i t1
                  else request_rows (Some i) (Some (Some i)) True True (set_telem i (\<lambda>e. e\<lparr>te_sub := True, te_shown := False\<rparr>) t1))"

text \<open>\<open>_64\<close>\<close>

definition collapse_row :: "string \<Rightarrow> treegrid \<Rightarrow> treegrid" where
  "collapse_row i t =
     (case row_elem i t of
        None \<Rightarrow> t
      | Some e \<Rightarrow>
          if te_hit e \<noteq> Some HitExpanded \<or> \<not> tg_allow t HookCollapse (Some i) then t
          else tg_note (RowCollapsed i)
                 (set_telem i (\<lambda>e. e\<lparr>te_hit := Some HitCollapsed, te_folder_open := False, te_shown := False\<rparr>)
                   (set_trow i (\<lambda>r. r\<lparr>ro_state := StateClosed\<rparr>) t)))"

text \<open>\<open>_26\<close>, \<open>_72\<close>, \<open>_77\<close>\<close>

definition toggle_tree_row :: "string \<Rightarrow> treegrid \<Rightarrow> treegrid" where
  "toggle_tree_row i t =
     (case Option.bind (row_elem i t) te_hit of Some HitExpanded \<Rightarrow> collapse_row i t | _ \<Rightarrow> expand_row i t)"

definition rows_from :: "string option \<Rightarrow> treegrid \<Rightarrow> string list" where
  "rows_from o' t = (case o' of None \<Rightarrow> [] | Some i \<Rightarrow> [i]) @ map ro_id (rows_below o' t)"

definition collapse_rows :: "string option \<Rightarrow> treegrid \<Rightarrow> treegrid" where
  "collapse_rows o' t = fold collapse_row (rows_from o' t) t"

definition expand_rows :: "string option \<Rightarrow> treegrid \<Rightarrow> treegrid" where
  "expand_rows o' t = fold expand_row (rows_from o' t) t"

text \<open>\<open>_7c\<close>: the chain of \<open>_parentId\<close>s, followed at most as often as there are rows\<close>

fun parent_chain :: "nat \<Rightarrow> string \<Rightarrow> treegrid \<Rightarrow> string list" where
  "parent_chain 0 i t = []"
| "parent_chain (Suc n) i t = (case parent_row i t of None \<Rightarrow> [] | Some p \<Rightarrow> parent_chain n p t @ [p])"

definition expand_row_to :: "string \<Rightarrow> treegrid \<Rightarrow> treegrid" where
  "expand_row_to i t = fold expand_row (parent_chain (length (flabels (tg_data t))) i t) t"

section \<open>Adding and removing rows\<close>

text \<open>\<open>_80\<close>\<close>

definition open_folder :: "telem \<Rightarrow> telem" where
  "open_folder e0 =
     (let e = (if te_sub e0 then e0 else e0\<lparr>te_sub := True, te_shown := True\<rparr>)
      in if te_folder e then e
         else e\<lparr>te_folder := True, te_folder_open := True, te_hit := Some HitExpanded, te_indent := te_indent e - 1\<rparr>)"

definition append_rows :: "string option \<Rightarrow> trow forest \<Rightarrow> treegrid \<Rightarrow> treegrid" where
  "append_rows p ns t =
     load_tree_rows p True (Nested ns) (case p of None \<Rightarrow> t | Some i \<Rightarrow> set_telem i open_folder t)"

text \<open>\<open>_86\<close>: the last row of the list is put beside the reference row\<close>

definition rows_beside :: "bool \<Rightarrow> ('a rose \<Rightarrow> bool) \<Rightarrow> 'a forest \<Rightarrow> 'a forest" where
  "rows_beside before P ts =
     (case find_index P ts of
        None \<Rightarrow> ts
      | Some k \<Rightarrow> butlast (insert_at (if before then k else k + 1) (last ts) ts))"

definition insert_tree_row :: "bool \<Rightarrow> string \<Rightarrow> trow rose \<Rightarrow> treegrid \<Rightarrow> treegrid" where
  "insert_tree_row before ref n t =
     (let place = parent_row ref t; t1 = append_rows place [n] t
      in renumber_rows (dom_at place (rows_beside before (\<lambda>m. te_id (label m) = ref))
           (data_at place (rows_beside before (\<lambda>m. ro_id (label m) = ref)) t1)))"

text \<open>\<open>deleteRow\<close> and \<open>_92\<close>\<close>

definition drop_row :: "string \<Rightarrow> trow forest \<Rightarrow> trow forest" where
  "drop_row i ts = (case find_index (\<lambda>n. ro_id (label n) = i) ts of None \<Rightarrow> ts | Some k \<Rightarrow> remove_at k ts)"

definition leaf_telem :: "telem \<Rightarrow> telem" where
  "leaf_telem e = e\<lparr>te_sub := False, te_folder := False, te_hit := None, te_indent := te_indent e + 1\<rparr>"

definition delete_tree_row :: "string \<Rightarrow> treegrid \<Rightarrow> treegrid" where
  "delete_tree_row i t =
     (let place = parent_row i t;
          t1 = data_at place (drop_row i) (detach (rows_from (Some i) t) (t\<lparr>tg_dom := prune (by_elem i) (tg_dom t)\<rparr>))
      in case place of
           None \<Rightarrow> t1
         | Some p \<Rightarrow> (case find_row p t1 of Some m \<Rightarrow> if kids m = [] then detach [p] (set_telem p leaf_telem t1) else t1 | None \<Rightarrow> t1))"

definition remove_tree_row :: "string \<Rightarrow> treegrid \<Rightarrow> treegrid" where
  "remove_tree_row i t =
     (let t1 = renumber_rows (delete_tree_row i t) in t1\<lparr>tg_total := map_option (\<lambda>n. n - 1) (tg_total t1)\<rparr>)"

text \<open>\<open>updateRow\<close>\<close>

record row_change =
  rc_id :: "string option"
  rc_cells :: grow
  rc_state :: "row_state option"

definition changed_row :: "row_change \<Rightarrow> trow \<Rightarrow> trow" where
  "changed_row c r =
     r\<lparr>ro_id := case_option (ro_id r) id (rc_id c), ro_cells := ro_cells r ++ rc_cells c, ro_state := case_option (ro_state r) id (rc_state c)\<rparr>"

definition update_tree_row :: "string \<Rightarrow> row_change \<Rightarrow> treegrid \<Rightarrow> treegrid" where
  "update_tree_row i c t =
     (case find_row i t of
        None \<Rightarrow> t
      | Some n \<Rightarrow>
          let e' = new_telem t (level_of (Some i) t - 1) (changed_row c (label n)) (kids n \<noteq> [])
          in set_telem i (\<lambda>e. e'\<lparr>te_number := te_number e, te_sub := te_sub e, te_shown := te_shown e\<rparr>) (set_trow i (changed_row c) t))"

text \<open>\<open>reload\<close>\<close>

definition reload_rows :: "string option \<Rightarrow> treegrid \<Rightarrow> treegrid" where
  "reload_rows o' t =
     (case o' of
        None \<Rightarrow> request_rows None (Some None) False False t
      | Some i \<Rightarrow>
          expand_row i (set_telem i (\<lambda>e. e\<lparr>te_sub := False, te_hit := map_option (\<lambda>_. HitCollapsed) (te_hit e)\<rparr>)
            (detach (rows_from (Some i) t) t\<lparr>tg_data := map (change_kids (by_row i) (\<lambda>_. [])) (tg_data t),
               tg_dom := map (change_kids (by_elem i) (\<lambda>_. [])) (tg_dom t), tg_query := Some i\<rparr>)))"

text \<open>\<open>onSortColumn\<close>\<close>

definition sort_tree :: "(string \<times> bool) list \<Rightarrow> treegrid \<Rightarrow> treegrid" where
  "sort_tree ks t =
     (let t1 = t\<lparr>tg_sort := ks\<rparr>
      in if tg_remote t then request_rows None None False False t1 else load_tree_rows None False (Nested (tg_data t1)) t1)"

section \<open>Answers and sessions\<close>

definition expand_callback :: "row_request \<Rightarrow> treegrid \<Rightarrow> treegrid" where
  "expand_callback q t =
     (case rq_row q of
        None \<Rightarrow> t
      | Some i \<Rightarrow>
          if \<not> rq_expand q then t
          else case find_tree (by_elem i) (tg_dom t) of
                 None \<Rightarrow> t
               | Some n \<Rightarrow> if kids n = [] then set_telem i (\<lambda>e. e\<lparr>te_sub := False\<rparr>) t else show_below i t)"

definition answer_rows :: "row_request \<Rightarrow> tree_rows \<Rightarrow> treegrid \<Rightarrow> treegrid" where
  "answer_rows q pl t = expand_callback q (load_tree_rows (rq_row q) (rq_append q) pl t)"

definition fail_rows :: "row_request \<Rightarrow> treegrid \<Rightarrow> treegrid" where
  "fail_rows q t = expand_callback q (tg_note LoadFailed t)"

datatype tree_grid_event =
    LoadRows tree_rows | AppendRows "string option" "trow forest" | InsertRow bool string "trow rose" | RemoveRow string
  | UpdateRow string row_change | ExpandRow string | CollapseRow string | ToggleRow string | ExpandRows "string option"
  | CollapseRows "string option" | ExpandRowTo string | ReloadRows "string option" | SortRows "(string \<times> bool) list" | NextPage
  | AnswerRows nat tree_rows | FailRows nat

text \<open>The new rows have ids of their own.\<close>

definition new_row_ids :: "tree_rows \<Rightarrow> string list" where
  "new_row_ids pl = (case pl of Nested ts \<Rightarrow> row_ids ts | Flat rows n \<Rightarrow> map ro_id rows)"

definition fresh_rows :: "string list \<Rightarrow> tree_rows \<Rightarrow> bool" where
  "fresh_rows is pl = (distinct (new_row_ids pl) \<and> '''' \<notin> set (new_row_ids pl) \<and> set (new_row_ids pl) \<inter> set is = {})"

definition has_row :: "string \<Rightarrow> treegrid \<Rightarrow> bool" where
  "has_row i t = (i \<in> set (row_ids (tg_data t)))"

text \<open>
  \<open>None\<close> is a type error (a call that reads the properties of a row that is not there), or an answer to
  a request that is not under way.
\<close>

definition tree_grid_step :: "treegrid \<Rightarrow> tree_grid_event \<Rightarrow> treegrid option" where
  "tree_grid_step t e =
     (case e of
        LoadRows pl \<Rightarrow> Some (load_tree_rows None False pl t)
      | AppendRows p ns \<Rightarrow> Some (append_rows p ns t)
      | InsertRow b ref n \<Rightarrow> if has_row ref t then Some (insert_tree_row b ref n t) else None
      | RemoveRow i \<Rightarrow> if has_row i t then Some (remove_tree_row i t) else None
      | UpdateRow i c \<Rightarrow> if has_row i t then Some (update_tree_row i c t) else None
      | ExpandRow i \<Rightarrow> Some (expand_row i t)
      | CollapseRow i \<Rightarrow> Some (collapse_row i t)
      | ToggleRow i \<Rightarrow> Some (toggle_tree_row i t)
      | ExpandRows o' \<Rightarrow> Some (expand_rows o' t)
      | CollapseRows o' \<Rightarrow> Some (collapse_rows o' t)
      | ExpandRowTo i \<Rightarrow> Some (expand_row_to i t)
      | ReloadRows o' \<Rightarrow> if (case o' of None \<Rightarrow> True | Some i \<Rightarrow> has_row i t) then Some (reload_rows o' t) else None
      | SortRows ks \<Rightarrow> Some (sort_tree ks t)
      | NextPage \<Rightarrow> Some (request_rows None None False False t)
      | AnswerRows k pl \<Rightarrow>
          if k \<ge> length (tg_pending t) then None
          else Some (answer_rows (tg_pending t ! k) pl (t\<lparr>tg_pending := remove_at k (tg_pending t)\<rparr>))
      | FailRows k \<Rightarrow>
          if k \<ge> length (tg_pending t) then None
          else Some (fail_rows (tg_pending t ! k) (t\<lparr>tg_pending := remove_at k (tg_pending t)\<rparr>)))"

text \<open>
  The events that keep the table in step with the rows: rows are put under rows that are there, new rows
  have ids of their own, an update keeps the id, and the answer to a request for the rows below one comes
  while that row is there and has a place for them. (Where an id occurs twice the code changes the first
  row it finds, the model every one; the sessions of the property below have no such ids.)
\<close>

definition grid_event_ok :: "treegrid \<Rightarrow> tree_grid_event \<Rightarrow> bool" where
  "grid_event_ok t e =
     (let here = row_ids (tg_data t) in
      case e of
        LoadRows pl \<Rightarrow> fresh_rows [] pl
      | AppendRows p ns \<Rightarrow> fresh_rows here (Nested ns) \<and> (case p of None \<Rightarrow> True | Some i \<Rightarrow> has_row i t)
      | InsertRow b ref n \<Rightarrow> fresh_rows here (Nested [n])
      | UpdateRow i c \<Rightarrow> rc_id c = None
      | AnswerRows k pl \<Rightarrow>
          (if k \<ge> length (tg_pending t) then True
           else case rq_row (tg_pending t ! k) of
                  None \<Rightarrow> fresh_rows (if rq_append (tg_pending t ! k) then here else []) pl
                | Some i \<Rightarrow> fresh_rows here pl \<and> (case row_elem i t of None \<Rightarrow> False | Some e \<Rightarrow> te_sub e \<and> te_folder e))
      | _ \<Rightarrow> True)"

section \<open>Shapes\<close>

definition elem_shape :: "telem forest \<Rightarrow> string forest" where
  "elem_shape ts = map (map_rose te_id) ts"

definition at_place_ids :: "string option \<Rightarrow> (string forest \<Rightarrow> string forest) \<Rightarrow> string forest \<Rightarrow> string forest" where
  "at_place_ids place g s = (case place of None \<Rightarrow> g s | Some i \<Rightarrow> at_key i g s)"

lemma shape_simps [simp]:
  "row_shape [] = []" "row_shape (Node r us # ts) = Node (ro_id r) (row_shape us) # row_shape ts"
  "row_shape (ts @ us) = row_shape ts @ row_shape us"
  "elem_shape [] = []" "elem_shape (Node e vs # fs) = Node (te_id e) (elem_shape vs) # elem_shape fs"
  "elem_shape (fs @ vs) = elem_shape fs @ elem_shape vs"
  by (simp_all add: row_shape_def elem_shape_def)

lemma shape_empty [simp]: "row_shape ts = [] \<longleftrightarrow> ts = []" "elem_shape fs = [] \<longleftrightarrow> fs = []"
  by (simp_all add: row_shape_def elem_shape_def)

lemma flabels_shape: "flabels (row_shape ts) = row_ids ts" "flabels (elem_shape fs) = map te_id (flabels fs)"
  by (simp_all add: row_shape_def elem_shape_def row_ids_def)

lemma set_row_shape: "(\<And>r. ro_id (f r) = ro_id r) \<Longrightarrow> row_shape (relabel P f ts) = row_shape ts"
  unfolding row_shape_def by (rule map_rose_relabel) simp

lemma set_elem_shape: "(\<And>e. P e \<Longrightarrow> te_id (f e) = te_id e) \<Longrightarrow> elem_shape (relabel P f ts) = elem_shape ts"
  unfolding elem_shape_def by (rule map_rose_relabel) simp

lemma row_shape_map: "(\<And>r. ro_id (f r) = ro_id r) \<Longrightarrow> row_shape (map (map_rose f) ts) = row_shape ts"
  by (simp add: row_shape_def map_rose_same)

lemma render_shape: "elem_shape (render_tree_rows t lev ns) = row_shape ns"
  by (induction t lev ns rule: render_tree_rows.induct) (simp_all add: new_telem_def Let_def)

lemma number_Node:
  "fst (number_rows k (Node e us # ts)) =
    Node (e\<lparr>te_number := k\<rparr>) (fst (number_rows (k + 1) us)) # fst (number_rows (snd (number_rows (k + 1) us)) ts)"
  by (simp split: prod.split)

declare number_rows.simps(2) [simp del]
declare number_Node [simp]

lemma number_shape: "elem_shape (fst (number_rows k ts)) = elem_shape ts"
  by (induction ts arbitrary: k rule: forest_induct) simp_all

lemma data_at_shape:
  assumes "\<And>us. row_shape (g us) = g' (row_shape us)"
  shows "row_shape (tg_data (data_at place g t)) = at_place_ids place g' (row_shape (tg_data t))"
proof (cases place)
  case (Some i)
  have "map_rose ro_id (change_kids (by_row i) g n) = change_kids (\<lambda>x. x = i) g' (map_rose ro_id n)" for n
    by (rule map_rose_change_kids) (simp_all add: by_row_def assms [unfolded row_shape_def])
  then show ?thesis using Some by (simp add: data_at_def at_place_ids_def set_row_shape) (simp add: row_shape_def at_key_def)
qed (simp add: data_at_def at_place_ids_def assms)

lemma change_kids_where:
  "(\<And>a. a \<in> set (labels n) \<Longrightarrow> P a = Q a) \<Longrightarrow> change_kids P g n = change_kids Q g n"
  by (induction n) (auto simp: flabels_def)

lemma dom_at_shape:
  assumes "\<And>us. elem_shape (g us) = g' (elem_shape us)" "\<And>i e. place = Some i \<Longrightarrow> e \<in> set (flabels (tg_dom t)) \<Longrightarrow> te_id e = i \<Longrightarrow> te_sub e"
  shows "elem_shape (tg_dom (dom_at place g t)) = at_place_ids place g' (elem_shape (tg_dom t))"
proof (cases place)
  case (Some i)
  have "change_kids (\<lambda>e. by_elem i e \<and> te_sub e) g n = change_kids (by_elem i) g n" if "n \<in> set (tg_dom t)" for n
    by (rule change_kids_where) (use assms(2) [OF Some] that in \<open>auto simp: by_elem_def flabels_def\<close>)
  moreover have "map_rose te_id (change_kids (by_elem i) g n) = change_kids (\<lambda>x. x = i) g' (map_rose te_id n)" for n
    by (rule map_rose_change_kids) (simp_all add: by_elem_def assms(1) [unfolded elem_shape_def])
  ultimately show ?thesis using Some by (simp add: dom_at_def at_place_ids_def elem_shape_def at_key_def)
qed (simp add: dom_at_def at_place_ids_def assms)

section \<open>Depths and parents\<close>

text \<open>A table row is indented to its depth, and has a place for the rows below it if there are some.\<close>

definition elem_good :: "nat \<Rightarrow> telem \<Rightarrow> telem forest \<Rightarrow> bool" where
  "elem_good lev e us = (level_of_elem e = lev + 1 \<and> te_folder e = (te_hit e \<noteq> None) \<and> (us \<noteq> [] \<longrightarrow> te_sub e \<and> te_folder e))"

fun elems_ok :: "nat \<Rightarrow> telem forest \<Rightarrow> bool" where
  "elems_ok lev [] = True"
| "elems_ok lev (Node e us # ts) = (elem_good lev e us \<and> elems_ok (lev + 1) us \<and> elems_ok lev ts)"

lemma elems_ok_append [simp]: "elems_ok lev (ts @ us) = (elems_ok lev ts \<and> elems_ok lev us)"
  by (induction lev ts rule: elems_ok.induct) auto

lemma elems_ok_all: "elems_ok lev ts = (\<forall>n \<in> set ts. elem_good lev (label n) (kids n) \<and> elems_ok (lev + 1) (kids n))"
  by (induction lev ts rule: elems_ok.induct) auto

lemma elems_ok_render: "elems_ok lev (render_tree_rows t lev ns)"
proof (induction t lev ns rule: render_tree_rows.induct)
  case (2 t lev r us ts)
  then show ?case by (cases us) (auto simp: elem_good_def new_telem_def Let_def level_of_elem_def)
qed simp

lemma elems_ok_number: "elems_ok lev (fst (number_rows k ts)) = elems_ok lev ts"
proof (induction ts arbitrary: lev k rule: forest_induct)
  case (Node e us ts)
  have "fst (number_rows (k + 1) us) = [] \<longleftrightarrow> us = []" using number_shape [of "k + 1" us] by (metis shape_empty(2))
  with Node show ?case by (simp add: elem_good_def level_of_elem_def)
qed simp

lemma elems_ok_relabel:
  assumes "elems_ok lev ts" "\<And>lev e us. Node e us \<in> set (walk_trees ts) \<Longrightarrow> P e \<Longrightarrow> elem_good lev e us \<Longrightarrow> elem_good lev (f e) us"
  shows "elems_ok lev (relabel P f ts)"
  using assms
proof (induction ts arbitrary: lev rule: forest_induct)
  case (Node e us ts)
  have w: "Node e us \<in> set (walk_trees (Node e us # ts))" "set (walk_trees us) \<subseteq> set (walk_trees (Node e us # ts))"
    "set (walk_trees ts) \<subseteq> set (walk_trees (Node e us # ts))" by (auto simp: set_walk_append)
  have "relabel P f us = [] \<longleftrightarrow> us = []" by (simp add: relabel_def)
  then have "elem_good lev (if P e then f e else e) (relabel P f us)"
    using Node.prems(1) Node.prems(2) [OF w(1)] by (auto simp: elem_good_def)
  moreover have "elems_ok (lev + 1) (relabel P f us)" using Node.prems w(2) by (intro Node.IH(1)) auto
  moreover have "elems_ok lev (relabel P f ts)" using Node.prems w(3) by (intro Node.IH(2)) auto
  ultimately show ?case by simp
qed simp

text \<open>The level of a table row decides the depth of the rows below it.\<close>

lemma elems_ok_change:
  assumes "elems_ok lev ts" "\<And>e. e \<in> set (flabels ts) \<Longrightarrow> P e \<Longrightarrow> level_of_elem e = L \<and> te_sub e \<and> te_folder e"
    and "\<And>us. elems_ok L us \<Longrightarrow> elems_ok L (g us)"
  shows "elems_ok lev (map (change_kids P g) ts)"
  using assms(1,2)
proof (induction ts arbitrary: lev rule: forest_induct)
  case (Node e us ts)
  have ts: "elems_ok lev (map (change_kids P g) ts)" using Node by auto
  show ?case
  proof (cases "P e")
    case True
    then have e: "level_of_elem e = L" "te_sub e" "te_folder e" using Node.prems(2) [of e] by auto
    then have "L = lev + 1" using Node.prems(1) by (simp add: elem_good_def)
    then show ?thesis using True ts Node.prems(1) e assms(3) [of us] by (simp add: elem_good_def)
  next
    case False
    have "elems_ok (lev + 1) (map (change_kids P g) us)" using Node by auto
    then show ?thesis using False ts Node.prems(1) by (auto simp: elem_good_def)
  qed
qed simp

lemma elems_ok_empty_kids:
  "elems_ok lev ts \<Longrightarrow> elems_ok lev (map (change_kids P (\<lambda>_. [])) ts)"
proof (induction ts arbitrary: lev rule: forest_induct)
  case (Node e us ts)
  then show ?case by (auto simp: elem_good_def)
qed simp

lemma elems_ok_prune: "elems_ok lev ts \<Longrightarrow> elems_ok lev (prune P ts)"
proof (induction ts arbitrary: lev rule: forest_induct)
  case (Node e us ts)
  then show ?case by (auto simp: elem_good_def)
qed simp

lemma named_append [simp]: "named p (ts @ us) = (named p ts \<and> named p us)"
  by (induction p ts rule: named.induct) auto

lemma named_all: "named p ts = (\<forall>n \<in> set ts. is_root_of p (label n) \<and> named (Some (ro_id (label n))) (kids n))"
  by (induction p ts rule: named.induct) auto

lemma named_relabel: "named p ts \<Longrightarrow> (\<And>r. ro_id (f r) = ro_id r \<and> ro_parent (f r) = ro_parent r) \<Longrightarrow> named p (relabel P f ts)"
  by (induction p ts rule: named.induct) (auto simp: is_root_of_def split: option.splits)

lemma named_map: "named p ts \<Longrightarrow> (\<And>r. ro_id (f r) = ro_id r \<and> ro_parent (f r) = ro_parent r) \<Longrightarrow> named p (map (map_rose f) ts)"
  using named_relabel [of p ts f "\<lambda>_. True"] by (simp add: relabel_def)

lemma named_change:
  assumes "named p ts" "\<And>us. named (Some i) us \<Longrightarrow> named (Some i) (g us)"
  shows "named p (map (change_kids (by_row i) g) ts)"
  using assms(1)
proof (induction ts arbitrary: p rule: forest_induct)
  case (Node r us ts)
  then show ?case using assms(2) [of us] by (auto simp: by_row_def)
qed simp

lemma named_leaves: "named p (map (\<lambda>r. Node r []) rs) = (\<forall>r \<in> set rs. is_root_of p r)"
  by (induction rs) auto

lemma named_set_parents: "named p (set_parents p ts)"
  by (induction p ts rule: set_parents.induct) (auto simp: is_root_of_def truthy_def split: option.split)

lemma set_parents_shape [simp]: "row_shape (set_parents p ts) = row_shape ts"
  by (induction p ts rule: set_parents.induct) simp_all

text \<open>The rows that \<open>transfer\<close> makes a tree of\<close>

lemma named_attach:
  "named p ts \<Longrightarrow> (\<And>i. i \<in> set todo \<Longrightarrow> i \<noteq> '''') \<Longrightarrow> '''' \<notin> ro_id ` set rows \<Longrightarrow> named p (attach todo rows ts)"
proof (induction todo rows ts rule: attach.induct)
  case (2 i todo rows ts)
  have "i \<noteq> ''''" using 2(3) by simp
  then have "named (Some i) (us @ map (\<lambda>r. Node r []) (filter (\<lambda>r. ro_parent r = Some i) rows))" if "named (Some i) us" for us
    using that by (simp add: named_leaves is_root_of_Some)
  then have "named p (map (change_kids (by_row i) (\<lambda>us. us @ map (\<lambda>r. Node r []) (filter (\<lambda>r. ro_parent r = Some i) rows))) ts)"
    by (rule named_change [OF 2(2)])
  then have "named p (add_kids i (filter (\<lambda>r. ro_parent r = Some i) rows) ts)"
    using 2(2) by (simp add: add_kids_def named_relabel)
  then show ?case using 2(1) [OF refl] 2(3,4) by (auto simp: Let_def)
qed simp

lemma transfer_facts:
  assumes "distinct (map ro_id rows)" "'''' \<notin> ro_id ` set rows" "\<And>q. truthy p = Some q \<Longrightarrow> q \<notin> ro_id ` set rows"
  shows "named p (transfer p rows)" "distinct (row_ids (transfer p rows))" "set (row_ids (transfer p rows)) \<subseteq> ro_id ` set rows"
proof -
  let ?ms = "filter (is_root_of p) rows"
  have "ro_id r \<noteq> ''''" if "r \<in> set rows" for r using assms(2) that by (metis imageI)
  then show "named p (transfer p rows)" unfolding transfer_def Let_def
    using assms(2) by (intro named_attach) (auto simp: named_leaves)
  have s: "row_shape (map (\<lambda>r. Node r []) ?ms) = map (\<lambda>x. Node x []) (map ro_id ?ms)" by (simp add: row_shape_def)
  have "attach_inv p rows (map ro_id ?ms) (filter (\<lambda>r. \<not> is_root_of p r) rows) (row_shape (map (\<lambda>r. Node r []) ?ms))"
    unfolding attach_inv_def Let_def s using assms(1) by (auto simp: distinct_map_filter intro: kids_are_leaves simp del: map_map)
  from attach_all [OF this assms] obtain rest where "attach_inv p rows [] rest (row_shape (transfer p rows))"
    by (auto simp: transfer_def Let_def)
  then show "distinct (row_ids (transfer p rows))" "set (row_ids (transfer p rows)) \<subseteq> ro_id ` set rows"
    by (auto simp: attach_inv_def Let_def flabels_shape)
qed


lemma named_prune: "named p ts \<Longrightarrow> named p (prune P ts)"
  by (induction ts arbitrary: p rule: forest_induct) auto

lemma label_flabels: "n \<in> set ts \<Longrightarrow> label n \<in> set (flabels ts)"
  using set_walk [of ts] by (subst walk_flabels [symmetric]) (auto simp: walk_def)

lemma walk_label: "Node a us \<in> set (walk_trees ts) \<Longrightarrow> a \<in> set (flabels ts)"
  by (subst walk_flabels [symmetric]) (force simp: walk_def)

text \<open>Taking a row out of the list of its parent takes it out of the forest.\<close>

lemma drop_row_Cons: "drop_row i (Node a us # ts) = (if ro_id a = i then ts else Node a us # drop_row i ts)"
  by (auto simp: drop_row_def remove_at_def split: option.split)

lemma drop_root:
  assumes "distinct (row_ids ts)" "i \<in> set (map (ro_id \<circ> label) ts)"
  shows "prune (by_row i) ts = drop_row i ts"
  using assms
proof (induction ts rule: forest_induct)
  case (Node a us ts)
  have n: "i \<notin> set (row_ids vs) \<Longrightarrow> prune (by_row i) vs = vs" for vs by (rule prune_none) (auto simp: by_row_def row_ids_def)
  have s: "set (map (ro_id \<circ> label) ts) \<subseteq> set (row_ids ts)" for ts
  proof -
    show ?thesis using label_flabels [of _ ts] by (auto simp: row_ids_def)
  qed
  show ?case
  proof (cases "ro_id a = i")
    case False
    then have i: "i \<in> set (map (ro_id \<circ> label) ts)" using Node.prems(2) by auto
    then have "i \<notin> set (row_ids us)" using Node.prems(1) s [of ts] by auto
    moreover have "prune (by_row i) ts = drop_row i ts" using Node.IH(2) [OF _ i] Node.prems(1) by simp
    moreover have "\<not> by_row i a" using False by (simp add: by_row_def)
    ultimately show ?thesis using False n [of us] by (simp add: drop_row_Cons)
  next
    case True
    then have "i \<notin> set (row_ids ts)" "by_row i a" using Node.prems(1) by (auto simp: by_row_def)
    then show ?thesis using True n [of ts] by (simp add: drop_row_Cons)
  qed
qed simp

lemma change_absent: "q \<notin> set (row_ids ts) \<Longrightarrow> map (change_kids (by_row q) g) ts = ts"
  by (rule map_idI, rule change_kids_none) (auto simp: by_row_def row_ids_def flabels_def)

lemma drop_below:
  assumes "named p ts" "distinct (row_ids ts)" "'''' \<notin> set (row_ids ts)" "r \<in> set (flabels ts)" "ro_id r = i"
    and "i \<notin> set (map (ro_id \<circ> label) ts)"
  shows "\<exists>q a vs. ro_parent r = Some q \<and> Node a vs \<in> set (walk_trees ts) \<and> ro_id a = q \<and> vs \<noteq> []
    \<and> prune (by_row i) ts = map (change_kids (by_row q) (drop_row i)) ts"
  using assms
proof (induction ts arbitrary: p rule: forest_induct)
  case (Node b us ts)
  have n: "i \<notin> set (row_ids vs) \<Longrightarrow> prune (by_row i) vs = vs" for vs by (rule prune_none) (auto simp: by_row_def row_ids_def)
  have w: "set (walk_trees us) \<subseteq> set (walk_trees (Node b us # ts))" "set (walk_trees ts) \<subseteq> set (walk_trees (Node b us # ts))"
    "Node b us \<in> set (walk_trees (Node b us # ts))" by (auto simp: set_walk_append)
  have wid: "Node a vs \<in> set (walk_trees xs) \<Longrightarrow> ro_id a \<in> set (row_ids xs)" for a vs and xs :: "trow forest"
    using walk_label [of a vs xs] by (simp add: row_ids_def)
  have b: "ro_id b \<noteq> i" "i \<notin> set (map (ro_id \<circ> label) ts)" using Node.prems(6) by auto
  then consider "r \<in> set (flabels us)" | "r \<in> set (flabels ts)" using Node.prems(4,5) by auto
  then show ?case
  proof cases
    case 1
    then have i: "i \<in> set (row_ids us)" "i \<notin> set (row_ids ts)" using Node.prems(2,5) by (auto simp: row_ids_def)
    show ?thesis
    proof (cases "i \<in> set (map (ro_id \<circ> label) us)")
      case True
      have "is_root_of (Some (ro_id b)) r"
      proof -
        from True obtain m where m: "m \<in> set us" "ro_id (label m) = i" by auto
        have "label m \<in> set (flabels us)" using m(1) by (rule label_flabels)
        then have "label m = r" using 1 Node.prems(2,5) m(2) by (auto simp: row_ids_def distinct_map dest: inj_onD)
        then show ?thesis using m(1) Node.prems(1) named_all [of "Some (ro_id b)" us] by auto
      qed
      moreover have "ro_id b \<noteq> ''''" using Node.prems(3) by auto
      ultimately have "ro_parent r = Some (ro_id b)" by (metis is_root_of_Some)
      moreover have "prune (by_row i) (Node b us # ts) = map (change_kids (by_row (ro_id b)) (drop_row i)) (Node b us # ts)"
        using drop_root [of us i] True Node.prems(2) b i n [of ts] change_absent [of "ro_id b" ts] by (simp add: by_row_def)
      moreover have "us \<noteq> []" using i by auto
      ultimately show ?thesis using w(3) by blast
    next
      case False
      from Node.IH(1) [of "Some (ro_id b)", OF _ _ _ 1 Node.prems(5) False] Node.prems(1,2,3)
      obtain q a vs where q: "ro_parent r = Some q" "Node a vs \<in> set (walk_trees us)" "ro_id a = q" "vs \<noteq> []"
        "prune (by_row i) us = map (change_kids (by_row q) (drop_row i)) us" by auto
      then have "q \<in> set (row_ids us)" using wid by blast
      then have "q \<notin> set (row_ids ts)" "q \<noteq> ro_id b" using Node.prems(2) by auto
      then have "prune (by_row i) (Node b us # ts) = map (change_kids (by_row q) (drop_row i)) (Node b us # ts)"
        using q(5) b i n [of ts] change_absent [of q ts] by (simp add: by_row_def)
      then show ?thesis using q w(1) by blast
    qed
  next
    case 2
    then have i: "i \<in> set (row_ids ts)" "i \<notin> set (row_ids us)" using Node.prems(2,5) by (auto simp: row_ids_def)
    from Node.IH(2) [of p, OF _ _ _ 2 Node.prems(5) b(2)] Node.prems(1,2,3)
    obtain q a vs where q: "ro_parent r = Some q" "Node a vs \<in> set (walk_trees ts)" "ro_id a = q" "vs \<noteq> []"
      "prune (by_row i) ts = map (change_kids (by_row q) (drop_row i)) ts" by auto
    then have "q \<in> set (row_ids ts)" using wid by blast
    then have "q \<notin> set (row_ids us)" "q \<noteq> ro_id b" using Node.prems(2) by auto
    then have "prune (by_row i) (Node b us # ts) = map (change_kids (by_row q) (drop_row i)) (Node b us # ts)"
      using q(5) b i n [of us] change_absent [of q us] by (simp add: by_row_def)
    then show ?thesis using q w(2) by blast
  qed
qed simp

section \<open>The invariant\<close>

definition tree_grid_ok :: "treegrid \<Rightarrow> bool" where
  "tree_grid_ok t = (tg_remote t \<and> row_shape (tg_data t) = elem_shape (tg_dom t) \<and> distinct (row_ids (tg_data t))
     \<and> '''' \<notin> set (row_ids (tg_data t)) \<and> named None (tg_data t) \<and> elems_ok 0 (tg_dom t))"

lemma tree_grid_okI:
  "tg_remote t \<Longrightarrow> row_shape (tg_data t) = elem_shape (tg_dom t) \<Longrightarrow> distinct (row_ids (tg_data t)) \<Longrightarrow> '''' \<notin> set (row_ids (tg_data t))
   \<Longrightarrow> named None (tg_data t) \<Longrightarrow> elems_ok 0 (tg_dom t) \<Longrightarrow> tree_grid_ok t"
  by (simp add: tree_grid_ok_def)

lemma tree_grid_okD:
  assumes "tree_grid_ok t"
  shows "tg_remote t" "row_shape (tg_data t) = elem_shape (tg_dom t)" "distinct (row_ids (tg_data t))" "'''' \<notin> set (row_ids (tg_data t))"
    "named None (tg_data t)" "elems_ok 0 (tg_dom t)" "map te_id (flabels (tg_dom t)) = row_ids (tg_data t)"
  using assms flabels_shape(1) [of "tg_data t"] flabels_shape(2) [of "tg_dom t"] unfolding tree_grid_ok_def by simp_all

lemma walk_map_rose: "walk_trees (map (map_rose f) ts) = map (map_rose f) (walk_trees ts)"
  by (induction ts rule: walk_trees.induct) simp_all

text \<open>The two forests have the same rows below every row.\<close>

lemma kids_match:
  assumes "tree_grid_ok t" "Node e us \<in> set (walk_trees (tg_dom t))" "Node r vs \<in> set (walk_trees (tg_data t))" "te_id e = ro_id r"
  shows "elem_shape us = row_shape vs"
proof -
  let ?s = "row_shape (tg_data t)"
  have w: "walk_trees ?s = map (map_rose ro_id) (walk_trees (tg_data t))" "walk_trees ?s = map (map_rose te_id) (walk_trees (tg_dom t))"
    unfolding tree_grid_okD(2) [OF assms(1)] by (simp_all add: elem_shape_def walk_map_rose)
      (metis assms(1) row_shape_def tree_grid_okD(2) elem_shape_def walk_map_rose)
  have "Node (ro_id r) (row_shape vs) \<in> set (walk_trees ?s)" using assms(3) unfolding w(1) by (force simp: row_shape_def)
  moreover have "Node (te_id e) (elem_shape us) \<in> set (walk_trees ?s)" using assms(2) unfolding w(2) by (force simp: elem_shape_def)
  moreover have "inj_on label (set (walk_trees ?s))"
    using tree_grid_okD(3) [OF assms(1)] walk_flabels [of ?s] by (simp add: walk_def flabels_shape distinct_map [symmetric])
      (metis distinct_map)
  ultimately have "Node (ro_id r) (row_shape vs) = Node (te_id e) (elem_shape us)"
    using inj_onD [of label "set (walk_trees ?s)" "Node (ro_id r) (row_shape vs)" "Node (te_id e) (elem_shape us)"] assms(4)
    by (metis rose.sel(1))
  then show ?thesis by simp
qed

lemma row_elem_in: "row_elem i t = Some e \<Longrightarrow> e \<in> set (flabels (tg_dom t)) \<and> te_id e = i"
  using find_tree_label [of "by_elem i" "tg_dom t"] find_tree_walk [of "by_elem i" "tg_dom t"] walk_label [of e _ "tg_dom t"]
  by (auto simp: row_elem_def by_elem_def) (metis rose.collapse)

lemma elem_unique:
  assumes "tree_grid_ok t" "e \<in> set (flabels (tg_dom t))" "e' \<in> set (flabels (tg_dom t))" "te_id e = te_id e'"
  shows "e = e'"
proof -
  have "distinct (map te_id (flabels (tg_dom t)))" using tree_grid_okD(3,7) [OF assms(1)] by simp
  then show ?thesis using assms(2-4) by (auto simp: distinct_map dest: inj_onD)
qed

lemma ok_note [simp]: "tree_grid_ok (tg_note n t) = tree_grid_ok t"
  by (simp add: tree_grid_ok_def tg_note_def)

lemma ok_fields [simp]:
  "tree_grid_ok (t\<lparr>tg_pending := ps\<rparr>) = tree_grid_ok t" "tree_grid_ok (t\<lparr>tg_query := q\<rparr>) = tree_grid_ok t"
  "tree_grid_ok (t\<lparr>tg_total := n\<rparr>) = tree_grid_ok t" "tree_grid_ok (t\<lparr>tg_sort := ks\<rparr>) = tree_grid_ok t"
  by (simp_all add: tree_grid_ok_def)

lemma detach_sel [simp]:
  "tg_data (detach is t) = tg_data t" "tg_dom (detach is t) = tg_dom t" "tg_remote (detach is t) = tg_remote t"
  "row_elem i (detach is t) = row_elem i t" "tree_grid_ok (detach is t) = tree_grid_ok t"
  by (simp_all add: detach_def row_elem_def)

lemma ok_total [simp]: "tree_grid_ok (incoming_total pl t) = tree_grid_ok t"
  by (simp add: incoming_total_def split: tree_rows.split option.split)

lemma ok_renumber: "tree_grid_ok t \<Longrightarrow> tree_grid_ok (renumber_rows t)"
  by (simp add: tree_grid_ok_def renumber_rows_def number_shape elems_ok_number)

lemma ok_request: "tree_grid_ok t \<Longrightarrow> tree_grid_ok (request_rows row q app opens t)"
  by (simp add: request_rows_def Let_def split: option.split)

lemma node_unique:
  assumes "tree_grid_ok t" "m \<in> set (walk_trees (tg_dom t))" "n \<in> set (walk_trees (tg_dom t))" "te_id (label m) = te_id (label n)"
  shows "m = n"
proof -
  have "map (te_id \<circ> label) (walk_trees (tg_dom t)) = row_ids (tg_data t)"
    unfolding tree_grid_okD(7) [OF assms(1), symmetric] walk_flabels [symmetric] walk_def by simp
  then have "inj_on (te_id \<circ> label) (set (walk_trees (tg_dom t)))" using tree_grid_okD(3) [OF assms(1)] by (metis distinct_map)
  then show ?thesis using assms(2-4) by (simp add: inj_on_def)
qed

lemma set_telem_ok:
  assumes "tree_grid_ok t"
    and "\<And>lev e us. Node e us \<in> set (walk_trees (tg_dom t)) \<Longrightarrow> te_id e = i \<Longrightarrow> elem_good lev e us \<Longrightarrow> elem_good lev (f e) us"
    and "\<And>e. te_id e = i \<Longrightarrow> te_id (f e) = i"
  shows "tree_grid_ok (set_telem i f t)"
proof (rule tree_grid_okI)
  have "elem_shape (tg_dom (set_telem i f t)) = elem_shape (tg_dom t)"
    unfolding set_telem_def by (auto simp: by_elem_def assms(3) intro!: set_elem_shape)
  then show "row_shape (tg_data (set_telem i f t)) = elem_shape (tg_dom (set_telem i f t))"
    using tree_grid_okD(2) [OF assms(1)] by (simp add: set_telem_def)
  show "elems_ok 0 (tg_dom (set_telem i f t))" unfolding set_telem_def using tree_grid_okD(6) [OF assms(1)]
    by (auto intro!: elems_ok_relabel assms(2) simp: by_elem_def)
qed (use tree_grid_okD [OF assms(1)] in \<open>simp_all add: set_telem_def\<close>)

lemma set_trow_ok:
  assumes "tree_grid_ok t" "\<And>r. ro_id (f r) = ro_id r \<and> ro_parent (f r) = ro_parent r"
  shows "tree_grid_ok (set_trow i f t)"
proof -
  have "row_shape (tg_data (set_trow i f t)) = row_shape (tg_data t)" unfolding set_trow_def by (simp add: set_row_shape assms(2))
  moreover have "row_ids (tg_data (set_trow i f t)) = row_ids (tg_data t)" using calculation by (metis flabels_shape(1))
  moreover have "named None (tg_data (set_trow i f t))"
    using tree_grid_okD(5) [OF assms(1)] assms(2) by (simp add: set_trow_def named_relabel)
  moreover have "tg_dom (set_trow i f t) = tg_dom t" "tg_remote (set_trow i f t) = tg_remote t" by (simp_all add: set_trow_def)
  ultimately show ?thesis using tree_grid_okD [OF assms(1)] by (intro tree_grid_okI) simp_all
qed

lemma level_elem:
  assumes "tree_grid_ok t" "e \<in> set (flabels (tg_dom t))" "te_id e = i"
  shows "row_elem i t = Some e" "level_of (Some i) t = level_of_elem e"
proof -
  have "row_elem i t \<noteq> None" using assms(2,3) by (auto simp: row_elem_def find_tree_None by_elem_def)
  then obtain y where y: "row_elem i t = Some y" by blast
  then have "e = y" using row_elem_in [OF y] elem_unique [OF assms(1,2), of y] assms(3) by simp
  then show e: "row_elem i t = Some e" using y by simp
  show "level_of (Some i) t = level_of_elem e" by (simp add: level_of_def e)
qed

lemma has_elem: "tree_grid_ok t \<Longrightarrow> has_row i t = (row_elem i t \<noteq> None)"
proof -
  assume "tree_grid_ok t"
  then have "set (row_ids (tg_data t)) = te_id ` set (flabels (tg_dom t))" using tree_grid_okD(7) [of t] by (metis set_map)
  then show ?thesis by (auto simp: has_row_def row_elem_def find_tree_None by_elem_def)
qed

lemma at_sel [simp]:
  "tg_dom (data_at place g t) = tg_dom t" "tg_remote (data_at place g t) = tg_remote t" "tg_data (dom_at place h t) = tg_data t"
  "tg_remote (dom_at place h t) = tg_remote t"
  by (simp_all add: data_at_def dom_at_def split: option.split)

text \<open>New rows at the end of a list\<close>

lemma grow_ok:
  assumes t: "tree_grid_ok t" and place: "\<And>i. place = Some i \<Longrightarrow> \<exists>e. row_elem i t = Some e \<and> te_sub e \<and> te_folder e"
    and ns: "named place ns" "distinct (row_ids ns)" "'''' \<notin> set (row_ids ns)" "set (row_ids ns) \<inter> set (row_ids (tg_data t)) = {}"
  shows "tree_grid_ok (dom_at place (\<lambda>us. us @ render_tree_rows t0 (level_of place t) ns) (data_at place (\<lambda>us. us @ ns) t))" (is "tree_grid_ok ?t'")
proof (rule tree_grid_okI)
  let ?s = "row_shape (tg_data t)" and ?g = "\<lambda>s. s @ row_shape ns"
  have e: "te_sub e \<and> te_folder e \<and> level_of_elem e = level_of place t" if "place = Some i" "e \<in> set (flabels (tg_dom t))" "te_id e = i" for i e
    using place [OF that(1)] level_elem [OF t that(2,3)] that(1) by auto
  have d: "row_shape (tg_data ?t') = at_place_ids place ?g ?s"
    by (subst at_sel) (rule data_at_shape, simp)
  moreover have "elem_shape (tg_dom ?t') = at_place_ids place ?g (elem_shape (tg_dom t))"
    by (subst dom_at_shape [where g' = ?g]) (use e in \<open>auto simp: render_shape\<close>)
  ultimately show "row_shape (tg_data ?t') = elem_shape (tg_dom ?t')" using tree_grid_okD(2) [OF t] by simp
  have r: "distinct (flabels (at_place_ids place ?g ?s)) \<and> set (flabels (at_place_ids place ?g ?s)) \<subseteq> set (flabels ?s) \<union> set (row_ids ns)"
  proof (cases place)
    case (Some i)
    have "distinct (flabels (at_key i ?g ?s)) \<and> set (flabels (at_key i ?g ?s)) \<subseteq> set (flabels ?s) \<union> set (row_ids ns)"
      by (rule at_key_distinct) (use tree_grid_okD(3) [OF t] ns in \<open>auto simp: flabels_shape\<close>)
    then show ?thesis using Some by (simp add: at_place_ids_def)
  qed (use tree_grid_okD(3) [OF t] ns in \<open>auto simp: at_place_ids_def flabels_shape\<close>)
  then show "distinct (row_ids (tg_data ?t'))" "'''' \<notin> set (row_ids (tg_data ?t'))"
    unfolding flabels_shape(1) [symmetric] d using ns(3) tree_grid_okD(4) [OF t] by (auto simp: flabels_shape(1))
  show "named None (tg_data ?t')"
  proof (cases place)
    case (Some i)
    have "named None (map (change_kids (by_row i) (\<lambda>us. us @ ns)) (tg_data t))"
      by (rule named_change) (use ns(1) Some tree_grid_okD(5) [OF t] in simp_all)
    then show ?thesis using Some by (simp add: data_at_def named_relabel)
  qed (use ns(1) tree_grid_okD(5) [OF t] in \<open>simp add: data_at_def\<close>)
  show "elems_ok 0 (tg_dom ?t')"
  proof (cases place)
    case (Some i)
    have "elems_ok 0 (map (change_kids (\<lambda>e. by_elem i e \<and> te_sub e) (\<lambda>us. us @ render_tree_rows t0 (level_of place t) ns)) (tg_dom t))"
      by (rule elems_ok_change [where L = "level_of place t"])
        (use tree_grid_okD(6) [OF t] e [OF Some] in \<open>auto simp: by_elem_def elems_ok_render\<close>)
    then show ?thesis using Some by (simp add: dom_at_def)
  qed (use tree_grid_okD(6) [OF t] in \<open>simp add: dom_at_def level_of_def elems_ok_render\<close>)
qed (use tree_grid_okD(1) [OF t] in simp)

lemma incoming_facts:
  assumes "fresh_rows is pl" "\<And>q. p = Some q \<Longrightarrow> q \<in> set is"
  shows "named p (map (map_rose settle) (incoming p pl))" "distinct (row_ids (map (map_rose settle) (incoming p pl)))"
    "'''' \<notin> set (row_ids (map (map_rose settle) (incoming p pl)))" "set (row_ids (map (map_rose settle) (incoming p pl))) \<inter> set is = {}"
proof -
  have i: "row_ids (map (map_rose settle) ts) = row_ids ts" for ts
    by (auto simp: row_ids_def settle_def comp_def intro: map_cong)
  have n: "named p (map (map_rose settle) ts)" if "named p ts" for ts by (rule named_map [OF that]) (simp add: settle_def)
  have "named p (incoming p pl) \<and> distinct (row_ids (incoming p pl)) \<and> set (row_ids (incoming p pl)) \<subseteq> set (new_row_ids pl)"
  proof (cases pl)
    case (Nested ts)
    have "row_ids (set_parents p ts) = row_ids ts" by (metis flabels_shape(1) set_parents_shape)
    then show ?thesis using assms(1) Nested named_set_parents [of p ts] by (simp add: incoming_def fresh_rows_def new_row_ids_def)
  next
    case (Flat rows m)
    have "named p (transfer p rows)" "distinct (row_ids (transfer p rows))" "set (row_ids (transfer p rows)) \<subseteq> ro_id ` set rows"
      by (rule transfer_facts; use assms Flat in \<open>force simp: fresh_rows_def new_row_ids_def truthy_def split: option.splits if_splits\<close>)+
    then show ?thesis using Flat by (simp add: incoming_def new_row_ids_def)
  qed
  then show "named p (map (map_rose settle) (incoming p pl))" "distinct (row_ids (map (map_rose settle) (incoming p pl)))"
    "'''' \<notin> set (row_ids (map (map_rose settle) (incoming p pl)))" "set (row_ids (map (map_rose settle) (incoming p pl))) \<inter> set is = {}"
    using assms(1) n by (auto simp: i fresh_rows_def)
qed

lemma total_sel [simp]:
  "tg_dom (incoming_total pl t) = tg_dom t" "tg_data (incoming_total pl t) = tg_data t" "row_elem i (incoming_total pl t) = row_elem i t"
  "level_of p (incoming_total pl t) = level_of p t" "tg_remote (incoming_total pl t) = tg_remote t"
  by (simp_all add: incoming_total_def row_elem_def level_of_def split: tree_rows.split option.split)

lemma has_find: "has_row i t = (find_row i t \<noteq> None)"
  by (force simp: has_row_def find_row_def find_tree_None by_row_def row_ids_def)

definition awaits :: "treegrid \<Rightarrow> string \<Rightarrow> bool" where
  "awaits t i = (\<exists>e. row_elem i t = Some e \<and> te_sub e \<and> te_folder e)"

text \<open>Emptying the list of rows under a row\<close>

definition emptied :: "string \<Rightarrow> treegrid \<Rightarrow> treegrid" where
  "emptied i t = t\<lparr>tg_data := map (change_kids (by_row i) (\<lambda>_. [])) (tg_data t), tg_dom := map (change_kids (by_elem i) (\<lambda>_. [])) (tg_dom t)\<rparr>"

lemma emptied_ok:
  assumes t: "tree_grid_ok t"
  shows "tree_grid_ok (emptied i t)" "set (row_ids (tg_data (emptied i t))) \<subseteq> set (row_ids (tg_data t))"
proof -
  let ?t1 = "emptied i t"
  have s: "row_shape (tg_data ?t1) = at_key i (\<lambda>_. []) (row_shape (tg_data t))" "elem_shape (tg_dom ?t1) = at_key i (\<lambda>_. []) (elem_shape (tg_dom t))"
    by (auto simp: emptied_def row_shape_def elem_shape_def at_key_def by_row_def by_elem_def intro!: map_rose_change_kids)
  have r: "distinct (row_ids (tg_data ?t1)) \<and> set (row_ids (tg_data ?t1)) \<subseteq> set (row_ids (tg_data t))"
    using at_key_distinct [of "row_shape (tg_data t)" "{}" "\<lambda>_. []" i] tree_grid_okD(3) [OF t] s(1)
    by (auto simp: flabels_shape(1) [symmetric])
  then show "set (row_ids (tg_data ?t1)) \<subseteq> set (row_ids (tg_data t))" by blast
  show "tree_grid_ok ?t1"
  proof (rule tree_grid_okI)
    show "row_shape (tg_data ?t1) = elem_shape (tg_dom ?t1)" using s tree_grid_okD(2) [OF t] by simp
    show "distinct (row_ids (tg_data ?t1))" "'''' \<notin> set (row_ids (tg_data ?t1))" using r tree_grid_okD(4) [OF t] by auto
    show "named None (tg_data ?t1)" using tree_grid_okD(5) [OF t] by (auto simp: emptied_def intro: named_change)
    show "elems_ok 0 (tg_dom ?t1)" using elems_ok_empty_kids [OF tree_grid_okD(6) [OF t]] by (simp add: emptied_def)
    show "tg_remote ?t1" using tree_grid_okD(1) [OF t] by (simp add: emptied_def)
  qed
qed

lemma row_elem_emptied: "row_elem i (emptied i t) = row_elem i t"
proof -
  have "map_option label (find_tree (by_elem i) (map (change_kids (by_elem i) g) ts)) = map_option label (find_tree (by_elem i) ts)" for g ts
    by (induction ts rule: forest_induct) (auto split: option.splits)
  then show ?thesis by (simp add: row_elem_def emptied_def)
qed

lemma change_open:
  "elems_ok lev ts \<Longrightarrow> h [] = [] \<Longrightarrow> map (change_kids (\<lambda>e. by_elem i e \<and> te_sub e) h) ts = map (change_kids (by_elem i) h) ts"
  by (induction ts arbitrary: lev rule: forest_induct) (auto simp: elem_good_def)

lemma cleared:
  "tree_grid_ok t \<Longrightarrow> dom_at (Some i) (\<lambda>_. []) (data_at (Some i) (\<lambda>_. []) t) = set_trow i (\<lambda>r. r\<lparr>ro_branch := True\<rparr>) (emptied i t)"
  using change_open [OF tree_grid_okD(6), of t "\<lambda>_. []" i] by (simp add: dom_at_def data_at_def set_trow_def emptied_def)

lemma load_rows_ok:
  assumes t: "tree_grid_ok t" and root: "p = None \<Longrightarrow> fresh_rows (if app then row_ids (tg_data t) else []) pl"
    and below: "\<And>i. p = Some i \<Longrightarrow> fresh_rows (row_ids (tg_data t)) pl \<and> awaits t i"
  shows "tree_grid_ok (load_tree_rows p app pl t)"
proof -
  let ?t0 = "if app then t else detach (map ro_id (rows_below p t)) (dom_at p (\<lambda>_. []) (data_at p (\<lambda>_. []) t))"
  let ?t1 = "incoming_total pl ?t0"
  let ?ns = "map (map_rose settle) (incoming p pl)"
  have t0: "tree_grid_ok ?t0 \<and> fresh_rows (row_ids (tg_data ?t0)) pl \<and> (\<forall>i. p = Some i \<longrightarrow> row_elem i ?t0 = row_elem i t)"
  proof (cases p)
    case None
    then show ?thesis using t root by (auto simp: tree_grid_ok_def dom_at_def data_at_def)
  next
    case (Some i)
    let ?e = "set_trow i (\<lambda>r. r\<lparr>ro_branch := True\<rparr>) (emptied i t)"
    have e: "tree_grid_ok ?e" by (rule set_trow_ok [OF emptied_ok(1) [OF t]]) simp
    have "row_ids (tg_data ?e) = row_ids (tg_data (emptied i t))"
      by (simp add: set_trow_def row_ids_def comp_def if_distrib [of ro_id] cong: if_cong)
    moreover have "row_elem i ?e = row_elem i (emptied i t)" by (simp add: set_trow_def row_elem_def)
    ultimately show ?thesis using t Some below [OF Some] e emptied_ok(2) [OF t, of i] unfolding Some cleared [OF t]
      by (auto simp: row_elem_emptied fresh_rows_def)
  qed
  then have t1: "tree_grid_ok ?t1" and fr: "fresh_rows (row_ids (tg_data ?t1)) pl" by simp_all
  have lev: "level_of p ?t1 = level_of p t" using t0 by (cases p) (simp_all add: level_of_def)
  have aw: "awaits ?t1 i" if "p = Some i" for i using t0 below that by (simp add: awaits_def)
  then have here: "q \<in> set (row_ids (tg_data ?t1))" if "p = Some q" for q
    using has_elem [OF t1, of q] that by (auto simp: awaits_def has_row_def)
  have place: "place_of p t = p"
  proof (cases p)
    case (Some i)
    then have "has_row i t" using below has_elem [OF t, of i] by (auto simp: awaits_def)
    then show ?thesis using Some by (simp add: place_of_def has_find)
  qed (simp add: place_of_def)
  note i = incoming_facts [OF fr here]
  have "tree_grid_ok (dom_at p (\<lambda>us. us @ render_tree_rows t (level_of p ?t1) ?ns) (data_at p (\<lambda>us. us @ ?ns) ?t1))"
    by (rule grow_ok [OF t1 _ i]) (use aw in \<open>auto simp: awaits_def\<close>)
  then have "tree_grid_ok (tg_note (RowsLoaded p) (renumber_rows (dom_at p (\<lambda>us. us @ render_tree_rows t (level_of p t) ?ns) (data_at p (\<lambda>us. us @ ?ns) ?t1))))"
    unfolding lev by (simp add: ok_renumber)
  note ok = this
  have s: "sorts t = False" using tree_grid_okD(1) [OF t] by (simp add: sorts_def)
  show ?thesis unfolding load_tree_rows_def Let_def place s if_False if_cancel by (rule ok)
qed

lemma set_telem_sel [simp]: "tg_data (set_telem i f t) = tg_data t" "tg_pending (set_telem i f t) = tg_pending t"
  by (simp_all add: set_telem_def)

lemma row_elem_set:
  "(\<And>e. te_id e = i \<Longrightarrow> te_id (f e) = i) \<Longrightarrow> row_elem i (set_telem i f t) = map_option f (row_elem i t)"
proof -
  assume f: "\<And>e. te_id e = i \<Longrightarrow> te_id (f e) = i"
  have "map_option label (find_tree (by_elem i) (relabel (by_elem i) f ts)) = map_option f (map_option label (find_tree (by_elem i) ts))" for ts
    by (induction ts rule: forest_induct) (auto simp: by_elem_def f split: option.splits)
  then show ?thesis by (simp add: row_elem_def set_telem_def)
qed

lemma open_folder_good: "elem_good lev e us \<Longrightarrow> elem_good lev (open_folder e) us"
  by (auto simp: elem_good_def open_folder_def Let_def level_of_elem_def)

lemma open_folder_sel [simp]: "te_id (open_folder e) = te_id e" "te_sub (open_folder e)" "te_folder (open_folder e)"
  by (auto simp: open_folder_def Let_def)

lemma append_rows_ok:
  assumes "tree_grid_ok t" "fresh_rows (row_ids (tg_data t)) (Nested ns)" "\<And>i. p = Some i \<Longrightarrow> has_row i t"
  shows "tree_grid_ok (append_rows p ns t)"
proof (cases p)
  case (Some i)
  have t1: "tree_grid_ok (set_telem i open_folder t)" by (rule set_telem_ok [OF assms(1) open_folder_good]) simp_all
  obtain e where "row_elem i t = Some e" using assms(1,3) Some has_elem by auto
  then have "awaits (set_telem i open_folder t) i" by (simp add: awaits_def row_elem_set)
  then show ?thesis unfolding append_rows_def using Some assms(2) t1 by (auto intro!: load_rows_ok)
qed (use assms(1,2) in \<open>auto simp: append_rows_def intro: load_rows_ok\<close>)

section \<open>Expanding and collapsing keep the invariant\<close>

lemma show_below_ok: "tree_grid_ok t \<Longrightarrow> tree_grid_ok (show_below i t)"
  unfolding show_below_def by (auto intro!: set_telem_ok set_trow_ok simp: elem_good_def level_of_elem_def)

lemma row_elem_hit: "tree_grid_ok t \<Longrightarrow> row_elem i t = Some e \<Longrightarrow> Node e' us \<in> set (walk_trees (tg_dom t)) \<Longrightarrow> te_id e' = i \<Longrightarrow> e' = e"
  using row_elem_in [of i t e] elem_unique [of t e' e] walk_label [of e' us] by simp

lemma expand_ok: "tree_grid_ok t \<Longrightarrow> tree_grid_ok (expand_row i t)"
proof (cases "row_elem i t")
  case (Some e)
  assume t: "tree_grid_ok t"
  let ?f = "\<lambda>e. e\<lparr>te_hit := Some HitExpanded, te_folder_open := True\<rparr>"
  show ?thesis
  proof (cases "te_hit e \<noteq> Some HitCollapsed \<or> \<not> tg_allow t HookExpand (Some i)")
    case False
    have 1: "tree_grid_ok (set_telem i ?f t)"
      by (rule set_telem_ok [OF t]) (use row_elem_hit [OF t Some] False in \<open>auto simp: elem_good_def level_of_elem_def\<close>)
    then have "tree_grid_ok (set_telem i (\<lambda>e. e\<lparr>te_sub := True, te_shown := False\<rparr>) (set_telem i ?f t))"
      by (rule set_telem_ok) (auto simp: elem_good_def level_of_elem_def)
    with 1 show ?thesis using False by (auto simp: expand_row_def Let_def Some intro: show_below_ok ok_request)
  qed (use t Some in \<open>auto simp: expand_row_def\<close>)
qed (simp add: expand_row_def)

lemma collapse_ok: "tree_grid_ok t \<Longrightarrow> tree_grid_ok (collapse_row i t)"
proof (cases "row_elem i t")
  case (Some e)
  assume t: "tree_grid_ok t"
  have s: "tree_grid_ok (set_trow i (\<lambda>r. r\<lparr>ro_state := StateClosed\<rparr>) t)" by (rule set_trow_ok [OF t]) simp
  have d: "tg_dom (set_trow i (\<lambda>r. r\<lparr>ro_state := StateClosed\<rparr>) t) = tg_dom t" by (simp add: set_trow_def)
  show ?thesis
  proof (cases "te_hit e \<noteq> Some HitExpanded \<or> \<not> tg_allow t HookCollapse (Some i)")
    case False
    have "tree_grid_ok (set_telem i (\<lambda>e. e\<lparr>te_hit := Some HitCollapsed, te_folder_open := False, te_shown := False\<rparr>)
      (set_trow i (\<lambda>r. r\<lparr>ro_state := StateClosed\<rparr>) t))"
      by (rule set_telem_ok [OF s]) (use row_elem_hit [OF t Some] False d in \<open>auto simp: elem_good_def level_of_elem_def\<close>)
    then show ?thesis using False by (auto simp: collapse_row_def Some)
  qed (use t Some in \<open>auto simp: collapse_row_def\<close>)
qed (simp add: collapse_row_def)

lemma toggle_ok: "tree_grid_ok t \<Longrightarrow> tree_grid_ok (toggle_tree_row i t)"
  by (simp add: toggle_tree_row_def expand_ok collapse_ok split: option.split row_hit.split)

lemma fold_ok: "tree_grid_ok t \<Longrightarrow> (\<And>i t. tree_grid_ok t \<Longrightarrow> tree_grid_ok (f i t)) \<Longrightarrow> tree_grid_ok (fold f is t)"
  by (induction "is" arbitrary: t) auto

section \<open>Moving, removing and changing rows\<close>

lemma mset_flabels: "mset ts = mset us \<Longrightarrow> mset (flabels ts) = mset (flabels us)"
proof -
  have "mset (flabels ts) = \<Sum>\<^sub># (image_mset (mset \<circ> labels) (mset ts))" for ts :: "'a forest"
    by (induction ts) (simp_all add: flabels_def)
  then show "mset ts = mset us \<Longrightarrow> mset (flabels ts) = mset (flabels us)" by simp
qed

lemma mset_change: "(\<And>us. mset (g us) = mset us) \<Longrightarrow> mset (flabels (map (change_kids P g) ts)) = mset (flabels ts)"
proof (induction ts rule: forest_induct)
  case (Node a us ts)
  then show ?case using mset_flabels [of "g us" us] by auto
qed simp

lemma elems_ok_reorder: "elems_ok lev ts \<Longrightarrow> (\<And>us. mset (h us) = mset us) \<Longrightarrow> elems_ok lev (map (change_kids P h) ts)"
proof (induction ts arbitrary: lev rule: forest_induct)
  case (Node e us ts)
  have "set (h us) = set us" "h us = [] \<longleftrightarrow> us = []" using Node.prems(2) [of us] by (metis mset_eq_setD, metis mset_zero_iff)
  moreover have "elems_ok (lev + 1) (h us) = elems_ok (lev + 1) us" using calculation(1) by (metis elems_ok_all)
  ultimately show ?case using Node by (auto simp: elem_good_def)
qed simp

lemma named_reorder: "named p ts \<Longrightarrow> (\<And>us. mset (g us) = mset us) \<Longrightarrow> named p (map (change_kids P g) ts)"
proof (induction ts arbitrary: p rule: forest_induct)
  case (Node r us ts)
  have "set (g us) = set us" using Node.prems(2) [of us] by (metis mset_eq_setD)
  then have "named (Some (ro_id r)) (g us) = named (Some (ro_id r)) us" by (metis named_all)
  then show ?case using Node by auto
qed simp

lemma reorder_ok:
  assumes t: "tree_grid_ok t" and g: "\<And>us. mset (g us) = mset us" "\<And>us. row_shape (g us) = g' (row_shape us)"
    and h: "\<And>us. mset (h us) = mset us" "\<And>us. elem_shape (h us) = g' (elem_shape us)"
  shows "tree_grid_ok (dom_at place h (data_at place g t))" (is "tree_grid_ok ?t'")
proof (rule tree_grid_okI)
  have d: "tg_dom ?t' = (case place of None \<Rightarrow> h (tg_dom t) | Some i \<Rightarrow> map (change_kids (by_elem i) h) (tg_dom t))"
    using change_open [OF tree_grid_okD(6) [OF t], of h] h(1) [of "[]"] by (auto simp: dom_at_def split: option.split)
  have s: "elem_shape (map (change_kids (by_elem i) h) ts) = at_key i g' (elem_shape ts)" for i ts
  proof -
    have "map_rose te_id (change_kids (by_elem i) h n) = change_kids (\<lambda>x. x = i) g' (map_rose te_id n)" for n
      by (rule map_rose_change_kids) (simp_all add: by_elem_def h(2) [unfolded elem_shape_def])
    then show ?thesis by (simp add: elem_shape_def at_key_def)
  qed
  have "elem_shape (tg_dom ?t') = at_place_ids place g' (elem_shape (tg_dom t))"
    unfolding d by (simp add: at_place_ids_def h(2) s split: option.split)
  moreover have "row_shape (tg_data ?t') = at_place_ids place g' (row_shape (tg_data t))"
    by (subst at_sel) (rule data_at_shape, rule g(2))
  ultimately show "row_shape (tg_data ?t') = elem_shape (tg_dom ?t')" using tree_grid_okD(2) [OF t] by simp
  have "mset (row_ids (tg_data ?t')) = mset (row_ids (tg_data t))"
  proof (cases place)
    case None
    then have "mset (flabels (tg_data ?t')) = mset (flabels (tg_data t))" using mset_flabels [OF g(1)] by (simp add: data_at_def)
    then show ?thesis by (simp add: row_ids_def)
  next
    case (Some i)
    have "row_ids (tg_data ?t') = row_ids (map (change_kids (by_row i) g) (tg_data t))"
      using Some by (simp add: data_at_def row_ids_def comp_def if_distrib [of ro_id] cong: if_cong)
    then show ?thesis using mset_change [OF g(1), where ts = "tg_data t"] by (simp add: row_ids_def)
  qed
  then show "distinct (row_ids (tg_data ?t'))" "'''' \<notin> set (row_ids (tg_data ?t'))"
    using tree_grid_okD(3,4) [OF t] by (metis mset_eq_imp_distinct_iff, metis mset_eq_setD)
  show "named None (tg_data ?t')"
  proof (cases place)
    case None
    have "set (g (tg_data t)) = set (tg_data t)" using g(1) by (metis mset_eq_setD)
    then have "named None (g (tg_data t))" using tree_grid_okD(5) [OF t] by (metis named_all)
    then show ?thesis using None by (simp add: data_at_def)
  next
    case (Some i)
    then show ?thesis using named_reorder [OF tree_grid_okD(5) [OF t] g(1), where P = "by_row i"] by (simp add: data_at_def named_relabel)
  qed
  show "elems_ok 0 (tg_dom ?t')"
  proof (cases place)
    case None
    have "set (h (tg_dom t)) = set (tg_dom t)" using h(1) by (metis mset_eq_setD)
    then have "elems_ok 0 (h (tg_dom t))" using tree_grid_okD(6) [OF t] by (metis elems_ok_all)
    then show ?thesis using None d by simp
  next
    case (Some i)
    then show ?thesis using elems_ok_reorder [OF tree_grid_okD(6) [OF t] h(1)] d by simp
  qed
qed (use tree_grid_okD(1) [OF t] in simp)

lemma rows_beside_mset: "mset (rows_beside b P ts) = mset ts"
proof (cases "find_index P ts")
  case (Some k)
  define j where "j = (if b then k else k + 1)"
  have ts: "ts \<noteq> []" using Some by auto
  have "mset (butlast (insert_at j (last ts) ts)) = mset ts"
  proof (cases "drop j ts = []")
    case True
    then show ?thesis by (simp add: insert_at_def)
  next
    case False
    then have "butlast (insert_at j (last ts) ts) = take j ts @ last ts # butlast (drop j ts)" "last (drop j ts) = last ts"
      by (simp_all add: insert_at_def butlast_append)
    moreover have "mset ts = mset (take j ts) + mset (butlast (drop j ts)) + {#last (drop j ts)#}"
      using False by (metis append_butlast_last_id append_take_drop_id mset_append mset_single_iff_right add.assoc mset.simps add_mset_add_single empty_neutral(1))
    ultimately show ?thesis by simp
  qed
  then show ?thesis using Some by (simp add: rows_beside_def j_def)
qed (simp add: rows_beside_def)

lemma rows_beside_map:
  assumes "\<And>m. Q (map_rose f m) = P m"
  shows "map (map_rose f) (rows_beside b P ts) = rows_beside b Q (map (map_rose f) ts)"
proof -
  have i: "find_index Q (map (map_rose f) ts) = find_index P ts" by (induction ts) (simp_all add: assms)
  show ?thesis
  proof (cases "find_index P ts")
    case (Some k)
    then have "ts \<noteq> []" by auto
    then show ?thesis unfolding rows_beside_def i Some by (simp add: insert_at_def map_butlast last_map take_map drop_map)
  qed (simp add: rows_beside_def i)
qed

lemma parent_row_has:
  assumes "parent_row ref t = Some i"
  shows "has_row i t"
proof -
  obtain j m where m: "find_row j t = Some m" "ro_id (label m) = i"
    using assms by (auto simp: parent_row_def split: bind_splits)
  then have "label m \<in> set (flabels (tg_data t))" using find_tree_walk [of "by_row j" "tg_data t" m] walk_label [of "label m" "kids m"]
    by (simp add: find_row_def)
  then show ?thesis using m(2) by (auto simp: has_row_def row_ids_def)
qed

lemma tree_insert_ok:
  assumes "tree_grid_ok t" "fresh_rows (row_ids (tg_data t)) (Nested [n])"
  shows "tree_grid_ok (insert_tree_row b ref n t)"
proof -
  have "tree_grid_ok (append_rows (parent_row ref t) [n] t)" by (rule append_rows_ok [OF assms parent_row_has])
  from reorder_ok [OF this, where g' = "rows_beside b (\<lambda>m. label m = ref)"]
  show ?thesis unfolding insert_tree_row_def Let_def
    by (intro ok_renumber) (simp add: rows_beside_mset row_shape_def elem_shape_def rows_beside_map rose.map_sel)
qed

lemma elem_of_row:
  assumes "tree_grid_ok t" "Node r vs \<in> set (walk_trees (tg_data t))"
  shows "\<exists>e us. Node e us \<in> set (walk_trees (tg_dom t)) \<and> te_id e = ro_id r \<and> elem_shape us = row_shape vs"
proof -
  have "Node (ro_id r) (row_shape vs) \<in> set (walk_trees (elem_shape (tg_dom t)))"
    using assms(2) unfolding tree_grid_okD(2) [OF assms(1), symmetric] by (force simp: row_shape_def walk_map_rose)
  then obtain n where n: "n \<in> set (walk_trees (tg_dom t))" "map_rose te_id n = Node (ro_id r) (row_shape vs)"
    by (auto simp: elem_shape_def walk_map_rose)
  obtain e us where "n = Node e us" by (cases n)
  then show ?thesis using n by (intro exI [of _ e] exI [of _ us]) (simp add: elem_shape_def)
qed

lemma elems_ok_walk: "elems_ok lev ts \<Longrightarrow> Node e us \<in> set (walk_trees ts) \<Longrightarrow> \<exists>lev. elem_good lev e us"
  by (induction ts arbitrary: lev rule: forest_induct) (auto simp: set_walk_append)

lemma find_row_walk: "find_row i t = Some n \<Longrightarrow> n \<in> set (walk_trees (tg_data t)) \<and> ro_id (label n) = i"
  using find_tree_walk [of "by_row i" "tg_data t" n] find_tree_label [of "by_row i" "tg_data t" n] by (auto simp: find_row_def by_row_def)

lemma row_unique: "distinct (row_ids ts) \<Longrightarrow> r \<in> set (flabels ts) \<Longrightarrow> r' \<in> set (flabels ts) \<Longrightarrow> ro_id r = ro_id r' \<Longrightarrow> r = r'"
  by (auto simp: row_ids_def distinct_map dest: inj_onD)

text \<open>What \<open>deleteRow\<close> does to the data is taking the row out of the forest.\<close>

lemma delete_data:
  assumes t: "tree_grid_ok t" and i: "has_row i t"
  shows "row_shape (tg_data (data_at (parent_row i t) (drop_row i) t)) = row_shape (prune (by_row i) (tg_data t))"
    and "named None (tg_data (data_at (parent_row i t) (drop_row i) t))"
    and "\<And>p. parent_row i t = Some p \<Longrightarrow> \<exists>a vs. Node a vs \<in> set (walk_trees (tg_data t)) \<and> ro_id a = p \<and> vs \<noteq> []"
proof -
  note ok = tree_grid_okD [OF t]
  obtain n where n: "find_row i t = Some n" using i by (auto simp: has_find)
  define r where "r = label n"
  have r: "r \<in> set (flabels (tg_data t))" "ro_id r = i"
    using find_row_walk [OF n] walk_label [of r "kids n" "tg_data t"] by (simp_all add: r_def)
  have np: "named None (prune (by_row i) (tg_data t))" by (rule named_prune [OF ok(5)])
  have "row_shape (tg_data (data_at (parent_row i t) (drop_row i) t)) = row_shape (prune (by_row i) (tg_data t))
    \<and> named None (tg_data (data_at (parent_row i t) (drop_row i) t))
    \<and> (\<forall>p. parent_row i t = Some p \<longrightarrow> (\<exists>a vs. Node a vs \<in> set (walk_trees (tg_data t)) \<and> ro_id a = p \<and> vs \<noteq> []))"
  proof (cases "i \<in> set (map (ro_id \<circ> label) (tg_data t))")
    case True
    then obtain m where m: "m \<in> set (tg_data t)" "ro_id (label m) = i" by auto
    have "label m = r" using row_unique [OF ok(3) label_flabels [OF m(1)] r(1)] m(2) r(2) by simp
    then have "truthy (ro_parent r) = None" using m(1) ok(5) named_all [of None "tg_data t"] by (auto simp: is_root_of_def)
    then have "parent_row i t = None" by (simp add: parent_row_def n r_def)
    then show ?thesis using drop_root [OF ok(3) True] np by (simp add: data_at_def)
  next
    case False
    from drop_below [OF ok(5,3,4) r False] obtain q a vs where q: "ro_parent r = Some q" "Node a vs \<in> set (walk_trees (tg_data t))" "ro_id a = q" "vs \<noteq> []"
      "prune (by_row i) (tg_data t) = map (change_kids (by_row q) (drop_row i)) (tg_data t)" by blast
    then have qi: "q \<in> set (row_ids (tg_data t))" using walk_label [OF q(2)] by (auto simp: row_ids_def)
    then have "has_row q t" by (simp add: has_row_def)
    then obtain m where m: "find_row q t = Some m" by (auto simp: has_find)
    then have "parent_row i t = Some q" using qi ok(4) q(1) find_row_walk [OF m] by (auto simp: parent_row_def n r_def [symmetric])
    then show ?thesis using q np by (auto simp: data_at_def set_row_shape named_relabel)
  qed
  then show "row_shape (tg_data (data_at (parent_row i t) (drop_row i) t)) = row_shape (prune (by_row i) (tg_data t))"
    "named None (tg_data (data_at (parent_row i t) (drop_row i) t))"
    "\<And>p. parent_row i t = Some p \<Longrightarrow> \<exists>a vs. Node a vs \<in> set (walk_trees (tg_data t)) \<and> ro_id a = p \<and> vs \<noteq> []"
    by blast+
qed

lemma pruned_ok:
  assumes t: "tree_grid_ok t" and i: "has_row i t"
  shows "tree_grid_ok (data_at (parent_row i t) (drop_row i) (detach is (t\<lparr>tg_dom := prune (by_elem i) (tg_dom t)\<rparr>)))" (is "tree_grid_ok ?t1")
proof (rule tree_grid_okI)
  have d: "tg_data ?t1 = tg_data (data_at (parent_row i t) (drop_row i) t)" by (simp add: data_at_def split: option.split)
  have dom: "tg_dom ?t1 = prune (by_elem i) (tg_dom t)" by simp
  note dd = delete_data(1,2) [OF t i]
  have s: "row_shape (prune (by_row i) (tg_data t)) = prune (\<lambda>x. x = i) (row_shape (tg_data t))"
    "elem_shape (prune (by_elem i) (tg_dom t)) = prune (\<lambda>x. x = i) (elem_shape (tg_dom t))"
    unfolding row_shape_def elem_shape_def by (rule map_rose_prune, simp add: by_row_def by_elem_def)+
  then show "row_shape (tg_data ?t1) = elem_shape (tg_dom ?t1)" using dd(1) tree_grid_okD(2) [OF t] d by simp
  have "row_ids (tg_data ?t1) = flabels (prune (\<lambda>x. x = i) (row_shape (tg_data t)))" unfolding d flabels_shape(1) [symmetric] dd(1) s ..
  then show "distinct (row_ids (tg_data ?t1))" "'''' \<notin> set (row_ids (tg_data ?t1))"
    using flabels_prune [of "\<lambda>x. x = i" "row_shape (tg_data t)"] tree_grid_okD(3,4) [OF t] unfolding flabels_shape(1) by auto
  show "named None (tg_data ?t1)" using d dd(2) by simp
  show "elems_ok 0 (tg_dom ?t1)" using elems_ok_prune [OF tree_grid_okD(6) [OF t]] by simp
qed (use tree_grid_okD(1) [OF t] in simp)

lemma delete_ok:
  assumes t: "tree_grid_ok t" and i: "has_row i t"
  shows "tree_grid_ok (delete_tree_row i t)"
proof -
  define t1 where "t1 = data_at (parent_row i t) (drop_row i) (detach (rows_from (Some i) t) (t\<lparr>tg_dom := prune (by_elem i) (tg_dom t)\<rparr>))"
  have t1: "tree_grid_ok t1" unfolding t1_def by (rule pruned_ok [OF t i])
  have "tree_grid_ok (set_telem p leaf_telem t1)" if p: "parent_row i t = Some p" "find_row p t1 = Some m" "kids m = []" for p m
  proof (rule set_telem_ok [OF t1])
    fix lev e us
    assume e: "Node e us \<in> set (walk_trees (tg_dom t1))" "te_id e = p" "elem_good lev e us"
    have "Node (label m) [] \<in> set (walk_trees (tg_data t1))" "ro_id (label m) = p" using find_row_walk [OF p(2)] p(3) by (metis rose.collapse, simp)
    then have us: "us = []" using kids_match [OF t1 e(1)] e(2) by fastforce
    obtain a vs where a: "Node a vs \<in> set (walk_trees (tg_data t))" "ro_id a = p" "vs \<noteq> []" using delete_data(3) [OF t i p(1)] by blast
    from elem_of_row [OF t a(1)] obtain e0 us0 where e0: "Node e0 us0 \<in> set (walk_trees (tg_dom t))" "te_id e0 = p" "us0 \<noteq> []"
      using a(2,3) by (metis shape_empty)
    have "e \<in> set (flabels (tg_dom t))" using walk_label [OF e(1)] flabels_prune [of "by_elem i" "tg_dom t"] by (auto simp: t1_def)
    then have "e = e0" using elem_unique [OF t _ walk_label [OF e0(1)]] e(2) e0(2) by simp
    then have "te_folder e" using elems_ok_walk [OF tree_grid_okD(6) [OF t] e0(1)] e0(3) by (auto simp: elem_good_def)
    then show "elem_good lev (leaf_telem e) us" using e(3) us by (auto simp: elem_good_def leaf_telem_def level_of_elem_def)
  qed (simp add: leaf_telem_def)
  then show ?thesis using t1 unfolding delete_tree_row_def Let_def t1_def [symmetric] by (auto split: option.split)
qed

lemma remove_row_ok: "tree_grid_ok t \<Longrightarrow> has_row i t \<Longrightarrow> tree_grid_ok (remove_tree_row i t)"
  by (simp add: remove_tree_row_def Let_def ok_renumber delete_ok)

lemma update_ok:
  assumes t: "tree_grid_ok t" and c: "rc_id c = None"
  shows "tree_grid_ok (update_tree_row i c t)"
proof (cases "find_row i t")
  case (Some n)
  define e' where "e' = new_telem t (level_of (Some i) t - 1) (changed_row c (label n)) (kids n \<noteq> [])"
  have n: "n \<in> set (walk_trees (tg_data t))" "ro_id (label n) = i" using find_row_walk [OF Some] by simp_all
  have id: "te_id e' = i" using n(2) c by (simp add: e'_def new_telem_def changed_row_def Let_def)
  have t1: "tree_grid_ok (set_trow i (changed_row c) t)" by (rule set_trow_ok [OF t]) (simp add: changed_row_def c)
  have "tree_grid_ok (set_telem i (\<lambda>e. e'\<lparr>te_number := te_number e, te_sub := te_sub e, te_shown := te_shown e\<rparr>) (set_trow i (changed_row c) t))"
  proof (rule set_telem_ok [OF t1])
    fix lev e us
    assume "Node e us \<in> set (walk_trees (tg_dom (set_trow i (changed_row c) t)))" and e: "te_id e = i" "elem_good lev e us"
    then have w: "Node e us \<in> set (walk_trees (tg_dom t))" by (simp add: set_trow_def)
    have "level_of (Some i) t = lev + 1" using level_elem(2) [OF t walk_label [OF w] e(1)] e(2) by (simp add: elem_good_def)
    moreover have "kids n = [] \<longleftrightarrow> us = []"
    proof -
      have "Node (label n) (kids n) \<in> set (walk_trees (tg_data t))" using n(1) by (metis rose.collapse)
      then have "elem_shape us = row_shape (kids n)" by (rule kids_match [OF t w]) (use e(1) n(2) in simp)
      then show ?thesis by (metis shape_empty)
    qed
    ultimately show "elem_good lev (e'\<lparr>te_number := te_number e, te_sub := te_sub e, te_shown := te_shown e\<rparr>) us"
      using e(2) by (auto simp: elem_good_def e'_def new_telem_def Let_def level_of_elem_def)
  qed (simp add: id)
  then show ?thesis unfolding update_tree_row_def Some Let_def e'_def by simp
qed (use t in \<open>simp add: update_tree_row_def\<close>)

section \<open>Sessions\<close>

lemma reload_ok:
  assumes t: "tree_grid_ok t"
  shows "tree_grid_ok (reload_rows o' t)"
proof (cases o')
  case (Some i)
  define u where "u = detach (rows_from (Some i) t) t"
  let ?t1 = "(emptied i u)\<lparr>tg_query := Some i\<rparr>"
  have u: "tree_grid_ok u" using t by (simp add: u_def)
  have empty: "Node e us \<in> set (walk_trees (map (change_kids (by_elem i) (\<lambda>_. [])) ts)) \<Longrightarrow> te_id e = i \<Longrightarrow> us = []" for e us ts
    by (induction ts rule: forest_induct) (auto simp: set_walk_append by_elem_def split: if_splits)
  have "tree_grid_ok (set_telem i (\<lambda>e. e\<lparr>te_sub := False, te_hit := map_option (\<lambda>_. HitCollapsed) (te_hit e)\<rparr>) ?t1)"
  proof (rule set_telem_ok)
    show "tree_grid_ok ?t1" by (simp add: emptied_ok(1) [OF u])
    fix lev e us assume "Node e us \<in> set (walk_trees (tg_dom ?t1))" "te_id e = i" "elem_good lev e us"
    then show "elem_good lev (e\<lparr>te_sub := False, te_hit := map_option (\<lambda>_. HitCollapsed) (te_hit e)\<rparr>) us"
      using empty [of e us "tg_dom u"] by (auto simp: emptied_def elem_good_def level_of_elem_def)
  qed simp
  then show ?thesis unfolding reload_rows_def emptied_def Some u_def by (simp add: expand_ok)
qed (simp add: reload_rows_def ok_request t)

lemma callback_ok:
  assumes t: "tree_grid_ok t"
  shows "tree_grid_ok (expand_callback q t)"
proof -
  have "tree_grid_ok (set_telem i (\<lambda>e. e\<lparr>te_sub := False\<rparr>) t)" if f: "find_tree (by_elem i) (tg_dom t) = Some n" "kids n = []" for i n
  proof (rule set_telem_ok [OF t])
    fix lev e us assume e: "Node e us \<in> set (walk_trees (tg_dom t))" "te_id e = i" "elem_good lev e us"
    have "Node e us = n"
      by (rule node_unique [OF t e(1) find_tree_walk [OF f(1)]]) (use find_tree_label [OF f(1)] e(2) in \<open>simp add: by_elem_def\<close>)
    then show "elem_good lev (e\<lparr>te_sub := False\<rparr>) us" using e(3) f(2) by (auto simp: elem_good_def level_of_elem_def)
  qed simp
  then show ?thesis using t show_below_ok [OF t] by (auto simp: expand_callback_def split: option.split)
qed

lemma sort_ok: "tree_grid_ok t \<Longrightarrow> tree_grid_ok (sort_tree ks t)"
  using tree_grid_okD(1) [of t] by (simp add: sort_tree_def Let_def ok_request)

lemma answer_rows_ok:
  assumes "tree_grid_ok t" "rq_row q = None \<Longrightarrow> fresh_rows (if rq_append q then row_ids (tg_data t) else []) pl"
    and "\<And>i. rq_row q = Some i \<Longrightarrow> fresh_rows (row_ids (tg_data t)) pl \<and> awaits t i"
  shows "tree_grid_ok (answer_rows q pl t)"
  unfolding answer_rows_def by (rule callback_ok, rule load_rows_ok) (use assms in auto)

lemma tree_grid_step_ok:
  assumes t: "tree_grid_ok t" and g: "grid_event_ok t e" and s: "tree_grid_step t e = Some t'"
  shows "tree_grid_ok t'"
proof (cases e)
  case (AnswerRows k pl)
  let ?q = "tg_pending t ! k"
  have "row_elem i (t\<lparr>tg_pending := ps\<rparr>) = row_elem i t" for i ps by (simp add: row_elem_def)
  then have "tree_grid_ok (answer_rows ?q pl (t\<lparr>tg_pending := remove_at k (tg_pending t)\<rparr>))"
    using t g s AnswerRows
    by (intro answer_rows_ok) (auto simp: tree_grid_step_def grid_event_ok_def Let_def awaits_def split: if_splits option.splits)
  then show ?thesis using s AnswerRows by (auto simp: tree_grid_step_def split: if_splits)
next
  case (FailRows k)
  then show ?thesis using t s by (auto simp: tree_grid_step_def fail_rows_def callback_ok split: if_splits)
next
  case (LoadRows pl)
  then show ?thesis using t g s by (auto simp: tree_grid_step_def grid_event_ok_def split: if_splits intro: load_rows_ok)
next
  case (AppendRows p ns)
  then show ?thesis using t g s
    by (auto simp: tree_grid_step_def grid_event_ok_def split: if_splits option.splits intro!: append_rows_ok)
qed (use t g s in \<open>auto simp: tree_grid_step_def grid_event_ok_def expand_rows_def collapse_rows_def expand_row_to_def tree_insert_ok
  remove_row_ok update_ok expand_ok collapse_ok toggle_ok fold_ok reload_ok sort_ok ok_request split: if_splits\<close>)

interpretation tree_grid: guarded_machine tree_grid_step grid_event_ok tree_grid_ok
  by unfold_locales (rule tree_grid_step_ok)

text \<open>
  \<open>_7c\<close> follows the parent ids to the root: it expands the rows above a row from the root down, and
  there are fewer of them than rows.
\<close>

lemma ancestors_length: "ancestors P ts = Some as \<Longrightarrow> length as < length (flabels ts)"
  by (induction P ts arbitrary: "as" rule: ancestors.induct) (fastforce split: if_splits option.splits)+

lemma row_ancestors_parent:
  assumes "named p ts" "distinct (row_ids ts)" "ancestors (by_row i) ts = Some as"
  shows "\<exists>r \<in> set (flabels ts). ro_id r = i \<and> (case as of [] \<Rightarrow> is_root_of p r
    | a # as' \<Rightarrow> a \<in> set (flabels ts) \<and> is_root_of (Some (ro_id a)) r \<and> ancestors (by_row (ro_id a)) ts = Some as')"
  using assms
proof (induction ts arbitrary: p "as" rule: forest_induct)
  case (Node b us ts)
  have none: "ancestors (by_row j) vs = None" if "j \<notin> set (row_ids vs)" for j vs
    using that by (auto simp: ancestors_None by_row_def row_ids_def)
  have id: "a \<in> set (flabels vs) \<Longrightarrow> ro_id a \<in> set (row_ids vs)" for a vs by (simp add: row_ids_def)
  consider "ro_id b = i" | as1 where "ro_id b \<noteq> i" "ancestors (by_row i) us = Some as1" "as = as1 @ [b]"
    | "ro_id b \<noteq> i" "ancestors (by_row i) us = None" "ancestors (by_row i) ts = Some as"
    using Node.prems(3) by (auto simp: by_row_def [of i b] split: if_splits option.splits)
  then show ?case
  proof cases
    case 1
    then show ?thesis using Node.prems by (auto simp: by_row_def)
  next
    case 2
    from Node.IH(1) [OF _ _ 2(2), of "Some (ro_id b)"] Node.prems(1,2)
    obtain r where r: "r \<in> set (flabels us)" "ro_id r = i" "case as1 of [] \<Rightarrow> is_root_of (Some (ro_id b)) r
      | a # as' \<Rightarrow> a \<in> set (flabels us) \<and> is_root_of (Some (ro_id a)) r \<and> ancestors (by_row (ro_id a)) us = Some as'" by auto
    show ?thesis
    proof (cases as1)
      case Nil
      then show ?thesis using r 2(3) by (intro bexI [of _ r]) (auto simp: by_row_def)
    next
      case (Cons a as')
      then have "a \<in> set (flabels us)" "ancestors (by_row (ro_id a)) us = Some as'" "is_root_of (Some (ro_id a)) r" using r(3) by simp_all
      moreover have "ro_id a \<noteq> ro_id b" using id [OF calculation(1)] Node.prems(2) by auto
      ultimately show ?thesis using r 2(3) Cons by (intro bexI [of _ r]) (auto simp: by_row_def)
    qed
  next
    case 3
    from Node.IH(2) [OF _ _ 3(3), of p] Node.prems(1,2)
    obtain r where r: "r \<in> set (flabels ts)" "ro_id r = i" "case as of [] \<Rightarrow> is_root_of p r
      | a # as' \<Rightarrow> a \<in> set (flabels ts) \<and> is_root_of (Some (ro_id a)) r \<and> ancestors (by_row (ro_id a)) ts = Some as'" by auto
    show ?thesis
    proof (cases "as")
      case (Cons a as')
      then have "a \<in> set (flabels ts)" "ancestors (by_row (ro_id a)) ts = Some as'" "is_root_of (Some (ro_id a)) r" using r(3) by simp_all
      moreover have "ro_id a \<noteq> ro_id b" "ro_id a \<notin> set (row_ids us)" using id [OF calculation(1)] Node.prems(2) by auto
      ultimately show ?thesis using r Cons none [of "ro_id a" us] by (intro bexI [of _ r]) (auto simp: by_row_def)
    qed (use r in auto)
  qed
qed simp

lemma parent_of:
  assumes t: "tree_grid_ok t" and a: "ancestors (by_row i) (tg_data t) = Some as"
  shows "parent_row i t = (case as of [] \<Rightarrow> None | a # as' \<Rightarrow> Some (ro_id a))"
proof -
  note ok = tree_grid_okD [OF t]
  from row_ancestors_parent [OF ok(5,3) a] obtain r where r: "r \<in> set (flabels (tg_data t))" "ro_id r = i" "case as of [] \<Rightarrow> is_root_of None r
    | a # as' \<Rightarrow> a \<in> set (flabels (tg_data t)) \<and> is_root_of (Some (ro_id a)) r \<and> ancestors (by_row (ro_id a)) (tg_data t) = Some as'" by blast
  have "has_row i t" using r by (auto simp: has_row_def row_ids_def)
  then obtain n where n: "find_row i t = Some n" by (auto simp: has_find)
  have "label n \<in> set (flabels (tg_data t))" using find_row_walk [OF n] walk_label [of "label n" "kids n"] by simp
  then have l: "label n = r" using row_unique [OF ok(3) _ r(1)] find_row_walk [OF n] r(2) by simp
  show ?thesis
  proof (cases "as")
    case (Cons a as')
    have a: "ro_id a \<in> set (row_ids (tg_data t))" using r(3) Cons by (simp add: row_ids_def)
    then have a: "ro_id a \<in> set (row_ids (tg_data t))" "ro_id a \<noteq> ''''" using ok(4) by metis+
    then have p: "ro_parent r = Some (ro_id a)" using r(3) Cons by (simp add: is_root_of_Some)
    obtain m where m: "find_row (ro_id a) t = Some m" using a(1) has_find [of "ro_id a" t] by (auto simp: has_row_def)
    then show ?thesis using Cons p a(2) find_row_walk [OF m] by (simp add: parent_row_def n l)
  qed (use r(3) in \<open>simp add: parent_row_def n l is_root_of_def\<close>)
qed

lemma parent_chain_path:
  assumes t: "tree_grid_ok t"
  shows "ancestors (by_row i) (tg_data t) = Some as \<Longrightarrow> parent_chain n i t = map ro_id (rev (take n as))"
proof (induction n arbitrary: i "as")
  case (Suc n)
  show ?case
  proof (cases "as")
    case (Cons a as')
    have "ancestors (by_row (ro_id a)) (tg_data t) = Some as'"
      using row_ancestors_parent [OF tree_grid_okD(5,3) [OF t] Suc.prems] Cons by auto
    from Suc.IH [OF this] show ?thesis using Cons parent_of [OF t Suc.prems] by simp
  qed (use parent_of [OF t Suc.prems] in simp)
qed simp

lemma expand_to_path:
  assumes "tree_grid_ok t" "ancestors (by_row i) (tg_data t) = Some as"
  shows "expand_row_to i t = fold expand_row (map ro_id (rev as)) t"
  using parent_chain_path [OF assms] ancestors_length [OF assms(2)] by (simp add: expand_row_to_def)

lemma rebuild:
  assumes "named None ts" "distinct (row_ids ts)" "'''' \<notin> set (row_ids ts)"
  shows "row_shape (transfer None (flabels ts)) = row_shape ts"
proof (rule kids_are_unique)
  have d: "distinct (map ro_id (flabels ts))" "'''' \<notin> ro_id ` set (flabels ts)" using assms(2,3) by (simp_all add: row_ids_def)
  note t = transfer_kids [OF d, of None]
  show "kids_are (\<lambda>x. map ro_id (filter (\<lambda>r. ro_parent r = Some x) (flabels ts))) (row_shape (transfer None (flabels ts)))"
    by (rule t(1)) simp
  show "kids_are (\<lambda>x. map ro_id (filter (\<lambda>r. ro_parent r = Some x) (flabels ts))) (row_shape ts)"
    by (rule kids_of_named [OF assms(1,3) _ assms(2)]) simp_all
  show "map label (row_shape (transfer None (flabels ts))) = map label (row_shape ts)"
    using t(2) roots_of_named [OF assms(1,3)] by (simp add: row_shape_def rose.map_sel comp_def)
qed

text \<open>
  C32. In a session of a tree grid sorted by the server, the table shows the tree of the rows: the tree of
  the table rows is the tree of the row objects and also the one the rows' parent ids give, and every
  table row is indented to its depth and has a place for the rows below it; as long as new rows have ids
  of their own and are put under rows that are there, updates keep the ids, and an answer comes while the
  row it is for is there and has a place for its rows (\<open>grid_event_ok\<close>).
\<close>

theorem treegrid_session:
  assumes "tg_remote t" and "tg_data t = []" and "tg_dom t = []" and "along tree_grid_step grid_event_ok t es"
    and "run_events tree_grid_step t es = Some t'"
  shows "elem_shape (tg_dom t') = row_shape (tg_data t') \<and> row_shape (transfer None (flabels (tg_data t'))) = elem_shape (tg_dom t')
    \<and> distinct (row_ids (tg_data t')) \<and> elems_ok 0 (tg_dom t')"
proof -
  have "tree_grid_ok t" using assms(1-3) by (simp add: tree_grid_ok_def)
  then have "tree_grid_ok t'" using tree_grid.inv_along assms(4,5) by blast
  note ok = tree_grid_okD [OF this]
  show ?thesis using rebuild [OF ok(5,3,4)] ok(2,3,6) by simp
qed

definition empty_tree_grid :: treegrid where
  "empty_tree_grid = \<lparr>tg_data = [], tg_dom = [], tg_total = None, tg_numbers = True, tg_remote = True, tg_loader = True, tg_sort = [],
     tg_format = (\<lambda>f r. case ro_cells r f of Some v \<Rightarrow> v | None \<Rightarrow> ''''), tg_allow = (\<lambda>h o'. True), tg_query = None, tg_pending = [], tg_log = []\<rparr>"

definition closed_row :: "string \<Rightarrow> string option \<Rightarrow> trow" where
  "closed_row i p = (sample_row i p)\<lparr>ro_state := StateClosed\<rparr>"

definition tree_grid_events :: "tree_grid_event list" where
  "tree_grid_events = [LoadRows (Flat (closed_row ''e'' (Some ''d'') # sample_flat_rows) None), ExpandRow ''e'', InsertRow True ''b'' (Node (sample_row ''f'' None) []),
     AnswerRows 0 (Nested [Node (sample_row ''g'' None) []]), RemoveRow ''c'', CollapseRow ''d'']"

definition used_tree_grid :: treegrid where
  "used_tree_grid = the (run_events tree_grid_step empty_tree_grid tree_grid_events)"

theorem treegrid_session_witness:
  "elem_shape (tg_dom used_tree_grid) = [Node ''a'' [Node ''f'' [], Node ''b'' []], Node ''d'' [Node ''e'' [Node ''g'' []]]]
    \<and> row_shape (transfer None (flabels (tg_data used_tree_grid))) = elem_shape (tg_dom used_tree_grid)
    \<and> map te_number (flabels (tg_dom used_tree_grid)) = [1, 2, 3, 4, 5, 6]"
proof -
  have "\<not> Option.is_none (run_events tree_grid_step empty_tree_grid tree_grid_events)" by code_simp
  then have r: "run_events tree_grid_step empty_tree_grid tree_grid_events = Some used_tree_grid"
    unfolding used_tree_grid_def by (cases "run_events tree_grid_step empty_tree_grid tree_grid_events") simp_all
  have allowed: "along tree_grid_step grid_event_ok empty_tree_grid tree_grid_events" by code_simp
  have "elem_shape (tg_dom used_tree_grid) = [Node ''a'' [Node ''f'' [], Node ''b'' []], Node ''d'' [Node ''e'' [Node ''g'' []]]]" by code_simp
  moreover have "map te_number (flabels (tg_dom used_tree_grid)) = [1, 2, 3, 4, 5, 6]" by code_simp
  moreover have "row_shape (transfer None (flabels (tg_data used_tree_grid))) = elem_shape (tg_dom used_tree_grid)"
    by (rule treegrid_session [OF _ _ _ allowed r, THEN conjunct2, THEN conjunct1]) (simp_all add: empty_tree_grid_def)
  ultimately show ?thesis by blast
qed

section \<open>What the code does otherwise\<close>

definition lazy_grid :: treegrid where
  "lazy_grid = load_tree_rows None False (Nested [Node (closed_row ''a'' None) []]) empty_tree_grid"

text \<open>A request for a page carries the id of the row that was expanded last.\<close>

lemma page_asks_for_row:
  "map (\<lambda>q. (rq_row q, rq_sent q)) (tg_pending (request_rows None None False False (expand_row ''a'' lazy_grid))) = [(Some ''a'', Some ''a''), (None, Some ''a'')]"
  by code_simp

text \<open>A row that got a child before it was expanded is not loaded any more.\<close>

lemma appended_never_loaded:
  "tg_pending (expand_row ''a'' lazy_grid) \<noteq> [] \<and> tg_pending (expand_row ''a'' (append_rows (Some ''a'') [Node (sample_row ''b'' None) []] lazy_grid)) = []"
proof -
  have "length (tg_pending (expand_row ''a'' lazy_grid)) = 1" by code_simp
  moreover have "length (tg_pending (expand_row ''a'' (append_rows (Some ''a'') [Node (sample_row ''b'' None) []] lazy_grid))) = 0" by code_simp
  ultimately show ?thesis by auto
qed

text \<open>Rows that come sorted by the client are shown sorted, but kept as they came.\<close>

definition sorting_grid :: treegrid where
  "sorting_grid = load_tree_rows None False (Nested [Node (sample_row ''b'' None) [], Node (sample_row ''a'' None) []])
     (empty_tree_grid\<lparr>tg_remote := False, tg_sort := [(''name'', True)]\<rparr>)"

lemma sorted_only_shown:
  "(row_ids (tg_data sorting_grid), map te_id (flabels (tg_dom sorting_grid))) = ([''b'', ''a''], [''a'', ''b''])"
  by code_simp

text \<open>The children of a row whose id is changed by an update keep the old id as their parent.\<close>

lemma renamed_orphans:
  "map ro_parent (flabels (tg_data (update_tree_row ''a'' \<lparr>rc_id = Some ''z'', rc_cells = Map.empty, rc_state = None\<rparr>
     (load_tree_rows None False (Flat sample_flat_rows None) empty_tree_grid)))) = [None, Some ''a'', Some ''b'', None]"
  by code_simp

text \<open>An answer for a row that was removed meanwhile adds its rows to the roots, naming a parent that is not there.\<close>

lemma late_answer_roots:
  "map_option (\<lambda>t. (map_rose (\<lambda>r. (ro_id r, ro_parent r)) ` set (tg_data t), elem_shape (tg_dom t)))
     (run_events tree_grid_step lazy_grid [ExpandRow ''a'', RemoveRow ''a'', AnswerRows 0 (Nested [Node (sample_row ''b'' None) []])])
   = Some ({Node (''b'', Some ''a'') []}, [Node ''b'' []])"
  by code_simp

text \<open>Two reloads of a row under way give its rows twice.\<close>

lemma reloaded_twice:
  "map_option (\<lambda>t. elem_shape (tg_dom t))
     (run_events tree_grid_step lazy_grid [ReloadRows (Some ''a''), ReloadRows (Some ''a''),
        AnswerRows 0 (Nested [Node (sample_row ''b'' None) []]), AnswerRows 0 (Nested [Node (sample_row ''b'' None) []])])
   = Some [Node ''a'' [Node ''b'' [], Node ''b'' []]]"
  by code_simp

end
