(* ===== verification/Resizable.thy ===== *)
theory Resizable
  imports Parser
begin

text \<open>
  \<open>plugins/jquery.resizable.js\<close>: an element whose edges can be dragged. The element is positioned in
  pixels within its parent, whose place on the page is fixed; sizes are outer sizes, and the border
  and padding of the element are the least size it can have.
\<close>

section \<open>State\<close>

record edge_drag =
  dg_dir :: string
  dg_start_left :: int
  dg_start_top :: int
  dg_left :: int
  dg_top :: int
  dg_start_x :: int
  dg_start_y :: int
  dg_start_w :: int
  dg_start_h :: int
  dg_w :: int
  dg_h :: int

datatype resize_note = ResizeStarts | Resizing | ResizeStops

record resizer =
  rz_left :: int
  rz_top :: int
  rz_w :: int
  rz_h :: int
  rz_chrome_w :: int
  rz_chrome_h :: int
  rz_page_x :: int
  rz_page_y :: int
  rz_min_w :: int
  rz_min_h :: int
  rz_max_w :: int
  rz_max_h :: int
  rz_edge :: int
  rz_handles :: string
  rz_disabled :: bool
  rz_allow :: "edge_drag \<Rightarrow> bool"
  rz_drags :: "edge_drag list"
  rz_busy :: bool
  rz_cursor :: string
  rz_body_cursor :: string
  rz_log :: "resize_note list"

definition clamp :: "int \<Rightarrow> int \<Rightarrow> int \<Rightarrow> int" where
  "clamp lo hi v = min (max v lo) hi"

section \<open>Operations\<close>

text \<open>\<open>_3\<close>\<close>

definition drag_edges :: "resizer \<Rightarrow> int \<Rightarrow> int \<Rightarrow> edge_drag \<Rightarrow> edge_drag" where
  "drag_edges r x y d =
     (let w = (if CHR ''w'' \<in> set (dg_dir d) then clamp (rz_min_w r) (rz_max_w r) (dg_start_w d - x + dg_start_x d)
               else if CHR ''e'' \<in> set (dg_dir d) then clamp (rz_min_w r) (rz_max_w r) (dg_start_w d + x - dg_start_x d) else dg_w d);
          h = (if CHR ''n'' \<in> set (dg_dir d) then clamp (rz_min_h r) (rz_max_h r) (dg_start_h d - y + dg_start_y d)
               else if CHR ''s'' \<in> set (dg_dir d) then clamp (rz_min_h r) (rz_max_h r) (dg_start_h d + y - dg_start_y d) else dg_h d)
      in d\<lparr>dg_left := (if CHR ''w'' \<in> set (dg_dir d) then dg_start_left d + dg_start_w d - w else dg_left d),
           dg_top := (if CHR ''n'' \<in> set (dg_dir d) then dg_start_top d + dg_start_h d - h else dg_top d), dg_w := w, dg_h := h\<rparr>)"

text \<open>\<open>_8\<close>\<close>

definition apply_drag :: "edge_drag \<Rightarrow> resizer \<Rightarrow> resizer" where
  "apply_drag d r =
     (let r1 = r\<lparr>rz_left := dg_left d, rz_top := dg_top d\<rparr>;
          r2 = (if rz_w r1 = dg_w d then r1 else r1\<lparr>rz_w := max (rz_chrome_w r1) (dg_w d)\<rparr>)
      in if rz_h r2 = dg_h d then r2 else r2\<lparr>rz_h := max (rz_chrome_h r2) (dg_h d)\<rparr>)"

definition note_resize :: "resize_note \<Rightarrow> resizer \<Rightarrow> resizer" where
  "note_resize n r = r\<lparr>rz_log := rz_log r @ [n]\<rparr>"

text \<open>\<open>_10\<close>: the edges under the mouse, if there is a handle for them\<close>

definition under_mouse :: "resizer \<Rightarrow> int \<Rightarrow> int \<Rightarrow> string" where
  "under_mouse r x y =
     (let t = rz_page_y r + rz_top r; l = rz_page_x r + rz_left r
      in (if y > t \<and> y < t + rz_edge r then ''n'' else if y < t + rz_h r \<and> y > t + rz_h r - rz_edge r then ''s'' else '''')
         @ (if x > l \<and> x < l + rz_edge r then ''w'' else if x < l + rz_w r \<and> x > l + rz_w r - rz_edge r then ''e'' else ''''))"

definition grip :: "resizer \<Rightarrow> int \<Rightarrow> int \<Rightarrow> string" where
  "grip r x y =
     (let dir = under_mouse r x y
      in if \<exists>h \<in> set (map js_trim (js_split '','' (rz_handles r))). h = ''all'' \<or> h = dir then dir else '''')"

definition new_drag :: "resizer \<Rightarrow> string \<Rightarrow> int \<Rightarrow> int \<Rightarrow> edge_drag" where
  "new_drag r dir x y =
     \<lparr>dg_dir = dir, dg_start_left = rz_left r, dg_start_top = rz_top r, dg_left = rz_left r, dg_top = rz_top r, dg_start_x = x, dg_start_y = y,
      dg_start_w = rz_w r, dg_start_h = rz_h r, dg_w = rz_w r, dg_h = rz_h r\<rparr>"

text \<open>
  The handlers of the element and those of the document, \<open>_a\<close>, \<open>_b\<close> and \<open>_c\<close>, of which there is one
  triple for every button pressed since one was released. A press on the element reaches the
  document too.
\<close>

definition press :: "bool \<Rightarrow> int \<Rightarrow> int \<Rightarrow> resizer \<Rightarrow> resizer" where
  "press inside x y r =
     (let dir = grip r x y;
          r1 = (if inside \<and> \<not> rz_disabled r \<and> dir \<noteq> '''' then r\<lparr>rz_drags := rz_drags r @ [new_drag r dir x y], rz_body_cursor := dir @ ''-resize''\<rparr> else r)
      in fold (\<lambda>d r. note_resize ResizeStarts (r\<lparr>rz_busy := True\<rparr>)) (rz_drags r1) r1)"

fun move_drags :: "int \<Rightarrow> int \<Rightarrow> edge_drag list \<Rightarrow> resizer \<Rightarrow> edge_drag list \<times> resizer" where
  "move_drags x y [] r = ([], r)"
| "move_drags x y (d # ds) r =
     (let d' = drag_edges r x y d; r1 = note_resize Resizing r; (ds', r2) = move_drags x y ds (if rz_allow r d' then apply_drag d' r1 else r1)
      in (d' # ds', r2))"

definition move_mouse :: "bool \<Rightarrow> int \<Rightarrow> int \<Rightarrow> resizer \<Rightarrow> resizer" where
  "move_mouse inside x y r =
     (let r1 = (if inside \<and> \<not> rz_disabled r \<and> \<not> rz_busy r then r\<lparr>rz_cursor := (case grip r x y of [] \<Rightarrow> '''' | d \<Rightarrow> d @ ''-resize'')\<rparr> else r);
          (ds, r2) = move_drags x y (rz_drags r1) r1
      in r2\<lparr>rz_drags := ds\<rparr>)"

definition release :: "int \<Rightarrow> int \<Rightarrow> resizer \<Rightarrow> resizer" where
  "release x y r =
     (if rz_drags r = [] then r
      else let r1 = fold (\<lambda>d r. note_resize ResizeStops (apply_drag (drag_edges r x y d) (r\<lparr>rz_busy := False\<rparr>))) (rz_drags r) r
           in r1\<lparr>rz_drags := [], rz_body_cursor := ''''\<rparr>)"

definition leave_element :: "resizer \<Rightarrow> resizer" where
  "leave_element r = (if rz_disabled r then r else r\<lparr>rz_cursor := ''''\<rparr>)"

datatype resize_event = Press bool int int | MoveMouse bool int int | Release int int | LeaveElement | EnableResize | DisableResize

definition resize_step :: "resizer \<Rightarrow> resize_event \<Rightarrow> resizer" where
  "resize_step r e =
     (case e of
        Press inside x y \<Rightarrow> press inside x y r
      | MoveMouse inside x y \<Rightarrow> move_mouse inside x y r
      | Release x y \<Rightarrow> release x y r
      | LeaveElement \<Rightarrow> leave_element r
      | EnableResize \<Rightarrow> r\<lparr>rz_disabled := False\<rparr>
      | DisableResize \<Rightarrow> r\<lparr>rz_disabled := True\<rparr>)"

section \<open>One drag\<close>

text \<open>What dragging makes of one axis: \<open>near\<close> and \<open>far\<close> say which of the two edges is dragged, by \<open>by\<close>.\<close>

definition pulled :: "int \<Rightarrow> int \<Rightarrow> bool \<Rightarrow> bool \<Rightarrow> int \<Rightarrow> int \<times> int \<Rightarrow> int \<times> int" where
  "pulled lo hi near far delta b =
     (if near then let s = clamp lo hi (snd b - delta) in (fst b + snd b - s, s)
      else if far then (fst b, clamp lo hi (snd b + delta)) else b)"

definition limits_ok :: "resizer \<Rightarrow> bool" where
  "limits_ok r = (rz_chrome_w r \<le> rz_min_w r \<and> rz_min_w r \<le> rz_max_w r \<and> rz_chrome_h r \<le> rz_min_h r \<and> rz_min_h r \<le> rz_max_h r
     \<and> rz_chrome_w r \<le> rz_w r \<and> rz_chrome_h r \<le> rz_h r)"

lemma clamp_limits: "lo \<le> hi \<Longrightarrow> lo \<le> clamp lo hi v \<and> clamp lo hi v \<le> hi"
  by (simp add: clamp_def)

text \<open>The edges under the mouse are never opposite ones.\<close>

lemma under_mouse_cases: "under_mouse r x y \<in> {'''', ''n'', ''s'', ''w'', ''e'', ''nw'', ''ne'', ''sw'', ''se''}"
  by (simp add: under_mouse_def Let_def)

lemma grip_cases: "grip r x y \<in> {'''', ''n'', ''s'', ''w'', ''e'', ''nw'', ''ne'', ''sw'', ''se''}"
  using under_mouse_cases [of r x y] by (simp add: grip_def Let_def)

lemma one_edge: "\<not> (CHR ''w'' \<in> set (grip r x y) \<and> CHR ''e'' \<in> set (grip r x y))" "\<not> (CHR ''n'' \<in> set (grip r x y) \<and> CHR ''s'' \<in> set (grip r x y))"
  using grip_cases [of r x y] by auto

text \<open>A drag as it is at any moment: where the mouse was last does not matter for the next move.\<close>

definition drag_at :: "resizer \<Rightarrow> string \<Rightarrow> int \<Rightarrow> int \<Rightarrow> int \<Rightarrow> int \<Rightarrow> edge_drag" where
  "drag_at r dir x y x' y' = drag_edges r x' y' (new_drag r dir x y)"

lemma drag_again: "drag_edges r x2 y2 (drag_edges r x1 y1 d) = drag_edges r x2 y2 d"
  by (cases d) (simp add: drag_edges_def Let_def)

lemma drag_result:
  assumes "\<not> (CHR ''w'' \<in> set dir \<and> CHR ''e'' \<in> set dir)" "\<not> (CHR ''n'' \<in> set dir \<and> CHR ''s'' \<in> set dir)"
  shows "(dg_left (drag_at r dir x y x' y'), dg_w (drag_at r dir x y x' y'))
      = pulled (rz_min_w r) (rz_max_w r) (CHR ''w'' \<in> set dir) (CHR ''e'' \<in> set dir) (x' - x) (rz_left r, rz_w r)"
    and "(dg_top (drag_at r dir x y x' y'), dg_h (drag_at r dir x y x' y'))
      = pulled (rz_min_h r) (rz_max_h r) (CHR ''n'' \<in> set dir) (CHR ''s'' \<in> set dir) (y' - y) (rz_top r, rz_h r)"
  using assms by (auto simp: drag_at_def drag_edges_def new_drag_def pulled_def Let_def algebra_simps)

definition same_limits :: "resizer \<Rightarrow> resizer \<Rightarrow> bool" where
  "same_limits r s = (rz_min_w s = rz_min_w r \<and> rz_max_w s = rz_max_w r \<and> rz_min_h s = rz_min_h r \<and> rz_max_h s = rz_max_h r
     \<and> rz_chrome_w s = rz_chrome_w r \<and> rz_chrome_h s = rz_chrome_h r)"

lemma same_drag: "same_limits r s \<Longrightarrow> drag_edges s x y d = drag_edges r x y d"
  by (simp add: same_limits_def drag_edges_def Let_def)

lemma same_limits_simps [simp]:
  "same_limits r r" "same_limits r (apply_drag d s) = same_limits r s" "same_limits r (note_resize n s) = same_limits r s"
  "same_limits r (s\<lparr>rz_drags := ds\<rparr>) = same_limits r s" "same_limits r (s\<lparr>rz_cursor := c\<rparr>) = same_limits r s"
  "same_limits r (s\<lparr>rz_busy := b\<rparr>) = same_limits r s" "same_limits r (s\<lparr>rz_body_cursor := c\<rparr>) = same_limits r s"
  by (simp_all add: same_limits_def apply_drag_def note_resize_def Let_def)

definition no_cursor :: "bool \<Rightarrow> int \<Rightarrow> int \<Rightarrow> resizer \<Rightarrow> resizer" where
  "no_cursor inside x y r = (if inside \<and> \<not> rz_disabled r \<and> \<not> rz_busy r then r\<lparr>rz_cursor := (case grip r x y of [] \<Rightarrow> '''' | d \<Rightarrow> d @ ''-resize'')\<rparr> else r)"

lemma no_cursor_sel [simp]: "same_limits r (no_cursor i x y s) = same_limits r s" "rz_drags (no_cursor i x y s) = rz_drags s"
  by (simp_all add: no_cursor_def)

lemma move_one:
  assumes "same_limits r s" "rz_drags s = [d]"
  shows "same_limits r (move_mouse inside x' y' s) \<and> rz_drags (move_mouse inside x' y' s) = [drag_edges r x' y' d]"
proof -
  have s: "same_limits r (no_cursor inside x' y' s)" "rz_drags (no_cursor inside x' y' s) = [d]" using assms by simp_all
  show ?thesis unfolding move_mouse_def no_cursor_def [symmetric] Let_def s(2) move_drags.simps prod.case same_drag [OF s(1)]
    using s(1) by simp
qed

lemma move_many:
  assumes "same_limits r s" "rz_drags s = [drag_edges r a b d]"
  shows "\<exists>a b. same_limits r (fold (\<lambda>(i, x', y') s. move_mouse i x' y' s) ms s)
    \<and> rz_drags (fold (\<lambda>(i, x', y') s. move_mouse i x' y' s) ms s) = [drag_edges r a b d]"
  using assms
proof (induction ms arbitrary: s a b)
  case (Cons m ms)
  obtain i x' y' where m: "m = (i, x', y')" by (cases m)
  have "same_limits r (move_mouse i x' y' s) \<and> rz_drags (move_mouse i x' y' s) = [drag_edges r x' y' d]"
    using move_one [OF Cons.prems] by (simp add: drag_again)
  then show ?case using Cons.IH [of "move_mouse i x' y' s" x' y'] by (simp add: m)
qed (simp, blast)

lemma apply_box:
  assumes "limits_ok r" "same_limits r s" "rz_chrome_w r \<le> dg_w d" "rz_chrome_h r \<le> dg_h d"
  shows "rz_left (apply_drag d s) = dg_left d \<and> rz_w (apply_drag d s) = dg_w d \<and> rz_top (apply_drag d s) = dg_top d \<and> rz_h (apply_drag d s) = dg_h d"
  using assms by (simp add: apply_drag_def same_limits_def Let_def)

lemma drag_least:
  assumes "limits_ok r"
  shows "rz_chrome_w r \<le> dg_w (drag_at r dir x y x' y')" "rz_chrome_h r \<le> dg_h (drag_at r dir x y x' y')"
  using assms by (auto simp: drag_at_def drag_edges_def new_drag_def limits_ok_def clamp_def Let_def)

lemma fold_moves: "foldl resize_step r (map (\<lambda>(i, a, b). MoveMouse i a b) ms) = fold (\<lambda>(i, a, b) r. move_mouse i a b r) ms r"
  by (induction ms arbitrary: r) (auto simp: resize_step_def)

text \<open>
  C34. A drag takes the edges under the mouse with it and leaves the others where they are: the box it
  ends with depends only on where the button was pressed and released, not on the way between or on
  what the listeners of the drag answered.
\<close>

theorem resize_ends_at_mouse:
  assumes "limits_ok r" and "rz_drags r = []" and "\<not> rz_disabled r" and "grip r x y \<noteq> ''''"
    and "r' = foldl resize_step r (Press True x y # map (\<lambda>(i, a, b). MoveMouse i a b) ms @ [Release x' y'])"
  shows "(rz_left r', rz_w r') = pulled (rz_min_w r) (rz_max_w r) (CHR ''w'' \<in> set (grip r x y)) (CHR ''e'' \<in> set (grip r x y)) (x' - x) (rz_left r, rz_w r)
    \<and> (rz_top r', rz_h r') = pulled (rz_min_h r) (rz_max_h r) (CHR ''n'' \<in> set (grip r x y)) (CHR ''s'' \<in> set (grip r x y)) (y' - y) (rz_top r, rz_h r)
    \<and> rz_drags r' = []"
proof -
  let ?d = "new_drag r (grip r x y) x y" and ?e = "drag_at r (grip r x y) x y x' y'"
  define s0 where "s0 = press True x y r"
  have s0: "same_limits r s0" "rz_drags s0 = [?d]" using assms(2-4) by (simp_all add: s0_def press_def note_resize_def same_limits_def Let_def)
  have "\<exists>d. same_limits r (fold (\<lambda>(i, a, b) s. move_mouse i a b s) ms s0) \<and> rz_drags (fold (\<lambda>(i, a, b) s. move_mouse i a b s) ms s0) = [d]
      \<and> drag_edges r x' y' d = ?e"
  proof (cases ms)
    case Nil
    then show ?thesis using s0 by (simp add: drag_at_def)
  next
    case (Cons m ms')
    obtain i a b where m: "m = (i, a, b)" by (cases m)
    have "same_limits r (move_mouse i a b s0) \<and> rz_drags (move_mouse i a b s0) = [drag_edges r a b ?d]" by (rule move_one [OF s0])
    then have "\<exists>a' b'. same_limits r (fold (\<lambda>(i, a, b) s. move_mouse i a b s) ms' (move_mouse i a b s0))
      \<and> rz_drags (fold (\<lambda>(i, a, b) s. move_mouse i a b s) ms' (move_mouse i a b s0)) = [drag_edges r a' b' ?d]"
      using move_many by blast
    then show ?thesis by (auto simp: Cons m drag_again drag_at_def)
  qed
  then obtain s d where s: "fold (\<lambda>(i, a, b) s. move_mouse i a b s) ms s0 = s" "same_limits r s" "rz_drags s = [d]" "drag_edges r x' y' d = ?e" by blast
  have r': "r' = release x' y' s" unfolding assms(5) using s(1) by (simp add: fold_moves resize_step_def s0_def)
  have e: "drag_edges (s\<lparr>rz_busy := False\<rparr>) x' y' d = ?e" "drag_edges s x' y' d = ?e"
    using same_drag [of r "s\<lparr>rz_busy := False\<rparr>"] same_drag [OF s(2)] s(2,4) by simp_all
  have "rz_left r' = dg_left ?e \<and> rz_w r' = dg_w ?e \<and> rz_top r' = dg_top ?e \<and> rz_h r' = dg_h ?e"
    using apply_box [OF assms(1) _ drag_least [OF assms(1)], of "s\<lparr>rz_busy := False\<rparr>"] s(2) by (simp add: r' release_def s(3) e note_resize_def Let_def)
  moreover have "rz_drags r' = []" by (simp add: r' release_def s(3) Let_def)
  moreover note drag_result [of "grip r x y" r x y x' y', OF one_edge]
  ultimately show ?thesis by simp
qed

definition sample_resizer :: resizer where
  "sample_resizer = \<lparr>rz_left = 40, rz_top = 30, rz_w = 200, rz_h = 100, rz_chrome_w = 2, rz_chrome_h = 2, rz_page_x = 0, rz_page_y = 0,
     rz_min_w = 10, rz_min_h = 10, rz_max_w = 10000, rz_max_h = 10000, rz_edge = 5, rz_handles = ''n, e, s, w, ne, se, sw, nw, all'',
     rz_disabled = False, rz_allow = (\<lambda>d. False), rz_drags = [], rz_busy = False, rz_cursor = '''', rz_body_cursor = '''', rz_log = []\<rparr>"

theorem resize_ends_at_mouse_witness:
  "(rz_left (foldl resize_step sample_resizer [Press True 42 128, MoveMouse True 100 500, Release 300 150]),
    rz_w (foldl resize_step sample_resizer [Press True 42 128, MoveMouse True 100 500, Release 300 150])) = (230, 10)"
proof -
  have "limits_ok sample_resizer" "rz_drags sample_resizer = []" "\<not> rz_disabled sample_resizer" by (simp_all add: limits_ok_def sample_resizer_def)
  moreover have g: "grip sample_resizer 42 128 = ''sw''" by code_simp
  ultimately have ok: "limits_ok sample_resizer" "rz_drags sample_resizer = []" "\<not> rz_disabled sample_resizer" "grip sample_resizer 42 128 \<noteq> ''''" by simp_all
  have es: "[Press True 42 128, MoveMouse True 100 500, Release 300 150]
    = Press True 42 128 # map (\<lambda>(i, a, b). MoveMouse i a b) [(True, 100, 500)] @ [Release 300 150]" by simp
  show ?thesis unfolding es resize_ends_at_mouse [OF ok refl, THEN conjunct1] g
    by (simp add: pulled_def clamp_def sample_resizer_def)
qed

section \<open>Sessions\<close>

text \<open>Whatever is dragged, the box stays within its limits.\<close>

definition resizer_ok :: "resizer \<Rightarrow> bool" where
  "resizer_ok r = (limits_ok r \<and> clamp (rz_min_w r) (rz_max_w r) (rz_w r) = rz_w r \<and> clamp (rz_min_h r) (rz_max_h r) (rz_h r) = rz_h r
     \<and> (\<forall>d \<in> set (rz_drags r). clamp (rz_min_w r) (rz_max_w r) (dg_w d) = dg_w d \<and> clamp (rz_min_h r) (rz_max_h r) (dg_h d) = dg_h d))"

definition drag_fits :: "resizer \<Rightarrow> edge_drag \<Rightarrow> bool" where
  "drag_fits r d = (clamp (rz_min_w r) (rz_max_w r) (dg_w d) = dg_w d \<and> clamp (rz_min_h r) (rz_max_h r) (dg_h d) = dg_h d)"

lemma resizer_ok_drags: "resizer_ok r \<longleftrightarrow> resizer_ok (r\<lparr>rz_drags := []\<rparr>) \<and> (\<forall>d \<in> set (rz_drags r). drag_fits r d)"
  by (auto simp: resizer_ok_def drag_fits_def limits_ok_def)

lemma clamp_again [simp]: "clamp lo hi (clamp lo hi v) = clamp lo hi v"
  by (simp add: clamp_def)

lemma drag_fits_edges: "drag_fits r d \<Longrightarrow> drag_fits r (drag_edges r x y d)"
  by (simp add: drag_fits_def drag_edges_def Let_def)

lemma clamp_fix: "lo \<le> hi \<Longrightarrow> clamp lo hi v = v \<longleftrightarrow> lo \<le> v \<and> v \<le> hi"
  by (auto simp: clamp_def)

lemma apply_ok:
  assumes r: "resizer_ok r" and d: "drag_fits r d"
  shows "resizer_ok (apply_drag d r)"
proof -
  have l: "limits_ok r" using r by (simp add: resizer_ok_def)
  then have c: "rz_chrome_w r \<le> dg_w d" "rz_chrome_h r \<le> dg_h d" using d by (auto simp: limits_ok_def drag_fits_def clamp_fix)
  have s: "same_limits r (apply_drag d r)" by simp
  have "rz_drags (apply_drag d r) = rz_drags r" by (simp add: apply_drag_def Let_def)
  then show ?thesis using r d c s apply_box [OF l same_limits_simps(1) c]
    unfolding resizer_ok_def same_limits_def limits_ok_def drag_fits_def by simp
qed

lemma ok_resize_fields [simp]:
  "resizer_ok (note_resize n r) = resizer_ok r" "resizer_ok (r\<lparr>rz_busy := b\<rparr>) = resizer_ok r" "resizer_ok (r\<lparr>rz_cursor := c\<rparr>) = resizer_ok r"
  "resizer_ok (r\<lparr>rz_body_cursor := c\<rparr>) = resizer_ok r" "resizer_ok (r\<lparr>rz_disabled := b\<rparr>) = resizer_ok r"
  "rz_drags (apply_drag d r) = rz_drags r" "rz_drags (note_resize n r) = rz_drags r"
  by (simp_all add: resizer_ok_def limits_ok_def note_resize_def apply_drag_def Let_def)

lemma fits_same: "same_limits r s \<Longrightarrow> drag_fits s d = drag_fits r d"
  by (simp add: same_limits_def drag_fits_def)

lemma fold_keeps:
  assumes "\<And>d r. d \<in> set ds \<Longrightarrow> P r \<Longrightarrow> P (f d r)" "P r"
  shows "P (fold f ds r)"
  using assms by (induction ds arbitrary: r) auto

lemma press_ok: "resizer_ok r \<Longrightarrow> resizer_ok (press i x y r)"
proof -
  assume r: "resizer_ok r"
  let ?r1 = "if i \<and> \<not> rz_disabled r \<and> grip r x y \<noteq> '''' then r\<lparr>rz_drags := rz_drags r @ [new_drag r (grip r x y) x y], rz_body_cursor := grip r x y @ ''-resize''\<rparr> else r"
  have "drag_fits r (new_drag r (grip r x y) x y)" using r by (simp add: drag_fits_def new_drag_def resizer_ok_def)
  then have "resizer_ok (r\<lparr>rz_drags := rz_drags r @ [new_drag r (grip r x y) x y]\<rparr>)"
    using r by (simp add: resizer_ok_def limits_ok_def drag_fits_def ball_Un)
  then have "resizer_ok ?r1" using r by simp
  moreover have "resizer_ok (fold (\<lambda>d r. note_resize ResizeStarts (r\<lparr>rz_busy := True\<rparr>)) ds s)" if "resizer_ok s" for ds s
    using that by (induction ds arbitrary: s) simp_all
  ultimately show ?thesis unfolding press_def Let_def by blast
qed

lemma move_drags_ok:
  assumes "same_limits q r" "resizer_ok (r\<lparr>rz_drags := []\<rparr>)" "\<forall>d \<in> set ds. drag_fits q d" "move_drags x y ds r = (ds', r')"
  shows "same_limits q r' \<and> resizer_ok (r'\<lparr>rz_drags := []\<rparr>) \<and> (\<forall>d \<in> set ds'. drag_fits q d)"
  using assms
proof (induction ds arbitrary: r ds' r')
  case (Cons d ds)
  define d' where "d' = drag_edges r x y d"
  define r1 where "r1 = (if rz_allow r d' then apply_drag d' (note_resize Resizing r) else note_resize Resizing r)"
  have f: "drag_fits q d'" using Cons.prems(1,3) drag_fits_edges [of r d] fits_same [OF Cons.prems(1)] by (simp add: d'_def)
  have "(apply_drag d' s)\<lparr>rz_drags := []\<rparr> = apply_drag d' (s\<lparr>rz_drags := []\<rparr>)" for s by (simp add: apply_drag_def Let_def)
  moreover have "resizer_ok (note_resize Resizing r\<lparr>rz_drags := []\<rparr>)" using Cons.prems(2) by (simp add: note_resize_def resizer_ok_def limits_ok_def)
  moreover have "drag_fits (note_resize Resizing r\<lparr>rz_drags := []\<rparr>) d'" using f Cons.prems(1) by (subst fits_same [of q]) simp_all
  ultimately have r1: "same_limits q r1" "resizer_ok (r1\<lparr>rz_drags := []\<rparr>)" using Cons.prems(1) by (simp_all add: r1_def apply_ok)
  obtain es s where e: "move_drags x y ds r1 = (es, s)" by (cases "move_drags x y ds r1")
  have "move_drags x y (d # ds) r = (case move_drags x y ds r1 of (es, s) \<Rightarrow> (d' # es, s))"
    unfolding move_drags.simps Let_def d'_def [symmetric] r1_def ..
  then have "ds' = d' # es" "r' = s" using Cons.prems(4) e by simp_all
  then show ?case using Cons.IH [OF r1 _ e] Cons.prems(3) f by simp
qed simp

lemma move_mouse_ok: "resizer_ok r \<Longrightarrow> resizer_ok (move_mouse i x y r)"
proof -
  assume r: "resizer_ok r"
  have n: "same_limits r (no_cursor i x y r)" "resizer_ok (no_cursor i x y r)" using r by (simp_all add: no_cursor_def)
  obtain ds r' where m: "move_drags x y (rz_drags (no_cursor i x y r)) (no_cursor i x y r) = (ds, r')"
    by (cases "move_drags x y (rz_drags (no_cursor i x y r)) (no_cursor i x y r)")
  have "resizer_ok (no_cursor i x y r\<lparr>rz_drags := []\<rparr>) \<and> (\<forall>d \<in> set (rz_drags (no_cursor i x y r)). drag_fits r d)"
    using n(2) fits_same [OF n(1)] unfolding resizer_ok_drags [of "no_cursor i x y r"] by simp
  then have o: "same_limits r r' \<and> resizer_ok (r'\<lparr>rz_drags := []\<rparr>) \<and> (\<forall>d \<in> set ds. drag_fits r d)" using move_drags_ok [OF n(1) _ _ m] by simp
  then have "resizer_ok (r'\<lparr>rz_drags := ds\<rparr>)" using fits_same [of r "r'\<lparr>rz_drags := ds\<rparr>"]
    by (subst resizer_ok_drags) simp
  then show ?thesis unfolding move_mouse_def no_cursor_def [symmetric] Let_def m by simp
qed

lemma release_ok: "resizer_ok r \<Longrightarrow> resizer_ok (release x y r)"
proof -
  assume r: "resizer_ok r"
  let ?f = "\<lambda>d r. note_resize ResizeStops (apply_drag (drag_edges r x y d) (r\<lparr>rz_busy := False\<rparr>))"
  have "resizer_ok (fold ?f ds s) \<and> same_limits r (fold ?f ds s)" if "resizer_ok s" "same_limits r s" "\<forall>d \<in> set ds. drag_fits r d" for ds s
  proof (rule fold_keeps [where P = "\<lambda>s. resizer_ok s \<and> same_limits r s"])
    fix d s assume d: "d \<in> set ds" and s: "resizer_ok s \<and> same_limits r s"
    have "drag_fits s (drag_edges s x y d)" using that(3) d s fits_same drag_fits_edges by blast
    then have "drag_fits (s\<lparr>rz_busy := False\<rparr>) (drag_edges s x y d)" by (simp add: drag_fits_def)
    then show "resizer_ok (?f d s) \<and> same_limits r (?f d s)" using s by (simp add: apply_ok)
  qed (use that in blast)
  from this [of r "rz_drags r"] have "resizer_ok (fold ?f (rz_drags r) r)" using r by (simp add: resizer_ok_drags [of r])
  then have "resizer_ok ((fold ?f (rz_drags r) r)\<lparr>rz_drags := []\<rparr>)" by (simp add: resizer_ok_drags [of "fold ?f (rz_drags r) r"])
  then show ?thesis using r by (simp add: release_def Let_def resizer_ok_def limits_ok_def)
qed

interpretation resizer_machine: event_machine resize_step resizer_ok
proof unfold_locales
  fix r e assume "resizer_ok r"
  then show "resizer_ok (resize_step r e)"
    by (cases e) (simp_all add: resize_step_def press_ok move_mouse_ok release_ok leave_element_def)
qed

text \<open>However the mouse is used, the size of the element stays within its limits.\<close>

lemma resize_session:
  assumes "resizer_ok r"
  shows "resizer_ok (foldl resize_step r es)"
  by (rule resizer_machine.inv_foldl [OF assms])

text \<open>A button released outside the window goes on dragging; the next press adds a second drag to it.\<close>

lemma lost_release_drags_twice:
  "length (rz_drags (foldl resize_step sample_resizer [Press True 42 128, MoveMouse True 100 500, Press True 42 128])) = 2"
  by code_simp

end

