(* ===== verification/Layout.thy ===== *)
theory Layout
  imports Resizable
begin

text \<open>
  \<open>plugins/jquery.layout.js\<close>: a container divided into a centre and up to four regions at its sides,
  which can be dragged to another size and collapsed to a strip. A region is a panel; its box, its
  limits and whether it is shown are what the layout uses of it. Sizes are whole pixels. The centre
  exists. Animations end at once.
\<close>

section \<open>State\<close>

datatype side = North | South | East | West

record region =
  rg_left :: int
  rg_top :: int
  rg_w :: int
  rg_h :: int
  rg_min_w :: int
  rg_min_h :: int
  rg_max_w :: int
  rg_max_h :: int
  rg_bar :: int
  rg_split :: bool
  rg_border :: bool
  rg_strip :: int
  rg_shown :: bool
  rg_collapsed :: bool
  rg_may_collapse :: bool
  rg_may_expand :: bool

record layout =
  ly_w :: int
  ly_h :: int
  ly_center :: region
  ly_region :: "side \<Rightarrow> region option"
  ly_slot :: "side \<Rightarrow> region option"
  ly_out :: "side \<Rightarrow> bool"
  ly_dragging :: bool

text \<open>\<open>panel("resize",..)\<close> and \<open>panel("move",..)\<close>: what is not given stays; a collapsed panel is as high as its header\<close>

definition resize_region :: "int option \<Rightarrow> int option \<Rightarrow> int option \<Rightarrow> int option \<Rightarrow> region \<Rightarrow> region" where
  "resize_region w h l t r =
     r\<lparr>rg_w := limit_size (Some (rg_min_w r)) (Some (rg_max_w r)) (case_option (rg_w r) id w),
       rg_h := limit_size (Some (rg_min_h r)) (Some (rg_max_h r)) (case_option (rg_h r) id h),
       rg_left := case_option (rg_left r) id l, rg_top := case_option (rg_top r) id t\<rparr>"

definition move_region :: "int \<Rightarrow> int \<Rightarrow> region \<Rightarrow> region" where
  "move_region l t r = r\<lparr>rg_left := l, rg_top := t\<rparr>"

definition outer_h :: "region \<Rightarrow> int" where
  "outer_h r = (if rg_collapsed r then rg_bar r else rg_h r)"

section \<open>Sizing\<close>

text \<open>\<open>_a\<close>, and the choice between a region and its strip\<close>

definition is_shown :: "region option \<Rightarrow> bool" where
  "is_shown p = (case p of None \<Rightarrow> False | Some r \<Rightarrow> rg_shown r)"

definition part :: "side \<Rightarrow> layout \<Rightarrow> region option" where
  "part s L = (if is_shown (ly_slot L s) then ly_slot L s else if is_shown (ly_region L s) then ly_region L s else None)"

definition put_part :: "side \<Rightarrow> region \<Rightarrow> layout \<Rightarrow> layout" where
  "put_part s r L =
     (if is_shown (ly_slot L s) then L\<lparr>ly_slot := (ly_slot L)(s := Some r)\<rparr> else L\<lparr>ly_region := (ly_region L)(s := Some r)\<rparr>)"

text \<open>Neighbours share the pixel of a border that is no split bar.\<close>

definition lap :: "region \<Rightarrow> int" where
  "lap r = (if \<not> rg_split r \<and> rg_border r then 1 else 0)"

text \<open>\<open>_9\<close> and \<open>_b\<close>: the space left for the centre as left, top, width and height\<close>

definition dock_row :: "side \<Rightarrow> layout \<times> int \<times> int \<times> int \<times> int \<Rightarrow> layout \<times> int \<times> int \<times> int \<times> int" where
  "dock_row s st =
     (case st of (L, l, t, w, h) \<Rightarrow>
        case part s L of
          None \<Rightarrow> st
        | Some p \<Rightarrow>
            let p1 = resize_region (Some (ly_w L)) (Some (rg_h p)) None None p; e = outer_h p1;
                p2 = move_region 0 (if s = North then 0 else ly_h L - e) p1
            in (put_part s p2 L, l, (if s = North then t + e - lap p2 else t), w, h - e + lap p2))"

definition dock_column :: "side \<Rightarrow> layout \<times> int \<times> int \<times> int \<times> int \<Rightarrow> layout \<times> int \<times> int \<times> int \<times> int" where
  "dock_column s st =
     (case st of (L, l, t, w, h) \<Rightarrow>
        case part s L of
          None \<Rightarrow> st
        | Some p \<Rightarrow>
            let p1 = resize_region (Some (rg_w p)) (Some h) None None p; e = rg_w p1;
                p2 = move_region (if s = East then ly_w L - e else 0) t p1
            in (put_part s p2 L, (if s = West then l + e - lap p2 else l), t, w - e + lap p2, h))"

text \<open>\<open>_2\<close>\<close>

definition size_layout :: "layout \<Rightarrow> layout" where
  "size_layout L =
     (case dock_column West (dock_column East (dock_row South (dock_row North (L, 0, 0, ly_w L, ly_h L)))) of
        (L1, l, t, w, h) \<Rightarrow> L1\<lparr>ly_center := resize_region (Some w) (Some h) (Some l) (Some t) (ly_center L1)\<rparr>)"

definition size_to :: "int \<Rightarrow> int \<Rightarrow> layout \<Rightarrow> layout" where
  "size_to w h L = size_layout (L\<lparr>ly_w := w, ly_h := h\<rparr>)"

section \<open>Collapsing and expanding\<close>

text \<open>\<open>_32\<close>: the strip of a side\<close>

definition new_slot :: region where
  "new_slot = \<lparr>rg_left = 0, rg_top = 0, rg_w = 0, rg_h = 0, rg_min_w = 0, rg_min_h = 0, rg_max_w = 10000, rg_max_h = 10000, rg_bar = 28, rg_split = False,
     rg_border = True, rg_strip = 28, rg_shown = False, rg_collapsed = False, rg_may_collapse = True, rg_may_expand = True\<rparr>"

text \<open>
  \<open>_34\<close>: a row that is collapsed changes the height of the columns; the new box of the centre, the box
  of the strip, and where the region slides to
\<close>

definition columns_to :: "int option \<Rightarrow> int \<Rightarrow> layout \<Rightarrow> layout" where
  "columns_to t h L =
     L\<lparr>ly_region := (\<lambda>s. if s = East \<or> s = West then map_option (resize_region None (Some h) None t) (ly_region L s) else ly_region L s),
       ly_slot := (\<lambda>s. if s = East \<or> s = West then map_option (resize_region None (Some h) None t) (ly_slot L s) else ly_slot L s)\<rparr>"

definition wide_lap :: "region \<Rightarrow> int" where
  "wide_lap p = (if rg_split p \<or> \<not> rg_border p then 1 else 0)"

definition row_height :: "side \<Rightarrow> region \<Rightarrow> layout \<Rightarrow> int" where
  "row_height s p L = rg_h (ly_center L) + (if is_shown (ly_slot L s) then 0 else outer_h p - rg_strip p + wide_lap p)"

definition push_columns :: "side \<Rightarrow> region \<Rightarrow> layout \<Rightarrow> layout" where
  "push_columns s p L =
     (case s of
        North \<Rightarrow> columns_to (Some (rg_strip p - 1)) (row_height s p L) L
      | South \<Rightarrow> columns_to None (row_height s p L) L
      | _ \<Rightarrow> L)"

definition grow_center :: "side \<Rightarrow> region \<Rightarrow> layout \<Rightarrow> region" where
  "grow_center s p L =
     (let c = ly_center L; w = rg_w c + rg_w p - rg_strip p + wide_lap p
      in case s of
           East \<Rightarrow> resize_region (Some w) None None None c
         | West \<Rightarrow> resize_region (Some w) None (Some (rg_strip p - 1)) None c
         | North \<Rightarrow> resize_region None (Some (row_height s p L)) None (Some (rg_strip p - 1)) c
         | South \<Rightarrow> resize_region None (Some (row_height s p L)) None None c)"

definition place_slot :: "side \<Rightarrow> region \<Rightarrow> layout \<Rightarrow> region \<Rightarrow> region" where
  "place_slot s p L e =
     (let c = ly_center L
      in case s of
           East \<Rightarrow> resize_region (Some (rg_strip p)) (Some (rg_h c)) (Some (ly_w L - rg_strip p)) (Some (rg_top c)) e
         | West \<Rightarrow> resize_region (Some (rg_strip p)) (Some (rg_h c)) (Some 0) (Some (rg_top c)) e
         | North \<Rightarrow> resize_region (Some (ly_w L)) (Some (rg_strip p)) (Some 0) (Some 0) e
         | South \<Rightarrow> resize_region (Some (ly_w L)) (Some (rg_strip p)) (Some 0) (Some (ly_h L - rg_strip p)) e)"

definition slide_away :: "side \<Rightarrow> layout \<Rightarrow> region \<Rightarrow> region" where
  "slide_away s L p =
     (let c = ly_center L
      in case s of
           East \<Rightarrow> resize_region None (Some (rg_h c)) (Some (ly_w L)) (Some (rg_top c)) p
         | West \<Rightarrow> resize_region None (Some (rg_h c)) (Some (- rg_w p)) (Some (rg_top c)) p
         | North \<Rightarrow> resize_region (Some (ly_w L)) None None (Some (- outer_h p)) p
         | South \<Rightarrow> resize_region (Some (ly_w L)) None None (Some (ly_h L)) p)"

text \<open>\<open>_2b\<close>\<close>

definition collapse_region :: "side \<Rightarrow> layout \<Rightarrow> layout" where
  "collapse_region s L =
     (case ly_region L s of
        None \<Rightarrow> L
      | Some p \<Rightarrow>
          if \<not> rg_may_collapse p then L
          else let e = case_option new_slot id (ly_slot L s);
                   L1 = L\<lparr>ly_slot := (ly_slot L)(s := Some e)\<rparr>;
                   L2 = push_columns s p L1;
                   L3 = (if is_shown (ly_slot L1 s) then L2 else L2\<lparr>ly_center := grow_center s p L1\<rparr>)
               in L3\<lparr>ly_region := (ly_region L3)(s := Some (p\<lparr>rg_collapsed := True, rg_shown := False\<rparr>)),
                     ly_slot := (ly_slot L3)(s := Some ((place_slot s p L1 e)\<lparr>rg_shown := True\<rparr>)), ly_out := (ly_out L3)(s := False)\<rparr>)"

text \<open>\<open>_3c\<close>\<close>

definition expand_region :: "side \<Rightarrow> layout \<Rightarrow> layout" where
  "expand_region s L =
     (case (ly_region L s, ly_slot L s) of
        (Some p, Some e) \<Rightarrow>
          if \<not> rg_may_expand p then L
          else size_layout (L\<lparr>ly_slot := (ly_slot L)(s := Some (e\<lparr>rg_shown := False\<rparr>)),
                              ly_region := (ly_region L)(s := Some (slide_away s L (p\<lparr>rg_collapsed := False, rg_shown := True\<rparr>)))\<rparr>)
      | _ \<Rightarrow> L)"

text \<open>A click on the strip, and the mouse leaving the region that slid out\<close>

definition slide_out :: "side \<Rightarrow> layout \<Rightarrow> layout" where
  "slide_out s L =
     (case (ly_region L s, is_shown (ly_slot L s)) of
        (Some p, True) \<Rightarrow>
          let p1 = p\<lparr>rg_collapsed := rg_collapsed p \<and> \<not> rg_may_expand p, rg_shown := True\<rparr>;
              L1 = push_columns s p1 (L\<lparr>ly_region := (ly_region L)(s := Some p1)\<rparr>)
          in L1\<lparr>ly_region := (ly_region L1)(s := Some (slide_away s L1 p1)), ly_out := (ly_out L1)(s := True)\<rparr>
      | _ \<Rightarrow> L)"

definition leave_region :: "side \<Rightarrow> bool \<Rightarrow> layout \<Rightarrow> layout" where
  "leave_region s list_open L =
     (if \<not> ly_out L s \<or> ly_dragging L \<or> list_open then L else collapse_region s L)"

section \<open>Regions\<close>

text \<open>\<open>_17\<close> and \<open>add\<close>, \<open>_26\<close> and \<open>remove\<close>, \<open>_4a\<close>, and the end of a drag of the inner edge of a region\<close>

definition placed_region :: "side \<Rightarrow> region \<Rightarrow> layout \<Rightarrow> layout" where
  "placed_region s r L = size_layout (if ly_region L s = None then L\<lparr>ly_region := (ly_region L)(s := Some (r\<lparr>rg_shown := True\<rparr>))\<rparr> else L)"

definition add_region :: "side \<Rightarrow> region \<Rightarrow> layout \<Rightarrow> layout" where
  "add_region s r L =
     (let L1 = placed_region s r L
      in case ly_region L1 s of Some p \<Rightarrow> if rg_collapsed p then collapse_region s L1 else L1 | None \<Rightarrow> L1)"

definition remove_region :: "side \<Rightarrow> layout \<Rightarrow> layout" where
  "remove_region s L =
     size_layout (if ly_region L s = None then L else L\<lparr>ly_region := (ly_region L)(s := None), ly_slot := (ly_slot L)(s := None), ly_out := (ly_out L)(s := False)\<rparr>)"

definition split_region :: "side \<Rightarrow> bool \<Rightarrow> layout \<Rightarrow> layout" where
  "split_region s b L = size_layout (L\<lparr>ly_region := (ly_region L)(s := map_option (\<lambda>r. r\<lparr>rg_split := b\<rparr>) (ly_region L s))\<rparr>)"

definition start_drag :: "layout \<Rightarrow> layout" where
  "start_drag L = L\<lparr>ly_dragging := True\<rparr>"

text \<open>The edge of a region is dragged by \<open>delta\<close> pixels away from its side.\<close>

definition shown_place :: "side \<Rightarrow> layout \<Rightarrow> region \<Rightarrow> int \<times> int" where
  "shown_place s L r =
     (if \<not> ly_out L s then (rg_left r, rg_top r)
      else case s of
             North \<Rightarrow> (rg_left r, 0) | South \<Rightarrow> (rg_left r, ly_h L - outer_h r) | East \<Rightarrow> (ly_w L - rg_w r, rg_top r) | West \<Rightarrow> (0, rg_top r))"

definition drag_data :: "side \<Rightarrow> int \<Rightarrow> int \<times> int \<Rightarrow> region \<Rightarrow> int \<times> int \<times> int \<times> int" where
  "drag_data s delta place r =
     (let w = clamp (rg_min_w r) (rg_max_w r) (rg_w r + delta); h = clamp (rg_min_h r) (rg_max_h r) (outer_h r + delta)
      in case s of
           North \<Rightarrow> (fst place, snd place, rg_w r, h)
         | South \<Rightarrow> (fst place, snd place + outer_h r - h, rg_w r, h)
         | East \<Rightarrow> (fst place + rg_w r - w, snd place, w, outer_h r)
         | West \<Rightarrow> (fst place, snd place, w, outer_h r))"

definition stop_drag :: "side \<Rightarrow> int \<Rightarrow> layout \<Rightarrow> layout" where
  "stop_drag s delta L =
     (case ly_region L s of
        Some p \<Rightarrow>
          if rg_shown p \<and> rg_split p
          then (case drag_data s delta (shown_place s L p) p of
                  (l, t, w, h) \<Rightarrow> (size_layout (L\<lparr>ly_region := (ly_region L)(s := Some (resize_region (Some w) (Some h) (Some l) (Some t) p))\<rparr>))\<lparr>ly_dragging := False\<rparr>)
          else L
      | None \<Rightarrow> L)"

text \<open>\<open>_45\<close>\<close>

definition start_layout :: "layout \<Rightarrow> layout" where
  "start_layout L =
     fold (\<lambda>s L. case ly_region L s of Some p \<Rightarrow> if rg_collapsed p then collapse_region s L else L | None \<Rightarrow> L)
       [East, West, North, South] (size_layout L)"

datatype layout_event =
    SizeTo int int | CollapseSide side | ExpandSide side | SlideOut side | LeaveSide side bool | AddRegion side region | RemoveRegion side
  | SplitRegion side bool | StartDrag | StopDrag side int

definition layout_act :: "layout_event \<Rightarrow> layout \<Rightarrow> layout" where
  "layout_act e L =
     (case e of
        SizeTo w h \<Rightarrow> size_to w h L
      | CollapseSide s \<Rightarrow> collapse_region s L
      | ExpandSide s \<Rightarrow> expand_region s L
      | SlideOut s \<Rightarrow> slide_out s L
      | LeaveSide s b \<Rightarrow> leave_region s b L
      | AddRegion s r \<Rightarrow> add_region s r L
      | RemoveRegion s \<Rightarrow> remove_region s L
      | SplitRegion s b \<Rightarrow> split_region s b L
      | StartDrag \<Rightarrow> start_drag L
      | StopDrag s d \<Rightarrow> stop_drag s d L)"

section \<open>Tilings\<close>

definition fits :: "int \<Rightarrow> int \<Rightarrow> int \<Rightarrow> bool" where
  "fits mn mx v = (limit_size (Some mn) (Some mx) v = v)"

text \<open>The space a side takes, and the box it should have\<close>

definition is_row :: "side \<Rightarrow> bool" where
  "is_row s = (s = North \<or> s = South)"

definition depth :: "side \<Rightarrow> layout \<Rightarrow> int" where
  "depth s L = (case part s L of None \<Rightarrow> 0 | Some p \<Rightarrow> (if is_row s then outer_h p else rg_w p) - lap p)"

definition inner_w :: "layout \<Rightarrow> int" where
  "inner_w L = ly_w L - depth East L - depth West L"

definition inner_h :: "layout \<Rightarrow> int" where
  "inner_h L = ly_h L - depth North L - depth South L"

definition region_box :: "region \<Rightarrow> int \<times> int \<times> int \<times> int" where
  "region_box p = (rg_left p, rg_top p, rg_w p, outer_h p)"

definition side_box :: "side \<Rightarrow> layout \<Rightarrow> region \<Rightarrow> int \<times> int \<times> int \<times> int" where
  "side_box s L p =
     (case s of
        North \<Rightarrow> (0, 0, ly_w L, outer_h p)
      | South \<Rightarrow> (0, ly_h L - outer_h p, ly_w L, outer_h p)
      | East \<Rightarrow> (ly_w L - rg_w p, depth North L, rg_w p, inner_h L)
      | West \<Rightarrow> (0, depth North L, rg_w p, inner_h L))"

definition center_box :: "layout \<Rightarrow> int \<times> int \<times> int \<times> int" where
  "center_box L = (depth West L, depth North L, inner_w L, inner_h L)"

definition center_now :: "layout \<Rightarrow> int \<times> int \<times> int \<times> int" where
  "center_now L = (rg_left (ly_center L), rg_top (ly_center L), rg_w (ly_center L), rg_h (ly_center L))"

definition tiled :: "layout \<Rightarrow> bool" where
  "tiled L = (center_now L = center_box L \<and> (\<forall>s p. part s L = Some p \<longrightarrow> region_box p = side_box s L p))"

text \<open>The container is large enough for the limits of the parts that are shown.\<close>

definition side_fits :: "layout \<Rightarrow> side \<Rightarrow> bool" where
  "side_fits L s =
     (case part s L of
        None \<Rightarrow> True
      | Some p \<Rightarrow> if is_row s then fits (rg_min_w p) (rg_max_w p) (ly_w L) else fits (rg_min_h p) (rg_max_h p) (inner_h L) \<and> \<not> rg_collapsed p)"

definition has_room :: "layout \<Rightarrow> bool" where
  "has_room L = (fits (rg_min_w (ly_center L)) (rg_max_w (ly_center L)) (inner_w L) \<and> fits (rg_min_h (ly_center L)) (rg_max_h (ly_center L)) (inner_h L)
     \<and> (\<forall>s \<in> {North, South, East, West}. side_fits L s))"

lemma all_sides: "(\<forall>s. P s) = (P North \<and> P South \<and> P East \<and> P West)"
  by (metis side.exhaust)

lemma part_put:
  assumes "part s L = Some p" "rg_shown q"
  shows "part s (put_part s q L) = Some q" "s' \<noteq> s \<Longrightarrow> part s' (put_part s q L) = part s' L"
  using assms by (auto simp: part_def put_part_def is_shown_def split: if_splits option.splits)

lemma put_sel [simp]: "ly_w (put_part s q L) = ly_w L" "ly_h (put_part s q L) = ly_h L" "ly_center (put_part s q L) = ly_center L"
  by (simp_all add: put_part_def)

lemma part_shown: "part s L = Some p \<Longrightarrow> rg_shown p"
  by (auto simp: part_def is_shown_def split: if_splits option.splits)

lemma resize_sel [simp]:
  "rg_shown (resize_region w h l t r) = rg_shown r" "rg_collapsed (resize_region w h l t r) = rg_collapsed r" "rg_bar (resize_region w h l t r) = rg_bar r"
  "rg_split (resize_region w h l t r) = rg_split r" "rg_border (resize_region w h l t r) = rg_border r" "lap (resize_region w h l t r) = lap r"
  "rg_min_w (resize_region w h l t r) = rg_min_w r" "rg_max_w (resize_region w h l t r) = rg_max_w r" "rg_min_h (resize_region w h l t r) = rg_min_h r"
  "rg_max_h (resize_region w h l t r) = rg_max_h r" "rg_strip (resize_region w h l t r) = rg_strip r"
  "rg_left (resize_region w h l t r) = case_option (rg_left r) id l" "rg_top (resize_region w h l t r) = case_option (rg_top r) id t"
  "rg_w (resize_region w h l t r) = limit_size (Some (rg_min_w r)) (Some (rg_max_w r)) (case_option (rg_w r) id w)"
  "rg_h (resize_region w h l t r) = limit_size (Some (rg_min_h r)) (Some (rg_max_h r)) (case_option (rg_h r) id h)"
  by (simp_all add: resize_region_def lap_def)

lemma move_sel [simp]:
  "rg_shown (move_region l t r) = rg_shown r" "rg_collapsed (move_region l t r) = rg_collapsed r" "lap (move_region l t r) = lap r"
  "outer_h (move_region l t r) = outer_h r" "rg_w (move_region l t r) = rg_w r" "rg_h (move_region l t r) = rg_h r" "rg_left (move_region l t r) = l"
  "rg_top (move_region l t r) = t" "rg_min_w (move_region l t r) = rg_min_w r" "rg_max_w (move_region l t r) = rg_max_w r"
  "rg_min_h (move_region l t r) = rg_min_h r" "rg_max_h (move_region l t r) = rg_max_h r"
  by (simp_all add: move_region_def lap_def outer_h_def)

text \<open>What one step of the sizing does\<close>

definition docked :: "side \<Rightarrow> layout \<Rightarrow> layout \<Rightarrow> bool" where
  "docked s L L' = (ly_w L' = ly_w L \<and> ly_h L' = ly_h L \<and> ly_center L' = ly_center L \<and> (\<forall>s'. s' \<noteq> s \<longrightarrow> part s' L' = part s' L))"

lemma dock_row_facts:
  assumes "dock_row s (L, l, t, w, h) = (L', l', t', w', h')" "is_row s"
  shows "docked s L L' \<and> l' = l \<and> w' = w \<and> h' = h - depth s L' \<and> t' = (if s = North then t + depth s L' else t)
    \<and> (\<forall>p. part s L' = Some p \<longrightarrow> rg_left p = 0 \<and> rg_top p = (if s = North then 0 else ly_h L - outer_h p)
        \<and> rg_w p = limit_size (Some (rg_min_w p)) (Some (rg_max_w p)) (ly_w L))"
proof (cases "part s L")
  case None
  then show ?thesis using assms by (auto simp: dock_row_def docked_def depth_def)
next
  case (Some p)
  define q where "q = move_region 0 (if s = North then 0 else ly_h L - outer_h (resize_region (Some (ly_w L)) (Some (rg_h p)) None None p))
    (resize_region (Some (ly_w L)) (Some (rg_h p)) None None p)"
  have q: "rg_shown q" using part_shown [OF Some] by (simp add: q_def)
  have L': "L' = put_part s q L" "l' = l" "w' = w" "h' = h - outer_h q + lap q" "t' = (if s = North then t + outer_h q - lap q else t)"
    using assms(1) by (auto simp: dock_row_def Some q_def Let_def)
  show ?thesis unfolding L' docked_def using part_put [OF Some q] assms(2) by (auto simp: depth_def q_def)
qed

lemma dock_column_facts:
  assumes "dock_column s (L, l, t, w, h) = (L', l', t', w', h')" "\<not> is_row s"
  shows "docked s L L' \<and> t' = t \<and> h' = h \<and> w' = w - depth s L' \<and> l' = (if s = West then l + depth s L' else l)
    \<and> (\<forall>p. part s L' = Some p \<longrightarrow> rg_top p = t \<and> rg_left p = (if s = East then ly_w L - rg_w p else 0)
        \<and> rg_h p = limit_size (Some (rg_min_h p)) (Some (rg_max_h p)) h)"
proof (cases "part s L")
  case None
  then show ?thesis using assms by (auto simp: dock_column_def docked_def depth_def)
next
  case (Some p)
  define q where "q = move_region (if s = East then ly_w L - rg_w (resize_region (Some (rg_w p)) (Some h) None None p) else 0) t
    (resize_region (Some (rg_w p)) (Some h) None None p)"
  have q: "rg_shown q" using part_shown [OF Some] by (simp add: q_def)
  have L': "L' = put_part s q L" "t' = t" "h' = h" "w' = w - rg_w q + lap q" "l' = (if s = West then l + rg_w q - lap q else l)"
    using assms(1) by (auto simp: dock_column_def Some q_def Let_def)
  show ?thesis unfolding L' docked_def using part_put [OF Some q] assms(2) by (auto simp: depth_def q_def)
qed

lemma depth_docked: "docked s L L' \<Longrightarrow> s' \<noteq> s \<Longrightarrow> depth s' L' = depth s' L"
  by (simp add: docked_def depth_def)

text \<open>Sizing a layout that has room tiles it.\<close>

lemma size_tiled:
  assumes room: "has_room (size_layout L)"
  shows "tiled (size_layout L)"
proof -
  obtain L1 l1 t1 w1 h1 where 1: "dock_row North (L, 0, 0, ly_w L, ly_h L) = (L1, l1, t1, w1, h1)" by (metis prod.exhaust)
  obtain L2 l2 t2 w2 h2 where 2: "dock_row South (L1, l1, t1, w1, h1) = (L2, l2, t2, w2, h2)" by (metis prod.exhaust)
  obtain L3 l3 t3 w3 h3 where 3: "dock_column East (L2, l2, t2, w2, h2) = (L3, l3, t3, w3, h3)" by (metis prod.exhaust)
  obtain L4 l4 t4 w4 h4 where 4: "dock_column West (L3, l3, t3, w3, h3) = (L4, l4, t4, w4, h4)" by (metis prod.exhaust)
  define M where "M = size_layout L"
  have M: "M = L4\<lparr>ly_center := resize_region (Some w4) (Some h4) (Some l4) (Some t4) (ly_center L4)\<rparr>"
    unfolding M_def size_layout_def 1 2 3 4 by simp
  have p: "part s M = part s L4" for s by (simp add: M part_def)
  have d: "depth s M = depth s L4" for s by (simp add: depth_def p)
  note r = dock_row_facts [OF 1, simplified is_row_def] dock_row_facts [OF 2, simplified is_row_def] dock_column_facts [OF 3, simplified is_row_def] dock_column_facts [OF 4, simplified is_row_def]
  have size: "ly_w M = ly_w L" "ly_h M = ly_h L" "ly_w L1 = ly_w L" "ly_h L1 = ly_h L" "ly_w L2 = ly_w L" "ly_h L2 = ly_h L" "ly_w L3 = ly_w L" "ly_h L3 = ly_h L"
    using r by (simp_all add: docked_def M)
  have parts: "part North M = part North L1" "part South M = part South L2" "part East M = part East L3" "part West M = part West L4"
    using r by (simp_all add: docked_def p)
  have depths: "depth North M = depth North L1" "depth South M = depth South L2" "depth East M = depth East L3" "depth West M = depth West L4"
    using parts by (simp_all add: depth_def)
  have c: "t4 = depth North M" "h4 = inner_h M" "l4 = depth West M" "w4 = inner_w M" "t3 = depth North M" "h3 = inner_h M" "t2 = depth North M" "h2 = inner_h M"
    using r depths size by (simp_all add: inner_h_def inner_w_def)
  have room: "fits (rg_min_w (ly_center M)) (rg_max_w (ly_center M)) (inner_w M)" "fits (rg_min_h (ly_center M)) (rg_max_h (ly_center M)) (inner_h M)"
    "side_fits M North" "side_fits M South" "side_fits M East" "side_fits M West"
    using room by (simp_all add: has_room_def M_def [symmetric])
  have "center_now M = center_box M"
  proof -
    have "rg_min_w (ly_center M) = rg_min_w (ly_center L4)" "rg_max_w (ly_center M) = rg_max_w (ly_center L4)"
      "rg_min_h (ly_center M) = rg_min_h (ly_center L4)" "rg_max_h (ly_center M) = rg_max_h (ly_center L4)" by (simp_all add: M)
    moreover have "ly_center M = resize_region (Some w4) (Some h4) (Some l4) (Some t4) (ly_center L4)" by (simp add: M)
    ultimately show ?thesis using room(1,2) unfolding center_now_def center_box_def fits_def c(1-4) by simp
  qed
  moreover have "region_box q = side_box North M q" if "part North M = Some q" for q
    using r(1) room(3) that parts(1) size by (simp add: region_box_def side_box_def side_fits_def fits_def is_row_def)
  moreover have "region_box q = side_box South M q" if "part South M = Some q" for q
    using r(2) room(4) that parts(2) size by (simp add: region_box_def side_box_def side_fits_def fits_def is_row_def)
  moreover have "region_box q = side_box East M q" if "part East M = Some q" for q
    using r(3) room(5) that parts(3) size c by (simp add: region_box_def side_box_def side_fits_def fits_def is_row_def outer_h_def)
  moreover have "region_box q = side_box West M q" if "part West M = Some q" for q
    using r(4) room(6) that parts(4) size c by (simp add: region_box_def side_box_def side_fits_def fits_def is_row_def outer_h_def)
  ultimately show ?thesis unfolding tiled_def all_sides M_def [symmetric] by blast
qed

section \<open>Strips\<close>

definition strip_like :: "region \<Rightarrow> bool" where
  "strip_like e = (rg_min_w e = 0 \<and> rg_min_h e = 0 \<and> rg_max_w e = 10000 \<and> rg_max_h e = 10000 \<and> lap e = 1 \<and> \<not> rg_collapsed e)"

definition slot_ok :: "side \<Rightarrow> region option \<Rightarrow> region option \<Rightarrow> bool" where
  "slot_ok s r e =
     ((case e of None \<Rightarrow> True
       | Some e \<Rightarrow> strip_like e \<and> (rg_shown e \<longrightarrow> (\<exists>p. r = Some p \<and> (if is_row s then rg_h e else rg_w e) = rg_strip p)))
      \<and> (case r of None \<Rightarrow> True | Some p \<Rightarrow> (rg_shown p \<or> is_shown e) \<and> fits 0 10000 (rg_strip p)))"

definition slots_ok :: "layout \<Rightarrow> bool" where
  "slots_ok L = (\<forall>s. slot_ok s (ly_region L s) (ly_slot L s))"

text \<open>The width of a column is within its limits.\<close>

definition columns_ok :: "layout \<Rightarrow> bool" where
  "columns_ok L = (\<forall>s p. \<not> is_row s \<longrightarrow> part s L = Some p \<longrightarrow> fits (rg_min_w p) (rg_max_w p) (rg_w p))"

definition layout_ok :: "layout \<Rightarrow> bool" where
  "layout_ok L = (tiled L \<and> slots_ok L \<and> columns_ok L)"

lemma put_slots:
  assumes "slots_ok L" "part s L = Some p" "rg_shown q" "rg_strip q = rg_strip p" "strip_like p \<longrightarrow> strip_like q"
    and "strip_like p \<Longrightarrow> fits 0 10000 (if is_row s then rg_h p else rg_w p) \<Longrightarrow> (if is_row s then rg_h q else rg_w q) = (if is_row s then rg_h p else rg_w p)"
  shows "slots_ok (put_part s q L)"
proof -
  have k: "slot_ok s' (ly_region L s') (ly_slot L s')" for s' using assms(1) by (simp add: slots_ok_def)
  show ?thesis
  proof (cases "is_shown (ly_slot L s)")
    case True
    then have e: "ly_slot L s = Some p" "rg_shown p" using assms(2) by (auto simp: part_def is_shown_def split: option.splits)
    then obtain r where r: "ly_region L s = Some r" "strip_like p" "(if is_row s then rg_h p else rg_w p) = rg_strip r" "fits 0 10000 (rg_strip r)"
      using k [of s] by (auto simp: slot_ok_def)
    then have "slot_ok s (ly_region L s) (Some q)" using assms(3,5,6) r by (simp add: slot_ok_def is_shown_def)
    then show ?thesis using True k by (simp add: slots_ok_def put_part_def)
  next
    case False
    then have "ly_region L s = Some p" using assms(2) by (auto simp: part_def split: if_splits)
    then have "slot_ok s (Some q) (ly_slot L s)" using k [of s] False assms(3,4) by (auto simp: slot_ok_def is_shown_def split: option.splits)
    then show ?thesis using False k by (simp add: slots_ok_def put_part_def)
  qed
qed

lemma strip_resize: "strip_like (resize_region w h l t r) = strip_like r" "strip_like (move_region a b r) = strip_like r" "rg_strip (move_region a b r) = rg_strip r"
  by (simp_all add: strip_like_def) (simp add: move_region_def)

lemma dock_slots:
  assumes "slots_ok L"
  shows "is_row s \<Longrightarrow> slots_ok (fst (dock_row s (L, l, t, w, h)))" "\<not> is_row s \<Longrightarrow> slots_ok (fst (dock_column s (L, l, t, w, h)))"
proof -
  assume s: "is_row s"
  show "slots_ok (fst (dock_row s (L, l, t, w, h)))"
  proof (cases "part s L")
    case (Some p)
    show ?thesis unfolding dock_row_def Let_def prod.case Some option.case fst_conv
      by (rule put_slots [OF assms Some]) (use part_shown [OF Some] s in \<open>simp_all add: strip_resize fits_def strip_like_def\<close>)
  qed (simp add: dock_row_def assms)
next
  assume s: "\<not> is_row s"
  show "slots_ok (fst (dock_column s (L, l, t, w, h)))"
  proof (cases "part s L")
    case (Some p)
    show ?thesis unfolding dock_column_def Let_def prod.case Some option.case fst_conv
      by (rule put_slots [OF assms Some]) (use part_shown [OF Some] s in \<open>simp_all add: strip_resize fits_def strip_like_def\<close>)
  qed (simp add: dock_column_def assms)
qed

lemma size_ok:
  assumes "slots_ok L" "has_room (size_layout L)"
  shows "layout_ok (size_layout L)"
proof -
  obtain L1 l1 t1 w1 h1 where 1: "dock_row North (L, 0, 0, ly_w L, ly_h L) = (L1, l1, t1, w1, h1)" by (metis prod.exhaust)
  obtain L2 l2 t2 w2 h2 where 2: "dock_row South (L1, l1, t1, w1, h1) = (L2, l2, t2, w2, h2)" by (metis prod.exhaust)
  obtain L3 l3 t3 w3 h3 where 3: "dock_column East (L2, l2, t2, w2, h2) = (L3, l3, t3, w3, h3)" by (metis prod.exhaust)
  obtain L4 l4 t4 w4 h4 where 4: "dock_column West (L3, l3, t3, w3, h3) = (L4, l4, t4, w4, h4)" by (metis prod.exhaust)
  have M: "size_layout L = L4\<lparr>ly_center := resize_region (Some w4) (Some h4) (Some l4) (Some t4) (ly_center L4)\<rparr>"
    unfolding size_layout_def 1 2 3 4 by simp
  have "slots_ok L1" using dock_slots(1) [OF assms(1), of North 0 0 "ly_w L" "ly_h L"] 1 by (simp add: is_row_def)
  then have "slots_ok L2" using dock_slots(1) [of L1 South l1 t1 w1 h1] 2 by (simp add: is_row_def)
  then have "slots_ok L3" using dock_slots(2) [of L2 East l2 t2 w2 h2] 3 by (simp add: is_row_def)
  then have "slots_ok L4" using dock_slots(2) [of L3 West l3 t3 w3 h3] 4 by (simp add: is_row_def)
  then have "slots_ok (size_layout L)" by (simp add: M slots_ok_def)
  moreover have "columns_ok (size_layout L)"
  proof -
    have f: "fits (rg_min_w p) (rg_max_w p) (rg_w p)" if "dock_column s (K, l, t, w, h) = (K', l', t', w', h')" "part s K' = Some p" for s K l t w h K' l' t' w' h' p
    proof (cases "part s K")
      case (Some q)
      define r where "r = move_region (if s = East then ly_w K - rg_w (resize_region (Some (rg_w q)) (Some h) None None q) else 0) t (resize_region (Some (rg_w q)) (Some h) None None q)"
      have "rg_shown r" using part_shown [OF Some] by (simp add: r_def)
      moreover have "K' = put_part s r K" using that(1) by (auto simp: dock_column_def Some r_def Let_def)
      ultimately have "p = r" using part_put(1) [OF Some] that(2) by simp
      then show ?thesis by (simp add: r_def fits_def limit_size_again)
    qed (use that in \<open>simp add: dock_column_def\<close>)
    have p: "part s (size_layout L) = part s L4" for s by (simp add: M part_def)
    moreover have "part East L4 = part East L3" using dock_column_facts [OF 4] by (simp add: docked_def is_row_def)
    ultimately show ?thesis unfolding columns_ok_def all_sides using f [OF 3] f [OF 4] by (simp add: is_row_def)
  qed
  ultimately show ?thesis using size_tiled [OF assms(2)] by (simp add: layout_ok_def)
qed

section \<open>Collapsing keeps the tiling\<close>

lemma shown_map: "is_shown (map_option (resize_region w h l t) p) = is_shown p"
  by (simp add: is_shown_def option.case_eq_if option.map_sel)

lemma columns_part:
  "part s (columns_to t h L) = (if is_row s then part s L else map_option (resize_region None (Some h) None t) (part s L))"
  by (cases s) (simp_all add: part_def columns_to_def is_row_def shown_map)

lemma columns_sel [simp]:
  "ly_w (columns_to t h L) = ly_w L" "ly_h (columns_to t h L) = ly_h L" "ly_center (columns_to t h L) = ly_center L" "ly_out (columns_to t h L) = ly_out L"
  by (simp_all add: columns_to_def)

lemma push_sel [simp]:
  "ly_w (push_columns s p L) = ly_w L" "ly_h (push_columns s p L) = ly_h L" "ly_center (push_columns s p L) = ly_center L"
  by (simp_all add: push_columns_def split: side.split)

lemma push_slots: "slots_ok L \<Longrightarrow> slots_ok (push_columns s p L)"
proof -
  assume L: "slots_ok L"
  have "slot_ok s' (map_option (resize_region None (Some h) None t) r) (map_option (resize_region None (Some h) None t) e)"
    if "slot_ok s' r e" "\<not> is_row s'" for s' r e h t
    using that by (cases r; cases e) (auto simp: slot_ok_def is_shown_def strip_resize fits_def strip_like_def)
  then have "slots_ok (columns_to t h L)" for t h
    using L by (auto simp: slots_ok_def columns_to_def is_row_def)
  then show ?thesis using L by (simp add: push_columns_def split: side.split)
qed

text \<open>Giving the columns the height and the top they should have\<close>

lemma columns_tiled:
  assumes c: "center_now K = center_box K" and rows: "\<And>s p. is_row s \<Longrightarrow> part s K = Some p \<Longrightarrow> region_box p = side_box s K p"
    and cols: "\<And>s p. \<not> is_row s \<Longrightarrow> part s K = Some p \<Longrightarrow> rg_left p = (if s = East then ly_w K - rg_w p else 0) \<and> (t = None \<longrightarrow> rg_top p = depth North K)"
    and ok: "columns_ok K" and room: "has_room K" and t: "\<And>d. t = Some d \<Longrightarrow> d = depth North K" and h: "h = inner_h K"
  shows "tiled (columns_to t h K) \<and> columns_ok (columns_to t h K)"
proof -
  define M where "M = columns_to t h K"
  have p: "part s M = (if is_row s then part s K else map_option (resize_region None (Some h) None t) (part s K))" for s
    by (simp add: M_def columns_part)
  have w: "rg_w (resize_region None a l b q) = rg_w q" if "part s K = Some q" "\<not> is_row s" for s q a l b
    using ok that by (simp add: columns_ok_def fits_def)
  then have d: "depth s M = depth s K" for s by (auto simp: depth_def p split: option.split)
  have m: "ly_w M = ly_w K" "ly_h M = ly_h K" "ly_center M = ly_center K" by (simp_all add: M_def)
  have i: "inner_w M = inner_w K" "inner_h M = inner_h K" by (simp_all add: inner_w_def inner_h_def d m)
  have "center_now M = center_box M" using c i d m by (simp add: center_now_def center_box_def)
  moreover have "region_box q = side_box s M q" if q: "part s M = Some q" for s q
  proof (cases "is_row s")
    case False
    then obtain q0 where q0: "part s K = Some q0" "q = resize_region None (Some h) None t q0" using q by (auto simp: p)
    have "side_fits K s" using room by (cases s) (simp_all add: has_room_def)
    then have f: "fits (rg_min_h q0) (rg_max_h q0) (inner_h K)" "\<not> rg_collapsed q0" using False q0 by (simp_all add: side_fits_def)
    have "rg_w q = rg_w q0" unfolding q0(2) using w [OF q0(1)] False by simp
    moreover have "outer_h q = inner_h K" "rg_left q = rg_left q0" "rg_top q = (case t of Some d \<Rightarrow> d | None \<Rightarrow> rg_top q0)"
      using f h by (simp_all add: q0(2) outer_h_def fits_def split: option.split)
    moreover have "rg_top q = depth North K" using calculation cols [OF False q0(1)] t by (auto split: option.split)
    ultimately show ?thesis using False cols [OF False q0(1)] by (cases s) (auto simp: region_box_def side_box_def is_row_def i d m)
  next
    case True
    then have "part s K = Some q" using q by (auto simp: p)
    from rows [OF True this] True show ?thesis by (cases s) (simp_all add: side_box_def is_row_def i d m)
  qed
  ultimately have "tiled M" by (simp add: tiled_def)
  moreover have "columns_ok M" using ok w unfolding columns_ok_def p by (auto simp: fits_def limit_size_again)
  ultimately show ?thesis by (simp add: M_def)
qed

text \<open>The layout with the strip in the place of a region\<close>

definition with_strip :: "side \<Rightarrow> region \<Rightarrow> region \<Rightarrow> region \<Rightarrow> layout \<Rightarrow> layout" where
  "with_strip s p e c L =
     L\<lparr>ly_region := (ly_region L)(s := Some (p\<lparr>rg_collapsed := True, rg_shown := False\<rparr>)), ly_slot := (ly_slot L)(s := Some (e\<lparr>rg_shown := True\<rparr>)),
       ly_out := (ly_out L)(s := False), ly_center := c\<rparr>"

lemma strip_part: "part s' (with_strip s p e c L) = (if s' = s then Some (e\<lparr>rg_shown := True\<rparr>) else part s' L)"
  by (simp add: part_def with_strip_def is_shown_def)

lemma strip_sel [simp]: "ly_w (with_strip s p e c L) = ly_w L" "ly_h (with_strip s p e c L) = ly_h L" "ly_center (with_strip s p e c L) = c"
  by (simp_all add: with_strip_def)

definition old_strip :: "side \<Rightarrow> layout \<Rightarrow> region" where
  "old_strip s L = case_option new_slot id (ly_slot L s)"

definition new_center :: "side \<Rightarrow> region \<Rightarrow> layout \<Rightarrow> region" where
  "new_center s p L = (if is_shown (ly_slot L s) then ly_center L else grow_center s p L)"

lemma collapse_steps:
  assumes "ly_region L s = Some p" "rg_may_collapse p"
  shows "collapse_region s L =
    (if is_row s then columns_to (if s = North then Some (rg_strip p - 1) else None) (row_height s p L) (with_strip s p (place_slot s p L (old_strip s L)) (new_center s p L) L)
     else with_strip s p (place_slot s p L (old_strip s L)) (new_center s p L) L)"
proof -
  define e where "e = old_strip s L"
  have sh: "is_shown (Some e) = is_shown (ly_slot L s)" by (cases "ly_slot L s") (simp_all add: e_def old_strip_def is_shown_def new_slot_def)
  let ?L1 = "L\<lparr>ly_slot := (ly_slot L)(s := Some e)\<rparr>"
  have g: "row_height s p ?L1 = row_height s p L" "grow_center s p ?L1 = grow_center s p L" "place_slot s p ?L1 e = place_slot s p L e"
    using sh by (cases s; simp add: row_height_def grow_center_def place_slot_def Let_def)+
  have "collapse_region s L =
    (let L2 = push_columns s p ?L1; L3 = (if is_shown (Some e) then L2 else L2\<lparr>ly_center := grow_center s p L\<rparr>)
     in L3\<lparr>ly_region := (ly_region L3)(s := Some (p\<lparr>rg_collapsed := True, rg_shown := False\<rparr>)),
           ly_slot := (ly_slot L3)(s := Some ((place_slot s p L e)\<lparr>rg_shown := True\<rparr>)), ly_out := (ly_out L3)(s := False)\<rparr>)"
    unfolding collapse_region_def using assms g by (simp add: Let_def e_def old_strip_def)
  then show ?thesis unfolding e_def [symmetric] new_center_def
    using sh g(1) by (cases s) (auto simp: Let_def push_columns_def columns_to_def with_strip_def is_row_def fun_eq_iff)
qed

lemma columns_slots: "slots_ok L \<Longrightarrow> slots_ok (columns_to t h L)"
proof -
  assume L: "slots_ok L"
  have "slot_ok s' (map_option (resize_region None (Some h) None t) r) (map_option (resize_region None (Some h) None t) e)"
    if "slot_ok s' r e" "\<not> is_row s'" for s' r e
    using that by (cases r; cases e) (auto simp: slot_ok_def is_shown_def strip_resize fits_def strip_like_def)
  then show ?thesis using L by (auto simp: slots_ok_def columns_to_def is_row_def)
qed

lemma columns_room: "columns_ok K \<Longrightarrow> has_room (columns_to t h K) = has_room K"
proof -
  assume ok: "columns_ok K"
  have p: "part s (columns_to t h K) = (if is_row s then part s K else map_option (resize_region None (Some h) None t) (part s K))" for s
    by (simp add: columns_part)
  have "depth s (columns_to t h K) = depth s K" for s
    using ok by (auto simp: depth_def p columns_ok_def fits_def split: option.split)
  then have i: "inner_w (columns_to t h K) = inner_w K" "inner_h (columns_to t h K) = inner_h K" by (simp_all add: inner_w_def inner_h_def)
  have "side_fits (columns_to t h K) s = side_fits K s" for s by (simp add: side_fits_def p i split: option.split)
  then show ?thesis by (simp add: has_room_def i)
qed

lemma collapse_region_ok:
  assumes ok: "layout_ok L" and room: "has_room (collapse_region s L)"
  shows "layout_ok (collapse_region s L)"
proof (cases "\<exists>p. ly_region L s = Some p \<and> rg_may_collapse p")
  case True
  then obtain p where p: "ly_region L s = Some p" "rg_may_collapse p" by blast
  define e where "e = place_slot s p L (old_strip s L)"
  define K where "K = with_strip s p e (new_center s p L) L"
  note tiled = ok [unfolded layout_ok_def tiled_def, THEN conjunct1]
  have so: "slot_ok s' (ly_region L s') (ly_slot L s')" for s' using ok by (simp add: layout_ok_def slots_ok_def)
  have strip: "fits 0 10000 (rg_strip p)" using so [of s] p(1) by (simp add: slot_ok_def)
  have old: "strip_like (old_strip s L)" using so [of s] by (cases "ly_slot L s") (simp_all add: slot_ok_def old_strip_def new_slot_def strip_like_def lap_def)
  have e: "strip_like e" "(if is_row s then rg_h e else rg_w e) = rg_strip p"
    using old strip by (cases s; simp add: e_def place_slot_def Let_def strip_resize is_row_def strip_like_def fits_def)+
  have pK: "part s' K = (if s' = s then Some (e\<lparr>rg_shown := True\<rparr>) else part s' L)" for s' by (simp add: K_def strip_part)
  have dK: "depth s K = rg_strip p - 1" "s' \<noteq> s \<Longrightarrow> depth s' K = depth s' L" for s'
    using e by (auto simp: depth_def pK outer_h_def strip_like_def lap_def)
  have mK: "ly_w K = ly_w L" "ly_h K = ly_h L" "ly_center K = new_center s p L" by (simp_all add: K_def)
  have dL: "depth s L = (if is_shown (ly_slot L s) then rg_strip p - 1 else (if is_row s then outer_h p else rg_w p) - lap p)"
  proof (cases "is_shown (ly_slot L s)")
    case True
    then obtain e0 where "ly_slot L s = Some e0" "rg_shown e0" by (auto simp: is_shown_def split: option.splits)
    then show ?thesis using so [of s] p(1) by (auto simp: depth_def part_def is_shown_def slot_ok_def strip_like_def outer_h_def)
  next
    case False
    then have "rg_shown p" using so [of s] p(1) by (simp add: slot_ok_def)
    then show ?thesis using False p(1) by (simp add: depth_def part_def is_shown_def)
  qed
  have c: "rg_left (ly_center L) = depth West L" "rg_top (ly_center L) = depth North L" "rg_w (ly_center L) = inner_w L" "rg_h (ly_center L) = inner_h L"
    using tiled by (simp_all add: center_now_def center_box_def)
  have wl: "1 - lap p = wide_lap p" by (simp add: lap_def wide_lap_def)
  have iK: "is_row s \<Longrightarrow> inner_h K = row_height s p L \<and> inner_w K = inner_w L"
    "\<not> is_row s \<Longrightarrow> inner_h K = inner_h L \<and> inner_w K = inner_w L + (if is_shown (ly_slot L s) then 0 else rg_w p - rg_strip p + wide_lap p)"
    using dK dL wl c by (cases s; auto simp: inner_h_def inner_w_def mK row_height_def is_row_def)+
  have colK: "columns_ok K" using ok e(1) strip e(2)
    by (auto simp: layout_ok_def columns_ok_def pK strip_like_def fits_def split: if_splits)
  have roomK: "has_room K"
    using room columns_room [OF colK] unfolding collapse_steps [OF p] e_def [symmetric] K_def [symmetric] by (simp split: if_splits)
  have min: "rg_min_w (new_center s p L) = rg_min_w (ly_center L)" "rg_max_w (new_center s p L) = rg_max_w (ly_center L)"
    "rg_min_h (new_center s p L) = rg_min_h (ly_center L)" "rg_max_h (new_center s p L) = rg_max_h (ly_center L)"
    by (cases s; simp add: new_center_def grow_center_def Let_def)+
  have fc: "fits (rg_min_w (ly_center L)) (rg_max_w (ly_center L)) (inner_w K)" "fits (rg_min_h (ly_center L)) (rg_max_h (ly_center L)) (inner_h K)"
    using roomK by (simp_all add: has_room_def mK min)
  have rh: "is_shown (ly_slot L s) \<Longrightarrow> row_height s p L = inner_h L" using c(4) by (simp add: row_height_def)
  have cK: "center_now K = center_box K"
    using fc c iK dK dL rh by (cases s) (auto simp: center_now_def center_box_def mK new_center_def grow_center_def Let_def is_row_def fits_def algebra_simps)
  have slotsK: "slots_ok K" using so e strip
    by (auto simp: slots_ok_def K_def with_strip_def slot_ok_def is_shown_def strip_like_def lap_def)
  have sK: "side_fits K s" using roomK by (cases s) (simp_all add: has_room_def)
  have eK: "region_box (e\<lparr>rg_shown := True\<rparr>) = side_box s K (e\<lparr>rg_shown := True\<rparr>)"
  proof -
    have m: "rg_min_w e = 0" "rg_max_w e = 10000" "rg_min_h e = 0" "rg_max_h e = 10000" "\<not> rg_collapsed e" using e(1) by (simp_all add: strip_like_def)
    show ?thesis using sK e(2) c iK dK m strip
      by (cases s) (auto simp: side_fits_def pK is_row_def region_box_def side_box_def outer_h_def fits_def mK e_def place_slot_def Let_def)
  qed
  show ?thesis
  proof (cases "is_row s")
    case True
    have "tiled (columns_to (if s = North then Some (rg_strip p - 1) else None) (row_height s p L) K) \<and> columns_ok (columns_to (if s = North then Some (rg_strip p - 1) else None) (row_height s p L) K)"
    proof (rule columns_tiled [OF cK _ _ colK roomK])
      fix s' q assume "is_row s'" "part s' K = Some q"
      then show "region_box q = side_box s' K q"
      proof (cases "s' = s")
        case False
        then have "region_box q = side_box s' L q" using \<open>part s' K = Some q\<close> tiled by (simp add: pK)
        then show ?thesis using \<open>is_row s'\<close> by (cases s') (simp_all add: side_box_def mK is_row_def)
      qed (use eK pK in simp)
    next
      fix s' q assume s': "\<not> is_row s'" "part s' K = Some q"
      then have "s' \<noteq> s" using True by auto
      then have "region_box q = side_box s' L q" using s'(2) tiled by (simp add: pK)
      then show "rg_left q = (if s' = East then ly_w K - rg_w q else 0) \<and> ((if s = North then Some (rg_strip p - 1) else None) = None \<longrightarrow> rg_top q = depth North K)"
        using s'(1) dK(2) [of North] by (cases s') (auto simp: region_box_def side_box_def mK is_row_def)
    next
      fix d show "(if s = North then Some (rg_strip p - 1) else None) = Some d \<Longrightarrow> d = depth North K" using dK(1) by (simp split: if_splits)
      show "row_height s p L = inner_h K" using iK(1) True by simp
    qed
    then show ?thesis using slotsK columns_slots True
      unfolding collapse_steps [OF p] e_def [symmetric] K_def [symmetric] by (simp add: layout_ok_def)
  next
    case False
    have "region_box q = side_box s' K q" if "part s' K = Some q" for s' q
    proof (cases "s' = s")
      case neq: False
      then have "region_box q = side_box s' L q" using that tiled by (simp add: pK)
      then show ?thesis using neq False iK(2) dK(2) [of North] by (cases s') (auto simp: side_box_def mK is_row_def)
    qed (use that eK pK in simp)
    then have "tiled K" using cK by (simp add: tiled_def)
    then show ?thesis using slotsK colK False
      unfolding collapse_steps [OF p] e_def [symmetric] K_def [symmetric] by (simp add: layout_ok_def)
  qed
qed (use ok in \<open>auto simp: collapse_region_def split: option.split\<close>)

section \<open>Sessions\<close>

lemma same_parts:
  assumes "ly_w M = ly_w L" "ly_h M = ly_h L" "ly_center M = ly_center L" "\<And>s. part s M = part s L"
  shows "tiled M = tiled L" "columns_ok M = columns_ok L" "has_room M = has_room L"
proof -
  have d: "depth s M = depth s L" for s by (simp add: depth_def assms(4))
  then have i: "inner_w M = inner_w L" "inner_h M = inner_h L" by (simp_all add: inner_w_def inner_h_def assms)
  have "side_box s M p = side_box s L p" for s p by (cases s) (simp_all add: side_box_def assms d i)
  then show "tiled M = tiled L" by (simp add: tiled_def center_now_def center_box_def d i assms)
  show "columns_ok M = columns_ok L" by (simp add: columns_ok_def assms)
  have "side_fits M s = side_fits L s" for s by (simp add: side_fits_def assms i cong: option.case_cong)
  then show "has_room M = has_room L" by (simp add: has_room_def i assms)
qed

lemma depth_strip:
  assumes "slots_ok L" "is_shown (ly_slot L s)" "ly_region L s = Some p"
  shows "depth s L = rg_strip p - 1"
proof -
  obtain e where "ly_slot L s = Some e" "rg_shown e" using assms(2) by (auto simp: is_shown_def split: option.splits)
  moreover have "slot_ok s (ly_region L s) (ly_slot L s)" using assms(1) by (simp add: slots_ok_def)
  ultimately show ?thesis using assms(3) by (auto simp: depth_def part_def is_shown_def slot_ok_def strip_like_def outer_h_def)
qed

lemma slide_away_sel [simp]: "rg_shown (slide_away s L p) = rg_shown p" "rg_strip (slide_away s L p) = rg_strip p"
  by (cases s; simp add: slide_away_def Let_def)+

lemma push_row:
  "push_columns s p L = (if is_row s then columns_to (if s = North then Some (rg_strip p - 1) else None) (row_height s p L) L else L)"
  by (cases s) (simp_all add: push_columns_def is_row_def)

lemma push_region:
  "push_columns s p (L\<lparr>ly_region := (ly_region L)(s := r)\<rparr>) = (push_columns s p L)\<lparr>ly_region := (ly_region (push_columns s p L))(s := r)\<rparr>"
  by (cases s) (simp_all add: push_row row_height_def columns_to_def is_row_def fun_eq_iff)

lemma slide_out_ok:
  assumes ok: "layout_ok L" and room: "has_room (slide_out s L)"
  shows "layout_ok (slide_out s L)"
proof (cases "is_shown (ly_slot L s)")
  case True
  have so: "slot_ok s' (ly_region L s') (ly_slot L s')" for s' using ok by (simp add: layout_ok_def slots_ok_def)
  obtain p where p: "ly_region L s = Some p" using so [of s] True by (auto simp: slot_ok_def is_shown_def split: option.splits)
  define p1 where "p1 = p\<lparr>rg_collapsed := rg_collapsed p \<and> \<not> rg_may_expand p, rg_shown := True\<rparr>"
  have st: "rg_strip p1 = rg_strip p" by (simp add: p1_def)
  define K where "K = push_columns s p1 L"
  have K: "K = (if is_row s then columns_to (if s = North then Some (rg_strip p - 1) else None) (row_height s p1 L) L else L)"
    by (simp add: K_def push_row st)
  define M where "M = slide_out s L"
  define q where "q = slide_away s (K\<lparr>ly_region := (ly_region K)(s := Some p1)\<rparr>) p1"
  have M: "M = K\<lparr>ly_region := (ly_region K)(s := Some q), ly_out := (ly_out K)(s := True)\<rparr>"
    using True p by (simp add: M_def slide_out_def p1_def [symmetric] push_region K_def [symmetric] q_def [symmetric] Let_def)
  have "ly_slot K s = ly_slot L s" by (cases s) (simp_all add: K columns_to_def is_row_def)
  then have parts: "part s' M = part s' K" for s' using True by (simp add: part_def M)
  have sizes: "ly_w M = ly_w K" "ly_h M = ly_h K" "ly_center M = ly_center K" by (simp_all add: M)
  note same = same_parts [OF sizes parts]
  have "tiled K \<and> columns_ok K"
  proof (cases "is_row s")
    case row: True
    have col: "columns_ok L" and t: "tiled L" using ok by (simp_all add: layout_ok_def)
    have "has_room L" using room columns_room [OF col] row same(3) by (simp add: M_def K)
    then show ?thesis unfolding K using row
    proof (simp only: if_True, intro columns_tiled)
      show "row_height s p1 L = inner_h L" using True t by (simp add: row_height_def tiled_def center_now_def center_box_def)
      show "(if s = North then Some (rg_strip p - 1) else None) = Some d \<Longrightarrow> d = depth North L" for d
        using depth_strip [OF _ True p] ok by (auto simp: layout_ok_def split: if_splits)
      show "rg_left q = (if s' = East then ly_w L - rg_w q else 0)
        \<and> ((if s = North then Some (rg_strip p - 1) else None) = None \<longrightarrow> rg_top q = depth North L)" if "\<not> is_row s'" "part s' L = Some q" for s' q
      proof -
        have "region_box q = side_box s' L q" using t that(2) by (simp add: tiled_def)
        then show ?thesis using that(1) by (cases s') (auto simp: region_box_def side_box_def is_row_def)
      qed
    qed (use t col in \<open>simp_all add: tiled_def\<close>)
  qed (use ok in \<open>simp add: K layout_ok_def\<close>)
  moreover have "slots_ok M"
  proof -
    have "slots_ok K" using ok columns_slots by (simp add: K layout_ok_def)
    then have k: "slot_ok s' (ly_region K s') (ly_slot K s')" for s' by (simp add: slots_ok_def)
    have "ly_region K s = Some p" using p by (cases s) (simp_all add: K columns_to_def is_row_def resize_region_def)
    then have "slot_ok s (Some q) (ly_slot K s)" using k [of s] by (auto simp: slot_ok_def q_def p1_def split: option.splits)
    then show ?thesis using k by (simp add: slots_ok_def M)
  qed
  ultimately show ?thesis using same by (simp add: layout_ok_def M_def)
qed (use ok in \<open>auto simp: slide_out_def split: option.split\<close>)

lemma expand_region_ok:
  assumes "layout_ok L" "has_room (expand_region s L)"
  shows "layout_ok (expand_region s L)"
proof (cases "\<exists>p e. ly_region L s = Some p \<and> ly_slot L s = Some e \<and> rg_may_expand p")
  case True
  then obtain p e where p: "ly_region L s = Some p" "ly_slot L s = Some e" "rg_may_expand p" by blast
  let ?K = "L\<lparr>ly_slot := (ly_slot L)(s := Some (e\<lparr>rg_shown := False\<rparr>)), ly_region := (ly_region L)(s := Some (slide_away s L (p\<lparr>rg_collapsed := False, rg_shown := True\<rparr>)))\<rparr>"
  have "slot_ok s' (ly_region L s') (ly_slot L s')" for s' using assms(1) by (simp add: layout_ok_def slots_ok_def)
  moreover have "slot_ok s (Some (slide_away s L (p\<lparr>rg_collapsed := False, rg_shown := True\<rparr>))) (Some (e\<lparr>rg_shown := False\<rparr>))"
    using calculation [of s] p by (auto simp: slot_ok_def strip_like_def lap_def)
  ultimately have "slots_ok ?K" by (simp add: slots_ok_def)
  then show ?thesis using size_ok [of ?K] assms(2) p by (simp add: expand_region_def)
qed (use assms(1) in \<open>auto simp: expand_region_def split: option.split\<close>)

text \<open>
  A session: the container stays large enough for what is shown in it, and strips are at most 10000
  pixels. A region that comes collapsed is sized before it is collapsed.
\<close>

definition layout_step :: "layout \<Rightarrow> layout_event \<Rightarrow> layout option" where
  "layout_step L e =
     (let L' = layout_act e L
      in if has_room L' \<and> (case e of AddRegion s r \<Rightarrow> fits 0 10000 (rg_strip r) \<and> has_room (placed_region s r L) | _ \<Rightarrow> True) then Some L' else None)"

lemma slots_out [simp]: "slots_ok (L\<lparr>ly_w := w, ly_h := h\<rparr>) = slots_ok L" "layout_ok (L\<lparr>ly_dragging := b\<rparr>) = layout_ok L" "has_room (L\<lparr>ly_dragging := b\<rparr>) = has_room L"
proof -
  have "part s (L\<lparr>ly_dragging := b\<rparr>) = part s L" for s by (simp add: part_def)
  then show "layout_ok (L\<lparr>ly_dragging := b\<rparr>) = layout_ok L" "has_room (L\<lparr>ly_dragging := b\<rparr>) = has_room L"
    using same_parts [of "L\<lparr>ly_dragging := b\<rparr>" L] by (simp_all add: layout_ok_def slots_ok_def)
qed (simp add: slots_ok_def)

lemma slots_region:
  assumes "slots_ok L" "\<And>p. r = Some p \<Longrightarrow> fits 0 10000 (rg_strip p) \<and> (rg_shown p \<or> is_shown (ly_slot L s))"
    and "\<And>e. ly_slot L s = Some e \<Longrightarrow> rg_shown e \<Longrightarrow> \<exists>p q. ly_region L s = Some p \<and> r = Some q \<and> rg_strip q = rg_strip p"
  shows "slots_ok (L\<lparr>ly_region := (ly_region L)(s := r)\<rparr>)"
proof -
  have k: "slot_ok s' (ly_region L s') (ly_slot L s')" for s' using assms(1) by (simp add: slots_ok_def)
  have "slot_ok s r (ly_slot L s)" using k [of s] assms(2,3) by (fastforce simp: slot_ok_def split: option.splits)
  then show ?thesis using k by (simp add: slots_ok_def)
qed

lemma layout_step_ok:
  assumes ok: "layout_ok L" and st: "layout_step L e = Some L'"
  shows "layout_ok L'"
proof -
  have room: "has_room L'" and L': "L' = layout_act e L" using st by (auto simp: layout_step_def Let_def split: if_splits)
  have so: "slots_ok L" "\<And>s. slot_ok s (ly_region L s) (ly_slot L s)" using ok by (simp_all add: layout_ok_def slots_ok_def)
  show ?thesis
  proof (cases e)
    case (SizeTo w h)
    then show ?thesis using size_ok [of "L\<lparr>ly_w := w, ly_h := h\<rparr>"] so(1) room by (simp add: L' layout_act_def size_to_def)
  next
    case (CollapseSide s)
    then show ?thesis using collapse_region_ok [OF ok] room by (simp add: L' layout_act_def)
  next
    case (ExpandSide s)
    then show ?thesis using expand_region_ok [OF ok] room by (simp add: L' layout_act_def)
  next
    case (SlideOut s)
    then show ?thesis using slide_out_ok [OF ok] room by (simp add: L' layout_act_def)
  next
    case (LeaveSide s b)
    then show ?thesis using collapse_region_ok [OF ok, of s] room ok by (auto simp: L' layout_act_def leave_region_def split: if_splits)
  next
    case (AddRegion s r)
    let ?K = "if ly_region L s = None then L\<lparr>ly_region := (ly_region L)(s := Some (r\<lparr>rg_shown := True\<rparr>))\<rparr> else L"
    have g: "fits 0 10000 (rg_strip r)" "has_room (placed_region s r L)" using st AddRegion by (auto simp: layout_step_def Let_def split: if_splits)
    have "slots_ok ?K" using so(1) g(1) so(2) [of s] by (auto intro!: slots_region simp: slot_ok_def)
    then have "layout_ok (placed_region s r L)" using g(2) unfolding placed_region_def by (rule size_ok)
    moreover have "L' = (case ly_region (placed_region s r L) s of Some p \<Rightarrow> if rg_collapsed p then collapse_region s (placed_region s r L) else placed_region s r L
        | None \<Rightarrow> placed_region s r L)" using AddRegion by (simp add: L' layout_act_def add_region_def Let_def)
    ultimately show ?thesis using collapse_region_ok room by (auto split: option.splits if_splits)
  next
    case (RemoveRegion s)
    let ?K = "if ly_region L s = None then L else L\<lparr>ly_region := (ly_region L)(s := None), ly_slot := (ly_slot L)(s := None), ly_out := (ly_out L)(s := False)\<rparr>"
    have "slot_ok s None None" by (simp add: slot_ok_def)
    then have "slots_ok ?K" using so by (simp add: slots_ok_def)
    then show ?thesis using size_ok [of ?K] room RemoveRegion by (simp add: L' layout_act_def remove_region_def)
  next
    case (SplitRegion s b)
    have "slots_ok (L\<lparr>ly_region := (ly_region L)(s := map_option (\<lambda>r. r\<lparr>rg_split := b\<rparr>) (ly_region L s))\<rparr>)"
      using so(2) [of s] by (intro slots_region [OF so(1)]) (auto simp: slot_ok_def)
    then show ?thesis using size_ok room SplitRegion by (simp add: L' layout_act_def split_region_def)
  next
    case StartDrag
    then show ?thesis using ok by (simp add: L' layout_act_def start_drag_def)
  next
    case (StopDrag s d)
    show ?thesis
    proof (cases "\<exists>p. ly_region L s = Some p \<and> rg_shown p \<and> rg_split p")
      case True
      then obtain p l t w h where p: "ly_region L s = Some p" "rg_shown p" "rg_split p" "drag_data s d (shown_place s L p) p = (l, t, w, h)"
        by (metis prod.exhaust)
      let ?K = "L\<lparr>ly_region := (ly_region L)(s := Some (resize_region (Some w) (Some h) (Some l) (Some t) p))\<rparr>"
      have "slots_ok ?K" using so(2) [of s] p(1,2) by (intro slots_region [OF so(1)]) (auto simp: slot_ok_def)
      then show ?thesis using size_ok [of ?K] room StopDrag p by (simp add: L' layout_act_def stop_drag_def)
    next
      case False
      then show ?thesis using ok StopDrag by (auto simp: L' layout_act_def stop_drag_def split: option.split)
    qed
  qed
qed

interpretation layout_machine: partial_machine layout_step layout_ok
  by unfold_locales (rule layout_step_ok)

definition in_box :: "int \<Rightarrow> int \<Rightarrow> int \<times> int \<times> int \<times> int \<Rightarrow> bool" where
  "in_box x y b = (case b of (l, t, w, h) \<Rightarrow> l \<le> x \<and> x < l + w \<and> t \<le> y \<and> y < t + h)"

lemma depth_outer: "depth s L \<le> (case part s L of None \<Rightarrow> 0 | Some p \<Rightarrow> if is_row s then outer_h p else rg_w p)"
  by (simp add: depth_def lap_def split: option.split)

lemma tiled_covers:
  assumes t: "tiled L" and xy: "0 \<le> x" "x < ly_w L" "0 \<le> y" "y < ly_h L"
  shows "in_box x y (center_now L) \<or> (\<exists>s p. part s L = Some p \<and> in_box x y (region_box p))"
proof -
  have b: "region_box p = side_box s L p" if "part s L = Some p" for s p using t that by (simp add: tiled_def)
  have some: "\<exists>p. part s L = Some p \<and> depth s L \<le> (if is_row s then outer_h p else rg_w p)" if "0 < depth s L" for s
    using that depth_outer [of s L] by (auto simp: depth_def split: option.splits)
  consider "y < depth North L" | "depth North L \<le> y" "ly_h L - depth South L \<le> y"
    | "depth North L \<le> y" "y < ly_h L - depth South L" "x < depth West L"
    | "depth North L \<le> y" "y < ly_h L - depth South L" "depth West L \<le> x" "ly_w L - depth East L \<le> x"
    | "depth North L \<le> y" "y < ly_h L - depth South L" "depth West L \<le> x" "x < ly_w L - depth East L" by linarith
  then show ?thesis
  proof cases
    case 1
    then obtain p where p: "part North L = Some p" "depth North L \<le> outer_h p" using some [of North] xy by (auto simp: is_row_def)
    then have "in_box x y (region_box p)" unfolding b [OF p(1)] using 1 xy by (simp add: side_box_def in_box_def)
    then show ?thesis using p(1) by blast
  next
    case 2
    then obtain p where p: "part South L = Some p" "depth South L \<le> outer_h p" using some [of South] xy by (auto simp: is_row_def)
    then have "in_box x y (region_box p)" unfolding b [OF p(1)] using 2 xy by (simp add: side_box_def in_box_def)
    then show ?thesis using p(1) by blast
  next
    case 3
    then obtain p where p: "part West L = Some p" "depth West L \<le> rg_w p" using some [of West] xy by (auto simp: is_row_def)
    then have "in_box x y (region_box p)" unfolding b [OF p(1)] using 3 xy by (simp add: side_box_def in_box_def inner_h_def)
    then show ?thesis using p(1) by blast
  next
    case 4
    then obtain p where p: "part East L = Some p" "depth East L \<le> rg_w p" using some [of East] xy by (auto simp: is_row_def)
    then have "in_box x y (region_box p)" unfolding b [OF p(1)] using 4 xy by (simp add: side_box_def in_box_def inner_h_def)
    then show ?thesis using p(1) by blast
  next
    case 5
    then have "in_box x y (center_now L)" using t by (simp add: tiled_def center_box_def in_box_def inner_w_def inner_h_def)
    then show ?thesis by blast
  qed
qed

definition fresh_layout :: "layout \<Rightarrow> bool" where
  "fresh_layout L = (\<forall>s \<in> {North, South, East, West}. ly_slot L s = None
     \<and> (case ly_region L s of None \<Rightarrow> True | Some p \<Rightarrow> rg_shown p \<and> fits 0 10000 (rg_strip p)))"

lemma fresh_slots: "fresh_layout L \<Longrightarrow> slots_ok L"
  unfolding slots_ok_def all_sides by (auto simp: fresh_layout_def slot_ok_def split: option.splits)

text \<open>
  C35. After every operation, collapsing included, which moves the parts without sizing the layout
  again, and as long as the parts leave the centre room, the centre, the regions and the strips that are shown tile the container: neighbours meet,
  sharing a border pixel where there is no split bar, and every pixel of the container is in a part.
\<close>

theorem layout_session:
  assumes "fresh_layout L0" and "has_room (size_layout L0)" and "run_events layout_step (size_layout L0) es = Some L"
  shows "tiled L \<and> (\<forall>x y. 0 \<le> x \<longrightarrow> x < ly_w L \<longrightarrow> 0 \<le> y \<longrightarrow> y < ly_h L \<longrightarrow>
    in_box x y (center_now L) \<or> (\<exists>s p. part s L = Some p \<and> in_box x y (region_box p)))"
proof -
  have "layout_ok (size_layout L0)" by (rule size_ok [OF fresh_slots [OF assms(1)] assms(2)])
  then have "layout_ok L" by (rule layout_machine.inv_run [OF _ assms(3)])
  then have "tiled L" by (simp add: layout_ok_def)
  then show ?thesis using tiled_covers by blast
qed

definition sample_region :: "int \<Rightarrow> int \<Rightarrow> bool \<Rightarrow> region" where
  "sample_region w h split = \<lparr>rg_left = 0, rg_top = 0, rg_w = w, rg_h = h, rg_min_w = 10, rg_min_h = 10, rg_max_w = 10000, rg_max_h = 10000, rg_bar = 28,
     rg_split = split, rg_border = True, rg_strip = 28, rg_shown = True, rg_collapsed = False, rg_may_collapse = True, rg_may_expand = True\<rparr>"

definition sample_layout :: layout where
  "sample_layout = \<lparr>ly_w = 800, ly_h = 600, ly_center = sample_region 100 100 False,
     ly_region = (\<lambda>s. case s of North \<Rightarrow> Some (sample_region 800 80 False) | South \<Rightarrow> None | East \<Rightarrow> Some (sample_region 150 600 False) | West \<Rightarrow> Some (sample_region 200 600 True)),
     ly_slot = (\<lambda>s. None), ly_out = (\<lambda>s. False), ly_dragging = False\<rparr>"

definition layout_events :: "layout_event list" where
  "layout_events = [CollapseSide West, CollapseSide North, SlideOut West, StopDrag West 50, SizeTo 1000 500, ExpandSide North]"

definition used_layout :: layout where
  "used_layout = the (run_events layout_step (size_layout sample_layout) layout_events)"

theorem layout_session_witness:
  "center_now used_layout = center_box used_layout \<and> center_now used_layout = (27, 79, 824, 421) \<and> map_option region_box (part West used_layout) = Some (0, 79, 28, 421)"
proof -
  have "\<not> Option.is_none (run_events layout_step (size_layout sample_layout) layout_events)" by code_simp
  then have r: "run_events layout_step (size_layout sample_layout) layout_events = Some used_layout"
    unfolding used_layout_def by (cases "run_events layout_step (size_layout sample_layout) layout_events") simp_all
  have "fresh_layout sample_layout" "has_room (size_layout sample_layout)" by code_simp+
  from layout_session [OF this r] have "center_now used_layout = center_box used_layout" by (simp add: tiled_def)
  moreover have "center_now used_layout = (27, 79, 824, 421)" "map_option region_box (part West used_layout) = Some (0, 79, 28, 421)" by code_simp+
  ultimately show ?thesis by blast
qed

section \<open>What the code does otherwise\<close>

text \<open>A region that is docked again while it is slid out is collapsed when the mouse leaves it.\<close>

lemma docked_region_leaves:
  "map (\<lambda>es. map_option (\<lambda>L. is_shown (ly_region L West)) (run_events layout_step (size_layout sample_layout) es))
    [[CollapseSide West, ExpandSide West, LeaveSide West False], [CollapseSide West, SlideOut West, ExpandSide West, LeaveSide West False]] = [Some True, Some False]"
  by code_simp

text \<open>
  Where there is no room, the width of the centre is a limit; collapsing adds the freed width to it,
  sizing the layout again gives another width.
\<close>

lemma small_container_differs:
  "(let L = collapse_region West (size_layout (sample_layout\<lparr>ly_w := 300\<rparr>)) in (center_now L, center_now (size_layout L))) = ((27, 79, 183, 521), (27, 79, 124, 521))"
  by code_simp

end
