(* ===== verification/DragDrop.thy ===== *)
theory DragDrop
  imports JsPrelude
begin

text \<open>
  \<open>plugins/jquery.draggable.js\<close> and \<open>plugins/jquery.droppable.js\<close>: an element that is dragged with the
  mouse over zones that accept it. The element is positioned in a parent that may be scrolled; a zone
  is a rectangle of the page. The document handlers bound by a press all share one data object, so
  they are counted. Timers fire in any order; animations end at once.
\<close>

section \<open>State\<close>

datatype proxy_kind = NoProxy | ProxyInPlace | ProxyInBody

datatype drag_axis = Horizontal | Vertical

record mouse_drag =
  dd_start_left :: int
  dd_start_top :: int
  dd_left :: int
  dd_top :: int
  dd_start_x :: int
  dd_start_y :: int
  dd_offset_w :: int
  dd_offset_h :: int

record drop_zone =
  zn_left :: int
  zn_top :: int
  zn_w :: int
  zn_h :: int
  zn_accepts :: bool
  zn_disabled :: bool
  zn_entered :: bool

datatype zone_note = ZoneEnter | ZoneOver | ZoneLeave | ZoneDrop

datatype drag_note = DragStarts | Dragging | DragStops | ZoneHears nat zone_note

record dragged =
  dr_left :: int
  dr_top :: int
  dr_page_x :: int
  dr_page_y :: int
  dr_scroll_x :: int
  dr_scroll_y :: int
  dr_handle :: "int \<times> int \<times> int \<times> int"
  dr_revert :: bool
  dr_disabled :: bool
  dr_kind :: proxy_kind
  dr_delta_x :: "int option"
  dr_delta_y :: "int option"
  dr_axis :: "drag_axis option"
  dr_edge :: int
  dr_may_drag :: bool
  dr_follows :: "int \<times> int \<Rightarrow> bool"
  dr_data :: mouse_drag
  dr_proxy :: "(int \<times> int) option"
  dr_targets :: "nat list option"
  dr_zones :: "drop_zone list"
  dr_dragging :: bool
  dr_bound :: nat
  dr_timer :: "nat option"
  dr_timers :: "(nat \<times> int \<times> int) list"
  dr_next :: nat
  dr_log :: "drag_note list"

definition note_drag :: "drag_note \<Rightarrow> dragged \<Rightarrow> dragged" where
  "note_drag n d = d\<lparr>dr_log := dr_log d @ [n]\<rparr>"

section \<open>Moving\<close>

text \<open>\<open>_1\<close>: where the element or its proxy goes\<close>

definition drag_point :: "dragged \<Rightarrow> int \<Rightarrow> int \<Rightarrow> int \<times> int" where
  "drag_point d x y =
     (let q = dr_data d; l = dd_start_left q + x - dd_start_x q; t = dd_start_top q + y - dd_start_y q;
          (l1, t1) =
            (if dr_proxy d = None then (l, t)
             else if dr_kind d = ProxyInBody
             then (case dr_delta_x d of Some a \<Rightarrow> x + a | None \<Rightarrow> x - dd_offset_w q, case dr_delta_y d of Some a \<Rightarrow> y + a | None \<Rightarrow> y - dd_offset_h q)
             else (case dr_delta_x d of Some a \<Rightarrow> l + dd_offset_w q + a | None \<Rightarrow> l, case dr_delta_y d of Some a \<Rightarrow> t + dd_offset_h q + a | None \<Rightarrow> t))
      in (l1 + dr_scroll_x d, t1 + dr_scroll_y d))"

definition follow_mouse :: "int \<Rightarrow> int \<Rightarrow> dragged \<Rightarrow> dragged" where
  "follow_mouse x y d =
     (let (l, t) = drag_point d x y; q = dr_data d
      in d\<lparr>dr_data := (case dr_axis d of
            Some Horizontal \<Rightarrow> q\<lparr>dd_left := l\<rparr> | Some Vertical \<Rightarrow> q\<lparr>dd_top := t\<rparr> | None \<Rightarrow> q\<lparr>dd_left := l, dd_top := t\<rparr>)\<rparr>)"

text \<open>\<open>_8\<close>\<close>

definition put_dragged :: "dragged \<Rightarrow> dragged" where
  "put_dragged d =
     (let p = (dd_left (dr_data d), dd_top (dr_data d))
      in if dr_proxy d = None then d\<lparr>dr_left := fst p, dr_top := snd p\<rparr> else d\<lparr>dr_proxy := Some p\<rparr>)"

text \<open>\<open>_c\<close>\<close>

definition start_dragging :: "int \<Rightarrow> int \<Rightarrow> dragged \<Rightarrow> dragged" where
  "start_dragging x y d =
     (if \<not> dr_dragging d then d
      else let d1 = d\<lparr>dr_targets := Some (filter (\<lambda>j. zn_accepts (dr_zones d ! j)) [0..<length (dr_zones d)])\<rparr>;
               d2 = (if dr_proxy d1 = None \<and> dr_kind d1 \<noteq> NoProxy then d1\<lparr>dr_proxy := Some (dr_left d1, dr_top d1)\<rparr> else d1)
           in note_drag DragStarts (put_dragged (follow_mouse x y d2)))"

definition over_zone :: "int \<Rightarrow> int \<Rightarrow> drop_zone \<Rightarrow> bool" where
  "over_zone x y z = (x > zn_left z \<and> x < zn_left z + zn_w z \<and> y > zn_top z \<and> y < zn_top z + zn_h z)"

definition set_entered :: "nat \<Rightarrow> bool \<Rightarrow> dragged \<Rightarrow> dragged" where
  "set_entered j b d = d\<lparr>dr_zones := (dr_zones d)[j := (dr_zones d ! j)\<lparr>zn_entered := b\<rparr>]\<rparr>"

text \<open>What a zone hears of a move\<close>

definition visit_zone :: "int \<Rightarrow> int \<Rightarrow> nat \<Rightarrow> dragged \<Rightarrow> dragged" where
  "visit_zone x y j d =
     (let z = dr_zones d ! j
      in if zn_disabled z then d
         else if over_zone x y z
         then let d1 = (if zn_entered z then d else set_entered j True (note_drag (ZoneHears j ZoneEnter) d))
              in note_drag (ZoneHears j ZoneOver) d1
         else if zn_entered z then set_entered j False (note_drag (ZoneHears j ZoneLeave) d) else d)"

text \<open>\<open>_12\<close>; without a list of zones \<open>each\<close> fails\<close>

definition drag_to :: "int \<Rightarrow> int \<Rightarrow> dragged \<Rightarrow> dragged option" where
  "drag_to x y d =
     (if \<not> dr_dragging d then Some d
      else let d1 = note_drag Dragging (follow_mouse x y d);
               d2 = (if dr_follows d1 (dd_left (dr_data d1), dd_top (dr_data d1)) then put_dragged d1 else d1)
           in map_option (\<lambda>js. fold (visit_zone x y) js d2) (dr_targets d2))"

section \<open>Dropping\<close>

text \<open>\<open>_17\<close>\<close>

definition end_dragging :: "dragged \<Rightarrow> dragged" where
  "end_dragging d =
     d\<lparr>dr_timers := (case dr_timer d of None \<Rightarrow> dr_timers d | Some k \<Rightarrow> filter (\<lambda>t. fst t \<noteq> k) (dr_timers d)), dr_timer := None, dr_bound := 0, dr_dragging := False\<rparr>"

definition to_start :: "dragged \<Rightarrow> dragged" where
  "to_start d = d\<lparr>dr_left := dd_start_left (dr_data d), dr_top := dd_start_top (dr_data d)\<rparr>"

text \<open>\<open>_1b\<close>: the first zone under the mouse that is not disabled\<close>

definition drop_target :: "int \<Rightarrow> int \<Rightarrow> dragged \<Rightarrow> nat option" where
  "drop_target x y d =
     (case dr_targets d of None \<Rightarrow> None | Some js \<Rightarrow> find (\<lambda>j. \<not> zn_disabled (dr_zones d ! j) \<and> over_zone x y (dr_zones d ! j)) js)"

definition drop_dragged :: "int \<Rightarrow> int \<Rightarrow> dragged \<Rightarrow> dragged" where
  "drop_dragged x y d =
     (case drop_target x y d of
        None \<Rightarrow> if dr_revert d then d else d\<lparr>dr_proxy := None\<rparr>
      | Some j \<Rightarrow> set_entered j False ((note_drag (ZoneHears j ZoneDrop) (if dr_revert d then to_start d else d))\<lparr>dr_proxy := None\<rparr>))"

text \<open>\<open>_16\<close>\<close>

definition release_dragged :: "int \<Rightarrow> int \<Rightarrow> dragged \<Rightarrow> dragged option" where
  "release_dragged x y d =
     (if \<not> dr_dragging d then Some (end_dragging d)
      else map_option
        (\<lambda>d1. let d2 = (if dr_revert d1
                        then (let d' = drop_dragged x y d1
                              in if drop_target x y d1 \<noteq> None then to_start d'
                                 else if dr_proxy d1 \<noteq> None then d'\<lparr>dr_proxy := None\<rparr> else to_start d')
                        else drop_dragged x y (d1\<lparr>dr_left := dd_left (dr_data d1), dr_top := dd_top (dr_data d1)\<rparr>))
              in end_dragging (note_drag DragStops d2))
        (drag_to x y d))"

section \<open>Events\<close>

text \<open>\<open>_26\<close>\<close>

definition on_handle :: "int \<Rightarrow> int \<Rightarrow> dragged \<Rightarrow> bool" where
  "on_handle x y d =
     (case dr_handle d of (hl, ht, w, h) \<Rightarrow>
        let l0 = dr_page_x d + dr_left d - dr_scroll_x d + hl; t0 = dr_page_y d + dr_top d - dr_scroll_y d + ht
        in Min {y - t0, l0 + w - x, t0 + h - y, x - l0} > dr_edge d)"

definition press_dragged :: "int \<Rightarrow> int \<Rightarrow> dragged \<Rightarrow> dragged" where
  "press_dragged x y d =
     (if dr_disabled d \<or> \<not> on_handle x y d then d
      else let l = dr_left d - dr_scroll_x d; t = dr_top d - dr_scroll_y d;
               d1 = d\<lparr>dr_data := \<lparr>dd_start_left = l, dd_start_top = t, dd_left = l, dd_top = t, dd_start_x = x, dd_start_y = y,
                                  dd_offset_w = x - (dr_page_x d + l), dd_offset_h = y - (dr_page_y d + t)\<rparr>\<rparr>
           in if \<not> dr_may_drag d1 then d1
              else d1\<lparr>dr_bound := dr_bound d1 + 1, dr_timer := Some (dr_next d1), dr_timers := dr_timers d1 @ [(dr_next d1, x, y)], dr_next := dr_next d1 + 1\<rparr>)"

text \<open>
  The timer of a press calls \<open>_c\<close> with the place of that press, although the data are those of the
  latest press.
\<close>

definition fire_drag :: "nat \<Rightarrow> dragged \<Rightarrow> dragged" where
  "fire_drag k d =
     (case map_of (dr_timers d) k of
        None \<Rightarrow> d
      | Some (x, y) \<Rightarrow> start_dragging x y (d\<lparr>dr_timers := filter (\<lambda>t. fst t \<noteq> k) (dr_timers d), dr_dragging := True\<rparr>))"

text \<open>Every press bound its own triple of document handlers.\<close>

fun each_handler :: "nat \<Rightarrow> ('s \<Rightarrow> 's option) \<Rightarrow> 's \<Rightarrow> 's option" where
  "each_handler 0 f s = Some s"
| "each_handler (Suc n) f s = Option.bind (f s) (each_handler n f)"

datatype drag_event =
    DragPress int int | DocumentPress int int | DragMove int int | DragRelease int int | DragTimer nat | AbleDrag bool | AbleZone nat bool

definition drag_step :: "dragged \<Rightarrow> drag_event \<Rightarrow> dragged option" where
  "drag_step d e =
     (case e of
        DragPress x y \<Rightarrow> Some (press_dragged x y d)
      | DocumentPress x y \<Rightarrow> each_handler (dr_bound d) (\<lambda>d. Some (start_dragging x y d)) d
      | DragMove x y \<Rightarrow> each_handler (dr_bound d) (drag_to x y) d
      | DragRelease x y \<Rightarrow> each_handler (dr_bound d) (release_dragged x y) d
      | DragTimer k \<Rightarrow> Some (fire_drag k d)
      | AbleDrag b \<Rightarrow> Some (d\<lparr>dr_disabled := \<not> b, dr_targets := None, dr_proxy := None\<rparr>)
      | AbleZone j b \<Rightarrow> if j < length (dr_zones d) then Some (d\<lparr>dr_zones := (dr_zones d)[j := (dr_zones d ! j)\<lparr>zn_disabled := \<not> b\<rparr>]\<rparr>) else None)"

section \<open>What a zone hears\<close>

text \<open>A zone is entered, hears of moves over it, and is left or dropped on.\<close>

fun zone_next :: "bool \<Rightarrow> zone_note \<Rightarrow> bool option" where
  "zone_next False ZoneEnter = Some True"
| "zone_next True ZoneOver = Some True"
| "zone_next True ZoneLeave = Some False"
| "zone_next True ZoneDrop = Some False"
| "zone_next b n = None"

definition heard :: "nat \<Rightarrow> drag_note list \<Rightarrow> zone_note list" where
  "heard j ns = List.map_filter (\<lambda>n. case n of ZoneHears i m \<Rightarrow> if i = j then Some m else None | _ \<Rightarrow> None) ns"

definition zones_heard :: "dragged \<Rightarrow> bool" where
  "zones_heard d = (\<forall>j < length (dr_zones d). run_events zone_next False (heard j (dr_log d)) = Some (zn_entered (dr_zones d ! j)))"

definition targets_ok :: "dragged \<Rightarrow> bool" where
  "targets_ok d = (\<forall>js. dr_targets d = Some js \<longrightarrow> set js \<subseteq> {..<length (dr_zones d)})"

definition hearing_ok :: "dragged \<Rightarrow> bool" where
  "hearing_ok d = (zones_heard d \<and> targets_ok d)"

lemma heard_append: "heard j (ns @ [n]) = heard j ns @ (case n of ZoneHears i m \<Rightarrow> if i = j then [m] else [] | _ \<Rightarrow> [])"
  by (simp add: heard_def List.map_filter_def split: drag_note.split)

lemma note_sel [simp]: "dr_zones (note_drag n d) = dr_zones d" "dr_targets (note_drag n d) = dr_targets d" "dr_log (note_drag n d) = dr_log d @ [n]"
  by (simp_all add: note_drag_def)

text \<open>Moving the element is heard by no zone.\<close>

definition same_zones :: "dragged \<Rightarrow> dragged \<Rightarrow> bool" where
  "same_zones d d' = (dr_zones d' = dr_zones d \<and> (\<forall>j. heard j (dr_log d') = heard j (dr_log d)))"

lemma same_zones_ok: "same_zones d d' \<Longrightarrow> zones_heard d' = zones_heard d"
  by (simp add: same_zones_def zones_heard_def)

lemma zone_hears:
  assumes z: "zones_heard d" and j: "j < length (dr_zones d)" and n: "zone_next (zn_entered (dr_zones d ! j)) m = Some b"
  shows "zones_heard (set_entered j b (note_drag (ZoneHears j m) d))"
proof -
  have "run_events zone_next False (heard i (dr_log d @ [ZoneHears j m]))
    = Some (zn_entered ((dr_zones d)[j := (dr_zones d ! j)\<lparr>zn_entered := b\<rparr>] ! i))" if i: "i < length (dr_zones d)" for i
  proof (cases "i = j")
    case True
    have "run_events zone_next False (heard j (dr_log d)) = Some (zn_entered (dr_zones d ! j))" using z j by (simp add: zones_heard_def)
    then show ?thesis using True j n by (simp add: heard_append run_events_append)
  next
    case False
    then show ?thesis using z i by (simp add: heard_append zones_heard_def)
  qed
  then show ?thesis by (simp add: zones_heard_def set_entered_def)
qed

lemma entered_same: "j < length (dr_zones d) \<Longrightarrow> set_entered j (zn_entered (dr_zones d ! j)) d = d"
  by (simp add: set_entered_def list_update_same_conv)

lemma zone_over:
  assumes "zones_heard d" "j < length (dr_zones d)" "zn_entered (dr_zones d ! j)"
  shows "zones_heard (note_drag (ZoneHears j ZoneOver) d)"
  using zone_hears [OF assms(1,2), of ZoneOver True] entered_same [of j "note_drag (ZoneHears j ZoneOver) d"] assms by simp

lemma entered_sel [simp]:
  "length (dr_zones (set_entered j b d)) = length (dr_zones d)" "dr_targets (set_entered j b d) = dr_targets d" "dr_log (set_entered j b d) = dr_log d"
  "dr_revert (set_entered j b d) = dr_revert d" "dr_data (set_entered j b d) = dr_data d"
  by (simp_all add: set_entered_def)

lemma visit_ok:
  assumes "zones_heard d" "j < length (dr_zones d)"
  shows "zones_heard (visit_zone x y j d) \<and> length (dr_zones (visit_zone x y j d)) = length (dr_zones d) \<and> dr_targets (visit_zone x y j d) = dr_targets d"
proof -
  let ?z = "dr_zones d ! j"
  have e: "zones_heard (set_entered j True (note_drag (ZoneHears j ZoneEnter) d))" if "\<not> zn_entered ?z" by (rule zone_hears [OF assms]) (simp add: that)
  have l: "zones_heard (set_entered j False (note_drag (ZoneHears j ZoneLeave) d))" if "zn_entered ?z" by (rule zone_hears [OF assms]) (simp add: that)
  have o1: "zones_heard (note_drag (ZoneHears j ZoneOver) (set_entered j True (note_drag (ZoneHears j ZoneEnter) d)))" if "\<not> zn_entered ?z"
    by (rule zone_over [OF e [OF that]]) (use assms(2) in \<open>simp_all add: set_entered_def\<close>)
  show ?thesis using assms e l o1 zone_over [OF assms] by (auto simp: visit_zone_def Let_def)
qed

lemma visits_ok:
  "zones_heard d \<Longrightarrow> set js \<subseteq> {..<length (dr_zones d)} \<Longrightarrow>
    zones_heard (fold (visit_zone x y) js d) \<and> length (dr_zones (fold (visit_zone x y) js d)) = length (dr_zones d) \<and> dr_targets (fold (visit_zone x y) js d) = dr_targets d"
proof (induction js arbitrary: d)
  case (Cons j js)
  then have v: "zones_heard (visit_zone x y j d) \<and> length (dr_zones (visit_zone x y j d)) = length (dr_zones d) \<and> dr_targets (visit_zone x y j d) = dr_targets d"
    by (intro visit_ok) auto
  with Cons.IH [of "visit_zone x y j d"] Cons.prems show ?case by simp
qed simp

lemma moves_same: "same_zones d (put_dragged d)" "same_zones d (follow_mouse x y d)" "same_zones d (end_dragging d)" "same_zones d (to_start d)"
  by (simp_all add: same_zones_def put_dragged_def follow_mouse_def end_dragging_def to_start_def Let_def split: prod.split)

lemma moves_targets [simp]:
  "dr_targets (put_dragged d) = dr_targets d" "dr_targets (follow_mouse x y d) = dr_targets d" "dr_targets (end_dragging d) = dr_targets d"
  "dr_targets (to_start d) = dr_targets d" "dr_zones (put_dragged d) = dr_zones d" "dr_zones (follow_mouse x y d) = dr_zones d"
  "dr_zones (end_dragging d) = dr_zones d" "dr_zones (to_start d) = dr_zones d" "dr_log (put_dragged d) = dr_log d" "dr_log (follow_mouse x y d) = dr_log d"
  "dr_log (end_dragging d) = dr_log d" "dr_log (to_start d) = dr_log d" "dr_dragging (put_dragged d) = dr_dragging d" "dr_dragging (follow_mouse x y d) = dr_dragging d"
  by (simp_all add: put_dragged_def follow_mouse_def end_dragging_def to_start_def Let_def split: prod.split)

lemma hearing_okI: "dr_zones d' = dr_zones d \<Longrightarrow> dr_log d' = dr_log d @ ns \<Longrightarrow> (\<forall>n \<in> set ns. \<forall>j m. n \<noteq> ZoneHears j m) \<Longrightarrow> targets_ok d' \<Longrightarrow> hearing_ok d \<Longrightarrow> hearing_ok d'"
proof -
  assume a: "dr_zones d' = dr_zones d" "dr_log d' = dr_log d @ ns" "\<forall>n \<in> set ns. \<forall>j m. n \<noteq> ZoneHears j m" "targets_ok d'" "hearing_ok d"
  have "heard j ns = []" for j using a(3) by (auto simp: heard_def List.map_filter_def filter_empty_conv split: drag_note.splits)
  then have "heard j (dr_log d') = heard j (dr_log d)" for j unfolding a(2) by (simp add: heard_def List.map_filter_def)
  then show "hearing_ok d'" using a(1,4,5) by (simp add: hearing_ok_def zones_heard_def)
qed

lemma start_ok: "hearing_ok d \<Longrightarrow> hearing_ok (start_dragging x y d)"
proof (cases "dr_dragging d")
  case True
  assume d: "hearing_ok d"
  show ?thesis
    by (rule hearing_okI [OF _ _ _ _ d, where ns = "[DragStarts]"]) (use True in \<open>auto simp: start_dragging_def Let_def targets_ok_def\<close>)
qed (simp add: start_dragging_def)

lemma drag_to_ok:
  assumes d: "hearing_ok d" and s: "drag_to x y d = Some d'"
  shows "hearing_ok d'"
proof (cases "dr_dragging d")
  case True
  define d1 where "d1 = note_drag Dragging (follow_mouse x y d)"
  define d2 where "d2 = (if dr_follows d1 (dd_left (dr_data d1), dd_top (dr_data d1)) then put_dragged d1 else d1)"
  have "drag_to x y d = map_option (\<lambda>js. fold (visit_zone x y) js d2) (dr_targets d2)"
    unfolding drag_to_def Let_def d1_def [symmetric] d2_def [symmetric] using True by simp
  then obtain js where js: "dr_targets d2 = Some js" "d' = fold (visit_zone x y) js d2" using s by (cases "dr_targets d2") auto
  have "hearing_ok d2"
    by (rule hearing_okI [OF _ _ _ _ d, where ns = "[Dragging]"]) (use d in \<open>auto simp: d2_def d1_def hearing_ok_def targets_ok_def\<close>)
  then have z: "zones_heard d2" "set js \<subseteq> {..<length (dr_zones d2)}" using js(1) by (auto simp: hearing_ok_def targets_ok_def)
  show ?thesis using visits_ok [OF z] z js by (simp add: hearing_ok_def targets_ok_def)
qed (use assms in \<open>simp add: drag_to_def\<close>)

lemma visit_nth:
  assumes "i < length (dr_zones d)" "j < length (dr_zones d)"
  shows "dr_zones (visit_zone x y j d) ! i
    = (if i = j \<and> \<not> zn_disabled (dr_zones d ! i) then (dr_zones d ! i)\<lparr>zn_entered := over_zone x y (dr_zones d ! i)\<rparr> else dr_zones d ! i)"
  using assms by (auto simp: visit_zone_def Let_def set_entered_def nth_list_update)

lemma visit_length [simp]: "length (dr_zones (visit_zone x y j d)) = length (dr_zones d)"
  by (simp add: visit_zone_def Let_def)

lemma over_entered [simp]: "over_zone x y (z\<lparr>zn_entered := b\<rparr>) = over_zone x y z"
  by (simp add: over_zone_def)

lemma visits_nth:
  "set js \<subseteq> {..<length (dr_zones d)} \<Longrightarrow> i < length (dr_zones d) \<Longrightarrow> dr_zones (fold (visit_zone x y) js d) ! i
    = (if i \<in> set js \<and> \<not> zn_disabled (dr_zones d ! i) then (dr_zones d ! i)\<lparr>zn_entered := over_zone x y (dr_zones d ! i)\<rparr> else dr_zones d ! i)"
proof (induction js arbitrary: d)
  case (Cons j js)
  then have v: "dr_zones (visit_zone x y j d) ! i
    = (if i = j \<and> \<not> zn_disabled (dr_zones d ! i) then (dr_zones d ! i)\<lparr>zn_entered := over_zone x y (dr_zones d ! i)\<rparr> else dr_zones d ! i)"
    by (intro visit_nth) auto
  have "dr_zones (fold (visit_zone x y) js (visit_zone x y j d)) ! i = (let z = dr_zones (visit_zone x y j d) ! i
    in if i \<in> set js \<and> \<not> zn_disabled z then z\<lparr>zn_entered := over_zone x y z\<rparr> else z)"
    unfolding Let_def by (rule Cons.IH) (use Cons.prems in auto)
  then show ?case unfolding v by (auto simp: Let_def)
qed simp

text \<open>After a move the zones under the mouse are entered.\<close>

lemma target_entered:
  assumes d: "hearing_ok d" and s: "drag_to x y d = Some d'" "dr_dragging d" and t: "drop_target x y d' = Some j"
  shows "j < length (dr_zones d') \<and> zn_entered (dr_zones d' ! j)"
proof -
  define d1 where "d1 = note_drag Dragging (follow_mouse x y d)"
  define d2 where "d2 = (if dr_follows d1 (dd_left (dr_data d1), dd_top (dr_data d1)) then put_dragged d1 else d1)"
  have "drag_to x y d = map_option (\<lambda>js. fold (visit_zone x y) js d2) (dr_targets d2)"
    unfolding drag_to_def Let_def d1_def [symmetric] d2_def [symmetric] using s(2) by simp
  then obtain js where js: "dr_targets d2 = Some js" "d' = fold (visit_zone x y) js d2" using s(1) by (cases "dr_targets d2") auto
  have "hearing_ok d2"
    by (rule hearing_okI [OF _ _ _ _ d, where ns = "[Dragging]"]) (use d in \<open>auto simp: d2_def d1_def hearing_ok_def targets_ok_def\<close>)
  then have z: "zones_heard d2" "set js \<subseteq> {..<length (dr_zones d2)}" using js(1) by (auto simp: hearing_ok_def targets_ok_def)
  note v = visits_ok [OF z, of x y, folded js(2)]
  have "j \<in> set js \<and> \<not> zn_disabled (dr_zones d' ! j) \<and> over_zone x y (dr_zones d' ! j)"
    using t js(1) v by (auto simp: drop_target_def find_Some_iff)
  then show ?thesis using visits_nth [OF z(2), of j x y] v z(2) js(2) by (auto split: if_splits)
qed

lemma drop_dragged_ok:
  assumes d: "hearing_ok d" and e: "\<And>j. drop_target x y d = Some j \<Longrightarrow> j < length (dr_zones d) \<and> zn_entered (dr_zones d ! j)"
  shows "hearing_ok (drop_dragged x y d)"
proof (cases "drop_target x y d")
  case None
  show ?thesis by (rule hearing_okI [OF _ _ _ _ d, where ns = "[]"]) (use None d in \<open>auto simp: drop_dragged_def hearing_ok_def targets_ok_def\<close>)
next
  case (Some j)
  let ?d1 = "if dr_revert d then to_start d else d"
  have d1: "zones_heard ?d1" "dr_zones ?d1 = dr_zones d" using d by (auto simp: hearing_ok_def zones_heard_def)
  have "zones_heard (set_entered j False (note_drag (ZoneHears j ZoneDrop) ?d1))"
    by (rule zone_hears [OF d1(1)]) (use e [OF Some] d1(2) in simp_all)
  then have "zones_heard (drop_dragged x y d)" unfolding drop_dragged_def Some by (simp add: zones_heard_def set_entered_def note_drag_def)
  moreover have "targets_ok (drop_dragged x y d)" using d Some by (auto simp: drop_dragged_def hearing_ok_def targets_ok_def set_entered_def note_drag_def)
  ultimately show ?thesis by (simp add: hearing_ok_def)
qed

lemma silent_ok: "hearing_ok d \<Longrightarrow> dr_zones d' = dr_zones d \<Longrightarrow> dr_log d' = dr_log d \<Longrightarrow> dr_targets d' = dr_targets d \<Longrightarrow> hearing_ok d'"
  by (simp add: hearing_ok_def zones_heard_def targets_ok_def)

lemma release_drag_ok:
  assumes d: "hearing_ok d" and s: "release_dragged x y d = Some d'"
  shows "hearing_ok d'"
proof (cases "dr_dragging d")
  case True
  then obtain d1 where d1: "drag_to x y d = Some d1" using s by (auto simp: release_dragged_def)
  have o1: "hearing_ok d1" by (rule drag_to_ok [OF d d1])
  have e: "drop_target x y d1 = Some j \<Longrightarrow> j < length (dr_zones d1) \<and> zn_entered (dr_zones d1 ! j)" for j by (rule target_entered [OF d d1 True])
  let ?m = "d1\<lparr>dr_left := dd_left (dr_data d1), dr_top := dd_top (dr_data d1)\<rparr>"
  have "drop_target x y ?m = drop_target x y d1" by (simp add: drop_target_def cong: option.case_cong)
  then have "hearing_ok (drop_dragged x y ?m)" using e silent_ok [OF o1, of ?m] by (intro drop_dragged_ok) simp_all
  moreover have n: "hearing_ok (drop_dragged x y d1)" by (rule drop_dragged_ok [OF o1 e])
  moreover have "hearing_ok (to_start (drop_dragged x y d1))" "hearing_ok ((drop_dragged x y d1)\<lparr>dr_proxy := None\<rparr>)"
    by (rule silent_ok [OF n]; simp)+
  ultimately have "hearing_ok (if dr_revert d1
      then (let d' = drop_dragged x y d1 in if drop_target x y d1 \<noteq> None then to_start d' else if dr_proxy d1 \<noteq> None then d'\<lparr>dr_proxy := None\<rparr> else to_start d')
      else drop_dragged x y ?m)" (is "hearing_ok ?d2") by (simp add: Let_def)
  moreover have "hearing_ok (end_dragging (note_drag DragStops d2))" if "hearing_ok d2" for d2
    by (rule hearing_okI [OF _ _ _ _ that, where ns = "[DragStops]"]) (use that in \<open>simp_all add: hearing_ok_def targets_ok_def\<close>)
  ultimately have "hearing_ok (end_dragging (note_drag DragStops ?d2))" by blast
  then show ?thesis using s True d1 by (simp add: release_dragged_def Let_def split del: if_split)
next
  case False
  then show ?thesis using s silent_ok [OF d] by (auto simp: release_dragged_def)
qed

lemma handlers_keep: "each_handler n f s = Some s' \<Longrightarrow> (\<And>s s'. P s \<Longrightarrow> f s = Some s' \<Longrightarrow> P s') \<Longrightarrow> P s \<Longrightarrow> P s'"
  by (induction n arbitrary: s) (auto split: bind_splits)

lemma drag_step_ok:
  assumes d: "hearing_ok d" and s: "drag_step d e = Some d'"
  shows "hearing_ok d'"
proof (cases e)
  case (DragPress x y)
  then show ?thesis using s by (auto simp: drag_step_def press_dragged_def Let_def intro: silent_ok [OF d])
next
  case (DocumentPress x y)
  then show ?thesis using s d by (auto simp: drag_step_def intro: handlers_keep [where P = hearing_ok] start_ok)
next
  case (DragMove x y)
  then show ?thesis using s d by (auto simp: drag_step_def intro: handlers_keep [where P = hearing_ok] drag_to_ok)
next
  case (DragRelease x y)
  then show ?thesis using s d by (auto simp: drag_step_def intro: handlers_keep [where P = hearing_ok] release_drag_ok)
next
  case (DragTimer k)
  have "hearing_ok (d\<lparr>dr_timers := filter (\<lambda>t. fst t \<noteq> k) (dr_timers d), dr_dragging := True\<rparr>)" by (rule silent_ok [OF d]) simp_all
  then show ?thesis using s d DragTimer by (auto simp: drag_step_def fire_drag_def intro: start_ok split: option.splits)
next
  case (AbleDrag b)
  then show ?thesis using s d by (auto simp: drag_step_def hearing_ok_def zones_heard_def targets_ok_def)
next
  case (AbleZone j b)
  then have j: "j < length (dr_zones d)" and d': "d' = d\<lparr>dr_zones := (dr_zones d)[j := (dr_zones d ! j)\<lparr>zn_disabled := \<not> b\<rparr>]\<rparr>"
    using s by (auto simp: drag_step_def split: if_splits)
  show ?thesis using d j by (auto simp: d' hearing_ok_def zones_heard_def targets_ok_def nth_list_update)
qed

interpretation drag_machine: partial_machine drag_step hearing_ok
  by unfold_locales (rule drag_step_ok)

section \<open>One drag\<close>

text \<open>Where the element goes if it has no proxy\<close>

definition landed :: "dragged \<Rightarrow> int \<Rightarrow> int \<Rightarrow> int \<Rightarrow> int \<Rightarrow> int \<times> int" where
  "landed d x y x' y' =
     (if dr_revert d then (dr_left d - dr_scroll_x d, dr_top d - dr_scroll_y d)
      else (if dr_axis d = Some Vertical then dr_left d - dr_scroll_x d else dr_left d + x' - x,
            if dr_axis d = Some Horizontal then dr_top d - dr_scroll_y d else dr_top d + y' - y))"

text \<open>The zone that takes the element\<close>

definition taker :: "dragged \<Rightarrow> int \<Rightarrow> int \<Rightarrow> nat option" where
  "taker d x y = find (\<lambda>j. \<not> zn_disabled (dr_zones d ! j) \<and> over_zone x y (dr_zones d ! j)) (filter (\<lambda>j. zn_accepts (dr_zones d ! j)) [0..<length (dr_zones d)])"

definition zone_rect :: "drop_zone \<Rightarrow> int \<times> int \<times> int \<times> int \<times> bool \<times> bool" where
  "zone_rect z = (zn_left z, zn_top z, zn_w z, zn_h z, zn_accepts z, zn_disabled z)"

definition drops :: "drag_note list \<Rightarrow> nat list" where
  "drops ns = List.map_filter (\<lambda>n. case n of ZoneHears j ZoneDrop \<Rightarrow> Some j | _ \<Rightarrow> None) ns"

lemma drops_append [simp]: "drops (ns @ ms) = drops ns @ drops ms"
  by (simp add: drops_def List.map_filter_def)

lemma drops_one [simp]:
  "drops [] = []" "drops [DragStarts] = []" "drops [Dragging] = []" "drops [DragStops] = []" "drops [ZoneHears j ZoneEnter] = []"
  "drops [ZoneHears j ZoneOver] = []" "drops [ZoneHears j ZoneLeave] = []" "drops [ZoneHears j ZoneDrop] = [j]" "drops [ZoneHears j ZoneDrop, DragStops] = [j]"
  by (simp_all add: drops_def List.map_filter_def)

definition under_way :: "dragged \<Rightarrow> int \<Rightarrow> int \<Rightarrow> dragged \<Rightarrow> bool" where
  "under_way d0 x y d =
     (dr_dragging d \<and> dr_bound d = 1 \<and> dr_timers d = [] \<and> dr_proxy d = None \<and> dr_kind d = NoProxy \<and> dr_revert d = dr_revert d0 \<and> dr_axis d = dr_axis d0
      \<and> dr_scroll_x d = dr_scroll_x d0 \<and> dr_scroll_y d = dr_scroll_y d0
      \<and> dd_start_left (dr_data d) = dr_left d0 - dr_scroll_x d0 \<and> dd_start_top (dr_data d) = dr_top d0 - dr_scroll_y d0
      \<and> dd_start_x (dr_data d) = x \<and> dd_start_y (dr_data d) = y
      \<and> (dr_axis d0 = Some Vertical \<longrightarrow> dd_left (dr_data d) = dr_left d0 - dr_scroll_x d0)
      \<and> (dr_axis d0 = Some Horizontal \<longrightarrow> dd_top (dr_data d) = dr_top d0 - dr_scroll_y d0)
      \<and> dr_targets d = Some (filter (\<lambda>j. zn_accepts (dr_zones d0 ! j)) [0..<length (dr_zones d0)])
      \<and> map zone_rect (dr_zones d) = map zone_rect (dr_zones d0) \<and> drops (dr_log d) = drops (dr_log d0))"

lemma visit_rest:
  "dr_dragging (visit_zone x y j d) = dr_dragging d" "dr_bound (visit_zone x y j d) = dr_bound d" "dr_timers (visit_zone x y j d) = dr_timers d"
  "dr_proxy (visit_zone x y j d) = dr_proxy d" "dr_kind (visit_zone x y j d) = dr_kind d" "dr_revert (visit_zone x y j d) = dr_revert d"
  "dr_axis (visit_zone x y j d) = dr_axis d" "dr_scroll_x (visit_zone x y j d) = dr_scroll_x d" "dr_scroll_y (visit_zone x y j d) = dr_scroll_y d"
  "dr_data (visit_zone x y j d) = dr_data d" "dr_targets (visit_zone x y j d) = dr_targets d" "drops (dr_log (visit_zone x y j d)) = drops (dr_log d)"
  by (simp_all add: visit_zone_def set_entered_def note_drag_def Let_def)

lemma visit_rects: "map zone_rect (dr_zones (visit_zone x y j d)) = map zone_rect (dr_zones d)"
proof -
  have "map zone_rect (zs[j := (zs ! j)\<lparr>zn_entered := b\<rparr>]) = map zone_rect zs" for zs b
  proof (cases "j < length zs")
    case True
    have "zone_rect ((zs ! j)\<lparr>zn_entered := b\<rparr>) = map zone_rect zs ! j" using True by (simp add: zone_rect_def)
    then show ?thesis using True by (simp add: map_update del: nth_map)
  qed (simp add: list_update_beyond)
  then show ?thesis by (simp add: visit_zone_def set_entered_def note_drag_def Let_def)
qed

lemma visit_under_way: "under_way d0 x y d \<Longrightarrow> under_way d0 x y (visit_zone a b j d)"
  unfolding under_way_def visit_rest visit_rects .

lemma visits_under_way: "under_way d0 x y d \<Longrightarrow> under_way d0 x y (fold (visit_zone a b) js d) \<and> dr_data (fold (visit_zone a b) js d) = dr_data d"
proof (induction js arbitrary: d)
  case (Cons j js)
  from Cons.IH [OF visit_under_way [OF Cons.prems]] show ?case by (simp add: visit_rest)
qed simp

lemma follow_under_way:
  assumes "under_way d0 x y d"
  shows "drops [n] = [] \<Longrightarrow> under_way d0 x y (note_drag n (follow_mouse a b d))" "under_way d0 x y (put_dragged d)"
    and "\<not> dr_revert d0 \<Longrightarrow> (dd_left (dr_data (follow_mouse a b d)), dd_top (dr_data (follow_mouse a b d))) = landed d0 x y a b"
proof -
  show "drops [n] = [] \<Longrightarrow> under_way d0 x y (note_drag n (follow_mouse a b d))"
    using assms by (cases "dr_axis d0" rule: option.exhaust; cases "the (dr_axis d0)") (auto simp: under_way_def follow_mouse_def note_drag_def drag_point_def Let_def)
  show "under_way d0 x y (put_dragged d)" using assms by (auto simp: under_way_def put_dragged_def Let_def)
  show "\<not> dr_revert d0 \<Longrightarrow> (dd_left (dr_data (follow_mouse a b d)), dd_top (dr_data (follow_mouse a b d))) = landed d0 x y a b"
    using assms by (cases "dr_axis d0" rule: option.exhaust; cases "the (dr_axis d0)") (auto simp: under_way_def follow_mouse_def drag_point_def landed_def Let_def)
qed

lemma drag_to_way:
  assumes "under_way d0 x y d"
  shows "\<exists>d'. drag_to a b d = Some d' \<and> under_way d0 x y d' \<and> (\<not> dr_revert d0 \<longrightarrow> (dd_left (dr_data d'), dd_top (dr_data d')) = landed d0 x y a b)"
proof -
  define d1 where "d1 = note_drag Dragging (follow_mouse a b d)"
  define d2 where "d2 = (if dr_follows d1 (dd_left (dr_data d1), dd_top (dr_data d1)) then put_dragged d1 else d1)"
  have d1: "under_way d0 x y d1" unfolding d1_def by (rule follow_under_way(1) [OF assms]) simp
  then have d2: "under_way d0 x y d2" using follow_under_way(2) by (simp add: d2_def)
  have q: "dr_data d2 = dr_data (follow_mouse a b d)" by (simp add: d2_def put_dragged_def Let_def) (simp add: d1_def note_drag_def)
  have "drag_to a b d = map_option (\<lambda>js. fold (visit_zone a b) js d2) (dr_targets d2)"
    unfolding drag_to_def Let_def d1_def [symmetric] d2_def [symmetric] using assms by (simp add: under_way_def)
  moreover obtain js where "dr_targets d2 = Some js" using d2 by (auto simp: under_way_def)
  ultimately have "drag_to a b d = Some (fold (visit_zone a b) js d2)" by simp
  then show ?thesis using visits_under_way [OF d2, of a b js] follow_under_way(3) [OF assms, of a b] q by auto
qed

lemma no_handler [simp]: "each_handler 0 f = Some"
  by (simp add: fun_eq_iff)

lemma one_handler [simp]: "each_handler (Suc 0) f = f"
  by (simp add: fun_eq_iff)

lemma step_one:
  "dr_bound d = 1 \<Longrightarrow> drag_step d (DragMove a b) = drag_to a b d" "dr_bound d = 1 \<Longrightarrow> drag_step d (DragRelease a b) = release_dragged a b d"
  by (simp_all add: drag_step_def)

lemma moves_way:
  assumes "under_way d0 x y d"
  shows "\<exists>d'. run_events drag_step d (map (\<lambda>(a, b). DragMove a b) ms) = Some d' \<and> under_way d0 x y d'"
  using assms
proof (induction ms arbitrary: d)
  case (Cons m ms)
  obtain a b where m: "m = (a, b)" by (cases m)
  have n: "dr_bound d = 1" using Cons.prems by (simp add: under_way_def)
  obtain d' where d': "drag_to a b d = Some d'" "under_way d0 x y d'" using drag_to_way [OF Cons.prems] by blast
  from Cons.IH [OF d'(2)] show ?case using d'(1) step_one(1) [OF n] by (simp add: m)
qed simp

lemma way_target:
  assumes "under_way d0 x y d"
  shows "drop_target a b d = taker d0 a b"
proof -
  have r: "map zone_rect (dr_zones d) = map zone_rect (dr_zones d0)" using assms by (simp add: under_way_def)
  then have l: "length (dr_zones d) = length (dr_zones d0)" by (metis length_map)
  have "zone_rect (dr_zones d ! j) = zone_rect (dr_zones d0 ! j)" if "j < length (dr_zones d0)" for j using r l that by (metis nth_map)
  then have "zn_disabled (dr_zones d ! j) = zn_disabled (dr_zones d0 ! j) \<and> over_zone a b (dr_zones d ! j) = over_zone a b (dr_zones d0 ! j)"
    if "j < length (dr_zones d0)" for j using that by (simp add: zone_rect_def over_zone_def)
  then show ?thesis using assms by (auto simp: under_way_def drop_target_def taker_def intro!: find_cong)
qed

text \<open>
  C36. However elements are dragged, a zone hears that it is entered before it hears of moves over it,
  and that it is left or dropped on before it is entered again.
\<close>

theorem drag_protocol:
  assumes "dr_log d = []" and "dr_targets d = None" and "\<forall>z \<in> set (dr_zones d). \<not> zn_entered z"
    and "run_events drag_step d es = Some d'" and "j < length (dr_zones d')"
  shows "run_events zone_next False (heard j (dr_log d')) = Some (zn_entered (dr_zones d' ! j))"
proof -
  have "hearing_ok d" using assms(1-3) by (simp add: hearing_ok_def zones_heard_def targets_ok_def heard_def List.map_filter_def)
  then have "hearing_ok d'" by (rule drag_machine.inv_run [OF _ assms(4)])
  then show ?thesis using assms(5) by (simp add: hearing_ok_def zones_heard_def)
qed

lemma press_way:
  assumes "dr_kind d = NoProxy" "dr_proxy d = None" "dr_bound d = 0" "dr_timers d = []" "\<not> dr_disabled d" "on_handle x y d" "dr_may_drag d"
  shows "under_way d x y (fire_drag (dr_next d) (press_dragged x y d))"
proof -
  define d1 where "d1 = press_dragged x y d"
  have d1: "dr_timers d1 = [(dr_next d, x, y)]" "dr_bound d1 = 1" "dr_kind d1 = NoProxy" "dr_proxy d1 = None" "dr_revert d1 = dr_revert d" "dr_axis d1 = dr_axis d"
    "dr_scroll_x d1 = dr_scroll_x d" "dr_scroll_y d1 = dr_scroll_y d" "dr_zones d1 = dr_zones d" "dr_log d1 = dr_log d"
    "dd_start_left (dr_data d1) = dr_left d - dr_scroll_x d" "dd_start_top (dr_data d1) = dr_top d - dr_scroll_y d"
    "dd_left (dr_data d1) = dr_left d - dr_scroll_x d" "dd_top (dr_data d1) = dr_top d - dr_scroll_y d"
    "dd_start_x (dr_data d1) = x" "dd_start_y (dr_data d1) = y"
    using assms by (simp_all add: d1_def press_dragged_def Let_def)
  define d2 where "d2 = d1\<lparr>dr_timers := [], dr_dragging := True, dr_targets := Some (filter (\<lambda>j. zn_accepts (dr_zones d ! j)) [0..<length (dr_zones d)])\<rparr>"
  have u: "under_way d x y d2" using d1 by (simp add: under_way_def d2_def)
  have "fire_drag (dr_next d) d1 = note_drag DragStarts (put_dragged (follow_mouse x y d2))"
    using d1 by (simp add: fire_drag_def start_dragging_def Let_def d2_def)
  moreover have "under_way d x y (note_drag DragStarts (follow_mouse x y d2))" by (rule follow_under_way(1) [OF u]) simp
  then have "under_way d x y (put_dragged (note_drag DragStarts (follow_mouse x y d2)))" by (rule follow_under_way(2))
  moreover have "put_dragged (note_drag n e) = note_drag n (put_dragged e)" for n e by (simp add: put_dragged_def note_drag_def Let_def)
  ultimately show ?thesis by (simp add: d1_def)
qed

text \<open>
  A drag from the handle moves the element with the mouse, along its axis if it has one, or back to
  where it was if it reverts; the first zone under the mouse that accepts it and is not disabled hears
  the drop, and no other.
\<close>

theorem drag_and_drop:
  assumes "dr_kind d = NoProxy" and "dr_proxy d = None" and "dr_bound d = 0" and "dr_timers d = []" and "\<not> dr_disabled d" and "on_handle x y d" and "dr_may_drag d"
  shows "\<exists>d'. run_events drag_step d (DragPress x y # DragTimer (dr_next d) # map (\<lambda>(a, b). DragMove a b) ms @ [DragRelease x' y']) = Some d'
    \<and> (dr_left d', dr_top d') = landed d x y x' y' \<and> drops (dr_log d') = drops (dr_log d) @ (case taker d x' y' of None \<Rightarrow> [] | Some j \<Rightarrow> [j])
    \<and> \<not> dr_dragging d'"
proof -
  define d1 where "d1 = fire_drag (dr_next d) (press_dragged x y d)"
  obtain d2 where d2: "run_events drag_step d1 (map (\<lambda>(a, b). DragMove a b) ms) = Some d2" "under_way d x y d2"
    using moves_way [OF press_way [OF assms]] by (auto simp: d1_def)
  obtain d3 where d3: "drag_to x' y' d2 = Some d3" "under_way d x y d3" "\<not> dr_revert d \<Longrightarrow> (dd_left (dr_data d3), dd_top (dr_data d3)) = landed d x y x' y'"
    using drag_to_way [OF d2(2), of x' y'] by blast
  have b: "dr_bound d2 = 1" "dr_dragging d2" using d2(2) by (simp_all add: under_way_def)
  have t: "drop_target x' y' d3 = taker d x' y'" "drop_target x' y' (d3\<lparr>dr_left := l, dr_top := u\<rparr>) = taker d x' y'" for l u
    using way_target [OF d3(2)] by (simp_all add: drop_target_def cong: option.case_cong)
  have f: "dr_revert d3 = dr_revert d" "dr_proxy d3 = None" "drops (dr_log d3) = drops (dr_log d)"
    "dd_start_left (dr_data d3) = dr_left d - dr_scroll_x d" "dd_start_top (dr_data d3) = dr_top d - dr_scroll_y d" using d3(2) by (simp_all add: under_way_def)
  obtain d' where d': "release_dragged x' y' d2 = Some d'" using b d3(1) by (simp add: release_dragged_def)
  have r: "(dr_left d', dr_top d') = landed d x y x' y' \<and> drops (dr_log d') = drops (dr_log d) @ (case taker d x' y' of None \<Rightarrow> [] | Some j \<Rightarrow> [j]) \<and> \<not> dr_dragging d'"
  proof (cases "dr_revert d")
    case True
    then show ?thesis using d' b d3(1) t f
      by (cases "taker d x' y'") (auto simp: release_dragged_def Let_def drop_dragged_def end_dragging_def to_start_def note_drag_def landed_def set_entered_def)
  next
    case False
    then show ?thesis using d' b d3(1) d3(3) t f
      by (cases "taker d x' y'") (auto simp: release_dragged_def Let_def drop_dragged_def end_dragging_def note_drag_def set_entered_def)
  qed
  have "run_events drag_step d (DragPress x y # DragTimer (dr_next d) # map (\<lambda>(a, b). DragMove a b) ms @ [DragRelease x' y']) = Some d'"
    using d2(1) d' step_one(2) [OF b(1)] by (simp add: run_events_append drag_step_def d1_def)
  with r show ?thesis by blast
qed

definition sample_zone :: "int \<Rightarrow> int \<Rightarrow> int \<Rightarrow> drop_zone" where
  "sample_zone l w h = \<lparr>zn_left = l, zn_top = 0, zn_w = w, zn_h = h, zn_accepts = True, zn_disabled = False, zn_entered = False\<rparr>"

definition sample_dragged :: dragged where
  "sample_dragged = \<lparr>dr_left = 50, dr_top = 60, dr_page_x = 0, dr_page_y = 0, dr_scroll_x = 0, dr_scroll_y = 20, dr_handle = (0, 0, 100, 20), dr_revert = False,
     dr_disabled = False, dr_kind = NoProxy, dr_delta_x = None, dr_delta_y = None, dr_axis = None, dr_edge = 0, dr_may_drag = True, dr_follows = (\<lambda>p. True),
     dr_data = \<lparr>dd_start_left = 0, dd_start_top = 0, dd_left = 0, dd_top = 0, dd_start_x = 0, dd_start_y = 0, dd_offset_w = 0, dd_offset_h = 0\<rparr>,
     dr_proxy = None, dr_targets = None, dr_zones = [sample_zone 300 200 400, sample_zone 350 50 50], dr_dragging = False, dr_bound = 0, dr_timer = None,
     dr_timers = [], dr_next = 0, dr_log = []\<rparr>"

definition drag_twice :: "drag_event list" where
  "drag_twice = [DragPress 60 45, DragTimer 0, DragMove 370 20, DragRelease 370 20, DragPress 370 20, DragTimer 1, DragMove 371 20]"

definition dragged_twice :: dragged where
  "dragged_twice = the (run_events drag_step sample_dragged drag_twice)"

lemma run_drag_twice: "run_events drag_step sample_dragged drag_twice = Some dragged_twice"
proof -
  have "\<not> Option.is_none (run_events drag_step sample_dragged drag_twice)" by code_simp
  then show ?thesis unfolding dragged_twice_def by (cases "run_events drag_step sample_dragged drag_twice") simp_all
qed

theorem drag_protocol_witness:
  "run_events zone_next False (heard 0 (dr_log dragged_twice)) = Some True \<and> heard 0 (dr_log dragged_twice) = [ZoneEnter, ZoneOver, ZoneOver, ZoneDrop, ZoneEnter, ZoneOver]"
proof -
  have i: "dr_log sample_dragged = []" "dr_targets sample_dragged = None" "\<forall>z \<in> set (dr_zones sample_dragged). \<not> zn_entered z"
    by (simp_all add: sample_dragged_def sample_zone_def)
  have l: "0 < length (dr_zones dragged_twice)" "zn_entered (dr_zones dragged_twice ! 0)"
    "heard 0 (dr_log dragged_twice) = [ZoneEnter, ZoneOver, ZoneOver, ZoneDrop, ZoneEnter, ZoneOver]" by code_simp+
  show ?thesis using drag_protocol [OF i run_drag_twice l(1)] l by simp
qed

section \<open>What the code does otherwise\<close>

text \<open>Of two zones one over the other only one hears the drop; the other stays entered, and hears of the next drag without being entered.\<close>

lemma covered_zone_stays_entered:
  "heard 1 (dr_log dragged_twice) = [ZoneEnter, ZoneOver, ZoneOver, ZoneOver]"
  by code_simp

text \<open>In a scrolled parent an element that reverts does not come back to where it was.\<close>

lemma revert_misses_scroll:
  "map_option (\<lambda>d. (dr_left d, dr_top d)) (run_events drag_step (sample_dragged\<lparr>dr_revert := True\<rparr>)
    [DragPress 60 45, DragTimer 0, DragMove 70 50, DragRelease 70 50]) = Some (50, 40)"
  by code_simp

text \<open>An element that is disabled while it is dragged has lost its zones; the next move fails.\<close>

lemma disabled_drag_fails:
  "run_events drag_step sample_dragged [DragPress 60 45, DragTimer 0, AbleDrag False, DragMove 70 50] = None"
proof -
  have "Option.is_none (run_events drag_step sample_dragged [DragPress 60 45, DragTimer 0, AbleDrag False, DragMove 70 50])" by code_simp
  then show ?thesis by (simp add: Option.is_none_def)
qed

end
