(* ===== verification/Form.thy ===== *)
theory Form
  imports ComboBox NumberBox Validation
begin

text \<open>
  \<open>plugins/jquery.form.js\<close>, the fields: loading data into a form, clearing, resetting and validating
  it. A form holds elements of the browser and fields of widgets, in the order of the document; a
  field is a text box, a number box, a combo or a combo box of the theories below, with the validate
  box of its text. A widget stacked on others answers to the methods of all its layers. What the form
  would submit is \<open>form_entries\<close>. \<open>None\<close> is an exception, or a number formatter that does not return.
\<close>

section \<open>Elements and fields\<close>

datatype elem_kind = TextInput | HiddenInput | PasswordInput | FileInput | CheckInput | RadioInput | OtherInput
  | TextArea | SelectBox

record elem =
  el_kind :: elem_kind
  el_name :: string
  el_value :: string
  el_checked :: bool
  el_options :: "string list"
  el_picked :: "nat option"
  el_default :: string
  el_default_checked :: bool
  el_default_picked :: "nat option"
  el_disabled :: bool

datatype widget = TextW textbox | NumberW numberbox | ComboW combo | BoxW combobox

datatype form_item = Native elem | Field string widget vbox

datatype jval = JText string | JTexts "string list"

datatype form_note = BeforeLoad | LoadSuccess "(string \<times> jval) list" | LoadError | FocusInvalid nat

record form =
  fm_items :: "form_item list"
  fm_types :: "string list"
  fm_novalidate :: bool
  fm_log :: "form_note list"

definition form_note :: "form_note \<Rightarrow> form \<Rightarrow> form" where
  "form_note n f = f\<lparr>fm_log := fm_log f @ [n]\<rparr>"

text \<open>The option \<open>fieldTypes\<close>: the more special widgets come first.\<close>

definition field_types :: "string list" where
  "field_types = [''combobox'', ''combotree'', ''combogrid'', ''datetimebox'', ''datebox'', ''combo'', ''datetimespinner'',
     ''timespinner'', ''numberspinner'', ''spinner'', ''slider'', ''searchbox'', ''numberbox'', ''textbox'']"

text \<open>The keys of the data attached to the element of a widget, which are the widgets it is stacked of\<close>

definition layers :: "widget \<Rightarrow> string list" where
  "layers w = (case w of TextW t \<Rightarrow> [''textbox''] | NumberW t \<Rightarrow> [''numberbox'', ''textbox''] | ComboW c \<Rightarrow> [''combo'', ''textbox'']
     | BoxW c \<Rightarrow> [''combobox'', ''combo'', ''textbox''])"

definition is_multiple :: "widget \<Rightarrow> bool" where
  "is_multiple w = (case w of TextW t \<Rightarrow> False | NumberW t \<Rightarrow> False | ComboW c \<Rightarrow> cb_multiple c | BoxW c \<Rightarrow> cb_multiple c)"

definition hidden_values :: "widget \<Rightarrow> string list" where
  "hidden_values w = (case w of TextW t \<Rightarrow> tb_hidden t | NumberW t \<Rightarrow> tb_hidden t | ComboW c \<Rightarrow> tb_hidden c | BoxW c \<Rightarrow> tb_hidden c)"

definition widget_disabled :: "widget \<Rightarrow> bool" where
  "widget_disabled w = (case w of TextW t \<Rightarrow> tb_disabled t | NumberW t \<Rightarrow> tb_disabled t | ComboW c \<Rightarrow> tb_disabled c | BoxW c \<Rightarrow> tb_disabled c)"

definition widget_text :: "widget \<Rightarrow> string" where
  "widget_text w = (case w of TextW t \<Rightarrow> get_text t | NumberW t \<Rightarrow> get_text t | ComboW c \<Rightarrow> get_text c | BoxW c \<Rightarrow> get_text c)"

section \<open>Values of the data\<close>

text \<open>\<open>String(val)\<close>, and the list jQuery or a combo with a separator makes of a value\<close>

definition js_text :: "jval \<Rightarrow> string" where
  "js_text v = (case v of JText s \<Rightarrow> s | JTexts vs \<Rightarrow> js_join '','' vs)"

definition js_values :: "jval \<Rightarrow> string list" where
  "js_values v = (case v of JText s \<Rightarrow> [s] | JTexts vs \<Rightarrow> vs)"

definition split_values :: "string \<Rightarrow> jval \<Rightarrow> string list" where
  "split_values sep v = (case v of JText s \<Rightarrow> js_split sep s | JTexts vs \<Rightarrow> vs)"

section \<open>Methods of the widgets, by layer\<close>

definition call_set :: "string \<Rightarrow> jval \<Rightarrow> widget \<Rightarrow> widget option" where
  "call_set ty v w =
     (case w of
        TextW t \<Rightarrow> if ty = ''textbox'' then Some (TextW (set_value (js_text v) t)) else None
      | NumberW t \<Rightarrow>
          if ty = ''numberbox'' then map_option NumberW (number_set (js_text v) t)
          else if ty = ''textbox'' then Some (NumberW (set_value (js_text v) t)) else None
      | ComboW c \<Rightarrow>
          if ty = ''combo'' then Some (ComboW (combo_set_value (js_text v) c))
          else if ty = ''textbox'' then Some (ComboW (set_value (js_text v) c)) else None
      | BoxW c \<Rightarrow>
          if ty = ''combobox'' then Some (BoxW (box_set_values [js_text v] False c))
          else if ty = ''combo'' then Some (BoxW (combo_set_value (js_text v) c))
          else if ty = ''textbox'' then Some (BoxW (set_value (js_text v) c)) else None)"

definition call_set_values :: "string \<Rightarrow> jval \<Rightarrow> widget \<Rightarrow> widget option" where
  "call_set_values ty v w =
     (case w of
        ComboW c \<Rightarrow> if ty = ''combo'' then Some (ComboW (set_values (split_values (cb_separator c) v) c)) else None
      | BoxW c \<Rightarrow>
          if ty = ''combobox'' then Some (BoxW (box_set_values (split_values (cb_separator c) v) False c))
          else if ty = ''combo'' then Some (BoxW (set_values (split_values (cb_separator c) v) c)) else None
      | _ \<Rightarrow> None)"

definition call_clear :: "string \<Rightarrow> widget \<Rightarrow> widget option" where
  "call_clear ty w =
     (if ty \<notin> set (layers w) then Some w
      else case w of
        TextW t \<Rightarrow> Some (TextW (clear_text t))
      | NumberW t \<Rightarrow> Some (NumberW (if ty = ''numberbox'' then number_clear t else clear_text t))
      | ComboW c \<Rightarrow> Some (ComboW (if ty = ''combo'' then combo_clear c else clear_text c))
      | BoxW c \<Rightarrow> Some (BoxW (if ty = ''combobox'' then box_clear c else if ty = ''combo'' then combo_clear c else clear_text c)))"

definition call_reset :: "string \<Rightarrow> widget \<Rightarrow> widget option" where
  "call_reset ty w =
     (if ty \<notin> set (layers w) then Some w
      else case w of
        TextW t \<Rightarrow> Some (TextW (reset_text t))
      | NumberW t \<Rightarrow> if ty = ''numberbox'' then map_option NumberW (number_reset t) else Some (NumberW (reset_text t))
      | ComboW c \<Rightarrow> Some (ComboW (if ty = ''combo'' then combo_reset c else reset_text c))
      | BoxW c \<Rightarrow> Some (BoxW (if ty = ''combobox'' then box_reset c else if ty = ''combo'' then combo_reset c else reset_text c)))"

section \<open>Loading\<close>

definition item_name :: "form_item \<Rightarrow> string" where
  "item_name it = (case it of Native e \<Rightarrow> el_name e | Field n w b \<Rightarrow> n)"

definition is_box :: "elem \<Rightarrow> bool" where
  "is_box e = (el_kind e = CheckInput \<or> el_kind e = RadioInput)"

definition box_named :: "string \<Rightarrow> form_item \<Rightarrow> bool" where
  "box_named n it = (case it of Native e \<Rightarrow> is_box e \<and> el_name e = n | Field _ _ _ \<Rightarrow> False)"

definition box_holds :: "jval \<Rightarrow> form_item \<Rightarrow> bool" where
  "box_holds v it = (case it of Native e \<Rightarrow> el_value e = js_text v \<or> el_value e \<in> set (js_values v) | Field _ _ _ \<Rightarrow> False)"

definition set_checked :: "bool \<Rightarrow> form_item \<Rightarrow> form_item" where
  "set_checked b it = (case it of Native e \<Rightarrow> Native (e\<lparr>el_checked := b\<rparr>) | Field n w x \<Rightarrow> Field n w x)"

definition radio_named :: "string \<Rightarrow> form_item \<Rightarrow> bool" where
  "radio_named n it = (case it of Native e \<Rightarrow> el_kind e = RadioInput \<and> el_name e = n | Field _ _ _ \<Rightarrow> False)"

text \<open>Checking a radio button unchecks the others of its name, as browsers do.\<close>

definition check_item :: "nat \<Rightarrow> form_item list \<Rightarrow> form_item list" where
  "check_item i its =
     (let n = item_name (its ! i)
      in map_at i (set_checked True)
           (if radio_named n (its ! i) then map (\<lambda>it. if radio_named n it then set_checked False it else it) its else its))"

text \<open>\<open>_1b\<close>\<close>

definition check_boxes :: "string \<Rightarrow> jval \<Rightarrow> form_item list \<Rightarrow> form_item list" where
  "check_boxes n v its =
     foldl (\<lambda>its i. if box_named n (its ! i) \<and> box_holds v (its ! i) then check_item i its else its)
       (map (\<lambda>it. if box_named n it then set_checked False it else it) its) [0..<length its]"

text \<open>
  \<open>_1c\<close>: the first field of the name decides which layer is called, and how, for all fields of the
  name. \<open>None\<close> inside is the answer that there is no such field.
\<close>

definition field_named :: "string \<Rightarrow> form_item \<Rightarrow> bool" where
  "field_named n it = (case it of Native e \<Rightarrow> False | Field m w b \<Rightarrow> m = n)"

definition item_widget :: "form_item \<Rightarrow> widget option" where
  "item_widget it = (case it of Native e \<Rightarrow> None | Field m w b \<Rightarrow> Some w)"

definition field_layer :: "string list \<Rightarrow> string \<Rightarrow> form_item list \<Rightarrow> (string \<times> bool) option" where
  "field_layer types n its =
     (case find (field_named n) its of
        Some (Field m w b) \<Rightarrow> map_option (\<lambda>ty. (ty, is_multiple w)) (find (\<lambda>ty. ty \<in> set (layers w)) types)
      | _ \<Rightarrow> None)"

definition fill_field :: "string \<Rightarrow> bool \<Rightarrow> string \<Rightarrow> jval \<Rightarrow> form_item \<Rightarrow> form_item option" where
  "fill_field ty multi n v it =
     (case it of
        Native e \<Rightarrow> Some it
      | Field m w b \<Rightarrow>
          if m = n then map_option (\<lambda>w. Field m w b) (if multi then call_set_values ty v w else call_set ty v w) else Some it)"

text \<open>\<open>.val(val)\<close> of the remaining elements of the name; only the empty text can be put into a file input.\<close>

definition fill_elem :: "jval \<Rightarrow> elem \<Rightarrow> elem option" where
  "fill_elem v e =
     (case el_kind e of
        FileInput \<Rightarrow> if js_text v = '''' then Some (e\<lparr>el_value := ''''\<rparr>) else None
      | SelectBox \<Rightarrow> Some (e\<lparr>el_picked := find_index (\<lambda>x. x \<in> set (js_values v)) (el_options e)\<rparr>)
      | _ \<Rightarrow> Some (e\<lparr>el_value := js_text v\<rparr>))"

definition put_hidden :: "string \<Rightarrow> widget \<Rightarrow> widget" where
  "put_hidden s w =
     (case w of
        TextW t \<Rightarrow> TextW (t\<lparr>tb_hidden := map (\<lambda>h. s) (tb_hidden t)\<rparr>)
      | NumberW t \<Rightarrow> NumberW (t\<lparr>tb_hidden := map (\<lambda>h. s) (tb_hidden t)\<rparr>)
      | ComboW t \<Rightarrow> ComboW (t\<lparr>tb_hidden := map (\<lambda>h. s) (tb_hidden t)\<rparr>)
      | BoxW t \<Rightarrow> BoxW (t\<lparr>tb_hidden := map (\<lambda>h. s) (tb_hidden t)\<rparr>))"

definition fill_native :: "string \<Rightarrow> jval \<Rightarrow> form_item \<Rightarrow> form_item option" where
  "fill_native n v it =
     (case it of
        Native e \<Rightarrow> if el_name e = n then map_option Native (fill_elem v e) else Some it
      | Field m w b \<Rightarrow> Some (if m = n then Field m (put_hidden (js_text v) w) b else it))"

definition map_items :: "(form_item \<Rightarrow> form_item option) \<Rightarrow> form_item list \<Rightarrow> form_item list option" where
  "map_items g its = those (map g its)"

text \<open>The body of the loop of \<open>_17\<close>\<close>

definition fill_name :: "string list \<Rightarrow> string \<times> jval \<Rightarrow> form_item list \<Rightarrow> form_item list option" where
  "fill_name types p its =
     (if list_ex (box_named (fst p)) its then Some (check_boxes (fst p) (snd p) its)
      else case field_layer types (fst p) its of
             Some (ty, multi) \<Rightarrow> map_items (fill_field ty multi (fst p) (snd p)) its
           | None \<Rightarrow> map_items (fill_native (fst p) (snd p)) its)"

fun fill_names :: "string list \<Rightarrow> (string \<times> jval) list \<Rightarrow> form_item list \<Rightarrow> form_item list option" where
  "fill_names types [] its = Some its"
| "fill_names types (p # ps) its = Option.bind (fill_name types p its) (fill_names types ps)"

section \<open>Validating\<close>

text \<open>\<open>_38\<close>: the boxes that are not disabled are validated; the first of them that is invalid gets the focus.\<close>

definition validate_item :: "form_item \<Rightarrow> form_item option" where
  "validate_item it =
     (case it of
        Native e \<Rightarrow> Some it
      | Field n w b \<Rightarrow>
          if widget_disabled w then Some it
          else map_option (Field n w) (validated (b\<lparr>vb_text := widget_text w, vb_disabled := False\<rparr>)))"

definition item_invalid :: "form_item \<Rightarrow> bool" where
  "item_invalid it = (case it of Native e \<Rightarrow> False | Field n w b \<Rightarrow> vb_invalid b)"

definition item_disabled :: "form_item \<Rightarrow> bool" where
  "item_disabled it = (case it of Native e \<Rightarrow> el_disabled e | Field n w b \<Rightarrow> widget_disabled w)"

definition validate_form :: "form \<Rightarrow> (bool \<times> form) option" where
  "validate_form f =
     (case map_items validate_item (fm_items f) of
        None \<Rightarrow> None
      | Some its \<Rightarrow>
          let f = f\<lparr>fm_items := its\<rparr>
          in Some (\<not> list_ex item_invalid its,
               (case find_index (\<lambda>it. item_invalid it \<and> \<not> item_disabled it) its of None \<Rightarrow> f | Some i \<Rightarrow> form_note (FocusInvalid i) f)))"

definition revalidate :: "form \<Rightarrow> form option" where
  "revalidate f = map_option snd (validate_form f)"

text \<open>\<open>_33\<close>\<close>

definition novalidate_item :: "bool \<Rightarrow> form_item \<Rightarrow> form_item option" where
  "novalidate_item nv it =
     (case it of
        Native e \<Rightarrow> Some it
      | Field n w b \<Rightarrow>
          if widget_disabled w then Some it
          else map_option (Field n w) (set_novalidate (Some nv) (b\<lparr>vb_text := widget_text w, vb_disabled := False\<rparr>)))"

definition form_novalidate :: "bool \<Rightarrow> form \<Rightarrow> form option" where
  "form_novalidate nv f =
     map_option (\<lambda>its. f\<lparr>fm_novalidate := nv, fm_items := its\<rparr>) (map_items (novalidate_item nv) (fm_items f))"

text \<open>\<open>_17\<close>, and \<open>_11\<close> with the answers of the server\<close>

definition load_fields :: "(string \<times> jval) list \<Rightarrow> form \<Rightarrow> form option" where
  "load_fields d f =
     (case fill_names (fm_types f) d (fm_items f) of
        None \<Rightarrow> None
      | Some its \<Rightarrow> revalidate (form_note (LoadSuccess d) (f\<lparr>fm_items := its\<rparr>)))"

datatype load_source = FromData "(string \<times> jval) list" | FromServer bool "(string \<times> jval) list option"

definition load_form :: "load_source \<Rightarrow> form \<Rightarrow> form option" where
  "load_form src f =
     (case src of
        FromData d \<Rightarrow> load_fields d f
      | FromServer allowed answer \<Rightarrow>
          let f = form_note BeforeLoad f
          in if \<not> allowed then Some f
             else (case answer of None \<Rightarrow> Some (form_note LoadError f) | Some d \<Rightarrow> load_fields d f))"

section \<open>Clearing and resetting\<close>

text \<open>
  The loop over all inputs, selects and text areas reaches the inputs of the widgets too: the visible
  text, the element under the widget and the hidden inputs. Inputs of other types stay.
\<close>

definition blank_elem :: "elem \<Rightarrow> elem" where
  "blank_elem e =
     (case el_kind e of
        CheckInput \<Rightarrow> e\<lparr>el_checked := False\<rparr>
      | RadioInput \<Rightarrow> e\<lparr>el_checked := False\<rparr>
      | SelectBox \<Rightarrow> e\<lparr>el_picked := None\<rparr>
      | OtherInput \<Rightarrow> e
      | _ \<Rightarrow> e\<lparr>el_value := ''''\<rparr>)"

definition blank_inputs :: "'a textbox_scheme \<Rightarrow> 'a textbox_scheme" where
  "blank_inputs t = t\<lparr>tb_text := '''', tb_element := '''', tb_hidden := map (\<lambda>h. '''') (tb_hidden t)\<rparr>"

definition blank_item :: "form_item \<Rightarrow> form_item" where
  "blank_item it =
     (case it of
        Native e \<Rightarrow> Native (blank_elem e)
      | Field n w b \<Rightarrow>
          Field n (case w of TextW t \<Rightarrow> TextW (blank_inputs t) | NumberW t \<Rightarrow> NumberW (blank_inputs t)
                   | ComboW t \<Rightarrow> ComboW (blank_inputs t) | BoxW t \<Rightarrow> BoxW (blank_inputs t)) b)"

definition on_widget :: "(widget \<Rightarrow> widget option) \<Rightarrow> form_item \<Rightarrow> form_item option" where
  "on_widget g it = (case it of Native e \<Rightarrow> Some it | Field n w b \<Rightarrow> map_option (\<lambda>w. Field n w b) (g w))"

fun call_layers :: "(string \<Rightarrow> widget \<Rightarrow> widget option) \<Rightarrow> string list \<Rightarrow> form_item list \<Rightarrow> form_item list option" where
  "call_layers call [] its = Some its"
| "call_layers call (ty # tys) its = Option.bind (map_items (on_widget (call ty)) its) (call_layers call tys)"

text \<open>\<open>_22\<close>\<close>

definition clear_form :: "form \<Rightarrow> form option" where
  "clear_form f =
     Option.bind (call_layers call_clear (rev (fm_types f)) (map blank_item (fm_items f)))
       (\<lambda>its. revalidate (f\<lparr>fm_items := its\<rparr>))"

text \<open>
  \<open>_2a\<close>: the \<open>reset\<close> of the browser puts the defaults back, except into hidden inputs, whose value is
  their default; then the widgets reset themselves.
\<close>

definition restore_elem :: "elem \<Rightarrow> elem" where
  "restore_elem e =
     (case el_kind e of
        CheckInput \<Rightarrow> e\<lparr>el_checked := el_default_checked e\<rparr>
      | RadioInput \<Rightarrow> e\<lparr>el_checked := el_default_checked e\<rparr>
      | SelectBox \<Rightarrow> e\<lparr>el_picked := el_default_picked e\<rparr>
      | HiddenInput \<Rightarrow> e
      | FileInput \<Rightarrow> e\<lparr>el_value := ''''\<rparr>
      | _ \<Rightarrow> e\<lparr>el_value := el_default e\<rparr>)"

definition restore_inputs :: "'a textbox_scheme \<Rightarrow> 'a textbox_scheme" where
  "restore_inputs t = t\<lparr>tb_text := '''', tb_element := tb_original t\<rparr>"

definition restore_item :: "form_item \<Rightarrow> form_item" where
  "restore_item it =
     (case it of
        Native e \<Rightarrow> Native (restore_elem e)
      | Field n w b \<Rightarrow>
          Field n (case w of TextW t \<Rightarrow> TextW (restore_inputs t) | NumberW t \<Rightarrow> NumberW (restore_inputs t)
                   | ComboW t \<Rightarrow> ComboW (restore_inputs t) | BoxW t \<Rightarrow> BoxW (restore_inputs t)) b)"

definition reset_form :: "form \<Rightarrow> form option" where
  "reset_form f =
     Option.bind (call_layers call_reset (rev (fm_types f)) (map restore_item (fm_items f)))
       (\<lambda>its. revalidate (f\<lparr>fm_items := its\<rparr>))"

section \<open>What a form submits\<close>

definition elem_entries :: "elem \<Rightarrow> (string \<times> string) list" where
  "elem_entries e =
     (if el_disabled e \<or> el_name e = '''' then []
      else case el_kind e of
        CheckInput \<Rightarrow> if el_checked e then [(el_name e, el_value e)] else []
      | RadioInput \<Rightarrow> if el_checked e then [(el_name e, el_value e)] else []
      | SelectBox \<Rightarrow> (case el_picked e of None \<Rightarrow> [] | Some i \<Rightarrow> if i < length (el_options e) then [(el_name e, el_options e ! i)] else [])
      | _ \<Rightarrow> [(el_name e, el_value e)])"

definition item_entries :: "form_item \<Rightarrow> (string \<times> string) list" where
  "item_entries it =
     (case it of
        Native e \<Rightarrow> elem_entries e
      | Field n w b \<Rightarrow> if widget_disabled w \<or> n = '''' then [] else map (Pair n) (hidden_values w))"

definition form_entries :: "form \<Rightarrow> (string \<times> string) list" where
  "form_entries f = concat (map item_entries (fm_items f))"

section \<open>What loading does\<close>

text \<open>The values a widget has once a value is loaded into it: a number box reads it as a number, a field with several values as a list.\<close>

definition given_values :: "widget \<Rightarrow> jval \<Rightarrow> string list" where
  "given_values w v =
     (case w of
        TextW t \<Rightarrow> [js_text v]
      | NumberW t \<Rightarrow> [number_parse (nb_opts t) (js_text v)]
      | ComboW c \<Rightarrow> if cb_multiple c then split_values (cb_separator c) v else [js_text v]
      | BoxW c \<Rightarrow> if cb_multiple c then split_values (cb_separator c) v else [js_text v])"

definition given_entries :: "jval \<Rightarrow> form_item \<Rightarrow> (string \<times> string) list" where
  "given_entries v it =
     (case it of
        Native e \<Rightarrow>
          if el_disabled e \<or> el_name e = '''' then []
          else if is_box e then (if box_holds v it then [(el_name e, el_value e)] else [])
          else if el_kind e = SelectBox
               then (case find (\<lambda>x. x \<in> set (js_values v)) (el_options e) of None \<Rightarrow> [] | Some x \<Rightarrow> [(el_name e, x)])
          else [(el_name e, js_text v)]
      | Field n w b \<Rightarrow> if widget_disabled w \<or> n = '''' then [] else map (Pair n) (given_values w v))"

definition loaded_entries :: "(string \<times> jval) list \<Rightarrow> form_item \<Rightarrow> (string \<times> string) list" where
  "loaded_entries d it = (case map_of d (item_name it) of None \<Rightarrow> item_entries it | Some v \<Rightarrow> given_entries v it)"

text \<open>
  Forms whose names are used well: items of one name are all boxes, radio buttons with different
  values, or all plain elements; a field has a name of its own, and its widget is found by its type.
\<close>

definition beside :: "form_item \<Rightarrow> form_item \<Rightarrow> bool" where
  "beside a b =
     (item_name a \<noteq> item_name b \<or>
      (case (a, b) of
         (Native d, Native e) \<Rightarrow> is_box d = is_box e \<and> \<not> (el_kind d = RadioInput \<and> el_kind e = RadioInput \<and> el_value d = el_value e)
       | _ \<Rightarrow> False))"

definition widget_ready :: "string list \<Rightarrow> widget \<Rightarrow> bool" where
  "widget_ready types w =
     (find (\<lambda>ty. ty \<in> set (layers w)) types = Some (hd (layers w)) \<and>
      (case w of TextW t \<Rightarrow> length (tb_hidden t) = 1 | NumberW t \<Rightarrow> length (tb_hidden t) = 1 | _ \<Rightarrow> True))"

definition item_ready :: "string list \<Rightarrow> form_item \<Rightarrow> bool" where
  "item_ready types it = (case it of Native e \<Rightarrow> True | Field n w b \<Rightarrow> widget_ready types w)"

definition names_used_well :: "string list \<Rightarrow> form_item list \<Rightarrow> bool" where
  "names_used_well types its = (sorted_wrt beside its \<and> list_all (item_ready types) its)"

text \<open>A group of radio buttons is given one value.\<close>

definition data_fits :: "form_item list \<Rightarrow> (string \<times> jval) list \<Rightarrow> bool" where
  "data_fits its d = list_all (\<lambda>p. case snd p of JText s \<Rightarrow> True | JTexts vs \<Rightarrow> \<not> list_ex (radio_named (fst p)) its) d"

lemma beside_sym: "beside a b \<Longrightarrow> beside b a"
  by (auto simp: beside_def split: form_item.splits)

lemma beside_nth:
  assumes "sorted_wrt beside its" "i < length its" "j < length its" "i \<noteq> j"
  shows "beside (its ! i) (its ! j)"
  using assms sorted_wrt_nth_less [of beside its i j] sorted_wrt_nth_less [of beside its j i] beside_sym
  by (cases "i < j") auto

text \<open>What loading keeps of an item\<close>

definition keeps :: "string list \<Rightarrow> form_item \<Rightarrow> form_item \<Rightarrow> bool" where
  "keeps types a b =
     (case (a, b) of
        (Native d, Native e) \<Rightarrow> el_kind e = el_kind d \<and> el_name e = el_name d \<and> el_options e = el_options d \<and>
          el_disabled e = el_disabled d \<and> (is_box d \<longrightarrow> el_value e = el_value d)
      | (Field n w x, Field m u y) \<Rightarrow> m = n \<and> widget_disabled u = widget_disabled w \<and> given_values u = given_values w \<and>
          (widget_ready types w \<longrightarrow> widget_ready types u)
      | _ \<Rightarrow> False)"

lemma keeps_refl: "keeps types a a"
  by (simp add: keeps_def split: form_item.split)

lemma keeps_name: "keeps types a b \<Longrightarrow> item_name b = item_name a"
  by (auto simp: keeps_def item_name_def split: form_item.splits)

lemma keeps_radio: "keeps types a b \<Longrightarrow> radio_named n b = radio_named n a"
  by (auto simp: keeps_def radio_named_def split: form_item.splits)

lemma keeps_given: "keeps types a b \<Longrightarrow> given_entries v b = given_entries v a"
proof (cases a; cases b)
  fix d e assume k: "keeps types a b" and n: "a = Native d" "b = Native e"
  then have b: "is_box e = is_box d" by (simp add: keeps_def is_box_def)
  show ?thesis using k n b by (cases "is_box d") (simp_all add: keeps_def given_entries_def box_holds_def cong: option.case_cong)
qed (simp_all add: keeps_def given_entries_def)

lemma keeps_ready: "keeps types a b \<Longrightarrow> item_ready types a \<Longrightarrow> item_ready types b"
  by (auto simp: keeps_def item_ready_def split: form_item.splits)

lemma keeps_beside: "keeps types a a' \<Longrightarrow> keeps types b b' \<Longrightarrow> beside a b \<Longrightarrow> beside a' b'"
  by (auto simp: keeps_def beside_def is_box_def item_name_def split: form_item.splits)

lemma keeps_well:
  assumes "list_all2 (keeps types) its its'" "names_used_well types its"
  shows "names_used_well types its'"
proof -
  have l: "length its' = length its" using assms(1) list_all2_lengthD by metis
  have k: "keeps types (its ! i) (its' ! i)" if "i < length its" for i using assms(1) that l by (simp add: list_all2_conv_all_nth)
  have "beside (its' ! i) (its' ! j)" if "i < j" "j < length its'" for i j
    using that l assms(2) keeps_beside [OF k k] by (simp add: names_used_well_def sorted_wrt_iff_nth_less)
  moreover have "item_ready types (its' ! i)" if "i < length its'" for i
    using that l assms(2) keeps_ready [OF k] by (simp add: names_used_well_def list_all_length)
  ultimately show ?thesis by (simp add: names_used_well_def sorted_wrt_iff_nth_less list_all_length)
qed

text \<open>The widgets: each layer takes the value.\<close>

lemma text_field_frame [simp]:
  "tb_disabled (set_text s t) = tb_disabled t" "tb_disabled (init_value s t) = tb_disabled t"
  "tb_disabled (set_value s t) = tb_disabled t" "tb_hidden (set_value s t) = map (\<lambda>h. s) (tb_hidden t)"
  by (simp_all add: set_text_def init_value_def set_value_def Let_def field_note_def)

lemma put_number_frame:
  assumes "put_number v t = Some t'"
  shows "tb_hidden t' = map (\<lambda>h. v) (tb_hidden t) \<and> tb_disabled t' = tb_disabled t \<and> nb_opts t' = nb_opts t"
proof -
  have "nb_opts (set_text s x) = nb_opts x" "nb_opts (set_value s x) = nb_opts x" for s and x :: numberbox
    by (simp_all add: set_text_def init_value_def set_value_def Let_def field_note_def)
  with assms show ?thesis by (auto simp: put_number_def Let_def split: option.splits)
qed

lemma combo_frame [simp]:
  "tb_hidden (set_values vs c) = vs" "tb_disabled (set_values vs c) = tb_disabled c"
  "cb_multiple (set_values vs c) = cb_multiple c" "cb_separator (set_values vs c) = cb_separator c"
  "tb_disabled (combo_set_text s c) = tb_disabled c" "cb_separator (combo_set_text s c) = cb_separator c"
  "cb_multiple (combo_set_text s c) = cb_multiple c"
  by (simp_all add: set_values_def combo_set_text_def set_text_def Let_def field_note_def)

lemma box_set_frame:
  "tb_hidden (box_set_values vs remain c) = vs \<and> tb_disabled (box_set_values vs remain c) = tb_disabled c \<and>
   cb_separator (box_set_values vs remain c) = cb_separator c \<and> cb_multiple (box_set_values vs remain c) = cb_multiple c"
proof -
  have i: "tb_disabled (item_of_value v f u) = tb_disabled u" for v f and u :: combobox
    by (simp add: item_of_value_def change_item_def split: option.split)
  have d: "tb_disabled (fold (\<lambda>v. item_of_value v (\<lambda>t. t\<lparr>bi_selected := True\<rparr>)) ws u) = tb_disabled u \<and>
      cb_separator (fold (\<lambda>v. item_of_value v (\<lambda>t. t\<lparr>bi_selected := True\<rparr>)) ws u) = cb_separator u" for ws u
    by (induction ws arbitrary: u) (simp_all add: i)
  show ?thesis by (simp add: multiple_frame) (simp add: box_set_values_def Let_def d change_items_def)
qed

lemma call_gives:
  assumes "(if is_multiple w then call_set_values (hd (layers w)) v w else call_set (hd (layers w)) v w) = Some u"
    "widget_ready types w"
  shows "hidden_values u = given_values w v \<and> widget_disabled u = widget_disabled w \<and> given_values u = given_values w \<and> widget_ready types u"
proof (cases w)
  case (TextW t)
  with assms show ?thesis
    by (cases "tb_hidden t")
      (auto simp: is_multiple_def layers_def call_set_def hidden_values_def given_values_def widget_disabled_def widget_ready_def)
next
  case (NumberW t)
  then obtain t' where t': "u = NumberW t'" "number_set (js_text v) t = Some t'"
    using assms(1) by (auto simp: is_multiple_def layers_def call_set_def)
  from put_number_frame [OF t'(2) [unfolded number_set_def]] t'(1) NumberW assms(2) show ?thesis
    by (cases "tb_hidden t") (auto simp: hidden_values_def given_values_def widget_disabled_def widget_ready_def layers_def)
next
  case (ComboW c)
  with assms show ?thesis
    by (auto simp: is_multiple_def layers_def call_set_def call_set_values_def hidden_values_def given_values_def fun_eq_iff
      widget_disabled_def widget_ready_def combo_set_value_def split: if_splits)
next
  case (BoxW c)
  with assms show ?thesis
    by (auto simp: is_multiple_def layers_def call_set_def call_set_values_def hidden_values_def given_values_def fun_eq_iff
      widget_disabled_def widget_ready_def box_set_frame split: if_splits)
qed

text \<open>One name: every item of it gets the value, the others stay.\<close>

definition filled :: "string list \<Rightarrow> string \<Rightarrow> jval \<Rightarrow> form_item \<Rightarrow> form_item \<Rightarrow> bool" where
  "filled types n v a b =
     (keeps types a b \<and> (item_name a \<noteq> n \<longrightarrow> b = a) \<and> (item_name a = n \<longrightarrow> item_entries b = given_entries v a))"

lemma set_checked_facts [simp]:
  "item_name (set_checked x it) = item_name it" "box_named n (set_checked x it) = box_named n it"
  "box_holds v (set_checked x it) = box_holds v it" "radio_named n (set_checked x it) = radio_named n it"
  "set_checked x (set_checked y it) = set_checked x it"
  by (simp_all add: item_name_def set_checked_def box_named_def box_holds_def radio_named_def is_box_def split: form_item.split)

lemma check_boxes_map:
  assumes "sorted_wrt beside its" and single: "list_ex (radio_named n) its \<Longrightarrow> \<exists>s. v = JText s"
  shows "check_boxes n v its = map (\<lambda>it. if box_named n it then set_checked (box_holds v it) it else it) its"
proof -
  define st where "st k = map (\<lambda>j. if box_named n (its ! j) then set_checked (j < k \<and> box_holds v (its ! j)) (its ! j) else its ! j) [0..<length its]" for k
  define step where "step xs i = (if box_named n (xs ! i) \<and> box_holds v (xs ! i) then check_item i xs else xs)" for xs i
  have nth: "st k ! j = (if box_named n (its ! j) then set_checked (j < k \<and> box_holds v (its ! j)) (its ! j) else its ! j)"
    if "j < length its" for k j using that by (simp add: st_def)
  have len: "length (st k) = length its" for k by (simp add: st_def)
  have more: "st (Suc k) ! j = (if j = k then (if box_named n (its ! k) then set_checked (box_holds v (its ! k)) (its ! k) else its ! k) else st k ! j)"
    if "j < length its" "k < length its" for k j
    using that by (auto simp: nth less_Suc_eq)
  have one: "step (st k) k = st (Suc k)" if k: "k < length its" for k
  proof (cases "box_named n (its ! k) \<and> box_holds v (its ! k)")
    case False
    then have "step (st k) k = st k" using k by (auto simp: step_def nth)
    moreover have "st k ! j = st (Suc k) ! j" if "j < length its" for j
      using False that k by (cases "j = k") (auto simp: nth less_Suc_eq)
    ultimately show ?thesis using len by (intro nth_equalityI) simp_all
  next
    case True
    then have bn: "box_named n (st k ! k)" "box_holds v (st k ! k)" using k by (simp_all add: nth)
    then have n: "item_name (st k ! k) = n" by (auto simp: box_named_def item_name_def split: form_item.splits)
    have other: "set_checked False (st k ! j) = st k ! j"
      if j: "j < length its" "j \<noteq> k" and r: "radio_named n (its ! j)" "radio_named n (its ! k)" for j
    proof -
      have "\<not> (j < k \<and> box_holds v (its ! j))"
      proof
        assume h: "j < k \<and> box_holds v (its ! j)"
        have "list_ex (radio_named n) its" using j r unfolding list_ex_length by blast
        then obtain s where s: "v = JText s" using single by blast
        have "beside (its ! j) (its ! k)" using assms(1) j k h by (simp add: sorted_wrt_iff_nth_less)
        with r h True s show False
          by (auto simp: beside_def radio_named_def box_holds_def js_text_def js_values_def item_name_def split: form_item.splits)
      qed
      then show ?thesis using j r nth [of j k] by (auto simp: box_named_def radio_named_def is_box_def split: form_item.splits)
    qed
    have rn: "radio_named n (st k ! j) = radio_named n (its ! j)" if "j < length its" for j using that by (simp add: nth)
    have "check_item k (st k) ! j = st (Suc k) ! j" if j: "j < length its" for j
    proof (cases "j = k")
      case True
      then show ?thesis using k n \<open>box_named n (its ! k) \<and> box_holds v (its ! k)\<close>
        by (simp add: check_item_def Let_def nth_map_at len more) (simp add: nth)
    next
      case False
      then have "check_item k (st k) ! j = st k ! j"
        using j k n other [OF j False] by (auto simp: check_item_def Let_def nth_map_at len rn)
      then show ?thesis using more [OF j k] False by simp
    qed
    moreover have "length (check_item k (st k)) = length its" by (simp add: check_item_def Let_def len)
    ultimately have "check_item k (st k) = st (Suc k)" by (intro nth_equalityI) (simp_all add: len)
    then show ?thesis using bn by (simp add: step_def)
  qed
  have "foldl step (st 0) [0..<k] = st k" if "k \<le> length its" for k
    using that by (induction k) (simp_all add: one)
  moreover have "st 0 = map (\<lambda>it. if box_named n it then set_checked False it else it) its"
    by (intro nth_equalityI) (simp_all add: len nth)
  moreover have "st (length its) = map (\<lambda>it. if box_named n it then set_checked (box_holds v it) it else it) its"
    by (intro nth_equalityI) (simp_all add: len nth)
  ultimately show ?thesis by (simp add: check_boxes_def step_def [abs_def])
qed

lemma boxes_filled:
  assumes "names_used_well types its" "list_ex (box_named n) its" "list_ex (radio_named n) its \<Longrightarrow> \<exists>s. v = JText s"
  shows "list_all2 (filled types n v) its (check_boxes n v its)"
proof -
  obtain b where b: "b < length its" "box_named n (its ! b)" using assms(2) by (auto simp: list_ex_length)
  have w: "sorted_wrt beside its" using assms(1) by (simp add: names_used_well_def)
  have "box_named n (its ! i)" if i: "i < length its" "item_name (its ! i) = n" for i
    using beside_nth [OF w i(1) b(1)] b i
    by (cases "i = b") (auto simp: beside_def box_named_def item_name_def is_box_def split: form_item.splits)
  moreover have m: "check_boxes n v its = map (\<lambda>it. if box_named n it then set_checked (box_holds v it) it else it) its"
    by (rule check_boxes_map [OF w]) (rule assms(3))
  moreover have "filled types n v it (set_checked (box_holds v it) it)" if "box_named n it" for it
    using that by (cases it)
      (auto simp: filled_def keeps_def set_checked_def box_named_def item_name_def item_entries_def elem_entries_def given_entries_def is_box_def
        box_holds_def split: elem_kind.split)
  ultimately show ?thesis
    unfolding m list_all2_conv_all_nth by (auto simp: filled_def keeps_refl)
qed

lemma those_all2: "those xs = Some ys \<Longrightarrow> list_all2 (\<lambda>x y. x = Some y) xs ys"
  by (induction xs arbitrary: ys) (auto split: option.splits)

lemma map_items_all2: "map_items g its = Some its' \<Longrightarrow> list_all2 (\<lambda>a b. g a = Some b) its its'"
  by (drule those_all2 [of "map g its" its', folded map_items_def]) (simp add: list_all2_map1)

lemma fields_filled:
  assumes "names_used_well types its" "field_layer types n its = Some (ty, multi)" "map_items (fill_field ty multi n v) its = Some its'"
  shows "list_all2 (filled types n v) its its'"
proof -
  obtain m w b where f: "find (field_named n) its = Some (Field m w b)" "find (\<lambda>ty. ty \<in> set (layers w)) types = Some ty" "multi = is_multiple w"
    using assms(2) by (auto simp: field_layer_def split: option.splits form_item.splits)
  then obtain k where k: "k < length its" "Field m w b = its ! k" "field_named n (its ! k)"
    unfolding find_Some_iff by blast
  then have k: "k < length its" "its ! k = Field m w b" "m = n" by (auto simp: field_named_def split: form_item.splits)
  have r: "widget_ready types w" "ty = hd (layers w)"
    using assms(1) k f(2) by (auto simp: names_used_well_def list_all_length item_ready_def widget_ready_def dest!: spec [of _ k])
  have only: "i = k" if "i < length its" "item_name (its ! i) = n" for i
    using that beside_nth [OF _ that(1) k(1)] assms(1) k(2,3)
    by (auto simp: names_used_well_def beside_def item_name_def split: form_item.splits)
  have all: "list_all2 (\<lambda>x y. fill_field ty multi n v x = Some y) its its'" by (rule map_items_all2 [OF assms(3)])
  have "filled types n v (its ! i) (its' ! i)" if i: "i < length its" for i
  proof (cases "item_name (its ! i) = n")
    case False
    then show ?thesis using list_all2_nthD [OF all i]
      by (auto simp: filled_def keeps_refl fill_field_def item_name_def split: form_item.splits if_splits)
  next
    case True
    then have "i = k" using only i by blast
    then have "map_option (\<lambda>u. Field n u b) (if multi then call_set_values ty v w else call_set ty v w) = Some (its' ! i)"
      using list_all2_nthD [OF all i] k by (simp add: fill_field_def)
    then obtain u where u: "Field n u b = its' ! i" "(if multi then call_set_values ty v w else call_set ty v w) = Some u"
      unfolding map_option_eq_Some by blast
    have "its' ! k = Field n u b" using u(1) \<open>i = k\<close> by simp
    with call_gives [OF u(2) [unfolded f(3) r(2)] r(1)] \<open>i = k\<close> k show ?thesis
      by (auto simp: filled_def keeps_def item_name_def item_entries_def given_entries_def)
  qed
  then show ?thesis using all by (simp add: list_all2_conv_all_nth)
qed

lemma find_of_index: "find P xs = map_option (nth xs) (find_index P xs)"
  by (induction xs) (auto simp: option.map_comp comp_def)

lemma natives_filled:
  assumes "names_used_well types its" "\<not> list_ex (box_named n) its" "field_layer types n its = None" "map_items (fill_native n v) its = Some its'"
  shows "list_all2 (filled types n v) its its'"
proof -
  have all: "list_all2 (\<lambda>x y. fill_native n v x = Some y) its its'" by (rule map_items_all2 [OF assms(4)])
  have nf: "\<not> field_named n it" if i: "it \<in> set its" for it
  proof
    assume "field_named n it"
    then obtain x where x: "find (field_named n) its = Some x" using i by (cases "find (field_named n) its") (auto simp: find_None_iff)
    then have "x \<in> set its" "field_named n x" by (auto simp: find_Some_iff)
    with x assms(1,3) show False
      by (cases x) (auto simp: field_layer_def field_named_def names_used_well_def list_all_iff item_ready_def widget_ready_def)
  qed
  have "filled types n v a b" if a: "a \<in> set its" "fill_native n v a = Some b" for a b
  proof (cases a)
    case (Native e)
    then have "el_name e = n \<Longrightarrow> \<not> is_box e" using assms(2) a(1) by (auto simp: list_ex_iff box_named_def)
    moreover have "i < length xs" if "find_index P xs = Some i" for P i and xs :: "string list"
      using that find_index_Some by blast
    ultimately show ?thesis using a(2) Native
      by (cases "el_kind e")
        (auto simp: filled_def keeps_refl keeps_def fill_native_def fill_elem_def item_name_def item_entries_def elem_entries_def
          given_entries_def is_box_def find_of_index split: if_splits option.splits)
  next
    case (Field m w x)
    then show ?thesis using a nf [OF a(1)] by (auto simp: filled_def keeps_refl fill_native_def field_named_def item_name_def)
  qed
  with all show ?thesis by (auto simp: list_all2_conv_all_nth)
qed

lemma name_filled:
  assumes "names_used_well types its" "data_fits its [p]" "fill_name types p its = Some its'"
  shows "list_all2 (filled types (fst p) (snd p)) its its'"
proof (cases "list_ex (box_named (fst p)) its")
  case True
  have "\<exists>s. snd p = JText s" if "list_ex (radio_named (fst p)) its" using that assms(2) by (cases "snd p") (simp_all add: data_fits_def)
  from boxes_filled [OF assms(1) True this] True assms(3) show ?thesis by (simp add: fill_name_def)
next
  case False
  show ?thesis
  proof (cases "field_layer types (fst p) its")
    case None
    then show ?thesis using natives_filled [OF assms(1) False None] False assms(3) by (simp add: fill_name_def)
  next
    case (Some q)
    then show ?thesis using fields_filled [OF assms(1), of "fst p" "fst q" "snd q" "snd p" its'] False assms(3)
      by (simp add: fill_name_def split: prod.splits)
  qed
qed

lemma names_filled:
  assumes "names_used_well types its" "data_fits its d" "distinct (map fst d)" "fill_names types d its = Some its'"
  shows "map item_entries its' = map (loaded_entries d) its"
  using assms
proof (induction d arbitrary: its)
  case Nil
  then show ?case by (simp add: loaded_entries_def)
next
  case (Cons p d)
  from Cons.prems(4) obtain mid where mid: "fill_name types p its = Some mid" "fill_names types d mid = Some its'"
    by (auto simp: Option.bind_eq_Some_conv)
  have f: "list_all2 (filled types (fst p) (snd p)) its mid"
    using name_filled [OF Cons.prems(1) _ mid(1)] Cons.prems(2) by (simp add: data_fits_def)
  have k: "list_all2 (keeps types) its mid" using f by (rule list_all2_mono) (simp add: filled_def)
  have "list_ex (radio_named n) mid = list_ex (radio_named n) its" for n
    using k keeps_radio by (induction rule: list_all2_induct) auto
  then have fits: "data_fits mid d" using Cons.prems(2) by (simp add: data_fits_def cong: jval.case_cong)
  have "map item_entries its' = map (loaded_entries d) mid"
    using Cons.IH [OF keeps_well [OF k Cons.prems(1)] fits _ mid(2)] Cons.prems(3) by simp
  also have "... = map (loaded_entries (p # d)) its"
    using f
  proof (induction rule: list_all2_induct)
    case (Cons a as b bs)
    have "fst p \<notin> dom (map_of d)" using \<open>distinct (map fst (p # d))\<close> by (simp add: dom_map_of_conv_image_fst)
    then have "map_of d (fst p) = None" by blast
    moreover have "item_name b = item_name a" "given_entries u b = given_entries u a" for u
      using Cons(1) keeps_name [of types a b] keeps_given [of types a b] by (simp_all add: filled_def)
    ultimately have "loaded_entries d b = loaded_entries (p # d) a"
      using Cons(1) by (cases "item_name a = fst p") (simp_all add: filled_def loaded_entries_def)
    with Cons show ?case by simp
  qed simp
  finally show ?case .
qed

lemma revalidate_entries:
  assumes "revalidate f = Some f'"
  shows "form_entries f' = form_entries f"
proof -
  obtain its where its: "map_items validate_item (fm_items f) = Some its" "fm_items f' = its"
    using assms by (auto simp: revalidate_def validate_form_def Let_def form_note_def split: option.splits)
  have "item_entries b = item_entries a" if "validate_item a = Some b" for a b
    using that by (auto simp: validate_item_def item_entries_def split: form_item.splits if_splits)
  with map_items_all2 [OF its(1)] have "map item_entries its = map item_entries (fm_items f)"
    by (induction rule: list_all2_induct) auto
  then show ?thesis by (simp add: form_entries_def its(2))
qed

text \<open>
  C37. What is loaded into a form is what the form submits: after loading, each item submits what the
  data give its name, in its own way (a box its value if it is among those given, a list the option
  that is given, a number box the number, a field with several values the list), and an item the data
  do not name submits what it did before.
\<close>

theorem load_then_submit:
  assumes "names_used_well (fm_types f) (fm_items f)" "data_fits (fm_items f) d" "distinct (map fst d)" "load_fields d f = Some f'"
  shows "form_entries f' = concat (map (loaded_entries d) (fm_items f))"
proof -
  obtain its where its: "fill_names (fm_types f) d (fm_items f) = Some its"
    "revalidate (form_note (LoadSuccess d) (f\<lparr>fm_items := its\<rparr>)) = Some f'"
    using assms(4) by (auto simp: load_fields_def split: option.splits)
  from names_filled [OF assms(1-3) its(1)] revalidate_entries [OF its(2)] show ?thesis
    by (simp add: form_entries_def form_note_def)
qed

definition sample_elem :: "elem_kind \<Rightarrow> string \<Rightarrow> string \<Rightarrow> elem" where
  "sample_elem k n v =
     \<lparr>el_kind = k, el_name = n, el_value = v, el_checked = False, el_options = [''de'', ''fr''], el_picked = Some 0, el_default = v,
      el_default_checked = False, el_default_picked = Some 0, el_disabled = False\<rparr>"

definition sample_form :: form where
  "sample_form =
     \<lparr>fm_items = [Native (sample_elem TextInput ''first'' ''''), Field ''last'' (TextW (start_field '''' ''name'' '''')) plain_box,
        Native (sample_elem CheckInput ''tags'' ''a''), Native (sample_elem CheckInput ''tags'' ''b''),
        Native (sample_elem RadioInput ''sex'' ''f''), Native (sample_elem RadioInput ''sex'' ''m''),
        Native (sample_elem SelectBox ''lang'' ''''), Field ''cities'' (ComboW (combo_of (start_field '''' '''' '''') True)) plain_box,
        Native (sample_elem TextInput ''note'' ''kept'')],
      fm_types = field_types, fm_novalidate = False, fm_log = []\<rparr>"

definition sample_data :: "(string \<times> jval) list" where
  "sample_data = [(''sex'', JText ''m''), (''tags'', JTexts [''b'']), (''last'', JText ''Li''), (''lang'', JText ''fr''),
     (''first'', JText ''Ann''), (''cities'', JText ''1,2'')]"

theorem load_then_submit_witness:
  "\<exists>f'. load_fields sample_data sample_form = Some f' \<and>
     form_entries f' = [(''first'', ''Ann''), (''last'', ''Li''), (''tags'', ''b''), (''sex'', ''m''), (''lang'', ''fr''),
       (''cities'', ''1''), (''cities'', ''2''), (''note'', ''kept'')]"
proof -
  have "load_fields sample_data sample_form \<noteq> None" by code_simp
  then obtain f' where f': "load_fields sample_data sample_form = Some f'" by blast
  have "names_used_well (fm_types sample_form) (fm_items sample_form)" "data_fits (fm_items sample_form) sample_data" by code_simp+
  moreover have "distinct (map fst sample_data)" by code_simp
  moreover have "concat (map (loaded_entries sample_data) (fm_items sample_form)) =
      [(''first'', ''Ann''), (''last'', ''Li''), (''tags'', ''b''), (''sex'', ''m''), (''lang'', ''fr''),
       (''cities'', ''1''), (''cities'', ''2''), (''note'', ''kept'')]" by code_simp
  ultimately show ?thesis using load_then_submit [OF _ _ _ f'] f' by simp
qed

section \<open>What clearing does\<close>

text \<open>
  A cleared form submits nothing but empty texts, apart from inputs of types the loop does not know,
  whatever the option \<open>fieldTypes\<close> is, as long as the widgets do return.
\<close>

definition nothing_in :: "form_item \<Rightarrow> bool" where
  "nothing_in it =
     (case it of Native e \<Rightarrow> el_kind e = OtherInput \<or> list_all (\<lambda>p. snd p = '''') (elem_entries e)
      | Field n w b \<Rightarrow> list_all (\<lambda>v. v = '''') (hidden_values w))"

lemma blank_nothing: "nothing_in (blank_item it)"
  by (cases it)
    (auto simp: nothing_in_def blank_item_def blank_elem_def elem_entries_def hidden_values_def blank_inputs_def list_all_iff
      split: elem_kind.split widget.split)

lemma clear_frame [simp]:
  "tb_hidden (clear_text t) = map (\<lambda>h. '''') (tb_hidden t)"
  "tb_hidden (combo_clear c) = (if cb_multiple c then [] else [''''])"
  by (simp_all add: clear_text_def combo_clear_def Let_def combo_set_value_def) (simp_all add: set_text_def Let_def)

lemma call_clear_nothing:
  assumes "call_clear ty w = Some u" "list_all (\<lambda>v. v = '''') (hidden_values w)"
  shows "list_all (\<lambda>v. v = '''') (hidden_values u)"
proof -
  have "tb_hidden (box_clear c) = tb_hidden (combo_clear c)" for c by (simp add: box_clear_def change_items_def)
  moreover have "tb_hidden (number_clear t) = tb_hidden (clear_text t)" for t by (simp add: number_clear_def)
  ultimately show ?thesis using assms
    by (cases w) (auto simp: call_clear_def hidden_values_def list_all_iff split: if_splits)
qed

lemma call_layers_all:
  assumes "call_layers call tys its = Some its'" "list_all P its"
    and "\<And>ty n w b u. P (Field n w b) \<Longrightarrow> call ty w = Some u \<Longrightarrow> P (Field n u b)"
  shows "list_all P its'"
  using assms(1,2)
proof (induction tys arbitrary: its)
  case (Cons ty tys)
  from Cons.prems(1) obtain mid where mid: "map_items (on_widget (call ty)) its = Some mid" "call_layers call tys mid = Some its'"
    by (auto simp: Option.bind_eq_Some_conv)
  have "list_all P mid"
    using map_items_all2 [OF mid(1)] Cons.prems(2)
  proof (induction rule: list_all2_induct)
    case (Cons a as b bs)
    then show ?case using assms(3) by (cases a) (auto simp: on_widget_def)
  qed simp
  from Cons.IH [OF mid(2) this] show ?case .
qed simp

theorem clear_submits_nothing:
  assumes "clear_form f = Some f'" "list_all (\<lambda>it. case it of Native e \<Rightarrow> el_kind e \<noteq> OtherInput | Field n w b \<Rightarrow> True) (fm_items f)"
  shows "\<forall>p \<in> set (form_entries f'). snd p = ''''"
proof -
  obtain its where its: "call_layers call_clear (rev (fm_types f)) (map blank_item (fm_items f)) = Some its" "revalidate (f\<lparr>fm_items := its\<rparr>) = Some f'"
    using assms(1) by (auto simp: clear_form_def Option.bind_eq_Some_conv)
  define P where "P it = (nothing_in it \<and> (case it of Native e \<Rightarrow> el_kind e \<noteq> OtherInput | Field n w b \<Rightarrow> True))" for it
  have "list_all P (map blank_item (fm_items f))"
    using assms(2) blank_nothing
    by (auto simp: P_def list_all_iff blank_item_def blank_elem_def split: form_item.splits elem_kind.splits)
  then have "list_all P its"
    by (rule call_layers_all [OF its(1)]) (auto simp: P_def nothing_in_def dest: call_clear_nothing)
  then have "\<forall>it \<in> set its. \<forall>p \<in> set (item_entries it). snd p = ''''"
    by (auto simp: P_def nothing_in_def item_entries_def list_all_iff split: form_item.splits)
  then show ?thesis using revalidate_entries [OF its(2)] by (auto simp: form_entries_def)
qed

text \<open>
  The loop over the inputs empties the hidden input of a text box before the text box is cleared, so
  the text box sees no change and does not report one; its own \<open>clear\<close> does.
\<close>

theorem clear_reports_nothing:
  assumes "tb_hidden t = [v]" "v \<noteq> ''''"
  shows "call_clear ''textbox'' (TextW (blank_inputs t)) = Some (TextW (init_value '''' (blank_inputs t)))"
    and "clear_text t = field_note (TextChange '''' v) (init_value '''' t)"
  using assms by (simp_all add: call_clear_def layers_def clear_text_def set_value_def get_value_def blank_inputs_def Let_def)

text \<open>A disabled box that is marked invalid keeps the form from being valid, though nothing validates it.\<close>

theorem disabled_invalid_blocks:
  assumes "validate_form f = Some (ok, f')" "Field n w b \<in> set (fm_items f)" "widget_disabled w" "vb_invalid b"
  shows "\<not> ok"
proof -
  obtain its where its: "map_items validate_item (fm_items f) = Some its" "ok = (\<not> list_ex item_invalid its)"
    using assms(1) by (auto simp: validate_form_def Let_def split: option.splits)
  obtain i where i: "i < length (fm_items f)" "fm_items f ! i = Field n w b" using assms(2) by (auto simp: in_set_conv_nth)
  have all: "list_all2 (\<lambda>x y. validate_item x = Some y) (fm_items f) its" by (rule map_items_all2 [OF its(1)])
  have "its ! i = Field n w b" using list_all2_nthD [OF all i(1)] i(2) assms(3) by (simp add: validate_item_def)
  then have "list_ex item_invalid its" using i(1) list_all2_lengthD [OF all] assms(4)
    by (auto simp: list_ex_length item_invalid_def)
  with its(2) show ?thesis by simp
qed

end
