(* ===== verification/FormSubmit.thy ===== *)
theory FormSubmit
  imports Form
begin

text \<open>
  \<open>plugins/jquery.form.js\<close>, the submission: a form is posted into an inner frame made for it, whose
  document is read when it is loaded, again every 100 ms while it is empty, and handed to the callback
  \<open>success\<close>. The events of a frame (its \<open>load\<close>, the three kinds of timers) come in any order the
  browser allows, with the document as it is at that moment; an event that cannot happen is \<open>None\<close>.
\<close>

section \<open>The frame of a submission\<close>

text \<open>
  The document of a frame: one of another host cannot be read. Of the body, the code reads its text,
  a text area directly in it, and a preformatted element directly in it.
\<close>

datatype document = NoAccess | Body string "string option" "string option"

datatype ready_state = Uninitialized | OtherState

record frame =
  fr_there :: bool
  fr_bound :: bool
  fr_tries :: int
  fr_polls :: nat
  fr_waits :: nat
  fr_removals :: nat
  fr_answers :: "string list"

definition new_frame :: frame where
  "new_frame = \<lparr>fr_there = True, fr_bound = True, fr_tries = 10, fr_polls = 0, fr_waits = 0, fr_removals = 0, fr_answers = []\<rparr>"

definition answer :: "string \<Rightarrow> frame \<Rightarrow> frame" where
  "answer s fr = fr\<lparr>fr_answers := fr_answers fr @ [s], fr_removals := fr_removals fr + 1\<rparr>"

text \<open>\<open>cb\<close>\<close>

definition read_frame :: "document \<Rightarrow> frame \<Rightarrow> frame" where
  "read_frame d fr0 =
     (if \<not> fr_there fr0 then fr0
      else let fr = fr0\<lparr>fr_bound := False\<rparr>
           in case d of
                NoAccess \<Rightarrow> answer '''' fr
              | Body h ta pre \<Rightarrow>
                  let fr1 = (if h = '''' then fr\<lparr>fr_tries := fr_tries fr - 1\<rparr> else fr)
                  in if h = '''' \<and> fr_tries fr1 \<noteq> 0 then fr1\<lparr>fr_polls := fr_polls fr1 + 1\<rparr>
                     else answer (case ta of Some s \<Rightarrow> s | None \<Rightarrow> (case pre of Some s \<Rightarrow> s | None \<Rightarrow> h)) fr1)"

text \<open>\<open>_d\<close>: reading the state of the document of another host raises, and counts as its load.\<close>

definition wait_frame :: "ready_state \<Rightarrow> document \<Rightarrow> frame \<Rightarrow> frame" where
  "wait_frame s d fr =
     (if \<not> fr_there fr then fr
      else if d = NoAccess then read_frame d fr
      else if s = Uninitialized then fr\<lparr>fr_waits := fr_waits fr + 1\<rparr> else fr)"

text \<open>A submission starts with \<open>_d\<close>, which may leave its timer behind, or take the frame for loaded.\<close>

definition posted_frame :: "ready_state \<Rightarrow> document \<Rightarrow> frame" where
  "posted_frame s d = wait_frame s d new_frame"

datatype frame_event = FrameLoad document | PollFires document | WaitFires ready_state document | RemovalFires

definition frame_step :: "frame \<Rightarrow> frame_event \<Rightarrow> frame option" where
  "frame_step fr e =
     (case e of
        FrameLoad d \<Rightarrow> if fr_there fr then Some (if fr_bound fr then read_frame d fr else fr) else None
      | PollFires d \<Rightarrow> if fr_polls fr = 0 then None else Some (read_frame d (fr\<lparr>fr_polls := fr_polls fr - 1\<rparr>))
      | WaitFires s d \<Rightarrow> if fr_waits fr = 0 then None else Some (wait_frame s d (fr\<lparr>fr_waits := fr_waits fr - 1\<rparr>))
      | RemovalFires \<Rightarrow>
          if fr_removals fr = 0 then None
          else Some (fr\<lparr>fr_removals := fr_removals fr - 1, fr_there := False, fr_bound := False\<rparr>))"

section \<open>Submitting\<close>

record page_form =
  pf_form :: form
  pf_action :: "string option"
  pf_target :: "string option"
  pf_inputs :: "(string \<times> string) list"
  pf_url :: "string option"
  pf_params :: "(string \<times> string) list"
  pf_frames :: "frame list"
  pf_posts :: "(string option \<times> nat \<times> (string \<times> string) list) list"

text \<open>
  \<open>blur()\<close> on the text that has the focus: the handlers of text boxes and number boxes take the text
  as the value; those of combos only keep it as the text.
\<close>

definition blur_widget :: "widget \<Rightarrow> widget option" where
  "blur_widget w =
     (case w of
        TextW t \<Rightarrow> Some (if tb_focus t then TextW (focus_out t) else w)
      | NumberW t \<Rightarrow> if tb_focus t then map_option NumberW (number_blur t) else Some w
      | ComboW c \<Rightarrow> Some (if tb_focus c then ComboW (let c = c\<lparr>tb_focus := False\<rparr> in if handlers_bound c then blur_text c else c) else w)
      | BoxW c \<Rightarrow> Some (if tb_focus c then BoxW (let c = c\<lparr>tb_focus := False\<rparr> in if handlers_bound c then blur_text c else c) else w))"

definition blur_focused :: "form \<Rightarrow> form option" where
  "blur_focused f = map_option (\<lambda>its. f\<lparr>fm_items := its\<rparr>) (map_items (on_widget blur_widget) (fm_items f))"

text \<open>
  \<open>_8\<close>: the form gets the address, the name of the frame as its target and an input for every
  parameter, waits for the frame, is submitted, and has address, target and inputs put back.
  The address put back is read after the new one is set.
\<close>

definition post_form :: "(string \<times> string) list \<Rightarrow> ready_state \<Rightarrow> document \<Rightarrow> page_form \<Rightarrow> page_form" where
  "post_form params s d p0 =
     (let p1 = p0\<lparr>pf_action := (case pf_url p0 of None \<Rightarrow> pf_action p0 | Some u \<Rightarrow> if u = '''' then pf_action p0 else Some u)\<rparr>;
          t = pf_target p1; a = pf_action p1; i = length (pf_frames p1);
          p2 = p1\<lparr>pf_inputs := pf_inputs p1 @ params, pf_frames := pf_frames p1 @ [posted_frame s d]\<rparr>;
          p3 = p2\<lparr>pf_posts := pf_posts p2 @ [(pf_action p2, i, form_entries (pf_form p2) @ pf_inputs p2)]\<rparr>
      in p3\<lparr>pf_action := a, pf_target := (case t of None \<Rightarrow> None | Some x \<Rightarrow> if x = '''' then None else t),
            pf_inputs := pf_inputs p1\<rparr>)"

text \<open>
  \<open>_1\<close>, with the callback \<open>onSubmit\<close>: it may refuse and change the parameters; the default is the
  answer of validating the form.
\<close>

type_synonym submit_hook = "page_form \<Rightarrow> (string \<times> string) list \<Rightarrow> (bool \<times> (string \<times> string) list \<times> page_form) option"

definition validate_hook :: submit_hook where
  "validate_hook p params = map_option (\<lambda>(ok, f). (ok, params, p\<lparr>pf_form := f\<rparr>)) (validate_form (pf_form p))"

definition submit_form :: "submit_hook \<Rightarrow> ready_state \<Rightarrow> document \<Rightarrow> page_form \<Rightarrow> page_form option" where
  "submit_form hook s d p =
     (case hook p (pf_params p) of
        None \<Rightarrow> None
      | Some (ok, params, p) \<Rightarrow>
          if \<not> ok then Some p
          else map_option (\<lambda>f. post_form params s d (p\<lparr>pf_form := f\<rparr>)) (blur_focused (pf_form p)))"

section \<open>One answer for a submission\<close>

definition readable :: "frame_event \<Rightarrow> bool" where
  "readable e = (case e of FrameLoad d \<Rightarrow> d \<noteq> NoAccess | PollFires d \<Rightarrow> d \<noteq> NoAccess | WaitFires s d \<Rightarrow> d \<noteq> NoAccess | RemovalFires \<Rightarrow> True)"

definition is_poll :: "frame_event \<Rightarrow> bool" where
  "is_poll e = (case e of PollFires d \<Rightarrow> True | _ \<Rightarrow> False)"

text \<open>Before the load, between two polls, and after the answer\<close>

definition submission_ok :: "frame \<Rightarrow> bool" where
  "submission_ok fr =
     (if fr_bound fr then fr_there fr \<and> fr_tries fr = 10 \<and> fr_polls fr = 0 \<and> fr_removals fr = 0 \<and> fr_answers fr = []
      else if fr_polls fr \<noteq> 0
           then fr_polls fr = 1 \<and> fr_there fr \<and> 1 \<le> fr_tries fr \<and> fr_tries fr \<le> 9 \<and> fr_removals fr = 0 \<and> fr_answers fr = []
      else length (fr_answers fr) = 1 \<and> fr_removals fr = (if fr_there fr then 1 else 0) \<and> 0 \<le> fr_tries fr \<and> fr_tries fr \<le> 10)"

text \<open>The polls that may still come\<close>

definition polls_left :: "frame \<Rightarrow> int" where
  "polls_left fr = (if fr_bound fr then 9 else if fr_polls fr \<noteq> 0 then fr_tries fr else 0)"

definition readable_step :: "frame \<Rightarrow> frame_event \<Rightarrow> frame option" where
  "readable_step fr e = (if readable e then frame_step fr e else None)"

lemma frame_step_ok:
  assumes "submission_ok fr" "readable_step fr e = Some fr'"
  shows "submission_ok fr' \<and> polls_left fr' \<le> polls_left fr - (if is_poll e then 1 else 0) \<and> 0 \<le> polls_left fr'"
proof (cases e)
  case (FrameLoad d)
  with assms show ?thesis
    by (cases d) (auto simp: readable_step_def frame_step_def readable_def is_poll_def submission_ok_def polls_left_def read_frame_def answer_def
      Let_def split: if_splits)
next
  case (PollFires d)
  with assms show ?thesis
    by (cases d) (auto simp: readable_step_def frame_step_def readable_def is_poll_def submission_ok_def polls_left_def read_frame_def answer_def
      Let_def split: if_splits)
next
  case (WaitFires s d)
  with assms show ?thesis
    by (cases d) (auto simp: readable_step_def frame_step_def readable_def is_poll_def submission_ok_def polls_left_def wait_frame_def
      Let_def split: if_splits)
next
  case RemovalFires
  with assms show ?thesis
    by (auto simp: readable_step_def frame_step_def readable_def is_poll_def submission_ok_def polls_left_def split: if_splits)
qed

interpretation submission: partial_machine readable_step submission_ok
  by unfold_locales (use frame_step_ok in blast)

lemma posted_frame_ok: "submission_ok (posted_frame s d)" "polls_left (posted_frame s d) \<le> 9"
  by (auto simp: posted_frame_def wait_frame_def read_frame_def answer_def submission_ok_def new_frame_def polls_left_def)

text \<open>Of the timers of \<open>_d\<close> there is at most one.\<close>

lemma waits_at_most_one: "fr_waits fr \<le> 1 \<Longrightarrow> frame_step fr e = Some fr' \<Longrightarrow> fr_waits fr' \<le> 1"
  by (cases e) (auto simp: frame_step_def wait_frame_def read_frame_def answer_def Let_def split: if_splits document.splits)

interpretation waiting: partial_machine frame_step "\<lambda>fr. fr_waits fr \<le> 1"
  by unfold_locales (rule waits_at_most_one)

lemma polls_bounded:
  "submission_ok fr \<Longrightarrow> run_events readable_step fr es = Some fr' \<Longrightarrow> int (length (filter is_poll es)) + polls_left fr' \<le> polls_left fr"
proof (induction es arbitrary: fr)
  case (Cons e es)
  then obtain mid where mid: "readable_step fr e = Some mid" "run_events readable_step mid es = Some fr'"
    by (auto split: option.splits)
  from Cons.IH [OF conjunct1 [OF frame_step_ok [OF Cons.prems(1) mid(1)]] mid(2)] frame_step_ok [OF Cons.prems(1) mid(1)]
  show ?case by (auto split: if_splits)
qed simp

lemma polls_left_nonneg: "submission_ok fr \<Longrightarrow> 0 \<le> polls_left fr"
  by (auto simp: submission_ok_def polls_left_def split: if_splits)

lemma readable_run: "list_all readable es \<Longrightarrow> run_events readable_step fr es = run_events frame_step fr es"
  by (induction es arbitrary: fr) (auto simp: readable_step_def split: option.split)

lemma loaded_unbound:
  assumes "run_events frame_step fr es = Some fr'" "FrameLoad d \<in> set es \<or> \<not> fr_bound fr"
  shows "\<not> fr_bound fr'"
  using assms
proof (induction es arbitrary: fr)
  case (Cons e es)
  then obtain mid where mid: "frame_step fr e = Some mid" "run_events frame_step mid es = Some fr'"
    by (auto split: option.splits)
  have "\<not> fr_bound mid" if "e = FrameLoad d \<or> \<not> fr_bound fr"
    using mid(1) that
    by (cases e) (auto simp: frame_step_def read_frame_def wait_frame_def answer_def Let_def split: if_splits document.splits)
  then show ?case using Cons.IH [OF mid(2)] Cons.prems(2) by auto
qed simp

text \<open>
  C38. A submission whose answers can be read is answered once: whatever the frame is like when the
  form is posted, and however its load, the waiting for its document, the polls and the removal
  interleave, the callback \<open>success\<close> is called at most once and the document is read again at most nine
  times, with at most one timer waiting for the document; and when the frame was loaded and no poll and
  no removal is pending any more, \<open>success\<close> was called and the frame is gone.
\<close>

theorem submission_answered_once:
  assumes "run_events frame_step (posted_frame s0 d0) es = Some fr" "list_all readable es"
  shows "length (fr_answers fr) \<le> 1 \<and> length (filter is_poll es) \<le> 9 \<and> fr_waits fr \<le> 1 \<and>
    (FrameLoad d \<in> set es \<and> fr_polls fr = 0 \<and> fr_removals fr = 0 \<longrightarrow> length (fr_answers fr) = 1 \<and> \<not> fr_there fr)"
proof -
  have run: "run_events readable_step (posted_frame s0 d0) es = Some fr" using assms readable_run by simp
  have ok: "submission_ok fr" by (rule submission.inv_run [OF posted_frame_ok(1) run])
  have "int (length (filter is_poll es)) \<le> 9"
    using polls_bounded [OF posted_frame_ok(1) run] polls_left_nonneg [OF ok] posted_frame_ok(2) [of s0 d0] by simp
  moreover have "FrameLoad d \<in> set es \<Longrightarrow> \<not> fr_bound fr" using loaded_unbound [OF assms(1)] by blast
  moreover have "fr_waits fr \<le> 1"
    by (rule waiting.inv_run [OF _ assms(1)]) (auto simp: posted_frame_def wait_frame_def read_frame_def answer_def new_frame_def)
  ultimately show ?thesis using ok by (auto simp: submission_ok_def split: if_splits)
qed

definition late_answer :: "frame_event list" where
  "late_answer = [WaitFires Uninitialized (Body '''' None None), FrameLoad (Body '''' None None), PollFires (Body '''' None None),
     WaitFires OtherState (Body '''' None None), PollFires (Body ''<pre>ok</pre>'' None (Some ''ok'')), RemovalFires]"

theorem submission_answered_once_witness:
  "\<exists>fr. run_events frame_step (posted_frame Uninitialized (Body '''' None None)) late_answer = Some fr
    \<and> length (filter is_poll late_answer) = 2 \<and> fr_answers fr = [''ok''] \<and> \<not> fr_there fr"
proof -
  have run: "run_events frame_step (posted_frame Uninitialized (Body '''' None None)) late_answer =
      Some \<lparr>fr_there = False, fr_bound = False, fr_tries = 8, fr_polls = 0, fr_waits = 0, fr_removals = 0, fr_answers = [''ok'']\<rparr>" (is "_ = Some ?fr")
    by code_simp
  have r: "list_all readable late_answer" by code_simp
  have "length (fr_answers ?fr) = 1" "\<not> fr_there ?fr"
    using submission_answered_once [OF run r, of "Body '''' None None"] by (simp_all add: late_answer_def)
  moreover have "length (filter is_poll late_answer) = 2" by code_simp
  ultimately show ?thesis using run by (intro exI [of _ ?fr]) simp
qed

section \<open>What goes wrong\<close>

text \<open>
  An answer that takes longer than nine polls after an empty document was loaded is not heard:
  \<open>success\<close> has been called with the empty text, and the handler of \<open>load\<close> is unbound.
\<close>

theorem slow_answer_lost:
  "map_option fr_answers
     (run_events frame_step new_frame
        (FrameLoad (Body '''' None None) # replicate 9 (PollFires (Body '''' None None)) @ [FrameLoad (Body ''ok'' None None)])) = Some ['''']"
  by code_simp

text \<open>
  When the document was not initialized at the submission and the answer comes from another host, the
  waiting timer raises and reads the frame once more: \<open>success\<close> is called twice.
\<close>

theorem answered_twice:
  "map_option fr_answers (run_events frame_step (wait_frame Uninitialized (Body '''' None None) new_frame)
     [FrameLoad NoAccess, WaitFires OtherState NoAccess]) = Some ['''', '''']"
  by code_simp

section \<open>What is posted\<close>

text \<open>
  A submission posts the entries of the form, with the focused text taken over, and the parameters, to
  the address of the options or else that of the form; it leaves no input behind and the target as it was.
\<close>

theorem submit_posts:
  assumes "hook p (pf_params p) = Some (True, params, p')" "blur_focused (pf_form p') = Some f" "submit_form hook s d p = Some q"
  shows "pf_posts q = pf_posts p' @ [(case pf_url p' of None \<Rightarrow> pf_action p' | Some u \<Rightarrow> if u = '''' then pf_action p' else Some u,
      length (pf_frames p'), form_entries f @ pf_inputs p' @ params)]"
    and "pf_inputs q = pf_inputs p'" and "pf_target p' \<noteq> Some '''' \<Longrightarrow> pf_target q = pf_target p'"
    and "length (pf_frames q) = Suc (length (pf_frames p'))"
  using assms by (auto simp: submit_form_def post_form_def Let_def split: option.splits)

text \<open>The address of the form is replaced for good by that of the options.\<close>

theorem submit_keeps_url:
  assumes "hook p (pf_params p) = Some (True, params, p')" "submit_form hook s d p = Some q" "pf_url p' = Some u" "u \<noteq> ''''"
  shows "pf_action q = Some u"
  using assms by (auto simp: submit_form_def post_form_def Let_def split: option.splits)

end
