(* ===== verification/Window.thy ===== *)
theory Window
  imports Panel
begin

text \<open>
  \<open>plugins/jquery.window.js\<close>: windows are panels that float over the page. A window may have a mask
  under it that covers the page, and a shadow; all of them take their levels (\<open>z-index\<close>) from one
  counter. The callbacks the window puts into its panel only touch what the panel does not read, so
  they run after each operation of the panel, on what the operation logged. Dragging and resizing
  move a proxy; the window follows when the mouse is released.
\<close>

section \<open>State\<close>

record shade =
  sd_shown :: bool
  sd_z :: "int option"
  sd_left :: "jsval option"
  sd_top :: "jsval option"
  sd_size :: "int \<times> int"

record window =
  wn_panel :: panel
  wn_options :: options
  wn_modal :: bool
  wn_shadowed :: bool
  wn_closed :: bool
  wn_draggable :: bool
  wn_resizable :: bool
  wn_z :: "int option"
  wn_mask :: "shade option"
  wn_shadow :: "shade option"
  wn_proxy :: "shade option"
  wn_pmask :: "shade option"
  wn_timers :: nat
  wn_outer :: "panel \<Rightarrow> int \<times> int"

text \<open>The size and the scroll position of what a window is centered in\<close>

type_synonym view = "(int \<times> int) \<times> (int \<times> int)"

definition new_shade :: shade where
  "new_shade = \<lparr>sd_shown = False, sd_z = None, sd_left = None, sd_top = None, sd_size = (0, 0)\<rparr>"

section \<open>Levels\<close>

definition next_level :: "int \<times> shade option \<Rightarrow> int \<times> shade option" where
  "next_level x = (case snd x of None \<Rightarrow> x | Some s \<Rightarrow> (fst x + 1, Some (s\<lparr>sd_z := Some (fst x)\<rparr>)))"

text \<open>The mask, then the shadow, then the window\<close>

definition raise_window :: "int \<times> window \<Rightarrow> int \<times> window" where
  "raise_window zw =
     (let m = next_level (fst zw, wn_mask (snd zw)); s = next_level (fst m, wn_shadow (snd zw))
      in (fst s + 1, (snd zw)\<lparr>wn_mask := snd m, wn_shadow := snd s, wn_z := Some (fst s)\<rparr>))"

section \<open>The callbacks in the panel\<close>

definition show_shade :: "bool \<Rightarrow> shade option \<Rightarrow> shade option" where
  "show_shade b = map_option (\<lambda>s. s\<lparr>sd_shown := b\<rparr>)"

definition put_shade :: "jsval option \<Rightarrow> jsval option \<Rightarrow> shade option \<Rightarrow> shade option" where
  "put_shade l t = map_option (\<lambda>s. s\<lparr>sd_left := l, sd_top := t\<rparr>)"

definition size_shade :: "int \<times> int \<Rightarrow> shade option \<Rightarrow> shade option" where
  "size_shade d = map_option (\<lambda>s. s\<lparr>sd_size := d\<rparr>)"

definition fit_shadow :: "window \<Rightarrow> window" where
  "fit_shadow w =
     w\<lparr>wn_shadow := size_shade (wn_outer w (wn_panel w)) (put_shade (wn_options w ''left'') (wn_options w ''top'') (wn_shadow w))\<rparr>"

definition hide_parts :: "window \<Rightarrow> window" where
  "hide_parts w = w\<lparr>wn_shadow := show_shade False (wn_shadow w), wn_mask := show_shade False (wn_mask w)\<rparr>"

text \<open>
  \<open>onOpen\<close>, \<open>onClose\<close>, \<open>onMinimize\<close>, \<open>onResize\<close>, \<open>onExpand\<close>. Opening a collapsed window collapses
  its panel once more, which asks \<open>onBeforeCollapse\<close>: where a collapse that is logged was asked for in
  the same operation, \<open>asked\<close>, the shadow is hidden.
\<close>

definition panel_place :: "panel \<Rightarrow> options \<Rightarrow> options" where
  "panel_place p ops = (\<lambda>k. if k \<in> {''width'', ''height'', ''left'', ''top''} then pn_options p k else ops k)"

definition window_hook :: "bool \<Rightarrow> panel_note \<Rightarrow> int \<times> window \<Rightarrow> int \<times> window" where
  "window_hook asked n zw =
     (let w = snd zw
      in case n of
           Opened \<Rightarrow>
             (let (z, w) = raise_window zw
              in (z, (fit_shadow w)\<lparr>wn_mask := show_shade True (wn_mask w), wn_shadow := show_shade True (wn_shadow (fit_shadow w))\<rparr>))
         | Closed \<Rightarrow> (fst zw, hide_parts w)
         | Minimized \<Rightarrow> (fst zw, hide_parts w)
         | Resized x y \<Rightarrow> (fst zw, fit_shadow (w\<lparr>wn_options := panel_place (wn_panel w) (wn_options w)\<rparr>))
         | Expanded \<Rightarrow> (fst zw, w\<lparr>wn_shadow := show_shade True (wn_shadow w)\<rparr>)
         | Collapsed \<Rightarrow> (fst zw, if asked then w\<lparr>wn_shadow := show_shade False (wn_shadow w)\<rparr> else w)
         | _ \<Rightarrow> zw)"

definition on_panel :: "bool \<Rightarrow> (panel \<Rightarrow> panel) \<Rightarrow> int \<times> window \<Rightarrow> int \<times> window" where
  "on_panel asked g zw =
     (let p = wn_panel (snd zw); p' = g p
      in fold (window_hook asked) (drop (length (pn_log p)) (pn_log p')) (fst zw, (snd zw)\<lparr>wn_panel := p'\<rparr>))"

section \<open>Operations\<close>

text \<open>\<open>_1\<close>\<close>

definition move_window :: "options \<Rightarrow> int \<times> window \<Rightarrow> int \<times> window" where
  "move_window new zw =
     (let w = (snd zw)\<lparr>wn_options := given_options new [''left'', ''top''] (wn_options (snd zw))\<rparr>;
          zw1 = on_panel False (move_panel (wn_options w)) (fst zw, w); w1 = snd zw1
      in (fst zw1, w1\<lparr>wn_shadow := put_shade (wn_options w1 ''left'') (wn_options w1 ''top'') (wn_shadow w1)\<rparr>))"

text \<open>\<open>_5\<close> and \<open>_b\<close>: half the free space, rounded up\<close>

definition centered :: "int \<Rightarrow> int \<Rightarrow> int \<Rightarrow> jsval" where
  "centered whole part scroll = JNum (of_int ((whole - part + 1) div 2 + scroll))"

definition hcenter :: "view \<Rightarrow> window \<Rightarrow> window" where
  "hcenter v w = w\<lparr>wn_options := (wn_options w)(''left'' \<mapsto> centered (fst (fst v)) (fst (wn_outer w (wn_panel w))) (fst (snd v)))\<rparr>"

definition vcenter :: "view \<Rightarrow> window \<Rightarrow> window" where
  "vcenter v w = w\<lparr>wn_options := (wn_options w)(''top'' \<mapsto> centered (snd (fst v)) (snd (wn_outer w (wn_panel w))) (snd (snd v)))\<rparr>"

text \<open>Collapsing hides the shadow once it is allowed, before the body slides.\<close>

definition collapse_window :: "bool \<Rightarrow> int \<times> window \<Rightarrow> int \<times> window" where
  "collapse_window animate zw =
     (if pn_collapsed (wn_panel (snd zw)) then zw
      else let zw1 = on_panel False end_slide zw
           in if \<not> pn_allow (wn_panel (snd zw1)) MayCollapse then zw1
              else on_panel False (collapse_panel animate)
                     (fst zw1, (snd zw1)\<lparr>wn_shadow := show_shade False (wn_shadow (snd zw1))\<rparr>))"

definition open_window :: "bool \<Rightarrow> int \<times> window \<Rightarrow> int \<times> window" where
  "open_window forced zw = on_panel True (open_panel forced) zw"

definition click_window :: "panel_tool \<Rightarrow> int \<times> window \<Rightarrow> int \<times> window" where
  "click_window t zw =
     (if t = CollapseTool \<and> t \<in> set (pn_tools (wn_panel (snd zw))) \<and> \<not> pn_collapsed (wn_panel (snd zw)) then collapse_window True zw
      else on_panel False (click_tool t) zw)"

text \<open>
  \<open>_11\<close>: the panel gets the options of the window and is closed, mask and shadow are made anew, a window
  without a place is centered. Whether there are a mask and a shadow does not change.
\<close>

definition panel_of :: "window \<Rightarrow> panel \<Rightarrow> panel" where
  "panel_of w p = p\<lparr>pn_closed := True, pn_options := (\<lambda>k. if wn_options w k \<noteq> None then wn_options w k else pn_options p k)\<rparr>"

definition init_window :: "options \<Rightarrow> view \<Rightarrow> int \<times> window \<Rightarrow> int \<times> window" where
  "init_window new v zw =
     (let w = (snd zw)\<lparr>wn_options := (\<lambda>k. if new k \<noteq> None then new k else wn_options (snd zw) k)\<rparr>;
          zw1 = on_panel False (\<lambda>p. init_panel True (panel_of w p)) (fst zw, w);
          w2 = (snd zw1)\<lparr>wn_mask := (if wn_modal w then Some new_shade else None), wn_shadow := (if wn_shadowed w then Some new_shade else None)\<rparr>;
          w3 = (if wn_options w2 ''left'' = None then hcenter v w2 else w2);
          w4 = (if wn_options w3 ''top'' = None then vcenter v w3 else w3);
          zw5 = move_window Map.empty (fst zw1, w4)
      in if wn_closed w then zw5 else open_window False zw5)"

text \<open>\<open>_19\<close>: dragging and resizing\<close>

definition drag_start :: "int \<times> int \<Rightarrow> int \<times> window \<Rightarrow> int \<times> window" where
  "drag_start pos zw =
     (let (z, w) = raise_window zw;
          px = (case wn_proxy w of None \<Rightarrow> new_shade | Some s \<Rightarrow> s)
      in (z + 1, w\<lparr>wn_proxy := Some (px\<lparr>sd_shown := False, sd_z := Some z, sd_left := Some (JNum (of_int (fst pos))),
                       sd_top := Some (JNum (of_int (snd pos))), sd_size := wn_outer w (wn_panel w)\<rparr>), wn_timers := wn_timers w + 1\<rparr>))"

definition drag_move :: "int \<times> int \<Rightarrow> window \<Rightarrow> window option" where
  "drag_move pos w =
     (case wn_proxy w of
        None \<Rightarrow> None
      | Some s \<Rightarrow> Some (w\<lparr>wn_proxy := Some (s\<lparr>sd_shown := True, sd_left := Some (JNum (of_int (fst pos))), sd_top := Some (JNum (of_int (snd pos)))\<rparr>)\<rparr>))"

definition drag_stop :: "int \<times> int \<Rightarrow> int \<times> window \<Rightarrow> (int \<times> window) option" where
  "drag_stop pos zw =
     (let w = (snd zw)\<lparr>wn_options := (wn_options (snd zw))(''left'' \<mapsto> JNum (of_int (fst pos)), ''top'' \<mapsto> JNum (of_int (snd pos)))\<rparr>;
          zw1 = move_window Map.empty (fst zw, w)
      in if wn_proxy (snd zw) = None then None else Some (fst zw1, (snd zw1)\<lparr>wn_proxy := None\<rparr>))"

definition box_options :: "(int \<times> int) \<times> (int \<times> int) \<Rightarrow> options" where
  "box_options b = [''left'' \<mapsto> JNum (of_int (fst (fst b))), ''top'' \<mapsto> JNum (of_int (snd (fst b))),
     ''width'' \<mapsto> JNum (of_int (fst (snd b))), ''height'' \<mapsto> JNum (of_int (snd (snd b)))]"

definition shade_at :: "int \<Rightarrow> (int \<times> int) \<times> (int \<times> int) \<Rightarrow> shade" where
  "shade_at z b = \<lparr>sd_shown = True, sd_z = Some z, sd_left = box_options b ''left'', sd_top = box_options b ''top'', sd_size = snd b\<rparr>"

definition resize_start :: "(int \<times> int) \<times> (int \<times> int) \<Rightarrow> int \<times> window \<Rightarrow> int \<times> window" where
  "resize_start b zw =
     (let w = snd zw
      in (fst zw + 2, w\<lparr>wn_pmask := Some (shade_at (fst zw) (fst b, wn_outer w (wn_panel w))), wn_proxy := Some (shade_at (fst zw + 1) b)\<rparr>))"

definition resize_move :: "(int \<times> int) \<times> (int \<times> int) \<Rightarrow> window \<Rightarrow> window option" where
  "resize_move b w =
     (case wn_proxy w of
        None \<Rightarrow> None
      | Some s \<Rightarrow> Some (w\<lparr>wn_proxy := Some (s\<lparr>sd_left := box_options b ''left'', sd_top := box_options b ''top'', sd_size := snd b\<rparr>)\<rparr>))"

definition resize_stop :: "(int \<times> int) \<times> (int \<times> int) \<Rightarrow> int \<times> window \<Rightarrow> (int \<times> window) option" where
  "resize_stop b zw =
     (let zw1 = on_panel False (resize_panel (box_options b)) zw
      in if wn_pmask (snd zw) = None \<or> wn_proxy (snd zw) = None then None
         else Some (fst zw1, (snd zw1)\<lparr>wn_pmask := None, wn_proxy := None\<rparr>))"

definition proxy_timer :: "window \<Rightarrow> window option" where
  "proxy_timer w = (if wn_timers w = 0 then None else Some (w\<lparr>wn_timers := wn_timers w - 1, wn_proxy := show_shade True (wn_proxy w)\<rparr>))"

section \<open>Windows of a page\<close>

datatype window_event = WOpen bool | WClose bool | WCollapse bool | WExpand bool | WSlideEnds | WMaximize | WMinimize | WRestore
  | WResize options | WMove options | WHcenter view | WVcenter view | WCenter view | WTool panel_tool | WInit options view
  | WDragStart "int \<times> int" | WDrag "int \<times> int" | WDragStop "int \<times> int" | WResizeStart "(int \<times> int) \<times> (int \<times> int)"
  | WResizing "(int \<times> int) \<times> (int \<times> int)" | WResizeStop "(int \<times> int) \<times> (int \<times> int)" | WTimer

text \<open>
  The tools of a window can be clicked while it is seen, and it is dragged and resized while these
  options allow it. Everything else are calls, which come whenever the page likes.
\<close>

definition window_step :: "int \<times> window \<Rightarrow> window_event \<Rightarrow> (int \<times> window) option" where
  "window_step zw e =
     (let shown = pn_shown (wn_panel (snd zw)); drags = wn_draggable (snd zw); sizes = wn_resizable (snd zw)
      in case e of
        WOpen f \<Rightarrow> Some (open_window f zw)
      | WClose f \<Rightarrow> Some (on_panel False (close_panel f) zw)
      | WCollapse a \<Rightarrow> Some (collapse_window a zw)
      | WExpand a \<Rightarrow> Some (on_panel False (expand_panel a) zw)
      | WSlideEnds \<Rightarrow> Some (on_panel False end_slide zw)
      | WMaximize \<Rightarrow> Some (on_panel False maximize_panel zw)
      | WMinimize \<Rightarrow> Some (on_panel False minimize_panel zw)
      | WRestore \<Rightarrow> Some (on_panel False restore_panel zw)
      | WResize new \<Rightarrow> Some (on_panel False (resize_panel new) zw)
      | WMove new \<Rightarrow> Some (move_window new zw)
      | WHcenter v \<Rightarrow> Some (move_window Map.empty (fst zw, hcenter v (snd zw)))
      | WVcenter v \<Rightarrow> Some (move_window Map.empty (fst zw, vcenter v (snd zw)))
      | WCenter v \<Rightarrow> Some (move_window Map.empty (fst zw, vcenter v (hcenter v (snd zw))))
      | WTool t \<Rightarrow> if shown then Some (click_window t zw) else None
      | WInit new v \<Rightarrow> Some (init_window new v zw)
      | WDragStart p \<Rightarrow> if drags then Some (drag_start p zw) else None
      | WDrag p \<Rightarrow> if drags then map_option (Pair (fst zw)) (drag_move p (snd zw)) else None
      | WDragStop p \<Rightarrow> if drags then drag_stop p zw else None
      | WResizeStart b \<Rightarrow> if sizes then Some (resize_start b zw) else None
      | WResizing b \<Rightarrow> if sizes then map_option (Pair (fst zw)) (resize_move b (snd zw)) else None
      | WResizeStop b \<Rightarrow> if sizes then resize_stop b zw else None
      | WTimer \<Rightarrow> map_option (Pair (fst zw)) (proxy_timer (snd zw)))"

record wpage =
  wp_z :: int
  wp_windows :: "window option list"
  wp_left :: "shade list"

definition empty_wpage :: wpage where
  "empty_wpage = \<lparr>wp_z = 9000, wp_windows = [], wp_left = []\<rparr>"

text \<open>
  A new window is a panel that was never drawn. \<open>onBeforeDestroy\<close> removes mask and shadow, but is
  not called when the destruction is forced: they stay in the page.
\<close>

datatype wpage_event = NewWindow window view | OnWindow nat window_event | DestroyWindow nat bool

definition fresh_window :: "window \<Rightarrow> bool" where
  "fresh_window w = (wn_z w = None \<and> wn_mask w = None \<and> wn_shadow w = None \<and> wn_proxy w = None \<and> wn_pmask w = None)"

definition shades :: "window \<Rightarrow> shade list" where
  "shades w = (case wn_shadow w of None \<Rightarrow> [] | Some s \<Rightarrow> [s]) @ (case wn_mask w of None \<Rightarrow> [] | Some s \<Rightarrow> [s])"

definition wpage_step :: "wpage \<Rightarrow> wpage_event \<Rightarrow> wpage option" where
  "wpage_step pg e =
     (case e of
        NewWindow w v \<Rightarrow>
          if fresh_window w
          then (case init_window Map.empty v (wp_z pg, w) of (z, w) \<Rightarrow> Some (pg\<lparr>wp_z := z, wp_windows := wp_windows pg @ [Some w]\<rparr>))
          else None
      | OnWindow i e \<Rightarrow>
          if i < length (wp_windows pg)
          then (case wp_windows pg ! i of
                  None \<Rightarrow> None
                | Some w \<Rightarrow> map_option (\<lambda>(z, w). pg\<lparr>wp_z := z, wp_windows := (wp_windows pg)[i := Some w]\<rparr>) (window_step (wp_z pg, w) e))
          else None
      | DestroyWindow i forced \<Rightarrow>
          if i < length (wp_windows pg)
          then (case wp_windows pg ! i of
                  None \<Rightarrow> None
                | Some w \<Rightarrow>
                    Some (case destroy_panel forced (wn_panel w) of
                            Some p \<Rightarrow> pg
                          | None \<Rightarrow> pg\<lparr>wp_windows := (wp_windows pg)[i := None], wp_left := wp_left pg @ (if forced then shades w else [])\<rparr>))
          else None)"

section \<open>Levels stay in order\<close>

definition shade_level :: "shade option \<Rightarrow> int option" where
  "shade_level x = (case x of None \<Rightarrow> None | Some s \<Rightarrow> sd_z s)"

definition parts :: "window \<Rightarrow> int set" where
  "parts w = {z. wn_z w = Some z \<or> shade_level (wn_mask w) = Some z \<or> shade_level (wn_shadow w) = Some z}"

definition apart :: "window \<Rightarrow> window \<Rightarrow> bool" where
  "apart w v = ((\<forall>x \<in> parts w. \<forall>y \<in> parts v. x < y) \<or> (\<forall>x \<in> parts w. \<forall>y \<in> parts v. y < x))"

text \<open>The mask is below the shadow, the shadow below the window.\<close>

definition layered :: "window \<Rightarrow> bool" where
  "layered w =
     ((\<forall>m. shade_level (wn_mask w) = Some m \<longrightarrow> (\<exists>k. wn_z w = Some k \<and> m < k) \<and> (\<forall>s. shade_level (wn_shadow w) = Some s \<longrightarrow> m < s))
      \<and> (\<forall>s. shade_level (wn_shadow w) = Some s \<longrightarrow> (\<exists>k. wn_z w = Some k \<and> s < k)))"

definition placed :: "window \<Rightarrow> bool" where
  "placed w = (\<forall>s. wn_shadow w = Some s \<longrightarrow> sd_left s = wn_options w ''left'' \<and> sd_top s = wn_options w ''top'')"

definition synced :: "window \<Rightarrow> bool" where
  "synced w = (\<forall>k \<in> {''left'', ''top''}. wn_options w k = pn_options (wn_panel w) k)"

text \<open>A shown mask has its window shown; if \<open>strict\<close>, a shown window also has its mask shown.\<close>

definition masked :: "bool \<Rightarrow> window \<Rightarrow> bool" where
  "masked strict w =
     (wn_modal w = (wn_mask w \<noteq> None)
      \<and> (\<forall>s. wn_mask w = Some s \<longrightarrow> (sd_shown s \<longrightarrow> pn_shown (wn_panel w)) \<and> (strict \<longrightarrow> pn_shown (wn_panel w) \<longrightarrow> sd_shown s)))"

definition leveled :: "int \<times> window \<Rightarrow> bool" where
  "leveled zw = (layered (snd zw) \<and> (\<forall>x \<in> parts (snd zw). x < fst zw))"

definition raised :: "bool \<Rightarrow> window \<Rightarrow> bool" where
  "raised strict w = (strict \<longrightarrow> pn_shown (wn_panel w) \<longrightarrow> wn_z w \<noteq> None)"

lemma masked_cong:
  "masked strict w \<Longrightarrow> wn_modal v = wn_modal w \<Longrightarrow> map_option sd_shown (wn_mask v) = map_option sd_shown (wn_mask w)
   \<Longrightarrow> pn_shown (wn_panel v) = pn_shown (wn_panel w) \<Longrightarrow> masked strict v"
  by (cases "wn_mask v"; cases "wn_mask w") (simp_all add: masked_def)

lemma raised_cong:
  "raised strict w \<Longrightarrow> pn_shown (wn_panel v) = pn_shown (wn_panel w) \<Longrightarrow> wn_z v = wn_z w \<Longrightarrow> raised strict v"
  by (simp add: raised_def)

definition window_ok :: "bool \<Rightarrow> int \<times> window \<Rightarrow> bool" where
  "window_ok strict zw =
     (leveled zw \<and> placed (snd zw) \<and> synced (snd zw) \<and> masked strict (snd zw) \<and> raised strict (snd zw))"

text \<open>The parts of a window stay at their levels, or rise above all that was there.\<close>

definition rose :: "int \<times> window \<Rightarrow> int \<times> window \<Rightarrow> bool" where
  "rose a b = (fst a \<le> fst b \<and> (parts (snd b) \<subseteq> parts (snd a) \<or> (\<forall>x \<in> parts (snd b). fst a \<le> x)))"

lemma rose_refl: "rose a a"
  by (simp add: rose_def)

lemma rose_trans: "rose a b \<Longrightarrow> rose b c \<Longrightarrow> rose a c"
  by (fastforce simp: rose_def)

lemma rose_same: "rose a b \<Longrightarrow> fst c = fst b \<Longrightarrow> parts (snd c) = parts (snd b) \<Longrightarrow> rose a c"
  by (simp add: rose_def)

lemma shade_levels [simp]:
  "shade_level (show_shade b x) = shade_level x" "shade_level (put_shade l t x) = shade_level x" "shade_level (size_shade d x) = shade_level x"
  by (simp_all add: shade_level_def show_shade_def put_shade_def size_shade_def split: option.split)

lemma next_level_facts:
  "shade_level (snd (next_level x)) = (if snd x = None then None else Some (fst x))"
  "fst (next_level x) = (if snd x = None then fst x else fst x + 1)"
  "map_option sd_shown (snd (next_level x)) = map_option sd_shown (snd x)"
  "(\<forall>s. snd (next_level x) = Some s \<longrightarrow> P (sd_left s) (sd_top s)) = (\<forall>s. snd x = Some s \<longrightarrow> P (sd_left s) (sd_top s))"
  by (auto simp: next_level_def shade_level_def split: option.split)

lemma raise_frame [simp]:
  "wn_panel (snd (raise_window zw)) = wn_panel (snd zw)" "wn_modal (snd (raise_window zw)) = wn_modal (snd zw)"
  "wn_options (snd (raise_window zw)) = wn_options (snd zw)" "wn_outer (snd (raise_window zw)) = wn_outer (snd zw)"
  "map_option sd_shown (wn_mask (snd (raise_window zw))) = map_option sd_shown (wn_mask (snd zw))"
  "wn_z (snd (raise_window zw)) \<noteq> None"
  by (simp_all add: raise_window_def Let_def next_level_facts)

lemma raise_levels: "leveled (raise_window zw) \<and> rose zw (raise_window zw)"
  by (auto simp: leveled_def rose_def raise_window_def Let_def next_level_facts parts_def layered_def)

lemma raise_placed: "placed (snd zw) \<Longrightarrow> placed (snd (raise_window zw))"
  by (auto simp: placed_def raise_window_def Let_def next_level_def split: option.splits)

text \<open>What the notes of a panel say about whether it is shown\<close>

fun shown_after :: "panel_note list \<Rightarrow> bool \<Rightarrow> bool" where
  "shown_after [] b = b"
| "shown_after (n # ns) b = shown_after ns (case n of Opened \<Rightarrow> True | Closed \<Rightarrow> False | Minimized \<Rightarrow> False | _ \<Rightarrow> b)"

definition is_resize :: "panel_note \<Rightarrow> bool" where
  "is_resize n = (case n of Resized x y \<Rightarrow> True | _ \<Rightarrow> False)"

lemma show_shade_none [simp]:
  "(show_shade b x = None) = (x = None)" "(put_shade l t x = None) = (x = None)" "(size_shade d x = None) = (x = None)"
  "map_option sd_shown (show_shade b x) = map_option (\<lambda>s. b) x"
  by (simp_all add: show_shade_def put_shade_def size_shade_def option.map_comp comp_def)

lemma placed_shade: "placed (w\<lparr>wn_shadow := show_shade b (wn_shadow w)\<rparr>) = placed w"
  by (auto simp: placed_def show_shade_def)

lemma placed_mask [simp]: "placed (w\<lparr>wn_shadow := s, wn_mask := m\<rparr>) = placed (w\<lparr>wn_shadow := s\<rparr>)"
  by (simp add: placed_def)

lemma fit_facts [simp]:
  "wn_panel (fit_shadow w) = wn_panel w" "wn_modal (fit_shadow w) = wn_modal w" "wn_options (fit_shadow w) = wn_options w"
  "wn_mask (fit_shadow w) = wn_mask w" "wn_z (fit_shadow w) = wn_z w" "shade_level (wn_shadow (fit_shadow w)) = shade_level (wn_shadow w)"
  by (simp_all add: fit_shadow_def)

lemma fit_placed: "placed (fit_shadow w)"
  by (auto simp: placed_def fit_shadow_def size_shade_def put_shade_def)

lemma parts_cong:
  "wn_z v = wn_z w \<Longrightarrow> shade_level (wn_mask v) = shade_level (wn_mask w) \<Longrightarrow> shade_level (wn_shadow v) = shade_level (wn_shadow w)
   \<Longrightarrow> parts v = parts w \<and> layered v = layered w"
  by (simp add: parts_def layered_def)

lemma hook_effect:
  assumes "leveled zw"
  shows "wn_panel (snd (window_hook a n zw)) = wn_panel (snd zw) \<and> wn_modal (snd (window_hook a n zw)) = wn_modal (snd zw)
    \<and> wn_options (snd (window_hook a n zw)) = (if is_resize n then panel_place (wn_panel (snd zw)) (wn_options (snd zw)) else wn_options (snd zw))
    \<and> map_option sd_shown (wn_mask (snd (window_hook a n zw))) = map_option (\<lambda>s. shown_after [n] (sd_shown s)) (wn_mask (snd zw))
    \<and> (placed (snd zw) \<longrightarrow> placed (snd (window_hook a n zw))) \<and> leveled (window_hook a n zw) \<and> rose zw (window_hook a n zw)
    \<and> (wn_z (snd zw) \<noteq> None \<or> n = Opened \<longrightarrow> wn_z (snd (window_hook a n zw)) \<noteq> None)"
proof (cases n)
  case Opened
  obtain z w where r: "raise_window zw = (z, w)" by fastforce
  have f: "wn_panel w = wn_panel (snd zw)" "wn_modal w = wn_modal (snd zw)" "wn_options w = wn_options (snd zw)" "wn_z w \<noteq> None"
    "map_option sd_shown (wn_mask w) = map_option sd_shown (wn_mask (snd zw))"
    using raise_frame [of zw] r by simp_all
  define u where "u = (fit_shadow w)\<lparr>wn_mask := show_shade True (wn_mask w), wn_shadow := show_shade True (wn_shadow (fit_shadow w))\<rparr>"
  have e: "window_hook a n zw = (z, u)" using r by (simp add: window_hook_def Opened u_def)
  have p: "parts u = parts w \<and> layered u = layered w" by (rule parts_cong) (simp_all add: u_def)
  have "leveled (z, u)" "rose zw (z, u)" using raise_levels [of zw] p unfolding r by (simp_all add: leveled_def rose_def)
  moreover have "placed u" using fit_placed [of w] by (auto simp: placed_def u_def show_shade_def)
  moreover have "map_option sd_shown (wn_mask u) = map_option (\<lambda>s. True) (wn_mask (snd zw))"
    using f(5) by (cases "wn_mask w"; cases "wn_mask (snd zw)") (simp_all add: u_def show_shade_def)
  ultimately show ?thesis using f unfolding e by (simp add: u_def Opened is_resize_def)
next
  case (Resized x y)
  then show ?thesis using assms fit_placed
    by (simp add: window_hook_def Let_def is_resize_def leveled_def rose_def parts_def layered_def)
qed (use assms placed_shade in \<open>simp_all add: window_hook_def Let_def is_resize_def leveled_def rose_def hide_parts_def parts_def layered_def
  option.map_ident placed_mask\<close>)

lemma panel_place_twice [simp]: "panel_place p (panel_place p ops) = panel_place p ops"
  by (simp add: panel_place_def fun_eq_iff)

lemma shown_after_append: "shown_after (xs @ ys) b = shown_after ys (shown_after xs b)"
  by (induction xs arbitrary: b) simp_all

lemma hooks_effect:
  fixes a :: bool and ns :: "panel_note list" and zw :: "int \<times> window"
  assumes "leveled zw"
  defines "zw' \<equiv> fold (window_hook a) ns zw"
  shows "wn_panel (snd zw') = wn_panel (snd zw) \<and> wn_modal (snd zw') = wn_modal (snd zw)
    \<and> wn_options (snd zw') = (if list_ex is_resize ns then panel_place (wn_panel (snd zw)) (wn_options (snd zw)) else wn_options (snd zw))
    \<and> map_option sd_shown (wn_mask (snd zw')) = map_option (\<lambda>s. shown_after ns (sd_shown s)) (wn_mask (snd zw))
    \<and> (placed (snd zw) \<longrightarrow> placed (snd zw')) \<and> leveled zw' \<and> rose zw zw'
    \<and> (wn_z (snd zw) \<noteq> None \<or> Opened \<in> set ns \<longrightarrow> wn_z (snd zw') \<noteq> None)"
  using assms(1) unfolding zw'_def
proof (induction ns arbitrary: zw)
  case Nil
  then show ?case by (simp add: rose_refl)
next
  case (Cons n ns)
  note h = hook_effect [OF Cons.prems, where a = a and n = n]
  define mid where "mid = window_hook a n zw"
  have lm: "leveled mid" using h by (simp add: mid_def)
  note i = Cons.IH [OF lm]
  have e: "fold (window_hook a) (n # ns) zw = fold (window_hook a) ns mid" by (simp add: mid_def)
  have m: "map_option sd_shown (wn_mask (snd mid)) = map_option (\<lambda>s. shown_after [n] (sd_shown s)) (wn_mask (snd zw))"
    using h by (simp add: mid_def)
  have "map_option (\<lambda>s. shown_after ns (sd_shown s)) (wn_mask (snd mid)) = map_option (shown_after ns) (map_option sd_shown (wn_mask (snd mid)))"
    by (simp add: option.map_comp comp_def)
  also have "... = map_option (\<lambda>s. shown_after (n # ns) (sd_shown s)) (wn_mask (snd zw))"
    unfolding m by (simp add: option.map_comp comp_def)
  finally have ms: "map_option (\<lambda>s. shown_after ns (sd_shown s)) (wn_mask (snd mid)) =
    map_option (\<lambda>s. shown_after (n # ns) (sd_shown s)) (wn_mask (snd zw))" .
  have r: "rose zw (fold (window_hook a) ns mid)" using h i rose_trans unfolding mid_def by blast
  show ?case unfolding e using i h r ms by (auto simp: mid_def [symmetric])
qed

section \<open>What a panel logs\<close>

text \<open>
  \<open>logs p q\<close>: from \<open>p\<close> to \<open>q\<close> the notes tell whether the panel is shown, and its place only changes
  with a note of a new size.
\<close>

definition logs :: "panel \<Rightarrow> panel \<Rightarrow> bool" where
  "logs p q =
     (\<exists>ns. pn_log q = pn_log p @ ns \<and> pn_shown q = shown_after ns (pn_shown p)
       \<and> (list_ex is_resize ns \<or> (\<forall>k \<in> {''left'', ''top''}. pn_options q k = pn_options p k)))"

text \<open>A restored panel is shown without a note: then the notes tell only that a shown panel is shown.\<close>

definition logs_if :: "bool \<Rightarrow> panel \<Rightarrow> panel \<Rightarrow> bool" where
  "logs_if strict p q =
     (\<exists>ns. pn_log q = pn_log p @ ns \<and> (shown_after ns (pn_shown p) \<longrightarrow> pn_shown q)
       \<and> (strict \<longrightarrow> pn_shown q \<longrightarrow> shown_after ns (pn_shown p))
       \<and> (list_ex is_resize ns \<or> (\<forall>k \<in> {''left'', ''top''}. pn_options q k = pn_options p k)))"

lemma logs_some: "logs p q \<Longrightarrow> logs_if strict p q"
  by (auto simp: logs_def logs_if_def)

lemma logs_refl: "logs p p"
  by (auto simp: logs_def intro: exI [of _ "[]"])

lemma logs_frame:
  "logs p q \<Longrightarrow> pn_log q' = pn_log q \<Longrightarrow> pn_shown q' = pn_shown q \<Longrightarrow> pn_options q' = pn_options q \<Longrightarrow> logs p q'"
  by (simp add: logs_def)

lemma logs_note:
  assumes "logs p q" "pn_log q' = pn_log q @ [n]" "pn_shown q' = shown_after [n] (pn_shown q)" "is_resize n \<or> pn_options q' = pn_options q"
  shows "logs p q'"
proof -
  obtain ns where "pn_log q = pn_log p @ ns" "pn_shown q = shown_after ns (pn_shown p)"
    "list_ex is_resize ns \<or> (\<forall>k \<in> {''left'', ''top''}. pn_options q k = pn_options p k)"
    using assms(1) by (auto simp: logs_def)
  with assms(2-4) show ?thesis unfolding logs_def by (intro exI [of _ "ns @ [n]"]) (auto simp: shown_after_append)
qed

lemma logs_trans:
  assumes "logs p q" "logs q r"
  shows "logs p r"
proof -
  obtain ns where n: "pn_log q = pn_log p @ ns" "pn_shown q = shown_after ns (pn_shown p)"
    "list_ex is_resize ns \<or> (\<forall>k \<in> {''left'', ''top''}. pn_options q k = pn_options p k)"
    using assms(1) by (auto simp: logs_def)
  obtain ms where "pn_log r = pn_log q @ ms" "pn_shown r = shown_after ms (pn_shown q)"
    "list_ex is_resize ms \<or> (\<forall>k \<in> {''left'', ''top''}. pn_options r k = pn_options q k)"
    using assms(2) by (auto simp: logs_def)
  with n show ?thesis unfolding logs_def by (intro exI [of _ "ns @ ms"]) (auto simp: shown_after_append)
qed

lemma note_log [simp]: "pn_log (note_panel n p) = pn_log p @ [n]"
  by (simp add: note_panel_def)

lemma load_log [simp]: "pn_log (load_panel p) = pn_log p"
  by (simp add: load_panel_def)

lemma unfit_log [simp]: "pn_log (unfit_panel p) = pn_log p"
  by (simp add: unfit_panel_def)

lemma size_log: "\<exists>n. is_resize n \<and> shown_after [n] b = b \<and> pn_log (size_panel p) = pn_log p @ [n]"
  by (auto simp: size_panel_def is_resize_def split: prod.split)

lemma logs_size:
  assumes "logs p q" "pn_log q' = pn_log q" "pn_shown q' = pn_shown q"
  shows "logs p (size_panel q')"
proof -
  obtain n where n: "is_resize n" "shown_after [n] (pn_shown q) = pn_shown q" "pn_log (size_panel q') = pn_log q' @ [n]"
    using size_log by blast
  show ?thesis by (rule logs_note [OF assms(1), where n = n]) (use n assms in simp_all)
qed

lemma logs_end_slide: "logs p (end_slide p)"
proof (cases "pn_slide p")
  case None
  then show ?thesis by (simp add: end_slide_def logs_refl)
next
  case (Some s)
  then show ?thesis
    by (cases s) (auto simp: end_slide_def intro: logs_note [OF logs_refl, where n = Collapsed] logs_note [OF logs_refl, where n = Expanded])
qed

lemma logs_collapse: "logs p (collapse_panel a p)"
proof -
  note e = logs_end_slide [of p]
  have "logs p (note_panel Collapsed ((end_slide p)\<lparr>pn_expand_mark := True, pn_body_shown := False, pn_collapsed := True\<rparr>))"
    by (rule logs_note [OF e, where n = Collapsed]) simp_all
  moreover have "logs p ((end_slide p)\<lparr>pn_expand_mark := True, pn_slide := Some SlidingUp\<rparr>)" by (rule logs_frame [OF e]) simp_all
  ultimately show ?thesis using e by (simp add: collapse_panel_def Let_def logs_refl)
qed

lemma logs_expand: "logs p (expand_panel a p)"
proof -
  note e = logs_end_slide [of p]
  have "logs p (load_panel (note_panel Expanded ((end_slide p)\<lparr>pn_expand_mark := False, pn_body_shown := True, pn_collapsed := False\<rparr>)))"
    by (rule logs_note [OF e, where n = Expanded]) simp_all
  moreover have "logs p ((end_slide p)\<lparr>pn_expand_mark := False, pn_body_shown := True, pn_slide := Some SlidingDown\<rparr>)"
    by (rule logs_frame [OF e]) simp_all
  ultimately show ?thesis using e by (simp add: expand_panel_def Let_def logs_refl)
qed

lemma logs_maximize: "logs p (maximize_panel p)"
proof (cases "pn_maximized p")
  case True
  then show ?thesis by (simp add: maximize_panel_def logs_refl)
next
  case False
  define p1 where "p1 = p\<lparr>pn_restore_mark := MaxTool \<in> set (pn_tools p),
    pn_original := (case pn_original p of None \<Rightarrow> Some (pn_options p) | Some q \<Rightarrow> Some q),
    pn_options := (pn_options p)(''left'' := Some (JNum 0), ''top'' := Some (JNum 0), ''fit'' := Some (JBool True))\<rparr>"
  have "logs p (size_panel p1)" by (rule logs_size [OF logs_refl]) (simp_all add: p1_def)
  then have "logs p (note_panel Maximized ((size_panel p1)\<lparr>pn_minimized := False, pn_maximized := True\<rparr>))"
    by (rule logs_note [where n = Maximized]) (simp_all add: p1_def)
  then show ?thesis using False by (simp add: maximize_panel_def p1_def)
qed

lemma logs_restore: "pn_shown p \<Longrightarrow> logs p (restore_panel p)"
proof -
  assume s: "pn_shown p"
  define p1 where "p1 = size_panel (p\<lparr>pn_shown := True, pn_restore_mark := False, pn_options := original_options p\<rparr>)"
  have "logs p p1" unfolding p1_def by (rule logs_size [OF logs_refl]) (simp_all add: s)
  then have "logs p (note_panel Restored (p1\<lparr>pn_minimized := False, pn_maximized := False, pn_original := None\<rparr>))"
    by (rule logs_note [where n = Restored]) simp_all
  then show ?thesis by (simp add: restore_panel_def Let_def p1_def logs_refl)
qed

lemma logs_if_restore: "(strict \<longrightarrow> pn_shown p) \<Longrightarrow> logs_if strict p (restore_panel p)"
proof (cases "pn_shown p")
  case False
  assume s: "strict \<longrightarrow> pn_shown p"
  have l: "logs (p\<lparr>pn_shown := True\<rparr>) (restore_panel (p\<lparr>pn_shown := True\<rparr>))" by (rule logs_restore) simp
  have "original_options (p\<lparr>pn_shown := True\<rparr>) = original_options p" by (auto simp: original_options_def fun_eq_iff split: option.split)
  then have e: "pn_maximized p \<Longrightarrow> restore_panel (p\<lparr>pn_shown := True\<rparr>) = restore_panel p" by (simp add: restore_panel_def)
  obtain ns where ns: "pn_log (restore_panel (p\<lparr>pn_shown := True\<rparr>)) = pn_log p @ ns" "pn_shown (restore_panel (p\<lparr>pn_shown := True\<rparr>)) = shown_after ns True"
    "list_ex is_resize ns \<or> (\<forall>k \<in> {''left'', ''top''}. pn_options (restore_panel (p\<lparr>pn_shown := True\<rparr>)) k = pn_options p k)"
    using l by (auto simp: logs_def)
  have up: "shown_after ns False \<longrightarrow> shown_after ns True" by (induction ns rule: rev_induct) (auto simp: shown_after_append split: panel_note.split)
  show ?thesis
  proof (cases "pn_maximized p")
    case True
    have "shown_after ns (pn_shown p) \<longrightarrow> pn_shown (restore_panel p)" using up ns(2) False by (simp add: e [OF True])
    then show ?thesis unfolding logs_if_def using ns(1,3) s False by (intro exI [of _ ns]) (simp add: e [OF True])
  qed (simp add: restore_panel_def logs_some [OF logs_refl])
qed (simp add: logs_some [OF logs_restore])

lemma logs_minimize: "logs p (minimize_panel p)"
  by (rule logs_note [OF logs_refl, where n = Minimized]) (simp_all add: minimize_panel_def)

lemma logs_close: "logs p (close_panel f p)"
proof -
  have "logs p (note_panel Closed ((unfit_panel p)\<lparr>pn_shown := False, pn_closed := True\<rparr>))"
    by (rule logs_note [OF logs_refl, where n = Closed]) simp_all
  then show ?thesis by (simp add: close_panel_def logs_refl)
qed

lemma logs_resize: "logs p (resize_panel new p)"
  unfolding resize_panel_def by (rule logs_size [OF logs_refl]) simp_all

lemma logs_open: "logs p (open_panel f p)"
proof -
  define p2 where "p2 = note_panel Opened ((p\<lparr>pn_shown := True, pn_closed := False, pn_minimized := False\<rparr>)\<lparr>pn_maximized := pn_restore_mark p \<or> pn_maximized p\<rparr>)"
  have p2: "logs p p2" by (rule logs_note [OF logs_refl, where n = Opened]) (simp_all add: p2_def)
  have e: "reopened p = (if pn_maximized p2 then maximize_panel (p2\<lparr>pn_maximized := False\<rparr>) else p2)"
    by (simp add: reopened_def p2_def Let_def note_panel_def)
  have r: "logs p (reopened p)" unfolding e using logs_trans [OF logs_frame [OF p2] logs_maximize] p2 by simp
  define p4 where "p4 = (if pn_collapsed (reopened p) then collapse_panel False ((reopened p)\<lparr>pn_collapsed := False\<rparr>) else reopened p)"
  have p4: "logs p p4" unfolding p4_def using logs_trans [OF logs_frame [OF r] logs_collapse] r by simp
  moreover have "logs p (load_panel p4)" by (rule logs_frame [OF p4]) simp_all
  moreover have "open_panel f p = (if \<not> f \<and> \<not> pn_allow p MayOpen then p else if pn_collapsed p4 then p4 else load_panel p4)"
    by (simp add: open_panel_parts p4_def Let_def)
  ultimately show ?thesis by (simp add: logs_refl)
qed

lemma logs_tool: "pn_shown p \<Longrightarrow> logs p (click_tool t p)"
  by (cases t) (simp_all add: click_tool_def logs_refl logs_expand logs_collapse logs_minimize logs_restore logs_maximize logs_close)

lemmas panel_logs = logs_end_slide logs_collapse logs_expand logs_maximize logs_minimize logs_close logs_resize logs_open

section \<open>Windows stay in order\<close>

lemma masked_iff:
  "masked strict w \<longleftrightarrow>
     (if wn_modal w
      then \<exists>c. map_option sd_shown (wn_mask w) = Some c \<and> (c \<longrightarrow> pn_shown (wn_panel w)) \<and> (strict \<longrightarrow> pn_shown (wn_panel w) \<longrightarrow> c)
      else wn_mask w = None)"
  by (auto simp: masked_def)

text \<open>A state in which only the place was set anew\<close>

definition nearly_ok :: "bool \<Rightarrow> int \<times> window \<Rightarrow> bool" where
  "nearly_ok strict zw =
     (leveled zw \<and> masked strict (snd zw) \<and> raised strict (snd zw)
      \<and> (\<forall>k \<in> {''left'', ''top''}. wn_options (snd zw) k = None \<longrightarrow> pn_options (wn_panel (snd zw)) k = None))"

lemma ok_nearly: "window_ok strict zw \<Longrightarrow> nearly_ok strict zw"
  by (auto simp: window_ok_def nearly_ok_def synced_def)

lemma shown_opened: "shown_after ns b \<Longrightarrow> b \<or> Opened \<in> set ns"
proof (induction ns arbitrary: b)
  case (Cons n ns)
  then show ?case by (cases n) fastforce+
qed simp

lemma shown_after_less: "shown_after ns a \<Longrightarrow> (a \<longrightarrow> b) \<Longrightarrow> shown_after ns b"
proof (induction ns arbitrary: a b)
  case (Cons n ns)
  then show ?case by (cases n) fastforce+
qed simp

lemma on_panel_ok:
  assumes ok: "window_ok strict zw" and g: "logs_if strict (wn_panel (snd zw)) (g (wn_panel (snd zw)))"
  shows "window_ok strict (on_panel a g zw) \<and> rose zw (on_panel a g zw) \<and> wn_panel (snd (on_panel a g zw)) = g (wn_panel (snd zw))"
proof -
  define p where "p = wn_panel (snd zw)"
  obtain ns where ns: "pn_log (g p) = pn_log p @ ns" "shown_after ns (pn_shown p) \<longrightarrow> pn_shown (g p)"
    "list_ex is_resize ns \<or> (\<forall>k \<in> {''left'', ''top''}. pn_options (g p) k = pn_options p k)"
    and bk: "strict \<longrightarrow> pn_shown (g p) \<longrightarrow> shown_after ns (pn_shown p)"
    using g by (auto simp: logs_if_def p_def)
  define zw0 where "zw0 = (fst zw, (snd zw)\<lparr>wn_panel := g p\<rparr>)"
  have e: "on_panel a g zw = fold (window_hook a) ns zw0" using ns(1) by (simp add: on_panel_def Let_def p_def zw0_def)
  have lev: "leveled zw0" using ok by (simp add: window_ok_def zw0_def leveled_def layered_def parts_def)
  have p0: "placed (snd zw0)" using ok by (simp add: window_ok_def zw0_def placed_def)
  have r0: "rose zw zw0" by (simp add: rose_def zw0_def parts_def)
  note h = hooks_effect [OF lev, where a = a and ns = ns, folded e]
  have pan: "wn_panel (snd (on_panel a g zw)) = g p" using h by (simp add: zw0_def)
  have "synced (snd (on_panel a g zw))"
    using h ns(3) ok by (auto simp: zw0_def synced_def panel_place_def window_ok_def p_def split: if_splits)
  moreover have "masked strict (snd (on_panel a g zw))"
  proof -
    have m: "masked strict (snd zw)" using ok by (simp add: window_ok_def)
    have q: "map_option sd_shown (wn_mask (snd (on_panel a g zw))) = map_option (\<lambda>s. shown_after ns (sd_shown s)) (wn_mask (snd zw))"
      "wn_modal (snd (on_panel a g zw)) = wn_modal (snd zw)"
      using h by (simp_all add: zw0_def)
    show ?thesis
    proof (cases "wn_mask (snd zw)")
      case None
      then show ?thesis using m q by (simp add: masked_iff split: if_splits)
    next
      case (Some s)
      then have c: "wn_modal (snd zw)" "sd_shown s \<longrightarrow> pn_shown p" "strict \<longrightarrow> pn_shown p \<longrightarrow> sd_shown s"
        using m by (auto simp: masked_iff p_def split: if_splits)
      have "shown_after ns (sd_shown s) \<longrightarrow> pn_shown (g p)" "strict \<longrightarrow> pn_shown (g p) \<longrightarrow> shown_after ns (sd_shown s)"
        using c(2,3) ns(2) bk shown_after_less by blast+
      then show ?thesis using q pan c(1) Some by (auto simp: masked_iff)
    qed
  qed
  moreover have "raised strict (snd (on_panel a g zw))"
    using h ok pan bk shown_opened [of ns "pn_shown p"] by (auto simp: window_ok_def raised_def zw0_def p_def)
  ultimately show ?thesis using h p0 rose_trans [OF r0] pan by (auto simp: window_ok_def p_def)
qed

lemma move_window_ok:
  assumes "nearly_ok strict (fst zw, (snd zw)\<lparr>wn_options := given_options new [''left'', ''top''] (wn_options (snd zw))\<rparr>)"
  shows "window_ok strict (move_window new zw) \<and> rose zw (move_window new zw) \<and> wn_panel (snd (move_window new zw)) =
    move_panel (given_options new [''left'', ''top''] (wn_options (snd zw))) (wn_panel (snd zw))"
proof -
  define w where "w = (snd zw)\<lparr>wn_options := given_options new [''left'', ''top''] (wn_options (snd zw))\<rparr>"
  define p where "p = move_panel (wn_options w) (wn_panel w)"
  have l: "drop (length (pn_log (wn_panel w))) (pn_log p) = [Moved (pn_options p ''left'') (pn_options p ''top'')]"
    by (simp add: p_def move_panel_def Let_def)
  have e: "move_window new zw = (fst zw, w\<lparr>wn_panel := p, wn_shadow := put_shade (wn_options w ''left'') (wn_options w ''top'') (wn_shadow w)\<rparr>)"
    by (simp add: move_window_def w_def [symmetric] on_panel_def Let_def p_def [symmetric] l window_hook_def)
  have s: "pn_shown p = pn_shown (wn_panel w)" "\<And>k. k \<in> {''left'', ''top''} \<Longrightarrow> pn_options p k = (if wn_options w k \<noteq> None then wn_options w k else pn_options (wn_panel w) k)"
    by (simp_all add: p_def move_panel_def Let_def given_options_def)
  have ok: "nearly_ok strict (fst zw, w)" using assms by (simp add: w_def)
  define u where "u = w\<lparr>wn_panel := p, wn_shadow := put_shade (wn_options w ''left'') (wn_options w ''top'') (wn_shadow w)\<rparr>"
  have ok0: "masked strict w" "raised strict w" using ok by (simp_all add: nearly_ok_def)
  have "masked strict u" by (rule masked_cong [OF ok0(1)]) (simp_all add: u_def s(1))
  moreover have "raised strict u" by (rule raised_cong [OF ok0(2)]) (simp_all add: u_def s(1))
  moreover have "leveled (fst zw, u)" "placed u"
    using ok by (auto simp: nearly_ok_def u_def leveled_def layered_def parts_def placed_def put_shade_def shade_level_def split: option.splits)
  moreover have "synced u" using ok s(2) by (auto simp: nearly_ok_def u_def synced_def)
  ultimately have "window_ok strict (move_window new zw)" unfolding e u_def [symmetric] window_ok_def by simp
  moreover have "parts (snd (move_window new zw)) = parts (snd zw)" unfolding e by (simp add: parts_def w_def)
  then have "rose zw (move_window new zw)" unfolding e rose_def by simp
  ultimately show ?thesis unfolding e by (simp add: p_def w_def)
qed

lemma collapse_window_ok:
  assumes "window_ok strict zw"
  shows "window_ok strict (collapse_window a zw) \<and> rose zw (collapse_window a zw)"
proof -
  define zw1 where "zw1 = on_panel False end_slide zw"
  define zw2 where "zw2 = (fst zw1, (snd zw1)\<lparr>wn_shadow := show_shade False (wn_shadow (snd zw1))\<rparr>)"
  have 1: "window_ok strict zw1" "rose zw zw1" using on_panel_ok [where g = end_slide and a = False, OF assms logs_some [OF logs_end_slide]] by (simp_all add: zw1_def)
  have p: "parts (snd zw2) = parts (snd zw1)" by (simp add: zw2_def parts_def)
  have "masked strict (snd zw1)" "raised strict (snd zw1)" using 1(1) by (simp_all add: window_ok_def)
  then have m: "masked strict (snd zw2)" "raised strict (snd zw2)" by (auto simp: zw2_def intro: masked_cong raised_cong)
  have "leveled zw2" "synced (snd zw2)" using 1(1) by (simp_all add: window_ok_def zw2_def leveled_def layered_def parts_def synced_def)
  moreover have "placed (snd zw2)" using 1(1) by (simp add: window_ok_def zw2_def placed_shade)
  ultimately have 2: "window_ok strict zw2" using m by (simp add: window_ok_def)
  have r2: "rose zw zw2" by (rule rose_same [OF 1(2) _ p]) (simp add: zw2_def)
  note 3 = on_panel_ok [where g = "collapse_panel a" and a = False, OF 2 logs_some [OF logs_collapse]]
  have "collapse_window a zw = (if pn_collapsed (wn_panel (snd zw)) then zw else if \<not> pn_allow (wn_panel (snd zw1)) MayCollapse then zw1
      else on_panel False (collapse_panel a) zw2)"
    by (simp add: collapse_window_def Let_def zw1_def zw2_def)
  then show ?thesis using assms 1 3 rose_trans [OF r2] rose_refl by simp
qed

lemma click_window_ok:
  assumes "window_ok strict zw" "pn_shown (wn_panel (snd zw))"
  shows "window_ok strict (click_window t zw) \<and> rose zw (click_window t zw)"
  using collapse_window_ok [OF assms(1)] on_panel_ok [where g = "click_tool t" and a = False, OF assms(1) logs_some [OF logs_tool [OF assms(2)]]] by (simp add: click_window_def)

lemma size_window: "is_resize n \<Longrightarrow> window_hook False n (z, w) = (z, fit_shadow (w\<lparr>wn_options := panel_place (wn_panel w) (wn_options w)\<rparr>))"
  by (cases n) (simp_all add: is_resize_def window_hook_def)

lemma init_window_ok:
  assumes "leveled zw"
  shows "window_ok strict (init_window new v zw) \<and> rose zw (init_window new v zw)"
proof -
  define w where "w = (snd zw)\<lparr>wn_options := (\<lambda>k. if new k \<noteq> None then new k else wn_options (snd zw) k)\<rparr>"
  define p where "p = init_panel True (panel_of w (wn_panel w))"
  obtain n where n: "is_resize n" "pn_log p = pn_log (wn_panel w) @ [n]"
    using size_log [of False "(panel_of w (wn_panel w))\<lparr>pn_loaded := False, pn_shown := True\<rparr>"]
    by (auto simp: p_def init_panel_def Let_def panel_of_def)
  define w1 where "w1 = fit_shadow (w\<lparr>wn_panel := p, wn_options := panel_place p (wn_options w)\<rparr>)"
  have e1: "on_panel False (\<lambda>p. init_panel True (panel_of w p)) (fst zw, w) = (fst zw, w1)"
    using n(2) size_window [OF n(1)] by (simp add: on_panel_def p_def [symmetric] w1_def)
  define w2 where "w2 = w1\<lparr>wn_mask := (if wn_modal w then Some new_shade else None), wn_shadow := (if wn_shadowed w then Some new_shade else None)\<rparr>"
  define w3 where "w3 = (if wn_options w2 ''left'' = None then hcenter v w2 else w2)"
  define w4 where "w4 = (if wn_options w3 ''top'' = None then vcenter v w3 else w3)"
  have e: "init_window new v zw = (if wn_closed w then move_window Map.empty (fst zw, w4) else open_window False (move_window Map.empty (fst zw, w4)))"
    by (simp only: init_window_def Let_def w_def [symmetric] e1 fst_conv snd_conv w2_def [symmetric] w3_def [symmetric] w4_def [symmetric])
  have w4: "wn_panel w4 = p" "wn_mask w4 = wn_mask w2" "wn_shadow w4 = wn_shadow w2" "wn_z w4 = wn_z (snd zw)" "wn_modal w4 = wn_modal w"
    by (simp_all add: w4_def w3_def hcenter_def vcenter_def w2_def w1_def w_def)
  have hid: "\<not> pn_shown p" by (simp add: p_def init_panel_def Let_def panel_of_def)
  have lv: "shade_level (wn_mask w4) = None" "shade_level (wn_shadow w4) = None"
    unfolding w4(2,3) by (simp_all add: w2_def shade_level_def new_shade_def)
  have sub: "parts w4 \<subseteq> parts (snd zw)" by (auto simp: parts_def w4(4) lv)
  have "leveled (fst zw, w4)" using assms sub by (auto simp: leveled_def layered_def lv)
  moreover have "masked strict w4" using hid unfolding masked_def w4 by (auto simp: w2_def new_shade_def)
  moreover have "k \<in> {''left'', ''top''} \<Longrightarrow> wn_options w4 k = None \<Longrightarrow> pn_options p k = None" for k
    by (auto simp: w4_def w3_def hcenter_def vcenter_def w2_def w1_def panel_place_def split: if_splits)
  moreover have "raised strict w4" using hid by (simp add: raised_def w4(1))
  ultimately have "nearly_ok strict (fst zw, w4)" by (simp add: nearly_ok_def w4(1))
  then have "nearly_ok strict (fst (fst zw, w4), (snd (fst zw, w4))\<lparr>wn_options := given_options Map.empty [''left'', ''top''] (wn_options (snd (fst zw, w4)))\<rparr>)"
    by (simp add: given_options_def)
  note m = move_window_ok [OF this]
  have r4: "rose zw (fst zw, w4)" using sub by (simp add: rose_def)
  have ok5: "window_ok strict (move_window Map.empty (fst zw, w4))" "rose zw (move_window Map.empty (fst zw, w4))"
    using m rose_trans [OF r4] by blast+
  have "window_ok strict (open_window False (move_window Map.empty (fst zw, w4))) \<and> rose zw (open_window False (move_window Map.empty (fst zw, w4)))"
    using on_panel_ok [where g = "open_panel False" and a = True, OF ok5(1) logs_some [OF logs_open]] rose_trans [OF ok5(2)] by (simp add: open_window_def)
  with ok5 show ?thesis unfolding e by simp
qed

lemma window_ok_cong:
  assumes "window_ok strict zw" "fst zw \<le> z" "wn_panel w = wn_panel (snd zw)" "wn_options w = wn_options (snd zw)" "wn_modal w = wn_modal (snd zw)"
    "wn_mask w = wn_mask (snd zw)" "wn_shadow w = wn_shadow (snd zw)" "wn_z w = wn_z (snd zw)"
  shows "window_ok strict (z, w) \<and> rose zw (z, w)"
proof -
  have "masked strict w" "raised strict w" using assms by (auto simp: window_ok_def intro: masked_cong raised_cong)
  then show ?thesis using assms by (fastforce simp: window_ok_def leveled_def layered_def parts_def placed_def synced_def rose_def)
qed

lemma options_nearly:
  assumes "window_ok strict zw" "\<And>k. k \<in> {''left'', ''top''} \<Longrightarrow> ops k = None \<Longrightarrow> wn_options (snd zw) k = None"
  shows "nearly_ok strict (fst zw, (snd zw)\<lparr>wn_options := ops\<rparr>)"
proof -
  have "masked strict ((snd zw)\<lparr>wn_options := ops\<rparr>)" "raised strict ((snd zw)\<lparr>wn_options := ops\<rparr>)"
    using assms(1) by (auto simp: window_ok_def intro: masked_cong raised_cong)
  then show ?thesis using assms by (auto simp: nearly_ok_def window_ok_def leveled_def layered_def parts_def synced_def)
qed

lemma moved_ok:
  assumes "window_ok strict zw" "\<And>k. k \<in> {''left'', ''top''} \<Longrightarrow> ops k = None \<Longrightarrow> wn_options (snd zw) k = None"
  shows "window_ok strict (move_window Map.empty (fst zw, (snd zw)\<lparr>wn_options := ops\<rparr>)) \<and> rose zw (move_window Map.empty (fst zw, (snd zw)\<lparr>wn_options := ops\<rparr>))"
proof -
  define zw1 where "zw1 = (fst zw, (snd zw)\<lparr>wn_options := ops\<rparr>)"
  have "nearly_ok strict (fst zw1, (snd zw1)\<lparr>wn_options := given_options Map.empty [''left'', ''top''] (wn_options (snd zw1))\<rparr>)"
    using options_nearly [OF assms(1)] assms(2) by (simp add: zw1_def given_options_def)
  from move_window_ok [OF this] have m: "window_ok strict (move_window Map.empty zw1)" "rose zw1 (move_window Map.empty zw1)" by blast+
  have "rose zw zw1" by (simp add: rose_def zw1_def parts_def)
  with m rose_trans show ?thesis unfolding zw1_def by blast
qed

lemma window_step_ok:
  assumes "window_ok strict zw" "window_step zw e = Some zw'" "strict \<longrightarrow> e = WRestore \<longrightarrow> pn_shown (wn_panel (snd zw))"
  shows "window_ok strict zw' \<and> rose zw zw'"
proof -
  have lev: "leveled zw" using assms(1) by (simp add: window_ok_def)
  note p = on_panel_ok [OF assms(1)]
  note c = window_ok_cong [OF assms(1)]
  have hc: "hcenter v w = w\<lparr>wn_options := wn_options (hcenter v w)\<rparr>" "vcenter v w = w\<lparr>wn_options := wn_options (vcenter v w)\<rparr>" for v w
    by (simp_all add: hcenter_def vcenter_def)
  show ?thesis
  proof (cases e)
    case (WMove new)
    have "nearly_ok strict (fst zw, (snd zw)\<lparr>wn_options := given_options new [''left'', ''top''] (wn_options (snd zw))\<rparr>)"
      by (rule options_nearly [OF assms(1)]) (auto simp: given_options_def split: if_splits)
    from move_window_ok [OF this] show ?thesis using assms(2) WMove by (simp add: window_step_def Let_def)
  next
    case (WHcenter v)
    have "window_ok strict (move_window Map.empty (fst zw, hcenter v (snd zw))) \<and> rose zw (move_window Map.empty (fst zw, hcenter v (snd zw)))"
      unfolding hcenter_def by (rule moved_ok [OF assms(1)]) (auto split: if_splits)
    then show ?thesis using assms(2) WHcenter by (simp add: window_step_def Let_def)
  next
    case (WVcenter v)
    have "window_ok strict (move_window Map.empty (fst zw, vcenter v (snd zw))) \<and> rose zw (move_window Map.empty (fst zw, vcenter v (snd zw)))"
      unfolding vcenter_def by (rule moved_ok [OF assms(1)]) (auto split: if_splits)
    then show ?thesis using assms(2) WVcenter by (simp add: window_step_def Let_def)
  next
    case (WCenter v)
    define ops where "ops = wn_options (vcenter v (hcenter v (snd zw)))"
    have h: "vcenter v (hcenter v (snd zw)) = (snd zw)\<lparr>wn_options := ops\<rparr>"
      by (simp add: hcenter_def vcenter_def ops_def)
    have "ops k = None \<Longrightarrow> k \<notin> {''left'', ''top''}" for k by (auto simp: ops_def hcenter_def vcenter_def split: if_splits)
    then have "window_ok strict (move_window Map.empty (fst zw, vcenter v (hcenter v (snd zw)))) \<and> rose zw (move_window Map.empty (fst zw, vcenter v (hcenter v (snd zw))))"
      unfolding h using moved_ok [OF assms(1), of ops] by blast
    then show ?thesis using assms(2) WCenter by (simp add: window_step_def Let_def)
  next
    case (WDragStop pos)
    define ops where "ops = (wn_options (snd zw))(''left'' \<mapsto> JNum (of_int (fst pos)), ''top'' \<mapsto> JNum (of_int (snd pos)))"
    have m: "window_ok strict (move_window Map.empty (fst zw, (snd zw)\<lparr>wn_options := ops\<rparr>)) \<and> rose zw (move_window Map.empty (fst zw, (snd zw)\<lparr>wn_options := ops\<rparr>))"
      by (rule moved_ok [OF assms(1)]) (auto simp: ops_def split: if_splits)
    define zw1 where "zw1 = move_window Map.empty (fst zw, (snd zw)\<lparr>wn_options := ops\<rparr>)"
    have z: "zw' = (fst zw1, (snd zw1)\<lparr>wn_proxy := None\<rparr>)"
      using assms(2) WDragStop by (simp add: window_step_def Let_def drag_stop_def ops_def [symmetric] zw1_def [symmetric] split: if_splits)
    have "window_ok strict zw' \<and> rose zw1 zw'" unfolding z by (rule window_ok_cong) (use m in \<open>simp_all add: zw1_def\<close>)
    then show ?thesis using m rose_trans [of zw zw1 zw'] by (simp add: zw1_def)
  next
    case (WResizeStop b)
    define zw1 where "zw1 = on_panel False (resize_panel (box_options b)) zw"
    have m: "window_ok strict zw1" "rose zw zw1" using p [where g = "resize_panel (box_options b)" and a = False, OF logs_some [OF logs_resize]] by (simp_all add: zw1_def)
    have z: "zw' = (fst zw1, (snd zw1)\<lparr>wn_pmask := None, wn_proxy := None\<rparr>)"
      using assms(2) WResizeStop by (simp add: window_step_def Let_def resize_stop_def zw1_def [symmetric] split: if_splits)
    have "window_ok strict zw' \<and> rose zw1 zw'" unfolding z by (rule window_ok_cong) (use m in simp_all)
    then show ?thesis using m rose_trans by blast
  next
    case (WDragStart pos)
    define zw1 where "zw1 = raise_window zw"
    have r: "leveled zw1" "rose zw zw1" using raise_levels by (simp_all add: zw1_def)
    have f: "wn_panel (snd zw1) = wn_panel (snd zw)" "wn_modal (snd zw1) = wn_modal (snd zw)" "wn_options (snd zw1) = wn_options (snd zw)"
      "map_option sd_shown (wn_mask (snd zw1)) = map_option sd_shown (wn_mask (snd zw))" "wn_z (snd zw1) \<noteq> None" "placed (snd zw1)"
      using raise_placed [of zw] assms(1) by (simp_all add: zw1_def window_ok_def)
    have "masked strict (snd zw)" using assms(1) by (simp add: window_ok_def)
    then have "masked strict (snd zw1)" by (rule masked_cong) (simp_all add: f)
    then have ok1: "window_ok strict zw1" using r f assms(1) by (simp add: window_ok_def synced_def raised_def)
    obtain s where z: "zw' = (fst zw1 + 1, (snd zw1)\<lparr>wn_proxy := Some s, wn_timers := wn_timers (snd zw1) + 1\<rparr>)"
      using assms(2) WDragStart by (auto simp: window_step_def Let_def drag_start_def zw1_def [symmetric] split: if_splits prod.splits)
    have "window_ok strict zw' \<and> rose zw1 zw'" unfolding z by (rule window_ok_cong [OF ok1]) simp_all
    then show ?thesis using r rose_trans by blast
  next
    case (WDrag pos)
    then obtain s where z: "zw' = (fst zw, (snd zw)\<lparr>wn_proxy := Some s\<rparr>)"
      using assms(2) by (auto simp: window_step_def Let_def drag_move_def split: if_splits option.splits)
    show ?thesis unfolding z by (rule c) simp_all
  next
    case (WResizing b)
    then obtain s where z: "zw' = (fst zw, (snd zw)\<lparr>wn_proxy := Some s\<rparr>)"
      using assms(2) by (auto simp: window_step_def Let_def resize_move_def split: if_splits option.splits)
    show ?thesis unfolding z by (rule c) simp_all
  next
    case (WResizeStart b)
    then obtain s t where z: "zw' = (fst zw + 2, (snd zw)\<lparr>wn_pmask := Some s, wn_proxy := Some t\<rparr>)"
      using assms(2) by (auto simp: window_step_def Let_def resize_start_def split: if_splits)
    show ?thesis unfolding z by (rule c) simp_all
  next
    case WTimer
    then obtain s n where z: "zw' = (fst zw, (snd zw)\<lparr>wn_timers := n, wn_proxy := s\<rparr>)"
      using assms(2) by (auto simp: window_step_def Let_def proxy_timer_def split: if_splits)
    show ?thesis unfolding z by (rule c) simp_all
  next
    case (WCollapse a)
    then show ?thesis using assms(2) collapse_window_ok [OF assms(1)] by (auto simp: window_step_def Let_def)
  next
    case (WTool t)
    then show ?thesis using assms(2) click_window_ok [OF assms(1)] by (auto simp: window_step_def Let_def split: if_splits)
  next
    case (WInit new v)
    then show ?thesis using assms(2) init_window_ok [OF lev, where new = new and v = v and strict = strict] by (simp add: window_step_def Let_def)
  next
    case WRestore
    have "logs_if strict (wn_panel (snd zw)) (restore_panel (wn_panel (snd zw)))" by (rule logs_if_restore) (use assms(3) WRestore in simp)
    from p [where g = restore_panel and a = False, OF this] show ?thesis using assms(2) WRestore by (simp add: window_step_def Let_def)
  qed (use assms(2) p [OF logs_some] panel_logs in \<open>auto simp: window_step_def Let_def open_window_def split: if_splits\<close>)
qed

section \<open>The windows of a page\<close>

definition wpage_ok :: "bool \<Rightarrow> wpage \<Rightarrow> bool" where
  "wpage_ok strict pg =
     ((\<forall>i w. i < length (wp_windows pg) \<and> wp_windows pg ! i = Some w \<longrightarrow> window_ok strict (wp_z pg, w))
      \<and> (\<forall>i j w v. i < length (wp_windows pg) \<and> j < length (wp_windows pg) \<and> i \<noteq> j \<and> wp_windows pg ! i = Some w \<and> wp_windows pg ! j = Some v
           \<longrightarrow> apart w v))"

lemma apart_sym: "apart w v \<Longrightarrow> apart v w"
  by (auto simp: apart_def)

lemma rose_apart:
  assumes "rose (z, w) (z', w')" "\<forall>y \<in> parts v. y < z" "apart w v"
  shows "apart w' v"
  using assms by (fastforce simp: rose_def apart_def)

lemma ok_later: "window_ok strict (z, w) \<Longrightarrow> z \<le> z' \<Longrightarrow> window_ok strict (z', w)"
  by (fastforce simp: window_ok_def leveled_def)

lemma change_window:
  assumes ok: "wpage_ok strict pg" and i: "i < length (wp_windows pg)" "wp_windows pg ! i = Some w"
    and w': "window_ok strict (z', w')" "rose (wp_z pg, w) (z', w')"
  shows "wpage_ok strict (pg\<lparr>wp_z := z', wp_windows := (wp_windows pg)[i := Some w']\<rparr>)"
proof -
  have z: "wp_z pg \<le> z'" using w'(2) by (simp add: rose_def)
  have others: "apart w' v" if "j < length (wp_windows pg)" "j \<noteq> i" "wp_windows pg ! j = Some v" for j v
  proof (rule rose_apart [OF w'(2)])
    show "\<forall>y \<in> parts v. y < wp_z pg" using ok that by (auto simp: wpage_ok_def window_ok_def leveled_def)
    show "apart w v" using ok i that unfolding wpage_ok_def by blast
  qed
  have "window_ok strict (z', v)" if "j < length (wp_windows pg)" "(wp_windows pg)[i := Some w'] ! j = Some v" for j v
    using that w'(1) ok ok_later [OF _ z] by (cases "j = i") (auto simp: wpage_ok_def)
  moreover have "apart u v" if "j < length (wp_windows pg)" "k < length (wp_windows pg)" "j \<noteq> k"
    "(wp_windows pg)[i := Some w'] ! j = Some u" "(wp_windows pg)[i := Some w'] ! k = Some v" for j k u v
  proof (cases "j = i \<or> k = i")
    case True
    then show ?thesis using that others i(1) apart_sym by auto
  next
    case False
    then show ?thesis using that ok by (simp add: wpage_ok_def)
  qed
  ultimately show ?thesis by (simp add: wpage_ok_def) blast
qed

text \<open>A window is restored while it can be seen.\<close>

definition shown_restores :: "wpage \<Rightarrow> wpage_event \<Rightarrow> bool" where
  "shown_restores pg e =
     (case e of
        OnWindow i WRestore \<Rightarrow>
          (if i < length (wp_windows pg) then case wp_windows pg ! i of None \<Rightarrow> True | Some w \<Rightarrow> pn_shown (wn_panel w) else True)
      | _ \<Rightarrow> True)"

lemma wpage_step_ok:
  assumes "wpage_ok strict pg" "strict \<longrightarrow> shown_restores pg e" "wpage_step pg e = Some pg'"
  shows "wpage_ok strict pg'"
proof (cases e)
  case (NewWindow w v)
  then have f: "fresh_window w" using assms(3) by (simp add: wpage_step_def split: if_splits)
  then have p: "parts w = {}" by (simp add: fresh_window_def parts_def shade_level_def)
  obtain z' w' where i: "init_window Map.empty v (wp_z pg, w) = (z', w')" by fastforce
  have "leveled (wp_z pg, w)" using f p by (simp add: leveled_def layered_def fresh_window_def shade_level_def)
  from init_window_ok [OF this, where new = Map.empty and v = v and strict = strict] have ok: "window_ok strict (z', w')" "rose (wp_z pg, w) (z', w')" by (simp_all add: i)
  then have z: "wp_z pg \<le> z'" by (simp add: rose_def)
  have pg': "pg' = pg\<lparr>wp_z := z', wp_windows := wp_windows pg @ [Some w']\<rparr>" using assms(3) NewWindow f i by (simp add: wpage_step_def)
  have others: "apart w' u" if "j < length (wp_windows pg)" "wp_windows pg ! j = Some u" for j u
  proof (rule rose_apart [OF ok(2)])
    show "\<forall>y \<in> parts u. y < wp_z pg" using assms(1) that by (auto simp: wpage_ok_def window_ok_def leveled_def)
  qed (simp add: apart_def p)
  have "window_ok strict (z', u)" if "j < Suc (length (wp_windows pg))" "(wp_windows pg @ [Some w']) ! j = Some u" for j u
    using that ok(1) assms(1) ok_later [OF _ z] by (auto simp: wpage_ok_def nth_append less_Suc_eq)
  moreover have "apart u t" if jk: "j < Suc (length (wp_windows pg))" "k < Suc (length (wp_windows pg))" "j \<noteq> k"
    "(wp_windows pg @ [Some w']) ! j = Some u" "(wp_windows pg @ [Some w']) ! k = Some t" for j k u t
  proof -
    consider "j < length (wp_windows pg)" "k < length (wp_windows pg)" | "j = length (wp_windows pg)" "k < length (wp_windows pg)"
      | "k = length (wp_windows pg)" "j < length (wp_windows pg)"
      using jk(1-3) by linarith
    then show ?thesis
    proof cases
      case 1
      then show ?thesis using jk assms(1) by (simp add: wpage_ok_def nth_append)
    next
      case 2
      then show ?thesis using jk others [of k t] by (simp add: nth_append)
    next
      case 3
      then show ?thesis using jk others [of j u] apart_sym by (simp add: nth_append)
    qed
  qed
  ultimately show ?thesis by (simp add: wpage_ok_def pg') blast
next
  case (OnWindow i e)
  then obtain w z' w' where w: "i < length (wp_windows pg)" "wp_windows pg ! i = Some w" "window_step (wp_z pg, w) e = Some (z', w')"
    "pg' = pg\<lparr>wp_z := z', wp_windows := (wp_windows pg)[i := Some w']\<rparr>"
    using assms(3) by (auto simp: wpage_step_def split: if_splits option.splits)
  have "window_ok strict (wp_z pg, w)" using assms(1) w(1,2) by (simp add: wpage_ok_def)
  moreover have "strict \<longrightarrow> e = WRestore \<longrightarrow> pn_shown (wn_panel (snd (wp_z pg, w)))" using assms(2) w(1,2) OnWindow by (auto simp: shown_restores_def)
  ultimately have "window_ok strict (z', w') \<and> rose (wp_z pg, w) (z', w')" by (rule window_step_ok [OF _ w(3)])
  then show ?thesis unfolding w(4) using change_window [OF assms(1) w(1,2)] by blast
next
  case (DestroyWindow i f)
  have *: "wpage_ok strict (pg\<lparr>wp_windows := (wp_windows pg)[i := None], wp_left := ls\<rparr>)" if "i < length (wp_windows pg)" for ls
    using assms(1) that unfolding wpage_ok_def by (auto simp: nth_list_update split: if_splits)
  have "wpage_ok strict (pg\<lparr>wp_windows := (wp_windows pg)[i := None]\<rparr>)" if "i < length (wp_windows pg)"
    using * [OF that, of "wp_left pg"] by simp
  note * = * this
  with * assms DestroyWindow show ?thesis by (auto simp: wpage_step_def split: if_splits option.splits)
qed

interpretation window_page: guarded_machine wpage_step "\<lambda>pg e. strict \<longrightarrow> shown_restores pg e" "wpage_ok strict" for strict
  by unfold_locales (rule wpage_step_ok)

lemma empty_wpage_ok: "wpage_ok strict empty_wpage"
  by (simp add: wpage_ok_def empty_wpage_def)

text \<open>
  C39. However the windows of a page are made, opened, closed, collapsed, maximized, moved, dragged,
  resized and destroyed, they stay in layers: a window, its shadow and its mask are all above or all
  below those of any other window, the mask below the shadow and the shadow below the window; the
  modal windows are those with a mask, the window of a shown mask is shown, and the shadow is where
  the window is. If no window is restored while it is hidden, the mask of a modal window is shown
  exactly while the window is.
\<close>

theorem windows_session:
  assumes "run_events wpage_step empty_wpage es = Some pg" "i < length (wp_windows pg)" "wp_windows pg ! i = Some w"
  shows "layered w \<and> placed w \<and> synced w
    \<and> wn_modal w = (wn_mask w \<noteq> None)
    \<and> (\<forall>s. wn_mask w = Some s \<longrightarrow> sd_shown s \<longrightarrow> pn_shown (wn_panel w))
    \<and> (along wpage_step shown_restores empty_wpage es \<longrightarrow> (\<forall>s. wn_mask w = Some s \<longrightarrow> sd_shown s = pn_shown (wn_panel w)))
    \<and> (\<forall>j v. j < length (wp_windows pg) \<and> j \<noteq> i \<and> wp_windows pg ! j = Some v \<longrightarrow> apart w v)"
proof -
  have run: "wpage_ok strict pg" if "strict \<longrightarrow> along wpage_step shown_restores empty_wpage es" for strict
    by (rule window_page.inv_along [OF empty_wpage_ok _ assms(1)]) (use that in \<open>simp add: along_guard\<close>)
  have ok: "wpage_ok False pg" by (rule run) simp
  then have "window_ok False (wp_z pg, w)" using assms(2,3) by (simp add: wpage_ok_def)
  moreover have "masked True w" if "along wpage_step shown_restores empty_wpage es"
    using run [of True] that assms(2,3) by (simp add: wpage_ok_def window_ok_def)
  then have "along wpage_step shown_restores empty_wpage es \<longrightarrow> (\<forall>s. wn_mask w = Some s \<longrightarrow> sd_shown s = pn_shown (wn_panel w))"
    unfolding masked_def by blast
  moreover have "apart w v" if "j < length (wp_windows pg)" "j \<noteq> i" "wp_windows pg ! j = Some v" for j v
    using ok assms(2,3) that unfolding wpage_ok_def by blast
  ultimately show ?thesis unfolding window_ok_def leveled_def masked_def fst_conv snd_conv by blast
qed

definition sample_window :: "bool \<Rightarrow> window" where
  "sample_window modal =
     \<lparr>wn_panel = sample_panel, wn_options = Map.empty, wn_modal = modal, wn_shadowed = True, wn_closed = False, wn_draggable = True, wn_resizable = True,
      wn_z = None, wn_mask = None, wn_shadow = None, wn_proxy = None, wn_pmask = None, wn_timers = 0, wn_outer = (\<lambda>p. (300, 200))\<rparr>"

definition sample_view :: view where
  "sample_view = ((1000, 600), (0, 0))"

definition window_events :: "wpage_event list" where
  "window_events = [NewWindow (sample_window False) sample_view, NewWindow (sample_window True) sample_view, OnWindow 0 (WDragStart (10, 20)),
     OnWindow 0 (WDrag (30, 40)), OnWindow 0 (WDragStop (30, 40))]"

theorem windows_session_witness:
  "\<exists>pg w v. run_events wpage_step empty_wpage window_events = Some pg \<and> wp_windows pg = [Some w, Some v]
    \<and> layered w \<and> placed w \<and> apart w v
    \<and> (\<forall>s. wn_mask v = Some s \<longrightarrow> sd_shown s = pn_shown (wn_panel v)) \<and> wn_modal v = (wn_mask v \<noteq> None) \<and> wn_z w = Some 9006 \<and> wn_z v = Some 9004 \<and> wn_options w ''left'' = Some (JNum 30)"
proof -
  have "map_option (\<lambda>pg. map (\<lambda>x. map_option (\<lambda>w. (wn_z w, wn_options w ''left'')) x) (wp_windows pg)) (run_events wpage_step empty_wpage window_events)
      = Some [Some (Some 9006, Some (JNum 30)), Some (Some 9004, Some (JNum 350))]" by code_simp
  then obtain pg where pg: "run_events wpage_step empty_wpage window_events = Some pg"
    and o: "map (\<lambda>x. map_option (\<lambda>w. (wn_z w, wn_options w ''left'')) x) (wp_windows pg)
      = [Some (Some 9006, Some (JNum 30)), Some (Some 9004, Some (JNum 350))]" by (auto simp: map_option_eq_Some)
  then obtain w v where w: "wp_windows pg = [Some w, Some v]" "wn_z w = Some 9006" "wn_options w ''left'' = Some (JNum 30)" "wn_z v = Some 9004"
    by (auto simp: map_eq_Cons_conv)
  have a: "along wpage_step shown_restores empty_wpage window_events" by code_simp
  have i: "0 < length (wp_windows pg)" "wp_windows pg ! 0 = Some w" "Suc 0 < length (wp_windows pg)" "wp_windows pg ! Suc 0 = Some v" by (simp_all add: w)
  have "layered w \<and> placed w \<and> apart w v" using windows_session [OF pg i(1,2)] i(3,4) by blast
  moreover have "(\<forall>s. wn_mask v = Some s \<longrightarrow> sd_shown s = pn_shown (wn_panel v)) \<and> wn_modal v = (wn_mask v \<noteq> None)"
    using windows_session [OF pg i(3,4)] a by blast
  ultimately show ?thesis using pg w by blast
qed

section \<open>The window on top\<close>

text \<open>A window that is opened, or taken to be dragged, gets above every other window, with its mask and shadow.\<close>

theorem taken_on_top:
  assumes "wpage_ok strict pg" "i < length (wp_windows pg)" "wp_windows pg ! i = Some w" "wpage_step pg (OnWindow i (WDragStart pos)) = Some pg'"
    "j < length (wp_windows pg)" "j \<noteq> i" "wp_windows pg ! j = Some v"
  shows "\<exists>w'. wp_windows pg' ! i = Some w' \<and> wp_windows pg' ! j = Some v \<and> (\<forall>x \<in> parts w'. \<forall>y \<in> parts v. y < x)"
proof -
  obtain z' w' where s: "window_step (wp_z pg, w) (WDragStart pos) = Some (z', w')"
    "pg' = pg\<lparr>wp_z := z', wp_windows := (wp_windows pg)[i := Some w']\<rparr>"
    using assms(2-4) by (auto simp: wpage_step_def)
  have v: "\<forall>y \<in> parts v. y < wp_z pg" using assms(1,5,7) by (auto simp: wpage_ok_def window_ok_def leveled_def)
  have "\<forall>x \<in> parts w'. wp_z pg \<le> x"
    using s(1) by (auto simp: window_step_def Let_def drag_start_def raise_window_def parts_def next_level_facts split: if_splits)
  then show ?thesis using v assms(2,5-7) s(2) by fastforce
qed

section \<open>What goes wrong\<close>

text \<open>
  A window that is closed while its panel slides open gets its shadow back when the animation ends:
  the window is hidden, its shadow is not. A destruction that is forced leaves mask and shadow behind.
  A maximized modal window that is closed and then restored is shown, but with its mask hidden: one
  can work on the page behind it.
\<close>

definition shadow_events :: "wpage_event list" where
  "shadow_events = [NewWindow (sample_window True) sample_view, OnWindow 0 (WCollapse False), OnWindow 0 (WExpand True), OnWindow 0 (WClose True),
     OnWindow 0 WSlideEnds]"

theorem stray_shadow:
  "map_option (\<lambda>pg. map (map_option (\<lambda>w. (pn_shown (wn_panel w), map_option sd_shown (wn_shadow w)))) (wp_windows pg))
     (run_events wpage_step empty_wpage shadow_events) = Some [Some (False, Some True)]"
  by code_simp

definition unmasked_events :: "wpage_event list" where
  "unmasked_events = [NewWindow (sample_window True) sample_view, OnWindow 0 WMaximize, OnWindow 0 (WClose True), OnWindow 0 WRestore]"

theorem restored_without_mask:
  "map_option (\<lambda>pg. map (map_option (\<lambda>w. (wn_modal w, pn_shown (wn_panel w), map_option sd_shown (wn_mask w)))) (wp_windows pg))
     (run_events wpage_step empty_wpage unmasked_events) = Some [Some (True, True, Some False)]"
  by code_simp

theorem forced_leaves_mask:
  "map_option (\<lambda>pg. (map Option.is_none (wp_windows pg) = [True], map sd_shown (wp_left pg)))
     (run_events wpage_step empty_wpage [NewWindow (sample_window True) sample_view, DestroyWindow 0 True]) = Some (True, [True, True])"
  by code_simp

end
