(* ===== verification/ComboTree.thy ===== *)
theory ComboTree
  imports TextBox TreeProps
begin

text \<open>
  \<open>plugins/jquery.combotree.js\<close>: a combo with a tree in its panel. In a field with several values
  the nodes have check boxes, and the values follow them; in a field with one value they follow the
  selection. The tree is that of the theories \<open>Tree\<close> to \<open>TreeCheck\<close>; the callbacks the combo tree puts
  into it (\<open>onCheck\<close>, \<open>onClick\<close>, \<open>onLoadSuccess\<close>) run at the end of the tree's operations, as there.
\<close>

section \<open>The field\<close>

record combotree = combo +
  ct_tree :: tree

definition on_tree :: "(tree \<Rightarrow> tree) \<Rightarrow> combotree \<Rightarrow> combotree" where
  "on_tree f c = c\<lparr>ct_tree := f (ct_tree c)\<rparr>"

definition nodes_at :: "nat list \<Rightarrow> tree \<Rightarrow> tnode list" where
  "nodes_at is t = List.map_filter (\<lambda>i. get_node i t) is"

definition node_value :: "tnode \<Rightarrow> string" where
  "node_value n = (case td_id n of None \<Rightarrow> '''' | Some s \<Rightarrow> s)"

text \<open>\<open>String(id)\<close>\<close>

definition id_string :: "string option \<Rightarrow> string" where
  "id_string v = (case v of None \<Rightarrow> ''undefined'' | Some s \<Rightarrow> s)"

text \<open>The end of \<open>_e\<close> and of \<open>_15\<close>: the text, then the values\<close>

definition put_values :: "string list \<Rightarrow> string list \<Rightarrow> combotree \<Rightarrow> combotree" where
  "put_values vs ss c =
     set_values (if cb_multiple c then vs else if vs = [] then [''''] else vs) (combo_set_text (js_join (cb_separator c) ss) c)"

text \<open>\<open>_e\<close>\<close>

definition collect_values :: "combotree \<Rightarrow> combotree" where
  "collect_values c =
     (let t = ct_tree c;
          ns = nodes_at (if cb_multiple c then get_checked [1] t else case get_selected t of None \<Rightarrow> [] | Some i \<Rightarrow> [i]) t
      in put_values (map node_value ns) (map td_text ns) c)"

text \<open>Checking a node calls \<open>onCheck\<close> at its end, unless the check is vetoed.\<close>

definition is_check :: "tree_note \<Rightarrow> bool" where
  "is_check n = (case n of OnCheck i b \<Rightarrow> True | _ \<Rightarrow> False)"

definition ct_check :: "nat \<Rightarrow> bool option \<Rightarrow> combotree \<Rightarrow> combotree" where
  "ct_check i o' c =
     (let c1 = on_tree (check_node i o') c
      in if list_ex is_check (drop (length (tr_log (ct_tree c))) (tr_log (ct_tree c1))) then collect_values c1 else c1)"

section \<open>Setting values\<close>

definition clear_boxes :: "tree \<Rightarrow> tree" where
  "clear_boxes t = t\<lparr>tr_dom := map (map_rose (put_box 0)) (tr_dom t)\<rparr>"

text \<open>The loop of \<open>_15\<close>: the node of every value is checked and selected; its text, or the value, is shown.\<close>

fun check_values :: "string list \<Rightarrow> tree \<Rightarrow> tree \<times> string list" where
  "check_values [] t = (t, [])"
| "check_values (v # vs) t =
     (case find_by_id v t of
        None \<Rightarrow> (let r = check_values vs t in (fst r, v # snd r))
      | Some n \<Rightarrow>
          (let r = check_values vs (select_node (td_domId n) (check_node (td_domId n) (Some True) t)) in (fst r, td_text n # snd r)))"

definition ct_set_values :: "string list \<Rightarrow> combotree \<Rightarrow> combotree" where
  "ct_set_values vs c =
     (let r = check_values vs (clear_boxes (ct_tree c));
          t = silently (\<lambda>u. fst r) (ct_tree c);
          more = (if cb_multiple c then filter (\<lambda>n. id_string (td_id n) \<notin> set vs) (nodes_at (get_checked [1] t) t) else [])
      in put_values (vs @ map (id_string \<circ> td_id) more) (snd r @ map td_text more) (c\<lparr>ct_tree := t\<rparr>))"

section \<open>Operations\<close>

text \<open>\<open>onClick\<close>, after the tree has selected the node\<close>

definition ct_click :: "nat \<Rightarrow> combotree \<Rightarrow> combotree" where
  "ct_click i c0 =
     (let c = on_tree (select_node i) c0
      in case get_node i (ct_tree c) of
           None \<Rightarrow> c
         | Some n \<Rightarrow> collect_values (if cb_multiple c then ct_check i (Some (\<not> td_checked n)) c else hide_panel c))"

text \<open>\<open>onLoadSuccess\<close>: the checked nodes of the data join the values.\<close>

definition ct_loaded :: "combotree \<Rightarrow> combotree" where
  "ct_loaded c =
     (let vs = map Some (tb_hidden c); ids = map td_id (nodes_at (get_checked [1] (ct_tree c)) (ct_tree c))
      in ct_set_values (map id_string (if cb_multiple c then foldl (\<lambda>vs v. if v \<in> set vs then vs else vs @ [v]) vs ids else vs)) c)"

definition ct_load :: "tnode forest \<Rightarrow> combotree \<Rightarrow> combotree" where
  "ct_load ds c = ct_loaded (on_tree (load_at None False ds) c)"

definition ct_clear :: "combotree \<Rightarrow> combotree" where
  "ct_clear c =
     (let c1 = on_tree (\<lambda>t. t\<lparr>tr_dom := map (map_rose (\<lambda>r. r\<lparr>dn_selected := False\<rparr>)) (tr_dom t)\<rparr>) c
      in combo_clear (foldl (\<lambda>c i. ct_check i (Some False) c) c1 (get_checked [1] (ct_tree c1))))"

definition ct_reset :: "combotree \<Rightarrow> combotree" where
  "ct_reset c = (if cb_multiple c then ct_set_values (cb_originals c) c else ct_set_values [tb_original c] c)"

datatype ct_event = CtClick nat | CtBox nat | CtSetValues "string list" | CtSetString string | CtSetValue string
  | CtClear | CtReset | CtLoad "tnode forest"

definition ct_step :: "combotree \<Rightarrow> ct_event \<Rightarrow> combotree" where
  "ct_step c e =
     (case e of
        CtClick i \<Rightarrow> ct_click i c
      | CtBox i \<Rightarrow> ct_check i None c
      | CtSetValues vs \<Rightarrow> ct_set_values vs c
      | CtSetString s \<Rightarrow> ct_set_values (js_split (cb_separator c) s) c
      | CtSetValue v \<Rightarrow> ct_set_values [v] c
      | CtClear \<Rightarrow> ct_clear c
      | CtReset \<Rightarrow> ct_reset c
      | CtLoad ds \<Rightarrow> ct_load ds c)"

section \<open>Values and check boxes\<close>

text \<open>
  Trees with a check box at every node, nothing hidden and ids of their own for all nodes, in which
  checking is not vetoed
\<close>

definition named_nodes :: "tree \<Rightarrow> bool" where
  "named_nodes t =
     (all_boxed (tr_dom t) \<and> distinct (map td_id (flabels (tr_data t)))
      \<and> (\<forall>n \<in> set (flabels (tr_data t)). \<not> td_hidden n \<and> td_id n \<noteq> None))"

definition plain_tree :: "tree \<Rightarrow> bool" where
  "plain_tree t =
     (tree_ok t \<and> tr_checkbox t \<and> tr_cascade t \<and> \<not> tr_deep t \<and> named_nodes t \<and> (\<forall>b n. tr_allow t (BeforeCheck b) n))"

text \<open>A node is checked exactly if its id is among the values.\<close>

definition boxes_linked :: "string list \<Rightarrow> tree \<Rightarrow> bool" where
  "boxes_linked vs t = (\<forall>n \<in> set (flabels (tr_data t)). (td_id n \<in> Some ` set vs) = (box_of (td_domId n) t = Some 1))"

text \<open>One recursion for checking: what it does to the boxes\<close>

lemma put_box_none: "(dn_box (put_box v r) = None) = (dn_box r = None)"
  by (simp add: put_box_def)

lemma all_boxed_map: "all_boxed (map (map_rose (put_box v)) es) = all_boxed es"
  by (simp add: all_boxed_def put_box_none del: not_None_eq)

lemma check_at_boxed: "all_boxed es \<Longrightarrow> all_boxed (check_at i v es)"
proof (induction es rule: forest_induct)
  case (Node r us ts)
  have "dn_box (put_box w r) \<noteq> None" for w using Node.prems put_box_boxed [of r w] by simp
  then show ?case using Node by (simp add: Let_def all_boxed_map del: not_None_eq)
qed simp

lemma check_at_ids: "map dn_id (flabels (check_at i v es)) = map dn_id (flabels es)"
  by (induction es rule: forest_induct) (auto simp: Let_def)

definition keeps_one :: "tdom \<Rightarrow> tdom \<Rightarrow> bool" where
  "keeps_one r s = (dn_id s = dn_id r \<and> (dn_box r = Some 1 \<longrightarrow> dn_box s = Some 1))"

lemma keeps_all_one: "list_all2 keeps_one rs ss \<Longrightarrow> list_all (\<lambda>r. dn_box r = Some 1) rs \<Longrightarrow> list_all (\<lambda>r. dn_box r = Some 1) ss"
  by (induction rule: list_all2_induct) (simp_all add: keeps_one_def)

lemma tri_one: "tri us = 1 \<longleftrightarrow> list_all (\<lambda>r. dn_box r = Some 1) (map label us)"
  by (simp add: tri_def list_all_iff)

lemma check_at_keeps:
  "tri_ok es \<Longrightarrow> all_boxed es \<Longrightarrow>
   list_all2 keeps_one (map label es) (map label (check_at i 1 es)) \<and> list_all2 keeps_one (flabels es) (flabels (check_at i 1 es))"
proof (induction es rule: forest_induct)
  case (Node r us ts)
  have same: "list_all2 keeps_one xs xs" for xs by (simp add: list.rel_refl keeps_one_def)
  have put: "list_all2 keeps_one (flabels us) (map (put_box 1) (flabels us))"
    using Node.prems(2) by (auto simp: list_all2_map2 list_all2_same keeps_one_def put_box_def)
  have ih: "list_all2 keeps_one (map label us) (map label (check_at i 1 us))" "list_all2 keeps_one (flabels us) (flabels (check_at i 1 us))"
    "list_all2 keeps_one (map label ts) (map label (check_at i 1 ts))" "list_all2 keeps_one (flabels ts) (flabels (check_at i 1 ts))"
    using Node by simp_all
  have up: "keeps_one r (put_box (tri (check_at i 1 us)) r)" if "us \<noteq> []"
  proof -
    have "tri (check_at i 1 us) = 1" if "dn_box r = Some 1"
    proof -
      have "tri us = 1" using Node.prems(1) that \<open>us \<noteq> []\<close> by simp
      then have "list_all (\<lambda>r. dn_box r = Some 1) (map label us)" by (simp only: tri_one)
      from keeps_all_one [OF ih(1) this] show ?thesis by (simp only: tri_one)
    qed
    then show ?thesis by (auto simp: keeps_one_def put_box_def)
  qed
  have one: "keeps_one r (put_box 1 r)" "keeps_one r r" by (simp_all add: keeps_one_def put_box_def)
  have split: "\<not> us = []" if "i \<in> set (ids us)" using that by auto
  show ?case
  proof (cases "dn_id r = i")
    case True
    then show ?thesis using put same one by (simp add: list_all2_appendI)
  next
    case False
    then show ?thesis
      using ih same one up split by (cases "i \<in> set (ids us)") (simp_all add: Let_def list_all2_appendI del: set_map)
  qed
qed simp

lemma check_at_hits:
  "distinct (ids es) \<Longrightarrow> all_boxed es \<Longrightarrow> s \<in> set (flabels (check_at i v es)) \<Longrightarrow> dn_id s = i \<Longrightarrow> dn_box s = Some v"
proof (induction es rule: forest_induct)
  case (Node r us ts)
  have "dn_id ` set (flabels (check_at i v us)) = set (ids us)" "dn_id ` set (flabels (check_at i v ts)) = set (ids ts)"
    using check_at_ids [of i v us] check_at_ids [of i v ts] by (metis list.set_map)+
  note ids = this
  show ?case
  proof (cases "dn_id r = i")
    case True
    then have "i \<notin> set (ids us)" "i \<notin> set (ids ts)" using Node.prems(1) by auto
    have "s = put_box v r \<or> s \<in> put_box v ` set (flabels us) \<or> s \<in> set (flabels ts)" using Node.prems(3) True by auto
    then show ?thesis
    proof (elim disjE imageE)
      assume "s = put_box v r"
      then show ?thesis using Node.prems(2) put_box_boxed [of r v] by simp
    next
      fix q assume "s = put_box v q" "q \<in> set (flabels us)"
      then show ?thesis using Node.prems(2) put_box_boxed [of q v] by (simp add: all_boxed_def)
    next
      assume "s \<in> set (flabels ts)"
      then show ?thesis using \<open>i \<notin> set (ids ts)\<close> Node.prems(4) by auto
    qed
  next
    case False
    show ?thesis
    proof (cases "i \<in> set (ids us)")
      case True
      then have "i \<notin> set (ids ts)" using Node.prems(1) by auto
      moreover have "s = put_box (tri (check_at i v us)) r \<or> s \<in> set (flabels (check_at i v us)) \<or> s \<in> set (flabels ts)"
        using Node.prems(3) False True by (auto simp: Let_def)
      moreover have "s \<noteq> put_box (tri (check_at i v us)) r"
      proof
        assume "s = put_box (tri (check_at i v us)) r"
        then have "dn_id s = dn_id r" by (rule arg_cong [where f = dn_id, THEN trans]) simp
        with False Node.prems(4) show False by simp
      qed
      ultimately show ?thesis using Node.IH(1) Node.prems by auto
    next
      case nin: False
      then have "s = r \<or> s \<in> set (flabels us) \<or> s \<in> set (flabels (check_at i v ts))" using Node.prems(3) False by (auto simp: Let_def)
      then show ?thesis using Node False nin by auto
    qed
  qed
qed simp

definition gains_no_one :: "tdom \<Rightarrow> tdom \<Rightarrow> bool" where
  "gains_no_one r s = (dn_id s = dn_id r \<and> (dn_box s = Some 1 \<longrightarrow> dn_box r = Some 1))"

lemma check_at_loses:
  "all_boxed es \<Longrightarrow> list_all2 gains_no_one (flabels es) (flabels (check_at i 0 es)) \<and>
   (i \<in> set (ids es) \<longrightarrow> (\<exists>e \<in> set (check_at i 0 es). dn_box (label e) \<noteq> Some 1))"
proof (induction es rule: forest_induct)
  case (Node r us ts)
  have same: "list_all2 gains_no_one xs xs" for xs by (simp add: list.rel_refl gains_no_one_def)
  have put: "list_all2 gains_no_one (flabels us) (map (put_box 0) (flabels us))"
    using Node.prems by (auto simp: list_all2_map2 list_all2_same gains_no_one_def put_box_def)
  have zero: "gains_no_one r (put_box 0 r)" "dn_box (put_box 0 r) \<noteq> Some 1" using Node.prems by (simp_all add: gains_no_one_def put_box_def)
  show ?case
  proof (cases "dn_id r = i")
    case True
    then show ?thesis using put same zero by (auto simp: list_all2_appendI rose.map_sel)
  next
    case False
    show ?thesis
    proof (cases "i \<in> set (ids us)")
      case True
      then have "tri (check_at i 0 us) \<noteq> 1" using Node by (auto simp: tri_def list_all_iff)
      then have "gains_no_one r (put_box (tri (check_at i 0 us)) r)" "dn_box (put_box (tri (check_at i 0 us)) r) \<noteq> Some 1"
        using Node.prems by (simp_all add: gains_no_one_def put_box_def)
      then show ?thesis using Node True False same by (auto simp: Let_def list_all2_appendI)
    next
      case nin: False
      have e: "check_at i 0 (Node r us # ts) = Node r us # check_at i 0 ts" using nin \<open>dn_id r \<noteq> i\<close> by simp
      have "gains_no_one r r" by (simp add: gains_no_one_def)
      then have "list_all2 gains_no_one (flabels (Node r us # ts)) (flabels (check_at i 0 (Node r us # ts)))"
        unfolding e using Node same by (simp add: list_all2_appendI)
      moreover have "\<exists>e \<in> set (check_at i 0 (Node r us # ts)). dn_box (label e) \<noteq> Some 1" if "i \<in> set (ids (Node r us # ts))"
        unfolding e using that nin \<open>dn_id r \<noteq> i\<close> Node by auto
      ultimately show ?thesis by blast
    qed
  qed
qed simp

section \<open>Trees with plain nodes\<close>

text \<open>What stays of the node objects\<close>

definition node_keys :: "tree \<Rightarrow> (nat \<times> string option) list" where
  "node_keys t = map (\<lambda>n. (td_domId n, td_id n)) (flabels (tr_data t))"

lemma boxes_linked_keys: "boxes_linked vs t = (\<forall>p \<in> set (node_keys t). (snd p \<in> Some ` set vs) = (box_of (fst p) t = Some 1))"
  by (auto simp: boxes_linked_def node_keys_def)

lemma box_of_element:
  assumes "distinct (ids (tr_dom t))" "r \<in> set (flabels (tr_dom t))"
  shows "box_of (dn_id r) t = dn_box r"
  unfolding box_of_def element_def find_unique [OF assms] by simp

lemma plain_ids:
  assumes "plain_tree t"
  shows "distinct (ids (tr_dom t))" "map td_domId (flabels (tr_data t)) = ids (tr_dom t)"
  using assms flabels_data_shape [of t] flabels_dom_shape [of t] by (simp_all add: plain_tree_def tree_ok_def)

lemma plain_known: "plain_tree t \<Longrightarrow> n \<in> set (flabels (tr_data t)) \<Longrightarrow> known (td_domId n) t"
  unfolding known_def flabels_dom_shape by (simp only: plain_ids(2) [symmetric]) simp

lemma plain_get:
  assumes "plain_tree t" "n \<in> set (flabels (tr_data t))"
  shows "get_node (td_domId n) t = Some (refresh_node t n)"
proof -
  have "distinct (map td_domId (flabels (tr_data t)))" using plain_ids [OF assms(1)] by simp
  from find_distinct [OF this assms(2)] show ?thesis
    by (simp add: get_node_def find_node_def walk_flabels by_dom_def [abs_def])
qed

lemma plain_node:
  assumes "plain_tree t" "known i t"
  obtains n where "n \<in> set (flabels (tr_data t))" "td_domId n = i"
proof -
  have "i \<in> set (map td_domId (flabels (tr_data t)))"
    using assms(2) unfolding known_def flabels_dom_shape by (simp only: plain_ids(2) [OF assms(1)])
  then show ?thesis using that by auto
qed

lemma plain_keys:
  assumes "plain_tree t"
  shows "distinct (map snd (node_keys t))" "distinct (map fst (node_keys t))"
  using assms plain_ids [OF assms] by (simp_all add: node_keys_def comp_def plain_tree_def named_nodes_def)

lemma plain_boxes:
  assumes "plain_tree t" "r \<in> set (flabels (tr_dom t))"
  shows "box_of (dn_id r) t = dn_box r"
  by (rule box_of_element [OF plain_ids(1) [OF assms(1)] assms(2)])

text \<open>Checking and selecting keep a plain tree plain, and its nodes the same.\<close>

lemma plain_cong:
  assumes "plain_tree t" "shape u = shape t" "tr_checkbox u = tr_checkbox t" "tr_cascade u = tr_cascade t" "tr_deep u = tr_deep t"
    "tr_allow u = tr_allow t" "all_boxed (tr_dom u)" "map (\<lambda>n. (td_id n, td_hidden n)) (flabels (tr_data u)) = map (\<lambda>n. (td_id n, td_hidden n)) (flabels (tr_data t))"
  shows "plain_tree u"
proof -
  have i: "map td_id (flabels (tr_data u)) = map td_id (flabels (tr_data t))"
    using assms(8) by (metis (no_types, lifting) comp_def fst_conv list.map_comp map_eq_conv)
  have n: "td_id n \<noteq> None \<and> \<not> td_hidden n" if "n \<in> set (flabels (tr_data u))" for n
  proof -
    have "(td_id n, td_hidden n) \<in> set (map (\<lambda>n. (td_id n, td_hidden n)) (flabels (tr_data u)))" using that by simp
    then have "(td_id n, td_hidden n) \<in> set (map (\<lambda>n. (td_id n, td_hidden n)) (flabels (tr_data t)))" unfolding assms(8) .
    then show ?thesis using assms(1) by (auto simp: plain_tree_def named_nodes_def)
  qed
  show ?thesis
    using assms(1,3-7) i n shape_ok [OF assms(2)] unfolding plain_tree_def named_nodes_def by (simp del: not_None_eq) blast
qed

lemma plain_check:
  assumes "plain_tree t" "known i t"
  shows "plain_tree (check_node i (Some b) t) \<and> node_keys (check_node i (Some b) t) = node_keys t
    \<and> tr_dom (check_node i (Some b) t) = check_at i (flag_value b) (tr_dom t)
    \<and> tr_log (check_node i (Some b) t) = tr_log t @ [OnCheck i b] \<and> map td_text (flabels (tr_data (check_node i (Some b) t))) = map td_text (flabels (tr_data t))"
proof -
  have e: "check_node i (Some b) t =
    tree_note (OnCheck i b) ((set_node i (\<lambda>m. m\<lparr>td_mark := Some b\<rparr>) t)\<lparr>tr_dom := check_at i (flag_value b) (tr_dom t)\<rparr>)"
    by (rule check_node_result) (use assms in \<open>auto simp: plain_tree_def named_nodes_def\<close>)
  have f: "flabels (tr_data (check_node i (Some b) t)) = map (\<lambda>n. if by_dom i n then n\<lparr>td_mark := Some b\<rparr> else n) (flabels (tr_data t))"
    unfolding e by (simp add: tree_note_def set_node_def)
  have d: "tr_dom (check_node i (Some b) t) = check_at i (flag_value b) (tr_dom t)" unfolding e by (simp add: tree_note_def)
  have "plain_tree (check_node i (Some b) t)"
  proof (rule plain_cong [OF assms(1) check_node_shape])
    show "all_boxed (tr_dom (check_node i (Some b) t))"
      unfolding d using assms(1) by (intro check_at_boxed) (simp add: plain_tree_def named_nodes_def)
  qed (simp_all add: f comp_def if_distrib, simp_all add: e tree_note_def set_node_def)
  moreover have "node_keys (check_node i (Some b) t) = node_keys t" by (simp add: node_keys_def f comp_def if_distrib)
  ultimately show ?thesis using d by (simp add: f comp_def if_distrib) (simp add: e tree_note_def set_node_def)
qed

lemma put_selected_boxes:
  assumes "\<And>r. dn_box (f r) = dn_box r" "\<And>r. dn_id (f r) = dn_id r"
  shows "all_boxed (map (map_rose f) es) = all_boxed es" "tri_ok (map (map_rose f) es) = tri_ok es"
    "map dn_box (flabels (map (map_rose f) es)) = map dn_box (flabels es)"
proof -
  show "all_boxed (map (map_rose f) es) = all_boxed es" by (simp add: all_boxed_def assms)
  have "tri (map (map_rose f) us) = tri us" for us by (simp add: tri_def assms rose.map_sel list.pred_map comp_def)
  then show "tri_ok (map (map_rose f) es) = tri_ok es" by (induction es rule: forest_induct) (simp_all add: assms)
  show "map dn_box (flabels (map (map_rose f) es)) = map dn_box (flabels es)" by (simp add: comp_def assms)
qed

text \<open>Changing what the boxes do not depend on\<close>

lemma plain_mark:
  assumes "plain_tree t" "\<And>r. dn_box (f r) = dn_box r" "\<And>r. dn_id (f r) = dn_id r"
  defines "u \<equiv> t\<lparr>tr_dom := map (map_rose f) (tr_dom t)\<rparr>"
  shows "plain_tree u \<and> node_keys u = node_keys t \<and> (\<forall>j. box_of j u = box_of j t)"
proof -
  have s: "shape u = shape t" by (simp add: u_def shape_def data_shape_def dom_shape_def rose.map_comp comp_def assms)
  have p: "plain_tree u" by (rule plain_cong [OF assms(1) s]) (use assms(1) put_selected_boxes [of f, OF assms(2,3)] in \<open>simp_all add: u_def plain_tree_def named_nodes_def\<close>)
  have b: "box_of j u = box_of j t" for j
  proof (cases "j \<in> set (ids (tr_dom t))")
    case True
    then obtain r where r: "r \<in> set (flabels (tr_dom t))" "dn_id r = j" by auto
    have "f r \<in> set (flabels (tr_dom u))" using r(1) by (simp add: u_def)
    from plain_boxes [OF p this] plain_boxes [OF assms(1) r(1)] show ?thesis using r(2) by (simp add: assms)
  next
    case False
    have "element j t = None" "element j u = None"
      using False by (auto simp: element_def find_tree_None by_id_def u_def assms)
    then show ?thesis by (simp add: box_of_def)
  qed
  show ?thesis using p b by (simp add: u_def node_keys_def)
qed

lemma plain_select:
  assumes "plain_tree t"
  shows "plain_tree (select_node i t) \<and> node_keys (select_node i t) = node_keys t \<and> (\<forall>j. box_of j (select_node i t) = box_of j t)"
proof -
  have "plain_tree (tree_note n u) = plain_tree u" "node_keys (tree_note n u) = node_keys u" "box_of j (tree_note n u) = box_of j u" for n u j
    by (simp_all add: plain_tree_def tree_ok_def data_shape_def dom_shape_def named_nodes_def tree_note_def node_keys_def box_of_def element_def)
  then show ?thesis
    using assms plain_mark [OF assms, of "\<lambda>r. r\<lparr>dn_selected := (dn_id r = i)\<rparr>"] by (auto simp: select_node_def split: option.split)
qed

section \<open>The values follow the check boxes\<close>

lemma tree_frame [simp]:
  "ct_tree (set_values vs c) = ct_tree c" "ct_tree (combo_set_text s c) = ct_tree c" "ct_tree (put_values vs ss c) = ct_tree c"
  "cb_multiple (set_values vs c) = cb_multiple c" "cb_multiple (combo_set_text s c) = cb_multiple c" "cb_multiple (put_values vs ss c) = cb_multiple c"
  "cb_multiple c \<Longrightarrow> tb_hidden (put_values vs ss c) = vs"
  by (simp_all add: put_values_def set_values_def combo_set_text_def set_text_def Let_def field_note_def)

lemma collect_frame [simp]: "ct_tree (collect_values c) = ct_tree c" "cb_multiple (collect_values c) = cb_multiple c"
  by (simp_all add: collect_values_def Let_def)

text \<open>The nodes whose boxes are checked, in the order of the document\<close>

lemma checked_ids:
  assumes "plain_tree t"
  shows "set (get_checked [1] t) = {j \<in> set (map fst (node_keys t)). box_of j t = Some 1}"
proof -
  have k: "set (map fst (node_keys t)) = set (ids (tr_dom t))" using plain_ids(2) [OF assms] by (simp only: node_keys_def list.map_comp comp_def fst_conv)
  have "j \<in> set (get_checked [1] t) \<longleftrightarrow> (\<exists>r \<in> set (flabels (tr_dom t)). dn_id r = j \<and> dn_box r = Some 1)" for j
    by (auto simp: get_checked_def split: option.splits)
  then show ?thesis unfolding k using plain_boxes [OF assms] by auto
qed

lemma key_in: "n \<in> set (flabels (tr_data t)) \<Longrightarrow> (td_domId n, td_id n) \<in> set (node_keys t)"
  by (simp add: node_keys_def)

lemma nodes_at_values:
  assumes "plain_tree t" "\<forall>i \<in> set is. i \<in> set (map fst (node_keys t))"
  shows "set (map node_value (nodes_at is t)) = {s. \<exists>j \<in> set is. (j, Some s) \<in> set (node_keys t)}"
proof -
  have g: "\<exists>n \<in> set (flabels (tr_data t)). td_domId n = i \<and> get_node i t = Some (refresh_node t n)" if "i \<in> set is" for i
  proof -
    obtain n where "n \<in> set (flabels (tr_data t))" "td_domId n = i" using assms(2) \<open>i \<in> set is\<close> by (auto simp: node_keys_def)
    then show ?thesis using plain_get [OF assms(1)] by blast
  qed
  have one: "node_value (refresh_node t n) = s \<longleftrightarrow> td_id n = Some s" if "n \<in> set (flabels (tr_data t))" for n s
    using assms(1) that by (auto simp: plain_tree_def named_nodes_def node_value_def refresh_node_def split: option.splits)
  have uniq: "m = n" if "m \<in> set (flabels (tr_data t))" "n \<in> set (flabels (tr_data t))" "td_domId m = td_domId n" for m n
    using plain_ids [OF assms(1)] that by (metis distinct_map inj_onD)
  show ?thesis
  proof (intro set_eqI iffI)
    fix s assume "s \<in> set (map node_value (nodes_at is t))"
    then obtain i n where i: "i \<in> set is" "get_node i t = Some n" "node_value n = s" by (auto simp: nodes_at_def List.map_filter_def)
    then obtain m where m: "m \<in> set (flabels (tr_data t))" "td_domId m = i" "n = refresh_node t m" using g [OF i(1)] by auto
    then have "td_id m = Some s" using one [OF m(1)] i(3) by simp
    then have "(i, Some s) \<in> set (node_keys t)" using key_in [OF m(1)] m(2) by simp
    then show "s \<in> {s. \<exists>j \<in> set is. (j, Some s) \<in> set (node_keys t)}" using i(1) by blast
  next
    fix s assume "s \<in> {s. \<exists>j \<in> set is. (j, Some s) \<in> set (node_keys t)}"
    then obtain m where m: "m \<in> set (flabels (tr_data t))" "td_domId m \<in> set is" "td_id m = Some s" by (auto simp: node_keys_def)
    then have "get_node (td_domId m) t = Some (refresh_node t m)" using plain_get [OF assms(1)] by simp
    then have "refresh_node t m \<in> set (nodes_at is t)" using m(2) by (force simp: nodes_at_def List.map_filter_def)
    moreover have "node_value (refresh_node t m) = s" using one [OF m(1)] m(3) by blast
    ultimately show "s \<in> set (map node_value (nodes_at is t))" by force
  qed
qed

lemma checked_values:
  assumes "plain_tree t"
  shows "set (map node_value (nodes_at (get_checked [1] t) t)) = {s. \<exists>j. (j, Some s) \<in> set (node_keys t) \<and> box_of j t = Some 1}"
proof -
  note ch = checked_ids [OF assms]
  have "\<forall>i \<in> set (get_checked [1] t). i \<in> set (map fst (node_keys t))" unfolding ch by blast
  then have "set (map node_value (nodes_at (get_checked [1] t) t)) = {s. \<exists>j \<in> set (get_checked [1] t). (j, Some s) \<in> set (node_keys t)}"
    by (rule nodes_at_values [OF assms])
  moreover have "j \<in> set (map fst (node_keys t))" if "(j, k) \<in> set (node_keys t)" for j k
    using imageI [OF that, of fst] by simp
  ultimately show ?thesis unfolding ch by blast
qed

lemma named_at:
  assumes "plain_tree t" "n \<in> set (nodes_at is t)"
  shows "td_id n \<noteq> None"
proof -
  obtain i where "get_node i t = Some n" using assms(2) by (auto simp: nodes_at_def List.map_filter_def)
  then obtain m where "m \<in> set (flabels (tr_data t))" "n = refresh_node t m"
    by (auto simp: get_node_def find_node_def walk_flabels find_Some_iff in_set_conv_nth)
  then show ?thesis using assms(1) by (simp add: plain_tree_def named_nodes_def refresh_node_def)
qed

lemma key_unique: "plain_tree t \<Longrightarrow> (i, Some s) \<in> set (node_keys t) \<Longrightarrow> (j, Some s) \<in> set (node_keys t) \<Longrightarrow> i = j"
  using plain_keys(1) [of t] inj_onD [of snd "set (node_keys t)" "(i, Some s)" "(j, Some s)"] by (simp add: distinct_map)

lemma key_named: "plain_tree t \<Longrightarrow> p \<in> set (node_keys t) \<Longrightarrow> snd p \<noteq> None"
  by (auto simp: plain_tree_def named_nodes_def node_keys_def)

lemma collect_linked:
  assumes "plain_tree (ct_tree c)" "cb_multiple c"
  shows "boxes_linked (tb_hidden (collect_values c)) (ct_tree (collect_values c))"
proof -
  define t where "t = ct_tree c"
  have "tb_hidden (collect_values c) = map node_value (nodes_at (get_checked [1] t) t)"
    using assms(2) by (simp add: collect_values_def Let_def t_def)
  then have v: "set (tb_hidden (collect_values c)) = {s. \<exists>j. (j, Some s) \<in> set (node_keys t) \<and> box_of j t = Some 1}"
    using checked_values [OF assms(1), folded t_def] by simp
  have "(snd p \<in> Some ` set (tb_hidden (collect_values c))) = (box_of (fst p) t = Some 1)" if p: "p \<in> set (node_keys t)" for p
  proof -
    obtain j s where "p = (j, Some s)" using key_named [OF assms(1), folded t_def, OF p] by (cases p) auto
    then show ?thesis using p v key_unique [OF assms(1), folded t_def] by auto
  qed
  then show ?thesis by (simp add: boxes_linked_keys t_def)
qed

section \<open>Setting values checks their nodes\<close>

lemma box_known:
  assumes "plain_tree t" "box_of j t = Some v"
  obtains r where "r \<in> set (flabels (tr_dom t))" "dn_id r = j" "dn_box r = Some v"
proof -
  obtain r where "r \<in> set (flabels (tr_dom t))" "dn_id r = j"
    using assms(2) find_tree_None [of "by_id j" "tr_dom t"] by (auto simp: box_of_def element_def by_id_def Option.bind_eq_Some_conv dest: find_tree_label)
  then show ?thesis using that plain_boxes [OF assms(1)] assms(2) by force
qed

lemma check_true:
  assumes p: "plain_tree t" and k: "known i t" and tri: "tri_ok (tr_dom t)"
  defines "u \<equiv> check_node i (Some True) t"
  shows "tri_ok (tr_dom u) \<and> (\<forall>j. box_of j t = Some 1 \<longrightarrow> box_of j u = Some 1) \<and> box_of i u = Some 1"
proof -
  have u: "plain_tree u" "tr_dom u = check_at i 1 (tr_dom t)" using plain_check [OF p k, of True] by (simp_all add: u_def flag_value_def)
  have b: "all_boxed (tr_dom t)" using p by (simp add: plain_tree_def named_nodes_def)
  have l: "list_all2 keeps_one (flabels (tr_dom t)) (flabels (tr_dom u))" using check_at_keeps [OF tri b] u(2) by simp
  have "box_of j u = Some 1" if "box_of j t = Some 1" for j
  proof -
    obtain r where r: "r \<in> set (flabels (tr_dom t))" "dn_id r = j" "dn_box r = Some 1" using box_known [OF p \<open>box_of j t = Some 1\<close>] .
    then obtain s where s: "s \<in> set (flabels (tr_dom u))" "keeps_one r s" using l by (metis list_all2_conv_all_nth in_set_conv_nth)
    from plain_boxes [OF u(1) s(1)] show ?thesis using r s(2) by (simp add: keeps_one_def)
  qed
  moreover have "box_of i u = Some 1"
  proof -
    have "i \<in> set (ids (tr_dom u))" using k plain_ids [OF p] check_at_ids [of i 1 "tr_dom t"] by (simp add: known_def flabels_dom_shape u(2) del: set_map)
    then obtain s where s: "s \<in> set (flabels (tr_dom u))" "dn_id s = i" by auto
    from plain_boxes [OF u(1) s(1)] show ?thesis using check_at_hits [OF plain_ids(1) [OF p] b, of s i 1] s u(2) by simp
  qed
  moreover have "tri_ok (tr_dom u)" unfolding u(2) by (rule check_at_tri_ok [OF b tri]) simp
  ultimately show ?thesis by blast
qed

lemma select_dom: "tri_ok (tr_dom (select_node i t)) = tri_ok (tr_dom t)"
  by (simp add: select_node_def tree_note_def put_selected_boxes split: option.split)

lemma find_key:
  assumes "find_by_id v t = Some n"
  shows "(td_domId n, Some v) \<in> set (node_keys t)"
  using assms key_in by (force simp: find_by_id_def find_node_def walk_flabels find_Some_iff refresh_node_def node_keys_def in_set_conv_nth)

lemma find_no_key: "find_by_id v t = None \<Longrightarrow> (j, Some v) \<notin> set (node_keys t)"
  by (auto simp: find_by_id_def find_node_def walk_flabels find_None_iff node_keys_def)

lemma key_known: "plain_tree t \<Longrightarrow> (j, k) \<in> set (node_keys t) \<Longrightarrow> known j t"
  using plain_known by (fastforce simp: node_keys_def)

lemma check_values_ok:
  assumes "plain_tree t" "tri_ok (tr_dom t)"
  shows "plain_tree (fst (check_values vs t)) \<and> node_keys (fst (check_values vs t)) = node_keys t
    \<and> (\<forall>j. box_of j t = Some 1 \<longrightarrow> box_of j (fst (check_values vs t)) = Some 1)
    \<and> (\<forall>v \<in> set vs. \<forall>j. (j, Some v) \<in> set (node_keys t) \<longrightarrow> box_of j (fst (check_values vs t)) = Some 1)"
  using assms
proof (induction vs arbitrary: t)
  case (Cons v vs)
  show ?case
  proof (cases "find_by_id v t")
    case None
    with Cons find_no_key [OF None] show ?thesis by (simp add: Let_def)
  next
    case (Some n)
    define i where "i = td_domId n"
    define t1 where "t1 = check_node i (Some True) t"
    define t2 where "t2 = select_node i t1"
    have key: "(i, Some v) \<in> set (node_keys t)" using find_key [OF Some] by (simp add: i_def)
    have k: "known i t" by (rule key_known [OF Cons.prems(1) key])
    have 1: "plain_tree t1" "node_keys t1 = node_keys t" using plain_check [OF Cons.prems(1) k] by (simp_all add: t1_def)
    have c: "tri_ok (tr_dom t1)" "\<forall>j. box_of j t = Some 1 \<longrightarrow> box_of j t1 = Some 1" "box_of i t1 = Some 1"
      using check_true [OF Cons.prems(1) k Cons.prems(2)] by (simp_all add: t1_def)
    have 2: "plain_tree t2" "node_keys t2 = node_keys t" "\<forall>j. box_of j t2 = box_of j t1" "tri_ok (tr_dom t2)"
      using plain_select [OF 1(1), of i] 1(2) c(1) by (simp_all add: t2_def select_dom)
    have e: "fst (check_values (v # vs) t) = fst (check_values vs t2)" by (simp add: Some Let_def i_def [symmetric] t1_def [symmetric] t2_def [symmetric])
    have "j = i" if "(j, Some v) \<in> set (node_keys t)" for j using key_unique [OF Cons.prems(1) that key] .
    then show ?thesis unfolding e using Cons.IH [OF 2(1,4)] 2 c by auto
  qed
qed simp

lemma log_frame:
  "plain_tree (t\<lparr>tr_log := l\<rparr>) = plain_tree t" "node_keys (t\<lparr>tr_log := l\<rparr>) = node_keys t" "box_of j (t\<lparr>tr_log := l\<rparr>) = box_of j t"
  by (simp_all add: plain_tree_def tree_ok_def data_shape_def dom_shape_def named_nodes_def node_keys_def box_of_def element_def)

lemma clear_boxes_plain:
  assumes "plain_tree t"
  shows "plain_tree (clear_boxes t) \<and> node_keys (clear_boxes t) = node_keys t \<and> tri_ok (tr_dom (clear_boxes t))"
proof -
  have b: "all_boxed (tr_dom t)" using assms by (simp add: plain_tree_def named_nodes_def)
  have "shape (clear_boxes t) = shape t" by (simp add: clear_boxes_def shape_def data_shape_def dom_shape_def rose.map_comp comp_def)
  then have "plain_tree (clear_boxes t)" by (rule plain_cong [OF assms]) (simp_all add: clear_boxes_def all_boxed_map b)
  then show ?thesis using tri_ok_put_all [OF b, of 0] by (simp add: clear_boxes_def node_keys_def)
qed

lemma set_values_linked:
  assumes "plain_tree (ct_tree c)" "cb_multiple c"
  shows "boxes_linked (tb_hidden (ct_set_values vs c)) (ct_tree (ct_set_values vs c)) \<and> plain_tree (ct_tree (ct_set_values vs c))
    \<and> cb_multiple (ct_set_values vs c) \<and> node_keys (ct_tree (ct_set_values vs c)) = node_keys (ct_tree c)
    \<and> set vs \<subseteq> set (tb_hidden (ct_set_values vs c))"
proof -
  define t where "t = silently (\<lambda>u. fst (check_values vs (clear_boxes (ct_tree c)))) (ct_tree c)"
  have cl: "plain_tree (clear_boxes (ct_tree c))" "node_keys (clear_boxes (ct_tree c)) = node_keys (ct_tree c)" "tri_ok (tr_dom (clear_boxes (ct_tree c)))"
    using clear_boxes_plain [OF assms(1)] by simp_all
  have t: "plain_tree t" "node_keys t = node_keys (ct_tree c)" "\<forall>v \<in> set vs. \<forall>j. (j, Some v) \<in> set (node_keys t) \<longrightarrow> box_of j t = Some 1"
    using check_values_ok [OF cl(1,3), of vs] cl(2) by (simp_all add: t_def silently_def log_frame)
  define more where "more = filter (\<lambda>n. node_value n \<notin> set vs) (nodes_at (get_checked [1] t) t)"
  have ids: "id_string (td_id n) = node_value n" if "n \<in> set (nodes_at (get_checked [1] t) t)" for n
    using that named_at [OF t(1), of n] by (auto simp: id_string_def node_value_def split: option.split)
  have more: "filter (\<lambda>n. id_string (td_id n) \<notin> set vs) (nodes_at (get_checked [1] t) t) = more"
    unfolding more_def by (rule filter_cong [OF refl]) (simp only: ids)
  have "map (id_string \<circ> td_id) more = map node_value more" unfolding more_def by (rule map_cong [OF refl]) (simp add: ids [simplified])
  note more = more this
  have tr: "ct_tree (ct_set_values vs c) = t" and hid: "tb_hidden (ct_set_values vs c) = vs @ map node_value more" and m: "cb_multiple (ct_set_values vs c)"
    using assms(2) by (simp_all add: ct_set_values_def Let_def t_def [symmetric] more [simplified])
  note checked_values [OF t(1)]
  moreover have "set (vs @ map node_value more) = set vs \<union> set (map node_value (nodes_at (get_checked [1] t) t))"
    by (auto simp: more_def)
  ultimately have v: "set (vs @ map node_value more) = set vs \<union> {s. \<exists>j. (j, Some s) \<in> set (node_keys t) \<and> box_of j t = Some 1}" by simp
  have "(snd p \<in> Some ` set (vs @ map node_value more)) = (box_of (fst p) t = Some 1)" if p: "p \<in> set (node_keys t)" for p
  proof -
    obtain j s where js: "p = (j, Some s)" using key_named [OF t(1) p] by (cases p) auto
    have "Some s \<in> Some ` set (vs @ map node_value more) \<longleftrightarrow> s \<in> set (vs @ map node_value more)" by auto
    also have "... \<longleftrightarrow> box_of j t = Some 1" unfolding v using p js t(3) key_unique [OF t(1)] by blast
    finally show ?thesis by (simp only: js snd_conv fst_conv)
  qed
  then have "boxes_linked (vs @ map node_value more) t" by (simp only: boxes_linked_keys) blast
  then show ?thesis using t(1,2) m by (simp add: tr hid)
qed

section \<open>The other operations\<close>

text \<open>What the field keeps: many values, a plain tree, and the checked nodes the values\<close>

definition ct_ok :: "combotree \<Rightarrow> bool" where
  "ct_ok c = (cb_multiple c \<and> plain_tree (ct_tree c) \<and> boxes_linked (tb_hidden c) (ct_tree c))"

lemma plain_get_iff: "plain_tree t \<Longrightarrow> (get_node i t \<noteq> None) = known i t"
proof
  assume p: "plain_tree t" and "get_node i t \<noteq> None"
  then obtain n where "n \<in> set (flabels (tr_data t))" "td_domId n = i"
    by (auto simp: get_node_def find_node_def walk_flabels find_Some_iff by_dom_def in_set_conv_nth)
  then show "known i t" using plain_known [OF p] by blast
next
  assume "plain_tree t" "known i t"
  then show "get_node i t \<noteq> None" using plain_node plain_get by (metis option.distinct(1))
qed

lemma check_unknown: "get_node i t = None \<Longrightarrow> check_node i o' t = t"
  by (simp add: check_node_def)

lemma check_toggle: "get_node i t = Some n \<Longrightarrow> check_node i None t = check_node i (Some (toggled_flag i n t)) t"
  by (cases "find_tree (by_dom i) (tr_data t)") (simp_all add: check_node_def)

lemma ct_check_known:
  assumes "plain_tree (ct_tree c)" "known i (ct_tree c)"
  shows "ct_check i (Some b) c = collect_values (on_tree (check_node i (Some b)) c)"
  using plain_check [OF assms, of b] by (simp add: ct_check_def Let_def on_tree_def is_check_def)

lemma ct_check_ok:
  assumes "cb_multiple c" "plain_tree (ct_tree c)"
  shows "cb_multiple (ct_check i o' c) \<and> plain_tree (ct_tree (ct_check i o' c))
    \<and> (boxes_linked (tb_hidden c) (ct_tree c) \<longrightarrow> boxes_linked (tb_hidden (ct_check i o' c)) (ct_tree (ct_check i o' c)))"
proof (cases "get_node i (ct_tree c)")
  case None
  then have "ct_check i o' c = c" by (simp add: ct_check_def Let_def on_tree_def check_unknown)
  then show ?thesis using assms by simp
next
  case (Some n)
  have k: "known i (ct_tree c)" using plain_get_iff [OF assms(2), of i] Some by simp
  define b where "b = (case o' of None \<Rightarrow> toggled_flag i n (ct_tree c) | Some b \<Rightarrow> b)"
  have "ct_check i o' c = ct_check i (Some b) c"
    by (cases o') (simp_all add: b_def ct_check_def on_tree_def check_toggle [OF Some])
  moreover define d where "d = on_tree (check_node i (Some b)) c"
  ultimately have e: "ct_check i o' c = collect_values d" using ct_check_known [OF assms(2) k] by simp
  have "plain_tree (ct_tree d)" "cb_multiple d" using plain_check [OF assms(2) k, of b] assms(1) by (simp_all add: d_def on_tree_def)
  then show ?thesis using collect_linked [of d] by (simp add: e)
qed

lemma on_select:
  assumes "ct_ok c"
  shows "ct_ok (on_tree (select_node i) c)"
  using assms plain_select [of "ct_tree c" i] by (simp add: ct_ok_def on_tree_def boxes_linked_keys)

lemma collect_ok: "cb_multiple c \<Longrightarrow> plain_tree (ct_tree c) \<Longrightarrow> ct_ok (collect_values c)"
  by (simp add: ct_ok_def collect_linked [simplified])

lemma ct_click_ok: "ct_ok c \<Longrightarrow> ct_ok (ct_click i c)"
  using on_select [of c i] collect_ok ct_check_ok by (auto simp: ct_click_def Let_def ct_ok_def split: option.split)

lemma set_values_ok: "cb_multiple c \<Longrightarrow> plain_tree (ct_tree c) \<Longrightarrow> ct_ok (ct_set_values vs c)"
  using set_values_linked [of c vs] by (simp add: ct_ok_def)

lemma ct_box_ok: "ct_ok c \<Longrightarrow> ct_ok (ct_check i o' c)"
  using ct_check_ok [of c i o'] by (simp add: ct_ok_def)

text \<open>Unchecking: no box is checked by it, and that of the node is not.\<close>

lemma check_false:
  assumes p: "plain_tree t" and k: "known i t"
  defines "u \<equiv> check_node i (Some False) t"
  shows "(\<forall>j. box_of j u = Some 1 \<longrightarrow> box_of j t = Some 1) \<and> box_of i u \<noteq> Some 1"
proof -
  have u: "plain_tree u" "tr_dom u = check_at i 0 (tr_dom t)" using plain_check [OF p k, of False] by (simp_all add: u_def flag_value_def)
  have b: "all_boxed (tr_dom t)" using p by (simp add: plain_tree_def named_nodes_def)
  have l: "list_all2 gains_no_one (flabels (tr_dom t)) (flabels (tr_dom u))" using check_at_loses [OF b] u(2) by simp
  have "box_of j t = Some 1" if one: "box_of j u = Some 1" for j
  proof -
    obtain s where s: "s \<in> set (flabels (tr_dom u))" "dn_id s = j" "dn_box s = Some 1" using box_known [OF u(1) one] .
    then obtain r where r: "r \<in> set (flabels (tr_dom t))" "gains_no_one r s" using l by (metis list_all2_conv_all_nth in_set_conv_nth)
    from plain_boxes [OF p r(1)] show ?thesis using r(2) s by (simp add: gains_no_one_def)
  qed
  moreover have "box_of i u \<noteq> Some 1"
  proof
    assume "box_of i u = Some 1"
    then obtain s where s: "s \<in> set (flabels (tr_dom u))" "dn_id s = i" "dn_box s = Some 1" using box_known [OF u(1)] by blast
    then show False using check_at_hits [OF plain_ids(1) [OF p] b, of s i 0] u(2) by simp
  qed
  ultimately show ?thesis by blast
qed

lemma uncheck_nodes:
  assumes "cb_multiple c" "plain_tree (ct_tree c)" "\<forall>i \<in> set js. known i (ct_tree c)"
  shows "cb_multiple (foldl (\<lambda>c i. ct_check i (Some False) c) c js) \<and> plain_tree (ct_tree (foldl (\<lambda>c i. ct_check i (Some False) c) c js))
    \<and> node_keys (ct_tree (foldl (\<lambda>c i. ct_check i (Some False) c) c js)) = node_keys (ct_tree c)
    \<and> (\<forall>j. box_of j (ct_tree (foldl (\<lambda>c i. ct_check i (Some False) c) c js)) = Some 1 \<longrightarrow> box_of j (ct_tree c) = Some 1 \<and> j \<notin> set js)"
  using assms
proof (induction js arbitrary: c)
  case (Cons i js)
  define d where "d = ct_check i (Some False) c"
  have k: "known i (ct_tree c)" using Cons.prems(3) by simp
  have d: "ct_tree d = check_node i (Some False) (ct_tree c)" "cb_multiple d"
    using ct_check_known [OF Cons.prems(2) k, of False] Cons.prems(1) by (simp_all add: d_def on_tree_def)
  note p = plain_check [OF Cons.prems(2) k, of False, folded d(1)]
  have "known j (ct_tree d)" if "j \<in> set js" for j
    using Cons.prems(3) that check_node_shape [of i "Some False" "ct_tree c", unfolded shape_def] unfolding d(1) known_def by simp
  then show ?case using Cons.IH [OF d(2)] p check_false [OF Cons.prems(2) k, folded d(1)] by (auto simp: d_def [symmetric])
qed simp

lemma ct_clear_ok:
  assumes "ct_ok c"
  shows "ct_ok (ct_clear c)"
proof -
  define c1 where "c1 = on_tree (\<lambda>t. t\<lparr>tr_dom := map (map_rose (\<lambda>r. r\<lparr>dn_selected := False\<rparr>)) (tr_dom t)\<rparr>) c"
  define d where "d = foldl (\<lambda>c i. ct_check i (Some False) c) c1 (get_checked [1] (ct_tree c1))"
  have c1: "cb_multiple c1" "plain_tree (ct_tree c1)"
    using assms plain_mark [of "ct_tree c" "\<lambda>r. r\<lparr>dn_selected := False\<rparr>"] by (simp_all add: c1_def on_tree_def ct_ok_def)
  have "known i (ct_tree c1)" if "i \<in> set (get_checked [1] (ct_tree c1))" for i
    using that unfolding checked_ids [OF c1(2)] using key_known [OF c1(2)] by force
  then have d: "cb_multiple d" "plain_tree (ct_tree d)" "\<forall>j. box_of j (ct_tree d) = Some 1 \<longrightarrow> box_of j (ct_tree c1) = Some 1 \<and> j \<notin> set (get_checked [1] (ct_tree c1))"
    "node_keys (ct_tree d) = node_keys (ct_tree c1)"
    using uncheck_nodes [OF c1, of "get_checked [1] (ct_tree c1)"] by (simp_all add: d_def)
  have "box_of (fst p) (ct_tree d) \<noteq> Some 1" if "p \<in> set (node_keys (ct_tree d))" for p
    using d(3) that unfolding checked_ids [OF c1(2)] d(4) by force
  moreover have "ct_clear c = combo_clear d" unfolding ct_clear_def Let_def c1_def [symmetric] d_def [symmetric] by (rule refl)
  moreover have "ct_tree (combo_clear d) = ct_tree d" "cb_multiple (combo_clear d)" "tb_hidden (combo_clear d) = []"
    using d(1) by (simp_all add: combo_clear_def set_values_def set_text_def Let_def field_note_def)
  ultimately show ?thesis using d(2) by (simp add: ct_ok_def boxes_linked_keys)
qed

section \<open>Loading data\<close>

definition tree_opts :: "tree \<Rightarrow> bool \<times> bool \<times> bool \<times> (tree_hook \<Rightarrow> tnode \<Rightarrow> bool)" where
  "tree_opts t = (tr_checkbox t, tr_cascade t, tr_deep t, tr_allow t)"

lemma opts_steps [simp]:
  "tree_opts (set_element i f t) = tree_opts t" "tree_opts (set_node i g t) = tree_opts t" "tree_opts (set_box i v t) = tree_opts t"
  "tree_opts (tree_note n t) = tree_opts t" "tree_opts (change_dom p h t) = tree_opts t" "tree_opts (change_data p k t) = tree_opts t"
  "tree_opts (t\<lparr>tr_log := l\<rparr>) = tree_opts t" "tree_opts (t\<lparr>tr_next := m\<rparr>) = tree_opts t" "tree_opts (t\<lparr>tr_dom := es\<rparr>) = tree_opts t"
  by (simp_all add: tree_opts_def set_element_def set_node_def set_box_def tree_note_def change_dom_def change_data_def)

lemma opts_foldl: "(\<And>t x. tree_opts (f t x) = tree_opts t) \<Longrightarrow> tree_opts (foldl f t xs) = tree_opts t"
  by (induction xs arbitrary: t) simp_all

lemma opts_check_up [simp]: "tree_opts (check_up i ps t) = tree_opts t"
  by (induction i ps t rule: check_up.induct) simp_all

lemma opts_check [simp]: "tree_opts (check_node i o' t) = tree_opts t"
proof -
  have "tree_opts (mark_node v u n) = tree_opts u" for v u n by (simp add: mark_node_def Let_def split: option.split)
  then have "tree_opts (check_down v n u) = tree_opts u" for v n u by (simp add: check_down_def Let_def opts_foldl)
  then show ?thesis by (simp add: check_node_def Let_def split: option.split)
qed

lemma opts_load: "tree_opts (load_at None app ds t) = tree_opts t"
  by (simp add: load_at_def data_place_def Let_def silently_def initial_checks_def opts_foldl split: option.split)

text \<open>New data must again be a plain tree; values and checks are then joined.\<close>

definition ct_pstep :: "combotree \<Rightarrow> ct_event \<Rightarrow> combotree option" where
  "ct_pstep c e =
     (case e of
        CtLoad ds \<Rightarrow> (if named_nodes (load_at None False ds (ct_tree c)) then Some (ct_step c e) else None)
      | _ \<Rightarrow> Some (ct_step c e))"

lemma ct_load_ok:
  assumes "ct_ok c" "named_nodes (load_at None False ds (ct_tree c))"
  shows "ct_ok (ct_load ds c)"
proof -
  let ?t = "ct_tree c" let ?u = "load_at None False ds ?t"
  have p: "plain_tree ?t" "cb_multiple c" using assms(1) by (simp_all add: ct_ok_def)
  have "tree_ok ?u" by (rule tree_load_ok) (use p in \<open>simp_all add: plain_tree_def place_known_def\<close>)
  then have "plain_tree ?u" using p(1) assms(2) opts_load [of False ds ?t] by (simp add: plain_tree_def tree_opts_def)
  then show ?thesis using p(2) by (simp add: ct_load_def ct_loaded_def Let_def on_tree_def set_values_ok)
qed

interpretation combo_tree: partial_machine ct_pstep ct_ok
proof
  fix c e c' assume ok: "ct_ok c" and e: "ct_pstep c e = Some c'"
  have "cb_multiple c" "plain_tree (ct_tree c)" using ok by (simp_all add: ct_ok_def)
  note setting = set_values_ok [OF this]
  show "ct_ok c'"
    using e ok by (cases e) (auto simp: ct_pstep_def ct_step_def ct_reset_def setting ct_click_ok ct_box_ok ct_clear_ok ct_load_ok split: if_splits)
qed

text \<open>A new field with check boxes, and what a user may do with it\<close>

definition new_combotree :: "string \<Rightarrow> combotree" where
  "new_combotree original =
     combo.extend (combo_of ((new_textbox original '''')\<lparr>tb_editable := False\<rparr>) True) (combotree.fields (new_tree True))"

lemma new_ok: "ct_ok (new_combotree original)"
  by (simp add: ct_ok_def new_combotree_def combotree.defs combo.defs combo_of_def textbox.defs new_textbox_def plain_tree_def tree_ok_def
      named_nodes_def boxes_linked_def new_tree_def data_shape_def dom_shape_def all_boxed_def)

text \<open>
  C40. however a combo tree with check boxes is used (nodes and boxes clicked, values set, cleared,
  reset, data loaded), a node of its tree is checked exactly if its id is one of the values it
  submits. Setting values checks every node they name.
\<close>

theorem values_follow_checks:
  assumes "run_events ct_pstep (new_combotree original) es = Some c"
    and "n \<in> set (flabels (tr_data (ct_tree c)))"
  shows "(td_id n \<in> Some ` set (tb_hidden c)) = (box_of (td_domId n) (ct_tree c) = Some 1)
    \<and> (td_id n \<in> Some ` set vs \<longrightarrow> box_of (td_domId n) (ct_tree (ct_set_values vs c)) = Some 1)"
proof -
  have ok: "ct_ok c" by (rule combo_tree.inv_run [OF new_ok assms(1)])
  then have c: "cb_multiple c" "plain_tree (ct_tree c)" "boxes_linked (tb_hidden c) (ct_tree c)" by (simp_all add: ct_ok_def)
  note set = set_values_linked [OF c(2,1), of vs]
  have "(td_domId n, td_id n) \<in> set (node_keys (ct_tree (ct_set_values vs c)))" using set key_in [OF assms(2)] by simp
  then have "box_of (td_domId n) (ct_tree (ct_set_values vs c)) = Some 1" if "td_id n \<in> Some ` set vs"
    using set that unfolding boxes_linked_keys by force
  then show ?thesis using c(3) assms(2) by (simp add: boxes_linked_def)
qed

definition sample_item :: "string \<Rightarrow> bool \<Rightarrow> tnode forest \<Rightarrow> tnode rose" where
  "sample_item s chk ks = Node \<lparr>td_domId = 0, td_id = Some s, td_text = s, td_iconCls = '''', td_state = NoState, td_checked = chk,
     td_mark = None, td_hidden = False\<rparr> ks"

definition sample_choices :: "ct_event list" where
  "sample_choices = [CtLoad [sample_item ''a'' False [sample_item ''b'' False [], sample_item ''c'' True []], sample_item ''d'' False []],
     CtBox 2, CtSetValues [''d'', ''z''], CtClick 3]"

theorem values_follow_checks_witness:
  "tb_hidden (the (run_events ct_pstep (new_combotree '''') sample_choices)) = [''c'', ''d'']
   \<and> box_of 3 (ct_tree (the (run_events ct_pstep (new_combotree '''') sample_choices))) = Some 1
   \<and> box_of 3 (ct_tree (ct_set_values [''x'', ''c''] (the (run_events ct_pstep (new_combotree '''') sample_choices)))) = Some 1"
proof -
  let ?r = "run_events ct_pstep (new_combotree '''') sample_choices"
  let ?ns = "flabels (tr_data (ct_tree (the ?r)))"
  have "\<not> Option.is_none ?r" by code_simp
  note run = the_is_some [OF this]
  have n: "length ?ns = 4" "td_id (?ns ! 2) = Some ''c''" "td_domId (?ns ! 2) = 3" by code_simp+
  have v: "tb_hidden (the ?r) = [''c'', ''d'']" by code_simp
  have "?ns ! 2 \<in> set ?ns" using n(1) by (intro nth_mem) simp
  from values_follow_checks [OF run this, where vs = "[''x'', ''c'']"] show ?thesis using n(2,3) v by simp
qed

text \<open>
  A new field has one empty value. The checked nodes of loaded data join it, and it is submitted
  and shown with them.
\<close>

lemma empty_value_joined:
  "map_option (\<lambda>c. (tb_hidden c, tb_text c)) (run_events ct_pstep (new_combotree '''') (take 1 sample_choices)) = Some (['''', ''c''], '',c'')"
  by code_simp

end
