(* ===== verification/Spec2Isabelle.thy ===== *)
theory Spec2Isabelle
  imports EasyLoader Pagination DateFields TreeProps Slider GridProps Tabs ComboBox NumberBox Parser Accordion Buttons Validation MenuButtons TreeGrid TreeGridRows Resizable Layout DragDrop Form FormSubmit Window ComboTree
begin

text \<open>
  A verification library for the user interface of the framework. The web applications of the
  repository share one set of widget sources (jQuery EasyUI 1.4.2, in plain form under
  \<open>src/yz-framework-service-consumer/src/main/webapp/js\<close>; the copies in the other two
  applications are identical). File names below are relative to that directory; identifiers such as
  \<open>_22\<close> are the function names of the sources.

  \<^bold>\<open>The program and its parts.\<close>
  \<open>easyloader.js\<close> loads the scripts of the widgets a page asks for, dependencies first. A widget
  keeps its state in a record attached to a DOM element (\<open>$.data\<close>); its methods and event handlers
  read and write that record and the DOM. Fields are stacked: \<open>textbox\<close> shows, edits and submits
  a text, \<open>combo\<close> adds a drop-down panel and several values, \<open>datebox\<close> puts a calendar into the
  panel, \<open>datetimebox\<close> a time spinner beside it, and \<open>timespinner\<close>/\<open>datetimespinner\<close> spin the
  digits of a text; \<open>combobox\<close> fills the panel of a \<open>combo\<close> with rows to choose from, \<open>combotree\<close> with a tree, \<open>numberbox\<close>
  and \<open>numberspinner\<close> make a text field hold a number. \<open>calendar\<close>, \<open>pagination\<close>, \<open>slider\<close>,
  \<open>tree\<close> and \<open>datagrid\<close> stand alone; \<open>tabs\<close> and \<open>accordion\<close> keep a list of panels and open one of
  them. \<open>parser\<close> makes widgets of the marked elements of a page, through the loader where plugins are
  missing; \<open>panel\<close> is the container most widgets are drawn in, \<open>linkbutton\<close> the button of toolbars,
  and \<open>validatebox\<close> checks the text of the fields. \<open>menu\<close> is a tree of items shown beside the mouse
  or under a \<open>menubutton\<close>; \<open>treegrid\<close> is a data grid whose rows form a tree. \<open>draggable\<close>,
  \<open>droppable\<close> and \<open>resizable\<close> turn presses of the mouse into moves of elements and edges; \<open>layout\<close>
  tiles a container with regions, \<open>window\<close> is a panel that floats over the page; \<open>form\<close> loads, clears
  and submits the fields of a page.

  \<^bold>\<open>How they are modelled.\<close>
  The data of a widget, its options and the part of the DOM the code reads back are one record;
  every method and handler is a function on it, composed as the code composes them. Events the code
  answers to are a datatype with a step function. Callbacks the user supplies are functions in the
  record (formatters, validators, vetoes) or entries of a log in the order they are called. Where the
  code can fail or run forever (a month loop without a valid day, a loader that never answers) the
  step returns \<open>None\<close> or waits; where JavaScript yields NaN the value is an option. Numbers are
  \<open>int\<close>, or \<open>rat\<close> where the code divides: the sources compute with values far below 2^53, where
  doubles are exact on integers. Strings are character lists.

  \<^bold>\<open>Theories.\<close>
  \<^item> \<open>JsPrelude\<close>: what the sources use of JavaScript and jQuery (number printing,
    \<open>parseInt\<close>, \<open>split\<close>, \<open>join\<close>, \<open>splice\<close>, \<open>inArray\<close>) and the contracts of the library as
    locales: \<open>event_machine\<close> and \<open>partial_machine\<close> (an invariant kept by every step is kept by every
    session), \<open>guarded_machine\<close> (it is kept by the events a condition allows) and \<open>field_codec\<close> (what
    is shown parses back). Every locale is interpreted by the components that provide it.
  \<^item> \<open>JsDate\<close>: \<open>Date\<close> as the day number and time of day, with the civil calendar and its inverse;
    the contract \<open>day_line\<close>.
  \<^item> \<open>CalendarGrid\<close>, \<open>Calendar\<close> (\<open>plugins/jquery.calendar.js\<close>): the six weeks of a month
    (\<open>_20\<close>), drawing (\<open>_19\<close>), navigation, the month menu, choosing a day.
  \<^item> \<open>EasyLoader\<close> (\<open>easyloader.js\<close>): the module table, the dependency walk \<open>_15\<close>, and loading as a
    transition system of requests, arriving scripts and timers in any order.
  \<^item> \<open>Pagination\<close> (\<open>plugins/jquery.pagination.js\<close>): the toolbar, paging, the number box, refresh.
  \<^item> \<open>TextBox\<close> (\<open>plugins/jquery.textbox.js\<close>, \<open>jquery.combo.js\<close>) and \<open>DateFields\<close>
    (\<open>jquery.datebox.js\<close>, \<open>jquery.timespinner.js\<close>, \<open>jquery.datetimespinner.js\<close>,
    \<open>jquery.datetimebox.js\<close>): values, texts and hidden inputs of fields, formatters and parsers,
    limits and spinning.
  \<^item> \<open>RoseTree\<close>, \<open>Tree\<close>, \<open>TreeShape\<close>, \<open>TreeCheck\<close>, \<open>TreeProps\<close> (\<open>plugins/jquery.tree.js\<close>):
    the node objects and the elements of a tree as two forests, loading, appending, inserting,
    removing, moving, checking with cascade, filtering, expanding, editing.
  \<^item> \<open>Slider\<close> (\<open>plugins/jquery.slider.js\<close>, \<open>jquery.progressbar.js\<close>): values, handles, dragging.
  \<^item> \<open>Grid\<close>, \<open>GridEdit\<close>, \<open>GridRows\<close>, \<open>GridMarks\<close>, \<open>GridProps\<close>
    (\<open>plugins/jquery.datagrid.js\<close>): rows and table rows, selection and checks, clicks, sorting,
    editing, inserting and deleting, accepting and rejecting changes.
  \<^item> \<open>Tabs\<close> (\<open>plugins/jquery.tabs.js\<close>, opening, closing and destroying of \<open>jquery.panel.js\<close>):
    header items and panels, adding, closing, selecting, updating, disabling, the selection history.
  \<^item> \<open>ComboBox\<close> (\<open>plugins/jquery.combobox.js\<close>): rows and groups, their items, values and marks,
    loading, choosing, moving with the keys, queries and filters. \<open>ComboTree\<close>
    (\<open>plugins/jquery.combotree.js\<close>): a tree in the panel, whose check boxes are the values.
  \<^item> \<open>NumberBox\<close> (\<open>plugins/jquery.numberbox.js\<close>, \<open>jquery.numberspinner.js\<close>): formatter, parser,
    limits and rounding, the key filter, setting, clearing, spinning.
  \<^item> \<open>Parser\<close> (\<open>plugins/jquery.parser.js\<close>): parsing a page or a part of it, options read from
    \<open>data-options\<close> and attributes, sizes of elements and of elements that fit their parents.
  \<^item> \<open>Panel\<close> (\<open>plugins/jquery.panel.js\<close>) and \<open>Accordion\<close> (\<open>plugins/jquery.accordion.js\<close>):
    opening, closing, collapsing, maximizing, minimizing, contents loaded from a server; panels of which
    one is expanded, with the hooks an accordion puts into its panels.
  \<^item> \<open>Buttons\<close> (\<open>plugins/jquery.linkbutton.js\<close>): toggle buttons, groups, enabling and disabling.
  \<^item> \<open>Validation\<close> (\<open>plugins/jquery.validatebox.js\<close>): rules, messages, and the polling while a box is
    edited.
  \<^item> \<open>Menu\<close> (\<open>plugins/jquery.menu.js\<close>) and \<open>MenuButtons\<close> (\<open>plugins/jquery.menubutton.js\<close>): items and
    submenus, showing, placing and hiding them, the mouse, the buttons and menus of a page.
  \<^item> \<open>TreeGrid\<close>, \<open>TreeGridRows\<close> (\<open>plugins/jquery.treegrid.js\<close>): trees of rows that name their parents,
    loading them as rows are expanded, appending, inserting, removing, updating and reloading.
  \<^item> \<open>Resizable\<close> (\<open>plugins/jquery.resizable.js\<close>), \<open>DragDrop\<close> (\<open>jquery.draggable.js\<close>,
    \<open>jquery.droppable.js\<close>): edges dragged within limits; elements dragged over zones, with what the
    zones hear.
  \<^item> \<open>Layout\<close> (\<open>plugins/jquery.layout.js\<close>): the boxes of centre and regions, collapsing, expanding,
    sliding out, split bars. \<open>Window\<close> (\<open>jquery.window.js\<close>): levels, masks and shadows of windows over
    the panel, moving, dragging and resizing them.
  \<^item> \<open>Form\<close>, \<open>FormSubmit\<close> (\<open>plugins/jquery.form.js\<close>): loading, clearing, resetting and validating
    the elements and fields of a form; submitting it through a frame, with its answers and timers.

  \<^bold>\<open>What is shown.\<close> For each widget an invariant that every session keeps (the DOM agrees with
  the data, values stay within limits, indices stay in step), what the main operations do, round trips
  (formatting and parsing, paging forth and back, rejecting changes), and refinement of the loops of
  the sources by plain recursion (month grid, cascade of check boxes). Some theorems state what the
  code does where it does not do what it means to: a page size that is not offered, hours read from a
  date-time spinner, an answer for a removed tree node, an edited row that is deleted, a tab closed after hidden ones,
  a grouped number read as a fraction. Further ones are lemmas at the end of the theory of their component.

  \<^bold>\<open>Sessions and their conditions.\<close> The step functions follow the code on the events where it goes
  wrong, too. Where an invariant needs more than a consistent start, the condition is a hypothesis of
  the theorem and a lemma shows what happens without it: a tree is not reloaded and its answers come
  while the node is there (\<open>agreeable\<close> in \<open>TreeShape\<close>); a panel is not maximized or restored while
  hidden (\<open>polite\<close>) and its collapsing is not refused; panels come into an accordion collapsed
  (\<open>fresh_event\<close>); answers of a tree grid belong to rows that still want them
  (\<open>grid_event_ok\<close>); windows are not restored while hidden (\<open>shown_restores\<close>). A condition on the
  state in which an event occurs is stated with \<open>along\<close>, one on the events alone with \<open>list_all\<close>.
  A calendar whose menu stored an empty year holds no year (\<open>cal_nanYear\<close>) and stays without a
  table; its theorem says both what a calendar with a year shows and when it is lost.

  \<^bold>\<open>Bounds and fuel.\<close> Only \<open>parent_chain\<close> of \<open>TreeGridRows\<close> counts its steps: it
  follows the parents of a row at most as often as there are rows, which is enough (\<open>expand_to_path\<close>). The dependency walk of the loader may run
  forever on a cyclic table; it is a partial function, \<open>None\<close> is not returning, and it is shown to
  return for every request on the shipped table. The loop that groups the digits of a number is
  partial in the same way (it does not end when the mark is a digit). The
  calendar's years are integers and its dates exist within the range of \<open>Date\<close> (\<open>date_exists\<close>);
  properties that need it restrict the years to four digits or to
  100 and above, because the \<open>Date\<close> constructor reads 0 to 99 as 1900 to 1999.

  \<^bold>\<open>Simplifications.\<close> Cell values of a grid are strings; the frozen and the scrolling half of a
  table change alike and are one; animations end at once; \<open>Array.sort\<close> is stable. A call the
  source answers with a reference error is outside the model and said so where it matters. Panels of tabs have no header bar
  of their own to collapse; rows of a combo box have strings for values; the marks of a number box are
  one character each, read as the patterns and replacement strings the source builds of them
  (\<open>replace_escaped\<close>, \<open>insert_places\<close>).

  \<^bold>\<open>Not modelled.\<close> Markup, CSS and animation, and the widgets that are little else (\<open>dialog\<close>,
  \<open>tooltip\<close>, \<open>messager\<close>, \<open>searchbox\<close>, \<open>filebox\<close>, \<open>splitbutton\<close>, \<open>mobile\<close>); combos over
  grids and the views of the data grid (\<open>combogrid\<close>, \<open>propertygrid\<close>, \<open>datalist\<close>);
  vendored and minified scripts, locale tables, and the Java services of the repository.
\<close>

end
